(* ===== verification/Oxide_Prelude.thy ===== *)
theory Oxide_Prelude
  imports Main "HOL-Library.Word" "HOL-Library.Monad_Syntax" "HOL-Library.Multiset"
begin

text \<open>
  Shared vocabulary of the development: machine integers and byte strings as the Rust code
  has them, \<open>Result\<close> as a sum type, big-endian integer encodings, and the ordered map that
  models \<open>std::collections::BTreeMap\<close> together with the interface (a locale) through which
  the components use it.
\<close>

unbundle bit_operations_syntax

named_theorems bytes_simps \<open>lengths and round trips of byte encodings\<close>
named_theorems btree_simps \<open>lookup, membership and order of the ordered map\<close>

section \<open>Machine integers, bytes and results\<close>

type_synonym byte = "8 word"
type_synonym u16 = "16 word"
type_synonym u32 = "32 word"
type_synonym u64 = "64 word"
type_synonym bytes = "8 word list"

text \<open>
  \<open>usize\<close> is a 64-bit unsigned integer on the supported targets. Lengths of in-memory
  sequences are natural numbers; the places where the code checks a \<open>usize\<close> sum write the
  check with \<open>usize_checked_add\<close>.
\<close>

definition usize_max :: nat where
  "usize_max = 2 ^ 64 - 1"

definition usize_checked_add :: "nat \<Rightarrow> nat \<Rightarrow> nat option" where
  "usize_checked_add a b = (if a + b \<le> usize_max then Some (a + b) else None)"

lemma usize_checked_add_Some [simp]:
  "usize_checked_add a b = Some c \<longleftrightarrow> c = a + b \<and> a + b \<le> usize_max"
  by (auto simp: usize_checked_add_def)

lemma usize_checked_add_ok [simp]: "a + b \<le> usize_max \<Longrightarrow> usize_checked_add a b = Some (a + b)"
  by (simp add: usize_checked_add_def)

lemma usize_checked_add_None [simp]:
  "usize_checked_add a b = None \<longleftrightarrow> usize_max < a + b"
  by (auto simp: usize_checked_add_def)

text \<open>\<open>checked_add\<close> on a word type.\<close>

definition checked_add :: "'a::len word \<Rightarrow> 'a word \<Rightarrow> 'a word option" where
  "checked_add a b = (if unat a + unat b < 2 ^ LENGTH('a) then Some (a + b) else None)"

lemma checked_add_Some_unat:
  "checked_add a (b :: 'a::len word) = Some c \<longleftrightarrow> unat c = unat a + unat b"
proof -
  have "unat c < 2 ^ LENGTH('a)" by (rule unsigned_less)
  then show ?thesis
    by (auto simp: checked_add_def unat_word_ariths word_unat_eq_iff not_less
        simp del: unsigned_less)
qed

lemma checked_add_None:
  "checked_add (a :: 'a::len word) b = None \<longleftrightarrow> 2 ^ LENGTH('a) \<le> unat a + unat b"
  by (auto simp: checked_add_def)

definition u16_try_from :: "nat \<Rightarrow> u16 option" where
  "u16_try_from n = (if n < 2 ^ 16 then Some (of_nat n) else None)"

text \<open>A Rust \<open>Result<T, E>\<close> is \<open>'e + 'a\<close>: \<open>Inl\<close> carries the error, \<open>Inr\<close> the value.\<close>

definition rbind :: "'e + 'a \<Rightarrow> ('a \<Rightarrow> 'e + 'b) \<Rightarrow> 'e + 'b" where
  "rbind r f = (case r of Inl e \<Rightarrow> Inl e | Inr x \<Rightarrow> f x)"

definition ok_or :: "'e \<Rightarrow> 'a option \<Rightarrow> 'e + 'a" where
  "ok_or e v = (case v of None \<Rightarrow> Inl e | Some x \<Rightarrow> Inr x)"

definition is_ok :: "'e + 'a \<Rightarrow> bool" where
  "is_ok r = (case r of Inl _ \<Rightarrow> False | Inr _ \<Rightarrow> True)"

lemma rbind_simps [simp]:
  "rbind (Inl e) f = Inl e"
  "rbind (Inr x) f = f x"
  by (simp_all add: rbind_def)

lemma ok_or_simps [simp]:
  "ok_or e None = Inl e"
  "ok_or e (Some x) = Inr x"
  by (simp_all add: ok_or_def)

lemma is_ok_simps [simp]:
  "\<not> is_ok (Inl e)"
  "is_ok (Inr x)"
  by (simp_all add: is_ok_def)

lemma rbind_eq_Inr [simp]:
  "rbind r f = Inr y \<longleftrightarrow> (\<exists>x. r = Inr x \<and> f x = Inr y)"
  by (cases r) auto

lemma ok_or_eq_Inr [simp]: "ok_or e v = Inr x \<longleftrightarrow> v = Some x"
  by (cases v) auto

lemma ok_or_eq_Inl [simp]: "ok_or e v = Inl e' \<longleftrightarrow> v = None \<and> e' = e"
  by (cases v) auto

text \<open>\<open>slice::get\<close> with a range: \<open>None\<close> when the range runs past the end.\<close>

definition get_prefix :: "nat \<Rightarrow> 'a list \<Rightarrow> 'a list option" where
  "get_prefix n xs = (if n \<le> length xs then Some (take n xs) else None)"

definition get_from :: "nat \<Rightarrow> 'a list \<Rightarrow> 'a list option" where
  "get_from n xs = (if n \<le> length xs then Some (drop n xs) else None)"

lemma get_prefix_Some [simp]:
  "get_prefix n xs = Some ys \<longleftrightarrow> n \<le> length xs \<and> ys = take n xs"
  by (auto simp: get_prefix_def)

lemma get_prefix_None [simp]: "get_prefix n xs = None \<longleftrightarrow> length xs < n"
  by (auto simp: get_prefix_def)

lemma get_from_Some [simp]:
  "get_from n xs = Some ys \<longleftrightarrow> n \<le> length xs \<and> ys = drop n xs"
  by (auto simp: get_from_def)

lemma get_from_None [simp]: "get_from n xs = None \<longleftrightarrow> length xs < n"
  by (auto simp: get_from_def)

text \<open>ASCII literals of the source (\<open>b"..."\<close>, \<open>b'x'\<close>) as bytes.\<close>

definition ascii :: "string \<Rightarrow> bytes" where
  "ascii s = map of_char s"

lemma length_ascii [simp]: "length (ascii s) = length s"
  by (simp add: ascii_def)

text \<open>Rounding a length up to a multiple of four.\<close>

lemma pad4_step:
  "(n :: nat) mod 4 \<noteq> 0 \<Longrightarrow> (4 - n mod 4) mod 4 = Suc ((4 - Suc n mod 4) mod 4)"
proof -
  assume "n mod 4 \<noteq> 0"
  moreover have "n mod 4 < 4" by simp
  ultimately consider "n mod 4 = 1" | "n mod 4 = 2" | "n mod 4 = 3" by linarith
  then show ?thesis by cases (simp_all add: mod_Suc)
qed

lemma pad4_total: "((n :: nat) + (4 - n mod 4) mod 4) mod 4 = 0"
proof -
  obtain q r where n: "n = 4 * q + r" "r < 4"
    by (metis mod_less_divisor mult_div_mod_eq zero_less_numeral)
  then consider "r = 0" | "r = 1" | "r = 2" | "r = 3" by linarith
  then show ?thesis by cases (simp_all add: n(1) mod_Suc)
qed

text \<open>The two hexadecimal digits of a byte.\<close>

lemma nibbles: "drop_bit 4 (b :: byte) < 16" "b AND 0x0F < 16" "push_bit 4 (drop_bit 4 b) OR (b AND 0x0F) = b"
proof -
  have "unat b < 256" using unsigned_less [of b] by simp
  then show "drop_bit 4 b < 16"
    by (simp add: word_less_nat_alt drop_bit_eq_div unat_div less_mult_imp_div_less)
  show "b AND 0x0F < 16" by (rule word_and_le1 [THEN order.strict_trans1]) simp
  have low: "(0x0F :: byte) = mask 4" by (simp add: mask_eq_exp_minus_1)
  show "push_bit 4 (drop_bit 4 b) OR (b AND 0x0F) = b"
    unfolding low by (rule bit_word_eqI) (auto simp: bit_simps)
qed

section \<open>Big-endian integers\<close>

text \<open>\<open>uN::to_be_bytes\<close> (with \<open>n\<close> bytes) and \<open>uN::from_be_bytes\<close>.\<close>

definition be_bytes :: "nat \<Rightarrow> 'a::len word \<Rightarrow> bytes" where
  "be_bytes n w = map (\<lambda>i. ucast (drop_bit (8 * i) w)) (rev [0..<n])"

definition of_be_bytes :: "bytes \<Rightarrow> 'a::len word" where
  "of_be_bytes bs = foldl (\<lambda>acc b. push_bit 8 acc OR ucast b) 0 bs"

lemma length_be_bytes [simp, bytes_simps]: "length (be_bytes n w) = n"
  by (simp add: be_bytes_def)

lemma be_bytes_Suc:
  "be_bytes (Suc n) w = ucast (drop_bit (8 * n) w) # be_bytes n w"
  by (simp add: be_bytes_def)

lemma foldl_be_acc:
  "foldl (\<lambda>acc b. push_bit 8 acc OR ucast b) (a :: 'a::len word) bs
     = push_bit (8 * length bs) a OR of_be_bytes bs"
proof (induction bs arbitrary: a)
  case Nil
  then show ?case by (simp add: of_be_bytes_def)
next
  case (Cons b bs)
  have step: "of_be_bytes (b # bs) = (push_bit (8 * length bs) (ucast b) OR of_be_bytes bs :: 'a word)"
    using Cons.IH [of "ucast b"] by (simp add: of_be_bytes_def)
  have "foldl (\<lambda>acc b. push_bit 8 acc OR ucast b) a (b # bs)
      = push_bit (8 * length bs) (push_bit 8 a OR ucast b) OR of_be_bytes bs"
    by (simp only: foldl.simps Cons.IH)
  also have "\<dots> = push_bit (8 * length (b # bs)) a OR of_be_bytes (b # bs)"
    by (simp add: step push_bit_or or.assoc add.commute)
  finally show ?case .
qed

lemma of_be_bytes_Nil [simp]: "of_be_bytes [] = 0"
  by (simp add: of_be_bytes_def)

lemma of_be_bytes_Cons:
  "of_be_bytes (b # bs) = (push_bit (8 * length bs) (ucast b) OR of_be_bytes bs :: 'a::len word)"
  using foldl_be_acc [of "ucast b :: 'a word" bs] by (simp add: of_be_bytes_def)

lemma of_be_bytes_bit:
  "bit (of_be_bytes bs :: 'a::len word) i \<longleftrightarrow>
     i < LENGTH('a) \<and> i < 8 * length bs \<and> bit (bs ! (length bs - 1 - i div 8)) (i mod 8)"
proof (induction bs)
  case Nil
  then show ?case by simp
next
  case (Cons b bs)
  let ?n = "length bs"
  have rec: "bit (of_be_bytes (b # bs) :: 'a word) i \<longleftrightarrow>
      i < LENGTH('a) \<and> 8 * ?n \<le> i \<and> bit b (i - 8 * ?n) \<or> bit (of_be_bytes bs :: 'a word) i"
    by (auto simp: of_be_bytes_Cons bit_or_iff bit_push_bit_iff bit_ucast_iff)
  consider "i < 8 * ?n" | "8 * ?n \<le> i" "i < 8 * Suc ?n" | "8 * Suc ?n \<le> i"
    by linarith
  then show ?case
  proof cases
    case 1
    then have "i div 8 < ?n" by (simp add: div_less_iff_less_mult mult.commute)
    then have "(b # bs) ! (length (b # bs) - 1 - i div 8) = bs ! (?n - 1 - i div 8)"
      by (metis Suc_diff_Suc diff_Suc_eq_diff_pred diff_Suc_1 length_Cons nth_Cons_Suc)
    then show ?thesis
      unfolding rec Cons.IH using 1 by auto
  next
    case 2
    then obtain r where r: "i = 8 * ?n + r" "r < 8"
      by (metis add_less_cancel_left le_Suc_ex mult_Suc_right add.commute)
    then have "i div 8 = ?n" "i mod 8 = r" by simp_all
    then show ?thesis
      unfolding rec Cons.IH using r by auto
  next
    case 3
    then have "\<not> bit b (i - 8 * ?n)"
      using bit_imp_le_length [of b "i - 8 * ?n"] by auto
    then show ?thesis
      unfolding rec Cons.IH using 3 by auto
  qed
qed

lemma be_bytes_nth:
  assumes "i < n"
  shows "be_bytes n w ! i = ucast (drop_bit (8 * (n - 1 - i)) w)"
  using assms by (simp add: be_bytes_def rev_nth)

lemma of_be_be_bytes [simp, bytes_simps]:
  assumes "LENGTH('a::len) \<le> 8 * n"
  shows "of_be_bytes (be_bytes n (w :: 'a word)) = w"
proof (rule bit_word_eqI)
  fix i
  assume i: "i < LENGTH('a)"
  with assms have "i < 8 * n" by simp
  then have "i div 8 < n" by (simp add: div_less_iff_less_mult mult.commute)
  then have "n - 1 - (n - 1 - i div 8) = i div 8" and "n - 1 - i div 8 < n" by auto
  with i \<open>i < 8 * n\<close> show "bit (of_be_bytes (be_bytes n w) :: 'a word) i = bit w i"
    by (simp add: of_be_bytes_bit be_bytes_nth bit_ucast_iff bit_drop_bit_eq)
qed

lemma be_bytes_of_be [simp, bytes_simps]:
  assumes "8 * length bs \<le> LENGTH('a::len)"
  shows "be_bytes (length bs) (of_be_bytes bs :: 'a word) = bs"
proof (rule nth_equalityI)
  show "length (be_bytes (length bs) (of_be_bytes bs :: 'a word)) = length bs" by simp
next
  fix k
  assume "k < length (be_bytes (length bs) (of_be_bytes bs :: 'a word))"
  then have k: "k < length bs" by simp
  show "be_bytes (length bs) (of_be_bytes bs :: 'a word) ! k = bs ! k"
  proof (rule bit_word_eqI)
    fix i
    assume i: "i < LENGTH(8)"
    let ?j = "8 * (length bs - 1 - k) + i"
    have "?j < 8 * length bs" "?j div 8 = length bs - 1 - k" "?j mod 8 = i"
      using k i by auto
    with assms k i show "bit (be_bytes (length bs) (of_be_bytes bs :: 'a word) ! k) i = bit (bs ! k) i"
      by (simp add: be_bytes_nth bit_ucast_iff bit_drop_bit_eq of_be_bytes_bit)
  qed
qed

lemma be_bytes_inj:
  assumes "LENGTH('a::len) \<le> 8 * n"
  shows "be_bytes n (v :: 'a word) = be_bytes n w \<longleftrightarrow> v = w"
  using of_be_be_bytes [OF assms] by metis

section \<open>Sequences\<close>

text \<open>\<open>collect\<close> into a \<open>Result\<close>: the first error wins.\<close>

fun traverse :: "('a \<Rightarrow> 'e + 'b) \<Rightarrow> 'a list \<Rightarrow> 'e + 'b list" where
  "traverse f [] = Inr []"
| "traverse f (x # xs) = rbind (f x) (\<lambda>y. rbind (traverse f xs) (\<lambda>ys. Inr (y # ys)))"

lemma traverse_all_ok:
  "(\<And>x. x \<in> set xs \<Longrightarrow> f x = Inr (g x)) \<Longrightarrow> traverse f xs = Inr (map g xs)"
  by (induction xs) auto

lemma traverse_Inr_nth:
  "traverse f xs = Inr ys \<Longrightarrow> length ys = length xs \<and> (\<forall>i<length xs. f (xs ! i) = Inr (ys ! i))"
  by (induction xs arbitrary: ys) (auto simp: nth_Cons split: nat.splits)

text \<open>\<open>slice::chunks\<close>; a chunk size of zero panics in the source and never occurs.\<close>

function chunks :: "nat \<Rightarrow> 'a list \<Rightarrow> 'a list list" where
  "chunks n xs = (if n = 0 \<or> xs = [] then [] else take n xs # chunks n (drop n xs))"
  by pat_completeness auto
termination
  by (relation "measure (\<lambda>(n, xs). length xs)") (auto simp: neq_Nil_conv)

declare chunks.simps [simp del]

definition div_ceil :: "nat \<Rightarrow> nat \<Rightarrow> nat" where
  "div_ceil a b = (if a mod b = 0 then a div b else a div b + 1)"

lemma div_ceil_le_iff: "0 < b \<Longrightarrow> div_ceil a b \<le> n \<longleftrightarrow> a \<le> n * b"
proof -
  assume b: "0 < b"
  have a: "a = b * (a div b) + a mod b" by simp
  show ?thesis
  proof (cases "a mod b = 0")
    case True
    with a b show ?thesis
      by (metis add.right_neutral div_ceil_def mult.commute mult_le_cancel1)
  next
    case False
    then have "\<not> b dvd a" by (simp add: dvd_eq_mod_eq_0)
    have "a div b < n \<longleftrightarrow> a < n * b" using b by (simp add: div_less_iff_less_mult)
    also have "\<dots> \<longleftrightarrow> a \<le> n * b"
      using \<open>\<not> b dvd a\<close> by (metis dvd_triv_right le_eq_less_or_eq)
    finally show ?thesis using False by (simp add: div_ceil_def Suc_le_eq)
  qed
qed

lemma concat_chunks [simp]: "0 < n \<Longrightarrow> concat (chunks n xs) = xs"
  by (induction n xs rule: chunks.induct) (subst chunks.simps, simp)

lemma chunks_bound: "c \<in> set (chunks n xs) \<Longrightarrow> c \<noteq> [] \<and> length c \<le> n"
proof (induction n xs rule: chunks.induct)
  case (1 n xs)
  then show ?case
    by (subst (asm) (2) chunks.simps) (auto split: if_splits)
qed

lemma length_chunks: "0 < n \<Longrightarrow> length (chunks n xs) = div_ceil (length xs) n"
proof (induction n xs rule: chunks.induct)
  case (1 n xs)
  show ?case
  proof (cases "xs = []")
    case True
    then show ?thesis by (subst chunks.simps) (simp add: div_ceil_def)
  next
    case False
    have "length (chunks n xs) = Suc (div_ceil (length xs - n) n)"
      using False "1" by (subst chunks.simps) simp
    also have "\<dots> = div_ceil (length xs) n"
    proof (cases "length xs < n")
      case True
      with False show ?thesis by (simp add: div_ceil_def)
    next
      case False
      with "1.prems" show ?thesis by (simp add: div_ceil_def le_mod_geq le_div_geq)
    qed
    finally show ?thesis .
  qed
qed

section \<open>Ordered maps\<close>

text \<open>
  What the components rely on when they use a \<open>BTreeMap\<close>: lookup after insertion and
  removal, and that \<open>len\<close> counts the keys. The lemmas of the locale are the counting
  arguments the components need.
\<close>

locale ordered_map =
  fixes get :: "'m \<Rightarrow> 'k \<Rightarrow> 'v option"
    and put :: "'k \<Rightarrow> 'v \<Rightarrow> 'm \<Rightarrow> 'm"
    and del :: "'k \<Rightarrow> 'm \<Rightarrow> 'm"
    and len :: "'m \<Rightarrow> nat"
    and wf :: "'m \<Rightarrow> bool"
  assumes get_put: "wf m \<Longrightarrow> get (put k v m) = (get m)(k := Some v)"
    and get_del: "wf m \<Longrightarrow> get (del k m) = (get m)(k := None)"
    and wf_put: "wf m \<Longrightarrow> wf (put k v m)"
    and wf_del: "wf m \<Longrightarrow> wf (del k m)"
    and finite_dom: "wf m \<Longrightarrow> finite (dom (get m))"
    and len_card: "wf m \<Longrightarrow> len m = card (dom (get m))"
begin

lemma len_put:
  assumes "wf m"
  shows "len (put k v m) = (if get m k = None then Suc (len m) else len m)"
  using assms by (auto simp: len_card wf_put get_put finite_dom card_insert_if insert_absorb)

lemma len_del_le: "wf m \<Longrightarrow> len (del k m) \<le> len m"
  by (simp add: len_card wf_del get_del finite_dom card_mono)

text \<open>A map whose keys lie in a finite set holds all of them exactly when it is large enough.\<close>

lemma len_eq_card_iff:
  assumes "wf m" "finite K" "dom (get m) \<subseteq> K"
  shows "len m = card K \<longleftrightarrow> dom (get m) = K"
  using assms by (metis card_subset_eq len_card)

lemma len_le_card: "wf m \<Longrightarrow> finite K \<Longrightarrow> dom (get m) \<subseteq> K \<Longrightarrow> len m \<le> card K"
  by (simp add: len_card card_mono)

end

text \<open>The model of \<open>BTreeMap\<close>: an association list in strictly increasing key order.\<close>

type_synonym ('k, 'v) btree = "('k \<times> 'v) list"

fun bt_insert :: "'k::linorder \<Rightarrow> 'v \<Rightarrow> ('k, 'v) btree \<Rightarrow> ('k, 'v) btree" where
  "bt_insert k v [] = [(k, v)]"
| "bt_insert k v (e # m) =
     (if k < fst e then (k, v) # e # m
      else if fst e < k then e # bt_insert k v m
      else (k, v) # m)"

definition bt_remove :: "'k \<Rightarrow> ('k, 'v) btree \<Rightarrow> ('k, 'v) btree" where
  "bt_remove k m = filter (\<lambda>e. fst e \<noteq> k) m"

definition bt_retain :: "('k \<Rightarrow> bool) \<Rightarrow> ('k, 'v) btree \<Rightarrow> ('k, 'v) btree" where
  "bt_retain P m = filter (\<lambda>e. P (fst e)) m"

abbreviation bt_get :: "('k, 'v) btree \<Rightarrow> 'k \<Rightarrow> 'v option" where
  "bt_get \<equiv> map_of"

abbreviation bt_keys :: "('k, 'v) btree \<Rightarrow> 'k list" where
  "bt_keys m \<equiv> map fst m"

definition bt_wf :: "('k::linorder, 'v) btree \<Rightarrow> bool" where
  "bt_wf m \<longleftrightarrow> sorted_wrt (<) (map fst m)"

lemma bt_wf_Nil [simp]: "bt_wf []"
  by (simp add: bt_wf_def)

lemma bt_wf_single [simp]: "bt_wf [(k, v)]"
  by (simp add: bt_wf_def)

lemma bt_wf_Cons: "bt_wf (e # m) \<longleftrightarrow> (\<forall>e'\<in>set m. fst e < fst e') \<and> bt_wf m"
  by (auto simp: bt_wf_def)

lemma bt_wf_distinct: "bt_wf m \<Longrightarrow> distinct (bt_keys m)"
  by (simp add: bt_wf_def strict_sorted_iff)

lemma set_bt_insert_subset: "set (bt_insert k v m) \<subseteq> insert (k, v) (set m)"
  by (induction m) auto

lemma keys_bt_insert [btree_simps]: "fst ` set (bt_insert k v m) = insert k (fst ` set m)"
  by (induction m) auto

lemma bt_wf_insert [simp, btree_simps]: "bt_wf m \<Longrightarrow> bt_wf (bt_insert k v m)"
proof (induction m)
  case (Cons e m)
  then show ?case
    using set_bt_insert_subset [of k v m] by (fastforce simp: bt_wf_Cons)
qed simp

lemma bt_get_insert [simp, btree_simps]:
  "bt_wf m \<Longrightarrow> bt_get (bt_insert k v m) = (bt_get m)(k := Some v)"
proof (induction m)
  case (Cons e m)
  then show ?case
    by (cases e) (auto simp: bt_wf_Cons fun_eq_iff)
qed (simp add: fun_eq_iff)

lemma bt_wf_filter [simp, btree_simps]: "bt_wf m \<Longrightarrow> bt_wf (filter P m)"
  by (induction m) (auto simp: bt_wf_Cons)

lemma bt_get_retain [btree_simps]:
  "bt_get (bt_retain P m) k = (if P k then bt_get m k else None)"
  unfolding bt_retain_def by (induction m) auto

lemma bt_get_remove [btree_simps]: "bt_get (bt_remove k m) = (bt_get m)(k := None)"
  unfolding bt_remove_def by (induction m) (auto simp: fun_eq_iff)

lemma bt_wf_remove [simp, btree_simps]: "bt_wf m \<Longrightarrow> bt_wf (bt_remove k m)"
  by (simp add: bt_remove_def)

lemma bt_wf_retain [simp, btree_simps]: "bt_wf m \<Longrightarrow> bt_wf (bt_retain P m)"
  by (simp add: bt_retain_def)

lemma bt_length_card: "bt_wf m \<Longrightarrow> length m = card (dom (bt_get m))"
  by (metis bt_wf_distinct distinct_card dom_map_of_conv_image_fst length_map list.set_map)

interpretation btree: ordered_map bt_get bt_insert bt_remove length bt_wf
  by unfold_locales (auto simp: btree_simps finite_dom_map_of bt_length_card)

lemma bt_remove_length_less:
  "bt_get m k = Some v \<Longrightarrow> length (bt_remove k m) < length m"
proof -
  assume "bt_get m k = Some v"
  then have "(k, v) \<in> set m" by (rule map_of_SomeD)
  then show ?thesis
    unfolding bt_remove_def by (intro length_filter_less) auto
qed

section \<open>State machines with an invariant\<close>

text \<open>
  The contract between a component and its callers: every operation keeps an invariant, so
  every run of operations keeps it. The second locale adds a rank that no operation lowers
  (a counter, an acknowledgement number, a set of accepted values).
\<close>

locale invariant_machine =
  fixes step :: "'s \<Rightarrow> 'e \<Rightarrow> 's"
    and inv :: "'s \<Rightarrow> bool"
  assumes step_inv: "inv s \<Longrightarrow> inv (step s e)"
begin

lemma run_inv: "inv s \<Longrightarrow> inv (foldl step s es)"
  by (induction es arbitrary: s) (auto intro: step_inv)

end

locale monotone_machine = invariant_machine step inv
  for step :: "'s \<Rightarrow> 'e \<Rightarrow> 's" and inv :: "'s \<Rightarrow> bool" +
  fixes rank :: "'s \<Rightarrow> 'r::preorder"
  assumes step_mono: "inv s \<Longrightarrow> rank s \<le> rank (step s e)"
begin

lemma run_mono: "inv s \<Longrightarrow> rank s \<le> rank (foldl step s es)"
proof (induction es arbitrary: s)
  case (Cons e es)
  then have "rank (step s e) \<le> rank (foldl step (step s e) es)"
    using step_inv by blast
  with Cons.prems show ?case
    using step_mono order_trans by fastforce
qed simp

end

end
