(* ===== verification/Mosh_Crypto.thy ===== *)
theory Mosh_Crypto
  imports Oxide_Prelude
begin

text \<open>
  The authenticated datagram envelope of the Mosh transport
  (\<open>crates/fernomade/crypto/src/lib.rs\<close>): the 63-bit packet counter with its direction bit,
  nonce construction, sealing and opening. AES-128-OCB3 and Base64 are third-party code and
  stand as parameters: a record \<open>aead\<close> of the two cipher functions, and a decoding function.
\<close>

section \<open>Keys\<close>

datatype key_error = InvalidBase64 | InvalidLength

definition session_key_bytes :: nat where
  "session_key_bytes = 16"

definition base64_padding_quantum_bytes :: nat where
  "base64_padding_quantum_bytes = 4"

text \<open>The loop that appends \<open>=\<close> until the length is a multiple of four.\<close>

function pad_key :: "bytes \<Rightarrow> bytes" where
  "pad_key value =
     (if length value mod base64_padding_quantum_bytes \<noteq> 0
      then pad_key (value @ ascii ''='') else value)"
  by pat_completeness auto
termination
proof (relation "measure (\<lambda>v. (4 - length v mod 4) mod 4)")
  fix v :: bytes
  assume "length v mod base64_padding_quantum_bytes \<noteq> 0"
  then show "(v @ ascii ''='', v) \<in> measure (\<lambda>v. (4 - length v mod 4) mod 4)"
    using pad4_step [of "length v"] by (simp add: base64_padding_quantum_bytes_def)
qed simp

declare pad_key.simps [simp del]

definition session_key_decode :: "(bytes \<Rightarrow> bytes option) \<Rightarrow> bytes \<Rightarrow> key_error + bytes" where
  "session_key_decode base64_decode value =
     (case base64_decode (pad_key value) of
        None \<Rightarrow> Inl InvalidBase64
      | Some decoded \<Rightarrow>
          (if length decoded \<noteq> session_key_bytes then Inl InvalidLength else Inr decoded))"

section \<open>Directions and counters\<close>

datatype peer_role = Client | Server

datatype packet_direction = ClientToServer | ServerToClient

definition DIRECTION_BIT :: u64 where
  "DIRECTION_BIT = push_bit 63 1"

definition MAX_COUNTER :: u64 where
  "MAX_COUNTER = DIRECTION_BIT - 1"

fun for_outbound :: "peer_role \<Rightarrow> packet_direction" where
  "for_outbound Client = ClientToServer"
| "for_outbound Server = ServerToClient"

fun for_inbound :: "peer_role \<Rightarrow> packet_direction" where
  "for_inbound Client = ServerToClient"
| "for_inbound Server = ClientToServer"

fun direction_encode :: "packet_direction \<Rightarrow> u64 \<Rightarrow> u64" where
  "direction_encode ClientToServer counter = counter"
| "direction_encode ServerToClient counter = counter OR DIRECTION_BIT"

definition direction_decode :: "u64 \<Rightarrow> packet_direction \<times> u64" where
  "direction_decode value =
     ((if value AND DIRECTION_BIT = 0 then ClientToServer else ServerToClient),
      value AND MAX_COUNTER)"

definition make_nonce :: "bytes \<Rightarrow> bytes" where
  "make_nonce prefix = replicate (12 - 8) 0 @ prefix"

section \<open>The secure channel\<close>

text \<open>
  The cipher keyed with a session key: \<open>encrypt key nonce plaintext\<close> and
  \<open>decrypt key nonce ciphertext\<close>, \<open>None\<close> for an error of the backend. A keyed cipher
  object (\<open>Ocb3<Aes128>\<close>) is represented by its key.
\<close>

record aead =
  aead_encrypt :: "bytes \<Rightarrow> bytes \<Rightarrow> bytes \<Rightarrow> bytes option"
  aead_decrypt :: "bytes \<Rightarrow> bytes \<Rightarrow> bytes \<Rightarrow> bytes option"

text \<open>
  What RFC 7253 promises of the cipher: decryption under the same key and nonce inverts
  encryption, and the ciphertext carries a 16-byte tag.
\<close>

definition aead_correct :: "aead \<Rightarrow> bool" where
  "aead_correct A \<longleftrightarrow>
     (\<forall>k n p c. aead_encrypt A k n p = Some c \<longrightarrow>
        aead_decrypt A k n c = Some p \<and> length c = length p + 16)"

datatype seal_error = CounterExhausted | EncryptionFailed

datatype open_error = PacketTooShort | AuthenticationFailed | UnexpectedDirection

record secure_channel =
  outbound_cipher :: bytes
  inbound_cipher :: bytes
  outbound_direction :: packet_direction
  inbound_direction :: packet_direction
  next_counter :: "u64 option"

record authenticated_packet =
  ap_counter :: u64
  ap_plaintext :: bytes

definition secure_channel_new :: "peer_role \<Rightarrow> bytes \<Rightarrow> secure_channel" where
  "secure_channel_new role key =
     \<lparr>outbound_cipher = key, inbound_cipher = key,
      outbound_direction = for_outbound role, inbound_direction = for_inbound role,
      next_counter = Some 0\<rparr>"

definition seal_next ::
  "aead \<Rightarrow> secure_channel \<Rightarrow> bytes \<Rightarrow> (seal_error + bytes) \<times> secure_channel" where
  "seal_next A ch plaintext =
     (case next_counter ch of
        None \<Rightarrow> (Inl CounterExhausted, ch)
      | Some counter \<Rightarrow>
          let encoded_number = direction_encode (outbound_direction ch) counter;
              prefix = be_bytes 8 encoded_number;
              nonce = make_nonce prefix
          in (case aead_encrypt A (outbound_cipher ch) nonce plaintext of
                None \<Rightarrow> (Inl EncryptionFailed, ch)
              | Some sealed \<Rightarrow>
                  (Inr (prefix @ sealed),
                   ch\<lparr>next_counter :=
                        (case checked_add counter 1 of
                           None \<Rightarrow> None
                         | Some n \<Rightarrow> (if n \<le> MAX_COUNTER then Some n else None))\<rparr>)))"

definition secure_channel_open ::
  "aead \<Rightarrow> secure_channel \<Rightarrow> bytes \<Rightarrow> open_error + authenticated_packet" where
  "secure_channel_open A ch packet =
     (if length packet < 8 + 16 then Inl PacketTooShort
      else
        let prefix = take 8 packet;
            encoded_number = of_be_bytes prefix;
            (direction, counter) = direction_decode encoded_number;
            nonce = make_nonce prefix
        in (case aead_decrypt A (inbound_cipher ch) nonce (drop 8 packet) of
              None \<Rightarrow> Inl AuthenticationFailed
            | Some plaintext \<Rightarrow>
                (if direction \<noteq> inbound_direction ch then Inl UnexpectedDirection
                 else Inr \<lparr>ap_counter = counter, ap_plaintext = plaintext\<rparr>)))"

text \<open>Sealing a sequence of plaintexts, stopping at the first error as the callers' \<open>collect\<close>.\<close>

fun seal_all ::
  "aead \<Rightarrow> secure_channel \<Rightarrow> bytes list \<Rightarrow> (seal_error + bytes list) \<times> secure_channel" where
  "seal_all A ch [] = (Inr [], ch)"
| "seal_all A ch (p # ps) =
     (case seal_next A ch p of
        (Inl e, ch') \<Rightarrow> (Inl e, ch')
      | (Inr pkt, ch') \<Rightarrow>
          (case seal_all A ch' ps of
             (Inl e, ch'') \<Rightarrow> (Inl e, ch'')
           | (Inr pkts, ch'') \<Rightarrow> (Inr (pkt # pkts), ch'')))"

section \<open>Padding\<close>

lemma pad_key_replicate:
  "pad_key v = v @ replicate ((4 - length v mod 4) mod 4) (of_char CHR ''='')"
proof (induction v rule: pad_key.induct)
  case (1 v)
  show ?case
  proof (cases "length v mod 4 = 0")
    case True
    then show ?thesis
      by (subst pad_key.simps) (simp add: base64_padding_quantum_bytes_def)
  next
    case False
    then have "(4 - length v mod 4) mod 4 = Suc ((4 - length (v @ ascii ''='') mod 4) mod 4)"
      using pad4_step [of "length v"] by simp
    with False "1" show ?thesis
      by (subst pad_key.simps) (simp add: base64_padding_quantum_bytes_def ascii_def)
  qed
qed

lemma pad_key_length: "length (pad_key v) mod 4 = 0 \<and> length (pad_key v) < length v + 4"
  using pad4_total [of "length v"] by (simp add: pad_key_replicate)

section \<open>Counters and directions\<close>

lemma MAX_COUNTER_mask: "MAX_COUNTER = mask 63"
  by (simp add: MAX_COUNTER_def DIRECTION_BIT_def mask_eq_exp_minus_1)

lemma counter_bound_iff: "c \<le> MAX_COUNTER \<longleftrightarrow> take_bit 63 c = c"
proof -
  have "c \<le> MAX_COUNTER \<longleftrightarrow> unat c < 2 ^ 63"
    by (simp add: MAX_COUNTER_def DIRECTION_BIT_def word_le_nat_alt push_bit_eq_mult)
       linarith
  also have "\<dots> \<longleftrightarrow> take_bit 63 c = c"
    by (simp only: word_unat_eq_iff unsigned_take_bit_eq take_bit_nat_eq_self_iff)
  finally show ?thesis .
qed

lemma counter_not_bit63: "c \<le> MAX_COUNTER \<Longrightarrow> \<not> bit c 63"
  unfolding counter_bound_iff by (metis bit_take_bit_iff less_irrefl)

lemma and_direction_bit: "v AND DIRECTION_BIT = 0 \<longleftrightarrow> \<not> bit v 63"
  using and_exp_eq_0_iff_not_bit [of v 63]
  by (simp only: DIRECTION_BIT_def push_bit_eq_mult mult_1)

lemma direction_encode_bit63:
  assumes "c \<le> MAX_COUNTER"
  shows "bit (direction_encode d c) 63 \<longleftrightarrow> d = ServerToClient"
  using counter_not_bit63 [OF assms]
  by (cases d) (simp_all add: DIRECTION_BIT_def bit_or_iff bit_push_bit_iff)

lemma direction_decode_encode [simp]:
  assumes "c \<le> MAX_COUNTER"
  shows "direction_decode (direction_encode d c) = (d, c)"
proof -
  have "direction_encode d c AND MAX_COUNTER = c"
    using assms
    by (cases d)
       (simp_all add: MAX_COUNTER_mask counter_bound_iff [unfolded MAX_COUNTER_mask]
          DIRECTION_BIT_def take_bit_push_bit flip: take_bit_eq_mask)
  moreover have "direction_encode d c AND DIRECTION_BIT = 0 \<longleftrightarrow> d = ClientToServer"
    unfolding and_direction_bit direction_encode_bit63 [OF assms] by (cases d) simp_all
  ultimately show ?thesis
    unfolding direction_decode_def by (cases d) (simp_all only: if_True if_False simp_thms packet_direction.distinct)
qed

lemma direction_encode_inj:
  assumes "c \<le> MAX_COUNTER" "c' \<le> MAX_COUNTER"
  shows "direction_encode d c = direction_encode d' c' \<longleftrightarrow> d = d' \<and> c = c'"
proof
  assume "direction_encode d c = direction_encode d' c'"
  then have "direction_decode (direction_encode d c) = direction_decode (direction_encode d' c')"
    by (rule arg_cong)
  then show "d = d' \<and> c = c'"
    unfolding direction_decode_encode [OF assms(1)] direction_decode_encode [OF assms(2)]
    by (rule Pair_inject) (rule conjI)
qed (simp only:)

section \<open>Sealing and opening\<close>

text \<open>The invariant: an unexhausted channel holds a 63-bit counter.\<close>

definition channel_ok :: "secure_channel \<Rightarrow> bool" where
  "channel_ok ch \<longleftrightarrow> (\<forall>c. next_counter ch = Some c \<longrightarrow> c \<le> MAX_COUNTER)"

definition seal_count :: "secure_channel \<Rightarrow> nat" where
  "seal_count ch = (case next_counter ch of None \<Rightarrow> 2 ^ 63 | Some c \<Rightarrow> unat c)"

lemma unat_MAX_COUNTER: "unat MAX_COUNTER = 2 ^ 63 - 1"
  by (simp add: MAX_COUNTER_def DIRECTION_BIT_def push_bit_eq_mult)

lemma channel_ok_new [simp]: "channel_ok (secure_channel_new role key)"
  by (simp add: channel_ok_def secure_channel_new_def)

text \<open>What a successful seal produces and how it moves the channel.\<close>

lemma seal_nextE:
  assumes "seal_next A ch p = (Inr pkt, ch')"
  obtains c sealed where "next_counter ch = Some c"
    and "pkt = be_bytes 8 (direction_encode (outbound_direction ch) c) @ sealed"
    and "aead_encrypt A (outbound_cipher ch)
           (make_nonce (be_bytes 8 (direction_encode (outbound_direction ch) c))) p = Some sealed"
    and "ch' = ch\<lparr>next_counter :=
           (case checked_add c 1 of None \<Rightarrow> None
            | Some n \<Rightarrow> if n \<le> MAX_COUNTER then Some n else None)\<rparr>"
  using assms by (auto simp: seal_next_def Let_def split: option.splits)

lemma seal_next_frame:
  "outbound_cipher (snd (seal_next A ch p)) = outbound_cipher ch"
  "inbound_cipher (snd (seal_next A ch p)) = inbound_cipher ch"
  "outbound_direction (snd (seal_next A ch p)) = outbound_direction ch"
  "inbound_direction (snd (seal_next A ch p)) = inbound_direction ch"
  by (simp_all add: seal_next_def Let_def split: option.splits)

lemma next_counter_after_seal:
  assumes "channel_ok ch" "next_counter ch = Some c"
  shows "(case checked_add c 1 of None \<Rightarrow> None
            | Some n \<Rightarrow> if n \<le> MAX_COUNTER then Some n else None)
         = (if unat c < 2 ^ 63 - 1 then Some (c + 1) else None)"
proof -
  have "unat c \<le> 2 ^ 63 - 1"
    using assms by (simp add: channel_ok_def word_le_nat_alt unat_MAX_COUNTER)
  moreover from this have "unat (c + 1) = Suc (unat c)"
    by (simp add: unat_word_ariths)
  ultimately show ?thesis
    by (auto simp: checked_add_def word_le_nat_alt unat_MAX_COUNTER)
qed

lemma seal_step_ok: "channel_ok ch \<Longrightarrow> channel_ok (snd (seal_next A ch p))"
  by (auto simp: seal_next_def channel_ok_def Let_def split: option.splits if_splits)

lemma seal_count_step:
  assumes "channel_ok ch" "seal_next A ch p = (Inr pkt, ch')"
  shows "seal_count ch' = Suc (seal_count ch)"
  using assms(2)
proof (rule seal_nextE)
  fix c sealed
  assume c: "next_counter ch = Some c"
    and ch': "ch' = ch\<lparr>next_counter :=
           (case checked_add c 1 of None \<Rightarrow> None
            | Some n \<Rightarrow> if n \<le> MAX_COUNTER then Some n else None)\<rparr>"
  have "unat c \<le> 2 ^ 63 - 1"
    using assms(1) c by (simp add: channel_ok_def word_le_nat_alt unat_MAX_COUNTER)
  then show ?thesis
    using next_counter_after_seal [OF assms(1) c]
    by (auto simp: ch' c seal_count_def unat_word_ariths)
qed

lemma seal_count_mono: "channel_ok ch \<Longrightarrow> seal_count ch \<le> seal_count (snd (seal_next A ch p))"
proof (cases "seal_next A ch p")
  case (Pair r ch')
  assume ok: "channel_ok ch"
  show ?thesis
  proof (cases r)
    case (Inl e)
    with Pair have "ch' = ch" by (auto simp: seal_next_def Let_def split: option.splits)
    with Pair show ?thesis by simp
  next
    case (Inr pkt)
    with Pair ok show ?thesis by (simp add: seal_count_step)
  qed
qed

interpretation sealing: monotone_machine
  "\<lambda>ch p. snd (seal_next A ch p)" channel_ok seal_count for A
  by unfold_locales (simp_all add: seal_step_ok seal_count_mono)

text \<open>
  The packets of a whole run: the \<open>i\<close>-th carries the counter \<open>seal_count ch + i\<close> in its
  prefix and the ciphertext of the \<open>i\<close>-th plaintext.
\<close>

definition packet_for :: "aead \<Rightarrow> bytes \<Rightarrow> packet_direction \<Rightarrow> nat \<Rightarrow> bytes \<Rightarrow> bytes \<Rightarrow> bool" where
  "packet_for A key d i p pkt \<longleftrightarrow> i < 2 ^ 63 \<and>
     (\<exists>sealed. pkt = be_bytes 8 (direction_encode d (of_nat i)) @ sealed \<and>
        aead_encrypt A key (make_nonce (be_bytes 8 (direction_encode d (of_nat i)))) p = Some sealed)"

lemma seal_all_packets:
  assumes "channel_ok ch" "seal_all A ch ps = (Inr pkts, ch')"
  shows "length pkts = length ps \<and> (\<forall>i<length ps.
    packet_for A (outbound_cipher ch) (outbound_direction ch) (seal_count ch + i) (ps ! i) (pkts ! i))"
  using assms
proof (induction ps arbitrary: ch pkts)
  case Nil
  then show ?case by simp
next
  case (Cons p ps)
  from Cons.prems(2) obtain pkt ch1 pkts' where
    one: "seal_next A ch p = (Inr pkt, ch1)"
    and rest: "seal_all A ch1 ps = (Inr pkts', ch')" and pkts: "pkts = pkt # pkts'"
    by (auto split: prod.splits sum.splits)
  from one have ok1: "channel_ok ch1" and
    frame: "outbound_cipher ch1 = outbound_cipher ch" "outbound_direction ch1 = outbound_direction ch"
    using seal_step_ok [OF Cons.prems(1), of A p] seal_next_frame [of A ch p] by simp_all
  have "packet_for A (outbound_cipher ch) (outbound_direction ch) (seal_count ch) p pkt"
    using one
  proof (rule seal_nextE)
    fix c sealed
    assume "next_counter ch = Some c"
      "pkt = be_bytes 8 (direction_encode (outbound_direction ch) c) @ sealed"
      "aead_encrypt A (outbound_cipher ch)
         (make_nonce (be_bytes 8 (direction_encode (outbound_direction ch) c))) p = Some sealed"
    with Cons.prems(1) show ?thesis
      by (auto simp: packet_for_def seal_count_def channel_ok_def word_le_nat_alt unat_MAX_COUNTER)
  qed
  moreover note Cons.IH [OF ok1 rest, unfolded frame seal_count_step [OF Cons.prems(1) one]]
  ultimately show ?case
    by (auto simp: pkts nth_Cons split: nat.splits)
qed

lemma of_nat_counter_le: "i < 2 ^ 63 \<Longrightarrow> (of_nat i :: u64) \<le> MAX_COUNTER"
proof -
  assume "i < 2 ^ 63"
  then have "unat (of_nat i :: u64) = i"
    by (simp add: unat_of_nat)
  with \<open>i < 2 ^ 63\<close> show ?thesis
    by (simp add: word_le_nat_alt unat_MAX_COUNTER)
qed

lemma open_packet_for:
  assumes "aead_correct A" "packet_for A (inbound_cipher ch) d i p pkt"
  shows "secure_channel_open A ch pkt =
    (if d = inbound_direction ch then Inr \<lparr>ap_counter = of_nat i, ap_plaintext = p\<rparr>
     else Inl UnexpectedDirection)"
proof -
  from assms(2) obtain sealed where i: "i < 2 ^ 63"
    and pkt: "pkt = be_bytes 8 (direction_encode d (of_nat i)) @ sealed"
    and enc: "aead_encrypt A (inbound_cipher ch)
        (make_nonce (be_bytes 8 (direction_encode d (of_nat i)))) p = Some sealed"
    by (auto simp: packet_for_def)
  from assms(1) enc have "aead_decrypt A (inbound_cipher ch)
        (make_nonce (be_bytes 8 (direction_encode d (of_nat i)))) sealed = Some p"
    and "length sealed = length p + 16"
    by (auto simp: aead_correct_def)
  with direction_decode_encode [OF of_nat_counter_le [OF i], of d] show ?thesis
    by (simp add: secure_channel_open_def pkt Let_def)
qed

section \<open>Properties\<close>

lemma new_channel_simps [simp]:
  "outbound_cipher (secure_channel_new role key) = key"
  "inbound_cipher (secure_channel_new role key) = key"
  "outbound_direction (secure_channel_new role key) = for_outbound role"
  "inbound_direction (secure_channel_new role key) = for_inbound role"
  "seal_count (secure_channel_new role key) = 0"
  by (simp_all add: secure_channel_new_def seal_count_def)

lemma new_channel_packets:
  assumes "seal_all A (secure_channel_new role key) ps = (Inr pkts, ch')"
  shows "length pkts = length ps"
    and "i < length ps \<Longrightarrow> packet_for A key (for_outbound role) i (ps ! i) (pkts ! i)"
  using seal_all_packets [OF channel_ok_new assms] by simp_all

lemma for_inbound_eq_outbound [simp]: "for_outbound r = for_inbound r' \<longleftrightarrow> r \<noteq> r'"
  by (cases r; cases r') simp_all

lemma new_channel_open:
  assumes "aead_correct A" "packet_for A key (for_outbound role) i p pkt"
  shows "secure_channel_open A (secure_channel_new peer key) pkt =
    (if role = peer then Inl UnexpectedDirection
     else Inr \<lparr>ap_counter = of_nat i, ap_plaintext = p\<rparr>)"
  using open_packet_for [of A "secure_channel_new peer key"] assms by simp

text \<open>
  Property C34: every sequence of datagrams sealed by one peer is opened by the other peer
  (same key, opposite role) to the original plaintexts, numbered from zero in sealing order.
\<close>

theorem sealed_packets_open:
  assumes "aead_correct A" "role \<noteq> peer"
    and "seal_all A (secure_channel_new role key) ps = (Inr pkts, ch')"
  shows "map (secure_channel_open A (secure_channel_new peer key)) pkts
       = map (\<lambda>(i, p). Inr \<lparr>ap_counter = of_nat i, ap_plaintext = p\<rparr>) (enumerate 0 ps)"
  using new_channel_packets(1) [OF assms(3)] assms(2)
    new_channel_open [OF assms(1) new_channel_packets(2) [OF assms(3)]]
  by (intro nth_equalityI) (simp_all add: nth_enumerate_eq)

text \<open>
  A datagram reflected to the peer that sealed it never opens; it is rejected for
  its direction, although it authenticates under the shared key.
\<close>

theorem reflected_packet_rejected:
  assumes "aead_correct A"
    and "seal_all A (secure_channel_new role key) ps = (Inr pkts, ch')" "pkt \<in> set pkts"
  shows "secure_channel_open A (secure_channel_new role key) pkt = Inl UnexpectedDirection"
proof -
  from assms(3) obtain i where "i < length pkts" "pkt = pkts ! i"
    by (auto simp: in_set_conv_nth)
  with new_channel_packets(1) [OF assms(2)]
    new_channel_open [OF assms(1) new_channel_packets(2) [OF assms(2)]]
  show ?thesis by simp
qed

lemma packet_nonce_inj:
  assumes "packet_for A key d i p pkt" "packet_for A key d' j q qkt"
    and "make_nonce (take 8 pkt) = make_nonce (take 8 qkt)"
  shows "d = d' \<and> i = j"
proof -
  from assms have "be_bytes 8 (direction_encode d (of_nat i)) = be_bytes 8 (direction_encode d' (of_nat j))"
    and ij: "i < 2 ^ 63" "j < 2 ^ 63"
    by (auto simp: packet_for_def make_nonce_def)
  then have "d = d'" and eq: "(of_nat i :: u64) = of_nat j"
    by (simp_all add: be_bytes_inj direction_encode_inj of_nat_counter_le)
  from arg_cong [OF eq, of unat] ij have "i = j" by (simp add: unat_of_nat)
  with \<open>d = d'\<close> show ?thesis by simp
qed

lemma nonces_distinct:
  assumes "seal_all A (secure_channel_new role key) ps = (Inr pkts, ch')"
  shows "distinct (map (\<lambda>pkt. make_nonce (take 8 pkt)) pkts)"
  using new_channel_packets [OF assms] packet_nonce_inj
  by (simp add: distinct_conv_nth) (metis)

text \<open>
  Property C9: no nonce is ever used twice under one session key. All datagrams sealed by the
  client and all datagrams sealed by the server of a session carry pairwise different nonces.
\<close>

theorem session_nonces_distinct:
  assumes "seal_all A (secure_channel_new Client key) ps = (Inr pkts, ch')"
    and "seal_all A (secure_channel_new Server key) qs = (Inr qkts, sh')"
  shows "distinct (map (\<lambda>pkt. make_nonce (take 8 pkt)) (pkts @ qkts))"
proof -
  have "make_nonce (take 8 p) \<noteq> make_nonce (take 8 q)" if "p \<in> set pkts" "q \<in> set qkts" for p q
  proof -
    from that obtain i j where "i < length pkts" "p = pkts ! i" "j < length qkts" "q = qkts ! j"
      by (auto simp: in_set_conv_nth)
    with new_channel_packets [OF assms(1)] new_channel_packets [OF assms(2)]
    have "packet_for A key ClientToServer i (ps ! i) p" "packet_for A key ServerToClient j (qs ! j) q"
      by auto
    then show ?thesis using packet_nonce_inj by blast
  qed
  then show ?thesis
    using nonces_distinct [OF assms(1)] nonces_distinct [OF assms(2)] by auto
qed

section \<open>Witnesses\<close>

text \<open>A concrete cipher with the documented behaviour: the plaintext and a zero tag.\<close>

definition plain_aead :: aead where
  "plain_aead = \<lparr>aead_encrypt = (\<lambda>k n p. Some (p @ replicate 16 0)),
                 aead_decrypt = (\<lambda>k n c. Some (take (length c - 16) c))\<rparr>"

lemma plain_aead_correct: "aead_correct plain_aead"
  by (simp add: aead_correct_def plain_aead_def)

lemma plain_seal_two:
  "seal_all plain_aead (secure_channel_new role key) [p, q] =
     (Inr [be_bytes 8 (direction_encode (for_outbound role) 0) @ p @ replicate 16 0,
           be_bytes 8 (direction_encode (for_outbound role) 1) @ q @ replicate 16 0],
      (secure_channel_new role key)\<lparr>next_counter := Some 2\<rparr>)"
proof -
  have "(1 :: u64) \<le> MAX_COUNTER" "(2 :: u64) \<le> MAX_COUNTER"
    by (simp_all add: word_le_nat_alt unat_MAX_COUNTER)
  then show ?thesis
    by (simp add: seal_next_def secure_channel_new_def plain_aead_def Let_def checked_add_def)
qed

lemma sealed_packets_open_witness:
  "\<exists>pkts ch'. seal_all plain_aead (secure_channel_new Client [7]) [ [1], [2, 3] ] = (Inr pkts, ch') \<and>
     map (secure_channel_open plain_aead (secure_channel_new Server [7])) pkts
       = [Inr \<lparr>ap_counter = 0, ap_plaintext = [1]\<rparr>, Inr \<lparr>ap_counter = 1, ap_plaintext = [2, 3]\<rparr>]"
proof -
  note sealed = plain_seal_two [of Client "[7]" "[1]" "[2, 3]"]
  show ?thesis
    using sealed sealed_packets_open [OF plain_aead_correct peer_role.distinct(1) sealed]
    by (intro exI conjI) (assumption, simp)
qed

lemma reflected_packet_rejected_witness:
  "secure_channel_open plain_aead (secure_channel_new Client [7])
     (be_bytes 8 (direction_encode ClientToServer 1) @ [2, 3] @ replicate 16 0) = Inl UnexpectedDirection"
  by (rule reflected_packet_rejected [OF plain_aead_correct plain_seal_two [of Client _ "[1]"]]) simp

lemma session_nonces_distinct_witness:
  "distinct (map (\<lambda>pkt. make_nonce (take 8 pkt))
     ([be_bytes 8 (direction_encode ClientToServer 0) @ [1] @ replicate 16 0,
       be_bytes 8 (direction_encode ClientToServer 1) @ [2] @ replicate 16 0] @
      [be_bytes 8 (direction_encode ServerToClient 0) @ [3] @ replicate 16 0,
       be_bytes 8 (direction_encode ServerToClient 1) @ [4] @ replicate 16 0]))"
  using session_nonces_distinct [OF plain_seal_two [of Client "[7]" "[1]" "[2]"]
      plain_seal_two [of Server "[7]" "[3]" "[4]"]]
  unfolding for_outbound.simps .

end
