(* ===== verification/Mosh_Fragment.thy ===== *)
theory Mosh_Fragment
  imports Oxide_Prelude
begin

text \<open>
  Fragmentation of state messages (\<open>crates/fernomade/wire/src/fragment.rs\<close>): the 14-byte
  fragment header, splitting at the 1214-byte boundary, and the bounded accumulator that
  reassembles one state message from reordered and duplicated fragments.
\<close>

section \<open>Fragments\<close>

definition FRAGMENT_HEADER_BYTES :: nat where
  "FRAGMENT_HEADER_BYTES = 14"

definition FINAL_FRAGMENT_BIT :: u16 where
  "FINAL_FRAGMENT_BIT = push_bit 15 1"

definition FRAGMENT_INDEX_MASK :: u16 where
  "FRAGMENT_INDEX_MASK = FINAL_FRAGMENT_BIT - 1"

definition MAX_FRAGMENT_BODY_BYTES :: nat where
  "MAX_FRAGMENT_BODY_BYTES = 1214"

definition MAX_RECEIVED_FRAGMENT_BODY_BYTES :: nat where
  "MAX_RECEIVED_FRAGMENT_BODY_BYTES = 1300"

datatype fragment_error =
    HeaderTooShort | BodyTooLarge | TooManyFragments | MismatchedState | IndexAfterFinal
  | ConflictingFinalIndex | ConflictingDuplicate | MessageTooLarge | MissingFragment

record fragment_header =
  fh_sent_timestamp :: u16
  fh_echoed_timestamp :: u16
  fh_state_id :: u64
  fh_index :: u16
  fh_is_final :: bool

record fragment =
  frag_header :: fragment_header
  frag_body :: bytes

definition fragment_parse :: "bytes \<Rightarrow> fragment_error + fragment" where
  "fragment_parse plaintext =
     rbind (ok_or HeaderTooShort (get_prefix FRAGMENT_HEADER_BYTES plaintext)) (\<lambda>header_bytes.
       let fragment_word = of_be_bytes (take 2 (drop 12 header_bytes)) :: u16;
           header = \<lparr>fh_sent_timestamp = of_be_bytes (take 2 header_bytes),
                     fh_echoed_timestamp = of_be_bytes (take 2 (drop 2 header_bytes)),
                     fh_state_id = of_be_bytes (take 8 (drop 4 header_bytes)),
                     fh_index = fragment_word AND FRAGMENT_INDEX_MASK,
                     fh_is_final = (fragment_word AND FINAL_FRAGMENT_BIT \<noteq> 0)\<rparr>;
           body = drop FRAGMENT_HEADER_BYTES plaintext
       in if MAX_RECEIVED_FRAGMENT_BODY_BYTES < length body then Inl BodyTooLarge
          else Inr \<lparr>frag_header = header, frag_body = body\<rparr>)"

definition fragment_split ::
  "bytes \<Rightarrow> u16 \<Rightarrow> u16 \<Rightarrow> u64 \<Rightarrow> fragment_error + fragment list" where
  "fragment_split message sent_timestamp echoed_timestamp state_id =
     (let chunk_count = div_ceil (max 1 (length message)) MAX_FRAGMENT_BODY_BYTES in
      if unat FRAGMENT_INDEX_MASK + 1 < chunk_count then Inl TooManyFragments
      else if message = [] then
        Inr [\<lparr>frag_header = \<lparr>fh_sent_timestamp = sent_timestamp,
                             fh_echoed_timestamp = echoed_timestamp,
                             fh_state_id = state_id, fh_index = 0, fh_is_final = True\<rparr>,
              frag_body = []\<rparr>]
      else traverse (\<lambda>(index, body).
             rbind (ok_or TooManyFragments (u16_try_from index)) (\<lambda>i.
               Inr \<lparr>frag_header = \<lparr>fh_sent_timestamp = sent_timestamp,
                                    fh_echoed_timestamp = echoed_timestamp,
                                    fh_state_id = state_id, fh_index = i,
                                    fh_is_final = (index + 1 = chunk_count)\<rparr>,
                     frag_body = body\<rparr>))
             (enumerate 0 (chunks MAX_FRAGMENT_BODY_BYTES message)))"

definition fragment_encode :: "fragment \<Rightarrow> bytes" where
  "fragment_encode f =
     (let h = frag_header f;
          final_bit = (if fh_is_final h then FINAL_FRAGMENT_BIT else 0)
      in be_bytes 2 (fh_sent_timestamp h) @ be_bytes 2 (fh_echoed_timestamp h)
         @ be_bytes 8 (fh_state_id h)
         @ be_bytes 2 ((fh_index h AND FRAGMENT_INDEX_MASK) OR final_bit)
         @ frag_body f)"

section \<open>The accumulator\<close>

record fragment_accumulator =
  acc_state_id :: u64
  maximum_message_bytes :: nat
  acc_fragments :: "(u16, bytes) btree"
  final_index :: "u16 option"
  total_bytes :: nat

definition accumulator_new :: "u64 \<Rightarrow> nat \<Rightarrow> fragment_accumulator" where
  "accumulator_new sid maximum =
     \<lparr>acc_state_id = sid, maximum_message_bytes = maximum, acc_fragments = [],
      final_index = None, total_bytes = 0\<rparr>"

definition try_complete :: "fragment_accumulator \<Rightarrow> fragment_error + bytes option" where
  "try_complete acc =
     (case final_index acc of
        None \<Rightarrow> Inr None
      | Some fi \<Rightarrow>
          if length (acc_fragments acc) \<noteq> unat fi + 1 then Inr None
          else rbind (traverse (\<lambda>i. ok_or MissingFragment (bt_get (acc_fragments acc) (of_nat i)))
                        [0..<unat fi + 1])
                 (\<lambda>bodies. Inr (Some (concat bodies))))"

text \<open>
  \<open>push\<close> returns the result and the accumulator as the method leaves it, on the error paths
  too: a final index that was recorded and a byte total that was raised stay so.
\<close>

definition push_body ::
  "fragment_accumulator \<Rightarrow> fragment \<Rightarrow> (fragment_error + bytes option) \<times> fragment_accumulator" where
  "push_body acc f =
     (case bt_get (acc_fragments acc) (fh_index (frag_header f)) of
        Some existing \<Rightarrow>
          if existing = frag_body f then (try_complete acc, acc)
          else (Inl ConflictingDuplicate, acc)
      | None \<Rightarrow>
          (case usize_checked_add (total_bytes acc) (length (frag_body f)) of
             None \<Rightarrow> (Inl MessageTooLarge, acc)
           | Some raised \<Rightarrow>
               let acc' = acc\<lparr>total_bytes := raised\<rparr> in
               if maximum_message_bytes acc' < raised then (Inl MessageTooLarge, acc')
               else
                 let acc'' = acc'\<lparr>acc_fragments :=
                       bt_insert (fh_index (frag_header f)) (frag_body f) (acc_fragments acc')\<rparr>
                 in (try_complete acc'', acc'')))"

definition accumulator_push ::
  "fragment_accumulator \<Rightarrow> fragment \<Rightarrow> (fragment_error + bytes option) \<times> fragment_accumulator" where
  "accumulator_push acc f =
     (let index = fh_index (frag_header f) in
      if fh_state_id (frag_header f) \<noteq> acc_state_id acc then (Inl MismatchedState, acc)
      else if (case final_index acc of None \<Rightarrow> False | Some fi \<Rightarrow> fi < index)
      then (Inl IndexAfterFinal, acc)
      else if fh_is_final (frag_header f) then
        (if (case final_index acc of None \<Rightarrow> False | Some fi \<Rightarrow> fi \<noteq> index)
         then (Inl ConflictingFinalIndex, acc)
         else if \<exists>k\<in>set (bt_keys (acc_fragments acc)). index < k
         then (Inl IndexAfterFinal, acc)
         else push_body (acc\<lparr>final_index := Some index\<rparr>) f)
      else push_body acc f)"

text \<open>The results of pushing a sequence of fragments.\<close>

fun push_results ::
  "fragment_accumulator \<Rightarrow> fragment list \<Rightarrow> (fragment_error + bytes option) list" where
  "push_results acc [] = []"
| "push_results acc (f # fs) =
     fst (accumulator_push acc f) # push_results (snd (accumulator_push acc f)) fs"

section \<open>Parsing inverts encoding\<close>

lemma FRAGMENT_INDEX_MASK_mask: "FRAGMENT_INDEX_MASK = mask 15"
  by (simp add: FRAGMENT_INDEX_MASK_def FINAL_FRAGMENT_BIT_def mask_eq_exp_minus_1)

lemma unat_FRAGMENT_INDEX_MASK [simp]: "unat FRAGMENT_INDEX_MASK = 32767"
  by (simp add: FRAGMENT_INDEX_MASK_def FINAL_FRAGMENT_BIT_def push_bit_eq_mult)

lemma index_bound_iff: "i \<le> FRAGMENT_INDEX_MASK \<longleftrightarrow> take_bit 15 i = i"
proof -
  have "i \<le> FRAGMENT_INDEX_MASK \<longleftrightarrow> unat i < 2 ^ 15"
    by (simp add: word_le_nat_alt) linarith
  also have "\<dots> \<longleftrightarrow> take_bit 15 i = i"
    by (simp only: word_unat_eq_iff unsigned_take_bit_eq take_bit_nat_eq_self_iff)
  finally show ?thesis .
qed

lemma and_final_bit: "v AND FINAL_FRAGMENT_BIT = 0 \<longleftrightarrow> \<not> bit v 15"
  using and_exp_eq_0_iff_not_bit [of v 15]
  by (simp only: FINAL_FRAGMENT_BIT_def push_bit_eq_mult mult_1)

lemma bit_FINAL_FRAGMENT_BIT: "bit FINAL_FRAGMENT_BIT n \<longleftrightarrow> n = 15"
proof -
  have "bit FINAL_FRAGMENT_BIT n \<longleftrightarrow> bit (2 ^ 15 :: u16) n"
    by (simp only: FINAL_FRAGMENT_BIT_def push_bit_eq_mult mult_1)
  also have "\<dots> \<longleftrightarrow> n = 15"
    by (simp only: bit_exp_iff) (auto simp: possible_bit_word)
  finally show ?thesis .
qed

lemma fragment_word_index:
  "((i AND FRAGMENT_INDEX_MASK) OR (if b then FINAL_FRAGMENT_BIT else 0)) AND FRAGMENT_INDEX_MASK
     = i AND FRAGMENT_INDEX_MASK"
  by (rule bit_word_eqI)
     (auto simp: FRAGMENT_INDEX_MASK_mask bit_FINAL_FRAGMENT_BIT bit_and_iff bit_or_iff bit_mask_iff)

lemma fragment_word_final:
  "((i AND FRAGMENT_INDEX_MASK) OR (if b then FINAL_FRAGMENT_BIT else 0)) AND FINAL_FRAGMENT_BIT \<noteq> 0
     \<longleftrightarrow> b"
  unfolding and_final_bit
  by (auto simp: FRAGMENT_INDEX_MASK_mask bit_FINAL_FRAGMENT_BIT bit_and_iff bit_or_iff bit_mask_iff)

lemma fragment_word_join:
  "(w AND FRAGMENT_INDEX_MASK AND FRAGMENT_INDEX_MASK)
     OR (if w AND FINAL_FRAGMENT_BIT \<noteq> 0 then FINAL_FRAGMENT_BIT else 0) = w"
  unfolding and_final_bit
proof (rule bit_word_eqI)
  fix n
  assume "n < LENGTH(16)"
  then have "n < 15 \<or> n = 15" by auto
  then show "bit ((w AND FRAGMENT_INDEX_MASK AND FRAGMENT_INDEX_MASK)
     OR (if \<not> \<not> bit w 15 then FINAL_FRAGMENT_BIT else 0)) n = bit w n"
    by (auto simp: FRAGMENT_INDEX_MASK_mask bit_FINAL_FRAGMENT_BIT bit_and_iff
      bit_or_iff bit_mask_iff)
qed

lemma take_be_bytes_append [simp]: "n \<le> m \<Longrightarrow> take m (be_bytes n w @ ys) = be_bytes n w @ take (m - n) ys"
  by simp

lemma parse_encode:
  assumes "fh_index (frag_header f) \<le> FRAGMENT_INDEX_MASK"
    and "length (frag_body f) \<le> MAX_RECEIVED_FRAGMENT_BODY_BYTES"
  shows "fragment_parse (fragment_encode f) = Inr f"
proof -
  let ?h = "frag_header f"
  let ?w = "(fh_index ?h AND FRAGMENT_INDEX_MASK)
     OR (if fh_is_final ?h then FINAL_FRAGMENT_BIT else 0)"
  have "fh_index ?h AND FRAGMENT_INDEX_MASK = fh_index ?h"
    using assms(1) by (simp only: index_bound_iff) (simp add: FRAGMENT_INDEX_MASK_mask flip: take_bit_eq_mask)
  moreover have "fragment_encode f = be_bytes 2 (fh_sent_timestamp ?h)
      @ be_bytes 2 (fh_echoed_timestamp ?h) @ be_bytes 8 (fh_state_id ?h) @ be_bytes 2 ?w @ frag_body f"
    by (simp add: fragment_encode_def Let_def)
  ultimately show ?thesis
    using assms(2) fragment_word_index [of "fh_index ?h" "fh_is_final ?h"]
      fragment_word_final [of "fh_index ?h" "fh_is_final ?h"]
    by (simp add: fragment_parse_def FRAGMENT_HEADER_BYTES_def Let_def drop_append)
qed

lemma be_bytes_field:
  assumes "n + k \<le> length bs" "8 * n \<le> LENGTH('a::len)"
  shows "be_bytes n (of_be_bytes (take n (drop k bs)) :: 'a word) = take n (drop k bs)"
  using be_bytes_of_be [of "take n (drop k bs)", where 'a = 'a] assms by simp

lemma encode_parse:
  assumes "fragment_parse bs = Inr f"
  shows "fragment_encode f = bs" "fh_index (frag_header f) \<le> FRAGMENT_INDEX_MASK"
    "length (frag_body f) \<le> MAX_RECEIVED_FRAGMENT_BODY_BYTES"
proof -
  let ?w = "of_be_bytes (take 2 (drop 12 (take 14 bs))) :: u16"
  from assms have len: "14 \<le> length bs"
    and f: "f = \<lparr>frag_header = \<lparr>fh_sent_timestamp = of_be_bytes (take 2 bs),
                     fh_echoed_timestamp = of_be_bytes (take 2 (drop 2 (take 14 bs))),
                     fh_state_id = of_be_bytes (take 8 (drop 4 (take 14 bs))),
                     fh_index = ?w AND FRAGMENT_INDEX_MASK,
                     fh_is_final = (?w AND FINAL_FRAGMENT_BIT \<noteq> 0)\<rparr>, frag_body = drop 14 bs\<rparr>"
    and body: "length (drop 14 bs) \<le> MAX_RECEIVED_FRAGMENT_BODY_BYTES"
    by (auto simp: fragment_parse_def FRAGMENT_HEADER_BYTES_def Let_def split: if_splits)
  have join: "take n (drop k bs) @ drop (n + k) bs = drop k bs" for n k
    by (metis append_take_drop_id drop_drop)
  have within: "take n (drop k (take 14 bs)) = take n (drop k bs)" if "n + k \<le> 14" for n k
    using that by (simp add: drop_take min_def)
  have w: "?w = of_be_bytes (take 2 (drop 12 bs))"
    using within [of 2 12] by (simp only: numeral_plus_numeral semiring_norm le_refl)
  have "fragment_encode f = take 2 bs @ take 2 (drop 2 bs) @ take 8 (drop 4 bs)
      @ take 2 (drop 12 bs) @ drop 14 bs"
    using len be_bytes_field [of 2 0 bs, where 'a = 16] be_bytes_field [of 2 2 bs, where 'a = 16]
      be_bytes_field [of 8 4 bs, where 'a = 64] be_bytes_field [of 2 12 bs, where 'a = 16]
      fragment_word_join [of "of_be_bytes (take 2 (drop 12 bs))"]
    unfolding f w by (simp add: fragment_encode_def within Let_def split del: if_split)
  also have "\<dots> = bs"
    using join [of 2 0] join [of 2 2] join [of 8 4] join [of 2 12] by simp
  finally show "fragment_encode f = bs" .
  show "fh_index (frag_header f) \<le> FRAGMENT_INDEX_MASK"
    by (simp add: f FRAGMENT_INDEX_MASK_mask index_bound_iff [unfolded FRAGMENT_INDEX_MASK_mask]
        flip: take_bit_eq_mask)
  show "length (frag_body f) \<le> MAX_RECEIVED_FRAGMENT_BODY_BYTES"
    using body by (simp add: f)
qed

section \<open>Splitting\<close>

definition message_bodies :: "bytes \<Rightarrow> bytes list" where
  "message_bodies message = (if message = [] then [ [] ] else chunks MAX_FRAGMENT_BODY_BYTES message)"

definition split_fragment :: "u16 \<Rightarrow> u16 \<Rightarrow> u64 \<Rightarrow> bytes list \<Rightarrow> nat \<Rightarrow> fragment" where
  "split_fragment sent echoed sid bodies i =
     \<lparr>frag_header = \<lparr>fh_sent_timestamp = sent, fh_echoed_timestamp = echoed, fh_state_id = sid,
                     fh_index = of_nat i, fh_is_final = (i + 1 = length bodies)\<rparr>,
      frag_body = bodies ! i\<rparr>"

lemma concat_message_bodies [simp]: "concat (message_bodies message) = message"
  by (simp add: message_bodies_def MAX_FRAGMENT_BODY_BYTES_def)

lemma length_message_bodies:
  "length (message_bodies message) = div_ceil (max 1 (length message)) MAX_FRAGMENT_BODY_BYTES"
  by (cases "message = []")
     (auto simp: message_bodies_def length_chunks MAX_FRAGMENT_BODY_BYTES_def div_ceil_def max_def Suc_le_eq)

lemma message_bodies_bound: "b \<in> set (message_bodies message) \<Longrightarrow> length b \<le> MAX_FRAGMENT_BODY_BYTES"
  by (auto simp: message_bodies_def dest: chunks_bound split: if_splits)

lemma message_bodies_count:
  "length (message_bodies message) \<le> 32768 \<longleftrightarrow> length message \<le> 32768 * MAX_FRAGMENT_BODY_BYTES"
  using div_ceil_le_iff [of MAX_FRAGMENT_BODY_BYTES "max 1 (length message)" 32768]
  by (simp add: length_message_bodies MAX_FRAGMENT_BODY_BYTES_def)

lemma message_bodies_nonempty: "message_bodies message \<noteq> []"
proof (cases "message = []")
  case False
  then show ?thesis by (subst message_bodies_def, subst chunks.simps) (simp add: MAX_FRAGMENT_BODY_BYTES_def)
qed (simp add: message_bodies_def)

lemma fragment_split_eq:
  "fragment_split message sent echoed sid =
     (if 32768 * MAX_FRAGMENT_BODY_BYTES < length message then Inl TooManyFragments
      else Inr (map (split_fragment sent echoed sid (message_bodies message))
                  [0..<length (message_bodies message)]))"
proof (cases "32768 * MAX_FRAGMENT_BODY_BYTES < length message")
  case True
  then show ?thesis
    using message_bodies_count [of message]
    unfolding fragment_split_def length_message_bodies [symmetric] Let_def by simp
next
  case False
  then have n: "length (message_bodies message) \<le> 32768"
    by (simp add: message_bodies_count)
  show ?thesis
  proof (cases "message = []")
    case True
    with False n show ?thesis
      unfolding fragment_split_def length_message_bodies [symmetric] Let_def
      by (simp add: message_bodies_def split_fragment_def)
  next
    case ne: False
    let ?f = "\<lambda>(index, body). rbind (ok_or TooManyFragments (u16_try_from index)) (\<lambda>i.
               Inr \<lparr>frag_header = \<lparr>fh_sent_timestamp = sent, fh_echoed_timestamp = echoed,
                                    fh_state_id = sid, fh_index = i,
                                    fh_is_final = (index + 1 = length (message_bodies message))\<rparr>,
                     frag_body = body\<rparr>)"
    have "traverse ?f (enumerate 0 (message_bodies message))
        = Inr (map (\<lambda>(i, b). split_fragment sent echoed sid (message_bodies message) i)
            (enumerate 0 (message_bodies message)))"
      using n by (intro traverse_all_ok)
        (auto simp: in_set_enumerate_eq u16_try_from_def split_fragment_def)
    also have "map (\<lambda>(i, b). split_fragment sent echoed sid (message_bodies message) i)
            (enumerate 0 (message_bodies message))
        = map (split_fragment sent echoed sid (message_bodies message)) [0..<length (message_bodies message)]"
      by (rule nth_equalityI) (simp_all add: nth_enumerate_eq)
    finally show ?thesis
      using False n ne
      unfolding fragment_split_def length_message_bodies [symmetric] Let_def
      by (simp add: message_bodies_def)
  qed
qed

section \<open>Reassembly\<close>

text \<open>
  The state of the accumulator once exactly the fragments with indices in \<open>I\<close> have arrived,
  in whatever order and however often.
\<close>

definition holds_fragments :: "bytes list \<Rightarrow> nat set \<Rightarrow> fragment_accumulator \<Rightarrow> bool" where
  "holds_fragments bodies I acc \<longleftrightarrow>
     I \<subseteq> {..<length bodies} \<and> bt_wf (acc_fragments acc) \<and>
     dom (bt_get (acc_fragments acc)) = of_nat ` I \<and>
     (\<forall>i\<in>I. bt_get (acc_fragments acc) (of_nat i) = Some (bodies ! i)) \<and>
     final_index acc = (if length bodies - 1 \<in> I then Some (of_nat (length bodies - 1)) else None) \<and>
     total_bytes acc = (\<Sum>i\<in>I. length (bodies ! i))"

lemma of_nat_u16_eq:
  "i < 65536 \<Longrightarrow> j < 65536 \<Longrightarrow> (of_nat i :: u16) = of_nat j \<longleftrightarrow> i = j"
  by (simp add: of_nat_inverse word_unat_eq_iff unat_of_nat)

lemma of_nat_u16_inj_on: "inj_on (of_nat :: nat \<Rightarrow> u16) {..<65536}"
  by (simp add: inj_on_def of_nat_u16_eq)

lemma try_complete_holds:
  assumes "holds_fragments bodies I acc" "length bodies \<le> 32768" "bodies \<noteq> []"
  shows "try_complete acc = Inr (if I = {..<length bodies} then Some (concat bodies) else None)"
proof (cases "length bodies - 1 \<in> I")
  case False
  with assms show ?thesis
    by (auto simp: try_complete_def holds_fragments_def)
next
  case True
  let ?n = "length bodies"
  have I: "I \<subseteq> {..<?n}" and fin: "finite I"
    using assms(1) by (auto simp: holds_fragments_def intro: finite_subset)
  obtain m where m: "?n = Suc m"
    using assms(3) by (cases bodies) auto
  then have n: "unat (of_nat m :: u16) = m"
    using assms(2) by (simp add: unat_of_nat)
  have "length (acc_fragments acc) = card ((of_nat :: nat \<Rightarrow> u16) ` I)"
    using assms(1) by (simp add: holds_fragments_def btree.len_card)
  also have "\<dots> = card I"
    using I assms(2) by (intro card_image inj_on_subset [OF of_nat_u16_inj_on]) auto
  finally have len: "length (acc_fragments acc) = card I" .
  have full: "card I = ?n \<longleftrightarrow> I = {..<?n}"
    using card_subset_eq [OF finite_lessThan I] by auto
  have "traverse (\<lambda>i. ok_or MissingFragment (bt_get (acc_fragments acc) (of_nat i))) [0..<?n] = Inr bodies"
    if "I = {..<?n}"
  proof -
    have "bt_get (acc_fragments acc) (of_nat i) = Some (bodies ! i)" if "i < ?n" for i
      using assms(1) \<open>I = {..<?n}\<close> that by (auto simp: holds_fragments_def)
    then have "traverse (\<lambda>i. ok_or MissingFragment (bt_get (acc_fragments acc) (of_nat i))) [0..<?n]
        = Inr (map (\<lambda>i. bodies ! i) [0..<?n])"
      by (intro traverse_all_ok) simp
    then show ?thesis by (simp add: map_nth)
  qed
  moreover have "final_index acc = Some (of_nat m)"
    using assms(1) True m by (simp add: holds_fragments_def)
  ultimately show ?thesis
    using n len full m by (simp add: try_complete_def del: upt_Suc)
qed

lemma of_nat_u16_less:
  "i < 65536 \<Longrightarrow> j < 65536 \<Longrightarrow> (of_nat i :: u16) < of_nat j \<longleftrightarrow> i < j"
  by (simp add: word_less_nat_alt unat_of_nat)

lemma sum_bodies: "length (concat bodies) = (\<Sum>i<length bodies. length (bodies ! i))"
  by (simp add: length_concat sum_list_sum_nth atLeast0LessThan)

text \<open>Storing the body of a fragment whose final index, if any, has been recorded.\<close>

lemma push_body_holds:
  assumes wf: "bt_wf (acc_fragments acc)" and I: "I \<subseteq> {..<length bodies}"
    and dom: "dom (bt_get (acc_fragments acc)) = of_nat ` I"
    and vals: "\<forall>j\<in>I. bt_get (acc_fragments acc) (of_nat j) = Some (bodies ! j)"
    and final: "final_index acc =
      (if length bodies - 1 \<in> insert i I then Some (of_nat (length bodies - 1)) else None)"
    and total: "total_bytes acc = (\<Sum>j\<in>I. length (bodies ! j))"
    and n: "length bodies \<le> 32768" and i: "i < length bodies"
    and bound: "length (concat bodies) \<le> maximum_message_bytes acc"
      "maximum_message_bytes acc \<le> usize_max"
  shows "\<exists>acc'. push_body acc (split_fragment sent echoed sid bodies i)
      = (Inr (if insert i I = {..<length bodies} then Some (concat bodies) else None), acc') \<and>
      holds_fragments bodies (insert i I) acc' \<and>
      acc_state_id acc' = acc_state_id acc \<and> maximum_message_bytes acc' = maximum_message_bytes acc"
proof (cases "i \<in> I")
  case True
  then have "insert i I = I" by auto
  with assms have holds: "holds_fragments bodies (insert i I) acc"
    by (simp add: holds_fragments_def)
  have "push_body acc (split_fragment sent echoed sid bodies i) = (try_complete acc, acc)"
    using True vals by (simp add: push_body_def split_fragment_def)
  moreover have "try_complete acc
      = Inr (if insert i I = {..<length bodies} then Some (concat bodies) else None)"
    using try_complete_holds [OF holds n] i by fastforce
  ultimately show ?thesis using holds by simp
next
  case False
  let ?acc = "acc\<lparr>total_bytes := total_bytes acc + length (bodies ! i),
    acc_fragments := bt_insert (of_nat i) (bodies ! i) (acc_fragments acc)\<rparr>"
  have fin: "finite I" using I finite_subset by blast
  have sum: "total_bytes acc + length (bodies ! i) = (\<Sum>j\<in>insert i I. length (bodies ! j))"
    using False fin total by simp
  also have "\<dots> \<le> (\<Sum>j<length bodies. length (bodies ! j))"
    using I i by (intro sum_mono2) auto
  finally have le: "total_bytes acc + length (bodies ! i) \<le> maximum_message_bytes acc"
    using bound(1) by (simp add: sum_bodies)
  have neq: "(of_nat j :: u16) \<noteq> of_nat i" if "j \<in> I" for j
    using that I i n False of_nat_u16_eq [of j i] by fastforce
  then have fresh: "bt_get (acc_fragments acc) (of_nat i) = None"
    using dom by (metis (no_types, lifting) domIff imageE)
  have holds: "holds_fragments bodies (insert i I) ?acc"
    using wf I dom vals final sum i neq by (auto simp: holds_fragments_def simp del: of_nat_diff)
  have "push_body acc (split_fragment sent echoed sid bodies i) = (try_complete ?acc, ?acc)"
    using fresh le bound(2) by (simp add: push_body_def split_fragment_def Let_def)
  moreover have "try_complete ?acc
      = Inr (if insert i I = {..<length bodies} then Some (concat bodies) else None)"
    using try_complete_holds [OF holds n] i by fastforce
  ultimately show ?thesis using holds by simp
qed

lemma push_split_fragment:
  assumes holds: "holds_fragments bodies I acc"
    and n: "length bodies \<le> 32768" and i: "i < length bodies"
    and bound: "length (concat bodies) \<le> maximum_message_bytes acc"
      "maximum_message_bytes acc \<le> usize_max"
  shows "\<exists>acc'. accumulator_push acc (split_fragment sent echoed (acc_state_id acc) bodies i)
      = (Inr (if insert i I = {..<length bodies} then Some (concat bodies) else None), acc') \<and>
      holds_fragments bodies (insert i I) acc' \<and>
      acc_state_id acc' = acc_state_id acc \<and> maximum_message_bytes acc' = maximum_message_bytes acc"
proof -
  let ?n = "length bodies"
  let ?f = "split_fragment sent echoed (acc_state_id acc) bodies i"
  from holds have I: "I \<subseteq> {..<?n}"
    and final: "final_index acc = (if ?n - 1 \<in> I then Some (of_nat (?n - 1)) else None)"
    and keys: "set (bt_keys (acc_fragments acc)) = of_nat ` I"
    by (auto simp: holds_fragments_def dom_map_of_conv_image_fst)
  have not_after: "\<not> (case final_index acc of None \<Rightarrow> False | Some fi \<Rightarrow> fi < (of_nat i :: u16))"
  proof -
    obtain m where "?n = Suc m" using i by (cases ?n) auto
    with final n i show ?thesis by (auto simp: of_nat_u16_less)
  qed
  show ?thesis
  proof (cases "i + 1 = ?n")
    case True
    then have "?n - 1 = i" by simp
    have no_later: "\<not> (\<exists>k\<in>set (bt_keys (acc_fragments acc)). (of_nat i :: u16) < k)"
      unfolding keys using I n True by (auto simp: of_nat_u16_less)
    have "accumulator_push acc ?f = push_body (acc\<lparr>final_index := Some (of_nat i)\<rparr>) ?f"
      using not_after no_later True final \<open>?n - 1 = i\<close>
      by (simp add: accumulator_push_def split_fragment_def Let_def)
    moreover have "\<exists>acc'. push_body (acc\<lparr>final_index := Some (of_nat i)\<rparr>) ?f
      = (Inr (if insert i I = {..<?n} then Some (concat bodies) else None), acc') \<and>
      holds_fragments bodies (insert i I) acc' \<and>
      acc_state_id acc' = acc_state_id (acc\<lparr>final_index := Some (of_nat i)\<rparr>) \<and>
      maximum_message_bytes acc' = maximum_message_bytes (acc\<lparr>final_index := Some (of_nat i)\<rparr>)"
      using holds n i bound \<open>?n - 1 = i\<close>
      by (intro push_body_holds) (auto simp: holds_fragments_def)
    ultimately show ?thesis by simp
  next
    case False
    with i have "?n - 1 \<noteq> i" by simp
    from False not_after have "accumulator_push acc ?f = push_body acc ?f"
      by (simp add: accumulator_push_def split_fragment_def Let_def)
    moreover have "\<exists>acc'. push_body acc ?f
      = (Inr (if insert i I = {..<?n} then Some (concat bodies) else None), acc') \<and>
      holds_fragments bodies (insert i I) acc' \<and>
      acc_state_id acc' = acc_state_id acc \<and> maximum_message_bytes acc' = maximum_message_bytes acc"
      using holds n i bound \<open>?n - 1 \<noteq> i\<close>
      by (intro push_body_holds) (auto simp: holds_fragments_def)
    ultimately show ?thesis by simp
  qed
qed

text \<open>A run of pushes: after the \<open>k\<close>-th, the accumulator holds what has arrived so far.\<close>

lemma push_results_indices:
  assumes "holds_fragments bodies I acc"
    and n: "length bodies \<le> 32768"
    and bound: "length (concat bodies) \<le> maximum_message_bytes acc"
      "maximum_message_bytes acc \<le> usize_max"
    and "\<forall>i\<in>set is. i < length bodies"
  shows "push_results acc (map (split_fragment sent echoed (acc_state_id acc) bodies) is) =
    map (\<lambda>k. Inr (if I \<union> set (take (Suc k) is) = {..<length bodies} then Some (concat bodies) else None))
      [0..<length is]"
  using assms
proof (induction "is" arbitrary: I acc)
  case Nil
  then show ?case by simp
next
  case (Cons i "is")
  from push_split_fragment [OF Cons.prems(1,2) _ Cons.prems(3,4), of i sent echoed] Cons.prems(5)
  obtain acc' where push: "accumulator_push acc (split_fragment sent echoed (acc_state_id acc) bodies i)
      = (Inr (if insert i I = {..<length bodies} then Some (concat bodies) else None), acc')"
    and holds: "holds_fragments bodies (insert i I) acc'"
    and frame: "acc_state_id acc' = acc_state_id acc"
      "maximum_message_bytes acc' = maximum_message_bytes acc"
    by auto
  have "push_results acc' (map (split_fragment sent echoed (acc_state_id acc') bodies) is) =
    map (\<lambda>k. Inr (if insert i I \<union> set (take (Suc k) is) = {..<length bodies}
                   then Some (concat bodies) else None)) [0..<length is]"
    using Cons.prems frame by (intro Cons.IH [OF holds]) auto
  then show ?case
    using push frame
    by (simp add: upt_conv_Cons map_Suc_upt [symmetric] del: upt_Suc)
qed

lemma holds_fragments_new:
  "bodies \<noteq> [] \<Longrightarrow> holds_fragments bodies {} (accumulator_new sid M)"
  by (simp add: holds_fragments_def accumulator_new_def)

section \<open>Properties\<close>

text \<open>
  Parsing accepts exactly the encodings of fragments with a 15-bit index and a body
  of at most 1300 bytes, and recovers the fragment. Encoding and parsing are inverse.
\<close>

theorem fragment_parse_iff_encode:
  "fragment_parse plaintext = Inr f \<longleftrightarrow>
     plaintext = fragment_encode f \<and> fh_index (frag_header f) \<le> FRAGMENT_INDEX_MASK \<and>
     length (frag_body f) \<le> MAX_RECEIVED_FRAGMENT_BODY_BYTES"
  using encode_parse parse_encode by metis

text \<open>
  Splitting a message fails exactly when it needs more than 32768 fragments;
  otherwise the bodies concatenate to the message, none exceeds 1214 bytes, the indices count
  from zero, only the last fragment is final, and every fragment survives encoding and parsing.
\<close>

theorem fragment_split_correct:
  "case fragment_split message sent echoed sid of
     Inl e \<Rightarrow> e = TooManyFragments \<and> 32768 * MAX_FRAGMENT_BODY_BYTES < length message
   | Inr fs \<Rightarrow> length message \<le> 32768 * MAX_FRAGMENT_BODY_BYTES \<and>
       concat (map frag_body fs) = message \<and>
       map (\<lambda>f. fh_index (frag_header f)) fs = map of_nat [0..<length fs] \<and>
       map (\<lambda>f. fh_is_final (frag_header f)) fs = replicate (length fs - 1) False @ [True] \<and>
       list_all (\<lambda>f. length (frag_body f) \<le> MAX_FRAGMENT_BODY_BYTES \<and>
                    fragment_parse (fragment_encode f) = Inr f) fs"
proof (cases "32768 * MAX_FRAGMENT_BODY_BYTES < length message")
  case True
  then show ?thesis by (simp add: fragment_split_eq)
next
  case False
  let ?b = "message_bodies message"
  let ?fs = "map (split_fragment sent echoed sid ?b) [0..<length ?b]"
  have n: "length ?b \<le> 32768" using False by (simp add: message_bodies_count)
  have "length (?b ! i) \<le> MAX_FRAGMENT_BODY_BYTES" if "i < length ?b" for i
    using that by (meson message_bodies_bound nth_mem)
  then have "list_all (\<lambda>f. length (frag_body f) \<le> MAX_FRAGMENT_BODY_BYTES \<and>
                    fragment_parse (fragment_encode f) = Inr f) ?fs"
    using n by (fastforce simp: list_all_length fragment_parse_iff_encode split_fragment_def
      MAX_FRAGMENT_BODY_BYTES_def MAX_RECEIVED_FRAGMENT_BODY_BYTES_def word_le_nat_alt unat_of_nat)
  moreover have "concat (map frag_body ?fs) = message"
    by (simp add: comp_def split_fragment_def map_nth)
  moreover have "map (\<lambda>f. fh_is_final (frag_header f)) ?fs = replicate (length ?fs - 1) False @ [True]"
    using message_bodies_nonempty [of message]
    by (intro nth_equalityI) (auto simp: split_fragment_def nth_append)
  ultimately show ?thesis
    using False by (simp add: fragment_split_eq comp_def split_fragment_def)
qed

text \<open>
  Property C8: reassembly tolerates every reordering, duplication and interleaving of the
  fragments of one message. Pushing any sequence of them never fails, reports nothing while
  one is missing, and returns the original message at every push from which on all have arrived.
\<close>

theorem reassembly_any_order:
  assumes "fragment_split message sent echoed sid = Inr fs"
    and "set arrivals \<subseteq> set fs" and "length message \<le> maximum" "maximum \<le> usize_max"
  shows "push_results (accumulator_new sid maximum) arrivals =
    map (\<lambda>k. Inr (if set fs \<subseteq> set (take (Suc k) arrivals) then Some message else None))
      [0..<length arrivals]"
proof -
  let ?b = "message_bodies message"
  let ?mk = "split_fragment sent echoed sid ?b"
  from assms(1) have fs: "fs = map ?mk [0..<length ?b]" and n: "length ?b \<le> 32768"
    by (auto simp: fragment_split_eq message_bodies_count split: if_splits)
  define js where "js = map (\<lambda>f. unat (fh_index (frag_header f))) arrivals"
  have index_of: "\<exists>i<length ?b. f = ?mk i \<and> unat (fh_index (frag_header f)) = i" if "f \<in> set arrivals" for f
    using that assms(2) n by (auto simp: fs split_fragment_def unat_of_nat)
  have idx: "arrivals = map ?mk js" "\<forall>i\<in>set js. i < length ?b"
    using index_of by (auto simp: js_def comp_def intro!: map_idI [symmetric])
  have inj: "inj_on ?mk {..<length ?b}"
    using n by (auto simp: inj_on_def split_fragment_def of_nat_u16_eq)
  have full: "set fs \<subseteq> set (take (Suc k) arrivals) \<longleftrightarrow> set (take (Suc k) js) = {..<length ?b}" for k
  proof -
    have sub: "set (take (Suc k) js) \<subseteq> {..<length ?b}"
      using idx(2) by (auto dest: in_set_takeD)
    have "set fs \<subseteq> set (take (Suc k) arrivals)
        \<longleftrightarrow> ?mk ` {..<length ?b} \<subseteq> ?mk ` set (take (Suc k) js)"
      by (simp only: fs idx(1) take_map set_map set_upt atLeast0LessThan)
    also have "\<dots> \<longleftrightarrow> ?mk ` {..<length ?b} = ?mk ` set (take (Suc k) js)"
      using image_mono [OF sub, of ?mk] by (simp only: set_eq_subset simp_thms)
    also have "\<dots> \<longleftrightarrow> {..<length ?b} = set (take (Suc k) js)"
      by (rule inj_on_image_eq_iff [OF inj order_refl sub])
    finally show ?thesis by (simp only: eq_commute [of "{..<length ?b}"])
  qed
  show ?thesis
    using push_results_indices [OF holds_fragments_new [OF message_bodies_nonempty], of message
        sid maximum js sent echoed] n assms(3,4) idx(2) full
    by (simp add: idx(1) accumulator_new_def)
qed

lemma reassembly_any_order_witness:
  "\<exists>fs. fragment_split [1, 2, 3] 5 6 9 = Inr fs \<and>
     push_results (accumulator_new 9 16) (fs @ fs) = [Inr (Some [1, 2, 3]), Inr (Some [1, 2, 3])]"
proof -
  have split: "fragment_split [1, 2, 3] 5 6 9 = Inr [split_fragment 5 6 9 [ [1, 2, 3] ] 0]"
    by (simp add: fragment_split_eq message_bodies_def MAX_FRAGMENT_BODY_BYTES_def chunks.simps)
  show ?thesis
    using reassembly_any_order [OF split, of "[split_fragment 5 6 9 [ [1, 2, 3] ] 0,
        split_fragment 5 6 9 [ [1, 2, 3] ] 0]" 16] split
    by (auto simp: usize_max_def)
qed

end
