(* ===== verification/Mosh_Message.thy ===== *)
theory Mosh_Message
  imports Oxide_Prelude
begin

text \<open>
  State messages (\<open>crates/fernomade/wire/src/message.rs\<close>): the update and instruction
  records, the Protobuf field validation that runs before decoding, and the compressed
  framing. Protobuf encoding and decoding (prost) and zlib (flate2) are third-party code and
  stand as the record \<open>wire_codec\<close>.
\<close>

section \<open>Messages\<close>

definition PROTOCOL_VERSION :: u64 where
  "PROTOCOL_VERSION = 2"

definition MAXIMUM_DECOMPRESSED_BYTES :: nat where
  "MAXIMUM_DECOMPRESSED_BYTES = 16 * 1024 * 1024"

record state_update =
  su_protocol_version :: u64
  su_base_state :: u64
  su_target_state :: u64
  su_acknowledged_state :: u64
  su_discard_before :: u64
  su_delta :: bytes
  su_padding :: bytes
  su_capabilities :: bytes

definition state_update_new :: "u64 \<Rightarrow> u64 \<Rightarrow> u64 \<Rightarrow> state_update" where
  "state_update_new base target acknowledged =
     \<lparr>su_protocol_version = PROTOCOL_VERSION, su_base_state = base, su_target_state = target,
      su_acknowledged_state = acknowledged, su_discard_before = 0, su_delta = [],
      su_padding = [], su_capabilities = []\<rparr>"

record byte_run =
  br_value :: bytes

record viewport_size =
  vp_columns :: u64
  vp_rows :: u64

record marker =
  mk_value :: u64

record session_control =
  sc_kind :: u32
  sc_payload :: bytes

record instruction =
  in_bytes :: "byte_run option"
  in_viewport :: "viewport_size option"
  in_marker :: "marker option"
  in_session_control :: "session_control option"

record instruction_batch =
  batch_instructions :: "instruction list"

datatype message_error =
    CompressionFailed | DecompressionFailed | DecompressedMessageTooLarge | MalformedProtobuf
  | UnsupportedProtocolVersion | UnsupportedWireType

text \<open>
  The third-party codecs. \<open>zlib_read limit\<close> is a \<open>ZlibDecoder\<close> read through
  \<open>take(limit)\<close>: at most \<open>limit\<close> bytes of output, \<open>None\<close> for a stream error.
\<close>

record wire_codec =
  prost_encode_update :: "state_update \<Rightarrow> bytes option"
  prost_decode_update :: "bytes \<Rightarrow> state_update option"
  prost_encode_batch :: "instruction_batch \<Rightarrow> bytes"
  prost_decode_batch :: "bytes \<Rightarrow> instruction_batch option"
  zlib_write :: "bytes \<Rightarrow> bytes option"
  zlib_read :: "nat \<Rightarrow> bytes \<Rightarrow> bytes option"

section \<open>Protobuf validation\<close>

text \<open>The loop of \<open>decode_varint\<close> over the first ten bytes.\<close>

fun varint_loop :: "nat \<Rightarrow> u64 \<Rightarrow> bytes \<Rightarrow> message_error + (u64 \<times> nat)" where
  "varint_loop index value [] = Inl MalformedProtobuf"
| "varint_loop index value (byte # rest) =
     (let payload = ucast (byte AND 0x7f) :: u64 in
      if index = 9 \<and> 1 < payload then Inl MalformedProtobuf
      else
        let value' = value OR push_bit (index * 7) payload in
        if byte AND 0x80 = 0 then Inr (value', index + 1)
        else varint_loop (index + 1) value' rest)"

definition decode_varint :: "bytes \<Rightarrow> message_error + (u64 \<times> nat)" where
  "decode_varint encoded = varint_loop 0 0 (take 10 encoded)"

definition skip_value :: "bytes \<Rightarrow> byte \<Rightarrow> message_error + bytes" where
  "skip_value encoded wire_type =
     (if wire_type = 0 then
        rbind (decode_varint encoded) (\<lambda>(_, n). Inr (drop n encoded))
      else if wire_type = 1 then ok_or MalformedProtobuf (get_from 8 encoded)
      else if wire_type = 2 then
        rbind (decode_varint encoded) (\<lambda>(len, n).
          ok_or MalformedProtobuf (get_from (unat len) (drop n encoded)))
      else if wire_type = 5 then ok_or MalformedProtobuf (get_from 4 encoded)
      else Inl UnsupportedWireType)"

lemma varint_loop_count:
  "varint_loop i acc bs = Inr (v, n) \<Longrightarrow> i < n \<and> n \<le> i + length bs"
  by (induction i acc bs arbitrary: v n rule: varint_loop.induct)
     (fastforce simp: Let_def split: if_splits)+

lemma decode_varint_count:
  "decode_varint bs = Inr (v, n) \<Longrightarrow> 0 < n \<and> n \<le> 10 \<and> n \<le> length bs"
  unfolding decode_varint_def by (drule varint_loop_count) simp

lemma skip_value_length: "skip_value bs w = Inr rest \<Longrightarrow> length rest \<le> length bs"
  by (auto simp: skip_value_def split: if_splits)

function validate_fields :: "bytes \<Rightarrow> (u64 \<times> byte) list \<Rightarrow> message_error + unit" where
  "validate_fields remaining allowed =
     (if remaining = [] then Inr ()
      else (case decode_varint remaining of
              Inl e \<Rightarrow> Inl e
            | Inr (key, key_bytes) \<Rightarrow>
                let remaining' = drop key_bytes remaining;
                    field = drop_bit 3 key;
                    wire_type = ucast (key AND 7) :: byte
                in if (case find (\<lambda>(known, _). known = field) allowed of
                         None \<Rightarrow> False
                       | Some (_, expected_wire_type) \<Rightarrow> wire_type \<noteq> expected_wire_type)
                   then Inl UnsupportedWireType
                   else (case skip_value remaining' wire_type of
                           Inl e \<Rightarrow> Inl e
                         | Inr remaining'' \<Rightarrow> validate_fields remaining'' allowed)))"
  by pat_completeness auto
termination
  by (relation "measure (\<lambda>(r, _). length r)")
     (auto dest!: decode_varint_count skip_value_length)

declare validate_fields.simps [simp del]

lemma validate_fields_Nil [simp]: "validate_fields [] allowed = Inr ()"
  by (subst validate_fields.simps) simp

function length_delimited_fields :: "bytes \<Rightarrow> message_error + (u64 \<times> bytes) list" where
  "length_delimited_fields encoded =
     (if encoded = [] then Inr []
      else (case decode_varint encoded of
              Inl e \<Rightarrow> Inl e
            | Inr (key, key_bytes) \<Rightarrow>
                let encoded' = drop key_bytes encoded;
                    field = drop_bit 3 key;
                    wire_type = ucast (key AND 7) :: byte
                in if wire_type = 0 \<or> wire_type = 1 \<or> wire_type = 5 then
                     (case skip_value encoded' wire_type of
                        Inl e \<Rightarrow> Inl e
                      | Inr rest \<Rightarrow> length_delimited_fields rest)
                   else if wire_type = 2 then
                     (case decode_varint encoded' of
                        Inl e \<Rightarrow> Inl e
                      | Inr (len, length_bytes) \<Rightarrow>
                          let encoded'' = drop length_bytes encoded' in
                          if length encoded'' < unat len then Inl MalformedProtobuf
                          else (case length_delimited_fields (drop (unat len) encoded'') of
                                  Inl e \<Rightarrow> Inl e
                                | Inr values \<Rightarrow> Inr ((field, take (unat len) encoded'') # values)))
                   else Inl UnsupportedWireType))"
  by pat_completeness auto
termination
  by (relation "measure length")
     (auto dest!: decode_varint_count skip_value_length)

declare length_delimited_fields.simps [simp del]

lemma length_delimited_fields_Nil [simp]: "length_delimited_fields [] = Inr []"
  by (subst length_delimited_fields.simps) simp

definition length_delimited_values :: "bytes \<Rightarrow> (u64 \<times> byte) list \<Rightarrow> message_error + bytes list" where
  "length_delimited_values encoded allowed =
     rbind (validate_fields encoded allowed) (\<lambda>_.
       rbind (length_delimited_fields encoded) (\<lambda>entries.
         Inr (map snd (filter (\<lambda>(field, _). (field, 2) \<in> set allowed) entries))))"

fun validate_instruction_fields :: "(u64 \<times> bytes) list \<Rightarrow> message_error + unit" where
  "validate_instruction_fields [] = Inr ()"
| "validate_instruction_fields ((field, value) # entries) =
     rbind (if field = 2 then validate_fields value [(4, 2)]
            else if field = 3 then validate_fields value [(5, 0), (6, 0)]
            else if field = 7 then validate_fields value [(8, 0)]
            else if field = 9 then validate_fields value [(10, 0), (11, 2)]
            else Inr ())
       (\<lambda>_. validate_instruction_fields entries)"

fun validate_instructions :: "bytes list \<Rightarrow> message_error + unit" where
  "validate_instructions [] = Inr ()"
| "validate_instructions (instruction # rest) =
     rbind (validate_fields instruction [(2, 2), (3, 2), (7, 2), (9, 2)]) (\<lambda>_.
       rbind (length_delimited_fields instruction) (\<lambda>entries.
         rbind (validate_instruction_fields entries) (\<lambda>_. validate_instructions rest)))"

definition validate_instruction_batch :: "bytes \<Rightarrow> message_error + unit" where
  "validate_instruction_batch encoded =
     rbind (length_delimited_values encoded [(1, 2)]) validate_instructions"

section \<open>Framing\<close>

definition encode_compressed_update :: "wire_codec \<Rightarrow> state_update \<Rightarrow> message_error + bytes" where
  "encode_compressed_update K u =
     (if su_protocol_version u \<noteq> PROTOCOL_VERSION then Inl UnsupportedProtocolVersion
      else rbind (ok_or MalformedProtobuf (prost_encode_update K u)) (\<lambda>encoded_message.
             ok_or CompressionFailed (zlib_write K encoded_message)))"

definition update_fields_allowed :: "(u64 \<times> byte) list" where
  "update_fields_allowed = [(1, 0), (2, 0), (3, 0), (4, 0), (5, 0), (6, 2), (7, 2), (8, 2)]"

definition decode_compressed_update :: "wire_codec \<Rightarrow> bytes \<Rightarrow> message_error + state_update" where
  "decode_compressed_update K compressed =
     rbind (ok_or DecompressionFailed (zlib_read K (MAXIMUM_DECOMPRESSED_BYTES + 1) compressed))
       (\<lambda>encoded.
         if MAXIMUM_DECOMPRESSED_BYTES < length encoded then Inl DecompressedMessageTooLarge
         else rbind (validate_fields encoded update_fields_allowed) (\<lambda>_.
           rbind (ok_or MalformedProtobuf (prost_decode_update K encoded)) (\<lambda>update.
             if su_protocol_version update \<noteq> PROTOCOL_VERSION
             then Inl UnsupportedProtocolVersion
             else rbind (validate_instruction_batch (su_delta update)) (\<lambda>_. Inr update))))"

definition decode_instructions :: "wire_codec \<Rightarrow> state_update \<Rightarrow> message_error + instruction_batch" where
  "decode_instructions K u =
     rbind (validate_instruction_batch (su_delta u)) (\<lambda>_.
       ok_or MalformedProtobuf (prost_decode_batch K (su_delta u)))"

definition encode_bytes :: "wire_codec \<Rightarrow> instruction_batch \<Rightarrow> bytes" where
  "encode_bytes K batch = prost_encode_batch K batch"

section \<open>Variable-length integers\<close>

text \<open>
  The arithmetic meaning of a variable-length integer: little-endian groups of seven bits,
  every byte but the last with its high bit set, and the number of bytes it takes.
\<close>

fun varint_spec :: "bytes \<Rightarrow> (nat \<times> nat) option" where
  "varint_spec [] = None"
| "varint_spec (b # bs) =
     (if unat b < 128 then Some (unat b, 1)
      else map_option (\<lambda>(v, n). (unat b - 128 + 128 * v, n + 1)) (varint_spec bs))"

lemma unat_payload: "unat (ucast (b AND 0x7f) :: u64) = unat (b :: byte) mod 128"
proof -
  have e: "b AND 0x7f = take_bit 7 b"
    by (simp only: take_bit_eq_mask) (simp add: mask_eq_exp_minus_1)
  have "unat (b AND 0x7f) = unat b mod 128"
    by (simp only: e unsigned_take_bit_eq) (simp add: take_bit_eq_mod)
  moreover have "take_bit 64 (unat b mod 128) = unat b mod 128"
    by (rule take_bit_nat_eq_self) (rule less_trans [of _ 128], simp_all)
  ultimately show ?thesis
    by (simp only: unsigned_ucast_eq) simp
qed

lemma high_bit_clear: "(b :: byte) AND 0x80 = 0 \<longleftrightarrow> unat b < 128"
proof -
  have "b AND 0x80 = 0 \<longleftrightarrow> \<not> bit b 7"
    using and_exp_eq_0_iff_not_bit [of b 7] by simp
  also have "\<dots> \<longleftrightarrow> take_bit 7 b = b"
  proof
    assume "\<not> bit b 7"
    show "take_bit 7 b = b"
    proof (rule bit_word_eqI)
      fix n
      assume "n < LENGTH(8)"
      then have "n < 7 \<or> n = 7" by auto
      with \<open>\<not> bit b 7\<close> show "bit (take_bit 7 b) n = bit b n"
        by (auto simp: bit_take_bit_iff)
    qed
  next
    assume "take_bit 7 b = b"
    then show "\<not> bit b 7" by (metis bit_take_bit_iff less_irrefl)
  qed
  also have "\<dots> \<longleftrightarrow> unat b < 2 ^ 7"
    by (simp only: word_unat_eq_iff unsigned_take_bit_eq take_bit_nat_eq_self_iff)
  finally show ?thesis by simp
qed

lemma unat_or_push:
  fixes acc payload :: u64
  assumes "unat acc < 2 ^ k" "unat acc + 2 ^ k * unat payload < 2 ^ 64"
  shows "unat (acc OR push_bit k payload) = unat acc + 2 ^ k * unat payload"
proof -
  have "acc AND push_bit k payload = 0"
  proof (rule bit_word_eqI)
    fix n
    have "take_bit k acc = acc"
      using assms(1) by (simp add: word_unat_eq_iff unsigned_take_bit_eq take_bit_nat_eq_self_iff)
    then have "bit acc n \<longrightarrow> n < k" by (metis bit_take_bit_iff)
    then show "bit (acc AND push_bit k payload) n = bit 0 n"
      by (auto simp: bit_and_iff bit_push_bit_iff)
  qed
  then have "acc OR push_bit k payload = acc + push_bit k payload"
    by (simp add: disjunctive_add_eq_or)
  moreover have "unat (push_bit k payload) = 2 ^ k * unat payload"
  proof -
    have "unat payload * 2 ^ k < 2 ^ 64"
      using assms(2) by (simp add: mult.commute)
    then show ?thesis
      by (simp only: unsigned_push_bit_eq)
         (simp add: push_bit_eq_mult take_bit_nat_eq_self mult.commute)
  qed
  ultimately show ?thesis
    using assms(2) by (simp add: unat_word_ariths)
qed

lemma varint_loop_spec:
  assumes "i + length bs \<le> 10" "i \<le> 9" "unat acc < 2 ^ (7 * i)"
  shows "varint_loop i acc bs =
    (case varint_spec bs of
       None \<Rightarrow> Inl MalformedProtobuf
     | Some (v, n) \<Rightarrow>
         if unat acc + 2 ^ (7 * i) * v < 2 ^ 64 then Inr (of_nat (unat acc + 2 ^ (7 * i) * v), i + n)
         else Inl MalformedProtobuf)"
  using assms
proof (induction bs arbitrary: i acc)
  case Nil
  then show ?case by simp
next
  case (Cons b bs)
  let ?p = "unat b mod 128"
  let ?payload = "ucast (b AND 0x7f) :: u64"
  have last: "bs = []" if "i = 9" using Cons.prems(1) that by simp
  show ?case
  proof (cases "i = 9 \<and> 1 < ?p")
    case True
    then have "1 < ?payload" by (simp only: word_less_nat_alt unat_payload unat_1)
    moreover have "2 ^ 64 \<le> unat acc + 2 ^ (7 * i) * unat b" if "unat b < 128"
    proof -
      have "2 \<le> unat b" using True that by simp
      then have "(2 :: nat) ^ 63 * 2 \<le> 2 ^ 63 * unat b" by (intro mult_left_mono) auto
      with True show ?thesis by simp
    qed
    ultimately show ?thesis
      using True last by (auto simp: Let_def high_bit_clear)
  next
    case False
    then have np: "\<not> (i = 9 \<and> 1 < ?payload)"
      by (simp add: word_less_nat_alt unat_payload)
    have fits: "unat acc + 2 ^ (7 * i) * ?p < 2 ^ min 64 (7 * Suc i)"
    proof (cases "i = 9")
      case True
      with False have "?p \<le> 1" by simp
      then have "2 ^ (7 * i) * ?p \<le> (2 :: nat) ^ 63" using True by simp
      with Cons.prems(3) True show ?thesis by simp
    next
      case False
      have "2 ^ (7 * i) * ?p \<le> 2 ^ (7 * i) * (127 :: nat)"
        by (intro mult_left_mono) auto
      with Cons.prems(3) have "unat acc + 2 ^ (7 * i) * ?p < 2 ^ (7 * i) * 128" by linarith
      also have "(2 :: nat) ^ (7 * i) * 128 = 2 ^ (7 * Suc i)"
        by (simp add: power_add)
      finally show ?thesis using False Cons.prems(2) by (simp add: min_def)
    qed
    have le64: "(2 :: nat) ^ min 64 (7 * Suc i) \<le> 2 ^ 64"
      by (intro power_increasing) auto
    let ?acc = "acc OR push_bit (i * 7) ?payload"
    have acc': "unat ?acc = unat acc + 2 ^ (7 * i) * ?p"
      using unat_or_push [of acc "7 * i" ?payload] Cons.prems(3) fits le64
      by (simp add: unat_payload mult.commute)
    show ?thesis
    proof (cases "unat b < 128")
      case True
      then have p: "?p = unat b" by simp
      have "?acc = of_nat (unat ?acc)" by (simp only: of_nat_unat ucast_id)
      then have "?acc = of_nat (unat acc + 2 ^ (7 * i) * unat b)"
        unfolding acc' p .
      with True np p fits le64 show ?thesis by (simp add: Let_def high_bit_clear)
    next
      case False
      show ?thesis
      proof (cases "i = 9")
        case True
        with last False np show ?thesis by (simp add: Let_def high_bit_clear)
      next
        case i: False
        have b: "unat b = 128 + ?p"
        proof -
          have "unat b < 256" using unsigned_less [of b] by simp
          with False have "unat b mod 128 = unat b - 128"
            by (simp add: le_mod_geq)
          with False show ?thesis by simp
        qed
        have "unat ?acc < 2 ^ (7 * Suc i)"
          using acc' fits i Cons.prems(2) by (simp add: min_def)
        with Cons.IH [of "Suc i" ?acc] Cons.prems(1,2) i
        have "varint_loop (Suc i) ?acc bs = (case varint_spec bs of
             None \<Rightarrow> Inl MalformedProtobuf
           | Some (v, n) \<Rightarrow>
               if unat ?acc + 2 ^ (7 * Suc i) * v < 2 ^ 64
               then Inr (of_nat (unat ?acc + 2 ^ (7 * Suc i) * v), Suc i + n)
               else Inl MalformedProtobuf)"
          by simp
        moreover have "unat ?acc + 2 ^ (7 * Suc i) * v = unat acc + 2 ^ (7 * i) * (unat b - 128 + 128 * v)" for v
        proof -
          have "unat b - 128 = ?p" using b by linarith
          then show ?thesis unfolding acc' by (simp add: algebra_simps power_add)
        qed
        ultimately show ?thesis
          using False np by (simp add: Let_def high_bit_clear split: option.splits)
      qed
    qed
  qed
qed

text \<open>
  Decoding a variable-length integer is the arithmetic of the encoding. It reads at
  most ten bytes, returns the value and its length when a terminated encoding of a 64-bit value
  starts the input, and rejects every other input.
\<close>

theorem decode_varint_refines:
  "decode_varint encoded =
     (case varint_spec (take 10 encoded) of
        None \<Rightarrow> Inl MalformedProtobuf
      | Some (v, n) \<Rightarrow> if v < 2 ^ 64 then Inr (of_nat v, n) else Inl MalformedProtobuf)"
  using varint_loop_spec [of 0 "take 10 encoded" 0]
  by (simp add: decode_varint_def cong: option.case_cong split: option.splits)

section \<open>The wire format as a serialiser\<close>

text \<open>
  The documented Protobuf wire format, as the reference the validation is measured against:
  a field is a key (field number and wire type) followed by its payload.
\<close>

fun put_varint :: "nat \<Rightarrow> bytes" where
  "put_varint n = (if n < 128 then [of_nat n] else of_nat (n mod 128 + 128) # put_varint (n div 128))"

declare put_varint.simps [simp del]

datatype wire_value = Varint u64 | Fixed64 bytes | Delimited bytes | Fixed32 bytes

fun wire_code :: "wire_value \<Rightarrow> nat" where
  "wire_code (Varint _) = 0"
| "wire_code (Fixed64 _) = 1"
| "wire_code (Delimited _) = 2"
| "wire_code (Fixed32 _) = 5"

fun put_payload :: "wire_value \<Rightarrow> bytes" where
  "put_payload (Varint w) = put_varint (unat w)"
| "put_payload (Fixed64 bs) = bs"
| "put_payload (Delimited bs) = put_varint (length bs) @ bs"
| "put_payload (Fixed32 bs) = bs"

fun wire_wf :: "wire_value \<Rightarrow> bool" where
  "wire_wf (Varint _) = True"
| "wire_wf (Fixed64 bs) = (length bs = 8)"
| "wire_wf (Delimited bs) = (length bs < 2 ^ 64)"
| "wire_wf (Fixed32 bs) = (length bs = 4)"

type_synonym wire_field = "u64 \<times> wire_value"

definition field_wf :: "wire_field \<Rightarrow> bool" where
  "field_wf e \<longleftrightarrow> unat (fst e) < 2 ^ 61 \<and> wire_wf (snd e)"

definition put_field :: "wire_field \<Rightarrow> bytes" where
  "put_field e = put_varint (unat (fst e) * 8 + wire_code (snd e)) @ put_payload (snd e)"

definition put_fields :: "wire_field list \<Rightarrow> bytes" where
  "put_fields es = concat (map put_field es)"

lemma varint_spec_put: "varint_spec (put_varint n @ rest) = Some (n, length (put_varint n))"
proof (induction n rule: put_varint.induct)
  case (1 n)
  show ?case
  proof (cases "n < 128")
    case True
    then show ?thesis by (simp add: put_varint.simps [of n] unat_of_nat)
  next
    case False
    have "n mod 128 + 128 < 2 ^ 8" by simp
    then have "unat (of_nat (n mod 128 + 128) :: byte) = n mod 128 + 128"
      by (simp add: unat_of_nat del: of_nat_add)
    with False "1" show ?thesis
      by (simp add: put_varint.simps [of n] del: of_nat_add)
  qed
qed

lemma varint_spec_take: "varint_spec bs = Some (v, n) \<Longrightarrow> n \<le> k \<Longrightarrow> varint_spec (take k bs) = Some (v, n)"
proof (induction bs arbitrary: v n k)
  case (Cons b bs)
  then show ?case by (cases k) (auto split: if_splits)
qed simp

lemma length_put_varint: "n < 128 ^ k \<Longrightarrow> 0 < k \<Longrightarrow> length (put_varint n) \<le> k"
proof (induction k arbitrary: n)
  case (Suc k)
  show ?case
  proof (cases "n < 128")
    case False
    with Suc.prems have "0 < k" by (cases k) auto
    moreover have "n div 128 < 128 ^ k"
      using Suc.prems(1) by (simp add: div_less_iff_less_mult mult.commute)
    ultimately show ?thesis using Suc.IH False by (simp add: put_varint.simps [of n])
  qed (simp add: put_varint.simps [of n])
qed simp

lemma decode_put_varint:
  assumes "n < 2 ^ 64"
  shows "decode_varint (put_varint n @ rest) = Inr (of_nat n, length (put_varint n))"
proof -
  have "n < 128 ^ 10" using assms by simp
  then have "length (put_varint n) \<le> 10" by (rule length_put_varint) simp
  then show ?thesis
    using assms varint_spec_take [OF varint_spec_put] by (simp add: decode_varint_refines)
qed

lemma decode_put_unat: "decode_varint (put_varint (unat (w :: u64)) @ rest) = Inr (w, length (put_varint (unat w)))"
  using decode_put_varint [of "unat w" rest] unsigned_less [of w] by simp

lemma put_varint_ne [simp]: "put_varint n \<noteq> []"
  by (subst put_varint.simps) simp

lemma skip_put_payload:
  assumes "wire_wf v"
  shows "skip_value (put_payload v @ rest) (of_nat (wire_code v)) = Inr rest"
  using assms
  by (cases v) (auto simp: skip_value_def decode_put_varint decode_put_unat unat_of_nat)

lemma key_split:
  assumes "unat f < 2 ^ 61" "c < 8"
  shows "drop_bit 3 (of_nat (unat f * 8 + c) :: u64) = f"
    and "(ucast ((of_nat (unat f * 8 + c) :: u64) AND 7) :: byte) = of_nat c"
proof -
  let ?k = "of_nat (unat f * 8 + c) :: u64"
  have k: "unat ?k = unat f * 8 + c"
    using assms by (simp only: unat_of_nat) simp
  have "take_bit 64 (unat f * 8 + c) = unat f * 8 + c"
    using assms by (intro take_bit_nat_eq_self) simp
  then show "drop_bit 3 ?k = f"
    using assms(2) by (simp only: word_unat_eq_iff unsigned_drop_bit_eq k) (simp add: drop_bit_eq_div)
  have "?k AND 7 = take_bit 3 ?k"
    by (simp only: take_bit_eq_mask) (simp add: mask_eq_exp_minus_1)
  then have "unat (?k AND 7) = c"
    using assms(2) by (simp only: unsigned_take_bit_eq k) (simp add: take_bit_eq_mod)
  then have "?k AND 7 = of_nat c"
    using assms(2) by (simp only: word_unat_eq_iff) (simp add: unat_of_nat)
  moreover have "take_bit 8 c = c" "take_bit 64 c = c"
    using assms(2) by (simp_all add: take_bit_nat_eq_self)
  then have "(ucast (of_nat c :: u64) :: byte) = of_nat c"
    by (simp add: word_unat_eq_iff unsigned_ucast_eq unsigned_of_nat)
  ultimately show "(ucast (?k AND 7) :: byte) = of_nat c"
    by (simp only:)
qed

lemma wire_code_less: "wire_code v < 8"
  by (cases v) auto

lemma decode_field_key:
  assumes "field_wf (f, v)"
  shows "\<exists>key n. decode_varint (put_field (f, v) @ rest) = Inr (key, n) \<and>
     drop n (put_field (f, v) @ rest) = put_payload v @ rest \<and>
     drop_bit 3 key = f \<and> (ucast (key AND 7) :: byte) = of_nat (wire_code v)"
proof -
  have "unat f * 8 + wire_code v < 2 ^ 64"
    using assms wire_code_less [of v] by (simp add: field_wf_def)
  then show ?thesis
    using assms key_split [of f "wire_code v"] wire_code_less [of v]
    by (simp add: put_field_def field_wf_def decode_put_varint del: of_nat_add of_nat_mult)
qed

definition wire_type_matches :: "(u64 \<times> byte) list \<Rightarrow> wire_field \<Rightarrow> bool" where
  "wire_type_matches allowed e \<longleftrightarrow>
     (case find (\<lambda>(known, _). known = fst e) allowed of
        None \<Rightarrow> True | Some (_, expected) \<Rightarrow> of_nat (wire_code (snd e)) = expected)"

lemma put_field_ne: "put_field e \<noteq> []"
  by (simp add: put_field_def)

lemma validate_put_field:
  assumes "field_wf e"
  shows "validate_fields (put_field e @ rest) allowed =
    (if wire_type_matches allowed e then validate_fields rest allowed else Inl UnsupportedWireType)"
proof (cases e)
  case (Pair f v)
  with assms have "wire_wf v" by (simp add: field_wf_def)
  from decode_field_key [OF assms [unfolded Pair], of rest] obtain key n where
    "decode_varint (put_field e @ rest) = Inr (key, n)"
    "drop n (put_field e @ rest) = put_payload v @ rest"
    "drop_bit 3 key = f" "(ucast (key AND 7) :: byte) = of_nat (wire_code v)"
    unfolding Pair by blast
  then show ?thesis
    using skip_put_payload [OF \<open>wire_wf v\<close>, of rest] put_field_ne [of e]
    by (subst validate_fields.simps)
       (auto simp: Let_def Pair wire_type_matches_def split: option.splits)
qed

fun delimited_fields :: "wire_field list \<Rightarrow> (u64 \<times> bytes) list" where
  "delimited_fields [] = []"
| "delimited_fields ((f, Delimited bs) # es) = (f, bs) # delimited_fields es"
| "delimited_fields (e # es) = delimited_fields es"

lemma fields_put_field:
  assumes "field_wf e"
  shows "length_delimited_fields (put_field e @ rest) =
    (case length_delimited_fields rest of
       Inl x \<Rightarrow> Inl x | Inr vs \<Rightarrow> Inr (delimited_fields [e] @ vs))"
proof (cases e)
  case (Pair f v)
  with assms have "wire_wf v" by (simp add: field_wf_def)
  from decode_field_key [OF assms [unfolded Pair], of rest] obtain key n where key:
    "decode_varint (put_field e @ rest) = Inr (key, n)"
    "drop n (put_field e @ rest) = put_payload v @ rest"
    "drop_bit 3 key = f" "(ucast (key AND 7) :: byte) = of_nat (wire_code v)"
    unfolding Pair by blast
  then show ?thesis
    using skip_put_payload [OF \<open>wire_wf v\<close>, of rest] put_field_ne [of e] \<open>wire_wf v\<close>
    by (subst length_delimited_fields.simps, cases v)
       (auto simp: Let_def Pair decode_put_varint unat_of_nat split: sum.splits)
qed

lemma validate_put_fields:
  "\<forall>e\<in>set es. field_wf e \<Longrightarrow> validate_fields (put_fields es) allowed =
     (if list_all (wire_type_matches allowed) es then Inr () else Inl UnsupportedWireType)"
  by (induction es) (auto simp: put_fields_def validate_put_field)

lemma fields_put_fields:
  "\<forall>e\<in>set es. field_wf e \<Longrightarrow> length_delimited_fields (put_fields es) = Inr (delimited_fields es)"
proof (induction es rule: delimited_fields.induct)
  case 1
  then show ?case by (simp add: put_fields_def)
qed (simp_all add: put_fields_def fields_put_field)

text \<open>
  The validator measured against the wire format. On a well-formed sequence of
  fields, validation accepts exactly when every known field has its wire type (unknown fields
  are skipped), the only error is the wire-type error, and the field listing returns the
  length-delimited fields in order with their payloads.
\<close>

theorem validate_fields_wire_format:
  assumes "list_all field_wf es"
  shows "validate_fields (put_fields es) allowed =
      (if list_all (wire_type_matches allowed) es then Inr () else Inl UnsupportedWireType) \<and>
    length_delimited_fields (put_fields es) = Inr (delimited_fields es)"
  using assms validate_put_fields [of es allowed] fields_put_fields [of es]
  by (simp add: list_all_iff)

theorem validate_fields_wire_format_witness:
  "list_all field_wf [(1, Varint 300), (9, Fixed32 [1, 2, 3, 4]), (6, Delimited [7, 8])] \<and>
   validate_fields (put_fields [(1, Varint 300), (9, Fixed32 [1, 2, 3, 4]), (6, Delimited [7, 8])])
     update_fields_allowed = Inr ()"
proof -
  let ?es = "[(1, Varint 300), (9, Fixed32 [1, 2, 3, 4]), (6, Delimited [7, 8])]"
  have wf: "list_all field_wf ?es" by (simp add: field_wf_def)
  moreover have "list_all (wire_type_matches update_fields_allowed) ?es"
    by (simp add: wire_type_matches_def update_fields_allowed_def)
  ultimately show ?thesis using validate_fields_wire_format [OF wf, of update_fields_allowed] by simp
qed

section \<open>Validation covers the later passes\<close>

lemma validate_fields_listing:
  "validate_fields encoded allowed = Inr () \<Longrightarrow> \<exists>fs. length_delimited_fields encoded = Inr fs"
proof (induction encoded allowed rule: validate_fields.induct)
  case (1 remaining allowed)
  show ?case
  proof (cases "remaining = []")
    case False
    with "1.prems" obtain key n rest where step:
      "decode_varint remaining = Inr (key, n)"
      "skip_value (drop n remaining) (ucast (key AND 7)) = Inr rest"
      "validate_fields rest allowed = Inr ()"
      by (subst (asm) validate_fields.simps)
         (auto simp: Let_def split: sum.splits option.splits if_splits)
    moreover obtain fs where "length_delimited_fields rest = Inr fs"
      using "1.IH" [OF False step(1) refl refl refl refl _ step(2) step(3)] "1.prems" step False
      by (subst (asm) validate_fields.simps) (auto simp: Let_def split: if_splits)
    ultimately show ?thesis
      using False
      by (subst length_delimited_fields.simps)
         (auto simp: Let_def skip_value_def split: if_splits sum.splits)
  qed simp
qed

text \<open>
  Input that passes field validation never makes the second pass fail. Whenever
  \<open>validate_fields\<close> accepts a buffer, under any table of known fields, the listing of its
  length-delimited fields succeeds, so the two hand-written scanners agree on where fields end.
\<close>

theorem validated_buffers_list:
  assumes "validate_fields encoded allowed = Inr ()"
  shows "is_ok (length_delimited_fields encoded)"
  using validate_fields_listing [OF assms] by auto

theorem validated_buffers_list_witness:
  "is_ok (length_delimited_fields (put_fields [(6, Delimited [7, 8])]))"
proof (rule validated_buffers_list [where allowed = "[(6, 2)]"])
  show "validate_fields (put_fields [(6, Delimited [7, 8])]) [(6, 2)] = Inr ()"
    by (simp add: validate_put_fields field_wf_def wire_type_matches_def)
qed

section \<open>Round trip of the framing\<close>

text \<open>
  What the schema annotations of the message structs say of their encoding: proto3 scalars and
  byte fields are omitted at their default, message fields are length-delimited.
\<close>

definition scalar_field :: "u64 \<Rightarrow> u64 \<Rightarrow> wire_field list" where
  "scalar_field f w = (if w = 0 then [] else [(f, Varint w)])"

definition bytes_field :: "u64 \<Rightarrow> bytes \<Rightarrow> wire_field list" where
  "bytes_field f bs = (if bs = [] then [] else [(f, Delimited bs)])"

definition message_field :: "u64 \<Rightarrow> wire_field list option \<Rightarrow> wire_field list" where
  "message_field f m = (case m of None \<Rightarrow> [] | Some es \<Rightarrow> [(f, Delimited (put_fields es))])"

definition update_wire :: "state_update \<Rightarrow> wire_field list" where
  "update_wire u =
     scalar_field 1 (su_protocol_version u) @ scalar_field 2 (su_base_state u) @
     scalar_field 3 (su_target_state u) @ scalar_field 4 (su_acknowledged_state u) @
     scalar_field 5 (su_discard_before u) @ bytes_field 6 (su_delta u) @
     bytes_field 7 (su_padding u) @ bytes_field 8 (su_capabilities u)"

definition byte_run_wire :: "byte_run \<Rightarrow> wire_field list" where
  "byte_run_wire r = bytes_field 4 (br_value r)"

definition viewport_wire :: "viewport_size \<Rightarrow> wire_field list" where
  "viewport_wire v = scalar_field 5 (vp_columns v) @ scalar_field 6 (vp_rows v)"

definition marker_wire :: "marker \<Rightarrow> wire_field list" where
  "marker_wire m = scalar_field 8 (mk_value m)"

definition session_control_wire :: "session_control \<Rightarrow> wire_field list" where
  "session_control_wire c = scalar_field 10 (ucast (sc_kind c)) @ bytes_field 11 (sc_payload c)"

definition instruction_wire :: "instruction \<Rightarrow> wire_field list" where
  "instruction_wire i =
     message_field 2 (map_option byte_run_wire (in_bytes i)) @
     message_field 3 (map_option viewport_wire (in_viewport i)) @
     message_field 7 (map_option marker_wire (in_marker i)) @
     message_field 9 (map_option session_control_wire (in_session_control i))"

definition batch_wire :: "instruction_batch \<Rightarrow> wire_field list" where
  "batch_wire b = concat (map (\<lambda>i. message_field 1 (Some (instruction_wire i))) (batch_instructions b))"

lemmas wire_defs = update_wire_def byte_run_wire_def viewport_wire_def marker_wire_def
  session_control_wire_def instruction_wire_def batch_wire_def scalar_field_def bytes_field_def
  message_field_def

definition zlib_lossless :: "wire_codec \<Rightarrow> bool" where
  "zlib_lossless K \<longleftrightarrow>
     (\<forall>bs c limit. zlib_write K bs = Some c \<longrightarrow> zlib_read K limit c = Some (take limit bs))"

text \<open>What the derived encoders and decoders promise of one update and one batch.\<close>

definition prost_update_ok :: "wire_codec \<Rightarrow> state_update \<Rightarrow> bool" where
  "prost_update_ok K u \<longleftrightarrow>
     prost_encode_update K u = Some (put_fields (update_wire u)) \<and>
     prost_decode_update K (put_fields (update_wire u)) = Some u"

definition prost_batch_ok :: "wire_codec \<Rightarrow> instruction_batch \<Rightarrow> bool" where
  "prost_batch_ok K b \<longleftrightarrow>
     prost_encode_batch K b = put_fields (batch_wire b) \<and>
     prost_decode_batch K (put_fields (batch_wire b)) = Some b"

lemma put_fields_member_length: "e \<in> set es \<Longrightarrow> length (put_field e) \<le> length (put_fields es)"
  by (induction es) (auto simp: put_fields_def)

lemma delimited_member_length:
  assumes "(f, Delimited bs) \<in> set es"
  shows "length bs \<le> length (put_fields es)"
  using put_fields_member_length [OF assms] by (simp add: put_field_def)

text \<open>Field numbers of the schema fit a key, and in a bounded buffer every length fits.\<close>

definition small_fields :: "wire_field list \<Rightarrow> bool" where
  "small_fields es \<longleftrightarrow>
     (\<forall>(f, v)\<in>set es. unat f < 2 ^ 61 \<and> (case v of Varint _ \<Rightarrow> True | Delimited _ \<Rightarrow> True | _ \<Rightarrow> False))"

lemma small_fields_wf:
  assumes "small_fields es" "length (put_fields es) < 2 ^ 64"
  shows "list_all field_wf es"
  unfolding list_all_iff
proof
  fix e
  assume "e \<in> set es"
  moreover obtain f v where "e = (f, v)" by fastforce
  ultimately show "field_wf e"
    using assms delimited_member_length [of f _ es]
    by (cases v) (force simp: small_fields_def field_wf_def)+
qed

lemma small_fields_schema:
  "small_fields (update_wire u)" "small_fields (byte_run_wire r)" "small_fields (viewport_wire v)"
  "small_fields (marker_wire m)" "small_fields (session_control_wire c)"
  "small_fields (instruction_wire i)" "small_fields (batch_wire b)"
  by (auto simp: small_fields_def wire_defs split: option.splits if_splits)

lemma delimited_append: "delimited_fields (es @ es') = delimited_fields es @ delimited_fields es'"
  by (induction es rule: delimited_fields.induct) auto

lemma delimited_simps:
  "delimited_fields (scalar_field f w) = []"
  "delimited_fields (bytes_field f bs) = (if bs = [] then [] else [(f, bs)])"
  "delimited_fields (message_field f m) = (case m of None \<Rightarrow> [] | Some es \<Rightarrow> [(f, put_fields es)])"
  by (simp_all add: scalar_field_def bytes_field_def message_field_def split: option.splits)

lemma update_fields_match: "list_all (wire_type_matches update_fields_allowed) (update_wire u)"
  by (auto simp: wire_defs wire_type_matches_def update_fields_allowed_def)

lemma validate_small:
  assumes "small_fields es" "length (put_fields es) < 2 ^ 64" "list_all (wire_type_matches allowed) es"
  shows "validate_fields (put_fields es) allowed = Inr ()"
  using validate_put_fields [of es allowed] small_fields_wf [OF assms(1,2)] assms(3)
  by (simp add: list_all_iff)

lemma listing_small:
  assumes "small_fields es" "length (put_fields es) < 2 ^ 64"
  shows "length_delimited_fields (put_fields es) = Inr (delimited_fields es)"
  using fields_put_fields [of es] small_fields_wf [OF assms] by (simp add: list_all_iff)

lemma nested_matches:
  "list_all (wire_type_matches [(4, 2)]) (byte_run_wire r)"
  "list_all (wire_type_matches [(5, 0), (6, 0)]) (viewport_wire v)"
  "list_all (wire_type_matches [(8, 0)]) (marker_wire m)"
  "list_all (wire_type_matches [(10, 0), (11, 2)]) (session_control_wire c)"
  "list_all (wire_type_matches [(2, 2), (3, 2), (7, 2), (9, 2)]) (instruction_wire i)"
  "list_all (wire_type_matches [(1, 2)]) (batch_wire b)"
  by (auto simp: wire_defs wire_type_matches_def list_all_iff split: option.splits)

lemma instruction_nested_length:
  assumes "(f, put_fields es) \<in> set (delimited_fields (instruction_wire i))"
  shows "length (put_fields es) \<le> length (put_fields (instruction_wire i))"
proof -
  have "(f, Delimited bs) \<in> set fs" if "(f, bs) \<in> set (delimited_fields fs)" for bs fs
    using that by (induction fs rule: delimited_fields.induct) auto
  with assms show ?thesis by (blast intro: delimited_member_length)
qed

lemma delimited_instruction:
  "delimited_fields (instruction_wire i) =
     (case in_bytes i of None \<Rightarrow> [] | Some r \<Rightarrow> [(2, put_fields (byte_run_wire r))]) @
     (case in_viewport i of None \<Rightarrow> [] | Some v \<Rightarrow> [(3, put_fields (viewport_wire v))]) @
     (case in_marker i of None \<Rightarrow> [] | Some m \<Rightarrow> [(7, put_fields (marker_wire m))]) @
     (case in_session_control i of None \<Rightarrow> [] | Some c \<Rightarrow> [(9, put_fields (session_control_wire c))])"
  by (simp add: instruction_wire_def delimited_append delimited_simps split: option.splits)

lemma validate_instruction_fields_append:
  "validate_instruction_fields (xs @ ys) =
     rbind (validate_instruction_fields xs) (\<lambda>_. validate_instruction_fields ys)"
  by (induction xs rule: validate_instruction_fields.induct) (auto simp: rbind_def split: sum.splits)

lemma validate_instruction_wire:
  assumes "length (put_fields (instruction_wire i)) < 2 ^ 64"
  shows "validate_instruction_fields (delimited_fields (instruction_wire i)) = Inr ()"
proof -
  have fits: "length (put_fields es) < 2 ^ 64"
    if "(f, put_fields es) \<in> set (delimited_fields (instruction_wire i))" for f es
    using instruction_nested_length [OF that] assms by linarith
  have "validate_fields (put_fields (byte_run_wire r)) [(4, 2)] = Inr ()" if "in_bytes i = Some r" for r
    by (rule validate_small [OF small_fields_schema(2) fits nested_matches(1)])
       (auto simp: delimited_instruction that)
  moreover have "validate_fields (put_fields (viewport_wire v)) [(5, 0), (6, 0)] = Inr ()"
    if "in_viewport i = Some v" for v
    by (rule validate_small [OF small_fields_schema(3) fits nested_matches(2)])
       (auto simp: delimited_instruction that)
  moreover have "validate_fields (put_fields (marker_wire m)) [(8, 0)] = Inr ()"
    if "in_marker i = Some m" for m
    by (rule validate_small [OF small_fields_schema(4) fits nested_matches(3)])
       (auto simp: delimited_instruction that)
  moreover have "validate_fields (put_fields (session_control_wire c)) [(10, 0), (11, 2)] = Inr ()"
    if "in_session_control i = Some c" for c
    by (rule validate_small [OF small_fields_schema(5) fits nested_matches(4)])
       (auto simp: delimited_instruction that)
  ultimately show ?thesis
    by (simp add: delimited_instruction validate_instruction_fields_append split: option.splits)
qed

lemma validate_instruction_list:
  "\<forall>i\<in>set is. length (put_fields (instruction_wire i)) < 2 ^ 64 \<Longrightarrow>
   validate_instructions (map (\<lambda>i. put_fields (instruction_wire i)) is) = Inr ()"
  by (induction "is")
     (simp_all add: validate_small small_fields_schema nested_matches listing_small
        validate_instruction_wire)

lemma delimited_batch:
  "delimited_fields (batch_wire b) = map (\<lambda>i. (1, put_fields (instruction_wire i))) (batch_instructions b)"
proof -
  have "delimited_fields (concat (map (\<lambda>i. message_field 1 (Some (instruction_wire i))) is)) =
      map (\<lambda>i. (1, put_fields (instruction_wire i))) is" for "is"
    by (induction "is") (simp_all add: delimited_append delimited_simps)
  then show ?thesis by (simp add: batch_wire_def)
qed

lemma validate_batch_wire:
  assumes "length (put_fields (batch_wire b)) < 2 ^ 64"
  shows "validate_instruction_batch (put_fields (batch_wire b)) = Inr ()"
proof -
  have "length (put_fields (instruction_wire i)) < 2 ^ 64" if "i \<in> set (batch_instructions b)" for i
  proof -
    have "(1, Delimited (put_fields (instruction_wire i))) \<in> set (batch_wire b)"
      using that by (auto simp: batch_wire_def message_field_def)
    from delimited_member_length [OF this] assms show ?thesis by linarith
  qed
  then have "validate_instructions (map (\<lambda>i. put_fields (instruction_wire i)) (batch_instructions b)) = Inr ()"
    by (intro validate_instruction_list) blast
  moreover have "length_delimited_values (put_fields (batch_wire b)) [(1, 2)] =
      Inr (map (\<lambda>i. put_fields (instruction_wire i)) (batch_instructions b))"
    using assms
    by (simp add: length_delimited_values_def validate_small small_fields_schema nested_matches
          listing_small delimited_batch comp_def)
  ultimately show ?thesis by (simp add: validate_instruction_batch_def)
qed

text \<open>
  Property C35: round trip of a state update with its instruction batch. When the update carries the
  current protocol version and the encoding of a batch, and encodes to at most 16 MiB, then
  whatever the sender's framing produces is accepted by the receiver's hand-written validation
  at every level and yields the same update and the same batch.
\<close>

theorem compressed_update_roundtrip:
  assumes "zlib_lossless K" "prost_update_ok K u" "prost_batch_ok K b"
    and "su_protocol_version u = PROTOCOL_VERSION" "su_delta u = encode_bytes K b"
    and "length (put_fields (update_wire u)) \<le> MAXIMUM_DECOMPRESSED_BYTES"
    and "encode_compressed_update K u = Inr c"
  shows "decode_compressed_update K c = Inr u \<and> decode_instructions K u = Inr b"
proof -
  let ?enc = "put_fields (update_wire u)"
  have enc: "zlib_write K ?enc = Some c"
    using assms(2,4,7) by (simp add: encode_compressed_update_def prost_update_ok_def)
  then have read: "zlib_read K (MAXIMUM_DECOMPRESSED_BYTES + 1) c = Some ?enc"
    using assms(1,6) by (simp add: zlib_lossless_def)
  have lim: "length ?enc < 2 ^ 64"
    using assms(6) by (simp add: MAXIMUM_DECOMPRESSED_BYTES_def)
  have delta: "su_delta u = put_fields (batch_wire b)"
    using assms(3,5) by (simp add: encode_bytes_def prost_batch_ok_def)
  have "length (su_delta u) \<le> length ?enc"
  proof (cases "su_delta u = []")
    case False
    then have "(6, Delimited (su_delta u)) \<in> set (update_wire u)"
      by (simp add: update_wire_def bytes_field_def)
    then show ?thesis by (rule delimited_member_length)
  qed simp
  then have batch: "validate_instruction_batch (su_delta u) = Inr ()"
    using validate_batch_wire [of b] lim delta by simp
  have "validate_fields ?enc update_fields_allowed = Inr ()"
    by (rule validate_small [OF small_fields_schema(1) lim update_fields_match])
  then have "decode_compressed_update K c = Inr u"
    using assms(2,4,6) batch
    by (simp add: decode_compressed_update_def read [simplified] prost_update_ok_def)
  moreover have "decode_instructions K u = Inr b"
    using assms(3) batch delta by (simp add: decode_instructions_def prost_batch_ok_def)
  ultimately show ?thesis ..
qed

definition sample_batch :: instruction_batch where
  "sample_batch = \<lparr>batch_instructions =
     [\<lparr>in_bytes = Some \<lparr>br_value = [104, 105]\<rparr>, in_viewport = None, in_marker = None,
       in_session_control = None\<rparr>,
      \<lparr>in_bytes = None, in_viewport = Some \<lparr>vp_columns = 80, vp_rows = 24\<rparr>,
       in_marker = Some \<lparr>mk_value = 7\<rparr>, in_session_control = None\<rparr>]\<rparr>"

definition sample_update :: state_update where
  "sample_update = (state_update_new 3 4 9)\<lparr>su_delta := put_fields (batch_wire sample_batch)\<rparr>"

definition sample_codec :: wire_codec where
  "sample_codec =
     \<lparr>prost_encode_update = (\<lambda>u. Some (put_fields (update_wire u))),
      prost_decode_update = (\<lambda>bs.
        if bs = put_fields (update_wire sample_update) then Some sample_update else None),
      prost_encode_batch = (\<lambda>b. put_fields (batch_wire b)),
      prost_decode_batch = (\<lambda>bs.
        if bs = put_fields (batch_wire sample_batch) then Some sample_batch else None),
      zlib_write = (\<lambda>bs. Some bs), zlib_read = (\<lambda>limit c. Some (take limit c))\<rparr>"

lemma sample_length: "length (put_fields (update_wire sample_update)) \<le> MAXIMUM_DECOMPRESSED_BYTES"
  by (simp add: put_fields_def put_field_def sample_update_def sample_batch_def wire_defs
        state_update_new_def PROTOCOL_VERSION_def MAXIMUM_DECOMPRESSED_BYTES_def put_varint.simps)

theorem compressed_update_roundtrip_witness:
  "\<exists>c. encode_compressed_update sample_codec sample_update = Inr c \<and>
       decode_compressed_update sample_codec c = Inr sample_update \<and>
       decode_instructions sample_codec sample_update = Inr sample_batch"
proof -
  have "encode_compressed_update sample_codec sample_update = Inr (put_fields (update_wire sample_update))"
    by (simp add: encode_compressed_update_def sample_codec_def sample_update_def
          state_update_new_def)
  moreover have "zlib_lossless sample_codec" "prost_update_ok sample_codec sample_update"
    "prost_batch_ok sample_codec sample_batch"
    by (simp_all add: zlib_lossless_def prost_update_ok_def prost_batch_ok_def sample_codec_def)
  ultimately show ?thesis
    using compressed_update_roundtrip [of sample_codec sample_update sample_batch] sample_length
    by (simp add: sample_update_def state_update_new_def encode_bytes_def sample_codec_def)
qed

end
