(* ===== verification/Mosh_State.thy ===== *)
theory Mosh_State
  imports Mosh_Message "HOL-Library.Sublist" "HOL-Library.Option_ord"
begin

text \<open>
  The cloneable remote terminal (\<open>crates/fernomade/state/src/lib.rs\<close>): the retained operation
  history, the transactional application of instruction batches with history compaction, cloning
  by replay, and the difference between two states. The \<open>vt100\<close> terminal and the \<open>vte\<close> parser
  are third-party crates and stand as the record \<open>terminal_lib\<close>.
\<close>

section \<open>History\<close>

definition MAX_RETAINED_HOST_BYTES :: nat where
  "MAX_RETAINED_HOST_BYTES = 16 * 1024 * 1024"

definition MAX_RETAINED_OPERATIONS :: nat where
  "MAX_RETAINED_OPERATIONS = 65536"

datatype state_operation =
    HostBytes bytes
  | Resize u16 u16
  | SessionControl session_control

datatype state_error = InvalidViewport | HistoryLimitExceeded | DivergedHistory | EchoAckRegression

text \<open>
  The chain of \<open>Arc<HistoryNode>\<close> is a persistent list whose head is the newest node.
\<close>

record state_history =
  sh_tail :: "state_operation list"
  sh_operation_count :: nat
  sh_retained_bytes :: nat

definition history_default :: state_history where
  "history_default = \<lparr>sh_tail = [], sh_operation_count = 0, sh_retained_bytes = 0\<rparr>"

definition history_push :: "state_operation \<Rightarrow> state_history \<Rightarrow> state_history" where
  "history_push operation h =
     h\<lparr>sh_tail := operation # sh_tail h, sh_operation_count := sh_operation_count h + 1\<rparr>"

definition operations :: "state_history \<Rightarrow> state_operation list" where
  "operations h = rev (sh_tail h)"

text \<open>The loop of \<open>canonical_operations\<close>; the accumulator is the output in reverse order.\<close>

fun canonical_loop :: "state_operation list \<Rightarrow> state_operation list \<Rightarrow> state_operation list" where
  "canonical_loop canonical [] = rev canonical"
| "canonical_loop (HostBytes previous # canonical) (HostBytes bs # rest) =
     canonical_loop (HostBytes (previous @ bs) # canonical) rest"
| "canonical_loop canonical (operation # rest) = canonical_loop (operation # canonical) rest"

definition canonical_operations :: "state_history \<Rightarrow> state_operation list" where
  "canonical_operations h = canonical_loop [] (operations h)"

section \<open>Terminal state\<close>

datatype vte_action = VPrint nat | VExecute byte | VOther

text \<open>
  The terminal library: a \<open>vt100::Parser\<close> of type \<open>'p\<close> (construction and \<open>set_size\<close> take rows
  before columns) and a \<open>vte::Parser\<close> of type \<open>'q\<close>, whose \<open>advance\<close> is given by the list of
  callbacks it makes. \<open>VOther\<close> stands for the callbacks hook, put, unhook, osc_dispatch,
  csi_dispatch and esc_dispatch, which the audit treats alike.
\<close>

record ('p, 'q) terminal_lib =
  vt_new :: "u16 \<Rightarrow> u16 \<Rightarrow> 'p"
  vt_process :: "bytes \<Rightarrow> 'p \<Rightarrow> 'p"
  vt_set_size :: "u16 \<Rightarrow> u16 \<Rightarrow> 'p \<Rightarrow> 'p"
  vt_state_diff :: "'p \<Rightarrow> 'p \<Rightarrow> bytes"
  vt_state_formatted :: "'p \<Rightarrow> bytes"
  vte_new :: 'q
  vte_advance :: "bytes \<Rightarrow> 'q \<Rightarrow> vte_action list \<times> 'q"

record 'p remote_state =
  rs_initial_columns :: u16
  rs_initial_rows :: u16
  rs_parser :: 'p
  rs_history :: state_history
  rs_viewport :: viewport_size
  rs_echo_ack :: "u64 option"

definition u16_of_u64 :: "u64 \<Rightarrow> u16 option" where
  "u16_of_u64 w = u16_try_from (unat w)"

definition validate_viewport :: "u64 \<Rightarrow> u64 \<Rightarrow> state_error + unit" where
  "validate_viewport columns rows =
     (if columns = 0 \<or> rows = 0 \<or> u16_of_u64 columns = None \<or> u16_of_u64 rows = None
      then Inl InvalidViewport else Inr ())"

definition viewport_of :: "u16 \<Rightarrow> u16 \<Rightarrow> viewport_size" where
  "viewport_of columns rows = \<lparr>vp_columns = ucast columns, vp_rows = ucast rows\<rparr>"

definition state_new :: "('p, 'q) terminal_lib \<Rightarrow> u16 \<Rightarrow> u16 \<Rightarrow> state_error + 'p remote_state" where
  "state_new V columns rows =
     rbind (validate_viewport (ucast columns) (ucast rows)) (\<lambda>_.
       Inr \<lparr>rs_initial_columns = columns, rs_initial_rows = rows,
            rs_parser = vt_new V rows columns, rs_history = history_default,
            rs_viewport = viewport_of columns rows, rs_echo_ack = None\<rparr>)"

definition apply_host_bytes :: "('p, 'q) terminal_lib \<Rightarrow> bytes \<Rightarrow> 'p remote_state \<Rightarrow> 'p remote_state" where
  "apply_host_bytes V bs s =
     (let s = s\<lparr>rs_parser := vt_process V bs (rs_parser s)\<rparr> in
      if bs = [] then s
      else
        let h = (rs_history s)\<lparr>sh_retained_bytes := sh_retained_bytes (rs_history s) + length bs\<rparr>
        in s\<lparr>rs_history := history_push (HostBytes bs) h\<rparr>)"

definition apply_resize :: "('p, 'q) terminal_lib \<Rightarrow> u16 \<Rightarrow> u16 \<Rightarrow> 'p remote_state \<Rightarrow> 'p remote_state" where
  "apply_resize V columns rows s =
     (if vp_columns (rs_viewport s) = ucast columns \<and> vp_rows (rs_viewport s) = ucast rows then s
      else s\<lparr>rs_parser := vt_set_size V rows columns (rs_parser s),
             rs_viewport := viewport_of columns rows,
             rs_history := history_push (Resize columns rows) (rs_history s)\<rparr>)"

fun growth_loop :: "nat \<Rightarrow> nat \<Rightarrow> viewport_size \<Rightarrow> instruction list \<Rightarrow> state_error + (nat \<times> nat)" where
  "growth_loop additional_bytes additional_operations viewport [] =
     Inr (additional_bytes, additional_operations)"
| "growth_loop additional_bytes additional_operations viewport (i # rest) =
     rbind (case in_bytes i of
              None \<Rightarrow> Inr (additional_bytes, additional_operations)
            | Some run \<Rightarrow>
                rbind (ok_or HistoryLimitExceeded
                        (usize_checked_add additional_bytes (length (br_value run))))
                  (\<lambda>total. Inr (total, additional_operations + (if br_value run = [] then 0 else 1))))
       (\<lambda>(additional_bytes, additional_operations).
          let changed = (case in_viewport i of None \<Rightarrow> False | Some next \<Rightarrow> viewport \<noteq> next);
              viewport = (case in_viewport i of None \<Rightarrow> viewport | Some next \<Rightarrow> next);
              additional_operations = additional_operations + (if changed then 1 else 0);
              additional_operations =
                additional_operations + (if in_session_control i = None then 0 else 1)
          in growth_loop additional_bytes additional_operations viewport rest)"

definition history_growth :: "instruction_batch \<Rightarrow> viewport_size \<Rightarrow> state_error + (nat \<times> nat)" where
  "history_growth batch initial_viewport = growth_loop 0 0 initial_viewport (batch_instructions batch)"

definition validate_history_size :: "nat \<Rightarrow> nat \<Rightarrow> nat \<Rightarrow> nat \<Rightarrow> state_error + unit" where
  "validate_history_size retained_bytes operation_count additional_bytes additional_operations =
     rbind (ok_or HistoryLimitExceeded (usize_checked_add retained_bytes additional_bytes))
       (\<lambda>retained_bytes.
     rbind (ok_or HistoryLimitExceeded (usize_checked_add operation_count additional_operations))
       (\<lambda>operation_count.
         if MAX_RETAINED_HOST_BYTES < retained_bytes \<or> MAX_RETAINED_OPERATIONS < operation_count
         then Inl HistoryLimitExceeded else Inr ()))"

definition validate_history_growth :: "instruction_batch \<Rightarrow> 'p remote_state \<Rightarrow> state_error + unit" where
  "validate_history_growth batch s =
     rbind (history_growth batch (rs_viewport s)) (\<lambda>(additional_bytes, additional_operations).
       validate_history_size (sh_retained_bytes (rs_history s)) (sh_operation_count (rs_history s))
         additional_bytes additional_operations)"

section \<open>The parser audit\<close>

record screen_diff_audit =
  au_reconstructible :: bool
  au_auditing :: bool
  au_probing :: bool
  au_probe_prints :: nat
  au_probe_other_actions :: nat

definition audit_default :: screen_diff_audit where
  "audit_default = \<lparr>au_reconstructible = True, au_auditing = False, au_probing = False,
     au_probe_prints = 0, au_probe_other_actions = 0\<rparr>"

definition begin_tail_audit :: "screen_diff_audit \<Rightarrow> screen_diff_audit" where
  "begin_tail_audit a = a\<lparr>au_auditing := True, au_reconstructible := True\<rparr>"

definition begin_boundary_probe :: "screen_diff_audit \<Rightarrow> screen_diff_audit" where
  "begin_boundary_probe a = a\<lparr>au_probing := True, au_probe_prints := 0, au_probe_other_actions := 0\<rparr>"

definition probe_is_ground :: "screen_diff_audit \<Rightarrow> bool" where
  "probe_is_ground a \<longleftrightarrow> au_probe_prints a = 1 \<and> au_probe_other_actions a = 0"

definition record_other_action :: "screen_diff_audit \<Rightarrow> screen_diff_audit" where
  "record_other_action a =
     (if au_probing a then a\<lparr>au_probe_other_actions := au_probe_other_actions a + 1\<rparr>
      else if au_auditing a then a\<lparr>au_reconstructible := False\<rparr>
      else a)"

text \<open>The \<open>vte::Perform\<close> callbacks; \<open>0x7E\<close> is the tilde of the probe.\<close>

fun audit_action :: "screen_diff_audit \<Rightarrow> vte_action \<Rightarrow> screen_diff_audit" where
  "audit_action a (VPrint character) =
     (if au_probing a then
        a\<lparr>au_probe_prints := au_probe_prints a + (if character = 0x7E then 1 else 0),
          au_probe_other_actions := au_probe_other_actions a + (if character \<noteq> 0x7E then 1 else 0)\<rparr>
      else a)"
| "audit_action a (VExecute byte) =
     (if au_probing a then a\<lparr>au_probe_other_actions := au_probe_other_actions a + 1\<rparr>
      else if au_auditing a \<and> byte \<notin> {0x08, 0x09, 0x0A, 0x0D} then a\<lparr>au_reconstructible := False\<rparr>
      else a)"
| "audit_action a VOther = record_other_action a"

definition audit_advance ::
    "('p, 'q) terminal_lib \<Rightarrow> bytes \<Rightarrow> 'q \<times> screen_diff_audit \<Rightarrow> 'q \<times> screen_diff_audit" where
  "audit_advance V bs = (\<lambda>(parser, audit).
     case vte_advance V bs parser of
       (actions, parser') \<Rightarrow> (parser', foldl audit_action audit actions))"

fun advance_operations ::
    "('p, 'q) terminal_lib \<Rightarrow> state_operation list \<Rightarrow> 'q \<times> screen_diff_audit \<Rightarrow> 'q \<times> screen_diff_audit" where
  "advance_operations V [] p = p"
| "advance_operations V (HostBytes bs # ops) p = advance_operations V ops (audit_advance V bs p)"
| "advance_operations V (_ # ops) p = advance_operations V ops p"

definition ground_probe :: "('p, 'q) terminal_lib \<Rightarrow> 'q \<times> screen_diff_audit \<Rightarrow> bool" where
  "ground_probe V p = (case p of (parser, audit) \<Rightarrow>
     probe_is_ground (snd (audit_advance V [0x7E] (parser, begin_boundary_probe audit))))"

definition history_ends_at_ground :: "('p, 'q) terminal_lib \<Rightarrow> state_operation list \<Rightarrow> bool" where
  "history_ends_at_ground V ops =
     ground_probe V (advance_operations V ops (vte_new V, audit_default))"

text \<open>The tail loop, which returns \<open>false\<close> at the first resize.\<close>

fun advance_tail ::
    "('p, 'q) terminal_lib \<Rightarrow> state_operation list \<Rightarrow> 'q \<times> screen_diff_audit \<Rightarrow> ('q \<times> screen_diff_audit) option" where
  "advance_tail V [] p = Some p"
| "advance_tail V (HostBytes bs # ops) p = advance_tail V ops (audit_advance V bs p)"
| "advance_tail V (Resize _ _ # ops) p = None"
| "advance_tail V (SessionControl _ # ops) p = advance_tail V ops p"

definition history_tail_is_screen_diff_safe ::
    "('p, 'q) terminal_lib \<Rightarrow> state_operation list \<Rightarrow> state_operation list \<Rightarrow> bool" where
  "history_tail_is_screen_diff_safe V common tail =
     (case advance_operations V common (vte_new V, audit_default) of
        (parser, audit) \<Rightarrow>
          (case advance_tail V tail (parser, begin_tail_audit audit) of
             None \<Rightarrow> False
           | Some p \<Rightarrow> ground_probe V p))"

section \<open>Compaction and application\<close>

definition compacted_history ::
    "('p, 'q) terminal_lib \<Rightarrow> instruction_batch \<Rightarrow> 'p remote_state
       \<Rightarrow> state_error + (state_history \<times> u16 \<times> u16)" where
  "compacted_history V batch s =
     (if \<not> history_ends_at_ground V (canonical_operations (rs_history s))
      then Inl HistoryLimitExceeded
      else
        let snapshot = vt_state_formatted V (rs_parser s) in
        rbind (history_growth batch (rs_viewport s)) (\<lambda>(additional_bytes, additional_operations).
        let snapshot_operations = (if snapshot = [] then 0 else 1) in
        rbind (validate_history_size (length snapshot) snapshot_operations
                 additional_bytes additional_operations) (\<lambda>_.
        let tail = (if snapshot = [] then [] else [HostBytes snapshot]) in
        rbind (ok_or InvalidViewport (u16_of_u64 (vp_columns (rs_viewport s)))) (\<lambda>columns.
        rbind (ok_or InvalidViewport (u16_of_u64 (vp_rows (rs_viewport s)))) (\<lambda>rows.
        Inr (\<lparr>sh_tail = tail, sh_operation_count = snapshot_operations,
              sh_retained_bytes = length snapshot\<rparr>, columns, rows))))))"

fun validate_viewports :: "instruction list \<Rightarrow> state_error + unit" where
  "validate_viewports [] = Inr ()"
| "validate_viewports (i # rest) =
     rbind (case in_viewport i of None \<Rightarrow> Inr () | Some v \<Rightarrow> validate_viewport (vp_columns v) (vp_rows v))
       (\<lambda>_. validate_viewports rest)"

fun check_markers :: "u64 option \<Rightarrow> instruction list \<Rightarrow> state_error + u64 option" where
  "check_markers echo_ack [] = Inr echo_ack"
| "check_markers echo_ack (i # rest) =
     (case in_marker i of
        None \<Rightarrow> check_markers echo_ack rest
      | Some m \<Rightarrow>
          if (case echo_ack of None \<Rightarrow> False | Some current \<Rightarrow> mk_value m < current)
          then Inl EchoAckRegression
          else check_markers (Some (mk_value m)) rest)"

text \<open>
  The second loop of \<open>apply\<close>. It mutates \<open>self\<close> as it goes, so the state is returned also
  with an error.
\<close>

definition apply_viewport ::
    "('p, 'q) terminal_lib \<Rightarrow> viewport_size option \<Rightarrow> 'p remote_state
       \<Rightarrow> (state_error + unit) \<times> 'p remote_state" where
  "apply_viewport V vp s =
     (case vp of
        None \<Rightarrow> (Inr (), s)
      | Some v \<Rightarrow>
          (case (u16_of_u64 (vp_columns v), u16_of_u64 (vp_rows v)) of
             (Some columns, Some rows) \<Rightarrow> (Inr (), apply_resize V columns rows s)
           | _ \<Rightarrow> (Inl InvalidViewport, s)))"

fun apply_instructions ::
    "('p, 'q) terminal_lib \<Rightarrow> instruction list \<Rightarrow> 'p remote_state \<Rightarrow> (state_error + unit) \<times> 'p remote_state" where
  "apply_instructions V [] s = (Inr (), s)"
| "apply_instructions V (i # rest) s =
     (let s = (case in_bytes i of None \<Rightarrow> s | Some run \<Rightarrow> apply_host_bytes V (br_value run) s) in
      case apply_viewport V (in_viewport i) s of
        (Inl e, s) \<Rightarrow> (Inl e, s)
      | (Inr _, s) \<Rightarrow>
          let s = (case in_marker i of None \<Rightarrow> s | Some m \<Rightarrow> s\<lparr>rs_echo_ack := Some (mk_value m)\<rparr>);
              s = (case in_session_control i of None \<Rightarrow> s
                   | Some c \<Rightarrow> s\<lparr>rs_history := history_push (SessionControl c) (rs_history s)\<rparr>)
          in apply_instructions V rest s)"

definition state_apply ::
    "('p, 'q) terminal_lib \<Rightarrow> instruction_batch \<Rightarrow> 'p remote_state \<Rightarrow> (state_error + unit) \<times> 'p remote_state" where
  "state_apply V batch s =
     (case validate_viewports (batch_instructions batch) of
        Inl e \<Rightarrow> (Inl e, s)
      | Inr _ \<Rightarrow>
          (case check_markers (rs_echo_ack s) (batch_instructions batch) of
             Inl e \<Rightarrow> (Inl e, s)
           | Inr _ \<Rightarrow>
               (if is_ok (validate_history_growth batch s)
                then apply_instructions V (batch_instructions batch) s
                else (case compacted_history V batch s of
                        Inl e \<Rightarrow> (Inl e, s)
                      | Inr (history, columns, rows) \<Rightarrow>
                          apply_instructions V (batch_instructions batch)
                            (s\<lparr>rs_history := history, rs_initial_columns := columns,
                               rs_initial_rows := rows\<rparr>)))))"

text \<open>Cloning replays the history; \<open>None\<close> is the panic of its \<open>expect\<close>.\<close>

fun replay :: "('p, 'q) terminal_lib \<Rightarrow> state_operation list \<Rightarrow> 'p \<Rightarrow> 'p" where
  "replay V [] p = p"
| "replay V (HostBytes bs # ops) p = replay V ops (vt_process V bs p)"
| "replay V (Resize columns rows # ops) p = replay V ops (vt_set_size V rows columns p)"
| "replay V (SessionControl _ # ops) p = replay V ops p"

definition state_clone :: "('p, 'q) terminal_lib \<Rightarrow> 'p remote_state \<Rightarrow> 'p remote_state option" where
  "state_clone V s =
     (case state_new V (rs_initial_columns s) (rs_initial_rows s) of
        Inl _ \<Rightarrow> None
      | Inr cloned \<Rightarrow>
          Some (cloned\<lparr>rs_parser := replay V (operations (rs_history s)) (rs_parser cloned),
                       rs_history := rs_history s, rs_viewport := rs_viewport s,
                       rs_echo_ack := rs_echo_ack s\<rparr>))"

section \<open>Differences\<close>

definition host_bytes_instruction :: "bytes \<Rightarrow> instruction" where
  "host_bytes_instruction bs =
     \<lparr>in_bytes = Some \<lparr>br_value = bs\<rparr>, in_viewport = None, in_marker = None, in_session_control = None\<rparr>"

definition viewport_instruction :: "u16 \<Rightarrow> u16 \<Rightarrow> instruction" where
  "viewport_instruction columns rows =
     \<lparr>in_bytes = None, in_viewport = Some (viewport_of columns rows), in_marker = None,
      in_session_control = None\<rparr>"

definition session_control_instruction :: "session_control \<Rightarrow> instruction" where
  "session_control_instruction c =
     \<lparr>in_bytes = None, in_viewport = None, in_marker = None, in_session_control = Some c\<rparr>"

definition marker_instruction :: "u64 \<Rightarrow> instruction" where
  "marker_instruction v =
     \<lparr>in_bytes = None, in_viewport = None, in_marker = Some \<lparr>mk_value = v\<rparr>, in_session_control = None\<rparr>"

text \<open>The loop of \<open>history_suffix_start\<close>; \<open>delivered_len\<close> is \<open>delivered.len()\<close>.\<close>

fun suffix_start_loop ::
    "state_operation list \<Rightarrow> nat \<Rightarrow> nat \<Rightarrow> state_operation list \<Rightarrow> state_error + (nat \<times> nat)" where
  "suffix_start_loop target delivered_len index [] = Inr (delivered_len, 0)"
| "suffix_start_loop target delivered_len index (delivered_operation # rest) =
     (if length target \<le> index then Inl DivergedHistory
      else
        let target_operation = target ! index in
        case (target_operation, delivered_operation) of
          (HostBytes target_bytes, HostBytes delivered_bytes) \<Rightarrow>
            if prefix delivered_bytes target_bytes then
              if length target_bytes \<noteq> length delivered_bytes then
                if index + 1 \<noteq> delivered_len then Inl DivergedHistory
                else Inr (index, length delivered_bytes)
              else suffix_start_loop target delivered_len (index + 1) rest
            else if target_operation = delivered_operation
              then suffix_start_loop target delivered_len (index + 1) rest
            else Inl DivergedHistory
        | _ \<Rightarrow>
            if target_operation = delivered_operation
            then suffix_start_loop target delivered_len (index + 1) rest
            else Inl DivergedHistory)"

definition history_suffix_start ::
    "state_operation list \<Rightarrow> state_operation list \<Rightarrow> state_error + (nat \<times> nat)" where
  "history_suffix_start target delivered = suffix_start_loop target (length delivered) 0 delivered"

text \<open>The loop of \<open>split_common_history\<close>, \<open>common\<close> in reverse order.\<close>

fun common_prefix_length :: "'a list \<Rightarrow> 'a list \<Rightarrow> nat" where
  "common_prefix_length (x # xs) (y # ys) = (if x = y then Suc (common_prefix_length xs ys) else 0)"
| "common_prefix_length _ _ = 0"

definition rest_of_bytes :: "nat \<Rightarrow> bytes \<Rightarrow> state_operation list" where
  "rest_of_bytes n bs = (if n \<noteq> length bs then [HostBytes (drop n bs)] else [])"

fun split_loop ::
    "state_operation list \<Rightarrow> state_operation list \<Rightarrow> state_operation list
       \<Rightarrow> state_operation list \<times> state_operation list \<times> state_operation list" where
  "split_loop common (t # ts) (d # ds) =
     (if t = d then split_loop (t # common) ts ds
      else (case (t, d) of
              (HostBytes target_bytes, HostBytes delivered_bytes) \<Rightarrow>
                let common_bytes = common_prefix_length target_bytes delivered_bytes;
                    common' = (if common_bytes \<noteq> 0
                               then HostBytes (take common_bytes target_bytes) # common else common)
                in (rev common', rest_of_bytes common_bytes target_bytes @ ts,
                    rest_of_bytes common_bytes delivered_bytes @ ds)
            | _ \<Rightarrow> (rev common, t # ts, d # ds)))"
| "split_loop common ts ds = (rev common, ts, ds)"

definition split_common_history ::
    "state_operation list \<Rightarrow> state_operation list
       \<Rightarrow> state_operation list \<times> state_operation list \<times> state_operation list" where
  "split_common_history target delivered = split_loop [] target delivered"

definition diverged_histories_are_screen_diff_safe ::
    "('p, 'q) terminal_lib \<Rightarrow> state_operation list \<Rightarrow> state_operation list \<Rightarrow> bool" where
  "diverged_histories_are_screen_diff_safe V target delivered =
     (case split_common_history target delivered of
        (common, target_tail, delivered_tail) \<Rightarrow>
          history_tail_is_screen_diff_safe V common target_tail \<and>
          history_tail_is_screen_diff_safe V common delivered_tail)"

text \<open>The instructions for a history suffix; \<open>offset\<close> applies to the first operation only.\<close>

fun suffix_instructions :: "nat \<Rightarrow> state_operation list \<Rightarrow> instruction list" where
  "suffix_instructions offset [] = []"
| "suffix_instructions offset (HostBytes bs # ops) =
     (let rest = drop offset bs in
      (if rest \<noteq> [] then [host_bytes_instruction rest] else []) @ suffix_instructions 0 ops)"
| "suffix_instructions offset (Resize columns rows # ops) =
     viewport_instruction columns rows # suffix_instructions 0 ops"
| "suffix_instructions offset (SessionControl c # ops) =
     session_control_instruction c # suffix_instructions 0 ops"

definition diff_from ::
    "('p, 'q) terminal_lib \<Rightarrow> 'p remote_state \<Rightarrow> 'p remote_state \<Rightarrow> state_error + instruction_batch" where
  "diff_from V s delivered =
     (let target_operations = canonical_operations (rs_history s);
          delivered_operations = canonical_operations (rs_history delivered);
          instructions =
            (case history_suffix_start target_operations delivered_operations of
               Inr (suffix_start, first_byte_offset) \<Rightarrow>
                 Inr (suffix_instructions first_byte_offset (drop suffix_start target_operations))
             | Inl e \<Rightarrow>
                 if e = DivergedHistory \<and> rs_viewport s = rs_viewport delivered \<and>
                    diverged_histories_are_screen_diff_safe V target_operations delivered_operations
                 then
                   let bs = vt_state_diff V (rs_parser s) (rs_parser delivered)
                   in Inr (if bs = [] then [] else [host_bytes_instruction bs])
                 else Inl e)
      in rbind instructions (\<lambda>instructions.
           Inr \<lparr>batch_instructions =
             (if rs_echo_ack s \<noteq> rs_echo_ack delivered
              then (case rs_echo_ack s of None \<Rightarrow> instructions
                    | Some v \<Rightarrow> marker_instruction v # instructions)
              else instructions)\<rparr>))"

section \<open>Histories as streams of atoms\<close>

text \<open>
  The meaning of a history: the stream of bytes, resizes and session controls it carries,
  whatever the grouping of the bytes into operations.
\<close>

datatype state_atom = AByte byte | AResize u16 u16 | AControl session_control

fun atoms :: "state_operation list \<Rightarrow> state_atom list" where
  "atoms [] = []"
| "atoms (HostBytes bs # ops) = map AByte bs @ atoms ops"
| "atoms (Resize c r # ops) = AResize c r # atoms ops"
| "atoms (SessionControl x # ops) = AControl x # atoms ops"

text \<open>The grouping \<open>canonical_operations\<close> produces: byte runs are not empty and never adjacent.\<close>

fun canonical_form :: "state_operation list \<Rightarrow> bool" where
  "canonical_form [] = True"
| "canonical_form (HostBytes bs # ops) =
     (bs \<noteq> [] \<and> (case ops of HostBytes _ # _ \<Rightarrow> False | _ \<Rightarrow> True) \<and> canonical_form ops)"
| "canonical_form (_ # ops) = canonical_form ops"

definition runs_nonempty :: "state_operation list \<Rightarrow> bool" where
  "runs_nonempty ops \<longleftrightarrow> HostBytes [] \<notin> set ops"

lemma atoms_append [simp]: "atoms (xs @ ys) = atoms xs @ atoms ys"
  by (induction xs rule: atoms.induct) auto

lemma atoms_Cons: "atoms (x # xs) = atoms [x] @ atoms xs"
  by (cases x) auto

lemma atoms_canonical_loop: "atoms (canonical_loop acc ops) = atoms (rev acc) @ atoms ops"
  by (induction acc ops rule: canonical_loop.induct) (auto simp: atoms_Cons [symmetric])

lemma canonical_form_single: "x \<noteq> HostBytes [] \<Longrightarrow> canonical_form [x]"
  by (cases x) auto

lemma canonical_form_snoc:
  "canonical_form (xs @ [x]) \<longleftrightarrow>
     canonical_form xs \<and> x \<noteq> HostBytes [] \<and>
     \<not> ((\<exists>b. x = HostBytes b) \<and> xs \<noteq> [] \<and> (\<exists>b. last xs = HostBytes b))"
proof (induction xs rule: canonical_form.induct)
  case 1
  then show ?case by (cases x) auto
next
  case (2 bs ops)
  then show ?case by (cases ops; cases x) (auto split: state_operation.splits)
qed (auto split: state_operation.splits)

lemma canonical_loop_form:
  "canonical_form (rev acc) \<Longrightarrow> runs_nonempty ops \<Longrightarrow> canonical_form (canonical_loop acc ops)"
proof (induction acc ops rule: canonical_loop.induct)
  case (2 previous canonical bs rest)
  then show ?case
    by (simp add: canonical_form_snoc runs_nonempty_def)
qed (auto simp: canonical_form_snoc canonical_form_snoc [of "xs @ [y]" for xs y, simplified]
      canonical_form_single runs_nonempty_def)

lemma canonical_operations_atoms [simp]: "atoms (canonical_operations h) = atoms (operations h)"
  by (simp add: canonical_operations_def atoms_canonical_loop)

lemma canonical_operations_form: "runs_nonempty (operations h) \<Longrightarrow> canonical_form (canonical_operations h)"
  by (simp add: canonical_operations_def canonical_loop_form)

section \<open>The suffix of a history\<close>

text \<open>A version of the suffix search that consumes both histories together.\<close>

fun suffix_rel :: "state_operation list \<Rightarrow> state_operation list \<Rightarrow> (nat \<times> nat) option" where
  "suffix_rel ts [] = Some (0, 0)"
| "suffix_rel [] (d # ds) = None"
| "suffix_rel (t # ts) (d # ds) =
     (if t = d then map_option (\<lambda>(i, k). (Suc i, k)) (suffix_rel ts ds)
      else (case (t, d) of
              (HostBytes tb, HostBytes db) \<Rightarrow>
                if prefix db tb \<and> ds = [] then Some (0, length db) else None
            | _ \<Rightarrow> None))"

lemma prefix_length_eq: "prefix xs ys \<Longrightarrow> length ys = length xs \<longleftrightarrow> ys = xs"
  by (auto simp: prefix_def)

lemma suffix_start_loop_rel:
  "delivered_len = index + length ds \<Longrightarrow> index \<le> length target \<Longrightarrow>
   suffix_start_loop target delivered_len index ds =
     (case suffix_rel (drop index target) ds of
        None \<Rightarrow> Inl DivergedHistory
      | Some (i, k) \<Rightarrow> Inr (index + i, k))"
proof (induction ds arbitrary: index)
  case Nil
  then show ?case by simp
next
  case (Cons d ds)
  show ?case
  proof (cases "length target \<le> index")
    case True
    then show ?thesis by simp
  next
    case False
    then have drop: "drop index target = target ! index # drop (Suc index) target"
      by (simp add: Cons_nth_drop_Suc)
    have IH: "suffix_start_loop target delivered_len (Suc index) ds =
        (case suffix_rel (drop (Suc index) target) ds of
           None \<Rightarrow> Inl DivergedHistory | Some (i, k) \<Rightarrow> Inr (Suc index + i, k))"
      using Cons.IH [of "Suc index"] Cons.prems False by simp
    have len: "Suc index = delivered_len \<longleftrightarrow> ds = []" using Cons.prems(1) by auto
    show ?thesis
      using False
      by (cases "target ! index"; cases d)
         (auto simp: drop IH len Let_def prefix_length_eq split: option.splits)
  qed
qed

lemma history_suffix_start_rel:
  "history_suffix_start target delivered =
     (case suffix_rel target delivered of None \<Rightarrow> Inl DivergedHistory | Some r \<Rightarrow> Inr r)"
  by (auto simp: history_suffix_start_def suffix_start_loop_rel split: option.splits)

text \<open>The meaning of instructions that carry no marker, relative to nothing.\<close>

fun instruction_atoms :: "instruction list \<Rightarrow> state_atom list" where
  "instruction_atoms [] = []"
| "instruction_atoms (i # is) =
     (case in_bytes i of None \<Rightarrow> [] | Some r \<Rightarrow> map AByte (br_value r)) @
     (case in_viewport i of None \<Rightarrow> []
      | Some v \<Rightarrow> [AResize (ucast (vp_columns v)) (ucast (vp_rows v))]) @
     (case in_session_control i of None \<Rightarrow> [] | Some c \<Rightarrow> [AControl c]) @
     instruction_atoms is"

lemma ucast_u16_u64 [simp]: "(ucast (ucast (c :: u16) :: u64) :: u16) = c"
  by (rule bit_word_eqI) (simp add: bit_ucast_iff)

lemma instruction_atoms_append [simp]:
  "instruction_atoms (xs @ ys) = instruction_atoms xs @ instruction_atoms ys"
  by (induction xs) auto

lemma suffix_instructions_atoms:
  "instruction_atoms (suffix_instructions k ops) =
     (case ops of HostBytes bs # ops' \<Rightarrow> map AByte (drop k bs) @ atoms ops' | _ \<Rightarrow> atoms ops)"
proof (induction k ops rule: suffix_instructions.induct)
  case (2 k bs ops)
  then show ?case
    by (cases ops) (auto simp: host_bytes_instruction_def split: state_operation.splits)
next
  case (3 k c r ops)
  then show ?case
    by (cases ops) (auto simp: viewport_instruction_def viewport_of_def split: state_operation.splits)
next
  case (4 k c ops)
  then show ?case
    by (cases ops) (auto simp: session_control_instruction_def split: state_operation.splits)
qed simp

lemma suffix_instructions_zero [simp]: "instruction_atoms (suffix_instructions 0 ops) = atoms ops"
  using suffix_instructions_atoms [of 0 ops]
  by (cases ops) (simp_all split: state_operation.splits)

definition no_byte_head :: "state_atom list \<Rightarrow> bool" where
  "no_byte_head xs \<longleftrightarrow> (case xs of AByte _ # _ \<Rightarrow> False | _ \<Rightarrow> True)"

lemma prefix_byte_runs:
  "no_byte_head xs \<Longrightarrow> no_byte_head ys \<Longrightarrow>
   prefix (map AByte db @ xs) (map AByte tb @ ys) \<longleftrightarrow>
     db = tb \<and> prefix xs ys \<or> prefix db tb \<and> xs = []"
proof (induction db arbitrary: tb)
  case Nil
  then show ?case
    by (cases tb) (auto simp: no_byte_head_def prefix_Cons split: list.splits state_atom.splits)
next
  case (Cons b db)
  then show ?case
    by (cases tb) (auto simp: no_byte_head_def prefix_Cons split: list.splits state_atom.splits)
qed

lemma canonical_tail_head: "canonical_form (HostBytes bs # ops) \<Longrightarrow> no_byte_head (atoms ops)"
  by (cases ops rule: atoms.cases) (auto simp: no_byte_head_def)

lemma canonical_form_tail: "canonical_form (x # ops) \<Longrightarrow> canonical_form ops"
  by (cases x) auto

lemma canonical_atoms_Nil [simp]: "canonical_form ops \<Longrightarrow> atoms ops = [] \<longleftrightarrow> ops = []"
  by (cases ops rule: atoms.cases) auto

lemma prefix_atoms_head:
  assumes "canonical_form (t # ts)" "canonical_form (d # ds)" "t \<noteq> d"
  shows "prefix (atoms (d # ds)) (atoms (t # ts)) \<longleftrightarrow>
     (\<exists>tb db. t = HostBytes tb \<and> d = HostBytes db \<and> prefix db tb \<and> ds = [])"
proof (cases "(\<exists>tb. t = HostBytes tb) \<and> (\<exists>db. d = HostBytes db)")
  case True
  then obtain tb db where td: "t = HostBytes tb" "d = HostBytes db" by blast
  have "canonical_form ds" using assms(2) by (rule canonical_form_tail)
  then show ?thesis
    using prefix_byte_runs [of "atoms ds" "atoms ts" db tb] canonical_tail_head [of tb ts]
      canonical_tail_head [of db ds] assms td by auto
next
  case False
  then show ?thesis
    using assms by (cases t; cases d) (auto simp: neq_Nil_conv)
qed

lemma suffix_rel_spec:
  "canonical_form ts \<Longrightarrow> canonical_form ds \<Longrightarrow>
   (case suffix_rel ts ds of
      Some (i, k) \<Rightarrow> atoms ts = atoms ds @ instruction_atoms (suffix_instructions k (drop i ts))
    | None \<Rightarrow> \<not> prefix (atoms ds) (atoms ts))"
proof (induction ts ds rule: suffix_rel.induct)
  case (2 d ds)
  then show ?case by (cases d) auto
next
  case (3 t ts d ds)
  show ?case
  proof (cases "t = d")
    case True
    have "canonical_form ts" "canonical_form ds"
      using "3.prems" canonical_form_tail by blast+
    with "3.IH" True show ?thesis
      by (auto simp: atoms_Cons [of d ts] atoms_Cons [of d ds] split: option.splits)
  next
    case False
    with prefix_atoms_head [OF "3.prems" False] show ?thesis
      by (cases t; cases d) (auto simp: prefix_def suffix_instructions_atoms)
  qed
qed simp

text \<open>
  The suffix search is exact. For canonical histories it succeeds exactly when the
  delivered stream of bytes, resizes and controls is a prefix of the target stream, and then the
  instructions made from the suffix carry precisely the missing part: nothing is repeated and
  nothing is lost, also when the boundary falls inside a byte run.
\<close>

theorem history_suffix_exact:
  assumes "runs_nonempty (operations target)" "runs_nonempty (operations delivered)"
  shows "case history_suffix_start (canonical_operations target) (canonical_operations delivered) of
      Inr (i, k) \<Rightarrow> atoms (operations target) =
        atoms (operations delivered) @
        instruction_atoms (suffix_instructions k (drop i (canonical_operations target)))
    | Inl e \<Rightarrow> e = DivergedHistory \<and> \<not> prefix (atoms (operations delivered)) (atoms (operations target))"
  using suffix_rel_spec [OF canonical_operations_form [OF assms(1)] canonical_operations_form [OF assms(2)]]
  by (auto simp: history_suffix_start_rel split: option.splits)

theorem history_suffix_exact_witness:
  "let target = \<lparr>sh_tail = [HostBytes [67], HostBytes [65, 66]], sh_operation_count = 2,
                 sh_retained_bytes = 3\<rparr>;
       delivered = \<lparr>sh_tail = [HostBytes [65]], sh_operation_count = 1, sh_retained_bytes = 1\<rparr>
   in history_suffix_start (canonical_operations target) (canonical_operations delivered) = Inr (0, 1) \<and>
      atoms (operations target) = atoms (operations delivered) @
        instruction_atoms (suffix_instructions 1 (drop 0 (canonical_operations target)))"
  using history_suffix_exact [of
      "\<lparr>sh_tail = [HostBytes [67], HostBytes [65, 66]], sh_operation_count = 2, sh_retained_bytes = 3\<rparr>"
      "\<lparr>sh_tail = [HostBytes [65]], sh_operation_count = 1, sh_retained_bytes = 1\<rparr>"]
  by (simp add: runs_nonempty_def operations_def canonical_operations_def history_suffix_start_def)

section \<open>The invariant of a terminal state\<close>

definition nonzero_size :: "u16 \<Rightarrow> u16 \<Rightarrow> bool" where
  "nonzero_size columns rows \<longleftrightarrow> columns \<noteq> 0 \<and> rows \<noteq> 0"

fun bytes_retained :: "state_operation list \<Rightarrow> nat" where
  "bytes_retained [] = 0"
| "bytes_retained (HostBytes bs # ops) = length bs + bytes_retained ops"
| "bytes_retained (_ # ops) = bytes_retained ops"

text \<open>The viewport a stream leaves, and that every resize in it changes the viewport.\<close>

fun size_after :: "u16 \<times> u16 \<Rightarrow> state_atom list \<Rightarrow> u16 \<times> u16" where
  "size_after v [] = v"
| "size_after v (AResize c r # xs) = size_after (c, r) xs"
| "size_after v (_ # xs) = size_after v xs"

fun resizes_effective :: "u16 \<times> u16 \<Rightarrow> state_atom list \<Rightarrow> bool" where
  "resizes_effective v [] = True"
| "resizes_effective v (AResize c r # xs) \<longleftrightarrow>
     v \<noteq> (c, r) \<and> nonzero_size c r \<and> resizes_effective (c, r) xs"
| "resizes_effective v (_ # xs) = resizes_effective v xs"

definition history_consistent :: "state_history \<Rightarrow> bool" where
  "history_consistent h \<longleftrightarrow>
     sh_operation_count h = length (sh_tail h) \<and>
     sh_retained_bytes h = bytes_retained (sh_tail h) \<and>
     runs_nonempty (operations h)"

definition history_bounded :: "state_history \<Rightarrow> bool" where
  "history_bounded h \<longleftrightarrow>
     sh_operation_count h \<le> MAX_RETAINED_OPERATIONS \<and> sh_retained_bytes h \<le> MAX_RETAINED_HOST_BYTES"

abbreviation initial_size :: "'p remote_state \<Rightarrow> u16 \<times> u16" where
  "initial_size s \<equiv> (rs_initial_columns s, rs_initial_rows s)"

definition sizes_consistent :: "'p remote_state \<Rightarrow> bool" where
  "sizes_consistent s \<longleftrightarrow>
     (let stream = atoms (operations (rs_history s)) in
      nonzero_size (rs_initial_columns s) (rs_initial_rows s) \<and>
      resizes_effective (initial_size s) stream \<and>
      rs_viewport s = (case size_after (initial_size s) stream of (c, r) \<Rightarrow> viewport_of c r))"

definition state_inv :: "'p remote_state \<Rightarrow> bool" where
  "state_inv s \<longleftrightarrow>
     history_consistent (rs_history s) \<and> history_bounded (rs_history s) \<and> sizes_consistent s"

lemma size_after_append [simp]: "size_after v (xs @ ys) = size_after (size_after v xs) ys"
  by (induction v xs rule: size_after.induct) auto

lemma resizes_effective_append [simp]:
  "resizes_effective v (xs @ ys) \<longleftrightarrow> resizes_effective v xs \<and> resizes_effective (size_after v xs) ys"
  by (induction v xs rule: size_after.induct) auto

lemma size_after_bytes [simp]: "size_after v (map AByte bs) = v"
  by (induction bs) auto

lemma resizes_effective_bytes [simp]: "resizes_effective v (map AByte bs)"
  by (induction bs) auto

lemma size_after_nonzero:
  "nonzero_size (fst v) (snd v) \<Longrightarrow> resizes_effective v xs \<Longrightarrow>
   nonzero_size (fst (size_after v xs)) (snd (size_after v xs))"
  by (induction v xs rule: size_after.induct) auto

lemma viewport_of_inj [simp]: "viewport_of c r = viewport_of c' r' \<longleftrightarrow> c = c' \<and> r = r'"
  unfolding viewport_of_def by (metis ucast_u16_u64 viewport_size.ext_inject)

section \<open>What applying a batch does\<close>

lemma u16_of_u64_Some: "u16_of_u64 w = Some c \<longleftrightarrow> w = ucast c"
proof
  assume "u16_of_u64 w = Some c"
  then have w: "unat w < 2 ^ 16" and c: "c = of_nat (unat w)"
    by (auto simp: u16_of_u64_def u16_try_from_def split: if_splits)
  have "unat (ucast c :: u64) = unat c"
    by (simp add: unsigned_ucast_eq take_bit_nat_eq_self less_trans [OF unsigned_less])
  also have "\<dots> = unat w"
    using w c by (simp only: unat_of_nat) simp
  finally show "w = ucast c" by (simp add: word_unat_eq_iff)
next
  assume "w = ucast c"
  moreover have "unat c < 2 ^ 16" using unsigned_less [of c] by simp
  ultimately have "unat w = unat c"
    by (simp add: unsigned_ucast_eq take_bit_nat_eq_self)
  with \<open>unat c < 2 ^ 16\<close> show "u16_of_u64 w = Some c"
    by (simp add: u16_of_u64_def u16_try_from_def)
qed

lemma u16_of_u64_ucast [simp]: "u16_of_u64 (ucast c) = Some c"
  by (simp add: u16_of_u64_Some)

lemma ucast_u16_eq [simp]: "(ucast (c :: u16) :: u64) = ucast c' \<longleftrightarrow> c = c'"
  by (metis ucast_u16_u64)

lemma ucast_u16_zero [simp]: "(ucast (c :: u16) :: u64) = 0 \<longleftrightarrow> c = 0"
  by (metis ucast_u16_u64 unsigned_0)

lemma validate_viewport_ok:
  "validate_viewport c r = Inr () \<longleftrightarrow>
     (\<exists>c' r'. nonzero_size c' r' \<and> c = ucast c' \<and> r = ucast r')"
  unfolding validate_viewport_def nonzero_size_def
  by (auto simp: u16_of_u64_Some)

definition size_of_viewport :: "viewport_size \<Rightarrow> u16 \<times> u16" where
  "size_of_viewport v = (ucast (vp_columns v), ucast (vp_rows v))"

lemma size_of_viewport_of [simp]: "size_of_viewport (viewport_of c r) = (c, r)"
  by (simp add: size_of_viewport_def viewport_of_def)

lemma validate_viewports_Cons:
  "validate_viewports (i # is) = Inr () \<longleftrightarrow>
     (\<forall>v. in_viewport i = Some v \<longrightarrow> (\<exists>c r. nonzero_size c r \<and> v = viewport_of c r)) \<and>
     validate_viewports is = Inr ()"
proof -
  have "validate_viewport (vp_columns v) (vp_rows v) = Inr () \<longleftrightarrow>
      (\<exists>c r. nonzero_size c r \<and> v = viewport_of c r)" for v
    by (cases v) (simp add: validate_viewport_ok viewport_of_def)
  then show ?thesis by (auto split: option.splits)
qed

declare validate_viewports.simps(2) [simp del]

text \<open>The operations a valid batch appends to the history of a state with the given viewport.\<close>

fun batch_ops :: "u16 \<times> u16 \<Rightarrow> instruction list \<Rightarrow> state_operation list" where
  "batch_ops v [] = []"
| "batch_ops v (i # is) =
     (case in_bytes i of None \<Rightarrow> [] | Some r \<Rightarrow> if br_value r = [] then [] else [HostBytes (br_value r)]) @
     (case in_viewport i of
        None \<Rightarrow> []
      | Some p \<Rightarrow> if size_of_viewport p = v then []
                 else [Resize (fst (size_of_viewport p)) (snd (size_of_viewport p))]) @
     (case in_session_control i of None \<Rightarrow> [] | Some c \<Rightarrow> [SessionControl c]) @
     batch_ops (case in_viewport i of None \<Rightarrow> v | Some p \<Rightarrow> size_of_viewport p) is"

definition process_nothing :: "('p, 'q) terminal_lib \<Rightarrow> bool" where
  "process_nothing V \<longleftrightarrow> (\<forall>p. vt_process V [] p = p)"

text \<open>\<open>extends V ops s s'\<close>: \<open>s'\<close> is \<open>s\<close> with the operations \<open>ops\<close> performed and recorded.\<close>

definition extends :: "('p, 'q) terminal_lib \<Rightarrow> state_operation list \<Rightarrow> 'p remote_state \<Rightarrow> 'p remote_state \<Rightarrow> bool" where
  "extends V ops s s' \<longleftrightarrow>
     operations (rs_history s') = operations (rs_history s) @ ops \<and> runs_nonempty ops \<and>
     sh_operation_count (rs_history s') = sh_operation_count (rs_history s) + length ops \<and>
     sh_retained_bytes (rs_history s') = sh_retained_bytes (rs_history s) + bytes_retained ops \<and>
     initial_size s' = initial_size s \<and>
     (\<forall>v. rs_viewport s = viewport_of (fst v) (snd v) \<longrightarrow>
        rs_viewport s' = viewport_of (fst (size_after v (atoms ops))) (snd (size_after v (atoms ops)))) \<and>
     (process_nothing V \<longrightarrow> rs_parser s' = replay V ops (rs_parser s))"

lemma bytes_retained_append [simp]: "bytes_retained (xs @ ys) = bytes_retained xs + bytes_retained ys"
  by (induction xs rule: bytes_retained.induct) auto

lemma bytes_retained_rev [simp]: "bytes_retained (rev xs) = bytes_retained xs"
  by (induction xs rule: bytes_retained.induct) auto

lemma replay_append: "replay V (xs @ ys) p = replay V ys (replay V xs p)"
  by (induction xs arbitrary: p rule: atoms.induct) auto

lemma runs_nonempty_append [simp]: "runs_nonempty (xs @ ys) \<longleftrightarrow> runs_nonempty xs \<and> runs_nonempty ys"
  by (simp add: runs_nonempty_def)

lemma extends_refl: "extends V [] s s"
  by (auto simp: extends_def runs_nonempty_def)

lemma extends_trans:
  assumes "extends V xs s t" "extends V ys t u"
  shows "extends V (xs @ ys) s u"
  using assms unfolding extends_def by (auto simp: replay_append)

lemma operations_push [simp]: "operations (history_push x h) = operations h @ [x]"
  by (simp add: operations_def history_push_def)

lemma history_push_counts [simp]:
  "sh_operation_count (history_push x h) = Suc (sh_operation_count h)"
  "sh_retained_bytes (history_push x h) = sh_retained_bytes h"
  by (simp_all add: history_push_def)

lemma operations_retained [simp]: "operations (h\<lparr>sh_retained_bytes := n\<rparr>) = operations h"
  by (simp add: operations_def)

lemma extends_host_bytes:
  "extends V (if bs = [] then [] else [HostBytes bs]) s (apply_host_bytes V bs s)"
  by (auto simp: extends_def apply_host_bytes_def Let_def runs_nonempty_def process_nothing_def)

lemma extends_resize:
  "rs_viewport s = viewport_of (fst v) (snd v) \<Longrightarrow>
   extends V (if (c, r) = v then [] else [Resize c r]) s (apply_resize V c r s)"
  by (cases v) (auto simp: extends_def apply_resize_def runs_nonempty_def viewport_of_def
       dest: arg_cong [of _ _ "ucast :: u64 \<Rightarrow> u16"])

lemma extends_control:
  "extends V [SessionControl c] s (s\<lparr>rs_history := history_push (SessionControl c) (rs_history s)\<rparr>)"
  by (auto simp: extends_def runs_nonempty_def)

lemma extends_echo: "extends V xs s t \<Longrightarrow> extends V xs s (t\<lparr>rs_echo_ack := e\<rparr>)"
  by (simp add: extends_def)

lemma apply_instructions_extends:
  "validate_viewports is = Inr () \<Longrightarrow> rs_viewport s = viewport_of (fst v) (snd v) \<Longrightarrow>
   \<exists>s'. apply_instructions V is s = (Inr (), s') \<and> extends V (batch_ops v is) s s'"
proof (induction "is" arbitrary: s v)
  case Nil
  then show ?case by (simp add: extends_refl)
next
  case (Cons i "is")
  define xs where "xs = (case in_bytes i of None \<Rightarrow> []
      | Some r \<Rightarrow> if br_value r = [] then [] else [HostBytes (br_value r)])"
  define s1 where "s1 = (case in_bytes i of None \<Rightarrow> s | Some r \<Rightarrow> apply_host_bytes V (br_value r) s)"
  define ys where "ys = (case in_viewport i of None \<Rightarrow> []
      | Some p \<Rightarrow> if size_of_viewport p = v then []
                 else [Resize (fst (size_of_viewport p)) (snd (size_of_viewport p))])"
  define w where "w = (case in_viewport i of None \<Rightarrow> v | Some p \<Rightarrow> size_of_viewport p)"
  have e1: "extends V xs s s1"
    unfolding xs_def s1_def by (auto simp: extends_host_bytes extends_refl split: option.split)
  have v1: "rs_viewport s1 = viewport_of (fst v) (snd v)"
  proof -
    have "size_after v (atoms xs) = v" by (auto simp: xs_def split: option.splits)
    with e1 Cons.prems(2) show ?thesis by (simp add: extends_def)
  qed
  obtain s2 where s2: "apply_viewport V (in_viewport i) s1 = (Inr (), s2)"
    and e2: "extends V ys s1 s2" and w: "size_after v (atoms ys) = w"
  proof (cases "in_viewport i")
    case None
    then show ?thesis using that by (simp add: apply_viewport_def ys_def w_def extends_refl)
  next
    case (Some p)
    with Cons.prems(1) obtain c r where p: "p = viewport_of c r"
      by (auto simp: validate_viewports_Cons)
    have "apply_viewport V (in_viewport i) s1 = (Inr (), apply_resize V c r s1)"
      by (simp add: apply_viewport_def Some p) (simp add: viewport_of_def)
    moreover have "ys = (if (c, r) = v then [] else [Resize c r])"
      by (simp add: ys_def Some p)
    moreover have "w = (c, r)" by (simp add: w_def Some p)
    ultimately show ?thesis
      using that [of "apply_resize V c r s1"] extends_resize [OF v1, of V c r] by simp
  qed
  define zs where "zs = (case in_session_control i of None \<Rightarrow> [] | Some c \<Rightarrow> [SessionControl c])"
  define s3 where "s3 = (case in_marker i of None \<Rightarrow> s2 | Some m \<Rightarrow> s2\<lparr>rs_echo_ack := Some (mk_value m)\<rparr>)"
  define s4 where "s4 = (case in_session_control i of None \<Rightarrow> s3
      | Some c \<Rightarrow> s3\<lparr>rs_history := history_push (SessionControl c) (rs_history s3)\<rparr>)"
  have "extends V [] s2 s3"
    unfolding s3_def by (auto simp: extends_refl extends_echo split: option.split)
  moreover have "extends V zs s3 s4"
    unfolding zs_def s4_def by (auto simp: extends_refl extends_control split: option.split)
  ultimately have e: "extends V (xs @ ys @ zs) s s4"
    using e1 e2 extends_trans by (metis append_Nil)
  have "size_after v (atoms (xs @ ys @ zs)) = w"
    using w by (auto simp: xs_def zs_def split: option.splits)
  then have v4: "rs_viewport s4 = viewport_of (fst w) (snd w)"
    using e Cons.prems(2) by (auto simp: extends_def simp del: atoms_append)
  have "validate_viewports is = Inr ()" using Cons.prems(1) by (simp add: validate_viewports_Cons)
  from Cons.IH [OF this v4] obtain s' where s':
    "apply_instructions V is s4 = (Inr (), s')" "extends V (batch_ops w is) s4 s'" by blast
  have "apply_instructions V (i # is) s = apply_instructions V is s4"
    unfolding s4_def s3_def by (simp add: s1_def [symmetric] s2 Let_def)
  moreover have "batch_ops v (i # is) = (xs @ ys @ zs) @ batch_ops w is"
    by (simp add: xs_def ys_def zs_def w_def)
  ultimately show ?case
    using s' extends_trans [OF e s'(2)] by simp
qed

lemma echo_unchanged [simp]:
  "rs_echo_ack (apply_host_bytes V bs s) = rs_echo_ack s"
  "rs_echo_ack (apply_resize V c r s) = rs_echo_ack s"
  "rs_echo_ack (snd (apply_viewport V vp s)) = rs_echo_ack s"
  by (auto simp: apply_host_bytes_def apply_resize_def apply_viewport_def Let_def
      split: option.split)

lemma apply_instructions_echo:
  "apply_instructions V is s = (Inr (), s') \<Longrightarrow> check_markers (rs_echo_ack s) is = Inr e \<Longrightarrow>
   rs_echo_ack s' = e"
proof (induction "is" arbitrary: s)
  case (Cons i "is")
  let ?s1 = "case in_bytes i of None \<Rightarrow> s | Some r \<Rightarrow> apply_host_bytes V (br_value r) s"
  obtain s2 where s2: "apply_viewport V (in_viewport i) ?s1 = (Inr (), s2)"
    using Cons.prems(1) by (auto simp: Let_def split: prod.splits sum.splits)
  let ?s3 = "case in_marker i of None \<Rightarrow> s2 | Some m \<Rightarrow> s2\<lparr>rs_echo_ack := Some (mk_value m)\<rparr>"
  let ?s4 = "case in_session_control i of None \<Rightarrow> ?s3
      | Some c \<Rightarrow> ?s3\<lparr>rs_history := history_push (SessionControl c) (rs_history ?s3)\<rparr>"
  have run: "apply_instructions V is ?s4 = (Inr (), s')"
    using Cons.prems(1) by (simp add: s2 Let_def)
  have "rs_echo_ack s2 = rs_echo_ack s"
    using arg_cong [OF s2, of "\<lambda>p. rs_echo_ack (snd p)"] by (simp split: option.splits)
  then have "rs_echo_ack ?s4 = (case in_marker i of None \<Rightarrow> rs_echo_ack s | Some m \<Rightarrow> Some (mk_value m))"
    by (simp split: option.split)
  then have "check_markers (rs_echo_ack ?s4) is = Inr e"
    using Cons.prems(2) by (simp split: option.splits if_splits)
  with run show ?case by (rule Cons.IH)
qed simp

lemma growth_loop_batch_ops:
  "validate_viewports is = Inr () \<Longrightarrow> growth_loop ab ao (viewport_of (fst v) (snd v)) is = Inr (b, n) \<Longrightarrow>
   b = ab + bytes_retained (batch_ops v is) \<and> n = ao + length (batch_ops v is)"
proof (induction "is" arbitrary: ab ao v)
  case (Cons i "is")
  let ?w = "case in_viewport i of None \<Rightarrow> v | Some p \<Rightarrow> size_of_viewport p"
  have vw: "(case in_viewport i of None \<Rightarrow> viewport_of (fst v) (snd v) | Some next \<Rightarrow> next) =
      viewport_of (fst ?w) (snd ?w)"
    using Cons.prems(1) by (auto simp: validate_viewports_Cons split: option.splits)
  have changed: "(case in_viewport i of None \<Rightarrow> False | Some next \<Rightarrow> viewport_of (fst v) (snd v) \<noteq> next) \<longleftrightarrow>
      (\<exists>p. in_viewport i = Some p \<and> size_of_viewport p \<noteq> v)"
    using Cons.prems(1) by (cases v) (auto simp: validate_viewports_Cons split: option.splits)
  have valid: "validate_viewports is = Inr ()" using Cons.prems(1) by (simp add: validate_viewports_Cons)
  note IH = Cons.IH [OF valid, where v = ?w]
  have rest: "growth_loop (ab + (case in_bytes i of None \<Rightarrow> 0 | Some r \<Rightarrow> length (br_value r)))
      (ao + (case in_bytes i of None \<Rightarrow> 0 | Some r \<Rightarrow> if br_value r = [] then 0 else 1) +
        (if \<exists>p. in_viewport i = Some p \<and> size_of_viewport p \<noteq> v then 1 else 0) +
        (if in_session_control i = None then 0 else 1))
      (viewport_of (fst ?w) (snd ?w)) is = Inr (b, n)"
    using Cons.prems(2) unfolding growth_loop.simps Let_def vw changed
    by (cases "in_bytes i") (simp_all add: add.assoc)
  from IH [OF rest] show ?case
    by (auto split: option.splits if_splits)
qed simp

lemma history_growth_batch_ops:
  "validate_viewports (batch_instructions batch) = Inr () \<Longrightarrow>
   history_growth batch (viewport_of (fst v) (snd v)) = Inr (b, n) \<Longrightarrow>
   b = bytes_retained (batch_ops v (batch_instructions batch)) \<and>
   n = length (batch_ops v (batch_instructions batch))"
  unfolding history_growth_def by (drule (1) growth_loop_batch_ops) simp

lemma validate_history_size_ok:
  "validate_history_size rb oc ab ao = Inr () \<longleftrightarrow>
     rb + ab \<le> MAX_RETAINED_HOST_BYTES \<and> oc + ao \<le> MAX_RETAINED_OPERATIONS"
  by (auto simp: validate_history_size_def MAX_RETAINED_HOST_BYTES_def MAX_RETAINED_OPERATIONS_def
      usize_max_def)

lemma batch_ops_effective:
  "validate_viewports is = Inr () \<Longrightarrow> resizes_effective v (atoms (batch_ops v is))"
proof (induction "is" arbitrary: v)
  case (Cons i "is")
  then show ?case
    by (auto simp: validate_viewports_Cons split: option.splits)
qed simp

lemma apply_instructions_ok: "validate_viewports is = Inr () \<Longrightarrow> fst (apply_instructions V is s) = Inr ()"
proof (induction "is" arbitrary: s)
  case (Cons i "is")
  have "\<exists>t. apply_viewport V (in_viewport i) s1 = (Inr (), t)" for s1 :: "'a remote_state"
  proof (cases "in_viewport i")
    case (Some p)
    with Cons.prems obtain c r where "p = viewport_of c r" by (auto simp: validate_viewports_Cons)
    with Some show ?thesis by (simp add: apply_viewport_def) (simp add: viewport_of_def)
  qed (simp add: apply_viewport_def)
  then obtain t where "apply_viewport V (in_viewport i)
      (case in_bytes i of None \<Rightarrow> s | Some run \<Rightarrow> apply_host_bytes V (br_value run) s) = (Inr (), t)"
    by blast
  with Cons show ?case by (simp add: Let_def validate_viewports_Cons)
qed simp

lemma state_apply_rollback:
  "fst (state_apply V batch s) = Inr () \<or> snd (state_apply V batch s) = s"
  using apply_instructions_ok [of "batch_instructions batch" V]
  by (auto simp: state_apply_def split: sum.splits prod.splits)

text \<open>
  Property C6: applying a batch is transactional. Whatever the state and the batch, either the
  application succeeds or the state is exactly what it was: no error path (an invalid viewport
  anywhere in the batch, an echo acknowledgement that goes back, a history that can neither grow
  nor be compacted) leaves a partly applied batch behind.
\<close>

theorem state_apply_transactional:
  "fst (state_apply V batch s) = Inr () \<or> snd (state_apply V batch s) = s"
  by (rule state_apply_rollback)

section \<open>The invariant of reachable states\<close>

lemma extends_inv:
  assumes "extends V ops s t" "history_consistent (rs_history s)" "sizes_consistent s"
    and "sh_retained_bytes (rs_history s) + bytes_retained ops \<le> MAX_RETAINED_HOST_BYTES"
    and "sh_operation_count (rs_history s) + length ops \<le> MAX_RETAINED_OPERATIONS"
    and "resizes_effective (size_of_viewport (rs_viewport s)) (atoms ops)"
  shows "state_inv t"
proof -
  have "length (sh_tail h) = length (operations h)" "bytes_retained (sh_tail h) = bytes_retained (operations h)"
    for h
    by (simp_all add: operations_def)
  with assms(1,2) have "history_consistent (rs_history t)"
    by (simp add: history_consistent_def extends_def)
  moreover have "history_bounded (rs_history t)"
    using assms(1,4,5) by (simp add: history_bounded_def extends_def)
  moreover have "sizes_consistent t"
    using assms(1,3,6)
    by (auto simp: sizes_consistent_def extends_def Let_def split: prod.splits)
  ultimately show ?thesis by (simp add: state_inv_def)
qed

lemma compacted_inv:
  assumes "state_inv s" "compacted_history V batch s = Inr (h, c, r)"
  shows "history_consistent h" "rs_viewport s = viewport_of c r" "nonzero_size c r"
    "operations h = (if vt_state_formatted V (rs_parser s) = [] then []
                     else [HostBytes (vt_state_formatted V (rs_parser s))])"
    "history_ends_at_ground V (canonical_operations (rs_history s))"
    "\<exists>ab ao. history_growth batch (rs_viewport s) = Inr (ab, ao) \<and>
        sh_retained_bytes h + ab \<le> MAX_RETAINED_HOST_BYTES \<and>
        sh_operation_count h + ao \<le> MAX_RETAINED_OPERATIONS"
proof -
  obtain c' r' where v: "rs_viewport s = viewport_of c' r'" "nonzero_size c' r'"
    using assms(1) size_after_nonzero [of "initial_size s" "atoms (operations (rs_history s))"]
    by (auto simp: state_inv_def sizes_consistent_def Let_def split: prod.splits)
  with assms(2) show "rs_viewport s = viewport_of c r" "nonzero_size c r"
    by (auto simp: compacted_history_def Let_def viewport_of_def split: if_splits)
  show "history_consistent h" "operations h = (if vt_state_formatted V (rs_parser s) = [] then []
                     else [HostBytes (vt_state_formatted V (rs_parser s))])"
    "history_ends_at_ground V (canonical_operations (rs_history s))"
    using assms(2)
    by (auto simp: compacted_history_def Let_def history_consistent_def operations_def runs_nonempty_def
        split: if_splits)
  show "\<exists>ab ao. history_growth batch (rs_viewport s) = Inr (ab, ao) \<and>
        sh_retained_bytes h + ab \<le> MAX_RETAINED_HOST_BYTES \<and>
        sh_operation_count h + ao \<le> MAX_RETAINED_OPERATIONS"
    using assms(2)
    by (auto simp: compacted_history_def Let_def validate_history_size_ok split: if_splits prod.splits)
qed

text \<open>
  A successful application performs the operations of the batch on the state itself, or on the
  state with its history replaced by a snapshot; in both cases the limits hold afterwards.
\<close>

lemma state_apply_cases:
  assumes "state_inv s" "state_apply V batch s = (Inr u, t)"
  obtains s0 where "extends V (batch_ops (size_of_viewport (rs_viewport s)) (batch_instructions batch)) s0 t"
    and "state_inv t" "validate_viewports (batch_instructions batch) = Inr ()"
    and "is_ok (validate_history_growth batch s) \<and> s0 = s \<or>
      (\<exists>h c r. \<not> is_ok (validate_history_growth batch s) \<and> compacted_history V batch s = Inr (h, c, r) \<and>
         s0 = s\<lparr>rs_history := h, rs_initial_columns := c, rs_initial_rows := r\<rparr>)"
    and "check_markers (rs_echo_ack s) (batch_instructions batch) = Inr (rs_echo_ack t)"
proof -
  let ?is = "batch_instructions batch"
  let ?v = "size_of_viewport (rs_viewport s)"
  let ?ops = "batch_ops ?v ?is"
  have valid: "validate_viewports ?is = Inr ()" and "\<exists>e. check_markers (rs_echo_ack s) ?is = Inr e"
    using assms(2) by (auto simp: state_apply_def split: sum.splits)
  then obtain e where e: "check_markers (rs_echo_ack s) ?is = Inr e" by blast
  have v: "rs_viewport s = viewport_of (fst ?v) (snd ?v)"
    using assms(1) by (auto simp: state_inv_def sizes_consistent_def Let_def split: prod.splits)
  have eff: "resizes_effective ?v (atoms ?ops)" by (rule batch_ops_effective [OF valid])
  show ?thesis
  proof (cases "is_ok (validate_history_growth batch s)")
    case True
    then have run: "apply_instructions V ?is s = (Inr (), t)"
      using assms(2) by (simp add: state_apply_def valid e)
    with apply_instructions_extends [OF valid v, of V] have ext: "extends V ?ops s t" by auto
    obtain b n where "history_growth batch (rs_viewport s) = Inr (b, n)"
      "validate_history_size (sh_retained_bytes (rs_history s)) (sh_operation_count (rs_history s)) b n = Inr ()"
      using True by (auto simp: validate_history_growth_def is_ok_def split: sum.splits)
    with history_growth_batch_ops [OF valid, of ?v] v
    have "sh_retained_bytes (rs_history s) + bytes_retained ?ops \<le> MAX_RETAINED_HOST_BYTES"
      "sh_operation_count (rs_history s) + length ?ops \<le> MAX_RETAINED_OPERATIONS"
      by (auto simp: validate_history_size_ok)
    then have "state_inv t"
      using extends_inv [OF ext] assms(1) eff by (simp add: state_inv_def)
    with that [of s] True ext valid e apply_instructions_echo [OF run e] show ?thesis by simp
  next
    case False
    then obtain h c r where comp: "compacted_history V batch s = Inr (h, c, r)"
      using assms(2) by (auto simp: state_apply_def valid e split: sum.splits)
    let ?s = "s\<lparr>rs_history := h, rs_initial_columns := c, rs_initial_rows := r\<rparr>"
    note inv = compacted_inv [OF assms(1) comp]
    have run: "apply_instructions V ?is ?s = (Inr (), t)"
      using assms(2) False by (simp add: state_apply_def valid e comp)
    have "rs_viewport ?s = viewport_of (fst ?v) (snd ?v)" using v by simp
    from apply_instructions_extends [OF valid this, of V] run have ext: "extends V ?ops ?s t" by auto
    have "sh_retained_bytes h + bytes_retained ?ops \<le> MAX_RETAINED_HOST_BYTES \<and>
        sh_operation_count h + length ?ops \<le> MAX_RETAINED_OPERATIONS"
      using inv(6) history_growth_batch_ops [OF valid, of ?v] v by auto
    moreover have "sizes_consistent ?s"
      using inv(2,3,4) by (simp add: sizes_consistent_def)
    ultimately have "state_inv t"
      using extends_inv [OF ext] inv(1) eff by simp
    with that [of ?s] False comp ext valid e apply_instructions_echo [OF run, of e] show ?thesis by simp
  qed
qed

lemma state_apply_inv: "state_inv s \<Longrightarrow> state_inv (snd (state_apply V batch s))"
proof (cases "state_apply V batch s")
  case (Pair r t)
  assume inv: "state_inv s"
  show ?thesis
  proof (cases r)
    case (Inl e)
    with Pair inv state_apply_rollback [of V batch s] show ?thesis by simp
  next
    case (Inr u)
    with Pair inv state_apply_cases [OF inv, of V batch u t] show ?thesis by auto
  qed
qed

lemma check_markers_mono: "check_markers e is = Inr e' \<Longrightarrow> e \<le> e'"
proof (induction "is" arbitrary: e)
  case (Cons i "is")
  show ?case
  proof (cases "in_marker i")
    case None
    with Cons show ?thesis by simp
  next
    case (Some m)
    with Cons.prems have "e \<le> Some (mk_value m)" and "check_markers (Some (mk_value m)) is = Inr e'"
      by (auto split: option.splits if_splits)
    with Cons.IH show ?thesis by (blast intro: order_trans)
  qed
qed simp

lemma state_apply_echo_mono: "state_inv s \<Longrightarrow> rs_echo_ack s \<le> rs_echo_ack (snd (state_apply V batch s))"
proof (cases "state_apply V batch s")
  case (Pair r t)
  assume inv: "state_inv s"
  show ?thesis
  proof (cases r)
    case (Inl e)
    with Pair inv state_apply_rollback [of V batch s] show ?thesis by simp
  next
    case (Inr u)
    with Pair have "state_apply V batch s = (Inr u, t)" by simp
    from state_apply_cases [OF inv this] have "rs_echo_ack s \<le> rs_echo_ack t"
      by (auto intro: check_markers_mono)
    with Pair show ?thesis by simp
  qed
qed

interpretation terminal: monotone_machine
  "\<lambda>s batch. snd (state_apply V batch s)" state_inv rs_echo_ack for V
  by unfold_locales (simp_all add: state_apply_inv state_apply_echo_mono)

lemma state_new_inv: "state_new V c r = Inr s \<Longrightarrow> state_inv s"
  by (auto simp: state_new_def state_inv_def history_consistent_def history_bounded_def
      history_default_def sizes_consistent_def operations_def runs_nonempty_def validate_viewport_ok)

lemma state_clone_ok:
  "state_inv s \<Longrightarrow> state_clone V s =
     Some (s\<lparr>rs_parser := replay V (operations (rs_history s)) (vt_new V (rs_initial_rows s) (rs_initial_columns s))\<rparr>)"
proof -
  assume "state_inv s"
  then have "nonzero_size (rs_initial_columns s) (rs_initial_rows s)"
    by (simp add: state_inv_def sizes_consistent_def Let_def)
  then have "validate_viewport (ucast (rs_initial_columns s)) (ucast (rs_initial_rows s)) = Inr ()"
    by (auto simp: validate_viewport_ok)
  then show ?thesis by (simp add: state_clone_def state_new_def)
qed

text \<open>
  Property C7: whatever sequence of batches a terminal is given, accepted or rejected, its retained
  history stays within 16 MiB and 65,536 operations, the two counters equal what the history
  really holds, the current viewport is the last one recorded, and its echo acknowledgement never
  goes back. In particular cloning never reaches the panic of its \<open>expect\<close>.
\<close>

theorem terminal_history_bounded:
  assumes "state_new V columns rows = Inr s0"
    and "s = foldl (\<lambda>s batch. snd (state_apply V batch s)) s0 batches"
    and "s' = foldl (\<lambda>s batch. snd (state_apply V batch s)) s later"
  shows "bytes_retained (operations (rs_history s)) = sh_retained_bytes (rs_history s) \<and>
    length (operations (rs_history s)) = sh_operation_count (rs_history s) \<and>
    sh_retained_bytes (rs_history s) \<le> MAX_RETAINED_HOST_BYTES \<and>
    sh_operation_count (rs_history s) \<le> MAX_RETAINED_OPERATIONS \<and>
    size_of_viewport (rs_viewport s) = size_after (initial_size s) (atoms (operations (rs_history s))) \<and>
    rs_echo_ack s \<le> rs_echo_ack s' \<and>
    state_clone V s \<noteq> None"
proof -
  have inv: "state_inv s"
    unfolding assms(2) by (rule terminal.run_inv [OF state_new_inv [OF assms(1)]])
  have "size_of_viewport (rs_viewport s) = size_after (initial_size s) (atoms (operations (rs_history s)))"
    using inv by (auto simp: state_inv_def sizes_consistent_def Let_def split: prod.splits)
  moreover have "rs_echo_ack s \<le> rs_echo_ack s'"
    unfolding assms(3) by (rule terminal.run_mono [OF inv])
  ultimately show ?thesis
    using inv state_clone_ok [OF inv, of V]
    by (simp add: state_inv_def history_consistent_def history_bounded_def operations_def)
qed

text \<open>A concrete terminal library for examples: a terminal remembers its size and its input.\<close>

definition recording_terminal :: "(u16 \<times> u16 \<times> bytes, unit) terminal_lib" where
  "recording_terminal =
     \<lparr>vt_new = (\<lambda>rows columns. (rows, columns, [])),
      vt_process = (\<lambda>bs (rows, columns, input). (rows, columns, input @ bs)),
      vt_set_size = (\<lambda>rows columns (_, _, input). (rows, columns, input)),
      vt_state_diff = (\<lambda>(_, _, input) _. input),
      vt_state_formatted = (\<lambda>(_, _, input). input),
      vte_new = (), vte_advance = (\<lambda>bs q. (map (\<lambda>b. VPrint (unat b)) bs, q))\<rparr>"

theorem terminal_history_bounded_witness:
  "let V = recording_terminal;
       step = (\<lambda>s batch. snd (state_apply V batch s));
       s0 = (case state_new V 80 24 of Inr s \<Rightarrow> s | Inl _ \<Rightarrow> undefined);
       s = foldl step s0 [sample_batch];
       s' = foldl step s [sample_batch]
   in sh_operation_count (rs_history s) = 1 \<and> rs_echo_ack s \<le> rs_echo_ack s' \<and>
      bytes_retained (operations (rs_history s)) = sh_retained_bytes (rs_history s)"
proof -
  let ?V = recording_terminal
  let ?step = "\<lambda>s batch. snd (state_apply ?V batch s)"
  let ?s0 = "case state_new ?V 80 24 of Inr s \<Rightarrow> s | Inl _ \<Rightarrow> undefined"
  have new: "state_new ?V 80 24 = Inr ?s0"
    by (simp add: state_new_def validate_viewport_def u16_of_u64_def u16_try_from_def)
  have "sh_operation_count (rs_history (foldl ?step ?s0 [sample_batch])) = 1"
    by (simp add: sample_batch_def state_new_def state_apply_def validate_viewport_def u16_of_u64_def
        u16_try_from_def validate_viewports.simps validate_history_growth_def history_growth_def
        validate_history_size_def usize_max_def history_default_def MAX_RETAINED_HOST_BYTES_def
        MAX_RETAINED_OPERATIONS_def viewport_of_def apply_host_bytes_def apply_viewport_def
        apply_resize_def history_push_def)
  with terminal_history_bounded [OF new refl refl, of "[sample_batch]" "[sample_batch]"]
  show ?thesis by (simp only: Let_def)
qed

section \<open>Clones and compaction\<close>

text \<open>
  What the terminal library documents, up to an equivalence \<open>same\<close> of terminals that processing
  and resizing respect: input can be fed in pieces, and the formatted state of a terminal whose
  parser is at rest, fed to a fresh terminal of the same size, rebuilds it.
\<close>

definition terminal_laws :: "('p, 'q) terminal_lib \<Rightarrow> ('p \<Rightarrow> 'p \<Rightarrow> bool) \<Rightarrow> bool" where
  "terminal_laws V same \<longleftrightarrow>
     equivp same \<and> process_nothing V \<and>
     (\<forall>p a b. vt_process V (a @ b) p = vt_process V b (vt_process V a p)) \<and>
     (\<forall>p q bs. same p q \<longrightarrow> same (vt_process V bs p) (vt_process V bs q)) \<and>
     (\<forall>p q c r. same p q \<longrightarrow> same (vt_set_size V r c p) (vt_set_size V r c q)) \<and>
     (\<forall>p q. same p q \<longrightarrow> vt_state_formatted V p = vt_state_formatted V q) \<and>
     (\<forall>c r ops. history_ends_at_ground V ops \<longrightarrow>
        (let p = replay V ops (vt_new V r c); v = size_after (c, r) (atoms ops)
         in same (vt_process V (vt_state_formatted V p) (vt_new V (snd v) (fst v))) p))"

definition parser_tracks :: "('p, 'q) terminal_lib \<Rightarrow> ('p \<Rightarrow> 'p \<Rightarrow> bool) \<Rightarrow> 'p remote_state \<Rightarrow> bool" where
  "parser_tracks V same s \<longleftrightarrow>
     same (rs_parser s)
       (replay V (operations (rs_history s)) (vt_new V (rs_initial_rows s) (rs_initial_columns s)))"

lemma replay_canonical_loop:
  assumes "terminal_laws V same"
  shows "replay V (canonical_loop acc ops) p = replay V (rev acc @ ops) p"
proof (induction acc ops rule: canonical_loop.induct)
  case (2 previous canonical bs rest)
  then show ?case using assms by (simp add: replay_append terminal_laws_def)
qed simp_all

lemma replay_same:
  assumes "terminal_laws V same" "same p q"
  shows "same (replay V ops p) (replay V ops q)"
  using assms(2)
proof (induction ops arbitrary: p q rule: atoms.induct)
  case (2 bs ops)
  have "same (vt_process V bs p) (vt_process V bs q)"
    using assms(1) "2.prems" by (simp add: terminal_laws_def)
  with "2.IH" show ?case by simp
next
  case (3 c r ops)
  have "same (vt_set_size V r c p) (vt_set_size V r c q)"
    using assms(1) "3.prems" by (simp add: terminal_laws_def)
  with "3.IH" show ?case by simp
qed simp_all

lemma extends_tracks:
  assumes "terminal_laws V same" "extends V ops s t" "parser_tracks V same s"
  shows "parser_tracks V same t"
proof -
  have "process_nothing V" using assms(1) by (simp add: terminal_laws_def)
  then show ?thesis
    using assms(2) replay_same [OF assms(1) assms(3) [unfolded parser_tracks_def], of ops]
    by (auto simp: parser_tracks_def extends_def replay_append)
qed

lemma compaction_tracks:
  assumes laws: "terminal_laws V same" and "state_inv s" "parser_tracks V same s"
    and "compacted_history V batch s = Inr (h, c, r)"
  shows "parser_tracks V same (s\<lparr>rs_history := h, rs_initial_columns := c, rs_initial_rows := r\<rparr>)"
proof -
  note inv = compacted_inv [OF assms(2,4)]
  let ?ops = "operations (rs_history s)"
  let ?p = "replay V ?ops (vt_new V (rs_initial_rows s) (rs_initial_columns s))"
  have same: "same (rs_parser s) ?p" using assms(3) by (simp add: parser_tracks_def)
  then have fmt: "vt_state_formatted V (rs_parser s) = vt_state_formatted V ?p"
    using laws by (simp add: terminal_laws_def)
  have "size_after (initial_size s) (atoms ?ops) = (c, r)"
    using assms(2) inv(2) by (auto simp: state_inv_def sizes_consistent_def Let_def split: prod.splits)
  moreover have "replay V (canonical_operations (rs_history s)) q = replay V ?ops q" for q
    using replay_canonical_loop [OF laws, of "[]"] by (simp add: canonical_operations_def)
  moreover have "\<forall>c r ops. history_ends_at_ground V ops \<longrightarrow>
        (let p = replay V ops (vt_new V r c); v = size_after (c, r) (atoms ops)
         in same (vt_process V (vt_state_formatted V p) (vt_new V (snd v) (fst v))) p)"
    using laws unfolding terminal_laws_def by blast
  ultimately have "same (vt_process V (vt_state_formatted V ?p) (vt_new V r c)) ?p"
    using inv(5) by (metis canonical_operations_atoms fst_conv snd_conv)
  then have "same (rs_parser s) (vt_process V (vt_state_formatted V ?p) (vt_new V r c))"
    using same laws unfolding terminal_laws_def by (meson equivp_symp equivp_transp)
  moreover have "replay V (operations h) q = vt_process V (vt_state_formatted V ?p) q" for q
    using laws by (simp add: inv(4) fmt terminal_laws_def process_nothing_def)
  ultimately show ?thesis by (simp add: parser_tracks_def)
qed

lemma state_apply_tracks:
  assumes "terminal_laws V same" "state_inv s" "parser_tracks V same s"
  shows "parser_tracks V same (snd (state_apply V batch s))"
proof (cases "state_apply V batch s")
  case (Pair r t)
  show ?thesis
  proof (cases r)
    case (Inl e)
    with Pair assms(3) state_apply_rollback [of V batch s] show ?thesis by simp
  next
    case (Inr u)
    with Pair have "state_apply V batch s = (Inr u, t)" by simp
    from state_apply_cases [OF assms(2) this] have "parser_tracks V same t"
      using assms by (metis compaction_tracks extends_tracks)
    with Pair show ?thesis by simp
  qed
qed

text \<open>
  A clone is faithful. Given the documented behaviour of the terminal library, after
  any sequence of batches, including those that replaced the history by a snapshot, cloning
  succeeds and rebuilds from the retained history alone a terminal equivalent to the one that
  processed every batch, with the same history, viewport and echo acknowledgement.
\<close>

theorem clone_reproduces:
  assumes "terminal_laws V same" "state_new V columns rows = Inr s0"
    and "s = foldl (\<lambda>s batch. snd (state_apply V batch s)) s0 batches"
  shows "\<exists>s'. state_clone V s = Some s' \<and> same (rs_parser s) (rs_parser s') \<and>
    rs_history s' = rs_history s \<and> rs_viewport s' = rs_viewport s \<and> rs_echo_ack s' = rs_echo_ack s"
proof -
  have "state_inv s0 \<and> parser_tracks V same s0"
    using assms(1) state_new_inv [OF assms(2)] assms(2)
    by (auto simp: parser_tracks_def state_new_def history_default_def operations_def
        terminal_laws_def intro: equivp_reflp)
  then have "state_inv s \<and> parser_tracks V same s"
    unfolding assms(3)
  proof (induction batches arbitrary: s0)
    case (Cons b bs)
    then have "state_inv (snd (state_apply V b s0)) \<and> parser_tracks V same (snd (state_apply V b s0))"
      using state_apply_inv state_apply_tracks [OF assms(1)] by blast
    from Cons.IH [OF this] show ?case by simp
  qed simp
  then show ?thesis by (auto simp: state_clone_ok parser_tracks_def)
qed

lemma recording_replay:
  "replay recording_terminal ops (rows, columns, input) =
     (let v = size_after (columns, rows) (atoms ops) in (snd v, fst v, snd (snd (replay recording_terminal ops (rows, columns, input)))))"
proof (induction ops arbitrary: rows columns input rule: atoms.induct)
  case (2 bs ops)
  have step: "replay recording_terminal (HostBytes bs # ops) (rows, columns, input) =
      replay recording_terminal ops (rows, columns, input @ bs)"
    by (simp add: recording_terminal_def)
  show ?case unfolding step using "2.IH" by simp
next
  case (3 c r ops)
  have step: "replay recording_terminal (Resize c r # ops) (rows, columns, input) =
      replay recording_terminal ops (r, c, input)"
    by (simp add: recording_terminal_def)
  show ?case unfolding step using "3.IH" by simp
qed simp_all

lemma recording_terminal_laws: "terminal_laws recording_terminal (=)"
proof -
  have "let p = replay recording_terminal ops (vt_new recording_terminal r c);
            v = size_after (c, r) (atoms ops)
        in vt_process recording_terminal (vt_state_formatted recording_terminal p)
             (vt_new recording_terminal (snd v) (fst v)) = p" for c r ops
  proof -
    obtain input where "replay recording_terminal ops (r, c, []) =
        (snd (size_after (c, r) (atoms ops)), fst (size_after (c, r) (atoms ops)), input)"
      using recording_replay [of ops r c "[]"] by (metis (no_types))
    then show ?thesis by (simp add: recording_terminal_def Let_def)
  qed
  then show ?thesis
    by (auto simp: terminal_laws_def process_nothing_def recording_terminal_def identity_equivp)
qed

theorem clone_reproduces_witness:
  "\<exists>s s'. s = foldl (\<lambda>s batch. snd (state_apply recording_terminal batch s))
       \<lparr>rs_initial_columns = 80, rs_initial_rows = 24, rs_parser = (24, 80, []),
        rs_history = history_default, rs_viewport = viewport_of 80 24, rs_echo_ack = None\<rparr>
       [sample_batch] \<and>
     state_clone recording_terminal s = Some s' \<and> rs_parser s = rs_parser s'"
proof -
  have "state_new recording_terminal 80 24 =
      Inr \<lparr>rs_initial_columns = 80, rs_initial_rows = 24, rs_parser = (24, 80, []),
        rs_history = history_default, rs_viewport = viewport_of 80 24, rs_echo_ack = None\<rparr>"
    by (simp add: state_new_def validate_viewport_def u16_of_u64_def u16_try_from_def
        recording_terminal_def)
  from clone_reproduces [OF recording_terminal_laws this refl, of "[sample_batch]"]
  show ?thesis by blast
qed

section \<open>Differences between states\<close>

lemma state_apply_grows:
  assumes "state_inv s" "is_ok (validate_history_growth batch s)"
    and "validate_viewports (batch_instructions batch) = Inr ()"
    and "check_markers (rs_echo_ack s) (batch_instructions batch) = Inr e"
  shows "\<exists>t. state_apply V batch s = (Inr (), t) \<and> rs_echo_ack t = e \<and>
    extends V (batch_ops (size_of_viewport (rs_viewport s)) (batch_instructions batch)) s t"
proof -
  let ?v = "size_of_viewport (rs_viewport s)"
  have "rs_viewport s = viewport_of (fst ?v) (snd ?v)"
    using assms(1) by (auto simp: state_inv_def sizes_consistent_def Let_def split: prod.splits)
  from apply_instructions_extends [OF assms(3) this, of V] obtain t where
    t: "apply_instructions V (batch_instructions batch) s = (Inr (), t)"
      "extends V (batch_ops ?v (batch_instructions batch)) s t" by blast
  moreover from apply_instructions_echo [OF t(1) assms(4)] have "rs_echo_ack t = e" .
  ultimately show ?thesis using assms by (simp add: state_apply_def)
qed

text \<open>Instructions whose viewports fit and which all take effect append their atoms.\<close>

definition viewports_fit :: "instruction list \<Rightarrow> bool" where
  "viewports_fit is \<longleftrightarrow> (\<forall>i\<in>set is. \<forall>p. in_viewport i = Some p \<longrightarrow> (\<exists>c r. p = viewport_of c r))"

lemma effective_instructions:
  "viewports_fit is \<Longrightarrow> resizes_effective v (instruction_atoms is) \<Longrightarrow>
   validate_viewports is = Inr () \<and> atoms (batch_ops v is) = instruction_atoms is"
proof (induction "is" arbitrary: v)
  case (Cons i "is")
  let ?w = "case in_viewport i of None \<Rightarrow> v | Some p \<Rightarrow> size_of_viewport p"
  have "resizes_effective ?w (instruction_atoms is)"
    using Cons.prems(2) by (auto simp: size_of_viewport_def split: option.splits)
  moreover have "viewports_fit is" using Cons.prems(1) by (simp add: viewports_fit_def)
  ultimately have IH: "validate_viewports is = Inr ()" "atoms (batch_ops ?w is) = instruction_atoms is"
    using Cons.IH by blast+
  have v: "\<exists>c r. nonzero_size c r \<and> p = viewport_of c r \<and> size_of_viewport p \<noteq> v"
    if "in_viewport i = Some p" for p
    using that Cons.prems
    by (auto simp: viewports_fit_def viewport_of_def size_of_viewport_def split: option.splits)
  then have "validate_viewports (i # is) = Inr ()"
    using IH(1) by (fastforce simp: validate_viewports_Cons)
  moreover have "atoms (batch_ops v (i # is)) = instruction_atoms (i # is)"
    using IH(2) v by (auto simp: size_of_viewport_def split: option.splits)
  ultimately show ?case ..
qed simp

lemma viewports_fit_append [simp]: "viewports_fit (xs @ ys) \<longleftrightarrow> viewports_fit xs \<and> viewports_fit ys"
  by (auto simp: viewports_fit_def)

lemma viewports_fit_suffix: "viewports_fit (suffix_instructions k ops)"
  by (induction k ops rule: suffix_instructions.induct)
     (auto simp: viewports_fit_def host_bytes_instruction_def viewport_instruction_def
        session_control_instruction_def Let_def split: if_splits)

lemma suffix_no_markers: "check_markers e (suffix_instructions k ops) = Inr e"
proof -
  have "check_markers e (xs @ ys) = check_markers e ys" if "\<forall>i\<in>set xs. in_marker i = None" for xs ys
    using that by (induction xs) auto
  then show ?thesis
    by (induction k ops rule: suffix_instructions.induct)
       (auto simp: host_bytes_instruction_def viewport_instruction_def session_control_instruction_def Let_def)
qed

lemma diff_from_prefix:
  assumes "runs_nonempty (operations (rs_history target))" "runs_nonempty (operations (rs_history delivered))"
    and "prefix (atoms (operations (rs_history delivered))) (atoms (operations (rs_history target)))"
  obtains k ops where "diff_from V target delivered = Inr \<lparr>batch_instructions =
      (if rs_echo_ack target \<noteq> rs_echo_ack delivered
       then (case rs_echo_ack target of None \<Rightarrow> suffix_instructions k ops
             | Some v \<Rightarrow> marker_instruction v # suffix_instructions k ops)
       else suffix_instructions k ops)\<rparr>"
    and "atoms (operations (rs_history target)) =
      atoms (operations (rs_history delivered)) @ instruction_atoms (suffix_instructions k ops)"
proof -
  let ?T = "canonical_operations (rs_history target)"
  let ?D = "canonical_operations (rs_history delivered)"
  have "suffix_rel ?T ?D \<noteq> None"
    using suffix_rel_spec [OF canonical_operations_form canonical_operations_form, OF assms(1,2)]
      assms(3) by (auto split: option.splits)
  then obtain i k where r: "suffix_rel ?T ?D = Some (i, k)" by auto
  then have "diff_from V target delivered = Inr \<lparr>batch_instructions =
      (if rs_echo_ack target \<noteq> rs_echo_ack delivered
       then (case rs_echo_ack target of None \<Rightarrow> suffix_instructions k (drop i ?T)
             | Some v \<Rightarrow> marker_instruction v # suffix_instructions k (drop i ?T))
       else suffix_instructions k (drop i ?T))\<rparr>"
    by (simp add: diff_from_def history_suffix_start_rel Let_def)
  moreover have "atoms (operations (rs_history target)) =
      atoms (operations (rs_history delivered)) @ instruction_atoms (suffix_instructions k (drop i ?T))"
    using suffix_rel_spec [OF canonical_operations_form canonical_operations_form, OF assms(1,2)] r
    by simp
  ultimately show ?thesis by (rule that)
qed

lemma state_inv_size:
  "state_inv s \<Longrightarrow> size_of_viewport (rs_viewport s) = size_after (initial_size s) (atoms (operations (rs_history s)))"
  "state_inv s \<Longrightarrow> rs_viewport s = viewport_of (fst (size_of_viewport (rs_viewport s))) (snd (size_of_viewport (rs_viewport s)))"
  by (auto simp: state_inv_def sizes_consistent_def Let_def split: prod.splits)

lemma diff_applies:
  assumes "state_inv delivered" "viewports_fit is" "marked \<in> {is, marker_instruction v # is}"
    and "resizes_effective (size_of_viewport (rs_viewport delivered)) (instruction_atoms is)"
    and "check_markers (rs_echo_ack delivered) marked = Inr e"
    and "is_ok (validate_history_growth \<lparr>batch_instructions = marked\<rparr> delivered)"
  shows "\<exists>t. state_apply V \<lparr>batch_instructions = marked\<rparr> delivered = (Inr (), t) \<and> rs_echo_ack t = e \<and>
    atoms (operations (rs_history t)) = atoms (operations (rs_history delivered)) @ instruction_atoms is \<and>
    size_of_viewport (rs_viewport t) =
      size_after (size_of_viewport (rs_viewport delivered)) (instruction_atoms is)"
proof -
  let ?v = "size_of_viewport (rs_viewport delivered)"
  have atoms: "instruction_atoms marked = instruction_atoms is" and fit: "viewports_fit marked"
    using assms(2,3) by (auto simp: marker_instruction_def viewports_fit_def)
  from effective_instructions [OF fit, of ?v] assms(4) atoms
  have "validate_viewports marked = Inr ()" and ops: "atoms (batch_ops ?v marked) = instruction_atoms is"
    by simp_all
  with state_apply_grows [OF assms(1), of "\<lparr>batch_instructions = marked\<rparr>" e V] assms(5,6)
  obtain t where "state_apply V \<lparr>batch_instructions = marked\<rparr> delivered = (Inr (), t)" "rs_echo_ack t = e"
    and ext: "extends V (batch_ops ?v marked) delivered t"
    by auto
  moreover have "atoms (operations (rs_history t)) = atoms (operations (rs_history delivered)) @ instruction_atoms is"
    using ext ops by (simp add: extends_def)
  moreover have "rs_viewport t = viewport_of (fst (size_after ?v (instruction_atoms is)))
      (snd (size_after ?v (instruction_atoms is)))"
    using ext ops state_inv_size(2) [OF assms(1)] unfolding extends_def by metis
  ultimately show ?thesis by simp
qed

text \<open>
  Property C5: the difference brings a delivered state up to date. When the target's stream extends
  the delivered one (even if the two histories group the bytes differently) and its echo
  acknowledgement is not older, a difference exists, and applying it to the delivered state
  (when that state's history has room for it) succeeds and gives exactly the target's stream,
  viewport and echo acknowledgement.
\<close>

theorem diff_catches_up:
  assumes "state_inv target" "state_inv delivered" "initial_size target = initial_size delivered"
    and "prefix (atoms (operations (rs_history delivered))) (atoms (operations (rs_history target)))"
    and "rs_echo_ack delivered \<le> rs_echo_ack target"
    and "\<And>b. diff_from V target delivered = Inr b \<Longrightarrow> is_ok (validate_history_growth b delivered)"
  shows "\<exists>b t. diff_from V target delivered = Inr b \<and> state_apply V b delivered = (Inr (), t) \<and>
    atoms (operations (rs_history t)) = atoms (operations (rs_history target)) \<and>
    rs_viewport t = rs_viewport target \<and> rs_echo_ack t = rs_echo_ack target"
proof -
  let ?v = "size_of_viewport (rs_viewport delivered)"
  have ne: "runs_nonempty (operations (rs_history target))" "runs_nonempty (operations (rs_history delivered))"
    using assms(1,2) by (simp_all add: state_inv_def history_consistent_def)
  obtain k ops where diff: "diff_from V target delivered = Inr \<lparr>batch_instructions =
      (if rs_echo_ack target \<noteq> rs_echo_ack delivered
       then (case rs_echo_ack target of None \<Rightarrow> suffix_instructions k ops
             | Some v \<Rightarrow> marker_instruction v # suffix_instructions k ops)
       else suffix_instructions k ops)\<rparr>"
    and stream: "atoms (operations (rs_history target)) =
      atoms (operations (rs_history delivered)) @ instruction_atoms (suffix_instructions k ops)"
    by (rule diff_from_prefix [OF ne assms(4)])
  let ?is = "suffix_instructions k ops"
  let ?marked = "if rs_echo_ack target \<noteq> rs_echo_ack delivered
       then (case rs_echo_ack target of None \<Rightarrow> ?is | Some v \<Rightarrow> marker_instruction v # ?is) else ?is"
  have eff: "resizes_effective ?v (instruction_atoms ?is)"
    using assms(1,3) stream state_inv_size(1) [OF assms(2)]
    by (simp add: state_inv_def sizes_consistent_def Let_def)
  have size: "size_of_viewport (rs_viewport target) = size_after ?v (instruction_atoms ?is)"
    using state_inv_size(1) [OF assms(1)] state_inv_size(1) [OF assms(2)] stream assms(3) by simp
  have echo: "check_markers (rs_echo_ack delivered) ?marked = Inr (rs_echo_ack target)"
    using assms(5)
    by (cases "rs_echo_ack delivered"; cases "rs_echo_ack target")
       (auto simp: marker_instruction_def suffix_no_markers split: option.splits)
  have "?marked \<in> {?is, marker_instruction (the (rs_echo_ack target)) # ?is}"
    by (auto split: option.split)
  from diff_applies [OF assms(2) viewports_fit_suffix this eff echo, of V] assms(6) [OF diff]
  obtain t where t: "state_apply V \<lparr>batch_instructions = ?marked\<rparr> delivered = (Inr (), t)"
    "rs_echo_ack t = rs_echo_ack target"
    "atoms (operations (rs_history t)) = atoms (operations (rs_history delivered)) @ instruction_atoms ?is"
    "size_of_viewport (rs_viewport t) = size_after ?v (instruction_atoms ?is)"
    by blast
  have "state_inv t" using state_apply_inv [OF assms(2), of V "\<lparr>batch_instructions = ?marked\<rparr>"] t(1) by simp
  then have "rs_viewport t = rs_viewport target"
    using state_inv_size(2) [of t] state_inv_size(2) [OF assms(1)] size t(4) by simp
  with diff t stream show ?thesis by metis
qed

definition sample_state :: "bytes list \<Rightarrow> u64 option \<Rightarrow> (u16 \<times> u16 \<times> bytes) remote_state" where
  "sample_state runs echo =
     \<lparr>rs_initial_columns = 80, rs_initial_rows = 24, rs_parser = (24, 80, concat runs),
      rs_history = \<lparr>sh_tail = rev (map HostBytes runs), sh_operation_count = length runs,
        sh_retained_bytes = length (concat runs)\<rparr>,
      rs_viewport = viewport_of 80 24, rs_echo_ack = echo\<rparr>"

theorem diff_catches_up_witness:
  "\<exists>b t. diff_from recording_terminal (sample_state [[65], [66, 67]] (Some 5)) (sample_state [[65, 66]] None) = Inr b \<and>
     state_apply recording_terminal b (sample_state [[65, 66]] None) = (Inr (), t) \<and>
     atoms (operations (rs_history t)) = [AByte 65, AByte 66, AByte 67] \<and> rs_echo_ack t = Some 5"
proof -
  let ?T = "sample_state [[65], [66, 67]] (Some 5)"
  let ?D = "sample_state [[65, 66]] None"
  have "state_inv ?T" "state_inv ?D"
    by (simp_all add: sample_state_def state_inv_def history_consistent_def history_bounded_def
        sizes_consistent_def operations_def runs_nonempty_def nonzero_size_def
        MAX_RETAINED_HOST_BYTES_def MAX_RETAINED_OPERATIONS_def)
  moreover have "prefix (atoms (operations (rs_history ?D))) (atoms (operations (rs_history ?T)))"
    by (simp add: sample_state_def operations_def)
  moreover have "diff_from recording_terminal ?T ?D =
      Inr \<lparr>batch_instructions = [marker_instruction 5, host_bytes_instruction [67]]\<rparr>"
    by (simp add: diff_from_def sample_state_def canonical_operations_def operations_def
        history_suffix_start_def)
  moreover have "is_ok (validate_history_growth
      \<lparr>batch_instructions = [marker_instruction 5, host_bytes_instruction [67]]\<rparr> ?D)"
    by (simp add: validate_history_growth_def history_growth_def marker_instruction_def
        host_bytes_instruction_def validate_history_size_def sample_state_def
        MAX_RETAINED_HOST_BYTES_def MAX_RETAINED_OPERATIONS_def usize_max_def)
  ultimately show ?thesis
    using diff_catches_up [of ?T ?D recording_terminal]
    by (auto simp: sample_state_def operations_def)
qed

section \<open>What the audit decides\<close>

text \<open>While probing, the audit's flags for the tail play no part.\<close>

lemma probing_step:
  "au_probing a \<Longrightarrow>
     au_probing (audit_action a x) \<and>
     au_probe_prints (audit_action a x) =
       au_probe_prints a + (if x = VPrint 0x7E then 1 else 0) \<and>
     au_probe_other_actions (audit_action a x) =
       au_probe_other_actions a + (if x = VPrint 0x7E then 0 else 1)"
  by (cases x) (simp_all add: record_other_action_def)

lemma probing_actions:
  "au_probing a \<Longrightarrow> au_probing b \<Longrightarrow> au_probe_prints a = au_probe_prints b \<Longrightarrow>
   au_probe_other_actions a = au_probe_other_actions b \<Longrightarrow>
   probe_is_ground (foldl audit_action a acts) = probe_is_ground (foldl audit_action b acts)"
proof (induction acts arbitrary: a b)
  case Nil
  then show ?case by (simp add: probe_is_ground_def)
next
  case (Cons x acts)
  show ?case
    unfolding foldl.simps
    by (rule Cons.IH) (simp_all add: probing_step Cons.prems)
qed

lemma ground_probe_parser: "ground_probe V (q, a) = ground_probe V (q, b)"
proof (cases "vte_advance V [0x7E] q")
  case (Pair acts q')
  then show ?thesis
    using probing_actions [of "begin_boundary_probe a" "begin_boundary_probe b" acts]
    by (simp add: ground_probe_def audit_advance_def begin_boundary_probe_def)
qed

lemma advance_operations_append:
  "advance_operations V (xs @ ys) p = advance_operations V ys (advance_operations V xs p)"
  by (induction V xs p rule: advance_operations.induct) auto

lemma advance_operations_parser:
  "fst (advance_operations V ops (q, a)) = fst (advance_operations V ops (q, b))"
proof (induction ops arbitrary: q a b rule: atoms.induct)
  case (2 bs ops)
  have "fst (audit_advance V bs (q, a)) = fst (audit_advance V bs (q, b))"
    by (simp add: audit_advance_def split: prod.split)
  with "2.IH" show ?case by (metis advance_operations.simps(2) prod.collapse)
qed simp_all

lemma advance_tail_operations:
  "advance_tail V ops p =
     (if \<exists>c r. Resize c r \<in> set ops then None else Some (advance_operations V ops p))"
  by (induction V ops p rule: advance_tail.induct) auto

text \<open>
  What the audit of a diverged history decides. A tail is accepted exactly when it
  holds no resize and the parser is at rest after the common part and the tail: the callbacks the
  tail makes (escape sequences, control characters, operating-system commands) have no influence,
  because the flag they clear is never consulted.
\<close>

theorem tail_audit_is_ground_probe:
  "history_tail_is_screen_diff_safe V common tail =
     (list_all (\<lambda>x. case x of Resize _ _ \<Rightarrow> False | _ \<Rightarrow> True) tail \<and>
      history_ends_at_ground V (common @ tail))"
proof -
  obtain q a where qa: "advance_operations V common (vte_new V, audit_default) = (q, a)"
    by fastforce
  have resize: "list_all (\<lambda>x. case x of Resize _ _ \<Rightarrow> False | _ \<Rightarrow> True) tail \<longleftrightarrow>
      \<not> (\<exists>c r. Resize c r \<in> set tail)"
    by (auto simp: list_all_iff split: state_operation.splits)
  have "ground_probe V (advance_operations V tail (q, begin_tail_audit a)) =
      ground_probe V (advance_operations V tail (q, a))"
    by (metis advance_operations_parser ground_probe_parser prod.collapse)
  then show ?thesis
    unfolding resize
    by (simp add: history_tail_is_screen_diff_safe_def history_ends_at_ground_def qa
        advance_tail_operations advance_operations_append)
qed

section \<open>The common part of two histories\<close>

lemma common_prefix_length_take:
  "take (common_prefix_length xs ys) xs = take (common_prefix_length xs ys) ys"
  by (induction xs ys rule: common_prefix_length.induct) auto

lemma common_prefix_length_longest:
  "take (common_prefix_length xs ys) xs = longest_common_prefix xs ys"
  by (induction xs ys rule: common_prefix_length.induct) auto

lemma common_prefix_length_le:
  "common_prefix_length xs ys \<le> length xs" "common_prefix_length xs ys \<le> length ys"
  by (induction xs ys rule: common_prefix_length.induct) auto

lemma atoms_rest_of_bytes: "n \<le> length bs \<Longrightarrow> atoms (rest_of_bytes n bs) = map AByte (drop n bs)"
  by (simp add: rest_of_bytes_def)

lemma lcp_append: "longest_common_prefix (xs @ ys) (xs @ zs) = xs @ longest_common_prefix ys zs"
  by (induction xs) auto

lemma lcp_map_inj: "inj f \<Longrightarrow> longest_common_prefix (map f xs) (map f ys) = map f (longest_common_prefix xs ys)"
  by (induction xs ys rule: longest_common_prefix.induct) (auto simp: inj_eq)

lemma lcp_byte_runs:
  "no_byte_head xs \<Longrightarrow> no_byte_head ys \<Longrightarrow> tb \<noteq> db \<Longrightarrow>
   longest_common_prefix (map AByte tb @ xs) (map AByte db @ ys) =
     map AByte (longest_common_prefix tb db)"
proof (induction tb arbitrary: db)
  case Nil
  then show ?case
    by (cases db; cases xs) (auto simp: no_byte_head_def split: state_atom.splits)
next
  case (Cons b tb)
  then show ?case
    by (cases db; cases ys) (auto simp: no_byte_head_def split: state_atom.splits)
qed

lemma split_loop_exact:
  "canonical_form ts \<Longrightarrow> canonical_form ds \<Longrightarrow> split_loop common ts ds = (c, tt, dt) \<Longrightarrow>
   atoms c = atoms (rev common) @ longest_common_prefix (atoms ts) (atoms ds) \<and>
   atoms c @ atoms tt = atoms (rev common) @ atoms ts \<and> atoms c @ atoms dt = atoms (rev common) @ atoms ds"
proof (induction common ts ds rule: split_loop.induct)
  case (1 common t ts d ds)
  have tails: "canonical_form ts" "canonical_form ds"
    using "1.prems"(1,2) canonical_form_tail by blast+
  show ?case
  proof (cases "t = d")
    case True
    then have "split_loop (t # common) ts ds = (c, tt, dt)" using "1.prems"(3) by simp
    note IH = "1.IH" [OF True tails this]
    have
      "atoms c = atoms (rev common) @ atoms [d] @ longest_common_prefix (atoms ts) (atoms ds)"
      "atoms c @ atoms tt = atoms (rev common) @ atoms [d] @ atoms ts"
      "atoms c @ atoms dt = atoms (rev common) @ atoms [d] @ atoms ds"
      using IH [THEN conjunct1] IH [THEN conjunct2, THEN conjunct1]
        IH [THEN conjunct2, THEN conjunct2] True by simp_all
    then show ?thesis
      using True by (simp only: atoms_Cons [of d ts] atoms_Cons [of d ds] lcp_append append_assoc)
  next
    case False
    show ?thesis
    proof (cases "\<exists>tb db. t = HostBytes tb \<and> d = HostBytes db")
      case True
      then obtain tb db where td: "t = HostBytes tb" "d = HostBytes db" by blast
      let ?n = "common_prefix_length tb db"
      have "longest_common_prefix (map AByte tb @ atoms ts) (map AByte db @ atoms ds) =
          map AByte (take ?n tb)"
        using lcp_byte_runs [of "atoms ts" "atoms ds" tb db] canonical_tail_head [of tb ts]
          canonical_tail_head [of db ds] "1.prems"(1,2) False td
        by (simp add: common_prefix_length_longest)
      moreover have "map AByte (take ?n tb) @ map AByte (drop ?n tb) @ zs = map AByte tb @ zs"
        "map AByte (take ?n tb) @ map AByte (drop ?n db) @ zs = map AByte db @ zs" for zs
      proof -
        show "map AByte (take ?n tb) @ map AByte (drop ?n tb) @ zs = map AByte tb @ zs"
          by (metis append_assoc append_take_drop_id map_append)
        show "map AByte (take ?n tb) @ map AByte (drop ?n db) @ zs = map AByte db @ zs"
          by (metis append_assoc append_take_drop_id map_append common_prefix_length_take)
      qed
      moreover have "c = rev common @ (if ?n \<noteq> 0 then [HostBytes (take ?n tb)] else [])"
        "tt = rest_of_bytes ?n tb @ ts" "dt = rest_of_bytes ?n db @ ds"
        using "1.prems"(3) td False by (auto simp: Let_def split: if_splits)
      ultimately show ?thesis
        using td by (auto simp: atoms_rest_of_bytes common_prefix_length_le)
    next
      case no: False
      then have "c = rev common" "tt = t # ts" "dt = d # ds"
        using "1.prems"(3) False by (cases t; cases d; auto)+
      moreover have "longest_common_prefix (atoms (t # ts)) (atoms (d # ds)) = []"
        using no False "1.prems"(1,2) by (cases t; cases d) (auto simp: neq_Nil_conv)
      ultimately show ?thesis by simp
    qed
  qed
qed auto

text \<open>
  Two diverged histories are split at exactly the right point. For the canonical
  histories of two states, the common part carries the longest common prefix of the two streams,
  cutting through a byte run when it must, and each tail is what remains of its own stream.
\<close>

theorem split_common_history_exact:
  assumes "runs_nonempty (operations h)" "runs_nonempty (operations g)"
  shows "case split_common_history (canonical_operations h) (canonical_operations g) of
    (common, target_tail, delivered_tail) \<Rightarrow>
      atoms common = longest_common_prefix (atoms (operations h)) (atoms (operations g)) \<and>
      atoms common @ atoms target_tail = atoms (operations h) \<and>
      atoms common @ atoms delivered_tail = atoms (operations g)"
  using split_loop_exact [OF canonical_operations_form canonical_operations_form, OF assms, of "[]"]
  by (auto simp: split_common_history_def split: prod.split)

theorem split_common_history_exact_witness:
  "atoms (fst (split_common_history
     (canonical_operations (rs_history (sample_state [[65], [66]] None)))
     (canonical_operations (rs_history (sample_state [[65, 67]] None))))) = [AByte 65]"
proof -
  have "runs_nonempty (operations (rs_history (sample_state [[65], [66]] None)))"
    "runs_nonempty (operations (rs_history (sample_state [[65, 67]] None)))"
    by (simp_all add: sample_state_def runs_nonempty_def operations_def)
  from split_common_history_exact [OF this] show ?thesis
    by (auto simp: sample_state_def operations_def split: prod.splits)
qed

end
