(* ===== verification/Mosh_Session.thy ===== *)
theory Mosh_Session
  imports Mosh_Crypto Mosh_Fragment Mosh_State "HOL-Library.Product_Order"
begin

text \<open>
  The client side of the Mosh state synchronisation protocol
  (\<open>crates/fernomade/session/src/lib.rs\<close>): the replay window, the history of sent states with
  the instructions not yet acknowledged, reassembly of incoming fragments, and the acceptance of
  remote states. It uses the models of the envelope, the fragments, the messages and the
  terminal state; their third-party parts are gathered in the record \<open>protocol_libs\<close>.
\<close>

section \<open>Types and constants\<close>

definition NO_ECHO_TIMESTAMP :: u16 where
  "NO_ECHO_TIMESTAMP = - 1"

definition MAXIMUM_REASSEMBLED_BYTES :: nat where
  "MAXIMUM_REASSEMBLED_BYTES = 16 * 1024 * 1024"

definition MAXIMUM_ACTIVE_ASSEMBLIES :: nat where
  "MAXIMUM_ACTIVE_ASSEMBLIES = 64"

definition MAXIMUM_SENT_STATES :: nat where
  "MAXIMUM_SENT_STATES = 32"

definition MAXIMUM_RECEIVED_STATES :: nat where
  "MAXIMUM_RECEIVED_STATES = 1024"

definition REPLAY_WINDOW_BITS :: u64 where
  "REPLAY_WINDOW_BITS = 128"

definition TIMESTAMP_HEADER_BYTES :: nat where
  "TIMESTAMP_HEADER_BYTES = 4"

definition MINIMUM_FRAGMENT_PLAINTEXT_BYTES :: nat where
  "MINIMUM_FRAGMENT_PLAINTEXT_BYTES = 14"

datatype session_error =
    StateExhausted | ShutdownAlreadySent | ShutdownNotAcknowledged | StateHistoryUnavailable
  | UpdateAwaitingAcknowledgement | NoPendingUpdate | ReplayDetected | TooManyActiveAssemblies
  | TooManyRemoteStates | InvalidStateTransition
  | StateE state_error | SealE seal_error | OpenE open_error | FragmentE fragment_error
  | MessageE message_error

record ('p, 'q) protocol_libs =
  lib_aead :: aead
  lib_codec :: wire_codec
  lib_terminal :: "('p, 'q) terminal_lib"

record sent_state =
  ss_state_id :: u64
  ss_instruction_end :: nat

record replay_window =
  rw_highest :: "u64 option"
  rw_seen :: "128 word"

record 'p client_protocol =
  cp_channel :: secure_channel
  cp_next_local_state :: u64
  cp_latest_remote_state :: u64
  cp_last_remote_base_state :: u64
  cp_last_remote_target_state :: u64
  cp_latest_peer_timestamp :: "u16 option"
  cp_assemblies :: "(u64, fragment_accumulator) btree"
  cp_local_instructions :: "instruction list"
  cp_sent_states :: "sent_state list"
  cp_received_states :: "(u64, 'p remote_state) btree"
  cp_delivered_remote_state :: "'p remote_state"
  cp_remote_throwaway_floor :: u64
  cp_local_capabilities :: bytes
  cp_remote_capabilities :: bytes
  cp_replay_window :: replay_window

record received_state =
  rc_packet_counter :: u64
  rc_sent_timestamp :: u16
  rc_echoed_timestamp :: u16
  rc_advances_remote_state :: bool
  rc_raw_delta :: bytes
  rc_update :: state_update

record packet_receipt =
  pr_packet_counter :: u64
  pr_sent_timestamp :: u16
  pr_echoed_timestamp :: u16
  pr_state :: "received_state option"

section \<open>The replay window\<close>

definition replay_default :: replay_window where
  "replay_default = \<lparr>rw_highest = None, rw_seen = 0\<rparr>"

definition replay_accept :: "replay_window \<Rightarrow> u64 \<Rightarrow> bool \<times> replay_window" where
  "replay_accept w counter =
     (case rw_highest w of
        None \<Rightarrow> (True, w\<lparr>rw_highest := Some counter, rw_seen := 1\<rparr>)
      | Some highest \<Rightarrow>
          if highest < counter then
            let advance = counter - highest in
            (True, w\<lparr>rw_seen := (if REPLAY_WINDOW_BITS \<le> advance then 1
                                 else push_bit (unat advance) (rw_seen w) OR 1),
                     rw_highest := Some counter\<rparr>)
          else
            let age = highest - counter in
            if REPLAY_WINDOW_BITS \<le> age then (False, w)
            else
              let b = push_bit (unat age) 1 in
              if rw_seen w AND b \<noteq> 0 then (False, w)
              else (True, w\<lparr>rw_seen := rw_seen w OR b\<rparr>))"

section \<open>Sending\<close>

text \<open>
  Operations take the protocol and return the result with the protocol as the method leaves it,
  also on its error paths. A panic of the source (an \<open>expect\<close>, a slice out of range, an
  underflow) is \<open>None\<close>.
\<close>

definition client_new :: "('p, 'q) protocol_libs \<Rightarrow> bytes \<Rightarrow> 'p client_protocol option" where
  "client_new L key =
     (case state_new (lib_terminal L) 80 24 of
        Inl _ \<Rightarrow> None
      | Inr initial_remote_state \<Rightarrow>
          map_option (\<lambda>cloned.
            \<lparr>cp_channel = secure_channel_new Client key, cp_next_local_state = 1,
             cp_latest_remote_state = 0, cp_last_remote_base_state = 0,
             cp_last_remote_target_state = 0, cp_latest_peer_timestamp = None,
             cp_assemblies = [], cp_local_instructions = [],
             cp_sent_states = [\<lparr>ss_state_id = 0, ss_instruction_end = 0\<rparr>],
             cp_received_states = bt_insert 0 cloned [],
             cp_delivered_remote_state = initial_remote_state,
             cp_remote_throwaway_floor = 0, cp_local_capabilities = [],
             cp_remote_capabilities = [], cp_replay_window = replay_default\<rparr>)
            (state_clone (lib_terminal L) initial_remote_state))"

definition list_front :: "'a list \<Rightarrow> 'a option" where
  "list_front xs = (case xs of [] \<Rightarrow> None | x # _ \<Rightarrow> Some x)"

definition list_back :: "'a list \<Rightarrow> 'a option" where
  "list_back xs = list_front (rev xs)"

definition seal_fragments ::
    "aead \<Rightarrow> secure_channel \<Rightarrow> bytes \<Rightarrow> u16 \<Rightarrow> u16 option \<Rightarrow> u64
       \<Rightarrow> (session_error + bytes list) \<times> secure_channel" where
  "seal_fragments A channel compressed sent_timestamp latest_peer_timestamp state_id =
     (case fragment_split compressed sent_timestamp
             (case latest_peer_timestamp of None \<Rightarrow> NO_ECHO_TIMESTAMP | Some t \<Rightarrow> t) state_id of
        Inl e \<Rightarrow> (Inl (FragmentE e), channel)
      | Inr fragments \<Rightarrow>
          (case seal_all A channel (map fragment_encode fragments) of
             (Inl e, channel') \<Rightarrow> (Inl (SealE e), channel')
           | (Inr packets, channel') \<Rightarrow> (Inr packets, channel')))"

text \<open>The common end of the building operations: compress the update and seal its fragments.\<close>

definition send_update ::
    "('p, 'q) protocol_libs \<Rightarrow> state_update \<Rightarrow> u16 \<Rightarrow> u64 \<Rightarrow> 'p client_protocol
       \<Rightarrow> (session_error + bytes list) \<times> 'p client_protocol" where
  "send_update L update sent_timestamp state_id s =
     (case encode_compressed_update (lib_codec L) update of
        Inl e \<Rightarrow> (Inl (MessageE e), s)
      | Inr compressed \<Rightarrow>
          (case seal_fragments (lib_aead L) (cp_channel s) compressed sent_timestamp
                  (cp_latest_peer_timestamp s) state_id of
             (r, channel) \<Rightarrow> (r, s\<lparr>cp_channel := channel\<rparr>)))"

definition build_acknowledgement ::
    "('p, 'q) protocol_libs \<Rightarrow> u16 \<Rightarrow> 'p client_protocol
       \<Rightarrow> (session_error + bytes list) \<times> 'p client_protocol" where
  "build_acknowledgement L sent_timestamp s =
     (case (list_back (cp_sent_states s), list_front (cp_sent_states s)) of
        (Some latest, Some confirmed) \<Rightarrow>
          let local_state = ss_state_id latest;
              update = (state_update_new local_state local_state (cp_latest_remote_state s))
                \<lparr>su_discard_before := ss_state_id confirmed,
                 su_capabilities := cp_local_capabilities s\<rparr>
          in send_update L update sent_timestamp local_state s
      | _ \<Rightarrow> (Inl StateHistoryUnavailable, s))"

definition build_association ::
    "('p, 'q) protocol_libs \<Rightarrow> u16 \<Rightarrow> 'p client_protocol
       \<Rightarrow> (session_error + bytes list) \<times> 'p client_protocol" where
  "build_association L sent_timestamp s = build_acknowledgement L sent_timestamp s"

definition set_local_capabilities :: "bytes \<Rightarrow> 'p client_protocol \<Rightarrow> 'p client_protocol" where
  "set_local_capabilities capabilities s = s\<lparr>cp_local_capabilities := capabilities\<rparr>"

definition has_negotiated_capability :: "byte \<Rightarrow> 'p client_protocol \<Rightarrow> bool" where
  "has_negotiated_capability capability s =
     (case (list_front (cp_local_capabilities s), list_front (cp_remote_capabilities s)) of
        (Some l, Some r) \<Rightarrow> l AND r AND capability \<noteq> 0
      | _ \<Rightarrow> False)"

function limit_sent_states :: "sent_state list \<Rightarrow> sent_state list" where
  "limit_sent_states states =
     (if MAXIMUM_SENT_STATES < length states then
        let removal_index = length states - 16
        in limit_sent_states (take removal_index states @ drop (removal_index + 1) states)
      else states)"
  by pat_completeness auto
termination
  by (relation "measure length") (auto simp: MAXIMUM_SENT_STATES_def)

declare limit_sent_states.simps [simp del]

definition build_state_update ::
    "('p, 'q) protocol_libs \<Rightarrow> u16 \<Rightarrow> instruction_batch \<Rightarrow> u64 \<Rightarrow> 'p client_protocol
       \<Rightarrow> (session_error + bytes list) \<times> 'p client_protocol" where
  "build_state_update L sent_timestamp batch target_state s =
     (case (list_back (cp_sent_states s), list_front (cp_sent_states s)) of
        (Some latest, Some confirmed) \<Rightarrow>
          (case usize_checked_add (length (cp_local_instructions s))
                  (length (batch_instructions batch)) of
             None \<Rightarrow> (Inl StateExhausted, s)
           | Some instruction_end \<Rightarrow>
               let update = (state_update_new (ss_state_id latest) target_state (cp_latest_remote_state s))
                     \<lparr>su_discard_before := ss_state_id confirmed,
                      su_delta := encode_bytes (lib_codec L) batch,
                      su_capabilities := cp_local_capabilities s\<rparr>
               in (case send_update L update sent_timestamp target_state s of
                     (Inl e, s) \<Rightarrow> (Inl e, s)
                   | (Inr packets, s) \<Rightarrow>
                       (Inr packets,
                        s\<lparr>cp_local_instructions := cp_local_instructions s @ batch_instructions batch,
                          cp_sent_states := limit_sent_states (cp_sent_states s @
                            [\<lparr>ss_state_id = target_state, ss_instruction_end = instruction_end\<rparr>])\<rparr>)))
      | _ \<Rightarrow> (Inl StateHistoryUnavailable, s))"

definition build_update ::
    "('p, 'q) protocol_libs \<Rightarrow> u16 \<Rightarrow> instruction_batch \<Rightarrow> 'p client_protocol
       \<Rightarrow> (session_error + bytes list) \<times> 'p client_protocol" where
  "build_update L sent_timestamp batch s =
     (let target_state = cp_next_local_state s in
      if target_state = - 1 then (Inl StateExhausted, s)
      else (case build_state_update L sent_timestamp batch target_state s of
              (Inl e, s) \<Rightarrow> (Inl e, s)
            | (Inr packets, s) \<Rightarrow> (Inr packets, s\<lparr>cp_next_local_state := target_state + 1\<rparr>)))"

definition local_shutdown_sent :: "'p client_protocol \<Rightarrow> bool" where
  "local_shutdown_sent s =
     (case list_back (cp_sent_states s) of None \<Rightarrow> False | Some st \<Rightarrow> ss_state_id st = - 1)"

definition local_shutdown_acknowledged :: "'p client_protocol \<Rightarrow> bool" where
  "local_shutdown_acknowledged s =
     (case list_front (cp_sent_states s) of None \<Rightarrow> False | Some st \<Rightarrow> ss_state_id st = - 1)"

definition remote_shutdown_received :: "'p client_protocol \<Rightarrow> bool" where
  "remote_shutdown_received s \<longleftrightarrow> cp_latest_remote_state s = - 1"

definition has_pending_update :: "'p client_protocol \<Rightarrow> bool" where
  "has_pending_update s \<longleftrightarrow> 1 < length (cp_sent_states s)"

definition latest_local_state :: "'p client_protocol \<Rightarrow> u64" where
  "latest_local_state s = (case list_back (cp_sent_states s) of None \<Rightarrow> 0 | Some st \<Rightarrow> ss_state_id st)"

definition build_shutdown ::
    "('p, 'q) protocol_libs \<Rightarrow> u16 \<Rightarrow> instruction_batch \<Rightarrow> 'p client_protocol
       \<Rightarrow> (session_error + bytes list) \<times> 'p client_protocol" where
  "build_shutdown L sent_timestamp batch s =
     (if local_shutdown_sent s then (Inl ShutdownAlreadySent, s)
      else build_state_update L sent_timestamp batch (- 1) s)"

definition build_shutdown_ack ::
    "('p, 'q) protocol_libs \<Rightarrow> u16 \<Rightarrow> 'p client_protocol
       \<Rightarrow> (session_error + bytes list) \<times> 'p client_protocol" where
  "build_shutdown_ack L sent_timestamp s =
     (if \<not> local_shutdown_acknowledged s then (Inl ShutdownNotAcknowledged, s)
      else
        let update = (state_update_new (- 1) (- 1) (cp_latest_remote_state s))
              \<lparr>su_discard_before := - 1, su_capabilities := cp_local_capabilities s,
               su_delta := encode_bytes (lib_codec L) \<lparr>batch_instructions = []\<rparr>\<rparr>
        in send_update L update sent_timestamp (- 1) s)"

text \<open>The slice \<open>xs[from..to]\<close>, \<open>None\<close> when it panics.\<close>

definition slice_range :: "nat \<Rightarrow> nat \<Rightarrow> 'a list \<Rightarrow> 'a list option" where
  "slice_range from to xs = (if from \<le> to \<and> to \<le> length xs then Some (take (to - from) (drop from xs)) else None)"

text \<open>The update that \<open>retransmit_pending\<close> sends, from the confirmed and the latest state.\<close>

definition pending_update ::
    "wire_codec \<Rightarrow> 'p client_protocol \<Rightarrow> sent_state \<Rightarrow> sent_state \<Rightarrow> state_update option" where
  "pending_update K s confirmed latest =
     map_option (\<lambda>instructions.
         (state_update_new (ss_state_id confirmed) (ss_state_id latest) (cp_latest_remote_state s))
           \<lparr>su_discard_before := ss_state_id confirmed,
            su_delta := encode_bytes K \<lparr>batch_instructions = instructions\<rparr>,
            su_capabilities := cp_local_capabilities s\<rparr>)
       (slice_range (ss_instruction_end confirmed) (ss_instruction_end latest) (cp_local_instructions s))"

definition retransmit_pending ::
    "('p, 'q) protocol_libs \<Rightarrow> u16 \<Rightarrow> 'p client_protocol
       \<Rightarrow> ((session_error + bytes list) \<times> 'p client_protocol) option" where
  "retransmit_pending L sent_timestamp s =
     (if \<not> has_pending_update s then Some (Inl NoPendingUpdate, s)
      else (case (list_front (cp_sent_states s), list_back (cp_sent_states s)) of
              (Some confirmed, Some latest) \<Rightarrow>
                map_option (\<lambda>update. send_update L update sent_timestamp (ss_state_id latest) s)
                  (pending_update (lib_codec L) s confirmed latest)
            | _ \<Rightarrow> Some (Inl StateHistoryUnavailable, s)))"

section \<open>Receiving\<close>

fun position :: "('a \<Rightarrow> bool) \<Rightarrow> 'a list \<Rightarrow> nat option" where
  "position P [] = None"
| "position P (x # xs) = (if P x then Some 0 else map_option Suc (position P xs))"

definition process_acknowledgement :: "u64 \<Rightarrow> 'p client_protocol \<Rightarrow> 'p client_protocol option" where
  "process_acknowledgement acknowledged_state s =
     (case position (\<lambda>st. ss_state_id st = acknowledged_state) (cp_sent_states s) of
        None \<Rightarrow> Some s
      | Some acknowledged_index \<Rightarrow>
          let s = s\<lparr>cp_sent_states := drop acknowledged_index (cp_sent_states s)\<rparr> in
          (case list_front (cp_sent_states s) of
             None \<Rightarrow> None
           | Some confirmed \<Rightarrow>
               let confirmed_end = ss_instruction_end confirmed in
               if confirmed_end = 0 then Some s
               else if length (cp_local_instructions s) < confirmed_end then None
               else if list_ex (\<lambda>st. ss_instruction_end st < confirmed_end) (cp_sent_states s) then None
               else Some (s\<lparr>cp_local_instructions := drop confirmed_end (cp_local_instructions s),
                            cp_sent_states := map (\<lambda>st. st\<lparr>ss_instruction_end :=
                              ss_instruction_end st - confirmed_end\<rparr>) (cp_sent_states s)\<rparr>)))"

definition accept_remote_update ::
    "('p, 'q) protocol_libs \<Rightarrow> state_update \<Rightarrow> 'p client_protocol
       \<Rightarrow> ((session_error + (bool \<times> state_update \<times> bytes)) \<times> 'p client_protocol) option" where
  "accept_remote_update L update s =
     (let raw_delta = su_delta update in
      if bt_get (cp_received_states s) (su_target_state update) \<noteq> None
      then Some (Inr (False, update, raw_delta), s)
      else if su_base_state update < su_discard_before update \<or> su_target_state update \<le> su_base_state update
      then Some (Inl InvalidStateTransition, s)
      else (case bt_get (cp_received_states s) (su_base_state update) of
        None \<Rightarrow> Some (Inr (False, update, raw_delta), s)
      | Some base \<Rightarrow>
          (case state_clone (lib_terminal L) base of
             None \<Rightarrow> None
           | Some target_state \<Rightarrow>
          (case decode_instructions (lib_codec L) update of
             Inl e \<Rightarrow> Some (Inl (MessageE e), s)
           | Inr instructions \<Rightarrow>
          (case state_apply (lib_terminal L) instructions target_state of
             (Inl e, _) \<Rightarrow> Some (Inl (StateE e), s)
           | (Inr _, target_state) \<Rightarrow>
          let throwaway_floor = max (cp_remote_throwaway_floor s) (su_discard_before update);
              s = s\<lparr>cp_received_states := bt_retain (\<lambda>id. throwaway_floor \<le> id) (cp_received_states s),
                    cp_remote_throwaway_floor := throwaway_floor\<rparr>
          in if MAXIMUM_RECEIVED_STATES \<le> length (cp_received_states s)
             then Some (Inl TooManyRemoteStates, s)
             else (case state_clone (lib_terminal L) target_state of
               None \<Rightarrow> None
             | Some cloned \<Rightarrow>
                 let s = s\<lparr>cp_received_states :=
                             bt_insert (su_target_state update) cloned (cp_received_states s),
                           cp_last_remote_base_state := su_base_state update,
                           cp_last_remote_target_state := su_target_state update\<rparr>
                 in if su_target_state update \<le> cp_latest_remote_state s
                    then Some (Inr (False, update, raw_delta), s)
                    else (case diff_from (lib_terminal L) target_state (cp_delivered_remote_state s) of
                            Inl _ \<Rightarrow> Some (Inr (False, update, raw_delta), s)
                          | Inr diff \<Rightarrow>
                              let delivered_update = update\<lparr>su_delta := encode_bytes (lib_codec L) diff\<rparr>
                              in Some (Inr (True, delivered_update, raw_delta),
                                       s\<lparr>cp_latest_remote_state := su_target_state delivered_update,
                                         cp_delivered_remote_state := target_state\<rparr>))))))))"

text \<open>The last part of \<open>ingest_packet\<close>: a reassembled message.\<close>

definition ingest_message ::
    "('p, 'q) protocol_libs \<Rightarrow> authenticated_packet \<Rightarrow> fragment_header \<Rightarrow> u16 \<Rightarrow> u16 \<Rightarrow> bytes
       \<Rightarrow> 'p client_protocol \<Rightarrow> ((session_error + packet_receipt) \<times> 'p client_protocol) option" where
  "ingest_message L authenticated header sent_timestamp echoed_timestamp compressed s =
     (case decode_compressed_update (lib_codec L) compressed of
        Inl e \<Rightarrow> Some (Inl (MessageE e), s)
      | Inr update \<Rightarrow>
          (case process_acknowledgement (su_acknowledged_state update) s of
             None \<Rightarrow> None
           | Some s \<Rightarrow>
               (case accept_remote_update L update s of
                  None \<Rightarrow> None
                | Some (Inl e, s) \<Rightarrow> Some (Inl e, s)
                | Some (Inr (advances, delivered_update, raw_delta), s) \<Rightarrow>
                    let s = (if su_capabilities update = [] then s
                             else s\<lparr>cp_remote_capabilities := su_capabilities update\<rparr>)
                    in Some (Inr \<lparr>pr_packet_counter = ap_counter authenticated,
                                  pr_sent_timestamp = sent_timestamp,
                                  pr_echoed_timestamp = echoed_timestamp,
                                  pr_state = Some
                                    \<lparr>rc_packet_counter = ap_counter authenticated,
                                     rc_sent_timestamp = fh_sent_timestamp header,
                                     rc_echoed_timestamp = fh_echoed_timestamp header,
                                     rc_advances_remote_state = advances,
                                     rc_raw_delta = raw_delta, rc_update = delivered_update\<rparr>\<rparr>, s))))"

text \<open>The middle part: an authenticated fragment goes to the assembly of its state.\<close>

definition ingest_fragment ::
    "('p, 'q) protocol_libs \<Rightarrow> authenticated_packet \<Rightarrow> u16 \<Rightarrow> u16
       \<Rightarrow> 'p client_protocol \<Rightarrow> ((session_error + packet_receipt) \<times> 'p client_protocol) option" where
  "ingest_fragment L authenticated sent_timestamp echoed_timestamp s =
     (case fragment_parse (ap_plaintext authenticated) of
        Inl e \<Rightarrow> Some (Inl (FragmentE e), s)
      | Inr fragment \<Rightarrow>
          let header = frag_header fragment; state_id = fh_state_id header in
          if bt_get (cp_assemblies s) state_id = None \<and>
             MAXIMUM_ACTIVE_ASSEMBLIES \<le> length (cp_assemblies s)
          then Some (Inl TooManyActiveAssemblies, s)
          else
            let assembly = (case bt_get (cp_assemblies s) state_id of
                   None \<Rightarrow> accumulator_new state_id MAXIMUM_REASSEMBLED_BYTES
                 | Some assembly \<Rightarrow> assembly)
            in (case accumulator_push assembly fragment of
                  (r, assembly) \<Rightarrow>
                    let s = s\<lparr>cp_assemblies := bt_insert state_id assembly (cp_assemblies s)\<rparr>
                    in (case r of
                          Inl e \<Rightarrow> Some (Inl (FragmentE e), s)
                        | Inr None \<Rightarrow>
                            Some (Inr \<lparr>pr_packet_counter = ap_counter authenticated,
                                       pr_sent_timestamp = sent_timestamp,
                                       pr_echoed_timestamp = echoed_timestamp,
                                       pr_state = None\<rparr>, s)
                        | Inr (Some compressed) \<Rightarrow>
                            ingest_message L authenticated header sent_timestamp echoed_timestamp
                              compressed
                              (s\<lparr>cp_assemblies := bt_remove state_id (cp_assemblies s)\<rparr>))))"

definition ingest_packet ::
    "('p, 'q) protocol_libs \<Rightarrow> bytes \<Rightarrow> 'p client_protocol
       \<Rightarrow> ((session_error + packet_receipt) \<times> 'p client_protocol) option" where
  "ingest_packet L packet s =
     (case secure_channel_open (lib_aead L) (cp_channel s) packet of
        Inl e \<Rightarrow> Some (Inl (OpenE e), s)
      | Inr authenticated \<Rightarrow>
          (case replay_accept (cp_replay_window s) (ap_counter authenticated) of
             (accepted, window) \<Rightarrow>
               let s = s\<lparr>cp_replay_window := window\<rparr> in
               if \<not> accepted then Some (Inl ReplayDetected, s)
               else
                 (case get_prefix TIMESTAMP_HEADER_BYTES (ap_plaintext authenticated) of
                    None \<Rightarrow> Some (Inl (FragmentE HeaderTooShort), s)
                  | Some timestamp_header \<Rightarrow>
                      let sent_timestamp = of_be_bytes (take 2 timestamp_header);
                          echoed_timestamp = of_be_bytes (drop 2 timestamp_header);
                          s = s\<lparr>cp_latest_peer_timestamp := Some sent_timestamp\<rparr>
                      in if length (ap_plaintext authenticated) < MINIMUM_FRAGMENT_PLAINTEXT_BYTES
                         then Some (Inr \<lparr>pr_packet_counter = ap_counter authenticated,
                                         pr_sent_timestamp = sent_timestamp,
                                         pr_echoed_timestamp = echoed_timestamp,
                                         pr_state = None\<rparr>, s)
                         else ingest_fragment L authenticated sent_timestamp echoed_timestamp s)))"

definition ingest ::
    "('p, 'q) protocol_libs \<Rightarrow> bytes \<Rightarrow> 'p client_protocol
       \<Rightarrow> ((session_error + received_state option) \<times> 'p client_protocol) option" where
  "ingest L packet s =
     map_option (\<lambda>(r, s). (rbind r (\<lambda>receipt. Inr (pr_state receipt)), s)) (ingest_packet L packet s)"

definition set_initial_remote_viewport ::
    "('p, 'q) protocol_libs \<Rightarrow> u16 \<Rightarrow> u16 \<Rightarrow> 'p client_protocol \<Rightarrow> 'p client_protocol option" where
  "set_initial_remote_viewport L columns rows s =
     (if cp_latest_remote_state s \<noteq> 0 \<or> length (cp_received_states s) \<noteq> 1 then Some s
      else (case state_new (lib_terminal L) (max columns 1) (max rows 1) of
              Inl _ \<Rightarrow> Some s
            | Inr initial_state \<Rightarrow>
                map_option (\<lambda>cloned.
                  s\<lparr>cp_received_states := bt_insert 0 cloned (cp_received_states s),
                    cp_delivered_remote_state := initial_state\<rparr>)
                  (state_clone (lib_terminal L) initial_state)))"

record transport_state_numbers =
  tn_acked_by_remote :: u64
  tn_sent_num :: u64
  tn_last_recv_old_num :: u64
  tn_last_recv_new_num :: u64
  tn_throwaway_num :: u64

definition transport_numbers :: "'p client_protocol \<Rightarrow> transport_state_numbers" where
  "transport_numbers s =
     \<lparr>tn_acked_by_remote = (case list_front (cp_sent_states s) of None \<Rightarrow> 0 | Some st \<Rightarrow> ss_state_id st),
      tn_sent_num = latest_local_state s,
      tn_last_recv_old_num = cp_last_remote_base_state s,
      tn_last_recv_new_num = cp_last_remote_target_state s,
      tn_throwaway_num = cp_remote_throwaway_floor s\<rparr>"

section \<open>The replay window against its specification\<close>

text \<open>
  The specification keeps every accepted counter: a counter is fresh when it exceeds all of them,
  or lies less than 128 below the largest and was not accepted before.
\<close>

definition window_spec :: "u64 list \<Rightarrow> u64 \<Rightarrow> bool" where
  "window_spec accepted c =
     (accepted = [] \<or> Max (set accepted) < c \<or>
      (unat (Max (set accepted)) - unat c < 128 \<and> c \<notin> set accepted))"

fun spec_results :: "u64 list \<Rightarrow> u64 list \<Rightarrow> bool list" where
  "spec_results accepted [] = []"
| "spec_results accepted (c # cs) =
     window_spec accepted c # spec_results (if window_spec accepted c then c # accepted else accepted) cs"

fun replay_results :: "replay_window \<Rightarrow> u64 list \<Rightarrow> bool list" where
  "replay_results w [] = []"
| "replay_results w (c # cs) = fst (replay_accept w c) # replay_results (snd (replay_accept w c)) cs"

definition window_tracks :: "replay_window \<Rightarrow> u64 list \<Rightarrow> bool" where
  "window_tracks w accepted \<longleftrightarrow>
     (case rw_highest w of
        None \<Rightarrow> accepted = []
      | Some h \<Rightarrow> h \<in> set accepted \<and> (\<forall>x\<in>set accepted. x \<le> h) \<and>
          (\<forall>i<128. bit (rw_seen w) i \<longleftrightarrow> (\<exists>x\<in>set accepted. unat x + i = unat h)))"

lemma window_tracks_Max:
  "window_tracks w accepted \<Longrightarrow> rw_highest w = Some h \<Longrightarrow> Max (set accepted) = h"
  by (auto simp: window_tracks_def intro: Max_eqI)

lemma seen_bit: "(seen :: 128 word) AND push_bit n 1 \<noteq> 0 \<longleftrightarrow> bit seen n"
  using and_exp_eq_0_iff_not_bit [of seen n] by (simp add: push_bit_eq_mult)

lemma replay_accept_tracks:
  assumes "window_tracks w accepted"
  shows "fst (replay_accept w c) = window_spec accepted c \<and>
    window_tracks (snd (replay_accept w c)) (if window_spec accepted c then c # accepted else accepted)"
proof (cases "rw_highest w")
  case None
  with assms show ?thesis
    by (auto simp: window_tracks_def replay_accept_def window_spec_def bit_1_iff)
next
  case (Some h)
  note track = assms [unfolded window_tracks_def Some option.case]
  have M: "Max (set accepted) = h" by (rule window_tracks_Max [OF assms Some])
  have ne: "accepted \<noteq> []" using track by auto
  have le: "unat x \<le> unat h" if "x \<in> set accepted" for x
    using track that by (simp add: word_le_nat_alt)
  show ?thesis
  proof (cases "h < c")
    case True
    let ?a = "unat c - unat h"
    have a: "unat (c - h) = ?a" using True by (intro unat_sub less_imp_le)
    have hc: "unat h < unat c" using True by (simp add: word_less_nat_alt)
    have far: "REPLAY_WINDOW_BITS \<le> c - h \<longleftrightarrow> 128 \<le> ?a"
      by (simp add: REPLAY_WINDOW_BITS_def word_le_nat_alt a)
    have "bit (if 128 \<le> ?a then 1 else push_bit ?a (rw_seen w) OR 1) i \<longleftrightarrow>
        (\<exists>x\<in>set (c # accepted). unat x + i = unat c)" if "i < 128" for i
    proof -
      have "(\<exists>x\<in>set accepted. unat x + i = unat c) \<longleftrightarrow> ?a \<le> i \<and> bit (rw_seen w) (i - ?a)"
      proof (cases "?a \<le> i")
        case True
        have "i - ?a < 128" using that by simp
        with track have seen: "bit (rw_seen w) (i - ?a) \<longleftrightarrow> (\<exists>x\<in>set accepted. unat x + (i - ?a) = unat h)"
          by blast
        have "unat x + (i - ?a) = unat h \<longleftrightarrow> unat x + i = unat c" for x :: u64
          using True hc by linarith
        then show ?thesis using True by (simp only: seen simp_thms)
      next
        case False
        with le hc show ?thesis by fastforce
      qed
      then show ?thesis
        using that by (auto simp: bit_1_iff bit_or_iff bit_push_bit_iff)
    qed
    moreover have "\<forall>x\<in>set (c # accepted). x \<le> c"
      using track True by (auto intro: order_trans [OF _ less_imp_le])
    ultimately show ?thesis
      using True
      by (cases "128 \<le> ?a")
         (simp_all add: replay_accept_def Some Let_def window_spec_def M ne window_tracks_def far a)
  next
    case False
    let ?a = "unat h - unat c"
    have a: "unat (h - c) = ?a" using False by (intro unat_sub) simp
    have hc: "unat c \<le> unat h" using False by (simp add: word_less_nat_alt)
    have far: "REPLAY_WINDOW_BITS \<le> h - c \<longleftrightarrow> 128 \<le> ?a"
      by (simp add: REPLAY_WINDOW_BITS_def word_le_nat_alt a)
    have seen: "bit (rw_seen w) ?a \<longleftrightarrow> c \<in> set accepted" if "?a < 128"
    proof -
      have "bit (rw_seen w) ?a \<longleftrightarrow> (\<exists>x\<in>set accepted. unat x + ?a = unat h)"
        using track that by blast
      also have "\<dots> \<longleftrightarrow> (\<exists>x\<in>set accepted. unat x = unat c)"
        using hc by (metis add_diff_cancel_right' diff_diff_cancel le_add_diff_inverse)
      finally show ?thesis by (metis word_unat_eq_iff)
    qed
    have new: "bit (rw_seen w OR push_bit ?a 1) i \<longleftrightarrow> (\<exists>x\<in>set (c # accepted). unat x + i = unat h)"
      if "i < 128" "?a < 128" for i
    proof -
      have "bit (push_bit ?a 1 :: 128 word) i \<longleftrightarrow> unat c + i = unat h"
        using that hc by (auto simp: push_bit_eq_mult bit_exp_iff possible_bit_word)
      with track that(1) show ?thesis by (auto simp: bit_or_iff)
    qed
    have seen0: "rw_seen w AND push_bit ?a 1 \<noteq> 0 \<longleftrightarrow> c \<in> set accepted" if "?a < 128"
      using seen [OF that] seen_bit [of "rw_seen w" ?a] by blast
    have acc: "replay_accept w c = (if 128 \<le> ?a \<or> c \<in> set accepted then (False, w)
        else (True, w\<lparr>rw_seen := rw_seen w OR push_bit ?a 1\<rparr>))"
      using False seen0 by (auto simp: replay_accept_def Some Let_def far a)
    have spec: "window_spec accepted c \<longleftrightarrow> \<not> (128 \<le> ?a \<or> c \<in> set accepted)"
      using False by (auto simp: window_spec_def M ne)
    show ?thesis
    proof (cases "128 \<le> ?a \<or> c \<in> set accepted")
      case True
      then show ?thesis using assms by (simp add: acc spec)
    next
      case fresh: False
      then have "?a < 128" by simp
      then have "\<forall>i<128. bit (rw_seen w OR push_bit ?a 1) i \<longleftrightarrow>
          (\<exists>x\<in>set (c # accepted). unat x + i = unat h)"
        using new by blast
      moreover have "\<forall>x\<in>set (c # accepted). x \<le> h" using track False by auto
      ultimately show ?thesis
        using fresh track by (simp add: acc spec window_tracks_def Some)
    qed
  qed
qed

text \<open>
  Property C4: the 128-bit replay window is exact. For every sequence of packet counters, the
  window with its highest counter and bit mask gives the same answers as the specification that
  remembers all accepted counters. In particular no counter is accepted twice, and none that lies
  inside the window is refused when it is fresh.
\<close>

theorem replay_window_refines: "replay_results replay_default cs = spec_results [] cs"
proof -
  have "window_tracks w accepted \<Longrightarrow> replay_results w cs = spec_results accepted cs" for w accepted
    by (induction cs arbitrary: w accepted) (auto simp: replay_accept_tracks)
  moreover have "window_tracks replay_default []"
    by (simp add: window_tracks_def replay_default_def)
  ultimately show ?thesis by blast
qed

section \<open>The invariant of the client\<close>

text \<open>
  The history of sent states: never empty and at most 32 long, each entry pointing at how much of
  the retained instructions it covers, from nothing (the confirmed state) to everything.
\<close>

definition sent_ok :: "sent_state list \<Rightarrow> nat \<Rightarrow> bool" where
  "sent_ok states n \<longleftrightarrow>
     states \<noteq> [] \<and> length states \<le> MAXIMUM_SENT_STATES \<and> sorted (map ss_instruction_end states) \<and>
     ss_instruction_end (hd states) = 0 \<and> ss_instruction_end (last states) = n"

definition received_ok :: "(u64, 'p remote_state) btree \<Rightarrow> u64 \<Rightarrow> bool" where
  "received_ok m floor \<longleftrightarrow>
     bt_wf m \<and> length m \<le> MAXIMUM_RECEIVED_STATES \<and>
     (\<forall>id t. bt_get m id = Some t \<longrightarrow> floor \<le> id \<and> state_inv t)"

text \<open>The baseline viewport is replaced only before the first remote state, when the floor is zero.\<close>

definition baseline_ok :: "(u64, 'p remote_state) btree \<Rightarrow> u64 \<Rightarrow> bool" where
  "baseline_ok m floor \<longleftrightarrow> floor = 0 \<or> 2 \<le> length m"

definition session_inv :: "'p client_protocol \<Rightarrow> bool" where
  "session_inv s \<longleftrightarrow>
     sent_ok (cp_sent_states s) (length (cp_local_instructions s)) \<and>
     channel_ok (cp_channel s) \<and>
     received_ok (cp_received_states s) (cp_remote_throwaway_floor s) \<and>
     baseline_ok (cp_received_states s) (cp_remote_throwaway_floor s) \<and>
     state_inv (cp_delivered_remote_state s) \<and>
     bt_wf (cp_assemblies s) \<and> length (cp_assemblies s) \<le> MAXIMUM_ACTIVE_ASSEMBLIES \<and>
     (\<exists>accepted. window_tracks (cp_replay_window s) accepted)"

lemma list_front_ne [simp]: "xs \<noteq> [] \<Longrightarrow> list_front xs = Some (hd xs)"
  by (cases xs) (simp_all add: list_front_def)

lemma list_back_ne [simp]: "xs \<noteq> [] \<Longrightarrow> list_back xs = Some (last xs)"
  by (simp add: list_back_def hd_rev)

lemma list_ends_Nil [simp]: "list_front [] = None" "list_back [] = None"
  by (simp_all add: list_front_def list_back_def)

text \<open>Removing a middle element keeps both ends and the order.\<close>

lemma remove_middle:
  assumes "0 < i" "Suc i < length xs" "sorted (map f xs)"
  defines "ys \<equiv> take i xs @ drop (i + 1) xs"
  shows "ys \<noteq> []" "hd ys = hd xs" "last ys = last xs" "sorted (map f ys)" "length ys = length xs - 1"
    "set ys \<subseteq> set xs"
proof -
  have ne: "take i xs \<noteq> []" "drop (i + 1) xs \<noteq> []" using assms(1,2) by auto
  then show "ys \<noteq> []" "hd ys = hd xs" "last ys = last xs"
    using assms(1) by (simp_all add: ys_def hd_append last_append)
  have "xs = take i xs @ xs ! i # drop (i + 1) xs"
    using assms(2) by (simp add: id_take_nth_drop)
  then have "map f xs = map f (take i xs) @ f (xs ! i) # map f (drop (i + 1) xs)"
    by (metis list.simps(9) map_append)
  with assms(3) show "sorted (map f ys)"
    by (simp add: ys_def sorted_append del: take_map drop_map)
  show "length ys = length xs - 1" using assms(2) by (simp add: ys_def)
  show "set ys \<subseteq> set xs"
    by (auto simp: ys_def dest: in_set_takeD in_set_dropD)
qed

lemma limit_sent_states_ends:
  "states \<noteq> [] \<Longrightarrow> sorted (map ss_instruction_end states) \<Longrightarrow>
   limit_sent_states states \<noteq> [] \<and> hd (limit_sent_states states) = hd states \<and>
   last (limit_sent_states states) = last states \<and>
   sorted (map ss_instruction_end (limit_sent_states states)) \<and>
   length (limit_sent_states states) \<le> MAXIMUM_SENT_STATES \<and>
   set (limit_sent_states states) \<subseteq> set states"
proof (induction states rule: limit_sent_states.induct)
  case (1 states)
  show ?case
  proof (cases "MAXIMUM_SENT_STATES < length states")
    case True
    let ?i = "length states - 16"
    have i: "0 < ?i" "Suc ?i < length states" using True by (simp_all add: MAXIMUM_SENT_STATES_def)
    note r = remove_middle [OF i "1.prems"(2)]
    have "limit_sent_states states = limit_sent_states (take ?i states @ drop (?i + 1) states)"
      using True by (subst limit_sent_states.simps) (simp add: Let_def)
    with "1.IH" [OF True refl r(1,4)] r show ?thesis by (metis subset_trans)
  next
    case False
    then show ?thesis using "1.prems" by (subst (1 2 3 4 5 6) limit_sent_states.simps) simp
  qed
qed

lemma sent_ok_push:
  assumes "sent_ok states n" "n \<le> m"
  shows "sent_ok (limit_sent_states (states @ [\<lparr>ss_state_id = target, ss_instruction_end = m\<rparr>])) m"
proof -
  have "states \<noteq> []" "sorted (map ss_instruction_end states)" "ss_instruction_end (last states) = n"
    using assms(1) by (simp_all add: sent_ok_def)
  then have "\<forall>st\<in>set states. ss_instruction_end st \<le> n"
    by (induction states) (auto split: if_splits)
  then have "sorted (map ss_instruction_end (states @ [\<lparr>ss_state_id = target, ss_instruction_end = m\<rparr>]))"
    using assms by (auto simp: sorted_append sent_ok_def)
  from limit_sent_states_ends [OF _ this] assms(1) show ?thesis
    by (auto simp: sent_ok_def hd_append)
qed

lemma seal_all_run: "\<exists>qs. snd (seal_all A ch ps) = foldl (\<lambda>ch p. snd (seal_next A ch p)) ch qs"
proof (induction ps arbitrary: ch)
  case Nil
  show ?case by (intro exI [of _ "[]"]) simp
next
  case (Cons p ps)
  obtain r ch1 where r: "seal_next A ch p = (r, ch1)" by fastforce
  show ?case
  proof (cases r)
    case (Inl e)
    with r show ?thesis by (intro exI [of _ "[p]"]) simp
  next
    case (Inr pkt)
    from Cons.IH obtain qs where
      "snd (seal_all A ch1 ps) = foldl (\<lambda>ch p. snd (seal_next A ch p)) ch1 qs" by blast
    with r Inr have "snd (seal_all A ch (p # ps)) = foldl (\<lambda>ch p. snd (seal_next A ch p)) ch (p # qs)"
      by (auto split: prod.split sum.split dest: arg_cong [of _ _ snd])
    then show ?thesis by blast
  qed
qed

lemma seal_all_ok: "channel_ok ch \<Longrightarrow> channel_ok (snd (seal_all A ch ps))"
  using seal_all_run [of A ch ps] by (metis sealing.run_inv)

lemma seal_all_mono: "channel_ok ch \<Longrightarrow> seal_count ch \<le> seal_count (snd (seal_all A ch ps))"
  using seal_all_run [of A ch ps] by (metis sealing.run_mono)

lemma seal_fragments_channel:
  assumes "channel_ok ch"
  shows "channel_ok (snd (seal_fragments A ch c ts lt sid))"
    and "seal_count ch \<le> seal_count (snd (seal_fragments A ch c ts lt sid))"
  using assms seal_all_ok [OF assms, of A] seal_all_mono [OF assms, of A]
  by (auto simp: seal_fragments_def split: sum.splits prod.splits) (metis snd_conv)+

text \<open>Sending touches the channel only.\<close>

lemma send_update_frame:
  "\<exists>ch. snd (send_update L u ts sid s) = s\<lparr>cp_channel := ch\<rparr> \<and>
     (channel_ok (cp_channel s) \<longrightarrow> channel_ok ch \<and> seal_count (cp_channel s) \<le> seal_count ch)"
proof (cases "encode_compressed_update (lib_codec L) u")
  case (Inl e)
  have "s = s\<lparr>cp_channel := cp_channel s\<rparr>" by simp
  with Inl show ?thesis by (metis (no_types) order_refl send_update_def snd_conv sum.case(1))
next
  case (Inr c)
  then show ?thesis
    using seal_fragments_channel [of "cp_channel s" "lib_aead L" c ts "cp_latest_peer_timestamp s" sid]
    by (auto simp: send_update_def split: prod.splits)
qed

lemma session_inv_channel:
  "session_inv s \<Longrightarrow> channel_ok ch \<Longrightarrow> session_inv (s\<lparr>cp_channel := ch\<rparr>)"
  by (simp add: session_inv_def)

lemma send_update_inv:
  assumes "session_inv s"
  shows "session_inv (snd (send_update L u ts sid s))"
proof -
  have "channel_ok (cp_channel s)" using assms by (simp add: session_inv_def)
  with send_update_frame [of L u ts sid s] obtain ch where
    "snd (send_update L u ts sid s) = s\<lparr>cp_channel := ch\<rparr>" "channel_ok ch" by blast
  then show ?thesis using session_inv_channel [OF assms, of ch] by simp
qed

lemma sent_ne: "session_inv s \<Longrightarrow> cp_sent_states s \<noteq> []"
  by (simp add: session_inv_def sent_ok_def)

lemma build_acknowledgement_inv:
  "session_inv s \<Longrightarrow> session_inv (snd (build_acknowledgement L ts s))"
  by (simp add: build_acknowledgement_def sent_ne Let_def send_update_inv)

text \<open>The two outcomes of building a state update.\<close>

lemma build_state_update_cases:
  assumes "session_inv s"
  obtains (failed) e ch where "build_state_update L ts batch target s = (Inl e, s\<lparr>cp_channel := ch\<rparr>)"
    "channel_ok ch" "seal_count (cp_channel s) \<le> seal_count ch"
  | (sent) packets ch where "build_state_update L ts batch target s = (Inr packets,
      s\<lparr>cp_channel := ch,
        cp_local_instructions := cp_local_instructions s @ batch_instructions batch,
        cp_sent_states := limit_sent_states (cp_sent_states s @
          [\<lparr>ss_state_id = target,
            ss_instruction_end = length (cp_local_instructions s) + length (batch_instructions batch)\<rparr>])\<rparr>)"
    "channel_ok ch" "seal_count (cp_channel s) \<le> seal_count ch"
proof -
  have ok: "channel_ok (cp_channel s)" using assms by (simp add: session_inv_def)
  let ?sum = "usize_checked_add (length (cp_local_instructions s)) (length (batch_instructions batch))"
  show ?thesis
  proof (cases ?sum)
    case None
    then have "build_state_update L ts batch target s = (Inl StateExhausted, s\<lparr>cp_channel := cp_channel s\<rparr>)"
      by (simp add: build_state_update_def sent_ne [OF assms] del: usize_checked_add_None)
    then show ?thesis by (rule failed) (simp_all add: ok)
  next
    case (Some n)
    let ?u = "(state_update_new (ss_state_id (last (cp_sent_states s))) target (cp_latest_remote_state s))
        \<lparr>su_discard_before := ss_state_id (hd (cp_sent_states s)),
         su_delta := encode_bytes (lib_codec L) batch,
         su_capabilities := cp_local_capabilities s\<rparr>"
    obtain r t where rt: "send_update L ?u ts target s = (r, t)" by fastforce
    with send_update_frame [of L ?u ts target s] ok obtain ch where ch: "t = s\<lparr>cp_channel := ch\<rparr>"
      "channel_ok ch" "seal_count (cp_channel s) \<le> seal_count ch" by auto
    show ?thesis
    proof (cases r)
      case (Inl e)
      with rt ch Some show ?thesis
        by (intro failed [of e ch])
           (simp_all add: build_state_update_def sent_ne [OF assms] Let_def)
    next
      case (Inr packets)
      with rt ch Some show ?thesis
        by (intro sent [of packets ch])
           (simp_all add: build_state_update_def sent_ne [OF assms] Let_def)
    qed
  qed
qed

lemma build_state_update_inv:
  assumes "session_inv s"
  shows "session_inv (snd (build_state_update L ts batch target s))"
  using assms
proof (cases rule: build_state_update_cases [OF assms, of L ts batch target])
  case (2 packets ch)
  have "sent_ok (cp_sent_states s) (length (cp_local_instructions s))"
    using assms by (simp add: session_inv_def)
  from sent_ok_push [OF this, of "length (cp_local_instructions s) + length (batch_instructions batch)" target] 2 assms
  show ?thesis by (simp add: session_inv_def)
qed (simp add: session_inv_channel)

lemma session_inv_next: "session_inv s \<Longrightarrow> session_inv (s\<lparr>cp_next_local_state := n\<rparr>)"
  by (simp add: session_inv_def)

lemma build_update_snd:
  "snd (build_update L ts batch s) =
     (if cp_next_local_state s = - 1 then s
      else let (r, t) = build_state_update L ts batch (cp_next_local_state s) s
           in if is_ok r then t\<lparr>cp_next_local_state := cp_next_local_state s + 1\<rparr> else t)"
  by (auto simp: build_update_def Let_def is_ok_def split: prod.splits sum.splits)

lemma build_update_inv: "session_inv s \<Longrightarrow> session_inv (snd (build_update L ts batch s))"
  using build_state_update_inv [of s L ts batch "cp_next_local_state s"]
  by (auto simp: build_update_snd Let_def session_inv_next split: prod.splits)

lemma build_shutdown_inv: "session_inv s \<Longrightarrow> session_inv (snd (build_shutdown L ts batch s))"
  by (simp add: build_shutdown_def build_state_update_inv)

lemma build_shutdown_ack_inv: "session_inv s \<Longrightarrow> session_inv (snd (build_shutdown_ack L ts s))"
  by (simp add: build_shutdown_ack_def Let_def send_update_inv)

text \<open>A retransmission carries every retained instruction, from the confirmed to the latest state.\<close>

lemma pending_update_all:
  assumes "session_inv s"
  shows "pending_update K s (hd (cp_sent_states s)) (last (cp_sent_states s)) =
    Some ((state_update_new (ss_state_id (hd (cp_sent_states s))) (ss_state_id (last (cp_sent_states s)))
             (cp_latest_remote_state s))
           \<lparr>su_discard_before := ss_state_id (hd (cp_sent_states s)),
            su_delta := encode_bytes K \<lparr>batch_instructions = cp_local_instructions s\<rparr>,
            su_capabilities := cp_local_capabilities s\<rparr>)"
  using assms by (simp add: pending_update_def slice_range_def session_inv_def sent_ok_def)

lemma retransmit_pending_inv:
  "session_inv s \<Longrightarrow> \<exists>r t. retransmit_pending L ts s = Some (r, t) \<and> session_inv t \<and>
     (\<exists>ch. t = s\<lparr>cp_channel := ch\<rparr> \<and> seal_count (cp_channel s) \<le> seal_count ch)"
proof (cases "has_pending_update s")
  case True
  assume inv: "session_inv s"
  let ?oldest = "hd (cp_sent_states s)" and ?newest = "last (cp_sent_states s)"
  obtain u where "pending_update (lib_codec L) s ?oldest ?newest = Some u"
    using pending_update_all [OF inv] by blast
  then have "retransmit_pending L ts s = Some (send_update L u ts (ss_state_id ?newest) s)"
    using True by (simp add: retransmit_pending_def sent_ne [OF inv])
  moreover obtain r t where "send_update L u ts (ss_state_id ?newest) s = (r, t)" by fastforce
  moreover have "channel_ok (cp_channel s)" using inv by (simp add: session_inv_def)
  ultimately show ?thesis
    using send_update_inv [OF inv, of L u ts "ss_state_id ?newest"]
      send_update_frame [of L u ts "ss_state_id ?newest" s] by auto
next
  case False
  assume "session_inv s"
  moreover have "retransmit_pending L ts s = Some (Inl NoPendingUpdate, s)"
    using False by (simp add: retransmit_pending_def)
  ultimately show ?thesis
    by (intro exI [of _ "Inl NoPendingUpdate"] exI [of _ s] exI [of _ "cp_channel s"] conjI) simp_all
qed

text \<open>An acknowledgement drops exactly what the acknowledged state covers.\<close>

lemma position_Some:
  "position P xs = Some i \<Longrightarrow> i < length xs \<and> P (xs ! i) \<and> (\<forall>j<i. \<not> P (xs ! j))"
proof (induction xs arbitrary: i)
  case (Cons x xs)
  then show ?case
    by (auto split: if_splits simp: nth_Cons less_Suc_eq_0_disj split: nat.split)
qed simp

definition acknowledged_sent :: "sent_state list \<Rightarrow> nat \<Rightarrow> sent_state list" where
  "acknowledged_sent states i =
     map (\<lambda>st. st\<lparr>ss_instruction_end := ss_instruction_end st - ss_instruction_end (states ! i)\<rparr>) (drop i states)"

lemma acknowledged_sent_ok:
  assumes "sent_ok states n" "i < length states"
  shows "sent_ok (acknowledged_sent states i) (n - ss_instruction_end (states ! i))"
    and "ss_instruction_end (states ! i) \<le> n"
    and "\<forall>st\<in>set (drop i states). ss_instruction_end (states ! i) \<le> ss_instruction_end st"
proof -
  let ?e = "ss_instruction_end (states ! i)"
  have sorted: "sorted (map ss_instruction_end (drop i states))"
    using assms(1) by (simp add: sent_ok_def sorted_wrt_drop flip: drop_map)
  have drop: "drop i states = states ! i # drop (Suc i) states"
    using assms(2) by (simp add: Cons_nth_drop_Suc)
  with sorted show ge: "\<forall>st\<in>set (drop i states). ?e \<le> ss_instruction_end st" by simp
  have last: "last (drop i states) = last states" using assms(2) by simp
  have "last (drop i states) \<in> set (drop i states)" using assms(2) by (intro last_in_set) simp
  with ge last assms(1) show "?e \<le> n" by (auto simp: sent_ok_def)
  have "sorted (map (\<lambda>st. ss_instruction_end st - ?e) (drop i states))"
    using sorted by (simp add: sorted_map) (auto elim: sorted_wrt_mono_rel [rotated])
  then show "sent_ok (acknowledged_sent states i) (n - ?e)"
    using assms last drop by (auto simp: sent_ok_def acknowledged_sent_def comp_def hd_map last_map)
qed

lemma process_acknowledgement_known:
  assumes "session_inv s" "position (\<lambda>st. ss_state_id st = a) (cp_sent_states s) = Some i"
  shows "process_acknowledgement a s = Some (s\<lparr>
      cp_local_instructions := drop (ss_instruction_end (cp_sent_states s ! i)) (cp_local_instructions s),
      cp_sent_states := acknowledged_sent (cp_sent_states s) i\<rparr>)"
proof -
  have i: "i < length (cp_sent_states s)" using position_Some [OF assms(2)] by simp
  have ok: "sent_ok (cp_sent_states s) (length (cp_local_instructions s))"
    using assms(1) by (simp add: session_inv_def)
  note ack = acknowledged_sent_ok [OF ok i]
  have "hd (drop i (cp_sent_states s)) = cp_sent_states s ! i" using i by (simp add: hd_drop_conv_nth)
  moreover have "\<not> list_ex (\<lambda>st. ss_instruction_end st < ss_instruction_end (cp_sent_states s ! i))
      (drop i (cp_sent_states s))"
    using ack(3) by (auto simp: list_ex_iff not_less)
  moreover have "acknowledged_sent (cp_sent_states s) i = drop i (cp_sent_states s)"
    if "ss_instruction_end (cp_sent_states s ! i) = 0"
    by (simp add: acknowledged_sent_def that)
  ultimately show ?thesis
    using i ack(2) assms(2)
    by (auto simp: process_acknowledgement_def Let_def acknowledged_sent_def)
qed

lemma process_acknowledgement_inv:
  assumes "session_inv s"
  obtains t where "process_acknowledgement a s = Some t" "session_inv t"
    "\<exists>k states. t = s\<lparr>cp_local_instructions := drop k (cp_local_instructions s), cp_sent_states := states\<rparr>"
proof (cases "position (\<lambda>st. ss_state_id st = a) (cp_sent_states s)")
  case None
  have "s = s\<lparr>cp_local_instructions := drop 0 (cp_local_instructions s), cp_sent_states := cp_sent_states s\<rparr>"
    by simp
  then have "\<exists>k states. s = s\<lparr>cp_local_instructions := drop k (cp_local_instructions s), cp_sent_states := states\<rparr>"
    by blast
  moreover have "process_acknowledgement a s = Some s" using None by (simp add: process_acknowledgement_def)
  ultimately show ?thesis using assms by (intro that [of s])
next
  case (Some i)
  have ok: "sent_ok (cp_sent_states s) (length (cp_local_instructions s))"
    using assms by (simp add: session_inv_def)
  have "i < length (cp_sent_states s)" using position_Some [OF Some] by simp
  from acknowledged_sent_ok(1) [OF ok this]
  have "session_inv (s\<lparr>
      cp_local_instructions := drop (ss_instruction_end (cp_sent_states s ! i)) (cp_local_instructions s),
      cp_sent_states := acknowledged_sent (cp_sent_states s) i\<rparr>)"
    using assms by (simp add: session_inv_def)
  with process_acknowledgement_known [OF assms Some] that show ?thesis by blast
qed

text \<open>Accepting a remote update.\<close>

lemma state_clone_inv: "state_inv t \<Longrightarrow> \<exists>c. state_clone V t = Some c \<and> state_inv c"
  by (simp add: state_clone_ok) (simp add: state_inv_def sizes_consistent_def Let_def)

lemma received_ok_retain:
  assumes "received_ok m floor"
  shows "received_ok (bt_retain (\<lambda>i. max floor d \<le> i) m) (max floor d)"
proof -
  have "length (bt_retain (\<lambda>i. max floor d \<le> i) m) \<le> length m"
    by (simp add: bt_retain_def)
  then show ?thesis
    using assms by (auto simp: received_ok_def bt_get_retain split: if_splits)
qed

lemma received_ok_insert:
  assumes "received_ok m floor" "state_inv t" "floor \<le> i" "length m < MAXIMUM_RECEIVED_STATES"
  shows "received_ok (bt_insert i t m) floor"
  using assms btree.len_put [of m i t]
  by (auto simp: received_ok_def split: if_splits)

definition remote_frame :: "'p client_protocol \<Rightarrow> 'p client_protocol \<Rightarrow> bool" where
  "remote_frame s t \<longleftrightarrow>
     cp_channel t = cp_channel s \<and> cp_local_instructions t = cp_local_instructions s \<and>
     cp_sent_states t = cp_sent_states s \<and> cp_assemblies t = cp_assemblies s \<and>
     cp_replay_window t = cp_replay_window s \<and>
     cp_latest_remote_state s \<le> cp_latest_remote_state t \<and>
     cp_remote_throwaway_floor s \<le> cp_remote_throwaway_floor t"

lemma accept_remote_update_inv:
  assumes "session_inv s"
  shows "\<exists>r t. accept_remote_update L u s = Some (r, t) \<and> session_inv t \<and> remote_frame s t"
proof (cases "bt_get (cp_received_states s) (su_target_state u) \<noteq> None \<or>
    su_base_state u < su_discard_before u \<or> su_target_state u \<le> su_base_state u \<or>
    bt_get (cp_received_states s) (su_base_state u) = None")
  case True
  then show ?thesis
    using assms by (auto simp: accept_remote_update_def Let_def remote_frame_def split: option.split)
next
  case False
  then obtain base where base: "bt_get (cp_received_states s) (su_base_state u) = Some base" by auto
  have rec: "received_ok (cp_received_states s) (cp_remote_throwaway_floor s)"
    using assms by (simp add: session_inv_def)
  with base have "cp_remote_throwaway_floor s \<le> su_base_state u" and "state_inv base"
    by (auto simp: received_ok_def)
  then obtain target where clone: "state_clone (lib_terminal L) base = Some target" "state_inv target"
    using state_clone_inv by blast
  show ?thesis
  proof (cases "decode_instructions (lib_codec L) u")
    case (Inl e)
    with False base clone show ?thesis
      using assms by (auto simp: accept_remote_update_def Let_def remote_frame_def)
  next
    case (Inr batch)
    obtain r target' where app: "state_apply (lib_terminal L) batch target = (r, target')" by fastforce
    with state_apply_inv [OF clone(2), of "lib_terminal L" batch] have inv': "state_inv target'" by simp
    then obtain c where c: "state_clone (lib_terminal L) target' = Some c" "state_inv c"
      using state_clone_inv by blast
    define floor where "floor = max (cp_remote_throwaway_floor s) (su_discard_before u)"
    define m where "m = bt_retain (\<lambda>i. floor \<le> i) (cp_received_states s)"
    have m: "received_ok m floor" unfolding m_def floor_def by (rule received_ok_retain [OF rec])
    have "floor \<le> su_target_state u" using False \<open>cp_remote_throwaway_floor s \<le> su_base_state u\<close>
      by (auto simp: floor_def)
    then have m': "received_ok (bt_insert (su_target_state u) c m) floor"
      if "length m < MAXIMUM_RECEIVED_STATES"
      using received_ok_insert [OF m c(2)] that by simp
    have "floor \<le> su_base_state u"
      using False \<open>cp_remote_throwaway_floor s \<le> su_base_state u\<close> by (auto simp: floor_def)
    then have "bt_get m (su_base_state u) = Some base" "bt_get m (su_target_state u) = None"
      using base False by (simp_all add: m_def bt_get_retain)
    then have "m \<noteq> []" "length (bt_insert (su_target_state u) c m) = Suc (length m)"
      using btree.len_put [of m "su_target_state u" c] m by (auto simp: received_ok_def)
    then have "baseline_ok (bt_insert (su_target_state u) c m) floor"
      by (cases m) (simp_all add: baseline_ok_def)
    moreover have "baseline_ok m floor" if "MAXIMUM_RECEIVED_STATES \<le> length m"
      using that by (simp add: baseline_ok_def MAXIMUM_RECEIVED_STATES_def)
    moreover have "cp_remote_throwaway_floor s \<le> floor" by (simp add: floor_def)
    ultimately show ?thesis
      using False base clone(1) Inr app c(1) m m' inv' assms
      unfolding accept_remote_update_def Let_def floor_def [symmetric]
      by (auto simp: m_def [symmetric] remote_frame_def session_inv_def not_le split: sum.splits)
  qed
qed

text \<open>
  Receiving keeps the invariant, the channel and what was submitted, and moves the replay window
  and the remote state numbers forward only.
\<close>

definition refused_counters :: "'p client_protocol \<Rightarrow> u64 set" where
  "refused_counters s = {c. \<not> fst (replay_accept (cp_replay_window s) c)}"

definition keeps_suffix :: "'a list \<Rightarrow> 'a list \<Rightarrow> bool" where
  "keeps_suffix xs ys \<longleftrightarrow> (\<exists>k. ys = drop k xs)"

definition received_frame :: "'p client_protocol \<Rightarrow> 'p client_protocol \<Rightarrow> bool" where
  "received_frame s t \<longleftrightarrow>
     cp_channel t = cp_channel s \<and> keeps_suffix (cp_local_instructions s) (cp_local_instructions t) \<and>
     cp_replay_window t = cp_replay_window s \<and>
     cp_latest_remote_state s \<le> cp_latest_remote_state t \<and>
     cp_remote_throwaway_floor s \<le> cp_remote_throwaway_floor t"

lemma keeps_suffix_refl [simp]: "keeps_suffix xs xs"
  unfolding keeps_suffix_def by (rule exI [of _ 0]) simp

lemma keeps_suffix_drop [simp]: "keeps_suffix xs (drop k xs)"
  by (auto simp: keeps_suffix_def)

lemma ingest_message_inv:
  assumes "session_inv s"
  shows "\<exists>r t. ingest_message L au h sts ets c s = Some (r, t) \<and> session_inv t \<and> received_frame s t"
proof (cases "decode_compressed_update (lib_codec L) c")
  case (Inl e)
  with assms show ?thesis by (simp add: ingest_message_def received_frame_def)
next
  case (Inr u)
  obtain s1 k states where ack: "process_acknowledgement (su_acknowledged_state u) s = Some s1"
    "session_inv s1" and s1: "s1 = s\<lparr>cp_local_instructions := drop k (cp_local_instructions s), cp_sent_states := states\<rparr>"
    using process_acknowledgement_inv [OF assms] by metis
  obtain r s2 where acc: "accept_remote_update L u s1 = Some (r, s2)" "session_inv s2" "remote_frame s1 s2"
    using accept_remote_update_inv [OF ack(2)] by blast
  have "session_inv (s2\<lparr>cp_remote_capabilities := caps\<rparr>)" for caps
    using acc(2) by (simp add: session_inv_def)
  moreover have "received_frame s s2" "received_frame s (s2\<lparr>cp_remote_capabilities := caps\<rparr>)" for caps
    using acc(3) by (auto simp: received_frame_def remote_frame_def s1)
  ultimately show ?thesis
    using Inr ack(1) acc by (cases r) (auto simp: ingest_message_def Let_def)
qed

lemma ingest_fragment_inv:
  assumes "session_inv s"
  shows "\<exists>r t. ingest_fragment L au sts ets s = Some (r, t) \<and> session_inv t \<and> received_frame s t"
proof (cases "fragment_parse (ap_plaintext au)")
  case (Inl e)
  with assms show ?thesis by (simp add: ingest_fragment_def received_frame_def)
next
  case (Inr f)
  let ?i = "fh_state_id (frag_header f)"
  let ?a = "case bt_get (cp_assemblies s) ?i of
      None \<Rightarrow> accumulator_new ?i MAXIMUM_REASSEMBLED_BYTES | Some a \<Rightarrow> a"
  obtain r a where push: "accumulator_push ?a f = (r, a)" by fastforce
  let ?s1 = "s\<lparr>cp_assemblies := bt_insert ?i a (cp_assemblies s)\<rparr>"
  let ?s2 = "?s1\<lparr>cp_assemblies := bt_remove ?i (cp_assemblies ?s1)\<rparr>"
  show ?thesis
  proof (cases "bt_get (cp_assemblies s) ?i = None \<and> MAXIMUM_ACTIVE_ASSEMBLIES \<le> length (cp_assemblies s)")
    case True
    with Inr assms show ?thesis by (simp add: ingest_fragment_def Let_def received_frame_def)
  next
    case False
    have wf: "bt_wf (cp_assemblies s)" "length (cp_assemblies s) \<le> MAXIMUM_ACTIVE_ASSEMBLIES"
      using assms by (simp_all add: session_inv_def)
    have len: "length (bt_insert ?i a (cp_assemblies s)) \<le> MAXIMUM_ACTIVE_ASSEMBLIES"
      using btree.len_put [OF wf(1), of ?i a] wf(2) False by (auto split: if_splits)
    then have s1: "session_inv ?s1" using assms wf(1) by (simp add: session_inv_def)
    have "length (bt_remove ?i (bt_insert ?i a (cp_assemblies s))) \<le> MAXIMUM_ACTIVE_ASSEMBLIES"
      using len btree.len_del_le [of "bt_insert ?i a (cp_assemblies s)" ?i] wf(1) by simp
    then have s2: "session_inv ?s2" using assms wf(1) by (simp add: session_inv_def)
    have frame: "received_frame s ?s1" by (simp add: received_frame_def)
    show ?thesis
    proof (cases r)
      case (Inl e)
      with Inr False push s1 frame show ?thesis by (auto simp: ingest_fragment_def Let_def)
    next
      case m: (Inr m)
      show ?thesis
      proof (cases m)
        case None
        with Inr m False push s1 frame show ?thesis by (auto simp: ingest_fragment_def Let_def)
      next
        case (Some c)
        obtain r' t where "ingest_message L au (frag_header f) sts ets c ?s2 = Some (r', t)"
          "session_inv t" "received_frame ?s2 t"
          using ingest_message_inv [OF s2] by blast
        moreover from this(3) have "received_frame s t" by (simp add: received_frame_def)
        ultimately show ?thesis
          using Inr m Some False push by (auto simp: ingest_fragment_def Let_def)
      qed
    qed
  qed
qed

lemma window_spec_refused:
  "\<not> window_spec acc c \<Longrightarrow> \<not> window_spec (d # acc) c"
proof -
  assume refused: "\<not> window_spec acc c"
  then have ne: "acc \<noteq> []" and le: "c \<le> Max (set acc)" by (auto simp: window_spec_def not_less)
  define m where "m = Max (set acc)"
  define m' where "m' = Max (set (d # acc))"
  have "m \<le> m'" using ne by (simp add: m_def m'_def)
  then have "unat m \<le> unat m'" by (simp only: word_le_nat_alt)
  moreover have "128 \<le> unat m - unat c \<or> c \<in> set acc"
    using refused by (auto simp: window_spec_def m_def not_less)
  ultimately have "128 \<le> unat m' - unat c \<or> c \<in> set (d # acc)" by auto
  moreover have "\<not> m' < c" using le \<open>m \<le> m'\<close> by (simp add: m_def not_less)
  ultimately show ?thesis
    unfolding window_spec_def m'_def [symmetric] by auto
qed

lemma window_spec_used: "c \<in> set acc \<Longrightarrow> \<not> window_spec acc c"
  by (auto simp: window_spec_def not_less)

lemma replay_accept_refused:
  assumes "window_tracks w acc" "\<not> fst (replay_accept w c)"
  shows "\<not> fst (replay_accept (snd (replay_accept w d)) c)"
  using replay_accept_tracks [OF assms(1), of d] replay_accept_tracks [OF assms(1), of c] assms(2)
    replay_accept_tracks [of "snd (replay_accept w d)" "if window_spec acc d then d # acc else acc" c]
    window_spec_refused [of acc c d]
  by (auto split: if_splits)

lemma replay_accept_used:
  assumes "window_tracks w acc"
  shows "\<not> fst (replay_accept (snd (replay_accept w c)) c)"
proof -
  let ?acc = "if window_spec acc c then c # acc else acc"
  have "window_tracks (snd (replay_accept w c)) ?acc" using replay_accept_tracks [OF assms] by blast
  moreover have "\<not> window_spec ?acc c" using window_spec_used [of c "c # acc"] by auto
  ultimately show ?thesis using replay_accept_tracks by blast
qed

definition session_advances :: "'p client_protocol \<Rightarrow> 'p client_protocol \<Rightarrow> bool" where
  "session_advances s t \<longleftrightarrow>
     cp_latest_remote_state s \<le> cp_latest_remote_state t \<and>
     cp_remote_throwaway_floor s \<le> cp_remote_throwaway_floor t \<and>
     seal_count (cp_channel s) \<le> seal_count (cp_channel t) \<and>
     refused_counters s \<subseteq> refused_counters t"

lemma session_inv_window:
  assumes "session_inv s"
  shows "session_inv (s\<lparr>cp_replay_window := snd (replay_accept (cp_replay_window s) c)\<rparr>)"
proof -
  obtain acc where "window_tracks (cp_replay_window s) acc" using assms by (auto simp: session_inv_def)
  from replay_accept_tracks [OF this, of c]
  have "\<exists>acc. window_tracks (snd (replay_accept (cp_replay_window s) c)) acc" by blast
  with assms show ?thesis by (simp add: session_inv_def)
qed

lemma refused_window:
  assumes "session_inv s"
  shows "refused_counters s \<subseteq> refused_counters (s\<lparr>cp_replay_window := snd (replay_accept (cp_replay_window s) c)\<rparr>)"
    and "c \<in> refused_counters (s\<lparr>cp_replay_window := snd (replay_accept (cp_replay_window s) c)\<rparr>)"
proof -
  obtain acc where "window_tracks (cp_replay_window s) acc" using assms by (auto simp: session_inv_def)
  then show "refused_counters s \<subseteq> refused_counters (s\<lparr>cp_replay_window := snd (replay_accept (cp_replay_window s) c)\<rparr>)"
    "c \<in> refused_counters (s\<lparr>cp_replay_window := snd (replay_accept (cp_replay_window s) c)\<rparr>)"
    by (auto simp: refused_counters_def replay_accept_refused replay_accept_used)
qed

lemma ingest_packet_inv:
  assumes "session_inv s"
  shows "\<exists>r t. ingest_packet L packet s = Some (r, t) \<and> session_inv t \<and> session_advances s t \<and>
    keeps_suffix (cp_local_instructions s) (cp_local_instructions t) \<and>
    (\<forall>au. secure_channel_open (lib_aead L) (cp_channel s) packet = Inr au \<longrightarrow>
       ap_counter au \<in> refused_counters t)"
proof (cases "secure_channel_open (lib_aead L) (cp_channel s) packet")
  case (Inl e)
  with assms show ?thesis by (simp add: ingest_packet_def session_advances_def)
next
  case (Inr au)
  let ?c = "ap_counter au"
  define s1 where "s1 = s\<lparr>cp_replay_window := snd (replay_accept (cp_replay_window s) ?c)\<rparr>"
  have s1: "session_inv s1" "refused_counters s \<subseteq> refused_counters s1" "?c \<in> refused_counters s1"
    unfolding s1_def using session_inv_window [OF assms] refused_window [OF assms] by blast+
  define s2 where "s2 ts = s1\<lparr>cp_latest_peer_timestamp := Some ts\<rparr>" for ts
  have s2: "session_inv (s2 ts)" "refused_counters (s2 ts) = refused_counters s1" for ts
    using s1(1) by (simp_all add: s2_def session_inv_def refused_counters_def)
  have adv: "session_advances s t \<and> keeps_suffix (cp_local_instructions s) (cp_local_instructions t) \<and>
      ?c \<in> refused_counters t" if "received_frame (s2 ts) t" for ts t
    using that s1(2,3) by (auto simp: session_advances_def received_frame_def s2_def s1_def refused_counters_def)
  have adv1: "session_advances s s1" "session_advances s (s2 ts)" for ts
    using s1(2) s2(2) [of ts] by (auto simp: session_advances_def s2_def s1_def)
  have keep: "cp_local_instructions s1 = cp_local_instructions s"
    "cp_local_instructions (s2 ts) = cp_local_instructions s" for ts
    by (simp_all add: s2_def s1_def)
  obtain ok w where acc: "replay_accept (cp_replay_window s) ?c = (ok, w)" by fastforce
  then have w: "s\<lparr>cp_replay_window := w\<rparr> = s1" by (simp add: s1_def)
  let ?plain = "ap_plaintext au"
  show ?thesis
  proof (cases "ok \<and> TIMESTAMP_HEADER_BYTES \<le> length ?plain \<and>
      MINIMUM_FRAGMENT_PLAINTEXT_BYTES \<le> length ?plain")
    case True
    let ?hdr = "take TIMESTAMP_HEADER_BYTES ?plain"
    let ?sts = "of_be_bytes (take 2 ?hdr) :: u16" and ?ets = "of_be_bytes (drop 2 ?hdr) :: u16"
    obtain r t where t: "ingest_fragment L au ?sts ?ets (s2 ?sts) = Some (r, t)"
      "session_inv t" "received_frame (s2 ?sts) t"
      using ingest_fragment_inv [OF s2(1)] by blast
    have "ingest_packet L packet s = Some (r, t)"
      using True t(1) by (simp add: ingest_packet_def Inr acc w get_prefix_def Let_def s2_def)
    with t adv show ?thesis using Inr by auto
  next
    case False
    then show ?thesis
      using Inr acc w s1 s2 adv1 keep
      by (auto simp: ingest_packet_def get_prefix_def Let_def s2_def [symmetric])
  qed
qed

lemma set_initial_remote_viewport_inv:
  assumes "session_inv s"
  shows "\<exists>t. set_initial_remote_viewport L c r s = Some t \<and> session_inv t \<and>
    cp_channel t = cp_channel s \<and> cp_local_instructions t = cp_local_instructions s \<and>
    cp_replay_window t = cp_replay_window s \<and> cp_latest_remote_state t = cp_latest_remote_state s \<and>
    cp_remote_throwaway_floor t = cp_remote_throwaway_floor s"
proof (cases "cp_latest_remote_state s \<noteq> 0 \<or> length (cp_received_states s) \<noteq> 1 \<or>
    \<not> is_ok (state_new (lib_terminal L) (max c 1) (max r 1))")
  case True
  with assms show ?thesis
    by (auto simp: set_initial_remote_viewport_def is_ok_def split: sum.splits)
next
  case False
  then obtain i where i: "state_new (lib_terminal L) (max c 1) (max r 1) = Inr i"
    by (auto simp: is_ok_def split: sum.splits)
  have inv: "state_inv i" by (rule state_new_inv [OF i])
  then obtain k where k: "state_clone (lib_terminal L) i = Some k" "state_inv k"
    using state_clone_inv by blast
  have floor: "cp_remote_throwaway_floor s = 0" and "length (cp_received_states s) = 1"
    using assms False by (auto simp: session_inv_def baseline_ok_def)
  then have "received_ok (bt_insert 0 k (cp_received_states s)) 0"
    using received_ok_insert [of "cp_received_states s" 0 k 0] k(2) assms
    by (simp add: session_inv_def MAXIMUM_RECEIVED_STATES_def)
  then show ?thesis
    using False i k(1) inv floor assms
    by (simp add: set_initial_remote_viewport_def session_inv_def baseline_ok_def)
qed

lemma client_new_inv: "\<exists>s. client_new L key = Some s \<and> session_inv s"
proof -
  have "validate_viewport (ucast (80 :: u16)) (ucast (24 :: u16)) = Inr ()"
    by (simp add: validate_viewport_def u16_of_u64_def u16_try_from_def)
  then obtain i where i: "state_new (lib_terminal L) 80 24 = Inr i"
    by (simp add: state_new_def)
  have inv: "state_inv i" by (rule state_new_inv [OF i])
  then obtain k where k: "state_clone (lib_terminal L) i = Some k" "state_inv k"
    using state_clone_inv by blast
  show ?thesis
    using i k inv
    by (auto simp: client_new_def session_inv_def sent_ok_def MAXIMUM_SENT_STATES_def received_ok_def
        MAXIMUM_RECEIVED_STATES_def MAXIMUM_ACTIVE_ASSEMBLIES_def baseline_ok_def
        intro!: exI [of _ "[]"] simp: window_tracks_def replay_default_def split: if_splits)
qed

section \<open>Runs of the client\<close>

datatype client_event =
    BuildAcknowledgement u16
  | BuildUpdate u16 instruction_batch
  | BuildShutdown u16 instruction_batch
  | BuildShutdownAck u16
  | Retransmit u16
  | Packet bytes
  | LocalCapabilities bytes
  | InitialViewport u16 u16

text \<open>One call on the client and whether it succeeded; \<open>None\<close> is a panic.\<close>

fun client_call :: "('p, 'q) protocol_libs \<Rightarrow> client_event \<Rightarrow> 'p client_protocol \<Rightarrow> (bool \<times> 'p client_protocol) option" where
  "client_call L (BuildAcknowledgement ts) s =
     Some (case build_acknowledgement L ts s of (r, t) \<Rightarrow> (is_ok r, t))"
| "client_call L (BuildUpdate ts batch) s =
     Some (case build_update L ts batch s of (r, t) \<Rightarrow> (is_ok r, t))"
| "client_call L (BuildShutdown ts batch) s =
     Some (case build_shutdown L ts batch s of (r, t) \<Rightarrow> (is_ok r, t))"
| "client_call L (BuildShutdownAck ts) s =
     Some (case build_shutdown_ack L ts s of (r, t) \<Rightarrow> (is_ok r, t))"
| "client_call L (Retransmit ts) s =
     map_option (\<lambda>(r, t). (is_ok r, t)) (retransmit_pending L ts s)"
| "client_call L (Packet packet) s =
     map_option (\<lambda>(r, t). (is_ok r, t)) (ingest_packet L packet s)"
| "client_call L (LocalCapabilities capabilities) s = Some (True, set_local_capabilities capabilities s)"
| "client_call L (InitialViewport columns rows) s =
     map_option (\<lambda>t. (True, t)) (set_initial_remote_viewport L columns rows s)"

definition client_step :: "('p, 'q) protocol_libs \<Rightarrow> 'p client_protocol \<Rightarrow> client_event \<Rightarrow> 'p client_protocol" where
  "client_step L s e = (case client_call L e s of None \<Rightarrow> s | Some (_, t) \<Rightarrow> t)"

lemma session_advances_refl: "session_advances s s"
  by (simp add: session_advances_def)

lemma session_advances_frame:
  assumes "cp_latest_remote_state t = cp_latest_remote_state s"
    and "cp_remote_throwaway_floor t = cp_remote_throwaway_floor s"
    and "seal_count (cp_channel s) \<le> seal_count (cp_channel t)"
    and "cp_replay_window t = cp_replay_window s"
  shows "session_advances s t"
  using assms by (simp add: session_advances_def refused_counters_def)

lemma send_update_advances:
  assumes "session_inv s"
  shows "session_advances s (snd (send_update L u ts sid s))"
    and "cp_local_instructions (snd (send_update L u ts sid s)) = cp_local_instructions s"
proof -
  have "channel_ok (cp_channel s)" using assms by (simp add: session_inv_def)
  with send_update_frame [of L u ts sid s] obtain ch where
    "snd (send_update L u ts sid s) = s\<lparr>cp_channel := ch\<rparr>" "seal_count (cp_channel s) \<le> seal_count ch" by blast
  then show "session_advances s (snd (send_update L u ts sid s))"
    "cp_local_instructions (snd (send_update L u ts sid s)) = cp_local_instructions s"
    by (auto intro: session_advances_frame)
qed

lemma build_state_update_advances:
  assumes "session_inv s"
  shows "session_advances s (snd (build_state_update L ts batch target s))"
  by (cases rule: build_state_update_cases [OF assms, of L ts batch target])
     (auto intro: session_advances_frame)

text \<open>What a successful call submits for delivery to the peer.\<close>

fun submitted_by :: "client_event \<Rightarrow> instruction list" where
  "submitted_by (BuildUpdate _ batch) = batch_instructions batch"
| "submitted_by (BuildShutdown _ batch) = batch_instructions batch"
| "submitted_by _ = []"

lemma build_state_update_local:
  assumes "session_inv s"
  shows "cp_local_instructions (snd (build_state_update L ts batch target s)) =
    cp_local_instructions s @ (if is_ok (fst (build_state_update L ts batch target s))
      then batch_instructions batch else [])"
  by (cases rule: build_state_update_cases [OF assms, of L ts batch target]) auto

lemma build_update_local:
  assumes "session_inv s"
  shows "cp_local_instructions (snd (build_update L ts batch s)) =
    cp_local_instructions s @ (if is_ok (fst (build_update L ts batch s)) then batch_instructions batch else [])"
  using build_state_update_local [OF assms, of L ts batch "cp_next_local_state s"]
  by (auto simp: build_update_def Let_def split: prod.splits sum.splits)

lemma build_update_advances: "session_inv s \<Longrightarrow> session_advances s (snd (build_update L ts batch s))"
  using build_state_update_advances [of s L ts batch "cp_next_local_state s"]
  by (auto simp: build_update_snd Let_def session_advances_def refused_counters_def split: prod.splits)

lemma client_call_ok:
  assumes "session_inv s"
  shows "\<exists>ok t. client_call L e s = Some (ok, t) \<and> session_inv t \<and> session_advances s t \<and>
    keeps_suffix (cp_local_instructions s @ (if ok then submitted_by e else [])) (cp_local_instructions t)"
proof (cases e)
  case (BuildAcknowledgement ts)
  have "session_advances s (snd (build_acknowledgement L ts s))"
    "cp_local_instructions (snd (build_acknowledgement L ts s)) = cp_local_instructions s"
    using sent_ne [OF assms]
    by (simp_all add: build_acknowledgement_def Let_def send_update_advances [OF assms])
  moreover obtain r t where "build_acknowledgement L ts s = (r, t)" by fastforce
  ultimately show ?thesis
    using BuildAcknowledgement build_acknowledgement_inv [OF assms, of L ts] by simp
next
  case (BuildUpdate ts batch)
  obtain r t where "build_update L ts batch s = (r, t)" by fastforce
  with BuildUpdate build_update_inv [OF assms, of L ts batch]
    build_update_advances [OF assms, of L ts batch] build_update_local [OF assms, of L ts batch]
  show ?thesis by simp
next
  case (BuildShutdown ts batch)
  obtain r t where "build_shutdown L ts batch s = (r, t)" by fastforce
  with BuildShutdown build_shutdown_inv [OF assms, of L ts batch]
    build_state_update_advances [OF assms, of L ts batch "- 1"]
    build_state_update_local [OF assms, of L ts batch "- 1"] show ?thesis
    by (cases "local_shutdown_sent s") (auto simp: build_shutdown_def session_advances_refl)
next
  case (BuildShutdownAck ts)
  have "session_advances s (snd (build_shutdown_ack L ts s))"
    "cp_local_instructions (snd (build_shutdown_ack L ts s)) = cp_local_instructions s"
    by (simp_all add: build_shutdown_ack_def Let_def send_update_advances [OF assms] session_advances_refl)
  moreover obtain r t where "build_shutdown_ack L ts s = (r, t)" by fastforce
  ultimately show ?thesis
    using BuildShutdownAck build_shutdown_ack_inv [OF assms, of L ts] by simp
next
  case (Retransmit ts)
  obtain r t ch where t: "retransmit_pending L ts s = Some (r, t)" "session_inv t" "t = s\<lparr>cp_channel := ch\<rparr>"
    "seal_count (cp_channel s) \<le> seal_count ch"
    using retransmit_pending_inv [OF assms, of L ts] by blast
  then have "session_advances s t" by (intro session_advances_frame) simp_all
  with t Retransmit show ?thesis by simp
next
  case (Packet packet)
  obtain r t where "ingest_packet L packet s = Some (r, t)" "session_inv t" "session_advances s t"
    "keeps_suffix (cp_local_instructions s) (cp_local_instructions t)"
    using ingest_packet_inv [OF assms, of L packet] by blast
  with Packet show ?thesis by simp
next
  case (LocalCapabilities capabilities)
  have "session_advances s (set_local_capabilities capabilities s)"
    by (rule session_advances_frame) (simp_all add: set_local_capabilities_def)
  moreover have "session_inv (set_local_capabilities capabilities s)"
    using assms by (simp add: set_local_capabilities_def session_inv_def)
  ultimately show ?thesis using LocalCapabilities by (auto simp: set_local_capabilities_def)
next
  case (InitialViewport c r)
  obtain t where t: "set_initial_remote_viewport L c r s = Some t" "session_inv t"
    "cp_channel t = cp_channel s" "cp_local_instructions t = cp_local_instructions s"
    "cp_replay_window t = cp_replay_window s" "cp_latest_remote_state t = cp_latest_remote_state s"
    "cp_remote_throwaway_floor t = cp_remote_throwaway_floor s"
    using set_initial_remote_viewport_inv [OF assms, of L c r] by blast
  then have "session_advances s t" by (intro session_advances_frame) simp_all
  with t InitialViewport show ?thesis by auto
qed

lemma client_step_ok: "session_inv s \<Longrightarrow> session_inv (client_step L s e) \<and> session_advances s (client_step L s e)"
  using client_call_ok [of s L e] by (auto simp: client_step_def)

definition session_rank :: "'p client_protocol \<Rightarrow> (u64 \<times> u64) \<times> nat \<times> u64 set" where
  "session_rank s = ((cp_latest_remote_state s, cp_remote_throwaway_floor s),
     seal_count (cp_channel s), refused_counters s)"

interpretation client: monotone_machine "client_step L" session_inv session_rank for L
proof unfold_locales
  fix s :: "'a client_protocol" and e
  assume inv: "session_inv s"
  from client_step_ok [OF inv, of L e] show "session_inv (client_step L s e)" by blast
  from client_step_ok [OF inv, of L e] show "session_rank s \<le> session_rank (client_step L s e)"
    by (simp add: session_rank_def session_advances_def)
qed

lemma session_rank_le: "session_rank s \<le> session_rank t \<longleftrightarrow> session_advances s t"
  by (simp add: session_rank_def session_advances_def)

lemma client_run_inv:
  assumes "client_new L key = Some s0" "s = foldl (client_step L) s0 events"
  shows "session_inv s"
proof -
  have "session_inv s0" using client_new_inv [of L key] assms(1) by simp
  then show ?thesis unfolding assms(2) by (rule client.run_inv)
qed

text \<open>
  Property C1: no sequence of calls and received packets makes the client panic. From a new client,
  after any calls with any arguments and any packets (authentic or not, well-formed or not), every
  further call returns: no slice of the retained instructions is out of range, no subtraction of
  instruction positions underflows, and no clone of a stored terminal fails. The retained history
  stays within its bounds: 32 sent states, 1024 received states and 64 partial assemblies.
\<close>

theorem client_never_panics:
  assumes "client_new L key = Some s0" "s = foldl (client_step L) s0 events"
  shows "client_call L e s \<noteq> None \<and>
    length (cp_sent_states s) \<in> {1..MAXIMUM_SENT_STATES} \<and>
    length (cp_received_states s) \<le> MAXIMUM_RECEIVED_STATES \<and>
    length (cp_assemblies s) \<le> MAXIMUM_ACTIVE_ASSEMBLIES"
proof -
  have inv: "session_inv s" by (rule client_run_inv [OF assms])
  then have "1 \<le> length (cp_sent_states s)" using sent_ne [OF inv] by (simp add: Suc_le_eq)
  with inv client_call_ok [OF inv, of L e] show ?thesis
    by (auto simp: session_inv_def sent_ok_def received_ok_def)
qed

text \<open>
  The synchronisation state only moves forward. Over any further calls and packets the
  latest remote state number and the throwaway floor never decrease, the packet counter never goes
  back (so no nonce is reused), and a counter that the replay window refuses stays refused.
\<close>

theorem client_only_advances:
  assumes "client_new L key = Some s0" "s = foldl (client_step L) s0 events"
    and "t = foldl (client_step L) s later"
  shows "cp_latest_remote_state s \<le> cp_latest_remote_state t \<and>
    cp_remote_throwaway_floor s \<le> cp_remote_throwaway_floor t \<and>
    seal_count (cp_channel s) \<le> seal_count (cp_channel t) \<and>
    {c. \<not> fst (replay_accept (cp_replay_window s) c)} \<subseteq> {c. \<not> fst (replay_accept (cp_replay_window t) c)}"
proof -
  have "session_rank s \<le> session_rank t"
    unfolding assms(3) by (rule client.run_mono [OF client_run_inv [OF assms(1,2)]])
  then show ?thesis
    unfolding session_rank_le session_advances_def refused_counters_def by blast
qed

text \<open>
  Property C3: a packet takes effect at most once. After a packet with counter \<open>c\<close> was opened and
  processed, and after any later calls and packets, every packet that opens with the same counter
  (a copy, however long delayed) is refused as a replay and changes nothing.
\<close>

theorem replayed_packet_refused:
  assumes "client_new L key = Some s0" "s = foldl (client_step L) s0 events"
    and "secure_channel_open (lib_aead L) (cp_channel s) packet = Inr au"
    and "t = foldl (client_step L) (client_step L s (Packet packet)) later"
    and "secure_channel_open (lib_aead L) (cp_channel t) copy = Inr au'"
    and "ap_counter au' = ap_counter au"
  shows "ingest_packet L copy t = Some (Inl ReplayDetected, t)"
proof -
  let ?s1 = "client_step L s (Packet packet)"
  have inv: "session_inv s" by (rule client_run_inv [OF assms(1,2)])
  then obtain r u where u: "ingest_packet L packet s = Some (r, u)" "ap_counter au \<in> refused_counters u"
    using ingest_packet_inv [OF inv, of L packet] assms(3) by blast
  then have s1: "?s1 = u" by (simp add: client_step_def)
  have "session_inv ?s1" using client_step_ok [OF inv] by blast
  then have "session_rank ?s1 \<le> session_rank t"
    unfolding assms(4) by (rule client.run_mono)
  then have "refused_counters u \<subseteq> refused_counters t"
    unfolding session_rank_le s1 session_advances_def by blast
  with u(2) have refused: "\<not> fst (replay_accept (cp_replay_window t) (ap_counter au))"
    by (auto simp: refused_counters_def)
  moreover have "snd (replay_accept w c) = w" if "\<not> fst (replay_accept w c)" for w c
    using that by (auto simp: replay_accept_def Let_def split: option.splits if_splits)
  ultimately have "replay_accept (cp_replay_window t) (ap_counter au') = (False, cp_replay_window t)"
    using assms(6) by (metis prod.collapse)
  then show ?thesis by (simp add: ingest_packet_def assms(5))
qed

section \<open>Delivery of local input\<close>

text \<open>Everything a run of calls submitted, in order.\<close>

fun submitted :: "('p, 'q) protocol_libs \<Rightarrow> 'p client_protocol \<Rightarrow> client_event list \<Rightarrow> instruction list" where
  "submitted L s [] = []"
| "submitted L s (e # es) =
     (case client_call L e s of
        None \<Rightarrow> []
      | Some (ok, t) \<Rightarrow> (if ok then submitted_by e else []) @ submitted L t es)"

text \<open>What a client retains for delivery, and the effect of an acknowledgement on it.\<close>

definition retained :: "'p client_protocol \<Rightarrow> sent_state list \<times> instruction list" where
  "retained s = (cp_sent_states s, cp_local_instructions s)"

definition retained_after :: "u64 \<Rightarrow> sent_state list \<times> instruction list \<Rightarrow> sent_state list \<times> instruction list" where
  "retained_after a = (\<lambda>(states, instructions).
     case position (\<lambda>st. ss_state_id st = a) states of
       None \<Rightarrow> (states, instructions)
     | Some i \<Rightarrow> (acknowledged_sent states i, drop (ss_instruction_end (states ! i)) instructions))"

text \<open>The state that a packet acknowledges, when it is authentic, fresh, and completes an update.\<close>

definition acknowledgement_of :: "('p, 'q) protocol_libs \<Rightarrow> bytes \<Rightarrow> 'p client_protocol \<Rightarrow> u64 option" where
  "acknowledgement_of L packet s =
     (case secure_channel_open (lib_aead L) (cp_channel s) packet of
        Inl _ \<Rightarrow> None
      | Inr au \<Rightarrow>
          if \<not> fst (replay_accept (cp_replay_window s) (ap_counter au)) \<or>
             length (ap_plaintext au) < MINIMUM_FRAGMENT_PLAINTEXT_BYTES then None
          else (case fragment_parse (ap_plaintext au) of
              Inl _ \<Rightarrow> None
            | Inr f \<Rightarrow>
                let i = fh_state_id (frag_header f) in
                if bt_get (cp_assemblies s) i = None \<and> MAXIMUM_ACTIVE_ASSEMBLIES \<le> length (cp_assemblies s) then None
                else (case fst (accumulator_push (case bt_get (cp_assemblies s) i of
                          None \<Rightarrow> accumulator_new i MAXIMUM_REASSEMBLED_BYTES | Some a \<Rightarrow> a) f) of
                    Inr (Some compressed) \<Rightarrow>
                      (case decode_compressed_update (lib_codec L) compressed of
                         Inl _ \<Rightarrow> None | Inr u \<Rightarrow> Some (su_acknowledged_state u))
                  | _ \<Rightarrow> None)))"

lemma process_acknowledgement_retained:
  assumes "session_inv s"
  obtains t where "process_acknowledgement a s = Some t" "session_inv t" "retained t = retained_after a (retained s)"
proof (cases "position (\<lambda>st. ss_state_id st = a) (cp_sent_states s)")
  case None
  then show ?thesis using assms that [of s]
    by (simp add: process_acknowledgement_def retained_after_def retained_def)
next
  case (Some i)
  obtain t where "process_acknowledgement a s = Some t" "session_inv t"
    using process_acknowledgement_inv [OF assms] by metis
  with process_acknowledgement_known [OF assms Some] Some that [of t] show ?thesis
    by (simp add: retained_after_def retained_def)
qed

lemma ingest_message_retained:
  assumes "session_inv s" "ingest_message L au h sts ets c s = Some (r, t)"
  shows "retained t = (case decode_compressed_update (lib_codec L) c of
    Inl _ \<Rightarrow> retained s | Inr u \<Rightarrow> retained_after (su_acknowledged_state u) (retained s))"
proof (cases "decode_compressed_update (lib_codec L) c")
  case (Inr u)
  obtain s1 where s1: "process_acknowledgement (su_acknowledged_state u) s = Some s1" "session_inv s1"
    "retained s1 = retained_after (su_acknowledged_state u) (retained s)"
    using process_acknowledgement_retained [OF assms(1)] by blast
  obtain q s2 where s2: "accept_remote_update L u s1 = Some (q, s2)" "remote_frame s1 s2"
    using accept_remote_update_inv [OF s1(2)] by blast
  have "retained s2 = retained s1" using s2(2) by (simp add: remote_frame_def retained_def)
  then show ?thesis using assms(2) Inr s1 s2(1)
    by (auto simp: ingest_message_def Let_def retained_def split: sum.splits)
qed (use assms in \<open>simp add: ingest_message_def\<close>)

lemma retained_simps [simp]:
  "retained (s\<lparr>cp_assemblies := x\<rparr>) = retained s" "retained (s\<lparr>cp_replay_window := w\<rparr>) = retained s"
  "retained (s\<lparr>cp_latest_peer_timestamp := ts\<rparr>) = retained s" "retained (s\<lparr>cp_channel := ch\<rparr>) = retained s"
  by (simp_all add: retained_def)

lemma session_inv_assemblies:
  assumes "session_inv s" "bt_get (cp_assemblies s) i \<noteq> None \<or> length (cp_assemblies s) < MAXIMUM_ACTIVE_ASSEMBLIES"
  shows "session_inv (s\<lparr>cp_assemblies := bt_remove i (bt_insert i a (cp_assemblies s))\<rparr>)"
proof -
  have wf: "bt_wf (cp_assemblies s)" "length (cp_assemblies s) \<le> MAXIMUM_ACTIVE_ASSEMBLIES"
    using assms(1) by (simp_all add: session_inv_def)
  have "length (bt_insert i a (cp_assemblies s)) \<le> MAXIMUM_ACTIVE_ASSEMBLIES"
    using btree.len_put [OF wf(1), of i a] wf(2) assms(2) by (auto split: if_splits)
  then have "length (bt_remove i (bt_insert i a (cp_assemblies s))) \<le> MAXIMUM_ACTIVE_ASSEMBLIES"
    using btree.len_del_le [of "bt_insert i a (cp_assemblies s)" i] wf(1) by simp
  then show ?thesis using assms(1) wf(1) by (simp add: session_inv_def)
qed

lemma ingest_packet_retained:
  assumes "session_inv s" "ingest_packet L packet s = Some (r, t)"
  shows "retained t = (case acknowledgement_of L packet s of
    None \<Rightarrow> retained s | Some a \<Rightarrow> retained_after a (retained s))"
proof (cases "secure_channel_open (lib_aead L) (cp_channel s) packet")
  case (Inl e)
  then show ?thesis using assms(2) by (auto simp: ingest_packet_def acknowledgement_of_def)
next
  case (Inr au)
  let ?plain = "ap_plaintext au"
  obtain ok w where acc: "replay_accept (cp_replay_window s) (ap_counter au) = (ok, w)" by fastforce
  show ?thesis
  proof (cases "ok \<and> MINIMUM_FRAGMENT_PLAINTEXT_BYTES \<le> length ?plain")
    case False
    then show ?thesis using assms(2) Inr acc
      by (auto simp: ingest_packet_def acknowledgement_of_def Let_def get_prefix_def split: if_splits)
  next
    case True
    let ?ts = "of_be_bytes (take 2 (take TIMESTAMP_HEADER_BYTES ?plain)) :: u16"
    let ?es = "of_be_bytes (drop 2 (take TIMESTAMP_HEADER_BYTES ?plain)) :: u16"
    define s2 where "s2 = s\<lparr>cp_replay_window := w, cp_latest_peer_timestamp := Some ?ts\<rparr>"
    have "session_inv (s\<lparr>cp_replay_window := w\<rparr>)"
      using session_inv_window [OF assms(1), of "ap_counter au"] acc by simp
    then have inv: "session_inv s2" by (simp add: s2_def session_inv_def)
    have "TIMESTAMP_HEADER_BYTES \<le> length ?plain"
      using True by (simp add: TIMESTAMP_HEADER_BYTES_def MINIMUM_FRAGMENT_PLAINTEXT_BYTES_def)
    then have run: "ingest_fragment L au ?ts ?es s2 = Some (r, t)"
      using assms(2) True Inr acc by (simp add: ingest_packet_def Let_def get_prefix_def s2_def)
    have kept: "retained s2 = retained s" "cp_assemblies s2 = cp_assemblies s" by (simp_all add: s2_def)
    show ?thesis
    proof (cases "fragment_parse ?plain")
      case (Inl e)
      then show ?thesis using run True \<open>secure_channel_open _ _ _ = Inr au\<close> acc kept
        by (auto simp: ingest_fragment_def acknowledgement_of_def)
    next
      case f: (Inr f)
      let ?i = "fh_state_id (frag_header f)"
      let ?a = "case bt_get (cp_assemblies s) ?i of
          None \<Rightarrow> accumulator_new ?i MAXIMUM_REASSEMBLED_BYTES | Some a \<Rightarrow> a"
      obtain q a where push: "accumulator_push ?a f = (q, a)" by fastforce
      show ?thesis
      proof (cases "bt_get (cp_assemblies s) ?i = None \<and> MAXIMUM_ACTIVE_ASSEMBLIES \<le> length (cp_assemblies s)")
        case full: True
        then show ?thesis using run f True Inr acc kept
          by (auto simp: ingest_fragment_def acknowledgement_of_def Let_def)
      next
        case room: False
        have inv': "session_inv (s2\<lparr>cp_assemblies := bt_remove ?i (bt_insert ?i a (cp_assemblies s2))\<rparr>)"
          using session_inv_assemblies [OF inv, of ?i a] room kept(2) by (auto simp: not_le)
        have ack: "acknowledgement_of L packet s = (case q of
            Inr (Some compressed) \<Rightarrow> (case decode_compressed_update (lib_codec L) compressed of
               Inl _ \<Rightarrow> None | Inr u \<Rightarrow> Some (su_acknowledged_state u)) | _ \<Rightarrow> None)"
          using room f True Inr acc push by (auto simp: acknowledgement_of_def Let_def)
        show ?thesis
        proof (cases "\<exists>c. q = Inr (Some c)")
          case False
          then show ?thesis using run f room kept push ack
            by (auto simp: ingest_fragment_def Let_def split: sum.splits option.splits)
        next
          case True
          then obtain c where c: "q = Inr (Some c)" by blast
          have "ingest_message L au (frag_header f) ?ts ?es c
              (s2\<lparr>cp_assemblies := bt_remove ?i (bt_insert ?i a (cp_assemblies s2))\<rparr>) = Some (r, t)"
            using run f room kept push c by (simp add: ingest_fragment_def Let_def split: if_splits)
          from ingest_message_retained [OF inv' this] show ?thesis
            using ack c kept by (auto split: sum.splits)
        qed
      qed
    qed
  qed
qed


lemma position_absent: "position P xs = None \<longleftrightarrow> (\<forall>x \<in> set xs. \<not> P x)"
  by (induction xs) auto

text \<open>The state a call sends: the next number, or the number of a shutdown.\<close>

fun state_sent :: "('p, 'q) protocol_libs \<Rightarrow> client_event \<Rightarrow> 'p client_protocol \<Rightarrow> u64 option" where
  "state_sent L (BuildUpdate ts batch) s =
     (if is_ok (fst (build_update L ts batch s)) then Some (cp_next_local_state s) else None)"
| "state_sent L (BuildShutdown ts batch) s =
     (if is_ok (fst (build_shutdown L ts batch s)) then Some (- 1) else None)"
| "state_sent L e s = None"

definition retained_sent :: "u64 \<Rightarrow> instruction list \<Rightarrow> sent_state list \<times> instruction list \<Rightarrow> sent_state list \<times> instruction list" where
  "retained_sent a new = (\<lambda>(states, instructions).
     (limit_sent_states (states @ [\<lparr>ss_state_id = a, ss_instruction_end = length (instructions @ new)\<rparr>]),
      instructions @ new))"

lemma build_state_update_retained:
  assumes "session_inv s"
  shows "retained (snd (build_state_update L ts batch target s)) =
    (if is_ok (fst (build_state_update L ts batch target s))
     then retained_sent target (batch_instructions batch) (retained s) else retained s)"
  by (cases rule: build_state_update_cases [OF assms, of L ts batch target])
     (auto simp: retained_def retained_sent_def)

lemma build_update_retained:
  assumes "session_inv s"
  shows "retained (snd (build_update L ts batch s)) =
    (if is_ok (fst (build_update L ts batch s))
     then retained_sent (cp_next_local_state s) (batch_instructions batch) (retained s) else retained s)"
  using build_state_update_retained [OF assms, of L ts batch "cp_next_local_state s"]
  by (auto simp: build_update_def Let_def retained_def split: prod.splits sum.splits)

lemma send_update_retained:
  assumes "session_inv s"
  shows "retained (snd (send_update L u ts sid s)) = retained s"
proof -
  have "channel_ok (cp_channel s)" using assms by (simp add: session_inv_def)
  with send_update_frame [of L u ts sid s] obtain ch where "snd (send_update L u ts sid s) = s\<lparr>cp_channel := ch\<rparr>" by blast
  then show ?thesis by simp
qed

lemma client_call_retained:
  assumes "session_inv s" "client_call L e s = Some (ok, t)"
  shows "retained t = (case e of
      Packet p \<Rightarrow> (case acknowledgement_of L p s of None \<Rightarrow> retained s | Some a \<Rightarrow> retained_after a (retained s))
    | _ \<Rightarrow> (case state_sent L e s of None \<Rightarrow> retained s | Some a \<Rightarrow> retained_sent a (submitted_by e) (retained s)))"
    and "(\<forall>p. e \<noteq> Packet p) \<Longrightarrow> ok \<and> submitted_by e \<noteq> [] \<Longrightarrow> state_sent L e s \<noteq> None"
    and "state_sent L e s \<noteq> None \<Longrightarrow> ok"
proof -
  show "retained t = (case e of
      Packet p \<Rightarrow> (case acknowledgement_of L p s of None \<Rightarrow> retained s | Some a \<Rightarrow> retained_after a (retained s))
    | _ \<Rightarrow> (case state_sent L e s of None \<Rightarrow> retained s | Some a \<Rightarrow> retained_sent a (submitted_by e) (retained s)))"
  proof (cases e)
    case (BuildAcknowledgement ts)
    have "retained (snd (build_acknowledgement L ts s)) = retained s"
      using sent_ne [OF assms(1)] by (simp add: build_acknowledgement_def Let_def send_update_retained [OF assms(1)])
    then show ?thesis using assms(2) BuildAcknowledgement by (auto split: prod.splits)
  next
    case (BuildUpdate ts batch)
    then show ?thesis using assms(2) build_update_retained [OF assms(1), of L ts batch] by (auto split: prod.splits)
  next
    case (BuildShutdown ts batch)
    then show ?thesis using assms(2) build_state_update_retained [OF assms(1), of L ts batch "- 1"]
      by (auto simp: build_shutdown_def split: prod.splits if_splits)
  next
    case (BuildShutdownAck ts)
    have "retained (snd (build_shutdown_ack L ts s)) = retained s"
      by (simp add: build_shutdown_ack_def Let_def send_update_retained [OF assms(1)])
    then show ?thesis using assms(2) BuildShutdownAck by (auto split: prod.splits)
  next
    case (Retransmit ts)
    obtain r u ch where "retransmit_pending L ts s = Some (r, u)" "u = s\<lparr>cp_channel := ch\<rparr>"
      using retransmit_pending_inv [OF assms(1), of L ts] by blast
    then show ?thesis using assms(2) Retransmit by auto
  next
    case (Packet p)
    then obtain r where "ingest_packet L p s = Some (r, t)" using assms(2) by auto
    from ingest_packet_retained [OF assms(1) this] show ?thesis using Packet by simp
  next
    case (LocalCapabilities c)
    then show ?thesis using assms(2) by (auto simp: set_local_capabilities_def retained_def)
  next
    case (InitialViewport c r)
    then show ?thesis using assms(2)
      by (auto simp: set_initial_remote_viewport_def retained_def split: if_splits sum.splits)
  qed
  show "state_sent L e s \<noteq> None \<Longrightarrow> ok" using assms(2) by (cases e) (auto split: if_splits prod.splits)
  show "(\<forall>p. e \<noteq> Packet p) \<Longrightarrow> ok \<and> submitted_by e \<noteq> [] \<Longrightarrow> state_sent L e s \<noteq> None"
    using assms(2) by (cases e) (auto split: if_splits prod.splits)
qed

text \<open>
  What a state covers and what was acknowledged, told from the run alone: state zero covers nothing; a later state
  covers what was submitted up to the call that sent it; and a state is acknowledged when a packet of
  the run acknowledges it after it was sent.
\<close>

definition covers ::
    "('p, 'q) protocol_libs \<Rightarrow> 'p client_protocol \<Rightarrow> client_event list \<Rightarrow> u64 \<Rightarrow> instruction list \<Rightarrow> bool" where
  "covers L s0 events a instructions \<longleftrightarrow>
     (a = 0 \<and> instructions = []) \<or>
     (\<exists>before e after. events = before @ e # after \<and>
        state_sent L e (foldl (client_step L) s0 before) = Some a \<and> instructions = submitted L s0 (before @ [e]))"

definition acknowledged_in ::
    "('p, 'q) protocol_libs \<Rightarrow> 'p client_protocol \<Rightarrow> client_event list \<Rightarrow> u64 \<Rightarrow> instruction list \<Rightarrow> bool" where
  "acknowledged_in L s0 events a instructions \<longleftrightarrow>
     (a = 0 \<and> instructions = []) \<or>
     (\<exists>before packet after. events = before @ Packet packet # after \<and>
        acknowledgement_of L packet (foldl (client_step L) s0 before) = Some a \<and> covers L s0 before a instructions)"

lemma covers_snoc: "covers L s0 events a xs \<Longrightarrow> covers L s0 (events @ [e]) a xs"
  unfolding covers_def by (metis append_Cons append_assoc)

lemma acknowledged_in_snoc: "acknowledged_in L s0 events a xs \<Longrightarrow> acknowledged_in L s0 (events @ [e]) a xs"
  unfolding acknowledged_in_def by (metis append_Cons append_assoc)

lemma submitted_snoc:
  assumes "session_inv s0" "client_call L e (foldl (client_step L) s0 events) = Some (ok, t)"
  shows "submitted L s0 (events @ [e]) = submitted L s0 events @ (if ok then submitted_by e else [])"
  using assms
proof (induction events arbitrary: s0)
  case (Cons d events)
  obtain k u where call: "client_call L d s0 = Some (k, u)" "session_inv u" using client_call_ok [OF Cons.prems(1)] by blast
  with Cons.prems(2) Cons.IH [OF call(2)] show ?case by (simp add: client_step_def)
qed simp

definition accounts :: "('p, 'q) protocol_libs \<Rightarrow> 'p client_protocol \<Rightarrow> client_event list \<Rightarrow>
    sent_state list \<times> instruction list \<Rightarrow> instruction list \<Rightarrow> bool" where
  "accounts L s0 events = (\<lambda>(states, instructions) gone.
     submitted L s0 events = gone @ instructions \<and>
     acknowledged_in L s0 events (ss_state_id (hd states)) gone \<and>
     (\<forall>st \<in> set states. covers L s0 events (ss_state_id st) (gone @ take (ss_instruction_end st) instructions)))"

lemma accounts_unchanged:
  "accounts L s0 events R gone \<Longrightarrow> submitted L s0 (events @ [e]) = submitted L s0 events \<Longrightarrow>
   accounts L s0 (events @ [e]) R gone"
  by (auto simp: accounts_def covers_snoc acknowledged_in_snoc)

lemma sent_ok_le: "sent_ok states n \<Longrightarrow> st \<in> set states \<Longrightarrow> ss_instruction_end st \<le> n"
proof -
  assume "sent_ok states n" "st \<in> set states"
  then have "states \<noteq> []" "sorted (map ss_instruction_end states)" "ss_instruction_end (last states) = n" "st \<in> set states"
    by (simp_all add: sent_ok_def)
  then show ?thesis by (induction states) (auto split: if_splits)
qed

lemma accounts_sent:
  assumes "accounts L s0 events (states, instructions) gone" "sent_ok states (length instructions)"
    and "state_sent L e (foldl (client_step L) s0 events) = Some a"
    and "submitted L s0 (events @ [e]) = submitted L s0 events @ new"
  shows "accounts L s0 (events @ [e]) (retained_sent a new (states, instructions)) gone"
proof -
  let ?new = "\<lparr>ss_state_id = a, ss_instruction_end = length (instructions @ new)\<rparr>"
  have ok: "states \<noteq> []" "sorted (map ss_instruction_end states)" "ss_instruction_end (last states) = length instructions"
    using assms(2) by (simp_all add: sent_ok_def)
  have le: "\<forall>st\<in>set states. ss_instruction_end st \<le> length instructions" using sent_ok_le [OF assms(2)] by blast
  then have "sorted (map ss_instruction_end (states @ [?new]))" using ok by (auto simp: sorted_append)
  from limit_sent_states_ends [OF _ this] ok(1)
  have limit: "hd (limit_sent_states (states @ [?new])) = hd states"
    "set (limit_sent_states (states @ [?new])) \<subseteq> insert ?new (set states)" by (auto simp: hd_append)
  have all: "submitted L s0 (events @ [e]) = gone @ instructions @ new" using assms(1,4) by (simp add: accounts_def)
  have "covers L s0 (events @ [e]) a (gone @ instructions @ new)"
    using assms(3) all unfolding covers_def by metis
  moreover have "covers L s0 (events @ [e]) (ss_state_id st) (gone @ take (ss_instruction_end st) (instructions @ new))"
    if "st \<in> set states" for st
    using assms(1) le that covers_snoc by (fastforce simp: accounts_def)
  ultimately show ?thesis
    using assms(1) all limit by (auto simp: accounts_def retained_sent_def acknowledged_in_snoc)
qed

lemma accounts_acknowledged:
  assumes "accounts L s0 events (states, instructions) gone" "sent_ok states (length instructions)"
    and "acknowledgement_of L packet (foldl (client_step L) s0 events) = Some a"
    and "submitted L s0 (events @ [Packet packet]) = submitted L s0 events"
  shows "\<exists>gone. accounts L s0 (events @ [Packet packet]) (retained_after a (states, instructions)) gone"
proof (cases "position (\<lambda>st. ss_state_id st = a) states")
  case None
  then show ?thesis using accounts_unchanged [OF assms(1,4)] by (auto simp: retained_after_def)
next
  case (Some i)
  have i: "i < length states" "ss_state_id (states ! i) = a" using position_Some [OF Some] by simp_all
  let ?e = "ss_instruction_end (states ! i)" and ?ev = "events @ [Packet packet]"
  let ?gone = "gone @ take ?e instructions"
  note ok = acknowledged_sent_ok [OF assms(2) i(1)]
  have covered: "covers L s0 events (ss_state_id st) (gone @ take (ss_instruction_end st) instructions)"
    if "st \<in> set states" for st using assms(1) that by (auto simp: accounts_def)
  have head: "ss_state_id (hd (acknowledged_sent states i)) = a"
    using i by (simp add: acknowledged_sent_def hd_map hd_drop_conv_nth)
  have "covers L s0 events a ?gone" using covered [of "states ! i"] i by simp
  then have acked: "acknowledged_in L s0 ?ev a ?gone"
    using assms(3) unfolding acknowledged_in_def by (intro disjI2 exI [of _ events] exI [of _ packet] exI [of _ "[]"]) simp
  have "covers L s0 ?ev (ss_state_id st) (?gone @ take (ss_instruction_end st - ?e) (drop ?e instructions))"
    if st: "st \<in> set (drop i states)" for st
  proof -
    have "?e \<le> ss_instruction_end st" using ok(3) st by blast
    then have "take ?e instructions @ take (ss_instruction_end st - ?e) (drop ?e instructions) =
        take (ss_instruction_end st) instructions"
      using take_add [of ?e "ss_instruction_end st - ?e" instructions] by simp
    then show ?thesis using covers_snoc [OF covered [of st]] st by (simp add: in_set_dropD)
  qed
  then have "\<forall>st \<in> set (acknowledged_sent states i).
      covers L s0 ?ev (ss_state_id st) (?gone @ take (ss_instruction_end st) (drop ?e instructions))"
    by (auto simp: acknowledged_sent_def)
  moreover have "submitted L s0 ?ev = ?gone @ drop ?e instructions"
    using assms(1,4) by (simp add: accounts_def)
  ultimately have "accounts L s0 ?ev (retained_after a (states, instructions)) ?gone"
    using Some head acked by (simp add: accounts_def retained_after_def)
  then show ?thesis by blast
qed

lemma client_run_accounts:
  assumes "client_new L key = Some s0" "s = foldl (client_step L) s0 events"
  shows "\<exists>gone. accounts L s0 events (retained s) gone"
  using assms(2)
proof (induction events arbitrary: s rule: rev_induct)
  case Nil
  then have "retained s = ([\<lparr>ss_state_id = 0, ss_instruction_end = 0\<rparr>], [])"
    using assms(1) by (auto simp: client_new_def retained_def split: sum.splits)
  then show ?case by (simp add: accounts_def covers_def acknowledged_in_def)
next
  case (snoc e events)
  define r where "r = foldl (client_step L) s0 events"
  have inv: "session_inv s0" "session_inv r"
    using client_run_inv [OF assms(1), of _ "[]"] client_run_inv [OF assms(1) r_def] by simp_all
  obtain ok t where call: "client_call L e r = Some (ok, t)" using client_call_ok [OF inv(2)] by blast
  have "s = client_step L r e" using snoc.prems by (simp add: r_def)
  then have s: "s = t" by (simp add: client_step_def call)
  obtain gone where acc: "accounts L s0 events (retained r) gone" using snoc.IH [OF r_def] by blast
  note after = client_call_retained [OF inv(2) call]
  have sub: "submitted L s0 (events @ [e]) = submitted L s0 events @ (if ok then submitted_by e else [])"
    by (rule submitted_snoc [OF inv(1)]) (use call in \<open>simp add: r_def\<close>)
  have sent: "sent_ok (cp_sent_states r) (length (cp_local_instructions r))" using inv(2) by (simp add: session_inv_def)
  note acc = acc [unfolded retained_def]
  have keep: ?case if "retained t = retained r" "(if ok then submitted_by e else []) = []"
    using accounts_unchanged [OF acc] sub that s by (metis append_Nil2 retained_def)
  show ?case
  proof (cases "\<exists>p. e = Packet p")
    case True
    then obtain p where p: "e = Packet p" by blast
    then show ?thesis
    proof (cases "acknowledgement_of L p r")
      case (Some a)
      then show ?thesis
        using accounts_acknowledged [OF acc sent, of p a] after(1) sub p s by (simp add: r_def retained_def)
    qed (use keep after(1) p in simp)
  next
    case False
    show ?thesis
    proof (cases "state_sent L e r")
      case None
      have "retained t = retained r" using after(1) None False by (cases e) (auto simp del: state_sent.simps)
      moreover have "(if ok then submitted_by e else []) = []" using after(2) None False by auto
      ultimately show ?thesis by (rule keep)
    next
      case (Some a)
      then have "ok" "retained t = retained_sent a (submitted_by e) (retained r)"
        using after(1,3) False by (cases e; simp)+
      then show ?thesis
        using accounts_sent [OF acc sent, of e a "submitted_by e"] Some sub s by (auto simp: r_def retained_def)
    qed
  qed
qed

text \<open>
  Property C2: no local input is lost before it is acknowledged. At any point of any run, the instructions submitted so far
  are the acknowledged ones followed by exactly the retained ones, where the acknowledged ones are what was submitted up to the sending of the
  confirmed state, and a packet received after that acknowledged this very state (or the confirmed state is the initial one and nothing was
  dropped). A retransmission is built from the confirmed state to the latest state and carries all of the retained instructions. And
  a packet that acknowledges a state still in the history makes it the confirmed one.
\<close>

theorem unacknowledged_input_retained:
  assumes "client_new L key = Some s0" "s = foldl (client_step L) s0 events"
  shows "(\<exists>confirmed latest u acknowledged.
       list_front (cp_sent_states s) = Some confirmed \<and> list_back (cp_sent_states s) = Some latest \<and>
       submitted L s0 events = acknowledged @ cp_local_instructions s \<and>
       acknowledged_in L s0 events (ss_state_id confirmed) acknowledged \<and>
       covers L s0 events (ss_state_id latest) (submitted L s0 events) \<and>
       pending_update (lib_codec L) s confirmed latest = Some u \<and>
       su_base_state u = ss_state_id confirmed \<and> su_target_state u = ss_state_id latest \<and>
       su_delta u = encode_bytes (lib_codec L) \<lparr>batch_instructions = cp_local_instructions s\<rparr>) \<and>
    (\<forall>packet a. acknowledgement_of L packet s = Some a \<and> a \<in> ss_state_id ` set (cp_sent_states s) \<longrightarrow>
       map_option ss_state_id (list_front (cp_sent_states (client_step L s (Packet packet)))) = Some a)"
proof -
  have inv: "session_inv s" by (rule client_run_inv [OF assms])
  then have sent: "sent_ok (cp_sent_states s) (length (cp_local_instructions s))" by (simp add: session_inv_def)
  obtain gone where acc: "accounts L s0 events (cp_sent_states s, cp_local_instructions s) gone"
    using client_run_accounts [OF assms] by (auto simp: retained_def)
  have "covers L s0 events (ss_state_id (last (cp_sent_states s)))
      (gone @ take (ss_instruction_end (last (cp_sent_states s))) (cp_local_instructions s))"
    using acc sent_ne [OF inv] by (simp add: accounts_def)
  then have "covers L s0 events (ss_state_id (last (cp_sent_states s))) (submitted L s0 events)"
    using acc sent by (simp add: accounts_def sent_ok_def)
  then have "\<exists>confirmed latest u acknowledged.
       list_front (cp_sent_states s) = Some confirmed \<and> list_back (cp_sent_states s) = Some latest \<and>
       submitted L s0 events = acknowledged @ cp_local_instructions s \<and>
       acknowledged_in L s0 events (ss_state_id confirmed) acknowledged \<and>
       covers L s0 events (ss_state_id latest) (submitted L s0 events) \<and>
       pending_update (lib_codec L) s confirmed latest = Some u \<and>
       su_base_state u = ss_state_id confirmed \<and> su_target_state u = ss_state_id latest \<and>
       su_delta u = encode_bytes (lib_codec L) \<lparr>batch_instructions = cp_local_instructions s\<rparr>"
    using acc pending_update_all [OF inv, of "lib_codec L"] sent_ne [OF inv]
    by (auto simp: accounts_def state_update_new_def)
  moreover have "map_option ss_state_id (list_front (cp_sent_states (client_step L s (Packet packet)))) = Some a"
    if ack: "acknowledgement_of L packet s = Some a" "a \<in> ss_state_id ` set (cp_sent_states s)" for packet a
  proof -
    obtain ok t where call: "client_call L (Packet packet) s = Some (ok, t)" using client_call_ok [OF inv] by blast
    have "position (\<lambda>st. ss_state_id st = a) (cp_sent_states s) \<noteq> None"
      using ack(2) by (auto simp: position_absent)
    then obtain i where i: "position (\<lambda>st. ss_state_id st = a) (cp_sent_states s) = Some i" by blast
    then have "cp_sent_states t = acknowledged_sent (cp_sent_states s) i"
      using client_call_retained(1) [OF inv call] ack(1) by (simp add: retained_after_def retained_def)
    moreover have "client_step L s (Packet packet) = t" unfolding client_step_def call by simp
    ultimately show ?thesis
      using position_Some [OF i] by (simp add: acknowledged_sent_def hd_map hd_drop_conv_nth)
  qed
  ultimately show ?thesis by blast
qed

text \<open>
  An acknowledgement drops exactly what the acknowledged state covers. Acknowledging a
  state still in the history makes it the confirmed state and removes from the retained
  instructions precisely the ones it covers; every later state keeps the rest of its coverage; and
  acknowledging a state that is not in the history changes nothing.
\<close>

theorem acknowledgement_exact:
  assumes "client_new L key = Some s0" "s = foldl (client_step L) s0 events"
  shows "case position (\<lambda>st. ss_state_id st = a) (cp_sent_states s) of
      None \<Rightarrow> process_acknowledgement a s = Some s
    | Some i \<Rightarrow> \<exists>t covered. process_acknowledgement a s = Some t \<and>
        covered = take (ss_instruction_end (cp_sent_states s ! i)) (cp_local_instructions s) \<and>
        cp_local_instructions s = covered @ cp_local_instructions t \<and>
        map_option ss_state_id (list_front (cp_sent_states t)) = Some a \<and>
        map ss_state_id (cp_sent_states t) = map ss_state_id (drop i (cp_sent_states s)) \<and>
        map (\<lambda>st. covered @ take (ss_instruction_end st) (cp_local_instructions t)) (cp_sent_states t) =
        map (\<lambda>st. take (ss_instruction_end st) (cp_local_instructions s)) (drop i (cp_sent_states s))"
proof (cases "position (\<lambda>st. ss_state_id st = a) (cp_sent_states s)")
  case None
  then show ?thesis by (simp add: process_acknowledgement_def)
next
  case (Some i)
  have inv: "session_inv s" by (rule client_run_inv [OF assms])
  have i: "i < length (cp_sent_states s)" "ss_state_id (cp_sent_states s ! i) = a"
    using position_Some [OF Some] by simp_all
  let ?e = "ss_instruction_end (cp_sent_states s ! i)"
  have ok: "sent_ok (cp_sent_states s) (length (cp_local_instructions s))"
    using inv by (simp add: session_inv_def)
  have ge: "\<forall>st\<in>set (drop i (cp_sent_states s)). ?e \<le> ss_instruction_end st"
    by (rule acknowledged_sent_ok(3) [OF ok i(1)])
  have cover: "take ?e xs @ take (n - ?e) (drop ?e xs) = take n xs" if "?e \<le> n" for n and xs :: "instruction list"
    using that take_add [of ?e "n - ?e" xs] by simp
  have ne: "drop i (cp_sent_states s) \<noteq> []" using i(1) by simp
  have "map ss_state_id (acknowledged_sent (cp_sent_states s) i) = map ss_state_id (drop i (cp_sent_states s))"
    by (simp add: acknowledged_sent_def)
  moreover have "map_option ss_state_id (list_front (acknowledged_sent (cp_sent_states s) i)) = Some a"
    using ne i by (simp add: acknowledged_sent_def hd_map hd_drop_conv_nth)
  moreover have "map (\<lambda>st. take ?e (cp_local_instructions s) @
        take (ss_instruction_end st) (drop ?e (cp_local_instructions s))) (acknowledged_sent (cp_sent_states s) i) =
      map (\<lambda>st. take (ss_instruction_end st) (cp_local_instructions s)) (drop i (cp_sent_states s))"
    using ge cover by (simp add: acknowledged_sent_def)
  ultimately show ?thesis
    using process_acknowledgement_known [OF inv Some] Some by simp
qed

section \<open>Witnesses\<close>

definition sample_libs :: "(u16 \<times> u16 \<times> bytes, unit) protocol_libs" where
  "sample_libs = \<lparr>lib_aead = plain_aead, lib_codec = sample_codec, lib_terminal = recording_terminal\<rparr>"

theorem client_never_panics_witness:
  "\<exists>s0. client_new sample_libs [7] = Some s0 \<and>
     client_call sample_libs (Retransmit 5)
       (foldl (client_step sample_libs) s0 [BuildUpdate 1 sample_batch, Packet [1, 2, 3]]) \<noteq> None"
proof -
  obtain s0 where "client_new sample_libs [7] = Some s0" using client_new_inv by blast
  with client_never_panics [OF this refl, of "Retransmit 5" "[BuildUpdate 1 sample_batch, Packet [1, 2, 3]]"]
  show ?thesis by blast
qed

theorem client_only_advances_witness:
  "\<exists>s0. client_new sample_libs [7] = Some s0 \<and>
     seal_count (cp_channel s0) \<le> seal_count (cp_channel
       (foldl (client_step sample_libs) s0 [BuildUpdate 1 sample_batch, BuildAcknowledgement 2]))"
proof -
  obtain s0 where "client_new sample_libs [7] = Some s0" using client_new_inv by blast
  moreover from client_only_advances [OF this, of s0 "[]" _
      "[BuildUpdate 1 sample_batch, BuildAcknowledgement 2]"]
  have "seal_count (cp_channel s0) \<le> seal_count (cp_channel
       (foldl (client_step sample_libs) s0 [BuildUpdate 1 sample_batch, BuildAcknowledgement 2]))"
    by (simp only: foldl.simps)
  ultimately show ?thesis by blast
qed

theorem unacknowledged_input_retained_witness:
  "\<exists>s0. client_new sample_libs [7] = Some s0 \<and>
     cp_local_instructions (foldl (client_step sample_libs) s0 [BuildUpdate 1 sample_batch, BuildUpdate 2 sample_batch]) =
       submitted sample_libs s0 [BuildUpdate 1 sample_batch, BuildUpdate 2 sample_batch]"
proof -
  let ?es = "[BuildUpdate 1 sample_batch, BuildUpdate 2 sample_batch]"
  obtain s0 where new: "client_new sample_libs [7] = Some s0" using client_new_inv by blast
  from unacknowledged_input_retained [OF new refl, of ?es] obtain a acknowledged where
    "submitted sample_libs s0 ?es = acknowledged @ cp_local_instructions (foldl (client_step sample_libs) s0 ?es)"
    "acknowledged_in sample_libs s0 ?es a acknowledged" by blast
  moreover from this(2) have "acknowledged = []"
    by (auto simp: acknowledged_in_def Cons_eq_append_conv)
  ultimately show ?thesis using new by (intro exI [of _ s0]) simp
qed

theorem acknowledgement_exact_witness:
  "\<exists>s0. client_new sample_libs [7] = Some s0 \<and> cp_sent_states s0 \<noteq> [] \<and>
     process_acknowledgement 77 s0 = Some s0"
proof -
  obtain s0 where new: "client_new sample_libs [7] = Some s0" using client_new_inv by blast
  then have sent: "cp_sent_states s0 = [\<lparr>ss_state_id = 0, ss_instruction_end = 0\<rparr>]"
    by (auto simp: client_new_def split: sum.splits)
  with acknowledgement_exact [OF new, of s0 "[]" 77] have "process_acknowledgement 77 s0 = Some s0"
    by simp
  with new sent show ?thesis by auto
qed

text \<open>A heartbeat of the server with counter 5: two timestamps and nothing else.\<close>

definition sample_heartbeat :: bytes where
  "sample_heartbeat = be_bytes 8 (direction_encode ServerToClient 5) @ [0, 1, 0, 2] @ replicate 16 0"

lemma sample_heartbeat_opens:
  assumes "inbound_direction ch = ServerToClient"
  shows "secure_channel_open plain_aead ch sample_heartbeat = Inr \<lparr>ap_counter = 5, ap_plaintext = [0, 1, 0, 2]\<rparr>"
proof -
  have "(5 :: u64) \<le> MAX_COUNTER" by (simp add: word_le_nat_alt unat_MAX_COUNTER)
  then have "direction_decode (direction_encode ServerToClient 5) = (ServerToClient, 5)"
    by (rule direction_decode_encode)
  moreover have "take 8 sample_heartbeat = be_bytes 8 (direction_encode ServerToClient 5)"
    "drop 8 sample_heartbeat = [0, 1, 0, 2] @ replicate 16 0" "length sample_heartbeat = 28"
    by (simp_all add: sample_heartbeat_def del: direction_encode.simps)
  ultimately show ?thesis
    using assms by (simp add: secure_channel_open_def plain_aead_def Let_def del: direction_encode.simps)
qed

theorem replayed_packet_refused_witness:
  "\<exists>s0 t. client_new sample_libs [7] = Some s0 \<and> t = client_step sample_libs s0 (Packet sample_heartbeat) \<and>
     ingest_packet sample_libs sample_heartbeat t = Some (Inl ReplayDetected, t)"
proof -
  obtain s0 where new: "client_new sample_libs [7] = Some s0" using client_new_inv by blast
  then have dir: "inbound_direction (cp_channel s0) = ServerToClient"
    by (auto simp: client_new_def secure_channel_new_def split: sum.splits)
  let ?t = "client_step sample_libs s0 (Packet sample_heartbeat)"
  have aead: "lib_aead sample_libs = plain_aead" by (simp add: sample_libs_def)
  obtain ok w where "replay_accept (cp_replay_window s0) 5 = (ok, w)" by fastforce
  then have "\<exists>r u. ingest_packet sample_libs sample_heartbeat s0 = Some (r, u) \<and> cp_channel u = cp_channel s0"
    by (cases ok)
       (simp_all add: ingest_packet_def aead sample_heartbeat_opens [OF dir] Let_def get_prefix_def
          TIMESTAMP_HEADER_BYTES_def MINIMUM_FRAGMENT_PLAINTEXT_BYTES_def)
  then obtain r u where "ingest_packet sample_libs sample_heartbeat s0 = Some (r, u)"
    "cp_channel u = cp_channel s0" by blast
  then have "cp_channel ?t = cp_channel s0" by (simp add: client_step_def)
  then have opens: "secure_channel_open (lib_aead sample_libs) (cp_channel ?t) sample_heartbeat =
      Inr \<lparr>ap_counter = 5, ap_plaintext = [0, 1, 0, 2]\<rparr>"
    "secure_channel_open (lib_aead sample_libs) (cp_channel s0) sample_heartbeat =
      Inr \<lparr>ap_counter = 5, ap_plaintext = [0, 1, 0, 2]\<rparr>"
    using dir by (simp_all add: aead sample_heartbeat_opens)
  from replayed_packet_refused [OF new _ opens(2) _ opens(1) refl, of "[]" "[]"]
  have "ingest_packet sample_libs sample_heartbeat ?t = Some (Inl ReplayDetected, ?t)" by simp
  with new show ?thesis by blast
qed

end
