(* ===== verification/Tmux_Codec.thy ===== *)
theory Tmux_Codec
  imports Oxide_Prelude
begin

text \<open>
  The lexical layer of the tmux control protocol (\<open>crates/oxideterm-tmux/src/ids.rs\<close> and
  \<open>output.rs\<close>): prefixed decimal identifiers and the byte escaping of pane output.
\<close>

section \<open>Numerals\<close>

definition checked_mul :: "'a::len word \<Rightarrow> 'a word \<Rightarrow> 'a word option" where
  "checked_mul a b = (if unat a * unat b < 2 ^ LENGTH('a) then Some (a * b) else None)"

text \<open>
  \<open>byte.checked_sub(b'0')\<close> followed by the test against the largest digit.
\<close>

definition digit_upto :: "nat \<Rightarrow> byte \<Rightarrow> nat option" where
  "digit_upto largest b =
     (if b < 48 then None else let digit = b - 48 in if unat digit \<le> largest then Some (unat digit) else None)"

text \<open>The \<open>try_fold\<close> that the parsers share: overflow of the word type is an error.\<close>

fun try_radix :: "(byte \<Rightarrow> nat option) \<Rightarrow> nat \<Rightarrow> 'a::len word \<Rightarrow> bytes \<Rightarrow> 'a word option" where
  "try_radix digit base v [] = Some v"
| "try_radix digit base v (b # bs) =
     (case digit b of
        None \<Rightarrow> None
      | Some d \<Rightarrow>
          (case checked_mul v (of_nat base) of
             None \<Rightarrow> None
           | Some scaled \<Rightarrow>
               (case checked_add scaled (of_nat d) of
                  None \<Rightarrow> None
                | Some v' \<Rightarrow> try_radix digit base v' bs)))"

definition parse_decimal :: "bytes \<Rightarrow> u64 option" where
  "parse_decimal token = (if token = [] then None else try_radix (digit_upto 9) 10 0 token)"

definition parse_prefixed_decimal :: "bytes \<Rightarrow> byte \<Rightarrow> u64 option" where
  "parse_prefixed_decimal token prefix =
     (case token of [] \<Rightarrow> None | b # digits \<Rightarrow> if b = prefix then parse_decimal digits else None)"

text \<open>The identifier types of the \<open>tmux_id\<close> macro; their prefixes are \<open>%\<close>, \<open>@\<close> and \<open>$\<close>.\<close>

datatype pane_id = PaneId u64
datatype window_id = WindowId u64
datatype session_id = SessionId u64

definition pane_parse :: "bytes \<Rightarrow> pane_id option" where
  "pane_parse token = map_option PaneId (parse_prefixed_decimal token (of_char CHR ''%''))"

definition window_parse :: "bytes \<Rightarrow> window_id option" where
  "window_parse token = map_option WindowId (parse_prefixed_decimal token (of_char CHR ''@''))"

definition session_parse :: "bytes \<Rightarrow> session_id option" where
  "session_parse token = map_option SessionId (parse_prefixed_decimal token (of_char CHR ''$''))"

text \<open>Decimal formatting of an unsigned integer, and the \<open>Display\<close> of an identifier.\<close>

fun show_digits :: "nat \<Rightarrow> bytes" where
  "show_digits n = (if n < 10 then [of_nat (48 + n)] else show_digits (n div 10) @ [of_nat (48 + n mod 10)])"

declare show_digits.simps [simp del]

definition show_decimal :: "u64 \<Rightarrow> bytes" where
  "show_decimal w = show_digits (unat w)"

fun pane_display :: "pane_id \<Rightarrow> bytes" where
  "pane_display (PaneId n) = of_char CHR ''%'' # show_decimal n"

fun window_display :: "window_id \<Rightarrow> bytes" where
  "window_display (WindowId n) = of_char CHR ''@'' # show_decimal n"

fun session_display :: "session_id \<Rightarrow> bytes" where
  "session_display (SessionId n) = of_char CHR ''$'' # show_decimal n"

section \<open>Output escaping\<close>

abbreviation backslash :: byte where
  "backslash \<equiv> 92"

definition decode_octal_byte :: "bytes \<Rightarrow> byte option" where
  "decode_octal_byte digits =
     (case try_radix (digit_upto 7) 8 (0 :: u16) digits of
        None \<Rightarrow> None
      | Some v \<Rightarrow> if unat v < 256 then Some (ucast v) else None)"

text \<open>The loop of \<open>decode_output\<close> over the rest of the source.\<close>

function decode_loop :: "bytes \<Rightarrow> bytes" where
  "decode_loop [] = []"
| "decode_loop (b # rest) =
     (if b \<noteq> backslash then b # decode_loop rest
      else if (case rest of [] \<Rightarrow> False | c # _ \<Rightarrow> c = backslash) then backslash # decode_loop (drop 1 rest)
      else (case get_prefix 3 rest of
              None \<Rightarrow> backslash # decode_loop rest
            | Some digits \<Rightarrow>
                (case decode_octal_byte digits of
                   None \<Rightarrow> backslash # decode_loop rest
                 | Some byte \<Rightarrow> byte # decode_loop (drop 3 rest))))"
  by pat_completeness auto
termination
  by (relation "measure length") auto

declare decode_loop.simps(2) [simp del]

text \<open>A \<open>Cow\<close>: the source itself, or a new buffer.\<close>

datatype cow = Borrowed bytes | Owned bytes

fun cow_bytes :: "cow \<Rightarrow> bytes" where
  "cow_bytes (Borrowed bs) = bs"
| "cow_bytes (Owned bs) = bs"

fun position_of :: "byte \<Rightarrow> bytes \<Rightarrow> nat option" where
  "position_of b [] = None"
| "position_of b (c # cs) = (if c = b then Some 0 else map_option Suc (position_of b cs))"

definition decode_output :: "bytes \<Rightarrow> cow" where
  "decode_output source =
     (case position_of backslash source of
        None \<Rightarrow> Borrowed source
      | Some first_escape \<Rightarrow>
          Owned (take first_escape source @ decode_loop (drop first_escape source)))"

section \<open>Reading numerals\<close>

fun radix_value :: "(byte \<Rightarrow> nat option) \<Rightarrow> nat \<Rightarrow> nat \<Rightarrow> bytes \<Rightarrow> nat" where
  "radix_value digit base v [] = v"
| "radix_value digit base v (b # bs) = radix_value digit base (v * base + the (digit b)) bs"

definition is_numeral :: "(byte \<Rightarrow> nat option) \<Rightarrow> bytes \<Rightarrow> bool" where
  "is_numeral digit bs \<longleftrightarrow> list_all (\<lambda>b. digit b \<noteq> None) bs"

lemma radix_value_mono: "1 \<le> base \<Longrightarrow> v \<le> radix_value digit base v bs"
proof (induction bs arbitrary: v)
  case (Cons b bs)
  have "v \<le> v * base + the (digit b)" using Cons.prems by (cases base) auto
  with Cons.IH [OF Cons.prems] show ?case by (simp add: le_trans)
qed simp

lemma try_radix_value:
  fixes v :: "'a::len word"
  assumes "1 \<le> base" "base < 2 ^ LENGTH('a)" "\<And>b d. digit b = Some d \<Longrightarrow> d < 2 ^ LENGTH('a)"
  shows "try_radix digit base v bs =
    (if is_numeral digit bs \<and> radix_value digit base (unat v) bs < 2 ^ LENGTH('a)
     then Some (of_nat (radix_value digit base (unat v) bs)) else None)"
proof (induction bs arbitrary: v)
  case Nil
  have "unat v < 2 ^ LENGTH('a)" by (rule unsigned_less)
  then show ?case by (simp add: is_numeral_def)
next
  case (Cons b bs)
  show ?case
  proof (cases "digit b")
    case None
    then show ?thesis by (simp add: is_numeral_def)
  next
    case (Some d)
    have base: "unat (of_nat base :: 'a word) = base" and d: "unat (of_nat d :: 'a word) = d"
      using assms(2) assms(3) [OF Some] by (simp_all add: unat_of_nat)
    let ?n = "unat v * base + d"
    show ?thesis
    proof (cases "?n < 2 ^ LENGTH('a)")
      case True
      then have "unat v * base < 2 ^ LENGTH('a)" by linarith
      then have mul: "unat (v * of_nat base) = unat v * base"
        by (simp only: unat_word_ariths base mod_less)
      have "unat (v * of_nat base + of_nat d) = ?n"
        using True by (simp only: unat_word_ariths(1) mul d mod_less)
      moreover have "checked_mul v (of_nat base) = Some (v * of_nat base)"
        using \<open>unat v * base < _\<close> by (simp add: checked_mul_def base)
      moreover have "checked_add (v * of_nat base) (of_nat d) = Some (v * of_nat base + of_nat d)"
        using True by (simp add: checked_add_def mul d)
      ultimately show ?thesis
        by (simp add: Some Cons.IH is_numeral_def)
    next
      case False
      have "?n \<le> radix_value digit base ?n bs" by (rule radix_value_mono [OF assms(1)])
      with False have big: "\<not> radix_value digit base ?n bs < 2 ^ LENGTH('a)" by linarith
      have "(case checked_mul v (of_nat base) of None \<Rightarrow> None
          | Some scaled \<Rightarrow> (case checked_add scaled (of_nat d) of None \<Rightarrow> None
             | Some v' \<Rightarrow> try_radix digit base v' bs)) = None"
      proof (cases "unat v * base < 2 ^ LENGTH('a)")
        case True
        then have mul: "unat (v * of_nat base) = unat v * base"
          by (simp only: unat_word_ariths base mod_less)
        have "checked_add (v * of_nat base) (of_nat d) = None"
          using False by (simp add: checked_add_def mul d)
        then show ?thesis using True by (simp add: checked_mul_def base)
      next
        case False
        then show ?thesis by (simp add: checked_mul_def base)
      qed
      with big show ?thesis by (simp add: Some)
    qed
  qed
qed

lemma digit_upto_less: "digit_upto k b = Some d \<Longrightarrow> d < 256"
  using unsigned_less [of "b - 48"] by (auto simp: digit_upto_def Let_def split: if_splits)

lemma parse_decimal_spec:
  "parse_decimal token =
     (if token \<noteq> [] \<and> is_numeral (digit_upto 9) token \<and> radix_value (digit_upto 9) 10 0 token < 2 ^ 64
      then Some (of_nat (radix_value (digit_upto 9) 10 0 token)) else None)"
proof -
  have "d < 2 ^ LENGTH(64)" if "digit_upto 9 b = Some d" for b d
    using digit_upto_less [OF that] by simp
  then show ?thesis
    using try_radix_value [of 10 "digit_upto 9" "0 :: u64" token] by (simp add: parse_decimal_def)
qed

lemma digit_upto_char: "d \<le> k \<Longrightarrow> d < 200 \<Longrightarrow> digit_upto k (of_nat (48 + d)) = Some d"
proof -
  assume "d \<le> k" "d < 200"
  then have "unat (of_nat (48 + d) :: byte) = 48 + d" by (simp only: unat_of_nat) simp
  moreover from this have "\<not> (of_nat (48 + d) :: byte) < 48" by (simp add: word_less_nat_alt)
  moreover from calculation have "unat ((of_nat (48 + d) :: byte) - 48) = d"
    by (subst unat_sub) (simp_all add: word_le_nat_alt)
  ultimately show ?thesis using \<open>d \<le> k\<close> by (simp add: digit_upto_def Let_def del: of_nat_add)
qed

lemma radix_value_append:
  "radix_value digit base v (xs @ ys) = radix_value digit base (radix_value digit base v xs) ys"
  by (induction xs arbitrary: v) auto

lemma show_digits_numeral:
  "show_digits n \<noteq> [] \<and> is_numeral (digit_upto 9) (show_digits n) \<and>
   radix_value (digit_upto 9) 10 0 (show_digits n) = n"
proof (induction n rule: show_digits.induct)
  case (1 n)
  show ?case
  proof (cases "n < 10")
    case True
    then show ?thesis
      by (subst (1 2 3) show_digits.simps)
         (simp add: is_numeral_def digit_upto_char del: of_nat_add)
  next
    case False
    with "1" show ?thesis
      by (subst (1 2 3) show_digits.simps)
         (simp add: is_numeral_def digit_upto_char radix_value_append del: of_nat_add)
  qed
qed

lemma parse_show_decimal [simp]: "parse_decimal (show_decimal w) = Some w"
  using show_digits_numeral [of "unat w"] unsigned_less [of w]
  by (simp add: parse_decimal_spec show_decimal_def)

text \<open>
  Numerals are read exactly. A token parses as a decimal exactly when it is not empty,
  has digits only and its value fits 64 bits, and then its value is the result: no overflow
  is missed on the way. Formatting an identifier and parsing it back gives the identifier, for
  panes, windows and sessions.
\<close>

theorem identifiers_exact:
  "parse_decimal token =
     (if token \<noteq> [] \<and> is_numeral (digit_upto 9) token \<and> radix_value (digit_upto 9) 10 0 token < 2 ^ 64
      then Some (of_nat (radix_value (digit_upto 9) 10 0 token)) else None) \<and>
   pane_parse (pane_display p) = Some p \<and> window_parse (window_display w) = Some w \<and>
   session_parse (session_display s) = Some s"
proof (intro conjI parse_decimal_spec)
  show "pane_parse (pane_display p) = Some p"
    by (cases p) (simp add: pane_parse_def parse_prefixed_decimal_def)
  show "window_parse (window_display w) = Some w"
    by (cases w) (simp add: window_parse_def parse_prefixed_decimal_def)
  show "session_parse (session_display s) = Some s"
    by (cases s) (simp add: session_parse_def parse_prefixed_decimal_def)
qed

section \<open>Decoding output\<close>

text \<open>
  The escaping that tmux documents for control-mode output: a byte may be written as a backslash
  and three octal digits, and a backslash always is. \<open>P\<close> chooses the other bytes to escape.
\<close>

definition octal3 :: "byte \<Rightarrow> bytes" where
  "octal3 b = [of_nat (48 + unat b div 64), of_nat (48 + unat b div 8 mod 8), of_nat (48 + unat b mod 8)]"

definition escape_byte :: "(byte \<Rightarrow> bool) \<Rightarrow> byte \<Rightarrow> bytes" where
  "escape_byte P b = (if b = backslash \<or> P b then backslash # octal3 b else [b])"

definition escape_bytes :: "(byte \<Rightarrow> bool) \<Rightarrow> bytes \<Rightarrow> bytes" where
  "escape_bytes P bs = concat (map (escape_byte P) bs)"

lemma decode_octal3: "decode_octal_byte (octal3 b) = Some b"
proof -
  have b: "unat b < 256" using unsigned_less [of b] by simp
  have "unat b div 64 \<le> 7" using b by (simp add: less_mult_imp_div_less less_Suc_eq_le flip: less_Suc_eq_le)
  then have dig: "digit_upto 7 (of_nat (48 + unat b div 64)) = Some (unat b div 64)"
    "digit_upto 7 (of_nat (48 + unat b div 8 mod 8)) = Some (unat b div 8 mod 8)"
    "digit_upto 7 (of_nat (48 + unat b mod 8)) = Some (unat b mod 8)"
    by (intro digit_upto_char; simp add: less_Suc_eq_le flip: less_Suc_eq_le)+
  have val: "(unat b div 64 * 8 + unat b div 8 mod 8) * 8 + unat b mod 8 = unat b"
  proof -
    have "unat b div 64 = unat b div 8 div 8" by (simp add: div_mult2_eq [symmetric])
    then show ?thesis by (metis div_mult_mod_eq)
  qed
  have d16: "d < 2 ^ LENGTH(16)" if "digit_upto 7 c = Some d" for c d
    using digit_upto_less [OF that] by simp
  have "try_radix (digit_upto 7) 8 (0 :: u16) (octal3 b) = Some (of_nat (unat b))"
  proof -
    have "radix_value (digit_upto 7) 8 0 (octal3 b) = unat b"
      by (simp only: octal3_def radix_value.simps dig option.sel val mult_0 add_0)
    moreover have "is_numeral (digit_upto 7) (octal3 b)"
      by (simp only: octal3_def is_numeral_def list.pred_inject dig option.distinct simp_thms)
    ultimately show ?thesis
      using try_radix_value [of 8 "digit_upto 7" "0 :: u16" "octal3 b"] d16 b by simp
  qed
  moreover have "unat (of_nat (unat b) :: u16) = unat b"
    using b by (simp only: unat_of_nat) (rule mod_less, simp)
  moreover have "(ucast (of_nat (unat b) :: u16) :: byte) = b"
    by (rule bit_word_eqI) (simp add: bit_ucast_iff)
  ultimately show ?thesis using b by (simp add: decode_octal_byte_def)
qed

lemma octal3_head: "hd (octal3 b) \<noteq> backslash"
proof -
  have "unat b < 256" using unsigned_less [of b] by simp
  then have "unat b div 64 < 4" by (simp add: div_less_iff_less_mult)
  then have "unat (of_nat (48 + unat b div 64) :: byte) = 48 + unat b div 64" by (simp only: unat_of_nat) simp
  then have "unat (of_nat (48 + unat b div 64) :: byte) \<noteq> 92" using \<open>unat b div 64 < 4\<close> by linarith
  then show ?thesis by (auto simp: octal3_def simp del: of_nat_add)
qed

lemma decode_loop_escape: "decode_loop (escape_byte P b @ rest) = b # decode_loop rest"
proof (cases "b = backslash \<or> P b")
  case True
  obtain x y z where o: "octal3 b = [x, y, z]" by (simp add: octal3_def)
  with octal3_head [of b] have "x \<noteq> backslash" by simp
  with True o decode_octal3 [of b] show ?thesis
    by (simp add: escape_byte_def decode_loop.simps(2) get_prefix_def)
next
  case False
  then show ?thesis by (simp add: escape_byte_def decode_loop.simps(2))
qed

lemma decode_loop_escapes: "decode_loop (escape_bytes P bs) = bs"
  by (induction bs) (simp_all add: escape_bytes_def decode_loop_escape)

lemma decode_loop_plain: "backslash \<notin> set bs \<Longrightarrow> decode_loop (bs @ rest) = bs @ decode_loop rest"
  by (induction bs) (auto simp: decode_loop.simps(2))

lemma position_of_Some:
  "position_of b bs = Some i \<Longrightarrow> i < length bs \<and> bs ! i = b \<and> b \<notin> set (take i bs)"
  by (induction bs arbitrary: i) (auto split: if_splits)

lemma position_of_None: "position_of b bs = None \<longleftrightarrow> b \<notin> set bs"
  by (induction bs) auto

lemma decode_output_loop: "cow_bytes (decode_output source) = decode_loop source"
proof (cases "position_of backslash source")
  case None
  then have "backslash \<notin> set source" by (rule position_of_None [THEN iffD1])
  with decode_loop_plain [of source "[]"] show ?thesis by (simp add: decode_output_def None)
next
  case (Some i)
  then have "backslash \<notin> set (take i source)" using position_of_Some by blast
  from decode_loop_plain [OF this, of "drop i source"] Some show ?thesis
    by (simp add: decode_output_def)
qed

text \<open>
  Pane output survives the wire. Whatever bytes a pane writes, and whichever of them
  tmux chooses to escape beside the backslash, decoding the escaped form returns exactly the
  bytes; a payload is returned without copying exactly when it holds no backslash.
\<close>

theorem output_roundtrip:
  "cow_bytes (decode_output (escape_bytes P bs)) = bs \<and>
   (decode_output source = Borrowed source \<longleftrightarrow> backslash \<notin> set source)"
proof
  show "cow_bytes (decode_output (escape_bytes P bs)) = bs"
    by (simp only: decode_output_loop decode_loop_escapes)
  show "decode_output source = Borrowed source \<longleftrightarrow> backslash \<notin> set source"
    by (auto simp: decode_output_def position_of_None [symmetric] split: option.split)
qed

end
