(* ===== verification/Tmux_Layout.thy ===== *)
theory Tmux_Layout
  imports Tmux_Codec
begin

text \<open>
  The window layout strings of tmux (\<open>crates/oxideterm-tmux/src/layout.rs\<close>): the recursive
  parser with its depth and node limits, the checksum, the pane iterator and the pane lookup.
\<close>

section \<open>Layouts\<close>

definition MAX_LAYOUT_DEPTH :: nat where
  "MAX_LAYOUT_DEPTH = 64"

definition MAX_LAYOUT_NODES :: nat where
  "MAX_LAYOUT_NODES = 4096"

record layout_cell =
  cell_width :: u16
  cell_height :: u16
  cell_x :: u16
  cell_y :: u16

datatype split_direction = LeftRight | TopBottom

datatype layout = Layout layout_cell layout_kind
and layout_kind = Pane pane_id | Split split_direction "layout list"

datatype layout_error =
    InvalidChecksum | InvalidNumber | InvalidSeparator | EmptySplit | UnterminatedSplit
  | TooDeep | TooManyNodes | TrailingData

text \<open>
  The parser keeps its input, a cursor and the number of nodes. The model's state is the input
  from the cursor on, and the node count. The recursion is bounded by fuel, one unit per call of
  \<open>parse_node\<close> or round of \<open>children\<close>; running out of it is an outcome of its own, which
  \<open>parse_node_fuel\<close> below shows never to occur with the fuel \<open>layout_parse\<close> gives.
\<close>

datatype parse_stop = Failed layout_error | NoFuel

type_synonym parser_state = "bytes \<times> nat"

definition is_ascii_digit :: "byte \<Rightarrow> bool" where
  "is_ascii_digit b \<longleftrightarrow> 48 \<le> b \<and> b \<le> 57"

definition number_u64 :: "bytes \<Rightarrow> parse_stop + (u64 \<times> bytes)" where
  "number_u64 input =
     (case parse_decimal (takeWhile is_ascii_digit input) of
        None \<Rightarrow> Inl (Failed InvalidNumber)
      | Some n \<Rightarrow> Inr (n, dropWhile is_ascii_digit input))"

definition number_u16 :: "bytes \<Rightarrow> parse_stop + (u16 \<times> bytes)" where
  "number_u16 input =
     rbind (number_u64 input) (\<lambda>(n, rest).
       case u16_try_from (unat n) of
         None \<Rightarrow> Inl (Failed InvalidNumber)
       | Some w \<Rightarrow> Inr (w, rest))"

definition expect_byte :: "byte \<Rightarrow> bytes \<Rightarrow> parse_stop + bytes" where
  "expect_byte expected input =
     (case input of
        [] \<Rightarrow> Inl (Failed InvalidSeparator)
      | b # rest \<Rightarrow> if b = expected then Inr rest else Inl (Failed InvalidSeparator))"

definition parse_cell :: "bytes \<Rightarrow> parse_stop + (layout_cell \<times> bytes)" where
  "parse_cell input =
     rbind (number_u16 input) (\<lambda>(width, input).
     rbind (expect_byte (of_char CHR ''x'') input) (\<lambda>input.
     rbind (number_u16 input) (\<lambda>(height, input).
     rbind (expect_byte (of_char CHR '','') input) (\<lambda>input.
     rbind (number_u16 input) (\<lambda>(x, input).
     rbind (expect_byte (of_char CHR '','') input) (\<lambda>input.
     rbind (number_u16 input) (\<lambda>(y, input).
       Inr (\<lparr>cell_width = width, cell_height = height, cell_x = x, cell_y = y\<rparr>, input))))))))"

text \<open>The two bracket pairs and the directions they stand for.\<close>

definition split_bracket :: "byte \<Rightarrow> (split_direction \<times> byte) option" where
  "split_bracket separator =
     (if separator = of_char CHR ''{'' then Some (LeftRight, of_char CHR ''}'')
      else if separator = of_char (CHR 0x5B) then Some (TopBottom, of_char (CHR 0x5D))
      else None)"

fun parse_node :: "nat \<Rightarrow> nat \<Rightarrow> parser_state \<Rightarrow> parse_stop + (layout \<times> parser_state)"
  and parse_children :: "nat \<Rightarrow> byte \<Rightarrow> nat \<Rightarrow> layout list \<Rightarrow> parser_state \<Rightarrow> parse_stop + (layout list \<times> parser_state)"
where
  "parse_node 0 depth state = Inl NoFuel"
| "parse_node (Suc fuel) depth (input, nodes) =
     (if MAX_LAYOUT_DEPTH < depth then Inl (Failed TooDeep)
      else
        let nodes = nodes + 1 in
        if MAX_LAYOUT_NODES < nodes then Inl (Failed TooManyNodes)
        else rbind (parse_cell input) (\<lambda>(cell, input).
          case input of
            [] \<Rightarrow> Inl (Failed InvalidSeparator)
          | separator # input \<Rightarrow>
              if separator = of_char CHR '','' then
                rbind (number_u64 input) (\<lambda>(n, input).
                  Inr (Layout cell (Pane (PaneId n)), (input, nodes)))
              else (case split_bracket separator of
                      None \<Rightarrow> Inl (Failed InvalidSeparator)
                    | Some (direction, terminator) \<Rightarrow>
                        if input \<noteq> [] \<and> hd input = terminator then Inl (Failed EmptySplit)
                        else rbind (parse_children fuel terminator (depth + 1) [] (input, nodes))
                          (\<lambda>(children, state). Inr (Layout cell (Split direction children), state)))))"
| "parse_children 0 terminator depth children state = Inl NoFuel"
| "parse_children (Suc fuel) terminator depth children state =
     rbind (parse_node fuel depth state) (\<lambda>(child, (input, nodes)).
       let children = children @ [child] in
       case input of
         [] \<Rightarrow> Inl (Failed UnterminatedSplit)
       | b # input \<Rightarrow>
           if b = terminator then Inr (children, (input, nodes))
           else if b = of_char CHR '','' then parse_children fuel terminator depth children (input, nodes)
           else Inl (Failed InvalidSeparator))"

section \<open>Checksums\<close>

definition hex_digit :: "byte \<Rightarrow> nat option" where
  "hex_digit b =
     (if 48 \<le> b \<and> b \<le> 57 then Some (unat (b - 48))
      else if 97 \<le> b \<and> b \<le> 102 then Some (unat (b - 97 + 10))
      else if 65 \<le> b \<and> b \<le> 70 then Some (unat (b - 65 + 10))
      else None)"

definition is_ascii_hexdigit :: "byte \<Rightarrow> bool" where
  "is_ascii_hexdigit b \<longleftrightarrow> 48 \<le> b \<and> b \<le> 57 \<or> 97 \<le> b \<and> b \<le> 102 \<or> 65 \<le> b \<and> b \<le> 70"

definition layout_checksum :: "bytes \<Rightarrow> u16" where
  "layout_checksum body = foldl (\<lambda>checksum b. word_rotr 1 checksum + ucast b) 0 body"

definition strip_checksum :: "bytes \<Rightarrow> layout_error + bytes" where
  "strip_checksum encoded =
     (case position_of (of_char CHR '','') encoded of
        None \<Rightarrow> Inr encoded
      | Some comma \<Rightarrow>
          let checksum = take comma encoded in
          if length checksum \<noteq> 4 \<or> \<not> list_all is_ascii_hexdigit checksum then Inr encoded
          else
            let expected = try_radix hex_digit 16 (0 :: u16) checksum;
                body = drop (comma + 1) encoded
            in if expected = Some (layout_checksum body) then Inr body else Inl InvalidChecksum)"

definition layout_parse :: "bytes \<Rightarrow> parse_stop + layout" where
  "layout_parse encoded =
     (case strip_checksum encoded of
        Inl e \<Rightarrow> Inl (Failed e)
      | Inr body \<Rightarrow>
          rbind (parse_node (2 * length body + 2) 0 (body, 0)) (\<lambda>(layout, (input, _)).
            if input \<noteq> [] then Inl (Failed TrailingData) else Inr layout))"

section \<open>Panes\<close>

fun layout_size :: "layout \<Rightarrow> nat" where
  "layout_size (Layout _ (Pane _)) = 1"
| "layout_size (Layout _ (Split _ children)) = Suc (sum_list (map layout_size children))"

text \<open>The iterator of \<open>panes\<close>, run to its end: the head of the list is the top of its stack.\<close>

function panes_loop :: "layout list \<Rightarrow> (pane_id \<times> layout_cell) list" where
  "panes_loop [] = []"
| "panes_loop (Layout cell (Pane pane) # pending) = (pane, cell) # panes_loop pending"
| "panes_loop (Layout cell (Split direction children) # pending) = panes_loop (children @ pending)"
  by pat_completeness auto
termination
  by (relation "measure (\<lambda>pending. sum_list (map layout_size pending))") auto

definition layout_panes :: "layout \<Rightarrow> (pane_id \<times> layout_cell) list" where
  "layout_panes l = panes_loop [l]"

definition saturating_add :: "nat \<Rightarrow> nat \<Rightarrow> nat" where
  "saturating_add a b = min (a + b) usize_max"

definition cell_contains :: "layout_cell \<Rightarrow> nat \<Rightarrow> nat \<Rightarrow> bool" where
  "cell_contains cell x y \<longleftrightarrow>
     (let left = unat (cell_x cell); top = unat (cell_y cell) in
      left \<le> x \<and> x < saturating_add left (unat (cell_width cell)) \<and>
      top \<le> y \<and> y < saturating_add top (unat (cell_height cell)))"

definition pane_at :: "layout \<Rightarrow> nat \<Rightarrow> nat \<Rightarrow> pane_id option" where
  "pane_at l x y = map_option fst (find (\<lambda>(_, cell). cell_contains cell x y) (layout_panes l))"

section \<open>Fuel\<close>

lemma takeWhile_numeral_length: "length (dropWhile P xs) \<le> length xs"
  by (rule length_dropWhile_le)

lemma number_u64_length:
  "number_u64 input = Inr (n, rest) \<Longrightarrow> length rest < length input"
proof -
  assume n: "number_u64 input = Inr (n, rest)"
  then have rest: "rest = dropWhile is_ascii_digit input" and "takeWhile is_ascii_digit input \<noteq> []"
    by (auto simp: number_u64_def parse_decimal_def split: option.splits if_splits)
  moreover have "length (takeWhile is_ascii_digit input) + length (dropWhile is_ascii_digit input) = length input"
    by (metis length_append takeWhile_dropWhile_id)
  ultimately show ?thesis by (cases "takeWhile is_ascii_digit input") auto
qed

lemma number_u16_length: "number_u16 input = Inr (n, rest) \<Longrightarrow> length rest < length input"
  by (auto simp: number_u16_def split: option.splits dest: number_u64_length)

lemma expect_byte_length: "expect_byte b input = Inr rest \<Longrightarrow> length rest < length input"
  by (auto simp: expect_byte_def split: list.splits if_splits)

lemma parse_cell_length: "parse_cell input = Inr (c, rest) \<Longrightarrow> length rest < length input"
  by (fastforce simp: parse_cell_def dest!: number_u16_length expect_byte_length)

lemma scanner_fuel [simp]:
  "number_u64 input \<noteq> Inl NoFuel" "number_u16 input \<noteq> Inl NoFuel"
  "expect_byte b input \<noteq> Inl NoFuel"
  by (auto simp: number_u64_def number_u16_def expect_byte_def rbind_def
      split: option.splits list.splits sum.splits)

lemma rbind_NoFuel: "rbind r f = Inl NoFuel \<longleftrightarrow> r = Inl NoFuel \<or> (\<exists>x. r = Inr x \<and> f x = Inl NoFuel)"
  by (cases r) auto

lemma parse_cell_fuel [simp]: "parse_cell input \<noteq> Inl NoFuel"
  by (auto simp: parse_cell_def rbind_NoFuel)

text \<open>What a successful step of the parser has seen.\<close>

lemma parse_nodeE:
  assumes "parse_node (Suc fuel) depth (input, nodes) = Inr (l, st')"
  obtains (pane) cell rest n rest' where "parse_cell input = Inr (cell, of_char CHR '','' # rest)"
      "number_u64 rest = Inr (n, rest')" "l = Layout cell (Pane (PaneId n))" "st' = (rest', Suc nodes)"
      "depth \<le> MAX_LAYOUT_DEPTH" "Suc nodes \<le> MAX_LAYOUT_NODES"
  | (split) cell sep rest dir t cs where "parse_cell input = Inr (cell, sep # rest)"
      "split_bracket sep = Some (dir, t)" "rest = [] \<or> hd rest \<noteq> t"
      "parse_children fuel t (Suc depth) [] (rest, Suc nodes) = Inr (cs, st')"
      "l = Layout cell (Split dir cs)" "depth \<le> MAX_LAYOUT_DEPTH" "Suc nodes \<le> MAX_LAYOUT_NODES"
proof (cases "parse_cell input")
  case (Inl e)
  with assms show ?thesis by (simp add: Let_def split: if_splits)
next
  case (Inr r)
  obtain cell rest where r: "r = (cell, rest)" by fastforce
  have lim: "depth \<le> MAX_LAYOUT_DEPTH" "Suc nodes \<le> MAX_LAYOUT_NODES"
    using assms by (auto simp: Let_def split: if_splits)
  show ?thesis
  proof (cases rest)
    case Nil
    with assms Inr r show ?thesis by (simp add: Let_def split: if_splits)
  next
    case (Cons sep rest)
    note unfolded = assms [unfolded parse_node.simps Let_def Inr r Cons rbind_simps prod.case list.case]
    show ?thesis
    proof (cases "sep = of_char CHR '',''")
      case True
      with unfolded lim obtain n rest' where "number_u64 rest = Inr (n, rest')"
        "l = Layout cell (Pane (PaneId n))" "st' = (rest', Suc nodes)" by auto
      with pane [of cell rest n rest'] True Inr r Cons lim show ?thesis by simp
    next
      case False
      with unfolded lim obtain dir t cs where "split_bracket sep = Some (dir, t)"
        "rest = [] \<or> hd rest \<noteq> t" "parse_children fuel t (Suc depth) [] (rest, Suc nodes) = Inr (cs, st')"
        "l = Layout cell (Split dir cs)"
        by (auto split: option.splits if_splits)
      with split [of cell sep rest dir t cs] Inr r Cons lim show ?thesis by simp
    qed
  qed
qed

lemma parse_childrenE:
  assumes "parse_children (Suc fuel) t depth cs st = Inr (cs', st')"
  obtains (last) child rest nodes where "parse_node fuel depth st = Inr (child, (t # rest, nodes))"
      "cs' = cs @ [child]" "st' = (rest, nodes)"
  | (more) child rest nodes where "parse_node fuel depth st = Inr (child, (of_char CHR '','' # rest, nodes))"
      "parse_children fuel t depth (cs @ [child]) (rest, nodes) = Inr (cs', st')"
proof (cases "parse_node fuel depth st")
  case (Inl e)
  with assms show ?thesis by simp
next
  case (Inr r)
  obtain child input nodes where r: "r = (child, (input, nodes))" by (metis prod.collapse)
  show ?thesis
  proof (cases input)
    case Nil
    with assms Inr r show ?thesis by (simp add: Let_def)
  next
    case (Cons b rest)
    with assms Inr r last [of child rest nodes] more [of child rest nodes] show ?thesis
      by (simp add: Let_def split: if_splits)
  qed
qed

lemma parse_children_NoFuel:
  assumes "parse_children (Suc fuel) t depth cs st = Inl NoFuel" "parse_node fuel depth st \<noteq> Inl NoFuel"
  obtains child b rest nodes where "parse_node fuel depth st = Inr (child, (b # rest, nodes))"
    "parse_children fuel t depth (cs @ [child]) (rest, nodes) = Inl NoFuel"
proof (cases "parse_node fuel depth st")
  case (Inl e)
  with assms show ?thesis by simp
next
  case (Inr r)
  obtain child input nodes where r: "r = (child, (input, nodes))" by (metis prod.collapse)
  show ?thesis
  proof (cases input)
    case Nil
    with assms Inr r show ?thesis by (simp add: Let_def)
  next
    case (Cons b rest)
    with assms Inr r that [of child b rest nodes] show ?thesis
      by (simp add: Let_def split: if_splits)
  qed
qed

lemma parse_lengths:
  "parse_node fuel depth st = Inr (l, st') \<Longrightarrow> length (fst st') < length (fst st)"
  "parse_children fuel t depth cs st = Inr (cs', st') \<Longrightarrow> length (fst st') < length (fst st)"
proof (induction fuel arbitrary: depth st l st' t cs cs')
  case (Suc fuel)
  case 1
  obtain input nodes where st: "st = (input, nodes)" by fastforce
  from 1 [unfolded st] show ?case
  proof (cases rule: parse_nodeE)
    case (pane cell rest n rest')
    then show ?thesis using parse_cell_length [of input] number_u64_length [of rest] st by fastforce
  next
    case (split cell sep rest dir t cs)
    then show ?thesis using parse_cell_length [of input] Suc(2) [OF split(4)] st by fastforce
  qed
next
  case (Suc fuel)
  case 2
  then show ?case
  proof (cases rule: parse_childrenE)
    case (last child rest nodes)
    then show ?thesis using Suc(1) [OF last(1)] by simp
  next
    case (more child rest nodes)
    then show ?thesis using Suc(1) [OF more(1)] Suc(2) [OF more(2)] by simp
  qed
qed simp_all

lemma parse_node_NoFuel:
  assumes "parse_node (Suc fuel) depth (input, nodes) = Inl NoFuel"
  obtains cell sep rest dir t where "parse_cell input = Inr (cell, sep # rest)"
    "parse_children fuel t (Suc depth) [] (rest, Suc nodes) = Inl NoFuel"
proof (cases "parse_cell input")
  case (Inl e)
  with assms show ?thesis by (auto simp: Let_def split: if_splits)
next
  case (Inr r)
  obtain cell rest where r: "r = (cell, rest)" by fastforce
  show ?thesis
  proof (cases rest)
    case Nil
    with assms Inr r show ?thesis by (simp add: Let_def split: if_splits)
  next
    case (Cons sep rest)
    note unfolded = assms [unfolded parse_node.simps Let_def Inr r Cons rbind_simps prod.case list.case]
    then obtain dir t where "parse_children fuel t (Suc depth) [] (rest, Suc nodes) = Inl NoFuel"
      by (auto simp: rbind_NoFuel split: option.splits if_splits)
    with that Inr r Cons show ?thesis by blast
  qed
qed

lemma parse_enough_fuel:
  "2 * length (fst st) < fuel \<Longrightarrow> parse_node fuel depth st \<noteq> Inl NoFuel"
  "2 * length (fst st) + 1 < fuel \<Longrightarrow> parse_children fuel t depth cs st \<noteq> Inl NoFuel"
proof (induction fuel arbitrary: depth st t cs)
  case (Suc fuel)
  case 1
  obtain input nodes where st: "st = (input, nodes)" by fastforce
  show ?case
  proof
    assume "parse_node (Suc fuel) depth st = Inl NoFuel"
    from this [unfolded st] obtain cell sep rest dir t where cell: "parse_cell input = Inr (cell, sep # rest)"
      and "parse_children fuel t (Suc depth) [] (rest, Suc nodes) = Inl NoFuel"
      by (rule parse_node_NoFuel)
    moreover have "2 * length (fst (rest, Suc nodes)) + 1 < fuel"
      using 1 parse_cell_length [OF cell] st by simp
    ultimately show False using Suc(2) by blast
  qed
next
  case (Suc fuel)
  case 2
  show ?case
  proof
    assume none: "parse_children (Suc fuel) t depth cs st = Inl NoFuel"
    have "parse_node fuel depth st \<noteq> Inl NoFuel" using Suc(1) 2 by simp
    with none obtain child b rest nodes where child: "parse_node fuel depth st = Inr (child, (b # rest, nodes))"
      and "parse_children fuel t depth (cs @ [child]) (rest, nodes) = Inl NoFuel"
      by (rule parse_children_NoFuel)
    moreover have "2 * length (fst (rest, nodes)) + 1 < fuel"
      using 2 parse_lengths(1) [OF child] by simp
    ultimately show False using Suc(2) by blast
  qed
qed simp_all

section \<open>What an accepted layout satisfies\<close>

fun layout_depth :: "layout \<Rightarrow> nat" where
  "layout_depth (Layout _ (Pane _)) = 0"
| "layout_depth (Layout _ (Split _ children)) = Suc (fold max (map layout_depth children) 0)"

fun no_empty_split :: "layout \<Rightarrow> bool" where
  "no_empty_split (Layout _ (Pane _)) = True"
| "no_empty_split (Layout _ (Split _ children)) = (children \<noteq> [] \<and> list_all no_empty_split children)"

lemma fold_max_le: "fold max xs (a :: nat) \<le> n \<longleftrightarrow> a \<le> n \<and> (\<forall>x\<in>set xs. x \<le> n)"
  by (induction xs arbitrary: a) auto

lemma fold_max_append [simp]: "fold max (xs @ ys) (a :: nat) = fold max ys (fold max xs a)"
  by simp

definition within_limits :: "nat \<Rightarrow> nat \<Rightarrow> layout \<Rightarrow> nat \<Rightarrow> bool" where
  "within_limits depth nodes l nodes' \<longleftrightarrow>
     depth + layout_depth l \<le> MAX_LAYOUT_DEPTH \<and> no_empty_split l \<and>
     nodes' = nodes + layout_size l \<and> nodes' \<le> MAX_LAYOUT_NODES"

lemma layout_size_pos [simp]: "0 < layout_size l"
  by (cases l rule: layout_size.cases) auto

lemma parse_within_limits:
  "parse_node fuel depth st = Inr (l, st') \<Longrightarrow> within_limits depth (snd st) l (snd st')"
  "parse_children fuel t depth cs st = Inr (cs', st') \<Longrightarrow>
     \<exists>new. cs' = cs @ new \<and> new \<noteq> [] \<and>
       (\<forall>c\<in>set new. depth + layout_depth c \<le> MAX_LAYOUT_DEPTH \<and> no_empty_split c) \<and>
       snd st' = snd st + sum_list (map layout_size new) \<and> snd st' \<le> MAX_LAYOUT_NODES"
proof (induction fuel arbitrary: depth st l st' t cs cs')
  case (Suc fuel)
  case 1
  obtain input nodes where st: "st = (input, nodes)" by fastforce
  from 1 [unfolded st] show ?case
  proof (cases rule: parse_nodeE)
    case (pane cell rest n rest')
    then show ?thesis by (simp add: within_limits_def st)
  next
    case (split cell sep rest dir t cs)
    from Suc(2) [OF split(4)] obtain new where new: "cs = new" "new \<noteq> []"
      "\<forall>c\<in>set new. Suc depth + layout_depth c \<le> MAX_LAYOUT_DEPTH \<and> no_empty_split c"
      "snd st' = Suc nodes + sum_list (map layout_size new)" "snd st' \<le> MAX_LAYOUT_NODES"
      by auto
    have "fold max (map layout_depth new) 0 \<le> MAX_LAYOUT_DEPTH - Suc depth"
      using new(3) by (auto simp: fold_max_le)
    moreover have "Suc depth \<le> MAX_LAYOUT_DEPTH"
      using new(2,3) by (cases new) auto
    ultimately show ?thesis
      using new split(5) by (auto simp: within_limits_def st list_all_iff)
  qed
next
  case (Suc fuel)
  case 2
  then show ?case
  proof (cases rule: parse_childrenE)
    case (last child rest nodes)
    then show ?thesis
      using Suc(1) [OF last(1)] by (auto simp: within_limits_def intro!: exI [of _ "[child]"])
  next
    case (more child rest nodes)
    from Suc(2) [OF more(2)] obtain new where "cs' = (cs @ [child]) @ new"
      "\<forall>c\<in>set new. depth + layout_depth c \<le> MAX_LAYOUT_DEPTH \<and> no_empty_split c"
      "snd st' = nodes + sum_list (map layout_size new)" "snd st' \<le> MAX_LAYOUT_NODES" by auto
    then show ?thesis
      using Suc(1) [OF more(1)]
      by (auto simp: within_limits_def intro!: exI [of _ "child # new"])
  qed
qed simp_all

lemma panes_loop_append: "panes_loop (xs @ ys) = panes_loop xs @ panes_loop ys"
  by (induction xs rule: panes_loop.induct) auto

text \<open>The leaves of a layout from left to right.\<close>

fun leaves :: "layout \<Rightarrow> (pane_id \<times> layout_cell) list" where
  "leaves (Layout cell (Pane pane)) = [(pane, cell)]"
| "leaves (Layout _ (Split _ children)) = concat (map leaves children)"

lemma panes_loop_leaves: "panes_loop pending = concat (map leaves pending)"
  by (induction pending rule: panes_loop.induct) auto

text \<open>
  Property C37: parsing a layout is total and bounded. For every input the parser returns a layout
  or one of its errors (the recursion never exhausts the fuel of the model, so it terminates), and
  an accepted layout is at most 64 levels deep, has at most 4096 nodes and no empty split.
\<close>

theorem layout_parse_bounded:
  "case layout_parse encoded of
     Inl stop \<Rightarrow> stop \<noteq> NoFuel
   | Inr l \<Rightarrow> layout_depth l \<le> 64 \<and> layout_size l \<le> 4096 \<and> no_empty_split l"
proof (cases "strip_checksum encoded")
  case (Inl e)
  then show ?thesis by (simp add: layout_parse_def)
next
  case (Inr body)
  have "parse_node (2 * length body + 2) 0 (body, 0) \<noteq> Inl NoFuel"
    by (rule parse_enough_fuel) simp
  then show ?thesis
    using Inr parse_within_limits(1) [of "2 * length body + 2" 0 "(body, 0)"]
    by (cases "parse_node (2 * length body + 2) 0 (body, 0)")
       (fastforce simp: layout_parse_def within_limits_def MAX_LAYOUT_DEPTH_def MAX_LAYOUT_NODES_def)+
qed

section \<open>Printing and parsing\<close>

text \<open>The layout string tmux writes for a layout, as the reference for the parser.\<close>

abbreviation comma :: byte where
  "comma \<equiv> of_char CHR '',''"

definition print_cell :: "layout_cell \<Rightarrow> bytes" where
  "print_cell c =
     show_digits (unat (cell_width c)) @ of_char CHR ''x'' # show_digits (unat (cell_height c)) @
     comma # show_digits (unat (cell_x c)) @ comma # show_digits (unat (cell_y c))"

fun join_comma :: "bytes list \<Rightarrow> bytes" where
  "join_comma [] = []"
| "join_comma [x] = x"
| "join_comma (x # y # xs) = x @ comma # join_comma (y # xs)"

fun brackets :: "split_direction \<Rightarrow> byte \<times> byte" where
  "brackets LeftRight = (of_char CHR ''{'', of_char CHR ''}'')"
| "brackets TopBottom = (of_char (CHR 0x5B), of_char (CHR 0x5D))"

fun print_layout :: "layout \<Rightarrow> bytes" where
  "print_layout (Layout c (Pane (PaneId n))) = print_cell c @ comma # show_decimal n"
| "print_layout (Layout c (Split dir children)) =
     print_cell c @ fst (brackets dir) # join_comma (map print_layout children) @ [snd (brackets dir)]"

definition no_digit_head :: "bytes \<Rightarrow> bool" where
  "no_digit_head bs \<longleftrightarrow> bs = [] \<or> \<not> is_ascii_digit (hd bs)"

lemma show_digits_ascii: "b \<in> set (show_digits n) \<Longrightarrow> is_ascii_digit b"
proof (induction n rule: show_digits.induct)
  case (1 n)
  have digit: "is_ascii_digit (of_nat (48 + d))" if "d < 10" for d
  proof -
    have "unat (of_nat (48 + d) :: byte) = 48 + d" using that by (simp only: unat_of_nat) simp
    then show ?thesis using that by (simp add: is_ascii_digit_def word_le_nat_alt del: of_nat_add)
  qed
  show ?case
  proof (cases "n < 10")
    case True
    with "1.prems" digit [of n] show ?thesis
      by (subst (asm) show_digits.simps) (simp del: of_nat_add)
  next
    case False
    have "b \<in> set (show_digits (n div 10)) \<or> b = of_nat (48 + n mod 10)"
      using "1.prems" False by (subst (asm) show_digits.simps) (auto simp del: of_nat_add)
    with "1.IH" [OF False] digit [of "n mod 10"] show ?thesis by auto
  qed
qed

lemma number_u64_show:
  assumes "n < 2 ^ 64" "no_digit_head rest"
  shows "number_u64 (show_digits n @ rest) = Inr (of_nat n, rest)"
proof -
  have "takeWhile is_ascii_digit (show_digits n @ rest) = show_digits n"
    "dropWhile is_ascii_digit (show_digits n @ rest) = rest"
    using show_digits_ascii [of _ n] assms(2)
    by (cases rest; auto simp: no_digit_head_def)+
  moreover have "parse_decimal (show_digits n) = Some (of_nat n)"
    using show_digits_numeral [of n] assms(1) by (simp add: parse_decimal_spec)
  ultimately show ?thesis by (simp add: number_u64_def)
qed

lemma number_u16_show:
  assumes "no_digit_head rest"
  shows "number_u16 (show_digits (unat (w :: u16)) @ rest) = Inr (w, rest)"
proof -
  have w: "unat w < 2 ^ 16" using unsigned_less [of w] by simp
  then have "unat (of_nat (unat w) :: u64) = unat w"
    by (simp only: unat_of_nat) (rule mod_less, simp)
  then show ?thesis
    using w number_u64_show [of "unat w" rest] assms
    by (simp add: number_u16_def u16_try_from_def)
qed

lemma parse_cell_print:
  assumes "no_digit_head rest"
  shows "parse_cell (print_cell c @ rest) = Inr (c, rest)"
  using assms
  by (cases c) (simp add: parse_cell_def print_cell_def number_u16_show no_digit_head_def
      is_ascii_digit_def expect_byte_def)

lemma print_layout_head: "\<exists>b bs. print_layout l = b # bs \<and> is_ascii_digit b"
proof -
  obtain c k where l: "l = Layout c k" by (cases l) auto
  obtain b bs where digits: "show_digits (unat (cell_width c)) = b # bs"
    using show_digits_numeral [of "unat (cell_width c)"] by (metis neq_Nil_conv)
  then have "is_ascii_digit b" using show_digits_ascii [of b "unat (cell_width c)"] by simp
  with digits l show ?thesis by (cases l rule: print_layout.cases) (auto simp: print_cell_def)
qed

lemma join_comma_head: "cs \<noteq> [] \<Longrightarrow> \<exists>b bs. join_comma (map print_layout cs) = b # bs \<and> is_ascii_digit b"
proof -
  assume "cs \<noteq> []"
  then obtain c cs' where cs: "cs = c # cs'" by (cases cs) auto
  obtain b bs where "print_layout c = b # bs" "is_ascii_digit b" using print_layout_head by blast
  then show ?thesis by (cases cs') (auto simp: cs)
qed

lemma bracket_facts:
  "split_bracket (fst (brackets dir)) = Some (dir, snd (brackets dir))"
  "fst (brackets dir) \<noteq> 44" "snd (brackets dir) \<noteq> comma"
  "\<not> is_ascii_digit (fst (brackets dir))" "\<not> is_ascii_digit (snd (brackets dir))"
  by (cases dir; simp add: split_bracket_def is_ascii_digit_def)+

definition parses_to :: "nat \<Rightarrow> layout \<Rightarrow> bool" where
  "parses_to fuel l \<longleftrightarrow> (\<forall>depth nodes rest. depth + layout_depth l \<le> MAX_LAYOUT_DEPTH \<longrightarrow>
     no_empty_split l \<longrightarrow> nodes + layout_size l \<le> MAX_LAYOUT_NODES \<longrightarrow> no_digit_head rest \<longrightarrow>
     parse_node fuel depth (print_layout l @ rest, nodes) \<in>
       {Inl NoFuel, Inr (l, (rest, nodes + layout_size l))})"

lemma parse_children_print:
  assumes "\<And>f c. f < fuel \<Longrightarrow> c \<in> set cs \<Longrightarrow> parses_to f c"
    and "cs \<noteq> []" "\<forall>c\<in>set cs. depth + layout_depth c \<le> MAX_LAYOUT_DEPTH \<and> no_empty_split c"
    and "nodes + sum_list (map layout_size cs) \<le> MAX_LAYOUT_NODES" "t \<noteq> comma" "\<not> is_ascii_digit t"
  shows "parse_children fuel t depth acc (join_comma (map print_layout cs) @ t # rest, nodes) \<in>
    {Inl NoFuel, Inr (acc @ cs, (rest, nodes + sum_list (map layout_size cs)))}"
  using assms(1-4)
proof (induction fuel arbitrary: cs acc nodes)
  case (Suc fuel)
  then obtain c cs' where cs: "cs = c # cs'" by (cases cs) auto
  let ?tail = "if cs' = [] then t # rest else comma # join_comma (map print_layout cs') @ t # rest"
  have input: "join_comma (map print_layout cs) @ t # rest = print_layout c @ ?tail"
    by (cases cs') (simp_all add: cs)
  have "no_digit_head ?tail"
    using assms(6) by (auto simp: no_digit_head_def is_ascii_digit_def)
  then have node: "parse_node fuel depth (print_layout c @ ?tail, nodes) \<in>
      {Inl NoFuel, Inr (c, (?tail, nodes + layout_size c))}"
    using Suc.prems(1) [of fuel c] Suc.prems(3,4) cs by (simp add: parses_to_def)
  show ?case
  proof (cases "parse_node fuel depth (print_layout c @ ?tail, nodes) = Inl NoFuel")
    case True
    then show ?thesis by (simp add: input)
  next
    case False
    with node have node: "parse_node fuel depth (print_layout c @ ?tail, nodes) =
        Inr (c, (?tail, nodes + layout_size c))" by simp
    show ?thesis
    proof (cases "cs' = []")
      case True
      with node show ?thesis by (simp add: input [unfolded True] cs Let_def)
    next
      case ne: False
      have "parse_children fuel t depth (acc @ [c])
          (join_comma (map print_layout cs') @ t # rest, nodes + layout_size c) \<in>
          {Inl NoFuel, Inr ((acc @ [c]) @ cs', (rest, nodes + layout_size c + sum_list (map layout_size cs')))}"
        using Suc.prems ne cs by (intro Suc.IH) (auto simp: add.assoc)
      moreover have "parse_children (Suc fuel) t depth acc (join_comma (map print_layout cs) @ t # rest, nodes) =
          parse_children fuel t depth (acc @ [c])
            (join_comma (map print_layout cs') @ t # rest, nodes + layout_size c)"
        unfolding input using node ne assms(5) by (simp add: Let_def)
      ultimately show ?thesis by (simp add: cs add.assoc)
    qed
  qed
qed simp

lemma parses_to_all: "parses_to fuel l"
proof (induction fuel arbitrary: l rule: less_induct)
  case (less fuel)
  show ?case
    unfolding parses_to_def
  proof (intro allI impI)
    fix depth nodes rest
    assume lim: "depth + layout_depth l \<le> MAX_LAYOUT_DEPTH" "no_empty_split l"
      "nodes + layout_size l \<le> MAX_LAYOUT_NODES" "no_digit_head rest"
    show "parse_node fuel depth (print_layout l @ rest, nodes) \<in>
       {Inl NoFuel, Inr (l, (rest, nodes + layout_size l))}"
    proof (cases fuel)
      case (Suc f)
      have ok: "\<not> MAX_LAYOUT_DEPTH < depth" "\<not> MAX_LAYOUT_NODES < Suc nodes"
        using lim(1,3) layout_size_pos [of l] by linarith+
      show ?thesis
      proof (cases l rule: print_layout.cases)
        case (1 c n)
        have "parse_cell (print_cell c @ comma # show_decimal n @ rest) = Inr (c, comma # show_decimal n @ rest)"
          by (rule parse_cell_print) (simp add: no_digit_head_def is_ascii_digit_def)
        moreover have "number_u64 (show_decimal n @ rest) = Inr (n, rest)"
          using number_u64_show [of "unat n" rest] lim(4) unsigned_less [of n]
          by (simp add: show_decimal_def)
        ultimately show ?thesis using ok by (simp add: Suc 1 Let_def)
      next
        case (2 c dir cs)
        let ?input = "fst (brackets dir) # join_comma (map print_layout cs) @ snd (brackets dir) # rest"
        have cell: "parse_cell (print_cell c @ ?input) = Inr (c, ?input)"
          by (rule parse_cell_print) (simp add: no_digit_head_def bracket_facts)
        have cs: "cs \<noteq> []" using lim(2) 2 by simp
        then obtain b bs where head: "join_comma (map print_layout cs) = b # bs" "is_ascii_digit b"
          using join_comma_head by blast
        then have b: "b \<noteq> snd (brackets dir)" using bracket_facts(5) [of dir] by auto
        have each: "\<forall>c\<in>set cs. Suc depth + layout_depth c \<le> MAX_LAYOUT_DEPTH \<and> no_empty_split c"
        proof
          fix c
          assume c: "c \<in> set cs"
          have "layout_depth c \<le> fold max (map layout_depth cs) 0"
            using c fold_max_le [of "map layout_depth cs" 0 "fold max (map layout_depth cs) 0"] by simp
          with lim(1,2) 2 c show "Suc depth + layout_depth c \<le> MAX_LAYOUT_DEPTH \<and> no_empty_split c"
            by (simp add: list_all_iff)
        qed
        have children: "parse_children f (snd (brackets dir)) (Suc depth) []
            (join_comma (map print_layout cs) @ snd (brackets dir) # rest, Suc nodes) \<in>
            {Inl NoFuel, Inr ([] @ cs, (rest, Suc nodes + sum_list (map layout_size cs)))}"
          using less Suc each cs lim(3) 2 bracket_facts [of dir]
          by (intro parse_children_print) auto
        have "parse_node fuel depth (print_layout l @ rest, nodes) =
            rbind (parse_children f (snd (brackets dir)) (Suc depth) []
              (join_comma (map print_layout cs) @ snd (brackets dir) # rest, Suc nodes))
              (\<lambda>(children, state). Inr (Layout c (Split dir children), state))"
          using ok cell b by (simp add: Suc 2 Let_def bracket_facts head)
        with children 2 show ?thesis by auto
      qed
    qed simp
  qed
qed

text \<open>The four lower-case hexadecimal digits of a checksum.\<close>

definition hex_char :: "nat \<Rightarrow> byte" where
  "hex_char d = (if d < 10 then of_nat (48 + d) else of_nat (87 + d))"

definition show_hex4 :: "u16 \<Rightarrow> bytes" where
  "show_hex4 w = [hex_char (unat w div 4096), hex_char (unat w div 256 mod 16),
     hex_char (unat w div 16 mod 16), hex_char (unat w mod 16)]"

lemma hex_char_digit:
  assumes "d < 16"
  shows "hex_digit (hex_char d) = Some d" "is_ascii_hexdigit (hex_char d)" "hex_char d \<noteq> comma"
proof -
  have "d \<in> set [0..<16]" using assms by simp
  moreover have "\<forall>d\<in>set [0..<16]. hex_digit (hex_char d) = Some d \<and> is_ascii_hexdigit (hex_char d) \<and> hex_char d \<noteq> comma"
    by code_simp
  ultimately show "hex_digit (hex_char d) = Some d" "is_ascii_hexdigit (hex_char d)" "hex_char d \<noteq> comma"
    by blast+
qed

lemma hex_digit_less: "hex_digit b = Some d \<Longrightarrow> d < 2 ^ LENGTH(16)"
proof -
  have "unat (b - 48) < 256" "unat (b - 97 + 10) < 256" "unat (b - 65 + 10) < 256"
    using unsigned_less [of "b - 48"] unsigned_less [of "b - 97 + 10"] unsigned_less [of "b - 65 + 10"]
    by simp_all
  then show "hex_digit b = Some d \<Longrightarrow> d < 2 ^ LENGTH(16)"
    by (auto simp: hex_digit_def split: if_splits)
qed

lemma show_hex4_value: "try_radix hex_digit 16 (0 :: u16) (show_hex4 w) = Some w"
proof -
  define n where "n = unat w"
  have n: "n < 65536" using unsigned_less [of w] by (simp add: n_def)
  then have "n div 4096 < 16" by (simp add: div_less_iff_less_mult)
  then have digits: "hex_digit (hex_char (n div 4096)) = Some (n div 4096)"
    "hex_digit (hex_char (n div 256 mod 16)) = Some (n div 256 mod 16)"
    "hex_digit (hex_char (n div 16 mod 16)) = Some (n div 16 mod 16)"
    "hex_digit (hex_char (n mod 16)) = Some (n mod 16)"
    by (simp_all add: hex_char_digit)
  have "n div 4096 = n div 256 div 16" "n div 256 = n div 16 div 16"
    by (simp_all add: div_mult2_eq [symmetric])
  then have val: "((n div 4096 * 16 + n div 256 mod 16) * 16 + n div 16 mod 16) * 16 + n mod 16 = n"
    by (metis div_mult_mod_eq)
  have "radix_value hex_digit 16 0 (show_hex4 w) = n"
    by (simp only: show_hex4_def n_def [symmetric] radix_value.simps digits option.sel val mult_0 add_0)
  moreover have "is_numeral hex_digit (show_hex4 w)"
    by (simp only: show_hex4_def n_def [symmetric] is_numeral_def list.pred_inject digits option.distinct simp_thms)
  ultimately show ?thesis
    using try_radix_value [of 16 hex_digit "0 :: u16" "show_hex4 w"] hex_digit_less n
    by (simp add: n_def)
qed

lemma show_hex4_digits:
  "list_all is_ascii_hexdigit (show_hex4 w)" "comma \<notin> set (show_hex4 w)"
proof -
  have "unat w < 65536" using unsigned_less [of w] by simp
  then have "unat w div 4096 < 16" by (simp add: div_less_iff_less_mult)
  then have "\<forall>d\<in>{unat w div 4096, unat w div 256 mod 16, unat w div 16 mod 16, unat w mod 16}. d < 16"
    by simp
  then show "list_all is_ascii_hexdigit (show_hex4 w)" "comma \<notin> set (show_hex4 w)"
    using hex_char_digit(2,3) by (auto simp: show_hex4_def)
qed

lemma position_of_append:
  "b \<notin> set xs \<Longrightarrow> position_of b (xs @ ys) = map_option (\<lambda>i. length xs + i) (position_of b ys)"
  by (cases "position_of b ys"; induction xs) auto

lemma strip_checksum_plain: "strip_checksum (print_layout l) = Inr (print_layout l)"
proof -
  obtain c k where "l = Layout c k" by (cases l) auto
  then obtain rest where p: "print_layout l = show_digits (unat (cell_width c)) @ of_char CHR ''x'' # rest"
    by (cases l rule: print_layout.cases) (auto simp: print_cell_def)
  let ?ds = "show_digits (unat (cell_width c))"
  have "comma \<notin> set ?ds" using show_digits_ascii by (force simp: is_ascii_digit_def)
  then have pos: "position_of comma (print_layout l) =
      map_option (\<lambda>i. Suc (length ?ds + i)) (position_of comma rest)"
    by (cases "position_of comma rest") (simp_all add: p position_of_append)
  have "\<not> list_all is_ascii_hexdigit (take (Suc (length ?ds + i)) (print_layout l))" for i
    by (simp add: p is_ascii_hexdigit_def)
  then show ?thesis
    unfolding strip_checksum_def pos by (cases "position_of comma rest") (simp_all add: Let_def)
qed

lemma strip_checksum_checked:
  "strip_checksum (show_hex4 (layout_checksum body) @ comma # body) = Inr body"
proof -
  let ?sum = "show_hex4 (layout_checksum body)"
  have len: "length ?sum = 4" by (simp add: show_hex4_def)
  have "position_of comma (?sum @ comma # body) = Some 4"
    using show_hex4_digits(2) by (simp add: position_of_append len)
  then show ?thesis
    unfolding strip_checksum_def using show_hex4_digits(1) show_hex4_value len by (simp add: Let_def)
qed

lemma parse_print_body:
  assumes "no_empty_split l" "layout_depth l \<le> MAX_LAYOUT_DEPTH" "layout_size l \<le> MAX_LAYOUT_NODES"
  shows "parse_node (2 * length (print_layout l) + 2) 0 (print_layout l, 0) = Inr (l, ([], layout_size l))"
proof -
  let ?fuel = "2 * length (print_layout l) + 2"
  have "parse_node ?fuel 0 (print_layout l, 0) \<noteq> Inl NoFuel"
    by (rule parse_enough_fuel) simp
  then show ?thesis
    using parses_to_all [of ?fuel l, unfolded parses_to_def, rule_format, of 0 0 "[]"] assms
    by (simp add: no_digit_head_def)
qed

text \<open>
  Property C38: layouts survive the wire. Every layout within the limits, printed as tmux prints it,
  with or without its checksum prefix, parses back to the same layout; and the pane iterator
  visits exactly its panes, from left to right, with their cells.
\<close>

theorem layout_roundtrip:
  assumes "no_empty_split l" "layout_depth l \<le> 64" "layout_size l \<le> 4096"
  shows "layout_parse (print_layout l) = Inr l \<and>
    layout_parse (show_hex4 (layout_checksum (print_layout l)) @ comma # print_layout l) = Inr l \<and>
    layout_panes l = leaves l"
proof (intro conjI)
  have body: "parse_node (2 * length (print_layout l) + 2) 0 (print_layout l, 0) = Inr (l, ([], layout_size l))"
    using assms by (intro parse_print_body) (simp_all add: MAX_LAYOUT_DEPTH_def MAX_LAYOUT_NODES_def)
  show "layout_parse (print_layout l) = Inr l"
    unfolding layout_parse_def strip_checksum_plain sum.case body by simp
  show "layout_parse (show_hex4 (layout_checksum (print_layout l)) @ comma # print_layout l) = Inr l"
    unfolding layout_parse_def strip_checksum_checked sum.case body by simp
  show "layout_panes l = leaves l" by (simp add: layout_panes_def panes_loop_leaves)
qed

definition sample_layout :: layout where
  "sample_layout =
     Layout \<lparr>cell_width = 100, cell_height = 50, cell_x = 0, cell_y = 0\<rparr> (Split LeftRight
       [Layout \<lparr>cell_width = 50, cell_height = 50, cell_x = 0, cell_y = 0\<rparr> (Pane (PaneId 0)),
        Layout \<lparr>cell_width = 49, cell_height = 50, cell_x = 51, cell_y = 0\<rparr> (Split TopBottom
          [Layout \<lparr>cell_width = 49, cell_height = 25, cell_x = 51, cell_y = 0\<rparr> (Pane (PaneId 1)),
           Layout \<lparr>cell_width = 49, cell_height = 24, cell_x = 51, cell_y = 26\<rparr> (Pane (PaneId 2))])])"

theorem layout_roundtrip_witness:
  "layout_parse (print_layout sample_layout) = Inr sample_layout \<and>
   map fst (layout_panes sample_layout) = [PaneId 0, PaneId 1, PaneId 2]"
proof -
  have "no_empty_split sample_layout" "layout_depth sample_layout \<le> 64" "layout_size sample_layout \<le> 4096"
    by (simp_all add: sample_layout_def)
  from layout_roundtrip [OF this] show ?thesis by (simp add: sample_layout_def)
qed

text \<open>
  A position is found in the pane that covers it. The lookup returns the first pane, in
  left-to-right order, whose cell contains the position, and nothing when no pane does; the
  saturating arithmetic of the bounds never matters for 16-bit cells.
\<close>

theorem pane_at_correct:
  "case pane_at l x y of
     None \<Rightarrow> \<not> (\<exists>(p, c)\<in>set (leaves l).
       unat (cell_x c) \<le> x \<and> x < unat (cell_x c) + unat (cell_width c) \<and>
       unat (cell_y c) \<le> y \<and> y < unat (cell_y c) + unat (cell_height c))
   | Some p \<Rightarrow> \<exists>before c later. leaves l = before @ (p, c) # later \<and>
       unat (cell_x c) \<le> x \<and> x < unat (cell_x c) + unat (cell_width c) \<and>
       unat (cell_y c) \<le> y \<and> y < unat (cell_y c) + unat (cell_height c) \<and>
       list_all (\<lambda>(_, c'). \<not> cell_contains c' x y) before"
proof -
  have sat: "saturating_add (unat (a :: u16)) (unat (b :: u16)) = unat a + unat b" for a b
  proof -
    have "unat a < 65536" "unat b < 65536"
      using unsigned_less [of a] unsigned_less [of b] by simp_all
    then show ?thesis by (simp add: saturating_add_def usize_max_def)
  qed
  have contains: "cell_contains c x y \<longleftrightarrow>
      unat (cell_x c) \<le> x \<and> x < unat (cell_x c) + unat (cell_width c) \<and>
      unat (cell_y c) \<le> y \<and> y < unat (cell_y c) + unat (cell_height c)" for c
    by (simp add: cell_contains_def Let_def sat)
  have panes: "layout_panes l = leaves l" by (simp add: layout_panes_def panes_loop_leaves)
  show ?thesis
  proof (cases "find (\<lambda>(_, cell). cell_contains cell x y) (leaves l)")
    case None
    then have "\<forall>(p, c)\<in>set (leaves l). \<not> cell_contains c x y" by (auto simp: find_None_iff)
    then show ?thesis
      unfolding pane_at_def panes None option.map option.case by (auto simp flip: contains)
  next
    case (Some pc)
    obtain p c where pc: "pc = (p, c)" by fastforce
    from Some obtain i where i: "i < length (leaves l)" "leaves l ! i = (p, c)"
      "cell_contains c x y" "\<forall>j<i. \<not> (case leaves l ! j of (_, cell) \<Rightarrow> cell_contains cell x y)"
      by (auto simp: find_Some_iff pc)
    have "leaves l = take i (leaves l) @ (p, c) # drop (Suc i) (leaves l)"
      using i(1,2) by (metis id_take_nth_drop)
    moreover have "list_all (\<lambda>(_, c'). \<not> cell_contains c' x y) (take i (leaves l))"
      using i(1,4) by (auto simp: list_all_length split: prod.splits)
    moreover note i(3) [unfolded contains]
    ultimately show ?thesis
      unfolding pane_at_def panes Some pc option.map option.case fst_conv by blast
  qed
qed

end
