(* ===== verification/Tmux_Protocol.thy ===== *)
theory Tmux_Protocol
  imports Tmux_Codec "HOL-Library.Sublist"
begin

text \<open>
  The line protocol of tmux control mode (\<open>crates/oxideterm-tmux/src/protocol.rs\<close> and
  \<open>notification.rs\<close>): command blocks, notifications and their fields. Borrowed slices of the
  line are byte strings.
\<close>

section \<open>Events\<close>

record command_guard =
  cg_timestamp :: u64
  cg_number :: u64
  cg_flags :: u64

definition is_control_command :: "command_guard \<Rightarrow> bool" where
  "is_control_command g \<longleftrightarrow> cg_flags g \<noteq> 0"

datatype notification =
    Output pane_id cow
  | ExtendedOutput pane_id u64 cow
  | Pause pane_id
  | Continue pane_id
  | PaneModeChanged pane_id
  | LayoutChanged window_id bytes "bytes option" "bytes option"
  | WindowAdded window_id
  | WindowClosed window_id
  | WindowRenamed window_id bytes
  | WindowPaneChanged window_id pane_id
  | UnlinkedWindowAdded window_id
  | UnlinkedWindowClosed window_id
  | UnlinkedWindowRenamed window_id bytes
  | SessionChanged session_id bytes
  | SessionRenamed session_id bytes
  | SessionWindowChanged session_id window_id
  | SessionsChanged
  | ClientDetached bytes
  | ClientSessionChanged bytes session_id bytes
  | PasteBufferChanged bytes
  | PasteBufferDeleted bytes
  | SubscriptionChanged bytes session_id "window_id option" "u64 option" "pane_id option" bytes
  | ConfigError bytes
  | Message bytes
  | Exit "bytes option"
  | Other bytes bytes

datatype control_event =
    Begin command_guard
  | End command_guard
  | Error command_guard
  | CommandOutput bytes
  | Notification notification
  | Text bytes

section \<open>Fields\<close>

definition space :: byte where
  "space = 32"

definition split_once :: "bytes \<Rightarrow> byte \<Rightarrow> bytes \<times> bytes" where
  "split_once bs delimiter =
     (case position_of delimiter bs of
        None \<Rightarrow> (bs, [])
      | Some index \<Rightarrow> (take index bs, drop (index + 1) bs))"

definition first_field :: "bytes \<Rightarrow> bytes" where
  "first_field bs = fst (split_once bs space)"

definition nonempty :: "bytes \<Rightarrow> bytes option" where
  "nonempty bs = (if bs = [] then None else Some bs)"

definition parse_optional :: "bytes \<Rightarrow> (bytes \<Rightarrow> 'a option) \<Rightarrow> 'a option option" where
  "parse_optional field parse = (if field = ascii ''-'' then Some None else map_option Some (parse field))"

text \<open>The offset of the first window of three bytes that is the delimiter.\<close>

fun find_window :: "bytes \<Rightarrow> bytes \<Rightarrow> nat option" where
  "find_window delimiter [] = None"
| "find_window delimiter (b # bs) =
     (if prefix delimiter (b # bs) then Some 0 else map_option Suc (find_window delimiter bs))"

definition payload_after_colon :: "bytes \<Rightarrow> bytes option" where
  "payload_after_colon fs =
     (if fs = ascii '':'' then Some []
      else if prefix (ascii '': '') fs then Some (drop 2 fs)
      else if suffix (ascii '' :'') fs then Some []
      else map_option (\<lambda>delimiter. drop (delimiter + 3) fs) (find_window (ascii '' : '') fs))"

section \<open>Notifications\<close>

definition parse_output :: "bytes \<Rightarrow> notification option" where
  "parse_output arguments =
     (case split_once arguments space of (pane, bs) \<Rightarrow>
        map_option (\<lambda>pane. Output pane (decode_output bs)) (pane_parse pane))"

definition parse_extended_output :: "bytes \<Rightarrow> notification option" where
  "parse_extended_output arguments =
     (case split_once arguments space of (pane, remaining) \<Rightarrow>
      case split_once remaining space of (milliseconds_behind, extension_fields) \<Rightarrow>
        Option.bind (pane_parse pane) (\<lambda>pane.
        Option.bind (parse_decimal milliseconds_behind) (\<lambda>age.
        Option.bind (payload_after_colon extension_fields) (\<lambda>payload.
          Some (ExtendedOutput pane age (decode_output payload))))))"

definition parse_pane :: "bytes \<Rightarrow> pane_id option" where
  "parse_pane arguments = pane_parse (first_field arguments)"

definition parse_window :: "bytes \<Rightarrow> window_id option" where
  "parse_window arguments = window_parse (first_field arguments)"

definition parse_layout_changed :: "bytes \<Rightarrow> notification option" where
  "parse_layout_changed arguments =
     (case split_once arguments space of (window, remaining) \<Rightarrow>
      case split_once remaining space of (layout, remaining) \<Rightarrow>
        if layout = [] then None
        else (case split_once remaining space of (visible_layout, flags) \<Rightarrow>
          map_option (\<lambda>window. LayoutChanged window layout (nonempty visible_layout) (nonempty flags))
            (window_parse window)))"

definition parse_window_name :: "bytes \<Rightarrow> bool \<Rightarrow> notification option" where
  "parse_window_name arguments unlinked =
     (case split_once arguments space of (window, name) \<Rightarrow>
        map_option (\<lambda>window. if unlinked then UnlinkedWindowRenamed window name else WindowRenamed window name)
          (window_parse window))"

definition parse_window_pane :: "bytes \<Rightarrow> notification option" where
  "parse_window_pane arguments =
     (case split_once arguments space of (window, pane) \<Rightarrow>
        Option.bind (window_parse window) (\<lambda>window.
          map_option (WindowPaneChanged window) (pane_parse (first_field pane))))"

definition parse_session_name :: "bytes \<Rightarrow> bool \<Rightarrow> notification option" where
  "parse_session_name arguments renamed =
     (case split_once arguments space of (session, name) \<Rightarrow>
        map_option (\<lambda>session. if renamed then SessionRenamed session name else SessionChanged session name)
          (session_parse session))"

definition parse_session_window :: "bytes \<Rightarrow> notification option" where
  "parse_session_window arguments =
     (case split_once arguments space of (session, window) \<Rightarrow>
        Option.bind (session_parse session) (\<lambda>session.
          map_option (SessionWindowChanged session) (window_parse (first_field window))))"

definition parse_client_session :: "bytes \<Rightarrow> notification option" where
  "parse_client_session arguments =
     (case split_once arguments space of (client, remaining) \<Rightarrow>
      case split_once remaining space of (session, name) \<Rightarrow>
        map_option (\<lambda>session. ClientSessionChanged client session name) (session_parse session))"

definition parse_subscription :: "bytes \<Rightarrow> notification option" where
  "parse_subscription arguments =
     (case split_once arguments space of (name, remaining) \<Rightarrow>
      case split_once remaining space of (session, remaining) \<Rightarrow>
      case split_once remaining space of (window, remaining) \<Rightarrow>
      case split_once remaining space of (window_index, remaining) \<Rightarrow>
      case split_once remaining space of (pane, extension_fields) \<Rightarrow>
        Option.bind (session_parse session) (\<lambda>session.
        Option.bind (parse_optional window window_parse) (\<lambda>window.
        Option.bind (parse_optional window_index parse_decimal) (\<lambda>window_index.
        Option.bind (parse_optional pane pane_parse) (\<lambda>pane.
        Option.bind (payload_after_colon extension_fields) (\<lambda>payload.
          Some (SubscriptionChanged name session window window_index pane payload)))))))"

definition or_else :: "'a option \<Rightarrow> 'a \<Rightarrow> 'a" where
  "or_else v d = (case v of None \<Rightarrow> d | Some x \<Rightarrow> x)"

definition parse_named :: "bytes \<Rightarrow> bytes \<Rightarrow> notification" where
  "parse_named name arguments =
     (let fallback = Other name arguments in
      if name = ascii ''output'' then or_else (parse_output arguments) fallback
      else if name = ascii ''extended-output'' then or_else (parse_extended_output arguments) fallback
      else if name = ascii ''pause'' then or_else (map_option Pause (parse_pane arguments)) fallback
      else if name = ascii ''continue'' then or_else (map_option Continue (parse_pane arguments)) fallback
      else if name = ascii ''pane-mode-changed''
        then or_else (map_option PaneModeChanged (parse_pane arguments)) fallback
      else if name = ascii ''layout-change'' then or_else (parse_layout_changed arguments) fallback
      else if name = ascii ''window-add''
        then or_else (map_option WindowAdded (parse_window arguments)) fallback
      else if name = ascii ''window-close''
        then or_else (map_option WindowClosed (parse_window arguments)) fallback
      else if name = ascii ''window-renamed'' then or_else (parse_window_name arguments False) fallback
      else if name = ascii ''window-pane-changed'' then or_else (parse_window_pane arguments) fallback
      else if name = ascii ''unlinked-window-add''
        then or_else (map_option UnlinkedWindowAdded (parse_window arguments)) fallback
      else if name = ascii ''unlinked-window-close''
        then or_else (map_option UnlinkedWindowClosed (parse_window arguments)) fallback
      else if name = ascii ''unlinked-window-renamed'' then or_else (parse_window_name arguments True) fallback
      else if name = ascii ''session-changed'' then or_else (parse_session_name arguments False) fallback
      else if name = ascii ''session-renamed'' then or_else (parse_session_name arguments True) fallback
      else if name = ascii ''session-window-changed'' then or_else (parse_session_window arguments) fallback
      else if name = ascii ''sessions-changed'' \<and> arguments = [] then SessionsChanged
      else if name = ascii ''client-detached'' then ClientDetached arguments
      else if name = ascii ''client-session-changed'' then or_else (parse_client_session arguments) fallback
      else if name = ascii ''paste-buffer-changed'' then PasteBufferChanged arguments
      else if name = ascii ''paste-buffer-deleted'' then PasteBufferDeleted arguments
      else if name = ascii ''subscription-changed'' then or_else (parse_subscription arguments) fallback
      else if name = ascii ''config-error'' then ConfigError arguments
      else if name = ascii ''message'' then Message arguments
      else if name = ascii ''exit'' then Exit (nonempty arguments)
      else fallback)"

definition parse_notification :: "bytes \<Rightarrow> notification option" where
  "parse_notification line =
     (case line of
        [] \<Rightarrow> None
      | b # rest \<Rightarrow>
          if b = of_char CHR ''%'' then
            (case split_once rest space of (name, arguments) \<Rightarrow> Some (parse_named name arguments))
          else None)"

section \<open>Command blocks\<close>

datatype guard_kind = GuardBegin | GuardEnd | GuardError

text \<open>\<open>slice::split\<close> at every occurrence of the delimiter.\<close>

fun split_fields :: "byte \<Rightarrow> bytes \<Rightarrow> bytes list" where
  "split_fields delimiter [] = [ [] ]"
| "split_fields delimiter (b # bs) =
     (if b = delimiter then [] # split_fields delimiter bs
      else (case split_fields delimiter bs of
              [] \<Rightarrow> [ [b] ]
            | f # fs \<Rightarrow> (b # f) # fs))"

definition guard_kind_of :: "bytes \<Rightarrow> guard_kind option" where
  "guard_kind_of field =
     (if field = ascii ''%begin'' then Some GuardBegin
      else if field = ascii ''%end'' then Some GuardEnd
      else if field = ascii ''%error'' then Some GuardError
      else None)"

definition parse_guard :: "bytes \<Rightarrow> (guard_kind \<times> command_guard) option" where
  "parse_guard line =
     (case split_fields space line of
        kind # timestamp # number # flags # rest \<Rightarrow>
          Option.bind (guard_kind_of kind) (\<lambda>kind.
          Option.bind (parse_decimal timestamp) (\<lambda>timestamp.
          Option.bind (parse_decimal number) (\<lambda>number.
          Option.bind (parse_decimal flags) (\<lambda>flags.
            if rest = []
            then Some (kind, \<lparr>cg_timestamp = timestamp, cg_number = number, cg_flags = flags\<rparr>)
            else None))))
      | _ \<Rightarrow> None)"

record control_parser =
  open_command :: "command_guard option"

definition control_parser_new :: control_parser where
  "control_parser_new = \<lparr>open_command = None\<rparr>"

definition control_parser_reset :: "control_parser \<Rightarrow> control_parser" where
  "control_parser_reset p = p\<lparr>open_command := None\<rparr>"

definition parse_line :: "bytes \<Rightarrow> control_parser \<Rightarrow> control_event \<times> control_parser" where
  "parse_line line p =
     (case open_command p of
        Some opened \<Rightarrow>
          (case parse_guard line of
             None \<Rightarrow> (CommandOutput line, p)
           | Some (kind, guard) \<Rightarrow>
               if cg_number guard = cg_number opened \<and> kind \<noteq> GuardBegin
               then ((case kind of GuardError \<Rightarrow> Error guard | _ \<Rightarrow> End guard), p\<lparr>open_command := None\<rparr>)
               else (CommandOutput line, p))
      | None \<Rightarrow>
          (case parse_guard line of
             Some (kind, guard) \<Rightarrow>
               (case kind of
                  GuardBegin \<Rightarrow> (Begin guard, p\<lparr>open_command := Some guard\<rparr>)
                | GuardEnd \<Rightarrow> (End guard, p)
                | GuardError \<Rightarrow> (Error guard, p))
           | None \<Rightarrow>
               (case parse_notification line of
                  Some n \<Rightarrow> (Notification n, p)
                | None \<Rightarrow> (Text line, p))))"

fun parse_lines :: "bytes list \<Rightarrow> control_parser \<Rightarrow> control_event list \<times> control_parser" where
  "parse_lines [] p = ([], p)"
| "parse_lines (line # rest) p =
     (case parse_line line p of (event, p) \<Rightarrow>
      case parse_lines rest p of (events, p) \<Rightarrow> (event # events, p))"

section \<open>Formatting\<close>

definition format_guard :: "bytes \<Rightarrow> command_guard \<Rightarrow> bytes" where
  "format_guard kind g =
     kind @ space # show_decimal (cg_timestamp g) @ space # show_decimal (cg_number g) @
     space # show_decimal (cg_flags g)"

lemma split_fields_ne [simp]: "split_fields d bs \<noteq> []"
  by (cases bs) (auto split: list.splits)

lemma split_fields_single: "d \<notin> set xs \<Longrightarrow> split_fields d xs = [xs]"
  by (induction xs) auto

lemma split_fields_append:
  "d \<notin> set xs \<Longrightarrow> split_fields d (xs @ d # ys) = xs # split_fields d ys"
  by (induction xs) auto

lemma show_decimal_digit: "b \<in> set (show_decimal w) \<Longrightarrow> 48 \<le> b \<and> b \<le> 57"
proof -
  have "list_all (\<lambda>b. digit_upto 9 b \<noteq> None) (show_decimal w)"
    using show_digits_numeral [of "unat w"] by (simp add: show_decimal_def is_numeral_def)
  moreover have "48 \<le> b \<and> b \<le> 57" if "digit_upto 9 b \<noteq> None" for b
  proof -
    have b: "\<not> b < 48" "unat (b - 48) \<le> 9"
      using that by (auto simp: digit_upto_def Let_def split: if_splits)
    then have "unat b - 48 \<le> 9" by (subst (asm) unat_sub) (simp_all add: not_less)
    then have "unat b \<le> 57" by linarith
    with b show ?thesis by (simp add: not_less word_le_nat_alt)
  qed
  ultimately show "b \<in> set (show_decimal w) \<Longrightarrow> 48 \<le> b \<and> b \<le> 57" by (simp add: list_all_iff)
qed

lemma show_decimal_no_space: "space \<notin> set (show_decimal w)"
  using show_decimal_digit [of space w] by (auto simp: space_def)

lemma parse_format_guard:
  assumes "guard_kind_of kind = Some k"
  shows "parse_guard (format_guard kind g) = Some (k, g)"
proof -
  have "space \<notin> set kind"
    using assms by (auto simp: guard_kind_of_def ascii_def space_def split: if_splits)
  then show ?thesis
    using assms
    by (simp add: parse_guard_def format_guard_def split_fields_append split_fields_single
        show_decimal_no_space)
qed

section \<open>Command blocks are framed\<close>

text \<open>A line that ends the block opened by \<open>g\<close>.\<close>

definition closes_block :: "command_guard \<Rightarrow> bytes \<Rightarrow> bool" where
  "closes_block g line =
     (case parse_guard line of
        None \<Rightarrow> False
      | Some (kind, guard) \<Rightarrow> cg_number guard = cg_number g \<and> kind \<noteq> GuardBegin)"

lemma parse_line_inside:
  "open_command p = Some g \<Longrightarrow> \<not> closes_block g line \<Longrightarrow> parse_line line p = (CommandOutput line, p)"
  by (auto simp: parse_line_def closes_block_def split: option.splits)

lemma parse_lines_inside:
  "open_command p = Some g \<Longrightarrow> list_all (\<lambda>line. \<not> closes_block g line) body \<Longrightarrow>
   parse_lines (body @ rest) p = (map CommandOutput body @ fst (parse_lines rest p), snd (parse_lines rest p))"
  by (induction body) (auto simp: parse_line_inside split: prod.splits)

text \<open>
  Command blocks are framed. From a parser with no open command, a begin guard, any
  response lines and the matching end or error guard give the begin event, each response line
  verbatim as command output (lines that look like notifications or like guards of other commands
  included), then the end or error event, and leave the parser with no open command.
\<close>

theorem command_block_framed:
  assumes "open_command p = None" "list_all (\<lambda>line. \<not> closes_block g line) body"
    and "cg_number h = cg_number g"
  shows "parse_lines ([format_guard (ascii ''%begin'') g] @ body @ [format_guard (ascii ''%end'') h]) p =
      ([Begin g] @ map CommandOutput body @ [End h], p) \<and>
    parse_lines ([format_guard (ascii ''%begin'') g] @ body @ [format_guard (ascii ''%error'') h]) p =
      ([Begin g] @ map CommandOutput body @ [Error h], p)"
proof -
  have kinds: "guard_kind_of (ascii ''%begin'') = Some GuardBegin" "guard_kind_of (ascii ''%end'') = Some GuardEnd"
    "guard_kind_of (ascii ''%error'') = Some GuardError"
    by (simp_all add: guard_kind_of_def ascii_def)
  let ?p = "p\<lparr>open_command := Some g\<rparr>"
  have opens: "parse_line (format_guard (ascii ''%begin'') g) p = (Begin g, ?p)"
    by (simp add: parse_line_def assms(1) parse_format_guard [OF kinds(1)])
  have "?p\<lparr>open_command := None\<rparr> = p" using assms(1) by simp
  then have "parse_line (format_guard (ascii ''%end'') h) ?p = (End h, p)"
    "parse_line (format_guard (ascii ''%error'') h) ?p = (Error h, p)"
    by (simp_all add: parse_line_def parse_format_guard [OF kinds(2)] parse_format_guard [OF kinds(3)] assms(3))
  with parse_lines_inside [of ?p g body] assms(2) opens show ?thesis by simp
qed

theorem command_block_framed_witness:
  "parse_lines
     [format_guard (ascii ''%begin'') \<lparr>cg_timestamp = 10, cg_number = 7, cg_flags = 1\<rparr>,
      ascii ''%output is command text'',
      format_guard (ascii ''%end'') \<lparr>cg_timestamp = 11, cg_number = 7, cg_flags = 1\<rparr>]
     control_parser_new =
   ([Begin \<lparr>cg_timestamp = 10, cg_number = 7, cg_flags = 1\<rparr>,
     CommandOutput (ascii ''%output is command text''),
     End \<lparr>cg_timestamp = 11, cg_number = 7, cg_flags = 1\<rparr>], control_parser_new)"
proof -
  have "\<not> closes_block \<lparr>cg_timestamp = 10, cg_number = 7, cg_flags = 1\<rparr> (ascii ''%output is command text'')"
    by (simp add: closes_block_def parse_guard_def guard_kind_of_def ascii_def space_def)
  with command_block_framed [of control_parser_new "\<lparr>cg_timestamp = 10, cg_number = 7, cg_flags = 1\<rparr>"
      "[ascii ''%output is command text'']" "\<lparr>cg_timestamp = 11, cg_number = 7, cg_flags = 1\<rparr>"]
  show ?thesis by (simp add: control_parser_new_def)
qed

section \<open>Notifications carry their payload\<close>

lemma split_once_append:
  assumes "delimiter \<notin> set xs"
  shows "split_once (xs @ delimiter # ys) delimiter = (xs, ys)" "split_once xs delimiter = (xs, [])"
proof -
  have "position_of delimiter (xs @ delimiter # ys) = Some (length xs)"
    using assms by (induction xs) auto
  then show "split_once (xs @ delimiter # ys) delimiter = (xs, ys)"
    by (simp add: split_once_def)
  show "split_once xs delimiter = (xs, [])"
    using assms position_of_None [of delimiter xs] by (simp add: split_once_def)
qed

lemma pane_display_no_space: "space \<notin> set (pane_display p)"
  using show_decimal_no_space by (cases p) (auto simp: space_def)

lemma pane_parse_display: "pane_parse (pane_display p) = Some p"
  by (cases p) (simp add: pane_parse_def parse_prefixed_decimal_def)

lemma parse_guard_name:
  assumes "space \<notin> set name" "guard_kind_of name = None"
  shows "parse_guard (name @ space # rest) = None"
  using assms by (auto simp: parse_guard_def split_fields_append split: list.split)

text \<open>
  Pane output reaches its pane intact. Outside a command block, the notification line
  tmux writes for bytes output by a pane, with any choice of escaped bytes, is parsed as output of
  that pane with exactly those bytes, and leaves the parser as it was.
\<close>

theorem output_line_delivers:
  assumes "open_command p = None"
  shows "\<exists>payload. parse_line (ascii ''%output'' @ space # pane_display pane @ space # escape_bytes P bs) p =
      (Notification (Output pane payload), p) \<and> cow_bytes payload = bs"
proof -
  have guard: "parse_guard (ascii ''%output'' @ space # pane_display pane @ space # escape_bytes P bs) = None"
    by (rule parse_guard_name) (simp_all add: ascii_def space_def guard_kind_of_def)
  have "parse_output (pane_display pane @ space # escape_bytes P bs) =
      Some (Output pane (decode_output (escape_bytes P bs)))"
    by (simp add: parse_output_def split_once_append pane_display_no_space pane_parse_display)
  moreover have "split_once (ascii ''output'' @ space # pane_display pane @ space # escape_bytes P bs) space =
      (ascii ''output'', pane_display pane @ space # escape_bytes P bs)"
    by (rule split_once_append) (simp add: ascii_def space_def)
  moreover have "ascii ''%output'' = of_char CHR ''%'' # ascii ''output''" by (simp add: ascii_def)
  ultimately have "parse_notification (ascii ''%output'' @ space # pane_display pane @ space # escape_bytes P bs) =
      Some (Output pane (decode_output (escape_bytes P bs)))"
    by (simp add: parse_notification_def parse_named_def or_else_def)
  with guard assms show ?thesis
    by (simp add: parse_line_def decode_output_loop decode_loop_escapes)
qed

theorem output_line_delivers_witness:
  "\<exists>payload. parse_line (ascii ''%output'' @ space # pane_display (PaneId 3) @ space #
       escape_bytes (\<lambda>b. b < 32) [104, 105, 27, 92]) control_parser_new =
     (Notification (Output (PaneId 3) payload), control_parser_new) \<and> cow_bytes payload = [104, 105, 27, 92]"
proof -
  have "open_command control_parser_new = None" by (simp add: control_parser_new_def)
  then show ?thesis by (rule output_line_delivers)
qed

lemma find_window_skip:
  assumes "58 \<notin> set fs"
  shows "find_window (ascii '' : '') (fs @ ascii '' : '' @ payload) = Some (length fs)"
  using assms
proof (induction fs)
  case (Cons b fs)
  have "\<not> prefix (ascii '' : '') ((b # fs) @ ascii '' : '' @ payload)"
    using Cons.prems by (cases fs) (auto simp: ascii_def)
  with Cons show ?case by simp
qed (simp add: ascii_def)

text \<open>
  What the separator search does with fields of future tmux versions. When reserved
  fields (which hold no colon) stand before the standalone colon, the payload is returned,
  unless the payload itself ends with a space and a colon or is a lone colon: then the whole
  payload is dropped, because the test for an empty payload looks at the end of the line first.
\<close>

theorem reserved_fields_payload:
  assumes "fs \<noteq> []" "58 \<notin> set fs"
  shows "payload_after_colon (fs @ ascii '' : '' @ payload) =
    (if suffix (ascii '' :'') (space # payload) then Some [] else Some payload)"
proof -
  have "suffix (ascii '' :'') (fs @ ascii '' : '' @ payload) \<longleftrightarrow> suffix (ascii '' :'') (space # payload)"
  proof (cases payload rule: rev_cases)
    case Nil
    then show ?thesis by (simp add: suffix_def ascii_def space_def append_eq_append_conv2 Cons_eq_append_conv)
  next
    case (snoc ys y)
    then show ?thesis
      by (cases ys rule: rev_cases) (auto simp: suffix_def ascii_def space_def Cons_eq_append_conv)
  qed
  moreover have "\<not> prefix (ascii '': '') (fs @ ascii '' : '' @ payload)"
    "fs @ ascii '' : '' @ payload \<noteq> ascii '':''"
    using assms by (cases fs; auto simp: ascii_def)+
  moreover have "drop (length fs + 3) (fs @ ascii '' : '' @ payload) = payload"
    by (simp add: ascii_def)
  ultimately show ?thesis
    using find_window_skip [OF assms(2), of payload] by (simp add: payload_after_colon_def)
qed

theorem reserved_fields_payload_witness:
  "payload_after_colon (ascii ''future field'' @ ascii '' : '' @ ascii ''text'') = Some (ascii ''text'') \<and>
   payload_after_colon (ascii ''future'' @ ascii '' : '' @ ascii ''text :'') = Some []"
  using reserved_fields_payload [of "ascii ''future field''" "ascii ''text''"]
    reserved_fields_payload [of "ascii ''future''" "ascii ''text :''"]
  by (simp add: ascii_def space_def suffix_def Cons_eq_append_conv)

end
