(* ===== verification/Tmux_Stream.thy ===== *)
theory Tmux_Stream
  imports Tmux_Protocol
begin

text \<open>
  Separation of ordinary terminal output from an in-band tmux control session
  (\<open>crates/oxideterm-tmux/src/stream.rs\<close>). The byte searches of the \<open>memchr\<close> crate stand as the
  record \<open>search_lib\<close>. The specification is a machine that looks at one byte at a time; the
  properties say that the buffered implementation computes what that machine does, however the
  input is divided into reads.
\<close>

section \<open>The stream\<close>

definition CONTROL_MODE_ENTER :: bytes where
  "CONTROL_MODE_ENTER = [0x1b, 80, 49, 48, 48, 48, 112]"

datatype stream_mode = Terminal | Control

datatype stream_event =
    TerminalOutput bytes
  | ControlModeEntered
  | ControlEvent control_event
  | ControlModeExited

text \<open>
  Why \<open>advance\<close> stops early: \<open>LineTooLong\<close> is the \<open>ControlStreamError\<close> with its two fields,
  \<open>Panicked\<close> an arithmetic underflow or the \<open>unreachable\<close> arm.
\<close>

datatype stream_stop = LineTooLong nat nat | Panicked

record control_stream =
  cs_mode :: stream_mode
  cs_enter_match_bytes :: nat
  cs_pending_line :: bytes
  cs_pending_control_escape :: bool
  cs_exit_announced :: bool
  cs_maximum_line_bytes :: nat
  cs_parser :: control_parser

record search_lib =
  memmem_find :: "bytes \<Rightarrow> bytes \<Rightarrow> nat option"
  memchr2 :: "byte \<Rightarrow> byte \<Rightarrow> bytes \<Rightarrow> nat option"

definition stream_new :: "nat \<Rightarrow> control_stream" where
  "stream_new maximum =
     \<lparr>cs_mode = Terminal, cs_enter_match_bytes = 0, cs_pending_line = [],
      cs_pending_control_escape = False, cs_exit_announced = False,
      cs_maximum_line_bytes = max maximum 1, cs_parser = control_parser_new\<rparr>"

definition trim_carriage_return :: "bytes \<Rightarrow> bytes" where
  "trim_carriage_return line = (if line \<noteq> [] \<and> last line = 13 then butlast line else line)"

definition trailing_entry_prefix_len :: "bytes \<Rightarrow> nat" where
  "trailing_entry_prefix_len bs =
     (let maximum = min (length bs) (length CONTROL_MODE_ENTER - 1) in
      case find (\<lambda>len. suffix (take len CONTROL_MODE_ENTER) bs) (rev [1..<maximum + 1]) of
        None \<Rightarrow> 0
      | Some len \<Rightarrow> len)"

definition enter_control :: "control_stream \<Rightarrow> control_stream" where
  "enter_control s =
     s\<lparr>cs_mode := Control, cs_parser := control_parser_reset (cs_parser s), cs_exit_announced := False\<rparr>"

text \<open>How many bytes of two sequences agree: \<open>zip\<close>, \<open>take_while\<close> and \<open>count\<close>.\<close>

fun matching :: "bytes \<Rightarrow> bytes \<Rightarrow> nat" where
  "matching (x # xs) (y # ys) = (if x = y then Suc (matching xs ys) else 0)"
| "matching _ _ = 0"

text \<open>
  One round of the loop of \<open>advance_terminal\<close> on the input that is left: the events, the rest of
  the input and the stream.
\<close>

definition terminal_round ::
    "search_lib \<Rightarrow> bytes \<Rightarrow> control_stream \<Rightarrow> stream_stop + (stream_event list \<times> bytes \<times> control_stream)" where
  "terminal_round S input s =
     (if cs_enter_match_bytes s \<noteq> 0 then
        let candidate_start = cs_enter_match_bytes s in
        if length CONTROL_MODE_ENTER < candidate_start then Inl Panicked
        else
          let compare_len = min (length input) (length CONTROL_MODE_ENTER - candidate_start);
              continuation = take compare_len (drop candidate_start CONTROL_MODE_ENTER);
              matched = matching continuation (take compare_len input);
              s = s\<lparr>cs_enter_match_bytes := candidate_start + matched\<rparr>;
              input = drop matched input
          in if cs_enter_match_bytes s = length CONTROL_MODE_ENTER then
               Inr ([ControlModeEntered], input, enter_control (s\<lparr>cs_enter_match_bytes := 0\<rparr>))
             else if matched < compare_len then
               Inr ([TerminalOutput (take (cs_enter_match_bytes s) CONTROL_MODE_ENTER)], input,
                    s\<lparr>cs_enter_match_bytes := 0\<rparr>)
             else Inr ([], input, s)
      else
        (case memmem_find S input CONTROL_MODE_ENTER of
           Some marker_offset \<Rightarrow>
             Inr ((if marker_offset \<noteq> 0 then [TerminalOutput (take marker_offset input)] else [])
                    @ [ControlModeEntered],
                  drop (marker_offset + length CONTROL_MODE_ENTER) input, enter_control s)
         | None \<Rightarrow>
             let partial_len = trailing_entry_prefix_len input;
                 terminal_len = length input - partial_len
             in Inr ((if terminal_len \<noteq> 0 then [TerminalOutput (take terminal_len input)] else []),
                     [], s\<lparr>cs_enter_match_bytes := partial_len\<rparr>)))"

definition check_line_length :: "nat \<Rightarrow> control_stream \<Rightarrow> stream_stop + unit" where
  "check_line_length line_bytes s =
     (if line_bytes \<le> cs_maximum_line_bytes s then Inr ()
      else Inl (LineTooLong line_bytes (cs_maximum_line_bytes s)))"

definition append_pending :: "bytes \<Rightarrow> control_stream \<Rightarrow> stream_stop + control_stream" where
  "append_pending bs s =
     rbind (check_line_length (min (length (cs_pending_line s) + length bs) usize_max) s) (\<lambda>_.
       Inr (s\<lparr>cs_pending_line := cs_pending_line s @ bs\<rparr>))"

definition is_exit :: "control_event \<Rightarrow> bool" where
  "is_exit e = (case e of Notification (Exit _) \<Rightarrow> True | _ \<Rightarrow> False)"

definition emit_line :: "bytes \<Rightarrow> control_stream \<Rightarrow> stream_event list \<times> control_stream" where
  "emit_line line s =
     (case parse_line line (cs_parser s) of
        (event, parser) \<Rightarrow>
          ([ControlEvent event],
           s\<lparr>cs_parser := parser, cs_exit_announced := cs_exit_announced s \<or> is_exit event\<rparr>))"

definition emit_pending_line :: "control_stream \<Rightarrow> stream_event list \<times> control_stream" where
  "emit_pending_line s =
     (if cs_pending_line s = [] then ([], s)
      else
        let s = (if last (cs_pending_line s) = 13
                 then s\<lparr>cs_pending_line := butlast (cs_pending_line s)\<rparr> else s)
        in (case parse_line (cs_pending_line s) (cs_parser s) of
              (event, parser) \<Rightarrow>
                ([ControlEvent event],
                 s\<lparr>cs_parser := parser, cs_exit_announced := cs_exit_announced s \<or> is_exit event,
                   cs_pending_line := []\<rparr>)))"

text \<open>One round of the loop of \<open>advance_control\<close>; the input is not empty.\<close>

definition control_round ::
    "search_lib \<Rightarrow> bytes \<Rightarrow> control_stream \<Rightarrow> stream_stop + (stream_event list \<times> bytes \<times> control_stream)" where
  "control_round S input s =
     (if cs_pending_control_escape s then
        if hd input = backslash \<and> cs_exit_announced s then
          (case emit_pending_line s of
             (events, s) \<Rightarrow>
               Inr (events @ [ControlModeExited], tl input,
                    s\<lparr>cs_pending_control_escape := False, cs_exit_announced := False,
                      cs_mode := Terminal, cs_parser := control_parser_reset (cs_parser s)\<rparr>))
        else rbind (append_pending [0x1b] s) (\<lambda>s.
               Inr ([], input, s\<lparr>cs_pending_control_escape := False\<rparr>))
      else
        (case memchr2 S 10 0x1b input of
           None \<Rightarrow> rbind (append_pending input s) (\<lambda>s. Inr ([], [], s))
         | Some delimiter_offset \<Rightarrow>
             let line = take delimiter_offset input; rest = drop (delimiter_offset + 1) input in
             if length input \<le> delimiter_offset then Inl Panicked
             else if input ! delimiter_offset = 10 then
               (if cs_pending_line s = [] then
                  rbind (check_line_length (length line) s) (\<lambda>_.
                    case emit_line (trim_carriage_return line) s of (events, s) \<Rightarrow> Inr (events, rest, s))
                else
                  rbind (append_pending line s) (\<lambda>s.
                    case emit_pending_line s of (events, s) \<Rightarrow> Inr (events, rest, s)))
             else if input ! delimiter_offset = 0x1b then
               rbind (append_pending line s) (\<lambda>s.
                 Inr ([], rest, s\<lparr>cs_pending_control_escape := True\<rparr>))
             else Inl Panicked))"

definition stream_round ::
    "search_lib \<Rightarrow> bytes \<Rightarrow> control_stream \<Rightarrow> stream_stop + (stream_event list \<times> bytes \<times> control_stream)" where
  "stream_round S input s =
     (case cs_mode s of Terminal \<Rightarrow> terminal_round S input s | Control \<Rightarrow> control_round S input s)"

lemma matching_le: "matching xs ys \<le> length xs" "matching xs ys \<le> length ys"
  by (induction xs ys rule: matching.induct) auto

definition round_measure :: "bytes \<Rightarrow> control_stream \<Rightarrow> nat" where
  "round_measure input s =
     3 * length input + (if cs_enter_match_bytes s \<noteq> 0 then 1 else 0) +
     (if cs_pending_control_escape s then 1 else 0)"

lemma append_pending_frame:
  "append_pending bs s = Inr t \<Longrightarrow> t = s\<lparr>cs_pending_line := cs_pending_line s @ bs\<rparr>"
  by (auto simp: append_pending_def)

lemma emit_frame:
  "cs_enter_match_bytes (snd (emit_line line s)) = cs_enter_match_bytes s"
  "cs_pending_control_escape (snd (emit_line line s)) = cs_pending_control_escape s"
  "cs_enter_match_bytes (snd (emit_pending_line s)) = cs_enter_match_bytes s"
  "cs_pending_control_escape (snd (emit_pending_line s)) = cs_pending_control_escape s"
  by (auto simp: emit_line_def emit_pending_line_def Let_def split: prod.splits)

lemma terminal_round_less:
  assumes "input \<noteq> []" "terminal_round S input s = Inr (events, rest, t)"
  shows "round_measure rest t < round_measure input s"
proof (cases "cs_enter_match_bytes s = 0")
  case True
  with assms show ?thesis
    by (cases input) (auto simp: terminal_round_def round_measure_def enter_control_def Let_def
        CONTROL_MODE_ENTER_def split: option.splits)
next
  case False
  let ?m = "cs_enter_match_bytes s"
  define c where "c = min (length input) (length CONTROL_MODE_ENTER - ?m)"
  define k where "k = matching (take c (drop ?m CONTROL_MODE_ENTER)) (take c input)"
  have le: "?m \<le> length CONTROL_MODE_ENTER" and k: "k \<le> c"
    using assms(2) False matching_le(1) [of "take c (drop ?m CONTROL_MODE_ENTER)" "take c input"]
    by (auto simp: terminal_round_def Let_def k_def split: if_splits)
  have c: "c \<le> length input" by (simp add: c_def)
  have round: "Inr (events, rest, t) =
      (if ?m + k = length CONTROL_MODE_ENTER then
         Inr ([ControlModeEntered], drop k input, enter_control (s\<lparr>cs_enter_match_bytes := 0\<rparr>))
       else if k < c then
         Inr ([TerminalOutput (take (?m + k) CONTROL_MODE_ENTER)], drop k input, s\<lparr>cs_enter_match_bytes := 0\<rparr>)
       else Inr ([], drop k input, s\<lparr>cs_enter_match_bytes := ?m + k\<rparr>)
       :: stream_stop + (stream_event list \<times> bytes \<times> control_stream))"
    using assms(2) False le unfolding terminal_round_def Let_def c_def [symmetric] k_def [symmetric]
    by (simp add: not_less split: if_splits)
  show ?thesis
  proof (cases "?m + k = length CONTROL_MODE_ENTER \<or> k < c")
    case True
    with round False k c show ?thesis
      by (auto simp: round_measure_def enter_control_def split: if_splits)
  next
    case full: False
    then have "k = c" using k by simp
    moreover have "0 < c"
    proof (rule ccontr)
      assume "\<not> 0 < c"
      then have "k = 0" using k by simp
      with full le have "0 < length CONTROL_MODE_ENTER - ?m" by simp
      with assms(1) \<open>\<not> 0 < c\<close> show False by (simp add: c_def)
    qed
    ultimately show ?thesis
      using round full False c by (auto simp: round_measure_def)
  qed
qed

lemma emit_line_frame: "emit_line line s = (events, t) \<Longrightarrow> cs_enter_match_bytes t = cs_enter_match_bytes s"
  using emit_frame(1) [of line s] by simp

lemma emit_pending_frame: "emit_pending_line s = (events, t) \<Longrightarrow> cs_enter_match_bytes t = cs_enter_match_bytes s"
  using emit_frame(3) [of s] by simp

lemma control_round_plain:
  assumes "\<not> cs_pending_control_escape s" "control_round S input s = Inr (events, rest, t)"
  shows "\<exists>n. (rest = [] \<or> rest = drop (Suc n) input) \<and> cs_enter_match_bytes t = cs_enter_match_bytes s"
proof (cases "memchr2 S 10 0x1b input")
  case None
  with assms show ?thesis
    by (auto simp: control_round_def dest: append_pending_frame)
next
  case (Some n)
  note round = assms(2) [unfolded control_round_def Some option.case if_not_P [OF assms(1)] Let_def]
  have n: "n < length input" using round by (auto split: if_splits)
  consider "input ! n = 10" "cs_pending_line s = []" | "input ! n = 10" "cs_pending_line s \<noteq> []"
    | "input ! n = 0x1b" using round by (auto split: if_splits)
  then have "rest = drop (Suc n) input \<and> cs_enter_match_bytes t = cs_enter_match_bytes s"
  proof cases
    case 1
    with round n show ?thesis by (auto split: prod.splits dest: emit_line_frame)
  next
    case 2
    with round n obtain u where "append_pending (take n input) s = Inr u"
      and "(case emit_pending_line u of (events, s) \<Rightarrow> Inr (events, drop (n + 1) input, s)) =
        (Inr (events, rest, t) :: stream_stop + (stream_event list \<times> bytes \<times> control_stream))" by auto
    then show ?thesis
      using append_pending_frame [of "take n input" s u] emit_pending_frame [of u events t]
      by (auto split: prod.splits)
  next
    case 3
    with round n show ?thesis by (auto dest: append_pending_frame)
  qed
  then show ?thesis by blast
qed

lemma control_round_less:
  assumes "input \<noteq> []" "control_round S input s = Inr (events, rest, t)"
  shows "round_measure rest t < round_measure input s"
proof -
  obtain b bs where input: "input = b # bs" using assms(1) by (cases input) auto
  have line: "round_measure (drop (Suc n) input) u < round_measure input s"
    if "cs_enter_match_bytes u = cs_enter_match_bytes s" for n u
  proof -
    have "3 * (length bs - n) \<le> 3 * length bs" by simp
    then show ?thesis using that by (simp add: round_measure_def input del: diff_le_self)
  qed
  show ?thesis
  proof (cases "cs_pending_control_escape s")
    case True
    with assms(2) line [of _ 0] emit_frame(3) [of s] show ?thesis
      by (auto simp: control_round_def round_measure_def input dest!: append_pending_frame
          split: if_splits prod.splits)
  next
    case False
    obtain n where "rest = [] \<or> rest = drop (Suc n) input" "cs_enter_match_bytes t = cs_enter_match_bytes s"
      using control_round_plain [OF False assms(2)] by blast
    then show ?thesis
      using line [of t n] False by (auto simp: round_measure_def input)
  qed
qed

lemma stream_round_less:
  "input \<noteq> [] \<Longrightarrow> stream_round S input s = Inr (events, rest, t) \<Longrightarrow>
   round_measure rest t < round_measure input s"
  by (cases "cs_mode s") (simp_all add: stream_round_def terminal_round_less control_round_less)

text \<open>
  \<open>advance\<close>: rounds until the input is used up. It gives the events emitted, the error if there
  was one, and the stream.
\<close>

function stream_advance ::
    "search_lib \<Rightarrow> bytes \<Rightarrow> control_stream \<Rightarrow> stream_event list \<times> stream_stop option \<times> control_stream" where
  "stream_advance S input s =
     (if input = [] then ([], None, s)
      else (case stream_round S input s of
              Inl stop \<Rightarrow> ([], Some stop, s)
            | Inr (events, rest, t) \<Rightarrow>
                (case stream_advance S rest t of
                   (later, stop, u) \<Rightarrow> (events @ later, stop, u))))"
  by pat_completeness auto
termination
  by (relation "measure (\<lambda>(S, input, s). round_measure input s)") (auto dest: stream_round_less)

declare stream_advance.simps [simp del]

section \<open>The byte machine\<close>

text \<open>What is observed: single bytes of terminal output and the other events.\<close>

datatype stream_atom = TermByte byte | Entered | ControlAtom control_event | Exited

fun event_atoms :: "stream_event \<Rightarrow> stream_atom list" where
  "event_atoms (TerminalOutput bs) = map TermByte bs"
| "event_atoms ControlModeEntered = [Entered]"
| "event_atoms (ControlEvent e) = [ControlAtom e]"
| "event_atoms ControlModeExited = [Exited]"

definition observed :: "stream_event list \<Rightarrow> stream_atom list" where
  "observed events = concat (map event_atoms events)"

text \<open>
  The specification. In terminal mode a byte extends the partial match of the entry marker, or the
  bytes held back are released. In control mode a byte extends the line, ends it, or is an
  escape whose meaning the next byte decides. \<open>None\<close> is a line over the limit.
\<close>

definition finish_line :: "control_stream \<Rightarrow> stream_atom list \<times> control_stream" where
  "finish_line s =
     (case parse_line (trim_carriage_return (cs_pending_line s)) (cs_parser s) of
        (event, parser) \<Rightarrow>
          ([ControlAtom event],
           s\<lparr>cs_parser := parser, cs_exit_announced := cs_exit_announced s \<or> is_exit event,
             cs_pending_line := []\<rparr>))"

definition extend_line :: "byte \<Rightarrow> control_stream \<Rightarrow> control_stream option" where
  "extend_line b s =
     (if length (cs_pending_line s) < cs_maximum_line_bytes s
      then Some (s\<lparr>cs_pending_line := cs_pending_line s @ [b]\<rparr>) else None)"

definition line_byte :: "byte \<Rightarrow> control_stream \<Rightarrow> (stream_atom list \<times> control_stream) option" where
  "line_byte b s =
     (if b = 10 then Some (finish_line s)
      else if b = 0x1b then Some ([], s\<lparr>cs_pending_control_escape := True\<rparr>)
      else map_option (\<lambda>s. ([], s)) (extend_line b s))"

definition leave_control :: "control_stream \<Rightarrow> stream_atom list \<times> control_stream" where
  "leave_control s =
     (case (if cs_pending_line s = [] then ([], s) else finish_line s) of
        (atoms, s) \<Rightarrow>
          (atoms @ [Exited],
           s\<lparr>cs_pending_control_escape := False, cs_exit_announced := False, cs_mode := Terminal,
             cs_parser := control_parser_reset (cs_parser s)\<rparr>))"

definition control_byte :: "byte \<Rightarrow> control_stream \<Rightarrow> (stream_atom list \<times> control_stream) option" where
  "control_byte b s =
     (if cs_pending_control_escape s then
        if b = backslash \<and> cs_exit_announced s then Some (leave_control s)
        else Option.bind (extend_line 0x1b s) (\<lambda>s. line_byte b (s\<lparr>cs_pending_control_escape := False\<rparr>))
      else line_byte b s)"

definition terminal_byte :: "byte \<Rightarrow> control_stream \<Rightarrow> stream_atom list \<times> control_stream" where
  "terminal_byte b s =
     (let m = cs_enter_match_bytes s; held = take m CONTROL_MODE_ENTER in
      if b = CONTROL_MODE_ENTER ! m then
        if m + 1 = length CONTROL_MODE_ENTER
        then ([Entered], enter_control (s\<lparr>cs_enter_match_bytes := 0\<rparr>))
        else ([], s\<lparr>cs_enter_match_bytes := m + 1\<rparr>)
      else if b = 0x1b then (map TermByte held, s\<lparr>cs_enter_match_bytes := 1\<rparr>)
      else (map TermByte (held @ [b]), s\<lparr>cs_enter_match_bytes := 0\<rparr>))"

definition spec_byte :: "byte \<Rightarrow> control_stream \<Rightarrow> (stream_atom list \<times> control_stream) option" where
  "spec_byte b s =
     (case cs_mode s of Terminal \<Rightarrow> Some (terminal_byte b s) | Control \<Rightarrow> control_byte b s)"

fun spec_run :: "control_stream \<Rightarrow> bytes \<Rightarrow> stream_atom list \<times> control_stream option" where
  "spec_run s [] = ([], Some s)"
| "spec_run s (b # bs) =
     (case spec_byte b s of
        None \<Rightarrow> ([], None)
      | Some (atoms, t) \<Rightarrow> (case spec_run t bs of (later, r) \<Rightarrow> (atoms @ later, r)))"

definition emits :: "stream_atom list \<Rightarrow> stream_atom list \<times> 'a \<Rightarrow> stream_atom list \<times> 'a" where
  "emits atoms r = (atoms @ fst r, snd r)"

lemma emits_simps [simp]:
  "emits [] r = r" "emits xs (emits ys r) = emits (xs @ ys) r"
  "fst (emits xs r) = xs @ fst r" "snd (emits xs r) = snd r"
  by (simp_all add: emits_def)

lemma spec_run_Cons:
  "spec_byte b s = Some (atoms, t) \<Longrightarrow> spec_run s (b # bs) = emits atoms (spec_run t bs)"
  by (simp add: emits_def split: prod.split)

section \<open>The search functions and the entry marker\<close>

text \<open>What the search functions document: the first occurrence, if there is one.\<close>

definition first_of2 :: "byte \<Rightarrow> byte \<Rightarrow> bytes \<Rightarrow> nat option" where
  "first_of2 a b bs =
     (let n = length (takeWhile (\<lambda>c. c \<noteq> a \<and> c \<noteq> b) bs) in if n < length bs then Some n else None)"

definition search_correct :: "search_lib \<Rightarrow> bool" where
  "search_correct S \<longleftrightarrow>
     (\<forall>needle hay. needle \<noteq> [] \<longrightarrow> memmem_find S hay needle = find_window needle hay) \<and>
     (\<forall>a b hay. memchr2 S a b hay = first_of2 a b hay)"

abbreviation marker :: bytes where
  "marker \<equiv> CONTROL_MODE_ENTER"

lemma length_marker [simp]: "length CONTROL_MODE_ENTER = 7"
  by (simp add: CONTROL_MODE_ENTER_def)

lemma marker_nth:
  assumes "i < 7" shows "CONTROL_MODE_ENTER ! i = 0x1b \<longleftrightarrow> i = 0"
proof -
  have "\<forall>i\<in>set [0..<7]. CONTROL_MODE_ENTER ! i = 0x1b \<longleftrightarrow> i = 0"
    by code_simp
  with assms show ?thesis by (auto simp del: upt_rec_numeral)
qed

lemma find_window_skip_general:
  "\<forall>j<length xs. \<not> prefix d (drop j (xs @ ys)) \<Longrightarrow>
   find_window d (xs @ ys) = map_option (\<lambda>i. length xs + i) (find_window d ys)"
proof (induction xs)
  case Nil
  then show ?case by (cases "find_window d ys") auto
next
  case (Cons x xs)
  have "\<not> prefix d (x # xs @ ys)" using Cons.prems [rule_format, of 0] by simp
  moreover have "\<forall>j<length xs. \<not> prefix d (drop j (xs @ ys))"
  proof (intro allI impI)
    fix j
    assume "j < length xs"
    then show "\<not> prefix d (drop j (xs @ ys))" using Cons.prems [rule_format, of "Suc j"] by simp
  qed
  ultimately show ?case using Cons.IH by (cases "find_window d ys") simp_all
qed

text \<open>The longest proper prefix of the marker that ends the input.\<close>

definition ends_with_prefix :: "bytes \<Rightarrow> nat \<Rightarrow> bool" where
  "ends_with_prefix bs k \<longleftrightarrow> k \<le> 6 \<and> k \<le> length bs \<and> suffix (take k CONTROL_MODE_ENTER) bs"

lemma nth_rev_upt:
  fixes n :: nat
  assumes "l < n"
  shows "rev [1..<n + 1] ! l = n - l"
proof -
  have "[1..<n + 1] ! (n - Suc l) = 1 + (n - Suc l)" using assms by (intro nth_upt) simp
  with assms show ?thesis by (simp add: rev_nth del: upt_Suc)
qed

lemma trailing_eqI:
  assumes "ends_with_prefix bs k" "\<And>j. ends_with_prefix bs j \<Longrightarrow> j \<le> k"
  shows "trailing_entry_prefix_len bs = k"
proof -
  let ?max = "min (length bs) 6"
  let ?f = "find (\<lambda>len. suffix (take len CONTROL_MODE_ENTER) bs) (rev [1..<?max + 1])"
  have ends: "ends_with_prefix bs j" if "suffix (take j CONTROL_MODE_ENTER) bs" "j \<le> ?max" for j
    using that by (simp add: ends_with_prefix_def)
  show ?thesis
  proof (cases ?f)
    case None
    then have "\<not> (\<exists>j. j \<in> set (rev [1..<?max + 1]) \<and> suffix (take j CONTROL_MODE_ENTER) bs)"
      by (simp only: find_None_iff not_False_eq_True)
    then have "\<And>j. 1 \<le> j \<Longrightarrow> j \<le> ?max \<Longrightarrow> \<not> suffix (take j CONTROL_MODE_ENTER) bs"
      by (simp only: set_rev set_upt atLeastLessThan_iff) (auto simp: less_Suc_eq_le)
    moreover have "k \<le> ?max" using assms(1) by (simp add: ends_with_prefix_def)
    ultimately have "k = 0" using assms(1) by (cases k) (auto simp: ends_with_prefix_def)
    then show ?thesis using None by (simp add: trailing_entry_prefix_len_def Let_def)
  next
    case (Some j)
    have rev: "rev [1..<?max + 1] ! l = ?max - l" if "l < ?max" for l
      using that by (rule nth_rev_upt)
    obtain i where i: "i < length (rev [1..<?max + 1])" "j = rev [1..<?max + 1] ! i"
      "suffix (take j CONTROL_MODE_ENTER) bs"
      "\<forall>l<i. \<not> suffix (take (rev [1..<?max + 1] ! l) CONTROL_MODE_ENTER) bs"
      using Some [unfolded find_Some_iff] by blast
    have i_max: "i < ?max" using i(1) by (simp del: upt_Suc)
    have j: "j = ?max - i" using i_max i(2) rev by simp
    have "j \<le> k" using i(3) unfolding j by (intro assms(2) ends diff_le_self)
    moreover have "k \<le> j"
    proof (rule ccontr)
      assume "\<not> k \<le> j"
      moreover have "k \<le> ?max" using assms(1) by (simp add: ends_with_prefix_def)
      ultimately have less: "?max - k < i" "?max - (?max - k) = k" using j by auto
      then have "rev [1..<?max + 1] ! (?max - k) = k" using rev [of "?max - k"] i_max by simp
      with i(4) less have "\<not> suffix (take k CONTROL_MODE_ENTER) bs" by metis
      with assms(1) show False by (simp add: ends_with_prefix_def)
    qed
    ultimately show ?thesis using Some by (simp add: trailing_entry_prefix_len_def Let_def)
  qed
qed

lemma ends_with_prefix_0: "ends_with_prefix bs 0"
  by (simp add: ends_with_prefix_def)

lemma find_window_None:
  "d \<noteq> [] \<Longrightarrow> find_window d ys = None \<longleftrightarrow> \<not> sublist d ys"
  by (induction ys) (auto simp: sublist_Cons_right)

lemma find_window_Some:
  assumes "d \<noteq> []" "find_window d ys = Some i"
  shows "ys = take i ys @ d @ drop (i + length d) ys"
    and "\<not> sublist d (take (i + length d - 1) ys)"
  using assms(2)
proof (induction ys arbitrary: i)
  case (Cons y ys)
  {
    case 1
    then show ?case using Cons.IH(1) by (auto split: if_splits elim!: prefixE)
  next
    case 2
    show ?case
    proof (cases "prefix d (y # ys)")
      case True
      with 2 have "i = 0" by simp
      moreover have "length (take (length d - 1) (y # ys)) < length d"
        using assms(1) by (cases d) auto
      ultimately show ?thesis
        using sublist_length_le [of d "take (length d - 1) (y # ys)"] by auto
    next
      case False
      with 2 obtain j where j: "find_window d ys = Some j" "i = Suc j" by auto
      have "\<not> sublist d (take (j + length d - 1) ys)" using Cons.IH(2) j(1) by blast
      moreover have "take (i + length d - 1) (y # ys) = y # take (j + length d - 1) ys"
        using j(2) assms(1) by (cases d) auto
      moreover have "\<not> prefix d (y # take (j + length d - 1) ys)"
        using False prefix_order.trans [of d "y # take (j + length d - 1) ys" "y # ys"]
        by (auto simp: take_is_prefix)
      ultimately show ?thesis by (simp add: sublist_Cons_right)
    qed
  }
qed auto

text \<open>How the longest marker prefix at the end changes with one more byte.\<close>

lemma ends_with_prefix_snoc:
  "ends_with_prefix (bs @ [b]) (Suc j) \<longleftrightarrow>
   j < 6 \<and> ends_with_prefix bs j \<and> CONTROL_MODE_ENTER ! j = b"
proof (cases "j < 6")
  case True
  then have "take (Suc j) CONTROL_MODE_ENTER = take j CONTROL_MODE_ENTER @ [CONTROL_MODE_ENTER ! j]"
    by (simp add: take_Suc_conv_app_nth)
  with True show ?thesis by (auto simp: ends_with_prefix_def)
qed (simp add: ends_with_prefix_def)

lemma trailing_is_longest:
  "ends_with_prefix bs (trailing_entry_prefix_len bs)"
  "ends_with_prefix bs j \<Longrightarrow> j \<le> trailing_entry_prefix_len bs"
proof -
  let ?k = "Greatest (ends_with_prefix bs)"
  have bound: "\<And>j. ends_with_prefix bs j \<Longrightarrow> j \<le> 6" by (simp add: ends_with_prefix_def)
  have k: "ends_with_prefix bs ?k"
    using GreatestI_nat [of "ends_with_prefix bs" 0 6] bound ends_with_prefix_0 by blast
  have le: "\<And>j. ends_with_prefix bs j \<Longrightarrow> j \<le> ?k"
    using Greatest_le_nat [of "ends_with_prefix bs" _ 6] bound by blast
  have "trailing_entry_prefix_len bs = ?k" by (rule trailing_eqI [OF k le])
  with k le show "ends_with_prefix bs (trailing_entry_prefix_len bs)"
    "ends_with_prefix bs j \<Longrightarrow> j \<le> trailing_entry_prefix_len bs" by auto
qed

lemma trailing_snoc_match:
  assumes "b = CONTROL_MODE_ENTER ! trailing_entry_prefix_len bs" "trailing_entry_prefix_len bs < 6"
  shows "trailing_entry_prefix_len (bs @ [b]) = Suc (trailing_entry_prefix_len bs)"
proof (rule trailing_eqI)
  show "ends_with_prefix (bs @ [b]) (Suc (trailing_entry_prefix_len bs))"
    using assms trailing_is_longest(1) by (simp add: ends_with_prefix_snoc)
  show "j \<le> Suc (trailing_entry_prefix_len bs)" if "ends_with_prefix (bs @ [b]) j" for j
    using that trailing_is_longest(2) [of bs "j - 1"] by (cases j) (auto simp: ends_with_prefix_snoc)
qed

lemma ends_with_prefix_drop:
  assumes "ends_with_prefix bs i"
  shows "take i CONTROL_MODE_ENTER = drop (length bs - i) bs"
proof -
  obtain zs where bs: "bs = zs @ take i CONTROL_MODE_ENTER" and "i \<le> 6"
    using assms by (auto simp: ends_with_prefix_def suffix_def)
  then have "length bs - i = length zs" by simp
  with bs show ?thesis by simp
qed

text \<open>A shorter prefix cannot end where a longer one does: the marker has its escape only in front.\<close>

lemma ends_with_two_prefixes:
  assumes "ends_with_prefix bs i" "ends_with_prefix bs j" "0 < i" "i < j"
  shows False
proof -
  have len: "i \<le> length bs" "j \<le> length bs" "j \<le> 6"
    using assms(1,2) by (simp_all add: ends_with_prefix_def)
  note i = ends_with_prefix_drop [OF assms(1)] and j = ends_with_prefix_drop [OF assms(2)]
  have "CONTROL_MODE_ENTER ! 0 = bs ! (length bs - i)"
    using arg_cong [OF i, of "\<lambda>l. l ! 0"] len assms(3) by simp
  moreover have "CONTROL_MODE_ENTER ! (j - i) = bs ! (length bs - i)"
    using arg_cong [OF j, of "\<lambda>l. l ! (j - i)"] len assms(3,4) by simp
  moreover have "j - i < 7" "j - i \<noteq> 0" using len assms(4) by simp_all
  ultimately show False
    using marker_nth [of 0] marker_nth [of "j - i"] by simp
qed

lemma trailing_snoc_mismatch:
  assumes "b \<noteq> CONTROL_MODE_ENTER ! trailing_entry_prefix_len bs"
  shows "trailing_entry_prefix_len (bs @ [b]) = (if b = 0x1b then 1 else 0)"
proof (rule trailing_eqI)
  show "ends_with_prefix (bs @ [b]) (if b = 0x1b then 1 else 0)"
    using ends_with_prefix_0 ends_with_prefix_snoc [of bs b 0] marker_nth [of 0] by auto
  show "j \<le> (if b = 0x1b then 1 else 0)" if j: "ends_with_prefix (bs @ [b]) j" for j
  proof (cases j)
    case (Suc i)
    with j have i: "i < 6" "ends_with_prefix bs i" "CONTROL_MODE_ENTER ! i = b"
      by (auto simp: ends_with_prefix_snoc)
    have "i = 0"
      using ends_with_two_prefixes [OF i(2) trailing_is_longest(1)] trailing_is_longest(2) [OF i(2)]
        i(3) assms by (cases "i = trailing_entry_prefix_len bs") auto
    with i(3) Suc show ?thesis using marker_nth [of 0] by auto
  qed simp
qed

section \<open>Terminal mode\<close>

lemma spec_run_append:
  "spec_run s (xs @ ys) =
     (case spec_run s xs of
        (atoms, None) \<Rightarrow> (atoms, None)
      | (atoms, Some t) \<Rightarrow> emits atoms (spec_run t ys))"
  by (induction xs arbitrary: s) (auto simp: emits_def split: option.splits prod.splits)

lemma trailing_le: "trailing_entry_prefix_len bs \<le> 6" "trailing_entry_prefix_len bs \<le> length bs"
  using trailing_is_longest(1) [of bs] by (simp_all add: ends_with_prefix_def)

lemma trailing_held:
  "take (trailing_entry_prefix_len bs) CONTROL_MODE_ENTER = drop (length bs - trailing_entry_prefix_len bs) bs"
  by (rule ends_with_prefix_drop [OF trailing_is_longest(1)])

text \<open>As long as no marker is complete, everything but the open prefix has been released.\<close>

lemma terminal_run_plain:
  assumes "cs_mode s = Terminal" "cs_enter_match_bytes s = 0"
  shows "\<not> sublist CONTROL_MODE_ENTER ys \<Longrightarrow>
    spec_run s ys =
      (map TermByte (take (length ys - trailing_entry_prefix_len ys) ys),
       Some (s\<lparr>cs_enter_match_bytes := trailing_entry_prefix_len ys\<rparr>))"
proof (induction ys rule: rev_induct)
  case Nil
  then show ?case using trailing_le [of "[]"] assms by simp
next
  case (snoc b ys)
  let ?p = "trailing_entry_prefix_len ys"
  have none: "\<not> sublist CONTROL_MODE_ENTER ys"
    using snoc.prems by (auto simp: sublist_append)
  note IH = snoc.IH [OF none]
  show ?case
  proof (cases "b = CONTROL_MODE_ENTER ! ?p")
    case True
    have "?p \<noteq> 6"
    proof
      assume p: "?p = 6"
      have "take 7 CONTROL_MODE_ENTER = take 6 CONTROL_MODE_ENTER @ [CONTROL_MODE_ENTER ! 6]"
        using take_Suc_conv_app_nth [of 6 CONTROL_MODE_ENTER] by simp
      then have "CONTROL_MODE_ENTER = drop (length ys - 6) ys @ [b]"
        using True p trailing_held [of ys] by simp
      then have "suffix CONTROL_MODE_ENTER (ys @ [b])" by (metis suffix_append suffix_drop)
      with snoc.prems show False by (simp add: suffix_imp_sublist)
    qed
    then have p: "?p < 6" using trailing_le [of ys] by simp
    then show ?thesis
      using True assms trailing_le [of ys]
      by (simp add: spec_run_append IH spec_byte_def terminal_byte_def emits_def
          trailing_snoc_match [OF refl p] Let_def Suc_diff_le)
  next
    case False
    have "take ?p CONTROL_MODE_ENTER = drop (length ys - ?p) ys" by (rule trailing_held)
    then have "map TermByte (take (length ys - ?p) ys) @ map TermByte (take ?p CONTROL_MODE_ENTER) =
        map TermByte ys"
      by (metis append_take_drop_id map_append)
    with False show ?thesis
      using assms by (simp add: spec_run_append IH spec_byte_def terminal_byte_def emits_def
          trailing_snoc_mismatch [OF False] Let_def)
  qed
qed

text \<open>
  The invariant of the stream between rounds. The limit stays below the address space, as every
  buffer does.
\<close>

definition stream_ok :: "control_stream \<Rightarrow> bool" where
  "stream_ok s \<longleftrightarrow>
     cs_enter_match_bytes s \<le> 6 \<and> length (cs_pending_line s) \<le> cs_maximum_line_bytes s \<and>
     cs_maximum_line_bytes s < usize_max"

lemma emits_Pair [simp]: "emits xs (ys, r) = (xs @ ys, r)"
  by (simp add: emits_def)

lemma observed_simps [simp]:
  "observed [] = []" "observed (e # es) = event_atoms e @ observed es"
  "observed (es @ fs) = observed es @ observed fs"
  by (simp_all add: observed_def)

text \<open>What a round has to show: it does what the byte machine does on the bytes it used up.\<close>

definition round_simulates ::
    "control_stream \<Rightarrow> bytes \<Rightarrow> stream_stop + (stream_event list \<times> bytes \<times> control_stream) \<Rightarrow> bool" where
  "round_simulates s input r \<longleftrightarrow>
     (case r of
        Inl (LineTooLong n m) \<Rightarrow> spec_run s input = ([], None) \<and> m = cs_maximum_line_bytes s \<and> m < n
      | Inl Panicked \<Rightarrow> False
      | Inr (events, rest, t) \<Rightarrow>
          spec_run s input = emits (observed events) (spec_run t rest) \<and> stream_ok t \<and>
          cs_maximum_line_bytes t = cs_maximum_line_bytes s)"

lemma round_simulates_Inr:
  "spec_run s input = emits (observed events) (spec_run t rest) \<Longrightarrow> stream_ok t \<Longrightarrow>
   cs_maximum_line_bytes t = cs_maximum_line_bytes s \<Longrightarrow>
   round_simulates s input (Inr (events, rest, t))"
  by (simp add: round_simulates_def)

lemma match_zero: "cs_enter_match_bytes s = 0 \<Longrightarrow> s\<lparr>cs_enter_match_bytes := 0\<rparr> = s"
  by (cases s) simp

lemma terminal_search_simulates:
  assumes "search_correct S" "stream_ok s" "cs_mode s = Terminal" "cs_enter_match_bytes s = 0"
  shows "round_simulates s input (terminal_round S input s)"
proof (cases "find_window CONTROL_MODE_ENTER input")
  case None
  have "\<not> sublist CONTROL_MODE_ENTER input"
    using None find_window_None [of CONTROL_MODE_ENTER input] by (simp add: CONTROL_MODE_ENTER_def)
  note run = terminal_run_plain [OF assms(3,4) this]
  have search: "memmem_find S input CONTROL_MODE_ENTER = None"
    using assms(1) None by (simp add: search_correct_def CONTROL_MODE_ENTER_def)
  show ?thesis
    unfolding terminal_round_def using assms search
    by (simp add: Let_def round_simulates_Inr run stream_ok_def trailing_le split: if_split)
next
  case (Some i)
  have ne: "CONTROL_MODE_ENTER \<noteq> []" by (simp add: CONTROL_MODE_ENTER_def)
  have search: "memmem_find S input CONTROL_MODE_ENTER = Some i"
    using assms(1) Some by (simp add: search_correct_def CONTROL_MODE_ENTER_def)
  note split = find_window_Some [OF ne Some, unfolded length_marker]
  define before where "before = take i input @ take 6 CONTROL_MODE_ENTER"
  have six: "CONTROL_MODE_ENTER = take 6 CONTROL_MODE_ENTER @ [CONTROL_MODE_ENTER ! 6]"
    using take_Suc_conv_app_nth [of 6 CONTROL_MODE_ENTER] by simp
  have "length (take i input) = i" using split(1) by (metis length_take min.absorb2 nat_le_linear take_all
        append_eq_conv_conj append_is_Nil_conv ne self_append_conv)
  then have "take (i + 7 - 1) input = before"
    by (subst split(1)) (simp add: before_def)
  with split(2) have none: "\<not> sublist CONTROL_MODE_ENTER before" by simp
  have longest: "trailing_entry_prefix_len before = 6"
    by (rule trailing_eqI) (auto simp: ends_with_prefix_def before_def suffix_def)
  have input: "input = before @ CONTROL_MODE_ENTER ! 6 # drop (i + 7) input"
    using split(1) six unfolding before_def by (metis append_assoc append_Cons append_Nil)
  have "spec_run s input =
      emits (map TermByte (take i input) @ [Entered]) (spec_run (enter_control s) (drop (i + 7) input))"
  proof -
    have "take (length before - 6) before = take i input"
      using \<open>length (take i input) = i\<close> by (simp add: before_def)
    then have "spec_run s before = (map TermByte (take i input), Some (s\<lparr>cs_enter_match_bytes := 6\<rparr>))"
      using terminal_run_plain [OF assms(3,4) none] longest by simp
    then show ?thesis
      using assms(3,4) by (subst input)
        (simp add: spec_run_append spec_byte_def terminal_byte_def match_zero emits_def split: prod.split)
  qed
  then show ?thesis
    unfolding terminal_round_def using assms search
    by (simp add: round_simulates_Inr stream_ok_def enter_control_def split: if_split)
qed

text \<open>A partial match: fed with the bytes of the marker, the byte machine only counts them.\<close>

lemma spec_run_marker:
  assumes "cs_mode s = Terminal" "cs_enter_match_bytes s = m"
  shows "m + k \<le> 6 \<Longrightarrow>
    spec_run s (take k (drop m CONTROL_MODE_ENTER) @ rest) = spec_run (s\<lparr>cs_enter_match_bytes := m + k\<rparr>) rest"
proof (induction k arbitrary: rest)
  case 0
  then show ?case using assms by (cases s) simp
next
  case (Suc k)
  have "take (Suc k) (drop m CONTROL_MODE_ENTER) @ rest =
      take k (drop m CONTROL_MODE_ENTER) @ CONTROL_MODE_ENTER ! (m + k) # rest"
    using Suc.prems by (simp add: take_Suc_conv_app_nth)
  then have "spec_run s (take (Suc k) (drop m CONTROL_MODE_ENTER) @ rest) =
      spec_run (s\<lparr>cs_enter_match_bytes := m + k\<rparr>) (CONTROL_MODE_ENTER ! (m + k) # rest)"
    using Suc.prems Suc.IH [of "CONTROL_MODE_ENTER ! (m + k) # rest"] by simp
  also have "\<dots> = spec_run (s\<lparr>cs_enter_match_bytes := m + Suc k\<rparr>) rest"
    using Suc.prems assms by (simp add: spec_byte_def terminal_byte_def Let_def)
  finally show ?case .
qed

lemma spec_run_release:
  assumes "cs_mode s = Terminal" "0 < j" "j \<le> 6" "b \<noteq> CONTROL_MODE_ENTER ! j"
  shows "spec_run (s\<lparr>cs_enter_match_bytes := j\<rparr>) (b # rest) =
    emits (map TermByte (take j CONTROL_MODE_ENTER)) (spec_run (s\<lparr>cs_enter_match_bytes := 0\<rparr>) (b # rest))"
  using assms marker_nth [of 0]
  by (auto simp: spec_byte_def terminal_byte_def Let_def split: prod.splits)

lemma matching_take: "take (matching xs ys) ys = take (matching xs ys) xs"
  by (induction xs ys rule: matching.induct) auto

lemma matching_stops:
  "matching xs ys < length xs \<Longrightarrow> matching xs ys < length ys \<Longrightarrow> xs ! matching xs ys \<noteq> ys ! matching xs ys"
  by (induction xs ys rule: matching.induct) (auto split: if_splits)

lemma terminal_match_simulates:
  assumes "stream_ok s" "cs_mode s = Terminal" "cs_enter_match_bytes s = m" "0 < m"
  shows "round_simulates s input (terminal_round S input s)"
proof -
  define c where "c = min (length input) (7 - m)"
  define k where "k = matching (take c (drop m CONTROL_MODE_ENTER)) (take c input)"
  have m: "m \<le> 6" and k: "k \<le> c" and c: "c \<le> length input" "c \<le> 7 - m"
    using assms(1,3) matching_le(2) [of "take c (drop m CONTROL_MODE_ENTER)" "take c input"]
    by (auto simp: stream_ok_def c_def k_def)
  have "take k (take c input) = take k (take c (drop m CONTROL_MODE_ENTER))"
    unfolding k_def by (rule matching_take)
  then have "take k input = take k (drop m CONTROL_MODE_ENTER)"
    using k by (simp add: min_def)
  then have input: "input = take k (drop m CONTROL_MODE_ENTER) @ drop k input"
    by (metis append_take_drop_id)
  have round: "terminal_round S input s =
      (if m + k = 7 then
         Inr ([ControlModeEntered], drop k input, enter_control (s\<lparr>cs_enter_match_bytes := 0\<rparr>))
       else if k < c then
         Inr ([TerminalOutput (take (m + k) CONTROL_MODE_ENTER)], drop k input, s\<lparr>cs_enter_match_bytes := 0\<rparr>)
       else Inr ([], drop k input, s\<lparr>cs_enter_match_bytes := m + k\<rparr>))"
    using assms(3,4) m unfolding terminal_round_def Let_def length_marker
    by (simp add: c_def [symmetric] k_def [symmetric])
  consider "m + k = 7" | "m + k \<le> 6" "k < c" | "m + k \<le> 6" "k = c"
    using k c(2) m by linarith
  then show ?thesis
  proof cases
    case 1
    have "take k (drop m CONTROL_MODE_ENTER) = take (k - 1) (drop m CONTROL_MODE_ENTER) @ [CONTROL_MODE_ENTER ! 6]"
      using 1 m take_Suc_conv_app_nth [of "k - 1" "drop m CONTROL_MODE_ENTER"] by simp
    then have "spec_run s input =
        spec_run s (take (k - 1) (drop m CONTROL_MODE_ENTER) @ CONTROL_MODE_ENTER ! 6 # drop k input)"
      using input by (metis append_assoc append_Cons append_Nil)
    also have "\<dots> = spec_run (s\<lparr>cs_enter_match_bytes := 6\<rparr>) (CONTROL_MODE_ENTER ! 6 # drop k input)"
      using 1 m spec_run_marker [OF assms(2,3), of "k - 1"] by simp
    also have "\<dots> = emits [Entered] (spec_run (enter_control (s\<lparr>cs_enter_match_bytes := 0\<rparr>)) (drop k input))"
      using assms(2) by (simp add: spec_byte_def terminal_byte_def emits_def split: prod.split)
    finally show ?thesis
      using 1 assms(1) by (simp add: round round_simulates_Inr stream_ok_def enter_control_def)
  next
    case 2
    have "k < length input" using 2 c by simp
    then have rest: "drop k input = input ! k # drop (Suc k) input" by (rule Cons_nth_drop_Suc [symmetric])
    have "input ! k \<noteq> CONTROL_MODE_ENTER ! (m + k)"
      using matching_stops [of "take c (drop m CONTROL_MODE_ENTER)" "take c input"] 2 c m
      by (simp add: k_def [symmetric])
    then have "spec_run s input = emits (map TermByte (take (m + k) CONTROL_MODE_ENTER))
        (spec_run (s\<lparr>cs_enter_match_bytes := 0\<rparr>) (drop k input))"
      using spec_run_marker [OF assms(2,3) 2(1), of "drop k input"] input
        spec_run_release [OF assms(2) _ 2(1), of "input ! k" "drop (Suc k) input"] assms(4) rest by simp
    then show ?thesis
      using 2 assms(1) by (simp add: round round_simulates_Inr stream_ok_def)
  next
    case 3
    have "spec_run s input = spec_run (s\<lparr>cs_enter_match_bytes := m + k\<rparr>) (drop k input)"
      using spec_run_marker [OF assms(2,3) 3(1), of "drop k input"] input by simp
    with 3 show ?thesis
      using assms(1) by (simp add: round round_simulates_Inr stream_ok_def)
  qed
qed

section \<open>Control mode\<close>

abbreviation plain_bytes :: "bytes \<Rightarrow> bool" where
  "plain_bytes bs \<equiv> list_all (\<lambda>b. b \<noteq> 10 \<and> b \<noteq> 0x1b) bs"

lemma first_of2_None: "first_of2 10 0x1b bs = None \<longleftrightarrow> plain_bytes bs"
proof -
  have "length (takeWhile (\<lambda>c. c \<noteq> 10 \<and> c \<noteq> 0x1b) bs) < length bs \<longleftrightarrow> \<not> plain_bytes bs" for bs :: bytes
    by (induction bs) auto
  then show ?thesis by (simp add: first_of2_def Let_def)
qed

lemma first_of2_Some:
  assumes "first_of2 10 0x1b bs = Some i"
  shows "i < length bs" "plain_bytes (take i bs)" "bs ! i = 10 \<or> bs ! i = 0x1b"
proof -
  let ?P = "\<lambda>c::byte. c \<noteq> 10 \<and> c \<noteq> 0x1b"
  have i: "i = length (takeWhile ?P bs)" and less: "i < length bs"
    using assms by (auto simp: first_of2_def Let_def split: if_splits)
  show "i < length bs" by (rule less)
  show "plain_bytes (take i bs)"
    unfolding i takeWhile_eq_take [symmetric] by (auto simp: list_all_iff dest: set_takeWhileD)
  show "bs ! i = 10 \<or> bs ! i = 0x1b"
    using nth_length_takeWhile [of ?P bs] less unfolding i by blast
qed

lemma control_run_plain:
  assumes "cs_mode s = Control" "\<not> cs_pending_control_escape s"
  shows "plain_bytes bs \<Longrightarrow> length (cs_pending_line s) \<le> cs_maximum_line_bytes s \<Longrightarrow>
    spec_run s bs =
      (if length (cs_pending_line s) + length bs \<le> cs_maximum_line_bytes s
       then ([], Some (s\<lparr>cs_pending_line := cs_pending_line s @ bs\<rparr>)) else ([], None))"
  using assms
proof (induction bs arbitrary: s)
  case Nil
  then show ?case by (cases s) simp
next
  case (Cons b bs)
  let ?t = "s\<lparr>cs_pending_line := cs_pending_line s @ [b]\<rparr>"
  show ?case
  proof (cases "length (cs_pending_line s) < cs_maximum_line_bytes s")
    case True
    then have "spec_byte b s = Some ([], ?t)"
      using Cons.prems by (simp add: spec_byte_def control_byte_def line_byte_def extend_line_def)
    then show ?thesis using Cons.IH [of ?t] Cons.prems True by simp
  next
    case False
    then show ?thesis
      using Cons.prems by (simp add: spec_byte_def control_byte_def line_byte_def extend_line_def)
  qed
qed

lemma append_pending_eq:
  "stream_ok s \<Longrightarrow> append_pending bs s =
     (if length (cs_pending_line s) + length bs \<le> cs_maximum_line_bytes s
      then Inr (s\<lparr>cs_pending_line := cs_pending_line s @ bs\<rparr>)
      else Inl (LineTooLong (min (length (cs_pending_line s) + length bs) usize_max) (cs_maximum_line_bytes s)))"
  by (auto simp: append_pending_def check_line_length_def stream_ok_def)

lemma line_too_long_simulates:
  "stream_ok s \<Longrightarrow> spec_run s input = ([], None) \<Longrightarrow> cs_maximum_line_bytes s < n \<Longrightarrow>
   round_simulates s input (Inl (LineTooLong (min n usize_max) (cs_maximum_line_bytes s)))"
  by (simp add: round_simulates_def stream_ok_def)

text \<open>The two ways of parsing a complete line are the one of the byte machine.\<close>

lemma emit_pending_line_finish:
  assumes "emit_pending_line s = (events, t)"
  shows "(if cs_pending_line s = [] then ([], s) else finish_line s) = (observed events, t)"
  using assms
  by (auto simp: emit_pending_line_def finish_line_def trim_carriage_return_def Let_def
      split: prod.splits if_splits)

lemma emit_line_finish:
  assumes "cs_pending_line s = []" "emit_line (trim_carriage_return line) s = (events, t)"
  shows "finish_line (s\<lparr>cs_pending_line := line\<rparr>) = (observed events, t)"
  using assms by (cases s) (auto simp: emit_line_def finish_line_def split: prod.splits)

lemma finish_line_ok:
  assumes "stream_ok s" "finish_line s = (atoms, t)"
  shows "stream_ok t" "cs_maximum_line_bytes t = cs_maximum_line_bytes s"
  using assms by (auto simp: finish_line_def stream_ok_def split: prod.splits)

lemma control_escape_simulates:
  assumes "stream_ok s" "cs_mode s = Control" "cs_pending_control_escape s" "input \<noteq> []"
  shows "round_simulates s input (control_round S input s)"
proof -
  obtain b rest where input: "input = b # rest" using assms(4) by (cases input) auto
  show ?thesis
  proof (cases "b = backslash \<and> cs_exit_announced s")
    case True
    obtain events t where emit: "emit_pending_line s = (events, t)" by fastforce
    note finish = emit_pending_line_finish [OF emit]
    have "stream_ok t \<and> cs_maximum_line_bytes t = cs_maximum_line_bytes s"
      using finish finish_line_ok [OF assms(1)] assms(1) by (auto split: if_splits)
    moreover have "spec_byte b s = Some (leave_control s)"
      using True assms by (simp add: spec_byte_def control_byte_def)
    ultimately show ?thesis
      using True assms finish unfolding control_round_def input
      by (auto simp: emit round_simulates_def leave_control_def stream_ok_def emits_def split: prod.splits)
  next
    case False
    then have byte: "spec_byte b s = Option.bind (extend_line 0x1b s)
        (\<lambda>s. line_byte b (s\<lparr>cs_pending_control_escape := False\<rparr>))"
      using assms by (auto simp: spec_byte_def control_byte_def)
    let ?t = "s\<lparr>cs_pending_line := cs_pending_line s @ [0x1b], cs_pending_control_escape := False\<rparr>"
    have round: "control_round S input s = rbind (append_pending [0x1b] s)
        (\<lambda>s. Inr ([], input, s\<lparr>cs_pending_control_escape := False\<rparr>))"
      using False assms(3) by (auto simp: control_round_def input)
    show ?thesis
    proof (cases "length (cs_pending_line s) < cs_maximum_line_bytes s")
      case True
      then have "spec_run s input = spec_run ?t input"
        using assms(2) byte unfolding input by (simp add: extend_line_def spec_byte_def control_byte_def)
      with True assms(1,2) show ?thesis
        unfolding round append_pending_eq [OF assms(1)] by (simp add: round_simulates_Inr stream_ok_def)
    next
      case False
      then have "spec_run s input = ([], None)"
        using byte unfolding input by (simp add: extend_line_def)
      with False show ?thesis
        unfolding round append_pending_eq [OF assms(1)] using line_too_long_simulates [OF assms(1)] by simp
    qed
  qed
qed

lemma control_delimiter_simulates:
  assumes "stream_ok s" "cs_mode s = Control" "\<not> cs_pending_control_escape s"
    and "input = line @ b # rest" "plain_bytes line" "b = 10 \<or> b = 0x1b"
  shows "spec_run s input =
    (if length (cs_pending_line s) + length line \<le> cs_maximum_line_bytes s then
       if b = 10 then
         emits (fst (finish_line (s\<lparr>cs_pending_line := cs_pending_line s @ line\<rparr>)))
           (spec_run (snd (finish_line (s\<lparr>cs_pending_line := cs_pending_line s @ line\<rparr>))) rest)
       else spec_run (s\<lparr>cs_pending_line := cs_pending_line s @ line, cs_pending_control_escape := True\<rparr>) rest
     else ([], None))"
  using assms(1) control_run_plain [OF assms(2,3,5)] assms(2,3,6) unfolding assms(4)
  by (auto simp: spec_run_append spec_byte_def control_byte_def line_byte_def stream_ok_def emits_def
      split: prod.split)

lemma control_round_simulates:
  assumes "search_correct S" "stream_ok s" "cs_mode s = Control" "input \<noteq> []"
  shows "round_simulates s input (control_round S input s)"
proof (cases "cs_pending_control_escape s")
  case True
  then show ?thesis using control_escape_simulates assms by blast
next
  case plain: False
  note append = append_pending_eq [OF assms(2)]
  show ?thesis
  proof (cases "first_of2 10 0x1b input")
    case None
    then have "control_round S input s = rbind (append_pending input s) (\<lambda>s. Inr ([], [], s))"
      using assms(1) plain by (simp add: control_round_def search_correct_def)
    moreover have "length (cs_pending_line s) \<le> cs_maximum_line_bytes s"
      using assms(2) by (simp add: stream_ok_def)
    ultimately show ?thesis
      using control_run_plain [OF assms(3) plain] None assms(2) line_too_long_simulates [OF assms(2)]
      by (auto simp: append first_of2_None round_simulates_Inr stream_ok_def)
  next
    case (Some i)
    define line b rest where "line = take i input" and "b = input ! i" and "rest = drop (Suc i) input"
    note i = first_of2_Some [OF Some]
    have input: "input = line @ b # rest"
      unfolding line_def b_def rest_def using i(1) by (rule id_take_nth_drop)
    note spec = control_delimiter_simulates [OF assms(2,3) plain input i(2) [folded line_def] i(3) [folded b_def]]
    have round: "control_round S input s =
        (if b = 10 then
           if cs_pending_line s = [] then
             rbind (check_line_length (length line) s) (\<lambda>_.
               case emit_line (trim_carriage_return line) s of (events, s) \<Rightarrow> Inr (events, rest, s))
           else rbind (append_pending line s) (\<lambda>s.
             case emit_pending_line s of (events, s) \<Rightarrow> Inr (events, rest, s))
         else rbind (append_pending line s) (\<lambda>s. Inr ([], rest, s\<lparr>cs_pending_control_escape := True\<rparr>)))"
      using assms(1) Some i plain
      by (auto simp: control_round_def search_correct_def Let_def line_def b_def rest_def)
    let ?t = "s\<lparr>cs_pending_line := cs_pending_line s @ line\<rparr>"
    show ?thesis
    proof (cases "length (cs_pending_line s) + length line \<le> cs_maximum_line_bytes s")
      case False
      then have fails: "spec_run s input = ([], None)" using spec by simp
      show ?thesis
      proof (cases "b = 10 \<and> cs_pending_line s = []")
        case True
        with False fails show ?thesis by (simp add: round check_line_length_def round_simulates_def)
      next
        case other: False
        with False have "control_round S input s = Inl (LineTooLong
            (min (length (cs_pending_line s) + length line) usize_max) (cs_maximum_line_bytes s))"
          by (auto simp: round append)
        with False show ?thesis using line_too_long_simulates [OF assms(2) fails] by simp
      qed
    next
      case True
      have ok: "stream_ok ?t" using True assms(2) by (simp add: stream_ok_def)
      consider "b = 0x1b" | "b = 10" "cs_pending_line s = []" | "b = 10" "cs_pending_line s \<noteq> []"
        using i(3) by (auto simp: b_def)
      then show ?thesis
      proof cases
        case 1
        then show ?thesis
          using True spec assms(2) by (simp add: round append round_simulates_Inr stream_ok_def)
      next
        case 2
        obtain events t where emit: "emit_line (trim_carriage_return line) s = (events, t)" by fastforce
        have "finish_line ?t = (observed events, t)" using emit_line_finish [OF 2(2) emit] 2 by simp
        then show ?thesis
          using True 2 spec finish_line_ok [OF ok] emit
          by (simp add: round check_line_length_def round_simulates_Inr)
      next
        case 3
        obtain events t where emit: "emit_pending_line ?t = (events, t)" by fastforce
        have "finish_line ?t = (observed events, t)" using emit_pending_line_finish [OF emit] 3 by simp
        then show ?thesis
          using True 3 spec finish_line_ok [OF ok] emit
          by (simp add: round append round_simulates_Inr)
      qed
    qed
  qed
qed

section \<open>The whole stream\<close>

lemma stream_round_simulates:
  assumes "search_correct S" "stream_ok s" "input \<noteq> []"
  shows "round_simulates s input (stream_round S input s)"
proof (cases "cs_mode s")
  case Terminal
  then show ?thesis
    using assms terminal_search_simulates terminal_match_simulates
    by (cases "cs_enter_match_bytes s = 0") (simp_all add: stream_round_def)
next
  case Control
  then show ?thesis using assms control_round_simulates by (simp add: stream_round_def)
qed

text \<open>What a call of \<open>advance\<close> has to show.\<close>

definition call_simulates ::
    "control_stream \<Rightarrow> bytes \<Rightarrow> stream_event list \<times> stream_stop option \<times> control_stream \<Rightarrow> bool" where
  "call_simulates s input r \<longleftrightarrow>
     (case r of (events, stop, t) \<Rightarrow>
        spec_run s input = (observed events, if stop = None then Some t else None) \<and>
        (stop = None \<longrightarrow> stream_ok t \<and> cs_maximum_line_bytes t = cs_maximum_line_bytes s) \<and>
        (\<forall>e. stop = Some e \<longrightarrow>
          (\<exists>n. e = LineTooLong n (cs_maximum_line_bytes s) \<and> cs_maximum_line_bytes s < n)))"

lemma call_simulates_trans:
  assumes "spec_run s input = emits (observed events) (spec_run t rest)"
    and "cs_maximum_line_bytes t = cs_maximum_line_bytes s" "call_simulates t rest (later, stop, u)"
  shows "call_simulates s input (events @ later, stop, u)"
  using assms by (auto simp: call_simulates_def)

lemma stream_advance_simulates:
  assumes "search_correct S"
  shows "stream_ok s \<Longrightarrow> call_simulates s input (stream_advance S input s)"
  using assms
proof (induction S input s rule: stream_advance.induct)
  case (1 S input s)
  show ?case
  proof (cases "input = []")
    case True
    then show ?thesis using "1.prems" by (simp add: stream_advance.simps call_simulates_def)
  next
    case ne: False
    note round = stream_round_simulates [OF "1.prems"(2,1) ne]
    show ?thesis
    proof (cases "stream_round S input s")
      case (Inl e)
      with round ne show ?thesis
        by (cases e) (auto simp: stream_advance.simps [of S input s] round_simulates_def call_simulates_def)
    next
      case (Inr r)
      obtain events rest t where r: "r = (events, rest, t)" by (cases r)
      have sim: "spec_run s input = emits (observed events) (spec_run t rest)" "stream_ok t"
        "cs_maximum_line_bytes t = cs_maximum_line_bytes s"
        using round by (simp_all add: Inr r round_simulates_def)
      have "call_simulates t rest (stream_advance S rest t)"
        using "1.IH" [OF ne Inr r [symmetric] refl sim(2) "1.prems"(2)] .
      then show ?thesis
        using ne call_simulates_trans [OF sim(1,3)]
        by (cases "stream_advance S rest t") (simp add: stream_advance.simps [of S input s] Inr r)
    qed
  qed
qed

text \<open>A sequence of reads, up to the first error.\<close>

fun advance_reads ::
    "search_lib \<Rightarrow> bytes list \<Rightarrow> control_stream \<Rightarrow> stream_event list \<times> stream_stop option \<times> control_stream" where
  "advance_reads S [] s = ([], None, s)"
| "advance_reads S (input # inputs) s =
     (case stream_advance S input s of
        (events, Some stop, t) \<Rightarrow> (events, Some stop, t)
      | (events, None, t) \<Rightarrow>
          (case advance_reads S inputs t of (later, stop, u) \<Rightarrow> (events @ later, stop, u)))"

lemma advance_reads_simulates:
  "search_correct S \<Longrightarrow> stream_ok s \<Longrightarrow> call_simulates s (concat inputs) (advance_reads S inputs s)"
proof (induction inputs arbitrary: s)
  case Nil
  then show ?case by (simp add: call_simulates_def)
next
  case (Cons input inputs)
  obtain events stop t where call: "stream_advance S input s = (events, stop, t)"
    by (cases "stream_advance S input s")
  note sim = stream_advance_simulates [OF Cons.prems, of input, unfolded call]
  show ?case
  proof (cases stop)
    case None
    with sim have t: "stream_ok t" "cs_maximum_line_bytes t = cs_maximum_line_bytes s"
      and run: "spec_run s (concat (input # inputs)) = emits (observed events) (spec_run t (concat inputs))"
      by (auto simp: call_simulates_def spec_run_append)
    show ?thesis
      using call None Cons.IH [OF Cons.prems(1) t(1)] call_simulates_trans [OF run t(2)]
      by (cases "advance_reads S inputs t") simp
  next
    case (Some e)
    with sim call show ?thesis by (auto simp: call_simulates_def spec_run_append)
  qed
qed

lemma stream_new_ok: "max maximum 1 < usize_max \<Longrightarrow> stream_ok (stream_new maximum)"
  by (simp add: stream_new_def stream_ok_def)

section \<open>Properties\<close>

text \<open>
  Property C36: the stream computes what the byte machine does. Whatever the bytes and however they
  are divided into reads, a new stream ends with exactly the observations of the machine that looks
  at one byte at a time, and in its state; it fails only for a control line over the limit, which
  the error names, and never reaches its \<open>unreachable\<close> arm or an underflow.
\<close>

theorem stream_refines_bytes:
  assumes "search_correct S" "max maximum 1 < usize_max"
  shows "case advance_reads S reads (stream_new maximum) of
      (events, None, t) \<Rightarrow> spec_run (stream_new maximum) (concat reads) = (observed events, Some t)
    | (events, Some e, t) \<Rightarrow> spec_run (stream_new maximum) (concat reads) = (observed events, None) \<and>
        (\<exists>n. e = LineTooLong n (max maximum 1) \<and> max maximum 1 < n)"
  using advance_reads_simulates [OF assms(1) stream_new_ok [OF assms(2)], of reads]
  by (auto simp: call_simulates_def stream_new_def split: option.split prod.split)

text \<open>
  Read boundaries do not matter. Two divisions of the same bytes into reads give the
  same terminal bytes and the same events in the same order, fail or succeed together, and when they
  succeed leave the stream in the same state.
\<close>

theorem read_boundaries_invisible:
  assumes "search_correct S" "max maximum 1 < usize_max" "concat reads = concat reads'"
    and "advance_reads S reads (stream_new maximum) = (events, stop, t)"
    and "advance_reads S reads' (stream_new maximum) = (events', stop', t')"
  shows "observed events = observed events' \<and> (stop = None \<longleftrightarrow> stop' = None) \<and> (stop = None \<longrightarrow> t = t')"
proof -
  note sim = advance_reads_simulates [OF assms(1) stream_new_ok [OF assms(2)]]
  have "spec_run (stream_new maximum) (concat reads) = (observed events, if stop = None then Some t else None)"
    "spec_run (stream_new maximum) (concat reads) = (observed events', if stop' = None then Some t' else None)"
    using sim [of reads] sim [of reads'] assms(3-5) by (simp_all add: call_simulates_def)
  then show ?thesis by (auto split: if_splits)
qed

text \<open>
  Terminal output passes through. While the bytes read so far hold no entry marker, the
  stream never fails, and its output is exactly those bytes in order, but for at most six held back
  at the end because they may begin a marker; the stream counts them.
\<close>

theorem terminal_output_passes:
  assumes "search_correct S" "max maximum 1 < usize_max" "\<not> sublist CONTROL_MODE_ENTER (concat reads)"
  shows "\<exists>events t held. advance_reads S reads (stream_new maximum) = (events, None, t) \<and>
    observed events @ map TermByte held = map TermByte (concat reads) \<and>
    length held \<le> 6 \<and> prefix held CONTROL_MODE_ENTER \<and> cs_enter_match_bytes t = length held \<and>
    cs_mode t = Terminal"
proof -
  let ?s = "stream_new maximum" and ?bs = "concat reads"
  let ?p = "trailing_entry_prefix_len ?bs"
  obtain events stop t where call: "advance_reads S reads ?s = (events, stop, t)"
    by (cases "advance_reads S reads ?s")
  have "spec_run ?s ?bs = (observed events, if stop = None then Some t else None)"
    using advance_reads_simulates [OF assms(1) stream_new_ok [OF assms(2)], of reads] call
    by (simp add: call_simulates_def)
  moreover have "cs_mode ?s = Terminal" "cs_enter_match_bytes ?s = 0" by (simp_all add: stream_new_def)
  note terminal_run_plain [OF this assms(3)]
  ultimately have "stop = None" "observed events = map TermByte (take (length ?bs - ?p) ?bs)"
    "t = ?s\<lparr>cs_enter_match_bytes := ?p\<rparr>"
    by (auto split: if_splits)
  moreover have "take (length ?bs - ?p) ?bs @ take ?p CONTROL_MODE_ENTER = ?bs"
    unfolding trailing_held by simp
  ultimately show ?thesis
    using call trailing_le(1) [of ?bs]
    by (intro exI [of _ events] exI [of _ t] exI [of _ "take ?p CONTROL_MODE_ENTER"])
      (auto simp: take_is_prefix stream_new_def simp flip: map_append)
qed

definition sample_search :: search_lib where
  "sample_search = \<lparr>memmem_find = (\<lambda>hay needle. find_window needle hay), memchr2 = first_of2\<rparr>"

lemma sample_search_correct: "search_correct sample_search"
  by (simp add: search_correct_def sample_search_def)

definition sample_reads :: "bytes list" where
  "sample_reads = [[97, 0x1b, 80], [49, 48, 48], [48, 112]]"

definition sample_result :: control_stream where
  "sample_result = (stream_new 100)\<lparr>cs_mode := Control\<rparr>"

lemma sample_reads_result:
  "advance_reads sample_search sample_reads (stream_new 100) =
     ([TerminalOutput [97], ControlModeEntered], None, sample_result)"
  by code_simp

theorem stream_refines_bytes_witness:
  "spec_run (stream_new 100) (concat sample_reads) = ([TermByte 97, Entered], Some sample_result)"
  using stream_refines_bytes [OF sample_search_correct, of 100 sample_reads]
  unfolding sample_reads_result by (simp add: usize_max_def)

theorem read_boundaries_invisible_witness:
  "\<exists>events t. advance_reads sample_search [concat sample_reads] (stream_new 100) = (events, None, t) \<and>
     observed events = [TermByte 97, Entered]"
proof -
  obtain events stop t where call:
    "advance_reads sample_search [concat sample_reads] (stream_new 100) = (events, stop, t)"
    by (cases "advance_reads sample_search [concat sample_reads] (stream_new 100)")
  have "max (100::nat) 1 < usize_max" by (simp add: usize_max_def)
  from read_boundaries_invisible [OF sample_search_correct this _ sample_reads_result call]
  show ?thesis using call by auto
qed

theorem terminal_output_passes_witness:
  "\<exists>events t held. advance_reads sample_search [[97, 0x1b], [80, 49]] (stream_new 100) = (events, None, t) \<and>
     observed events @ map TermByte held = map TermByte [97, 0x1b, 80, 49] \<and> length held \<le> 6"
proof -
  have "\<not> sublist CONTROL_MODE_ENTER (concat [[97, 0x1b], [80, 49]])"
    by code_simp
  from terminal_output_passes [OF sample_search_correct _ this, of 100]
  show ?thesis by (auto simp: usize_max_def)
qed

end
