(* ===== verification/Ssh_Reconnect.thy ===== *)
theory Ssh_Reconnect
  imports Oxide_Prelude "HOL-Library.Multiset" "HOL-Library.Char_ord" "HOL-Library.List_Lexorder"
begin

text \<open>
  The store of reconnection jobs (\<open>crates/oxideterm-ssh/src/reconnect.rs\<close>). The concurrent and the
  locked hash maps are finite maps kept in key order; where the code iterates over one, the order
  of iteration is an argument. Clock readings, fresh job identifiers and the identifiers the audit
  service gives out are arguments too, in the order in which the code asks for them. Every
  completed audit operation is recorded in \<open>os_completed\<close>, which stands for the calls made to the
  audit service; an operation that is dropped completes with the outcome \<open>Unknown\<close>, as its \<open>Drop\<close>
  does. Times and durations are natural numbers. The delay of a retry is computed with floating
  point numbers and a random factor, and is an argument.
\<close>

section \<open>Data\<close>

definition GRACE_PERIOD :: nat where "GRACE_PERIOD = 30000"
definition PROACTIVE_KEEPALIVE_TIMEOUT :: nat where "PROACTIVE_KEEPALIVE_TIMEOUT = 5000"
definition WEBSOCKET_HEARTBEAT_INTERVAL :: nat where "WEBSOCKET_HEARTBEAT_INTERVAL = 30000"
definition WEBSOCKET_HEARTBEAT_TIMEOUT :: nat where "WEBSOCKET_HEARTBEAT_TIMEOUT = 300000"
definition SSH_KEEPALIVE_INTERVAL :: nat where "SSH_KEEPALIVE_INTERVAL = 15000"

datatype reconnect_phase =
    Queued | Snapshot | GracePeriod | SshConnect | AwaitTerminal | RestoreForwards
  | ResumeTransfers | RestoreIde | Verify | Done | Failed | Cancelled

datatype phase_result = PRunning | POk | PFailed | PSkipped

text \<open>The detail of a phase: a text, or the message of a retry with the values it shows.\<close>

datatype phase_detail = Detail string | RetryMessage u32 u32 nat

record phase_event =
  pe_phase :: reconnect_phase
  pe_started_at :: nat
  pe_ended_at :: "nat option"
  pe_result :: phase_result
  pe_detail :: "phase_detail option"

record ide_file_format =
  ff_encoding :: string
  ff_has_bom :: bool
  ff_line_ending :: string

record ide_snapshot =
  is_project_path :: string
  is_tab_paths :: "string list"
  is_connection_id :: string
  is_dirty_contents :: "(string, string) btree"
  is_file_formats :: "(string, ide_file_format) btree"

record node_terminal_snapshot =
  nt_node_id :: string
  nt_old_terminal_session_ids :: "string list"

record forward_rule =
  fr_id :: string
  fr_forward_type :: string
  fr_bind_address :: string
  fr_bind_port :: u16
  fr_target_host :: string
  fr_target_port :: u16
  fr_status :: string
  fr_description :: string

record forward_rule_snapshot =
  fs_node_id :: string
  fs_rules :: "forward_rule list"

record node_transfer_snapshot =
  nx_node_id :: string
  nx_transfer_ids :: "string list"

record node_connection_snapshot =
  nc_node_id :: string
  nc_old_connection_id :: string

record reconnect_snapshot =
  sn_node_id :: string
  sn_terminal_pane_ids :: "string list"
  sn_old_terminal_session_ids :: "string list"
  sn_terminal_sessions_by_node :: "node_terminal_snapshot list"
  sn_forward_rules :: "forward_rule_snapshot list"
  sn_active_port_forward_ids :: "string list"
  sn_inflight_sftp_transfer_ids :: "string list"
  sn_incomplete_sftp_transfers_by_node :: "node_transfer_snapshot list"
  sn_ide_snapshot :: "ide_snapshot option"
  sn_old_connections_by_node :: "node_connection_snapshot list"
  sn_old_connection_ids :: "string list"
  sn_snapshot_at :: "nat option"

record reconnect_timing =
  rt_grace_period :: nat
  rt_retry_base_delay :: nat
  rt_retry_max_delay :: nat
  rt_proactive_keepalive_timeout :: nat
  rt_websocket_heartbeat_interval :: nat
  rt_websocket_heartbeat_timeout :: nat
  rt_ssh_keepalive_interval :: nat

definition timing_default :: reconnect_timing where
  "timing_default =
     \<lparr>rt_grace_period = GRACE_PERIOD, rt_retry_base_delay = 1000, rt_retry_max_delay = 15000,
      rt_proactive_keepalive_timeout = PROACTIVE_KEEPALIVE_TIMEOUT,
      rt_websocket_heartbeat_interval = WEBSOCKET_HEARTBEAT_INTERVAL,
      rt_websocket_heartbeat_timeout = WEBSOCKET_HEARTBEAT_TIMEOUT,
      rt_ssh_keepalive_interval = SSH_KEEPALIVE_INTERVAL\<rparr>"

record reconnect_job =
  rj_job_id :: string
  rj_node_id :: string
  rj_node_name :: string
  rj_status :: reconnect_phase
  rj_attempt :: u32
  rj_max_attempts :: u32
  rj_started_at :: nat
  rj_ended_at :: "nat option"
  rj_error :: "string option"
  rj_snapshot :: reconnect_snapshot
  rj_restored_count :: u32
  rj_phase_history :: "phase_event list"

record reconnect_retry =
  rr_attempt :: u32
  rr_max_attempts :: u32
  rr_delay :: nat

record reconnect_progress =
  rp_status :: reconnect_phase
  rp_attempt :: u32
  rp_max_attempts :: u32
  rp_phase_history :: "phase_event list"

record forward_restore_plan =
  fp_job_id :: string
  fp_forward_rules :: "forward_rule_snapshot list"
  fp_old_connections_by_node :: "node_connection_snapshot list"

text \<open>
  Audit records: of a context the fields this store touches, of an operation its identifier (none
  when the service refused it), its action and the values its detail shows.
\<close>

datatype audit_source = SystemSource | OtherSource string

record audit_context =
  ac_source :: audit_source
  ac_parent_id :: "string option"

datatype audit_action = SshReconnect string | SshReconnectPhase string reconnect_phase u32

record audit_operation =
  ao_id :: "string option"
  ao_parent_id :: "string option"
  ao_action :: audit_action

datatype audit_outcome = Unchanged | Succeeded | FailedOutcome | Interrupted | Unknown

record reconnect_store =
  os_jobs :: "(string, reconnect_job) btree"
  os_audit_contexts :: "(string, audit_context) btree"
  os_audit_jobs :: "(string, audit_operation) btree"
  os_audit_phases :: "(string, audit_operation) btree"
  os_timing :: reconnect_timing
  os_max_attempts :: u32
  os_completed :: "(audit_operation \<times> audit_outcome) list"

section \<open>Operations\<close>

definition store_new :: "reconnect_timing \<Rightarrow> u32 \<Rightarrow> reconnect_store" where
  "store_new timing max_attempts =
     \<lparr>os_jobs = [], os_audit_contexts = [], os_audit_jobs = [], os_audit_phases = [],
      os_timing = timing, os_max_attempts = max max_attempts 1, os_completed = []\<rparr>"

definition store_default :: reconnect_store where
  "store_default = store_new timing_default 5"

definition configure :: "reconnect_timing \<Rightarrow> u32 \<Rightarrow> reconnect_store \<Rightarrow> reconnect_store" where
  "configure timing max_attempts s = s\<lparr>os_timing := timing, os_max_attempts := max max_attempts 1\<rparr>"

fun is_terminal_phase :: "reconnect_phase \<Rightarrow> bool" where
  "is_terminal_phase Done = True"
| "is_terminal_phase Failed = True"
| "is_terminal_phase Cancelled = True"
| "is_terminal_phase _ = False"

definition push_phase ::
    "nat \<Rightarrow> nat \<Rightarrow> reconnect_phase \<Rightarrow> phase_result \<Rightarrow> phase_detail option \<Rightarrow> reconnect_job \<Rightarrow> reconnect_job" where
  "push_phase now later phase result detail j =
     (let history = rj_phase_history j @
            [\<lparr>pe_phase = phase, pe_started_at = now,
              pe_ended_at = (if result \<noteq> PRunning then Some later else None),
              pe_result = result, pe_detail = detail\<rparr>]
      in j\<lparr>rj_phase_history := (if 64 < length history then tl history else history)\<rparr>)"

definition is_active :: "string \<Rightarrow> reconnect_store \<Rightarrow> bool" where
  "is_active node s = (case bt_get (os_jobs s) node of None \<Rightarrow> False | Some j \<Rightarrow> rj_ended_at j = None)"

definition put_job :: "string \<Rightarrow> reconnect_job \<Rightarrow> reconnect_store \<Rightarrow> reconnect_store" where
  "put_job node j s = s\<lparr>os_jobs := bt_insert node j (os_jobs s)\<rparr>"

definition schedule ::
    "nat \<Rightarrow> string \<Rightarrow> nat \<Rightarrow> nat \<Rightarrow> string \<Rightarrow> string \<Rightarrow> reconnect_snapshot \<Rightarrow> reconnect_store
       \<Rightarrow> reconnect_job \<times> reconnect_store" where
  "schedule snapshot_at job_id started_at phase_at node name snapshot s =
     (let snapshot = snapshot\<lparr>sn_node_id := node, sn_snapshot_at := Some snapshot_at\<rparr>;
          fresh = push_phase phase_at phase_at Queued PRunning None
            \<lparr>rj_job_id = job_id, rj_node_id = node, rj_node_name = name, rj_status = Queued,
             rj_attempt = 0, rj_max_attempts = os_max_attempts s, rj_started_at = started_at,
             rj_ended_at = None, rj_error = None, rj_snapshot = snapshot, rj_restored_count = 0,
             rj_phase_history = []\<rparr>
      in case bt_get (os_jobs s) node of
           Some j \<Rightarrow>
             (if rj_ended_at j = None then (j, s)
              else (fresh, put_job node fresh (s\<lparr>os_jobs := bt_remove node (os_jobs s)\<rparr>)))
         | None \<Rightarrow> (fresh, put_job node fresh s))"

text \<open>\<open>AuditContext::operation\<close>, with the identifier the service gave.\<close>

definition context_operation :: "string option \<Rightarrow> audit_action \<Rightarrow> audit_context \<Rightarrow> audit_operation" where
  "context_operation op_id action c = \<lparr>ao_id = op_id, ao_parent_id = ac_parent_id c, ao_action = action\<rparr>"

definition complete_operation :: "audit_operation \<Rightarrow> audit_outcome \<Rightarrow> reconnect_store \<Rightarrow> reconnect_store" where
  "complete_operation operation outcome s = s\<lparr>os_completed := os_completed s @ [(operation, outcome)]\<rparr>"

text \<open>What a map held under a key, when it is taken out or replaced.\<close>

definition take_phase :: "string \<Rightarrow> audit_outcome \<Rightarrow> reconnect_store \<Rightarrow> reconnect_store" where
  "take_phase node outcome s =
     (case bt_get (os_audit_phases s) node of
        None \<Rightarrow> s
      | Some operation \<Rightarrow>
          complete_operation operation outcome (s\<lparr>os_audit_phases := bt_remove node (os_audit_phases s)\<rparr>))"

definition take_audit_job :: "string \<Rightarrow> audit_outcome \<Rightarrow> reconnect_store \<Rightarrow> reconnect_store" where
  "take_audit_job node outcome s =
     (case bt_get (os_audit_jobs s) node of
        None \<Rightarrow> s
      | Some operation \<Rightarrow>
          complete_operation operation outcome (s\<lparr>os_audit_jobs := bt_remove node (os_audit_jobs s)\<rparr>))"

definition begin_audit_phase ::
    "string option \<Rightarrow> string \<Rightarrow> reconnect_job \<Rightarrow> reconnect_store \<Rightarrow> reconnect_store" where
  "begin_audit_phase op_id node j s =
     (case bt_get (os_audit_contexts s) node of
        None \<Rightarrow> s
      | Some c \<Rightarrow>
          let operation = context_operation op_id
                (SshReconnectPhase (rj_job_id j) (rj_status j) (rj_attempt j)) c;
              s = take_phase node Unknown s
          in s\<lparr>os_audit_phases := bt_insert node operation (os_audit_phases s)\<rparr>)"

definition finish_audit_phase :: "string \<Rightarrow> audit_outcome \<Rightarrow> reconnect_store \<Rightarrow> reconnect_store" where
  "finish_audit_phase node outcome s = take_phase node outcome s"

definition schedule_audited ::
    "nat \<Rightarrow> string \<Rightarrow> nat \<Rightarrow> nat \<Rightarrow> string option \<Rightarrow> string option \<Rightarrow> string \<Rightarrow> string \<Rightarrow> reconnect_snapshot
       \<Rightarrow> audit_context option \<Rightarrow> reconnect_store \<Rightarrow> reconnect_job \<times> reconnect_store" where
  "schedule_audited snapshot_at job_id started_at phase_at op_id phase_op_id node name snapshot context s =
     (let active = is_active node s in
      case schedule snapshot_at job_id started_at phase_at node name snapshot s of
        (j, s) \<Rightarrow>
          (if active then (j, s)
           else (case context of
              None \<Rightarrow> (j, s)
            | Some c \<Rightarrow>
                let c = c\<lparr>ac_source := SystemSource\<rparr>;
                    operation = context_operation op_id (SshReconnect (rj_job_id j)) c;
                    c = c\<lparr>ac_parent_id := ao_id operation\<rparr>;
                    s = s\<lparr>os_audit_contexts := bt_insert node c (os_audit_contexts s)\<rparr>;
                    s = take_audit_job node Unknown s;
                    s = s\<lparr>os_audit_jobs := bt_insert node operation (os_audit_jobs s)\<rparr>
                in (j, begin_audit_phase phase_op_id node j s))))"

definition advance ::
    "nat \<Rightarrow> string option \<Rightarrow> string \<Rightarrow> reconnect_phase \<Rightarrow> reconnect_store
       \<Rightarrow> reconnect_job option \<times> reconnect_store" where
  "advance now phase_op_id node phase s =
     (let s = finish_audit_phase node Unknown s in
      case bt_get (os_jobs s) node of
        None \<Rightarrow> (None, s)
      | Some j \<Rightarrow>
          let j = push_phase now now phase PRunning None (j\<lparr>rj_status := phase\<rparr>)
          in (Some j, begin_audit_phase phase_op_id node j (put_job node j s)))"

definition result_outcome :: "phase_result \<Rightarrow> audit_outcome option" where
  "result_outcome r =
     (case r of POk \<Rightarrow> Some Succeeded | PFailed \<Rightarrow> Some FailedOutcome | PSkipped \<Rightarrow> Some Unchanged
      | PRunning \<Rightarrow> None)"

definition complete_phase ::
    "nat \<Rightarrow> string \<Rightarrow> phase_result \<Rightarrow> phase_detail option \<Rightarrow> reconnect_store
       \<Rightarrow> reconnect_job option \<times> reconnect_store" where
  "complete_phase now node result detail s =
     (case bt_get (os_jobs s) node of
        None \<Rightarrow> (None, s)
      | Some j \<Rightarrow>
          let j = (if rj_phase_history j = [] then j
                   else j\<lparr>rj_phase_history := butlast (rj_phase_history j) @
                     [(last (rj_phase_history j))
                        \<lparr>pe_ended_at := Some now, pe_result := result, pe_detail := detail\<rparr>]\<rparr>);
              s = put_job node j s
          in (Some j, case result_outcome result of None \<Rightarrow> s
                      | Some outcome \<Rightarrow> finish_audit_phase node outcome s))"

definition finish_job ::
    "nat \<Rightarrow> nat \<Rightarrow> nat \<Rightarrow> string + u32 \<Rightarrow> reconnect_job \<Rightarrow> reconnect_job" where
  "finish_job now phase_start phase_end result j =
     (case result of
        Inr restored \<Rightarrow>
          push_phase phase_start phase_end Done POk None
            (j\<lparr>rj_ended_at := Some now, rj_status := Done, rj_restored_count := restored\<rparr>)
      | Inl error \<Rightarrow>
          push_phase phase_start phase_end Failed PFailed (Some (Detail error))
            (j\<lparr>rj_ended_at := Some now, rj_status := Failed, rj_error := Some error\<rparr>))"

definition finish ::
    "nat \<Rightarrow> nat \<Rightarrow> nat \<Rightarrow> string option \<Rightarrow> string \<Rightarrow> string + u32 \<Rightarrow> reconnect_store
       \<Rightarrow> reconnect_job option \<times> reconnect_store" where
  "finish now phase_start phase_end phase_op_id node result s =
     (let s = finish_audit_phase node (if is_ok result then Succeeded else FailedOutcome) s in
      case bt_get (os_jobs s) node of
        None \<Rightarrow> (None, s)
      | Some j \<Rightarrow>
          let j = finish_job now phase_start phase_end result j;
              outcome = (if rj_status j = Done then Succeeded else FailedOutcome);
              s = begin_audit_phase phase_op_id node j (put_job node j s);
              s = take_audit_job node outcome (finish_audit_phase node outcome s)
          in (Some j, s\<lparr>os_audit_contexts := bt_remove node (os_audit_contexts s)\<rparr>))"

text \<open>A job is forgotten: its audit operations, if any are open, are dropped.\<close>

definition forget_job :: "string \<Rightarrow> reconnect_store \<Rightarrow> reconnect_store" where
  "forget_job node s =
     take_audit_job node Unknown (take_phase node Unknown
       (s\<lparr>os_jobs := bt_remove node (os_jobs s),
          os_audit_contexts := bt_remove node (os_audit_contexts s)\<rparr>))"

definition cleanup_terminal_job :: "string \<Rightarrow> nat \<Rightarrow> reconnect_store \<Rightarrow> bool \<times> reconnect_store" where
  "cleanup_terminal_job node started_at s =
     (let should_remove = (case bt_get (os_jobs s) node of
            None \<Rightarrow> False
          | Some j \<Rightarrow> is_terminal_phase (rj_status j) \<and> rj_started_at j = started_at)
      in (should_remove, if should_remove then forget_job node s else s))"

text \<open>The age of a job, the key of the stable sort.\<close>

definition job_age :: "reconnect_job \<Rightarrow> nat \<times> nat" where
  "job_age j = (case rj_ended_at j of None \<Rightarrow> rj_started_at j | Some t \<Rightarrow> t, rj_started_at j)"

definition age_less :: "nat \<times> nat \<Rightarrow> nat \<times> nat \<Rightarrow> bool" where
  "age_less a b \<longleftrightarrow> fst a < fst b \<or> fst a = fst b \<and> snd a < snd b"

text \<open>\<open>sort_by_key\<close>: a stable sort.\<close>

fun insert_by_age :: "string \<times> nat \<times> nat \<Rightarrow> (string \<times> nat \<times> nat) list \<Rightarrow> (string \<times> nat \<times> nat) list" where
  "insert_by_age x [] = [x]"
| "insert_by_age x (y # ys) = (if age_less (snd y) (snd x) then y # insert_by_age x ys else x # y # ys)"

definition sort_by_age :: "(string \<times> nat \<times> nat) list \<Rightarrow> (string \<times> nat \<times> nat) list" where
  "sort_by_age xs = foldr insert_by_age xs []"

text \<open>\<open>entries\<close> is what iterating over the jobs yields.\<close>

definition enforce_terminal_job_cap ::
    "(string \<times> reconnect_job) list \<Rightarrow> nat \<Rightarrow> reconnect_store \<Rightarrow> reconnect_store" where
  "enforce_terminal_job_cap entries max_retained s =
     (let terminal = map (\<lambda>(node, j). (node, job_age j))
            (filter (\<lambda>(node, j). is_terminal_phase (rj_status j)) entries) in
      if length terminal \<le> max_retained then s
      else foldl (\<lambda>s (node, age). forget_job node s) s
             (take (length terminal - max_retained) (sort_by_age terminal)))"

definition cancel ::
    "nat \<Rightarrow> nat \<Rightarrow> nat \<Rightarrow> string option \<Rightarrow> string \<Rightarrow> reconnect_store
       \<Rightarrow> reconnect_job option \<times> reconnect_store" where
  "cancel now phase_start phase_end phase_op_id node s =
     (let s = finish_audit_phase node Interrupted s in
      case bt_get (os_jobs s) node of
        None \<Rightarrow> (None, s)
      | Some j \<Rightarrow>
          let j = push_phase phase_start phase_end Cancelled POk None
                (j\<lparr>rj_status := Cancelled, rj_ended_at := Some now\<rparr>);
              s = begin_audit_phase phase_op_id node j (put_job node j s);
              s = take_audit_job node Interrupted (finish_audit_phase node Interrupted s)
          in (Some j, s\<lparr>os_audit_contexts := bt_remove node (os_audit_contexts s)\<rparr>))"

text \<open>The retry loop: one attempt after another, up to the limit of the job.\<close>

definition saturating_succ :: "u32 \<Rightarrow> u32" where
  "saturating_succ w = (if w = - 1 then w else w + 1)"

definition begin_ssh_attempt :: "string \<Rightarrow> reconnect_store \<Rightarrow> reconnect_job option \<times> reconnect_store" where
  "begin_ssh_attempt node s =
     (case bt_get (os_jobs s) node of
        None \<Rightarrow> (None, s)
      | Some j \<Rightarrow>
          (if rj_ended_at j \<noteq> None then (None, s)
           else
             let j = j\<lparr>rj_attempt := min (saturating_succ (rj_attempt j)) (rj_max_attempts j)\<rparr>
             in (Some j, put_job node j s)))"

definition schedule_retry ::
    "nat \<Rightarrow> string option \<Rightarrow> nat \<Rightarrow> string \<Rightarrow> reconnect_store \<Rightarrow> reconnect_retry option \<times> reconnect_store" where
  "schedule_retry now phase_op_id delay node s =
     (case bt_get (os_jobs s) node of
        None \<Rightarrow> (None, s)
      | Some j \<Rightarrow>
          (if rj_ended_at j \<noteq> None \<or> rj_max_attempts j \<le> rj_attempt j then (None, s)
           else
             let s = finish_audit_phase node Unknown s;
                 next_attempt = rj_attempt j + 1;
                 j = push_phase now now Queued PRunning
                       (Some (RetryMessage next_attempt (rj_max_attempts j) delay))
                       (j\<lparr>rj_status := Queued\<rparr>)
             in (Some \<lparr>rr_attempt = next_attempt, rr_max_attempts = rj_max_attempts j, rr_delay = delay\<rparr>,
                 begin_audit_phase phase_op_id node j (put_job node j s))))"

definition update_snapshot ::
    "string \<Rightarrow> (reconnect_snapshot \<Rightarrow> reconnect_snapshot) \<Rightarrow> reconnect_store
       \<Rightarrow> reconnect_job option \<times> reconnect_store" where
  "update_snapshot node update s =
     (case bt_get (os_jobs s) node of
        None \<Rightarrow> (None, s)
      | Some j \<Rightarrow>
          let j = j\<lparr>rj_snapshot := update (rj_snapshot j)\<rparr> in (Some j, put_job node j s))"

text \<open>Queries.\<close>

definition get_job :: "string \<Rightarrow> reconnect_store \<Rightarrow> reconnect_job option" where
  "get_job node s = bt_get (os_jobs s) node"

definition is_current :: "string \<Rightarrow> string \<Rightarrow> reconnect_store \<Rightarrow> bool" where
  "is_current node job_id s =
     (case bt_get (os_jobs s) node of
        None \<Rightarrow> False | Some j \<Rightarrow> rj_ended_at j = None \<and> rj_job_id j = job_id)"

definition active_node_ids :: "(string \<times> reconnect_job) list \<Rightarrow> string list" where
  "active_node_ids entries = map (\<lambda>(_, j). rj_node_id j) (filter (\<lambda>(_, j). rj_ended_at j = None) entries)"

definition active_attempt :: "string \<Rightarrow> reconnect_store \<Rightarrow> (u32 \<times> u32) option" where
  "active_attempt node s =
     (case bt_get (os_jobs s) node of
        None \<Rightarrow> None
      | Some j \<Rightarrow> if rj_ended_at j = None then Some (rj_attempt j, rj_max_attempts j) else None)"

definition active_job_id :: "string \<Rightarrow> reconnect_store \<Rightarrow> string option" where
  "active_job_id node s =
     (case bt_get (os_jobs s) node of
        None \<Rightarrow> None | Some j \<Rightarrow> if rj_ended_at j = None then Some (rj_job_id j) else None)"

definition active_progress :: "string \<Rightarrow> reconnect_store \<Rightarrow> reconnect_progress option" where
  "active_progress node s =
     (case bt_get (os_jobs s) node of
        None \<Rightarrow> None
      | Some j \<Rightarrow>
          if rj_ended_at j = None
          then Some \<lparr>rp_status = rj_status j, rp_attempt = rj_attempt j,
                     rp_max_attempts = rj_max_attempts j, rp_phase_history = rj_phase_history j\<rparr>
          else None)"

definition has_forward_snapshot :: "string \<Rightarrow> reconnect_store \<Rightarrow> bool" where
  "has_forward_snapshot node s =
     (case bt_get (os_jobs s) node of None \<Rightarrow> False | Some j \<Rightarrow> sn_forward_rules (rj_snapshot j) \<noteq> [])"

definition terminal_session_ids_for_node :: "string \<Rightarrow> reconnect_store \<Rightarrow> string list" where
  "terminal_session_ids_for_node node s =
     (case bt_get (os_jobs s) node of
        None \<Rightarrow> []
      | Some j \<Rightarrow>
          (case find (\<lambda>e. nt_node_id e = node) (sn_terminal_sessions_by_node (rj_snapshot j)) of
             Some e \<Rightarrow> nt_old_terminal_session_ids e
           | None \<Rightarrow> sn_old_terminal_session_ids (rj_snapshot j)))"

definition incomplete_sftp_transfers :: "string \<Rightarrow> reconnect_store \<Rightarrow> node_transfer_snapshot list" where
  "incomplete_sftp_transfers node s =
     (case bt_get (os_jobs s) node of
        None \<Rightarrow> [] | Some j \<Rightarrow> sn_incomplete_sftp_transfers_by_node (rj_snapshot j))"

definition get_ide_snapshot :: "string \<Rightarrow> reconnect_store \<Rightarrow> (ide_snapshot \<times> nat option) option" where
  "get_ide_snapshot node s =
     (case bt_get (os_jobs s) node of
        None \<Rightarrow> None
      | Some j \<Rightarrow> map_option (\<lambda>i. (i, sn_snapshot_at (rj_snapshot j))) (sn_ide_snapshot (rj_snapshot j)))"

definition get_forward_restore_plan :: "string \<Rightarrow> reconnect_store \<Rightarrow> forward_restore_plan option" where
  "get_forward_restore_plan node s =
     map_option (\<lambda>j. \<lparr>fp_job_id = rj_job_id j, fp_forward_rules = sn_forward_rules (rj_snapshot j),
         fp_old_connections_by_node = sn_old_connections_by_node (rj_snapshot j)\<rparr>)
       (bt_get (os_jobs s) node)"

definition forward_rule_snapshots :: "string \<Rightarrow> reconnect_store \<Rightarrow> forward_rule_snapshot list" where
  "forward_rule_snapshots node s =
     (case bt_get (os_jobs s) node of None \<Rightarrow> [] | Some j \<Rightarrow> sn_forward_rules (rj_snapshot j))"

section \<open>Events\<close>

text \<open>Every call that changes the store, with what it reads from outside.\<close>

datatype reconnect_event =
    Configure reconnect_timing u32
  | Schedule nat string nat nat string string reconnect_snapshot
  | ScheduleAudited nat string nat nat "string option" "string option" string string
      reconnect_snapshot "audit_context option"
  | Advance nat "string option" string reconnect_phase
  | CompletePhase nat string phase_result "phase_detail option"
  | Finish nat nat nat "string option" string "string + u32"
  | CleanupTerminal string nat
  | EnforceCap "(string \<times> reconnect_job) list" nat
  | Cancel nat nat nat "string option" string
  | BeginAttempt string
  | ScheduleRetry nat "string option" nat string
  | UpdateSnapshot string "reconnect_snapshot \<Rightarrow> reconnect_snapshot"

fun store_step :: "reconnect_store \<Rightarrow> reconnect_event \<Rightarrow> reconnect_store" where
  "store_step s (Configure timing n) = configure timing n s"
| "store_step s (Schedule t0 i t1 t2 node name snap) = snd (schedule t0 i t1 t2 node name snap s)"
| "store_step s (ScheduleAudited t0 i t1 t2 o1 o2 node name snap c) =
     snd (schedule_audited t0 i t1 t2 o1 o2 node name snap c s)"
| "store_step s (Advance t o1 node phase) = snd (advance t o1 node phase s)"
| "store_step s (CompletePhase t node r d) = snd (complete_phase t node r d s)"
| "store_step s (Finish t0 t1 t2 o1 node r) = snd (finish t0 t1 t2 o1 node r s)"
| "store_step s (CleanupTerminal node t) = snd (cleanup_terminal_job node t s)"
| "store_step s (EnforceCap entries n) = enforce_terminal_job_cap entries n s"
| "store_step s (Cancel t0 t1 t2 o1 node) = snd (cancel t0 t1 t2 o1 node s)"
| "store_step s (BeginAttempt node) = snd (begin_ssh_attempt node s)"
| "store_step s (ScheduleRetry t o1 d node) = snd (schedule_retry t o1 d node s)"
| "store_step s (UpdateSnapshot node f) = snd (update_snapshot node f s)"

section \<open>The invariant of the store\<close>

definition job_ok :: "reconnect_job \<Rightarrow> bool" where
  "job_ok j \<longleftrightarrow>
     1 \<le> rj_max_attempts j \<and> rj_attempt j \<le> rj_max_attempts j \<and>
     rj_phase_history j \<noteq> [] \<and> length (rj_phase_history j) \<le> 64 \<and>
     pe_phase (last (rj_phase_history j)) = rj_status j"

definition maps_wf :: "reconnect_store \<Rightarrow> bool" where
  "maps_wf s \<longleftrightarrow> bt_wf (os_jobs s) \<and> bt_wf (os_audit_contexts s) \<and> bt_wf (os_audit_jobs s) \<and>
     bt_wf (os_audit_phases s)"

text \<open>Audit operations are open only for active jobs, and a phase only under its job.\<close>

definition audit_scoped :: "reconnect_store \<Rightarrow> bool" where
  "audit_scoped s \<longleftrightarrow>
     (\<forall>n. (bt_get (os_audit_jobs s) n \<noteq> None) = (bt_get (os_audit_contexts s) n \<noteq> None)) \<and>
     (\<forall>n. bt_get (os_audit_phases s) n \<noteq> None \<longrightarrow> bt_get (os_audit_contexts s) n \<noteq> None) \<and>
     (\<forall>n. bt_get (os_audit_contexts s) n \<noteq> None \<longrightarrow> is_active n s)"

definition store_ok :: "reconnect_store \<Rightarrow> bool" where
  "store_ok s \<longleftrightarrow>
     maps_wf s \<and> 1 \<le> os_max_attempts s \<and>
     (\<forall>n j. bt_get (os_jobs s) n = Some j \<longrightarrow> job_ok j \<and> rj_node_id j = n) \<and> audit_scoped s"

lemma take_phase_simps [simp]:
  "os_jobs (take_phase n r s) = os_jobs s"
  "os_audit_contexts (take_phase n r s) = os_audit_contexts s"
  "os_audit_jobs (take_phase n r s) = os_audit_jobs s"
  "os_max_attempts (take_phase n r s) = os_max_attempts s"
  "bt_get (os_audit_phases (take_phase n r s)) = (bt_get (os_audit_phases s))(n := None)"
  by (auto simp: take_phase_def complete_operation_def bt_get_remove fun_eq_iff split: option.split)

lemma take_audit_job_simps [simp]:
  "os_jobs (take_audit_job n r s) = os_jobs s"
  "os_audit_contexts (take_audit_job n r s) = os_audit_contexts s"
  "os_audit_phases (take_audit_job n r s) = os_audit_phases s"
  "os_max_attempts (take_audit_job n r s) = os_max_attempts s"
  "bt_get (os_audit_jobs (take_audit_job n r s)) = (bt_get (os_audit_jobs s))(n := None)"
  by (auto simp: take_audit_job_def complete_operation_def bt_get_remove fun_eq_iff split: option.split)

lemma take_maps_wf [simp]:
  "maps_wf s \<Longrightarrow> maps_wf (take_phase n r s)" "maps_wf s \<Longrightarrow> maps_wf (take_audit_job n r s)"
  by (auto simp: maps_wf_def take_phase_def take_audit_job_def complete_operation_def split: option.split)

lemma begin_audit_phase_simps [simp]:
  "os_jobs (begin_audit_phase i n j s) = os_jobs s"
  "os_audit_contexts (begin_audit_phase i n j s) = os_audit_contexts s"
  "os_audit_jobs (begin_audit_phase i n j s) = os_audit_jobs s"
  "os_max_attempts (begin_audit_phase i n j s) = os_max_attempts s"
  by (auto simp: begin_audit_phase_def Let_def split: option.split)

lemma begin_audit_phase_maps [simp]:
  assumes "maps_wf s"
  shows "maps_wf (begin_audit_phase i n j s)"
    and "m \<noteq> n \<Longrightarrow> bt_get (os_audit_phases (begin_audit_phase i n j s)) m = bt_get (os_audit_phases s) m"
    and "bt_get (os_audit_contexts s) n = None \<Longrightarrow> begin_audit_phase i n j s = s"
proof -
  have wf: "maps_wf (take_phase n Unknown s)" using assms by simp
  then have "bt_wf (os_audit_phases (take_phase n Unknown s))" by (simp add: maps_wf_def)
  with wf show "maps_wf (begin_audit_phase i n j s)"
    and "m \<noteq> n \<Longrightarrow> bt_get (os_audit_phases (begin_audit_phase i n j s)) m = bt_get (os_audit_phases s) m"
    using assms by (auto simp: begin_audit_phase_def Let_def maps_wf_def split: option.split)
  show "bt_get (os_audit_contexts s) n = None \<Longrightarrow> begin_audit_phase i n j s = s"
    by (simp add: begin_audit_phase_def)
qed

lemma put_job_simps [simp]:
  "os_audit_contexts (put_job n j s) = os_audit_contexts s"
  "os_audit_jobs (put_job n j s) = os_audit_jobs s"
  "os_audit_phases (put_job n j s) = os_audit_phases s"
  "os_max_attempts (put_job n j s) = os_max_attempts s"
  "maps_wf s \<Longrightarrow> maps_wf (put_job n j s)"
  "maps_wf s \<Longrightarrow> bt_get (os_jobs (put_job n j s)) = (bt_get (os_jobs s))(n := Some j)"
  by (simp_all add: put_job_def maps_wf_def)

lemma store_okD:
  assumes "store_ok s"
  shows "maps_wf s" "audit_scoped s" "1 \<le> os_max_attempts s"
    "bt_get (os_jobs s) n = Some j \<Longrightarrow> job_ok j" "bt_get (os_jobs s) n = Some j \<Longrightarrow> rj_node_id j = n"
  using assms by (auto simp: store_ok_def)

text \<open>A job is replaced while it stays active, or where no audit operation is open.\<close>

lemma store_ok_put:
  assumes "store_ok s" "job_ok j" "rj_node_id j = n"
    and "rj_ended_at j = None \<or> bt_get (os_audit_contexts s) n = None"
  shows "store_ok (put_job n j s)"
  using assms by (auto simp: store_ok_def audit_scoped_def is_active_def)

lemma store_ok_take_phase: "store_ok s \<Longrightarrow> store_ok (take_phase n r s)"
  by (auto simp: store_ok_def audit_scoped_def is_active_def)

lemma store_ok_begin_phase:
  assumes "store_ok s"
  shows "store_ok (begin_audit_phase i n j s)"
proof (cases "bt_get (os_audit_contexts s) n")
  case None
  then show ?thesis using assms store_okD(1) by simp
next
  case (Some c)
  have "bt_get (os_audit_phases (begin_audit_phase i n j s)) m \<noteq> None \<Longrightarrow>
      bt_get (os_audit_contexts s) m \<noteq> None" for m
    using assms Some store_okD(1,2) [OF assms] by (cases "m = n") (auto simp: audit_scoped_def)
  then show ?thesis
    using assms store_okD(1) [OF assms] by (auto simp: store_ok_def audit_scoped_def is_active_def)
qed

text \<open>A job ends: its operations are completed and its context goes.\<close>

lemma store_ok_end:
  assumes "store_ok s" "job_ok j" "rj_node_id j = n"
  shows "store_ok ((take_audit_job n r (take_phase n r' (begin_audit_phase i n j' (put_job n j s))))
    \<lparr>os_audit_contexts := bt_remove n (os_audit_contexts s)\<rparr>)"
proof -
  let ?t = "take_audit_job n r (take_phase n r' (begin_audit_phase i n j' (put_job n j s)))"
  have wf: "maps_wf ?t" using store_okD(1) [OF assms(1)] by simp
  then have "maps_wf (?t\<lparr>os_audit_contexts := bt_remove n (os_audit_contexts s)\<rparr>)"
    using store_okD(1) [OF assms(1)] by (simp add: maps_wf_def)
  moreover have "bt_get (os_audit_phases ?t) m = (if m = n then None else bt_get (os_audit_phases s) m)" for m
    using store_okD(1) [OF assms(1)] by simp
  ultimately show ?thesis
    using assms store_okD(1) [OF assms(1)]
    by (auto simp: store_ok_def audit_scoped_def is_active_def bt_get_remove)
qed

lemma store_ok_forget:
  assumes "store_ok s"
  shows "store_ok (forget_job n s)"
proof -
  let ?s = "s\<lparr>os_jobs := bt_remove n (os_jobs s), os_audit_contexts := bt_remove n (os_audit_contexts s)\<rparr>"
  have "maps_wf ?s" using store_okD(1) [OF assms] by (simp add: maps_wf_def)
  then have "maps_wf (forget_job n s)" by (simp add: forget_job_def)
  moreover have "os_jobs (forget_job n s) = bt_remove n (os_jobs s)"
    "os_audit_contexts (forget_job n s) = bt_remove n (os_audit_contexts s)"
    "bt_get (os_audit_jobs (forget_job n s)) = (bt_get (os_audit_jobs s))(n := None)"
    "bt_get (os_audit_phases (forget_job n s)) = (bt_get (os_audit_phases s))(n := None)"
    "os_max_attempts (forget_job n s) = os_max_attempts s"
    by (simp_all add: forget_job_def)
  ultimately show ?thesis
    using assms by (auto simp: store_ok_def audit_scoped_def is_active_def bt_get_remove)
qed

lemma push_phase_simps [simp]:
  "rj_attempt (push_phase t u p r d j) = rj_attempt j"
  "rj_max_attempts (push_phase t u p r d j) = rj_max_attempts j"
  "rj_node_id (push_phase t u p r d j) = rj_node_id j"
  "rj_job_id (push_phase t u p r d j) = rj_job_id j"
  "rj_started_at (push_phase t u p r d j) = rj_started_at j"
  "rj_ended_at (push_phase t u p r d j) = rj_ended_at j"
  "rj_status (push_phase t u p r d j) = rj_status j"
  by (simp_all add: push_phase_def Let_def)

text \<open>Pushing the phase the job is in keeps the job well formed and bounds its history.\<close>

lemma push_phase_ok:
  assumes "1 \<le> rj_max_attempts j" "rj_attempt j \<le> rj_max_attempts j" "length (rj_phase_history j) \<le> 64"
    and "rj_status j = p"
  shows "job_ok (push_phase t u p r d j)"
  using assms by (cases "rj_phase_history j") (auto simp: push_phase_def job_ok_def Let_def)

lemma job_okD:
  "job_ok j \<Longrightarrow> 1 \<le> rj_max_attempts j" "job_ok j \<Longrightarrow> rj_attempt j \<le> rj_max_attempts j"
  "job_ok j \<Longrightarrow> length (rj_phase_history j) \<le> 64"
  by (simp_all add: job_ok_def)

lemma finish_audit_phase_simps [simp]: "finish_audit_phase n r s = take_phase n r s"
  by (simp add: finish_audit_phase_def)

lemma not_active_no_context:
  "store_ok s \<Longrightarrow> \<not> is_active n s \<Longrightarrow> bt_get (os_audit_contexts s) n = None"
  by (auto simp: store_ok_def audit_scoped_def)

lemma active_or_closed:
  assumes "store_ok s" "bt_get (os_jobs s) n = Some j"
  shows "rj_ended_at j = None \<or> bt_get (os_audit_contexts s) n = None"
  using not_active_no_context [OF assms(1), of n] assms(2)
  by (cases "rj_ended_at j") (auto simp: is_active_def)

lemma put_job_remove:
  "bt_wf (os_jobs s) \<Longrightarrow> maps_wf (s\<lparr>os_jobs := bt_remove n (os_jobs s)\<rparr>) = maps_wf s"
  by (simp add: maps_wf_def)

lemma store_ok_remove_ended:
  assumes "store_ok s" "\<not> is_active n s"
  shows "store_ok (s\<lparr>os_jobs := bt_remove n (os_jobs s)\<rparr>)"
  using assms not_active_no_context [OF assms]
  by (auto simp: store_ok_def audit_scoped_def is_active_def bt_get_remove maps_wf_def)

lemma schedule_ok:
  assumes "store_ok s"
  shows "store_ok (snd (schedule t0 i t1 t2 n name snap s))"
    and "bt_get (os_jobs (snd (schedule t0 i t1 t2 n name snap s))) n = Some (fst (schedule t0 i t1 t2 n name snap s))"
    and "rj_ended_at (fst (schedule t0 i t1 t2 n name snap s)) = None"
proof -
  define fresh where "fresh = push_phase t2 t2 Queued PRunning None
    \<lparr>rj_job_id = i, rj_node_id = n, rj_node_name = name, rj_status = Queued, rj_attempt = 0,
     rj_max_attempts = os_max_attempts s, rj_started_at = t1, rj_ended_at = None, rj_error = None,
     rj_snapshot = snap\<lparr>sn_node_id := n, sn_snapshot_at := Some t0\<rparr>, rj_restored_count = 0, rj_phase_history = []\<rparr>"
  have fresh: "job_ok fresh" "rj_node_id fresh = n" "rj_ended_at fresh = None"
    using store_okD(3) [OF assms] unfolding fresh_def by (auto intro!: push_phase_ok)
  have result: "schedule t0 i t1 t2 n name snap s =
      (case bt_get (os_jobs s) n of
         Some j \<Rightarrow> if rj_ended_at j = None then (j, s)
                   else (fresh, put_job n fresh (s\<lparr>os_jobs := bt_remove n (os_jobs s)\<rparr>))
       | None \<Rightarrow> (fresh, put_job n fresh s))"
    unfolding schedule_def fresh_def Let_def ..
  show "store_ok (snd (schedule t0 i t1 t2 n name snap s))"
    and "bt_get (os_jobs (snd (schedule t0 i t1 t2 n name snap s))) n = Some (fst (schedule t0 i t1 t2 n name snap s))"
    and "rj_ended_at (fst (schedule t0 i t1 t2 n name snap s)) = None"
    using assms fresh store_okD(1) [OF assms] store_ok_put [of _ fresh n]
      store_ok_remove_ended [OF assms, of n] store_okD(1) [OF store_ok_remove_ended [OF assms, of n]]
    unfolding result by (auto simp: is_active_def split: option.splits)
qed

lemma schedule_audited_ok:
  assumes "store_ok s"
  shows "store_ok (snd (schedule_audited t0 i t1 t2 o1 o2 n name snap c s))"
proof -
  obtain j t where sched: "schedule t0 i t1 t2 n name snap s = (j, t)" by fastforce
  have t: "store_ok t" "bt_get (os_jobs t) n = Some j" "rj_ended_at j = None"
    using schedule_ok [OF assms, of t0 i t1 t2 n name snap] by (simp_all add: sched)
  have "store_ok (begin_audit_phase o2 n j
      (take_audit_job n Unknown (t\<lparr>os_audit_contexts := bt_insert n c' (os_audit_contexts t)\<rparr>)
        \<lparr>os_audit_jobs := bt_insert n operation
           (os_audit_jobs (take_audit_job n Unknown (t\<lparr>os_audit_contexts := bt_insert n c' (os_audit_contexts t)\<rparr>)))\<rparr>))"
    (is "store_ok (begin_audit_phase o2 n j ?u)") for c' operation
  proof (rule store_ok_begin_phase)
    have "maps_wf (t\<lparr>os_audit_contexts := bt_insert n c' (os_audit_contexts t)\<rparr>)"
      using store_okD(1) [OF t(1)] by (simp add: maps_wf_def)
    then have wf: "maps_wf (take_audit_job n Unknown (t\<lparr>os_audit_contexts := bt_insert n c' (os_audit_contexts t)\<rparr>))"
      by simp
    then have "maps_wf ?u" by (simp add: maps_wf_def)
    moreover have "bt_get (os_audit_jobs ?u) = (bt_get (os_audit_jobs t))(n := Some operation)"
      using wf by (simp add: maps_wf_def fun_eq_iff)
    moreover have "bt_get (os_audit_contexts ?u) = (bt_get (os_audit_contexts t))(n := Some c')"
      using store_okD(1) [OF t(1)] by (simp add: maps_wf_def)
    ultimately show "store_ok ?u"
      using t by (auto simp: store_ok_def audit_scoped_def is_active_def)
  qed
  then show ?thesis
    using t(1) by (auto simp: schedule_audited_def sched Let_def split: option.split)
qed

lemma advance_ok:
  assumes "store_ok s"
  shows "store_ok (snd (advance t i n phase s))"
proof (cases "bt_get (os_jobs s) n")
  case None
  then show ?thesis using store_ok_take_phase [OF assms] by (simp add: advance_def)
next
  case (Some j)
  let ?j = "push_phase t t phase PRunning None (j\<lparr>rj_status := phase\<rparr>)"
  have "job_ok ?j" "rj_node_id ?j = n"
    using job_okD [OF store_okD(4) [OF assms Some]] store_okD(5) [OF assms Some] by (auto intro!: push_phase_ok)
  moreover have "rj_ended_at ?j = None \<or> bt_get (os_audit_contexts s) n = None"
    using active_or_closed [OF assms Some] by simp
  ultimately have "store_ok (put_job n ?j (take_phase n Unknown s))"
    using store_ok_put store_ok_take_phase [OF assms] by simp
  then show ?thesis
    using Some store_ok_begin_phase by (simp add: advance_def Let_def)
qed

lemma complete_phase_ok:
  assumes "store_ok s"
  shows "store_ok (snd (complete_phase t n r d s))"
proof (cases "bt_get (os_jobs s) n")
  case None
  then show ?thesis using assms by (simp add: complete_phase_def)
next
  case (Some j)
  let ?j = "j\<lparr>rj_phase_history := butlast (rj_phase_history j) @
    [(last (rj_phase_history j))\<lparr>pe_ended_at := Some t, pe_result := r, pe_detail := d\<rparr>]\<rparr>"
  have j: "job_ok j" "rj_phase_history j \<noteq> []" using store_okD(4) [OF assms Some] by (simp_all add: job_ok_def)
  then have "job_ok ?j" by (auto simp: job_ok_def)
  then have "store_ok (put_job n ?j s)"
    using store_ok_put [OF assms, of ?j n] store_okD(5) [OF assms Some] active_or_closed [OF assms Some] by simp
  then show ?thesis
    using Some j store_ok_take_phase by (auto simp: complete_phase_def Let_def split: option.split)
qed

lemma finish_ok:
  assumes "store_ok s"
  shows "store_ok (snd (finish t0 t1 t2 i n r s))"
proof (cases "bt_get (os_jobs s) n")
  case None
  then show ?thesis using store_ok_take_phase [OF assms] by (simp add: finish_def)
next
  case (Some j)
  have "job_ok (finish_job t0 t1 t2 r j)" "rj_node_id (finish_job t0 t1 t2 r j) = n"
    using job_okD [OF store_okD(4) [OF assms Some]] store_okD(5) [OF assms Some]
    by (auto simp: finish_job_def intro!: push_phase_ok split: sum.split)
  from store_ok_end [OF store_ok_take_phase [OF assms] this] show ?thesis
    using Some by (simp add: finish_def Let_def)
qed

lemma cancel_ok:
  assumes "store_ok s"
  shows "store_ok (snd (cancel t0 t1 t2 i n s))"
proof (cases "bt_get (os_jobs s) n")
  case None
  then show ?thesis using store_ok_take_phase [OF assms] by (simp add: cancel_def)
next
  case (Some j)
  let ?j = "push_phase t1 t2 Cancelled POk None (j\<lparr>rj_status := Cancelled, rj_ended_at := Some t0\<rparr>)"
  have "job_ok ?j" "rj_node_id ?j = n"
    using job_okD [OF store_okD(4) [OF assms Some]] store_okD(5) [OF assms Some] by (auto intro!: push_phase_ok)
  from store_ok_end [OF store_ok_take_phase [OF assms] this] show ?thesis
    using Some by (simp add: cancel_def Let_def)
qed

lemma cap_ok: "store_ok s \<Longrightarrow> store_ok (enforce_terminal_job_cap entries n s)"
proof -
  have "store_ok s \<Longrightarrow> store_ok (foldl (\<lambda>s (node, age). forget_job node s) s xs)" for s xs
    by (induction xs arbitrary: s) (auto intro: store_ok_forget)
  then show "store_ok s \<Longrightarrow> store_ok (enforce_terminal_job_cap entries n s)"
    unfolding enforce_terminal_job_cap_def Let_def by (simp only: if_split_eq1 simp_thms split: if_split) auto
qed

lemma begin_ssh_attempt_ok:
  assumes "store_ok s"
  shows "store_ok (snd (begin_ssh_attempt n s))"
proof (cases "bt_get (os_jobs s) n")
  case (Some j)
  let ?j = "j\<lparr>rj_attempt := min (saturating_succ (rj_attempt j)) (rj_max_attempts j)\<rparr>"
  have "job_ok ?j" using store_okD(4) [OF assms Some] by (simp add: job_ok_def)
  then show ?thesis
    using assms Some store_ok_put [OF assms, of ?j n] store_okD(5) [OF assms Some]
    by (auto simp: begin_ssh_attempt_def Let_def)
qed (use assms in \<open>simp add: begin_ssh_attempt_def\<close>)

lemma schedule_retry_ok:
  assumes "store_ok s"
  shows "store_ok (snd (schedule_retry t i d n s))"
proof (cases "bt_get (os_jobs s) n")
  case (Some j)
  let ?j = "push_phase t t Queued PRunning (Some (RetryMessage (rj_attempt j + 1) (rj_max_attempts j) d))
    (j\<lparr>rj_status := Queued\<rparr>)"
  have "job_ok ?j" "rj_node_id ?j = n"
    using job_okD [OF store_okD(4) [OF assms Some]] store_okD(5) [OF assms Some] by (auto intro!: push_phase_ok)
  moreover have "rj_ended_at ?j = None \<or> bt_get (os_audit_contexts s) n = None"
    using active_or_closed [OF assms Some] by simp
  ultimately have "store_ok (put_job n ?j (take_phase n Unknown s))"
    using store_ok_put store_ok_take_phase [OF assms] by simp
  then show ?thesis
    using assms Some store_ok_begin_phase by (auto simp: schedule_retry_def Let_def)
qed (use assms in \<open>simp add: schedule_retry_def\<close>)

lemma update_snapshot_ok:
  assumes "store_ok s"
  shows "store_ok (snd (update_snapshot n f s))"
proof (cases "bt_get (os_jobs s) n")
  case (Some j)
  let ?j = "j\<lparr>rj_snapshot := f (rj_snapshot j)\<rparr>"
  have "job_ok ?j" using store_okD(4) [OF assms Some] by (simp add: job_ok_def)
  then show ?thesis
    using assms Some store_ok_put [OF assms, of ?j n] store_okD(5) [OF assms Some] active_or_closed [OF assms Some]
    by (auto simp: update_snapshot_def Let_def)
qed (use assms in \<open>simp add: update_snapshot_def\<close>)

lemmas store_operations_ok = schedule_ok(1) schedule_audited_ok advance_ok complete_phase_ok finish_ok
  cancel_ok cap_ok begin_ssh_attempt_ok schedule_retry_ok update_snapshot_ok store_ok_forget

lemma max_one_word: "(1::u32) \<le> max w 1"
  by simp

lemma store_step_ok: "store_ok s \<Longrightarrow> store_ok (store_step s e)"
proof (cases e)
  case (Configure timing n)
  assume "store_ok s"
  then have "store_ok (s\<lparr>os_timing := timing, os_max_attempts := max n 1\<rparr>)"
    by (auto simp: store_ok_def audit_scoped_def is_active_def maps_wf_def)
  then show ?thesis using Configure by (simp add: configure_def)
qed (auto simp: cleanup_terminal_job_def Let_def intro: store_operations_ok)

interpretation reconnect: invariant_machine store_step store_ok
  by unfold_locales (rule store_step_ok)

lemma store_new_ok: "store_ok (store_new timing n)"
  by (simp add: store_new_def store_ok_def audit_scoped_def maps_wf_def)

section \<open>What each operation does to the jobs\<close>

lemma jobs_schedule:
  "maps_wf s \<Longrightarrow> is_active n s \<Longrightarrow> schedule t0 i t1 t2 n name snap s = (the (bt_get (os_jobs s) n), s)"
  "maps_wf s \<Longrightarrow> m \<noteq> n \<Longrightarrow>
   bt_get (os_jobs (snd (schedule t0 i t1 t2 n name snap s))) m = bt_get (os_jobs s) m"
  by (auto simp: schedule_def Let_def is_active_def put_job_def maps_wf_def bt_get_remove split: option.splits)

lemma jobs_schedule_audited:
  "os_jobs (snd (schedule_audited t0 i t1 t2 o1 o2 n name snap c s)) =
   os_jobs (snd (schedule t0 i t1 t2 n name snap s))"
  by (auto simp: schedule_audited_def Let_def split: option.split prod.split)

lemma jobs_advance:
  "maps_wf s \<Longrightarrow> bt_get (os_jobs (snd (advance t i n phase s))) =
     (case bt_get (os_jobs s) n of None \<Rightarrow> bt_get (os_jobs s)
      | Some j \<Rightarrow> (bt_get (os_jobs s))(n := Some (push_phase t t phase PRunning None (j\<lparr>rj_status := phase\<rparr>))))"
  by (auto simp: advance_def Let_def split: option.split)

lemma jobs_complete_phase:
  "maps_wf s \<Longrightarrow> m \<noteq> n \<Longrightarrow> bt_get (os_jobs (snd (complete_phase t n r d s))) m = bt_get (os_jobs s) m"
  "maps_wf s \<Longrightarrow> bt_get (os_jobs s) n = Some j \<Longrightarrow>
   \<exists>h. bt_get (os_jobs (snd (complete_phase t n r d s))) n = Some (j\<lparr>rj_phase_history := h\<rparr>)"
proof -
  assume "maps_wf s" "m \<noteq> n"
  then show "bt_get (os_jobs (snd (complete_phase t n r d s))) m = bt_get (os_jobs s) m"
    by (auto simp: complete_phase_def Let_def split: option.split)
next
  assume wf: "maps_wf s" "bt_get (os_jobs s) n = Some j"
  have "\<exists>h. j = j\<lparr>rj_phase_history := h\<rparr>" by (rule exI [of _ "rj_phase_history j"]) simp
  with wf show "\<exists>h. bt_get (os_jobs (snd (complete_phase t n r d s))) n = Some (j\<lparr>rj_phase_history := h\<rparr>)"
    by (cases "rj_phase_history j = []") (auto simp: complete_phase_def Let_def split: option.split)
qed

lemma jobs_finish:
  "maps_wf s \<Longrightarrow> m \<noteq> n \<Longrightarrow> bt_get (os_jobs (snd (finish t0 t1 t2 i n r s))) m = bt_get (os_jobs s) m"
  by (auto simp: finish_def Let_def split: option.split)

lemma jobs_cancel:
  "maps_wf s \<Longrightarrow> m \<noteq> n \<Longrightarrow> bt_get (os_jobs (snd (cancel t0 t1 t2 i n s))) m = bt_get (os_jobs s) m"
  by (auto simp: cancel_def Let_def split: option.split)

lemma jobs_forget: "os_jobs (forget_job n s) = bt_remove n (os_jobs s)"
  by (simp add: forget_job_def)

lemma jobs_begin_attempt:
  "maps_wf s \<Longrightarrow> bt_get (os_jobs (snd (begin_ssh_attempt n s))) =
     (case bt_get (os_jobs s) n of None \<Rightarrow> bt_get (os_jobs s)
      | Some j \<Rightarrow> if rj_ended_at j \<noteq> None then bt_get (os_jobs s)
          else (bt_get (os_jobs s))(n := Some
            (j\<lparr>rj_attempt := min (saturating_succ (rj_attempt j)) (rj_max_attempts j)\<rparr>)))"
  by (auto simp: begin_ssh_attempt_def Let_def split: option.split)

lemma jobs_schedule_retry:
  "maps_wf s \<Longrightarrow> m \<noteq> n \<Longrightarrow> bt_get (os_jobs (snd (schedule_retry t i d n s))) m = bt_get (os_jobs s) m"
  "maps_wf s \<Longrightarrow> bt_get (os_jobs s) n = Some j \<Longrightarrow>
   \<exists>h p. bt_get (os_jobs (snd (schedule_retry t i d n s))) n = Some (j\<lparr>rj_status := p, rj_phase_history := h\<rparr>)"
proof -
  assume "maps_wf s" "m \<noteq> n"
  then show "bt_get (os_jobs (snd (schedule_retry t i d n s))) m = bt_get (os_jobs s) m"
    by (auto simp: schedule_retry_def Let_def split: option.split)
next
  assume wf: "maps_wf s" "bt_get (os_jobs s) n = Some j"
  have "\<exists>h p. j = j\<lparr>rj_status := p, rj_phase_history := h\<rparr>"
    by (rule exI [of _ "rj_phase_history j"], rule exI [of _ "rj_status j"]) simp
  with wf show "\<exists>h p. bt_get (os_jobs (snd (schedule_retry t i d n s))) n =
      Some (j\<lparr>rj_status := p, rj_phase_history := h\<rparr>)"
    by (cases "rj_ended_at j \<noteq> None \<or> rj_max_attempts j \<le> rj_attempt j")
      (auto simp: schedule_retry_def push_phase_def Let_def)
qed

lemma jobs_update_snapshot:
  "maps_wf s \<Longrightarrow> bt_get (os_jobs (snd (update_snapshot n f s))) =
     (case bt_get (os_jobs s) n of None \<Rightarrow> bt_get (os_jobs s)
      | Some j \<Rightarrow> (bt_get (os_jobs s))(n := Some (j\<lparr>rj_snapshot := f (rj_snapshot j)\<rparr>)))"
  by (auto simp: update_snapshot_def Let_def split: option.split)

text \<open>The events that may end or forget the job of a node.\<close>

fun may_end :: "string \<Rightarrow> reconnect_event \<Rightarrow> bool" where
  "may_end node (Finish t0 t1 t2 i n r) = (n = node)"
| "may_end node (Cancel t0 t1 t2 i n) = (n = node)"
| "may_end node (CleanupTerminal n t) = (n = node)"
| "may_end node (EnforceCap entries n) = True"
| "may_end node _ = False"

fun begins_attempt :: "string \<Rightarrow> reconnect_event \<Rightarrow> bool" where
  "begins_attempt node (BeginAttempt n) = (n = node)"
| "begins_attempt node _ = False"

text \<open>The part of a job that only its end and its attempts change.\<close>

definition same_job :: "reconnect_job \<Rightarrow> reconnect_job \<Rightarrow> bool" where
  "same_job j j' \<longleftrightarrow> rj_job_id j' = rj_job_id j \<and> rj_max_attempts j' = rj_max_attempts j \<and>
     rj_started_at j' = rj_started_at j \<and> rj_ended_at j' = rj_ended_at j"

lemma store_step_same_job:
  assumes "maps_wf s" "bt_get (os_jobs s) node = Some j" "rj_ended_at j = None" "\<not> may_end node e"
  shows "\<exists>j'. bt_get (os_jobs (store_step s e)) node = Some j' \<and> same_job j j' \<and>
    rj_attempt j' = (if begins_attempt node e
      then min (saturating_succ (rj_attempt j)) (rj_max_attempts j) else rj_attempt j)"
proof -
  have active: "is_active node s" using assms by (simp add: is_active_def)
  show ?thesis
  proof (cases e)
    case (Configure timing n)
    then show ?thesis using assms by (simp add: configure_def same_job_def)
  next
    case (Schedule t0 i t1 t2 n name snap)
    then show ?thesis
      using assms active jobs_schedule by (cases "n = node") (auto simp: same_job_def)
  next
    case (ScheduleAudited t0 i t1 t2 o1 o2 n name snap c)
    then show ?thesis
      using assms active jobs_schedule by (cases "n = node") (auto simp: same_job_def jobs_schedule_audited)
  next
    case (Advance t i n phase)
    then show ?thesis
      using assms by (cases "n = node") (auto simp: same_job_def jobs_advance split: option.split)
  next
    case (CompletePhase t n r d)
    then show ?thesis
      using assms jobs_complete_phase(1) [OF assms(1), of node n] jobs_complete_phase(2) [OF assms(1,2), of t r d]
      by (cases "n = node") (auto simp: same_job_def)
  next
    case (ScheduleRetry t i d n)
    then show ?thesis
      using assms jobs_schedule_retry(1) [OF assms(1), of node n] jobs_schedule_retry(2) [OF assms(1,2), of t i d]
      by (cases "n = node") (auto simp: same_job_def)
  next
    case (BeginAttempt n)
    then show ?thesis
      using assms by (cases "n = node") (auto simp: same_job_def jobs_begin_attempt split: option.split)
  next
    case (UpdateSnapshot n f)
    then show ?thesis
      using assms by (cases "n = node") (auto simp: same_job_def jobs_update_snapshot split: option.split)
  qed (use assms in \<open>auto simp: same_job_def jobs_finish jobs_cancel jobs_forget bt_get_remove
         cleanup_terminal_job_def Let_def\<close>)
qed

lemma unat_next_attempt:
  fixes a m :: u32
  assumes "unat a = min k (unat m)"
  shows "unat (min (saturating_succ a) m) = min (Suc k) (unat m)"
proof (cases "a = - 1")
  case True
  then have "m \<le> a" by simp
  then have "unat m \<le> k" using assms by (auto simp: word_le_nat_alt)
  then show ?thesis using True assms \<open>m \<le> a\<close> by (simp add: saturating_succ_def min_def word_le_nat_alt)
next
  case False
  then have "1 + a \<noteq> 0" by (metis add.commute eq_neg_iff_add_eq_0)
  then have "unat (a + 1) = unat a + 1" using unatSuc [of a] by (simp add: add.commute)
  then show ?thesis
    using assms False by (simp add: saturating_succ_def min_def word_le_nat_alt)
qed

lemma retry_budget_run:
  assumes "store_ok s" "bt_get (os_jobs s) node = Some j" "rj_ended_at j = None"
    and "unat (rj_attempt j) = min k (unat (rj_max_attempts j))" "\<forall>e\<in>set es. \<not> may_end node e"
  shows "\<exists>j'. bt_get (os_jobs (foldl store_step s es)) node = Some j' \<and> same_job j j' \<and>
    unat (rj_attempt j') = min (k + length (filter (begins_attempt node) es)) (unat (rj_max_attempts j))"
  using assms
proof (induction es arbitrary: s j k)
  case Nil
  then show ?case by (simp add: same_job_def)
next
  case (Cons e es)
  obtain j' where j': "bt_get (os_jobs (store_step s e)) node = Some j'" "same_job j j'"
    "rj_attempt j' = (if begins_attempt node e
      then min (saturating_succ (rj_attempt j)) (rj_max_attempts j) else rj_attempt j)"
    using store_step_same_job [OF store_okD(1) [OF Cons.prems(1)] Cons.prems(2,3), of e] Cons.prems(5) by auto
  have "unat (rj_attempt j') =
      min (k + (if begins_attempt node e then 1 else 0)) (unat (rj_max_attempts j'))"
    using j'(2,3) Cons.prems(4) unat_next_attempt [OF Cons.prems(4)] by (simp add: same_job_def)
  moreover have "rj_ended_at j' = None" using j'(2) Cons.prems(3) by (simp add: same_job_def)
  ultimately obtain j2 where "bt_get (os_jobs (foldl store_step (store_step s e) es)) node = Some j2"
    "same_job j' j2" "unat (rj_attempt j2) = min (k + (if begins_attempt node e then 1 else 0) +
      length (filter (begins_attempt node) es)) (unat (rj_max_attempts j'))"
    using Cons.IH [OF store_step_ok [OF Cons.prems(1)] j'(1)] Cons.prems(5) by auto
  with j'(2) show ?case by (auto simp: same_job_def)
qed

section \<open>The cap on retained jobs\<close>

lemma mset_insert_by_age [simp]: "mset (insert_by_age x ys) = add_mset x (mset ys)"
  by (induction ys) auto

lemma mset_sort_by_age [simp]: "mset (sort_by_age xs) = mset xs"
  by (induction xs) (simp_all add: sort_by_age_def)

abbreviation by_age :: "string \<times> nat \<times> nat \<Rightarrow> string \<times> nat \<times> nat \<Rightarrow> bool" where
  "by_age x y \<equiv> \<not> age_less (snd y) (snd x)"

lemma sorted_insert_by_age: "sorted_wrt by_age ys \<Longrightarrow> sorted_wrt by_age (insert_by_age x ys)"
proof (induction ys)
  case (Cons y ys)
  have set: "set (insert_by_age x ys) = insert x (set ys)"
    using mset_insert_by_age [of x ys] by (metis set_mset_add_mset_insert set_mset_mset)
  show ?case
    using Cons by (fastforce simp: set age_less_def)
qed simp

lemma sorted_sort_by_age: "sorted_wrt by_age (sort_by_age xs)"
  by (induction xs) (simp_all add: sort_by_age_def sorted_insert_by_age)

definition terminal_nodes :: "reconnect_store \<Rightarrow> string set" where
  "terminal_nodes s = {n. \<exists>j. bt_get (os_jobs s) n = Some j \<and> is_terminal_phase (rj_status j)}"

lemma foldl_forget_jobs:
  "bt_get (os_jobs (foldl (\<lambda>s (node, age). forget_job node s) s xs)) n =
     (if n \<in> fst ` set xs then None else bt_get (os_jobs s) n)"
  by (induction xs arbitrary: s) (auto simp: jobs_forget bt_get_remove)

definition terminal_entries :: "(string \<times> reconnect_job) list \<Rightarrow> (string \<times> nat \<times> nat) list" where
  "terminal_entries entries =
     map (\<lambda>(node, j). (node, job_age j)) (filter (\<lambda>(node, j). is_terminal_phase (rj_status j)) entries)"

lemma terminal_entries_jobs:
  assumes "maps_wf s" "mset entries = mset (os_jobs s)"
  shows "distinct (map fst (terminal_entries entries))"
    and "(n, a) \<in> set (terminal_entries entries) \<longleftrightarrow>
      (\<exists>j. bt_get (os_jobs s) n = Some j \<and> is_terminal_phase (rj_status j) \<and> a = job_age j)"
proof -
  have dist: "distinct (map fst (os_jobs s))"
    using assms(1) bt_wf_distinct [of "os_jobs s"] by (simp add: maps_wf_def)
  moreover have "mset (map fst entries) = mset (map fst (os_jobs s))"
    using assms(2) by (metis mset_map)
  ultimately have "distinct (map fst entries)" by (metis mset_eq_imp_distinct_iff)
  moreover have "map fst (terminal_entries entries) =
      map fst (filter (\<lambda>(node, j). is_terminal_phase (rj_status j)) entries)"
    by (auto simp: terminal_entries_def)
  ultimately show "distinct (map fst (terminal_entries entries))"
    by (simp add: distinct_map_filter)
  have "set entries = set (os_jobs s)" using assms(2) by (metis set_mset_mset)
  then show "(n, a) \<in> set (terminal_entries entries) \<longleftrightarrow>
      (\<exists>j. bt_get (os_jobs s) n = Some j \<and> is_terminal_phase (rj_status j) \<and> a = job_age j)"
    using dist by (force simp: terminal_entries_def)
qed

text \<open>What is removed are the first entries in order of age, as many as there are too many.\<close>

lemma enforce_cap_cases:
  fixes limit :: nat
  assumes "maps_wf s" "mset entries = mset (os_jobs s)"
  defines "removed \<equiv> take (length (terminal_entries entries) - limit) (sort_by_age (terminal_entries entries))"
  shows "bt_get (os_jobs (enforce_terminal_job_cap entries limit s)) n =
    (if n \<in> fst ` set removed then None else bt_get (os_jobs s) n)"
proof -
  have "enforce_terminal_job_cap entries limit s = foldl (\<lambda>s (node, age). forget_job node s) s removed"
    by (auto simp: enforce_terminal_job_cap_def removed_def terminal_entries_def Let_def)
  then show ?thesis by (simp add: foldl_forget_jobs)
qed

lemma card_terminal_nodes:
  assumes "maps_wf s" "mset entries = mset (os_jobs s)"
  shows "terminal_nodes s = fst ` set (terminal_entries entries)"
    and "card (terminal_nodes s) = length (terminal_entries entries)"
proof -
  show eq: "terminal_nodes s = fst ` set (terminal_entries entries)"
  proof (rule set_eqI)
    fix n
    have "n \<in> fst ` set (terminal_entries entries) \<longleftrightarrow> (\<exists>a. (n, a) \<in> set (terminal_entries entries))"
      by (auto simp: image_iff) (metis fst_conv)+
    then show "n \<in> terminal_nodes s \<longleftrightarrow> n \<in> fst ` set (terminal_entries entries)"
      using terminal_entries_jobs(2) [OF assms, of n] unfolding terminal_nodes_def by blast
  qed
  then show "card (terminal_nodes s) = length (terminal_entries entries)"
    using distinct_card [OF terminal_entries_jobs(1) [OF assms]] by simp
qed

lemma cap_removes:
  fixes limit :: nat
  assumes "maps_wf s" "mset entries = mset (os_jobs s)"
  defines "order \<equiv> sort_by_age (terminal_entries entries)"
    and "excess \<equiv> card (terminal_nodes s) - limit"
  shows "terminal_nodes (enforce_terminal_job_cap entries limit s) = fst ` set (drop excess order)"
    and "card (terminal_nodes (enforce_terminal_job_cap entries limit s)) = min limit (card (terminal_nodes s))"
    and "bt_get (os_jobs (enforce_terminal_job_cap entries limit s)) n =
      (if n \<in> fst ` set (take excess order) then None else bt_get (os_jobs s) n)"
proof -
  have order: "mset order = mset (terminal_entries entries)" by (simp add: order_def)
  then have len: "length order = card (terminal_nodes s)"
    using card_terminal_nodes(2) [OF assms(1,2)] by (metis size_mset)
  have "mset (map fst order) = mset (map fst (terminal_entries entries))" using order by (metis mset_map)
  then have dist: "distinct (map fst order)"
    using terminal_entries_jobs(1) [OF assms(1,2)] by (metis mset_eq_imp_distinct_iff)
  have split: "order = take excess order @ drop excess order" by simp
  with dist have disj: "fst ` set (take excess order) \<inter> fst ` set (drop excess order) = {}"
    and dist2: "distinct (map fst (drop excess order))"
    by (metis distinct_append list.set_map map_append)+
  have nodes: "terminal_nodes s = fst ` set (take excess order) \<union> fst ` set (drop excess order)"
    using card_terminal_nodes(1) [OF assms(1,2)] order split by (metis image_Un set_append set_mset_mset)
  show get: "bt_get (os_jobs (enforce_terminal_job_cap entries limit s)) n =
      (if n \<in> fst ` set (take excess order) then None else bt_get (os_jobs s) n)" for n
    using enforce_cap_cases [OF assms(1,2), of limit n] card_terminal_nodes(2) [OF assms(1,2)]
    by (simp add: order_def excess_def)
  show kept: "terminal_nodes (enforce_terminal_job_cap entries limit s) = fst ` set (drop excess order)"
    using nodes disj unfolding terminal_nodes_def get by auto
  have "card (fst ` set (drop excess order)) = length (drop excess order)"
    using distinct_card [OF dist2] by simp
  then show "card (terminal_nodes (enforce_terminal_job_cap entries limit s)) = min limit (card (terminal_nodes s))"
    using len unfolding kept by (simp add: excess_def)
qed

section \<open>Properties\<close>

definition store_after :: "reconnect_timing \<Rightarrow> u32 \<Rightarrow> reconnect_event list \<Rightarrow> reconnect_store" where
  "store_after timing max_attempts es = foldl store_step (store_new timing max_attempts) es"

lemma store_after_ok: "store_ok (store_after timing max_attempts es)"
  unfolding store_after_def by (rule reconnect.run_inv [OF store_new_ok])

text \<open>
  Every job stays within its bounds. After any calls in any order, a stored job is
  filed under its own node, allows at least one attempt and has used no more than it allows, and
  its phase history holds between one and 64 entries of which the last is the phase the job is in.
\<close>

theorem reconnect_jobs_bounded:
  assumes "bt_get (os_jobs (store_after timing max_attempts es)) node = Some j"
  shows "rj_node_id j = node \<and> 1 \<le> rj_max_attempts j \<and> rj_attempt j \<le> rj_max_attempts j \<and>
    1 \<le> length (rj_phase_history j) \<and> length (rj_phase_history j) \<le> 64 \<and>
    pe_phase (last (rj_phase_history j)) = rj_status j"
  using store_okD(4,5) [OF store_after_ok assms] by (simp add: job_ok_def Suc_le_eq)

text \<open>
  Audit operations do not outlive their job. After any calls in any order, a node
  without an active reconnection has no audit context and no open audit operation, neither for the
  job nor for a phase: finishing, cancelling and removing a job complete all of them on every path.
\<close>

theorem audit_ends_with_job:
  "is_active node (store_after timing max_attempts es) \<or>
   (bt_get (os_audit_contexts (store_after timing max_attempts es)) node = None \<and>
    bt_get (os_audit_jobs (store_after timing max_attempts es)) node = None \<and>
    bt_get (os_audit_phases (store_after timing max_attempts es)) node = None)"
  using store_okD(2) [OF store_after_ok, of timing max_attempts es] unfolding audit_scoped_def by blast

text \<open>
  Property C39: the retry budget is kept. Starting from a job that is active and has made no attempt,
  let any calls follow that do not end or remove it, with \<open>k\<close> attempts begun among them (the calls
  may schedule the node again, advance or complete its phases, concern other nodes or change the
  configuration). Then it is still the same job, it counts \<open>k\<close> attempts up to its limit, and another
  retry is granted exactly when the limit is not reached, numbered \<open>k + 1\<close>.
\<close>

theorem retry_budget:
  assumes "bt_get (os_jobs (store_after timing max_attempts es)) node = Some j"
    and "rj_ended_at j = None" "rj_attempt j = 0" "\<forall>e\<in>set later. \<not> may_end node e"
  defines "s \<equiv> store_after timing max_attempts (es @ later)"
    and "k \<equiv> length (filter (begins_attempt node) later)"
  shows "active_job_id node s = Some (rj_job_id j) \<and>
    map_option (map_prod unat unat) (active_attempt node s) =
      Some (min k (unat (rj_max_attempts j)), unat (rj_max_attempts j)) \<and>
    (case fst (schedule_retry now op_id delay node s) of
       None \<Rightarrow> unat (rj_max_attempts j) \<le> k
     | Some r \<Rightarrow> k < unat (rj_max_attempts j) \<and> unat (rr_attempt r) = k + 1 \<and>
         rr_max_attempts r = rj_max_attempts j \<and> rr_delay r = delay)"
proof -
  have zero: "unat (rj_attempt j) = min 0 (unat (rj_max_attempts j))" using assms(3) by simp
  obtain j' where j': "bt_get (os_jobs s) node = Some j'" "same_job j j'"
    and n: "unat (rj_attempt j') = min k (unat (rj_max_attempts j))"
    using retry_budget_run [OF store_after_ok assms(1,2) zero assms(4)]
    by (auto simp: s_def k_def store_after_def)
  have max: "rj_max_attempts j' = rj_max_attempts j" "rj_ended_at j' = None" "rj_job_id j' = rj_job_id j"
    using j'(2) assms(2) by (simp_all add: same_job_def)
  have "unat (rj_attempt j' + 1) = unat (rj_attempt j') + 1" if "k < unat (rj_max_attempts j)"
  proof -
    have "rj_attempt j' \<noteq> - 1"
      using n that word_order.extremum [of "rj_max_attempts j"] by (auto simp: word_le_nat_alt)
    then have "1 + rj_attempt j' \<noteq> 0" by (metis add.commute eq_neg_iff_add_eq_0)
    then show ?thesis using unatSuc [of "rj_attempt j'"] by (simp add: add.commute)
  qed
  then show ?thesis
    using j'(1) n max
    by (auto simp: active_job_id_def active_attempt_def schedule_retry_def Let_def word_le_nat_alt)
qed

text \<open>
  The cap keeps the newest jobs. Whatever the order in which the map is iterated, after
  enforcing a limit the jobs in a terminal phase number the limit or, when there were fewer, as
  many as before; jobs in other phases are all kept and no job is changed; and no job that was
  removed is newer, by end and then by start, than one in a terminal phase that was kept.
\<close>

theorem cap_keeps_newest:
  fixes limit :: nat
  assumes "mset entries = mset (os_jobs (store_after timing max_attempts es))"
  defines "s \<equiv> store_after timing max_attempts es"
    and "s' \<equiv> enforce_terminal_job_cap entries limit (store_after timing max_attempts es)"
  shows "card (terminal_nodes s') = min limit (card (terminal_nodes s)) \<and>
    (\<forall>node. bt_get (os_jobs s') node = bt_get (os_jobs s) node \<or>
       bt_get (os_jobs s') node = None \<and> node \<in> terminal_nodes s) \<and>
    (\<forall>node\<in>terminal_nodes s - terminal_nodes s'. \<forall>kept\<in>terminal_nodes s'.
       \<not> age_less (job_age (the (bt_get (os_jobs s) kept))) (job_age (the (bt_get (os_jobs s) node))))"
proof -
  have wf: "maps_wf s" unfolding s_def by (rule store_okD(1) [OF store_after_ok])
  define order excess where "order = sort_by_age (terminal_entries entries)"
    and "excess = card (terminal_nodes s) - limit"
  have perm: "mset entries = mset (os_jobs s)" using assms(1) by (simp add: s_def)
  note cap = cap_removes [OF wf perm, of limit, folded order_def excess_def]
  have s': "s' = enforce_terminal_job_cap entries limit s" by (simp add: s'_def s_def)
  have set: "set order = set (terminal_entries entries)"
    unfolding order_def by (metis mset_sort_by_age set_mset_mset)
  have nodes: "terminal_nodes s = fst ` set order"
    using card_terminal_nodes(1) [OF wf perm] set by simp
  have age: "snd x = job_age (the (bt_get (os_jobs s) (fst x)))" if "x \<in> set order" for x
    using that terminal_entries_jobs(2) [OF wf perm, of "fst x" "snd x"] set by auto
  have "sorted_wrt by_age (take excess order @ drop excess order)"
    by (simp add: order_def sorted_sort_by_age)
  then have sorted: "\<forall>x\<in>set (take excess order). \<forall>y\<in>set (drop excess order). by_age x y"
    unfolding sorted_wrt_append by blast
  have "set order = set (take excess order) \<union> set (drop excess order)"
    by (metis append_take_drop_id set_append)
  then have removed: "terminal_nodes s - terminal_nodes s' \<subseteq> fst ` set (take excess order)"
    using nodes cap(1) s' by auto
  show ?thesis
  proof (intro conjI allI ballI)
    show "card (terminal_nodes s') = min limit (card (terminal_nodes s))" using cap(2) s' by simp
    show "bt_get (os_jobs s') node = bt_get (os_jobs s) node \<or>
        bt_get (os_jobs s') node = None \<and> node \<in> terminal_nodes s" for node
      using cap(3) [of node] s' nodes set_take_subset [of excess order] by auto
    fix node kept
    assume node: "node \<in> terminal_nodes s - terminal_nodes s'" and "kept \<in> terminal_nodes s'"
    then have "kept \<in> fst ` set (drop excess order)" using cap(1) s' by simp
    then obtain y where y: "y \<in> set (drop excess order)" "fst y = kept" by auto
    have "node \<in> fst ` set (take excess order)" using removed node by (rule subsetD)
    then obtain x where x: "x \<in> set (take excess order)" "fst x = node" by auto
    have "\<not> age_less (snd y) (snd x)" using sorted x(1) y(1) by blast
    then show "\<not> age_less (job_age (the (bt_get (os_jobs s) kept))) (job_age (the (bt_get (os_jobs s) node)))"
      using age [of x] age [of y] in_set_takeD [OF x(1)] in_set_dropD [OF y(1)] x(2) y(2) by simp
  qed
qed

definition sample_snapshot :: reconnect_snapshot where
  "sample_snapshot = \<lparr>sn_node_id = [], sn_terminal_pane_ids = [], sn_old_terminal_session_ids = [],
     sn_terminal_sessions_by_node = [], sn_forward_rules = [], sn_active_port_forward_ids = [],
     sn_inflight_sftp_transfer_ids = [], sn_incomplete_sftp_transfers_by_node = [],
     sn_ide_snapshot = None, sn_old_connections_by_node = [], sn_old_connection_ids = [],
     sn_snapshot_at = None\<rparr>"

definition sample_schedule :: reconnect_event where
  "sample_schedule = Schedule 0 ''j'' 1 2 ''n'' ''node'' sample_snapshot"

lemma sample_scheduled:
  "\<exists>j. bt_get (os_jobs (store_after timing_default 2 [sample_schedule])) ''n'' = Some j \<and>
     rj_ended_at j = None \<and> rj_attempt j = 0 \<and> rj_max_attempts j = 2 \<and> rj_job_id j = ''j''"
  by (simp add: store_after_def store_new_def sample_schedule_def schedule_def put_job_def push_phase_def
      Let_def max_def word_le_nat_alt)

theorem reconnect_jobs_bounded_witness:
  "\<exists>j. bt_get (os_jobs (store_after timing_default 2 [sample_schedule])) ''n'' = Some j \<and>
     rj_attempt j \<le> rj_max_attempts j \<and> length (rj_phase_history j) \<le> 64"
  using sample_scheduled reconnect_jobs_bounded by blast

theorem retry_budget_witness:
  "\<exists>r. fst (schedule_retry 5 None 700 ''n''
      (store_after timing_default 2 ([sample_schedule] @ [BeginAttempt ''n'']))) = Some r \<and> unat (rr_attempt r) = 2"
proof -
  obtain j where j: "bt_get (os_jobs (store_after timing_default 2 [sample_schedule])) ''n'' = Some j"
    "rj_ended_at j = None" "rj_attempt j = 0" "rj_max_attempts j = 2"
    using sample_scheduled by blast
  have "\<forall>e\<in>set [BeginAttempt ''n'']. \<not> may_end ''n'' e" by simp
  from retry_budget [where now = 5 and op_id = None and delay = 700, OF j(1-3) this] j(4) show ?thesis
    by (auto split: option.splits)
qed

theorem cap_keeps_newest_witness:
  "card (terminal_nodes (enforce_terminal_job_cap
     (os_jobs (store_after timing_default 2 [sample_schedule, Cancel 3 4 5 None ''n'']))
     0 (store_after timing_default 2 [sample_schedule, Cancel 3 4 5 None ''n'']))) = 0 \<and>
   ''n'' \<in> terminal_nodes (store_after timing_default 2 [sample_schedule, Cancel 3 4 5 None ''n''])"
proof
  show "card (terminal_nodes (enforce_terminal_job_cap
     (os_jobs (store_after timing_default 2 [sample_schedule, Cancel 3 4 5 None ''n'']))
     0 (store_after timing_default 2 [sample_schedule, Cancel 3 4 5 None ''n'']))) = 0"
    using cap_keeps_newest [OF refl, of timing_default 2 "[sample_schedule, Cancel 3 4 5 None ''n'']" 0] by simp
  show "''n'' \<in> terminal_nodes (store_after timing_default 2 [sample_schedule, Cancel 3 4 5 None ''n''])"
    by (simp add: terminal_nodes_def store_after_def store_new_def sample_schedule_def schedule_def
        put_job_def push_phase_def cancel_def take_phase_def take_audit_job_def begin_audit_phase_def
        Let_def)
qed

end
