(* ===== verification/Ssh_Connect_Plan.thy ===== *)
theory Ssh_Connect_Plan
  imports Oxide_Prelude
begin

text \<open>
  The plan that connects a chain of jump hosts from the root to the target
  (\<open>crates/oxideterm-ssh/src/session_tree_plan.rs\<close>): a pure state machine that says which effect
  the orchestration has to carry out next. The orchestration itself is not part of this theory, so nothing
  is assumed of it: the property of the plan is stated for every sequence of its operations.
\<close>

section \<open>The plan\<close>

datatype node_id = NodeId string

datatype host_key_status =
    Verified
  | Unknown string string
  | Changed string string string
  | StatusError string

record connect_endpoint =
  ce_host :: string
  ce_port :: u16

record connect_step =
  st_node_id :: node_id
  st_host :: string
  st_port :: u16
  st_trust_host_key :: "bool option"
  st_expected_host_key_fingerprint :: "string option"
  st_preflight_verified :: bool

record node_tree_expansion =
  ne_target_node_id :: node_id
  ne_path_node_ids :: "node_id list"
  ne_chain_depth :: u32

record connect_plan =
  pl_target_node_id :: node_id
  pl_cleanup_node_id :: "node_id option"
  pl_steps :: "connect_step list"
  pl_current_index :: nat

text \<open>The two messages the functions return as \<open>Err\<close>.\<close>

datatype plan_error = EndpointMismatch nat nat | NoCurrentStep

record plan_challenge =
  ch_plan :: connect_plan
  ch_status :: host_key_status
  ch_step :: connect_step

datatype plan_action = Preflight connect_step | Connect connect_step | Complete node_id

definition endpoint_new :: "string \<Rightarrow> u16 \<Rightarrow> connect_endpoint" where
  "endpoint_new host port = \<lparr>ce_host = host, ce_port = port\<rparr>"

definition has_accepted_host_key :: "connect_step \<Rightarrow> bool" where
  "has_accepted_host_key st \<longleftrightarrow>
     st_trust_host_key st \<noteq> None \<and> st_expected_host_key_fingerprint st \<noteq> None"

definition can_connect_without_preflight :: "connect_step \<Rightarrow> bool" where
  "can_connect_without_preflight st \<longleftrightarrow> st_preflight_verified st \<or> has_accepted_host_key st"

definition with_accepted_host_key :: "bool \<Rightarrow> string \<Rightarrow> connect_step \<Rightarrow> connect_step" where
  "with_accepted_host_key trust fingerprint st =
     st\<lparr>st_trust_host_key := Some trust, st_expected_host_key_fingerprint := Some fingerprint,
        st_preflight_verified := False\<rparr>"

definition from_expansion ::
    "node_tree_expansion \<Rightarrow> connect_endpoint list \<Rightarrow> node_id option \<Rightarrow> plan_error + connect_plan" where
  "from_expansion e endpoints cleanup =
     (if length (ne_path_node_ids e) \<noteq> length endpoints
      then Inl (EndpointMismatch (length (ne_path_node_ids e)) (length endpoints))
      else Inr \<lparr>pl_target_node_id = ne_target_node_id e, pl_cleanup_node_id = cleanup,
             pl_steps = map (\<lambda>(n, p). \<lparr>st_node_id = n, st_host = ce_host p, st_port = ce_port p,
               st_trust_host_key = None, st_expected_host_key_fingerprint = None,
               st_preflight_verified = False\<rparr>) (zip (ne_path_node_ids e) endpoints),
             pl_current_index = 0\<rparr>)"

text \<open>\<open>steps.get(current_index)\<close>.\<close>

definition current_step :: "connect_plan \<Rightarrow> connect_step option" where
  "current_step p =
     (if pl_current_index p < length (pl_steps p) then Some (pl_steps p ! pl_current_index p) else None)"

definition next_action :: "connect_plan \<Rightarrow> plan_action" where
  "next_action p =
     (case current_step p of
        None \<Rightarrow> Complete (pl_target_node_id p)
      | Some st \<Rightarrow> if can_connect_without_preflight st then Connect st else Preflight st)"

definition advance_after_connected_step :: "connect_plan \<Rightarrow> connect_plan" where
  "advance_after_connected_step p =
     (if pl_current_index p < length (pl_steps p)
      then p\<lparr>pl_current_index := pl_current_index p + 1\<rparr> else p)"

definition accept_current_host_key :: "bool \<Rightarrow> string \<Rightarrow> connect_plan \<Rightarrow> plan_error + connect_plan" where
  "accept_current_host_key trust fingerprint p =
     (case current_step p of
        None \<Rightarrow> Inl NoCurrentStep
      | Some st \<Rightarrow>
          Inr (p\<lparr>pl_steps := (pl_steps p)[pl_current_index p :=
            st\<lparr>st_trust_host_key := Some trust, st_expected_host_key_fingerprint := Some fingerprint,
               st_preflight_verified := False\<rparr>]\<rparr>))"

definition mark_current_preflight_verified :: "connect_plan \<Rightarrow> plan_error + connect_plan" where
  "mark_current_preflight_verified p =
     (case current_step p of
        None \<Rightarrow> Inl NoCurrentStep
      | Some st \<Rightarrow>
          Inr (p\<lparr>pl_steps := (pl_steps p)[pl_current_index p :=
            st\<lparr>st_preflight_verified := True, st_trust_host_key := None,
               st_expected_host_key_fingerprint := None\<rparr>]\<rparr>))"

definition cleanup_root_node_id :: "connect_plan \<Rightarrow> node_id option" where
  "cleanup_root_node_id p = pl_cleanup_node_id p"

definition challenge_for_current_step ::
    "host_key_status \<Rightarrow> connect_plan \<Rightarrow> plan_error + plan_challenge" where
  "challenge_for_current_step status p =
     (case current_step p of
        None \<Rightarrow> Inl NoCurrentStep
      | Some st \<Rightarrow> Inr \<lparr>ch_plan = p, ch_status = status, ch_step = st\<rparr>)"

section \<open>Runs of the plan\<close>

text \<open>
  The callers of the plan (\<open>new_connection/entity.rs\<close>) record a decision about the host key of the current hop, and advance
  the plan when they hear that its node is connected. They may do this at any time and in any order, so a run
  is any sequence of the three operations; an operation that returns an error leaves the plan as it is.
\<close>

datatype decision = PreflightPassed | KeyAccepted bool string

datatype plan_call = Decide decision | Advance

definition plan_apply :: "connect_plan \<Rightarrow> plan_call \<Rightarrow> connect_plan" where
  "plan_apply p c =
     (case c of
        Decide PreflightPassed \<Rightarrow> (case mark_current_preflight_verified p of Inl _ \<Rightarrow> p | Inr q \<Rightarrow> q)
      | Decide (KeyAccepted trust fingerprint) \<Rightarrow>
          (case accept_current_host_key trust fingerprint p of Inl _ \<Rightarrow> p | Inr q \<Rightarrow> q)
      | Advance \<Rightarrow> advance_after_connected_step p)"

text \<open>What a run says of the plan: how many hops were passed, and the last decision since the last of them.\<close>

definition hops_passed :: "plan_call list \<Rightarrow> nat" where
  "hops_passed calls = length (filter (\<lambda>c. c = Advance) calls)"

fun open_decision :: "decision option \<Rightarrow> plan_call list \<Rightarrow> decision option" where
  "open_decision d [] = d"
| "open_decision d (Decide e # calls) = open_decision (Some e) calls"
| "open_decision d (Advance # calls) = open_decision None calls"

text \<open>A step that carries a decision and nothing else.\<close>

fun decided_step :: "decision \<Rightarrow> connect_step \<Rightarrow> connect_step" where
  "decided_step PreflightPassed st =
     st\<lparr>st_preflight_verified := True, st_trust_host_key := None, st_expected_host_key_fingerprint := None\<rparr>"
| "decided_step (KeyAccepted trust fingerprint) st =
     st\<lparr>st_trust_host_key := Some trust, st_expected_host_key_fingerprint := Some fingerprint,
        st_preflight_verified := False\<rparr>"

definition undecided_step :: "node_id \<Rightarrow> connect_endpoint \<Rightarrow> connect_step" where
  "undecided_step n p = \<lparr>st_node_id = n, st_host = ce_host p, st_port = ce_port p,
     st_trust_host_key = None, st_expected_host_key_fingerprint = None, st_preflight_verified = False\<rparr>"

lemma open_decision_snoc [simp]:
  "open_decision d (calls @ [Decide e]) = Some e" "open_decision d (calls @ [Advance]) = None"
  by (induction d calls rule: open_decision.induct) auto

lemma hops_passed_simps [simp]:
  "hops_passed [] = 0" "hops_passed (calls @ [Decide e]) = hops_passed calls"
  "hops_passed (calls @ [Advance]) = Suc (hops_passed calls)"
  by (simp_all add: hops_passed_def)

lemma decided_step_twice [simp]: "decided_step d (decided_step e st) = decided_step d st"
  by (cases d; cases e) simp_all

lemma can_connect_decided [simp]: "can_connect_without_preflight (decided_step d st)"
  by (cases d) (auto simp: can_connect_without_preflight_def has_accepted_host_key_def)

lemma cannot_connect_undecided [simp]: "\<not> can_connect_without_preflight (undecided_step n p)"
  by (simp add: can_connect_without_preflight_def has_accepted_host_key_def undecided_step_def)

lemma plan_apply_decide:
  "plan_apply p (Decide d) =
     (if pl_current_index p < length (pl_steps p)
      then p\<lparr>pl_steps := (pl_steps p)[pl_current_index p := decided_step d (pl_steps p ! pl_current_index p)]\<rparr>
      else p)"
  by (cases d)
     (simp_all add: plan_apply_def mark_current_preflight_verified_def accept_current_host_key_def current_step_def)

text \<open>
  The invariant of a run: the index counts the hops passed, the current step carries the open decision, and
  the steps after it carry none.
\<close>

definition plan_tracks :: "connect_step list \<Rightarrow> plan_call list \<Rightarrow> connect_plan \<Rightarrow> bool" where
  "plan_tracks fresh calls p \<longleftrightarrow>
     length (pl_steps p) = length fresh \<and> pl_current_index p = min (hops_passed calls) (length fresh) \<and>
     (\<forall>i<length fresh. hops_passed calls < i \<longrightarrow> pl_steps p ! i = fresh ! i) \<and>
     (hops_passed calls < length fresh \<longrightarrow> pl_steps p ! hops_passed calls =
        (case open_decision None calls of
           None \<Rightarrow> fresh ! hops_passed calls | Some d \<Rightarrow> decided_step d (fresh ! hops_passed calls)))"

lemma plan_tracks_step:
  assumes "plan_tracks fresh calls p"
  shows "plan_tracks fresh (calls @ [c]) (plan_apply p c)"
proof (cases c)
  case (Decide d)
  then show ?thesis
    using assms by (auto simp: plan_tracks_def plan_apply_decide split: option.splits)
next
  case Advance
  then show ?thesis
    using assms by (auto simp: plan_tracks_def plan_apply_def advance_after_connected_step_def min_def)
qed

lemma plan_tracks_run:
  "plan_tracks fresh [] p \<Longrightarrow> plan_tracks fresh calls (foldl plan_apply p calls)"
  by (induction calls rule: rev_induct) (simp_all add: plan_tracks_step)

lemma plan_apply_target: "pl_target_node_id (foldl plan_apply p calls) = pl_target_node_id p"
proof (induction calls arbitrary: p)
  case (Cons c calls)
  have "pl_target_node_id (plan_apply p c) = pl_target_node_id p"
    by (cases c) (simp_all add: plan_apply_decide, simp add: plan_apply_def advance_after_connected_step_def)
  with Cons show ?case by simp
qed simp

section \<open>Properties\<close>

text \<open>
  Property C40: hops are connected in order, and only after a decision about their own host key. Whatever operations the callers
  perform on a new plan, and in whatever order, the plan names the hop whose number is the number of advances, with its
  node and its endpoint; it asks to check the host key of this hop as long as no decision was recorded since the last advance, and asks to
  connect it otherwise, with exactly the last decision: a verified preflight without any fingerprint, or the
  trust and the fingerprint the user accepted. No decision carries over to another hop, and the plan is complete exactly when every
  hop of the path was passed.
\<close>

theorem hops_connected_in_order:
  assumes "from_expansion e endpoints cleanup = Inr p"
  shows "next_action (foldl plan_apply p calls) =
    (let hop = hops_passed calls in
     if hop < length (ne_path_node_ids e) then
       (let st = undecided_step (ne_path_node_ids e ! hop) (endpoints ! hop) in
        case open_decision None calls of None \<Rightarrow> Preflight st | Some d \<Rightarrow> Connect (decided_step d st))
     else Complete (ne_target_node_id e))"
proof -
  let ?fresh = "map2 undecided_step (ne_path_node_ids e) endpoints"
  have len: "length (ne_path_node_ids e) = length endpoints"
    and p: "p = \<lparr>pl_target_node_id = ne_target_node_id e, pl_cleanup_node_id = cleanup,
        pl_steps = ?fresh, pl_current_index = 0\<rparr>"
    using assms by (auto simp: from_expansion_def undecided_step_def split: if_splits)
  have "plan_tracks ?fresh [] p" by (simp add: plan_tracks_def p)
  from plan_tracks_run [OF this, of calls] plan_apply_target [of p calls] len show ?thesis
    by (auto simp: plan_tracks_def next_action_def current_step_def Let_def p split: option.splits)
qed

definition sample_expansion :: node_tree_expansion where
  "sample_expansion = \<lparr>ne_target_node_id = NodeId ''b'',
     ne_path_node_ids = [NodeId ''a'', NodeId ''b''], ne_chain_depth = 1\<rparr>"

definition sample_endpoints :: "connect_endpoint list" where
  "sample_endpoints = [endpoint_new ''h'' 22, endpoint_new ''i'' 22]"

text \<open>The jump host passes its preflight and is connected, then the user accepts the key of the target.\<close>

theorem hops_connected_in_order_witness:
  "\<exists>p. from_expansion sample_expansion sample_endpoints None = Inr p \<and>
     next_action p = Preflight (undecided_step (NodeId ''a'') (endpoint_new ''h'' 22)) \<and>
     next_action (foldl plan_apply p [Decide PreflightPassed, Advance]) =
       Preflight (undecided_step (NodeId ''b'') (endpoint_new ''i'' 22)) \<and>
     next_action (foldl plan_apply p [Decide PreflightPassed, Advance, Decide (KeyAccepted True ''f'')]) =
       Connect (decided_step (KeyAccepted True ''f'') (undecided_step (NodeId ''b'') (endpoint_new ''i'' 22)))"
proof -
  obtain p where p: "from_expansion sample_expansion sample_endpoints None = Inr p"
    by (auto simp: from_expansion_def sample_expansion_def sample_endpoints_def)
  note run = hops_connected_in_order [OF p]
  from p run [of "[]"] run [of "[Decide PreflightPassed, Advance]"]
    run [of "[Decide PreflightPassed, Advance, Decide (KeyAccepted True ''f'')]"]
  show ?thesis
    by (intro exI [of _ p]) (simp add: sample_expansion_def sample_endpoints_def hops_passed_def)
qed

end
