(* ===== verification/Editor_Pieces.thy ===== *)
theory Editor_Pieces
  imports Oxide_Prelude
begin

text \<open>
  The piece table of the editor (\<open>crates/oxideterm-editor-core/src/piece_table.rs\<close>). Strings are
  their bytes; slicing a string outside its length or inside a character panics in Rust and is
  \<open>None\<close> here. The abstraction is the text the pieces spell. Whether other owners share the original
  text (\<open>Arc::strong_count\<close>) is an argument of the compaction.
\<close>

section \<open>Strings as bytes\<close>

definition is_continuation :: "byte \<Rightarrow> bool" where
  "is_continuation b \<longleftrightarrow> b AND 0xC0 = 0x80"

text \<open>\<open>str::is_char_boundary\<close>.\<close>

definition char_boundary :: "bytes \<Rightarrow> nat \<Rightarrow> bool" where
  "char_boundary s i \<longleftrightarrow>
     i = 0 \<or> (if i < length s then \<not> is_continuation (s ! i) else i = length s)"

text \<open>\<open>&s[a..b]\<close>.\<close>

definition str_slice :: "bytes \<Rightarrow> nat \<Rightarrow> nat \<Rightarrow> bytes option" where
  "str_slice s a b =
     (if a \<le> b \<and> char_boundary s a \<and> char_boundary s b \<and> b \<le> length s
      then Some (take (b - a) (drop a s)) else None)"

text \<open>All that the editor needs of a valid string: it does not start inside a character.\<close>

definition str_wf :: "bytes \<Rightarrow> bool" where
  "str_wf s \<longleftrightarrow> s = [] \<or> \<not> is_continuation (hd s)"

section \<open>The table\<close>

datatype piece_source = Original | Add

record piece =
  p_source :: piece_source
  p_start :: nat
  p_len :: nat

record piece_table =
  pt_original :: bytes
  pt_add :: bytes
  pt_pieces :: "piece list"
  pt_len :: nat

definition piece_new :: "piece_source \<Rightarrow> nat \<Rightarrow> nat \<Rightarrow> piece option" where
  "piece_new source start len =
     (if 0 < len then Some \<lparr>p_source = source, p_start = start, p_len = len\<rparr> else None)"

definition piece_slice :: "piece \<Rightarrow> nat \<Rightarrow> nat \<Rightarrow> piece option" where
  "piece_slice p off len = piece_new (p_source p) (p_start p + off) len"

definition piece_end :: "piece \<Rightarrow> nat" where
  "piece_end p = p_start p + p_len p"

definition table_new :: "bytes \<Rightarrow> piece_table" where
  "table_new original =
     \<lparr>pt_original = original, pt_add = [],
      pt_pieces = (case piece_new Original 0 (length original) of None \<Rightarrow> [] | Some p \<Rightarrow> [p]),
      pt_len = length original\<rparr>"

definition source_text :: "piece_table \<Rightarrow> piece_source \<Rightarrow> bytes" where
  "source_text T source = (case source of Original \<Rightarrow> pt_original T | Add \<Rightarrow> pt_add T)"

fun push_slices :: "piece_table \<Rightarrow> piece list \<Rightarrow> bytes option" where
  "push_slices T [] = Some []"
| "push_slices T (p # ps) =
     (case str_slice (source_text T (p_source p)) (p_start p) (piece_end p) of
        None \<Rightarrow> None
      | Some t \<Rightarrow> map_option ((@) t) (push_slices T ps))"

definition to_text :: "piece_table \<Rightarrow> bytes option" where
  "to_text T = push_slices T (pt_pieces T)"

text \<open>The loop of \<open>slice_to_string\<close>, from a position on.\<close>

fun slice_loop :: "piece_table \<Rightarrow> nat \<Rightarrow> nat \<Rightarrow> nat \<Rightarrow> piece list \<Rightarrow> bytes option" where
  "slice_loop T s e position [] = Some []"
| "slice_loop T s e position (p # ps) =
     (let start = position; stop = position + p_len p in
      if stop \<le> s then slice_loop T s e stop ps
      else if e \<le> start then Some []
      else
        let local_start = max s start - start; local_end = min e stop - start in
        (case str_slice (source_text T (p_source p)) (p_start p + local_start) (p_start p + local_end) of
           None \<Rightarrow> None
         | Some t \<Rightarrow> map_option ((@) t) (slice_loop T s e stop ps)))"

definition slice_to_string :: "piece_table \<Rightarrow> nat \<Rightarrow> nat \<Rightarrow> bytes option" where
  "slice_to_string T s e = (if e \<le> s then Some [] else slice_loop T s e 0 (pt_pieces T))"

fun boundary_loop :: "piece_table \<Rightarrow> nat \<Rightarrow> nat \<Rightarrow> piece list \<Rightarrow> bool" where
  "boundary_loop T off position [] = False"
| "boundary_loop T off position (p # ps) =
     (let start = position; stop = position + p_len p in
      if off < start then False
      else if off = start \<or> off = stop then True
      else if off < stop then char_boundary (source_text T (p_source p)) (p_start p + (off - start))
      else boundary_loop T off stop ps)"

definition table_char_boundary :: "piece_table \<Rightarrow> nat \<Rightarrow> bool" where
  "table_char_boundary T off =
     (if pt_len T < off then False
      else if off = pt_len T then True
      else boundary_loop T off 0 (pt_pieces T))"

definition push_piece :: "piece list \<Rightarrow> piece \<Rightarrow> piece list" where
  "push_piece ps p =
     (if ps \<noteq> [] \<and> p_source (last ps) = p_source p \<and> piece_end (last ps) = p_start p
      then butlast ps @ [(last ps)\<lparr>p_len := p_len (last ps) + p_len p\<rparr>]
      else ps @ [p])"

definition push_some :: "piece list \<Rightarrow> piece option \<Rightarrow> piece list" where
  "push_some ps q = (case q of None \<Rightarrow> ps | Some p \<Rightarrow> push_piece ps p)"

definition append_add_piece :: "bytes \<Rightarrow> piece_table \<Rightarrow> piece option \<times> piece_table" where
  "append_add_piece t T =
     (piece_new Add (length (pt_add T)) (length t),
      if t \<noteq> [] then T\<lparr>pt_add := pt_add T @ t\<rparr> else T)"

text \<open>The loop of \<open>replace\<close>: the new list, the position, and whether the replacement is in.\<close>

fun replace_loop ::
    "piece option \<Rightarrow> nat \<Rightarrow> nat \<Rightarrow> piece list \<Rightarrow> nat \<Rightarrow> bool \<Rightarrow> piece list \<Rightarrow> piece list" where
  "replace_loop r s e next_pieces position inserted [] =
     (if \<not> inserted then push_some next_pieces r else next_pieces)"
| "replace_loop r s e next_pieces position inserted (p # ps) =
     (let start = position; stop = position + p_len p in
      if stop \<le> s then replace_loop r s e (push_piece next_pieces p) stop inserted ps
      else if e \<le> start then
        replace_loop r s e (push_piece (if \<not> inserted then push_some next_pieces r else next_pieces) p)
          stop True ps
      else
        let next_pieces =
              (if \<not> inserted
               then push_some (if start < s then push_some next_pieces (piece_slice p 0 (s - start))
                               else next_pieces) r
               else next_pieces);
            next_pieces =
              (if e < stop then push_some next_pieces (piece_slice p (e - start) (stop - e)) else next_pieces)
        in replace_loop r s e next_pieces stop True ps)"

definition table_replace :: "nat \<Rightarrow> nat \<Rightarrow> bytes \<Rightarrow> piece_table \<Rightarrow> piece_table" where
  "table_replace s e replacement T =
     (case append_add_piece replacement T of
        (r, T) \<Rightarrow>
          T\<lparr>pt_pieces := replace_loop r s e [] 0 False (pt_pieces T),
            pt_len := pt_len T - (e - s) + length replacement\<rparr>)"

text \<open>Copying the live text of one source into a fresh string, in piece order.\<close>

fun compact_loop ::
    "piece_source \<Rightarrow> bytes \<Rightarrow> bytes \<Rightarrow> piece list \<Rightarrow> (bytes \<times> piece list) option" where
  "compact_loop source old compact [] = Some (compact, [])"
| "compact_loop source old compact (p # ps) =
     (if p_source p = source then
        (case str_slice old (p_start p) (piece_end p) of
           None \<Rightarrow> None
         | Some t \<Rightarrow>
             map_option (\<lambda>(c, qs). (c, p\<lparr>p_start := length compact\<rparr> # qs))
               (compact_loop source old (compact @ t) ps))
      else map_option (\<lambda>(c, qs). (c, p # qs)) (compact_loop source old compact ps))"

text \<open>\<open>String::truncate\<close> to a length not above the present one.\<close>

definition str_truncate :: "bytes \<Rightarrow> nat \<Rightarrow> bytes option" where
  "str_truncate s n = (if char_boundary s n then Some (take n s) else None)"

definition live_bytes :: "piece_source \<Rightarrow> piece list \<Rightarrow> nat" where
  "live_bytes source ps = sum_list (map p_len (filter (\<lambda>p. p_source p = source) ps))"

definition last_end :: "piece_source \<Rightarrow> piece list \<Rightarrow> nat" where
  "last_end source ps = foldl (\<lambda>m p. max m (piece_end p)) 0 (filter (\<lambda>p. p_source p = source) ps)"

definition reclaim_original :: "bool \<Rightarrow> piece_table \<Rightarrow> piece_table option" where
  "reclaim_original shared T =
     (let live = live_bytes Original (pt_pieces T) in
      if live = 0 then Some (if pt_original T \<noteq> [] then T\<lparr>pt_original := []\<rparr> else T)
      else if \<not> shared \<and> live < length (pt_original T) - live then
        map_option (\<lambda>(c, ps). T\<lparr>pt_original := c, pt_pieces := ps\<rparr>)
          (compact_loop Original (pt_original T) [] (pt_pieces T))
      else Some T)"

definition reclaim_add :: "piece_table \<Rightarrow> piece_table option" where
  "reclaim_add T =
     (let live = live_bytes Add (pt_pieces T); stop = last_end Add (pt_pieces T) in
      if live = 0 then Some (T\<lparr>pt_add := []\<rparr>)
      else if live < length (pt_add T) - live then
        map_option (\<lambda>(c, ps). T\<lparr>pt_add := c, pt_pieces := ps\<rparr>)
          (compact_loop Add (pt_add T) [] (pt_pieces T))
      else if stop < length (pt_add T) then
        map_option (\<lambda>t. T\<lparr>pt_add := t\<rparr>) (str_truncate (pt_add T) stop)
      else Some T)"

definition reclaim_unused_text :: "bool \<Rightarrow> piece_table \<Rightarrow> piece_table option" where
  "reclaim_unused_text shared T = Option.bind (reclaim_original shared T) reclaim_add"

section \<open>The text a table spells\<close>

definition piece_text :: "piece_table \<Rightarrow> piece \<Rightarrow> bytes" where
  "piece_text T p = take (p_len p) (drop (p_start p) (source_text T (p_source p)))"

definition pieces_text :: "piece_table \<Rightarrow> piece list \<Rightarrow> bytes" where
  "pieces_text T ps = concat (map (piece_text T) ps)"

definition table_text :: "piece_table \<Rightarrow> bytes" where
  "table_text T = pieces_text T (pt_pieces T)"

definition piece_ok :: "piece_table \<Rightarrow> piece \<Rightarrow> bool" where
  "piece_ok T p \<longleftrightarrow>
     0 < p_len p \<and> piece_end p \<le> length (source_text T (p_source p)) \<and>
     \<not> is_continuation (source_text T (p_source p) ! p_start p) \<and>
     char_boundary (source_text T (p_source p)) (piece_end p)"

definition table_ok :: "piece_table \<Rightarrow> bool" where
  "table_ok T \<longleftrightarrow> list_all (piece_ok T) (pt_pieces T) \<and> pt_len T = length (table_text T)"

lemma piece_text_length: "piece_ok T p \<Longrightarrow> length (piece_text T p) = p_len p"
  by (auto simp: piece_ok_def piece_text_def piece_end_def min_def)

lemma pieces_text_simps [simp]:
  "pieces_text T [] = []" "pieces_text T (p # ps) = piece_text T p @ pieces_text T ps"
  "pieces_text T (ps @ qs) = pieces_text T ps @ pieces_text T qs"
  by (simp_all add: pieces_text_def)

lemma piece_slice_ok:
  "piece_ok T p \<Longrightarrow>
   str_slice (source_text T (p_source p)) (p_start p) (piece_end p) = Some (piece_text T p)"
  by (auto simp: str_slice_def piece_ok_def piece_text_def piece_end_def char_boundary_def)

lemma push_slices_text: "list_all (piece_ok T) ps \<Longrightarrow> push_slices T ps = Some (pieces_text T ps)"
  by (induction ps) (simp_all add: piece_slice_ok)

lemma to_text_ok: "table_ok T \<Longrightarrow> to_text T = Some (table_text T)"
  by (simp add: table_ok_def to_text_def table_text_def push_slices_text)

lemma table_new_ok: "str_wf original \<Longrightarrow> table_ok (table_new original) \<and> table_text (table_new original) = original"
  by (auto simp: table_new_def table_ok_def table_text_def piece_ok_def piece_text_def piece_new_def
      source_text_def piece_end_def char_boundary_def str_wf_def hd_conv_nth)

lemma piece_text_ne: "piece_ok T p \<Longrightarrow> piece_text T p \<noteq> []"
  using piece_text_length [of T p] by (auto simp: piece_ok_def)

lemma piece_text_nth:
  "piece_ok T p \<Longrightarrow> i < p_len p \<Longrightarrow> piece_text T p ! i = source_text T (p_source p) ! (p_start p + i)"
  by (simp add: piece_ok_def piece_text_def piece_end_def)

text \<open>Boundaries inside a piece are boundaries of the text and of its source.\<close>

lemma piece_boundary:
  assumes "piece_ok T p" "off \<le> p_len p" "char_boundary (piece_text T p @ rest) off"
  shows "char_boundary (source_text T (p_source p)) (p_start p + off)"
proof (cases "off = p_len p")
  case True
  then show ?thesis using assms(1) by (simp add: piece_ok_def piece_end_def)
next
  case False
  then have off: "off < p_len p" using assms(2) by simp
  then have "\<not> is_continuation (piece_text T p ! off)"
    using assms piece_text_length [OF assms(1)] piece_text_nth [OF assms(1), of 0]
    by (cases "off = 0") (auto simp: char_boundary_def nth_append piece_ok_def)
  then show ?thesis
    using off assms(1) piece_text_nth [OF assms(1) off] by (auto simp: char_boundary_def piece_ok_def piece_end_def)
qed

lemma str_wf_pieces: "list_all (piece_ok T) ps \<Longrightarrow> str_wf (pieces_text T ps)"
proof (cases ps)
  case (Cons p qs)
  assume "list_all (piece_ok T) ps"
  then have p: "piece_ok T p" using Cons by simp
  then have "\<not> is_continuation (hd (piece_text T p))"
    using piece_text_ne [OF p] piece_text_nth [OF p, of 0] by (simp add: hd_conv_nth piece_ok_def)
  then show ?thesis using Cons piece_text_ne [OF p] by (simp add: str_wf_def)
qed (simp add: str_wf_def)

lemma boundary_append_right:
  "char_boundary (xs @ ys) (length xs + i) \<Longrightarrow> char_boundary ys i"
  by (auto simp: char_boundary_def nth_append split: if_splits)

lemma boundary_append_wf:
  "str_wf ys \<Longrightarrow> char_boundary (xs @ ys) (length xs + i) \<longleftrightarrow> char_boundary ys i"
  by (cases ys) (auto simp: char_boundary_def nth_append str_wf_def split: if_splits)

lemma boundary_append_left:
  "str_wf ys \<Longrightarrow> i \<le> length xs \<Longrightarrow> char_boundary (xs @ ys) i \<longleftrightarrow> char_boundary xs i"
  by (cases ys) (auto simp: char_boundary_def nth_append str_wf_def)

lemma boundary_loop_text:
  "list_all (piece_ok T) ps \<Longrightarrow>
   boundary_loop T off position ps \<longleftrightarrow>
     ps \<noteq> [] \<and> position \<le> off \<and> off \<le> position + length (pieces_text T ps) \<and>
     char_boundary (pieces_text T ps) (off - position)"
proof (induction ps arbitrary: position)
  case (Cons p ps)
  have p: "piece_ok T p" and wf: "str_wf (pieces_text T ps)" using Cons.prems str_wf_pieces by auto
  note len = piece_text_length [OF p]
  consider "off < position" | "off = position" | "off = position + p_len p"
    | "position < off" "off < position + p_len p" | "position + p_len p < off"
    by linarith
  then show ?case
  proof cases
    case 3
    then show ?thesis
      using boundary_append_wf [OF wf, of "piece_text T p" 0] len by (simp add: char_boundary_def [of "pieces_text T ps"])
  next
    case 4
    then have "char_boundary (source_text T (p_source p)) (p_start p + (off - position)) \<longleftrightarrow>
        char_boundary (piece_text T p @ pieces_text T ps) (off - position)"
      using piece_text_nth [OF p, of "off - position"] p len
      by (auto simp: char_boundary_def nth_append piece_ok_def piece_end_def)
    with 4 len show ?thesis by simp
  next
    case 5
    have "position + p_len p + (off - (position + p_len p)) = off" using 5 by simp
    then have "char_boundary (piece_text T p @ pieces_text T ps) (off - position) \<longleftrightarrow>
        char_boundary (pieces_text T ps) (off - (position + p_len p))"
      using boundary_append_wf [OF wf, of "piece_text T p" "off - (position + p_len p)"] len 5 by simp
    with 5 show ?thesis
      using Cons.IH [of "position + p_len p"] Cons.prems len by (cases ps) auto
  qed (auto simp: char_boundary_def)
qed simp

lemma table_char_boundary_text:
  assumes "table_ok T"
  shows "table_char_boundary T off \<longleftrightarrow> off \<le> length (table_text T) \<and> char_boundary (table_text T) off"
  using assms boundary_loop_text [of T "pt_pieces T" off 0]
  by (auto simp: table_char_boundary_def table_ok_def table_text_def char_boundary_def)

text \<open>A slice of a piece's source, between boundaries of its text, is that slice of its text.\<close>

lemma piece_sub_slice:
  assumes "piece_ok T p" "a \<le> b" "b \<le> p_len p"
    and "char_boundary (piece_text T p @ rest) a" "char_boundary (piece_text T p @ rest) b"
  shows "str_slice (source_text T (p_source p)) (p_start p + a) (p_start p + b) =
    Some (take (b - a) (drop a (piece_text T p)))"
proof -
  have "char_boundary (source_text T (p_source p)) (p_start p + a)"
    using assms by (intro piece_boundary [of T p a rest]) auto
  moreover have "char_boundary (source_text T (p_source p)) (p_start p + b)"
    using assms by (intro piece_boundary [of T p b rest]) auto
  moreover have "p_start p + b \<le> length (source_text T (p_source p))"
    using assms(1,3) by (simp add: piece_ok_def piece_end_def)
  moreover have "take (b - a) (drop a (piece_text T p)) =
      take (b - a) (drop (p_start p + a) (source_text T (p_source p)))"
    using assms(2,3) by (simp add: piece_text_def drop_take add.commute)
  ultimately show ?thesis using assms(2) by (simp add: str_slice_def)
qed

text \<open>Slicing between two boundaries gives that part of the text.\<close>

lemma slice_loop_text:
  "list_all (piece_ok T) ps \<Longrightarrow> s < e \<Longrightarrow> e \<le> position + length (pieces_text T ps) \<Longrightarrow>
   char_boundary (pieces_text T ps) (s - position) \<Longrightarrow>
   (position \<le> e \<Longrightarrow> char_boundary (pieces_text T ps) (e - position)) \<Longrightarrow>
   slice_loop T s e position ps =
     Some (take (e - position - (s - position)) (drop (s - position) (pieces_text T ps)))"
proof (induction ps arbitrary: position)
  case (Cons p ps)
  have p: "piece_ok T p" and wf: "str_wf (pieces_text T ps)" using Cons.prems(1) str_wf_pieces by auto
  note len = piece_text_length [OF p]
  let ?stop = "position + p_len p"
  have later: "slice_loop T s e ?stop ps =
      Some (take (e - ?stop - (s - ?stop)) (drop (s - ?stop) (pieces_text T ps)))"
  proof (rule Cons.IH)
    have shift: "char_boundary (piece_text T p @ pieces_text T ps) (i - position) \<Longrightarrow>
        char_boundary (pieces_text T ps) (i - ?stop)" for i
    proof (cases "i \<le> ?stop")
      case False
      then have "i - position = length (piece_text T p) + (i - ?stop)" using len by simp
      then show "char_boundary (piece_text T p @ pieces_text T ps) (i - position) \<Longrightarrow> ?thesis"
        using boundary_append_right by metis
    qed (simp add: char_boundary_def)
    show "char_boundary (pieces_text T ps) (s - ?stop)" using Cons.prems(4) shift by simp
    show "char_boundary (pieces_text T ps) (e - ?stop)" if "?stop \<le> e"
      using Cons.prems(5) shift that by simp
  qed (use Cons.prems len in auto)
  consider "?stop \<le> s" | "e \<le> position" | "s < ?stop" "position < e" by linarith
  then show ?case
  proof cases
    case 1
    then have "s - position = length (piece_text T p) + (s - ?stop)"
      "e - position - (s - position) = e - ?stop - (s - ?stop)" using len Cons.prems(2) by auto
    with 1 later show ?thesis by simp
  next
    case 2
    then show ?thesis using Cons.prems(2) by auto
  next
    case 3
    let ?a = "max s position - position" and ?b = "min e ?stop - position"
    have ab: "?a \<le> ?b" "?b \<le> p_len p" "?a = s - position" using 3 Cons.prems(2) by auto
    have "char_boundary (piece_text T p @ pieces_text T ps) ?a" using Cons.prems(4) ab(3) by simp
    moreover have "char_boundary (piece_text T p @ pieces_text T ps) ?b"
    proof (cases "e \<le> ?stop")
      case True
      then show ?thesis using Cons.prems(5) 3 by simp
    next
      case False
      then have "?b = length (piece_text T p) + 0" using len by simp
      then show ?thesis using boundary_append_wf [OF wf, of "piece_text T p" 0] by (simp add: char_boundary_def)
    qed
    ultimately have "str_slice (source_text T (p_source p)) (p_start p + ?a) (p_start p + ?b) =
        Some (take (?b - ?a) (drop ?a (piece_text T p)))"
      using ab(1,2) by (intro piece_sub_slice [OF p])
    moreover have "take (e - position - (s - position)) (drop (s - position) (piece_text T p @ pieces_text T ps)) =
        take (?b - ?a) (drop ?a (piece_text T p)) @ take (e - ?stop) (pieces_text T ps)"
      using ab 3 len by (cases "e \<le> ?stop") (simp_all, arith?)
    ultimately show ?thesis
      using 3 later by (simp add: Let_def)
  qed
qed simp

lemma slice_to_string_text:
  assumes "table_ok T" "s \<le> e" "e \<le> length (table_text T)"
    and "char_boundary (table_text T) s" "char_boundary (table_text T) e"
  shows "slice_to_string T s e = Some (take (e - s) (drop s (table_text T)))"
  using assms slice_loop_text [of T "pt_pieces T" s e 0]
  by (auto simp: slice_to_string_def table_ok_def table_text_def)

section \<open>Replacing a range\<close>

lemma push_piece_text:
  assumes "list_all (piece_ok T) ps" "piece_ok T p"
  shows "list_all (piece_ok T) (push_piece ps p)"
    and "pieces_text T (push_piece ps p) = pieces_text T ps @ piece_text T p"
proof -
  let ?q = "(last ps)\<lparr>p_len := p_len (last ps) + p_len p\<rparr>"
  have "list_all (piece_ok T) (push_piece ps p) \<and>
      pieces_text T (push_piece ps p) = pieces_text T ps @ piece_text T p"
  proof (cases "ps \<noteq> [] \<and> p_source (last ps) = p_source p \<and> piece_end (last ps) = p_start p")
    case True
    then obtain qs q where ps: "ps = qs @ [q]" by (metis append_butlast_last_id)
    with True have q: "p_source q = p_source p" "piece_end q = p_start p" by simp_all
    have "piece_ok T q" "list_all (piece_ok T) qs" using assms(1) ps by simp_all
    moreover have "piece_ok T (q\<lparr>p_len := p_len q + p_len p\<rparr>)"
      using q assms(2) \<open>piece_ok T q\<close> by (simp add: piece_ok_def piece_end_def add.assoc [symmetric])
    moreover have "piece_text T (q\<lparr>p_len := p_len q + p_len p\<rparr>) = piece_text T q @ piece_text T p"
      using q by (simp add: piece_text_def piece_end_def take_add add.commute [of "p_len q" "p_start q"])
    ultimately show ?thesis using ps q by (simp add: push_piece_def)
  qed (use assms in \<open>auto simp: push_piece_def\<close>)
  then show "list_all (piece_ok T) (push_piece ps p)"
    "pieces_text T (push_piece ps p) = pieces_text T ps @ piece_text T p" by simp_all
qed

definition opt_ok :: "piece_table \<Rightarrow> piece option \<Rightarrow> bool" where
  "opt_ok T q = (case q of None \<Rightarrow> True | Some p \<Rightarrow> piece_ok T p)"

definition opt_text :: "piece_table \<Rightarrow> piece option \<Rightarrow> bytes" where
  "opt_text T q = (case q of None \<Rightarrow> [] | Some p \<Rightarrow> piece_text T p)"

lemma push_some_text:
  assumes "list_all (piece_ok T) ps" "opt_ok T q"
  shows "list_all (piece_ok T) (push_some ps q)"
    and "pieces_text T (push_some ps q) = pieces_text T ps @ opt_text T q"
  using assms by (auto simp: push_some_def opt_ok_def opt_text_def push_piece_text split: option.splits)

lemma sub_piece:
  assumes "piece_ok T p" "a \<le> b" "b \<le> p_len p"
    and "char_boundary (piece_text T p @ rest) a" "char_boundary (piece_text T p @ rest) b"
  shows "opt_ok T (piece_slice p a (b - a))"
    and "opt_text T (piece_slice p a (b - a)) = take (b - a) (drop a (piece_text T p))"
proof -
  let ?src = "source_text T (p_source p)"
  have ends: "char_boundary ?src (p_start p + a)" "char_boundary ?src (p_start p + b)"
    using assms by (auto intro: piece_boundary [of T p _ rest])
  have inside: "p_start p + b \<le> length ?src" using assms(1,3) by (simp add: piece_ok_def piece_end_def)
  have first: "\<not> is_continuation (?src ! (p_start p + a))" if "a < b"
    using ends(1) that inside assms(1) by (cases "p_start p + a = 0") (auto simp: char_boundary_def piece_ok_def)
  show "opt_ok T (piece_slice p a (b - a))"
    using first ends(2) inside assms(2)
    by (simp add: opt_ok_def piece_slice_def piece_new_def piece_ok_def piece_end_def)
  show "opt_text T (piece_slice p a (b - a)) = take (b - a) (drop a (piece_text T p))"
    using assms(2,3)
    by (simp add: opt_text_def piece_slice_def piece_new_def piece_text_def drop_take add.commute)
qed

lemma shift_boundary:
  assumes "piece_ok T p" "char_boundary (piece_text T p @ rest) (i - position)"
  shows "char_boundary rest (i - (position + p_len p))"
proof (cases "i \<le> position + p_len p")
  case False
  then have "i - position = length (piece_text T p) + (i - (position + p_len p))"
    using piece_text_length [OF assms(1)] by simp
  then show ?thesis using assms(2) boundary_append_right by metis
qed (simp add: char_boundary_def)

lemma right_piece:
  assumes p: "piece_ok T p" and "str_wf rest" "position < e" "e < position + p_len p"
    and "char_boundary (pieces_text T (p # qs)) (e - position)" "rest = pieces_text T qs"
  shows "opt_ok T (piece_slice p (e - position) (position + p_len p - e))"
    and "opt_text T (piece_slice p (e - position) (position + p_len p - e)) = drop (e - position) (piece_text T p)"
proof -
  have "char_boundary (piece_text T p @ rest) (p_len p)"
    using boundary_append_wf [OF assms(2), of "piece_text T p" 0] piece_text_length [OF p]
    by (simp add: char_boundary_def)
  moreover have "position + p_len p - e = p_len p - (e - position)" using assms(3,4) by simp
  ultimately show "opt_ok T (piece_slice p (e - position) (position + p_len p - e))"
    "opt_text T (piece_slice p (e - position) (position + p_len p - e)) = drop (e - position) (piece_text T p)"
    using sub_piece [OF p, of "e - position" "p_len p" rest] assms piece_text_length [OF p] by simp_all
qed

text \<open>Once the replacement is in, only what follows the range is kept.\<close>

lemma replace_loop_after:
  "list_all (piece_ok T) ps \<Longrightarrow> list_all (piece_ok T) next_pieces \<Longrightarrow> s \<le> position \<Longrightarrow>
   char_boundary (pieces_text T ps) (e - position) \<Longrightarrow>
   list_all (piece_ok T) (replace_loop r s e next_pieces position True ps) \<and>
   pieces_text T (replace_loop r s e next_pieces position True ps) =
     pieces_text T next_pieces @ drop (e - position) (pieces_text T ps)"
proof (induction ps arbitrary: position next_pieces)
  case (Cons p ps)
  let ?stop = "position + p_len p"
  have p: "piece_ok T p" and ps: "list_all (piece_ok T) ps" and wf: "str_wf (pieces_text T ps)"
    using Cons.prems(1) str_wf_pieces by auto
  note len = piece_text_length [OF p]
  have long: "\<not> ?stop \<le> s" using p Cons.prems(3) by (simp add: piece_ok_def)
  have rest: "char_boundary (pieces_text T ps) (e - ?stop)" using shift_boundary [OF p] Cons.prems(4) by simp
  have IH: "list_all (piece_ok T) ns \<Longrightarrow>
      list_all (piece_ok T) (replace_loop r s e ns ?stop True ps) \<and>
      pieces_text T (replace_loop r s e ns ?stop True ps) = pieces_text T ns @ drop (e - ?stop) (pieces_text T ps)" for ns
    using Cons.IH [OF ps _ _ rest] Cons.prems(3) by simp
  consider "e \<le> position" | "position < e" "e < ?stop" | "?stop \<le> e" "position < e" by linarith
  then show ?case
  proof cases
    case 1
    then show ?thesis
      using long IH [of "push_piece next_pieces p"] push_piece_text [OF Cons.prems(2) p] by simp
  next
    case 2
    note sub = right_piece [OF p wf 2 Cons.prems(4) refl]
    show ?thesis
      using long 2 len IH [of "push_some next_pieces (piece_slice p (e - position) (?stop - e))"]
        push_some_text [OF Cons.prems(2) sub(1)] sub(2) by (simp add: Let_def)
  next
    case 3
    then show ?thesis using long len IH [OF Cons.prems(2)] by simp
  qed
qed simp

lemma replace_loop_before:
  "list_all (piece_ok T) ps \<Longrightarrow> list_all (piece_ok T) next_pieces \<Longrightarrow> opt_ok T r \<Longrightarrow>
   position \<le> s \<Longrightarrow> s \<le> e \<Longrightarrow> e \<le> position + length (pieces_text T ps) \<Longrightarrow>
   char_boundary (pieces_text T ps) (s - position) \<Longrightarrow>
   char_boundary (pieces_text T ps) (e - position) \<Longrightarrow>
   list_all (piece_ok T) (replace_loop r s e next_pieces position False ps) \<and>
   pieces_text T (replace_loop r s e next_pieces position False ps) =
     pieces_text T next_pieces @ take (s - position) (pieces_text T ps) @ opt_text T r @
     drop (e - position) (pieces_text T ps)"
proof (induction ps arbitrary: position next_pieces)
  case Nil
  then show ?case using push_some_text [OF Nil.prems(2,3)] by simp
next
  case (Cons p ps)
  let ?stop = "position + p_len p"
  have p: "piece_ok T p" and ps: "list_all (piece_ok T) ps" and wf: "str_wf (pieces_text T ps)"
    using Cons.prems(1) str_wf_pieces by auto
  note len = piece_text_length [OF p]
  have pos: "0 < p_len p" using p by (simp add: piece_ok_def)
  have rest: "char_boundary (pieces_text T ps) (e - ?stop)" "char_boundary (pieces_text T ps) (s - ?stop)"
    using shift_boundary [OF p] Cons.prems(7,8) by simp_all
  have after: "list_all (piece_ok T) ns \<Longrightarrow> s \<le> ?stop \<Longrightarrow>
      list_all (piece_ok T) (replace_loop r s e ns ?stop True ps) \<and>
      pieces_text T (replace_loop r s e ns ?stop True ps) = pieces_text T ns @ drop (e - ?stop) (pieces_text T ps)" for ns
    using replace_loop_after [OF ps _ _ rest(1)] by simp
  consider "?stop \<le> s" | "e \<le> position" | "s < ?stop" "position < e" by linarith
  then show ?case
  proof cases
    case 1
    have "list_all (piece_ok T) (replace_loop r s e (push_piece next_pieces p) ?stop False ps) \<and>
       pieces_text T (replace_loop r s e (push_piece next_pieces p) ?stop False ps) =
         pieces_text T (push_piece next_pieces p) @ take (s - ?stop) (pieces_text T ps) @ opt_text T r @
         drop (e - ?stop) (pieces_text T ps)"
      using Cons.IH [OF ps _ Cons.prems(3) 1 Cons.prems(5) _ rest(2,1)] Cons.prems(6) len
        push_piece_text [OF Cons.prems(2) p] by simp
    then show ?thesis using 1 len Cons.prems(5) push_piece_text [OF Cons.prems(2) p] by simp
  next
    case 2
    then have "s = position" "e = position" using Cons.prems(4,5) by auto
    moreover note push_some_text [OF Cons.prems(2,3)]
    moreover note push_piece_text [OF this(1) p]
    moreover note after [of "push_piece (push_some next_pieces r) p"]
    ultimately show ?thesis using pos by simp
  next
    case 3
    let ?left = "if position < s then push_some next_pieces (piece_slice p 0 (s - position)) else next_pieces"
    have left: "list_all (piece_ok T) ?left"
      "pieces_text T ?left = pieces_text T next_pieces @ take (s - position) (piece_text T p)"
    proof -
      have sub: "opt_ok T (piece_slice p 0 (s - position))"
        "opt_text T (piece_slice p 0 (s - position)) = take (s - position) (piece_text T p)"
        using sub_piece [OF p, of 0 "s - position" "pieces_text T ps"] Cons.prems(7) 3
        by (simp_all add: char_boundary_def [of _ 0])
      show "list_all (piece_ok T) ?left"
        "pieces_text T ?left = pieces_text T next_pieces @ take (s - position) (piece_text T p)"
        using push_some_text [OF Cons.prems(2) sub(1)] sub(2) Cons.prems(2,4) by auto
    qed
    let ?mid = "push_some ?left r"
    have mid: "list_all (piece_ok T) ?mid" "pieces_text T ?mid = pieces_text T ?left @ opt_text T r"
      using push_some_text [OF left(1) Cons.prems(3)] by simp_all
    let ?right = "if e < ?stop then push_some ?mid (piece_slice p (e - position) (?stop - e)) else ?mid"
    have right: "list_all (piece_ok T) ?right"
      "pieces_text T ?right = pieces_text T ?mid @ drop (e - position) (piece_text T p)"
    proof -
      note sub = right_piece [OF p wf 3(2) _ Cons.prems(8) refl]
      show "list_all (piece_ok T) ?right"
        "pieces_text T ?right = pieces_text T ?mid @ drop (e - position) (piece_text T p)"
        using push_some_text [OF mid(1) sub(1)] sub(2) mid(1) len by (cases "e < ?stop"; simp)+
    qed
    have "replace_loop r s e next_pieces position False (p # ps) = replace_loop r s e ?right ?stop True ps"
      using 3 by (simp add: Let_def)
    moreover have "take (s - position) (pieces_text T (p # ps)) = take (s - position) (piece_text T p)"
      "drop (e - position) (pieces_text T (p # ps)) = drop (e - position) (piece_text T p) @ drop (e - ?stop) (pieces_text T ps)"
      using 3 len by simp_all
    moreover note after [OF right(1)]
    ultimately show ?thesis using 3(1) right(2) mid(2) left(2) by simp
  qed
qed

lemma piece_ok_append:
  assumes "piece_ok T p" "str_wf t"
  shows "piece_ok (T\<lparr>pt_add := pt_add T @ t\<rparr>) p"
    and "piece_text (T\<lparr>pt_add := pt_add T @ t\<rparr>) p = piece_text T p"
proof -
  have "piece_end p \<le> length (pt_add T) \<Longrightarrow>
      char_boundary (pt_add T @ t) (piece_end p) \<longleftrightarrow> char_boundary (pt_add T) (piece_end p)"
    using boundary_append_left [OF assms(2)] by blast
  then show "piece_ok (T\<lparr>pt_add := pt_add T @ t\<rparr>) p"
    using assms(1) by (cases "p_source p") (auto simp: piece_ok_def source_text_def piece_end_def nth_append)
  show "piece_text (T\<lparr>pt_add := pt_add T @ t\<rparr>) p = piece_text T p"
    using assms(1) by (cases "p_source p") (auto simp: piece_ok_def piece_text_def source_text_def piece_end_def)
qed

lemma pieces_append:
  assumes "list_all (piece_ok T) ps" "str_wf t"
  shows "list_all (piece_ok (T\<lparr>pt_add := pt_add T @ t\<rparr>)) ps"
    and "pieces_text (T\<lparr>pt_add := pt_add T @ t\<rparr>) ps = pieces_text T ps"
  using assms by (induction ps) (auto simp: piece_ok_append)

lemma pieces_only_sources:
  "pt_original T' = pt_original T \<Longrightarrow> pt_add T' = pt_add T \<Longrightarrow>
   piece_ok T' = piece_ok T \<and> pieces_text T' = pieces_text T"
proof -
  assume "pt_original T' = pt_original T" "pt_add T' = pt_add T"
  then have "source_text T' = source_text T"
    by (simp add: source_text_def fun_eq_iff split: piece_source.split)
  then have "piece_text T' = piece_text T" "piece_ok T' = piece_ok T"
    by (simp_all add: piece_text_def piece_ok_def fun_eq_iff)
  then show ?thesis by (simp add: pieces_text_def fun_eq_iff [of "pieces_text T'"])
qed

text \<open>The abstract replacement, on the flat text.\<close>

definition text_replace :: "nat \<Rightarrow> nat \<Rightarrow> bytes \<Rightarrow> bytes \<Rightarrow> bytes" where
  "text_replace s e replacement text = take s text @ replacement @ drop e text"

lemma table_replace_text:
  assumes "table_ok T" "s \<le> e" "str_wf replacement"
    and "table_char_boundary T s" "table_char_boundary T e"
  shows "table_ok (table_replace s e replacement T)"
    and "table_text (table_replace s e replacement T) = text_replace s e replacement (table_text T)"
proof -
  let ?r = "piece_new Add (length (pt_add T)) (length replacement)"
  let ?T = "T\<lparr>pt_add := pt_add T @ replacement\<rparr>"
  have ok: "list_all (piece_ok T) (pt_pieces T)" using assms(1) by (simp add: table_ok_def)
  have bounds: "e \<le> length (table_text T)" "char_boundary (table_text T) s" "char_boundary (table_text T) e"
    using assms(4,5) table_char_boundary_text [OF assms(1)] by simp_all
  have grow: "append_add_piece replacement T = (?r, ?T)" by (simp add: append_add_piece_def)
  have r: "opt_ok ?T ?r" "opt_text ?T ?r = replacement"
    using assms(3)
    by (auto simp: opt_ok_def opt_text_def piece_new_def piece_ok_def piece_text_def source_text_def
        piece_end_def char_boundary_def nth_append str_wf_def hd_conv_nth)
  have spelled: "pieces_text ?T (pt_pieces T) = table_text T"
    using pieces_append(2) [OF ok assms(3)] by (simp add: table_text_def)
  note loop = replace_loop_before [OF pieces_append(1) [OF ok assms(3)] _ r(1), of "[]" 0 s e,
      unfolded r(2) spelled, simplified, OF assms(2) bounds]
  let ?R = "table_replace s e replacement T"
  have R: "pt_pieces ?R = replace_loop ?r s e [] 0 False (pt_pieces T)"
    "pt_len ?R = pt_len T - (e - s) + length replacement"
    "pt_original ?R = pt_original ?T" "pt_add ?R = pt_add ?T"
    by (simp_all add: table_replace_def grow)
  note same = pieces_only_sources [OF R(3,4)]
  show replaced: "table_text ?R = text_replace s e replacement (table_text T)"
    using loop same R(1) by (simp add: table_text_def [of ?R] text_replace_def)
  show "table_ok ?R"
    using loop same R(1,2) replaced bounds(1) assms(1,2) by (simp add: table_ok_def text_replace_def)
qed

section \<open>Reclaiming unused text\<close>

lemma piece_ok_source:
  "source_text T' (p_source p) = source_text T (p_source p) \<Longrightarrow>
   piece_ok T' p = piece_ok T p \<and> piece_text T' p = piece_text T p"
  by (simp add: piece_ok_def piece_text_def)

text \<open>
  The pieces of one source are rewritten to point into the compacted text; the others are untouched.
  The invariant: the compacted text so far is a prefix of the final one and ends between characters.
\<close>

lemma compact_loop_text:
  "list_all (piece_ok T) ps \<Longrightarrow> source_text T source = old \<Longrightarrow>
   \<exists>more_text qs. compact_loop source old compact ps = Some (compact @ more_text, qs) \<and> str_wf more_text \<and>
     (\<forall>T'. source_text T' source = compact @ more_text \<longrightarrow>
           (\<forall>other. other \<noteq> source \<longrightarrow> source_text T' other = source_text T other) \<longrightarrow>
           list_all (piece_ok T') qs \<and> pieces_text T' qs = pieces_text T ps)"
proof (induction ps arbitrary: compact)
  case Nil
  then show ?case by (simp add: str_wf_def)
next
  case (Cons p ps)
  then have p: "piece_ok T p" and ps: "list_all (piece_ok T) ps" by auto
  show ?case
  proof (cases "p_source p = source")
    case False
    obtain m qs where IH: "compact_loop source old compact ps = Some (compact @ m, qs)" "str_wf m"
      "\<And>T'. source_text T' source = compact @ m \<Longrightarrow>
           (\<forall>other. other \<noteq> source \<longrightarrow> source_text T' other = source_text T other) \<Longrightarrow>
           list_all (piece_ok T') qs \<and> pieces_text T' qs = pieces_text T ps"
      using Cons.IH [OF ps Cons.prems(2), of compact] by blast
    have "list_all (piece_ok T') (p # qs) \<and> pieces_text T' (p # qs) = pieces_text T (p # ps)"
      if "source_text T' source = compact @ m"
        "\<forall>other. other \<noteq> source \<longrightarrow> source_text T' other = source_text T other" for T'
      using IH(3) [OF that] piece_ok_source [of T' p T] that(2) False p by simp
    then show ?thesis using IH(1,2) False by auto
  next
    case True
    let ?t = "piece_text T p"
    obtain m qs where IH: "compact_loop source old (compact @ ?t) ps = Some ((compact @ ?t) @ m, qs)" "str_wf m"
      "\<And>T'. source_text T' source = (compact @ ?t) @ m \<Longrightarrow>
           (\<forall>other. other \<noteq> source \<longrightarrow> source_text T' other = source_text T other) \<Longrightarrow>
           list_all (piece_ok T') qs \<and> pieces_text T' qs = pieces_text T ps"
      using Cons.IH [OF ps Cons.prems(2), of "compact @ ?t"] by blast
    note len = piece_text_length [OF p]
    let ?q = "p\<lparr>p_start := length compact\<rparr>"
    have first: "\<not> is_continuation (?t ! 0)" "0 < p_len p" "?t \<noteq> []"
      using piece_text_nth [OF p, of 0] piece_text_ne [OF p] p by (auto simp: piece_ok_def)
    have moved: "piece_ok T' ?q \<and> piece_text T' ?q = ?t" if "source_text T' source = (compact @ ?t) @ m" for T'
      using that True first len IH(2)
      by (auto simp: piece_ok_def piece_end_def piece_text_def char_boundary_def nth_append str_wf_def hd_conv_nth)
    have "list_all (piece_ok T') (?q # qs) \<and> pieces_text T' (?q # qs) = pieces_text T (p # ps)"
      if "source_text T' source = (compact @ ?t) @ m"
        "\<forall>other. other \<noteq> source \<longrightarrow> source_text T' other = source_text T other" for T'
      using IH(3) [OF that] moved [OF that(1)] by simp
    moreover have "compact_loop source old compact (p # ps) = Some (compact @ (?t @ m), ?q # qs)"
      using True piece_slice_ok [OF p] Cons.prems(2) IH(1) by simp
    moreover have "str_wf (?t @ m)" using first by (simp add: str_wf_def hd_append hd_conv_nth)
    ultimately show ?thesis by (intro exI [of _ "?t @ m"] exI [of _ "?q # qs"]) simp
  qed
qed

lemma live_bytes_zero: "list_all (piece_ok T) ps \<Longrightarrow> live_bytes source ps = 0 \<Longrightarrow> p \<in> set ps \<Longrightarrow> p_source p \<noteq> source"
  by (auto simp: live_bytes_def list_all_iff piece_ok_def)

lemma pieces_same_source:
  assumes "list_all (piece_ok T) ps" "\<And>p. p \<in> set ps \<Longrightarrow> source_text T' (p_source p) = source_text T (p_source p)"
  shows "list_all (piece_ok T') ps \<and> pieces_text T' ps = pieces_text T ps"
  using assms
proof (induction ps)
  case (Cons p ps)
  have "piece_ok T' p = piece_ok T p \<and> piece_text T' p = piece_text T p"
    using Cons.prems(2) [of p] by (intro piece_ok_source) simp
  moreover have "list_all (piece_ok T') ps \<and> pieces_text T' ps = pieces_text T ps"
    using Cons.prems by (intro Cons.IH) simp_all
  ultimately show ?case using Cons.prems(1) by simp
qed simp

lemma reclaim_original_text:
  assumes "table_ok T"
  shows "\<exists>T'. reclaim_original shared T = Some T' \<and> table_ok T' \<and> table_text T' = table_text T"
proof -
  have ok: "list_all (piece_ok T) (pt_pieces T)" using assms by (simp add: table_ok_def)
  let ?live = "live_bytes Original (pt_pieces T)"
  consider "?live = 0" | "?live \<noteq> 0" "\<not> shared \<and> ?live < length (pt_original T) - ?live"
    | "?live \<noteq> 0" "\<not> (\<not> shared \<and> ?live < length (pt_original T) - ?live)" by blast
  then show ?thesis
  proof cases
    case 1
    let ?T = "T\<lparr>pt_original := []\<rparr>"
    have "source_text ?T (p_source p) = source_text T (p_source p)" if "p \<in> set (pt_pieces T)" for p
      using live_bytes_zero [OF ok 1 that] by (cases "p_source p") (simp_all add: source_text_def)
    note pieces_same_source [OF ok this]
    then have "table_ok ?T \<and> table_text ?T = table_text T" using assms by (simp add: table_ok_def table_text_def)
    then show ?thesis using 1 assms by (simp add: reclaim_original_def)
  next
    case 2
    obtain m qs where loop: "compact_loop Original (pt_original T) [] (pt_pieces T) = Some ([] @ m, qs)"
      "\<And>T'. source_text T' Original = [] @ m \<Longrightarrow> (\<forall>other. other \<noteq> Original \<longrightarrow> source_text T' other = source_text T other) \<Longrightarrow>
        list_all (piece_ok T') qs \<and> pieces_text T' qs = pieces_text T (pt_pieces T)"
      using compact_loop_text [OF ok, of Original "pt_original T" "[]"] by (auto simp: source_text_def)
    let ?T = "T\<lparr>pt_original := m, pt_pieces := qs\<rparr>"
    have "list_all (piece_ok ?T) qs \<and> pieces_text ?T qs = pieces_text T (pt_pieces T)"
      by (rule loop(2)) (simp_all add: source_text_def split: piece_source.split)
    then have "table_ok ?T \<and> table_text ?T = table_text T" using assms by (simp add: table_ok_def table_text_def)
    then show ?thesis using 2 loop(1) by (simp add: reclaim_original_def)
  qed (use assms in \<open>auto simp: reclaim_original_def\<close>)
qed

lemma last_end_bound:
  "p \<in> set ps \<Longrightarrow> p_source p = source \<Longrightarrow> piece_end p \<le> last_end source ps"
  "last_end source ps = 0 \<or> (\<exists>p \<in> set ps. p_source p = source \<and> last_end source ps = piece_end p)"
proof -
  have grow: "m \<le> foldl (\<lambda>m p. max m (piece_end p)) m qs" for m qs
    by (induction qs arbitrary: m) (auto intro: order.trans [OF max.cobounded1])
  have above: "q \<in> set qs \<Longrightarrow> piece_end q \<le> foldl (\<lambda>m p. max m (piece_end p)) m qs" for m q qs
  proof (induction qs arbitrary: m)
    case (Cons a qs)
    then show ?case using grow [of "max m (piece_end a)" qs] by auto
  qed simp
  have attained: "foldl (\<lambda>m p. max m (piece_end p)) m qs = m \<or>
      (\<exists>q \<in> set qs. foldl (\<lambda>m p. max m (piece_end p)) m qs = piece_end q)" for m qs
  proof (induction qs arbitrary: m)
    case (Cons a qs)
    then show ?case using Cons.IH [of "max m (piece_end a)"] by (auto simp: max_def split: if_splits)
  qed simp
  show "p \<in> set ps \<Longrightarrow> p_source p = source \<Longrightarrow> piece_end p \<le> last_end source ps"
    by (simp add: last_end_def above)
  show "last_end source ps = 0 \<or> (\<exists>p \<in> set ps. p_source p = source \<and> last_end source ps = piece_end p)"
    using attained [of 0 "filter (\<lambda>p. p_source p = source) ps"] by (auto simp: last_end_def)
qed

text \<open>Dropping the end of the added text keeps the pieces that lie before it.\<close>

lemma piece_truncate:
  assumes "piece_ok T p" "p_source p = Add \<longrightarrow> piece_end p \<le> n" "n \<le> length (pt_add T)"
  shows "piece_ok (T\<lparr>pt_add := take n (pt_add T)\<rparr>) p"
    and "piece_text (T\<lparr>pt_add := take n (pt_add T)\<rparr>) p = piece_text T p"
proof (atomize (full), cases "p_source p")
  case Add
  have "char_boundary (take n (pt_add T)) (piece_end p)"
    using assms Add by (auto simp: piece_ok_def source_text_def char_boundary_def)
  then show "piece_ok (T\<lparr>pt_add := take n (pt_add T)\<rparr>) p \<and>
      piece_text (T\<lparr>pt_add := take n (pt_add T)\<rparr>) p = piece_text T p"
    using assms Add
    by (simp add: piece_ok_def piece_text_def source_text_def piece_end_def drop_take min_def)
qed (use assms in \<open>simp add: piece_ok_def piece_text_def source_text_def\<close>)

lemma reclaim_add_text:
  assumes "table_ok T"
  shows "\<exists>T'. reclaim_add T = Some T' \<and> table_ok T' \<and> table_text T' = table_text T"
proof -
  have ok: "list_all (piece_ok T) (pt_pieces T)" using assms by (simp add: table_ok_def)
  let ?live = "live_bytes Add (pt_pieces T)" and ?stop = "last_end Add (pt_pieces T)"
  consider "?live = 0" | "?live \<noteq> 0" "?live < length (pt_add T) - ?live"
    | "?live \<noteq> 0" "\<not> ?live < length (pt_add T) - ?live" "?stop < length (pt_add T)"
    | "?live \<noteq> 0" "\<not> ?live < length (pt_add T) - ?live" "\<not> ?stop < length (pt_add T)" by blast
  then show ?thesis
  proof cases
    case 1
    let ?T = "T\<lparr>pt_add := []\<rparr>"
    have "source_text ?T (p_source p) = source_text T (p_source p)" if "p \<in> set (pt_pieces T)" for p
      using live_bytes_zero [OF ok 1 that] by (cases "p_source p") (simp_all add: source_text_def)
    note pieces_same_source [OF ok this]
    then have "table_ok ?T \<and> table_text ?T = table_text T" using assms by (simp add: table_ok_def table_text_def)
    then show ?thesis using 1 by (simp add: reclaim_add_def)
  next
    case 2
    obtain m qs where loop: "compact_loop Add (pt_add T) [] (pt_pieces T) = Some ([] @ m, qs)"
      "\<And>T'. source_text T' Add = [] @ m \<Longrightarrow> (\<forall>other. other \<noteq> Add \<longrightarrow> source_text T' other = source_text T other) \<Longrightarrow>
        list_all (piece_ok T') qs \<and> pieces_text T' qs = pieces_text T (pt_pieces T)"
      using compact_loop_text [OF ok, of Add "pt_add T" "[]"] by (auto simp: source_text_def)
    let ?T = "T\<lparr>pt_add := m, pt_pieces := qs\<rparr>"
    have "list_all (piece_ok ?T) qs \<and> pieces_text ?T qs = pieces_text T (pt_pieces T)"
      by (rule loop(2)) (simp_all add: source_text_def split: piece_source.split)
    then have "table_ok ?T \<and> table_text ?T = table_text T" using assms by (simp add: table_ok_def table_text_def)
    then show ?thesis using 2 loop(1) by (simp add: reclaim_add_def)
  next
    case 3
    let ?T = "T\<lparr>pt_add := take ?stop (pt_add T)\<rparr>"
    have "piece_ok ?T p \<and> piece_text ?T p = piece_text T p" if "p \<in> set (pt_pieces T)" for p
      using piece_truncate [of T p ?stop] that ok last_end_bound(1) [OF that, of Add] 3(3)
      by (auto simp: list_all_iff)
    then have "list_all (piece_ok ?T) (pt_pieces T) \<and> pieces_text ?T (pt_pieces T) = pieces_text T (pt_pieces T)"
      by (auto simp: list_all_iff pieces_text_def intro!: arg_cong [of _ _ concat])
    then have "table_ok ?T \<and> table_text ?T = table_text T" using assms by (simp add: table_ok_def table_text_def)
    moreover have "char_boundary (pt_add T) ?stop"
    proof -
      consider "?stop = 0" | p where "p \<in> set (pt_pieces T)" "p_source p = Add" "?stop = piece_end p"
        using last_end_bound(2) [of Add "pt_pieces T"] by (elim disjE bexE conjE) simp_all
      then show ?thesis
      proof cases
        case 2
        then show ?thesis using ok by (auto simp: list_all_iff piece_ok_def source_text_def)
      qed (simp add: char_boundary_def)
    qed
    ultimately show ?thesis using 3 by (simp add: reclaim_add_def str_truncate_def)
  qed (use assms in \<open>simp add: reclaim_add_def\<close>)
qed

text \<open>
  Compacting never fails and never changes the text: for every well-formed table, with
  the original shared or not, \<open>reclaim_unused_text\<close> returns a well-formed table whose \<open>to_text\<close> is
  the one before it.
\<close>

theorem reclaim_keeps_text:
  assumes "table_ok T"
  shows "\<exists>T'. reclaim_unused_text shared T = Some T' \<and> table_ok T' \<and> to_text T' = to_text T"
proof -
  obtain T1 where 1: "reclaim_original shared T = Some T1" "table_ok T1" "table_text T1 = table_text T"
    using reclaim_original_text [OF assms] by blast
  obtain T2 where 2: "reclaim_add T1 = Some T2" "table_ok T2" "table_text T2 = table_text T1"
    using reclaim_add_text [OF 1(2)] by blast
  show ?thesis using 1 2 assms by (auto simp: reclaim_unused_text_def to_text_ok)
qed

theorem reclaim_keeps_text_witness:
  "let T = \<lparr>pt_original = [97, 98, 99, 100, 101], pt_add = [120, 121, 122, 119, 118],
            pt_pieces = [\<lparr>p_source = Original, p_start = 3, p_len = 1\<rparr>,
                         \<lparr>p_source = Add, p_start = 1, p_len = 2\<rparr>], pt_len = 3\<rparr>
   in reclaim_unused_text False T =
        Some \<lparr>pt_original = [100], pt_add = [121, 122],
              pt_pieces = [\<lparr>p_source = Original, p_start = 0, p_len = 1\<rparr>,
                           \<lparr>p_source = Add, p_start = 0, p_len = 2\<rparr>], pt_len = 3\<rparr> \<and>
      (\<exists>T'. reclaim_unused_text False T = Some T' \<and> table_ok T' \<and> to_text T' = to_text T)"
proof -
  let ?T = "\<lparr>pt_original = [97, 98, 99, 100, 101], pt_add = [120, 121, 122, 119, 118],
            pt_pieces = [\<lparr>p_source = Original, p_start = 3, p_len = 1\<rparr>,
                         \<lparr>p_source = Add, p_start = 1, p_len = 2\<rparr>], pt_len = 3\<rparr>"
  have "table_ok ?T" by code_simp
  moreover have "reclaim_unused_text False ?T =
        Some \<lparr>pt_original = [100], pt_add = [121, 122],
              pt_pieces = [\<lparr>p_source = Original, p_start = 0, p_len = 1\<rparr>,
                           \<lparr>p_source = Add, p_start = 0, p_len = 2\<rparr>], pt_len = 3\<rparr>"
    by code_simp
  ultimately show ?thesis using reclaim_keeps_text [of ?T False] by (simp add: Let_def)
qed

text \<open>
  Property C31: replacing a range of the piece table is replacing it in the text: for every well-formed
  table, every range between two offsets that \<open>is_char_boundary\<close> accepts and every valid string, the
  table after \<open>replace\<close> is well-formed and spells the old text with the range replaced, however the
  range cuts, covers or touches the pieces and whether or not pieces are merged.
\<close>

theorem replace_refines_text:
  assumes "table_ok T" "to_text T = Some t" "s \<le> e" "str_wf replacement"
    and "table_char_boundary T s" "table_char_boundary T e"
  shows "table_ok (table_replace s e replacement T) \<and>
    to_text (table_replace s e replacement T) = Some (text_replace s e replacement t)"
  using table_replace_text [OF assms(1,3-6)] assms(1,2) by (simp add: to_text_ok)

theorem replace_refines_text_witness:
  "let T = \<lparr>pt_original = [97, 98, 99, 100], pt_add = [120],
            pt_pieces = [\<lparr>p_source = Original, p_start = 0, p_len = 2\<rparr>,
                         \<lparr>p_source = Add, p_start = 0, p_len = 1\<rparr>,
                         \<lparr>p_source = Original, p_start = 2, p_len = 2\<rparr>], pt_len = 5\<rparr>
   in to_text (table_replace 1 4 [121, 122] T) = Some [97, 121, 122, 100] \<and>
      table_ok (table_replace 1 4 [121, 122] T)"
proof -
  let ?T = "\<lparr>pt_original = [97, 98, 99, 100], pt_add = [120],
            pt_pieces = [\<lparr>p_source = Original, p_start = 0, p_len = 2\<rparr>,
                         \<lparr>p_source = Add, p_start = 0, p_len = 1\<rparr>,
                         \<lparr>p_source = Original, p_start = 2, p_len = 2\<rparr>], pt_len = 5\<rparr>"
  have "table_ok ?T" "to_text ?T = Some [97, 98, 120, 99, 100]" "str_wf [121, 122]"
    "table_char_boundary ?T 1" "table_char_boundary ?T 4"
    by code_simp+
  then show ?thesis
    using replace_refines_text [of ?T "[97, 98, 120, 99, 100]" 1 4 "[121, 122]"]
    by (simp add: Let_def text_replace_def)
qed

end
