(* ===== verification/Editor_Lines.thy ===== *)
theory Editor_Lines
  imports Editor_Pieces
begin

text \<open>
  Ranges, edits and the line index of the editor (\<open>types.rs\<close>, \<open>edit.rs\<close> and \<open>line_index.rs\<close> of
  \<open>crates/oxideterm-editor-core/src\<close>). Offsets are natural numbers; the two storage widths of the
  index are kept, and an offset that does not fit its width panics (\<open>None\<close>). Signed shifts are
  integers. The reference is \<open>line_starts\<close>, the positions after the line feeds of a text.
\<close>

section \<open>Ranges and edits\<close>

record text_range =
  tr_start :: nat
  tr_end :: nat

definition range_new :: "nat \<Rightarrow> nat \<Rightarrow> text_range" where
  "range_new s e =
     (if s \<le> e then \<lparr>tr_start = s, tr_end = e\<rparr> else \<lparr>tr_start = e, tr_end = s\<rparr>)"

definition range_caret :: "nat \<Rightarrow> text_range" where
  "range_caret off = \<lparr>tr_start = off, tr_end = off\<rparr>"

definition range_len :: "text_range \<Rightarrow> nat" where
  "range_len r = tr_end r - tr_start r"

record text_edit =
  te_range :: text_range
  te_replacement :: bytes

definition edit_new :: "text_range \<Rightarrow> bytes \<Rightarrow> text_edit" where
  "edit_new r t = \<lparr>te_range = r, te_replacement = t\<rparr>"

definition edit_insert :: "nat \<Rightarrow> bytes \<Rightarrow> text_edit" where
  "edit_insert off t = edit_new (range_caret off) t"

abbreviation edit_start :: "text_edit \<Rightarrow> nat" where
  "edit_start e \<equiv> tr_start (te_range e)"

abbreviation edit_end :: "text_edit \<Rightarrow> nat" where
  "edit_end e \<equiv> tr_end (te_range e)"

section \<open>The line index\<close>

text \<open>The element type of the index: \<open>u32\<close> or \<open>usize\<close>.\<close>

datatype offset_width = W32 | Wsize

definition width_holds :: "offset_width \<Rightarrow> nat \<Rightarrow> bool" where
  "width_holds w v \<longleftrightarrow> (case w of W32 \<Rightarrow> v < 2 ^ 32 | Wsize \<Rightarrow> True)"

definition stored_offset :: "offset_width \<Rightarrow> nat \<Rightarrow> nat option" where
  "stored_offset w v = (if width_holds w v then Some v else None)"

fun compute_loop :: "offset_width \<Rightarrow> nat \<Rightarrow> bytes \<Rightarrow> nat list \<Rightarrow> nat list option" where
  "compute_loop w index [] starts = Some starts"
| "compute_loop w index (b # bs) starts =
     (if b = 10 then
        (case stored_offset w (index + 1) of
           None \<Rightarrow> None
         | Some v \<Rightarrow> compute_loop w (index + 1) bs (starts @ [v]))
      else compute_loop w (index + 1) bs starts)"

definition compute_line_starts :: "offset_width \<Rightarrow> bytes \<Rightarrow> nat list option" where
  "compute_line_starts w t =
     (case stored_offset w 0 of None \<Rightarrow> None | Some v \<Rightarrow> compute_loop w 0 t [v])"

text \<open>\<open>partition_point\<close> on a list whose first part satisfies the predicate.\<close>

definition partition_point :: "('a \<Rightarrow> bool) \<Rightarrow> 'a list \<Rightarrow> nat" where
  "partition_point P xs = length (takeWhile P xs)"

definition apply_line_shift :: "nat \<Rightarrow> int \<Rightarrow> nat" where
  "apply_line_shift off shift =
     (if shift < 0 then off - nat (- shift) else min (off + nat shift) usize_max)"

definition push_line_start :: "offset_width \<Rightarrow> nat \<Rightarrow> nat list \<Rightarrow> nat list option" where
  "push_line_start w v starts =
     (if starts \<noteq> [] \<and> last starts = v then Some starts
      else map_option (\<lambda>v. starts @ [v]) (stored_offset w v))"

text \<open>The three inner loops of the update, over the old starts still to be looked at.\<close>

fun keep_starts ::
    "offset_width \<Rightarrow> nat \<Rightarrow> int \<Rightarrow> nat list \<Rightarrow> nat list \<Rightarrow> (nat list \<times> nat list) option" where
  "keep_starts w stop shift [] middle = Some ([], middle)"
| "keep_starts w stop shift (s # old) middle =
     (if s \<le> stop then
        (case push_line_start w (apply_line_shift s shift) middle of
           None \<Rightarrow> None
         | Some middle \<Rightarrow> keep_starts w stop shift old middle)
      else Some (s # old, middle))"

fun push_newlines :: "offset_width \<Rightarrow> nat \<Rightarrow> nat \<Rightarrow> bytes \<Rightarrow> nat list \<Rightarrow> nat list option" where
  "push_newlines w base index [] middle = Some middle"
| "push_newlines w base index (b # bs) middle =
     (if b = 10 then
        (case push_line_start w (base + index + 1) middle of
           None \<Rightarrow> None
         | Some middle \<Rightarrow> push_newlines w base (index + 1) bs middle)
      else push_newlines w base (index + 1) bs middle)"

fun update_loop ::
    "offset_width \<Rightarrow> text_edit list \<Rightarrow> nat list \<Rightarrow> int \<Rightarrow> nat list \<Rightarrow> (nat list \<times> int) option" where
  "update_loop w [] old shift middle = Some (middle, shift)"
| "update_loop w (e # es) old shift middle =
     (case keep_starts w (edit_start e) shift old middle of
        None \<Rightarrow> None
      | Some (old, middle) \<Rightarrow>
          (case push_newlines w (apply_line_shift (edit_start e) shift) 0 (te_replacement e) middle of
             None \<Rightarrow> None
           | Some middle \<Rightarrow>
               update_loop w es (dropWhile (\<lambda>s. s \<le> edit_end e) old)
                 (shift + (int (length (te_replacement e)) - int (range_len (te_range e)))) middle))"

fun shift_suffix :: "offset_width \<Rightarrow> int \<Rightarrow> nat list \<Rightarrow> nat list option" where
  "shift_suffix w shift [] = Some []"
| "shift_suffix w shift (s # ss) =
     (case stored_offset w (apply_line_shift s shift) of
        None \<Rightarrow> None
      | Some v \<Rightarrow> map_option (\<lambda>vs. v # vs) (shift_suffix w shift ss))"

definition update_line_starts_after_edits ::
    "offset_width \<Rightarrow> nat list \<Rightarrow> text_edit list \<Rightarrow> nat list option" where
  "update_line_starts_after_edits w starts edits =
     (case edits of
        [] \<Rightarrow> Some starts
      | first_edit # _ \<Rightarrow>
          (let first = partition_point (\<lambda>v. v \<le> edit_start first_edit) starts;
               stop = partition_point (\<lambda>v. v \<le> edit_end (last edits)) starts in
           (case update_loop w edits (drop first (take stop starts)) 0 [] of
              None \<Rightarrow> None
            | Some (middle, shift) \<Rightarrow>
                (if stop < first then None
                 else if shift \<noteq> 0 then
                   map_option (\<lambda>vs. take first starts @ middle @ vs) (shift_suffix w shift (drop stop starts))
                 else Some (take first starts @ middle @ drop stop starts)))))"

datatype line_index = Compact "u32 list" | Wide "nat list"

definition index_new :: "bytes \<Rightarrow> line_index option" where
  "index_new t =
     (if length t < 2 ^ 32 then map_option (\<lambda>ss. Compact (map of_nat ss)) (compute_line_starts W32 t)
      else map_option Wide (compute_line_starts Wsize t))"

definition index_starts :: "line_index \<Rightarrow> nat list" where
  "index_starts ix = (case ix of Compact ss \<Rightarrow> map unat ss | Wide ss \<Rightarrow> ss)"

definition index_len :: "line_index \<Rightarrow> nat" where
  "index_len ix = (case ix of Compact ss \<Rightarrow> length ss | Wide ss \<Rightarrow> length ss)"

definition index_get :: "line_index \<Rightarrow> nat \<Rightarrow> nat option" where
  "index_get ix line =
     (case ix of
        Compact ss \<Rightarrow> (if line < length ss then Some (unat (ss ! line)) else None)
      | Wide ss \<Rightarrow> (if line < length ss then Some (ss ! line) else None))"

definition line_for_offset :: "line_index \<Rightarrow> nat \<Rightarrow> nat" where
  "line_for_offset ix off =
     (case ix of
        Compact ss \<Rightarrow> partition_point (\<lambda>s. unat s \<le> off) ss
      | Wide ss \<Rightarrow> partition_point (\<lambda>s. s \<le> off) ss) - 1"

definition index_update :: "text_edit list \<Rightarrow> nat \<Rightarrow> line_index \<Rightarrow> line_index option" where
  "index_update edits new_len ix =
     (let ix = (case ix of
                  Compact ss \<Rightarrow> if 2 ^ 32 \<le> new_len then Wide (map unat ss) else Compact ss
                | Wide ss \<Rightarrow> Wide ss) in
      case ix of
        Compact ss \<Rightarrow>
          map_option (\<lambda>ss. Compact (map of_nat ss)) (update_line_starts_after_edits W32 (map unat ss) edits)
      | Wide ss \<Rightarrow> map_option Wide (update_line_starts_after_edits Wsize ss edits))"

section \<open>The reference: line starts of a text\<close>

fun after_newlines :: "nat \<Rightarrow> bytes \<Rightarrow> nat list" where
  "after_newlines pos [] = []"
| "after_newlines pos (b # bs) = (if b = 10 then [pos + 1] else []) @ after_newlines (pos + 1) bs"

definition line_starts :: "bytes \<Rightarrow> nat list" where
  "line_starts t = 0 # after_newlines 0 t"

text \<open>
  The simultaneous replacement of sorted ranges; \<open>t\<close> is the text from position \<open>pos\<close> on.
\<close>

fun spliced :: "nat \<Rightarrow> text_edit list \<Rightarrow> bytes \<Rightarrow> bytes" where
  "spliced pos [] t = t"
| "spliced pos (e # es) t =
     take (edit_start e - pos) t @ te_replacement e @ spliced (edit_end e) es (drop (edit_end e - pos) t)"

fun edits_sorted :: "nat \<Rightarrow> nat \<Rightarrow> text_edit list \<Rightarrow> bool" where
  "edits_sorted pos len [] \<longleftrightarrow> pos \<le> len"
| "edits_sorted pos len (e # es) \<longleftrightarrow>
     pos \<le> edit_start e \<and> edit_start e \<le> edit_end e \<and> edits_sorted (edit_end e) len es"

definition index_ok :: "bytes \<Rightarrow> line_index \<Rightarrow> bool" where
  "index_ok t ix \<longleftrightarrow>
     index_starts ix = line_starts t \<and>
     (case ix of Compact _ \<Rightarrow> length t < 2 ^ 32 | Wide _ \<Rightarrow> True)"

lemma after_newlines_append [simp]:
  "after_newlines pos (xs @ ys) = after_newlines pos xs @ after_newlines (pos + length xs) ys"
  by (induction xs arbitrary: pos) auto

lemma after_newlines_bounds: "v \<in> set (after_newlines pos t) \<Longrightarrow> pos < v \<and> v \<le> pos + length t"
proof (induction t arbitrary: pos)
  case (Cons b bs)
  then consider "v = pos + 1" | "v \<in> set (after_newlines (pos + 1) bs)" by (auto split: if_splits)
  then show ?case using Cons.IH [of "pos + 1"] by cases auto
qed simp

lemma after_newlines_sorted: "sorted_wrt (<) (after_newlines pos t)"
  by (induction t arbitrary: pos) (auto dest: after_newlines_bounds)

lemma after_newlines_shift: "after_newlines (pos + k) t = map (\<lambda>v. v + k) (after_newlines pos t)"
proof (induction t arbitrary: pos)
  case (Cons b bs)
  then show ?case using Cons.IH [of "pos + 1"] by simp
qed simp

lemma line_starts_sorted: "sorted_wrt (<) (line_starts t)"
  by (auto simp: line_starts_def after_newlines_sorted dest: after_newlines_bounds)

lemma line_starts_bounds: "v \<in> set (line_starts t) \<Longrightarrow> v \<le> length t"
  by (auto simp: line_starts_def dest: after_newlines_bounds)

lemma compute_loop_starts:
  "width_holds w (index + length t) \<Longrightarrow>
   compute_loop w index t starts = Some (starts @ after_newlines index t)"
proof (induction t arbitrary: index starts)
  case (Cons b bs)
  then have "width_holds w (index + 1 + length bs)" "width_holds w (index + 1)"
    by (auto simp: width_holds_def split: offset_width.splits)
  then show ?case using Cons.IH by (simp add: stored_offset_def)
qed simp

lemma compute_line_starts_exact:
  "width_holds w (length t) \<Longrightarrow> compute_line_starts w t = Some (line_starts t)"
proof -
  assume w: "width_holds w (length t)"
  then have "width_holds w 0" by (auto simp: width_holds_def split: offset_width.splits)
  then show ?thesis using compute_loop_starts [of w 0 t "[0]"] w
    by (simp add: compute_line_starts_def stored_offset_def line_starts_def)
qed

lemma map_unat_of_nat: "\<forall>v \<in> set ss. v < 2 ^ 32 \<Longrightarrow> map (\<lambda>v. unat (of_nat v :: u32)) ss = ss"
  by (induction ss) (auto simp: unat_of_nat)

lemma index_new_ok: "\<exists>ix. index_new t = Some ix \<and> index_ok t ix"
proof (cases "length t < 2 ^ 32")
  case True
  then have "compute_line_starts W32 t = Some (line_starts t)"
    by (intro compute_line_starts_exact) (simp add: width_holds_def)
  moreover have "map (\<lambda>v. unat (of_nat v :: u32)) (line_starts t) = line_starts t"
    using True by (intro map_unat_of_nat) (auto dest: line_starts_bounds)
  ultimately show ?thesis using True by (simp add: index_new_def index_ok_def index_starts_def comp_def)
next
  case False
  then show ?thesis
    using compute_line_starts_exact [of Wsize t]
    by (simp add: index_new_def index_ok_def index_starts_def width_holds_def)
qed

lemma index_ok_get:
  "index_ok t ix \<Longrightarrow> index_get ix line = (if line < length (line_starts t) then Some (line_starts t ! line) else None)"
  "index_ok t ix \<Longrightarrow> index_len ix = length (line_starts t)"
  "index_ok t ix \<Longrightarrow> line_for_offset ix off = partition_point (\<lambda>s. s \<le> off) (line_starts t) - 1"
proof -
  assume "index_ok t ix"
  then have ls: "index_starts ix = line_starts t" by (simp add: index_ok_def)
  show "index_get ix line = (if line < length (line_starts t) then Some (line_starts t ! line) else None)"
    by (cases ix) (auto simp: index_get_def index_starts_def ls [symmetric])
  show "index_len ix = length (line_starts t)"
    by (cases ix) (auto simp: index_len_def index_starts_def ls [symmetric])
  show "line_for_offset ix off = partition_point (\<lambda>s. s \<le> off) (line_starts t) - 1"
    by (cases ix)
      (auto simp: line_for_offset_def index_starts_def ls [symmetric] partition_point_def takeWhile_map comp_def)
qed

section \<open>Updating the index\<close>

lemma push_fresh:
  "middle = [] \<or> last middle < v \<Longrightarrow> width_holds w v \<Longrightarrow> push_line_start w v middle = Some (middle @ [v])"
  by (auto simp: push_line_start_def stored_offset_def)

lemma width_le: "width_holds w n \<Longrightarrow> v \<le> n \<Longrightarrow> width_holds w v"
  by (auto simp: width_holds_def split: offset_width.splits)

lemma push_newlines_exact:
  "middle = [] \<or> last middle \<le> base + index \<Longrightarrow> width_holds w (base + index + length bs) \<Longrightarrow>
   push_newlines w base index bs middle = Some (middle @ after_newlines (base + index) bs)"
proof (induction bs arbitrary: index middle)
  case (Cons b bs)
  then have "width_holds w (base + (index + 1) + length bs)" "width_holds w (base + index + 1)"
    using width_le [OF Cons.prems(2)] by auto
  then show ?case
    using Cons.IH [of "middle @ [base + index + 1]" "index + 1"] Cons.IH [of middle "index + 1"] Cons.prems(1)
      push_fresh [of middle "base + index + 1" w] by (auto simp: add.assoc)
qed simp

lemma keep_starts_stop: "list_all (\<lambda>s. stop < s) old \<Longrightarrow> keep_starts w stop shift old middle = Some (old, middle)"
  by (cases old) auto

lemma shift_exact:
  "int q = int p + shift \<Longrightarrow> q \<le> usize_max \<Longrightarrow> apply_line_shift p shift = q"
  by (auto simp: apply_line_shift_def)

lemma keep_starts_exact:
  "list_all (\<lambda>s. pos + length u < s) old \<Longrightarrow> int q = int pos + shift \<Longrightarrow>
   middle = [] \<or> last middle \<le> q \<Longrightarrow> width_holds w (q + length u) \<Longrightarrow> q + length u \<le> usize_max \<Longrightarrow>
   keep_starts w (pos + length u) shift (after_newlines pos u @ old) middle =
     Some (old, middle @ after_newlines q u)"
proof (induction u arbitrary: pos q middle)
  case Nil
  then show ?case by (simp add: keep_starts_stop)
next
  case (Cons b bs)
  have w: "width_holds w (q + 1)" "width_holds w (q + 1 + length bs)"
    using width_le [OF Cons.prems(4)] Cons.prems(4) by auto
  have shift: "apply_line_shift (pos + 1) shift = q + 1"
    using Cons.prems(2,5) by (intro shift_exact) auto
  have IH: "keep_starts w (pos + 1 + length bs) shift (after_newlines (pos + 1) bs @ old) m =
      Some (old, m @ after_newlines (q + 1) bs)" if "m = [] \<or> last m \<le> q + 1" for m
    using Cons.IH [of "pos + 1" "q + 1" m] Cons.prems w that by simp
  show ?case
  proof (cases "b = 10")
    case True
    have "push_line_start w (q + 1) middle = Some (middle @ [q + 1])"
      using Cons.prems(3) w(1) by (intro push_fresh) auto
    then show ?thesis using True shift IH [of "middle @ [q + 1]"] by simp
  next
    case False
    then show ?thesis using IH [of middle] Cons.prems(3) by auto
  qed
qed

text \<open>The end of the last edit, and the new text up to there.\<close>

fun edits_end :: "nat \<Rightarrow> text_edit list \<Rightarrow> nat" where
  "edits_end pos [] = pos"
| "edits_end pos (e # es) = edits_end (edit_end e) es"

fun spliced_head :: "nat \<Rightarrow> text_edit list \<Rightarrow> bytes \<Rightarrow> bytes" where
  "spliced_head pos [] t = []"
| "spliced_head pos (e # es) t =
     take (edit_start e - pos) t @ te_replacement e @ spliced_head (edit_end e) es (drop (edit_end e - pos) t)"

lemma edits_sorted_end: "edits_sorted pos len es \<Longrightarrow> pos \<le> edits_end pos es \<and> edits_end pos es \<le> len"
  by (induction es arbitrary: pos) (auto intro: order.trans)

lemma spliced_split:
  "edits_sorted pos (pos + length t) es \<Longrightarrow>
   spliced pos es t = spliced_head pos es t @ drop (edits_end pos es - pos) t"
proof (induction es arbitrary: pos t)
  case (Cons e es)
  have le: "edit_end e - pos + (edits_end (edit_end e) es - edit_end e) = edits_end (edit_end e) es - pos"
    "edit_end e \<le> pos + length t" "pos \<le> edit_end e"
    using Cons.prems edits_sorted_end [of "edit_end e" "pos + length t" es] by auto
  then have "edits_sorted (edit_end e) (edit_end e + length (drop (edit_end e - pos) t)) es"
    using Cons.prems by (simp add: add.commute [of pos])
  from Cons.IH [OF this] le(1) show ?case by (simp add: add.commute)
qed simp

text \<open>One edit cuts the old text in the part kept, the part replaced and the rest.\<close>

lemma edit_cut:
  assumes "edits_sorted pos (pos + length t) (e # es)"
  obtains u d v where "t = u @ d @ v" "edit_start e = pos + length u" "edit_end e = pos + length u + length d"
    "edits_sorted (edit_end e) (edit_end e + length v) es"
    "take (edit_start e - pos) t = u" "drop (edit_end e - pos) t = v" "range_len (te_range e) = length d"
proof -
  have le: "pos \<le> edit_start e" "edit_start e \<le> edit_end e" "edit_end e \<le> pos + length t"
    using assms edits_sorted_end [of "edit_end e" "pos + length t" es] by auto
  let ?u = "take (edit_start e - pos) t"
  let ?d = "take (edit_end e - edit_start e) (drop (edit_start e - pos) t)"
  let ?v = "drop (edit_end e - pos) t"
  have "edit_end e - pos = (edit_end e - edit_start e) + (edit_start e - pos)" using le by simp
  then have "?v = drop (edit_end e - edit_start e) (drop (edit_start e - pos) t)" by simp
  then have "t = ?u @ ?d @ ?v" by (metis append_take_drop_id)
  moreover have "edits_sorted (edit_end e) (edit_end e + length ?v) es" using assms le by (simp add: add.commute [of pos])
  ultimately show thesis using le by (intro that [of ?u ?d ?v]) (auto simp: range_len_def)
qed

lemma update_loop_exact:
  "edits_sorted pos (pos + length t) es \<Longrightarrow>
   old = filter (\<lambda>s. s \<le> edits_end pos es) (after_newlines pos t) \<Longrightarrow>
   int q = int pos + shift \<Longrightarrow> middle = [] \<or> last middle \<le> q \<Longrightarrow>
   width_holds w (q + length (spliced pos es t)) \<Longrightarrow> q + length (spliced pos es t) \<le> usize_max \<Longrightarrow>
   \<exists>shift'. update_loop w es old shift middle =
     Some (middle @ after_newlines q (spliced_head pos es t), shift') \<and>
     int (q + length (spliced_head pos es t)) = int (edits_end pos es) + shift'"
proof (induction es arbitrary: pos t old q shift middle)
  case (Cons e es)
  obtain u d v where cut: "t = u @ d @ v" "edit_start e = pos + length u" "edit_end e = pos + length u + length d"
    "edits_sorted (edit_end e) (edit_end e + length v) es"
    "take (edit_start e - pos) t = u" "drop (edit_end e - pos) t = v" "range_len (te_range e) = length d"
    using edit_cut [OF Cons.prems(1)] .
  let ?r = "te_replacement e" and ?s = "edit_start e" and ?x = "edit_end e"
  have E: "?x \<le> edits_end ?x es" using edits_sorted_end [OF cut(4)] by simp
  let ?later = "filter (\<lambda>s. s \<le> edits_end ?x es) (after_newlines ?x v)"
  have all: "filter (\<lambda>s. s \<le> edits_end ?x es) (after_newlines p w) = after_newlines p w"
    if "p + length w \<le> ?x" for p w
    using that E by (auto simp: filter_id_conv dest!: after_newlines_bounds)
  have old: "old = after_newlines pos u @ after_newlines ?s d @ ?later"
    using Cons.prems(2) cut all [of pos u] all [of ?s d] by (simp add: add.assoc)
  have later: "list_all (\<lambda>s. ?x < s) ?later"
    by (auto simp: list_all_iff dest: after_newlines_bounds)
  have new: "spliced pos (e # es) t = u @ ?r @ spliced ?x es v"
    "spliced_head pos (e # es) t = u @ ?r @ spliced_head ?x es v"
    using cut(5,6) by simp_all
  have w: "width_holds w (q + length u)" "width_holds w (q + length u + length ?r)"
    using width_le [OF Cons.prems(5)] unfolding new by simp_all
  have room: "q + length u + length ?r + length (spliced ?x es v) \<le> usize_max"
    "width_holds w (q + length u + length ?r + length (spliced ?x es v))"
    using Cons.prems(5,6) unfolding new by (simp_all add: add.assoc)
  have "list_all (\<lambda>s. pos + length u < s) (after_newlines ?s d @ ?later)"
    using later cut(2,3) by (auto simp: list_all_iff dest!: after_newlines_bounds)
  then have keep: "keep_starts w ?s shift old middle =
      Some (after_newlines ?s d @ ?later, middle @ after_newlines q u)"
    using keep_starts_exact [of pos u "after_newlines ?s d @ ?later" q shift middle w] old cut(2) w(1)
      Cons.prems(3,4) room(1) by simp
  have base: "apply_line_shift ?s shift = q + length u"
    using Cons.prems(3) cut(2) room(1) by (intro shift_exact) auto
  let ?m1 = "middle @ after_newlines q u"
  have m1: "?m1 = [] \<or> last ?m1 \<le> q + length u"
    using Cons.prems(4) after_newlines_bounds [of "last (after_newlines q u)" q u]
    by (cases "after_newlines q u = []") auto
  let ?m2 = "?m1 @ after_newlines (q + length u) ?r"
  have m2: "?m2 = [] \<or> last ?m2 \<le> q + length u + length ?r"
    using m1 after_newlines_bounds [of "last (after_newlines (q + length u) ?r)" "q + length u" ?r]
    by (cases "after_newlines (q + length u) ?r = []") auto
  have push: "push_newlines w (q + length u) 0 ?r ?m1 = Some ?m2"
    using push_newlines_exact [of ?m1 "q + length u" 0 w ?r] m1 w(2) by simp
  have skip: "dropWhile (\<lambda>s. s \<le> ?x) (after_newlines ?s d @ ?later) = ?later"
  proof -
    have "dropWhile (\<lambda>s. s \<le> ?x) ?later = ?later" using later by (cases ?later) auto
    moreover have "s \<le> ?x" if "s \<in> set (after_newlines ?s d)" for s
      using after_newlines_bounds [OF that] cut(2,3) by simp
    ultimately show ?thesis by (simp add: dropWhile_append2)
  qed
  let ?shift = "shift + (int (length ?r) - int (range_len (te_range e)))"
  have "\<exists>shift'. update_loop w es ?later ?shift ?m2 =
     Some (?m2 @ after_newlines (q + length u + length ?r) (spliced_head ?x es v), shift') \<and>
     int (q + length u + length ?r + length (spliced_head ?x es v)) = int (edits_end ?x es) + shift'"
    by (rule Cons.IH [OF cut(4) refl _ m2 room(2,1)]) (use Cons.prems(3) cut(2,3,7) in simp)
  then obtain shift' where rec: "update_loop w es ?later ?shift ?m2 =
     Some (?m2 @ after_newlines (q + length u + length ?r) (spliced_head ?x es v), shift')"
     "int (q + length u + length ?r + length (spliced_head ?x es v)) = int (edits_end ?x es) + shift'"
    by blast
  have "update_loop w (e # es) old shift middle =
      Some (middle @ after_newlines q (spliced_head pos (e # es) t), shift')"
    unfolding new using keep base push skip rec(1) by (simp add: add.assoc)
  moreover have "int (q + length (spliced_head pos (e # es) t)) = int (edits_end pos (e # es)) + shift'"
    unfolding new using rec(2) by simp
  ultimately show ?case by blast
qed simp

lemma edits_end_last: "es \<noteq> [] \<Longrightarrow> edits_end pos es = edit_end (last es)"
  by (induction es arbitrary: pos) auto

text \<open>Splitting the starts at a position.\<close>

lemma partition_split:
  assumes "x \<le> length t"
  shows "take (partition_point (\<lambda>v. v \<le> x) (line_starts t)) (line_starts t) = line_starts (take x t)"
    and "drop (partition_point (\<lambda>v. v \<le> x) (line_starts t)) (line_starts t) = after_newlines x (drop x t)"
proof -
  have split: "line_starts t = line_starts (take x t) @ after_newlines x (drop x t)"
    using after_newlines_append [of 0 "take x t" "drop x t"] assms by (simp add: line_starts_def min_def)
  have low: "v \<le> x" if "v \<in> set (line_starts (take x t))" for v
    using line_starts_bounds [OF that] assms by simp
  have high: "takeWhile (\<lambda>v. v \<le> x) (after_newlines x (drop x t)) = []"
    using after_newlines_bounds [of _ x "drop x t"]
    by (cases "after_newlines x (drop x t)") (auto simp: not_le)
  have "partition_point (\<lambda>v. v \<le> x) (line_starts t) = length (line_starts (take x t))"
    unfolding partition_point_def split using low high by (simp add: takeWhile_append2)
  then show "take (partition_point (\<lambda>v. v \<le> x) (line_starts t)) (line_starts t) = line_starts (take x t)"
    "drop (partition_point (\<lambda>v. v \<le> x) (line_starts t)) (line_starts t) = after_newlines x (drop x t)"
    using split by simp_all
qed

lemma shift_suffix_exact:
  "int q = int p + shift \<Longrightarrow> width_holds w (q + length t) \<Longrightarrow> q + length t \<le> usize_max \<Longrightarrow>
   shift_suffix w shift (after_newlines p t) = Some (after_newlines q t)"
proof (induction t arbitrary: p q)
  case (Cons b bs)
  have "width_holds w (q + 1)" "width_holds w (q + 1 + length bs)"
    using width_le [OF Cons.prems(2)] Cons.prems(2) by auto
  moreover have "apply_line_shift (p + 1) shift = q + 1"
    using Cons.prems(1,3) by (intro shift_exact) auto
  moreover have "shift_suffix w shift (after_newlines (p + 1) bs) = Some (after_newlines (q + 1) bs)"
    using Cons.prems calculation(2) by (intro Cons.IH) auto
  ultimately show ?case by (simp add: stored_offset_def)
qed simp

lemma spliced_from_start:
  assumes "edits_sorted 0 (length t) (e # es)"
  shows "spliced 0 (e # es) t = take (edit_start e) t @ spliced (edit_start e) (e # es) (drop (edit_start e) t)"
    and "edits_sorted (edit_start e) (edit_start e + length (drop (edit_start e) t)) (e # es)"
    and "edit_start e \<le> length t"
proof -
  have "edit_start e \<le> edit_end e" "edit_end e \<le> length t"
    using assms edits_sorted_end [of "edit_end e" "length t" es] by auto
  then show "spliced 0 (e # es) t = take (edit_start e) t @ spliced (edit_start e) (e # es) (drop (edit_start e) t)"
    "edits_sorted (edit_start e) (edit_start e + length (drop (edit_start e) t)) (e # es)"
    "edit_start e \<le> length t"
    using assms by simp_all
qed

lemma update_exact:
  assumes sorted: "edits_sorted 0 (length t) es"
    and room: "width_holds w (length (spliced 0 es t))" "length (spliced 0 es t) \<le> usize_max"
  shows "update_line_starts_after_edits w (line_starts t) es = Some (line_starts (spliced 0 es t))"
proof (cases es)
  case (Cons e es')
  let ?s = "edit_start e" and ?E = "edits_end 0 es"
  let ?u = "take ?s t" and ?v = "drop ?s t"
  note start = spliced_from_start [OF sorted [unfolded Cons]]
  let ?h = "spliced_head ?s es ?v"
  have E: "?E = edit_end (last es)" "edits_end ?s es = ?E" using Cons edits_end_last by auto
  have sE: "?s \<le> ?E" "?E \<le> length t"
    using edits_sorted_end [OF start(2)] start(3) E Cons by auto
  have new: "spliced 0 es t = ?u @ ?h @ drop ?E t"
    using spliced_split [OF start(2)] start(1) Cons E sE by (simp del: spliced.simps spliced_head.simps)
  let ?first = "partition_point (\<lambda>v. v \<le> ?s) (line_starts t)"
  let ?stop = "partition_point (\<lambda>v. v \<le> edit_end (last es)) (line_starts t)"
  note first = partition_split [OF start(3)] and stop = partition_split [OF sE(2)]
  have lens: "length (line_starts ?u) = ?first" "?stop = length (line_starts (take ?E t))"
    "?first \<le> ?stop"
  proof -
    show 1: "length (line_starts ?u) = ?first" "?stop = length (line_starts (take ?E t))"
      using arg_cong [OF first(1), of length] arg_cong [OF stop(1), of length] E(1)
      by (simp_all add: partition_point_def length_takeWhile_le)
    have "take ?E t = ?u @ take (?E - ?s) ?v" using sE by (metis le_add_diff_inverse take_add)
    then have "line_starts (take ?E t) = line_starts ?u @ after_newlines (length ?u) (take (?E - ?s) ?v)"
      by (simp add: line_starts_def del: length_take)
    then show "?first \<le> ?stop" using 1 by simp
  qed
  have old: "drop ?first (take ?stop (line_starts t)) = filter (\<lambda>v. v \<le> ?E) (after_newlines ?s ?v)"
  proof -
    have "take ?E t = ?u @ take (?E - ?s) ?v" using sE by (metis le_add_diff_inverse take_add)
    then have head: "line_starts (take ?E t) = line_starts ?u @ after_newlines ?s (take (?E - ?s) ?v)"
      using start(3) by (simp add: line_starts_def min_def)
    have "after_newlines ?s ?v = after_newlines ?s (take (?E - ?s) ?v) @ after_newlines ?E (drop ?E t)"
    proof -
      have "after_newlines ?s ?v = after_newlines ?s (take (?E - ?s) ?v @ drop (?E - ?s) ?v)"
        by (simp only: append_take_drop_id)
      also have "\<dots> = after_newlines ?s (take (?E - ?s) ?v) @ after_newlines ?E (drop ?E t)"
        unfolding after_newlines_append using sE by (simp add: min_def)
      finally show ?thesis .
    qed
    moreover have "filter (\<lambda>v. v \<le> ?E) (after_newlines ?s (take (?E - ?s) ?v)) = after_newlines ?s (take (?E - ?s) ?v)"
      using sE by (auto simp: filter_id_conv dest!: after_newlines_bounds)
    moreover have "filter (\<lambda>v. v \<le> ?E) (after_newlines ?E (drop ?E t)) = []"
      by (auto simp: filter_empty_conv dest: after_newlines_bounds)
    ultimately show ?thesis using stop(1) E(1) head lens(1) by simp
  qed
  have room': "width_holds w (?s + length (spliced ?s es ?v))" "?s + length (spliced ?s es ?v) \<le> usize_max"
    using room start(1,3) Cons by (simp_all add: min.absorb2 del: spliced.simps)
  obtain shift where loop: "update_loop w es (filter (\<lambda>v. v \<le> ?E) (after_newlines ?s ?v)) 0 [] =
      Some (after_newlines ?s ?h, shift)" "int (?s + length ?h) = int ?E + shift"
    using update_loop_exact [of ?s ?v es _ ?s 0 "[]" w, OF _ refl] start(2) Cons E(2) room' by auto
  have whole: "line_starts (spliced 0 es t) = line_starts ?u @ after_newlines ?s ?h @ after_newlines (?s + length ?h) (drop ?E t)"
    unfolding new using start(3) by (simp add: line_starts_def min_def)
  have suffix: "shift_suffix w shift (after_newlines ?E (drop ?E t)) = Some (after_newlines (?s + length ?h) (drop ?E t))"
    using loop(2) room start(3) unfolding new by (intro shift_suffix_exact) (simp_all add: min.absorb2 add.assoc)
  have same: "after_newlines (?s + length ?h) (drop ?E t) = after_newlines ?E (drop ?E t)" if "shift = 0"
  proof -
    have "?s + length ?h = ?E" using loop(2) that by linarith
    then show ?thesis by (simp only:)
  qed
  show ?thesis
    using loop(1) old lens(3) first(1) stop(2) suffix same whole Cons E(1)
    by (cases "shift = 0") (simp_all add: update_line_starts_after_edits_def del: update_loop.simps spliced.simps spliced_head.simps)
qed (simp add: update_line_starts_after_edits_def)

lemma index_update_ok:
  assumes "index_ok t ix" "edits_sorted 0 (length t) es" "length (spliced 0 es t) \<le> usize_max"
  shows "\<exists>ix'. index_update es (length (spliced 0 es t)) ix = Some ix' \<and> index_ok (spliced 0 es t) ix'"
proof -
  let ?t = "spliced 0 es t"
  have starts: "index_starts ix = line_starts t" using assms(1) by (simp add: index_ok_def)
  have wide: "update_line_starts_after_edits Wsize (line_starts t) es = Some (line_starts ?t)"
    using update_exact [OF assms(2) _ assms(3), of Wsize] by (simp add: width_holds_def)
  show ?thesis
  proof (cases ix)
    case (Compact ss)
    then have ss: "map unat ss = line_starts t" using starts by (simp add: index_starts_def)
    show ?thesis
    proof (cases "2 ^ 32 \<le> length ?t")
      case True
      then show ?thesis using Compact ss wide by (simp add: index_update_def index_ok_def index_starts_def)
    next
      case False
      then have "update_line_starts_after_edits W32 (line_starts t) es = Some (line_starts ?t)"
        using update_exact [OF assms(2) _ assms(3), of W32] by (simp add: width_holds_def)
      moreover have "map (\<lambda>v. unat (of_nat v :: u32)) (line_starts ?t) = line_starts ?t"
        using False by (intro map_unat_of_nat) (auto dest: line_starts_bounds)
      ultimately show ?thesis
        using Compact ss False by (simp add: index_update_def index_ok_def index_starts_def comp_def)
    qed
  next
    case (Wide ss)
    then show ?thesis using starts wide by (simp add: index_update_def index_ok_def index_starts_def)
  qed
qed

text \<open>
  Property C32: the incremental line index is exact: for every text, every index of it in either
  storage width and every sorted batch of edits whose new text a \<open>usize\<close> can measure,
  \<open>LineIndex::update\<close> does not panic, and answers every lookup (\<open>len\<close>, \<open>get\<close>,
  \<open>line_for_offset\<close>) as the line starts of the new text do, computed from scratch.
\<close>

theorem line_index_incremental:
  assumes "index_ok t ix" "edits_sorted 0 (length t) es"
    and "t' = spliced 0 es t" "length t' \<le> usize_max"
  shows "\<exists>ix'. index_update es (length t') ix = Some ix' \<and>
    index_len ix' = length (line_starts t') \<and>
    (\<forall>line. index_get ix' line = (if line < length (line_starts t') then Some (line_starts t' ! line) else None)) \<and>
    (\<forall>off. line_for_offset ix' off = partition_point (\<lambda>s. s \<le> off) (line_starts t') - 1)"
proof -
  obtain ix' where "index_update es (length t') ix = Some ix'" and ok: "index_ok t' ix'"
    using index_update_ok [OF assms(1,2)] assms(3,4) by blast
  then show ?thesis using index_ok_get [OF ok] by blast
qed

theorem line_index_incremental_witness:
  "let t = [97, 10, 98, 10, 99] :: bytes;
       es = [edit_new (range_new 0 2) [120, 10], edit_new (range_new 2 4) [],
             edit_new (range_new 4 5) [122, 10]];
       ix = Compact [0, 2, 4]
   in \<exists>ix'. index_update es 4 ix = Some ix' \<and> index_len ix' = 3 \<and>
        index_get ix' 1 = Some 2 \<and> index_get ix' 2 = Some 4 \<and> line_for_offset ix' 3 = 1"
proof -
  let ?t = "[97, 10, 98, 10, 99] :: bytes"
  let ?es = "[edit_new (range_new 0 2) [120, 10], edit_new (range_new 2 4) [],
             edit_new (range_new 4 5) [122, 10]]"
  have 1: "index_ok ?t (Compact [0, 2, 4])" by (simp add: index_ok_def index_starts_def line_starts_def)
  have 2: "edits_sorted 0 (length ?t) ?es" by (simp add: edit_new_def range_new_def)
  have new: "spliced 0 ?es ?t = [120, 10, 122, 10]" by (simp add: edit_new_def range_new_def)
  have 3: "length ([120, 10, 122, 10] :: bytes) \<le> usize_max" by (simp add: usize_max_def)
  have len: "length ([120, 10, 122, 10] :: bytes) = 4" by simp
  obtain ix' where ix': "index_update ?es 4 (Compact [0, 2, 4]) = Some ix'"
    "index_len ix' = length (line_starts [120, 10, 122, 10])"
    "\<And>line. index_get ix' line = (if line < length (line_starts [120, 10, 122, 10])
       then Some (line_starts [120, 10, 122, 10] ! line) else None)"
    "\<And>off. line_for_offset ix' off = partition_point (\<lambda>s. s \<le> off) (line_starts [120, 10, 122, 10]) - 1"
    using line_index_incremental [OF 1 2 new [symmetric] 3] unfolding len by blast
  then show ?thesis
    by (simp add: Let_def line_starts_def partition_point_def)
qed

end
