(* ===== verification/Editor_Buffer.thy ===== *)
theory Editor_Buffer
  imports Editor_Lines
begin

text \<open>
  The text buffer of the editor (\<open>crates/oxideterm-editor-core/src/buffer.rs\<close>, with \<open>cursor.rs\<close> and
  \<open>selection.rs\<close>): the piece table, a cache of the contiguous text, the line index, the revisions
  behind the dirty flag and the undo and redo stacks. A \<open>Vec\<close> used as a stack is a list with its top
  first. An operation returns \<open>None\<close> where the code would panic; \<open>shared\<close> tells whether the original
  text has other owners at the time of the compaction. Grapheme segmentation, a library, is an
  argument of the operations that use it.
\<close>

section \<open>State\<close>

datatype editor_error =
    OffsetOutOfBounds nat nat
  | InvalidUtf8Boundary nat
  | InvalidRange nat nat
  | InvalidLine nat nat
  | InvalidColumn nat nat nat
  | OverlappingEdits nat
  | EditDeltaOverflow

record history_entry =
  he_edits :: "text_edit list"
  he_before :: u64
  he_after :: u64

record buffer_change =
  bc_before_version :: u64
  bc_after_version :: u64
  bc_replacements :: "((nat \<times> nat) \<times> nat) list"

record text_buffer =
  tb_storage :: piece_table
  tb_cache :: "bytes option"
  tb_lines :: line_index
  tb_version :: u64
  tb_revision :: u64
  tb_saved :: u64
  tb_next :: u64
  tb_undo :: "history_entry list"
  tb_redo :: "history_entry list"
  tb_changes :: "buffer_change list option"

record line_col =
  lc_line :: nat
  lc_column :: nat

record selection =
  sel_anchor :: nat
  sel_head :: nat

definition saturating_inc :: "u64 \<Rightarrow> u64" where
  "saturating_inc w = (if w = - 1 then w else w + 1)"

definition buffer_new :: "bytes \<Rightarrow> text_buffer option" where
  "buffer_new t =
     map_option (\<lambda>ix.
       \<lparr>tb_storage = table_new t, tb_cache = Some t, tb_lines = ix, tb_version = 0, tb_revision = 0,
        tb_saved = 0, tb_next = 1, tb_undo = [], tb_redo = [], tb_changes = None\<rparr>)
     (index_new t)"

definition track_changes :: "bool \<Rightarrow> text_buffer \<Rightarrow> text_buffer" where
  "track_changes enabled B = B\<lparr>tb_changes := (if enabled then Some [] else None)\<rparr>"

definition take_changes :: "text_buffer \<Rightarrow> buffer_change list \<times> text_buffer" where
  "take_changes B =
     (case tb_changes B of None \<Rightarrow> ([], B) | Some cs \<Rightarrow> (cs, B\<lparr>tb_changes := Some []\<rparr>))"

text \<open>\<open>with_text\<close> fills the cache; \<open>with_temporary_text\<close> does not.\<close>

definition with_text :: "text_buffer \<Rightarrow> (bytes \<times> text_buffer) option" where
  "with_text B =
     (case tb_cache B of
        Some t \<Rightarrow> Some (t, B)
      | None \<Rightarrow> map_option (\<lambda>t. (t, B\<lparr>tb_cache := Some t\<rparr>)) (to_text (tb_storage B)))"

definition with_temporary_text :: "text_buffer \<Rightarrow> bytes option" where
  "with_temporary_text B = (case tb_cache B of Some t \<Rightarrow> Some t | None \<Rightarrow> to_text (tb_storage B))"

definition release_text_cache :: "bool \<Rightarrow> text_buffer \<Rightarrow> text_buffer" where
  "release_text_cache cache_shared B =
     (if tb_cache B \<noteq> None \<and> \<not> cache_shared then B\<lparr>tb_cache := None\<rparr> else B)"

definition is_dirty :: "text_buffer \<Rightarrow> bool" where
  "is_dirty B \<longleftrightarrow> tb_revision B \<noteq> tb_saved B"

definition mark_saved :: "text_buffer \<Rightarrow> text_buffer" where
  "mark_saved B = B\<lparr>tb_saved := tb_revision B\<rparr>"

section \<open>Reading\<close>

definition validate_offset_for_storage :: "piece_table \<Rightarrow> nat \<Rightarrow> editor_error + unit" where
  "validate_offset_for_storage T off =
     (if pt_len T < off then Inl (OffsetOutOfBounds off (pt_len T))
      else if \<not> table_char_boundary T off then Inl (InvalidUtf8Boundary off)
      else Inr ())"

definition validate_offset :: "text_buffer \<Rightarrow> nat \<Rightarrow> editor_error + unit" where
  "validate_offset B off =
     (if pt_len (tb_storage B) < off then Inl (OffsetOutOfBounds off (pt_len (tb_storage B)))
      else if \<not> table_char_boundary (tb_storage B) off then Inl (InvalidUtf8Boundary off)
      else Inr ())"

definition validate_range :: "text_buffer \<Rightarrow> text_range \<Rightarrow> editor_error + unit" where
  "validate_range B r =
     rbind (validate_offset B (tr_start r)) (\<lambda>_.
     rbind (validate_offset B (tr_end r)) (\<lambda>_.
       if tr_end r < tr_start r then Inl (InvalidRange (tr_start r) (tr_end r)) else Inr ()))"

definition buffer_slice :: "text_buffer \<Rightarrow> text_range \<Rightarrow> (editor_error + bytes) option" where
  "buffer_slice B r =
     (case validate_range B r of
        Inl e \<Rightarrow> Some (Inl e)
      | Inr _ \<Rightarrow> map_option Inr (slice_to_string (tb_storage B) (tr_start r) (tr_end r)))"

definition line_count :: "text_buffer \<Rightarrow> nat" where
  "line_count B = index_len (tb_lines B)"

definition line_start_offset :: "text_buffer \<Rightarrow> nat \<Rightarrow> nat option" where
  "line_start_offset B line = index_get (tb_lines B) line"

definition line_end_offset :: "text_buffer \<Rightarrow> nat \<Rightarrow> nat option" where
  "line_end_offset B line =
     (case index_get (tb_lines B) line of
        None \<Rightarrow> None
      | Some start \<Rightarrow>
          (let stop = (case index_get (tb_lines B) (line + 1) of
                         Some next_start \<Rightarrow> next_start - 1
                       | None \<Rightarrow> pt_len (tb_storage B)) in
           Some (max stop start)))"

text \<open>Of a line: \<open>Some None\<close> when there is no such line, \<open>None\<close> for a panic.\<close>

definition line_text :: "text_buffer \<Rightarrow> nat \<Rightarrow> bytes option option" where
  "line_text B line =
     (case (index_get (tb_lines B) line, line_end_offset B line) of
        (Some start, Some stop) \<Rightarrow> map_option Some (slice_to_string (tb_storage B) start stop)
      | _ \<Rightarrow> Some None)"

definition with_line_text :: "text_buffer \<Rightarrow> nat \<Rightarrow> (bytes option \<times> text_buffer) option" where
  "with_line_text B line =
     (case (index_get (tb_lines B) line, line_end_offset B line) of
        (Some start, Some stop) \<Rightarrow>
          (if start = 0 \<and> stop = pt_len (tb_storage B)
           then map_option (\<lambda>(t, B). (Some t, B)) (with_text B)
           else case tb_cache B of
                  Some t \<Rightarrow> Some (str_slice t start stop, B)
                | None \<Rightarrow> map_option (\<lambda>t. (Some t, B)) (slice_to_string (tb_storage B) start stop))
      | _ \<Rightarrow> Some (None, B))"

definition offset_to_line_col :: "text_buffer \<Rightarrow> nat \<Rightarrow> (editor_error + line_col) option" where
  "offset_to_line_col B off =
     (case validate_offset B off of
        Inl e \<Rightarrow> Some (Inl e)
      | Inr _ \<Rightarrow>
          (let line = line_for_offset (tb_lines B) off in
           (case index_get (tb_lines B) line of
              None \<Rightarrow> None
            | Some start \<Rightarrow>
                (if start \<le> off then Some (Inr \<lparr>lc_line = line, lc_column = off - start\<rparr>) else None))))"

definition line_col_to_offset :: "text_buffer \<Rightarrow> line_col \<Rightarrow> editor_error + nat" where
  "line_col_to_offset B position =
     (let missing = InvalidLine (lc_line position) (line_count B) in
      rbind (ok_or missing (index_get (tb_lines B) (lc_line position))) (\<lambda>start.
      rbind (ok_or missing (line_end_offset B (lc_line position))) (\<lambda>line_end.
        (let off = start + lc_column position in
         if line_end < off
         then Inl (InvalidColumn (lc_line position) (lc_column position) (line_end - start))
         else rbind (validate_offset B off) (\<lambda>_. Inr off)))))"

text \<open>\<open>char_counts\<close>: a character is counted at its first byte.\<close>

definition chars_count :: "bytes \<Rightarrow> nat" where
  "chars_count t = length (filter (\<lambda>b. \<not> is_continuation b) t)"

definition line_char_counts :: "text_buffer \<Rightarrow> (nat list \<times> text_buffer) option" where
  "line_char_counts B =
     map_option (\<lambda>(t, B).
       (map (\<lambda>line.
           (let start = the (index_get (tb_lines B) line);
                stop = max (case index_get (tb_lines B) (line + 1) of
                              Some next_start \<Rightarrow> next_start - 1 | None \<Rightarrow> length t) start in
            (case str_slice t start stop of None \<Rightarrow> 0 | Some s \<Rightarrow> chars_count s)))
         [0..<index_len (tb_lines B)], B))
     (with_text B)"

text \<open>The lengths of the first and of the last grapheme of a string are arguments.\<close>

definition next_grapheme_offset :: "(bytes \<Rightarrow> nat option) \<Rightarrow> text_buffer \<Rightarrow> nat \<Rightarrow> nat option" where
  "next_grapheme_offset first_len B off =
     (if \<not> is_ok (validate_offset B off) \<or> pt_len (tb_storage B) \<le> off then Some (pt_len (tb_storage B))
      else
        (let line = line_for_offset (tb_lines B) off;
             stop = (case index_get (tb_lines B) (line + 1) of
                       Some n \<Rightarrow> n | None \<Rightarrow> pt_len (tb_storage B)) in
         map_option (\<lambda>s. off + (case first_len s of Some n \<Rightarrow> n | None \<Rightarrow> 0))
           (slice_to_string (tb_storage B) off stop)))"

definition previous_grapheme_offset :: "(bytes \<Rightarrow> nat option) \<Rightarrow> text_buffer \<Rightarrow> nat \<Rightarrow> nat option" where
  "previous_grapheme_offset last_len B off =
     (if \<not> is_ok (validate_offset B off) \<or> off = 0 then Some 0
      else
        (let line = line_for_offset (tb_lines B) (off - 1) in
         (case index_get (tb_lines B) line of
            None \<Rightarrow> None
          | Some start \<Rightarrow>
              map_option (\<lambda>s. off - (case last_len s of Some n \<Rightarrow> n | None \<Rightarrow> 0))
                (slice_to_string (tb_storage B) start off))))"

section \<open>Editing\<close>

text \<open>\<open>sort_by\<close> is stable; it is written as an insertion sort.\<close>

definition edit_le :: "text_edit \<Rightarrow> text_edit \<Rightarrow> bool" where
  "edit_le a b \<longleftrightarrow> edit_start a < edit_start b \<or> edit_start a = edit_start b \<and> edit_end a \<le> edit_end b"

fun insert_edit :: "text_edit \<Rightarrow> text_edit list \<Rightarrow> text_edit list" where
  "insert_edit a [] = [a]"
| "insert_edit a (b # bs) = (if edit_le a b then a # b # bs else b # insert_edit a bs)"

definition sort_edits :: "text_edit list \<Rightarrow> text_edit list" where
  "sort_edits es = foldr insert_edit es []"

fun validate_edits :: "piece_table \<Rightarrow> nat \<Rightarrow> text_edit list \<Rightarrow> editor_error + unit" where
  "validate_edits T previous_end [] = Inr ()"
| "validate_edits T previous_end (e # es) =
     rbind (validate_offset_for_storage T (edit_start e)) (\<lambda>_.
     rbind (validate_offset_for_storage T (edit_end e)) (\<lambda>_.
       if edit_end e < edit_start e then Inl (InvalidRange (edit_start e) (edit_end e))
       else if edit_start e < previous_end then Inl (OverlappingEdits (edit_start e))
       else validate_edits T (edit_end e) es))"

definition normalize_edits_for_storage ::
    "text_edit list \<Rightarrow> piece_table \<Rightarrow> editor_error + text_edit list" where
  "normalize_edits_for_storage edits T =
     (let edits = sort_edits edits in rbind (validate_edits T 0 edits) (\<lambda>_. Inr edits))"

definition apply_delta :: "nat \<Rightarrow> int \<Rightarrow> editor_error + nat" where
  "apply_delta off delta =
     (if delta < 0 then
        (if nat (- delta) \<le> off then Inr (off - nat (- delta)) else Inl EditDeltaOverflow)
      else if delta = 0 then Inr off
      else ok_or EditDeltaOverflow (usize_checked_add off (nat delta)))"

fun inverse_loop ::
    "piece_table \<Rightarrow> text_edit list \<Rightarrow> int \<Rightarrow> text_edit list \<Rightarrow>
     (editor_error + (text_edit list \<times> int)) option" where
  "inverse_loop T [] delta inverted = Some (Inr (inverted, delta))"
| "inverse_loop T (e # es) delta inverted =
     (case slice_to_string T (edit_start e) (edit_end e) of
        None \<Rightarrow> None
      | Some original \<Rightarrow>
          (case apply_delta (edit_start e) delta of
             Inl err \<Rightarrow> Some (Inl err)
           | Inr start_after \<Rightarrow>
               (let end_after = start_after + length (te_replacement e) in
                inverse_loop T es
                  (delta + (int (length (te_replacement e)) - int (range_len (te_range e))))
                  (inverted @ [edit_new (range_new start_after end_after) original]))))"

definition replace_all_edits :: "text_edit list \<Rightarrow> piece_table \<Rightarrow> piece_table" where
  "replace_all_edits edits T =
     foldl (\<lambda>T e. table_replace (edit_start e) (edit_end e) (te_replacement e) T) T (rev edits)"

definition record_change :: "text_edit list \<Rightarrow> text_buffer \<Rightarrow> text_buffer" where
  "record_change edits B =
     B\<lparr>tb_changes := map_option (\<lambda>cs. cs @
        [\<lparr>bc_before_version = tb_version B, bc_after_version = saturating_inc (tb_version B),
          bc_replacements =
            map (\<lambda>e. ((edit_start e, edit_end e), length (te_replacement e))) edits\<rparr>]) (tb_changes B)\<rparr>"

definition apply_edits_internal ::
    "bool \<Rightarrow> text_edit list \<Rightarrow> text_buffer \<Rightarrow> (text_buffer \<times> (editor_error + text_edit list)) option" where
  "apply_edits_internal shared edits B =
     (case normalize_edits_for_storage edits (tb_storage B) of
        Inl err \<Rightarrow> Some (B, Inl err)
      | Inr edits \<Rightarrow>
          (let B = record_change edits B in
           (case inverse_loop (tb_storage B) edits 0 [] of
              None \<Rightarrow> None
            | Some (Inl err) \<Rightarrow> Some (B, Inl err)
            | Some (Inr (inverted, delta)) \<Rightarrow>
                (case apply_delta (pt_len (tb_storage B)) delta of
                   Inl err \<Rightarrow> Some (B, Inl err)
                 | Inr new_len \<Rightarrow>
                     (case index_update edits new_len (tb_lines B) of
                        None \<Rightarrow> None
                      | Some ix \<Rightarrow>
                          (case reclaim_unused_text shared (replace_all_edits edits (tb_storage B)) of
                             None \<Rightarrow> None
                           | Some T \<Rightarrow>
                               Some (B\<lparr>tb_storage := T, tb_cache := None, tb_lines := ix,
                                       tb_version := saturating_inc (tb_version B)\<rparr>,
                                     Inr inverted)))))))"

definition allocate_content_revision :: "text_buffer \<Rightarrow> u64 \<times> text_buffer" where
  "allocate_content_revision B = (tb_next B, B\<lparr>tb_next := saturating_inc (tb_next B)\<rparr>)"

definition apply_transaction ::
    "bool \<Rightarrow> text_edit list \<Rightarrow> text_buffer \<Rightarrow> (text_buffer \<times> (editor_error + unit)) option" where
  "apply_transaction shared edits B =
     (if edits = [] then Some (B, Inr ())
      else
        (let before = tb_revision B; (after, B) = allocate_content_revision B in
         (case apply_edits_internal shared edits B of
            None \<Rightarrow> None
          | Some (B, Inl err) \<Rightarrow> Some (B, Inl err)
          | Some (B, Inr inverted) \<Rightarrow>
              Some (B\<lparr>tb_revision := after,
                      tb_undo := \<lparr>he_edits = inverted, he_before = before, he_after = after\<rparr> # tb_undo B,
                      tb_redo := []\<rparr>, Inr ()))))"

definition buffer_undo :: "bool \<Rightarrow> text_buffer \<Rightarrow> (text_buffer \<times> (editor_error + bool)) option" where
  "buffer_undo shared B =
     (case tb_undo B of
        [] \<Rightarrow> Some (B, Inr False)
      | h # hs \<Rightarrow>
          (case apply_edits_internal shared (he_edits h) (B\<lparr>tb_undo := hs\<rparr>) of
             None \<Rightarrow> None
           | Some (B, Inl err) \<Rightarrow> Some (B, Inl err)
           | Some (B, Inr redo) \<Rightarrow>
               Some (B\<lparr>tb_revision := he_before h,
                       tb_redo := \<lparr>he_edits = redo, he_before = he_before h, he_after = he_after h\<rparr> # tb_redo B\<rparr>,
                     Inr True)))"

definition buffer_redo :: "bool \<Rightarrow> text_buffer \<Rightarrow> (text_buffer \<times> (editor_error + bool)) option" where
  "buffer_redo shared B =
     (case tb_redo B of
        [] \<Rightarrow> Some (B, Inr False)
      | h # hs \<Rightarrow>
          (case apply_edits_internal shared (he_edits h) (B\<lparr>tb_redo := hs\<rparr>) of
             None \<Rightarrow> None
           | Some (B, Inl err) \<Rightarrow> Some (B, Inl err)
           | Some (B, Inr undo) \<Rightarrow>
               Some (B\<lparr>tb_revision := he_after h,
                       tb_undo := \<lparr>he_edits = undo, he_before = he_before h, he_after = he_after h\<rparr> # tb_undo B\<rparr>,
                     Inr True)))"

section \<open>Selections and the cursor\<close>

definition sel_caret :: "nat \<Rightarrow> selection" where
  "sel_caret off = \<lparr>sel_anchor = off, sel_head = off\<rparr>"

definition sel_new :: "nat \<Rightarrow> nat \<Rightarrow> selection" where
  "sel_new anchor head = \<lparr>sel_anchor = anchor, sel_head = head\<rparr>"

definition sel_is_caret :: "selection \<Rightarrow> bool" where
  "sel_is_caret s \<longleftrightarrow> sel_anchor s = sel_head s"

definition sel_range :: "selection \<Rightarrow> text_range" where
  "sel_range s = range_new (sel_anchor s) (sel_head s)"

definition replace_selection ::
    "bool \<Rightarrow> selection \<Rightarrow> bytes \<Rightarrow> text_buffer \<Rightarrow> (text_buffer \<times> (editor_error + selection)) option" where
  "replace_selection shared s replacement B =
     (let range = sel_range s; caret = tr_start range + length replacement in
      (case apply_transaction shared [edit_new range replacement] B of
         None \<Rightarrow> None
       | Some (B, Inl err) \<Rightarrow> Some (B, Inl err)
       | Some (B, Inr _) \<Rightarrow> Some (B, Inr (sel_caret caret))))"

record cursor =
  cur_selection :: selection
  cur_preferred :: "nat option"

definition cursor_new :: "nat \<Rightarrow> cursor" where
  "cursor_new off = \<lparr>cur_selection = sel_caret off, cur_preferred = None\<rparr>"

definition set_head :: "nat \<Rightarrow> bool \<Rightarrow> cursor \<Rightarrow> cursor" where
  "set_head head extending c =
     c\<lparr>cur_selection := (if extending then sel_new (sel_anchor (cur_selection c)) head else sel_caret head),
       cur_preferred := None\<rparr>"

definition move_left :: "(bytes \<Rightarrow> nat option) \<Rightarrow> text_buffer \<Rightarrow> bool \<Rightarrow> cursor \<Rightarrow> cursor option" where
  "move_left last_len B extending c =
     map_option (\<lambda>next_head. set_head next_head extending c)
       (if \<not> extending \<and> \<not> sel_is_caret (cur_selection c) then Some (tr_start (sel_range (cur_selection c)))
        else previous_grapheme_offset last_len B (sel_head (cur_selection c)))"

definition move_right :: "(bytes \<Rightarrow> nat option) \<Rightarrow> text_buffer \<Rightarrow> bool \<Rightarrow> cursor \<Rightarrow> cursor option" where
  "move_right first_len B extending c =
     map_option (\<lambda>next_head. set_head next_head extending c)
       (if \<not> extending \<and> \<not> sel_is_caret (cur_selection c) then Some (tr_end (sel_range (cur_selection c)))
        else next_grapheme_offset first_len B (sel_head (cur_selection c)))"

definition preferred_column_or :: "nat \<Rightarrow> cursor \<Rightarrow> nat \<times> cursor" where
  "preferred_column_or current c =
     (case cur_preferred c of
        Some n \<Rightarrow> (n, c)
      | None \<Rightarrow> (current, c\<lparr>cur_preferred := Some current\<rparr>))"

definition move_to_with_preferred_column :: "nat \<Rightarrow> bool \<Rightarrow> nat \<Rightarrow> cursor \<Rightarrow> cursor" where
  "move_to_with_preferred_column off extending preferred c =
     c\<lparr>cur_selection := (if extending then sel_new (sel_anchor (cur_selection c)) off else sel_caret off),
       cur_preferred := Some preferred\<rparr>"

section \<open>Well-formed buffers\<close>

text \<open>The buffer holds the text \<open>t\<close>: the storage, the cache and the line index agree on it.\<close>

definition buffer_ok :: "text_buffer \<Rightarrow> bytes \<Rightarrow> bool" where
  "buffer_ok B t \<longleftrightarrow>
     table_ok (tb_storage B) \<and> table_text (tb_storage B) = t \<and> index_ok t (tb_lines B) \<and>
     (tb_cache B = None \<or> tb_cache B = Some t) \<and> length t \<le> usize_max"

text \<open>Edits that the validation accepts, on the text.\<close>

definition edits_valid :: "bytes \<Rightarrow> text_edit list \<Rightarrow> bool" where
  "edits_valid t es \<longleftrightarrow>
     edits_sorted 0 (length t) es \<and>
     (\<forall>e \<in> set es. char_boundary t (edit_start e) \<and> char_boundary t (edit_end e))"

definition replacements_wf :: "text_edit list \<Rightarrow> bool" where
  "replacements_wf es \<longleftrightarrow> list_all (\<lambda>e. str_wf (te_replacement e)) es"

lemma buffer_new_ok:
  "str_wf t \<Longrightarrow> length t \<le> usize_max \<Longrightarrow> \<exists>B. buffer_new t = Some B \<and> buffer_ok B t"
proof -
  assume "str_wf t" "length t \<le> usize_max"
  moreover obtain ix where "index_new t = Some ix" "index_ok t ix" using index_new_ok by blast
  ultimately show ?thesis using table_new_ok [of t] by (simp add: buffer_new_def buffer_ok_def)
qed

lemma with_text_ok:
  "buffer_ok B t \<Longrightarrow> \<exists>B'. with_text B = Some (t, B') \<and> buffer_ok B' t \<and> B' = B\<lparr>tb_cache := Some t\<rparr>"
  by (cases "tb_cache B") (auto simp: buffer_ok_def with_text_def to_text_ok)

lemma table_ok_len: "table_ok T \<Longrightarrow> pt_len T = length (table_text T)"
  by (simp add: table_ok_def)

lemma validate_offset_iff:
  "table_ok T \<Longrightarrow> validate_offset_for_storage T off = Inr () \<longleftrightarrow>
     off \<le> length (table_text T) \<and> char_boundary (table_text T) off"
  using table_char_boundary_text [of T off] table_ok_len [of T]
  by (auto simp: validate_offset_for_storage_def)

subsection \<open>Validation\<close>

lemma set_insert_edit [simp]: "set (insert_edit a bs) = insert a (set bs)"
  by (induction bs) auto

lemma set_sort_edits [simp]: "set (sort_edits es) = set es"
  by (induction es) (auto simp: sort_edits_def)

lemma sort_edits_replacements: "replacements_wf (sort_edits es) = replacements_wf es"
  by (simp add: replacements_wf_def list_all_iff)

lemma edits_sorted_le:
  "edits_sorted pos len es \<Longrightarrow> e \<in> set es \<Longrightarrow> pos \<le> edit_start e \<and> edit_start e \<le> edit_end e \<and> edit_end e \<le> len"
proof (induction es arbitrary: pos)
  case (Cons a es)
  have "edit_end a \<le> len" using Cons.prems edits_sorted_end [of "edit_end a" len es] by auto
  then show ?case using Cons.IH [of "edit_end a"] Cons.prems by fastforce
qed simp

lemma sort_edits_sorted: "edits_sorted pos len es \<Longrightarrow> sort_edits es = es"
proof (induction es arbitrary: pos)
  case (Cons e es)
  then have "sort_edits es = es" by auto
  then have "sort_edits (e # es) = insert_edit e es" by (simp add: sort_edits_def)
  moreover have "insert_edit e es = e # es"
  proof (cases es)
    case (Cons a as)
    then show ?thesis using Cons.prems by (auto simp: edit_le_def)
  qed simp
  ultimately show ?case by simp
qed (simp add: sort_edits_def)

lemma validate_edits_iff:
  assumes "table_ok T" "pos \<le> length (table_text T)"
  shows "validate_edits T pos es = Inr () \<longleftrightarrow>
    edits_sorted pos (length (table_text T)) es \<and>
    (\<forall>e \<in> set es. char_boundary (table_text T) (edit_start e) \<and> char_boundary (table_text T) (edit_end e))"
  using assms(2)
proof (induction es arbitrary: pos)
  case (Cons e es)
  have "edits_sorted (edit_end e) (length (table_text T)) es \<Longrightarrow> edit_end e \<le> length (table_text T)"
    using edits_sorted_end [of "edit_end e" "length (table_text T)" es] by simp
  then show ?case
    using Cons.IH [of "edit_end e"] validate_offset_iff [OF assms(1)] by auto
qed simp

lemma normalize_iff:
  assumes "table_ok T"
  shows "normalize_edits_for_storage es T = Inr es' \<longleftrightarrow>
    es' = sort_edits es \<and> edits_valid (table_text T) (sort_edits es)"
  using validate_edits_iff [OF assms, of 0 "sort_edits es"]
  by (auto simp: normalize_edits_for_storage_def Let_def edits_valid_def)

subsection \<open>The inverse edits\<close>

text \<open>\<open>pos\<close> and \<open>q\<close> are the old and new positions of the rest of the text.\<close>

fun inverse_edits :: "nat \<Rightarrow> nat \<Rightarrow> text_edit list \<Rightarrow> bytes \<Rightarrow> text_edit list" where
  "inverse_edits pos q [] t = []"
| "inverse_edits pos q (e # es) t =
     (let s = q + (edit_start e - pos); x = s + length (te_replacement e) in
      edit_new \<lparr>tr_start = s, tr_end = x\<rparr> (take (edit_end e - edit_start e) (drop (edit_start e - pos) t)) #
      inverse_edits (edit_end e) x es (drop (edit_end e - pos) t))"

lemma apply_delta_exact:
  "int q = int p + delta \<Longrightarrow> apply_delta p delta = (if delta \<le> 0 \<or> q \<le> usize_max then Inr q else Inl EditDeltaOverflow)"
  by (auto simp: apply_delta_def usize_checked_add_def)

lemma slice_between:
  assumes "table_ok T" "table_text T = p @ t" "char_boundary (table_text T) s" "char_boundary (table_text T) e"
    and "length p \<le> s" "s \<le> e" "e \<le> length p + length t"
  shows "slice_to_string T s e = Some (take (e - s) (drop (s - length p) t))"
  using slice_to_string_text [OF assms(1,6) _ assms(3,4)] assms by simp

lemma inverse_loop_exact:
  "table_ok T \<Longrightarrow> table_text T = p @ t \<Longrightarrow> pos = length p \<Longrightarrow> edits_sorted pos (pos + length t) es \<Longrightarrow>
   (\<forall>e \<in> set es. char_boundary (table_text T) (edit_start e) \<and> char_boundary (table_text T) (edit_end e)) \<Longrightarrow>
   int q = int pos + delta \<Longrightarrow> length (p @ t) \<le> usize_max \<Longrightarrow>
   inverse_loop T es delta acc = Some (Inl EditDeltaOverflow) \<and> usize_max < q + length (spliced pos es t) \<or>
   (\<exists>delta'. inverse_loop T es delta acc = Some (Inr (acc @ inverse_edits pos q es t, delta')) \<and>
      int (q + length (spliced pos es t)) = int (pos + length t) + delta')"
proof (induction es arbitrary: p pos t q delta acc)
  case (Cons e es)
  obtain u d v where cut: "t = u @ d @ v" "edit_start e = pos + length u" "edit_end e = pos + length u + length d"
    "edits_sorted (edit_end e) (edit_end e + length v) es"
    "take (edit_start e - pos) t = u" "drop (edit_end e - pos) t = v" "range_len (te_range e) = length d"
    using edit_cut [OF Cons.prems(4)] .
  let ?r = "te_replacement e" and ?s = "q + length u"
  have "edit_end e \<le> pos + length t" using cut by simp
  then have slice: "slice_to_string T (edit_start e) (edit_end e) = Some d"
    using slice_between [OF Cons.prems(1,2), of "edit_start e" "edit_end e"] Cons.prems(3,5) cut by simp
  have delta: "apply_delta (edit_start e) delta =
      (if delta \<le> 0 \<or> ?s \<le> usize_max then Inr ?s else Inl EditDeltaOverflow)"
    using Cons.prems(6) cut(2) by (intro apply_delta_exact) simp
  have new: "spliced pos (e # es) t = u @ ?r @ spliced (edit_end e) es v"
    "inverse_edits pos q (e # es) t =
      edit_new \<lparr>tr_start = ?s, tr_end = ?s + length ?r\<rparr> d # inverse_edits (edit_end e) (?s + length ?r) es v"
    using cut by (simp_all add: Let_def)
  show ?case
  proof (cases "delta \<le> 0 \<or> ?s \<le> usize_max")
    case False
    then show ?thesis unfolding new using slice delta by simp
  next
    case True
    let ?acc = "acc @ [edit_new \<lparr>tr_start = ?s, tr_end = ?s + length ?r\<rparr> d]"
    let ?delta = "delta + (int (length ?r) - int (range_len (te_range e)))"
    have step: "inverse_loop T (e # es) delta acc = inverse_loop T es ?delta ?acc"
      using slice delta True by (simp add: Let_def range_new_def)
    have "inverse_loop T es ?delta ?acc = Some (Inl EditDeltaOverflow) \<and>
          usize_max < ?s + length ?r + length (spliced (edit_end e) es v) \<or>
        (\<exists>delta'. inverse_loop T es ?delta ?acc =
            Some (Inr (?acc @ inverse_edits (edit_end e) (?s + length ?r) es v, delta')) \<and>
          int (?s + length ?r + length (spliced (edit_end e) es v)) = int (edit_end e + length v) + delta')"
      using Cons.prems cut by (intro Cons.IH [of "p @ u @ d"]) simp_all
    moreover have "length t = length u + length d + length v" using cut(1) by simp
    ultimately show ?thesis unfolding step new using cut(3) by (auto simp: add.assoc)
  qed
qed simp

subsection \<open>Replacing from the last edit to the first\<close>

lemma boundary_take: "char_boundary (p @ rest) x \<Longrightarrow> x \<le> length p \<Longrightarrow> str_wf rest' \<Longrightarrow> char_boundary (p @ rest') x"
  by (cases rest') (auto simp: char_boundary_def nth_append str_wf_def split: if_splits)

lemma str_wf_drop: "char_boundary t x \<Longrightarrow> str_wf t \<Longrightarrow> str_wf (drop x t)"
  by (cases "x < length t") (auto simp: char_boundary_def str_wf_def hd_drop_conv_nth hd_conv_nth)

lemma str_wf_append: "str_wf xs \<Longrightarrow> str_wf ys \<Longrightarrow> str_wf (xs @ ys)"
  by (cases xs) (auto simp: str_wf_def)

lemma str_wf_take: "str_wf t \<Longrightarrow> str_wf (take n t)"
  by (cases n; cases t) (auto simp: str_wf_def)

lemma boundary_after_cut:
  assumes "t = u @ d @ v" "x = pos + length u + length d" "x \<le> a" "char_boundary t (a - pos)"
  shows "char_boundary v (a - x)"
proof -
  have "a - pos = length (u @ d) + (a - x)" using assms(2,3) by simp
  then have "char_boundary ((u @ d) @ v) (length (u @ d) + (a - x))" using assms(1,4) by simp
  then show ?thesis by (rule boundary_append_right)
qed

text \<open>
  \<open>t\<close> is the text from the position on, \<open>p\<close> the text before it; every offset of an edit is a boundary.
\<close>

lemma spliced_wf:
  "str_wf t \<Longrightarrow> edits_sorted pos (pos + length t) es \<Longrightarrow>
   (\<forall>e \<in> set es. char_boundary t (edit_end e - pos)) \<Longrightarrow> replacements_wf es \<Longrightarrow> str_wf (spliced pos es t)"
proof (induction es arbitrary: pos t)
  case (Cons e es)
  obtain u d v where cut: "t = u @ d @ v" "edit_start e = pos + length u" "edit_end e = pos + length u + length d"
    "edits_sorted (edit_end e) (edit_end e + length v) es"
    "take (edit_start e - pos) t = u" "drop (edit_end e - pos) t = v" "range_len (te_range e) = length d"
    using edit_cut [OF Cons.prems(2)] .
  have "str_wf v" using str_wf_drop [OF _ Cons.prems(1), of "edit_end e - pos"] Cons.prems(3) cut(6) by simp
  moreover have "char_boundary v (edit_end a - edit_end e)" if "a \<in> set es" for a
  proof -
    have "edit_end e \<le> edit_end a" using edits_sorted_le [OF cut(4) that] by simp
    then show ?thesis using boundary_after_cut [OF cut(1,3)] Cons.prems(3) that by simp
  qed
  ultimately have "str_wf (spliced (edit_end e) es v)"
    using Cons.prems(4) by (intro Cons.IH cut(4)) (auto simp: replacements_wf_def)
  moreover have "str_wf u" using str_wf_take [OF Cons.prems(1), of "length u"] cut(1) by simp
  moreover have "str_wf (te_replacement e)" using Cons.prems(4) by (simp add: replacements_wf_def)
  ultimately show ?case using cut(5,6) by (simp add: str_wf_append)
qed simp

lemma table_text_wf: "table_ok T \<Longrightarrow> str_wf (table_text T)"
  unfolding table_ok_def table_text_def using str_wf_pieces by blast

lemma replace_all_edits_text:
  "table_ok T \<Longrightarrow> table_text T = p @ t \<Longrightarrow> pos = length p \<Longrightarrow> char_boundary (p @ t) pos \<Longrightarrow>
   edits_sorted pos (pos + length t) es \<Longrightarrow>
   (\<forall>e \<in> set es. char_boundary (p @ t) (edit_start e) \<and> char_boundary (p @ t) (edit_end e)) \<Longrightarrow>
   replacements_wf es \<Longrightarrow>
   table_ok (replace_all_edits es T) \<and> table_text (replace_all_edits es T) = p @ spliced pos es t"
proof (induction es arbitrary: p pos t)
  case Nil
  then show ?case by (simp add: replace_all_edits_def)
next
  case (Cons e es)
  obtain u d v where cut: "t = u @ d @ v" "edit_start e = pos + length u" "edit_end e = pos + length u + length d"
    "edits_sorted (edit_end e) (edit_end e + length v) es"
    "take (edit_start e - pos) t = u" "drop (edit_end e - pos) t = v" "range_len (te_range e) = length d"
    using edit_cut [OF Cons.prems(5)] .
  let ?T = "replace_all_edits es T" and ?s = "edit_start e" and ?x = "edit_end e"
  let ?w = "spliced ?x es v"
  have later: "table_ok ?T \<and> table_text ?T = (p @ u @ d) @ ?w"
    using Cons.prems cut by (intro Cons.IH) (simp_all add: replacements_wf_def)
  have "str_wf v"
    using str_wf_drop [of "p @ t" ?x] table_text_wf [OF Cons.prems(1)] Cons.prems(2,3,6) cut by simp
  moreover have "char_boundary v (edit_end a - ?x)" if "a \<in> set es" for a
  proof -
    have "?x \<le> edit_end a" using edits_sorted_le [OF cut(4) that] by simp
    then show ?thesis
      using boundary_after_cut [of "p @ t" "p @ u" d v ?x 0 "edit_end a"] cut(1,3) Cons.prems(3,6) that by simp
  qed
  ultimately have wf: "str_wf ?w"
    using Cons.prems(7) by (intro spliced_wf cut(4)) (auto simp: replacements_wf_def)
  have boundary: "char_boundary ((p @ u @ d) @ ?w) ?s" "char_boundary ((p @ u @ d) @ ?w) ?x"
    using boundary_take [of "p @ u @ d" v _ ?w] wf Cons.prems(3,6) cut(1-3) by simp_all
  have ends: "table_char_boundary ?T ?s" "table_char_boundary ?T ?x" "?s \<le> ?x" "str_wf (te_replacement e)"
    using table_char_boundary_text [of ?T] later boundary Cons.prems(3,7) cut(2,3)
    by (simp_all add: replacements_wf_def)
  have "replace_all_edits (e # es) T = table_replace ?s ?x (te_replacement e) ?T"
    by (simp add: replace_all_edits_def)
  moreover have "text_replace ?s ?x (te_replacement e) (table_text ?T) = p @ spliced pos (e # es) t"
    using later Cons.prems(3) cut(2,3,5,6) by (simp add: text_replace_def)
  ultimately show ?case
    using table_replace_text [OF conjunct1 [OF later] ends(3,4,1,2)] by simp
qed

subsection \<open>The inverse edits undo the edits\<close>

lemma inverse_edits_correct:
  "edits_sorted pos (pos + length t) es \<Longrightarrow>
   edits_sorted q (q + length (spliced pos es t)) (inverse_edits pos q es t) \<and>
   spliced q (inverse_edits pos q es t) (spliced pos es t) = t"
proof (induction es arbitrary: pos q t)
  case (Cons e es)
  obtain u d v where cut: "t = u @ d @ v" "edit_start e = pos + length u" "edit_end e = pos + length u + length d"
    "edits_sorted (edit_end e) (edit_end e + length v) es"
    "take (edit_start e - pos) t = u" "drop (edit_end e - pos) t = v" "range_len (te_range e) = length d"
    using edit_cut [OF Cons.prems] .
  let ?r = "te_replacement e" and ?s = "q + length u"
  have new: "spliced pos (e # es) t = u @ ?r @ spliced (edit_end e) es v"
    "inverse_edits pos q (e # es) t =
      edit_new \<lparr>tr_start = ?s, tr_end = ?s + length ?r\<rparr> d # inverse_edits (edit_end e) (?s + length ?r) es v"
    using cut by (simp_all add: Let_def)
  show ?case unfolding new using Cons.IH [OF cut(4), of "?s + length ?r"] cut(1)
    by (simp add: edit_new_def add.assoc)
qed simp

lemma inverse_edits_boundaries:
  "edits_sorted pos (pos + length t) es \<Longrightarrow> q = length p \<Longrightarrow> str_wf t \<Longrightarrow>
   (\<forall>e \<in> set es. char_boundary t (edit_start e - pos) \<and> char_boundary t (edit_end e - pos)) \<Longrightarrow>
   replacements_wf es \<Longrightarrow>
   replacements_wf (inverse_edits pos q es t) \<and>
   (\<forall>e \<in> set (inverse_edits pos q es t).
      char_boundary (p @ spliced pos es t) (edit_start e) \<and> char_boundary (p @ spliced pos es t) (edit_end e))"
proof (induction es arbitrary: pos q t p)
  case (Cons e es)
  obtain u d v where cut: "t = u @ d @ v" "edit_start e = pos + length u" "edit_end e = pos + length u + length d"
    "edits_sorted (edit_end e) (edit_end e + length v) es"
    "take (edit_start e - pos) t = u" "drop (edit_end e - pos) t = v" "range_len (te_range e) = length d"
    using edit_cut [OF Cons.prems(1)] .
  let ?r = "te_replacement e" and ?s = "q + length u" and ?w = "spliced (edit_end e) es v"
  have new: "spliced pos (e # es) t = u @ ?r @ ?w"
    "inverse_edits pos q (e # es) t =
      edit_new \<lparr>tr_start = ?s, tr_end = ?s + length ?r\<rparr> d # inverse_edits (edit_end e) (?s + length ?r) es v"
    using cut by (simp_all add: Let_def)
  have "str_wf (d @ v)" using str_wf_drop [OF _ Cons.prems(3), of "edit_start e - pos"] Cons.prems(4) cut by simp
  then have d: "str_wf d" using str_wf_take [of "d @ v" "length d"] by simp
  have v: "str_wf v" using str_wf_drop [OF _ Cons.prems(3), of "edit_end e - pos"] Cons.prems(4) cut(6) by simp
  have inner: "char_boundary v (edit_start a - edit_end e) \<and> char_boundary v (edit_end a - edit_end e)"
    if "a \<in> set es" for a
  proof -
    have "edit_end e \<le> edit_start a" "edit_start a \<le> edit_end a" using edits_sorted_le [OF cut(4) that] by simp_all
    then show ?thesis using boundary_after_cut [OF cut(1,3)] Cons.prems(4) that by simp
  qed
  have r: "str_wf ?r" "replacements_wf es" using Cons.prems(5) by (simp_all add: replacements_wf_def)
  have w: "str_wf ?w" using inner by (intro spliced_wf [OF v cut(4) _ r(2)]) simp
  have "replacements_wf (inverse_edits (edit_end e) (?s + length ?r) es v) \<and>
     (\<forall>a \<in> set (inverse_edits (edit_end e) (?s + length ?r) es v).
        char_boundary ((p @ u @ ?r) @ ?w) (edit_start a) \<and> char_boundary ((p @ u @ ?r) @ ?w) (edit_end a))"
    using inner v r Cons.prems(2) by (intro Cons.IH cut(4)) simp_all
  moreover have "char_boundary ((p @ u) @ ?r @ ?w) ?s" "char_boundary ((p @ u @ ?r) @ ?w) (?s + length ?r)"
    using boundary_append_wf [of "?r @ ?w" "p @ u" 0] boundary_append_wf [of ?w "p @ u @ ?r" 0]
      str_wf_append [OF r(1) w] w Cons.prems(2) by (simp_all add: char_boundary_def [of _ 0] add.assoc)
  ultimately show ?case unfolding new using d by (simp add: replacements_wf_def edit_new_def)
qed (simp add: replacements_wf_def)

lemma inverse_valid:
  assumes "edits_valid t es" "str_wf t" "replacements_wf es"
  shows "edits_valid (spliced 0 es t) (inverse_edits 0 0 es t)"
    and "replacements_wf (inverse_edits 0 0 es t)"
    and "spliced 0 (inverse_edits 0 0 es t) (spliced 0 es t) = t"
    and "sort_edits (inverse_edits 0 0 es t) = inverse_edits 0 0 es t"
proof -
  note correct = inverse_edits_correct [of 0 t es 0]
  note boundaries = inverse_edits_boundaries [of 0 t es 0 "[]"]
  show "edits_valid (spliced 0 es t) (inverse_edits 0 0 es t)"
    using assms correct boundaries by (simp add: edits_valid_def)
  show "replacements_wf (inverse_edits 0 0 es t)"
    using assms boundaries by (simp add: edits_valid_def)
  show "spliced 0 (inverse_edits 0 0 es t) (spliced 0 es t) = t"
    using assms correct by (simp add: edits_valid_def)
  show "sort_edits (inverse_edits 0 0 es t) = inverse_edits 0 0 es t"
    using assms correct by (auto simp: edits_valid_def intro: sort_edits_sorted)
qed

subsection \<open>Applying edits\<close>

lemma buffer_ok_cong:
  "tb_storage B' = tb_storage B \<Longrightarrow> tb_lines B' = tb_lines B \<Longrightarrow> tb_cache B' = tb_cache B \<Longrightarrow>
   buffer_ok B' t = buffer_ok B t"
  by (simp add: buffer_ok_def)

lemma record_change_simps [simp]:
  "tb_storage (record_change es B) = tb_storage B" "tb_lines (record_change es B) = tb_lines B"
  "tb_cache (record_change es B) = tb_cache B" "tb_version (record_change es B) = tb_version B"
  "tb_revision (record_change es B) = tb_revision B" "tb_saved (record_change es B) = tb_saved B"
  "tb_next (record_change es B) = tb_next B" "tb_undo (record_change es B) = tb_undo B"
  "tb_redo (record_change es B) = tb_redo B"
  by (simp_all add: record_change_def)

lemma apply_rejected:
  assumes "buffer_ok B t" "\<not> edits_valid t (sort_edits es)"
  shows "\<exists>err. apply_edits_internal shared es B = Some (B, Inl err)"
proof -
  have "table_ok (tb_storage B)" "table_text (tb_storage B) = t" using assms(1) by (simp_all add: buffer_ok_def)
  then have "normalize_edits_for_storage es (tb_storage B) \<noteq> Inr es'" for es'
    using normalize_iff [of "tb_storage B" es es'] assms(2) by simp
  then obtain err where "normalize_edits_for_storage es (tb_storage B) = Inl err"
    by (meson sum.exhaust)
  then show ?thesis by (simp add: apply_edits_internal_def)
qed

lemma apply_computed:
  assumes "buffer_ok B t" "edits_valid t (sort_edits es)"
  shows "normalize_edits_for_storage es (tb_storage B) = Inr (sort_edits es)"
    and "inverse_loop (tb_storage B) (sort_edits es) 0 [] = Some (Inl EditDeltaOverflow) \<and>
           usize_max < length (spliced 0 (sort_edits es) t) \<or>
         (\<exists>delta. inverse_loop (tb_storage B) (sort_edits es) 0 [] =
             Some (Inr (inverse_edits 0 0 (sort_edits es) t, delta)) \<and>
           int (length (spliced 0 (sort_edits es) t)) = int (length t) + delta)"
proof -
  have T: "table_ok (tb_storage B)" "table_text (tb_storage B) = t" "length t \<le> usize_max"
    using assms(1) by (simp_all add: buffer_ok_def)
  show "normalize_edits_for_storage es (tb_storage B) = Inr (sort_edits es)"
    using normalize_iff [OF T(1)] T(2) assms(2) by simp
  show "inverse_loop (tb_storage B) (sort_edits es) 0 [] = Some (Inl EditDeltaOverflow) \<and>
           usize_max < length (spliced 0 (sort_edits es) t) \<or>
         (\<exists>delta. inverse_loop (tb_storage B) (sort_edits es) 0 [] =
             Some (Inr (inverse_edits 0 0 (sort_edits es) t, delta)) \<and>
           int (length (spliced 0 (sort_edits es) t)) = int (length t) + delta)"
    using inverse_loop_exact [OF T(1), of "[]" t 0 "sort_edits es" 0 0 "[]"] T(2,3) assms(2)
    by (simp add: edits_valid_def)
qed

lemma apply_too_long:
  assumes "buffer_ok B t" "edits_valid t (sort_edits es)" "usize_max < length (spliced 0 (sort_edits es) t)"
  shows "apply_edits_internal shared es B = Some (record_change (sort_edits es) B, Inl EditDeltaOverflow)"
proof -
  have T: "pt_len (tb_storage B) = length t" "length t \<le> usize_max"
    using assms(1) table_ok_len by (auto simp: buffer_ok_def)
  note computed = apply_computed [OF assms(1,2)]
  from computed(2) show ?thesis
  proof
    assume "\<exists>delta. inverse_loop (tb_storage B) (sort_edits es) 0 [] =
             Some (Inr (inverse_edits 0 0 (sort_edits es) t, delta)) \<and>
           int (length (spliced 0 (sort_edits es) t)) = int (length t) + delta"
    then obtain delta where delta: "inverse_loop (tb_storage B) (sort_edits es) 0 [] =
        Some (Inr (inverse_edits 0 0 (sort_edits es) t, delta))"
      "int (length (spliced 0 (sort_edits es) t)) = int (length t) + delta" by blast
    then have "apply_delta (length t) delta = Inl EditDeltaOverflow"
      using apply_delta_exact [OF delta(2)] assms(3) T(2) by auto
    then show ?thesis using delta(1) computed(1) T(1) by (simp add: apply_edits_internal_def Let_def)
  qed (simp add: apply_edits_internal_def computed(1) Let_def)
qed

lemma apply_accepted:
  assumes "buffer_ok B t" "edits_valid t (sort_edits es)" "replacements_wf es"
    and "length (spliced 0 (sort_edits es) t) \<le> usize_max"
  shows "\<exists>T ix. apply_edits_internal shared es B =
      Some ((record_change (sort_edits es) B)\<lparr>tb_storage := T, tb_cache := None, tb_lines := ix,
              tb_version := saturating_inc (tb_version B)\<rparr>,
            Inr (inverse_edits 0 0 (sort_edits es) t)) \<and>
    table_ok T \<and> table_text T = spliced 0 (sort_edits es) t \<and> index_ok (spliced 0 (sort_edits es) t) ix"
proof -
  let ?es = "sort_edits es" and ?t = "spliced 0 (sort_edits es) t"
  have T: "table_ok (tb_storage B)" "table_text (tb_storage B) = t" "pt_len (tb_storage B) = length t"
    "index_ok t (tb_lines B)" using assms(1) table_ok_len by (auto simp: buffer_ok_def)
  note computed = apply_computed [OF assms(1,2)]
  obtain delta where delta: "inverse_loop (tb_storage B) ?es 0 [] = Some (Inr (inverse_edits 0 0 ?es t, delta))"
    "int (length ?t) = int (length t) + delta"
    using computed(2) assms(4) by auto
  have new_len: "apply_delta (length t) delta = Inr (length ?t)"
    using apply_delta_exact [OF delta(2)] assms(4) by simp
  have "edits_sorted 0 (length t) ?es" using assms(2) by (simp add: edits_valid_def)
  from index_update_ok [OF T(4) this assms(4)] obtain ix where
    ix: "index_update ?es (length ?t) (tb_lines B) = Some ix" "index_ok ?t ix" by blast
  have replaced: "table_ok (replace_all_edits ?es (tb_storage B)) \<and>
      table_text (replace_all_edits ?es (tb_storage B)) = [] @ spliced 0 ?es t"
    using T(1,2) assms(2,3) sort_edits_replacements
    by (intro replace_all_edits_text) (auto simp: edits_valid_def char_boundary_def [of _ 0])
  obtain T1 where 1: "reclaim_original shared (replace_all_edits ?es (tb_storage B)) = Some T1" "table_ok T1"
    "table_text T1 = ?t" using reclaim_original_text [OF conjunct1 [OF replaced]] replaced by auto
  obtain T2 where 2: "reclaim_add T1 = Some T2" "table_ok T2" "table_text T2 = ?t"
    using reclaim_add_text [OF 1(2)] 1(3) by auto
  have "reclaim_unused_text shared (replace_all_edits ?es (tb_storage B)) = Some T2"
    using 1(1) 2(1) by (simp add: reclaim_unused_text_def)
  then show ?thesis
    using computed(1) delta(1) new_len ix T(3) 2
    by (intro exI [of _ T2] exI [of _ ix]) (simp add: apply_edits_internal_def Let_def)
qed

section \<open>The history of texts\<close>

text \<open>
  The abstract buffer: whole texts, each with the number of the revision it belongs to, the current one
  between those that undo and redo reach, nearest first, and the last saved text and its revision.
\<close>

record text_history =
  th_past :: "(nat \<times> bytes) list"
  th_now :: "nat \<times> bytes"
  th_future :: "(nat \<times> bytes) list"
  th_next :: nat
  th_saved :: "nat \<times> bytes"

definition history_new :: "bytes \<Rightarrow> text_history" where
  "history_new t = \<lparr>th_past = [], th_now = (0, t), th_future = [], th_next = 1, th_saved = (0, t)\<rparr>"

definition history_apply :: "text_edit list \<Rightarrow> text_history \<Rightarrow> text_history" where
  "history_apply es H =
     (let t = snd (th_now H); t' = spliced 0 (sort_edits es) t in
      if es = [] then H
      else if edits_valid t (sort_edits es) \<and> length t' \<le> usize_max
      then H\<lparr>th_past := th_now H # th_past H, th_now := (th_next H, t'), th_future := [],
             th_next := th_next H + 1\<rparr>
      else H\<lparr>th_next := th_next H + 1\<rparr>)"

definition history_undo :: "text_history \<Rightarrow> text_history" where
  "history_undo H =
     (case th_past H of
        [] \<Rightarrow> H
      | p # ps \<Rightarrow> H\<lparr>th_past := ps, th_now := p, th_future := th_now H # th_future H\<rparr>)"

definition history_redo :: "text_history \<Rightarrow> text_history" where
  "history_redo H =
     (case th_future H of
        [] \<Rightarrow> H
      | p # ps \<Rightarrow> H\<lparr>th_past := th_now H # th_past H, th_now := p, th_future := ps\<rparr>)"

definition history_save :: "text_history \<Rightarrow> text_history" where
  "history_save H = H\<lparr>th_saved := th_now H\<rparr>"

text \<open>The calls of the editor and their effect on both.\<close>

datatype buffer_op =
    OpApply bool "text_edit list"
  | OpUndo bool
  | OpRedo bool
  | OpSave
  | OpText
  | OpRelease bool
  | OpTrack bool
  | OpTake

fun buffer_step :: "buffer_op \<Rightarrow> text_buffer \<Rightarrow> text_buffer option" where
  "buffer_step (OpApply shared es) B = map_option fst (apply_transaction shared es B)"
| "buffer_step (OpUndo shared) B = map_option fst (buffer_undo shared B)"
| "buffer_step (OpRedo shared) B = map_option fst (buffer_redo shared B)"
| "buffer_step OpSave B = Some (mark_saved B)"
| "buffer_step OpText B = map_option snd (with_text B)"
| "buffer_step (OpRelease cache_shared) B = Some (release_text_cache cache_shared B)"
| "buffer_step (OpTrack enabled) B = Some (track_changes enabled B)"
| "buffer_step OpTake B = Some (snd (take_changes B))"

fun history_step :: "buffer_op \<Rightarrow> text_history \<Rightarrow> text_history" where
  "history_step (OpApply shared es) H = history_apply es H"
| "history_step (OpUndo shared) H = history_undo H"
| "history_step (OpRedo shared) H = history_redo H"
| "history_step OpSave H = history_save H"
| "history_step _ H = H"

text \<open>Running a list of calls; a panic ends the run.\<close>

fun run_ops :: "('op \<Rightarrow> 'c \<Rightarrow> 'c option) \<Rightarrow> 'op list \<Rightarrow> 'c \<Rightarrow> 'c option" where
  "run_ops step [] c = Some c"
| "run_ops step (op # ops) c = (case step op c of None \<Rightarrow> None | Some c' \<Rightarrow> run_ops step ops c')"

fun run_history :: "('op \<Rightarrow> 'a \<Rightarrow> 'a) \<Rightarrow> 'op list \<Rightarrow> 'a \<Rightarrow> 'a" where
  "run_history astep [] a = a"
| "run_history astep (op # ops) a = run_history astep ops (astep op a)"

fun run_allowed :: "('op \<Rightarrow> 'a \<Rightarrow> bool) \<Rightarrow> ('op \<Rightarrow> 'a \<Rightarrow> 'a) \<Rightarrow> 'op list \<Rightarrow> 'a \<Rightarrow> bool" where
  "run_allowed allowed astep [] a \<longleftrightarrow> True"
| "run_allowed allowed astep (op # ops) a \<longleftrightarrow> allowed op a \<and> run_allowed allowed astep ops (astep op a)"

text \<open>
  The interface of a component that can panic: every allowed call of it returns and keeps it related to
  its abstract machine.
\<close>

locale total_simulation =
  fixes step :: "'op \<Rightarrow> 'c \<Rightarrow> 'c option"
    and astep :: "'op \<Rightarrow> 'a \<Rightarrow> 'a"
    and related :: "'c \<Rightarrow> 'a \<Rightarrow> bool"
    and allowed :: "'op \<Rightarrow> 'a \<Rightarrow> bool"
  assumes step_related: "related c a \<Longrightarrow> allowed op a \<Longrightarrow> \<exists>c'. step op c = Some c' \<and> related c' (astep op a)"
begin

lemma run_related:
  "related c a \<Longrightarrow> run_allowed allowed astep ops a \<Longrightarrow>
   \<exists>c'. run_ops step ops c = Some c' \<and> related c' (run_history astep ops a)"
proof (induction ops arbitrary: c a)
  case (Cons op ops)
  obtain c' where c': "step op c = Some c'" "related c' (astep op a)"
    using step_related [of c a op] Cons.prems by auto
  then show ?case using Cons.IH [OF c'(2)] Cons.prems(2) by simp
qed simp

end

definition op_wf :: "buffer_op \<Rightarrow> bool" where
  "op_wf op = (case op of OpApply shared es \<Rightarrow> replacements_wf es | _ \<Rightarrow> True)"

text \<open>An entry of a stack takes one text to another.\<close>

definition entry_leads :: "history_entry \<Rightarrow> bytes \<Rightarrow> bytes \<Rightarrow> bool" where
  "entry_leads h t t' \<longleftrightarrow>
     edits_valid t (he_edits h) \<and> replacements_wf (he_edits h) \<and> spliced 0 (he_edits h) t = t' \<and>
     length t' \<le> usize_max"

fun undo_chain :: "nat \<times> bytes \<Rightarrow> history_entry list \<Rightarrow> (nat \<times> bytes) list \<Rightarrow> bool" where
  "undo_chain now [] ps \<longleftrightarrow> ps = []"
| "undo_chain now (h # hs) [] \<longleftrightarrow> False"
| "undo_chain now (h # hs) (p # ps) \<longleftrightarrow>
     unat (he_after h) = fst now \<and> unat (he_before h) = fst p \<and> entry_leads h (snd now) (snd p) \<and>
     undo_chain p hs ps"

fun redo_chain :: "nat \<times> bytes \<Rightarrow> history_entry list \<Rightarrow> (nat \<times> bytes) list \<Rightarrow> bool" where
  "redo_chain now [] ps \<longleftrightarrow> ps = []"
| "redo_chain now (h # hs) [] \<longleftrightarrow> False"
| "redo_chain now (h # hs) (p # ps) \<longleftrightarrow>
     unat (he_before h) = fst now \<and> unat (he_after h) = fst p \<and> entry_leads h (snd now) (snd p) \<and>
     redo_chain p hs ps"

definition timeline :: "text_history \<Rightarrow> (nat \<times> bytes) list" where
  "timeline H = rev (th_past H) @ [th_now H] @ th_future H"

text \<open>Revisions are used once: they grow along the time line, and equal numbers mean equal texts.\<close>

definition history_ok :: "text_history \<Rightarrow> bool" where
  "history_ok H \<longleftrightarrow>
     sorted_wrt (<) (map fst (timeline H)) \<and> (\<forall>p \<in> set (timeline H). fst p < th_next H) \<and>
     fst (th_saved H) < th_next H \<and>
     (\<forall>p \<in> set (timeline H). fst p = fst (th_saved H) \<longrightarrow> p = th_saved H)"

definition implements :: "text_buffer \<Rightarrow> text_history \<Rightarrow> bool" where
  "implements B H \<longleftrightarrow>
     buffer_ok B (snd (th_now H)) \<and> unat (tb_revision B) = fst (th_now H) \<and>
     undo_chain (th_now H) (tb_undo B) (th_past H) \<and> redo_chain (th_now H) (tb_redo B) (th_future H) \<and>
     unat (tb_next B) = th_next H \<and> unat (tb_saved B) = fst (th_saved H) \<and> history_ok H"

subsection \<open>Each call keeps the two related\<close>

lemma str_wf_text: "buffer_ok B t \<Longrightarrow> str_wf t"
  using table_text_wf by (auto simp: buffer_ok_def)

lemma unat_saturating_inc: "unat w < 2 ^ 64 - 1 \<Longrightarrow> unat (saturating_inc w) = unat w + 1"
proof -
  assume less: "unat w < 2 ^ 64 - 1"
  have "w \<noteq> - 1"
  proof
    assume "w = - 1"
    then have "unat w = 2 ^ 64 - 1" by (simp add: unsigned_minus_1_eq_mask mask_eq_exp_minus_1)
    then show False using less by simp
  qed
  moreover have "unat (w + 1) = unat w + 1"
    using less unat_word_ariths(1) [of w 1] by simp
  ultimately show ?thesis by (simp add: saturating_inc_def)
qed

lemma entry_leads_apply:
  assumes "buffer_ok B t" "entry_leads h t t'"
  shows "\<exists>T ix. apply_edits_internal shared (he_edits h) B =
      Some ((record_change (he_edits h) B)\<lparr>tb_storage := T, tb_cache := None, tb_lines := ix,
              tb_version := saturating_inc (tb_version B)\<rparr>,
            Inr (inverse_edits 0 0 (he_edits h) t)) \<and>
      table_ok T \<and> table_text T = t' \<and> index_ok t' ix"
    and "entry_leads \<lparr>he_edits = inverse_edits 0 0 (he_edits h) t, he_before = b, he_after = a\<rparr> t' t"
proof -
  have h: "edits_valid t (he_edits h)" "replacements_wf (he_edits h)" "spliced 0 (he_edits h) t = t'"
    "length t' \<le> usize_max" using assms(2) by (simp_all add: entry_leads_def)
  then have "sort_edits (he_edits h) = he_edits h" by (auto simp: edits_valid_def intro: sort_edits_sorted)
  then show "\<exists>T ix. apply_edits_internal shared (he_edits h) B =
      Some ((record_change (he_edits h) B)\<lparr>tb_storage := T, tb_cache := None, tb_lines := ix,
              tb_version := saturating_inc (tb_version B)\<rparr>,
            Inr (inverse_edits 0 0 (he_edits h) t)) \<and>
      table_ok T \<and> table_text T = t' \<and> index_ok t' ix"
    using apply_accepted [OF assms(1), of "he_edits h" shared] h by simp
  show "entry_leads \<lparr>he_edits = inverse_edits 0 0 (he_edits h) t, he_before = b, he_after = a\<rparr> t' t"
    using inverse_valid [OF h(1) str_wf_text [OF assms(1)] h(2)] h(3) assms(1)
    by (simp add: entry_leads_def buffer_ok_def)
qed

lemma entry_leads_edits: "he_edits h' = he_edits h \<Longrightarrow> entry_leads h' = entry_leads h"
  by (simp add: entry_leads_def fun_eq_iff)

lemma undo_related:
  assumes "implements B H"
  shows "\<exists>B'. buffer_step (OpUndo shared) B = Some B' \<and> implements B' (history_undo H)"
proof (cases "tb_undo B")
  case Nil
  then have "th_past H = []" using assms by (auto simp: implements_def)
  then show ?thesis using Nil assms by (simp add: buffer_undo_def history_undo_def)
next
  case (Cons h hs)
  let ?now = "th_now H"
  obtain p ps where past: "th_past H = p # ps" and h: "unat (he_after h) = fst ?now" "unat (he_before h) = fst p"
    "entry_leads h (snd ?now) (snd p)" "undo_chain p hs ps"
    using assms Cons by (cases "th_past H") (auto simp: implements_def)
  let ?B = "B\<lparr>tb_undo := hs\<rparr>"
  have "buffer_ok ?B (snd ?now)" using assms by (simp add: implements_def buffer_ok_def)
  note applied = entry_leads_apply [OF this h(3)]
  from applied(1) [of shared] obtain T ix where run: "apply_edits_internal shared (he_edits h) ?B =
      Some ((record_change (he_edits h) ?B)\<lparr>tb_storage := T, tb_cache := None, tb_lines := ix,
              tb_version := saturating_inc (tb_version ?B)\<rparr>,
            Inr (inverse_edits 0 0 (he_edits h) (snd ?now)))"
    and T: "table_ok T" "table_text T = snd p" "index_ok (snd p) ix"
    by blast
  have time: "timeline (history_undo H) = timeline H" by (simp add: timeline_def history_undo_def past)
  have rest: "history_ok (history_undo H)"
    using assms unfolding implements_def history_ok_def time by (simp add: history_undo_def past)
  have len: "length (snd p) \<le> usize_max" using h(3) by (simp add: entry_leads_def)
  show ?thesis
    using Cons past h assms T run applied(2) [of "he_before h" "he_after h"] rest len
    by (simp add: buffer_undo_def history_undo_def implements_def buffer_ok_def)
qed

lemma redo_related:
  assumes "implements B H"
  shows "\<exists>B'. buffer_step (OpRedo shared) B = Some B' \<and> implements B' (history_redo H)"
proof (cases "tb_redo B")
  case Nil
  then have "th_future H = []" using assms by (auto simp: implements_def)
  then show ?thesis using Nil assms by (simp add: buffer_redo_def history_redo_def)
next
  case (Cons h hs)
  let ?now = "th_now H"
  obtain p ps where future: "th_future H = p # ps" and h: "unat (he_before h) = fst ?now" "unat (he_after h) = fst p"
    "entry_leads h (snd ?now) (snd p)" "redo_chain p hs ps"
    using assms Cons by (cases "th_future H") (auto simp: implements_def)
  let ?B = "B\<lparr>tb_redo := hs\<rparr>"
  have "buffer_ok ?B (snd ?now)" using assms by (simp add: implements_def buffer_ok_def)
  note applied = entry_leads_apply [OF this h(3)]
  from applied(1) [of shared] obtain T ix where run: "apply_edits_internal shared (he_edits h) ?B =
      Some ((record_change (he_edits h) ?B)\<lparr>tb_storage := T, tb_cache := None, tb_lines := ix,
              tb_version := saturating_inc (tb_version ?B)\<rparr>,
            Inr (inverse_edits 0 0 (he_edits h) (snd ?now)))"
    and T: "table_ok T" "table_text T = snd p" "index_ok (snd p) ix"
    by blast
  have time: "timeline (history_redo H) = timeline H" by (simp add: timeline_def history_redo_def future)
  have rest: "history_ok (history_redo H)"
    using assms unfolding implements_def history_ok_def time by (simp add: history_redo_def future)
  have len: "length (snd p) \<le> usize_max" using h(3) by (simp add: entry_leads_def)
  show ?thesis
    using Cons future h assms T run applied(2) [of "he_before h" "he_after h"] rest len
    by (simp add: buffer_redo_def history_redo_def implements_def buffer_ok_def)
qed

text \<open>A new revision goes after everything that stays on the time line.\<close>

lemma history_ok_push:
  assumes "history_ok H"
  shows "history_ok (H\<lparr>th_past := th_now H # th_past H, th_now := (th_next H, t), th_future := [],
           th_next := th_next H + 1\<rparr>)"
    and "history_ok (H\<lparr>th_next := th_next H + 1\<rparr>)"
  using assms
  by (auto simp: history_ok_def timeline_def sorted_wrt_append less_Suc_eq)

lemma apply_related:
  assumes "implements B H" "replacements_wf es" "th_next H < 2 ^ 64 - 1"
  shows "\<exists>B'. buffer_step (OpApply shared es) B = Some B' \<and> implements B' (history_apply es H)"
proof (cases "es = []")
  case True
  then show ?thesis using assms by (simp add: apply_transaction_def history_apply_def)
next
  case False
  let ?t = "snd (th_now H)" and ?B = "B\<lparr>tb_next := saturating_inc (tb_next B)\<rparr>"
  let ?es = "sort_edits es"
  have ok: "buffer_ok ?B ?t" using assms(1) by (simp add: implements_def buffer_ok_def)
  have hist: "history_ok H" using assms(1) by (simp add: implements_def)
  have next_revision: "unat (saturating_inc (tb_next B)) = th_next H + 1"
    using unat_saturating_inc [of "tb_next B"] assms(1,3) by (simp add: implements_def)
  have start: "apply_transaction shared es B =
      (case apply_edits_internal shared es ?B of
            None \<Rightarrow> None
          | Some (B', Inl err) \<Rightarrow> Some (B', Inl err)
          | Some (B', Inr inverted) \<Rightarrow>
              Some (B'\<lparr>tb_revision := tb_next B,
                      tb_undo := \<lparr>he_edits = inverted, he_before = tb_revision B, he_after = tb_next B\<rparr> # tb_undo B',
                      tb_redo := []\<rparr>, Inr ()))"
    using False by (simp add: apply_transaction_def allocate_content_revision_def Let_def)
  consider "\<not> edits_valid ?t ?es" | "edits_valid ?t ?es" "usize_max < length (spliced 0 ?es ?t)"
    | "edits_valid ?t ?es" "length (spliced 0 ?es ?t) \<le> usize_max" by linarith
  then show ?thesis
  proof cases
    case 1
    then show ?thesis
      using apply_rejected [OF ok, of es shared] start False assms(1) next_revision history_ok_push(2) [OF hist]
      by (auto simp: history_apply_def Let_def implements_def buffer_ok_def)
  next
    case 2
    then show ?thesis
      using apply_too_long [OF ok 2, of shared] start False assms(1) next_revision history_ok_push(2) [OF hist]
      by (auto simp: history_apply_def Let_def implements_def buffer_ok_def)
  next
    case 3
    from apply_accepted [OF ok 3(1) assms(2) 3(2), of shared] obtain T ix where
      run: "apply_edits_internal shared es ?B =
        Some ((record_change ?es ?B)\<lparr>tb_storage := T, tb_cache := None, tb_lines := ix,
                tb_version := saturating_inc (tb_version ?B)\<rparr>, Inr (inverse_edits 0 0 ?es ?t))"
      and T: "table_ok T" "table_text T = spliced 0 ?es ?t" "index_ok (spliced 0 ?es ?t) ix" by blast
    note inverted = inverse_valid [OF 3(1) str_wf_text [OF ok]] sort_edits_replacements [of es]
    have "entry_leads \<lparr>he_edits = inverse_edits 0 0 ?es ?t, he_before = tb_revision B, he_after = tb_next B\<rparr>
        (spliced 0 ?es ?t) ?t"
      using inverted assms(2) ok by (simp add: entry_leads_def buffer_ok_def)
    then show ?thesis
      using run start 3 False assms(1) T next_revision history_ok_push(1) [OF hist, of "spliced 0 ?es ?t"]
      by (simp add: history_apply_def Let_def implements_def buffer_ok_def)
  qed
qed

definition op_allowed :: "buffer_op \<Rightarrow> text_history \<Rightarrow> bool" where
  "op_allowed op H \<longleftrightarrow> op_wf op \<and> th_next H < 2 ^ 64 - 1"

lemma step_related:
  assumes "implements B H" "op_allowed op H"
  shows "\<exists>B'. buffer_step op B = Some B' \<and> implements B' (history_step op H)"
proof (cases op)
  case (OpApply shared es)
  then show ?thesis using apply_related [OF assms(1)] assms(2) by (simp add: op_allowed_def op_wf_def)
next
  case (OpUndo shared)
  then show ?thesis using undo_related [OF assms(1)] by simp
next
  case (OpRedo shared)
  then show ?thesis using redo_related [OF assms(1)] by simp
next
  case OpSave
  have "history_ok (history_save H)"
  proof -
    have time: "timeline (history_save H) = timeline H" by (simp add: timeline_def history_save_def)
    have strict: "sorted_wrt (<) (map fst (timeline H))" "\<forall>p \<in> set (timeline H). fst p < th_next H"
      using assms(1) by (simp_all add: implements_def history_ok_def)
    have "distinct (map fst (timeline H))" using strict(1) strict_sorted_iff by blast
    then have "inj_on fst (set (timeline H))" by (simp add: distinct_map)
    moreover have "th_now H \<in> set (timeline H)" by (simp add: timeline_def)
    ultimately have "\<forall>p \<in> set (timeline H). fst p = fst (th_now H) \<longrightarrow> p = th_now H"
      by (meson inj_onD)
    then show ?thesis using strict unfolding history_ok_def time
      by (simp add: history_save_def timeline_def)
  qed
  then show ?thesis using OpSave assms(1)
    by (simp add: mark_saved_def implements_def buffer_ok_def history_save_def)
next
  case OpText
  have "buffer_ok B (snd (th_now H))" using assms(1) by (simp add: implements_def)
  from with_text_ok [OF this] show ?thesis using OpText assms(1) by (auto simp: implements_def)
qed (use assms(1) in \<open>auto simp: implements_def buffer_ok_def release_text_cache_def track_changes_def
       take_changes_def split: option.splits\<close>)

interpretation editor: total_simulation buffer_step history_step implements op_allowed
  by unfold_locales (rule step_related)

section \<open>Properties\<close>

lemma history_run_allowed:
  "list_all op_wf ops \<Longrightarrow> th_next H + length ops < 2 ^ 64 \<Longrightarrow> run_allowed op_allowed history_step ops H"
proof (induction ops arbitrary: H)
  case (Cons op ops)
  have "th_next (history_step op H) \<le> th_next H + 1"
    by (cases op) (auto simp: history_apply_def history_undo_def history_redo_def history_save_def Let_def
        split: list.splits)
  then show ?case using Cons by (simp add: op_allowed_def)
qed simp

lemma buffer_new_implements:
  "str_wf t \<Longrightarrow> length t \<le> usize_max \<Longrightarrow> \<exists>B. buffer_new t = Some B \<and> implements B (history_new t)"
proof -
  assume t: "str_wf t" "length t \<le> usize_max"
  then obtain B where B: "buffer_new t = Some B" "buffer_ok B t" using buffer_new_ok by blast
  then obtain ix where "B = \<lparr>tb_storage = table_new t, tb_cache = Some t, tb_lines = ix, tb_version = 0,
      tb_revision = 0, tb_saved = 0, tb_next = 1, tb_undo = [], tb_redo = [], tb_changes = None\<rparr>"
    by (auto simp: buffer_new_def)
  then show ?thesis using B
    by (simp add: implements_def history_new_def history_ok_def timeline_def)
qed

text \<open>
  Property C28: the editor buffer is a history of texts: from any document, whatever transactions, undos,
  redos, saves, reads and cache releases follow (fewer than the revisions a \<open>u64\<close> can number), no call
  panics; the text read is the current text of the abstract history, in which an accepted transaction
  is the simultaneous replacement of its sorted edits, a rejected one changes nothing, and undo and
  redo step along the earlier texts; and a buffer that is not dirty holds exactly the text last saved.
\<close>

theorem buffer_refines_history:
  assumes "str_wf t" "length t \<le> usize_max" "list_all op_wf ops" "length ops + 1 < 2 ^ 64"
  shows "\<exists>B B'. buffer_new t = Some B \<and> run_ops buffer_step ops B = Some B' \<and>
    with_temporary_text B' = Some (snd (th_now (run_history history_step ops (history_new t)))) \<and>
    (\<not> is_dirty B' \<longrightarrow>
       with_temporary_text B' = Some (snd (th_saved (run_history history_step ops (history_new t)))))"
proof -
  let ?H = "run_history history_step ops (history_new t)"
  obtain B where B: "buffer_new t = Some B" "implements B (history_new t)"
    using buffer_new_implements [OF assms(1,2)] by blast
  have "run_allowed op_allowed history_step ops (history_new t)"
    using assms(3,4) by (intro history_run_allowed) (simp_all add: history_new_def)
  from editor.run_related [OF B(2) this] obtain B' where
    B': "run_ops buffer_step ops B = Some B'" "implements B' ?H" by blast
  have read: "with_temporary_text B' = Some (snd (th_now ?H))"
    using B'(2) by (auto simp: implements_def buffer_ok_def with_temporary_text_def to_text_ok)
  have "th_now ?H = th_saved ?H" if "\<not> is_dirty B'"
  proof -
    have "fst (th_now ?H) = fst (th_saved ?H)" using B'(2) that by (simp add: implements_def is_dirty_def)
    moreover have "history_ok ?H" using B'(2) by (simp add: implements_def)
    ultimately show ?thesis by (simp add: history_ok_def timeline_def)
  qed
  then show ?thesis using B(1) B'(1) read by simp
qed

theorem buffer_refines_history_witness:
  "let t = [97, 98, 99] :: bytes;
       ops = [OpApply False [edit_insert 1 [120, 10], edit_new (range_new 2 3) []], OpSave,
              OpUndo False, OpText, OpRedo True]
   in \<exists>B B'. buffer_new t = Some B \<and> run_ops buffer_step ops B = Some B' \<and>
        with_temporary_text B' = Some [97, 120, 10, 98] \<and>
        (\<not> is_dirty B' \<longrightarrow> with_temporary_text B' = Some [97, 120, 10, 98])"
proof -
  let ?t = "[97, 98, 99] :: bytes"
  let ?ops = "[OpApply False [edit_insert 1 [120, 10], edit_new (range_new 2 3) []], OpSave,
              OpUndo False, OpText, OpRedo True]"
  let ?H = "run_history history_step ?ops (history_new ?t)"
  have 1: "str_wf ?t" "list_all op_wf ?ops"
    by (simp_all add: str_wf_def is_continuation_def op_wf_def replacements_wf_def edit_insert_def edit_new_def)
  have 2: "length ?t \<le> usize_max" "length ?ops + 1 < 2 ^ 64" by (simp_all add: usize_max_def)
  have "snd (th_now ?H) = [97, 120, 10, 98]" "snd (th_saved ?H) = [97, 120, 10, 98]"
    by (simp_all add: history_new_def history_apply_def history_undo_def history_redo_def history_save_def
        Let_def sort_edits_def edit_le_def edit_insert_def range_caret_def edit_new_def range_new_def
        edits_valid_def char_boundary_def is_continuation_def usize_max_def)
  then show ?thesis
    using buffer_refines_history [OF 1(1) 2(1) 1(2) 2(2)] by (simp only: Let_def)
qed

text \<open>What an accepted transaction tells of its edits.\<close>

lemma transaction_valid:
  assumes "buffer_ok B t" "replacements_wf es" "es \<noteq> []" "apply_transaction shared es B = Some (B', Inr ())"
  shows "edits_valid t (sort_edits es) \<and> length (spliced 0 (sort_edits es) t) \<le> usize_max"
proof (rule ccontr)
  assume not: "\<not> (edits_valid t (sort_edits es) \<and> length (spliced 0 (sort_edits es) t) \<le> usize_max)"
  define B1 where "B1 = B\<lparr>tb_next := saturating_inc (tb_next B)\<rparr>"
  have ok: "buffer_ok B1 t" using assms(1) by (simp add: buffer_ok_def B1_def)
  have "\<exists>B2 err. apply_edits_internal shared es B1 = Some (B2, Inl err)"
    using not apply_rejected [OF ok, of es shared] apply_too_long [OF ok, of es shared] by (auto simp: not_le)
  then show False
    using assms(3,4) by (auto simp: apply_transaction_def allocate_content_revision_def Let_def B1_def)
qed

lemma apply_keeps_saved:
  "apply_edits_internal shared es B = Some (B', r) \<Longrightarrow> tb_saved B' = tb_saved B"
  by (auto simp: apply_edits_internal_def Let_def split: sum.splits option.splits prod.splits)

lemma transaction_accepted:
  assumes "buffer_ok B t" "replacements_wf es" "es \<noteq> []"
    and "edits_valid t (sort_edits es)" "length (spliced 0 (sort_edits es) t) \<le> usize_max"
  shows "\<exists>B'. apply_transaction shared es B = Some (B', Inr ()) \<and> buffer_ok B' (spliced 0 (sort_edits es) t) \<and>
    tb_revision B' = tb_next B \<and> tb_version B' = saturating_inc (tb_version B) \<and> tb_saved B' = tb_saved B"
proof -
  define B1 where "B1 = B\<lparr>tb_next := saturating_inc (tb_next B)\<rparr>"
  have ok: "buffer_ok B1 t" using assms(1) by (simp add: buffer_ok_def B1_def)
  have same: "tb_version B1 = tb_version B" "tb_saved B1 = tb_saved B" by (simp_all add: B1_def)
  from apply_accepted [OF ok assms(4,2,5), of shared] obtain T ix where
    run: "apply_edits_internal shared es B1 =
      Some ((record_change (sort_edits es) B1)\<lparr>tb_storage := T, tb_cache := None, tb_lines := ix,
              tb_version := saturating_inc (tb_version B1)\<rparr>, Inr (inverse_edits 0 0 (sort_edits es) t))"
    and "table_ok T" "table_text T = spliced 0 (sort_edits es) t" "index_ok (spliced 0 (sort_edits es) t) ix" by blast
  then show ?thesis using assms(3,5) same
    by (simp add: apply_transaction_def allocate_content_revision_def Let_def buffer_ok_def flip: B1_def)
qed

lemma undo_keeps_saved: "buffer_undo shared B = Some (B', r) \<Longrightarrow> tb_saved B' = tb_saved B"
  by (auto simp: buffer_undo_def dest!: apply_keeps_saved split: list.splits option.splits prod.splits sum.splits)

text \<open>
  Property C33: a transaction is all or nothing: on a well-formed buffer it never panics; either it is
  accepted, and the buffer holds the text with all its sorted edits replaced at once, or it returns an
  error, because an edit is out of bounds, inside a character, reversed or overlapping or the new text
  too long, and the storage, index, cache, version, revision and both stacks are as they were.
\<close>

theorem transaction_all_or_nothing:
  assumes "buffer_ok B t" "replacements_wf es" "es \<noteq> []"
  shows "\<exists>B' r. apply_transaction shared es B = Some (B', r) \<and>
    (if edits_valid t (sort_edits es) \<and> length (spliced 0 (sort_edits es) t) \<le> usize_max
     then r = Inr () \<and> buffer_ok B' (spliced 0 (sort_edits es) t) \<and> tb_revision B' = tb_next B \<and>
          tb_version B' = saturating_inc (tb_version B)
     else (\<exists>err. r = Inl err) \<and> tb_storage B' = tb_storage B \<and> tb_lines B' = tb_lines B \<and>
          tb_cache B' = tb_cache B \<and> tb_version B' = tb_version B \<and> tb_revision B' = tb_revision B \<and>
          tb_undo B' = tb_undo B \<and> tb_redo B' = tb_redo B)"
proof -
  let ?es = "sort_edits es"
  define B1 where "B1 = B\<lparr>tb_next := saturating_inc (tb_next B)\<rparr>"
  have ok: "buffer_ok B1 t" using assms(1) by (simp add: buffer_ok_def B1_def)
  have start: "apply_transaction shared es B =
      (case apply_edits_internal shared es B1 of
            None \<Rightarrow> None
          | Some (B', Inl err) \<Rightarrow> Some (B', Inl err)
          | Some (B', Inr inverted) \<Rightarrow>
              Some (B'\<lparr>tb_revision := tb_next B,
                      tb_undo := \<lparr>he_edits = inverted, he_before = tb_revision B, he_after = tb_next B\<rparr> # tb_undo B',
                      tb_redo := []\<rparr>, Inr ()))"
    using assms(3) by (simp add: apply_transaction_def allocate_content_revision_def Let_def B1_def)
  have same: "tb_storage B1 = tb_storage B" "tb_lines B1 = tb_lines B" "tb_cache B1 = tb_cache B"
    "tb_version B1 = tb_version B" "tb_revision B1 = tb_revision B" "tb_undo B1 = tb_undo B"
    "tb_redo B1 = tb_redo B" by (simp_all add: B1_def)
  consider "\<not> edits_valid t ?es" | "edits_valid t ?es" "usize_max < length (spliced 0 ?es t)"
    | "edits_valid t ?es" "length (spliced 0 ?es t) \<le> usize_max" by linarith
  then show ?thesis
  proof cases
    case 1
    then show ?thesis using apply_rejected [OF ok, of es shared] start same by auto
  next
    case 2
    then show ?thesis using apply_too_long [OF ok 2, of shared] start same by simp
  next
    case 3
    then show ?thesis using transaction_accepted [OF assms 3, of shared] by auto
  qed
qed

lemma buffer_ok_example:
  "buffer_ok \<lparr>tb_storage = table_new [97, 98, 99], tb_cache = Some [97, 98, 99], tb_lines = Compact [0],
      tb_version = 0, tb_revision = 0, tb_saved = 0, tb_next = 1, tb_undo = [], tb_redo = [],
      tb_changes = None\<rparr> [97, 98, 99]"
  using table_new_ok [of "[97, 98, 99]"]
  by (simp add: buffer_ok_def index_ok_def index_starts_def line_starts_def str_wf_def is_continuation_def
      usize_max_def)

theorem transaction_all_or_nothing_witness:
  "let B = \<lparr>tb_storage = table_new [97, 98, 99], tb_cache = Some [97, 98, 99], tb_lines = Compact [0],
            tb_version = 0, tb_revision = 0, tb_saved = 0, tb_next = 1, tb_undo = [], tb_redo = [],
            tb_changes = None\<rparr>
   in (\<exists>B'. apply_transaction False [edit_insert 3 [100], edit_new (range_new 0 2) []] B = Some (B', Inr ()) \<and>
          buffer_ok B' [99, 100]) \<and>
      (\<exists>B' err. apply_transaction False [edit_insert 4 [100], edit_new (range_new 0 2) []] B = Some (B', Inl err) \<and>
          tb_storage B' = table_new [97, 98, 99])"
proof -
  let ?B = "\<lparr>tb_storage = table_new [97, 98, 99], tb_cache = Some [97, 98, 99], tb_lines = Compact [0],
            tb_version = 0, tb_revision = 0, tb_saved = 0, tb_next = 1, tb_undo = [], tb_redo = [],
            tb_changes = None\<rparr>"
  let ?e1 = "[edit_insert 3 [100], edit_new (range_new 0 2) []]"
  let ?e2 = "[edit_insert 4 [100], edit_new (range_new 0 2) []]"
  have wf: "replacements_wf ?e1" "replacements_wf ?e2" "?e1 \<noteq> []" "?e2 \<noteq> []"
    by (simp_all add: replacements_wf_def edit_insert_def edit_new_def str_wf_def is_continuation_def)
  have 1: "edits_valid [97, 98, 99] (sort_edits ?e1)" "spliced 0 (sort_edits ?e1) [97, 98, 99] = [99, 100]"
    and 2: "\<not> edits_valid [97, 98, 99] (sort_edits ?e2)"
    by (simp_all add: edits_valid_def sort_edits_def edit_le_def edit_insert_def range_caret_def edit_new_def
        range_new_def char_boundary_def is_continuation_def)
  have "\<exists>B'. apply_transaction False ?e1 ?B = Some (B', Inr ()) \<and> buffer_ok B' [99, 100]"
    using transaction_all_or_nothing [OF buffer_ok_example wf(1,3), of False] 1 by (auto simp: usize_max_def)
  moreover have "\<exists>B' err. apply_transaction False ?e2 ?B = Some (B', Inl err) \<and>
      tb_storage B' = table_new [97, 98, 99]"
    using transaction_all_or_nothing [OF buffer_ok_example wf(2,4), of False] 2 by auto
  ultimately show ?thesis by (simp add: Let_def)
qed

text \<open>
  Property C30: undo takes back exactly the last transaction and redo repeats it: after a transaction
  that was accepted on a well-formed buffer, undo succeeds and restores the text and the content
  revision from before it, and a redo after that restores the text and the revision it had made.
\<close>

theorem undo_redo_restore:
  assumes "buffer_ok B t" "replacements_wf es" "es \<noteq> []"
    and "apply_transaction shared es B = Some (B1, Inr ())"
  shows "\<exists>B2 B3. buffer_undo shared2 B1 = Some (B2, Inr True) \<and> buffer_ok B2 t \<and>
    tb_revision B2 = tb_revision B \<and> tb_undo B2 = tb_undo B \<and>
    buffer_redo shared3 B2 = Some (B3, Inr True) \<and> buffer_ok B3 (spliced 0 (sort_edits es) t) \<and>
    tb_revision B3 = tb_revision B1"
proof -
  let ?es = "sort_edits es" and ?t = "spliced 0 (sort_edits es) t"
  let ?B = "B\<lparr>tb_next := saturating_inc (tb_next B)\<rparr>"
  have ok: "buffer_ok ?B t" using assms(1) by (simp add: buffer_ok_def)
  have valid: "edits_valid t ?es" "length ?t \<le> usize_max"
    using transaction_valid [OF assms(1,2)] assms(3,4) by auto
  from apply_accepted [OF ok valid(1) assms(2) valid(2), of shared] obtain T ix where
    run: "apply_edits_internal shared es ?B =
        Some ((record_change ?es ?B)\<lparr>tb_storage := T, tb_cache := None, tb_lines := ix,
                tb_version := saturating_inc (tb_version ?B)\<rparr>, Inr (inverse_edits 0 0 ?es t))"
    and T: "table_ok T" "table_text T = ?t" "index_ok ?t ix" by blast
  let ?h = "\<lparr>he_edits = inverse_edits 0 0 ?es t, he_before = tb_revision B, he_after = tb_next B\<rparr>"
  have B1: "tb_undo B1 = ?h # tb_undo B" "tb_redo B1 = []" "tb_revision B1 = tb_next B" "buffer_ok B1 ?t"
    using assms(3,4) run T valid(2)
    by (auto simp: apply_transaction_def allocate_content_revision_def Let_def buffer_ok_def)
  note inverted = inverse_valid [OF valid(1) str_wf_text [OF ok]] sort_edits_replacements [of es]
  have h: "entry_leads ?h ?t t" using inverted assms(1,2) by (simp add: entry_leads_def buffer_ok_def)
  let ?B1 = "B1\<lparr>tb_undo := tb_undo B\<rparr>"
  have "buffer_ok ?B1 ?t" using B1(4) by (simp add: buffer_ok_def)
  note undone = entry_leads_apply [OF this h]
  from undone(1) [of shared2] obtain T2 ix2 where
    run2: "apply_edits_internal shared2 (he_edits ?h) ?B1 =
        Some ((record_change (he_edits ?h) ?B1)\<lparr>tb_storage := T2, tb_cache := None, tb_lines := ix2,
                tb_version := saturating_inc (tb_version ?B1)\<rparr>, Inr (inverse_edits 0 0 (he_edits ?h) ?t))"
    and T2: "table_ok T2" "table_text T2 = t" "index_ok t ix2" by blast
  let ?h2 = "\<lparr>he_edits = inverse_edits 0 0 (he_edits ?h) ?t, he_before = tb_revision B, he_after = tb_next B\<rparr>"
  obtain B2 where B2: "buffer_undo shared2 B1 = Some (B2, Inr True)" "buffer_ok B2 t"
    "tb_revision B2 = tb_revision B" "tb_undo B2 = tb_undo B" "tb_redo B2 = [?h2]"
    using run2 T2 B1 assms(1) by (simp add: buffer_undo_def buffer_ok_def)
  have h2: "entry_leads ?h2 t ?t" by (rule undone(2))
  let ?B2 = "B2\<lparr>tb_redo := []\<rparr>"
  have "buffer_ok ?B2 t" using B2(2) by (simp add: buffer_ok_def)
  from entry_leads_apply(1) [OF this h2, of shared3] obtain T3 ix3 where
    run3: "apply_edits_internal shared3 (he_edits ?h2) ?B2 =
        Some ((record_change (he_edits ?h2) ?B2)\<lparr>tb_storage := T3, tb_cache := None, tb_lines := ix3,
                tb_version := saturating_inc (tb_version ?B2)\<rparr>, Inr (inverse_edits 0 0 (he_edits ?h2) t))"
    and T3: "table_ok T3" "table_text T3 = ?t" "index_ok ?t ix3" by blast
  have "\<exists>B3. buffer_redo shared3 B2 = Some (B3, Inr True) \<and> buffer_ok B3 ?t \<and> tb_revision B3 = tb_next B"
    using run3 T3 B2(5) valid(2) by (simp add: buffer_redo_def buffer_ok_def)
  then show ?thesis using B2 B1(3) by auto
qed

theorem undo_redo_restore_witness:
  "let B = \<lparr>tb_storage = table_new [97, 98, 99], tb_cache = Some [97, 98, 99], tb_lines = Compact [0],
            tb_version = 0, tb_revision = 0, tb_saved = 0, tb_next = 1, tb_undo = [], tb_redo = [],
            tb_changes = None\<rparr>
   in \<exists>B1 B2 B3. apply_transaction True [edit_new (range_new 0 2) []] B = Some (B1, Inr ()) \<and>
        buffer_undo False B1 = Some (B2, Inr True) \<and> buffer_ok B2 [97, 98, 99] \<and> \<not> is_dirty B2 \<and>
        buffer_redo False B2 = Some (B3, Inr True) \<and> buffer_ok B3 [99]"
proof -
  let ?B = "\<lparr>tb_storage = table_new [97, 98, 99], tb_cache = Some [97, 98, 99], tb_lines = Compact [0],
            tb_version = 0, tb_revision = 0, tb_saved = 0, tb_next = 1, tb_undo = [], tb_redo = [],
            tb_changes = None\<rparr>"
  let ?es = "[edit_new (range_new 0 2) []]"
  have wf: "replacements_wf ?es" "?es \<noteq> []" by (simp_all add: replacements_wf_def edit_new_def str_wf_def)
  have "edits_valid [97, 98, 99] (sort_edits ?es)" "length (spliced 0 (sort_edits ?es) [97, 98, 99]) \<le> usize_max"
    by (simp_all add: edits_valid_def sort_edits_def edit_new_def range_new_def char_boundary_def
        is_continuation_def usize_max_def)
  from transaction_accepted [OF buffer_ok_example wf this, of True] obtain B1 where
    B1: "apply_transaction True ?es ?B = Some (B1, Inr ())" "tb_saved B1 = 0" by auto
  from undo_redo_restore [OF buffer_ok_example wf B1(1), of False False] obtain B2 B3 where
    B2: "buffer_undo False B1 = Some (B2, Inr True)" "buffer_ok B2 [97, 98, 99]" "tb_revision B2 = 0"
    "buffer_redo False B2 = Some (B3, Inr True)" "buffer_ok B3 (spliced 0 (sort_edits ?es) [97, 98, 99])" by auto
  have "tb_saved B2 = 0" using undo_keeps_saved [OF B2(1)] B1(2) by simp
  then have "\<not> is_dirty B2" using B2(3) by (simp add: is_dirty_def)
  then show ?thesis using B1(1) B2 by (auto simp: sort_edits_def edit_new_def range_new_def)
qed

section \<open>Lines\<close>

text \<open>The line of an offset: its start is the last one not after it.\<close>

lemma partition_bounds:
  assumes "sorted_wrt (<) xs" "xs \<noteq> []" "xs ! 0 \<le> (off :: nat)"
  defines "n \<equiv> partition_point (\<lambda>s. s \<le> off) xs"
  shows "0 < n" "n - 1 < length xs" "xs ! (n - 1) \<le> off" "n < length xs \<Longrightarrow> off < xs ! n"
proof -
  have n: "n = length (takeWhile (\<lambda>s. s \<le> off) xs)" by (simp add: n_def partition_point_def)
  show pos: "0 < n" using assms(2,3) n by (cases xs) auto
  have le: "n \<le> length xs" using n by (simp add: length_takeWhile_le)
  show "n - 1 < length xs" using le pos by simp
  have "xs ! (n - 1) = takeWhile (\<lambda>s. s \<le> off) xs ! (n - 1)"
    using pos n by (simp add: takeWhile_nth)
  moreover have "takeWhile (\<lambda>s. s \<le> off) xs ! (n - 1) \<in> set (takeWhile (\<lambda>s. s \<le> off) xs)"
    using pos n by (intro nth_mem) simp
  ultimately show "xs ! (n - 1) \<le> off" using set_takeWhileD by fastforce
  show "n < length xs \<Longrightarrow> off < xs ! n"
    using n nth_length_takeWhile [of "\<lambda>s. s \<le> off" xs] by simp
qed

lemma line_end_offset_ok:
  assumes "buffer_ok B t" "line < length (line_starts t)"
  shows "line_end_offset B line = Some (if line + 1 < length (line_starts t)
    then line_starts t ! (line + 1) - 1 else length t)"
proof -
  have ix: "index_ok t (tb_lines B)" "pt_len (tb_storage B) = length t"
    using assms(1) table_ok_len by (auto simp: buffer_ok_def)
  have le: "line_starts t ! line \<le> length t" using line_starts_bounds nth_mem [OF assms(2)] by blast
  have less: "line_starts t ! line < line_starts t ! (line + 1)" if "line + 1 < length (line_starts t)"
    using sorted_wrt_nth_less [OF line_starts_sorted [of t], of line "line + 1"] that by simp
  show ?thesis
    using index_ok_get(1) [OF ix(1)] ix(2) assms(2) le less by (auto simp: line_end_offset_def max_def Let_def)
qed

text \<open>
  Offsets and positions are inverse: on a well-formed buffer every offset that
  \<open>validate_offset\<close> accepts has a position, on a line whose start is not after it and before the next
  line's, and \<open>line_col_to_offset\<close> of that position is the offset; the lookup never panics.
\<close>

theorem offset_line_col_inverse:
  assumes "buffer_ok B t" "off \<le> length t" "char_boundary t off"
  shows "\<exists>p. offset_to_line_col B off = Some (Inr p) \<and> lc_line p < length (line_starts t) \<and>
    line_starts t ! lc_line p + lc_column p = off \<and>
    (lc_line p + 1 < length (line_starts t) \<longrightarrow> off < line_starts t ! (lc_line p + 1)) \<and>
    line_col_to_offset B p = Inr off"
proof -
  have T: "table_ok (tb_storage B)" "table_text (tb_storage B) = t" "index_ok t (tb_lines B)"
    using assms(1) by (simp_all add: buffer_ok_def)
  have valid: "validate_offset B off = Inr ()"
    using table_char_boundary_text [OF T(1), of off] table_ok_len [OF T(1)] T(2) assms(2,3)
    by (simp add: validate_offset_def)
  let ?ls = "line_starts t"
  let ?line = "partition_point (\<lambda>s. s \<le> off) ?ls - 1"
  have bounds: "?line < length ?ls" "?ls ! ?line \<le> off"
    "?line + 1 < length ?ls \<Longrightarrow> off < ?ls ! (?line + 1)"
    using partition_bounds [OF line_starts_sorted, of t off] by (simp_all add: line_starts_def)
  note get = index_ok_get [OF T(3)]
  let ?p = "\<lparr>lc_line = ?line, lc_column = off - ?ls ! ?line\<rparr>"
  have "offset_to_line_col B off = Some (Inr ?p)"
    using valid bounds(1,2) get by (simp add: offset_to_line_col_def Let_def)
  moreover have "line_col_to_offset B ?p = Inr off"
    using valid bounds get line_end_offset_ok [OF assms(1) bounds(1)] assms(2)
    by (auto simp: line_col_to_offset_def Let_def)
  ultimately show ?thesis using bounds by (intro exI [of _ ?p]) simp
qed

theorem offset_line_col_inverse_witness:
  "let B = \<lparr>tb_storage = table_new [97, 10, 99], tb_cache = None, tb_lines = Compact [0, 2],
            tb_version = 0, tb_revision = 0, tb_saved = 0, tb_next = 1, tb_undo = [], tb_redo = [],
            tb_changes = None\<rparr>
   in \<exists>p. offset_to_line_col B 3 = Some (Inr p) \<and> lc_line p < 2 \<and>
        [0, 2] ! lc_line p + lc_column p = 3 \<and> line_col_to_offset B p = Inr 3"
proof -
  let ?B = "\<lparr>tb_storage = table_new [97, 10, 99], tb_cache = None, tb_lines = Compact [0, 2],
            tb_version = 0, tb_revision = 0, tb_saved = 0, tb_next = 1, tb_undo = [], tb_redo = [],
            tb_changes = None\<rparr>"
  have B: "buffer_ok ?B [97, 10, 99]"
    using table_new_ok [of "[97, 10, 99]"]
    by (simp add: buffer_ok_def index_ok_def index_starts_def line_starts_def str_wf_def is_continuation_def
        usize_max_def)
  have ls: "line_starts [97, 10, 99] = [0, 2]" by (simp add: line_starts_def)
  have in_text: "(3 :: nat) \<le> length ([97, 10, 99] :: bytes)" "char_boundary [97, 10, 99] 3"
    by (simp_all add: char_boundary_def)
  obtain p where p: "offset_to_line_col ?B 3 = Some (Inr p)" "lc_line p < length ([0, 2] :: nat list)"
    "[0, 2] ! lc_line p + lc_column p = 3" "line_col_to_offset ?B p = Inr 3"
    using offset_line_col_inverse [OF B in_text] unfolding ls by blast
  then have "lc_line p < 2" by simp
  then show ?thesis using p unfolding Let_def by blast
qed

text \<open>The lines of a text: what lies between its line feeds.\<close>

fun split_lines :: "bytes \<Rightarrow> bytes list" where
  "split_lines [] = [[]]"
| "split_lines (b # bs) =
     (if b = 10 then [] # split_lines bs
      else (b # hd (split_lines bs)) # tl (split_lines bs))"

lemma split_lines_ne: "split_lines t \<noteq> []"
  by (induction t) auto

lemma split_lines_no_feed: "l \<in> set (split_lines t) \<Longrightarrow> 10 \<notin> set l"
proof (induction t arbitrary: l)
  case (Cons b bs)
  then show ?case using split_lines_ne [of bs] by (cases "split_lines bs") (auto split: if_splits)
qed simp

lemma line_starts_Cons:
  "line_starts (b # t) =
     (if b = 10 then 0 # map Suc (line_starts t) else 0 # map Suc (tl (line_starts t)))"
  using after_newlines_shift [of 0 1 t] by (simp add: line_starts_def)

lemma length_split_lines: "length (split_lines t) = length (line_starts t)"
proof (induction t)
  case (Cons b t)
  then show ?case using split_lines_ne [of t] by (auto simp: line_starts_Cons)
qed (simp add: line_starts_def)

text \<open>The end of a line, as the index computes it.\<close>

definition line_stop :: "bytes \<Rightarrow> nat \<Rightarrow> nat" where
  "line_stop t line =
     (if line + 1 < length (line_starts t) then line_starts t ! (line + 1) - 1 else length t)"

lemma line_slice:
  "line < length (line_starts t) \<Longrightarrow>
   line_starts t ! line \<le> line_stop t line \<and> line_stop t line \<le> length t \<and>
   (line_stop t line < length t \<longrightarrow> t ! line_stop t line = 10) \<and>
   take (line_stop t line - line_starts t ! line) (drop (line_starts t ! line) t) = split_lines t ! line"
proof (induction t arbitrary: line)
  case Nil
  then show ?case by (simp add: line_starts_def line_stop_def)
next
  case (Cons b t)
  have zero: "line_starts t = 0 # tl (line_starts t)" by (simp add: line_starts_def)
  have len: "length (split_lines t) = length (line_starts t)" by (rule length_split_lines)
  have pos: "0 < line_starts t ! Suc k" if "Suc k < length (line_starts t)" for k
    using sorted_wrt_nth_less [OF line_starts_sorted [of t], of 0 "Suc k"] that by (simp add: line_starts_def)
  show ?case
  proof (cases line)
    case 0
    note IH = Cons.IH [of 0]
    show ?thesis
    proof (cases "b = 10")
      case True
      have "line_starts t ! 0 = 0" "0 < length (line_starts t)" by (simp_all add: line_starts_def)
      then show ?thesis using 0 True by (simp add: line_starts_Cons line_stop_def)
    next
      case False
      have stop: "line_stop (b # t) 0 = Suc (line_stop t 0)"
        using False pos [of 0] by (auto simp: line_stop_def line_starts_Cons nth_tl)
      have "take (line_stop t 0) t = hd (split_lines t)"
        using IH split_lines_ne [of t] zero by (simp add: hd_conv_nth line_starts_def)
      then show ?thesis using 0 False stop IH zero by (simp add: line_starts_Cons line_starts_def)
    qed
  next
    case (Suc k)
    have start: "line_starts (b # t) ! line = Suc (line_starts t ! (if b = 10 then k else line))"
      and lines: "split_lines (b # t) ! line = split_lines t ! (if b = 10 then k else line)"
      and bound: "(if b = 10 then k else line) < length (line_starts t)"
      using Cons.prems Suc len by (auto simp: line_starts_Cons nth_tl)
    have stop: "line_stop (b # t) line = Suc (line_stop t (if b = 10 then k else line))"
      using Cons.prems Suc pos [of "if b = 10 then k else line"]
      by (auto simp: line_stop_def line_starts_Cons nth_tl)
    show ?thesis unfolding start stop lines using Cons.IH [OF bound] by simp
  qed
qed

text \<open>
  A line feed is a character of its own; what follows it starts another one, as in every valid string.
\<close>

definition feeds_wf :: "bytes \<Rightarrow> bool" where
  "feeds_wf t \<longleftrightarrow> str_wf t \<and> (\<forall>i < length t. t ! i = 10 \<longrightarrow> i + 1 < length t \<longrightarrow> \<not> is_continuation (t ! (i + 1)))"

lemma after_newlines_feed: "v \<in> set (after_newlines pos t) \<Longrightarrow> t ! (v - pos - 1) = 10"
proof (induction t arbitrary: pos)
  case (Cons b t)
  then consider "b = 10" "v = pos + 1" | "v \<in> set (after_newlines (pos + 1) t)" by (auto split: if_splits)
  then show ?case
  proof cases
    case 2
    then have "t ! (v - (pos + 1) - 1) = 10" using Cons.IH by blast
    moreover have "pos + 1 < v" using after_newlines_bounds [OF 2] by simp
    ultimately show ?thesis by (simp add: nth_Cons' Suc_diff_Suc)
  qed simp
qed simp

lemma line_boundaries:
  assumes "feeds_wf t" "line < length (line_starts t)"
  shows "char_boundary t (line_starts t ! line)" "char_boundary t (line_stop t line)"
proof -
  have "line_starts t ! line \<in> set (line_starts t)" using assms(2) by simp
  then consider "line_starts t ! line = 0" | "line_starts t ! line \<in> set (after_newlines 0 t)"
    unfolding line_starts_def by auto
  then show "char_boundary t (line_starts t ! line)"
  proof cases
    case 2
    note bounds = after_newlines_bounds [OF 2] and feed = after_newlines_feed [OF 2]
    let ?i = "line_starts t ! line - 1"
    have "line_starts t ! line = ?i + 1" "?i < length t" "t ! ?i = 10" using bounds feed by auto
    then show ?thesis using assms(1) unfolding feeds_wf_def char_boundary_def
      by (metis le_neq_implies_less Suc_eq_plus1 Suc_leI)
  qed (simp add: char_boundary_def)
  show "char_boundary t (line_stop t line)"
    using line_slice [OF assms(2)] by (auto simp: char_boundary_def is_continuation_def)
qed

text \<open>
  The lines the buffer shows are the lines of its text: on a well-formed buffer holding a
  valid string, for every line number below \<open>line_count\<close>, \<open>line_text\<close> and \<open>with_line_text\<close> return what
  lies between the line feeds there, whether the text is cached, rebuilt or sliced from the pieces, and
  past the last line they return nothing; reading keeps the buffer well-formed.
\<close>

theorem lines_shown:
  assumes "buffer_ok B t" "feeds_wf t"
  shows "line_count B = length (split_lines t) \<and>
    line_text B line = Some (if line < length (split_lines t) then Some (split_lines t ! line) else None) \<and>
    (\<exists>B'. with_line_text B line =
        Some (if line < length (split_lines t) then Some (split_lines t ! line) else None, B') \<and> buffer_ok B' t)"
proof -
  have T: "table_ok (tb_storage B)" "table_text (tb_storage B) = t" "index_ok t (tb_lines B)"
    "pt_len (tb_storage B) = length t"
    using assms(1) table_ok_len by (auto simp: buffer_ok_def)
  note get = index_ok_get [OF T(3)]
  have count_lines: "line_count B = length (split_lines t)" using get(2) by (simp add: line_count_def length_split_lines)
  show ?thesis
  proof (cases "line < length (line_starts t)")
    case False
    then show ?thesis using get count_lines assms(1)
      by (simp add: line_text_def with_line_text_def length_split_lines)
  next
    case True
    have stop: "line_end_offset B line = Some (line_stop t line)"
      using line_end_offset_ok [OF assms(1) True] by (simp add: line_stop_def)
    note slice = line_slice [OF True] and ends = line_boundaries [OF assms(2) True]
    have sliced: "slice_to_string (tb_storage B) (line_starts t ! line) (line_stop t line) = Some (split_lines t ! line)"
      using slice_to_string_text [OF T(1)] T(2) slice ends by simp
    have cut: "str_slice t (line_starts t ! line) (line_stop t line) = Some (split_lines t ! line)"
      using slice ends by (simp add: str_slice_def)
    obtain B' where whole: "with_text B = Some (t, B')" "buffer_ok B' t"
      using with_text_ok [OF assms(1)] by blast
    have single: "split_lines t ! line = t" if "line_starts t ! line = 0" "line_stop t line = length t"
      using slice that by simp
    show ?thesis using True get(1) stop sliced cut count_lines whole single assms(1) T(4)
      by (cases "tb_cache B")
        (auto simp: line_text_def with_line_text_def length_split_lines buffer_ok_def)
  qed
qed

theorem lines_shown_witness:
  "let B = \<lparr>tb_storage = table_new [97, 10, 99], tb_cache = None, tb_lines = Compact [0, 2],
            tb_version = 0, tb_revision = 0, tb_saved = 0, tb_next = 1, tb_undo = [], tb_redo = [],
            tb_changes = None\<rparr>
   in line_count B = 2 \<and> line_text B 1 = Some (Some [99]) \<and> line_text B 2 = Some None"
proof -
  let ?B = "\<lparr>tb_storage = table_new [97, 10, 99], tb_cache = None, tb_lines = Compact [0, 2],
            tb_version = 0, tb_revision = 0, tb_saved = 0, tb_next = 1, tb_undo = [], tb_redo = [],
            tb_changes = None\<rparr>"
  have B: "buffer_ok ?B [97, 10, 99]"
    using table_new_ok [of "[97, 10, 99]"]
    by (simp add: buffer_ok_def index_ok_def index_starts_def line_starts_def str_wf_def is_continuation_def
        usize_max_def)
  have wf: "feeds_wf [97, 10, 99]"
    by (auto simp: feeds_wf_def str_wf_def is_continuation_def less_Suc_eq numeral_3_eq_3)
  have lines: "split_lines [97, 10, 99] = [[97], [99]]" by simp
  show ?thesis
    using lines_shown [OF B wf, of 1] lines_shown [OF B wf, of 2] unfolding lines Let_def by simp
qed

end
