(* ===== verification/Editor_Search.thy ===== *)
theory Editor_Search
  imports Editor_Buffer
begin

text \<open>
  Searching the editor buffer (\<open>crates/oxideterm-editor-core/src/search.rs\<close>): the search of a contiguous
  string, and the search that walks the pieces with a bounded window. A \<open>char\<close> is the bytes that encode
  it; whether it is alphanumeric, a table of the standard library, is the argument \<open>alnum\<close>.
\<close>

record find_options =
  fo_case_sensitive :: bool
  fo_whole_word :: bool

section \<open>Characters of a string\<close>

text \<open>The first character from a position on, and the last one before a position.\<close>

definition char_from :: "bytes \<Rightarrow> nat \<Rightarrow> bytes option" where
  "char_from s i =
     (case drop i s of [] \<Rightarrow> None | b # bs \<Rightarrow> Some (b # takeWhile is_continuation bs))"

fun floor_boundary :: "bytes \<Rightarrow> nat \<Rightarrow> nat" where
  "floor_boundary s 0 = 0"
| "floor_boundary s (Suc n) = (if char_boundary s (Suc n) then Suc n else floor_boundary s n)"

definition char_before :: "bytes \<Rightarrow> nat \<Rightarrow> bytes option" where
  "char_before s i =
     (if i = 0 then None else let j = floor_boundary s (i - 1) in Some (take (i - j) (drop j s)))"

definition is_word_char :: "(bytes \<Rightarrow> bool) \<Rightarrow> bytes \<Rightarrow> bool" where
  "is_word_char alnum c \<longleftrightarrow> c = [0x5F] \<or> alnum c"

definition is_whole_word_match :: "(bytes \<Rightarrow> bool) \<Rightarrow> bytes \<Rightarrow> nat \<Rightarrow> nat \<Rightarrow> bool" where
  "is_whole_word_match alnum s start stop \<longleftrightarrow>
     \<not> (case char_before s start of None \<Rightarrow> False | Some c \<Rightarrow> is_word_char alnum c) \<and>
     \<not> (case char_from s stop of None \<Rightarrow> False | Some c \<Rightarrow> is_word_char alnum c)"

definition ascii_lower :: "byte \<Rightarrow> byte" where
  "ascii_lower b = (if 65 \<le> b \<and> b \<le> 90 then b + 32 else b)"

definition eq_ignore_ascii_case :: "bytes \<Rightarrow> bytes \<Rightarrow> bool" where
  "eq_ignore_ascii_case s t \<longleftrightarrow> map ascii_lower s = map ascii_lower t"

section \<open>Searching a string\<close>

definition next_search_offset :: "bytes \<Rightarrow> nat \<Rightarrow> nat option" where
  "next_search_offset s start =
     (if char_boundary s start \<and> start \<le> length s
      then Some (case char_from s start of None \<Rightarrow> length s | Some c \<Rightarrow> start + length c)
      else None)"

text \<open>\<open>None\<close> when \<open>&source[search_from..]\<close> panics.\<close>

definition next_match :: "bytes \<Rightarrow> bytes \<Rightarrow> nat \<Rightarrow> bool \<Rightarrow> nat option option" where
  "next_match s q search_from case_sensitive =
     (if \<not> (char_boundary s search_from \<and> search_from \<le> length s) then None
      else if case_sensitive
      then Some (find (\<lambda>i. take (length q) (drop i s) = q) [search_from..<length s + 1])
      else Some (find (\<lambda>i. char_boundary s i \<and> i + length q \<le> length s \<and> char_boundary s (i + length q) \<and>
                          eq_ignore_ascii_case (take (length q) (drop i s)) q) [search_from..<length s]))"

lemma find_upt_ge: "find P [a..<b] = Some i \<Longrightarrow> a \<le> i \<and> i < b \<and> P i"
  by (auto simp: find_Some_iff)

lemma next_match_ge: "next_match s q a c = Some (Some i) \<Longrightarrow> a \<le> i \<and> i \<le> length s"
  by (auto simp: next_match_def simp del: upt_Suc split: if_splits dest!: find_upt_ge)

lemma next_search_offset_gt:
  "next_search_offset s i = Some j \<Longrightarrow> i < j \<or> j = length s"
  by (auto simp: next_search_offset_def char_from_def split: if_splits option.splits list.splits)

function window_loop ::
    "(bytes \<Rightarrow> bool) \<Rightarrow> bytes \<Rightarrow> bytes \<Rightarrow> find_options \<Rightarrow> nat \<Rightarrow> nat \<Rightarrow> nat \<Rightarrow> text_range list \<Rightarrow>
     text_range list option" where
  "window_loop alnum s q opts base search_from stop acc =
     (case next_match s q search_from (fo_case_sensitive opts) of
        None \<Rightarrow> None
      | Some None \<Rightarrow> Some acc
      | Some (Some relative) \<Rightarrow>
          (if stop \<le> base + relative then Some acc
           else
             (let match_end = relative + length q;
                  acc = (if char_boundary s relative \<and> char_boundary s match_end \<and>
                            (\<not> fo_whole_word opts \<or> is_whole_word_match alnum s relative match_end)
                         then acc @ [range_new (base + relative) (base + match_end)] else acc) in
              (case next_search_offset s relative of
                 None \<Rightarrow> None
               | Some next_from \<Rightarrow>
                   (if length s \<le> next_from then Some acc
                    else window_loop alnum s q opts base next_from stop acc)))))"
  by pat_completeness auto

termination window_loop
  by (relation "measure (\<lambda>(alnum, s, q, opts, base, search_from, stop, acc). length s - search_from)")
    (auto dest!: next_match_ge next_search_offset_gt)

declare window_loop.simps [simp del]

definition append_window_matches ::
    "(bytes \<Rightarrow> bool) \<Rightarrow> bytes \<Rightarrow> bytes \<Rightarrow> find_options \<Rightarrow> nat \<Rightarrow> nat \<Rightarrow> nat \<Rightarrow> text_range list \<Rightarrow>
     text_range list option" where
  "append_window_matches alnum s q opts base start stop acc =
     window_loop alnum s q opts base (start - base) stop acc"

definition find_all :: "(bytes \<Rightarrow> bool) \<Rightarrow> bytes \<Rightarrow> bytes \<Rightarrow> find_options \<Rightarrow> text_range list option" where
  "find_all alnum s q opts =
     (if q = [] then Some [] else append_window_matches alnum s q opts 0 0 (length s) [])"

definition replace_all_transaction ::
    "(bytes \<Rightarrow> bool) \<Rightarrow> bytes \<Rightarrow> bytes \<Rightarrow> bytes \<Rightarrow> find_options \<Rightarrow> text_edit list option" where
  "replace_all_transaction alnum s q replacement opts =
     map_option (map (\<lambda>hit. edit_new hit replacement)) (find_all alnum s q opts)"

section \<open>Searching the pieces\<close>

definition CHUNK_BYTES :: nat where
  "CHUNK_BYTES = 64 * 1024"

record search_state =
  ss_window :: bytes
  ss_base :: nat
  ss_scanned :: nat
  ss_matches :: "text_range list"

definition scan_chunk ::
    "(bytes \<Rightarrow> bool) \<Rightarrow> bytes \<Rightarrow> find_options \<Rightarrow> bytes \<Rightarrow> search_state \<Rightarrow> search_state option" where
  "scan_chunk alnum q opts chunk S =
     (let window = ss_window S @ chunk;
          limit = floor_boundary window (length window - (length q + 4)) in
      if ss_base S + limit \<le> ss_scanned S then Some (S\<lparr>ss_window := window\<rparr>)
      else
        (case append_window_matches alnum window q opts (ss_base S) (ss_scanned S) (ss_base S + limit)
                (ss_matches S) of
           None \<Rightarrow> None
         | Some ms \<Rightarrow>
             (let discard = floor_boundary window (limit - 4) in
              Some \<lparr>ss_window = drop discard window, ss_base = ss_base S + discard,
                    ss_scanned = ss_base S + limit, ss_matches = ms\<rparr>)))"

text \<open>
  The inner \<open>while\<close>: a piece in chunks cut at a boundary. When no boundary is found before the end of a
  chunk, the code would not advance any more; that is \<open>None\<close> here.
\<close>

function scan_piece ::
    "(bytes \<Rightarrow> bool) \<Rightarrow> bytes \<Rightarrow> find_options \<Rightarrow> bytes \<Rightarrow> search_state \<Rightarrow> search_state option" where
  "scan_piece alnum q opts remaining S =
     (if remaining = [] then Some S
      else
        (let stop = floor_boundary remaining (min (length remaining) CHUNK_BYTES) in
         if stop = 0 then None
         else
           (case scan_chunk alnum q opts (take stop remaining) S of
              None \<Rightarrow> None
            | Some S' \<Rightarrow> scan_piece alnum q opts (drop stop remaining) S')))"
  by pat_completeness auto

termination scan_piece
  by (relation "measure (\<lambda>(alnum, q, opts, remaining, S). length remaining)") auto

declare scan_piece.simps [simp del]

fun scan_pieces ::
    "(bytes \<Rightarrow> bool) \<Rightarrow> bytes \<Rightarrow> find_options \<Rightarrow> bytes list \<Rightarrow> search_state \<Rightarrow> search_state option" where
  "scan_pieces alnum q opts [] S = Some S"
| "scan_pieces alnum q opts (p # ps) S =
     (case scan_piece alnum q opts p S of None \<Rightarrow> None | Some S' \<Rightarrow> scan_pieces alnum q opts ps S')"

text \<open>The chunks of a table: the texts of its pieces.\<close>

fun table_chunks :: "piece_table \<Rightarrow> piece list \<Rightarrow> bytes list option" where
  "table_chunks T [] = Some []"
| "table_chunks T (p # ps) =
     (case str_slice (source_text T (p_source p)) (p_start p) (piece_end p) of
        None \<Rightarrow> None
      | Some t \<Rightarrow> map_option (\<lambda>ts. t # ts) (table_chunks T ps))"

definition buffer_find_all ::
    "(bytes \<Rightarrow> bool) \<Rightarrow> text_buffer \<Rightarrow> bytes \<Rightarrow> find_options \<Rightarrow> text_range list option" where
  "buffer_find_all alnum B q opts =
     (if q = [] then Some []
      else
        (case table_chunks (tb_storage B) (pt_pieces (tb_storage B)) of
           None \<Rightarrow> None
         | Some parts \<Rightarrow>
             (case scan_pieces alnum q opts parts
                     \<lparr>ss_window = [], ss_base = 0, ss_scanned = 0, ss_matches = []\<rparr> of
                None \<Rightarrow> None
              | Some S \<Rightarrow>
                  append_window_matches alnum (ss_window S) q opts (ss_base S) (ss_scanned S)
                    (pt_len (tb_storage B)) (ss_matches S))))"

section \<open>What is a match\<close>

definition window_hit :: "(bytes \<Rightarrow> bool) \<Rightarrow> bytes \<Rightarrow> find_options \<Rightarrow> bytes \<Rightarrow> nat \<Rightarrow> bool" where
  "window_hit alnum q opts s i \<longleftrightarrow>
     i + length q \<le> length s \<and> char_boundary s i \<and> char_boundary s (i + length q) \<and>
     (if fo_case_sensitive opts then take (length q) (drop i s) = q
      else eq_ignore_ascii_case (take (length q) (drop i s)) q) \<and>
     (fo_whole_word opts \<longrightarrow> is_whole_word_match alnum s i (i + length q))"

definition hit_range :: "nat \<Rightarrow> nat \<Rightarrow> text_range" where
  "hit_range n i = \<lparr>tr_start = i, tr_end = i + n\<rparr>"

lemma floor_boundary_le: "floor_boundary s n \<le> n"
  by (induction n) auto

lemma floor_boundary_ok: "char_boundary s (floor_boundary s n)"
  by (induction n) (auto simp: char_boundary_def)

lemma floor_boundary_gap: "floor_boundary s n < i \<Longrightarrow> i \<le> n \<Longrightarrow> \<not> char_boundary s i"
  by (induction n) (auto simp: le_Suc_eq split: if_splits)

lemma char_from_length:
  assumes "i < length s" "char_from s i = Some c"
  shows "0 < length c" "i + length c \<le> length s" "char_boundary s (i + length c)"
    "\<And>j. i < j \<Longrightarrow> j < i + length c \<Longrightarrow> \<not> char_boundary s j"
proof -
  obtain b bs where drop: "drop i s = b # bs" using assms(1) by (cases "drop i s") auto
  have c: "c = b # takeWhile is_continuation bs" using assms(2) drop by (simp add: char_from_def)
  have len: "length s = i + 1 + length bs" using arg_cong [OF drop, of length] assms(1) by simp
  have nth: "s ! (i + 1 + k) = bs ! k" if "k < length bs" for k
    using arg_cong [OF drop, of "\<lambda>xs. xs ! (k + 1)"] assms(1) that len by simp
  show "0 < length c" using c by simp
  show bound: "i + length c \<le> length s" using c len by (simp add: length_takeWhile_le)
  show "char_boundary s (i + length c)"
  proof (cases "length (takeWhile is_continuation bs) < length bs")
    case True
    then show ?thesis
      using nth_length_takeWhile [OF True] nth [OF True] c len
      by (simp add: char_boundary_def)
  next
    case False
    then show ?thesis using c len length_takeWhile_le [of is_continuation bs] by (simp add: char_boundary_def)
  qed
  show "\<not> char_boundary s j" if "i < j" "j < i + length c" for j
  proof -
    let ?k = "j - i - 1"
    have k: "?k < length (takeWhile is_continuation bs)" using that c by simp
    then have kb: "?k < length bs" using length_takeWhile_le [of is_continuation bs] by simp
    have "is_continuation (takeWhile is_continuation bs ! ?k)" using nth_mem [OF k] set_takeWhileD by fastforce
    then have "is_continuation (bs ! ?k)" using takeWhile_nth [OF k] by simp
    moreover have "s ! j = bs ! ?k" using nth [OF kb] that by simp
    moreover have "j < length s" using bound that by simp
    ultimately show ?thesis using that by (simp add: char_boundary_def)
  qed
qed

text \<open>The step to the next position skips no boundary.\<close>

lemma next_search_offset_ok:
  assumes "char_boundary s i" "i < length s"
  obtains j where "next_search_offset s i = Some j" "i < j" "j \<le> length s" "char_boundary s j"
    "\<And>k. i < k \<Longrightarrow> k < j \<Longrightarrow> \<not> char_boundary s k"
proof -
  obtain c where c: "char_from s i = Some c"
    using assms(2) by (cases "drop i s") (auto simp: char_from_def)
  note len = char_from_length [OF assms(2) c]
  show thesis
    by (rule that [of "i + length c"]) (use assms c len in \<open>auto simp: next_search_offset_def\<close>)
qed

text \<open>What \<open>next_match\<close> finds: the first candidate, which starts a character.\<close>

definition window_candidate :: "bytes \<Rightarrow> find_options \<Rightarrow> bytes \<Rightarrow> nat \<Rightarrow> bool" where
  "window_candidate q opts s i \<longleftrightarrow>
     (if fo_case_sensitive opts then take (length q) (drop i s) = q
      else char_boundary s i \<and> i + length q \<le> length s \<and> char_boundary s (i + length q) \<and>
           eq_ignore_ascii_case (take (length q) (drop i s)) q)"

lemma candidate_inside:
  "window_candidate q opts s i \<Longrightarrow> q \<noteq> [] \<Longrightarrow> str_wf q \<Longrightarrow> i + length q \<le> length s \<and> char_boundary s i"
proof -
  assume c: "window_candidate q opts s i" and q: "q \<noteq> []" "str_wf q"
  show ?thesis
  proof (cases "fo_case_sensitive opts")
    case True
    then have eq: "take (length q) (drop i s) = q" using c by (simp add: window_candidate_def)
    have "min (length s - i) (length q) = length q" by (metis eq length_drop length_take)
    then have len: "i + length q \<le> length s" using q(1) by (cases "i \<le> length s") auto
    have "s ! i = hd q"
      using eq len q(1) by (metis hd_drop_conv_nth hd_take add_leD1 length_greater_0_conv less_le_trans
          less_add_same_cancel1)
    then have "char_boundary s i" using q len by (auto simp: char_boundary_def str_wf_def)
    then show ?thesis using len by simp
  qed (use c in \<open>auto simp: window_candidate_def\<close>)
qed

lemma find_append: "find P (xs @ ys) = (case find P xs of None \<Rightarrow> find P ys | Some x \<Rightarrow> Some x)"
  by (induction xs) auto

lemma next_match_spec:
  assumes "char_boundary s a" "a \<le> length s" "q \<noteq> []" "str_wf q"
  shows "next_match s q a (fo_case_sensitive opts) = Some (find (window_candidate q opts s) [a..<length s])"
proof (cases "fo_case_sensitive opts")
  case True
  have "\<not> window_candidate q opts s (length s)" using candidate_inside [OF _ assms(3,4)] assms(3) by fastforce
  moreover have "[a..<length s + 1] = [a..<length s] @ [length s]" using assms(2) by simp
  moreover have "window_candidate q opts s = (\<lambda>i. take (length q) (drop i s) = q)"
    using True by (simp add: window_candidate_def fun_eq_iff)
  ultimately have "find (\<lambda>i. take (length q) (drop i s) = q) [a..<length s + 1] =
      find (window_candidate q opts s) [a..<length s]"
    by (simp add: find_append split: option.split)
  then show ?thesis using True assms(1,2) by (simp add: next_match_def)
next
  case False
  then have "window_candidate q opts s = (\<lambda>i. char_boundary s i \<and> i + length q \<le> length s \<and>
      char_boundary s (i + length q) \<and> eq_ignore_ascii_case (take (length q) (drop i s)) q)"
    by (simp add: window_candidate_def fun_eq_iff)
  then show ?thesis using False assms(1,2) by (simp add: next_match_def)
qed

text \<open>The loop collects the matches of its range, in order.\<close>

lemma filter_upt_skip:
  "\<forall>k. a \<le> k \<and> k < b \<longrightarrow> \<not> P k \<Longrightarrow> a \<le> b \<Longrightarrow> filter P [a..<c] = filter P [b..<c]"
proof (cases "b \<le> c")
  case True
  assume "\<forall>k. a \<le> k \<and> k < b \<longrightarrow> \<not> P k" "a \<le> b"
  moreover have "[a..<c] = [a..<b] @ [b..<c]" using True \<open>a \<le> b\<close> upt_add_eq_append [of a b "c - b"] by simp
  ultimately show ?thesis by (simp add: filter_empty_conv)
next
  case False
  assume "\<forall>k. a \<le> k \<and> k < b \<longrightarrow> \<not> P k" "a \<le> b"
  then show ?thesis using False by (auto simp: filter_empty_conv)
qed

lemma hit_candidate: "window_hit alnum q opts s i \<Longrightarrow> window_candidate q opts s i"
  by (auto simp: window_hit_def window_candidate_def split: if_splits)

lemma find_upt_first:
  "find P [a..<b] = Some i \<Longrightarrow> a \<le> k \<Longrightarrow> k < i \<Longrightarrow> \<not> P k"
proof -
  assume f: "find P [a..<b] = Some i" and k: "a \<le> k" "k < i"
  then obtain n where n: "n < length [a..<b]" "i = [a..<b] ! n" "\<forall>j < n. \<not> P ([a..<b] ! j)"
    by (auto simp: find_Some_iff)
  have "k - a < n" "[a..<b] ! (k - a) = k" using n k by auto
  then show "\<not> P k" using n(3) by metis
qed

lemma window_loop_spec:
  assumes q: "q \<noteq> []" "str_wf q"
  shows "char_boundary s a \<Longrightarrow> a \<le> length s \<Longrightarrow>
    window_loop alnum s q opts base a stop acc =
      Some (acc @ map (\<lambda>i. hit_range (length q) (base + i)) (filter (window_hit alnum q opts s) [a..<min (stop - base) (length s)]))"
proof (induction "length s - a" arbitrary: a acc rule: less_induct)
  case less
  let ?stop = "min (stop - base) (length s)"
  let ?hit = "window_hit alnum q opts s" and ?cand = "window_candidate q opts s"
  note found = next_match_spec [OF less.prems q, of opts]
  show ?case
  proof (cases "find ?cand [a..<length s]")
    case None
    then have none: "\<not> ?hit k" if "a \<le> k" "k < length s" for k
      using that hit_candidate [of alnum q opts s k] by (auto simp: find_None_iff)
    then have "filter ?hit [a..<?stop] = []" by (auto simp: filter_empty_conv)
    then show ?thesis using None found by (simp add: window_loop.simps)
  next
    case (Some i)
    note i = find_upt_ge [OF Some]
    have cand: "i + length q \<le> length s" "char_boundary s i" using candidate_inside [OF _ q] i by blast+
    have before: "\<forall>k. a \<le> k \<and> k < i \<longrightarrow> \<not> ?hit k"
      using find_upt_first [OF Some] hit_candidate by blast
    show ?thesis
    proof (cases "stop \<le> base + i")
      case True
      then have "\<forall>k. a \<le> k \<and> k < ?stop \<longrightarrow> \<not> ?hit k" using before by auto
      then have "filter ?hit [a..<?stop] = []" by (auto simp: filter_empty_conv)
      then show ?thesis using True Some found by (simp add: window_loop.simps)
    next
      case False
      obtain j where j: "next_search_offset s i = Some j" "i < j" "j \<le> length s" "char_boundary s j"
        "\<And>k. i < k \<Longrightarrow> k < j \<Longrightarrow> \<not> char_boundary s k"
        using next_search_offset_ok [OF cand(2), of] i by blast
      let ?acc = "if ?hit i then acc @ [hit_range (length q) (base + i)] else acc"
      have test: "char_boundary s i \<and> char_boundary s (i + length q) \<and>
          (\<not> fo_whole_word opts \<or> is_whole_word_match alnum s i (i + length q)) \<longleftrightarrow> ?hit i"
        using cand i by (auto simp: window_hit_def window_candidate_def split: if_splits)
      have step: "window_loop alnum s q opts base a stop acc =
          (if length s \<le> j then Some ?acc else window_loop alnum s q opts base j stop ?acc)"
        using found Some False j(1) test
        by (subst window_loop.simps) (simp add: range_new_def hit_range_def Let_def add.assoc)
      have after: "\<forall>k. Suc i \<le> k \<and> k < j \<longrightarrow> \<not> ?hit k" using j(5) by (auto simp: window_hit_def)
      have "i < ?stop" using False i by simp
      then have "[i..<?stop] = i # [Suc i..<?stop]" by (rule upt_conv_Cons)
      then have "filter ?hit [a..<?stop] = filter ?hit (i # [Suc i..<?stop])"
        using filter_upt_skip [OF before] i by simp
      also have "\<dots> = (if ?hit i then [i] else []) @ filter ?hit [j..<?stop]"
        using filter_upt_skip [OF after] j(2) by simp
      finally have hits: "filter ?hit [a..<?stop] = (if ?hit i then [i] else []) @ filter ?hit [j..<?stop]" .
      show ?thesis
      proof (cases "length s \<le> j")
        case True
        then have "filter ?hit [j..<?stop] = []" by simp
        then show ?thesis using step True hits by simp
      next
        case False
        have "window_loop alnum s q opts base j stop ?acc =
          Some (?acc @ map (\<lambda>i. hit_range (length q) (base + i)) (filter ?hit [j..<?stop]))"
        proof (rule less.hyps)
          show "length s - j < length s - a" using i j(2) False by (intro diff_less_mono2) auto
        qed (use j(3,4) in simp_all)
        then show ?thesis using step False hits by simp
      qed
    qed
  qed
qed

text \<open>The search of a string finds every match, overlapping ones included, and nothing else.\<close>

lemma find_all_spec:
  assumes "q \<noteq> []" "str_wf q"
  shows "find_all alnum s q opts =
    Some (map (hit_range (length q)) (filter (window_hit alnum q opts s) [0..<length s]))"
  using window_loop_spec [OF assms, of s 0 alnum opts 0 "length s" "[]"] assms(1)
  by (simp add: find_all_def append_window_matches_def char_boundary_def [of _ 0])

section \<open>The window\<close>

text \<open>No character is longer than four bytes.\<close>

definition utf8_shape :: "bytes \<Rightarrow> bool" where
  "utf8_shape s \<longleftrightarrow>
     (\<forall>i. i + 3 < length s \<longrightarrow> \<not> (is_continuation (s ! i) \<and> is_continuation (s ! (i + 1)) \<and>
        is_continuation (s ! (i + 2)) \<and> is_continuation (s ! (i + 3))))"

lemma floor_boundary_near:
  assumes "utf8_shape s" "n \<le> length s"
  shows "n \<le> floor_boundary s n + 3"
proof (rule ccontr)
  assume far: "\<not> n \<le> floor_boundary s n + 3"
  let ?f = "floor_boundary s n"
  have cont: "is_continuation (s ! j)" if "?f < j" "j \<le> n" "j < length s" for j
    using floor_boundary_gap [OF that(1,2)] that by (auto simp: char_boundary_def split: if_splits)
  have end_ok: "n < length s"
    using floor_boundary_gap [of s n n] far assms(2) by (auto simp: char_boundary_def split: if_splits)
  obtain m where m: "n = m + 3" using far by (metis add.commute le_add2 le_iff_add nat_le_linear order_trans)
  have "is_continuation (s ! m)" "is_continuation (s ! (m + 1))" "is_continuation (s ! (m + 2))"
    "is_continuation (s ! (m + 3))"
    using far end_ok m by (auto intro!: cont)
  then show False using assms(1) end_ok m by (auto simp: utf8_shape_def)
qed

text \<open>\<open>w\<close> is a part of the text \<open>t\<close>: what of the text can be seen in it.\<close>

definition text_part :: "bytes \<Rightarrow> bytes \<Rightarrow> bytes \<Rightarrow> bytes \<Rightarrow> bool" where
  "text_part t pre w rest \<longleftrightarrow> t = pre @ w @ rest \<and> utf8_shape t \<and> char_boundary t (length pre)"

lemma part_boundary:
  assumes "text_part t pre w rest" "length pre \<le> x"
    and "x < length pre + length w \<or> rest = [] \<and> x = length pre + length w"
  shows "char_boundary w (x - length pre) = char_boundary t x"
proof (cases "x = length pre")
  case True
  have "char_boundary t (length pre)" using assms(1) unfolding text_part_def by blast
  then show ?thesis using True by (simp add: char_boundary_def [of w])
next
  case False
  then obtain i where i: "x = length pre + i" "0 < i" using assms(2) by (metis le_add_diff_inverse less_add_same_cancel1 nat_less_le)
  have t: "t = pre @ w @ rest" using assms(1) unfolding text_part_def by blast
  have len: "length t = length pre + length w + length rest" unfolding t by simp
  show ?thesis
  proof (cases "i < length w")
    case True
    then have "t ! x = w ! i" unfolding t i(1) by (simp add: nth_append)
    then show ?thesis using True i len by (simp add: char_boundary_def)
  next
    case False
    then have "rest = []" "i = length w" using assms(3) i(1) by auto
    then show ?thesis using i len by (simp add: char_boundary_def)
  qed
qed

lemma part_char_from:
  assumes "text_part t pre w rest" "length pre \<le> x" "x + 4 \<le> length pre + length w \<or> rest = []"
  shows "char_from w (x - length pre) = char_from t x"
proof -
  have t: "t = pre @ w @ rest" "utf8_shape t" using assms(1) unfolding text_part_def by blast+
  let ?d = "drop (x - length pre) w"
  show ?thesis
  proof (cases "rest = []")
    case True
    then show ?thesis using t assms(2) by (simp add: char_from_def)
  next
    case False
    then have len: "x + 4 \<le> length pre + length w" using assms(3) by simp
    have drop: "drop x t = ?d @ rest" using t(1) assms(2) len by simp
    obtain b bs where d: "?d = b # bs" using len assms(2) by (cases ?d) auto
    have bs: "3 \<le> length bs" using arg_cong [OF d, of length] len assms(2) by simp
    have nth: "t ! (x + 1 + k) = (bs @ rest) ! k" if "k < length (bs @ rest)" for k
    proof -
      have "drop (x + 1) t = bs @ rest"
        using drop d by (metis append_Cons drop_Suc list.sel(3) tl_drop Suc_eq_plus1)
      moreover have "k < length (drop (x + 1) t)" using calculation that by simp
      ultimately show ?thesis using nth_drop [of "x + 1" t k] by (metis length_drop less_or_eq_imp_le
            add_leD1 diff_is_0_eq not_less_zero nat_le_linear)
    qed
    have "takeWhile is_continuation (bs @ rest) = takeWhile is_continuation bs"
    proof (cases "\<forall>c \<in> set bs. is_continuation c")
      case True
      have len4: "3 < length (bs @ rest)" using bs False by (cases rest) simp_all
      have three: "is_continuation ((bs @ rest) ! k)" if "k < 3" for k
        using True bs that by (simp add: nth_append)
      have "\<not> is_continuation ((bs @ rest) ! 3)"
      proof
        assume four: "is_continuation ((bs @ rest) ! 3)"
        have "x + 1 + 3 < length t" using arg_cong [OF drop, of length] d len4 by simp
        have cont: "is_continuation (t ! (x + 1 + k))" if "k < 4" for k
        proof -
          have "is_continuation ((bs @ rest) ! k)" 
          proof (cases "k < 3")
            case False
            then have "k = 3" using that by simp
            then show ?thesis using four by simp
          qed (rule three)
          moreover have "k < length (bs @ rest)" using that len4 by linarith
          ultimately show ?thesis using nth [of k] by metis
        qed
        show False
          using t(2) [unfolded utf8_shape_def, THEN spec, of "x + 1"] \<open>x + 1 + 3 < length t\<close>
            cont [of 0] cont [of 1] cont [of 2] cont [of 3] by simp
      qed
      then have hd: "length bs = 3" "\<not> is_continuation (hd rest)"
        using True bs False by (auto simp: nth_append hd_conv_nth split: if_splits)
      then show ?thesis using False True by (cases rest) (simp_all add: takeWhile_append2 takeWhile_eq_all_conv [THEN iffD2])
    next
      case False
      then show ?thesis by (auto simp: takeWhile_append1)
    qed
    then show ?thesis using drop d by (simp add: char_from_def)
  qed
qed

lemma floor_boundary_unique:
  "f \<le> n \<Longrightarrow> char_boundary s f \<Longrightarrow> (\<And>i. f < i \<Longrightarrow> i \<le> n \<Longrightarrow> \<not> char_boundary s i) \<Longrightarrow> floor_boundary s n = f"
  using floor_boundary_le [of s n] floor_boundary_ok [of s n] floor_boundary_gap [of s n f]
  by (metis le_less_linear linorder_neqE_nat order.strict_implies_order)

lemma part_char_before:
  assumes "text_part t pre w rest" "length pre \<le> x" "x \<le> length pre + length w"
    and "pre = [] \<or> length pre + 4 \<le> x"
  shows "char_before w (x - length pre) = char_before t x"
proof (cases "x = 0")
  case True
  then show ?thesis using assms(2) by (simp add: char_before_def)
next
  case False
  let ?n = "length pre" and ?f = "floor_boundary t (x - 1)"
  have t: "t = pre @ w @ rest" "utf8_shape t" using assms(1) unfolding text_part_def by blast+
  have "x - 1 \<le> length t" using t(1) assms(3) by simp
  then have near: "x - 1 \<le> ?f + 3" using floor_boundary_near [OF t(2)] by blast
  have f: "?n \<le> ?f" "?f \<le> x - 1" using near assms(4) False floor_boundary_le [of t "x - 1"] by auto
  have in_w: "i < ?n + length w" if "i \<le> x - 1" for i using that assms(3) False by simp
  have "floor_boundary w (x - 1 - ?n) = ?f - ?n"
  proof (rule floor_boundary_unique)
    show "?f - ?n \<le> x - 1 - ?n" using f by simp
    show "char_boundary w (?f - ?n)"
      using part_boundary [OF assms(1) f(1)] in_w [OF f(2)] floor_boundary_ok by simp
    show "\<not> char_boundary w i" if "?f - ?n < i" "i \<le> x - 1 - ?n" for i
    proof -
      have "?f < i + ?n" "i + ?n \<le> x - 1" using that f by auto
      then show ?thesis
        using floor_boundary_gap [of t "x - 1" "i + ?n"] part_boundary [OF assms(1), of "i + ?n"] in_w by simp
    qed
  qed
  moreover have "take (x - ?f) (drop ?f t) = take (x - ?f) (drop (?f - ?n) w)"
    using t(1) f assms(3) False by simp
  moreover have "x - ?n \<noteq> 0" using f False by simp
  moreover have "x - ?n - (?f - ?n) = x - ?f" "x - ?n - 1 = x - 1 - ?n" using f by auto
  ultimately show ?thesis using False by (simp add: char_before_def Let_def)
qed

text \<open>Away from its ends, the part shows the matches of the text.\<close>

lemma part_hit:
  assumes "text_part t pre w rest" "length pre \<le> p"
    and "rest = [] \<or> p + length q + 4 < length pre + length w"
    and "pre = [] \<or> length pre + 4 \<le> p"
  shows "window_hit alnum q opts w (p - length pre) = window_hit alnum q opts t p"
proof -
  let ?n = "length pre"
  have t: "t = pre @ w @ rest" using assms(1) by (simp add: text_part_def)
  have inside: "p - ?n + length q \<le> length w \<longleftrightarrow> p + length q \<le> length t"
    using assms(2,3) t by auto
  show ?thesis
  proof (cases "p + length q \<le> length t")
    case False
    then show ?thesis using inside by (simp add: window_hit_def)
  next
    case True
    have fits: "p + length q \<le> ?n + length w" using assms(3) True t by auto
    have first: "char_boundary w (p - ?n) = char_boundary t p"
      using part_boundary [OF assms(1,2)] fits assms(3) by (cases "p < ?n + length w") auto
    have q: "p - ?n + length q = (p + length q) - ?n" using assms(2) by simp
    have second: "char_boundary w (p + length q - ?n) = char_boundary t (p + length q)"
      using part_boundary [OF assms(1), of "p + length q"] assms(2,3) fits
      by (cases "p + length q < ?n + length w") auto
    have slice: "take (length q) (drop (p - ?n) w) = take (length q) (drop p t)"
      using t assms(2) fits by simp
    have "char_before w (p - ?n) = char_before t p"
      using fits by (intro part_char_before [OF assms(1,2) _ assms(4)]) simp
    moreover have "char_from w (p + length q - ?n) = char_from t (p + length q)"
      using assms(2,3) by (intro part_char_from [OF assms(1)]) auto
    ultimately show ?thesis
      using inside first second slice by (simp add: window_hit_def is_whole_word_match_def q)
  qed
qed

section \<open>Searching the pieces finds what searching the text finds\<close>

text \<open>After \<open>n\<close> bytes of the text.\<close>

definition search_inv ::
    "(bytes \<Rightarrow> bool) \<Rightarrow> bytes \<Rightarrow> find_options \<Rightarrow> bytes \<Rightarrow> nat \<Rightarrow> search_state \<Rightarrow> bool" where
  "search_inv alnum q opts t n S \<longleftrightarrow>
     n \<le> length t \<and> ss_base S \<le> ss_scanned S \<and> ss_scanned S \<le> n \<and>
     ss_window S = take (n - ss_base S) (drop (ss_base S) t) \<and>
     char_boundary t (ss_base S) \<and> char_boundary t (ss_scanned S) \<and>
     (ss_base S = 0 \<or> ss_base S + 4 \<le> ss_scanned S) \<and>
     ss_matches S = map (hit_range (length q)) (filter (window_hit alnum q opts t) [0..<ss_scanned S])"

lemma text_part_take:
  assumes "utf8_shape t" "char_boundary t base" "base \<le> n" "n \<le> length t"
  shows "text_part t (take base t) (take (n - base) (drop base t)) (drop n t)"
    and "length (take base t) = base" and "length (take (n - base) (drop base t)) = n - base"
proof -
  have "t = take base t @ drop base t" by simp
  also have "drop base t = take (n - base) (drop base t) @ drop (n - base) (drop base t)" by (simp only: append_take_drop_id)
  also have "drop (n - base) (drop base t) = drop n t" using assms(3) by simp
  finally show "text_part t (take base t) (take (n - base) (drop base t)) (drop n t)"
    using assms by (simp add: text_part_def min.absorb2)
  show "length (take base t) = base" "length (take (n - base) (drop base t)) = n - base" using assms(3,4) by simp_all
qed

text \<open>A search of the window from \<open>scanned\<close> up to a position whose matches it shows whole.\<close>

lemma window_search:
  assumes inv: "search_inv alnum q opts t n S" and shape: "utf8_shape t" and q: "q \<noteq> []" "str_wf q"
    and "ss_scanned S \<le> stop" "stop \<le> n" "n = length t \<or> stop + length q + 4 \<le> n"
  shows "append_window_matches alnum (ss_window S) q opts (ss_base S) (ss_scanned S) stop (ss_matches S) =
    Some (map (hit_range (length q)) (filter (window_hit alnum q opts t) [0..<stop]))"
proof -
  let ?base = "ss_base S" and ?scanned = "ss_scanned S" and ?w = "ss_window S"
  let ?hit = "window_hit alnum q opts t"
  have S: "n \<le> length t" "?base \<le> ?scanned" "?scanned \<le> n" "?w = take (n - ?base) (drop ?base t)"
    "char_boundary t ?base" "char_boundary t ?scanned" "?base = 0 \<or> ?base + 4 \<le> ?scanned"
    "ss_matches S = map (hit_range (length q)) (filter ?hit [0..<?scanned])"
    using inv by (simp_all add: search_inv_def)
  note part = text_part_take [OF shape S(5) _ S(1), folded S(4)]
  have bn: "?base \<le> n" using S(2,3) by simp
  note part = part [OF bn]
  have inside: "?scanned - ?base \<le> length ?w" using part(3) S(2,3) by simp
  have a: "char_boundary ?w (?scanned - ?base)"
  proof (cases "?scanned = n")
    case True
    then have "?scanned - ?base = length ?w" using part(3) by simp
    then show ?thesis by (simp add: char_boundary_def)
  next
    case False
    then have "?scanned < length (take ?base t) + length ?w" using part(2,3) S(2,3) by simp
    then show ?thesis using part_boundary [OF part(1), of ?scanned] part(2) S(2,6) by simp
  qed
  have shown: "window_hit alnum q opts ?w (p - ?base) = ?hit p" if "?scanned \<le> p" "p < stop" for p
    using part_hit [OF part(1), of p q alnum opts] that assms(7) part(2,3) S(1,2,7) bn by auto
  have shift: "[?scanned - ?base..<stop - ?base] = map (\<lambda>p. p - ?base) [?scanned..<stop]"
    using S(2) by (intro nth_equalityI) auto
  have "min (stop - ?base) (length ?w) = stop - ?base" using assms(6) part(3) by simp
  then have "append_window_matches alnum ?w q opts ?base ?scanned stop (ss_matches S) =
      Some (ss_matches S @ map (\<lambda>i. hit_range (length q) (?base + i))
        (filter (window_hit alnum q opts ?w) [?scanned - ?base..<stop - ?base]))"
    using window_loop_spec [OF q a inside] by (simp add: append_window_matches_def)
  also have "filter (window_hit alnum q opts ?w) [?scanned - ?base..<stop - ?base] =
      map (\<lambda>p. p - ?base) (filter ?hit [?scanned..<stop])"
    unfolding shift filter_map comp_def using shown by (intro arg_cong [of _ _ "map _"] filter_cong) auto
  also have "map (\<lambda>i. hit_range (length q) (?base + i)) (map (\<lambda>p. p - ?base) (filter ?hit [?scanned..<stop])) =
      map (hit_range (length q)) (filter ?hit [?scanned..<stop])"
    using S(2) by simp
  also have "ss_matches S @ map (hit_range (length q)) (filter ?hit [?scanned..<stop]) =
      map (hit_range (length q)) (filter ?hit ([0..<?scanned] @ [?scanned..<stop]))" using S(8) by simp
  also have "[0..<?scanned] @ [?scanned..<stop] = [0..<stop]"
    using assms(5) by (metis le_add_diff_inverse le0 upt_add_eq_append)
  finally show ?thesis .
qed

lemma scan_chunk_inv:
  assumes inv: "search_inv alnum q opts t n S" and shape: "utf8_shape t" and q: "q \<noteq> []" "str_wf q"
    and part: "chunk = take k (drop n t)" "n + k \<le> length t"
  shows "\<exists>S'. scan_chunk alnum q opts chunk S = Some S' \<and> search_inv alnum q opts t (n + k) S'"
proof -
  let ?base = "ss_base S" and ?scanned = "ss_scanned S"
  let ?w = "ss_window S @ chunk"
  define limit where "limit = floor_boundary ?w (length ?w - (length q + 4))"
  have S: "n \<le> length t" "?base \<le> ?scanned" "?scanned \<le> n" "ss_window S = take (n - ?base) (drop ?base t)"
    "char_boundary t ?base" "char_boundary t ?scanned" "?base = 0 \<or> ?base + 4 \<le> ?scanned"
    "ss_matches S = map (hit_range (length q)) (filter (window_hit alnum q opts t) [0..<?scanned])"
    using inv by (simp_all add: search_inv_def)
  have w: "?w = take (n + k - ?base) (drop ?base t)"
  proof -
    have "n + k - ?base = (n - ?base) + k" "drop n t = drop (n - ?base) (drop ?base t)" using S(2,3) by simp_all
    then show ?thesis using S(4) part(1) by (simp add: take_add)
  qed
  have bn: "?base \<le> n + k" using S(2,3) by simp
  note tp = text_part_take [OF shape S(5) bn part(2), folded w]
  have inv': "search_inv alnum q opts t (n + k) (S\<lparr>ss_window := ?w\<rparr>)"
    using S part(2) w by (simp add: search_inv_def)
  show ?thesis
  proof (cases "?base + limit \<le> ?scanned")
    case True
    then show ?thesis using inv' by (simp add: scan_chunk_def Let_def del: length_append flip: limit_def)
  next
    case False
    define discard where "discard = floor_boundary ?w (limit - 4)"
    have limits: "limit \<le> length ?w - (length q + 4)" "0 < limit" "limit + length q + 4 \<le> length ?w"
      using floor_boundary_le [of ?w "length ?w - (length q + 4)", folded limit_def] False S(2) by auto
    have len: "length ?w = n + k - ?base" using tp(3) .
    have search: "append_window_matches alnum ?w q opts ?base ?scanned (?base + limit) (ss_matches S) =
        Some (map (hit_range (length q)) (filter (window_hit alnum q opts t) [0..<?base + limit]))"
    proof -
      have "?scanned \<le> ?base + limit" "?base + limit \<le> n + k" "?base + limit + length q + 4 \<le> n + k"
        using False limits(3) len bn by simp_all
      then show ?thesis using window_search [OF inv' shape q, of "?base + limit"] by simp
    qed
    have discard: "discard \<le> limit - 4" by (simp add: discard_def floor_boundary_le)
    have seen: "char_boundary t (?base + x)" if "char_boundary ?w x" "x \<le> limit" for x
    proof -
      have "limit + length q + 4 \<le> n + k - ?base" using limits(3) len by simp
      then have "?base + x < n + k" using that(2) by linarith
      then have "?base + x < length (take ?base t) + length ?w" using tp(2) len bn by linarith
      then show ?thesis using part_boundary [OF tp(1), of "?base + x"] that(1) tp(2) by simp
    qed
    have bounds: "char_boundary ?w limit" "char_boundary ?w discard"
      by (simp_all add: limit_def discard_def floor_boundary_ok)
    let ?S = "\<lparr>ss_window = drop discard ?w, ss_base = ?base + discard, ss_scanned = ?base + limit,
              ss_matches = map (hit_range (length q)) (filter (window_hit alnum q opts t) [0..<?base + limit])\<rparr>"
    have "scan_chunk alnum q opts chunk S = Some ?S"
      using False search by (simp add: scan_chunk_def Let_def del: length_append flip: limit_def discard_def)
    moreover have "search_inv alnum q opts t (n + k) ?S"
    proof -
      have "drop discard ?w = take (n + k - (?base + discard)) (drop (?base + discard) t)"
        unfolding w by (simp add: drop_take add.commute)
      moreover have "?base + discard = 0 \<or> ?base + discard + 4 \<le> ?base + limit"
      proof (cases "4 \<le> limit")
        case False
        then have "discard = 0" using discard by simp
        then show ?thesis using S(7) \<open>\<not> ?base + limit \<le> ?scanned\<close> by auto
      qed (use discard in linarith)
      moreover have "discard \<le> limit" "?base + limit \<le> n + k" using discard limits(3) len bn by simp_all
      ultimately show ?thesis
        using part(2) seen [of discard] seen [of limit] bounds
        by (simp add: search_inv_def)
    qed
    ultimately show ?thesis by blast
  qed
qed

lemma floor_boundary_length: "floor_boundary s (length s) = length s"
  by (cases "length s") (auto simp: char_boundary_def)

lemma utf8_shape_part: "utf8_shape t \<Longrightarrow> utf8_shape (take k (drop n t))"
  unfolding utf8_shape_def
proof (intro allI impI)
  fix i
  assume t: "\<forall>i. i + 3 < length t \<longrightarrow> \<not> (is_continuation (t ! i) \<and> is_continuation (t ! (i + 1)) \<and>
        is_continuation (t ! (i + 2)) \<and> is_continuation (t ! (i + 3)))"
    and i: "i + 3 < length (take k (drop n t))"
  have nth: "take k (drop n t) ! (i + j) = t ! (n + i + j)" if "j \<le> 3" for j
    using i that by (auto simp: add.assoc intro!: nth_drop)
  have "n + i + 3 < length t" using i by (simp, linarith)
  then show "\<not> (is_continuation (take k (drop n t) ! i) \<and> is_continuation (take k (drop n t) ! (i + 1)) \<and>
        is_continuation (take k (drop n t) ! (i + 2)) \<and> is_continuation (take k (drop n t) ! (i + 3)))"
    using t [rule_format, of "n + i"] nth [of 0] nth [of 1] nth [of 2] nth [of 3] by simp
qed

lemma scan_piece_inv:
  assumes shape: "utf8_shape t" and q: "q \<noteq> []" "str_wf q"
  shows "search_inv alnum q opts t n S \<Longrightarrow> remaining = take k (drop n t) \<Longrightarrow> n + k \<le> length t \<Longrightarrow>
   \<exists>S'. scan_piece alnum q opts remaining S = Some S' \<and> search_inv alnum q opts t (n + k) S'"
proof (induction k arbitrary: n S remaining rule: less_induct)
  case (less k)
  have len: "length remaining = k" using less.prems by simp
  show ?case
  proof (cases "remaining = []")
    case True
    then show ?thesis using less.prems(1) len by (simp add: scan_piece.simps)
  next
    case False
    let ?m = "min (length remaining) CHUNK_BYTES"
    let ?stop = "floor_boundary remaining ?m"
    have stop: "?stop \<le> k" "0 < ?stop"
    proof -
      show "?stop \<le> k" using floor_boundary_le [of remaining ?m] len by simp
      have near: "?m \<le> ?stop + 3"
        using floor_boundary_near [OF utf8_shape_part [OF shape]] less.prems(2) by (metis min.cobounded1)
      show "0 < ?stop"
      proof (cases "length remaining \<le> CHUNK_BYTES")
        case True
        then show ?thesis using False by (simp add: min_def floor_boundary_length)
      qed (use near in \<open>simp add: CHUNK_BYTES_def\<close>)
    qed
    have pieces: "take ?stop remaining = take ?stop (drop n t)"
      "drop ?stop remaining = take (k - ?stop) (drop (n + ?stop) t)"
      using less.prems(2) stop(1) by (simp_all add: drop_take add.commute)
    have "n + ?stop \<le> length t" using less.prems(3) stop(1) by simp
    from scan_chunk_inv [OF less.prems(1) shape q pieces(1) this] obtain S' where
      S': "scan_chunk alnum q opts (take ?stop remaining) S = Some S'" "search_inv alnum q opts t (n + ?stop) S'"
      by blast
    have "\<exists>S''. scan_piece alnum q opts (drop ?stop remaining) S' = Some S'' \<and>
        search_inv alnum q opts t (n + ?stop + (k - ?stop)) S''"
      using less.prems(3) stop by (intro less.IH [OF _ S'(2) pieces(2)]) auto
    then show ?thesis
      using False stop S'(1) by (subst scan_piece.simps) (simp add: Let_def)
  qed
qed

lemma scan_pieces_inv:
  assumes shape: "utf8_shape t" and q: "q \<noteq> []" "str_wf q"
  shows "search_inv alnum q opts t n S \<Longrightarrow> t = pre @ concat ps @ rest \<Longrightarrow> length pre = n \<Longrightarrow>
   \<exists>S'. scan_pieces alnum q opts ps S = Some S' \<and> search_inv alnum q opts t (n + length (concat ps)) S'"
proof (induction ps arbitrary: n S pre)
  case (Cons p ps)
  have "p = take (length p) (drop n t)" "n + length p \<le> length t"
    unfolding Cons.prems(2) using Cons.prems(3) by simp_all
  from scan_piece_inv [OF shape q Cons.prems(1) this] obtain S' where
    S': "scan_piece alnum q opts p S = Some S'" "search_inv alnum q opts t (n + length p) S'" by blast
  have "\<exists>S''. scan_pieces alnum q opts ps S' = Some S'' \<and>
      search_inv alnum q opts t (n + length p + length (concat ps)) S''"
    using Cons.prems(2,3) by (intro Cons.IH [OF S'(2), of "pre @ p"]) simp_all
  then show ?case using S'(1) by (simp add: add.assoc)
qed simp

lemma table_chunks_text: "list_all (piece_ok T) ps \<Longrightarrow> table_chunks T ps = Some (map (piece_text T) ps)"
  by (induction ps) (simp_all add: piece_slice_ok)

text \<open>
  Property C29: the streaming search equals the search of the whole text: however a document's text is
  divided into pieces, \<open>TextBuffer::find_all\<close>, which looks at it through a window of bounded size that
  drops what it has scanned, returns the matches that \<open>find_all\<close> returns on the contiguous text: every
  candidate, overlapping ones included, across pieces and chunks and with the whole-word test seeing the
  neighbouring characters; it always returns.
\<close>

theorem streaming_search_exact:
  assumes "buffer_ok B t" "utf8_shape t" "str_wf q"
  shows "\<exists>ms. buffer_find_all alnum B q opts = Some ms \<and> find_all alnum t q opts = Some ms \<and>
    ms = (if q = [] then [] else map (hit_range (length q)) (filter (window_hit alnum q opts t) [0..<length t]))"
proof (cases "q = []")
  case True
  then show ?thesis by (simp add: buffer_find_all_def find_all_def)
next
  case False
  note q = False assms(3)
  have T: "table_ok (tb_storage B)" "table_text (tb_storage B) = t" "pt_len (tb_storage B) = length t"
    using assms(1) table_ok_len by (auto simp: buffer_ok_def)
  let ?parts = "map (piece_text (tb_storage B)) (pt_pieces (tb_storage B))"
  have parts: "table_chunks (tb_storage B) (pt_pieces (tb_storage B)) = Some ?parts" "concat ?parts = t"
    using T(1,2) table_chunks_text by (auto simp: table_ok_def table_text_def pieces_text_def)
  let ?S0 = "\<lparr>ss_window = [], ss_base = 0, ss_scanned = 0, ss_matches = []\<rparr>"
  have "search_inv alnum q opts t 0 ?S0" by (simp add: search_inv_def char_boundary_def)
  from scan_pieces_inv [OF assms(2) q this, of "[]" ?parts "[]"] obtain S where
    S: "scan_pieces alnum q opts ?parts ?S0 = Some S" "search_inv alnum q opts t (length t) S"
    using parts(2) by auto
  have "append_window_matches alnum (ss_window S) q opts (ss_base S) (ss_scanned S) (length t) (ss_matches S) =
      Some (map (hit_range (length q)) (filter (window_hit alnum q opts t) [0..<length t]))"
    using S(2) by (intro window_search [OF S(2) assms(2) q]) (auto simp: search_inv_def)
  then show ?thesis using False parts(1) S(1) T(3) find_all_spec [OF q] by (simp add: buffer_find_all_def)
qed

theorem streaming_search_exact_witness:
  "let B = \<lparr>tb_storage = \<lparr>pt_original = [97, 97], pt_add = [97, 32],
              pt_pieces = [\<lparr>p_source = Original, p_start = 0, p_len = 2\<rparr>,
                           \<lparr>p_source = Add, p_start = 0, p_len = 2\<rparr>], pt_len = 4\<rparr>,
            tb_cache = None, tb_lines = Compact [0], tb_version = 0, tb_revision = 0, tb_saved = 0,
            tb_next = 1, tb_undo = [], tb_redo = [], tb_changes = None\<rparr>
   in buffer_find_all (\<lambda>c. True) B [65, 97] \<lparr>fo_case_sensitive = False, fo_whole_word = False\<rparr> =
      Some [hit_range 2 0, hit_range 2 1]"
proof -
  let ?T = "\<lparr>pt_original = [97, 97], pt_add = [97, 32],
              pt_pieces = [\<lparr>p_source = Original, p_start = 0, p_len = 2\<rparr>,
                           \<lparr>p_source = Add, p_start = 0, p_len = 2\<rparr>], pt_len = 4\<rparr>"
  let ?B = "\<lparr>tb_storage = ?T,
            tb_cache = None, tb_lines = Compact [0], tb_version = 0, tb_revision = 0, tb_saved = 0,
            tb_next = 1, tb_undo = [], tb_redo = [], tb_changes = None\<rparr>"
  let ?opts = "\<lparr>fo_case_sensitive = False, fo_whole_word = False\<rparr>"
  have "table_ok ?T \<and> table_text ?T = [97, 97, 97, 32]" by code_simp
  then have B: "buffer_ok ?B [97, 97, 97, 32]"
    by (simp add: buffer_ok_def index_ok_def index_starts_def line_starts_def usize_max_def)
  have wf: "utf8_shape [97, 97, 97, 32]" "str_wf [65, 97]"
    by (auto simp: utf8_shape_def is_continuation_def str_wf_def less_Suc_eq numeral_3_eq_3)
  have hits: "filter (window_hit (\<lambda>c. True) [65, 97] ?opts [97, 97, 97, 32]) [0..<4] = [0, 1]"
    by code_simp
  have len: "length ([97, 97, 97, 32] :: bytes) = 4" "length ([65, 97] :: bytes) = 2" by simp_all
  show ?thesis
    using streaming_search_exact [OF B wf, of "\<lambda>c. True" ?opts] unfolding len hits Let_def by simp
qed

lemma edits_sorted_apart:
  "edits_sorted pos len es \<Longrightarrow> a \<in> set es \<Longrightarrow> b \<in> set es \<Longrightarrow> a \<noteq> b \<Longrightarrow>
   edit_end a \<le> edit_start b \<or> edit_end b \<le> edit_start a"
proof (induction es arbitrary: pos)
  case (Cons e es)
  then show ?case using edits_sorted_le [of "edit_end e" len es a] edits_sorted_le [of "edit_end e" len es b]
    by auto
qed simp

lemma transaction_rejected:
  assumes "buffer_ok B t" "\<not> edits_valid t (sort_edits es)" "es \<noteq> []"
  shows "\<exists>B' err. apply_transaction shared es B = Some (B', Inl err) \<and> tb_storage B' = tb_storage B"
proof -
  define B1 where "B1 = B\<lparr>tb_next := saturating_inc (tb_next B)\<rparr>"
  have "buffer_ok B1 t" using assms(1) by (simp add: buffer_ok_def B1_def)
  from apply_rejected [OF this assms(2), of shared] obtain err where
    "apply_edits_internal shared es B1 = Some (B1, Inl err)" by blast
  then have "apply_transaction shared es B = Some (B1, Inl err)"
    using assms(3) by (simp add: apply_transaction_def allocate_content_revision_def Let_def B1_def)
  moreover have "tb_storage B1 = tb_storage B" by (simp add: B1_def)
  ultimately show ?thesis by blast
qed

text \<open>
  Replace-all is refused where matches overlap: \<open>find_all\<close> reports the overlapping matches of
  a query in itself, so the transaction built from them has overlapping edits and \<open>apply_transaction\<close>
  rejects it and changes nothing; replacing every ''aa'' in ''aaa'' is an error, although the query occurs.
\<close>

theorem replace_all_overlap_rejected:
  assumes "buffer_ok B t" "q \<noteq> []" "str_wf q" "str_wf replacement"
    and "i < j" "j < i + length q" "window_hit alnum q opts t i" "window_hit alnum q opts t j"
  shows "\<exists>es B' err. replace_all_transaction alnum t q replacement opts = Some es \<and> es \<noteq> [] \<and>
    apply_transaction shared es B = Some (B', Inl err) \<and> tb_storage B' = tb_storage B"
proof -
  let ?hits = "filter (window_hit alnum q opts t) [0..<length t]"
  let ?es = "map (\<lambda>hit. edit_new hit replacement) (map (hit_range (length q)) ?hits)"
  have es: "replace_all_transaction alnum t q replacement opts = Some ?es"
    using find_all_spec [OF assms(2,3)] by (simp add: replace_all_transaction_def)
  have inside: "p < length t" if "window_hit alnum q opts t p" for p
    using that assms(2) by (cases q) (auto simp: window_hit_def)
  have mem: "edit_new (hit_range (length q) p) replacement \<in> set ?es" if "window_hit alnum q opts t p" for p
    using that inside by auto
  have "\<not> edits_valid t (sort_edits ?es)"
  proof
    assume "edits_valid t (sort_edits ?es)"
    then have "edits_sorted 0 (length t) (sort_edits ?es)" by (simp add: edits_valid_def)
    moreover have "edit_new (hit_range (length q) i) replacement \<in> set (sort_edits ?es)"
      "edit_new (hit_range (length q) j) replacement \<in> set (sort_edits ?es)"
      using mem assms(7,8) by simp_all
    ultimately have "edit_end (edit_new (hit_range (length q) i) replacement) \<le> edit_start (edit_new (hit_range (length q) j) replacement) \<or>
        edit_end (edit_new (hit_range (length q) j) replacement) \<le> edit_start (edit_new (hit_range (length q) i) replacement)"
      using assms(5) by (intro edits_sorted_apart) (auto simp: edit_new_def hit_range_def)
    then show False using assms(5,6) by (simp add: edit_new_def hit_range_def)
  qed
  moreover have "?es \<noteq> []" using mem [OF assms(7)] by (metis empty_iff list.set(1))
  ultimately obtain B' err where "apply_transaction shared ?es B = Some (B', Inl err)" "tb_storage B' = tb_storage B"
    using transaction_rejected [OF assms(1), of ?es shared] by blast
  then show ?thesis using es \<open>?es \<noteq> []\<close> by blast
qed

theorem replace_all_overlap_rejected_witness:
  "let B = \<lparr>tb_storage = table_new [97, 97, 97], tb_cache = None, tb_lines = Compact [0], tb_version = 0,
            tb_revision = 0, tb_saved = 0, tb_next = 1, tb_undo = [], tb_redo = [], tb_changes = None\<rparr>
   in \<exists>es B' err.
        replace_all_transaction (\<lambda>c. True) [97, 97, 97] [97, 97] [98]
          \<lparr>fo_case_sensitive = True, fo_whole_word = False\<rparr> = Some es \<and>
        apply_transaction False es B = Some (B', Inl err)"
proof -
  let ?B = "\<lparr>tb_storage = table_new [97, 97, 97], tb_cache = None, tb_lines = Compact [0], tb_version = 0,
            tb_revision = 0, tb_saved = 0, tb_next = 1, tb_undo = [], tb_redo = [], tb_changes = None\<rparr>"
  let ?opts = "\<lparr>fo_case_sensitive = True, fo_whole_word = False\<rparr>"
  have B: "buffer_ok ?B [97, 97, 97]"
    using table_new_ok [of "[97, 97, 97]"]
    by (simp add: buffer_ok_def index_ok_def index_starts_def line_starts_def str_wf_def is_continuation_def
        usize_max_def)
  have q: "([97, 97] :: bytes) \<noteq> []" "str_wf [97, 97]" "str_wf [98]"
    by (simp_all add: str_wf_def is_continuation_def)
  have order: "(0 :: nat) < 1" "1 < 0 + length ([97, 97] :: bytes)" by simp_all
  have hits: "window_hit (\<lambda>c. True) [97, 97] ?opts [97, 97, 97] 0" "window_hit (\<lambda>c. True) [97, 97] ?opts [97, 97, 97] 1"
    by code_simp+
  show ?thesis
    using replace_all_overlap_rejected [OF B q order hits, of False] unfolding Let_def by blast
qed

end
