(* ===== verification/Mosh_Predict.thy ===== *)
theory Mosh_Predict
  imports Oxide_Prelude
begin

text \<open>
  The prediction overlay of the Mosh client (\<open>crates/fernomade/predict/src/lib.rs\<close>): which keys are echoed
  before the server answers, what is written to the terminal for them, and how the echo is taken off
  again. A \<open>char\<close> is its code point. Text written to the terminal is bytes. The terminal
  is a parameter \<open>feed\<close> that reads the control sequences the overlay writes as ECMA-48 defines them
  (\<open>reads_controls\<close>), with a concrete one to show that it exists; what a sequence does to the cursor's row is \<open>row_step\<close>.
\<close>

section \<open>Characters\<close>

definition encode_utf8 :: "nat \<Rightarrow> bytes" where
  "encode_utf8 c =
     (if c < 0x80 then [of_nat c]
      else if c < 0x800 then [of_nat (0xC0 + c div 64), of_nat (0x80 + c mod 64)]
      else if c < 0x10000 then
        [of_nat (0xE0 + c div 4096), of_nat (0x80 + c div 64 mod 64), of_nat (0x80 + c mod 64)]
      else
        [of_nat (0xF0 + c div 262144), of_nat (0x80 + c div 4096 mod 64), of_nat (0x80 + c div 64 mod 64),
         of_nat (0x80 + c mod 64)])"

definition is_scalar :: "nat \<Rightarrow> bool" where
  "is_scalar c \<longleftrightarrow> c < 0xD800 \<or> 0xE000 \<le> c \<and> c < 0x110000"

text \<open>The character that a byte string is the whole encoding of, if there is one.\<close>

definition decode_single :: "bytes \<Rightarrow> nat option" where
  "decode_single bs =
     (let c = (case bs of
                 [a] \<Rightarrow> unat a
               | [a, b] \<Rightarrow> (unat a - 0xC0) * 64 + (unat b - 0x80)
               | [a, b, c] \<Rightarrow> (unat a - 0xE0) * 4096 + (unat b - 0x80) * 64 + (unat c - 0x80)
               | [a, b, c, d] \<Rightarrow>
                   (unat a - 0xF0) * 262144 + (unat b - 0x80) * 4096 + (unat c - 0x80) * 64 + (unat d - 0x80)
               | _ \<Rightarrow> 0x110000) in
      if is_scalar c \<and> encode_utf8 c = bs then Some c else None)"

definition is_control :: "nat \<Rightarrow> bool" where
  "is_control c \<longleftrightarrow> c < 0x20 \<or> 0x7F \<le> c \<and> c < 0xA0"

definition is_ascii_graphic :: "byte \<Rightarrow> bool" where
  "is_ascii_graphic b \<longleftrightarrow> 0x21 \<le> b \<and> b \<le> 0x7E"

section \<open>State\<close>

definition ESC :: byte where "ESC = 0x1B"

definition UNDERLINE_RENDITION :: bytes where "UNDERLINE_RENDITION = ESC # ascii ''[4m''"
definition NO_UNDERLINE_RENDITION :: bytes where "NO_UNDERLINE_RENDITION = ESC # ascii ''[24m''"
definition INSERT_CHARACTER :: bytes where "INSERT_CHARACTER = ESC # ascii ''[@''"
definition DELETE_CHARACTER :: bytes where "DELETE_CHARACTER = ESC # ascii ''[P''"
definition CURSOR_LEFT :: bytes where "CURSOR_LEFT = ESC # ascii ''[D''"
definition CURSOR_RIGHT :: bytes where "CURSOR_RIGHT = ESC # ascii ''[C''"

definition ADAPTIVE_DISPLAY_MILLISECONDS :: u16 where "ADAPTIVE_DISPLAY_MILLISECONDS = 20"
definition STALE_PREDICTION_MILLISECONDS :: u64 where "STALE_PREDICTION_MILLISECONDS = 500"
definition MAXIMUM_PENDING_PREDICTIONS :: nat where "MAXIMUM_PENDING_PREDICTIONS = 1024"

datatype prediction_display = Adaptive | Always | Never

datatype input_kind = Key | Paste | Mouse | Focus

datatype prediction_action =
  PrintableAscii byte | PrintableUtf8 nat | Backspace | Left | Right | Barrier

record prediction_metrics =
  pm_offered :: u64
  pm_displayed :: u64
  pm_latest_acknowledgement :: "u64 option"
  pm_reconciled :: u64

record prediction_entry =
  pe_frame_id :: u64
  pe_action :: prediction_action

record predicted_cell =
  pc_frame_id :: u64
  pc_acknowledged :: bool

record prediction_context =
  cx_row :: u16
  cx_column :: u16
  cx_columns :: u16
  cx_attributes :: bytes
  cx_cursor_state :: bytes

datatype line_confidence = Tentative | Acknowledged

datatype prediction_reconciliation = NoReconciliation | Local bytes | Redraw

record prediction_overlay =
  po_display :: prediction_display
  po_overwrite :: bool
  po_round_trip :: "u16 option"
  po_pending :: "prediction_entry list"
  po_predicted :: "predicted_cell list"
  po_cursor_offset :: nat
  po_highest_frame_id :: "u64 option"
  po_displayed_cells :: nat
  po_rollback_cells :: nat
  po_overlay_active :: bool
  po_reconciliation_required :: bool
  po_oldest :: "u64 option"
  po_line_context :: "prediction_context option"
  po_metrics :: prediction_metrics

definition overlay_new :: "prediction_display \<Rightarrow> bool \<Rightarrow> prediction_overlay" where
  "overlay_new display overwrite =
     \<lparr>po_display = display, po_overwrite = overwrite, po_round_trip = None, po_pending = [],
      po_predicted = [], po_cursor_offset = 0, po_highest_frame_id = None, po_displayed_cells = 0,
      po_rollback_cells = 0, po_overlay_active = False, po_reconciliation_required = False,
      po_oldest = None, po_line_context = None,
      po_metrics = \<lparr>pm_offered = 0, pm_displayed = 0, pm_latest_acknowledgement = None,
                    pm_reconciled = 0\<rparr>\<rparr>"

definition set_round_trip_milliseconds :: "u16 option \<Rightarrow> prediction_overlay \<Rightarrow> prediction_overlay" where
  "set_round_trip_milliseconds ms s = s\<lparr>po_round_trip := ms\<rparr>"

definition sat_inc :: "u64 \<Rightarrow> u64" where
  "sat_inc w = (if w = - 1 then w else w + 1)"

section \<open>Operations\<close>

definition single_printable_action :: "bytes \<Rightarrow> prediction_action option" where
  "single_printable_action bs =
     (case decode_single bs of
        None \<Rightarrow> None
      | Some c \<Rightarrow>
          (if is_control c then None
           else if c < 128 then Some (PrintableAscii (of_nat c)) else Some (PrintableUtf8 c)))"

definition invalidate_span :: "prediction_overlay \<Rightarrow> prediction_overlay" where
  "invalidate_span s =
     s\<lparr>po_pending := [], po_predicted := [], po_cursor_offset := 0, po_oldest := None,
       po_reconciliation_required := po_reconciliation_required s \<or> po_overlay_active s\<rparr>"

definition predict_printable ::
    "u64 \<Rightarrow> bytes \<Rightarrow> prediction_context option \<Rightarrow> prediction_overlay \<Rightarrow> bytes option \<times> prediction_overlay" where
  "predict_printable frame_id bs context s =
     (if po_cursor_offset s \<noteq> length (po_predicted s) then (None, s)
      else
        (let s = (case context of
                    None \<Rightarrow> s
                  | Some cx \<Rightarrow> (case po_line_context s of
                                 None \<Rightarrow> s\<lparr>po_line_context := Some cx\<rparr>
                               | Some _ \<Rightarrow> s));
             refused = (case (context, po_line_context s) of
                          (Some cx, Some anchor) \<Rightarrow>
                            cx_row anchor \<noteq> cx_row cx \<or> cx_column anchor \<noteq> cx_column cx \<or>
                            cx_columns anchor \<noteq> cx_columns cx \<or>
                            unat (cx_columns anchor) - 1 \<le> unat (cx_column anchor) + po_cursor_offset s
                        | _ \<Rightarrow> False) in
         if refused then (None, invalidate_span s)
         else
           (Some ((if po_overwrite s then [] else INSERT_CHARACTER) @ UNDERLINE_RENDITION @ bs @
                  (case context of Some cx \<Rightarrow> cx_attributes cx | None \<Rightarrow> NO_UNDERLINE_RENDITION)),
            s\<lparr>po_predicted := po_predicted s @ [\<lparr>pc_frame_id = frame_id, pc_acknowledged = False\<rparr>],
              po_cursor_offset := po_cursor_offset s + 1,
              po_displayed_cells := po_displayed_cells s + 1,
              po_rollback_cells := po_rollback_cells s + 1,
              po_overlay_active := True\<rparr>)))"

definition predict_backspace :: "prediction_overlay \<Rightarrow> bytes option \<times> prediction_overlay" where
  "predict_backspace s =
     (if po_cursor_offset s = 0 \<or> po_cursor_offset s \<noteq> length (po_predicted s) then (None, s)
      else if po_predicted s \<noteq> [] \<and>
              (case pm_latest_acknowledgement (po_metrics s) of
                 None \<Rightarrow> False | Some ack \<Rightarrow> pc_frame_id (last (po_predicted s)) \<le> ack)
      then (None, s)
      else if po_overwrite s then (None, invalidate_span s)
      else
        (Some (CURSOR_LEFT @ DELETE_CHARACTER),
         s\<lparr>po_predicted := butlast (po_predicted s),
           po_cursor_offset := po_cursor_offset s - 1,
           po_displayed_cells := po_displayed_cells s - 1,
           po_rollback_cells := po_rollback_cells s - 1,
           po_overlay_active := True\<rparr>))"

definition predict_left :: "prediction_overlay \<Rightarrow> bytes option \<times> prediction_overlay" where
  "predict_left s =
     (if po_cursor_offset s = 0 then (None, s)
      else (Some CURSOR_LEFT, s\<lparr>po_cursor_offset := po_cursor_offset s - 1, po_overlay_active := True\<rparr>))"

definition predict_right :: "prediction_overlay \<Rightarrow> bytes option \<times> prediction_overlay" where
  "predict_right s =
     (if length (po_predicted s) \<le> po_cursor_offset s then (None, s)
      else (Some CURSOR_RIGHT, s\<lparr>po_cursor_offset := po_cursor_offset s + 1, po_overlay_active := True\<rparr>))"

definition display_enabled :: "prediction_overlay \<Rightarrow> bool" where
  "display_enabled s =
     (case po_display s of
        Adaptive \<Rightarrow> (case po_round_trip s of None \<Rightarrow> False | Some ms \<Rightarrow> ADAPTIVE_DISPLAY_MILLISECONDS \<le> ms)
      | Always \<Rightarrow> True
      | Never \<Rightarrow> False)"

definition predict_action ::
    "u64 \<Rightarrow> prediction_action \<Rightarrow> prediction_context option \<Rightarrow> prediction_overlay \<Rightarrow>
     bytes option \<times> prediction_overlay" where
  "predict_action frame_id action context s =
     (case action of
        PrintableAscii b \<Rightarrow>
          (if is_ascii_graphic b \<or> b = 0x20 then predict_printable frame_id [b] context s
           else (None, invalidate_span s))
      | PrintableUtf8 c \<Rightarrow>
          (if \<not> is_control c then predict_printable frame_id (encode_utf8 c) context s
           else (None, invalidate_span s))
      | Backspace \<Rightarrow> predict_backspace s
      | Left \<Rightarrow> predict_left s
      | Right \<Rightarrow> predict_right s
      | Barrier \<Rightarrow> (None, s))"

definition record_displayed ::
    "u64 \<Rightarrow> prediction_action \<Rightarrow> u64 option \<Rightarrow> prediction_overlay \<Rightarrow> prediction_overlay" where
  "record_displayed frame_id action offered_at s =
     s\<lparr>po_pending := po_pending s @ [\<lparr>pe_frame_id = frame_id, pe_action = action\<rparr>],
       po_oldest := (case po_oldest s of Some t \<Rightarrow> Some t | None \<Rightarrow> offered_at),
       po_metrics := (po_metrics s)\<lparr>pm_displayed := sat_inc (pm_displayed (po_metrics s))\<rparr>\<rparr>"

definition offer_inner ::
    "u64 \<Rightarrow> prediction_action \<Rightarrow> prediction_context option \<Rightarrow> u64 option \<Rightarrow> prediction_overlay \<Rightarrow>
     bytes option \<times> prediction_overlay" where
  "offer_inner frame_id action context offered_at s =
     (let s = s\<lparr>po_metrics := (po_metrics s)\<lparr>pm_offered := sat_inc (pm_offered (po_metrics s))\<rparr>\<rparr> in
      if (case po_highest_frame_id s of None \<Rightarrow> False | Some highest \<Rightarrow> frame_id < highest) then (None, s)
      else
        (let s = s\<lparr>po_highest_frame_id := Some frame_id\<rparr> in
         if action = Barrier then (None, invalidate_span s)
         else if \<not> display_enabled s then (None, s)
         else if po_reconciliation_required s then (None, s)
         else if MAXIMUM_PENDING_PREDICTIONS \<le> length (po_pending s) \<or>
                 MAXIMUM_PENDING_PREDICTIONS \<le> length (po_predicted s)
         then (None, invalidate_span s)
         else
           (case predict_action frame_id action context s of
              (None, s) \<Rightarrow> (None, s)
            | (Some out, s) \<Rightarrow> (Some out, record_displayed frame_id action offered_at s))))"

definition offer ::
    "input_kind \<Rightarrow> bytes \<Rightarrow> prediction_overlay \<Rightarrow> bytes option \<times> prediction_overlay" where
  "offer kind bs s =
     (case (case po_highest_frame_id s of Some highest \<Rightarrow> checked_add highest 1 | None \<Rightarrow> Some 0) of
        None \<Rightarrow> (None, s)
      | Some frame_id \<Rightarrow>
          offer_inner frame_id
            (if kind = Key
             then (case single_printable_action bs of Some a \<Rightarrow> a | None \<Rightarrow> Barrier) else Barrier)
            None None s)"

definition offer_for_frame_with_context_at ::
    "u64 \<Rightarrow> prediction_action \<Rightarrow> prediction_context option \<Rightarrow> u64 \<Rightarrow> prediction_overlay \<Rightarrow>
     bytes option \<times> prediction_overlay" where
  "offer_for_frame_with_context_at frame_id action context offered_at s =
     offer_inner frame_id action context (Some offered_at) s"

definition expire_stale :: "u64 \<Rightarrow> prediction_overlay \<Rightarrow> bool \<times> prediction_overlay" where
  "expire_stale now s =
     (case po_oldest s of
        None \<Rightarrow> (False, s)
      | Some oldest \<Rightarrow>
          (if (if oldest \<le> now then now - oldest else 0) < STALE_PREDICTION_MILLISECONDS then (False, s)
           else (let s = invalidate_span s in (po_reconciliation_required s, s))))"

text \<open>A \<open>u16\<close> or a count in decimal, as \<open>format!\<close> writes it.\<close>

fun decimal_digits :: "nat \<Rightarrow> bytes" where
  "decimal_digits n =
     (if n < 10 then [of_nat (48 + n)] else decimal_digits (n div 10) @ [of_nat (48 + n mod 10)])"

definition u16_saturating_inc :: "u16 \<Rightarrow> u16" where
  "u16_saturating_inc w = (if w = - 1 then w else w + 1)"

definition local_reconciliation :: "prediction_overlay \<Rightarrow> bytes option" where
  "local_reconciliation s =
     map_option (\<lambda>cx.
       (if po_rollback_cells s \<noteq> 0 then
          (ESC # ascii ''['' @ decimal_digits (unat (u16_saturating_inc (cx_row cx))) @ ascii '';'' @
             decimal_digits (unat (u16_saturating_inc (cx_column cx))) @ ascii ''H'') @
          (ESC # ascii ''['' @ decimal_digits (po_rollback_cells s) @ ascii ''P'')
        else []) @ cx_cursor_state cx) (po_line_context s)"

definition u64_saturating_add :: "u64 \<Rightarrow> nat \<Rightarrow> u64" where
  "u64_saturating_add w n = (if unat w + n < 2 ^ 64 then w + of_nat n else - 1)"

definition take_reconciliation :: "prediction_overlay \<Rightarrow> prediction_reconciliation \<times> prediction_overlay" where
  "take_reconciliation s =
     (if \<not> po_overlay_active s \<and> \<not> po_reconciliation_required s then (NoReconciliation, s)
      else
        (case (if po_overwrite s then None else local_reconciliation s) of
           None \<Rightarrow> Redraw | Some out \<Rightarrow> Local out,
         s\<lparr>po_pending := [], po_predicted := [], po_cursor_offset := 0, po_displayed_cells := 0,
           po_rollback_cells := 0, po_overlay_active := False, po_reconciliation_required := False,
           po_oldest := None, po_line_context := None,
           po_metrics := (po_metrics s)\<lparr>pm_reconciled :=
             u64_saturating_add (pm_reconciled (po_metrics s)) (po_displayed_cells s)\<rparr>\<rparr>))"

definition acknowledge :: "u64 \<Rightarrow> prediction_overlay \<Rightarrow> prediction_overlay" where
  "acknowledge ack s =
     (case po_highest_frame_id s of
        None \<Rightarrow> s
      | Some highest \<Rightarrow>
          (if highest < ack \<or>
              (case pm_latest_acknowledgement (po_metrics s) of None \<Rightarrow> False | Some current \<Rightarrow> ack \<le> current)
           then s
           else
             s\<lparr>po_pending := dropWhile (\<lambda>e. pe_frame_id e \<le> ack) (po_pending s),
               po_predicted := map (\<lambda>c. if pc_frame_id c \<le> ack then c\<lparr>pc_acknowledged := True\<rparr> else c)
                 (po_predicted s),
               po_metrics := (po_metrics s)\<lparr>pm_latest_acknowledgement := Some ack\<rparr>\<rparr>))"

definition line_confidence_of :: "prediction_overlay \<Rightarrow> line_confidence option" where
  "line_confidence_of s =
     (if po_predicted s = [] then None
      else Some (if list_all pc_acknowledged (po_predicted s) then Acknowledged else Tentative))"

definition line_status :: "prediction_overlay \<Rightarrow> (u16 \<times> line_confidence) option" where
  "line_status s =
     Option.bind (po_line_context s) (\<lambda>cx. map_option (\<lambda>c. (cx_row cx, c)) (line_confidence_of s))"

section \<open>The invariant of the overlay\<close>

declare decimal_digits.simps [simp del]

text \<open>
  The bounds on what is kept, the order of the frames, and the flags: a span that is shown is anchored,
  and what is kept while nothing is to be reconciled is what is shown.
\<close>

definition overlay_ok :: "prediction_overlay \<Rightarrow> bool" where
  "overlay_ok s \<longleftrightarrow>
     length (po_pending s) \<le> MAXIMUM_PENDING_PREDICTIONS \<and>
     length (po_predicted s) \<le> MAXIMUM_PENDING_PREDICTIONS \<and>
     po_cursor_offset s \<le> length (po_predicted s) \<and>
     sorted (map pe_frame_id (po_pending s)) \<and>
     (\<forall>e \<in> set (po_pending s). \<exists>h. po_highest_frame_id s = Some h \<and> pe_frame_id e \<le> h) \<and>
     (\<forall>ack. pm_latest_acknowledgement (po_metrics s) = Some ack \<longrightarrow>
        (\<exists>h. po_highest_frame_id s = Some h \<and> ack \<le> h) \<and> (\<forall>e \<in> set (po_pending s). ack \<le> pe_frame_id e)) \<and>
     (\<forall>c \<in> set (po_predicted s). pc_acknowledged c \<longrightarrow>
        (\<exists>ack. pm_latest_acknowledgement (po_metrics s) = Some ack \<and> pc_frame_id c \<le> ack)) \<and>
     (po_predicted s \<noteq> [] \<longrightarrow> po_overlay_active s) \<and>
     (po_reconciliation_required s \<longrightarrow> po_overlay_active s \<and> po_predicted s = []) \<and>
     (\<not> po_overlay_active s \<longrightarrow> po_rollback_cells s = 0) \<and>
     (\<not> po_reconciliation_required s \<longrightarrow> po_rollback_cells s = length (po_predicted s))"

lemma overlay_new_ok: "overlay_ok (overlay_new display overwrite)"
  by (simp add: overlay_new_def overlay_ok_def)

lemma invalidate_span_ok: "overlay_ok s \<Longrightarrow> overlay_ok (invalidate_span s)"
  by (auto simp: overlay_ok_def invalidate_span_def)

text \<open>The calls of the overlay.\<close>

datatype overlay_op =
    OpOffer u64 prediction_action "prediction_context option" "u64 option"
  | OpExpire u64
  | OpReconcile
  | OpAcknowledge u64
  | OpRoundTrip "u16 option"

fun overlay_step :: "prediction_overlay \<Rightarrow> overlay_op \<Rightarrow> prediction_overlay" where
  "overlay_step s (OpOffer frame_id action context offered_at) = snd (offer_inner frame_id action context offered_at s)"
| "overlay_step s (OpExpire now) = snd (expire_stale now s)"
| "overlay_step s OpReconcile = snd (take_reconciliation s)"
| "overlay_step s (OpAcknowledge ack) = acknowledge ack s"
| "overlay_step s (OpRoundTrip ms) = set_round_trip_milliseconds ms s"

text \<open>A successful prediction adds one entry, for the newest frame.\<close>

lemma predict_action_ok:
  assumes "overlay_ok s" "\<not> po_reconciliation_required s"
    and "length (po_predicted s) < MAXIMUM_PENDING_PREDICTIONS"
  shows "overlay_ok (snd (predict_action frame_id action context s))"
    and "po_highest_frame_id (snd (predict_action frame_id action context s)) = po_highest_frame_id s"
    and "po_metrics (snd (predict_action frame_id action context s)) = po_metrics s"
    and "fst (predict_action frame_id action context s) \<noteq> None \<Longrightarrow>
         po_pending (snd (predict_action frame_id action context s)) = po_pending s"
proof -
  let ?s = "\<lambda>cx. s\<lparr>po_line_context := cx\<rparr>"
  have same: "overlay_ok (?s cx)" for cx using assms(1) by (simp add: overlay_ok_def)
  have printable: "overlay_ok (snd (predict_printable frame_id bs context s)) \<and>
      po_highest_frame_id (snd (predict_printable frame_id bs context s)) = po_highest_frame_id s \<and>
      po_metrics (snd (predict_printable frame_id bs context s)) = po_metrics s \<and>
      (fst (predict_printable frame_id bs context s) \<noteq> None \<longrightarrow>
         po_pending (snd (predict_printable frame_id bs context s)) = po_pending s)" for bs
    using assms invalidate_span_ok [OF assms(1)] invalidate_span_ok [OF same]
    by (auto simp: predict_printable_def Let_def overlay_ok_def invalidate_span_def split: option.splits)
  have remove: "overlay_ok (snd (predict_backspace s)) \<and>
      po_highest_frame_id (snd (predict_backspace s)) = po_highest_frame_id s \<and>
      po_metrics (snd (predict_backspace s)) = po_metrics s \<and>
      (fst (predict_backspace s) \<noteq> None \<longrightarrow> po_pending (snd (predict_backspace s)) = po_pending s)"
    using assms invalidate_span_ok [OF assms(1)]
    by (auto simp: predict_backspace_def overlay_ok_def invalidate_span_def dest: in_set_butlastD split: option.splits)
  have moves: "overlay_ok (snd (predict_left s))" "overlay_ok (snd (predict_right s))"
    using assms by (auto simp: predict_left_def predict_right_def overlay_ok_def)
  show "overlay_ok (snd (predict_action frame_id action context s))"
    using printable remove moves invalidate_span_ok [OF assms(1)] assms(1)
    by (cases action) (auto simp: predict_action_def)
  show "po_highest_frame_id (snd (predict_action frame_id action context s)) = po_highest_frame_id s"
    "po_metrics (snd (predict_action frame_id action context s)) = po_metrics s"
    using printable remove
    by (cases action; simp add: predict_action_def invalidate_span_def predict_left_def predict_right_def)+
  show "fst (predict_action frame_id action context s) \<noteq> None \<Longrightarrow>
         po_pending (snd (predict_action frame_id action context s)) = po_pending s"
    using printable remove
    by (cases action) (auto simp: predict_action_def predict_left_def predict_right_def split: if_splits)
qed

text \<open>The overlay after an offer is counted, and after its frame is the newest.\<close>

definition offer_counted :: "prediction_overlay \<Rightarrow> prediction_overlay" where
  "offer_counted s = s\<lparr>po_metrics := (po_metrics s)\<lparr>pm_offered := sat_inc (pm_offered (po_metrics s))\<rparr>\<rparr>"

definition offer_newest :: "u64 \<Rightarrow> prediction_overlay \<Rightarrow> prediction_overlay" where
  "offer_newest frame_id s = (offer_counted s)\<lparr>po_highest_frame_id := Some frame_id\<rparr>"

lemma offer_inner_steps:
  "offer_inner frame_id action cx offered_at s =
    (if (case po_highest_frame_id (offer_counted s) of None \<Rightarrow> False | Some highest \<Rightarrow> frame_id < highest)
     then (None, offer_counted s)
     else if action = Barrier then (None, invalidate_span (offer_newest frame_id s))
     else if \<not> display_enabled (offer_newest frame_id s) then (None, offer_newest frame_id s)
     else if po_reconciliation_required (offer_newest frame_id s) then (None, offer_newest frame_id s)
     else if MAXIMUM_PENDING_PREDICTIONS \<le> length (po_pending (offer_newest frame_id s)) \<or>
             MAXIMUM_PENDING_PREDICTIONS \<le> length (po_predicted (offer_newest frame_id s))
     then (None, invalidate_span (offer_newest frame_id s))
     else (case predict_action frame_id action cx (offer_newest frame_id s) of
             (None, s) \<Rightarrow> (None, s)
           | (Some out, s) \<Rightarrow> (Some out, record_displayed frame_id action offered_at s)))"
  by (simp add: offer_inner_def Let_def offer_counted_def offer_newest_def)

lemma offer_counted_ok: "overlay_ok s \<Longrightarrow> overlay_ok (offer_counted s)"
  by (simp add: overlay_ok_def offer_counted_def)

lemma offer_newest_ok:
  assumes "overlay_ok s" "\<not> (case po_highest_frame_id (offer_counted s) of None \<Rightarrow> False | Some highest \<Rightarrow> frame_id < highest)"
  shows "overlay_ok (offer_newest frame_id s)"
proof -
  have "\<And>h. po_highest_frame_id (offer_counted s) = Some h \<Longrightarrow> h \<le> frame_id" using assms(2) by auto
  then show ?thesis using offer_counted_ok [OF assms(1)] unfolding overlay_ok_def offer_newest_def
    by (auto intro: order.trans)
qed

lemma offer_inner_ok:
  assumes "overlay_ok s"
  shows "overlay_ok (snd (offer_inner frame_id action context offered_at s))"
proof -
  define s1 where "s1 = offer_counted s"
  define s2 where "s2 = offer_newest frame_id s"
  have ok1: "overlay_ok s1" using offer_counted_ok [OF assms] by (simp add: s1_def)
  note steps = offer_inner_steps [of frame_id action "context" offered_at s, folded s1_def s2_def]
  show ?thesis
  proof (cases "case po_highest_frame_id s1 of None \<Rightarrow> False | Some highest \<Rightarrow> frame_id < highest")
    case True
    then show ?thesis using steps ok1 by simp
  next
    case False
    have ok2: "overlay_ok s2" using offer_newest_ok [OF assms] False by (simp add: s1_def s2_def)
    show ?thesis
    proof (cases "action = Barrier \<or> \<not> display_enabled s2 \<or> po_reconciliation_required s2 \<or>
        MAXIMUM_PENDING_PREDICTIONS \<le> length (po_pending s2) \<or>
        MAXIMUM_PENDING_PREDICTIONS \<le> length (po_predicted s2)")
      case True
      then show ?thesis using steps False ok2 invalidate_span_ok [OF ok2] by auto
    next
      case go: False
      obtain out s3 where run: "predict_action frame_id action context s2 = (out, s3)" by fastforce
      note pred = predict_action_ok [OF ok2, of frame_id action "context"]
      have s3: "overlay_ok s3" "po_highest_frame_id s3 = Some frame_id" "out \<noteq> None \<Longrightarrow> po_pending s3 = po_pending s2"
        using pred go run by (simp_all add: s2_def offer_newest_def)
      show ?thesis
      proof (cases out)
        case None
        then show ?thesis using steps False go run s3(1) by simp
      next
        case (Some o)
        have room: "length (po_pending s3) < MAXIMUM_PENDING_PREDICTIONS" using go s3(3) Some by simp
        have frames: "\<forall>e \<in> set (po_pending s3). pe_frame_id e \<le> frame_id" using s3(1,2) by (auto simp: overlay_ok_def)
        have ack: "\<And>ack. pm_latest_acknowledgement (po_metrics s3) = Some ack \<Longrightarrow> ack \<le> frame_id"
          using s3(1,2) by (auto simp: overlay_ok_def)
        have "overlay_ok (record_displayed frame_id action offered_at s3)"
          using s3(1,2) room frames ack unfolding overlay_ok_def record_displayed_def
          by (auto simp: sorted_append split: option.splits)
        then show ?thesis using steps False go run Some by simp
      qed
    qed
  qed
qed

lemma sorted_dropWhile_gt:
  "sorted (map f xs) \<Longrightarrow> x \<in> set (dropWhile (\<lambda>e. f e \<le> k) xs) \<Longrightarrow> k \<le> (f x :: 'a::linorder)"
proof (induction xs)
  case (Cons a xs)
  then show ?case by (cases "f a \<le> k") (auto simp: not_le intro: order.strict_implies_order order.strict_trans2)
qed simp

lemma overlay_step_ok: "overlay_ok s \<Longrightarrow> overlay_ok (overlay_step s op)"
proof (cases op)
  case (OpOffer frame_id action cx offered_at)
  then show "overlay_ok s \<Longrightarrow> ?thesis" using offer_inner_ok by simp
next
  case (OpExpire now)
  then show "overlay_ok s \<Longrightarrow> ?thesis"
    using invalidate_span_ok [of s] by (auto simp: expire_stale_def Let_def split: option.splits)
next
  case OpReconcile
  then show "overlay_ok s \<Longrightarrow> ?thesis" by (auto simp: take_reconciliation_def overlay_ok_def)
next
  case (OpAcknowledge ack)
  assume ok: "overlay_ok s"
  show ?thesis
  proof (cases "overlay_step s op = s")
    case False
    then obtain highest where some: "po_highest_frame_id s = Some highest"
      using OpAcknowledge by (cases "po_highest_frame_id s") (simp_all add: acknowledge_def)
    have fresh: "\<not> (highest < ack \<or>
        (case pm_latest_acknowledgement (po_metrics s) of None \<Rightarrow> False | Some current \<Rightarrow> ack \<le> current))" (is "\<not> ?stale")
    proof
      assume ?stale
      then have "acknowledge ack s = s" by (simp only: acknowledge_def some option.case if_True)
      with False OpAcknowledge show False by simp
    qed
    then have h: "po_highest_frame_id s = Some highest" "ack \<le> highest"
      "\<And>current. pm_latest_acknowledgement (po_metrics s) = Some current \<Longrightarrow> current < ack"
      using some by auto
    have step: "overlay_step s op = s\<lparr>po_pending := dropWhile (\<lambda>e. pe_frame_id e \<le> ack) (po_pending s),
               po_predicted := map (\<lambda>c. if pc_frame_id c \<le> ack then c\<lparr>pc_acknowledged := True\<rparr> else c)
                 (po_predicted s),
               po_metrics := (po_metrics s)\<lparr>pm_latest_acknowledgement := Some ack\<rparr>\<rparr>"
      using fresh by (simp only: OpAcknowledge overlay_step.simps acknowledge_def some option.case if_False)
    have "length (dropWhile (\<lambda>e. pe_frame_id e \<le> ack) (po_pending s)) \<le> MAXIMUM_PENDING_PREDICTIONS"
      using ok length_dropWhile_le order.trans by (fastforce simp: overlay_ok_def)
    moreover have "sorted (map pe_frame_id (dropWhile (\<lambda>e. pe_frame_id e \<le> ack) (po_pending s)))"
      using ok by (simp add: overlay_ok_def dropWhile_eq_drop drop_map [symmetric] sorted_wrt_drop)
    moreover have "\<forall>e \<in> set (dropWhile (\<lambda>e. pe_frame_id e \<le> ack) (po_pending s)). ack \<le> pe_frame_id e"
      using ok sorted_dropWhile_gt [of pe_frame_id "po_pending s"] by (auto simp: overlay_ok_def)
    moreover have "\<forall>c \<in> set (po_predicted s). pc_acknowledged c \<longrightarrow> pc_frame_id c \<le> ack"
      using ok h(3) by (fastforce simp: overlay_ok_def)
    ultimately show ?thesis
      using ok h(1,2) unfolding step overlay_ok_def by (auto dest: set_dropWhileD split: if_splits)
  qed (use ok in simp)
qed (auto simp: set_round_trip_milliseconds_def overlay_ok_def)

interpretation overlay: invariant_machine overlay_step overlay_ok
  by unfold_locales (rule overlay_step_ok)

section \<open>What the overlay does to a row\<close>

text \<open>
  A terminal row of one-cell characters, with the cursor in it, and the edits that the sequences of the
  overlay stand for: insert character, print, delete characters, and cursor movements.
\<close>

record term_row =
  tr_cells :: "nat list"
  tr_cursor :: nat

datatype row_edit = InsertBlank | Put nat | DeleteCells nat | StepLeft | StepRight | MoveTo nat

fun row_step :: "term_row \<Rightarrow> row_edit \<Rightarrow> term_row" where
  "row_step r InsertBlank =
     r\<lparr>tr_cells := take (length (tr_cells r)) (take (tr_cursor r) (tr_cells r) @ [0x20] @ drop (tr_cursor r) (tr_cells r))\<rparr>"
| "row_step r (Put c) =
     r\<lparr>tr_cells := (tr_cells r)[tr_cursor r := c], tr_cursor := min (tr_cursor r + 1) (length (tr_cells r) - 1)\<rparr>"
| "row_step r (DeleteCells n) =
     r\<lparr>tr_cells := take (tr_cursor r) (tr_cells r) @ drop (tr_cursor r + n) (tr_cells r) @
         replicate (min n (length (tr_cells r) - tr_cursor r)) 0x20\<rparr>"
| "row_step r StepLeft = r\<lparr>tr_cursor := tr_cursor r - 1\<rparr>"
| "row_step r StepRight = r\<lparr>tr_cursor := min (tr_cursor r + 1) (length (tr_cells r) - 1)\<rparr>"
| "row_step r (MoveTo k) = r\<lparr>tr_cursor := min k (length (tr_cells r) - 1)\<rparr>"

text \<open>The edits of an action that is shown, and the bytes written for an edit.\<close>

definition action_edits :: "prediction_action \<Rightarrow> row_edit list" where
  "action_edits action =
     (case action of
        PrintableAscii b \<Rightarrow> [InsertBlank, Put (unat b)]
      | PrintableUtf8 c \<Rightarrow> [InsertBlank, Put c]
      | Backspace \<Rightarrow> [StepLeft, DeleteCells 1]
      | Left \<Rightarrow> [StepLeft]
      | Right \<Rightarrow> [StepRight]
      | Barrier \<Rightarrow> [])"

fun edit_bytes :: "bytes \<Rightarrow> row_edit \<Rightarrow> bytes" where
  "edit_bytes attributes InsertBlank = INSERT_CHARACTER"
| "edit_bytes attributes (Put c) = UNDERLINE_RENDITION @ encode_utf8 c @ attributes"
| "edit_bytes attributes (DeleteCells n) = DELETE_CHARACTER"
| "edit_bytes attributes StepLeft = CURSOR_LEFT"
| "edit_bytes attributes StepRight = CURSOR_RIGHT"
| "edit_bytes attributes (MoveTo k) = []"

text \<open>
  A run of keys at one authoritative cursor: the overlay, all that was written, and the edits shown.
\<close>

fun overlay_run ::
    "prediction_context \<Rightarrow> (u64 \<times> prediction_action \<times> u64) list \<Rightarrow> prediction_overlay \<Rightarrow>
     prediction_overlay \<times> bytes \<times> row_edit list" where
  "overlay_run cx [] s = (s, [], [])"
| "overlay_run cx ((frame_id, action, offered_at) # keys) s =
     (case offer_for_frame_with_context_at frame_id action (Some cx) offered_at s of
        (None, s') \<Rightarrow> overlay_run cx keys s'
      | (Some out, s') \<Rightarrow>
          (case overlay_run cx keys s' of
             (s'', written, edits) \<Rightarrow> (s'', out @ written, action_edits action @ edits)))"

text \<open>
  The edits that the sequences of the overlay can stand for: one cell is deleted at a time, and a character is put
  only where the cursor can move on.
\<close>

fun edits_fit :: "(nat \<Rightarrow> bool) \<Rightarrow> term_row \<Rightarrow> row_edit list \<Rightarrow> bool" where
  "edits_fit one_cell r [] \<longleftrightarrow> True"
| "edits_fit one_cell r (e # edits) \<longleftrightarrow>
     (case e of
        Put c \<Rightarrow> one_cell c \<and> tr_cursor r + 1 < length (tr_cells r)
      | DeleteCells n \<Rightarrow> n = 1
      | MoveTo k \<Rightarrow> False
      | _ \<Rightarrow> True) \<and> edits_fit one_cell (row_step r e) edits"

definition shown_as :: "(nat \<Rightarrow> bool) \<Rightarrow> prediction_action \<Rightarrow> bool" where
  "shown_as one_cell action \<longleftrightarrow>
     (case action of PrintableAscii b \<Rightarrow> one_cell (unat b) | PrintableUtf8 c \<Rightarrow> one_cell c | _ \<Rightarrow> True)"

lemma edits_fit_append:
  "edits_fit P r (xs @ ys) \<longleftrightarrow> edits_fit P r xs \<and> edits_fit P (foldl row_step r xs) ys"
  by (induction xs arbitrary: r) auto

text \<open>The edits of a local reconciliation; the cursor state ends at the authoritative position.\<close>

definition reconcile_edits :: "prediction_context \<Rightarrow> prediction_overlay \<Rightarrow> row_edit list" where
  "reconcile_edits cx s =
     (if po_rollback_cells s \<noteq> 0 then [MoveTo (unat (cx_column cx)), DeleteCells (po_rollback_cells s)] else []) @
     [MoveTo (unat (cx_column cx))]"

text \<open>
  The row shows the text typed at the anchor, with the rest of the row moved right; \<open>k\<close> keys may have
  been pressed, and the cells they can push over the edge are blank.
\<close>

definition blank_tail :: "nat list \<Rightarrow> nat \<Rightarrow> nat \<Rightarrow> bool" where
  "blank_tail cells a k \<longleftrightarrow> (\<forall>i < length cells. a \<le> i \<longrightarrow> length cells \<le> i + k \<longrightarrow> cells ! i = 0x20)"

definition shows_line :: "prediction_context \<Rightarrow> nat list \<Rightarrow> nat \<Rightarrow> prediction_overlay \<Rightarrow> term_row \<Rightarrow> bool" where
  "shows_line cx r0 k s row \<longleftrightarrow>
     overlay_ok s \<and> \<not> po_overwrite s \<and>
     (po_line_context s = None \<or> po_line_context s = Some cx) \<and>
     (po_overlay_active s \<longrightarrow> po_line_context s = Some cx) \<and>
     po_rollback_cells s \<le> k \<and> unat (cx_column cx) + po_rollback_cells s < length r0 \<and>
     (\<exists>typed. length typed = po_rollback_cells s \<and>
        tr_cells row = take (unat (cx_column cx)) r0 @ typed @
          take (length r0 - unat (cx_column cx) - po_rollback_cells s) (drop (unat (cx_column cx)) r0)) \<and>
     (\<not> po_reconciliation_required s \<longrightarrow> tr_cursor row = unat (cx_column cx) + po_cursor_offset s)"

lemma drop_tail_blank:
  assumes "blank_tail r0 a k" "n < k" "a + Suc n < length r0"
  shows "take (length r0 - a - Suc n) (drop a r0) @ [0x20] = take (length r0 - a - n) (drop a r0)"
proof -
  have step: "length r0 - a - n = Suc (length r0 - a - Suc n)" using assms(3) by simp
  have "drop a r0 ! (length r0 - a - Suc n) = 0x20"
    using assms by (simp add: blank_tail_def)
  moreover have "length r0 - a - Suc n < length (drop a r0)" using assms(3) by simp
  ultimately show ?thesis unfolding step by (simp add: take_Suc_conv_app_nth)
qed

text \<open>The effect of printing and of deleting on the cells.\<close>

lemma row_insert:
  assumes "tr_cursor row = length pre" "tr_cells row = pre @ rest" "rest \<noteq> []" "length pre + 1 < length (tr_cells row)"
  shows "foldl row_step row [InsertBlank, Put c] =
    row\<lparr>tr_cells := pre @ [c] @ butlast rest, tr_cursor := length pre + 1\<rparr>"
proof -
  have "take (length (pre @ rest)) (pre @ [0x20] @ rest) = pre @ [0x20] @ butlast rest"
    using assms(3) by (cases "length rest") (simp_all add: butlast_conv_take)
  then show ?thesis using assms by (simp add: list_update_append)
qed

lemma row_delete:
  assumes "tr_cursor row = length pre + 1" "tr_cells row = pre @ [c] @ rest"
  shows "foldl row_step row [StepLeft, DeleteCells 1] =
    row\<lparr>tr_cells := pre @ rest @ [0x20], tr_cursor := length pre\<rparr>"
  using assms by simp

lemma encode_ascii: "b < 0x80 \<Longrightarrow> encode_utf8 (unat b) = [b :: byte]"
  by (simp add: encode_utf8_def word_less_nat_alt)

lemma shown_ascii: "is_ascii_graphic b \<or> b = 0x20 \<Longrightarrow> encode_utf8 (unat b) = [b]"
  by (rule encode_ascii) (auto simp: is_ascii_graphic_def word_le_nat_alt word_less_nat_alt)

text \<open>A printable action at the anchor: shown where the text ends, or not at all.\<close>

lemma printable_shows:
  assumes line: "shows_line cx r0 k s row" and "\<not> po_reconciliation_required s"
    and cols: "unat (cx_columns cx) = length r0" and k: "k' = k + 1"
    and run: "predict_printable frame_id (encode_utf8 c) (Some cx) s = (out, s')"
    and ok: "overlay_ok s'" and cell: "P c"
  shows "(out = None \<longrightarrow> shows_line cx r0 k' s' row) \<and>
    (\<forall>o'. out = Some o' \<longrightarrow> o' = concat (map (edit_bytes (cx_attributes cx)) [InsertBlank, Put c]) \<and>
       edits_fit P row [InsertBlank, Put c] \<and> shows_line cx r0 k' s' (foldl row_step row [InsertBlank, Put c]))"
proof -
  let ?a = "unat (cx_column cx)" and ?n = "po_rollback_cells s" and ?L = "length r0"
  note s = line [unfolded shows_line_def]
  have n: "?n = length (po_predicted s)" using s assms(2) by (simp add: overlay_ok_def)
  obtain typed where typed: "length typed = ?n"
    "tr_cells row = take ?a r0 @ typed @ take (?L - ?a - ?n) (drop ?a r0)" using s by blast
  have curs: "tr_cursor row = ?a + po_cursor_offset s" using s assms(2) by simp
  show ?thesis
  proof (cases "po_cursor_offset s = length (po_predicted s) \<and> \<not> ?L - 1 \<le> ?a + po_cursor_offset s")
    case True
    have out: "out = Some (INSERT_CHARACTER @ UNDERLINE_RENDITION @ encode_utf8 c @ cx_attributes cx)"
      and s': "s' = s\<lparr>po_line_context := Some cx,
              po_predicted := po_predicted s @ [\<lparr>pc_frame_id = frame_id, pc_acknowledged = False\<rparr>],
              po_cursor_offset := po_cursor_offset s + 1, po_displayed_cells := po_displayed_cells s + 1,
              po_rollback_cells := po_rollback_cells s + 1, po_overlay_active := True\<rparr>"
      using run True s cols by (auto simp: predict_printable_def Let_def split: if_splits)
    let ?rest = "take (?L - ?a - ?n) (drop ?a r0)"
    have room: "?a + ?n + 1 < ?L"
    proof -
      have "po_cursor_offset s = ?n" "\<not> ?L - 1 \<le> ?a + po_cursor_offset s" using True n by simp_all
      then show ?thesis by linarith
    qed
    have row: "foldl row_step row [InsertBlank, Put c] =
        row\<lparr>tr_cells := (take ?a r0 @ typed) @ [c] @ butlast ?rest, tr_cursor := length (take ?a r0 @ typed) + 1\<rparr>"
    proof (rule row_insert)
      show "tr_cursor row = length (take ?a r0 @ typed)" using curs True n typed(1) room by simp
      show cells: "tr_cells row = (take ?a r0 @ typed) @ ?rest" using typed(2) by simp
      show "?rest \<noteq> []" using room by simp
      show "length (take ?a r0 @ typed) + 1 < length (tr_cells row)" unfolding cells using room typed(1) by simp
    qed
    have "butlast ?rest = take (?L - ?a - Suc ?n) (drop ?a r0)"
      using room by (simp add: butlast_take)
    then have cells: "tr_cells (foldl row_step row [InsertBlank, Put c]) =
        take ?a r0 @ (typed @ [c]) @ take (?L - ?a - po_rollback_cells s') (drop ?a r0)"
      using row s' by simp
    have "tr_cursor (foldl row_step row [InsertBlank, Put c]) = ?a + po_cursor_offset s'"
      using row s' typed(1) True n room by simp
    moreover have "po_rollback_cells s' \<le> k'" "?a + po_rollback_cells s' < ?L" "\<not> po_overwrite s'"
      "po_line_context s' = Some cx" "length (typed @ [c]) = po_rollback_cells s'"
      using s s' k room typed(1) by auto
    ultimately have "shows_line cx r0 k' s' (foldl row_step row [InsertBlank, Put c])"
      using ok cells unfolding shows_line_def by blast
    moreover have "edits_fit P row [InsertBlank, Put c]"
      using cell curs typed True n room by simp
    ultimately show ?thesis using out by simp
  next
    case False
    have none: "out = None \<and> (s' = s \<or> s' = invalidate_span (s\<lparr>po_line_context := Some cx\<rparr>) \<or>
        po_line_context s = Some cx \<and> s' = invalidate_span s)"
      using run False s cols by (auto simp: predict_printable_def Let_def split: option.splits if_splits)
    then have "out = None" by blast
    moreover have "shows_line cx r0 k' s' row"
    proof (cases "s' = s")
      case True
      then show ?thesis using line k by (auto simp: shows_line_def)
    next
      case False
      then have flags: "po_overwrite s' = po_overwrite s" "po_line_context s' = Some cx"
        "po_rollback_cells s' = ?n" "po_cursor_offset s' = 0"
        "po_reconciliation_required s' \<longleftrightarrow> po_overlay_active s"
        using none assms(2) by (auto simp: invalidate_span_def)
      have "po_cursor_offset s = 0" if "\<not> po_overlay_active s"
        using s that by (auto simp: overlay_ok_def)
      then show ?thesis using s ok k curs flags typed unfolding shows_line_def by auto
    qed
    ultimately show ?thesis by simp
  qed
qed

lemma backspace_shows:
  assumes line: "shows_line cx r0 k s row" and "\<not> po_reconciliation_required s"
    and blank: "blank_tail r0 (unat (cx_column cx)) k"
    and run: "predict_backspace s = (out, s')" and ok: "overlay_ok s'"
  shows "(out = None \<longrightarrow> shows_line cx r0 k s' row) \<and>
    (\<forall>o'. out = Some o' \<longrightarrow> o' = concat (map (edit_bytes (cx_attributes cx)) [StepLeft, DeleteCells 1]) \<and>
       shows_line cx r0 k s' (foldl row_step row [StepLeft, DeleteCells 1]))"
proof -
  let ?a = "unat (cx_column cx)" and ?n = "po_rollback_cells s" and ?L = "length r0"
  note s = line [unfolded shows_line_def]
  have n: "?n = length (po_predicted s)" using s assms(2) by (simp add: overlay_ok_def)
  obtain typed where typed: "length typed = ?n"
    "tr_cells row = take ?a r0 @ typed @ take (?L - ?a - ?n) (drop ?a r0)" using s by blast
  have curs: "tr_cursor row = ?a + po_cursor_offset s" using s assms(2) by simp
  show ?thesis
  proof (cases out)
    case None
    then have "s' = s" using run s by (auto simp: predict_backspace_def split: if_splits)
    then show ?thesis using line None by simp
  next
    case (Some o')
    have out: "o' = CURSOR_LEFT @ DELETE_CHARACTER" and offset: "po_cursor_offset s = ?n" "0 < ?n"
      and s': "s' = s\<lparr>po_predicted := butlast (po_predicted s), po_cursor_offset := po_cursor_offset s - 1,
           po_displayed_cells := po_displayed_cells s - 1, po_rollback_cells := po_rollback_cells s - 1,
           po_overlay_active := True\<rparr>"
      using run Some n by (auto simp: predict_backspace_def split: if_splits)
    have within: "?n \<le> k" "?a + ?n < ?L" "\<not> po_overwrite s" and "overlay_ok s" using s by simp_all
    then have "po_overlay_active s" using n offset(2) by (simp add: overlay_ok_def)
    then have anchored: "po_line_context s = Some cx" using s by simp
    obtain pre c where pre: "typed = pre @ [c]" using typed(1) offset(2) by (cases typed rule: rev_cases) auto
    let ?rest = "take (?L - ?a - ?n) (drop ?a r0)"
    have row: "foldl row_step row [StepLeft, DeleteCells 1] =
        row\<lparr>tr_cells := (take ?a r0 @ pre) @ ?rest @ [0x20], tr_cursor := length (take ?a r0 @ pre)\<rparr>"
      using typed curs offset pre s by (intro row_delete [of _ _ c]) auto
    have "?rest @ [0x20] = take (?L - ?a - (?n - 1)) (drop ?a r0)"
    proof -
      have "?n - 1 < k" "?a + Suc (?n - 1) < ?L" "Suc (?n - 1) = ?n" using offset(2) s by auto
      then show ?thesis using drop_tail_blank [OF blank, of "?n - 1"] by simp
    qed
    then have cells: "tr_cells (foldl row_step row [StepLeft, DeleteCells 1]) =
        take ?a r0 @ pre @ take (?L - ?a - po_rollback_cells s') (drop ?a r0)"
      using row s' by simp
    have "tr_cursor (foldl row_step row [StepLeft, DeleteCells 1]) = ?a + po_cursor_offset s'"
      using row s' typed(1) pre offset s by auto
    moreover have "po_rollback_cells s' \<le> k" "?a + po_rollback_cells s' < ?L" "\<not> po_overwrite s'"
      "po_line_context s' = Some cx" "length pre = po_rollback_cells s'"
      using within anchored s' typed(1) pre by simp_all
    ultimately have "shows_line cx r0 k s' (foldl row_step row [StepLeft, DeleteCells 1])"
      using ok cells unfolding shows_line_def by blast
    then show ?thesis using out Some by simp
  qed
qed

lemma move_shows:
  assumes line: "shows_line cx r0 k s row" and "\<not> po_reconciliation_required s"
  shows "predict_left s = (out, s') \<Longrightarrow> overlay_ok s' \<Longrightarrow> (out = None \<longrightarrow> shows_line cx r0 k s' row) \<and>
      (\<forall>o'. out = Some o' \<longrightarrow> o' = CURSOR_LEFT \<and> shows_line cx r0 k s' (row_step row StepLeft))"
    and "predict_right s = (out, s') \<Longrightarrow> overlay_ok s' \<Longrightarrow> (out = None \<longrightarrow> shows_line cx r0 k s' row) \<and>
      (\<forall>o'. out = Some o' \<longrightarrow> o' = CURSOR_RIGHT \<and> shows_line cx r0 k s' (row_step row StepRight))"
proof -
  note s = line [unfolded shows_line_def]
  have n: "po_rollback_cells s = length (po_predicted s)" using s assms(2) by (simp add: overlay_ok_def)
  have context_set: "po_line_context s = Some cx" if "po_predicted s \<noteq> []" using s that by (simp add: overlay_ok_def)
  have len: "length (tr_cells row) = length r0" using s by auto
  let ?moved = "\<lambda>off. s\<lparr>po_cursor_offset := off, po_overlay_active := True\<rparr>"
  have moved: "shows_line cx r0 k (?moved off) (row\<lparr>tr_cursor := unat (cx_column cx) + off\<rparr>)"
    if "overlay_ok (?moved off)" "po_predicted s \<noteq> []" for off
    using s that context_set unfolding shows_line_def by simp
  have bound: "po_cursor_offset s \<le> length (po_predicted s)" using s by (simp add: overlay_ok_def)
  have curs: "tr_cursor row = unat (cx_column cx) + po_cursor_offset s" using s assms(2) by simp
  show "predict_left s = (out, s') \<Longrightarrow> overlay_ok s' \<Longrightarrow> (out = None \<longrightarrow> shows_line cx r0 k s' row) \<and>
      (\<forall>o'. out = Some o' \<longrightarrow> o' = CURSOR_LEFT \<and> shows_line cx r0 k s' (row_step row StepLeft))"
  proof (cases "po_cursor_offset s = 0")
    case False
    assume run: "predict_left s = (out, s')" "overlay_ok s'"
    then have s': "out = Some CURSOR_LEFT" "s' = ?moved (po_cursor_offset s - 1)"
      using False by (simp_all add: predict_left_def)
    have "row_step row StepLeft = row\<lparr>tr_cursor := unat (cx_column cx) + (po_cursor_offset s - 1)\<rparr>"
      using curs False by simp
    moreover have "po_predicted s \<noteq> []" using bound False by auto
    ultimately show ?thesis using moved [of "po_cursor_offset s - 1"] s' run(2) by simp
  qed (use line in \<open>simp add: predict_left_def\<close>)
  show "predict_right s = (out, s') \<Longrightarrow> overlay_ok s' \<Longrightarrow> (out = None \<longrightarrow> shows_line cx r0 k s' row) \<and>
      (\<forall>o'. out = Some o' \<longrightarrow> o' = CURSOR_RIGHT \<and> shows_line cx r0 k s' (row_step row StepRight))"
  proof (cases "length (po_predicted s) \<le> po_cursor_offset s")
    case False
    assume run: "predict_right s = (out, s')" "overlay_ok s'"
    then have s': "out = Some CURSOR_RIGHT" "s' = ?moved (po_cursor_offset s + 1)"
      using False by (simp_all add: predict_right_def)
    have "unat (cx_column cx) + (po_cursor_offset s + 1) < length r0" using s n False by linarith
    then have "row_step row StepRight = row\<lparr>tr_cursor := unat (cx_column cx) + (po_cursor_offset s + 1)\<rparr>"
      using curs len by simp
    moreover have "po_predicted s \<noteq> []" using False by auto
    ultimately show ?thesis using moved [of "po_cursor_offset s + 1"] s' run(2) by simp
  qed (use line in \<open>simp add: predict_right_def\<close>)
qed

text \<open>One key.\<close>

lemma shows_line_cong:
  assumes "shows_line cx r0 k s row" "overlay_ok s'" "k \<le> k'"
    and "po_overwrite s' = po_overwrite s" "po_line_context s' = po_line_context s"
    "po_overlay_active s' = po_overlay_active s" "po_rollback_cells s' = po_rollback_cells s"
    "po_reconciliation_required s' = po_reconciliation_required s" "po_cursor_offset s' = po_cursor_offset s"
  shows "shows_line cx r0 k' s' row"
  using assms unfolding shows_line_def by auto

lemma shows_line_invalidate:
  assumes "shows_line cx r0 k s row" "k \<le> k'"
  shows "shows_line cx r0 k' (invalidate_span s) row"
proof -
  note s = assms(1) [unfolded shows_line_def]
  have flags: "po_overwrite (invalidate_span s) = po_overwrite s"
    "po_line_context (invalidate_span s) = po_line_context s"
    "po_rollback_cells (invalidate_span s) = po_rollback_cells s" "po_cursor_offset (invalidate_span s) = 0"
    "po_overlay_active (invalidate_span s) = po_overlay_active s"
    "po_reconciliation_required (invalidate_span s) \<longleftrightarrow> po_reconciliation_required s \<or> po_overlay_active s"
    by (simp_all add: invalidate_span_def)
  have "po_cursor_offset s = 0" if "\<not> po_overlay_active s" using s that by (auto simp: overlay_ok_def)
  then show ?thesis
    using s assms(2) invalidate_span_ok [of s] flags unfolding shows_line_def by auto
qed

lemma action_shows:
  assumes line: "shows_line cx r0 k s row" and free: "\<not> po_reconciliation_required s"
    and room: "length (po_predicted s) < MAXIMUM_PENDING_PREDICTIONS"
    and cols: "unat (cx_columns cx) = length r0" and blank: "blank_tail r0 (unat (cx_column cx)) (k + 1)"
    and run: "predict_action frame_id action (Some cx) s = (out, s')" and cell: "shown_as P action"
  shows "(out = None \<longrightarrow> shows_line cx r0 (k + 1) s' row) \<and>
    (\<forall>o'. out = Some o' \<longrightarrow> o' = concat (map (edit_bytes (cx_attributes cx)) (action_edits action)) \<and>
       edits_fit P row (action_edits action) \<and> shows_line cx r0 (k + 1) s' (foldl row_step row (action_edits action)))"
proof -
  have ok: "overlay_ok s" using line by (simp add: shows_line_def)
  have ok': "overlay_ok s'" using predict_action_ok(1) [OF ok free room, of frame_id action "Some cx"] run by simp
  note inval = shows_line_invalidate [OF line, of "k + 1"]
  have later: "shows_line cx r0 (k + 1) s row" using shows_line_cong [OF line ok, of "k + 1"] by simp
  show ?thesis
  proof (cases action)
    case (PrintableAscii b)
    show ?thesis
    proof (cases "is_ascii_graphic b \<or> b = 0x20")
      case True
      then have "predict_printable frame_id (encode_utf8 (unat b)) (Some cx) s = (out, s')"
        using run PrintableAscii shown_ascii by (simp add: predict_action_def)
      from printable_shows [OF line free cols refl this ok', of P] cell show ?thesis
        using PrintableAscii by (simp add: action_edits_def shown_as_def)
    qed (use run PrintableAscii inval in \<open>auto simp: predict_action_def\<close>)
  next
    case (PrintableUtf8 c)
    show ?thesis
    proof (cases "is_control c")
      case False
      then have "predict_printable frame_id (encode_utf8 c) (Some cx) s = (out, s')"
        using run PrintableUtf8 by (simp add: predict_action_def)
      from printable_shows [OF line free cols refl this ok', of P] cell show ?thesis
        using PrintableUtf8 by (simp add: action_edits_def shown_as_def)
    qed (use run PrintableUtf8 inval in \<open>auto simp: predict_action_def\<close>)
  next
    case Backspace
    then have "predict_backspace s = (out, s')" using run by (simp add: predict_action_def)
    from backspace_shows [OF later free blank this ok'] show ?thesis
      using Backspace by (simp add: action_edits_def)
  next
    case Left
    then have "predict_left s = (out, s')" using run by (simp add: predict_action_def)
    from move_shows(1) [OF later free this ok'] show ?thesis using Left by (simp add: action_edits_def)
  next
    case Right
    then have "predict_right s = (out, s')" using run by (simp add: predict_action_def)
    from move_shows(2) [OF later free this ok'] show ?thesis using Right by (simp add: action_edits_def)
  next
    case Barrier
    then show ?thesis using run later by (auto simp: predict_action_def)
  qed
qed

lemma offer_shows:
  assumes line: "shows_line cx r0 k s row"
    and cols: "unat (cx_columns cx) = length r0" and blank: "blank_tail r0 (unat (cx_column cx)) (k + 1)"
    and run: "offer_inner frame_id action (Some cx) offered_at s = (out, s')" and cell: "shown_as P action"
  shows "(out = None \<longrightarrow> shows_line cx r0 (k + 1) s' row) \<and>
    (\<forall>o'. out = Some o' \<longrightarrow> o' = concat (map (edit_bytes (cx_attributes cx)) (action_edits action)) \<and>
       edits_fit P row (action_edits action) \<and> shows_line cx r0 (k + 1) s' (foldl row_step row (action_edits action)))"
proof -
  have ok: "overlay_ok s" using line by (simp add: shows_line_def)
  have ok': "overlay_ok s'" using offer_inner_ok [OF ok, of frame_id action "Some cx" offered_at] run by simp
  let ?stale = "case po_highest_frame_id (offer_counted s) of None \<Rightarrow> False | Some highest \<Rightarrow> frame_id < highest"
  define s2 where "s2 = offer_newest frame_id s"
  note steps = offer_inner_steps [of frame_id action "Some cx" offered_at s, unfolded run, folded s2_def]
  show ?thesis
  proof (cases ?stale)
    case True
    then have "out = None" "s' = offer_counted s" using steps by auto
    then show ?thesis using shows_line_cong [OF line ok', of "k + 1"] by (simp add: offer_counted_def)
  next
    case False
    have ok2: "overlay_ok s2" using offer_newest_ok [OF ok False] by (simp add: s2_def)
    have line2: "shows_line cx r0 k s2 row"
      using shows_line_cong [OF line ok2, of k] by (simp add: s2_def offer_newest_def offer_counted_def)
    have later: "shows_line cx r0 (k + 1) s2 row" using shows_line_cong [OF line2 ok2, of "k + 1"] by simp
    note inval = shows_line_invalidate [OF line2, of "k + 1"]
    show ?thesis
    proof (cases "action = Barrier \<or> \<not> display_enabled s2 \<or> po_reconciliation_required s2 \<or>
        MAXIMUM_PENDING_PREDICTIONS \<le> length (po_pending s2) \<or>
        MAXIMUM_PENDING_PREDICTIONS \<le> length (po_predicted s2)")
      case True
      then have "out = None \<and> (s' = s2 \<or> s' = invalidate_span s2)" using steps False by (auto split: if_splits)
      then show ?thesis using later inval by auto
    next
      case go: False
      obtain out3 s3 where run3: "predict_action frame_id action (Some cx) s2 = (out3, s3)" by fastforce
      from go have free: "\<not> po_reconciliation_required s2" "length (po_predicted s2) < MAXIMUM_PENDING_PREDICTIONS"
        by auto
      note shown = action_shows [OF line2 free cols blank run3 cell]
      show ?thesis
      proof (cases out3)
        case None
        then have "out = None" "s' = s3" using steps False go run3 by auto
        then show ?thesis using shown None by simp
      next
        case (Some o3)
        then have res: "out = Some o3" "s' = record_displayed frame_id action offered_at s3"
          using steps False go run3 by auto
        have "shows_line cx r0 (k + 1) s' (foldl row_step row (action_edits action))"
          using shown Some shows_line_cong [of cx r0 "k + 1" s3 "foldl row_step row (action_edits action)" s' "k + 1"]
            ok' res(2) by (simp add: record_displayed_def)
        then show ?thesis using shown Some res(1) by simp
      qed
    qed
  qed
qed

lemma overlay_run_shows:
  "shows_line cx r0 k s row \<Longrightarrow> unat (cx_columns cx) = length r0 \<Longrightarrow>
   blank_tail r0 (unat (cx_column cx)) (k + length keys) \<Longrightarrow> overlay_run cx keys s = (s', written, edits) \<Longrightarrow>
   \<forall>key \<in> set keys. shown_as P (fst (snd key)) \<Longrightarrow>
   written = concat (map (edit_bytes (cx_attributes cx)) edits) \<and> edits_fit P row edits \<and>
   shows_line cx r0 (k + length keys) s' (foldl row_step row edits)"
proof (induction keys arbitrary: k s row s' written edits)
  case (Cons key keys)
  obtain frame_id action offered_at where key: "key = (frame_id, action, offered_at)" by (cases key) auto
  obtain out s1 where first: "offer_inner frame_id action (Some cx) (Some offered_at) s = (out, s1)" by fastforce
  obtain s2 w2 e2 where rest: "overlay_run cx keys s1 = (s2, w2, e2)" by (cases "overlay_run cx keys s1") auto
  have "blank_tail r0 (unat (cx_column cx)) (k + 1)" "blank_tail r0 (unat (cx_column cx)) (k + 1 + length keys)"
    using Cons.prems(3) by (auto simp: blank_tail_def)
  moreover have "shown_as P action" "\<forall>key \<in> set keys. shown_as P (fst (snd key))" using Cons.prems(5) key by auto
  ultimately have shown: "(out = None \<longrightarrow> shows_line cx r0 (k + 1) s1 row) \<and>
    (\<forall>o'. out = Some o' \<longrightarrow> o' = concat (map (edit_bytes (cx_attributes cx)) (action_edits action)) \<and>
       edits_fit P row (action_edits action) \<and> shows_line cx r0 (k + 1) s1 (foldl row_step row (action_edits action)))"
    and IH: "\<And>row. shows_line cx r0 (k + 1) s1 row \<Longrightarrow>
      w2 = concat (map (edit_bytes (cx_attributes cx)) e2) \<and> edits_fit P row e2 \<and>
      shows_line cx r0 (k + 1 + length keys) s2 (foldl row_step row e2)"
    using offer_shows [OF Cons.prems(1,2) _ first] Cons.IH [OF _ Cons.prems(2) _ rest] by blast+
  show ?case
  proof (cases out)
    case None
    then show ?thesis using Cons.prems(4) key first rest shown IH [of row]
      by (simp add: offer_for_frame_with_context_at_def)
  next
    case (Some o')
    then show ?thesis
      using Cons.prems(4) key first rest shown IH [of "foldl row_step row (action_edits action)"]
      by (auto simp: offer_for_frame_with_context_at_def edits_fit_append)
  qed
qed simp

section \<open>Properties\<close>

text \<open>
  Whatever is offered, acknowledged, expired and reconciled, and in whatever order, at most
  1024 predictions and 1024 predicted cells are kept, the local cursor stays inside the predicted cells,
  and the predictions are ordered by frame, none newer than the newest frame offered.
\<close>
theorem overlay_bounded:
  "let s = foldl overlay_step (overlay_new display overwrite) ops in
     length (po_pending s) \<le> 1024 \<and> length (po_predicted s) \<le> 1024 \<and>
     po_cursor_offset s \<le> length (po_predicted s) \<and> sorted (map pe_frame_id (po_pending s)) \<and>
     (\<forall>e. e \<in> set (po_pending s) \<longrightarrow> (\<exists>newest. po_highest_frame_id s = Some newest \<and> pe_frame_id e \<le> newest))"
proof -
  have "overlay_ok (foldl overlay_step (overlay_new display overwrite) ops)"
    using overlay.run_inv overlay_new_ok by blast
  then show ?thesis by (simp add: Let_def overlay_ok_def MAXIMUM_PENDING_PREDICTIONS_def)
qed

lemma overlay_bounded_witness:
  "length (po_pending (foldl overlay_step (overlay_new Always False)
     [OpOffer 3 (PrintableAscii 65) None None, OpAcknowledge 3])) \<le> 1024"
  using overlay_bounded [of Always False "[OpOffer 3 (PrintableAscii 65) None None, OpAcknowledge 3]"]
  by (simp only: Let_def)

lemma blank_tail_replicate:
  assumes "blank_tail r0 a k" "n \<le> k" "a + n \<le> length r0"
  shows "take (length r0 - a - n) (drop a r0) @ replicate n 0x20 = drop a r0"
proof (rule nth_equalityI)
  fix i assume "i < length (take (length r0 - a - n) (drop a r0) @ replicate n 0x20)"
  then have i: "i < length r0 - a" using assms(3) by auto
  have "r0 ! (a + i) = 0x20" if "length r0 - a - n \<le> i"
    using assms i that by (simp add: blank_tail_def)
  then show "(take (length r0 - a - n) (drop a r0) @ replicate n 0x20) ! i = drop a r0 ! i"
    using i assms(3) by (auto simp: nth_append)
qed (use assms(3) in auto)

lemma overlay_start_shows:
  assumes "unat (cx_column cx) < length r0"
  shows "shows_line cx r0 0 (set_round_trip_milliseconds ms (overlay_new display False))
    \<lparr>tr_cells = r0, tr_cursor = unat (cx_column cx)\<rparr>"
  using assms by (simp add: shows_line_def set_round_trip_milliseconds_def overlay_new_def overlay_ok_def)

lemma row_restore:
  assumes cells: "tr_cells row = pre @ typed @ rest" and "length pre = a" "length typed = n" "rest \<noteq> []"
  shows "foldl row_step row ([MoveTo a, DeleteCells n] @ [MoveTo a]) =
    row\<lparr>tr_cells := pre @ rest @ replicate n 0x20, tr_cursor := a\<rparr>"
proof -
  have len: "length (tr_cells row) = a + n + length rest" "0 < length rest" using assms by auto
  have pos: "min a (a + n + length rest - 1) = a" using len(2) by linarith
  have move: "row_step row (MoveTo a) = row\<lparr>tr_cursor := a\<rparr>" using pos by (simp add: len(1))
  have del: "row_step (row\<lparr>tr_cursor := a\<rparr>) (DeleteCells n) =
      row\<lparr>tr_cells := pre @ rest @ replicate n 0x20, tr_cursor := a\<rparr>"
    using len assms by simp
  have stay: "row_step (row\<lparr>tr_cells := pre @ rest @ replicate n 0x20, tr_cursor := a\<rparr>) (MoveTo a) =
      row\<lparr>tr_cells := pre @ rest @ replicate n 0x20, tr_cursor := a\<rparr>"
    using pos assms by (simp add: add.assoc add.commute [of n])
  show ?thesis using move del stay by (simp del: row_step.simps)
qed

lemma shows_line_reconciles:
  assumes "shows_line cx r0 k s row" "blank_tail r0 (unat (cx_column cx)) k"
  shows "foldl row_step row (reconcile_edits cx s) = \<lparr>tr_cells = r0, tr_cursor = unat (cx_column cx)\<rparr>"
proof -
  let ?a = "unat (cx_column cx)" and ?n = "po_rollback_cells s" and ?L = "length r0"
  note s = assms(1) [unfolded shows_line_def]
  obtain typed where typed: "length typed = ?n"
    "tr_cells row = take ?a r0 @ typed @ take (?L - ?a - ?n) (drop ?a r0)" using s by blast
  have a: "?a < ?L" "?a + ?n < ?L" "?n \<le> k" using s by auto
  have len: "length (tr_cells row) = ?L" using typed a by auto
  have whole: "?n = 0 \<Longrightarrow> tr_cells row = r0" using typed by simp
  have "foldl row_step row (reconcile_edits cx s) =
      row\<lparr>tr_cells := take ?a r0 @ take (?L - ?a - ?n) (drop ?a r0) @ replicate ?n 0x20, tr_cursor := ?a\<rparr>"
  proof (cases "?n = 0")
    case True
    then show ?thesis using a len whole by (simp add: reconcile_edits_def)
  next
    case False
    have "foldl row_step row ([MoveTo ?a, DeleteCells ?n] @ [MoveTo ?a]) =
        row\<lparr>tr_cells := take ?a r0 @ take (?L - ?a - ?n) (drop ?a r0) @ replicate ?n 0x20, tr_cursor := ?a\<rparr>"
      using typed a by (intro row_restore) auto
    then show ?thesis using False by (simp only: reconcile_edits_def not_False_eq_True if_True)
  qed
  then show ?thesis using blank_tail_replicate [OF assms(2) a(3)] a by simp
qed

section \<open>What the bytes do to a screen\<close>

text \<open>
  The bytes of the overlay are fed to the parser of a terminal (\<open>feed_prediction_overlay\<close>), which is a library. It is a
  parameter \<open>feed\<close> here; what the overlay relies on is the documented meaning (ECMA-48) of the control functions it
  uses: insert and delete characters, cursor left, right and position, and a graphic rendition. A character
  that takes one cell is put at the cursor, which moves on.
\<close>

record screen =
  sc_lines :: "nat list list"
  sc_row :: nat
  sc_column :: nat

definition line_of :: "screen \<Rightarrow> term_row" where
  "line_of sc = \<lparr>tr_cells = sc_lines sc ! sc_row sc, tr_cursor = sc_column sc\<rparr>"

definition with_line :: "screen \<Rightarrow> term_row \<Rightarrow> screen" where
  "with_line sc r = sc\<lparr>sc_lines := (sc_lines sc)[sc_row sc := tr_cells r], sc_column := tr_cursor r\<rparr>"

definition on_screen :: "screen \<Rightarrow> bool" where
  "on_screen sc \<longleftrightarrow> sc_row sc < length (sc_lines sc) \<and> sc_column sc < length (sc_lines sc ! sc_row sc)"

definition on_line :: "row_edit \<Rightarrow> screen \<Rightarrow> screen" where
  "on_line e sc = with_line sc (row_step (line_of sc) e)"

definition control :: "bytes \<Rightarrow> string \<Rightarrow> bytes" where
  "control parameters final = ESC # ascii ''['' @ parameters @ ascii final"

definition cursor_to :: "nat \<Rightarrow> nat \<Rightarrow> bytes" where
  "cursor_to r c = control (decimal_digits (r + 1) @ ascii '';'' @ decimal_digits (c + 1)) ''H''"

definition reads_controls :: "(screen \<Rightarrow> bytes \<Rightarrow> screen) \<Rightarrow> (nat \<Rightarrow> bool) \<Rightarrow> bool" where
  "reads_controls feed one_cell \<longleftrightarrow>
     (\<forall>sc. feed sc [] = sc) \<and>
     (\<forall>sc bs. on_screen sc \<longrightarrow>
        feed sc (control [] ''@'' @ bs) = feed (on_line InsertBlank sc) bs \<and>
        feed sc (control [] ''P'' @ bs) = feed (on_line (DeleteCells 1) sc) bs \<and>
        feed sc (control [] ''D'' @ bs) = feed (on_line StepLeft sc) bs \<and>
        feed sc (control [] ''C'' @ bs) = feed (on_line StepRight sc) bs \<and>
        feed sc (control (ascii ''4'') ''m'' @ bs) = feed sc bs \<and>
        (\<forall>n. 0 < n \<and> n < 2 ^ 16 \<longrightarrow>
           feed sc (control (decimal_digits n) ''P'' @ bs) = feed (on_line (DeleteCells n) sc) bs) \<and>
        (\<forall>r c. r < length (sc_lines sc) \<and> r + 1 < 2 ^ 16 \<and> c + 1 < 2 ^ 16 \<longrightarrow>
           feed sc (cursor_to r c @ bs) = feed (on_line (MoveTo c) (sc\<lparr>sc_row := r\<rparr>)) bs) \<and>
        (\<forall>c. one_cell c \<and> sc_column sc + 1 < length (sc_lines sc ! sc_row sc) \<longrightarrow>
           feed sc (encode_utf8 c @ bs) = feed (on_line (Put c) sc) bs))"

lemma reads_controlsD:
  assumes "reads_controls feed one_cell"
  shows "feed sc [] = sc"
    and "on_screen sc \<Longrightarrow> feed sc (INSERT_CHARACTER @ bs) = feed (on_line InsertBlank sc) bs"
    and "on_screen sc \<Longrightarrow> feed sc (DELETE_CHARACTER @ bs) = feed (on_line (DeleteCells 1) sc) bs"
    and "on_screen sc \<Longrightarrow> feed sc (CURSOR_LEFT @ bs) = feed (on_line StepLeft sc) bs"
    and "on_screen sc \<Longrightarrow> feed sc (CURSOR_RIGHT @ bs) = feed (on_line StepRight sc) bs"
    and "on_screen sc \<Longrightarrow> feed sc (UNDERLINE_RENDITION @ bs) = feed sc bs"
    and "on_screen sc \<Longrightarrow> 0 < n \<Longrightarrow> n < 2 ^ 16 \<Longrightarrow>
      feed sc (control (decimal_digits n) ''P'' @ bs) = feed (on_line (DeleteCells n) sc) bs"
    and "on_screen sc \<Longrightarrow> r < length (sc_lines sc) \<Longrightarrow> r + 1 < 2 ^ 16 \<Longrightarrow> c + 1 < 2 ^ 16 \<Longrightarrow>
      feed sc (cursor_to r c @ bs) = feed (on_line (MoveTo c) (sc\<lparr>sc_row := r\<rparr>)) bs"
    and "on_screen sc \<Longrightarrow> one_cell k \<Longrightarrow> sc_column sc + 1 < length (sc_lines sc ! sc_row sc) \<Longrightarrow>
      feed sc (encode_utf8 k @ bs) = feed (on_line (Put k) sc) bs"
  using assms
  unfolding reads_controls_def INSERT_CHARACTER_def DELETE_CHARACTER_def CURSOR_LEFT_def CURSOR_RIGHT_def
    UNDERLINE_RENDITION_def control_def ascii_def
  by simp_all

lemma line_of_with_line [simp]:
  "sc_row sc < length (sc_lines sc) \<Longrightarrow> line_of (with_line sc r) = r"
  "with_line (with_line sc r) r' = with_line sc r'" "with_line sc (line_of sc) = sc"
  "sc_row (with_line sc r) = sc_row sc" "length (sc_lines (with_line sc r)) = length (sc_lines sc)"
  by (simp_all add: line_of_def with_line_def)

lemma row_step_size:
  assumes "tr_cursor r < length (tr_cells r)"
  shows "length (tr_cells (row_step r e)) = length (tr_cells r) \<and> tr_cursor (row_step r e) < length (tr_cells r)"
  using assms by (cases e) auto

lemma on_screen_line: "on_screen sc \<longleftrightarrow> sc_row sc < length (sc_lines sc) \<and> tr_cursor (line_of sc) < length (tr_cells (line_of sc))"
  by (simp add: on_screen_def line_of_def)

lemma on_screen_step: "on_screen sc \<Longrightarrow> on_screen (on_line e sc)"
  using row_step_size [of "line_of sc" e] by (simp add: on_screen_line on_line_def)

text \<open>The bytes of the edits change the line as the edits do, whatever follows them.\<close>

lemma feed_edits:
  assumes laws: "reads_controls feed one_cell" and attributes: "\<And>sc bs. feed sc (attributes @ bs) = feed sc bs"
  shows "on_screen sc \<Longrightarrow> edits_fit one_cell (line_of sc) edits \<Longrightarrow>
    feed sc (concat (map (edit_bytes attributes) edits) @ bs) =
      feed (with_line sc (foldl row_step (line_of sc) edits)) bs \<and>
    on_screen (with_line sc (foldl row_step (line_of sc) edits))"
proof (induction edits arbitrary: sc)
  case (Cons e edits)
  let ?rest = "concat (map (edit_bytes attributes) edits) @ bs"
  have row: "sc_row sc < length (sc_lines sc)" using Cons.prems(1) by (simp add: on_screen_def)
  have next_line: "line_of (on_line e sc) = row_step (line_of sc) e" using row by (simp add: on_line_def)
  have "feed sc (edit_bytes attributes e @ ?rest) = feed (on_line e sc) ?rest"
  proof (cases e)
    case (Put c)
    then have put: "one_cell c" "sc_column sc + 1 < length (sc_lines sc ! sc_row sc)"
      using Cons.prems(2) by (simp_all add: line_of_def)
    show ?thesis
      using reads_controlsD(9) [OF laws Cons.prems(1) put] reads_controlsD(6) [OF laws Cons.prems(1)] Put attributes by simp
  next
    case (DeleteCells n)
    then show ?thesis using Cons.prems reads_controlsD(3) [OF laws Cons.prems(1)] by simp
  next
    case (MoveTo k)
    then show ?thesis using Cons.prems(2) by simp
  qed (use reads_controlsD [OF laws] Cons.prems(1) in simp_all)
  moreover have "edits_fit one_cell (line_of (on_line e sc)) edits" using Cons.prems(2) next_line by simp
  moreover from Cons.IH [OF on_screen_step [OF Cons.prems(1), of e] this]
  have "feed (on_line e sc) ?rest = feed (with_line sc (foldl row_step (line_of sc) (e # edits))) bs \<and>
      on_screen (with_line sc (foldl row_step (line_of sc) (e # edits)))"
    unfolding next_line by (simp add: on_line_def)
  ultimately show ?case by simp
qed (simp add: on_screen_line)

lemma unat_lt16: "unat (w :: u16) < 65536"
  using unsigned_less [of w] by simp

lemma local_reconciliation_feeds:
  assumes laws: "reads_controls feed one_cell" and attributes: "\<And>sc bs. feed sc (cx_attributes cx @ bs) = feed sc bs"
    and "on_screen sc" "sc_row sc = unat (cx_row cx)" "length (sc_lines sc) < 2 ^ 16" "unat (cx_column cx) + 1 < 2 ^ 16"
    and "po_rollback_cells s < 2 ^ 16"
    and cursor: "cx_cursor_state cx = cursor_to (unat (cx_row cx)) (unat (cx_column cx)) @ cx_attributes cx"
    and "po_line_context s = Some cx" "local_reconciliation s = Some out"
  shows "feed sc out = with_line sc (foldl row_step (line_of sc) (reconcile_edits cx s))"
proof -
  let ?r = "unat (cx_row cx)" and ?c = "unat (cx_column cx)" and ?n = "po_rollback_cells s"
  have row: "sc_row sc < length (sc_lines sc)" "?r + 1 < 2 ^ 16"
    using assms(3-5) by (auto simp: on_screen_def)
  have inc: "unat (u16_saturating_inc w) = unat w + 1" if "unat w + 1 < 2 ^ 16" for w
    using that
    by (auto simp: u16_saturating_inc_def unat_word_ariths unsigned_minus_1_eq_mask mask_eq_exp_minus_1)
  have out: "out = (if ?n \<noteq> 0 then cursor_to ?r ?c @ control (decimal_digits ?n) ''P'' else []) @
      cursor_to ?r ?c @ cx_attributes cx"
    using assms(9,10) inc [OF row(2)] inc [OF assms(6)]
    by (cases "?n = 0")
       (auto simp: local_reconciliation_def cursor cursor_to_def control_def ascii_def simp del: decimal_digits.simps)
  have move: "feed t (cursor_to ?r ?c @ bs) = feed (on_line (MoveTo ?c) t) bs"
    if "on_screen t" "sc_row t = sc_row sc" "length (sc_lines t) = length (sc_lines sc)" for t bs
  proof -
    have "t\<lparr>sc_row := ?r\<rparr> = t" using that(2) assms(4) by simp
    then show ?thesis using reads_controlsD(8) [OF laws that(1), of ?r ?c bs] row assms(4,6) that(3) by simp
  qed
  have last: "feed t (cursor_to ?r ?c @ cx_attributes cx) = on_line (MoveTo ?c) t"
    if "on_screen t" "sc_row t = sc_row sc" "length (sc_lines t) = length (sc_lines sc)" for t
    using move [OF that] attributes [of _ "[]"] reads_controlsD(1) [OF laws] by simp
  have kept: "sc_row (on_line e t) = sc_row t" "length (sc_lines (on_line e t)) = length (sc_lines t)" for e t
    by (simp_all add: on_line_def)
  show ?thesis
  proof (cases "?n = 0")
    case True
    then show ?thesis using out last [OF assms(3)] by (simp add: reconcile_edits_def on_line_def)
  next
    case False
    let ?t = "on_line (MoveTo ?c) sc"
    have t: "on_screen ?t" by (rule on_screen_step [OF assms(3)])
    let ?u = "on_line (DeleteCells ?n) ?t"
    have u: "on_screen ?u" by (rule on_screen_step [OF t])
    have "feed sc out = on_line (MoveTo ?c) ?u"
      using False out move [OF assms(3)] reads_controlsD(7) [OF laws t, of ?n] assms(7) last [OF u] kept by simp
    then show ?thesis using False row by (simp add: reconcile_edits_def on_line_def)
  qed
qed

text \<open>
  Property C10: a run of keys echoed at one authoritative cursor of an insert-mode overlay can be taken off without the
  server. Whatever keys are offered, the terminal that is fed the bytes written for them and then the bytes of the local reconciliation
  shows exactly the screen it showed before, every line of it, with the cursor where it was; a redraw is never needed, and when no reconciliation is
  due the bytes written have changed nothing. This holds when the characters take one cell each, the cells that
  the echo pushes over the right margin are blank, and the cursor state of the context positions the cursor as the session
  writes it (\<open>prediction_context\<close>).
\<close>
theorem echo_taken_back:
  assumes "reads_controls feed one_cell" "\<forall>key \<in> set keys. shown_as one_cell (fst (snd key))"
    and "\<forall>sc bs. feed sc (cx_attributes cx @ bs) = feed sc bs"
    and "cx_cursor_state cx = cursor_to (unat (cx_row cx)) (unat (cx_column cx)) @ cx_attributes cx"
    and "sc = \<lparr>sc_lines = lines, sc_row = unat (cx_row cx), sc_column = unat (cx_column cx)\<rparr>"
    and "unat (cx_row cx) < length lines" "length lines < 2 ^ 16"
    and "unat (cx_columns cx) = length (lines ! unat (cx_row cx))" "unat (cx_column cx) < unat (cx_columns cx)"
    and "blank_tail (lines ! unat (cx_row cx)) (unat (cx_column cx)) (length keys)"
    and "overlay_run cx keys (set_round_trip_milliseconds ms (overlay_new display False)) = (s, written, edits)"
  shows "case fst (take_reconciliation s) of
       NoReconciliation \<Rightarrow> feed sc written = sc
     | Local out \<Rightarrow> feed sc (written @ out) = sc
     | Redraw \<Rightarrow> False"
proof -
  let ?r0 = "lines ! unat (cx_row cx)" and ?row = "line_of sc"
  have on: "on_screen sc" and row: "?row = \<lparr>tr_cells = ?r0, tr_cursor = unat (cx_column cx)\<rparr>"
    using assms(5,6,8,9) by (simp_all add: on_screen_def line_of_def)
  have attributes: "\<And>sc bs. feed sc (cx_attributes cx @ bs) = feed sc bs" using assms(3) by blast
  have start: "shows_line cx ?r0 0 (set_round_trip_milliseconds ms (overlay_new display False)) ?row"
    unfolding row by (rule overlay_start_shows) (use assms(8,9) in simp)
  have shown: "written = concat (map (edit_bytes (cx_attributes cx)) edits)" "edits_fit one_cell ?row edits"
    "shows_line cx ?r0 (length keys) s (foldl row_step ?row edits)"
    using overlay_run_shows [OF start assms(8) _ assms(11,2)] assms(10) by simp_all
  note s = shown(3) [unfolded shows_line_def]
  let ?sc = "with_line sc (foldl row_step ?row edits)"
  have fed: "feed sc (written @ bs) = feed ?sc bs" "on_screen ?sc" for bs
    using feed_edits [OF assms(1) attributes on shown(2)] shown(1) by simp_all
  have sc_row: "sc_row sc < length (sc_lines sc)" using on by (simp add: on_screen_def)
  have restored: "foldl row_step (foldl row_step ?row edits) (reconcile_edits cx s) = ?row"
    using shows_line_reconciles [OF shown(3) assms(10)] by (simp add: row)
  show ?thesis
  proof (cases "po_overlay_active s")
    case True
    then have active: "po_line_context s = Some cx" "\<not> po_overwrite s" using s by auto
    then obtain out where out: "local_reconciliation s = Some out" by (simp add: local_reconciliation_def)
    have "unat (cx_columns cx) < 2 ^ 16" using unat_lt16 [of "cx_columns cx"] by simp
    then have small: "unat (cx_column cx) + 1 < 2 ^ 16" "po_rollback_cells s < 2 ^ 16"
      using assms(8,9) s by linarith+
    have here: "sc_row ?sc = unat (cx_row cx)" "length (sc_lines ?sc) < 2 ^ 16" using assms(5,7) by simp_all
    from local_reconciliation_feeds [OF assms(1) attributes fed(2) here small assms(4) active(1) out]
    have "feed ?sc out = sc" using sc_row restored by simp
    then show ?thesis using True active out fed(1) by (simp add: take_reconciliation_def)
  next
    case False
    then have "po_rollback_cells s = 0" "po_cursor_offset s = 0" "\<not> po_reconciliation_required s"
      using s by (auto simp: overlay_ok_def)
    then have "foldl row_step ?row edits = ?row"
      using s by (cases "foldl row_step ?row edits") (simp add: row)
    then show ?thesis
      using fed(1) [of "[]"] reads_controlsD(1) [OF assms(1)] False \<open>\<not> po_reconciliation_required s\<close>
      by (simp add: take_reconciliation_def)
  qed
qed

text \<open>A terminal that reads these control functions and the printable ASCII characters, byte by byte.\<close>

datatype reader = Text | Escape | Csi "nat list"

definition control_effect :: "byte \<Rightarrow> nat list \<Rightarrow> screen \<Rightarrow> screen" where
  "control_effect final parameters sc =
     (if final = 0x40 then on_line InsertBlank sc
      else if final = 0x50 then on_line (DeleteCells (max 1 (hd parameters))) sc
      else if final = 0x44 then on_line StepLeft sc
      else if final = 0x43 then on_line StepRight sc
      else if final = 0x48 then
        on_line (MoveTo (hd parameters - 1)) (sc\<lparr>sc_row := hd (tl parameters) - 1\<rparr>)
      else sc)"

fun read_byte :: "screen \<times> reader \<Rightarrow> byte \<Rightarrow> screen \<times> reader" where
  "read_byte (sc, Text) b =
     (if b = ESC then (sc, Escape)
      else if 0x20 \<le> b \<and> b < 0x7F then (on_line (Put (unat b)) sc, Text) else (sc, Text))"
| "read_byte (sc, Escape) b = (sc, if b = 0x5B then Csi [0] else Text)"
| "read_byte (sc, Csi parameters) b =
     (if 0x30 \<le> b \<and> b \<le> 0x39 then (sc, Csi ((hd parameters * 10 + (unat b - 0x30)) # tl parameters))
      else if b = 0x3B then (sc, Csi (0 # parameters))
      else (control_effect b parameters sc, Text))"

definition ascii_feed :: "screen \<Rightarrow> bytes \<Rightarrow> screen" where
  "ascii_feed sc bs = fst (foldl read_byte (sc, Text) bs)"

lemma read_digits: "foldl read_byte (sc, Csi (0 # ps)) (decimal_digits n) = (sc, Csi (n # ps))"
proof (induction n rule: decimal_digits.induct)
  case (1 n)
  have digit: "foldl read_byte (sc, Csi (k # ps)) [of_nat (48 + d)] = (sc, Csi ((k * 10 + d) # ps))" if "d < 10" for k d
  proof -
    have "unat (of_nat (48 + d) :: byte) = 48 + d" using that by (simp add: unat_of_nat del: of_nat_add)
    then show ?thesis using that by (simp add: word_le_nat_alt del: of_nat_add)
  qed
  show ?case
  proof (cases "n < 10")
    case True
    then have "decimal_digits n = [of_nat (48 + n)]" by (subst decimal_digits.simps) (simp del: of_nat_add)
    then show ?thesis using digit [OF True, of 0] by (simp only: mult_zero_left add_0)
  next
    case False
    then have "decimal_digits n = decimal_digits (n div 10) @ [of_nat (48 + n mod 10)]"
      by (subst decimal_digits.simps) (simp del: of_nat_add)
    then show ?thesis
      using "1.IH" [OF False] digit [of "n mod 10" "n div 10"]
      by (simp add: mult.commute del: decimal_digits.simps of_nat_add read_byte.simps)
  qed
qed

lemma ascii_feed_reads: "reads_controls ascii_feed (\<lambda>c. 0x20 \<le> c \<and> c < 0x7F)"
proof -
  have put: "ascii_feed sc (encode_utf8 c @ bs) = ascii_feed (on_line (Put c) sc) bs" if "0x20 \<le> c" "c < 0x7F" for sc c bs
  proof -
    have "unat (of_nat c :: byte) = c" using that by (simp add: unat_of_nat)
    then have "0x20 \<le> (of_nat c :: byte)" "(of_nat c :: byte) < 0x7F" "(of_nat c :: byte) \<noteq> ESC"
      using that by (auto simp: word_le_nat_alt word_less_nat_alt ESC_def)
    then show ?thesis using that \<open>unat (of_nat c) = c\<close> by (simp add: ascii_feed_def encode_utf8_def)
  qed
  have controls: "ascii_feed sc (control [] ''@'' @ bs) = ascii_feed (on_line InsertBlank sc) bs"
    "ascii_feed sc (control [] ''P'' @ bs) = ascii_feed (on_line (DeleteCells 1) sc) bs"
    "ascii_feed sc (control [] ''D'' @ bs) = ascii_feed (on_line StepLeft sc) bs"
    "ascii_feed sc (control [] ''C'' @ bs) = ascii_feed (on_line StepRight sc) bs"
    "ascii_feed sc (control (ascii ''4'') ''m'' @ bs) = ascii_feed sc bs" for sc bs
    by (simp_all add: ascii_feed_def control_def ascii_def ESC_def control_effect_def)
  have count: "ascii_feed sc (control (decimal_digits n) ''P'' @ bs) = ascii_feed (on_line (DeleteCells n) sc) bs"
    if "0 < n" for sc n bs
    using that by (simp add: ascii_feed_def control_def ascii_def ESC_def control_effect_def read_digits del: decimal_digits.simps)
  have move: "ascii_feed sc (cursor_to r c @ bs) = ascii_feed (on_line (MoveTo c) (sc\<lparr>sc_row := r\<rparr>)) bs" for sc r c bs
    by (simp add: ascii_feed_def cursor_to_def control_def ascii_def ESC_def control_effect_def read_digits
        del: decimal_digits.simps)
  show ?thesis unfolding reads_controls_def by (simp add: put controls count move) (simp add: ascii_feed_def)
qed

definition echo_context :: prediction_context where
  "echo_context =
     \<lparr>cx_row = 1, cx_column = 1, cx_columns = 4, cx_attributes = control (ascii ''0'') ''m'',
      cx_cursor_state = cursor_to 1 1 @ control (ascii ''0'') ''m''\<rparr>"

definition echo_screen :: screen where
  "echo_screen = \<lparr>sc_lines = [[0x61, 0x62, 0x63, 0x64], [0x24, 0x20, 0x20, 0x20]], sc_row = 1, sc_column = 1\<rparr>"

definition echo_run :: "prediction_overlay \<times> bytes \<times> row_edit list" where
  "echo_run = overlay_run echo_context [(0, PrintableAscii 0x6C, 5), (1, PrintableAscii 0x73, 6)]
     (set_round_trip_milliseconds None (overlay_new Always False))"

lemma echo_taken_back_witness:
  "\<exists>out. fst (take_reconciliation (fst echo_run)) = Local out \<and> fst (snd echo_run) \<noteq> [] \<and>
     ascii_feed echo_screen (fst (snd echo_run) @ out) = echo_screen"
proof -
  obtain s written edits where run: "echo_run = (s, written, edits)" by (cases echo_run) auto
  let ?keys = "[(0, PrintableAscii 0x6C, 5), (1, PrintableAscii 0x73, 6)]"
  have sgr: "\<forall>sc bs. ascii_feed sc (cx_attributes echo_context @ bs) = ascii_feed sc bs"
    by (simp add: ascii_feed_def echo_context_def control_def ascii_def ESC_def control_effect_def)
  have blank: "blank_tail [0x24, 0x20, 0x20, 0x20] 1 (length ?keys)"
    by (auto simp: blank_tail_def nth_Cons split: nat.split)
  have cx: "unat (cx_row echo_context) = 1" "unat (cx_column echo_context) = 1" "unat (cx_columns echo_context) = 4"
    "cx_cursor_state echo_context = cursor_to 1 1 @ cx_attributes echo_context"
    by (simp_all add: echo_context_def)
  have keys: "\<forall>key \<in> set ?keys. shown_as (\<lambda>c. 0x20 \<le> c \<and> c < 0x7F) (fst (snd key))"
    by (simp add: shown_as_def)
  have "case fst (take_reconciliation s) of
       NoReconciliation \<Rightarrow> ascii_feed echo_screen written = echo_screen
     | Local out \<Rightarrow> ascii_feed echo_screen (written @ out) = echo_screen
     | Redraw \<Rightarrow> False"
    by (rule echo_taken_back [OF ascii_feed_reads keys sgr _ _ _ _ _ _ _ run [unfolded echo_run_def],
          where lines = "sc_lines echo_screen"])
       (use cx blank in \<open>simp_all add: echo_screen_def\<close>)
  moreover have "po_overlay_active s"
  proof -
    have "po_overlay_active (fst echo_run)" by code_simp
    then show ?thesis by (simp add: run)
  qed
  then have "fst (take_reconciliation s) \<noteq> NoReconciliation"
    by (auto simp: take_reconciliation_def split: option.splits)
  moreover have "fst (snd echo_run) \<noteq> []" by code_simp
  ultimately show ?thesis unfolding run fst_conv snd_conv by (cases "fst (take_reconciliation s)") auto
qed

definition sample_context :: prediction_context where
  "sample_context =
     \<lparr>cx_row = 0, cx_column = 1, cx_columns = 4, cx_attributes = ascii ''a'', cx_cursor_state = ascii ''c''\<rparr>"

text \<open>A key that is predicted while nothing is shown anchors the span.\<close>

definition shows_nothing :: "prediction_overlay \<Rightarrow> bool" where
  "shows_nothing s \<longleftrightarrow> overlay_ok s \<and> \<not> po_overlay_active s \<and> po_line_context s = None \<and> po_pending s = []"

lemma display_enabled_newest: "display_enabled (offer_newest f s) = display_enabled s"
  by (cases "po_display s") (simp_all add: display_enabled_def offer_newest_def offer_counted_def)

lemma shows_nothing_steps:
  assumes "shows_nothing s" "case po_highest_frame_id s of None \<Rightarrow> True | Some h \<Rightarrow> h \<le> f"
    "display_enabled s" "is_ascii_graphic b"
  shows "unat (cx_columns cx) - 1 \<le> unat (cx_column cx) \<Longrightarrow> offer_inner f (PrintableAscii b) (Some cx) t s =
     (None, invalidate_span ((offer_newest f s)\<lparr>po_line_context := Some cx\<rparr>))"
    and "\<not> unat (cx_columns cx) - 1 \<le> unat (cx_column cx) \<Longrightarrow> offer_inner f (PrintableAscii b) (Some cx) t s =
     (Some ((if po_overwrite s then [] else INSERT_CHARACTER) @ edit_bytes (cx_attributes cx) (Put (unat b))),
      record_displayed f (PrintableAscii b) t ((offer_newest f s)\<lparr>po_line_context := Some cx,
        po_predicted := [\<lparr>pc_frame_id = f, pc_acknowledged = False\<rparr>], po_cursor_offset := 1,
        po_displayed_cells := po_displayed_cells s + 1, po_rollback_cells := 1, po_overlay_active := True\<rparr>))"
proof -
  have s: "overlay_ok s" "\<not> po_overlay_active s" "po_line_context s = None" "po_pending s = []"
    using assms(1) by (auto simp: shows_nothing_def)
  define s2 where "s2 = offer_newest f s"
  have kept: "po_overwrite s2 = po_overwrite s" "po_predicted s2 = []" "po_cursor_offset s2 = 0"
    "po_line_context s2 = None" "po_rollback_cells s2 = 0" "po_displayed_cells s2 = po_displayed_cells s"
    "\<not> po_reconciliation_required s2" "display_enabled s2" "length (po_pending s2) < MAXIMUM_PENDING_PREDICTIONS"
    using s assms(3) display_enabled_newest [of f s]
    by (auto simp: s2_def offer_newest_def offer_counted_def overlay_ok_def MAXIMUM_PENDING_PREDICTIONS_def)
  have fresh: "\<not> (case po_highest_frame_id (offer_counted s) of None \<Rightarrow> False | Some highest \<Rightarrow> f < highest)"
    using assms(2) by (auto simp: offer_counted_def split: option.splits)
  have "offer_inner f (PrintableAscii b) (Some cx) t s =
      (case predict_action f (PrintableAscii b) (Some cx) s2 of
         (None, s) \<Rightarrow> (None, s) | (Some out, s) \<Rightarrow> (Some out, record_displayed f (PrintableAscii b) t s))"
    using kept fresh by (simp add: offer_inner_steps [of f _ _ _ s, folded s2_def] MAXIMUM_PENDING_PREDICTIONS_def)
  then show "unat (cx_columns cx) - 1 \<le> unat (cx_column cx) \<Longrightarrow> offer_inner f (PrintableAscii b) (Some cx) t s =
     (None, invalidate_span ((offer_newest f s)\<lparr>po_line_context := Some cx\<rparr>))"
    and "\<not> unat (cx_columns cx) - 1 \<le> unat (cx_column cx) \<Longrightarrow> offer_inner f (PrintableAscii b) (Some cx) t s =
     (Some ((if po_overwrite s then [] else INSERT_CHARACTER) @ edit_bytes (cx_attributes cx) (Put (unat b))),
      record_displayed f (PrintableAscii b) t ((offer_newest f s)\<lparr>po_line_context := Some cx,
        po_predicted := [\<lparr>pc_frame_id = f, pc_acknowledged = False\<rparr>], po_cursor_offset := 1,
        po_displayed_cells := po_displayed_cells s + 1, po_rollback_cells := 1, po_overlay_active := True\<rparr>))"
    using assms(4) kept shown_ascii [of b] unfolding s2_def [symmetric]
    by (simp_all add: predict_action_def predict_printable_def)
qed

text \<open>
  The echo of a key cannot be taken back in general. After one key is shown and reconciled
  locally, the row is the old row with its last cell lost: what the inserted character pushed over the
  right margin is gone, and the row is restored if and only if its last cell was blank.
\<close>
theorem echo_drops_last_cell:
  assumes "unat (cx_columns cx) = length r0" "unat (cx_column cx) + 1 < length r0" "is_ascii_graphic b"
    and "overlay_run cx [(f, PrintableAscii b, t)] (overlay_new Always False) = (s, written, edits)"
    and "row = \<lparr>tr_cells = r0, tr_cursor = unat (cx_column cx)\<rparr>"
  shows "edits = [InsertBlank, Put (unat b)] \<and>
    foldl row_step row (edits @ reconcile_edits cx s) = row\<lparr>tr_cells := butlast r0 @ [0x20]\<rparr> \<and>
    (foldl row_step row (edits @ reconcile_edits cx s) = row \<longleftrightarrow> last r0 = 0x20)"
proof -
  let ?a = "unat (cx_column cx)" and ?L = "length r0"
  have start: "shows_nothing (overlay_new Always False)" "display_enabled (overlay_new Always False)"
    "po_highest_frame_id (overlay_new Always False) = None" "\<not> po_overwrite (overlay_new Always False)"
    using overlay_new_ok [of Always False] by (simp_all add: shows_nothing_def overlay_new_def display_enabled_def)
  have inside: "\<not> unat (cx_columns cx) - 1 \<le> ?a" using assms(1,2) by linarith
  have res: "edits = [InsertBlank, Put (unat b)]" "po_rollback_cells s = 1"
    using assms(4) shows_nothing_steps(2) [OF start(1) _ start(2) assms(3) inside, of f] start(3,4)
    by (auto simp: offer_for_frame_with_context_at_def action_edits_def record_displayed_def)
  have put: "foldl row_step row edits =
      row\<lparr>tr_cells := take ?a r0 @ [unat b] @ take (?L - ?a - 1) (drop ?a r0), tr_cursor := ?a + 1\<rparr>"
    using assms(2,5) row_insert [of row "take ?a r0" "drop ?a r0" "unat b"]
    by (simp add: res(1) butlast_conv_take del: row_step.simps)
  have "foldl row_step row (edits @ reconcile_edits cx s) =
      foldl row_step (foldl row_step row edits) ([MoveTo ?a, DeleteCells 1] @ [MoveTo ?a])"
    by (simp add: reconcile_edits_def res(2))
  also have "\<dots> = row\<lparr>tr_cells := take ?a r0 @ take (?L - ?a - 1) (drop ?a r0) @ [0x20], tr_cursor := ?a\<rparr>"
    unfolding put using assms(2) by (subst row_restore [where pre = "take ?a r0" and typed = "[unat b]"
        and rest = "take (?L - ?a - 1) (drop ?a r0)"]) auto
  also have "take ?a r0 @ take (?L - ?a - 1) (drop ?a r0) @ [0x20] = butlast r0 @ [0x20]"
  proof -
    have "?L - 1 = ?a + (?L - ?a - 1)" using assms(2) by linarith
    then show ?thesis by (metis append_assoc butlast_conv_take take_add)
  qed
  finally have after: "foldl row_step row (edits @ reconcile_edits cx s) = row\<lparr>tr_cells := butlast r0 @ [0x20]\<rparr>"
    by (simp add: assms(5))
  have "r0 \<noteq> []" using assms(2) by auto
  then have "butlast r0 @ [0x20] = r0 \<longleftrightarrow> last r0 = 0x20" by (metis append_butlast_last_id last_snoc)
  then show ?thesis using after res(1) by (simp add: assms(5))
qed

lemma echo_drops_last_cell_witness:
  "foldl row_step \<lparr>tr_cells = [0x24, 0x20, 0x20, 0x7C], tr_cursor = 1\<rparr>
     ([InsertBlank, Put 0x6C] @ reconcile_edits sample_context
       (fst (overlay_run sample_context [(0, PrintableAscii 0x6C, 5)] (overlay_new Always False)))) =
   \<lparr>tr_cells = [0x24, 0x20, 0x20, 0x20], tr_cursor = 1\<rparr>"
proof -
  obtain s w e where run: "overlay_run sample_context [(0, PrintableAscii 0x6C, 5)] (overlay_new Always False) = (s, w, e)"
    by (cases "overlay_run sample_context [(0, PrintableAscii 0x6C, 5)] (overlay_new Always False)") auto
  have cx: "unat (cx_columns sample_context) = 4" "unat (cx_column sample_context) = 1"
    by (simp_all add: sample_context_def)
  show ?thesis
    using echo_drops_last_cell [OF _ _ _ run, of "[0x24, 0x20, 0x20, 0x7C]"] cx
    by (auto simp add: run is_ascii_graphic_def simp del: row_step.simps overlay_run.simps)
qed

text \<open>An overlay anchored at the margin with nothing shown: it refuses every key, and no operation clears the anchor.\<close>

definition margin_anchored :: "prediction_overlay \<Rightarrow> bool" where
  "margin_anchored s \<longleftrightarrow>
     \<not> po_overlay_active s \<and> \<not> po_reconciliation_required s \<and> po_predicted s = [] \<and> po_cursor_offset s = 0 \<and>
     (\<exists>anchor. po_line_context s = Some anchor \<and> unat (cx_columns anchor) - 1 \<le> unat (cx_column anchor))"

fun offers_with_context :: "overlay_op \<Rightarrow> bool" where
  "offers_with_context (OpOffer f action cx t) = (cx \<noteq> None)"
| "offers_with_context _ = True"

lemma margin_anchored_refuses:
  assumes "margin_anchored s"
  shows "fst (offer_inner f action (Some cx) t s) = None"
    and "margin_anchored (snd (offer_inner f action (Some cx) t s))"
proof -
  have newest: "margin_anchored (offer_newest f s)" "margin_anchored (offer_counted s)"
    using assms by (simp_all add: margin_anchored_def offer_newest_def offer_counted_def)
  have span: "margin_anchored (invalidate_span s)" if "margin_anchored s" for s
    using that by (simp add: margin_anchored_def invalidate_span_def)
  have printable: "fst (predict_printable f bs (Some cx) s) = None \<and> margin_anchored (snd (predict_printable f bs (Some cx) s))"
    if "margin_anchored s" for s bs
    using that span [OF that] by (auto simp: predict_printable_def margin_anchored_def Let_def)
  have "fst (predict_action f action (Some cx) s) = None \<and> margin_anchored (snd (predict_action f action (Some cx) s))"
    if "margin_anchored s" for s
    using that printable [OF that] span [OF that]
    by (cases action) (auto simp: predict_action_def predict_backspace_def predict_left_def predict_right_def margin_anchored_def)
  from this [OF newest(1)] show "fst (offer_inner f action (Some cx) t s) = None"
    and "margin_anchored (snd (offer_inner f action (Some cx) t s))"
    using newest span [OF newest(1)] by (auto simp: offer_inner_steps split: prod.splits option.splits)
qed

lemma margin_anchored_step: "margin_anchored s \<Longrightarrow> offers_with_context op \<Longrightarrow> margin_anchored (overlay_step s op)"
proof (cases op)
  case (OpOffer f action cx t)
  then show "margin_anchored s \<Longrightarrow> offers_with_context op \<Longrightarrow> ?thesis" using margin_anchored_refuses(2) by auto
qed (auto simp: margin_anchored_def expire_stale_def invalidate_span_def take_reconciliation_def acknowledge_def
    set_round_trip_milliseconds_def Let_def split: option.splits)

lemma margin_anchored_run:
  "margin_anchored s \<Longrightarrow> list_all offers_with_context ops \<Longrightarrow> margin_anchored (foldl overlay_step s ops)"
  by (induction ops arbitrary: s) (auto intro: margin_anchored_step)

text \<open>
  Property C11: one printable key offered at the last column while nothing is shown ends local echo for the
  rest of the session. The refused key leaves its anchor behind; since reconciliation returns early when
  nothing is shown and invalidating the span keeps the anchor, every later key that is offered with its
  cursor context, at whatever position and after whatever acknowledgements, expirations and
  reconciliations, is refused.
\<close>
theorem margin_key_ends_echo:
  assumes "shows_nothing s" "case po_highest_frame_id s of None \<Rightarrow> True | Some h \<Rightarrow> h \<le> f"
    and "display_enabled s" "is_ascii_graphic b" "unat (cx_columns cx) - 1 \<le> unat (cx_column cx)"
    and "list_all offers_with_context ops"
  shows "fst (offer_inner f' action (Some cx') t'
    (foldl overlay_step s (OpOffer f (PrintableAscii b) (Some cx) t # ops))) = None"
proof -
  have "overlay_step s (OpOffer f (PrintableAscii b) (Some cx) t) =
      invalidate_span ((offer_newest f s)\<lparr>po_line_context := Some cx\<rparr>)"
    using shows_nothing_steps(1) [OF assms(1-5)] by simp
  then have "margin_anchored (overlay_step s (OpOffer f (PrintableAscii b) (Some cx) t))"
    using assms(1,5)
    by (auto simp: margin_anchored_def shows_nothing_def overlay_ok_def invalidate_span_def offer_newest_def
        offer_counted_def)
  then have "margin_anchored (foldl overlay_step s (OpOffer f (PrintableAscii b) (Some cx) t # ops))"
    using margin_anchored_run assms(6) by simp
  then show ?thesis by (rule margin_anchored_refuses(1))
qed

lemma overlay_new_shows_nothing: "shows_nothing (overlay_new display overwrite)"
  using overlay_new_ok [of display overwrite] by (simp add: shows_nothing_def overlay_new_def)

lemma margin_key_ends_echo_witness:
  "fst (offer_inner 9 (PrintableAscii 0x62) (Some sample_context) None
     (foldl overlay_step (overlay_new Always False)
       [OpOffer 0 (PrintableAscii 0x61) (Some (sample_context\<lparr>cx_column := 3\<rparr>)) None,
        OpAcknowledge 0, OpExpire 1000, OpReconcile])) = None"
  using margin_key_ends_echo [OF overlay_new_shows_nothing [of Always False], where f = "0"
      and b = "0x61" and cx = "sample_context\<lparr>cx_column := 3\<rparr>" and t = None and f' = "9" and t' = None
      and ops = "[OpAcknowledge 0, OpExpire 1000, OpReconcile]" and action = "PrintableAscii 0x62" and cx' = sample_context]
  by (simp add: overlay_new_def display_enabled_def is_ascii_graphic_def sample_context_def
      del: overlay_step.simps)

text \<open>
  Property C12: local echo shows one key at a time when the host passes the terminal's own cursor as the
  context of the next key, as \<open>queue_user_input\<close> does. Once a key is shown, the cursor of the row has moved by
  one cell; a printable key offered at that column does not match the anchor of the span, so it is not
  shown, and the span must be reconciled before anything else is predicted.
\<close>
theorem moved_cursor_ends_span:
  assumes "shows_nothing s" "\<not> po_overwrite s"
    and "offer_inner f (PrintableAscii b) (Some cx) t s = (Some out, shown)" "is_ascii_graphic b"
    and "unat (cx_columns cx) = length (tr_cells row)" "tr_cursor row = unat (cx_column cx)"
    and "moved = cx\<lparr>cx_column := of_nat (tr_cursor (foldl row_step row (action_edits (PrintableAscii b))))\<rparr>"
    and "is_ascii_graphic c" "f \<le> f'"
  shows "fst (offer_inner f' (PrintableAscii c) (Some moved) t' shown) = None \<and>
    po_reconciliation_required (snd (offer_inner f' (PrintableAscii c) (Some moved) t' shown))"
proof -
  let ?a = "unat (cx_column cx)"
  have fresh: "case po_highest_frame_id s of None \<Rightarrow> True | Some h \<Rightarrow> h \<le> f" and enabled: "display_enabled s"
    using assms(3) display_enabled_newest [of f s]
    by (auto simp: offer_inner_steps offer_counted_def split: option.splits if_splits)
  have inside: "\<not> unat (cx_columns cx) - 1 \<le> ?a"
    using assms(3) shows_nothing_steps(1) [OF assms(1) fresh enabled assms(4), of cx t] by auto
  have shown: "po_highest_frame_id shown = Some f" "length (po_pending shown) = 1" "length (po_predicted shown) = 1"
    "po_cursor_offset shown = 1" "po_line_context shown = Some cx" "po_overlay_active shown"
    "\<not> po_reconciliation_required shown" "display_enabled shown"
  proof -
    note shown = shows_nothing_steps(2) [OF assms(1) fresh enabled assms(4) inside, of t, unfolded assms(3),
        unfolded prod.inject, THEN conjunct2]
    have s: "po_pending s = []" "\<not> po_reconciliation_required s"
      using assms(1) by (auto simp: shows_nothing_def overlay_ok_def)
    show "po_highest_frame_id shown = Some f" "length (po_pending shown) = 1" "length (po_predicted shown) = 1"
      "po_cursor_offset shown = 1" "po_line_context shown = Some cx" "po_overlay_active shown"
      "\<not> po_reconciliation_required shown"
      unfolding shown using s by (simp_all add: record_displayed_def offer_newest_def offer_counted_def)
    show "display_enabled shown"
      using enabled unfolding shown
      by (cases "po_display s") (simp_all add: display_enabled_def record_displayed_def offer_newest_def offer_counted_def)
  qed
  have "tr_cursor (foldl row_step row (action_edits (PrintableAscii b))) = ?a + 1"
    using inside assms(5,6) row_insert [of row "take ?a (tr_cells row)" "drop ?a (tr_cells row)" "unat b"]
    by (simp add: action_edits_def del: row_step.simps)
  then have column: "cx_column moved = of_nat (?a + 1)" using assms(7) by simp
  have "?a + 1 < 2 ^ 16" using inside unat_lt16 [of "cx_columns cx"] by simp
  then have "unat (cx_column moved) = ?a + 1" unfolding column unsigned_of_nat by (simp add: take_bit_nat_eq_self_iff)
  then have other: "cx_column moved \<noteq> cx_column cx" by auto
  define s2 where "s2 = offer_newest f' shown"
  have s2: "po_predicted s2 = po_predicted shown" "po_cursor_offset s2 = 1" "po_line_context s2 = Some cx"
    "po_overlay_active s2" "\<not> po_reconciliation_required s2" "display_enabled s2" "po_pending s2 = po_pending shown"
    using shown display_enabled_newest [of f' shown] by (simp_all add: s2_def offer_newest_def offer_counted_def)
  have "predict_action f' (PrintableAscii c) (Some moved) s2 = (None, invalidate_span s2)"
    using s2 other shown(3) assms(8) by (auto simp: predict_action_def predict_printable_def)
  then have "offer_inner f' (PrintableAscii c) (Some moved) t' shown = (None, invalidate_span s2)"
    using s2 shown assms(9)
    by (simp add: offer_inner_steps [of f' _ _ _ shown, folded s2_def] MAXIMUM_PENDING_PREDICTIONS_def offer_counted_def)
  then show ?thesis using s2(4) by (simp add: invalidate_span_def)
qed

lemma moved_cursor_ends_span_witness:
  "fst (offer_inner 1 (PrintableAscii 0x73) (Some (sample_context\<lparr>cx_column := 2\<rparr>)) None
     (snd (offer_inner 0 (PrintableAscii 0x6C) (Some sample_context) None (overlay_new Always False)))) = None"
proof -
  have "offer_inner 0 (PrintableAscii 0x6C) (Some sample_context) None (overlay_new Always False) =
      (Some (INSERT_CHARACTER @ UNDERLINE_RENDITION @ encode_utf8 0x6C @ ascii ''a''),
       snd (offer_inner 0 (PrintableAscii 0x6C) (Some sample_context) None (overlay_new Always False)))"
    by code_simp
  from moved_cursor_ends_span [OF overlay_new_shows_nothing _ this _ _ _ refl, where
      row = "\<lparr>tr_cells = [0x24, 0x20, 0x20, 0x20], tr_cursor = 1\<rparr>" and c = "0x73" and f' = "1" and t' = None]
  show ?thesis
    by (simp add: overlay_new_def is_ascii_graphic_def sample_context_def action_edits_def)
qed

end
