(* ===== verification/Modem_Crc.thy ===== *)
theory Modem_Crc
  imports Oxide_Prelude
begin

text \<open>
  The checksums of the modem protocols (\<open>crates/oxideterm-modem-transfer/src/crc.rs\<close>), bit by bit as the
  code computes them, and what they are relied on for: a message followed by its checksum leaves the
  register at zero, and no change that is confined to the width of the checksum goes unnoticed.
\<close>

section \<open>CRC-16/XMODEM\<close>

definition crc16_bit :: "u16 \<Rightarrow> u16" where
  "crc16_bit crc = (if crc AND 0x8000 \<noteq> 0 then push_bit 1 crc XOR 0x1021 else push_bit 1 crc)"

definition crc16_xmodem_update :: "u16 \<Rightarrow> byte \<Rightarrow> u16" where
  "crc16_xmodem_update crc b = (crc16_bit ^^ 8) (crc XOR push_bit 8 (ucast b))"

definition crc16_xmodem :: "bytes \<Rightarrow> u16" where
  "crc16_xmodem bs = foldl crc16_xmodem_update 0 bs"

section \<open>CRC-32\<close>

definition crc32_bit :: "u32 \<Rightarrow> u32" where
  "crc32_bit crc = (if crc AND 1 \<noteq> 0 then drop_bit 1 crc XOR 0xEDB88320 else drop_bit 1 crc)"

definition crc32_ieee_update :: "u32 \<Rightarrow> byte \<Rightarrow> u32" where
  "crc32_ieee_update crc b = (crc32_bit ^^ 8) (crc XOR ucast b)"

definition crc32_ieee :: "bytes \<Rightarrow> u32" where
  "crc32_ieee bs = NOT (foldl crc32_ieee_update 0xFFFFFFFF bs)"

section \<open>One bit of the register\<close>

text \<open>A register step that is linear over exclusive or, and loses nothing.\<close>

locale crc_register =
  fixes step :: "'w::len word \<Rightarrow> 'w word"
  assumes step_xor: "step (x XOR y) = step x XOR step y"
    and step_inj: "step x = step y \<Longrightarrow> x = y"
begin

lemma steps_xor: "(step ^^ n) (x XOR y) = (step ^^ n) x XOR (step ^^ n) y"
  by (induction n) (simp_all add: step_xor)

lemma steps_inj: "(step ^^ n) x = (step ^^ n) y \<Longrightarrow> x = y"
  by (induction n) (auto dest: step_inj)

lemma steps_eq_iff: "(step ^^ n) x = (step ^^ n) y \<longleftrightarrow> x = y"
  by (auto dest: steps_inj)

lemma step_zero: "step 0 = 0"
  using step_xor [of 0 0] by simp

lemma steps_zero [simp]: "(step ^^ n) 0 = 0"
  by (induction n) (simp_all add: step_zero)

text \<open>Feeding two lists of words of equal length from registers that differ keeps them different.\<close>

lemma feed_inj:
  "foldl (\<lambda>c b. (step ^^ n) (c XOR f b)) c bs = foldl (\<lambda>c b. (step ^^ n) (c XOR f b)) c' bs \<Longrightarrow> c = c'"
proof (induction bs arbitrary: c c')
  case (Cons b bs)
  have "(step ^^ n) (c XOR f b) = (step ^^ n) (c' XOR f b)" by (rule Cons.IH) (use Cons.prems in simp)
  then have eq: "c XOR f b = c' XOR f b" by (rule steps_inj)
  have twice: "(x XOR f b) XOR f b = x" for x by (simp only: xor.assoc xor_self_eq xor.right_neutral)
  have "c = (c XOR f b) XOR f b" by (rule twice [symmetric])
  also have "\<dots> = (c' XOR f b) XOR f b" by (rule arg_cong [OF eq])
  also have "\<dots> = c'" by (rule twice)
  finally show ?case .
qed simp

end

lemma crc16_bit_eq: "crc16_bit crc = push_bit 1 crc XOR (if bit crc 15 then 0x1021 else 0)"
  using and_exp_eq_0_iff_not_bit [of crc 15] by (simp add: crc16_bit_def)

lemma crc32_bit_eq: "crc32_bit crc = drop_bit 1 crc XOR (if bit crc 0 then 0xEDB88320 else 0)"
  by (simp add: crc32_bit_def bit_0 and_one_eq odd_iff_mod_2_eq_one)

lemma word_xor_cancel: "a XOR k = b XOR k \<longleftrightarrow> a = (b :: 'w::len word)"
proof
  assume eq: "a XOR k = b XOR k"
  have twice: "(x XOR k) XOR k = x" for x by (simp only: xor.assoc xor_self_eq xor.right_neutral)
  have "a = (a XOR k) XOR k" by (rule twice [symmetric])
  also have "\<dots> = (b XOR k) XOR k" by (rule arg_cong [OF eq])
  also have "\<dots> = b" by (rule twice)
  finally show "a = b" .
qed simp

lemma crc16_bit_xor: "crc16_bit (x XOR y) = crc16_bit x XOR crc16_bit y"
proof -
  have "push_bit 1 (x XOR y) = push_bit 1 x XOR push_bit 1 y" by (rule push_bit_xor)
  then show ?thesis by (simp add: crc16_bit_eq bit_xor_iff ac_simps)
qed

lemma crc16_bit_inj:
  assumes "crc16_bit x = crc16_bit y"
  shows "x = y"
proof -
  have low: "bit (crc16_bit z) 0 = bit z 15" for z
  proof -
    have "\<not> bit (push_bit 1 z) 0" unfolding bit_push_bit_iff by simp
    moreover have "bit (0x1021 :: u16) 0" by simp
    ultimately show ?thesis unfolding crc16_bit_eq bit_xor_iff by auto
  qed
  have top: "bit x 15 = bit y 15" using low [of x] low [of y] assms by simp
  then have shifted: "push_bit 1 x = push_bit 1 y"
    using assms top by (cases "bit x 15") (simp_all add: crc16_bit_eq word_xor_cancel)
  show ?thesis
  proof (rule bit_word_eqI)
    fix n assume n: "n < LENGTH(16)"
    have "bit (push_bit 1 x) (Suc n) = bit (push_bit 1 y) (Suc n)" by (rule arg_cong [OF shifted])
    then have "n < 15 \<Longrightarrow> bit x n = bit y n" unfolding bit_push_bit_iff by simp
    then show "bit x n = bit y n" using n top by (cases "n = 15") auto
  qed
qed

interpretation crc16: crc_register crc16_bit
  by unfold_locales (rule crc16_bit_xor, erule crc16_bit_inj)

lemma crc32_bit_xor: "crc32_bit (x XOR y) = crc32_bit x XOR crc32_bit y"
proof -
  have "drop_bit 1 (x XOR y) = drop_bit 1 x XOR drop_bit 1 y" by (rule drop_bit_xor)
  then show ?thesis by (simp add: crc32_bit_eq bit_xor_iff ac_simps)
qed

lemma crc32_bit_inj:
  assumes "crc32_bit x = crc32_bit y"
  shows "x = y"
proof -
  have top: "bit (crc32_bit z) 31 = bit z 0" for z
    by (auto simp: crc32_bit_eq bit_simps dest: bit_imp_le_length)
  have low: "bit x 0 = bit y 0" using top [of x] top [of y] assms by simp
  then have shifted: "drop_bit 1 x = drop_bit 1 y"
    using assms low by (cases "bit x 0") (simp_all add: crc32_bit_eq word_xor_cancel)
  show ?thesis
  proof (rule bit_word_eqI)
    fix n assume "n < LENGTH(32)"
    show "bit x n = bit y n"
    proof (cases n)
      case (Suc m)
      have "bit (drop_bit 1 x) m = bit (drop_bit 1 y) m" using shifted by simp
      then show ?thesis using Suc by (simp add: bit_simps)
    qed (use low in simp)
  qed
qed

interpretation crc32: crc_register crc32_bit
  by unfold_locales (rule crc32_bit_xor, erule crc32_bit_inj)

section \<open>One byte\<close>

text \<open>A register whose interesting half is zero is only shifted.\<close>

lemma crc16_bit_shift: "\<not> bit c 15 \<Longrightarrow> crc16_bit c = push_bit 1 c"
  by (simp add: crc16_bit_eq)

lemma crc16_steps_low: "k \<le> 8 \<Longrightarrow> (crc16_bit ^^ k) (ucast (b :: byte)) = push_bit k (ucast b)"
proof (induction k)
  case (Suc k)
  have "\<not> bit (push_bit k (ucast b :: u16)) 15" using Suc.prems bit_imp_le_length [of b "15 - k"] by (auto simp: bit_simps)
  then show ?case using Suc by (simp add: crc16_bit_shift)
qed simp

lemma crc32_steps_high: "k \<le> 8 \<Longrightarrow> (crc32_bit ^^ k) (push_bit 8 z) = drop_bit k (push_bit 8 z)"
proof (induction k)
  case (Suc k)
  have "\<not> bit (drop_bit k (push_bit 8 z)) 0" using Suc.prems by (simp add: bit_simps)
  then have "crc32_bit (drop_bit k (push_bit 8 z)) = drop_bit (Suc k) (push_bit 8 z)"
    by (simp add: crc32_bit_eq)
  then show ?case using Suc by simp
qed simp

section \<open>Two bytes, four bytes\<close>

definition be_word :: "byte \<Rightarrow> byte \<Rightarrow> u16" where
  "be_word a b = push_bit 8 (ucast a) XOR ucast b"

lemma be_word_bytes: "be_bytes 2 w = [a, b] \<longleftrightarrow> w = be_word a b"
proof -
  have be: "be_bytes 2 w = [ucast (drop_bit 8 w), ucast w]" by (simp add: be_bytes_def numeral_2_eq_2)
  have split: "be_word (ucast (drop_bit 8 w)) (ucast w) = w"
    by (rule bit_word_eqI) (auto simp: be_word_def bit_simps)
  have "ucast (drop_bit 8 (be_word a b)) = a" "ucast (be_word a b) = b"
    by (rule bit_word_eqI, auto simp: be_word_def bit_simps dest: bit_imp_le_length)+
  then show ?thesis using be split by auto
qed

lemma crc16_two: "crc16_xmodem_update (crc16_xmodem_update c a) b = (crc16_bit ^^ 16) (c XOR be_word a b)"
proof -
  have "crc16_xmodem_update (crc16_xmodem_update c a) b =
      (crc16_bit ^^ 8) ((crc16_bit ^^ 8) (c XOR push_bit 8 (ucast a)) XOR (crc16_bit ^^ 8) (ucast b))"
    by (simp add: crc16_xmodem_update_def crc16_steps_low)
  also have "\<dots> = (crc16_bit ^^ 8) ((crc16_bit ^^ 8) (c XOR be_word a b))"
    by (simp only: crc16.steps_xor [symmetric] be_word_def xor.assoc)
  also have "\<dots> = (crc16_bit ^^ (8 + 8)) (c XOR be_word a b)" by (simp only: funpow_add o_apply)
  finally show ?thesis by simp
qed

lemma crc16_append2: "crc16_xmodem (bs @ [a, b]) = (crc16_bit ^^ 16) (crc16_xmodem bs XOR be_word a b)"
  by (simp add: crc16_xmodem_def crc16_two)

lemma word_xor_zero: "a XOR b = 0 \<longleftrightarrow> a = (b :: 'w::len word)"
  using word_xor_cancel [of a b b] by simp

text \<open>
  A message followed by two bytes leaves the CRC-16 register at zero exactly when the two
  bytes are the big-endian CRC of the message. It is the test of the receiver of binary headers and of
  data subpackets.
\<close>
theorem crc16_zero_iff: "crc16_xmodem (bs @ [a, b]) = 0 \<longleftrightarrow> [a, b] = be_bytes 2 (crc16_xmodem bs)"
proof -
  have "crc16_xmodem (bs @ [a, b]) = 0 \<longleftrightarrow> (crc16_bit ^^ 16) (crc16_xmodem bs XOR be_word a b) = (crc16_bit ^^ 16) 0"
    unfolding crc16_append2 crc16.steps_zero ..
  also have "\<dots> \<longleftrightarrow> crc16_xmodem bs XOR be_word a b = 0" by (rule crc16.steps_eq_iff)
  also have "\<dots> \<longleftrightarrow> be_bytes 2 (crc16_xmodem bs) = [a, b]" by (simp add: word_xor_zero be_word_bytes)
  finally show ?thesis by auto
qed

lemma crc16_feed_inj: "foldl crc16_xmodem_update c bs = foldl crc16_xmodem_update c' bs \<Longrightarrow> c = c'"
  using crc16.feed_inj [of 8 "\<lambda>b. push_bit 8 (ucast b)" c bs c'] by (simp add: crc16_xmodem_update_def [abs_def])

lemma crc32_feed_inj: "foldl crc32_ieee_update c bs = foldl crc32_ieee_update c' bs \<Longrightarrow> c = c'"
  using crc32.feed_inj [of 8 "\<lambda>b. ucast b" c bs c'] by (simp add: crc32_ieee_update_def [abs_def])

text \<open>The little-endian word of up to four bytes.\<close>

fun le_word :: "bytes \<Rightarrow> u32" where
  "le_word [] = 0"
| "le_word (b # bs) = ucast b XOR push_bit 8 (le_word bs)"

lemma le_word_bit: "bit (le_word bs) i \<longleftrightarrow> i < 32 \<and> i div 8 < length bs \<and> bit (bs ! (i div 8)) (i mod 8)"
proof (induction bs arbitrary: i)
  case (Cons b bs)
  show ?case
  proof (cases "i < 8")
    case True
    then show ?thesis by (simp add: bit_simps)
  next
    case False
    then have "i div 8 = Suc ((i - 8) div 8)" "i mod 8 = (i - 8) mod 8"
      by (simp_all add: le_div_geq le_mod_geq)
    then show ?thesis using False Cons [of "i - 8"] bit_imp_le_length [of b i] by (auto simp: bit_simps)
  qed
qed simp

lemma crc32_feed_short:
  "length bs \<le> 4 \<Longrightarrow> foldl crc32_ieee_update c bs = (crc32_bit ^^ (8 * length bs)) (c XOR le_word bs)"
proof (induction bs arbitrary: c)
  case (Cons b bs)
  have "drop_bit 8 (push_bit 8 (le_word bs)) = le_word bs"
    using Cons.prems by (intro bit_word_eqI) (auto simp: bit_simps le_word_bit)
  then have shift: "(crc32_bit ^^ 8) (push_bit 8 (le_word bs)) = le_word bs" by (simp add: crc32_steps_high)
  have "foldl crc32_ieee_update c (b # bs) =
      (crc32_bit ^^ (8 * length bs)) ((crc32_bit ^^ 8) (c XOR ucast b) XOR (crc32_bit ^^ 8) (push_bit 8 (le_word bs)))"
  proof -
    have "foldl crc32_ieee_update c (b # bs) = foldl crc32_ieee_update (crc32_ieee_update c b) bs" by simp
    also have "\<dots> = (crc32_bit ^^ (8 * length bs)) (crc32_ieee_update c b XOR le_word bs)"
      using Cons.prems by (intro Cons.IH) simp
    finally show ?thesis by (simp only: crc32_ieee_update_def shift)
  qed
  also have "\<dots> = (crc32_bit ^^ (8 * length bs)) ((crc32_bit ^^ 8) (c XOR le_word (b # bs)))"
    by (simp only: crc32.steps_xor [symmetric] le_word.simps xor.assoc)
  also have "\<dots> = (crc32_bit ^^ (8 * length bs + 8)) (c XOR le_word (b # bs))" by (simp only: funpow_add o_apply)
  finally show ?case by (simp add: add.commute)
qed simp

lemma le_word_inj:
  assumes "length as = length bs" "length bs \<le> 4" "le_word as = le_word bs"
  shows "as = bs"
proof (rule nth_equalityI)
  fix k assume k: "k < length as"
  show "as ! k = bs ! k"
  proof (rule bit_word_eqI)
    fix n assume "n < LENGTH(8)"
    then have "bit (le_word as) (8 * k + n) = bit (as ! k) n" "bit (le_word bs) (8 * k + n) = bit (bs ! k) n"
      using k assms(1,2) by (simp_all add: le_word_bit)
    then show "bit (as ! k) n = bit (bs ! k) n" using assms(3) by simp
  qed
qed (use assms in simp)

section \<open>What the checksums notice\<close>

text \<open>
  The CRC-16 notices every change of a message that is confined to two neighbouring bytes,
  whatever stands before and after them.
\<close>
theorem crc16_detects_burst:
  assumes "[a, b] \<noteq> [a', b']"
  shows "crc16_xmodem (pre @ [a, b] @ post) \<noteq> crc16_xmodem (pre @ [a', b'] @ post)"
proof
  assume "crc16_xmodem (pre @ [a, b] @ post) = crc16_xmodem (pre @ [a', b'] @ post)"
  then have "crc16_xmodem (pre @ [a, b]) = crc16_xmodem (pre @ [a', b'])"
    using crc16_feed_inj [of _ post] by (simp add: crc16_xmodem_def)
  then have "crc16_xmodem pre XOR be_word a b = crc16_xmodem pre XOR be_word a' b'"
    unfolding crc16_append2 crc16.steps_eq_iff .
  then have "be_word a b = be_word a' b'" by (simp only: xor.commute [of "crc16_xmodem pre"] word_xor_cancel)
  then show False using assms be_word_bytes [of "be_word a b" a b] be_word_bytes [of "be_word a b" a' b'] by auto
qed

lemma crc16_detects_burst_witness:
  "crc16_xmodem ([1, 2] @ [3, 4] @ [5]) \<noteq> crc16_xmodem ([1, 2] @ [4, 3] @ [5])"
  by (rule crc16_detects_burst) simp

text \<open>
  The CRC-32 notices every change of a message that is confined to four neighbouring bytes.
\<close>
theorem crc32_detects_burst:
  assumes "length bs = length bs'" "length bs \<le> 4" "bs \<noteq> bs'"
  shows "crc32_ieee (pre @ bs @ post) \<noteq> crc32_ieee (pre @ bs' @ post)"
proof
  let ?c = "foldl crc32_ieee_update 0xFFFFFFFF pre"
  assume "crc32_ieee (pre @ bs @ post) = crc32_ieee (pre @ bs' @ post)"
  then have "NOT (NOT (foldl crc32_ieee_update (foldl crc32_ieee_update ?c bs) post)) =
      NOT (NOT (foldl crc32_ieee_update (foldl crc32_ieee_update ?c bs') post))"
    unfolding crc32_ieee_def by (simp only: foldl_append)
  then have "foldl crc32_ieee_update (foldl crc32_ieee_update ?c bs) post =
      foldl crc32_ieee_update (foldl crc32_ieee_update ?c bs') post" by (simp only: bit.double_compl)
  then have "foldl crc32_ieee_update ?c bs = foldl crc32_ieee_update ?c bs'" by (rule crc32_feed_inj)
  then have "(crc32_bit ^^ (8 * length bs)) (?c XOR le_word bs) = (crc32_bit ^^ (8 * length bs)) (?c XOR le_word bs')"
    using assms(1,2) crc32_feed_short [of bs ?c] crc32_feed_short [of bs' ?c] by (simp only:)
  then have "?c XOR le_word bs = ?c XOR le_word bs'" unfolding crc32.steps_eq_iff .
  then have "le_word bs = le_word bs'" by (simp only: xor.commute [of ?c] word_xor_cancel)
  then show False using assms le_word_inj by auto
qed

lemma crc32_detects_burst_witness:
  "crc32_ieee ([1] @ [2, 3, 4, 5] @ [6]) \<noteq> crc32_ieee ([1] @ [2, 3, 4, 6] @ [6])"
  by (rule crc32_detects_burst) simp_all

end
