(* ===== verification/Modem_Block.thy ===== *)
theory Modem_Block
  imports Modem_Crc Tmux_Codec
begin

text \<open>
  The blocks and the block-zero header of XMODEM and YMODEM (\<open>crates/oxideterm-modem-transfer/src/xymodem.rs\<close>,
  with the errors of \<open>error.rs\<close>). File names are their UTF-8 bytes; paths are those of a Unix host.
\<close>

section \<open>Errors\<close>

datatype modem_error =
    Incomplete | InvalidMarker | InvalidFrameType | InvalidFrameEncoding | InvalidBlockNumber
  | InvalidChecksum | InvalidCrc | InvalidLength | InvalidEscape | InvalidFileName

datatype transfer_error =
    ProtocolError modem_error | IoError | Timeout | Cancelled | UnexpectedByte byte | UnexpectedFrame
  | UnsupportedFileSize u64 | InputBufferOverflow nat

section \<open>Blocks\<close>

definition SOH :: byte where "SOH = 0x01"
definition STX :: byte where "STX = 0x02"
definition EOT :: byte where "EOT = 0x04"
definition ACK :: byte where "ACK = 0x06"
definition NAK :: byte where "NAK = 0x15"
definition CAN :: byte where "CAN = 0x18"
definition WANT_CRC :: byte where "WANT_CRC = of_char CHR ''C''"
definition CPMEOF :: byte where "CPMEOF = 0x1A"

datatype xy_block_size = Bytes128 | Bytes1024

definition block_len :: "xy_block_size \<Rightarrow> nat" where
  "block_len sz = (case sz of Bytes128 \<Rightarrow> 128 | Bytes1024 \<Rightarrow> 1024)"

definition block_marker :: "xy_block_size \<Rightarrow> byte" where
  "block_marker sz = (case sz of Bytes128 \<Rightarrow> SOH | Bytes1024 \<Rightarrow> STX)"

definition size_from_marker :: "byte \<Rightarrow> xy_block_size option" where
  "size_from_marker marker =
     (if marker = SOH then Some Bytes128 else if marker = STX then Some Bytes1024 else None)"

record xy_block =
  xb_number :: byte
  xb_size :: xy_block_size
  xb_payload :: bytes

definition block_new :: "byte \<Rightarrow> xy_block_size \<Rightarrow> bytes \<Rightarrow> modem_error + xy_block" where
  "block_new number sz payload =
     (if block_len sz < length payload then Inl InvalidLength
      else Inr \<lparr>xb_number = number, xb_size = sz,
                xb_payload = payload @ replicate (block_len sz - length payload) CPMEOF\<rparr>)"

definition checksum :: "bytes \<Rightarrow> byte" where
  "checksum bs = foldl (\<lambda>acc b. acc + b) 0 bs"

definition encode_crc :: "xy_block \<Rightarrow> bytes" where
  "encode_crc b =
     [block_marker (xb_size b), xb_number b, NOT (xb_number b)] @ xb_payload b @
     be_bytes 2 (crc16_xmodem (xb_payload b))"

definition encode_checksum :: "xy_block \<Rightarrow> bytes" where
  "encode_checksum b =
     [block_marker (xb_size b), xb_number b, NOT (xb_number b)] @ xb_payload b @ [checksum (xb_payload b)]"

definition parse_crc :: "bytes \<Rightarrow> modem_error + xy_block" where
  "parse_crc bs =
     (if length bs < 3 then Inl Incomplete
      else
        (case size_from_marker (bs ! 0) of
           None \<Rightarrow> Inl InvalidMarker
         | Some sz \<Rightarrow>
             (let expected_len = 3 + block_len sz + 2 in
              if length bs < expected_len then Inl Incomplete
              else if length bs \<noteq> expected_len then Inl InvalidLength
              else if bs ! 1 + bs ! 2 \<noteq> 0xFF then Inl InvalidBlockNumber
              else
                (let payload = take (block_len sz) (drop 3 bs) in
                 if crc16_xmodem payload \<noteq> of_be_bytes [bs ! (3 + block_len sz), bs ! (3 + block_len sz + 1)]
                 then Inl InvalidCrc
                 else Inr \<lparr>xb_number = bs ! 1, xb_size = sz, xb_payload = payload\<rparr>))))"

definition parse_checksum :: "bytes \<Rightarrow> modem_error + xy_block" where
  "parse_checksum bs =
     (if length bs < 3 then Inl Incomplete
      else
        (case size_from_marker (bs ! 0) of
           None \<Rightarrow> Inl InvalidMarker
         | Some sz \<Rightarrow>
             (let expected_len = 3 + block_len sz + 1 in
              if length bs < expected_len then Inl Incomplete
              else if length bs \<noteq> expected_len then Inl InvalidLength
              else if bs ! 1 + bs ! 2 \<noteq> 0xFF then Inl InvalidBlockNumber
              else
                (let payload = take (block_len sz) (drop 3 bs) in
                 if checksum payload \<noteq> bs ! (3 + block_len sz) then Inl InvalidChecksum
                 else Inr \<lparr>xb_number = bs ! 1, xb_size = sz, xb_payload = payload\<rparr>))))"

lemma marker_round [simp]: "size_from_marker (block_marker sz) = Some sz"
  by (cases sz) (simp_all add: size_from_marker_def block_marker_def SOH_def STX_def)

lemma marker_of_size: "size_from_marker m = Some sz \<longleftrightarrow> m = block_marker sz"
  by (cases sz) (auto simp: size_from_marker_def block_marker_def SOH_def STX_def)

lemma complement_sum: "(n :: byte) + m = 0xFF \<longleftrightarrow> m = NOT n"
proof -
  have "(0xFF :: byte) = - 1" "NOT n = - 1 - n" by (simp_all add: not_eq_complement)
  then show ?thesis using eq_diff_eq [of m "- 1" n] by (simp only: add.commute)
qed

definition block_ok :: "xy_block \<Rightarrow> bool" where
  "block_ok b \<longleftrightarrow> length (xb_payload b) = block_len (xb_size b)"

lemma block_new_ok: "block_new n sz payload = Inr b \<Longrightarrow> block_ok b"
  by (auto simp: block_new_def block_ok_def split: if_splits)


lemma frame_split:
  assumes "length bs = 3 + l + c"
  obtains m n k p t where "bs = [m, n, k] @ p @ t" "length p = l" "length t = c"
proof -
  obtain m n k rest where "bs = m # n # k # rest"
    using assms by (auto simp: Suc_le_length_iff numeral_3_eq_3 length_Suc_conv)
  then show ?thesis using assms that [of m n k "take l rest" "drop l rest"] by simp
qed

text \<open>
  The parser of a CRC block accepts exactly the encodings of well-formed blocks, and returns the
  block it is the encoding of: nothing else passes the marker, length, complement and CRC checks.
\<close>
theorem parse_crc_iff: "parse_crc bs = Inr b \<longleftrightarrow> block_ok b \<and> bs = encode_crc b"
proof
  assume parsed: "parse_crc bs = Inr b"
  then obtain sz where sz: "size_from_marker (bs ! 0) = Some sz" "length bs = 3 + block_len sz + 2" "bs ! 1 + bs ! 2 = 0xFF"
    and crc: "crc16_xmodem (take (block_len sz) (drop 3 bs)) =
      of_be_bytes [bs ! (3 + block_len sz), bs ! (3 + block_len sz + 1)]"
    and b: "b = \<lparr>xb_number = bs ! 1, xb_size = sz, xb_payload = take (block_len sz) (drop 3 bs)\<rparr>"
    by (auto simp: parse_crc_def Let_def split: option.splits if_splits)
  obtain m n k p t where bs: "bs = [m, n, k] @ p @ t" and len: "length p = block_len sz" "length t = 2"
    using sz(2) by (rule frame_split)
  then obtain x y where t: "t = [x, y]" by (auto simp: numeral_2_eq_2 length_Suc_conv)
  have parts: "take (block_len sz) (drop 3 bs) = p" "bs ! (3 + block_len sz) = x" "bs ! (3 + block_len sz + 1) = y"
    "bs ! 0 = m" "bs ! 1 = n" "bs ! 2 = k" using len by (simp_all add: bs t nth_append)
  have "crc16_xmodem p = of_be_bytes [x, y]" using crc unfolding parts .
  then have "be_bytes 2 (crc16_xmodem p) = [x, y]"
    using be_bytes_of_be [where 'a = 16, of "[x, y]"] by (simp add: numeral_2_eq_2)
  then show "block_ok b \<and> bs = encode_crc b"
    using sz(1,3) len unfolding parts b block_ok_def encode_crc_def marker_of_size complement_sum bs t by simp
next
  assume "block_ok b \<and> bs = encode_crc b"
  then have ok: "length (xb_payload b) = block_len (xb_size b)" and bs: "bs = encode_crc b" by (auto simp: block_ok_def)
  obtain x y where xy: "be_bytes 2 (crc16_xmodem (xb_payload b)) = [x, y]"
    by (simp add: be_bytes_def numeral_2_eq_2)
  have crc: "of_be_bytes [x, y] = crc16_xmodem (xb_payload b)"
    unfolding xy [symmetric] by (rule of_be_be_bytes) simp
  then show "parse_crc bs = Inr b"
    using ok xy crc by (simp add: bs parse_crc_def encode_crc_def Let_def nth_append complement_sum)
qed

lemma parse_checksum_iff: "parse_checksum bs = Inr b \<longleftrightarrow> block_ok b \<and> bs = encode_checksum b"
proof
  assume parsed: "parse_checksum bs = Inr b"
  then obtain sz where sz: "size_from_marker (bs ! 0) = Some sz" "length bs = 3 + block_len sz + 1" "bs ! 1 + bs ! 2 = 0xFF"
    and sum: "checksum (take (block_len sz) (drop 3 bs)) = bs ! (3 + block_len sz)"
    and b: "b = \<lparr>xb_number = bs ! 1, xb_size = sz, xb_payload = take (block_len sz) (drop 3 bs)\<rparr>"
    by (auto simp: parse_checksum_def Let_def split: option.splits if_splits)
  obtain m n k p t where bs: "bs = [m, n, k] @ p @ t" and len: "length p = block_len sz" "length t = 1"
    using sz(2) by (rule frame_split)
  then obtain x where t: "t = [x]" by (auto simp: length_Suc_conv)
  have parts: "take (block_len sz) (drop 3 bs) = p" "bs ! (3 + block_len sz) = x" "bs ! 0 = m" "bs ! 1 = n" "bs ! 2 = k"
    using len by (simp_all add: bs t nth_append)
  show "block_ok b \<and> bs = encode_checksum b"
    using sz(1,3) sum [unfolded parts] len
    unfolding parts b block_ok_def encode_checksum_def marker_of_size complement_sum bs t by simp
next
  assume "block_ok b \<and> bs = encode_checksum b"
  then have ok: "length (xb_payload b) = block_len (xb_size b)" and bs: "bs = encode_checksum b" by (auto simp: block_ok_def)
  show "parse_checksum bs = Inr b"
    using ok by (simp add: bs parse_checksum_def encode_checksum_def Let_def nth_append complement_sum)
qed

section \<open>Text\<close>

text \<open>
  \<open>String::from_utf8_lossy\<close>: every maximal invalid piece becomes the replacement character. The number of
  bytes that the next character takes is positive for a valid character; an invalid piece has a length too.
\<close>

definition replacement_character :: bytes where "replacement_character = [0xEF, 0xBF, 0xBD]"

definition byte_in :: "nat \<Rightarrow> nat \<Rightarrow> nat \<Rightarrow> bytes \<Rightarrow> bool" where
  "byte_in k lo hi bs \<longleftrightarrow> k < length bs \<and> lo \<le> unat (bs ! k) \<and> unat (bs ! k) \<le> hi"

definition second_range :: "nat \<Rightarrow> nat \<times> nat" where
  "second_range b =
     (if b = 0xE0 then (0xA0, 0xBF) else if b = 0xED then (0x80, 0x9F)
      else if b = 0xF0 then (0x90, 0xBF) else if b = 0xF4 then (0x80, 0x8F) else (0x80, 0xBF))"

definition utf8_piece :: "bytes \<Rightarrow> bool \<times> nat" where
  "utf8_piece bs =
     (let b = unat (hd bs); (lo, hi) = second_range b in
      if b < 0x80 then (True, 1)
      else if b < 0xC2 \<or> 0xF4 < b \<or> \<not> byte_in 1 lo hi bs then (False, 1)
      else if b < 0xE0 then (True, 2)
      else if \<not> byte_in 2 0x80 0xBF bs then (False, 2)
      else if b < 0xF0 then (True, 3)
      else if \<not> byte_in 3 0x80 0xBF bs then (False, 3)
      else (True, 4))"

lemma utf8_piece_pos: "0 < snd (utf8_piece bs)"
  by (simp add: utf8_piece_def Let_def split: prod.split)

function from_utf8_lossy :: "bytes \<Rightarrow> bytes" where
  "from_utf8_lossy bs =
     (if bs = [] then []
      else
        (case utf8_piece bs of
           (valid, n) \<Rightarrow> (if valid then take n bs else replacement_character) @ from_utf8_lossy (drop n bs)))"
  by auto
termination
  by (relation "measure length") (auto, metis diff_less length_greater_0_conv snd_conv utf8_piece_pos)

declare from_utf8_lossy.simps [simp del]

fun is_utf8 :: "nat \<Rightarrow> bytes \<Rightarrow> bool" where
  "is_utf8 0 bs \<longleftrightarrow> bs = []"
| "is_utf8 (Suc k) bs \<longleftrightarrow> bs = [] \<or> (case utf8_piece bs of (valid, n) \<Rightarrow> valid \<and> is_utf8 k (drop n bs))"

definition valid_utf8 :: "bytes \<Rightarrow> bool" where
  "valid_utf8 bs \<longleftrightarrow> is_utf8 (length bs) bs"

lemma lossy_fuel: "is_utf8 k bs \<Longrightarrow> from_utf8_lossy bs = bs"
proof (induction k bs rule: is_utf8.induct)
  case (2 k bs)
  then show ?case
    by (subst from_utf8_lossy.simps) (auto split: prod.splits)
qed (simp add: from_utf8_lossy.simps)

lemma lossy_valid [simp]: "valid_utf8 bs \<Longrightarrow> from_utf8_lossy bs = bs"
  by (simp add: valid_utf8_def lossy_fuel)

lemma lossy_ascii: "\<forall>b \<in> set bs. b < 0x80 \<Longrightarrow> from_utf8_lossy bs = bs"
proof (induction bs)
  case (Cons b bs)
  then have "utf8_piece (b # bs) = (True, 1)"
    by (auto simp: utf8_piece_def Let_def word_less_nat_alt split: prod.split)
  then show ?case using Cons by (subst from_utf8_lossy.simps) simp
qed (simp add: from_utf8_lossy.simps)

text \<open>\<open>str::parse::<u64>\<close>: decimal digits, after an optional plus sign.\<close>

definition parse_u64 :: "bytes \<Rightarrow> u64 option" where
  "parse_u64 bs =
     (case bs of b # rest \<Rightarrow> if b = of_char CHR ''+'' then parse_decimal rest else parse_decimal bs | [] \<Rightarrow> None)"

lemma parse_u64_show [simp]: "parse_u64 (show_decimal w) = Some w"
proof -
  obtain d ds where s: "show_decimal w = d # ds"
    using show_digits_numeral [of "unat w"] by (cases "show_decimal w") (auto simp: show_decimal_def)
  have "digit_upto 9 d \<noteq> None"
    using show_digits_numeral [of "unat w"] s by (auto simp: show_decimal_def is_numeral_def)
  then have "d \<noteq> of_char CHR ''+''" by (auto simp: digit_upto_def)
  then show ?thesis using s parse_show_decimal [of w] by (simp add: parse_u64_def)
qed

section \<open>The block-zero header of YMODEM\<close>

record ymodem_header =
  yh_file_name :: bytes
  yh_file_size :: "u64 option"

abbreviation slash :: byte where "slash \<equiv> of_char CHR ''/''"
abbreviation backslash :: byte where "backslash \<equiv> 0x5C"
abbreviation dot :: byte where "dot \<equiv> of_char CHR ''.''"

text \<open>\<open>Path::file_name\<close> on Unix: the last component that is neither empty nor a single dot, unless it is two dots.\<close>

fun path_components :: "bytes \<Rightarrow> bytes list" where
  "path_components [] = [[]]"
| "path_components (b # bs) =
     (if b = slash then [] # path_components bs
      else (b # hd (path_components bs)) # tl (path_components bs))"

definition path_file_name :: "bytes \<Rightarrow> bytes option" where
  "path_file_name path =
     (let cs = filter (\<lambda>c. c \<noteq> [] \<and> c \<noteq> [dot]) (path_components path) in
      if cs = [] \<or> last cs = [dot, dot] then None else Some (last cs))"

definition path_is_absolute :: "bytes \<Rightarrow> bool" where
  "path_is_absolute path \<longleftrightarrow> path \<noteq> [] \<and> hd path = slash"

definition validate_ymodem_file_name :: "bytes \<Rightarrow> modem_error + unit" where
  "validate_ymodem_file_name file_name =
     (if file_name = [] \<or> file_name = [dot] \<or> file_name = [dot, dot] \<or>
         slash \<in> set file_name \<or> backslash \<in> set file_name \<or> path_is_absolute file_name \<or>
         path_file_name file_name \<noteq> Some file_name
      then Inl InvalidFileName else Inr ())"

definition ymodem_header_new :: "bytes \<Rightarrow> u64 option \<Rightarrow> modem_error + ymodem_header" where
  "ymodem_header_new file_name file_size =
     rbind (validate_ymodem_file_name file_name) (\<lambda>_.
       Inr \<lparr>yh_file_name = file_name, yh_file_size = file_size\<rparr>)"

definition encode_block0_payload :: "ymodem_header \<Rightarrow> modem_error + bytes" where
  "encode_block0_payload h =
     (let name = yh_file_name h in
      if name = [] \<or> 128 \<le> length name then Inl InvalidFileName
      else
        (case yh_file_size h of
           None \<Rightarrow> Inr (name @ replicate (128 - length name) 0)
         | Some file_size \<Rightarrow>
             (let size_text = show_decimal file_size; size_end = length name + 1 + length size_text in
              if 128 \<le> size_end then Inl InvalidLength
              else Inr (name @ [0] @ size_text @ replicate (128 - size_end) 0))))"

definition parse_block0_payload :: "bytes \<Rightarrow> modem_error + ymodem_header option" where
  "parse_block0_payload payload =
     (if 0 \<notin> set payload then Inl InvalidLength
      else
        (let name = takeWhile (\<lambda>b. b \<noteq> 0) payload in
         if name = [] then Inr None
         else
           (let file_name = from_utf8_lossy name in
            rbind (validate_ymodem_file_name file_name) (\<lambda>_.
              (let size_text = takeWhile (\<lambda>b. b \<noteq> of_char CHR '' '' \<and> b \<noteq> 0) (drop (length name + 1) payload) in
               if size_text = [] then Inr (Some \<lparr>yh_file_name = file_name, yh_file_size = None\<rparr>)
               else
                 rbind (ok_or InvalidLength (parse_u64 (from_utf8_lossy size_text))) (\<lambda>file_size.
                   Inr (Some \<lparr>yh_file_name = file_name, yh_file_size = Some file_size\<rparr>)))))))"

lemma path_components_ne: "path_components bs \<noteq> []"
  by (induction bs) auto

lemma plain_components: "slash \<notin> set bs \<Longrightarrow> path_components bs = [bs]"
  by (induction bs) auto

lemma validate_plain:
  "validate_ymodem_file_name n = Inr () \<longleftrightarrow>
     n \<noteq> [] \<and> n \<noteq> [dot] \<and> n \<noteq> [dot, dot] \<and> slash \<notin> set n \<and> backslash \<notin> set n"
proof (cases "slash \<in> set n")
  case False
  then have "\<not> path_is_absolute n" by (metis path_is_absolute_def hd_in_set)
  then show ?thesis
    using False by (auto simp: validate_ymodem_file_name_def path_file_name_def plain_components)
qed (simp add: validate_ymodem_file_name_def)

lemma show_decimal_bytes: "b \<in> set (show_decimal w) \<Longrightarrow> 48 \<le> b \<and> b \<le> 57"
proof -
  assume "b \<in> set (show_decimal w)"
  then have "digit_upto 9 b \<noteq> None"
    using show_digits_numeral [of "unat w"] by (simp add: show_decimal_def is_numeral_def list_all_iff)
  then have b: "\<not> b < 48" "unat (b - 48) \<le> 9" by (auto simp: digit_upto_def Let_def split: if_splits)
  then have "unat b - 48 \<le> 9" by (subst (asm) unat_sub) (simp_all add: not_less)
  then have "unat b \<le> 57" by linarith
  with b show ?thesis by (simp add: not_less word_le_nat_alt)
qed

text \<open>
  A file header that can be encoded into block zero is read back exactly, name and size, for
  every name that is valid UTF-8 without a NUL byte and passes the check of plain file names.
\<close>
theorem block0_roundtrip:
  assumes "ymodem_header_new name sz = Inr h" "encode_block0_payload h = Inr payload"
    and "valid_utf8 name" "0 \<notin> set name"
  shows "length payload = 128 \<and> parse_block0_payload payload = Inr (Some h)"
proof -
  have h: "h = \<lparr>yh_file_name = name, yh_file_size = sz\<rparr>" and plain: "validate_ymodem_file_name name = Inr ()"
    using assms(1) by (auto simp: ymodem_header_new_def)
  have name: "name \<noteq> []" "length name < 128" using assms(2) by (auto simp: encode_block0_payload_def h split: if_splits)
  show ?thesis
  proof (cases sz)
    case None
    have payload: "payload = name @ [0] @ replicate (127 - length name) 0"
    proof -
      obtain k where k: "128 - length name = Suc k" using name(2) by (metis Suc_diff_Suc)
      then have "127 - length name = k" by simp
      then show ?thesis using assms(2) name None k by (simp add: encode_block0_payload_def h)
    qed
    have first: "takeWhile (\<lambda>b. b \<noteq> 0) payload = name" unfolding payload using assms(4)
      by (subst takeWhile_append2) auto
    have "takeWhile (\<lambda>b. b \<noteq> of_char CHR '' '' \<and> b \<noteq> 0) (drop (length name + 1) payload) = []"
      by (simp add: payload takeWhile_eq_Nil_iff)
    moreover have "0 \<in> set payload" "length payload = 128" using name by (auto simp: payload)
    ultimately show ?thesis using name plain None assms(3)
      by (simp add: parse_block0_payload_def first h Let_def del: One_nat_def)
  next
    case (Some file_size)
    let ?text = "show_decimal file_size"
    have fits: "length name + 1 + length ?text < 128"
      and payload: "payload = name @ [0] @ ?text @ replicate (128 - (length name + 1 + length ?text)) 0"
      using assms(2) name Some by (auto simp: encode_block0_payload_def h Let_def split: if_splits)
    have digits: "b \<noteq> of_char CHR '' '' \<and> b \<noteq> 0 \<and> b < 0x80" if "b \<in> set ?text" for b
      using show_decimal_bytes [OF that] by (auto simp: word_le_nat_alt word_less_nat_alt)
    have first: "takeWhile (\<lambda>b. b \<noteq> 0) payload = name" unfolding payload using assms(4)
      by (subst takeWhile_append2) auto
    obtain k where k: "128 - (length name + 1 + length ?text) = Suc k" using fits by (metis Suc_diff_Suc)
    have second: "takeWhile (\<lambda>b. b \<noteq> of_char CHR '' '' \<and> b \<noteq> 0) (drop (length name + 1) payload) = ?text"
      unfolding payload k using digits by (simp add: takeWhile_append2)
    have "from_utf8_lossy ?text = ?text" using digits by (intro lossy_ascii) auto
    moreover have "?text \<noteq> []" using show_digits_numeral [of "unat file_size"] by (simp add: show_decimal_def)
    moreover have "0 \<in> set payload" "length payload = 128" using fits by (auto simp: payload)
    ultimately show ?thesis using name plain assms(3) Some second
      by (simp add: parse_block0_payload_def first h Let_def del: One_nat_def)
  qed
qed

lemma block0_roundtrip_witness:
  "parse_block0_payload (ascii ''a.bin'' @ [0] @ ascii ''12'' @ replicate 120 0) =
     Inr (Some \<lparr>yh_file_name = ascii ''a.bin'', yh_file_size = Some 12\<rparr>)"
proof -
  let ?name = "ascii ''a.bin''" and ?h = "\<lparr>yh_file_name = ascii ''a.bin'', yh_file_size = Some (12 :: u64)\<rparr>"
  have "show_decimal 12 = ascii ''12''" by code_simp
  then have "encode_block0_payload ?h = Inr (?name @ [0] @ ascii ''12'' @ replicate 120 0)"
    by (simp add: encode_block0_payload_def Let_def ascii_def)
  moreover have "ymodem_header_new ?name (Some 12) = Inr ?h" by code_simp
  moreover have "valid_utf8 ?name" "0 \<notin> set ?name" by code_simp+
  ultimately show ?thesis using block0_roundtrip by blast
qed

end
