(* ===== verification/Modem_Xymodem.thy ===== *)
theory Modem_Xymodem
  imports Modem_Block
begin

text \<open>
  XMODEM and YMODEM transfers (\<open>crates/oxideterm-modem-transfer/src/xymodem_transfer.rs\<close> over \<open>io.rs\<close>). The
  line is \<open>MemoryModemIo\<close>: the bytes to be read are queued, those written are collected, and an empty queue
  times out; besides bytes the queue may hold failures, so that a timeout, a cancellation or an overflow of
  the \<open>ModemIo\<close> trait can happen between two bytes. Local files are read in chunks of any size and written
  without failure; what the current writer holds is part of the state.
\<close>

section \<open>The line\<close>

datatype io_event = Arrives byte | Fails transfer_error

record modem_io =
  mio_input :: "io_event list"
  mio_output :: bytes
  mio_files :: "bytes list"

type_synonym 'a io = "modem_io \<Rightarrow> (transfer_error + 'a) \<times> modem_io"

definition io_with_input :: "bytes \<Rightarrow> modem_io" where
  "io_with_input bs = \<lparr>mio_input = map Arrives bs, mio_output = [], mio_files = [[]]\<rparr>"

definition read_byte :: "byte io" where
  "read_byte io =
     (case mio_input io of
        [] \<Rightarrow> (Inl Timeout, io)
      | Arrives b # rest \<Rightarrow> (Inr b, io\<lparr>mio_input := rest\<rparr>)
      | Fails e # rest \<Rightarrow> (Inl e, io\<lparr>mio_input := rest\<rparr>))"

definition write_all :: "bytes \<Rightarrow> unit io" where
  "write_all bs io = (Inr (), io\<lparr>mio_output := mio_output io @ bs\<rparr>)"

text \<open>Writing to the writer that was opened last.\<close>

definition append_file :: "bytes \<Rightarrow> bytes list \<Rightarrow> bytes list" where
  "append_file bs fs = (if fs = [] then [] else butlast fs @ [last fs @ bs])"

definition write_file :: "bytes \<Rightarrow> unit io" where
  "write_file bs io = (Inr (), io\<lparr>mio_files := append_file bs (mio_files io)\<rparr>)"

definition io_return :: "'a \<Rightarrow> 'a io" where
  "io_return x io = (Inr x, io)"

definition io_fail :: "transfer_error \<Rightarrow> 'a io" where
  "io_fail e io = (Inl e, io)"

definition io_bind :: "'a io \<Rightarrow> ('a \<Rightarrow> 'b io) \<Rightarrow> 'b io" where
  "io_bind m f io = (case m io of (Inl e, io') \<Rightarrow> (Inl e, io') | (Inr x, io') \<Rightarrow> f x io')"

text \<open>The \<open>?\<close> operator on a protocol error.\<close>

definition io_lift :: "modem_error + 'a \<Rightarrow> 'a io" where
  "io_lift r io = (case r of Inl e \<Rightarrow> (Inl (ProtocolError e), io) | Inr x \<Rightarrow> (Inr x, io))"

text \<open>
  A local reader is the list of what its read calls return at most; an empty piece is an end of file.
  \<open>read_padded\<close> fills a buffer of \<open>n\<close> bytes and returns what it read and the reader after it.
\<close>

fun read_padded :: "nat \<Rightarrow> bytes list \<Rightarrow> bytes \<times> bytes list" where
  "read_padded n [] = ([], [])"
| "read_padded n (c # cs) =
     (if n = 0 then ([], c # cs)
      else if c = [] then ([], cs)
      else if length c \<le> n then (case read_padded (n - length c) cs of (bs, rest) \<Rightarrow> (c @ bs, rest))
      else (take n c, drop n c # cs))"

text \<open>\<open>Read::take\<close>.\<close>

fun limit_reader :: "nat \<Rightarrow> bytes list \<Rightarrow> bytes list" where
  "limit_reader n [] = []"
| "limit_reader n (c # cs) = (if n = 0 then [] else take n c # limit_reader (n - length c) cs)"

section \<open>Blocks on the line\<close>

definition XYMODEM_RETRIES :: nat where "XYMODEM_RETRIES = 10"

primrec read_bytes :: "nat \<Rightarrow> bytes io" where
  "read_bytes 0 = io_return []"
| "read_bytes (Suc n) = io_bind read_byte (\<lambda>b. io_bind (read_bytes n) (\<lambda>bs. io_return (b # bs)))"

definition expect_byte_or_cancel :: "byte \<Rightarrow> unit io" where
  "expect_byte_or_cancel expected =
     io_bind read_byte (\<lambda>b.
       if b = expected then io_return ()
       else if b = CAN then
         io_bind read_byte (\<lambda>b'. if b' = CAN then io_fail Cancelled else io_fail (UnexpectedByte CAN))
       else io_fail (UnexpectedByte b))"

text \<open>
  The attempts of the loop \<open>for _ in 0..XYMODEM_RETRIES\<close>, with what is left of them: one round writes the
  bytes, if any, and looks at the answer.
\<close>

primrec send_attempts :: "nat \<Rightarrow> bytes \<Rightarrow> unit io" where
  "send_attempts 0 encoded = io_fail Timeout"
| "send_attempts (Suc n) encoded =
     io_bind (write_all encoded) (\<lambda>_.
     io_bind read_byte (\<lambda>b.
       if b = ACK then io_return ()
       else if b = NAK \<or> b = WANT_CRC then send_attempts n encoded
       else if b = CAN then
         io_bind read_byte (\<lambda>b'. if b' = CAN then io_fail Cancelled else send_attempts n encoded)
       else io_fail (UnexpectedByte b)))"

definition send_xymodem_block :: "byte \<Rightarrow> xy_block_size \<Rightarrow> bytes \<Rightarrow> bool \<Rightarrow> unit io" where
  "send_xymodem_block number sz payload use_crc =
     (if \<not> use_crc then
        io_bind (io_lift (block_new number sz payload)) (\<lambda>b. send_attempts XYMODEM_RETRIES (encode_checksum b))
      else
        io_bind (io_lift (block_new number sz payload)) (\<lambda>b. send_attempts XYMODEM_RETRIES (encode_crc b)))"

primrec start_attempts :: "nat \<Rightarrow> bool io" where
  "start_attempts 0 = io_fail Timeout"
| "start_attempts (Suc n) =
     io_bind read_byte (\<lambda>b.
       if b = WANT_CRC then io_return True
       else if b = NAK then io_return False
       else if b = CAN then
         io_bind read_byte (\<lambda>b'. if b' = CAN then io_fail Cancelled else start_attempts n)
       else start_attempts n)"

definition wait_for_xymodem_start :: "bool io" where
  "wait_for_xymodem_start = start_attempts XYMODEM_RETRIES"

primrec finish_attempts :: "nat \<Rightarrow> unit io" where
  "finish_attempts 0 = io_fail Timeout"
| "finish_attempts (Suc n) =
     io_bind (write_all [EOT]) (\<lambda>_.
     io_bind read_byte (\<lambda>b.
       if b = ACK then io_return ()
       else if b = NAK then finish_attempts n
       else if b = CAN then
         io_bind read_byte (\<lambda>b'. if b' = CAN then io_fail Cancelled else finish_attempts n)
       else io_fail (UnexpectedByte b)))"

definition finish_xymodem_send :: "unit io" where
  "finish_xymodem_send = finish_attempts XYMODEM_RETRIES"

definition read_block_body :: "byte \<Rightarrow> xy_block_size \<Rightarrow> bool \<Rightarrow> xy_block io" where
  "read_block_body marker sz use_crc =
     io_bind (read_bytes (2 + block_len sz + (if use_crc then 2 else 1))) (\<lambda>rest.
       if use_crc then io_lift (parse_crc (marker # rest)) else io_lift (parse_checksum (marker # rest)))"

definition read_xymodem_block :: "bool \<Rightarrow> xy_block io" where
  "read_xymodem_block use_crc =
     io_bind read_byte (\<lambda>marker.
       case size_from_marker marker of
         None \<Rightarrow> io_fail (UnexpectedByte marker)
       | Some sz \<Rightarrow> read_block_body marker sz use_crc)"

datatype xymodem_packet = PacketBlock xy_block | EndOfTransmission

definition read_xymodem_packet :: "bool \<Rightarrow> xymodem_packet io" where
  "read_xymodem_packet use_crc =
     io_bind read_byte (\<lambda>marker.
       if marker = EOT then io_return EndOfTransmission
       else if marker = CAN then
         io_bind read_byte (\<lambda>b. if b = CAN then io_fail Cancelled else io_fail (UnexpectedByte CAN))
       else
         (case size_from_marker marker of
            None \<Rightarrow> io_fail (UnexpectedByte marker)
          | Some sz \<Rightarrow> io_bind (read_block_body marker sz use_crc) (\<lambda>b. io_return (PacketBlock b))))"

section \<open>Reading only shortens the queue\<close>

lemma io_bind_Inr:
  "io_bind m f io = (Inr y, io') \<longleftrightarrow> (\<exists>x io1. m io = (Inr x, io1) \<and> f x io1 = (Inr y, io'))"
  by (auto simp: io_bind_def split: prod.splits sum.splits)

named_theorems io_defs \<open>the operations of the line\<close>
declare io_bind_def [io_defs] io_return_def [io_defs] io_fail_def [io_defs] io_lift_def [io_defs]
  write_all_def [io_defs] write_file_def [io_defs]

definition shrinks :: "'a io \<Rightarrow> bool" where
  "shrinks m \<longleftrightarrow> (\<forall>io. length (mio_input (snd (m io))) \<le> length (mio_input io))"

named_theorems shrinking \<open>operations that only shorten the input\<close>

lemma shrinks_bind [shrinking]: "shrinks m \<Longrightarrow> (\<And>x. shrinks (f x)) \<Longrightarrow> shrinks (io_bind m f)"
proof -
  assume m: "shrinks m" and f: "\<And>x. shrinks (f x)"
  have "length (mio_input (snd (io_bind m f io))) \<le> length (mio_input io)" for io
  proof (cases "m io")
    case (Pair r io1)
    then have one: "length (mio_input io1) \<le> length (mio_input io)" using m by (auto simp: shrinks_def dest: spec [of _ io])
    have "length (mio_input (snd (f x io1))) \<le> length (mio_input io1)" for x using f by (simp add: shrinks_def)
    then have "length (mio_input (snd (f x io1))) \<le> length (mio_input io)" for x using one by (rule order.trans)
    then show ?thesis using one by (cases r) (auto simp: io_bind_def Pair)
  qed
  then show ?thesis by (simp add: shrinks_def)
qed

lemma shrinks_basic [shrinking]:
  "shrinks (io_return x)" "shrinks (io_fail e)" "shrinks (io_lift r)" "shrinks (write_all bs)" "shrinks read_byte"
  by (auto simp: shrinks_def io_defs read_byte_def split: list.split io_event.split sum.split)

lemma shrinks_if [shrinking]: "shrinks m \<Longrightarrow> shrinks m' \<Longrightarrow> shrinks (if c then m else m')"
  by simp

lemma shrinks_option [shrinking]: "shrinks m \<Longrightarrow> (\<And>x. shrinks (f x)) \<Longrightarrow> shrinks (case v of None \<Rightarrow> m | Some x \<Rightarrow> f x)"
  by (simp split: option.split)

lemma shrinks_read_bytes [shrinking]: "shrinks (read_bytes n)"
  by (induction n) (auto intro: shrinking)

lemma shrinks_read_body [shrinking]: "shrinks (read_block_body marker sz use_crc)"
  unfolding read_block_body_def by (intro shrinking)

lemma shrinks_read_packet [shrinking]: "shrinks (read_xymodem_packet use_crc)"
  unfolding read_xymodem_packet_def by (intro shrinking)

lemma shrinks_expect [shrinking]: "shrinks (expect_byte_or_cancel b)"
  unfolding expect_byte_or_cancel_def by (intro shrinking)

text \<open>A byte that is read is taken from the queue.\<close>

lemma read_byte_Inr: "read_byte io = (Inr b, io') \<longleftrightarrow> (\<exists>rest. mio_input io = Arrives b # rest \<and> io' = io\<lparr>mio_input := rest\<rparr>)"
  by (auto simp: read_byte_def split: list.splits io_event.splits)

lemma bind_read_consumes:
  assumes "\<And>b. shrinks (f b)" "io_bind read_byte f io = (Inr y, io')"
  shows "length (mio_input io') < length (mio_input io)"
proof -
  obtain b io1 where one: "read_byte io = (Inr b, io1)" "f b io1 = (Inr y, io')" using assms(2) by (auto simp: io_bind_Inr)
  have "length (mio_input io') \<le> length (mio_input io1)" using assms(1) [of b] one(2) by (auto simp: shrinks_def dest: spec [of _ io1])
  then show ?thesis using one(1) by (auto simp: read_byte_Inr)
qed

lemma packet_consumes:
  "read_xymodem_packet use_crc io = (Inr p, io') \<Longrightarrow> length (mio_input io') < length (mio_input io)"
  unfolding read_xymodem_packet_def by (erule bind_read_consumes [rotated]) (intro shrinking)

lemma block_consumes:
  "read_xymodem_block use_crc io = (Inr b, io') \<Longrightarrow> length (mio_input io') < length (mio_input io)"
  unfolding read_xymodem_block_def by (erule bind_read_consumes [rotated]) (intro shrinking)

section \<open>Transfers\<close>

lemma packet_keeps:
  assumes "read_xymodem_packet use_crc io = (Inl e, io')"
  shows "length (mio_input io') = length (mio_input io) \<or> length (mio_input io') < length (mio_input io)"
proof -
  have "length (mio_input (snd (read_xymodem_packet use_crc io))) \<le> length (mio_input io)"
    using shrinks_read_packet unfolding shrinks_def by blast
  then show ?thesis using assms by auto
qed

lemma read_padded_length:
  "read_padded n r = (bs, rest) \<Longrightarrow> length (concat rest) + length bs \<le> length (concat r) \<and> length bs \<le> n"
  by (induction n r arbitrary: bs rest rule: read_padded.induct) (fastforce split: if_splits prod.splits)+

function send_xymodem_blocks ::
    "bytes list \<Rightarrow> xy_block_size \<Rightarrow> bool \<Rightarrow> byte \<Rightarrow> nat \<Rightarrow> modem_io \<Rightarrow> (transfer_error + nat) \<times> modem_io" where
  "send_xymodem_blocks reader sz use_crc number tot io =
     (case read_padded (block_len sz) reader of
        (data, rest) \<Rightarrow>
          (if data = [] then (Inr tot, io)
           else
             (case send_xymodem_block number sz (data @ replicate (block_len sz - length data) CPMEOF) use_crc io of
                (Inl e, io') \<Rightarrow> (Inl e, io')
              | (Inr _, io') \<Rightarrow>
                  send_xymodem_blocks rest sz use_crc (number + 1) (tot + length data) io')))"
  by auto
termination
  by (relation "measure (\<lambda>(reader, _). length (concat reader))")
     (auto dest!: read_padded_length [OF sym] simp del: length_concat simp flip: length_greater_0_conv)

function receive_xymodem_blocks ::
    "bool \<Rightarrow> u64 option \<Rightarrow> bool \<Rightarrow> byte \<Rightarrow> nat \<Rightarrow> nat \<Rightarrow> modem_io \<Rightarrow> (transfer_error + nat) \<times> modem_io" where
  "receive_xymodem_blocks use_crc expected_size ymodem_eot expected tot retries io =
     (case read_xymodem_packet use_crc io of
        (Inr EndOfTransmission, io') \<Rightarrow>
          io_bind (if ymodem_eot then io_bind (write_all [NAK]) (\<lambda>_. expect_byte_or_cancel EOT) else io_return ())
            (\<lambda>_. io_bind (write_all [ACK]) (\<lambda>_. io_return tot)) io'
      | (Inr (PacketBlock b), io') \<Rightarrow>
          (if xb_number b = expected then
             (let write_len = (case expected_size of
                                 Some sz \<Rightarrow> min (unat sz - tot) (length (xb_payload b))
                               | None \<Rightarrow> length (xb_payload b)) in
              receive_xymodem_blocks use_crc expected_size ymodem_eot (expected + 1) (tot + write_len) 0
                (snd (write_all [ACK] (snd (write_file (take write_len (xb_payload b)) io')))))
           else if xb_number b \<noteq> expected - 1 then
             receive_xymodem_blocks use_crc expected_size ymodem_eot expected tot 0 (snd (write_all [NAK] io'))
           else
             receive_xymodem_blocks use_crc expected_size ymodem_eot expected tot 0 (snd (write_all [ACK] io')))
      | (Inl e, io') \<Rightarrow>
          (if e = Cancelled then (Inl Cancelled, io')
           else if retries < XYMODEM_RETRIES then
             (if e = UnexpectedByte EOT then (Inl e, snd (write_all [NAK] io'))
              else receive_xymodem_blocks use_crc expected_size ymodem_eot expected tot (retries + 1)
                     (snd (write_all [NAK] io')))
           else (Inl e, io')))"
  by auto
termination
  by (relation "measures [\<lambda>(_, _, _, _, _, _, io). length (mio_input io), \<lambda>(_, _, _, _, _, retries, _). XYMODEM_RETRIES - retries]")
     (auto simp: write_all_def write_file_def dest!: packet_consumes [OF sym] packet_keeps [OF sym])

declare receive_xymodem_blocks.simps [simp del] send_xymodem_blocks.simps [simp del]

datatype xmodem_block_mode = Mode128 | Mode1024

definition mode_block_size :: "xmodem_block_mode \<Rightarrow> xy_block_size" where
  "mode_block_size mode = (case mode of Mode128 \<Rightarrow> Bytes128 | Mode1024 \<Rightarrow> Bytes1024)"

definition send_xmodem :: "bytes list \<Rightarrow> xmodem_block_mode \<Rightarrow> nat io" where
  "send_xmodem reader mode =
     io_bind wait_for_xymodem_start (\<lambda>use_crc.
     io_bind (send_xymodem_blocks reader (mode_block_size mode) use_crc 1 0) (\<lambda>bytes_sent.
     io_bind finish_xymodem_send (\<lambda>_. io_return bytes_sent)))"

definition receive_xmodem :: "bool \<Rightarrow> nat io" where
  "receive_xmodem use_crc =
     io_bind (write_all [if use_crc then WANT_CRC else NAK]) (\<lambda>_.
       receive_xymodem_blocks use_crc None False 1 0 0)"

record send_entry =
  se_file_name :: bytes
  se_file_size :: u64
  se_reader :: "bytes list"

primrec send_ymodem_entries :: "send_entry list \<Rightarrow> nat \<Rightarrow> nat io" where
  "send_ymodem_entries [] tot = io_return tot"
| "send_ymodem_entries (e # es) tot =
     io_bind wait_for_xymodem_start (\<lambda>_.
     io_bind (io_lift (ymodem_header_new (se_file_name e) (Some (se_file_size e)))) (\<lambda>h.
     io_bind (io_lift (encode_block0_payload h)) (\<lambda>payload.
     io_bind (send_xymodem_block 0 Bytes128 payload True) (\<lambda>_.
     io_bind (expect_byte_or_cancel WANT_CRC) (\<lambda>_.
     io_bind (send_xymodem_blocks (limit_reader (unat (se_file_size e)) (se_reader e)) Bytes1024 True 1 0)
       (\<lambda>entry_bytes.
     if entry_bytes \<noteq> unat (se_file_size e) then io_fail UnexpectedFrame
     else
       io_bind finish_xymodem_send (\<lambda>_. send_ymodem_entries es (tot + entry_bytes))))))))"

definition send_ymodem_stream :: "send_entry list \<Rightarrow> nat io" where
  "send_ymodem_stream entries =
     io_bind (send_ymodem_entries entries 0) (\<lambda>tot.
     io_bind wait_for_xymodem_start (\<lambda>_.
     io_bind (send_xymodem_block 0 Bytes128 (replicate 128 0) True) (\<lambda>_. io_return tot)))"

definition open_file :: "('h \<Rightarrow> transfer_error + unit) \<Rightarrow> 'h \<Rightarrow> unit io" where
  "open_file open_writer h io =
     (case open_writer h of Inl e \<Rightarrow> (Inl e, io) | Inr _ \<Rightarrow> (Inr (), io\<lparr>mio_files := mio_files io @ [[]]\<rparr>))"

text \<open>One file of a batch, after its header block: the header is \<open>None\<close> at the end of the batch.\<close>

definition receive_ymodem_file ::
    "(ymodem_header \<Rightarrow> transfer_error + unit) \<Rightarrow> xy_block \<Rightarrow> ymodem_header option io" where
  "receive_ymodem_file open_writer header_block =
     io_bind (write_all [ACK]) (\<lambda>_.
     io_bind (io_lift (parse_block0_payload (xb_payload header_block))) (\<lambda>header.
       case header of
         None \<Rightarrow> io_return None
       | Some h \<Rightarrow>
           io_bind (write_all [WANT_CRC]) (\<lambda>_.
           io_bind (open_file open_writer h) (\<lambda>_.
           io_bind (receive_xymodem_blocks True (yh_file_size h) True 1 0 0) (\<lambda>n.
             if (case yh_file_size h of Some sz \<Rightarrow> n < unat sz | None \<Rightarrow> False) then io_fail UnexpectedFrame
             else io_return (Some h))))))"

lemma shrinks_receive_blocks [shrinking]:
  "shrinks (receive_xymodem_blocks use_crc expected_size ymodem_eot expected tot retries)"
proof -
  have "length (mio_input (snd (receive_xymodem_blocks use_crc expected_size ymodem_eot expected tot retries io)))
      \<le> length (mio_input io)" for io
  proof (induction use_crc expected_size ymodem_eot expected tot retries io rule: receive_xymodem_blocks.induct)
    case (1 use_crc expected_size ymodem_eot expected tot retries io)
    obtain r io' where run: "read_xymodem_packet use_crc io = (r, io')" by fastforce
    then have less: "length (mio_input io') \<le> length (mio_input io)"
      using packet_consumes packet_keeps by (cases r) fastforce+
    let ?final = "io_bind (if ymodem_eot then io_bind (write_all [NAK]) (\<lambda>_. expect_byte_or_cancel EOT) else io_return ())
            (\<lambda>_. io_bind (write_all [ACK]) (\<lambda>_. io_return tot))"
    have "shrinks ?final" by (intro shrinking)
    then have "length (mio_input (snd (?final io'))) \<le> length (mio_input io')" unfolding shrinks_def by blast
    then have final: "length (mio_input (snd (?final io'))) \<le> length (mio_input io)" using less by linarith
    have step: "length (mio_input (snd (write_all w io'))) = length (mio_input io')"
      "length (mio_input (snd (write_all w (snd (write_file d io'))))) = length (mio_input io')" for w d
      by (simp_all add: write_all_def write_file_def)
    show ?case
    proof (cases r)
      case (Inl e)
      then show ?thesis using "1.IH"(1) [OF run [symmetric] Inl] run less
        by (subst receive_xymodem_blocks.simps) (auto simp: step intro: order.trans)
    next
      case (Inr p)
      show ?thesis
      proof (cases p)
        case EndOfTransmission
        then show ?thesis using run Inr final
          by (subst receive_xymodem_blocks.simps) simp
      next
        case (PacketBlock b)
        then show ?thesis using "1.IH"(2-4) [OF run [symmetric] Inr PacketBlock] run less Inr
          by (subst receive_xymodem_blocks.simps) (auto simp: step Let_def intro: order.trans)
      qed
    qed
  qed
  then show ?thesis by (simp add: shrinks_def)
qed

lemma shrinks_receive_file [shrinking]: "shrinks (receive_ymodem_file open_writer b)"
proof -
  have "shrinks (open_file open_writer h)" for h by (simp add: shrinks_def open_file_def split: sum.split)
  then show ?thesis unfolding receive_ymodem_file_def by (intro shrinking)
qed

lemma receive_file_keeps:
  "receive_ymodem_file open_writer b io = (r, io') \<Longrightarrow> length (mio_input io') \<le> length (mio_input io)"
  using shrinks_receive_file [of open_writer b] by (auto simp: shrinks_def dest: spec [of _ io])

function receive_ymodem_loop ::
    "(ymodem_header \<Rightarrow> transfer_error + unit) \<Rightarrow> ymodem_header list \<Rightarrow> modem_io \<Rightarrow>
     (transfer_error + ymodem_header list) \<times> modem_io" where
  "receive_ymodem_loop open_writer received io =
     (case read_xymodem_block True (snd (write_all [WANT_CRC] io)) of
        (Inl e, io') \<Rightarrow> (Inl e, io')
      | (Inr header_block, io') \<Rightarrow>
          (if xb_number header_block \<noteq> 0 then
             receive_ymodem_loop open_writer received (snd (write_all [NAK] io'))
           else
             (case receive_ymodem_file open_writer header_block io' of
                (Inl e, io'') \<Rightarrow> (Inl e, io'')
              | (Inr None, io'') \<Rightarrow> (Inr received, io'')
              | (Inr (Some h), io'') \<Rightarrow> receive_ymodem_loop open_writer (received @ [h]) io'')))"
  by auto
termination
  by (relation "measure (\<lambda>(_, _, io). length (mio_input io))")
     (auto simp: write_all_def dest!: block_consumes [OF sym] receive_file_keeps [OF sym])

declare receive_ymodem_loop.simps [simp del]

definition receive_ymodem :: "(ymodem_header \<Rightarrow> transfer_error + unit) \<Rightarrow> ymodem_header list io" where
  "receive_ymodem open_writer io = receive_ymodem_loop open_writer [] io"

section \<open>Conversations\<close>

text \<open>
  \<open>talks m inp out g x\<close>: given the bytes \<open>inp\<close> on the line the operation returns \<open>x\<close>, has read exactly these
  bytes, has written exactly \<open>out\<close>, and has changed the files by \<open>g\<close>, whatever else is queued.
\<close>

definition same_files :: "bytes list \<Rightarrow> bytes list" where
  "same_files fs = fs"

lemma same_files_comp [simp]: "same_files \<circ> g = g" "g \<circ> same_files = g"
  by (simp_all add: fun_eq_iff same_files_def)

definition talks :: "'a io \<Rightarrow> bytes \<Rightarrow> bytes \<Rightarrow> (bytes list \<Rightarrow> bytes list) \<Rightarrow> 'a \<Rightarrow> bool" where
  "talks m inp out g x \<longleftrightarrow>
     (\<forall>io rest. mio_input io = map Arrives inp @ rest \<longrightarrow>
        m io = (Inr x, io\<lparr>mio_input := rest, mio_output := mio_output io @ out, mio_files := g (mio_files io)\<rparr>))"

lemma talksD:
  "talks m inp out g x \<Longrightarrow> mio_input io = map Arrives inp @ rest \<Longrightarrow>
   m io = (Inr x, io\<lparr>mio_input := rest, mio_output := mio_output io @ out, mio_files := g (mio_files io)\<rparr>)"
  by (simp add: talks_def)

lemma talksI:
  "(\<And>io rest. mio_input io = map Arrives inp @ rest \<Longrightarrow>
     m io = (Inr x, io\<lparr>mio_input := rest, mio_output := mio_output io @ out, mio_files := g (mio_files io)\<rparr>)) \<Longrightarrow>
   talks m inp out g x"
  by (simp add: talks_def)

lemma talks_bind:
  assumes "talks m i1 o1 g1 x" "talks (f x) i2 o2 g2 y" "inp = i1 @ i2" "out = o1 @ o2" "g = g2 \<circ> g1"
  shows "talks (io_bind m f) inp out g y"
proof (rule talksI)
  fix io :: modem_io and rest assume "mio_input io = map Arrives inp @ rest"
  then have one: "m io = (Inr x, io\<lparr>mio_input := map Arrives i2 @ rest, mio_output := mio_output io @ o1, mio_files := g1 (mio_files io)\<rparr>)"
    using talksD [OF assms(1), of io "map Arrives i2 @ rest"] assms(3) by simp
  show "io_bind m f io = (Inr y, io\<lparr>mio_input := rest, mio_output := mio_output io @ out, mio_files := g (mio_files io)\<rparr>)"
    unfolding io_bind_def one using assms(4,5)
    by (subst prod.case, subst sum.case, subst talksD [OF assms(2)]) auto
qed

lemma talks_read: "talks read_byte [b] [] same_files b"
  by (rule talksI) (simp add: read_byte_def same_files_def)

lemma talks_write: "talks (write_all bs) [] bs same_files ()"
  by (rule talksI) (simp add: write_all_def same_files_def)

lemma talks_return: "talks (io_return x) [] [] same_files x"
  by (rule talksI) (simp add: io_return_def same_files_def)

lemma talks_lift: "r = Inr x \<Longrightarrow> talks (io_lift r) [] [] same_files x"
  by (rule talksI) (simp add: io_lift_def same_files_def)

lemma talks_read_bytes: "talks (read_bytes (length bs)) bs [] same_files bs"
proof (induction bs)
  case (Cons b bs)
  have "talks (io_bind (read_bytes (length bs)) (\<lambda>bs'. io_return (b # bs'))) bs [] same_files (b # bs)"
    by (rule talks_bind [OF Cons talks_return]) auto
  then show ?case by (simp, intro talks_bind [OF talks_read]) auto
qed (simp add: talks_return)

lemma talks_read_then: "talks (f b) inp out g x \<Longrightarrow> talks (io_bind read_byte f) (b # inp) out g x"
  by (rule talks_bind [OF talks_read]) auto

lemma talks_write_then: "talks (f ()) inp out g x \<Longrightarrow> talks (io_bind (write_all bs) f) inp (bs @ out) g x"
  by (rule talks_bind [OF talks_write]) auto

lemma control_bytes [simp]:
  "ACK \<noteq> NAK" "NAK \<noteq> ACK" "ACK \<noteq> WANT_CRC" "WANT_CRC \<noteq> ACK" "WANT_CRC \<noteq> NAK" "NAK \<noteq> WANT_CRC"
  "CAN \<noteq> ACK" "ACK \<noteq> CAN" "CAN \<noteq> EOT" "EOT \<noteq> CAN" "EOT \<noteq> SOH" "EOT \<noteq> STX" "CAN \<noteq> SOH" "CAN \<noteq> STX"
  "SOH \<noteq> EOT" "STX \<noteq> EOT" "SOH \<noteq> CAN" "STX \<noteq> CAN"
  by (simp_all add: ACK_def NAK_def WANT_CRC_def CAN_def EOT_def SOH_def STX_def)

text \<open>The sender of one frame, whatever number of times it is asked again.\<close>

lemma talks_send_attempts:
  assumes "set replies \<subseteq> {NAK, WANT_CRC}" "length replies < n"
  shows "talks (send_attempts n encoded) (replies @ [ACK]) (concat (replicate (Suc (length replies)) encoded)) same_files ()"
  using assms
proof (induction replies arbitrary: n)
  case Nil
  then obtain k where n: "n = Suc k" by (cases n) auto
  have "talks (send_attempts n encoded) [ACK] (encoded @ []) same_files ()"
    unfolding n send_attempts.simps
    by (intro talks_write_then talks_read_then) (simp add: talks_return)
  then show ?case by simp
next
  case (Cons r replies)
  then obtain k where n: "n = Suc k" "length replies < k" by (cases n) auto
  have again: "talks (send_attempts k encoded) (replies @ [ACK]) (concat (replicate (Suc (length replies)) encoded)) same_files ()"
    using Cons n by auto
  have r: "r = NAK \<or> r = WANT_CRC" using Cons.prems by auto
  have "talks (send_attempts n encoded) (r # (replies @ [ACK])) (encoded @ concat (replicate (Suc (length replies)) encoded)) same_files ()"
    unfolding n send_attempts.simps using r again
    by (intro talks_write_then talks_read_then) auto
  then show ?case by simp
qed

definition encode_block :: "bool \<Rightarrow> xy_block \<Rightarrow> bytes" where
  "encode_block use_crc b = (if use_crc then encode_crc b else encode_checksum b)"

definition parse_block :: "bool \<Rightarrow> bytes \<Rightarrow> modem_error + xy_block" where
  "parse_block use_crc bs = (if use_crc then parse_crc bs else parse_checksum bs)"

lemma encode_block_head: "\<exists>tl. encode_block use_crc b = block_marker (xb_size b) # tl"
  by (simp add: encode_block_def encode_crc_def encode_checksum_def)

lemma parse_encode_block: "block_ok b \<Longrightarrow> parse_block use_crc (encode_block use_crc b) = Inr b"
  by (simp add: parse_block_def encode_block_def parse_crc_iff parse_checksum_iff)

lemma length_encode_block:
  "block_ok b \<Longrightarrow> length (encode_block use_crc b) = 3 + block_len (xb_size b) + (if use_crc then 2 else 1)"
  by (simp add: encode_block_def encode_crc_def encode_checksum_def block_ok_def)

lemma talks_send_block:
  assumes "block_new number sz payload = Inr b" "set replies \<subseteq> {NAK, WANT_CRC}" "length replies < 10"
  shows "talks (send_xymodem_block number sz payload use_crc) (replies @ [ACK])
    (concat (replicate (Suc (length replies)) (encode_block use_crc b))) same_files ()"
proof -
  have "talks (io_bind (io_lift (block_new number sz payload)) (\<lambda>b. send_attempts XYMODEM_RETRIES (encode_block use_crc b)))
      (replies @ [ACK]) (concat (replicate (Suc (length replies)) (encode_block use_crc b))) same_files ()"
    by (rule talks_bind [OF talks_lift [OF assms(1)] talks_send_attempts]) (use assms in \<open>auto simp: XYMODEM_RETRIES_def\<close>)
  then show ?thesis by (cases use_crc) (simp_all add: send_xymodem_block_def encode_block_def)
qed

text \<open>The blocks of a file.\<close>

definition pad_block :: "xy_block_size \<Rightarrow> bytes \<Rightarrow> bytes" where
  "pad_block sz c = c @ replicate (block_len sz - length c) CPMEOF"

fun number_blocks :: "byte \<Rightarrow> xy_block_size \<Rightarrow> bytes list \<Rightarrow> xy_block list" where
  "number_blocks n sz [] = []"
| "number_blocks n sz (c # cs) =
     \<lparr>xb_number = n, xb_size = sz, xb_payload = pad_block sz c\<rparr> # number_blocks (n + 1) sz cs"

definition file_blocks :: "byte \<Rightarrow> xy_block_size \<Rightarrow> bytes \<Rightarrow> xy_block list" where
  "file_blocks n sz data = number_blocks n sz (chunks (block_len sz) data)"

text \<open>
  A block with the damaged copies of it that arrive first; what the sender writes for it, what arrives, and
  what the receiver answers.
\<close>

type_synonym noisy_block = "xy_block \<times> bytes list"

definition sent_bytes :: "bool \<Rightarrow> noisy_block list \<Rightarrow> bytes" where
  "sent_bytes use_crc bds = concat (map (\<lambda>(b, d). concat (replicate (Suc (length d)) (encode_block use_crc b))) bds)"

definition arriving_bytes :: "bool \<Rightarrow> noisy_block list \<Rightarrow> bytes" where
  "arriving_bytes use_crc bds = concat (map (\<lambda>(b, d). concat d @ encode_block use_crc b) bds)"

definition answers :: "noisy_block list \<Rightarrow> bytes" where
  "answers bds = concat (map (\<lambda>(b, d). replicate (length d) NAK @ [ACK]) bds)"

text \<open>A damaged copy has the marker and the length of the block, and the checks of the parser notice it.\<close>

definition damaged :: "bool \<Rightarrow> xy_block \<Rightarrow> bytes \<Rightarrow> bool" where
  "damaged use_crc b c \<longleftrightarrow>
     length c = length (encode_block use_crc b) \<and> hd c = block_marker (xb_size b) \<and>
     (case parse_block use_crc c of Inl _ \<Rightarrow> True | Inr _ \<Rightarrow> False)"

definition noise_ok :: "bool \<Rightarrow> noisy_block list \<Rightarrow> bool" where
  "noise_ok use_crc bds \<longleftrightarrow> list_all (\<lambda>(b, d). length d < 10 \<and> list_all (damaged use_crc b) d) bds"

lemma block_len_pos [simp]: "0 < block_len sz"
  by (cases sz) (simp_all add: block_len_def)

lemma block_new_pad: "length c \<le> block_len sz \<Longrightarrow>
    block_new n sz (pad_block sz c) = Inr \<lparr>xb_number = n, xb_size = sz, xb_payload = pad_block sz c\<rparr>"
  by (simp add: block_new_def pad_block_def)

lemma read_padded_take:
  "[] \<notin> set r \<Longrightarrow> \<exists>rest. read_padded n r = (take n (concat r), rest) \<and> concat rest = drop n (concat r) \<and> [] \<notin> set rest"
proof (induction n r rule: read_padded.induct)
  case (2 n c cs)
  then show ?case by (cases "n = 0"; cases "length c \<le> n") auto
qed simp

lemma file_blocks_step:
  "data \<noteq> [] \<Longrightarrow> file_blocks n sz data =
     \<lparr>xb_number = n, xb_size = sz, xb_payload = pad_block sz (take (block_len sz) data)\<rparr> #
     file_blocks (n + 1) sz (drop (block_len sz) data)"
  by (subst file_blocks_def, subst chunks.simps) (simp add: file_blocks_def less_imp_neq [OF block_len_pos, symmetric])

lemma send_blocks_step:
  "read_padded (block_len sz) reader = (bs, rest) \<Longrightarrow> bs \<noteq> [] \<Longrightarrow>
   send_xymodem_blocks reader sz use_crc n tot io =
     io_bind (send_xymodem_block n sz (pad_block sz bs) use_crc)
       (\<lambda>_. send_xymodem_blocks rest sz use_crc (n + 1) (tot + length bs)) io"
  by (subst send_xymodem_blocks.simps) (simp add: io_bind_def pad_block_def split: sum.split prod.split)

lemma talks_send_blocks:
  assumes "[] \<notin> set reader" "map fst bds = file_blocks n sz (concat reader)" "noise_ok use_crc bds"
  shows "talks (send_xymodem_blocks reader sz use_crc n tot) (answers bds) (sent_bytes use_crc bds) same_files
    (tot + length (concat reader))"
  using assms
proof (induction bds arbitrary: reader n tot)
  case Nil
  have "concat reader = []"
    using Nil.prems(2) by (metis file_blocks_step list.distinct(1) list.simps(8))
  moreover obtain rest where "read_padded (block_len sz) reader = (take (block_len sz) (concat reader), rest)"
    using read_padded_take [OF Nil.prems(1)] by blast
  ultimately show ?case
    by (intro talksI) (subst send_xymodem_blocks.simps, simp add: answers_def sent_bytes_def same_files_def)
next
  case (Cons bd bds)
  obtain b d where bd: "bd = (b, d)" by (cases bd) auto
  let ?data = "concat reader" and ?l = "block_len sz"
  have data: "?data \<noteq> []"
  proof
    assume "?data = []"
    then show False using Cons.prems(2) by (simp add: file_blocks_def chunks.simps del: concat_eq_Nil_conv)
  qed
  obtain rest where read: "read_padded ?l reader = (take ?l ?data, rest)" "concat rest = drop ?l ?data" "[] \<notin> set rest"
    using read_padded_take [OF Cons.prems(1)] by blast
  have b: "b = \<lparr>xb_number = n, xb_size = sz, xb_payload = pad_block sz (take ?l ?data)\<rparr>"
    and later: "map fst bds = file_blocks (n + 1) sz (concat rest)"
    using Cons.prems(2) file_blocks_step [OF data, of n sz] bd read(2) by auto
  have d: "length d < 10" and noise: "noise_ok use_crc bds" using Cons.prems(3) bd by (auto simp: noise_ok_def)
  have block: "talks (send_xymodem_block n sz (pad_block sz (take ?l ?data)) use_crc) (replicate (length d) NAK @ [ACK])
      (concat (replicate (Suc (length d)) (encode_block use_crc b))) same_files ()"
    using talks_send_block [of n sz "pad_block sz (take ?l ?data)" b "replicate (length d) NAK" use_crc] d b
    by (simp add: block_new_pad set_replicate_conv_if)
  have tail: "talks (send_xymodem_blocks rest sz use_crc (n + 1) (tot + length (take ?l ?data))) (answers bds)
      (sent_bytes use_crc bds) same_files (tot + length (take ?l ?data) + length (concat rest))"
    by (rule Cons.IH [OF read(3) later noise])
  have both: "talks (io_bind (send_xymodem_block n sz (pad_block sz (take ?l ?data)) use_crc)
      (\<lambda>_. send_xymodem_blocks rest sz use_crc (n + 1) (tot + length (take ?l ?data))))
      (answers (bd # bds)) (sent_bytes use_crc (bd # bds)) same_files (tot + length ?data)"
  proof (rule talks_bind [OF block])
    have "length (take ?l ?data) + length (concat rest) = length ?data" unfolding read(2) by simp
    then show "talks (send_xymodem_blocks rest sz use_crc (n + 1) (tot + length (take ?l ?data))) (answers bds)
        (sent_bytes use_crc bds) same_files (tot + length ?data)"
      using tail by (simp only: add.assoc)
  qed (simp_all add: answers_def sent_bytes_def bd)
  have "take ?l ?data \<noteq> []" using data by (simp add: take_eq_Nil2 less_imp_neq [OF block_len_pos, symmetric])
  then have "send_xymodem_blocks reader sz use_crc n tot io =
      io_bind (send_xymodem_block n sz (pad_block sz (take ?l ?data)) use_crc)
        (\<lambda>_. send_xymodem_blocks rest sz use_crc (n + 1) (tot + length (take ?l ?data))) io" for io
    by (rule send_blocks_step [OF read(1)])
  then show ?case using both unfolding talks_def by simp
qed

lemma append_file_Nil [simp]: "append_file [] = same_files"
  by (rule ext) (simp add: append_file_def same_files_def)

lemma io_update_order:
  "mio_output_update f (mio_files_update g io) = mio_files_update g (mio_output_update f io)"
  by simp

lemma append_file_append: "append_file bs (append_file as fs) = append_file (as @ bs) fs"
  by (simp add: append_file_def)

text \<open>The receiver of one frame.\<close>

lemma frame_cons:
  assumes "length c = length (encode_block use_crc b)" "hd c = block_marker (xb_size b)" "block_ok b"
  obtains rest where "c = block_marker (xb_size b) # rest" "length rest = 2 + block_len (xb_size b) + (if use_crc then 2 else 1)"
  using assms that [of "tl c"] by (cases c) (auto simp: length_encode_block)

lemma marker_not_control: "block_marker sz \<noteq> EOT" "block_marker sz \<noteq> CAN"
  by (cases sz; simp add: block_marker_def)+

lemma read_frame:
  assumes "length c = length (encode_block use_crc b)" "hd c = block_marker (xb_size b)" "block_ok b"
    and "mio_input io = map Arrives c @ rest"
  shows "read_xymodem_packet use_crc io =
    (case parse_block use_crc c of
       Inl e \<Rightarrow> (Inl (ProtocolError e), io\<lparr>mio_input := rest\<rparr>)
     | Inr b' \<Rightarrow> (Inr (PacketBlock b'), io\<lparr>mio_input := rest\<rparr>))"
proof -
  obtain body where c: "c = block_marker (xb_size b) # body"
    and len: "length body = 2 + block_len (xb_size b) + (if use_crc then 2 else 1)"
    using assms(1-3) by (rule frame_cons)
  have one: "read_byte io = (Inr (block_marker (xb_size b)), io\<lparr>mio_input := map Arrives body @ rest\<rparr>)"
    using assms(4) by (simp add: read_byte_def c)
  have "read_bytes (length body) (io\<lparr>mio_input := map Arrives body @ rest\<rparr>) = (Inr body, io\<lparr>mio_input := rest\<rparr>)"
    by (subst talksD [OF talks_read_bytes]) (simp_all add: same_files_def)
  then have "read_block_body (block_marker (xb_size b)) (xb_size b) use_crc (io\<lparr>mio_input := map Arrives body @ rest\<rparr>) =
      io_lift (parse_block use_crc c) (io\<lparr>mio_input := rest\<rparr>)"
    unfolding read_block_body_def len [symmetric] io_bind_def by (simp add: c parse_block_def)
  then show ?thesis
    by (simp add: read_xymodem_packet_def io_bind_def one marker_not_control io_lift_def io_return_def split: sum.split)
qed

lemma read_end: "mio_input io = Arrives EOT # rest \<Longrightarrow>
    read_xymodem_packet use_crc io = (Inr EndOfTransmission, io\<lparr>mio_input := rest\<rparr>)"
  by (simp add: read_xymodem_packet_def io_bind_def read_byte_def io_return_def)

text \<open>One block with the damaged copies before it.\<close>

definition write_len :: "u64 option \<Rightarrow> nat \<Rightarrow> bytes \<Rightarrow> nat" where
  "write_len expected_size tot payload =
     (case expected_size of Some sz \<Rightarrow> min (unat sz - tot) (length payload) | None \<Rightarrow> length payload)"

lemma receive_one:
  assumes "block_ok b" "xb_number b = expected" "list_all (damaged use_crc b) d" "retries + length d \<le> XYMODEM_RETRIES"
    and "mio_input io = map Arrives (concat d @ encode_block use_crc b) @ rest"
  shows "receive_xymodem_blocks use_crc es eot expected tot retries io =
    receive_xymodem_blocks use_crc es eot (expected + 1) (tot + write_len es tot (xb_payload b)) 0
      (io\<lparr>mio_input := rest, mio_output := mio_output io @ replicate (length d) NAK @ [ACK],
          mio_files := append_file (take (write_len es tot (xb_payload b)) (xb_payload b)) (mio_files io)\<rparr>)"
  using assms(3-5)
proof (induction d arbitrary: retries io)
  case Nil
  obtain tl where head: "encode_block use_crc b = block_marker (xb_size b) # tl" using encode_block_head by blast
  have "read_xymodem_packet use_crc io = (Inr (PacketBlock b), io\<lparr>mio_input := rest\<rparr>)"
    using read_frame [OF refl _ assms(1), of use_crc io rest] Nil.prems(3) assms(1)
    by (simp add: parse_encode_block) (simp add: head)
  then show ?case
    by (subst receive_xymodem_blocks.simps)
       (simp add: assms(2) write_all_def write_file_def Let_def write_len_def io_update_order)
next
  case (Cons c d)
  then have c: "length c = length (encode_block use_crc b)" "hd c = block_marker (xb_size b)" and
    bad: "case parse_block use_crc c of Inl _ \<Rightarrow> True | Inr _ \<Rightarrow> False" by (auto simp: damaged_def)
  then obtain e where e: "parse_block use_crc c = Inl e" by (auto split: sum.splits)
  let ?rest = "map Arrives (concat d @ encode_block use_crc b) @ rest"
  have "read_xymodem_packet use_crc io = (Inl (ProtocolError e), io\<lparr>mio_input := ?rest\<rparr>)"
    using read_frame [OF c assms(1), of io ?rest] Cons.prems(3) e by simp
  then have "receive_xymodem_blocks use_crc es eot expected tot retries io =
      receive_xymodem_blocks use_crc es eot expected tot (retries + 1)
        (io\<lparr>mio_input := ?rest, mio_output := mio_output io @ [NAK]\<rparr>)"
    using Cons.prems(2) by (subst receive_xymodem_blocks.simps) (simp add: write_all_def)
  then show ?case using Cons by simp
qed

fun kept :: "u64 option \<Rightarrow> nat \<Rightarrow> xy_block list \<Rightarrow> bytes" where
  "kept es tot [] = []"
| "kept es tot (b # bs) =
     take (write_len es tot (xb_payload b)) (xb_payload b) @ kept es (tot + write_len es tot (xb_payload b)) bs"

fun numbered :: "byte \<Rightarrow> xy_block list \<Rightarrow> bool" where
  "numbered n [] \<longleftrightarrow> True"
| "numbered n (b # bs) \<longleftrightarrow> xb_number b = n \<and> block_ok b \<and> numbered (n + 1) bs"

lemma write_len_le: "write_len es tot p \<le> length p"
  by (auto simp: write_len_def split: option.split)

lemma receive_all:
  assumes "numbered n (map fst bds)" "noise_ok use_crc bds"
    and "mio_input io = map Arrives (arriving_bytes use_crc bds) @ rest"
  shows "receive_xymodem_blocks use_crc es eot n tot 0 io =
    receive_xymodem_blocks use_crc es eot (n + of_nat (length bds)) (tot + length (kept es tot (map fst bds))) 0
      (io\<lparr>mio_input := rest, mio_output := mio_output io @ answers bds,
          mio_files := append_file (kept es tot (map fst bds)) (mio_files io)\<rparr>)"
  using assms
proof (induction bds arbitrary: n tot io)
  case Nil
  then have "rest = mio_input io" by (simp add: arriving_bytes_def)
  then show ?case by (simp add: answers_def same_files_def)
next
  case (Cons bd bds)
  obtain b d where bd: "bd = (b, d)" by (cases bd) auto
  let ?w = "write_len es tot (xb_payload b)"
  have b: "block_ok b" "xb_number b = n" and tail: "numbered (n + 1) (map fst bds)" using Cons.prems(1) bd by auto
  have noise: "list_all (damaged use_crc b) d" "0 + length d \<le> XYMODEM_RETRIES" "noise_ok use_crc bds"
    using Cons.prems(2) bd by (auto simp: noise_ok_def XYMODEM_RETRIES_def)
  have input: "mio_input io = map Arrives (concat d @ encode_block use_crc b) @ map Arrives (arriving_bytes use_crc bds) @ rest"
    using Cons.prems(3) by (simp add: bd arriving_bytes_def)
  note one = receive_one [OF b noise(1,2) input, of es eot tot]
  show ?case
    unfolding one by (subst Cons.IH [OF tail noise(3)])
      (simp_all add: bd answers_def append_file_append write_len_le min_absorb2 add.assoc)
qed

lemma kept_None: "kept None tot bs = concat (map xb_payload bs)"
  by (induction bs arbitrary: tot) (simp_all add: write_len_def)

lemma file_blocks_Nil [simp]: "file_blocks n sz [] = []"
  by (simp add: file_blocks_def chunks.simps)

lemma take_length_append: "take (length xs) (xs @ ys) = xs"
  by simp

lemma file_blocks_induct [case_names Nil step]:
  assumes "\<And>n. P n []"
    and "\<And>n data. data \<noteq> [] \<Longrightarrow> P (n + 1) (drop (block_len sz) data) \<Longrightarrow> P n data"
  shows "P (n :: byte) (data :: bytes)"
proof (induction "length data" arbitrary: n data rule: less_induct)
  case less
  show ?case
  proof (cases "data = []")
    case False
    then have "length (drop (block_len sz) data) < length data" by simp
    then show ?thesis by (intro assms(2) [OF False] less)
  qed (use assms(1) in simp)
qed

lemma file_blocks_numbered: "numbered n (file_blocks n sz data)"
proof (induction n data rule: file_blocks_induct [where sz = sz])
  case (step n data)
  then show ?case by (simp add: file_blocks_step [of data] block_ok_def pad_block_def)
qed simp

text \<open>A declared size takes the padding off again.\<close>

lemma kept_exact: "unat sz = tot + length data \<Longrightarrow> kept (Some sz) tot (file_blocks n bsz data) = data"
proof (induction n data arbitrary: tot rule: file_blocks_induct [where sz = bsz])
  case (step n data)
  let ?c = "take (block_len bsz) data"
  have "write_len (Some sz) tot (pad_block bsz ?c) = length ?c"
    using step(3) by (simp add: write_len_def pad_block_def)
  moreover have "take (length ?c) (pad_block bsz ?c) = ?c" unfolding pad_block_def by (rule take_length_append)
  moreover have "kept (Some sz) (tot + length ?c) (file_blocks (n + 1) bsz (drop (block_len bsz) data)) = drop (block_len bsz) data"
    by (rule step(2)) (use step(3) in simp)
  ultimately show ?case using step(1) by (simp add: file_blocks_step [of data] del: length_take)
qed simp
text \<open>Without a declared size the last block is kept padded.\<close>

definition padded :: "xy_block_size \<Rightarrow> bytes \<Rightarrow> bytes" where
  "padded sz data =
     data @ replicate ((block_len sz - length data mod block_len sz) mod block_len sz) CPMEOF"

lemma payloads_padded: "concat (map xb_payload (file_blocks n sz data)) = padded sz data"
proof (induction n data rule: file_blocks_induct [where sz = sz])
  case (step n data)
  let ?l = "block_len sz"
  have split: "concat (map xb_payload (file_blocks n sz data)) =
      pad_block sz (take ?l data) @ padded sz (drop ?l data)"
    using step by (simp add: file_blocks_step [of data])
  show ?case
  proof (cases "length data < ?l")
    case True
    then have "(?l - length data mod ?l) mod ?l = ?l - length data" using step(1) by simp
    then show ?thesis unfolding split using True by (simp add: padded_def pad_block_def)
  next
    case False
    then have "(length data - ?l) mod ?l = length data mod ?l" by (simp add: le_mod_geq)
    then show ?thesis unfolding split using False
      by (simp add: padded_def pad_block_def flip: append_assoc)
  qed
qed (simp add: padded_def)

text \<open>The sender waits for the request and the receiver makes it; both end on the same exchange.\<close>

lemma talks_start: "talks wait_for_xymodem_start [if use_crc then WANT_CRC else NAK] [] same_files use_crc"
proof -
  obtain k where k: "XYMODEM_RETRIES = Suc k" by (simp add: XYMODEM_RETRIES_def)
  show ?thesis unfolding wait_for_xymodem_start_def k start_attempts.simps
    by (intro talks_read_then) (simp add: talks_return)
qed

lemma talks_finish: "talks finish_xymodem_send [ACK] [EOT] same_files ()"
  and talks_finish_ymodem: "talks finish_xymodem_send [NAK, ACK] [EOT, EOT] same_files ()"
proof -
  have two: "XYMODEM_RETRIES = Suc (Suc 8)" by (simp add: XYMODEM_RETRIES_def)
  have last: "talks (finish_attempts (Suc k)) [ACK] ([EOT] @ []) same_files ()" for k
    unfolding finish_attempts.simps by (intro talks_write_then talks_read_then) (simp add: talks_return)
  show "talks finish_xymodem_send [ACK] [EOT] same_files ()"
    unfolding finish_xymodem_send_def two by (rule last [unfolded append_Nil2])
  have "talks (finish_attempts (Suc (Suc 8))) [NAK, ACK] ([EOT] @ [EOT]) same_files ()"
    unfolding finish_attempts.simps(2) [of "Suc 8"]
    by (intro talks_write_then talks_read_then, subst if_not_P, simp, subst if_P, rule refl)
       (rule last [of 8, unfolded append_Nil2])
  then show "talks finish_xymodem_send [NAK, ACK] [EOT, EOT] same_files ()"
    unfolding finish_xymodem_send_def two append_Cons append_Nil .
qed

text \<open>
  Property C13: XMODEM delivers a file over a noisy line. Whatever the file, the block size and the check, and
  whichever copies of the blocks arrive damaged (up to nine in a row of each block, so that the check notices
  them), the conversation is consistent: given the answers of the receiver the sender returns the length of
  the file and writes each block once more than it was damaged, and given what arrives of that the receiver
  gives these very answers and has written the file, padded to whole blocks.
\<close>
theorem xmodem_noisy_line:
  assumes "[] \<notin> set reader" "noise_ok use_crc bds"
    and "map fst bds = file_blocks 1 (mode_block_size mode) (concat reader)"
    and "request = [if use_crc then WANT_CRC else NAK]"
  shows "send_xmodem reader mode (io_with_input (request @ answers bds @ [ACK])) =
      (Inr (length (concat reader)),
       \<lparr>mio_input = [], mio_output = sent_bytes use_crc bds @ [EOT], mio_files = [[]]\<rparr>) \<and>
    receive_xmodem use_crc (io_with_input (arriving_bytes use_crc bds @ [EOT])) =
      (Inr (length (padded (mode_block_size mode) (concat reader))),
       \<lparr>mio_input = [], mio_output = request @ answers bds @ [ACK],
        mio_files = [padded (mode_block_size mode) (concat reader)]\<rparr>)"
proof (rule conjI)
  let ?data = "concat reader" and ?sz = "mode_block_size mode"
  have tail: "talks (io_bind finish_xymodem_send (\<lambda>_. io_return n)) [ACK] [EOT] same_files n" for n :: nat
    by (rule talks_bind [OF talks_finish talks_return]) simp_all
  have blocks: "talks (send_xymodem_blocks reader ?sz use_crc 1 0) (answers bds) (sent_bytes use_crc bds) same_files (length ?data)"
    using talks_send_blocks [OF assms(1,3,2), of 0] by simp
  have body: "talks (io_bind (send_xymodem_blocks reader ?sz use_crc 1 0)
      (\<lambda>n. io_bind finish_xymodem_send (\<lambda>_. io_return n)))
      (answers bds @ [ACK]) (sent_bytes use_crc bds @ [EOT]) same_files (length ?data)"
    by (rule talks_bind [OF blocks tail]) simp_all
  have "talks (send_xmodem reader mode) (request @ answers bds @ [ACK]) (sent_bytes use_crc bds @ [EOT]) same_files (length ?data)"
    unfolding send_xmodem_def assms(4) by (rule talks_bind [OF talks_start [of use_crc]], rule body) simp_all
  from talksD [OF this, of _ "[]"] show "send_xmodem reader mode (io_with_input (request @ answers bds @ [ACK])) =
      (Inr (length ?data), \<lparr>mio_input = [], mio_output = sent_bytes use_crc bds @ [EOT], mio_files = [[]]\<rparr>)"
    by (simp add: io_with_input_def same_files_def)
  let ?io = "\<lparr>mio_input = map Arrives (arriving_bytes use_crc bds @ [EOT]), mio_output = request, mio_files = [[]]\<rparr>"
  have kept: "kept None 0 (map fst bds) = padded ?sz ?data" by (simp add: kept_None assms(3) payloads_padded)
  have "numbered 1 (map fst bds)" by (simp add: assms(3) file_blocks_numbered)
  from receive_all [OF this assms(2), of ?io "[Arrives EOT]" None False 0]
  have "receive_xymodem_blocks use_crc None False 1 0 0 ?io =
      (Inr (length (padded ?sz ?data)),
       \<lparr>mio_input = [], mio_output = request @ answers bds @ [ACK], mio_files = [padded ?sz ?data]\<rparr>)"
    by (simp add: kept append_file_def)
       (subst receive_xymodem_blocks.simps, subst read_end, simp_all add: io_defs)
  then show "receive_xmodem use_crc (io_with_input (arriving_bytes use_crc bds @ [EOT])) =
      (Inr (length (padded ?sz ?data)),
       \<lparr>mio_input = [], mio_output = request @ answers bds @ [ACK], mio_files = [padded ?sz ?data]\<rparr>)"
    by (simp add: receive_xmodem_def io_bind_def write_all_def io_with_input_def assms(4))
qed

lemma xmodem_noisy_line_witness:
  "fst (receive_xmodem True (io_with_input (arriving_bytes True
     [(\<lparr>xb_number = 1, xb_size = Bytes128, xb_payload = pad_block Bytes128 [0x41]\<rparr>, [SOH # replicate 132 0])] @ [EOT])))
   = Inr 128"
proof -
  let ?b = "\<lparr>xb_number = 1, xb_size = Bytes128, xb_payload = pad_block Bytes128 [0x41]\<rparr>"
  have len: "length (encode_block True ?b) = 133"
    by (subst length_encode_block) (simp_all add: block_ok_def pad_block_def block_len_def)
  have "parse_block True (SOH # replicate 132 0) = Inl InvalidBlockNumber"
    by (simp add: parse_block_def parse_crc_def size_from_marker_def block_len_def nth_Cons' nth_replicate)
  then have noise: "noise_ok True [(?b, [SOH # replicate 132 0])]"
    by (simp add: noise_ok_def damaged_def len block_marker_def)
  have "map fst [(?b, [SOH # replicate 132 0])] = file_blocks 1 (mode_block_size Mode128) (concat [[0x41]])"
    by (simp add: mode_block_size_def file_blocks_step block_len_def)
  from xmodem_noisy_line [OF _ noise this refl] show ?thesis
    by (simp add: mode_block_size_def padded_def block_len_def)
qed

section \<open>Batches\<close>

type_synonym noisy_entry = "send_entry \<times> noisy_block list"

definition entry_header :: "send_entry \<Rightarrow> ymodem_header" where
  "entry_header e = \<lparr>yh_file_name = se_file_name e, yh_file_size = Some (se_file_size e)\<rparr>"

definition header_block :: "send_entry \<Rightarrow> xy_block" where
  "header_block e = \<lparr>xb_number = 0, xb_size = Bytes128,
     xb_payload = (case encode_block0_payload (entry_header e) of Inr p \<Rightarrow> p | Inl _ \<Rightarrow> [])\<rparr>"

definition end_block :: xy_block where
  "end_block = \<lparr>xb_number = 0, xb_size = Bytes128, xb_payload = replicate 128 0\<rparr>"

text \<open>A file of a batch: its name and size can be sent, its size is that of its content, and its noise is bounded.\<close>

definition entry_ok :: "noisy_entry \<Rightarrow> bool" where
  "entry_ok = (\<lambda>(e, bds).
     ymodem_header_new (se_file_name e) (Some (se_file_size e)) = Inr (entry_header e) \<and>
     is_ok (encode_block0_payload (entry_header e)) \<and> valid_utf8 (se_file_name e) \<and> 0 \<notin> set (se_file_name e) \<and>
     unat (se_file_size e) = length (concat (se_reader e)) \<and> [] \<notin> set (se_reader e) \<and>
     noise_ok True bds \<and> map fst bds = file_blocks 1 Bytes1024 (concat (se_reader e)))"

definition file_sent :: "noisy_entry \<Rightarrow> bytes" where
  "file_sent = (\<lambda>(e, bds). encode_crc (header_block e) @ sent_bytes True bds @ [EOT, EOT])"

definition file_arrives :: "noisy_entry \<Rightarrow> bytes" where
  "file_arrives = (\<lambda>(e, bds). encode_crc (header_block e) @ arriving_bytes True bds @ [EOT, EOT])"

definition file_answers :: "noisy_entry \<Rightarrow> bytes" where
  "file_answers = (\<lambda>(e, bds). [WANT_CRC, ACK, WANT_CRC] @ answers bds @ [NAK, ACK])"

lemma entry_payload:
  assumes "entry_ok (e, bds)"
  shows "encode_block0_payload (entry_header e) = Inr (xb_payload (header_block e))"
    and "length (xb_payload (header_block e)) = 128"
    and "parse_block0_payload (xb_payload (header_block e)) = Inr (Some (entry_header e))"
proof -
  show payload: "encode_block0_payload (entry_header e) = Inr (xb_payload (header_block e))"
    using assms by (auto simp: entry_ok_def header_block_def is_ok_def split: sum.splits)
  show "length (xb_payload (header_block e)) = 128"
    "parse_block0_payload (xb_payload (header_block e)) = Inr (Some (entry_header e))"
    using block0_roundtrip [OF _ payload, of "se_file_name e" "Some (se_file_size e)"] assms by (auto simp: entry_ok_def)
qed

lemma limit_reader_all: "[] \<notin> set r \<Longrightarrow> length (concat r) \<le> n \<Longrightarrow> limit_reader n r = r"
proof (induction n r rule: limit_reader.induct)
  case (2 n c cs)
  then have "0 < length c" by auto
  moreover have "length c + length (concat cs) \<le> n" using 2(3) by simp
  ultimately have "0 < n" by linarith
  then show ?case using 2 by auto
qed simp

lemma talks_expect: "talks (expect_byte_or_cancel b) [b] [] same_files ()"
  unfolding expect_byte_or_cancel_def by (intro talks_read_then) (simp add: talks_return)

lemma talks_header_block:
  assumes "length payload = 128"
  shows "talks (send_xymodem_block 0 Bytes128 payload True) [ACK]
    (encode_crc \<lparr>xb_number = 0, xb_size = Bytes128, xb_payload = payload\<rparr>) same_files ()"
proof -
  have "block_new 0 Bytes128 payload = Inr \<lparr>xb_number = 0, xb_size = Bytes128, xb_payload = payload\<rparr>"
    using assms by (simp add: block_new_def block_len_def)
  from talks_send_block [OF this, of "[]" True] show ?thesis by (simp add: encode_block_def)
qed

lemma talks_send_entries:
  assumes "list_all entry_ok eds"
  shows "talks (send_ymodem_entries (map fst eds) tot) (concat (map file_answers eds)) (concat (map file_sent eds))
    same_files (tot + sum_list (map (\<lambda>(e, _). length (concat (se_reader e))) eds))"
  using assms
proof (induction eds arbitrary: tot)
  case (Cons ed eds)
  obtain e bds where ed: "ed = (e, bds)" by (cases ed) auto
  have ok: "entry_ok (e, bds)" using Cons.prems ed by simp
  have e: "ymodem_header_new (se_file_name e) (Some (se_file_size e)) = Inr (entry_header e)"
    "unat (se_file_size e) = length (concat (se_reader e))" "[] \<notin> set (se_reader e)" "noise_ok True bds"
    "map fst bds = file_blocks 1 Bytes1024 (concat (se_reader e))"
    using ok by (auto simp: entry_ok_def)
  let ?n = "unat (se_file_size e)"
  have all: "limit_reader ?n (se_reader e) = se_reader e" using limit_reader_all [OF e(3)] e(2) by simp
  have tail: "talks (send_ymodem_entries (map fst eds) (tot + ?n)) (concat (map file_answers eds)) (concat (map file_sent eds))
      same_files (tot + ?n + sum_list (map (\<lambda>(e, _). length (concat (se_reader e))) eds))"
    using Cons by simp
  have blocks: "talks (send_xymodem_blocks (limit_reader ?n (se_reader e)) Bytes1024 True 1 0) (answers bds) (sent_bytes True bds) same_files ?n"
    using talks_send_blocks [OF e(3,5,4), of 0] all e(2) by simp
  have h: "header_block e = \<lparr>xb_number = 0, xb_size = Bytes128, xb_payload = xb_payload (header_block e)\<rparr>"
    by (simp add: header_block_def)
  note header = talks_header_block [OF entry_payload(2) [OF ok], folded h]
  have "talks (send_ymodem_entries (map fst (ed # eds)) tot)
      ([WANT_CRC] @ [] @ [] @ [ACK] @ [WANT_CRC] @ answers bds @ [NAK, ACK] @ concat (map file_answers eds))
      ([] @ [] @ [] @ encode_crc (header_block e) @ [] @ sent_bytes True bds @ [EOT, EOT] @ concat (map file_sent eds))
      same_files (tot + ?n + sum_list (map (\<lambda>(e, _). length (concat (se_reader e))) eds))"
    unfolding ed list.map fst_conv send_ymodem_entries.simps
  proof (rule talks_bind [OF talks_start [of True, unfolded if_True] _ refl refl refl, unfolded same_files_comp],
      rule talks_bind [OF talks_lift [OF e(1)] _ refl refl refl, unfolded same_files_comp],
      rule talks_bind [OF talks_lift [OF entry_payload(1) [OF ok]] _ refl refl refl, unfolded same_files_comp],
      rule talks_bind [OF header _ refl refl refl, unfolded same_files_comp],
      rule talks_bind [OF talks_expect _ refl refl refl, unfolded same_files_comp],
      rule talks_bind [OF blocks _ refl refl refl, unfolded same_files_comp])
    show "talks (if ?n \<noteq> ?n then io_fail UnexpectedFrame
        else io_bind finish_xymodem_send (\<lambda>_. send_ymodem_entries (map fst eds) (tot + ?n)))
        ([NAK, ACK] @ concat (map file_answers eds)) ([EOT, EOT] @ concat (map file_sent eds)) same_files
        (tot + ?n + sum_list (map (\<lambda>(e, _). length (concat (se_reader e))) eds))"
      using talks_bind [OF talks_finish_ymodem tail refl refl refl] by simp
  qed
  moreover have "[WANT_CRC] @ [] @ [] @ [ACK] @ [WANT_CRC] @ answers bds @ [NAK, ACK] @ concat (map file_answers eds) =
      concat (map file_answers (ed # eds))" by (simp add: ed file_answers_def)
  moreover have "[] @ [] @ [] @ encode_crc (header_block e) @ [] @ sent_bytes True bds @ [EOT, EOT] @ concat (map file_sent eds) =
      concat (map file_sent (ed # eds))" by (simp add: ed file_sent_def)
  moreover have "tot + ?n + sum_list (map (\<lambda>(e, _). length (concat (se_reader e))) eds) =
      tot + sum_list (map (\<lambda>(e, _). length (concat (se_reader e))) (ed # eds))" by (simp add: ed e(2))
  ultimately show ?case by (simp only:)
qed (simp add: talks_return)

text \<open>The receiver of one file of a batch.\<close>

lemma receive_end:
  assumes "mio_input io = map Arrives [EOT, EOT] @ rest"
  shows "receive_xymodem_blocks True es True n tot retries io =
    (Inr tot, io\<lparr>mio_input := rest, mio_output := mio_output io @ [NAK, ACK]\<rparr>)"
proof -
  have "talks (io_bind (write_all [NAK]) (\<lambda>_. expect_byte_or_cancel EOT)) [EOT] ([NAK] @ []) same_files ()"
    by (rule talks_write_then) (rule talks_expect)
  moreover have "talks (io_bind (write_all [ACK]) (\<lambda>_. io_return tot)) [] ([ACK] @ []) same_files tot"
    by (rule talks_write_then) (rule talks_return)
  ultimately have "talks (io_bind (io_bind (write_all [NAK]) (\<lambda>_. expect_byte_or_cancel EOT))
      (\<lambda>_. io_bind (write_all [ACK]) (\<lambda>_. io_return tot))) [EOT] [NAK, ACK] same_files tot"
    by (rule talks_bind) simp_all
  from talksD [OF this, of "io\<lparr>mio_input := map Arrives [EOT] @ rest\<rparr>" rest]
  show ?thesis using assms
    by (subst receive_xymodem_blocks.simps) (simp add: read_end [of io "Arrives EOT # rest"] same_files_def)
qed

lemma read_header_block:
  assumes "block_ok b" "mio_input io = map Arrives (encode_crc b) @ rest"
  shows "read_xymodem_block True io = (Inr b, io\<lparr>mio_input := rest\<rparr>)"
proof -
  obtain body where enc: "encode_crc b = block_marker (xb_size b) # body"
    and len: "length body = 2 + block_len (xb_size b) + (if True then 2 else 1)"
    using assms(1) by (auto simp: encode_crc_def block_ok_def)
  have one: "read_byte io = (Inr (block_marker (xb_size b)), io\<lparr>mio_input := map Arrives body @ rest\<rparr>)"
    using assms(2) by (simp add: read_byte_def enc)
  have "read_bytes (length body) (io\<lparr>mio_input := map Arrives body @ rest\<rparr>) = (Inr body, io\<lparr>mio_input := rest\<rparr>)"
    by (subst talksD [OF talks_read_bytes]) (simp_all add: same_files_def)
  then have "read_block_body (block_marker (xb_size b)) (xb_size b) True (io\<lparr>mio_input := map Arrives body @ rest\<rparr>) =
      io_lift (parse_crc (encode_crc b)) (io\<lparr>mio_input := rest\<rparr>)"
    unfolding read_block_body_def len [symmetric] io_bind_def by (simp add: enc)
  moreover have "parse_crc (encode_crc b) = Inr b" using assms(1) by (simp add: parse_crc_iff)
  ultimately show ?thesis by (simp add: read_xymodem_block_def io_bind_def one io_lift_def)
qed

lemma header_block_ok: "entry_ok (e, bds) \<Longrightarrow> block_ok (header_block e)"
  using entry_payload(2) by (simp add: block_ok_def header_block_def block_len_def)

lemma receive_entry:
  assumes "entry_ok (e, bds)" "open_writer (entry_header e) = Inr ()"
    and "mio_input io = map Arrives (file_arrives (e, bds)) @ rest"
  shows "receive_ymodem_loop open_writer received io =
    receive_ymodem_loop open_writer (received @ [entry_header e])
      (io\<lparr>mio_input := rest, mio_output := mio_output io @ file_answers (e, bds),
          mio_files := mio_files io @ [concat (se_reader e)]\<rparr>)"
proof -
  let ?h = "entry_header e" and ?data = "concat (se_reader e)" and ?sz = "se_file_size e"
  let ?after = "map Arrives (arriving_bytes True bds @ [EOT, EOT]) @ rest"
  have e: "unat ?sz = length ?data" "noise_ok True bds" "map fst bds = file_blocks 1 Bytes1024 ?data"
    using assms(1) by (auto simp: entry_ok_def)
  have head: "read_xymodem_block True (snd (write_all [WANT_CRC] io)) =
      (Inr (header_block e), io\<lparr>mio_input := ?after, mio_output := mio_output io @ [WANT_CRC]\<rparr>)"
    using read_header_block [OF header_block_ok [OF assms(1)], of "snd (write_all [WANT_CRC] io)" ?after] assms(3)
    by (simp add: file_arrives_def write_all_def)
  let ?io1 = "io\<lparr>mio_input := ?after, mio_output := mio_output io @ [WANT_CRC, ACK, WANT_CRC], mio_files := mio_files io @ [[]]\<rparr>"
  have kept: "kept (Some ?sz) 0 (map fst bds) = ?data" using e by (simp add: kept_exact)
  have "numbered 1 (map fst bds)" by (simp add: e(3) file_blocks_numbered)
  from receive_all [OF this e(2), of ?io1 "map Arrives [EOT, EOT] @ rest" "Some ?sz" True 0]
  have body: "receive_xymodem_blocks True (Some ?sz) True 1 0 0 ?io1 =
      (Inr (length ?data), io\<lparr>mio_input := rest, mio_output := mio_output io @ file_answers (e, bds),
          mio_files := mio_files io @ [?data]\<rparr>)"
    by (simp add: kept append_file_def file_answers_def receive_end)
  have "receive_ymodem_file open_writer (header_block e) (io\<lparr>mio_input := ?after, mio_output := mio_output io @ [WANT_CRC]\<rparr>) =
      (Inr (Some ?h), io\<lparr>mio_input := rest, mio_output := mio_output io @ file_answers (e, bds),
          mio_files := mio_files io @ [?data]\<rparr>)"
    using entry_payload(3) [OF assms(1)] body assms(2) e(1)
    by (simp add: receive_ymodem_file_def io_bind_def write_all_def io_lift_def open_file_def entry_header_def io_return_def)
  then show ?thesis using head by (subst receive_ymodem_loop.simps) (simp add: header_block_def)
qed

lemma end_block_ok: "block_ok end_block" "parse_block0_payload (xb_payload end_block) = Inr None"
  by (simp_all add: block_ok_def end_block_def block_len_def parse_block0_payload_def Let_def)

lemma receive_batch:
  assumes "list_all entry_ok eds" "\<And>h. open_writer h = Inr ()"
    and "mio_input io = map Arrives (concat (map file_arrives eds) @ encode_crc end_block)"
  shows "receive_ymodem_loop open_writer received io =
    (Inr (received @ map (entry_header \<circ> fst) eds),
     io\<lparr>mio_input := [], mio_output := mio_output io @ concat (map file_answers eds) @ [WANT_CRC, ACK],
        mio_files := mio_files io @ map (concat \<circ> se_reader \<circ> fst) eds\<rparr>)"
  using assms
proof (induction eds arbitrary: received io)
  case Nil
  have "read_xymodem_block True (snd (write_all [WANT_CRC] io)) =
      (Inr end_block, io\<lparr>mio_input := [], mio_output := mio_output io @ [WANT_CRC]\<rparr>)"
    using read_header_block [OF end_block_ok(1), of "snd (write_all [WANT_CRC] io)" "[]"] Nil.prems(3)
    by (simp add: write_all_def)
  moreover have "xb_number end_block = 0" by (simp add: end_block_def)
  ultimately show ?case
    by (subst receive_ymodem_loop.simps)
       (simp add: receive_ymodem_file_def io_bind_def write_all_def io_lift_def io_return_def end_block_ok(2))
next
  case (Cons ed eds)
  obtain e bds where ed: "ed = (e, bds)" by (cases ed) auto
  have ok: "entry_ok (e, bds)" using Cons.prems(1) ed by simp
  have "mio_input io = map Arrives (file_arrives (e, bds)) @
      map Arrives (concat (map file_arrives eds) @ encode_crc end_block)" using Cons.prems(3) ed by simp
  note one = receive_entry [OF ok Cons.prems(2) this]
  show ?case unfolding one using Cons.prems by (subst Cons.IH) (simp_all add: ed)
qed

text \<open>
  Property C14: a YMODEM batch arrives complete and unchanged. For every list of files whose headers can be
  sent, in whatever pieces the local files are read and whichever copies of the data blocks are damaged on
  the way, the sender given the answers of the receiver returns the number of bytes of all files, the
  receiver given what arrives of the bytes of the sender gives these answers, returns the headers in order and has
  written every file exactly, its padding removed, and neither side is left with a byte to read.
\<close>
theorem ymodem_batch_delivered:
  assumes "list_all entry_ok eds" "\<And>h. open_writer h = Inr ()"
  shows "send_ymodem_stream (map fst eds) (io_with_input (concat (map file_answers eds) @ [WANT_CRC, ACK])) =
      (Inr (sum_list (map (\<lambda>(e, _). length (concat (se_reader e))) eds)),
       \<lparr>mio_input = [], mio_output = concat (map file_sent eds) @ encode_crc end_block, mio_files = [[]]\<rparr>) \<and>
    receive_ymodem open_writer
        \<lparr>mio_input = map Arrives (concat (map file_arrives eds) @ encode_crc end_block), mio_output = [], mio_files = []\<rparr> =
      (Inr (map (entry_header \<circ> fst) eds),
       \<lparr>mio_input = [], mio_output = concat (map file_answers eds) @ [WANT_CRC, ACK],
        mio_files = map (concat \<circ> se_reader \<circ> fst) eds\<rparr>)"
proof (rule conjI)
  let ?n = "sum_list (map (\<lambda>(e, _). length (concat (se_reader e))) eds)"
  have last: "talks (io_bind (send_xymodem_block 0 Bytes128 (replicate 128 0) True) (\<lambda>_. io_return n)) [ACK]
      (encode_crc end_block) same_files n" for n :: nat
    by (rule talks_bind [OF talks_header_block talks_return]) (simp_all add: end_block_def)
  have "talks (io_bind wait_for_xymodem_start (\<lambda>_. io_bind (send_xymodem_block 0 Bytes128 (replicate 128 0) True)
      (\<lambda>_. io_return n))) [WANT_CRC, ACK] (encode_crc end_block) same_files n" for n :: nat
    by (rule talks_bind [OF talks_start [of True, unfolded if_True]], rule last) simp_all
  then have "talks (send_ymodem_stream (map fst eds)) (concat (map file_answers eds) @ [WANT_CRC, ACK])
      (concat (map file_sent eds) @ encode_crc end_block) same_files (0 + ?n)"
    unfolding send_ymodem_stream_def by (rule talks_bind [OF talks_send_entries [OF assms(1)]]) simp_all
  from talksD [OF this, of _ "[]"]
  show "send_ymodem_stream (map fst eds) (io_with_input (concat (map file_answers eds) @ [WANT_CRC, ACK])) =
      (Inr ?n, \<lparr>mio_input = [], mio_output = concat (map file_sent eds) @ encode_crc end_block, mio_files = [[]]\<rparr>)"
    by (simp add: io_with_input_def same_files_def)
qed (simp add: receive_ymodem_def receive_batch [OF assms])

lemma ymodem_batch_delivered_witness:
  "mio_files (snd (receive_ymodem (\<lambda>_. Inr ())
     \<lparr>mio_input = map Arrives (file_arrives
        (\<lparr>se_file_name = ascii ''a'', se_file_size = 1, se_reader = [[0x41]]\<rparr>,
         [(\<lparr>xb_number = 1, xb_size = Bytes1024, xb_payload = pad_block Bytes1024 [0x41]\<rparr>, [])]) @ encode_crc end_block),
      mio_output = [], mio_files = []\<rparr>)) = [[0x41]]"
proof -
  let ?e = "\<lparr>se_file_name = ascii ''a'', se_file_size = 1, se_reader = [[0x41]]\<rparr>"
  let ?b = "\<lparr>xb_number = 1, xb_size = Bytes1024, xb_payload = pad_block Bytes1024 [0x41]\<rparr>"
  have "file_blocks 1 Bytes1024 [0x41] = [?b]" by (simp add: file_blocks_step block_len_def)
  moreover have "ymodem_header_new (ascii ''a'') (Some 1) = Inr (entry_header ?e)" by code_simp
  moreover have "valid_utf8 (ascii ''a'')" "0 \<notin> set (ascii ''a'')" "show_decimal 1 = [49]" by code_simp+
  ultimately have "list_all entry_ok [(?e, [(?b, [])])]"
    by (simp add: entry_ok_def noise_ok_def encode_block0_payload_def entry_header_def Let_def ascii_def)
  from ymodem_batch_delivered [OF this, of "\<lambda>_. Inr ()"] show ?thesis by simp
qed

end
