(* ===== verification/Modem_Zmodem.thy ===== *)
theory Modem_Zmodem
  imports Modem_Xymodem
begin

text \<open>
  The frames of ZMODEM (\<open>crates/oxideterm-modem-transfer/src/zmodem.rs\<close>) and the reading and writing of frames
  on the line (the lower half of \<open>zmodem_transfer.rs\<close>).
\<close>

section \<open>Frame types and headers\<close>

definition ZPAD :: byte where "ZPAD = of_char CHR ''*''"
definition ZDLE :: byte where "ZDLE = 0x18"
definition ZBIN :: byte where "ZBIN = of_char CHR ''A''"
definition ZHEX :: byte where "ZHEX = of_char CHR ''B''"
definition ZBIN32 :: byte where "ZBIN32 = of_char CHR ''C''"
definition XON :: byte where "XON = 0x11"
definition ZCRCE :: byte where "ZCRCE = of_char CHR ''h''"
definition ZCRCG :: byte where "ZCRCG = of_char CHR ''i''"
definition ZCRCQ :: byte where "ZCRCQ = of_char CHR ''j''"
definition ZCRCW :: byte where "ZCRCW = of_char CHR ''k''"
definition ZRUB0 :: byte where "ZRUB0 = of_char CHR ''l''"
definition ZRUB1 :: byte where "ZRUB1 = of_char CHR ''m''"

datatype zframe_type =
    ZrqInit | ZrInit | ZsInit | ZAck | ZFile | ZSkip | ZNak | ZAbort | ZFin | ZRpos
  | ZData | ZEof | ZFerr | ZCrc | ZChallenge | ZCompl | ZCan | ZFreeCnt | ZCommand | ZStderr

fun zframe_byte :: "zframe_type \<Rightarrow> byte" where
  "zframe_byte ZrqInit = 0"
| "zframe_byte ZrInit = 1"
| "zframe_byte ZsInit = 2"
| "zframe_byte ZAck = 3"
| "zframe_byte ZFile = 4"
| "zframe_byte ZSkip = 5"
| "zframe_byte ZNak = 6"
| "zframe_byte ZAbort = 7"
| "zframe_byte ZFin = 8"
| "zframe_byte ZRpos = 9"
| "zframe_byte ZData = 10"
| "zframe_byte ZEof = 11"
| "zframe_byte ZFerr = 12"
| "zframe_byte ZCrc = 13"
| "zframe_byte ZChallenge = 14"
| "zframe_byte ZCompl = 15"
| "zframe_byte ZCan = 16"
| "zframe_byte ZFreeCnt = 17"
| "zframe_byte ZCommand = 18"
| "zframe_byte ZStderr = 19"

definition zframe_from_byte :: "byte \<Rightarrow> zframe_type option" where
  "zframe_from_byte b =
     find (\<lambda>t. zframe_byte t = b)
       [ZrqInit, ZrInit, ZsInit, ZAck, ZFile, ZSkip, ZNak, ZAbort, ZFin, ZRpos, ZData, ZEof, ZFerr, ZCrc,
        ZChallenge, ZCompl, ZCan, ZFreeCnt, ZCommand, ZStderr]"

datatype zheader_encoding = Bin16 | Bin32 | Hex

record zheader =
  zh_frame_type :: zframe_type
  zh_position :: bytes
  zh_encoding :: zheader_encoding

definition le_bytes :: "nat \<Rightarrow> 'a::len word \<Rightarrow> bytes" where
  "le_bytes n w = rev (be_bytes n w)"

definition of_le_bytes :: "bytes \<Rightarrow> 'a::len word" where
  "of_le_bytes bs = of_be_bytes (rev bs)"

definition position_u32 :: "zheader \<Rightarrow> u32" where
  "position_u32 h = of_le_bytes (zh_position h)"

definition position_header :: "u32 \<Rightarrow> bytes" where
  "position_header position = le_bytes 4 position"

datatype zdata_end = DataEnd | DataContinue | DataContinueWithAck | DataEndWithAck

definition end_marker :: "zdata_end \<Rightarrow> byte" where
  "end_marker e =
     (case e of DataEnd \<Rightarrow> ZCRCE | DataContinue \<Rightarrow> ZCRCG | DataContinueWithAck \<Rightarrow> ZCRCQ | DataEndWithAck \<Rightarrow> ZCRCW)"

definition end_from_marker :: "byte \<Rightarrow> zdata_end option" where
  "end_from_marker m =
     (if m = ZCRCE then Some DataEnd else if m = ZCRCG then Some DataContinue
      else if m = ZCRCQ then Some DataContinueWithAck else if m = ZCRCW then Some DataEndWithAck else None)"

section \<open>Hexadecimal headers\<close>

definition hex_char :: "byte \<Rightarrow> byte" where
  "hex_char n = (if n < 10 then 48 + n else 87 + n)"

definition hex_byte :: "byte \<Rightarrow> bytes" where
  "hex_byte b = [hex_char (drop_bit 4 b), hex_char (b AND 0x0F)]"

definition hex_value :: "byte \<Rightarrow> modem_error + byte" where
  "hex_value b =
     (if 48 \<le> b \<and> b \<le> 57 then Inr (b - 48)
      else if 97 \<le> b \<and> b \<le> 102 then Inr (b - 97 + 10)
      else if 65 \<le> b \<and> b \<le> 70 then Inr (b - 65 + 10)
      else Inl InvalidFrameEncoding)"

definition read_hex_byte :: "bytes \<Rightarrow> modem_error + byte" where
  "read_hex_byte bs =
     (if length bs \<noteq> 2 then Inl Incomplete
      else
        rbind (hex_value (bs ! 0)) (\<lambda>high.
        rbind (hex_value (bs ! 1)) (\<lambda>low. Inr (push_bit 4 high OR low))))"

definition encode_hex_header :: "zframe_type \<Rightarrow> bytes \<Rightarrow> bool \<Rightarrow> bytes" where
  "encode_hex_header frame_type position include_xon =
     (let payload = zframe_byte frame_type # position; crc = crc16_xmodem payload in
      [ZPAD, ZPAD, ZDLE, ZHEX] @ concat (map hex_byte payload) @
      hex_byte (ucast (drop_bit 8 crc)) @ hex_byte (ucast crc) @ [0x0D, 0x8A] @
      (if include_xon then [XON] else []))"

fun read_hex_bytes :: "nat \<Rightarrow> bytes \<Rightarrow> modem_error + bytes" where
  "read_hex_bytes 0 bs = Inr []"
| "read_hex_bytes (Suc n) bs =
     rbind (read_hex_byte (take 2 bs)) (\<lambda>b. rbind (read_hex_bytes n (drop 2 bs)) (\<lambda>rest. Inr (b # rest)))"

definition parse_hex_header :: "bytes \<Rightarrow> modem_error + zheader" where
  "parse_hex_header bs =
     (if length bs < 18 then Inl Incomplete
      else if take 4 bs \<noteq> [ZPAD, ZPAD, ZDLE, ZHEX] then Inl InvalidMarker
      else
        rbind (read_hex_bytes 7 (drop 4 bs)) (\<lambda>decoded.
          if crc16_xmodem (take 5 decoded) \<noteq> of_be_bytes (drop 5 decoded) then Inl InvalidCrc
          else
            rbind (ok_or InvalidFrameType (zframe_from_byte (decoded ! 0))) (\<lambda>t.
              Inr \<lparr>zh_frame_type = t, zh_position = take 4 (drop 1 decoded), zh_encoding = Hex\<rparr>)))"

section \<open>Escaping and binary headers\<close>

definition should_escape_zdle :: "byte \<Rightarrow> bool" where
  "should_escape_zdle b \<longleftrightarrow> b \<in> {ZDLE, 0x10, 0x11, 0x13, 0x90, 0x91, 0x93}"

definition zdle_escaped :: "bool \<Rightarrow> byte \<Rightarrow> bytes" where
  "zdle_escaped escape_control b =
     (if should_escape_zdle b \<or> escape_control \<and> b AND 0x60 = 0 then [ZDLE, b XOR 0x40] else [b])"

definition zdle_escape :: "bool \<Rightarrow> bytes \<Rightarrow> bytes" where
  "zdle_escape escape_control bs = concat (map (zdle_escaped escape_control) bs)"

definition encode_bin16_header :: "zframe_type \<Rightarrow> bytes \<Rightarrow> bool \<Rightarrow> bytes" where
  "encode_bin16_header frame_type position escape_control =
     (let payload = zframe_byte frame_type # position;
          crc = crc16_xmodem_update (crc16_xmodem_update (crc16_xmodem payload) 0) 0 in
      [ZPAD, ZDLE, ZBIN] @ zdle_escape escape_control payload @
      zdle_escaped escape_control (ucast (drop_bit 8 crc)) @ zdle_escaped escape_control (ucast crc))"

definition encode_bin32_header :: "zframe_type \<Rightarrow> bytes \<Rightarrow> bool \<Rightarrow> bytes" where
  "encode_bin32_header frame_type position escape_control =
     (let payload = zframe_byte frame_type # position in
      [ZPAD, ZDLE, ZBIN32] @ zdle_escape escape_control payload @
      zdle_escape escape_control (le_bytes 4 (crc32_ieee payload)))"

definition decode_escaped :: "byte \<Rightarrow> modem_error + byte" where
  "decode_escaped escaped =
     (if escaped = ZRUB0 then Inr 0x7F else if escaped = ZRUB1 then Inr 0xFF
      else if escaped AND 0x60 = 0x40 then Inr (escaped XOR 0x40) else Inl InvalidEscape)"

fun decode_zdle_payload :: "bytes \<Rightarrow> nat \<Rightarrow> modem_error + bytes" where
  "decode_zdle_payload bs 0 = Inr []"
| "decode_zdle_payload [] (Suc n) = Inl Incomplete"
| "decode_zdle_payload (b # bs) (Suc n) =
     (if b = ZDLE then
        (case bs of
           [] \<Rightarrow> Inl Incomplete
         | escaped # bs' \<Rightarrow>
             rbind (decode_escaped escaped) (\<lambda>d. rbind (decode_zdle_payload bs' n) (\<lambda>rest. Inr (d # rest))))
      else rbind (decode_zdle_payload bs n) (\<lambda>rest. Inr (b # rest)))"

definition parse_binary_header :: "bytes \<Rightarrow> modem_error + zheader" where
  "parse_binary_header bs =
     (if length bs < 3 then Inl Incomplete
      else if bs ! 0 \<noteq> ZPAD \<or> bs ! 1 \<noteq> ZDLE then Inl InvalidMarker
      else if bs ! 2 \<noteq> ZBIN \<and> bs ! 2 \<noteq> ZBIN32 then Inl InvalidFrameEncoding
      else
        (let wide = (bs ! 2 = ZBIN32) in
         rbind (decode_zdle_payload (drop 3 bs) (5 + (if wide then 4 else 2))) (\<lambda>decoded.
         rbind (ok_or InvalidFrameType (zframe_from_byte (decoded ! 0))) (\<lambda>t.
           let payload = take 5 decoded;
               valid = (if wide then crc32_ieee payload = of_le_bytes (drop 5 decoded)
                        else crc16_xmodem_update (crc16_xmodem_update (crc16_xmodem payload) 0) 0 =
                          of_be_bytes (drop 5 decoded)) in
           if \<not> valid then Inl InvalidCrc
           else Inr \<lparr>zh_frame_type = t, zh_position = take 4 (drop 1 decoded),
                     zh_encoding = (if wide then Bin32 else Bin16)\<rparr>))))"

lemma zframe_round [simp]: "zframe_from_byte (zframe_byte t) = Some t"
  by (cases t) (simp_all add: zframe_from_byte_def)

lemma end_round [simp]: "end_from_marker (end_marker e) = Some e"
  by (cases e) (simp_all add: end_from_marker_def end_marker_def ZCRCE_def ZCRCG_def ZCRCQ_def ZCRCW_def)

section \<open>Frames on the line\<close>

definition flow_control :: "byte \<Rightarrow> bool" where
  "flow_control b \<longleftrightarrow> b \<in> {XON, 0x13, 0x91, 0x93}"

primrec expect_zdles :: "nat \<Rightarrow> byte io" where
  "expect_zdles 0 = io_fail Cancelled"
| "expect_zdles (Suc n) =
     io_bind read_byte (\<lambda>b. if b \<noteq> ZDLE then io_fail (ProtocolError InvalidEscape) else expect_zdles n)"

definition decode_zescaped_followup :: "byte \<Rightarrow> byte io" where
  "decode_zescaped_followup escaped =
     (if escaped = ZRUB0 then io_return 0x7F else if escaped = ZRUB1 then io_return 0xFF
      else if escaped AND 0x60 = 0x40 then io_return (escaped XOR 0x40)
      else if escaped = ZDLE then expect_zdles 3
      else io_fail (ProtocolError InvalidEscape))"

lemma shrinks_followup [shrinking]: "shrinks (decode_zescaped_followup b)"
proof -
  have "shrinks (expect_zdles n)" for n by (induction n) (auto intro: shrinking)
  then show ?thesis unfolding decode_zescaped_followup_def by (intro shrinking)
qed

lemma read_byte_shorter: "read_byte io = (Inr b, io') \<Longrightarrow> length (mio_input io') < length (mio_input io)"
  by (auto simp: read_byte_Inr)

lemma followup_keeps: "decode_zescaped_followup b io = (r, io') \<Longrightarrow> length (mio_input io') \<le> length (mio_input io)"
  using shrinks_followup [of b] by (auto simp: shrinks_def dest: spec [of _ io])

function read_zescaped_byte :: "modem_io \<Rightarrow> (transfer_error + byte) \<times> modem_io" where
  "read_zescaped_byte io =
     (case read_byte io of
        (Inl e, io') \<Rightarrow> (Inl e, io')
      | (Inr b, io') \<Rightarrow>
          (if flow_control b then read_zescaped_byte io'
           else if b = ZDLE then io_bind read_byte decode_zescaped_followup io'
           else (Inr b, io')))"
  by auto
termination by (relation "measure (\<lambda>io. length (mio_input io))") (auto dest!: read_byte_shorter [OF sym])

primrec read_zescaped :: "nat \<Rightarrow> bytes io" where
  "read_zescaped 0 = io_return []"
| "read_zescaped (Suc n) =
     io_bind read_zescaped_byte (\<lambda>b. io_bind (read_zescaped n) (\<lambda>bs. io_return (b # bs)))"

definition read_hex_nibble :: "byte io" where
  "read_hex_nibble =
     io_bind read_byte (\<lambda>b. case hex_value b of Inr v \<Rightarrow> io_return v | Inl _ \<Rightarrow> io_fail (UnexpectedByte b))"

primrec read_hex_pairs :: "nat \<Rightarrow> bytes io" where
  "read_hex_pairs 0 = io_return []"
| "read_hex_pairs (Suc n) =
     io_bind read_hex_nibble (\<lambda>high. io_bind read_hex_nibble (\<lambda>low.
     io_bind (read_hex_pairs n) (\<lambda>bs. io_return ((push_bit 4 high OR low) # bs))))"

definition consume_hex_header_line_end :: "unit io" where
  "consume_hex_header_line_end =
     io_bind read_byte (\<lambda>cr.
       if cr \<noteq> 0x0D then io_fail (UnexpectedByte cr)
       else io_bind read_byte (\<lambda>lf. if lf AND 0x7F \<noteq> 0x0A then io_fail (UnexpectedByte lf) else io_return ()))"

definition read_hex_zheader :: "zheader io" where
  "read_hex_zheader =
     io_bind (read_hex_pairs 7) (\<lambda>decoded.
       if crc16_xmodem (take 5 decoded) \<noteq> of_be_bytes (drop 5 decoded) then io_fail (ProtocolError InvalidCrc)
       else
         io_bind consume_hex_header_line_end (\<lambda>_.
         io_bind (io_lift (ok_or InvalidFrameType (zframe_from_byte (decoded ! 0)))) (\<lambda>t.
           io_return \<lparr>zh_frame_type = t, zh_position = take 4 (drop 1 decoded), zh_encoding = Hex\<rparr>)))"

definition read_binary_zheader :: "bool \<Rightarrow> zheader io" where
  "read_binary_zheader wide =
     io_bind (read_zescaped (5 + (if wide then 4 else 2))) (\<lambda>decoded.
       if (if wide then crc32_ieee (take 5 decoded) \<noteq> of_le_bytes (drop 5 decoded)
           else crc16_xmodem (take 7 decoded) \<noteq> 0)
       then io_fail (ProtocolError InvalidCrc)
       else
         io_bind (io_lift (ok_or InvalidFrameType (zframe_from_byte (decoded ! 0)))) (\<lambda>t.
           io_return \<lparr>zh_frame_type = t, zh_position = take 4 (drop 1 decoded),
                      zh_encoding = (if wide then Bin32 else Bin16)\<rparr>))"

definition read_zheader_body :: "zheader io" where
  "read_zheader_body =
     io_bind read_byte (\<lambda>encoding.
       if encoding = ZHEX then read_hex_zheader
       else if encoding = ZBIN then read_binary_zheader False
       else if encoding = ZBIN32 then read_binary_zheader True
       else io_fail (UnexpectedByte encoding))"

function read_zmodem_header :: "modem_io \<Rightarrow> (transfer_error + zheader) \<times> modem_io" where
  "read_zmodem_header io =
     (case read_byte io of
        (Inl e, io1) \<Rightarrow> (Inl e, io1)
      | (Inr b, io1) \<Rightarrow>
          (if b \<noteq> ZPAD then read_zmodem_header io1
           else
             (case read_byte io1 of
                (Inl e, io2) \<Rightarrow> (Inl e, io2)
              | (Inr b', io2) \<Rightarrow>
                  (if b' = ZPAD then
                     (case read_byte io2 of
                        (Inl e, io3) \<Rightarrow> (Inl e, io3)
                      | (Inr b'', io3) \<Rightarrow>
                          (if b'' \<noteq> ZDLE then read_zmodem_header io3 else read_zheader_body io3))
                   else if b' = ZDLE then read_zheader_body io2
                   else read_zmodem_header io2))))"
  by auto
termination by (relation "measure (\<lambda>io. length (mio_input io))") (auto dest!: read_byte_shorter [OF sym])

declare read_zescaped_byte.simps [simp del] read_zmodem_header.simps [simp del]

record zdata_frame =
  zd_payload :: bytes
  zd_end :: zdata_end

function collect_zdata :: "nat \<Rightarrow> bytes \<Rightarrow> modem_io \<Rightarrow> (transfer_error + bytes \<times> zdata_end) \<times> modem_io" where
  "collect_zdata max_payload payload io =
     (case read_byte io of
        (Inl e, io1) \<Rightarrow> (Inl e, io1)
      | (Inr b, io1) \<Rightarrow>
          (if flow_control b then collect_zdata max_payload payload io1
           else if b \<noteq> ZDLE then
             (if max_payload \<le> length payload then (Inl (ProtocolError InvalidLength), io1)
              else collect_zdata max_payload (payload @ [b]) io1)
           else
             (case read_byte io1 of
                (Inl e, io2) \<Rightarrow> (Inl e, io2)
              | (Inr escaped, io2) \<Rightarrow>
                  (case end_from_marker escaped of
                     Some e \<Rightarrow> (Inr (payload, e), io2)
                   | None \<Rightarrow>
                       (if max_payload \<le> length payload then (Inl (ProtocolError InvalidLength), io2)
                        else
                          (case decode_zescaped_followup escaped io2 of
                             (Inl e, io3) \<Rightarrow> (Inl e, io3)
                           | (Inr d, io3) \<Rightarrow> collect_zdata max_payload (payload @ [d]) io3))))))"
  by auto
termination by (relation "measure (\<lambda>(_, _, io). length (mio_input io))") (auto dest!: followup_keeps [OF sym] read_byte_shorter [OF sym])

definition read_zmodem_data :: "bool \<Rightarrow> nat \<Rightarrow> zdata_frame io" where
  "read_zmodem_data use_crc32 max_payload =
     io_bind (collect_zdata max_payload []) (\<lambda>(payload, e).
       if use_crc32 then
         io_bind (read_zescaped 4) (\<lambda>crc_bytes.
           if crc32_ieee (payload @ [end_marker e]) \<noteq> of_le_bytes crc_bytes then io_fail (ProtocolError InvalidCrc)
           else io_return \<lparr>zd_payload = payload, zd_end = e\<rparr>)
       else
         io_bind (read_zescaped 2) (\<lambda>crc_bytes.
           if crc16_xmodem (payload @ [end_marker e] @ crc_bytes) \<noteq> 0 then io_fail (ProtocolError InvalidCrc)
           else io_return \<lparr>zd_payload = payload, zd_end = e\<rparr>))"

definition write_zheader :: "zframe_type \<Rightarrow> bytes \<Rightarrow> unit io" where
  "write_zheader frame_type position =
     write_all (encode_hex_header frame_type position (frame_type \<noteq> ZFin \<and> frame_type \<noteq> ZAck))"

definition write_zbinary_header :: "zframe_type \<Rightarrow> bytes \<Rightarrow> bool \<Rightarrow> bool \<Rightarrow> unit io" where
  "write_zbinary_header frame_type position use_crc32 escape_control =
     write_all (if use_crc32 then encode_bin32_header frame_type position escape_control
                else encode_bin16_header frame_type position escape_control)"

definition encode_zdata :: "bytes \<Rightarrow> zdata_end \<Rightarrow> bool \<Rightarrow> bool \<Rightarrow> bytes" where
  "encode_zdata payload e use_crc32 escape_control =
     (let guarded = payload @ [end_marker e] in
      zdle_escape escape_control payload @ [ZDLE, end_marker e] @
      zdle_escape escape_control
        (if use_crc32 then le_bytes 4 (crc32_ieee guarded) else be_bytes 2 (crc16_xmodem guarded)) @
      (if e = DataEndWithAck then [XON] else []))"

definition write_zdata :: "bytes \<Rightarrow> zdata_end \<Rightarrow> bool \<Rightarrow> bool \<Rightarrow> unit io" where
  "write_zdata payload e use_crc32 escape_control = write_all (encode_zdata payload e use_crc32 escape_control)"

section \<open>What the reading of a frame consumes\<close>

lemma shrinksI: "(\<And>io r io'. m io = (r, io') \<Longrightarrow> length (mio_input io') \<le> length (mio_input io)) \<Longrightarrow> shrinks m"
  by (simp add: shrinks_def) (metis prod.collapse)

lemma read_byte_keeps: "read_byte io = (r, io') \<Longrightarrow> length (mio_input io') \<le> length (mio_input io)"
  by (auto simp: read_byte_def split: list.splits io_event.splits)

lemma shrinks_zescaped [shrinking]: "shrinks read_zescaped_byte"
proof (rule shrinksI)
  show "read_zescaped_byte io = (r, io') \<Longrightarrow> length (mio_input io') \<le> length (mio_input io)" for io r io'
  proof (induction io rule: read_zescaped_byte.induct)
    case (1 io)
    obtain q io1 where one: "read_byte io = (q, io1)" by fastforce
    note first = read_byte_keeps [OF one]
    show ?case
    proof (cases q)
      case (Inl e)
      then show ?thesis using "1.prems" one first by (subst (asm) read_zescaped_byte.simps) simp
    next
      case (Inr b)
      have "shrinks (io_bind read_byte decode_zescaped_followup)" by (intro shrinking)
      then have "length (mio_input (snd (io_bind read_byte decode_zescaped_followup io1))) \<le> length (mio_input io1)"
        unfolding shrinks_def by blast
      then show ?thesis using "1.prems" "1.IH" [OF one [symmetric] Inr] one first Inr
        by (subst (asm) read_zescaped_byte.simps) (auto split: if_splits)
    qed
  qed
qed

lemma shrinks_zescaped_many [shrinking]: "shrinks (read_zescaped n)"
  by (induction n) (auto intro: shrinking)

lemma shrinks_sum [shrinking]: "(\<And>x. shrinks (f x)) \<Longrightarrow> (\<And>x. shrinks (g x)) \<Longrightarrow> shrinks (case v of Inl x \<Rightarrow> f x | Inr x \<Rightarrow> g x)"
  by (cases v) auto

lemma shrinks_hex_pairs [shrinking]: "shrinks (read_hex_pairs n)"
proof -
  have "shrinks read_hex_nibble" unfolding read_hex_nibble_def by (intro shrinking)
  then show ?thesis by (induction n) (auto intro: shrinking)
qed

lemma shrinks_zheader_body [shrinking]: "shrinks read_zheader_body"
  unfolding read_zheader_body_def read_hex_zheader_def read_binary_zheader_def consume_hex_header_line_end_def
  by (intro shrinking)

lemma zheader_consumes:
  "read_zmodem_header io = (r, io') \<Longrightarrow>
   length (mio_input io') \<le> length (mio_input io) \<and> (\<forall>h. r = Inr h \<longrightarrow> length (mio_input io') < length (mio_input io))"
proof (induction io rule: read_zmodem_header.induct)
  case (1 io)
  have body: "length (mio_input (snd (read_zheader_body io))) \<le> length (mio_input io)" for io
    using shrinks_zheader_body unfolding shrinks_def by blast
  obtain q1 io1 where one: "read_byte io = (q1, io1)" by fastforce
  obtain q2 io2 where two: "read_byte io1 = (q2, io2)" by fastforce
  obtain q3 io3 where three: "read_byte io2 = (q3, io3)" by fastforce
  note keeps = read_byte_keeps [OF one] read_byte_keeps [OF two] read_byte_keeps [OF three]
  show ?case
  proof (cases q1)
    case (Inl e)
    then show ?thesis using "1.prems" one keeps by (subst (asm) read_zmodem_header.simps) auto
  next
    case q1: (Inr b)
    have less: "length (mio_input io1) < length (mio_input io)" using read_byte_shorter one q1 by simp
    show ?thesis
    proof (cases "b = ZPAD")
      case False
      then show ?thesis using "1.prems" "1.IH"(1) [OF one [symmetric] q1] one q1 less
        by (subst (asm) read_zmodem_header.simps) auto
    next
      case pad: True
      show ?thesis
      proof (cases q2)
        case (Inl e)
        then show ?thesis using "1.prems" one two q1 pad keeps by (subst (asm) read_zmodem_header.simps) auto
      next
        case q2: (Inr b')
        have less2: "length (mio_input io2) < length (mio_input io1)" using read_byte_shorter two q2 by simp
        consider (three) "b' = ZPAD" | (escape) "b' = ZDLE" "b' \<noteq> ZPAD" | (other) "b' \<noteq> ZPAD" "b' \<noteq> ZDLE" by auto
        then show ?thesis
        proof cases
          case other
          then have "read_zmodem_header io2 = (r, io')" using "1.prems" one two q1 q2 pad
            by (subst (asm) read_zmodem_header.simps) auto
          then show ?thesis using "1.IH"(3) [OF one [symmetric] q1 _ two [symmetric] q2] other pad less less2 by auto
        next
          case escape
          then have "read_zheader_body io2 = (r, io')" using "1.prems" one two q1 q2 pad
            by (subst (asm) read_zmodem_header.simps) auto
          then show ?thesis using body [of io2] less less2 by auto
        next
          case three: three
          show ?thesis
          proof (cases q3)
            case (Inl e)
            then show ?thesis using "1.prems" one two \<open>read_byte io2 = (q3, io3)\<close> q1 q2 pad three keeps
              by (subst (asm) read_zmodem_header.simps) auto
          next
            case q3: (Inr b'')
            note third = \<open>read_byte io2 = (q3, io3)\<close>
            have less3: "length (mio_input io3) < length (mio_input io2)" using read_byte_shorter third q3 by simp
            show ?thesis
            proof (cases "b'' = ZDLE")
              case True
              then have "read_zheader_body io3 = (r, io')" using "1.prems" one two third q1 q2 q3 pad three
                by (subst (asm) read_zmodem_header.simps) auto
              then show ?thesis using body [of io3] less less2 less3 by auto
            next
              case False
              then have "read_zmodem_header io3 = (r, io')" using "1.prems" one two third q1 q2 q3 pad three
                by (subst (asm) read_zmodem_header.simps) auto
              then show ?thesis
                using "1.IH"(2) [OF one [symmetric] q1 _ two [symmetric] q2 three third [symmetric] q3 False] pad
                  less less2 less3 by auto
            qed
          qed
        qed
      qed
    qed
  qed
qed

lemma collect_consumes:
  "collect_zdata m p io = (r, io') \<Longrightarrow>
   length (mio_input io') \<le> length (mio_input io) \<and> (\<forall>x. r = Inr x \<longrightarrow> length (mio_input io') < length (mio_input io))"
proof (induction m p io rule: collect_zdata.induct)
  case (1 m p io)
  obtain q1 io1 where one: "read_byte io = (q1, io1)" by fastforce
  obtain q2 io2 where two: "read_byte io1 = (q2, io2)" by fastforce
  note keeps = read_byte_keeps [OF one] read_byte_keeps [OF two]
  show ?case
  proof (cases q1)
    case (Inl e)
    then show ?thesis using "1.prems" one keeps by (subst (asm) collect_zdata.simps) auto
  next
    case q1: (Inr b)
    have less: "length (mio_input io1) < length (mio_input io)" using read_byte_shorter one q1 by simp
    consider (flow) "flow_control b" | (plain) "\<not> flow_control b" "b \<noteq> ZDLE" | (escape) "\<not> flow_control b" "b = ZDLE" by auto
    then show ?thesis
    proof cases
      case flow
      then have "collect_zdata m p io1 = (r, io')" using "1.prems" one q1 by (subst (asm) collect_zdata.simps) auto
      then show ?thesis using "1.IH"(1) [OF one [symmetric] q1 flow] less by auto
    next
      case plain
      show ?thesis
      proof (cases "m \<le> length p")
        case True
        then show ?thesis using "1.prems" one q1 plain less by (subst (asm) collect_zdata.simps) auto
      next
        case False
        then have "collect_zdata m (p @ [b]) io1 = (r, io')" using "1.prems" one q1 plain
          by (subst (asm) collect_zdata.simps) auto
        then show ?thesis using "1.IH"(2) [OF one [symmetric] q1] plain False less by auto
      qed
    next
      case escape
      show ?thesis
      proof (cases q2)
        case (Inl e)
        then show ?thesis using "1.prems" one two q1 escape keeps by (subst (asm) collect_zdata.simps) auto
      next
        case q2: (Inr escaped)
        obtain q3 io3 where three: "decode_zescaped_followup escaped io2 = (q3, io3)" by fastforce
        have less2: "length (mio_input io2) < length (mio_input io1)" using read_byte_shorter two q2 by simp
        note keeps3 = followup_keeps [OF three]
        show ?thesis
        proof (cases "end_from_marker escaped = None \<and> \<not> m \<le> length p \<and> (\<exists>d. q3 = Inr d)")
          case True
          then obtain d where d: "end_from_marker escaped = None" "\<not> m \<le> length p" "q3 = Inr d" by auto
          then have "collect_zdata m (p @ [d]) io3 = (r, io')" using "1.prems" one two three q1 q2 escape
            by (subst (asm) collect_zdata.simps) auto
          then show ?thesis
            using "1.IH"(3) [OF one [symmetric] q1 escape(1) _ two [symmetric] q2 d(1,2) three [symmetric] d(3)]
              escape less less2 keeps3 by auto
        next
          case False
          then show ?thesis using "1.prems" one two three q1 q2 escape less less2 keeps3
            by (subst (asm) collect_zdata.simps) (auto split: option.splits if_splits sum.splits)
        qed
      qed
    qed
  qed
qed

lemma zdata_consumes:
  "read_zmodem_data wide m io = (r, io') \<Longrightarrow>
   length (mio_input io') \<le> length (mio_input io) \<and> (\<forall>x. r = Inr x \<longrightarrow> length (mio_input io') < length (mio_input io))"
proof -
  assume run: "read_zmodem_data wide m io = (r, io')"
  obtain q io1 where one: "collect_zdata m [] io = (q, io1)" by fastforce
  note first = collect_consumes [OF one]
  show ?thesis
  proof (cases q)
    case (Inl e)
    then show ?thesis using run one first by (simp add: read_zmodem_data_def io_bind_def) auto
  next
    case (Inr x)
    obtain p e where x: "x = (p, e)" by (cases x) auto
    let ?tail = "if wide then
         io_bind (read_zescaped 4) (\<lambda>crc_bytes.
           if crc32_ieee (p @ [end_marker e]) \<noteq> of_le_bytes crc_bytes then io_fail (ProtocolError InvalidCrc)
           else io_return \<lparr>zd_payload = p, zd_end = e\<rparr>)
       else
         io_bind (read_zescaped 2) (\<lambda>crc_bytes.
           if crc16_xmodem (p @ [end_marker e] @ crc_bytes) \<noteq> 0 then io_fail (ProtocolError InvalidCrc)
           else io_return \<lparr>zd_payload = p, zd_end = e\<rparr>)"
    have "shrinks ?tail" by (intro shrinking)
    then have "length (mio_input (snd (?tail io1))) \<le> length (mio_input io1)" unfolding shrinks_def by blast
    moreover have "?tail io1 = (r, io')"
      using run one Inr x by (cases wide) (simp_all add: read_zmodem_data_def io_bind_def)
    ultimately have "length (mio_input io') \<le> length (mio_input io1)" by simp
    then show ?thesis using first Inr by auto
  qed
qed

section \<open>Transfers: headers of files\<close>

definition ZMODEM_MAX_CHUNK :: nat where "ZMODEM_MAX_CHUNK = 8192"
definition ZMODEM_MAX_POSITION :: nat where "ZMODEM_MAX_POSITION = 2 ^ 32 - 1"
definition ZMODEM_CAN_CRC32 :: byte where "ZMODEM_CAN_CRC32 = 0x20"
definition ZMODEM_ESCAPE_CONTROL :: byte where "ZMODEM_ESCAPE_CONTROL = 0x40"
definition ZMODEM_FILE_CLOBBER :: byte where "ZMODEM_FILE_CLOBBER = 4"
definition ZMODEM_ATTENTION_MAX_BYTES :: nat where "ZMODEM_ATTENTION_MAX_BYTES = 32"
definition ZFILE_BINARY_FLAGS :: bytes where "ZFILE_BINARY_FLAGS = [0, 0, 0, 0x01]"
definition ZRINIT_FLAGS :: bytes where
  "ZRINIT_FLAGS = [0x00, 0x20, 0, 0x01 OR 0x02 OR ZMODEM_CAN_CRC32 OR ZMODEM_ESCAPE_CONTROL]"

record zmodem_file =
  zf_file_name :: bytes
  zf_file_size :: "u64 option"
  zf_overwrite :: bool

definition validate_zmodem_file_size :: "u64 \<Rightarrow> transfer_error + unit" where
  "validate_zmodem_file_size file_size =
     (if ZMODEM_MAX_POSITION < unat file_size then Inl (UnsupportedFileSize file_size) else Inr ())"

definition position_header_checked :: "nat \<Rightarrow> transfer_error + bytes" where
  "position_header_checked position =
     (if ZMODEM_MAX_POSITION < position then Inl (UnsupportedFileSize (of_nat position))
      else Inr (position_header (of_nat position)))"

text \<open>\<open>split_whitespace().next()\<close>: the length of the white-space character at the head, if there is one.\<close>

definition white_space_len :: "bytes \<Rightarrow> nat" where
  "white_space_len bs =
     (case bs of
        [] \<Rightarrow> 0
      | b # rest \<Rightarrow>
          if b = 0x20 \<or> 0x09 \<le> b \<and> b \<le> 0x0D then 1
          else if take 1 rest \<in> {[0x85], [0xA0]} \<and> b = 0xC2 then 2
          else if take 3 bs \<in> {[0xE1, 0x9A, 0x80], [0xE2, 0x80, 0xA8], [0xE2, 0x80, 0xA9], [0xE2, 0x80, 0xAF],
                               [0xE2, 0x81, 0x9F], [0xE3, 0x80, 0x80]} then 3
          else if take 2 bs = [0xE2, 0x80] \<and> 2 < length bs \<and> 0x80 \<le> bs ! 2 \<and> bs ! 2 \<le> 0x8A then 3
          else 0)"

function skip_white_space :: "bytes \<Rightarrow> bytes" where
  "skip_white_space bs =
     (if bs = [] \<or> white_space_len bs = 0 then bs else skip_white_space (drop (white_space_len bs) bs))"
  by auto
termination by (relation "measure length") auto

fun take_word :: "bytes \<Rightarrow> bytes" where
  "take_word [] = []"
| "take_word (b # bs) = (if white_space_len (b # bs) \<noteq> 0 then [] else b # take_word bs)"

declare skip_white_space.simps [simp del]

definition first_word :: "bytes \<Rightarrow> bytes option" where
  "first_word bs = (let w = take_word (skip_white_space bs) in if w = [] then None else Some w)"

definition parse_zfile_header :: "bytes \<Rightarrow> byte \<Rightarrow> transfer_error + zmodem_file option" where
  "parse_zfile_header bs management =
     (if 0 \<notin> set bs then Inl (ProtocolError InvalidLength)
      else
        (let name = takeWhile (\<lambda>b. b \<noteq> 0) bs in
         if name = [] then Inr None
         else
           (let file_name = from_utf8_lossy name in
            if slash \<in> set file_name \<or> backslash \<in> set file_name \<or> file_name = [dot] \<or> file_name = [dot, dot]
            then Inl (ProtocolError InvalidFileName)
            else
              (case first_word (from_utf8_lossy (drop (length name + 1) bs)) of
                 None \<Rightarrow> Inr (Some \<lparr>zf_file_name = file_name, zf_file_size = None,
                                   zf_overwrite = (management = ZMODEM_FILE_CLOBBER)\<rparr>)
               | Some w \<Rightarrow>
                   (case parse_u64 w of
                      None \<Rightarrow> Inl (ProtocolError InvalidLength)
                    | Some file_size \<Rightarrow>
                        Inr (Some \<lparr>zf_file_name = file_name, zf_file_size = Some file_size,
                                   zf_overwrite = (management = ZMODEM_FILE_CLOBBER)\<rparr>))))))"

definition build_zfile_header :: "bytes \<Rightarrow> u64 \<Rightarrow> bytes" where
  "build_zfile_header file_name file_size = file_name @ [0] @ show_decimal file_size"

end
