(* ===== verification/Modem_Ztransfer.thy ===== *)
theory Modem_Ztransfer
  imports Modem_Zmodem
begin

text \<open>
  ZMODEM transfers (\<open>receive_zmodem\<close> and \<open>send_zmodem_stream\<close> of
  \<open>crates/oxideterm-modem-transfer/src/zmodem_transfer.rs\<close>). The nested loops of the code are one function each,
  with the line as its state. A local file that is sent is its content; the reads of a buffer are complete
  because the code fills its buffer, and a content shorter than the declared size is the early end of file.
\<close>

section \<open>Receiving\<close>

definition io_try :: "transfer_error + 'a \<Rightarrow> 'a io" where
  "io_try r io = (case r of Inl e \<Rightarrow> (Inl e, io) | Inr x \<Rightarrow> (Inr x, io))"

definition write_zposition :: "zframe_type \<Rightarrow> nat \<Rightarrow> unit io" where
  "write_zposition frame_type position =
     io_bind (io_try (position_header_checked position)) (\<lambda>p. write_zheader frame_type p)"

definition send_zrinit :: "unit io" where
  "send_zrinit = write_zheader ZrInit ZRINIT_FLAGS"

text \<open>The data subpackets after one data header; the result is the offset that was reached.\<close>

function zreceive_frames ::
    "bool \<Rightarrow> u64 option \<Rightarrow> nat \<Rightarrow> modem_io \<Rightarrow> (transfer_error + nat) \<times> modem_io" where
  "zreceive_frames wide file_size offset io =
     (case read_zmodem_data wide ZMODEM_MAX_CHUNK io of
        (Inl e, io1) \<Rightarrow>
          (if e = ProtocolError InvalidCrc then
             io_bind (write_zposition ZRpos offset) (\<lambda>_. io_return offset) io1
           else (Inl e, io1))
      | (Inr frame, io1) \<Rightarrow>
          (let next_offset = offset + length (zd_payload frame) in
           if 2 ^ 64 \<le> next_offset then (Inl UnexpectedFrame, io1)
           else if (case file_size of Some sz \<Rightarrow> unat sz < next_offset | None \<Rightarrow> False) then (Inl UnexpectedFrame, io1)
           else
             (let io2 = snd (write_file (zd_payload frame) io1) in
              case zd_end frame of
                DataContinue \<Rightarrow> zreceive_frames wide file_size next_offset io2
              | DataContinueWithAck \<Rightarrow>
                  (case write_zposition ZAck next_offset io2 of
                     (Inl e, io3) \<Rightarrow> (Inl e, io3)
                   | (Inr _, io3) \<Rightarrow> zreceive_frames wide file_size next_offset io3)
              | DataEnd \<Rightarrow> (Inr next_offset, io2)
              | DataEndWithAck \<Rightarrow> io_bind (write_zposition ZAck next_offset) (\<lambda>_. io_return next_offset) io2)))"
  by auto

lemma write_zposition_input: "mio_input (snd (write_zposition t n io)) = mio_input io"
  by (simp add: write_zposition_def io_bind_def io_try_def write_zheader_def write_all_def split: sum.split)

lemma write_zposition_run: "write_zposition t n io = (r, io') \<Longrightarrow> mio_input io' = mio_input io"
  using write_zposition_input [of t n io] by simp

termination zreceive_frames
  by (relation "measure (\<lambda>(_, _, _, io). length (mio_input io))")
     (auto simp: write_file_def dest!: zdata_consumes [OF sym] write_zposition_run [OF sym])

declare zreceive_frames.simps [simp del]

lemma frames_keep:
  "zreceive_frames wide fs n io = (r, io') \<Longrightarrow> length (mio_input io') \<le> length (mio_input io)"
proof (induction wide fs n io arbitrary: r io' rule: zreceive_frames.induct)
  case (1 wide fs n io)
  obtain q io1 where one: "read_zmodem_data wide ZMODEM_MAX_CHUNK io = (q, io1)" by fastforce
  note first = zdata_consumes [OF one]
  show ?case
  proof (cases q)
    case (Inl e)
    have "shrinks (io_bind (write_zposition ZRpos n) (\<lambda>_. io_return n))"
      using write_zposition_input by (intro shrinking) (simp add: shrinks_def)
    then have "length (mio_input (snd (io_bind (write_zposition ZRpos n) (\<lambda>_. io_return n) io1))) \<le> length (mio_input io1)"
      unfolding shrinks_def by blast
    then show ?thesis using "1.prems" one Inl first
      by (subst (asm) zreceive_frames.simps) (auto split: if_splits)
  next
    case (Inr frame)
    let ?next = "n + length (zd_payload frame)" and ?io2 = "snd (write_file (zd_payload frame) io1)"
    have io2: "mio_input ?io2 = mio_input io1" by (simp add: write_file_def)
    show ?thesis
    proof (cases "2 ^ 64 \<le> ?next \<or> (case fs of Some sz \<Rightarrow> unat sz < ?next | None \<Rightarrow> False)")
      case True
      then show ?thesis using "1.prems" one Inr first by (subst (asm) zreceive_frames.simps) (auto simp: Let_def split: if_splits option.splits)
    next
      case False
      then have fit: "\<not> 2 ^ 64 \<le> ?next" "\<not> (case fs of Some sz \<Rightarrow> unat sz < ?next | None \<Rightarrow> False)" by auto
      note IH = "1.IH" [OF one [symmetric] Inr refl fit refl]
      obtain a io3 where ack: "write_zposition ZAck ?next ?io2 = (a, io3)" by fastforce
      note acked = write_zposition_run [OF ack]
      show ?thesis
      proof (cases "zd_end frame")
        case DataEnd
        then show ?thesis using "1.prems" one Inr first fit io2 by (subst (asm) zreceive_frames.simps) (auto simp: Let_def)
      next
        case DataContinue
        then have "zreceive_frames wide fs ?next ?io2 = (r, io')" using "1.prems" one Inr fit
          by (subst (asm) zreceive_frames.simps) (simp add: Let_def)
        then show ?thesis using IH(1) [OF DataContinue] first io2 by auto
      next
        case DataContinueWithAck
        show ?thesis
        proof (cases a)
          case (Inl e)
          then show ?thesis using "1.prems" one Inr first fit io2 ack acked DataContinueWithAck
            by (subst (asm) zreceive_frames.simps) (auto simp: Let_def)
        next
          case a: (Inr u)
          then have "zreceive_frames wide fs ?next io3 = (r, io')" using "1.prems" one Inr fit ack DataContinueWithAck
            by (subst (asm) zreceive_frames.simps) (simp add: Let_def)
          then show ?thesis using IH(2) [OF DataContinueWithAck ack [symmetric] a] first io2 acked by auto
        qed
      next
        case DataEndWithAck
        then show ?thesis using "1.prems" one Inr first fit io2 ack acked
          by (subst (asm) zreceive_frames.simps) (auto simp: Let_def io_bind_def io_return_def split: sum.splits)
      qed
    qed
  qed
qed

text \<open>The data headers of one file, up to the verified end of the file.\<close>

function zreceive_data :: "u64 option \<Rightarrow> nat \<Rightarrow> modem_io \<Rightarrow> (transfer_error + unit) \<times> modem_io" where
  "zreceive_data file_size offset io =
     (case read_zmodem_header io of
        (Inl e, io1) \<Rightarrow> (Inl e, io1)
      | (Inr h, io1) \<Rightarrow>
          (case zh_frame_type h of
             ZData \<Rightarrow>
               (if unat (position_u32 h) \<noteq> offset then
                  (case write_zposition ZRpos offset io1 of
                     (Inl e, io2) \<Rightarrow> (Inl e, io2)
                   | (Inr _, io2) \<Rightarrow> zreceive_data file_size offset io2)
                else
                  (case zreceive_frames (zh_encoding h = Bin32) file_size offset io1 of
                     (Inl e, io2) \<Rightarrow> (Inl e, io2)
                   | (Inr offset', io2) \<Rightarrow> zreceive_data file_size offset' io2))
           | ZEof \<Rightarrow>
               (if unat (position_u32 h) \<noteq> offset \<or>
                   (case file_size of Some sz \<Rightarrow> unat sz \<noteq> offset | None \<Rightarrow> False) then
                  (case write_zposition ZRpos offset io1 of
                     (Inl e, io2) \<Rightarrow> (Inl e, io2)
                   | (Inr _, io2) \<Rightarrow> zreceive_data file_size offset io2)
                else send_zrinit io1)
           | ZFin \<Rightarrow> (Inl UnexpectedFrame, io1)
           | ZAbort \<Rightarrow> (Inl Cancelled, io1)
           | ZCan \<Rightarrow> (Inl Cancelled, io1)
           | _ \<Rightarrow> (Inl UnexpectedFrame, io1)))"
  by auto
termination
  by (relation "measure (\<lambda>(_, _, io). length (mio_input io))")
     (auto dest!: zheader_consumes [OF sym] write_zposition_run [OF sym] frames_keep [OF sym])

declare zreceive_data.simps [simp del]

lemma data_keep: "zreceive_data fs n io = (r, io') \<Longrightarrow> length (mio_input io') \<le> length (mio_input io)"
proof (induction fs n io arbitrary: r io' rule: zreceive_data.induct)
  case (1 fs n io)
  obtain q io1 where one: "read_zmodem_header io = (q, io1)" by fastforce
  note first = zheader_consumes [OF one]
  show ?case
  proof (cases q)
    case (Inl e)
    then show ?thesis using "1.prems" one first by (subst (asm) zreceive_data.simps) auto
  next
    case (Inr h)
    note IH = "1.IH" [OF one [symmetric] Inr]
    obtain a io2 where pos: "write_zposition ZRpos n io1 = (a, io2)" by fastforce
    obtain f io3 where frames: "zreceive_frames (zh_encoding h = Bin32) fs n io1 = (f, io3)" by fastforce
    note posd = write_zposition_run [OF pos] and framed = frames_keep [OF frames]
    have init: "mio_input (snd (send_zrinit io1)) = mio_input io1"
      by (simp add: send_zrinit_def write_zheader_def write_all_def)
    have less: "length (mio_input io1) < length (mio_input io)" using first Inr by simp
    show ?thesis
    proof (cases "zh_frame_type h = ZData")
      case True
      show ?thesis
      proof (cases "unat (position_u32 h) = n")
        case at: True
        show ?thesis
        proof (cases f)
          case (Inl e)
          then show ?thesis using "1.prems" one \<open>q = Inr h\<close> True at frames framed less
            by (subst (asm) zreceive_data.simps) auto
        next
          case f: (Inr m)
          then have "zreceive_data fs m io3 = (r, io')" using "1.prems" one \<open>q = Inr h\<close> True at frames
            by (subst (asm) zreceive_data.simps) auto
          moreover have "\<not> unat (position_u32 h) \<noteq> n" using at by simp
          ultimately show ?thesis using IH(2) [OF True _ frames [symmetric] f] framed less by auto
        qed
      next
        case at: False
        show ?thesis
        proof (cases a)
          case (Inl e)
          then show ?thesis using "1.prems" one \<open>q = Inr h\<close> True at pos posd less
            by (subst (asm) zreceive_data.simps) auto
        next
          case a: (Inr u)
          then have "zreceive_data fs n io2 = (r, io')" using "1.prems" one \<open>q = Inr h\<close> True at pos
            by (subst (asm) zreceive_data.simps) auto
          then show ?thesis using IH(1) [OF True at pos [symmetric] a] posd less by auto
        qed
      qed
    next
      case no_data: False
      show ?thesis
      proof (cases "zh_frame_type h = ZEof \<and> (unat (position_u32 h) \<noteq> n \<or> (case fs of Some sz \<Rightarrow> unat sz \<noteq> n | None \<Rightarrow> False))")
        case True
        show ?thesis
        proof (cases a)
          case (Inl e)
          then show ?thesis using "1.prems" one \<open>q = Inr h\<close> True pos posd less
            by (subst (asm) zreceive_data.simps) auto
        next
          case a: (Inr u)
          then have "zreceive_data fs n io2 = (r, io')" using "1.prems" one \<open>q = Inr h\<close> True pos
            by (subst (asm) zreceive_data.simps) auto
          then show ?thesis using IH(3) [OF _ _ pos [symmetric] a] True posd less by auto
        qed
      next
        case False
        then show ?thesis using "1.prems" one Inr no_data less init
          by (subst (asm) zreceive_data.simps) (auto split: zframe_type.splits if_splits)
      qed
    qed
  qed
qed

function finish_loop :: "nat \<Rightarrow> nat \<Rightarrow> modem_io \<Rightarrow> (transfer_error + unit) \<times> modem_io" where
  "finish_loop consecutive_o consecutive_cancel io =
     (case read_byte io of
        (Inl e, io1) \<Rightarrow> (Inl e, io1)
      | (Inr b, io1) \<Rightarrow>
          (let consecutive_o = (if b = of_char CHR ''O'' then consecutive_o + 1 else 0) in
           if consecutive_o = 2 then (Inr (), io1)
           else
             (let consecutive_cancel = (if b = ZDLE then consecutive_cancel + 1 else 0) in
              if consecutive_cancel = 5 then (Inl Cancelled, io1)
              else finish_loop consecutive_o consecutive_cancel io1)))"
  by auto
termination by (relation "measure (\<lambda>(_, _, io). length (mio_input io))") (auto dest!: read_byte_shorter [OF sym])

declare finish_loop.simps [simp del]

definition finish_zmodem_receive :: "unit io" where
  "finish_zmodem_receive = io_bind (write_zheader ZFin (position_header 0)) (\<lambda>_. finish_loop 0 0)"

text \<open>One file, after its header frame; the result is \<open>None\<close> when the header ends the batch.\<close>

definition zreceive_file ::
    "(zmodem_file \<Rightarrow> transfer_error + unit) \<Rightarrow> zheader \<Rightarrow> zmodem_file option io" where
  "zreceive_file open_writer h =
     io_bind (read_zmodem_data (zh_encoding h = Bin32) ZMODEM_MAX_CHUNK) (\<lambda>frame.
       if zd_end frame \<noteq> DataEndWithAck then io_fail UnexpectedFrame
       else
         io_bind (io_try (parse_zfile_header (zd_payload frame) (zh_position h ! 2))) (\<lambda>file.
           case file of
             None \<Rightarrow> io_bind finish_zmodem_receive (\<lambda>_. io_return None)
           | Some f \<Rightarrow>
               io_bind (io_try (case zf_file_size f of Some sz \<Rightarrow> validate_zmodem_file_size sz | None \<Rightarrow> Inr ())) (\<lambda>_.
               io_bind (open_file open_writer f) (\<lambda>_.
               io_bind (write_zposition ZRpos 0) (\<lambda>_.
               io_bind (zreceive_data (zf_file_size f) 0) (\<lambda>_. io_return (Some f)))))))"

definition zreceive_attention :: "zheader \<Rightarrow> unit io" where
  "zreceive_attention h =
     io_bind (read_zmodem_data (zh_encoding h = Bin32) ZMODEM_ATTENTION_MAX_BYTES) (\<lambda>frame.
       if zd_end frame \<noteq> DataEndWithAck then io_fail UnexpectedFrame
       else write_zheader ZAck (position_header 1))"

lemma shrinks_ztry [shrinking]: "shrinks (io_try r)"
  by (simp add: shrinks_def io_try_def split: sum.split)

lemma shrinks_write_zheader [shrinking]: "shrinks (write_zheader t p)"
  by (simp add: shrinks_def write_zheader_def write_all_def)

lemma shrinks_write_zposition [shrinking]: "shrinks (write_zposition t n)"
  by (simp add: shrinks_def write_zposition_input)

lemma shrinks_open_file [shrinking]: "shrinks (open_file open_writer h)"
  by (simp add: shrinks_def open_file_def split: sum.split)

lemma shrinks_finish [shrinking]: "shrinks finish_zmodem_receive"
proof -
  have "shrinks (finish_loop a b)" for a b
  proof (rule shrinksI)
    show "finish_loop a b io = (r, io') \<Longrightarrow> length (mio_input io') \<le> length (mio_input io)" for io r io'
    proof (induction a b io rule: finish_loop.induct)
      case (1 a b io)
      obtain q io1 where one: "read_byte io = (q, io1)" by fastforce
      note first = read_byte_keeps [OF one]
      show ?case
      proof (cases q)
        case (Inl e)
        then show ?thesis using "1.prems" one first by (subst (asm) finish_loop.simps) auto
      next
        case (Inr c)
        then show ?thesis using "1.prems" "1.IH" [OF one [symmetric] Inr refl _ refl] one first
          by (subst (asm) finish_loop.simps) (auto simp: Let_def split: if_splits)
      qed
    qed
  qed
  then show ?thesis unfolding finish_zmodem_receive_def by (intro shrinking)
qed

lemma shrinks_zdata [shrinking]: "shrinks (read_zmodem_data wide m)" "shrinks (zreceive_data fs n)"
  using zdata_consumes data_keep by (blast intro: shrinksI)+

lemma shrinks_zfile [shrinking]: "shrinks (zreceive_file open_writer h)"
  unfolding zreceive_file_def by (intro shrinking)

lemma shrinks_attention [shrinking]: "shrinks (zreceive_attention h)"
  unfolding zreceive_attention_def by (intro shrinking)

lemma shrinks_run: "shrinks m \<Longrightarrow> m io = (r, io') \<Longrightarrow> length (mio_input io') \<le> length (mio_input io)"
  unfolding shrinks_def by (metis snd_conv)

function zreceive_loop ::
    "(zmodem_file \<Rightarrow> transfer_error + unit) \<Rightarrow> zmodem_file list \<Rightarrow> modem_io \<Rightarrow>
     (transfer_error + zmodem_file list) \<times> modem_io" where
  "zreceive_loop open_writer received io =
     (case read_zmodem_header io of
        (Inl e, io1) \<Rightarrow> (Inl e, io1)
      | (Inr h, io1) \<Rightarrow>
          (case zh_frame_type h of
             ZrqInit \<Rightarrow> zreceive_loop open_writer received (snd (send_zrinit io1))
           | ZFile \<Rightarrow>
               (case zreceive_file open_writer h io1 of
                  (Inl e, io2) \<Rightarrow> (Inl e, io2)
                | (Inr None, io2) \<Rightarrow> (Inr received, io2)
                | (Inr (Some f), io2) \<Rightarrow> zreceive_loop open_writer (received @ [f]) io2)
           | ZsInit \<Rightarrow>
               (case zreceive_attention h io1 of
                  (Inl e, io2) \<Rightarrow> (Inl e, io2)
                | (Inr _, io2) \<Rightarrow> zreceive_loop open_writer received io2)
           | ZFin \<Rightarrow> io_bind finish_zmodem_receive (\<lambda>_. io_return received) io1
           | ZAbort \<Rightarrow> (Inl Cancelled, io1)
           | ZCan \<Rightarrow> (Inl Cancelled, io1)
           | _ \<Rightarrow> zreceive_loop open_writer received io1))"
  by auto
termination
  by (relation "measure (\<lambda>(_, _, io). length (mio_input io))")
     (auto simp: send_zrinit_def write_zheader_def write_all_def
        dest!: zheader_consumes [OF sym] shrinks_run [OF shrinks_zfile, OF sym] shrinks_run [OF shrinks_attention, OF sym])

declare zreceive_loop.simps [simp del]

definition receive_zmodem :: "(zmodem_file \<Rightarrow> transfer_error + unit) \<Rightarrow> zmodem_file list io" where
  "receive_zmodem open_writer = io_bind send_zrinit (\<lambda>_. zreceive_loop open_writer [])"

section \<open>Sending\<close>

record peer_capabilities =
  pc_chunk_size :: nat
  pc_use_crc32 :: bool
  pc_escape_control :: bool

record zsend_entry =
  zs_file_name :: bytes
  zs_file_size :: u64
  zs_content :: bytes

definition peer_of_header :: "zheader \<Rightarrow> peer_capabilities" where
  "peer_of_header h =
     (let advertised_chunk = unat (of_le_bytes (take 2 (zh_position h)) :: u16); flags = zh_position h ! 3 in
      \<lparr>pc_chunk_size = (if advertised_chunk < 32 then 1024 else min advertised_chunk ZMODEM_MAX_CHUNK),
       pc_use_crc32 = (flags AND ZMODEM_CAN_CRC32 \<noteq> 0),
       pc_escape_control = (flags AND ZMODEM_ESCAPE_CONTROL \<noteq> 0)\<rparr>)"

function wait_for_zrinit :: "modem_io \<Rightarrow> (transfer_error + peer_capabilities) \<times> modem_io" where
  "wait_for_zrinit io =
     (case read_zmodem_header io of
        (Inl e, io1) \<Rightarrow> (Inl e, io1)
      | (Inr h, io1) \<Rightarrow>
          (case zh_frame_type h of
             ZrInit \<Rightarrow> (Inr (peer_of_header h), io1)
           | ZrqInit \<Rightarrow> wait_for_zrinit (snd (write_zheader ZrInit ZRINIT_FLAGS io1))
           | ZAbort \<Rightarrow> (Inl Cancelled, io1)
           | ZCan \<Rightarrow> (Inl Cancelled, io1)
           | _ \<Rightarrow> wait_for_zrinit io1))"
  by auto
termination
  by (relation "measure (\<lambda>io. length (mio_input io))")
     (auto simp: write_zheader_def write_all_def dest!: zheader_consumes [OF sym])

declare wait_for_zrinit.simps [simp del]

datatype zsend_result = SendComplete | ResumeAt nat | SendSkip

text \<open>
  The loop over the chunks of the file; \<open>None\<close> when the whole file has been written, otherwise the answer
  that stops the loop.
\<close>

function zsend_chunks ::
    "bytes \<Rightarrow> nat \<Rightarrow> peer_capabilities \<Rightarrow> nat \<Rightarrow> modem_io \<Rightarrow> (transfer_error + zsend_result option) \<times> modem_io" where
  "zsend_chunks content file_size peer sent_offset io =
     (if file_size \<le> sent_offset then (Inr None, io)
      else
        (let remaining = min (file_size - sent_offset) (pc_chunk_size peer);
             data = take remaining (drop sent_offset content) in
         if data = [] then (Inl UnexpectedFrame, io)
         else
           (let sent_offset = sent_offset + length data;
                frame_end = (if sent_offset < file_size then DataContinueWithAck else DataEnd);
                io1 = snd (write_zdata data frame_end (pc_use_crc32 peer) (pc_escape_control peer) io) in
            if frame_end \<noteq> DataContinueWithAck then zsend_chunks content file_size peer sent_offset io1
            else
              (case read_zmodem_header io1 of
                 (Inl e, io2) \<Rightarrow> (Inl e, io2)
               | (Inr h, io2) \<Rightarrow>
                   (case zh_frame_type h of
                      ZAck \<Rightarrow>
                        (if unat (position_u32 h) = sent_offset
                         then zsend_chunks content file_size peer sent_offset io2
                         else (Inl UnexpectedFrame, io2))
                    | ZRpos \<Rightarrow> (Inr (Some (ResumeAt (unat (position_u32 h)))), io2)
                    | ZSkip \<Rightarrow> (Inr (Some SendSkip), io2)
                    | ZAbort \<Rightarrow> (Inl Cancelled, io2)
                    | ZCan \<Rightarrow> (Inl Cancelled, io2)
                    | _ \<Rightarrow> (Inl UnexpectedFrame, io2))))))"
  by auto

lemma chunk_advances: "\<not> fs \<le> n \<Longrightarrow> data \<noteq> [] \<Longrightarrow> fs - (n + length data) < fs - (n :: nat)"
  by (cases data) simp_all

termination zsend_chunks
  by (relation "measure (\<lambda>(_, file_size, _, sent_offset, _). file_size - sent_offset)")
     (simp, simp_all only: in_measure prod.case chunk_advances not_False_eq_True)

declare zsend_chunks.simps [simp del]

definition send_zfile_data_stream :: "zsend_entry \<Rightarrow> nat \<Rightarrow> peer_capabilities \<Rightarrow> zsend_result io" where
  "send_zfile_data_stream e offset peer =
     (let file_size = unat (zs_file_size e); start = min offset file_size in
      io_bind (io_try (position_header_checked start)) (\<lambda>p.
      io_bind (write_zbinary_header ZData p (pc_use_crc32 peer) (pc_escape_control peer)) (\<lambda>_.
      io_bind (zsend_chunks (zs_content e) file_size peer start) (\<lambda>stopped.
        case stopped of
          Some r \<Rightarrow> io_return r
        | None \<Rightarrow>
            io_bind (if start = file_size then write_zdata [] DataEnd (pc_use_crc32 peer) (pc_escape_control peer)
                     else io_return ()) (\<lambda>_.
            io_bind (write_zposition ZEof file_size) (\<lambda>_. io_return SendComplete))))))"

lemma chunks_consume:
  "zsend_chunks c fs peer n io = (r, io') \<Longrightarrow>
   length (mio_input io') \<le> length (mio_input io) \<and>
   (\<forall>x. r = Inr (Some x) \<longrightarrow> length (mio_input io') < length (mio_input io))"
proof (induction c fs peer n io arbitrary: r io' rule: zsend_chunks.induct)
  case (1 c fs peer n io)
  let ?data = "take (min (fs - n) (pc_chunk_size peer)) (drop n c)"
  let ?n = "n + length ?data"
  let ?stop = "if ?n < fs then DataContinueWithAck else DataEnd"
  let ?io1 = "snd (write_zdata ?data ?stop (pc_use_crc32 peer) (pc_escape_control peer) io)"
  have io1: "mio_input ?io1 = mio_input io" by (simp add: write_zdata_def write_all_def)
  show ?case
  proof (cases "fs \<le> n \<or> ?data = []")
    case True
    then show ?thesis using "1.prems" by (subst (asm) zsend_chunks.simps) (auto simp: Let_def split: if_splits)
  next
    case False
    then have go: "\<not> fs \<le> n" "?data \<noteq> []" by auto
    note IH = "1.IH" [OF go(1) refl refl go(2) refl refl refl]
    obtain q io2 where head: "read_zmodem_header ?io1 = (q, io2)" by fastforce
    note two = zheader_consumes [OF head]
    have unfold: "(r, io') =
        (if ?stop \<noteq> DataContinueWithAck then zsend_chunks c fs peer ?n ?io1
            else
              (case (q, io2) of
                 (Inl e, io2) \<Rightarrow> (Inl e, io2)
               | (Inr h, io2) \<Rightarrow>
                   (case zh_frame_type h of
                      ZAck \<Rightarrow>
                        (if unat (position_u32 h) = ?n then zsend_chunks c fs peer ?n io2
                         else (Inl UnexpectedFrame, io2))
                    | ZRpos \<Rightarrow> (Inr (Some (ResumeAt (unat (position_u32 h)))), io2)
                    | ZSkip \<Rightarrow> (Inr (Some SendSkip), io2)
                    | ZAbort \<Rightarrow> (Inl Cancelled, io2)
                    | ZCan \<Rightarrow> (Inl Cancelled, io2)
                    | _ \<Rightarrow> (Inl UnexpectedFrame, io2))))"
      using "1.prems" go unfolding head [symmetric] by (subst (asm) zsend_chunks.simps) (simp only: Let_def if_False)
    show ?thesis
    proof (cases "?stop = DataContinueWithAck")
      case False
      then have "zsend_chunks c fs peer ?n ?io1 = (r, io')" using unfold by simp
      then show ?thesis using IH(1) [OF False] io1 by auto
    next
      case ack: True
      show ?thesis
      proof (cases q)
        case (Inl e)
        then show ?thesis using unfold ack two io1 by auto
      next
        case (Inr h)
        show ?thesis
        proof (cases "zh_frame_type h = ZAck \<and> unat (position_u32 h) = ?n")
          case True
          then have "zsend_chunks c fs peer ?n io2 = (r, io')" using unfold ack Inr by simp
          moreover have "\<not> ?stop \<noteq> DataContinueWithAck" using ack by simp
          ultimately have "length (mio_input io') \<le> length (mio_input io2) \<and>
              (\<forall>x. r = Inr (Some x) \<longrightarrow> length (mio_input io') < length (mio_input io2))"
            using IH(2) [OF _ head [symmetric] Inr] True by blast
          moreover have "length (mio_input io2) \<le> length (mio_input io)" using two unfolding io1 by simp
          ultimately show ?thesis by auto
        next
          case False
          then have "io' = io2"
            using unfold unfolding ack Inr by (cases "zh_frame_type h") (simp_all split: if_splits)
          with two Inr show ?thesis unfolding io1 by simp
        qed
      qed
    qed
  qed
qed

lemma shrinks_chunks [shrinking]: "shrinks (zsend_chunks c fs peer n)"
  using chunks_consume by (blast intro: shrinksI)

lemma shrinks_writes [shrinking]: "shrinks (write_zbinary_header t p a b)" "shrinks (write_zdata d e a b)"
  by (simp_all add: shrinks_def write_zbinary_header_def write_zdata_def write_all_def)

lemma stream_consumes:
  assumes "send_zfile_data_stream e offset peer io = (r, io')"
  shows "length (mio_input io') \<le> length (mio_input io)"
    and "r = Inr (ResumeAt n) \<Longrightarrow> length (mio_input io') < length (mio_input io)"
proof -
  have "shrinks (send_zfile_data_stream e offset peer)"
    unfolding send_zfile_data_stream_def Let_def by (intro shrinking)
  then show "length (mio_input io') \<le> length (mio_input io)" using assms shrinks_run by blast
  assume "r = Inr (ResumeAt n)"
  then show "length (mio_input io') < length (mio_input io)"
    using assms
    by (auto simp: send_zfile_data_stream_def Let_def io_bind_Inr io_try_def write_zbinary_header_def write_all_def
          io_return_def dest!: chunks_consume split: sum.splits option.splits)
qed

lemma stream_consumes_both:
  "send_zfile_data_stream e offset peer io = (r, io') \<Longrightarrow> length (mio_input io') \<le> length (mio_input io) \<and>
   (\<forall>n. r = Inr (ResumeAt n) \<longrightarrow> length (mio_input io') < length (mio_input io))"
  using stream_consumes by blast

text \<open>The rounds of one file from an offset on; the result is what the file adds to the total.\<close>

function zsend_rounds ::
    "zsend_entry \<Rightarrow> peer_capabilities \<Rightarrow> nat \<Rightarrow> modem_io \<Rightarrow> (transfer_error + nat) \<times> modem_io" where
  "zsend_rounds e peer offset io =
     (case send_zfile_data_stream e offset peer io of
        (Inl err, io1) \<Rightarrow> (Inl err, io1)
      | (Inr (ResumeAt next_offset), io1) \<Rightarrow>
          (if unat (zs_file_size e) < next_offset then (Inl UnexpectedFrame, io1)
           else zsend_rounds e peer next_offset io1)
      | (Inr SendSkip, io1) \<Rightarrow> (Inr 0, io1)
      | (Inr SendComplete, io1) \<Rightarrow>
          (case read_zmodem_header io1 of
             (Inl err, io2) \<Rightarrow> (Inl err, io2)
           | (Inr followup, io2) \<Rightarrow>
               (case zh_frame_type followup of
                  ZrInit \<Rightarrow> (Inr (unat (zs_file_size e)), io2)
                | ZRpos \<Rightarrow>
                    (if unat (zs_file_size e) < unat (position_u32 followup) then (Inl UnexpectedFrame, io2)
                     else zsend_rounds e peer (unat (position_u32 followup)) io2)
                | ZSkip \<Rightarrow> (Inr 0, io2)
                | ZAbort \<Rightarrow> (Inl Cancelled, io2)
                | ZCan \<Rightarrow> (Inl Cancelled, io2)
                | _ \<Rightarrow> (Inl UnexpectedFrame, io2))))"
  by auto
termination
  by (relation "measure (\<lambda>(_, _, _, io). length (mio_input io))")
     (auto dest!: stream_consumes_both [OF sym] zheader_consumes [OF sym])

function zsend_file :: "zsend_entry \<Rightarrow> peer_capabilities \<Rightarrow> modem_io \<Rightarrow> (transfer_error + nat) \<times> modem_io" where
  "zsend_file e peer io =
     (case read_zmodem_header io of
        (Inl err, io1) \<Rightarrow> (Inl err, io1)
      | (Inr response, io1) \<Rightarrow>
          (case zh_frame_type response of
             ZRpos \<Rightarrow>
               (if unat (zs_file_size e) < unat (position_u32 response) then (Inl UnexpectedFrame, io1)
                else zsend_rounds e peer (unat (position_u32 response)) io1)
           | ZSkip \<Rightarrow> (Inr 0, io1)
           | ZAbort \<Rightarrow> (Inl Cancelled, io1)
           | ZCan \<Rightarrow> (Inl Cancelled, io1)
           | _ \<Rightarrow> zsend_file e peer io1))"
  by auto
termination
  by (relation "measure (\<lambda>(_, _, io). length (mio_input io))") (auto dest!: zheader_consumes [OF sym])

declare zsend_rounds.simps [simp del] zsend_file.simps [simp del]

primrec zsend_entries :: "peer_capabilities \<Rightarrow> zsend_entry list \<Rightarrow> nat \<Rightarrow> nat io" where
  "zsend_entries peer [] tot = io_return tot"
| "zsend_entries peer (e # es) tot =
     io_bind (write_zbinary_header ZFile ZFILE_BINARY_FLAGS (pc_use_crc32 peer) (pc_escape_control peer)) (\<lambda>_.
     io_bind (write_zdata (build_zfile_header (zs_file_name e) (zs_file_size e)) DataEndWithAck
       (pc_use_crc32 peer) (pc_escape_control peer)) (\<lambda>_.
     io_bind (zsend_file e peer) (\<lambda>n. zsend_entries peer es (tot + n))))"

primrec finish_zmodem_attempts :: "nat \<Rightarrow> unit io" where
  "finish_zmodem_attempts 0 = io_fail Timeout"
| "finish_zmodem_attempts (Suc n) =
     io_bind (write_zheader ZFin (position_header 0)) (\<lambda>_.
     io_bind read_zmodem_header (\<lambda>h.
       if zh_frame_type h = ZFin then write_all (ascii ''OO'')
       else if zh_frame_type h = ZAbort \<or> zh_frame_type h = ZCan \<or> zh_frame_type h = ZFerr then io_fail Cancelled
       else finish_zmodem_attempts n))"

definition finish_zmodem_send :: "unit io" where
  "finish_zmodem_send = finish_zmodem_attempts 3"

definition send_zmodem_stream :: "zsend_entry list \<Rightarrow> nat io" where
  "send_zmodem_stream entries =
     io_bind (io_try (fold (\<lambda>e r. rbind r (\<lambda>_. validate_zmodem_file_size (zs_file_size e))) entries (Inr ()))) (\<lambda>_.
     io_bind wait_for_zrinit (\<lambda>peer.
     io_bind (zsend_entries peer entries 0) (\<lambda>tot.
     io_bind finish_zmodem_send (\<lambda>_. io_return tot))))"

definition parse_zmodem_header_prefix :: "bytes \<Rightarrow> modem_error + zheader option" where
  "parse_zmodem_header_prefix bs =
     (case fst (read_zmodem_header (io_with_input bs)) of
        Inr h \<Rightarrow> Inr (Some h)
      | Inl Timeout \<Rightarrow> Inr None
      | Inl (ProtocolError e) \<Rightarrow> Inl e
      | Inl _ \<Rightarrow> Inl InvalidMarker)"

section \<open>Headers round trip\<close>

lemma hex_char_value: "n < 16 \<Longrightarrow> hex_value (hex_char n) = Inr n"
proof -
  assume "n < 16"
  then have k: "n = of_nat (unat n)" "unat n < 16" by (simp_all add: word_less_nat_alt)
  have "\<forall>k \<in> set [0..<16]. hex_value (hex_char (of_nat k)) = Inr (of_nat k)" by code_simp
  then have "hex_value (hex_char (of_nat (unat n))) = Inr (of_nat (unat n))" using k(2)
    by (metis atLeastLessThan_iff atLeastLessThan_upt zero_le)
  then show ?thesis by simp
qed

text \<open>The line protocol of headers: each kind of header is read back.\<close>

lemma talks_nibble: "n < 16 \<Longrightarrow> talks read_hex_nibble [hex_char n] [] same_files n"
  unfolding read_hex_nibble_def by (intro talks_read_then) (simp add: hex_char_value talks_return)

lemma talks_hex_pairs: "talks (read_hex_pairs (length bs)) (concat (map hex_byte bs)) [] same_files bs"
proof (induction bs)
  case (Cons b bs)
  have rest: "talks (io_bind (read_hex_pairs (length bs)) (\<lambda>bs'. io_return ((push_bit 4 (drop_bit 4 b) OR (b AND 0x0F)) # bs')))
      (concat (map hex_byte bs)) [] same_files (b # bs)"
    by (rule talks_bind [OF Cons]) (simp_all add: nibbles talks_return)
  show ?case unfolding length_Cons read_hex_pairs.simps list.map concat.simps
    by (rule talks_bind [OF talks_nibble [OF nibbles(1)]], rule talks_bind [OF talks_nibble [OF nibbles(2)]], rule rest)
       (simp_all add: hex_byte_def)
qed (simp add: talks_return)

lemma talks_zpads:
  assumes "talks read_zheader_body inp out g x"
  shows "talks read_zmodem_header (ZPAD # ZPAD # ZDLE # inp) out g x"
    and "talks read_zmodem_header (ZPAD # ZDLE # inp) out g x"
proof -
  have distinct: "ZPAD \<noteq> ZDLE" "ZDLE \<noteq> ZPAD" by (simp_all add: ZPAD_def ZDLE_def)
  show "talks read_zmodem_header (ZPAD # ZPAD # ZDLE # inp) out g x"
    by (rule talksI, subst read_zmodem_header.simps)
       (simp add: read_byte_def, subst talksD [OF assms], simp_all)
  show "talks read_zmodem_header (ZPAD # ZDLE # inp) out g x"
    by (rule talksI, subst read_zmodem_header.simps)
       (simp add: read_byte_def distinct, subst talksD [OF assms], simp_all)
qed

lemma talks_skip:
  assumes "talks read_zmodem_header inp out g x" "ZPAD \<notin> set junk"
  shows "talks read_zmodem_header (junk @ inp) out g x"
  using assms(2)
proof (induction junk)
  case (Cons b junk)
  then have ih: "talks read_zmodem_header (junk @ inp) out g x" "b \<noteq> ZPAD" by auto
  show ?case
    by (rule talksI, subst read_zmodem_header.simps)
       (simp add: read_byte_def ih(2), subst talksD [OF ih(1)], simp_all)
qed (simp add: assms(1))

lemma take4: "length p = 4 \<Longrightarrow> take 4 (drop 1 (t # p)) = p"
  by simp

lemma talks_hex_header:
  assumes "length position = 4"
  shows "talks read_zmodem_header (encode_hex_header t position False) [] same_files
    \<lparr>zh_frame_type = t, zh_position = position, zh_encoding = Hex\<rparr>"
proof -
  let ?p = "zframe_byte t # position"
  let ?crc = "crc16_xmodem ?p"
  let ?all = "?p @ be_bytes 2 ?crc"
  have len: "length ?all = 7" using assms by simp
  have bytes: "concat (map hex_byte ?all) = concat (map hex_byte ?p) @ hex_byte (ucast (drop_bit 8 ?crc)) @ hex_byte (ucast ?crc)"
    by (simp add: be_bytes_def numeral_2_eq_2)
  have five: "take 5 ?all = ?p" "drop 5 ?all = be_bytes 2 ?crc" "?all ! 0 = zframe_byte t" "take 4 (drop 1 ?all) = position"
    using assms by simp_all
  have check: "of_be_bytes (be_bytes 2 ?crc) = ?crc" by (rule of_be_be_bytes) simp
  have line: "talks consume_hex_header_line_end [0x0D, 0x8A] [] same_files ()"
    unfolding consume_hex_header_line_end_def
    by (rule talks_read_then, simp, rule talks_read_then) (simp add: talks_return)
  have frame: "talks (io_lift (ok_or InvalidFrameType (zframe_from_byte (?all ! 0)))) [] [] same_files t"
    by (rule talks_lift) (simp add: five)
  have tail: "talks (io_bind (io_lift (ok_or InvalidFrameType (zframe_from_byte (?all ! 0)))) (\<lambda>t.
           io_return \<lparr>zh_frame_type = t, zh_position = take 4 (drop 1 ?all), zh_encoding = Hex\<rparr>)) [] [] same_files
      \<lparr>zh_frame_type = t, zh_position = position, zh_encoding = Hex\<rparr>"
    by (rule talks_bind [OF frame]) (simp_all only: five talks_return same_files_comp append_Nil)
  have "talks read_hex_zheader (concat (map hex_byte ?all) @ [0x0D, 0x8A]) [] same_files
      \<lparr>zh_frame_type = t, zh_position = position, zh_encoding = Hex\<rparr>"
    unfolding read_hex_zheader_def
  proof (rule talks_bind [OF talks_hex_pairs [of ?all, unfolded len]])
    show "talks (if crc16_xmodem (take 5 ?all) \<noteq> of_be_bytes (drop 5 ?all) then io_fail (ProtocolError InvalidCrc)
       else
         io_bind consume_hex_header_line_end (\<lambda>_.
         io_bind (io_lift (ok_or InvalidFrameType (zframe_from_byte (?all ! 0)))) (\<lambda>t.
           io_return \<lparr>zh_frame_type = t, zh_position = take 4 (drop 1 ?all), zh_encoding = Hex\<rparr>)))
      [0x0D, 0x8A] [] same_files \<lparr>zh_frame_type = t, zh_position = position, zh_encoding = Hex\<rparr>"
      unfolding five check
      by (subst if_not_P, simp, rule talks_bind [OF line], rule tail [unfolded five], simp_all)
  qed simp_all
  then have "talks read_zheader_body (ZHEX # (concat (map hex_byte ?all) @ [0x0D, 0x8A])) [] same_files
      \<lparr>zh_frame_type = t, zh_position = position, zh_encoding = Hex\<rparr>"
    unfolding read_zheader_body_def by (intro talks_read_then) simp
  from talks_zpads(1) [OF this] show ?thesis
    unfolding encode_hex_header_def Let_def bytes by (simp del: concat.simps list.map)
qed

section \<open>Escaping is transparent\<close>

declare collect_zdata.simps [simp del]

lemma escaped_followup:
  assumes "b AND 0x60 = 0"
  shows "(b XOR 0x40) AND 0x60 = (0x40 :: byte)" "b XOR 0x40 \<noteq> ZRUB0" "b XOR 0x40 \<noteq> ZRUB1"
    "end_from_marker (b XOR 0x40) = None" "(b XOR 0x40) XOR 0x40 = b"
proof -
  have "(b XOR 0x40) AND 0x60 = (b AND 0x60) XOR (0x40 AND 0x60)" by (rule bit.conj_xor_distrib2)
  then show and60: "(b XOR 0x40) AND 0x60 = (0x40 :: byte)" using assms by simp
  have no: "b XOR 0x40 \<noteq> m" if "m AND 0x60 = 0x60" for m using and60 that by auto
  show "b XOR 0x40 \<noteq> ZRUB0" "b XOR 0x40 \<noteq> ZRUB1" "end_from_marker (b XOR 0x40) = None"
    using no [of ZCRCE] no [of ZCRCG] no [of ZCRCQ] no [of ZCRCW] no [of ZRUB0] no [of ZRUB1]
    by (auto simp: ZRUB0_def ZRUB1_def end_from_marker_def ZCRCE_def ZCRCG_def ZCRCQ_def ZCRCW_def)
  show "(b XOR 0x40) XOR 0x40 = b" by (simp only: xor.assoc xor_self_eq xor.right_neutral)
qed

lemma zdle_escaped_cases:
  obtains (escaped) "zdle_escaped esc b = [ZDLE, b XOR 0x40]" "b AND 0x60 = 0"
  | (plain) "zdle_escaped esc b = [b]" "b \<noteq> ZDLE" "\<not> flow_control b"
proof (cases "should_escape_zdle b \<or> esc \<and> b AND 0x60 = 0")
  case True
  then show ?thesis by (intro escaped) (auto simp: zdle_escaped_def should_escape_zdle_def ZDLE_def)
next
  case False
  then show ?thesis by (intro plain) (auto simp: zdle_escaped_def should_escape_zdle_def flow_control_def XON_def)
qed

lemma zdle_not_flow [simp]: "\<not> flow_control ZDLE"
  by (simp add: flow_control_def ZDLE_def XON_def)

lemma followup_escaped: "b AND 0x60 = 0 \<Longrightarrow> decode_zescaped_followup (b XOR 0x40) io = (Inr b, io)"
  using escaped_followup [of b] by (simp add: decode_zescaped_followup_def io_return_def)

lemma talks_zescaped: "talks read_zescaped_byte (zdle_escaped esc b) [] same_files b"
proof (rule zdle_escaped_cases [of esc b])
  assume "zdle_escaped esc b = [ZDLE, b XOR 0x40]" "b AND 0x60 = 0"
  then show ?thesis
    by (intro talksI, subst read_zescaped_byte.simps)
       (simp add: read_byte_def io_bind_def followup_escaped same_files_def)
next
  assume "zdle_escaped esc b = [b]" "b \<noteq> ZDLE" "\<not> flow_control b"
  then show ?thesis
    by (intro talksI, subst read_zescaped_byte.simps) (simp add: read_byte_def same_files_def)
qed

lemma zdle_escape_Cons [simp]: "zdle_escape esc (b # bs) = zdle_escaped esc b @ zdle_escape esc bs"
  and zdle_escape_Nil [simp]: "zdle_escape esc [] = []"
  and zdle_escape_append: "zdle_escape esc (as @ bs) = zdle_escape esc as @ zdle_escape esc bs"
  by (simp_all add: zdle_escape_def)

lemma talks_zescaped_many: "talks (read_zescaped (length bs)) (zdle_escape esc bs) [] same_files bs"
proof (induction bs)
  case (Cons b bs)
  have rest: "talks (io_bind (read_zescaped (length bs)) (\<lambda>bs'. io_return (b # bs'))) (zdle_escape esc bs) [] same_files (b # bs)"
    by (rule talks_bind [OF Cons]) (simp_all add: talks_return)
  show ?case unfolding length_Cons read_zescaped.simps
    by (rule talks_bind [OF talks_zescaped [of esc b]], rule rest) simp_all
qed (simp add: talks_return)

lemma talks_collect:
  "length p + length payload \<le> m \<Longrightarrow>
   talks (collect_zdata m p) (zdle_escape esc payload @ [ZDLE, end_marker e]) [] same_files (p @ payload, e)"
proof (induction payload arbitrary: p)
  case Nil
  show ?case
    by (intro talksI, subst collect_zdata.simps) (simp add: read_byte_def same_files_def)
next
  case (Cons b payload)
  then have room: "\<not> m \<le> length p" and ih: "talks (collect_zdata m (p @ [b]))
      (zdle_escape esc payload @ [ZDLE, end_marker e]) [] same_files ((p @ [b]) @ payload, e)"
    using Cons.IH [of "p @ [b]"] by auto
  show ?case
  proof (rule zdle_escaped_cases [of esc b])
    assume b: "zdle_escaped esc b = [ZDLE, b XOR 0x40]" "b AND 0x60 = 0"
    show ?thesis
      by (intro talksI, subst collect_zdata.simps)
         (simp add: b read_byte_def followup_escaped escaped_followup(4) [OF b(2)] room, subst talksD [OF ih], simp_all)
  next
    assume "zdle_escaped esc b = [b]" "b \<noteq> ZDLE" "\<not> flow_control b"
    then show ?thesis
      by (intro talksI, subst collect_zdata.simps)
         (simp add: read_byte_def room, subst talksD [OF ih], simp_all)
  qed
qed

lemma le_bytes_4: "length (le_bytes 4 (w :: u32)) = 4" "of_le_bytes (le_bytes 4 w) = w"
  by (simp_all add: le_bytes_def of_le_bytes_def)

text \<open>A data subpacket without the flow control byte that follows the last one.\<close>

definition zframe_bytes :: "bytes \<Rightarrow> zdata_end \<Rightarrow> bool \<Rightarrow> bool \<Rightarrow> bytes" where
  "zframe_bytes payload e wide esc =
     zdle_escape esc payload @ [ZDLE, end_marker e] @
     zdle_escape esc (if wide then le_bytes 4 (crc32_ieee (payload @ [end_marker e]))
                      else be_bytes 2 (crc16_xmodem (payload @ [end_marker e])))"

lemma encode_zdata_frame:
  "encode_zdata payload e wide esc = zframe_bytes payload e wide esc @ (if e = DataEndWithAck then [XON] else [])"
  by (simp add: encode_zdata_def zframe_bytes_def Let_def)

text \<open>
  Data subpackets are transparent. Whatever the bytes of the payload, for both checksums,
  with and without the escaping of control characters, and for every kind of end, the reader returns exactly
  the payload and the end, has consumed exactly the subpacket, and needs no more room than the payload.
\<close>
theorem zdata_transparent:
  assumes "length payload \<le> m" "mio_input io = map Arrives (zframe_bytes payload e wide esc) @ rest"
  shows "read_zmodem_data wide m io = (Inr \<lparr>zd_payload = payload, zd_end = e\<rparr>, io\<lparr>mio_input := rest\<rparr>)"
proof -
  let ?guarded = "payload @ [end_marker e]"
  have wide: "talks (read_zescaped 4) (zdle_escape esc (le_bytes 4 (crc32_ieee ?guarded))) [] same_files (le_bytes 4 (crc32_ieee ?guarded))"
    using talks_zescaped_many [of "le_bytes 4 (crc32_ieee ?guarded)" esc] by (simp add: le_bytes_4)
  have narrow: "talks (read_zescaped 2) (zdle_escape esc (be_bytes 2 (crc16_xmodem ?guarded))) [] same_files (be_bytes 2 (crc16_xmodem ?guarded))"
    using talks_zescaped_many [of "be_bytes 2 (crc16_xmodem ?guarded)" esc] by simp
  obtain x y where xy: "be_bytes 2 (crc16_xmodem ?guarded) = [x, y]" by (simp add: be_bytes_def numeral_2_eq_2)
  then have zero: "crc16_xmodem (payload @ [end_marker e] @ be_bytes 2 (crc16_xmodem ?guarded)) = 0"
    using crc16_zero_iff [of ?guarded x y] by simp
  have collect: "talks (collect_zdata m []) (zdle_escape esc payload @ [ZDLE, end_marker e]) [] same_files (payload, e)"
    using talks_collect [of "[]" payload m esc e] assms(1) by simp
  have "talks (read_zmodem_data wide m) (zframe_bytes payload e wide esc) [] same_files \<lparr>zd_payload = payload, zd_end = e\<rparr>"
  proof (cases wide)
    case True
    then have is_wide: "wide = True" by simp
    show ?thesis unfolding read_zmodem_data_def zframe_bytes_def is_wide
      by (rule talks_bind [OF collect], simp only: prod.case if_True, rule talks_bind [OF wide])
         (simp_all add: le_bytes_4 talks_return)
  next
    case False
    then have not_wide: "wide = False" by simp
    show ?thesis unfolding read_zmodem_data_def zframe_bytes_def not_wide
      by (rule talks_bind [OF collect], simp only: prod.case if_False, rule talks_bind [OF narrow])
         (simp_all add: zero [simplified] talks_return)
  qed
  from talksD [OF this assms(2)] show ?thesis by (simp add: same_files_def)
qed

lemma zdata_transparent_witness:
  "fst (read_zmodem_data True 4 (io_with_input (zframe_bytes [0x18, 0x11, 0x68] DataContinue True True))) =
     Inr \<lparr>zd_payload = [0x18, 0x11, 0x68], zd_end = DataContinue\<rparr>"
  using zdata_transparent [of "[0x18, 0x11, 0x68]" 4 "io_with_input (zframe_bytes [0x18, 0x11, 0x68] DataContinue True True)"
      DataContinue True True "[]"]
  by (simp add: io_with_input_def)

section \<open>Binary headers\<close>

lemma talks_bin32_header:
  assumes "length position = 4"
  shows "talks read_zmodem_header (encode_bin32_header t position esc) [] same_files
    \<lparr>zh_frame_type = t, zh_position = position, zh_encoding = Bin32\<rparr>"
proof -
  let ?p = "zframe_byte t # position"
  let ?all = "?p @ le_bytes 4 (crc32_ieee ?p)"
  have len: "length ?all = 5 + (if True then 4 else 2)" using assms by (simp add: le_bytes_4)
  have five: "take 5 ?all = ?p" "drop 5 ?all = le_bytes 4 (crc32_ieee ?p)" "?all ! 0 = zframe_byte t" "take 4 (drop 1 ?all) = position"
    using assms by (simp_all add: le_bytes_4)
  have frame: "talks (io_lift (ok_or InvalidFrameType (zframe_from_byte (?all ! 0)))) [] [] same_files t"
    by (rule talks_lift) (simp add: five)
  have tail: "talks (io_bind (io_lift (ok_or InvalidFrameType (zframe_from_byte (?all ! 0)))) (\<lambda>t.
           io_return \<lparr>zh_frame_type = t, zh_position = take 4 (drop 1 ?all), zh_encoding = Bin32\<rparr>)) [] [] same_files
      \<lparr>zh_frame_type = t, zh_position = position, zh_encoding = Bin32\<rparr>"
    by (rule talks_bind [OF frame]) (simp_all only: five talks_return same_files_comp append_Nil)
  have "talks (read_binary_zheader True) (zdle_escape esc ?all) [] same_files
      \<lparr>zh_frame_type = t, zh_position = position, zh_encoding = Bin32\<rparr>"
    unfolding read_binary_zheader_def
  proof (rule talks_bind [OF talks_zescaped_many [of ?all esc, unfolded len]])
    show "talks (if if True then crc32_ieee (take 5 ?all) \<noteq> of_le_bytes (drop 5 ?all) else crc16_xmodem (take 7 ?all) \<noteq> 0
       then io_fail (ProtocolError InvalidCrc)
       else
         io_bind (io_lift (ok_or InvalidFrameType (zframe_from_byte (?all ! 0)))) (\<lambda>t.
           io_return \<lparr>zh_frame_type = t, zh_position = take 4 (drop 1 ?all), zh_encoding = (if True then Bin32 else Bin16)\<rparr>))
      [] [] same_files \<lparr>zh_frame_type = t, zh_position = position, zh_encoding = Bin32\<rparr>"
      unfolding five if_True le_bytes_4 by (subst if_not_P, simp, rule tail [unfolded five])
  qed simp_all
  then have "talks read_zheader_body (ZBIN32 # zdle_escape esc ?all) [] same_files
      \<lparr>zh_frame_type = t, zh_position = position, zh_encoding = Bin32\<rparr>"
    unfolding read_zheader_body_def
    by (intro talks_read_then) (simp add: ZBIN32_def ZHEX_def ZBIN_def)
  from talks_zpads(2) [OF this] show ?thesis
    unfolding encode_bin32_header_def Let_def by (simp add: zdle_escape_append)
qed

text \<open>
  Property C21: 16-bit binary headers written by the sender cannot be read. The encoder feeds two more zero
  bytes into a CRC-16 that is already final, while the reader (like every other ZMODEM program) expects the plain CRC:
  the header is accepted only for the few contents whose CRC those two bytes leave unchanged, and otherwise
  refused with a CRC error.
\<close>
theorem bin16_header_unreadable:
  assumes "length position = 4"
  shows "fst (read_zmodem_header (io_with_input (encode_bin16_header t position esc))) =
    (let crc = crc16_xmodem (zframe_byte t # position) in
     if crc16_xmodem_update (crc16_xmodem_update crc 0) 0 = crc
     then Inr \<lparr>zh_frame_type = t, zh_position = position, zh_encoding = Bin16\<rparr>
     else Inl (ProtocolError InvalidCrc))"
proof -
  let ?p = "zframe_byte t # position"
  let ?crc = "crc16_xmodem ?p"
  let ?sent = "crc16_xmodem_update (crc16_xmodem_update ?crc 0) 0"
  let ?all = "?p @ be_bytes 2 ?sent"
  let ?io = "io_with_input (encode_bin16_header t position esc)"
  have len: "length ?all = 5 + (if False then 4 else 2)" using assms by simp
  obtain x y where xy: "be_bytes 2 ?sent = [x, y]" by (simp add: be_bytes_def numeral_2_eq_2)
  have seven: "take 7 ?all = ?p @ [x, y]" "?all ! 0 = zframe_byte t" "take 4 (drop 1 ?all) = position"
    using assms by (simp_all add: xy)
  have zero: "crc16_xmodem (?p @ [x, y]) = 0 \<longleftrightarrow> be_bytes 2 ?sent = be_bytes 2 ?crc"
    unfolding crc16_zero_iff xy ..
  have check: "crc16_xmodem (take 7 ?all) = 0 \<longleftrightarrow> ?sent = ?crc"
    unfolding seven(1) zero using be_bytes_inj [of 2 ?sent ?crc] by auto
  have enc: "encode_bin16_header t position esc = ZPAD # ZDLE # ZBIN # zdle_escape esc ?all"
    by (simp add: encode_bin16_header_def Let_def zdle_escape_append be_bytes_def numeral_2_eq_2)
  define all where "all = ?all"
  have body: "read_binary_zheader False (io\<lparr>mio_input := map Arrives (zdle_escape esc all)\<rparr>) =
      (if crc16_xmodem (take 7 all) = 0
       then (Inr \<lparr>zh_frame_type = t, zh_position = position, zh_encoding = Bin16\<rparr>, io\<lparr>mio_input := []\<rparr>)
       else (Inl (ProtocolError InvalidCrc), io\<lparr>mio_input := []\<rparr>))" for io
  proof -
    have "read_zescaped (5 + (if False then 4 else 2)) (io\<lparr>mio_input := map Arrives (zdle_escape esc all)\<rparr>) =
        (Inr all, io\<lparr>mio_input := []\<rparr>)"
      by (subst talksD [OF talks_zescaped_many [of ?all esc, unfolded len, folded all_def], of _ "[]"])
         (simp_all add: same_files_def)
    then show ?thesis
      unfolding read_binary_zheader_def io_bind_def using seven(2,3) [folded all_def]
      by (simp add: io_fail_def io_lift_def io_return_def)
  qed
  have "read_zmodem_header ?io = read_binary_zheader False (\<lparr>mio_input = [], mio_output = [], mio_files = [[]]\<rparr>
      \<lparr>mio_input := map Arrives (zdle_escape esc all)\<rparr>)"
    unfolding enc all_def [symmetric]
    by (subst read_zmodem_header.simps)
       (simp add: io_with_input_def read_byte_def read_zheader_body_def io_bind_def ZPAD_def ZDLE_def ZBIN_def ZHEX_def ZBIN32_def)
  then show ?thesis unfolding body check [folded all_def] by (simp add: Let_def)
qed

lemma eight_times: "(f ^^ 8) x = f (f (f (f (f (f (f (f x)))))))"
  by (simp add: numeral_eq_Suc)

lemma bin16_header_unreadable_witness:
  "fst (read_zmodem_header (io_with_input (encode_bin16_header ZFile ZFILE_BINARY_FLAGS False))) =
     Inl (ProtocolError InvalidCrc)"
proof -
  have "crc16_xmodem_update (crc16_xmodem_update (crc16_xmodem (zframe_byte ZFile # ZFILE_BINARY_FLAGS)) 0) 0 \<noteq>
      crc16_xmodem (zframe_byte ZFile # ZFILE_BINARY_FLAGS)" 
    by (simp add: crc16_xmodem_def crc16_xmodem_update_def eight_times crc16_bit_def ZFILE_BINARY_FLAGS_def)
  then show ?thesis using bin16_header_unreadable [of ZFILE_BINARY_FLAGS ZFile False]
    by (simp add: ZFILE_BINARY_FLAGS_def Let_def)
qed

text \<open>
  A single star before a hexadecimal header hides it. After two pads the reader wants the escape
  byte and otherwise starts over behind the third byte, so a third star is taken for a wrong escape byte and the
  header that it belongs to is skipped: the reader waits until it times out.
\<close>
theorem stray_pad_hides_header:
  assumes "length position = 4"
  shows "fst (read_zmodem_header (io_with_input (ZPAD # encode_hex_header t position False))) = Inl Timeout"
proof -
  let ?body = "concat (map hex_byte (zframe_byte t # position)) @
      hex_byte (ucast (drop_bit 8 (crc16_xmodem (zframe_byte t # position)))) @
      hex_byte (ucast (crc16_xmodem (zframe_byte t # position))) @ [0x0D, 0x8A]"
  have hex: "hex_char n \<noteq> ZPAD" if "n < 16" for n
    using hex_char_value [OF that] by (auto simp: hex_value_def ZPAD_def)
  then have "ZPAD \<notin> set (hex_byte b)" for b
    using hex [of "drop_bit 4 b"] hex [of "b AND 0x0F"] nibbles [of b] by (auto simp: hex_byte_def dest: sym)
  then have quiet: "ZPAD \<notin> set (ZDLE # ZHEX # ?body)" by (auto simp: ZPAD_def ZDLE_def ZHEX_def)
  have waits: "ZPAD \<notin> set bs \<Longrightarrow> mio_input io = map Arrives bs \<Longrightarrow> fst (read_zmodem_header io) = Inl Timeout" for bs io
  proof (induction bs arbitrary: io)
    case (Cons b bs)
    then have "b \<noteq> ZPAD" by auto
    with Cons show ?case by (subst read_zmodem_header.simps) (simp add: read_byte_def)
  qed (subst read_zmodem_header.simps, simp add: read_byte_def)
  have "ZPAD # encode_hex_header t position False = ZPAD # ZPAD # ZPAD # ZDLE # ZHEX # ?body"
    by (simp add: encode_hex_header_def Let_def)
  then have "read_zmodem_header (io_with_input (ZPAD # encode_hex_header t position False)) =
      read_zmodem_header (io_with_input (ZDLE # ZHEX # ?body))"
    by (simp add: io_with_input_def, subst read_zmodem_header.simps) (simp add: read_byte_def ZPAD_def ZDLE_def)
  then show ?thesis using waits [OF quiet] by (simp add: io_with_input_def)
qed

lemma stray_pad_hides_header_witness:
  "fst (read_zmodem_header (io_with_input (ZPAD # encode_hex_header ZrqInit [0, 0, 0, 0] False))) = Inl Timeout"
  by (rule stray_pad_hides_header) simp

end
