(* ===== verification/Modem_Zdelivery.thy ===== *)
theory Modem_Zdelivery
  imports Modem_Ztransfer
begin

text \<open>
  What ZMODEM transfers achieve. The first part is about the receiver alone and any input: which bytes are in the
  files when a reception succeeds. The second part puts the sender and the receiver of
  \<open>crates/oxideterm-modem-transfer/src/zmodem_transfer.rs\<close> together: the conversation of a batch, frame by frame,
  with the bytes of each side as the input of the other.
\<close>

section \<open>What a reception writes\<close>

text \<open>Operations that write to no file.\<close>

definition quiet :: "'a io \<Rightarrow> bool" where
  "quiet m \<longleftrightarrow> (\<forall>io. mio_files (snd (m io)) = mio_files io)"

named_theorems quiet_intros \<open>operations that write to no file\<close>

lemma quietD: "quiet m \<Longrightarrow> m io = (r, io') \<Longrightarrow> mio_files io' = mio_files io"
  by (auto simp: quiet_def dest: spec [of _ io])

lemma quietI: "(\<And>io r io'. m io = (r, io') \<Longrightarrow> mio_files io' = mio_files io) \<Longrightarrow> quiet m"
  by (simp add: quiet_def) (metis prod.collapse)

lemma quiet_bind [quiet_intros]: "quiet m \<Longrightarrow> (\<And>x. quiet (f x)) \<Longrightarrow> quiet (io_bind m f)"
  by (simp add: quiet_def io_bind_def split: prod.split sum.split) (metis snd_conv)

lemma quiet_basic [quiet_intros]:
  "quiet (io_return x)" "quiet (io_fail e)" "quiet (io_lift r)" "quiet (io_try t)" "quiet (write_all bs)" "quiet read_byte"
  by (auto simp: quiet_def io_defs io_try_def read_byte_def split: list.split io_event.split sum.split)

lemma quiet_cases [quiet_intros]:
  "quiet m \<Longrightarrow> quiet m' \<Longrightarrow> quiet (if c then m else m')"
  "quiet m \<Longrightarrow> (\<And>x. quiet (f x)) \<Longrightarrow> quiet (case v of None \<Rightarrow> m | Some x \<Rightarrow> f x)"
  "(\<And>x. quiet (g x)) \<Longrightarrow> (\<And>x. quiet (f x)) \<Longrightarrow> quiet (case w of Inl x \<Rightarrow> g x | Inr x \<Rightarrow> f x)"
  by (auto split: option.split sum.split)

lemma quiet_prod [quiet_intros]: "(\<And>a b. quiet (f a b)) \<Longrightarrow> quiet (case p of (a, b) \<Rightarrow> f a b)"
  by (cases p) simp

lemma quiet_followup [quiet_intros]: "quiet (decode_zescaped_followup b)"
proof -
  have "quiet (expect_zdles n)" for n by (induction n) (auto intro: quiet_intros)
  then show ?thesis unfolding decode_zescaped_followup_def by (intro quiet_intros)
qed

lemma quiet_zescaped [quiet_intros]: "quiet read_zescaped_byte"
proof -
  have "mio_files (snd (read_zescaped_byte io)) = mio_files io" for io
  proof (induction io rule: read_zescaped_byte.induct)
    case (1 io)
    have "quiet (io_bind read_byte decode_zescaped_followup)" by (intro quiet_intros)
    then show ?case
      using 1 by (subst read_zescaped_byte.simps)
        (auto simp: quiet_def split: prod.split sum.split dest!: quietD [OF quiet_basic(6)])
  qed
  then show ?thesis by (simp add: quiet_def)
qed

lemma quiet_zescaped_many [quiet_intros]: "quiet (read_zescaped n)"
  by (induction n) (auto intro: quiet_intros)

lemma quiet_zheader_body [quiet_intros]: "quiet read_zheader_body"
proof -
  have "quiet read_hex_nibble" unfolding read_hex_nibble_def by (intro quiet_intros)
  then have "quiet (read_hex_pairs n)" for n by (induction n) (auto intro: quiet_intros)
  then show ?thesis
    unfolding read_zheader_body_def read_hex_zheader_def read_binary_zheader_def consume_hex_header_line_end_def
    by (intro quiet_intros)
qed

lemma quiet_zheader [quiet_intros]: "quiet read_zmodem_header"
proof -
  have "mio_files (snd (read_zmodem_header io)) = mio_files io" for io
  proof (induction io rule: read_zmodem_header.induct)
    case (1 io)
    show ?case
      using 1 quiet_zheader_body
      by (subst read_zmodem_header.simps)
        (auto simp: quiet_def split: prod.split sum.split dest!: quietD [OF quiet_basic(6)])
  qed
  then show ?thesis by (simp add: quiet_def)
qed

lemma quiet_collect [quiet_intros]: "quiet (collect_zdata m p)"
proof -
  have "mio_files (snd (collect_zdata m p io)) = mio_files io" for io
  proof (induction m p io rule: collect_zdata.induct)
    case (1 m p io)
    show ?case
      using 1 by (subst collect_zdata.simps)
        (auto split: prod.split sum.split option.split dest!: quietD [OF quiet_basic(6)] quietD [OF quiet_followup])
  qed
  then show ?thesis by (simp add: quiet_def)
qed

lemma quiet_zdata [quiet_intros]: "quiet (read_zmodem_data wide m)"
  unfolding read_zmodem_data_def by (intro quiet_intros)

lemma quiet_writes [quiet_intros]: "quiet (write_zheader t p)" "quiet (write_zposition t n)" "quiet send_zrinit"
  unfolding write_zposition_def send_zrinit_def write_zheader_def by (intro quiet_intros)+

lemma quiet_finish [quiet_intros]: "quiet finish_zmodem_receive"
proof -
  have "mio_files (snd (finish_loop a b io)) = mio_files io" for a b io
  proof (induction a b io rule: finish_loop.induct)
    case (1 a b io)
    obtain q io1 where one: "read_byte io = (q, io1)" by fastforce
    note files1 = quietD [OF quiet_basic(6) one]
    show ?case
    proof (cases q)
      case (Inr b)
      then show ?thesis using 1 [OF one [symmetric] Inr refl _ refl] one files1
        by (subst finish_loop.simps) (auto simp: Let_def split: if_splits)
    qed (use one files1 in \<open>subst finish_loop.simps, simp\<close>)
  qed
  then have "quiet (finish_loop a b)" for a b by (simp add: quiet_def)
  then show ?thesis unfolding finish_zmodem_receive_def by (intro quiet_intros)
qed

text \<open>The subpackets of a data header are appended to the open file, and counted.\<close>

lemma frames_append:
  "zreceive_frames wide fs n io = (Inr m, io') \<Longrightarrow> mio_files io = F @ [c] \<Longrightarrow>
   \<exists>d. mio_files io' = F @ [c @ d] \<and> m = n + length d"
proof (induction wide fs n io arbitrary: c rule: zreceive_frames.induct)
  case (1 wide fs n io)
  obtain q io1 where one: "read_zmodem_data wide ZMODEM_MAX_CHUNK io = (q, io1)" by fastforce
  have files1: "mio_files io1 = F @ [c]" using quietD [OF quiet_zdata one] "1.prems"(2) by simp
  show ?case
  proof (cases q)
    case (Inl e)
    then have "io_bind (write_zposition ZRpos n) (\<lambda>_. io_return n) io1 = (Inr m, io')"
      using "1.prems"(1) one by (subst (asm) zreceive_frames.simps) (simp split: if_splits)
    then have "m = n" "mio_files io' = mio_files io1"
      by (auto simp: io_bind_Inr io_return_def dest: quietD [OF quiet_writes(2)])
    then show ?thesis using files1 by (intro exI [of _ "[]"]) simp
  next
    case (Inr frame)
    let ?next = "n + length (zd_payload frame)" and ?io2 = "snd (write_file (zd_payload frame) io1)"
    have small: "\<not> 2 ^ 64 \<le> ?next"
      using "1.prems"(1) one Inr by (subst (asm) zreceive_frames.simps) (auto simp: Let_def split: if_splits)
    then have fit: "\<not> 2 ^ 64 \<le> ?next" "\<not> (case fs of Some sz \<Rightarrow> unat sz < ?next | None \<Rightarrow> False)"
      using "1.prems"(1) one Inr by (subst (asm) zreceive_frames.simps; auto simp: Let_def split: if_splits)+
    have files2: "mio_files ?io2 = F @ [c @ zd_payload frame]"
      using files1 by (simp add: write_file_def append_file_def)
    note IH = "1.IH" [OF one [symmetric] Inr refl fit refl]
    obtain a io3 where ack: "write_zposition ZAck ?next ?io2 = (a, io3)" by fastforce
    have files3: "mio_files io3 = F @ [c @ zd_payload frame]" using quietD [OF quiet_writes(2) ack] files2 by simp
    have run: "(case zd_end frame of
                DataContinue \<Rightarrow> zreceive_frames wide fs ?next ?io2
              | DataContinueWithAck \<Rightarrow> (case (a, io3) of (Inl e, io3) \<Rightarrow> (Inl e, io3)
                   | (Inr _, io3) \<Rightarrow> zreceive_frames wide fs ?next io3)
              | DataEnd \<Rightarrow> (Inr ?next, ?io2)
              | DataEndWithAck \<Rightarrow> io_bind (write_zposition ZAck ?next) (\<lambda>_. io_return ?next) ?io2) = (Inr m, io')"
      using "1.prems"(1) one Inr fit ack
      by (subst (asm) zreceive_frames.simps) (simp add: Let_def cong: zdata_end.case_cong)
    show ?thesis
    proof (cases "zd_end frame")
      case DataEnd
      then show ?thesis using run files2 by auto
    next
      case DataContinue
      then show ?thesis using IH(1) [OF DataContinue _ files2] run by fastforce
    next
      case DataContinueWithAck
      then obtain u where "a = Inr u" "zreceive_frames wide fs ?next io3 = (Inr m, io')"
        using run by (cases a) auto
      then show ?thesis using IH(2) [OF DataContinueWithAck ack [symmetric] _ _ files3] by fastforce
    next
      case DataEndWithAck
      then show ?thesis using run ack files3 by (auto simp: io_bind_Inr io_return_def)
    qed
  qed
qed

text \<open>A file is finished only at its declared size.\<close>

definition size_reached :: "u64 option \<Rightarrow> nat \<Rightarrow> bool" where
  "size_reached fs n \<longleftrightarrow> (case fs of Some sz \<Rightarrow> unat sz = n | None \<Rightarrow> True)"

lemma data_append:
  "zreceive_data fs n io = (Inr u, io') \<Longrightarrow> mio_files io = F @ [c] \<Longrightarrow> length c = n \<Longrightarrow>
   \<exists>d. mio_files io' = F @ [c @ d] \<and> size_reached fs (length (c @ d))"
proof (induction fs n io arbitrary: c rule: zreceive_data.induct)
  case (1 fs n io)
  obtain q io1 where one: "read_zmodem_header io = (q, io1)" by fastforce
  then obtain h where q: "q = Inr h" using "1.prems"(1) by (subst (asm) zreceive_data.simps) (cases q; simp)
  have files1: "mio_files io1 = F @ [c]" using quietD [OF quiet_zheader one] "1.prems"(2) by simp
  note IH = "1.IH" [OF one [symmetric] q]
  obtain a io2 where pos: "write_zposition ZRpos n io1 = (a, io2)" by fastforce
  have files2: "mio_files io2 = F @ [c]" using quietD [OF quiet_writes(2) pos] files1 by simp
  obtain f io3 where frames: "zreceive_frames (zh_encoding h = Bin32) fs n io1 = (f, io3)" by fastforce
  note unfolded = "1.prems"(1) [unfolded zreceive_data.simps [of fs n io] one q prod.case sum.case]
  consider (at) "zh_frame_type h = ZData" "unat (position_u32 h) = n"
    | (off) "zh_frame_type h = ZData" "unat (position_u32 h) \<noteq> n"
    | (early) "zh_frame_type h = ZEof" "unat (position_u32 h) \<noteq> n \<or> (case fs of Some sz \<Rightarrow> unat sz \<noteq> n | None \<Rightarrow> False)"
    | (finished) "zh_frame_type h = ZEof" "\<not> (unat (position_u32 h) \<noteq> n \<or> (case fs of Some sz \<Rightarrow> unat sz \<noteq> n | None \<Rightarrow> False))"
    | (other) "zh_frame_type h \<noteq> ZData" "zh_frame_type h \<noteq> ZEof" by blast
  then show ?case
  proof cases
    case at
    then obtain m where f: "f = Inr m" "zreceive_data fs m io3 = (Inr u, io')"
      using unfolded frames by (cases f) simp_all
    obtain d where d: "mio_files io3 = F @ [c @ d]" "m = n + length d"
      using frames_append [OF frames [unfolded f(1)] files1] by blast
    have "\<exists>d'. mio_files io' = F @ [(c @ d) @ d'] \<and> size_reached fs (length ((c @ d) @ d'))"
      using IH(2) [OF at(1) _ frames [symmetric] f(1) f(2) d(1)] at(2) d(2) "1.prems"(3) by simp
    then show ?thesis by (metis append_assoc)
  next
    case off
    then obtain v where "a = Inr v" "zreceive_data fs n io2 = (Inr u, io')"
      using unfolded pos by (cases a) simp_all
    then show ?thesis using IH(1) [OF off pos [symmetric] _ _ files2 "1.prems"(3)] by blast
  next
    case early
    then obtain v where "a = Inr v" "zreceive_data fs n io2 = (Inr u, io')"
      using unfolded pos by (cases a) simp_all
    then show ?thesis using IH(3) [OF early pos [symmetric] _ _ files2 "1.prems"(3)] by blast
  next
    case finished
    then have "send_zrinit io1 = (Inr u, io')" using unfolded by simp
    then have "mio_files io' = F @ [c]" using quietD [OF quiet_writes(3)] files1 by fastforce
    then show ?thesis using finished(2) "1.prems"(3)
      by (intro exI [of _ "[]"]) (auto simp: size_reached_def split: option.splits)
  next
    case other
    then show ?thesis using unfolded by (cases "zh_frame_type h") simp_all
  qed
qed

lemma zfile_append:
  assumes "zreceive_file open_writer h io = (Inr r, io')"
  shows "case r of None \<Rightarrow> mio_files io' = mio_files io
    | Some f \<Rightarrow> \<exists>c. mio_files io' = mio_files io @ [c] \<and> size_reached (zf_file_size f) (length c)"
proof -
  obtain frame io1 where one: "read_zmodem_data (zh_encoding h = Bin32) ZMODEM_MAX_CHUNK io = (Inr frame, io1)"
    "zd_end frame = DataEndWithAck"
    using assms by (auto simp: zreceive_file_def io_bind_Inr io_fail_def split: if_splits)
  have files1: "mio_files io1 = mio_files io" by (rule quietD [OF quiet_zdata one(1)])
  obtain v where parsed: "parse_zfile_header (zd_payload frame) (zh_position h ! 2) = Inr v"
    using assms one by (auto simp: zreceive_file_def io_bind_Inr io_try_def io_bind_def [of "read_zmodem_data x y" for x y] split: sum.splits)
  show ?thesis
  proof (cases v)
    case None
    have "io_bind finish_zmodem_receive (\<lambda>_. io_return None) io1 = (Inr r, io')"
      using assms one parsed None by (simp add: zreceive_file_def io_bind_def io_try_def)
    moreover have "quiet (io_bind finish_zmodem_receive (\<lambda>_. io_return None))" by (intro quiet_intros)
    ultimately have "mio_files io' = mio_files io1" by (rule quietD [rotated])
    moreover have "r = None" using \<open>io_bind _ _ io1 = _\<close> by (auto simp: io_bind_Inr io_return_def)
    ultimately show ?thesis using files1 by simp
  next
    case (Some f)
    have "io_bind (io_try (case zf_file_size f of Some sz \<Rightarrow> validate_zmodem_file_size sz | None \<Rightarrow> Inr ())) (\<lambda>_.
               io_bind (open_file open_writer f) (\<lambda>_.
               io_bind (write_zposition ZRpos 0) (\<lambda>_.
               io_bind (zreceive_data (zf_file_size f) 0) (\<lambda>_. io_return (Some f))))) io1 = (Inr r, io')"
      using assms one parsed Some by (simp add: zreceive_file_def io_bind_def [of "read_zmodem_data x y" for x y] io_bind_def [of "io_try x" for x] io_try_def)
    then obtain io2 io3 u where steps: "open_file open_writer f io1 = (Inr (), io2)"
      "write_zposition ZRpos 0 io2 = (Inr (), io3)" "zreceive_data (zf_file_size f) 0 io3 = (Inr u, io')" "r = Some f"
      by (auto simp: io_bind_Inr io_return_def io_try_def split: sum.splits)
    have "mio_files io2 = mio_files io @ [[]]"
      using steps(1) files1 by (auto simp: open_file_def split: sum.splits)
    then have "mio_files io3 = mio_files io @ [[]]" using quietD [OF quiet_writes(2) steps(2)] by simp
    from data_append [OF steps(3) this] steps(4) show ?thesis by simp
  qed
qed

lemma loop_append:
  "zreceive_loop open_writer received io = (Inr files, io') \<Longrightarrow>
   \<exists>new contents. files = received @ new \<and> mio_files io' = mio_files io @ contents \<and>
     list_all2 (\<lambda>f c. size_reached (zf_file_size f) (length c)) new contents"
proof (induction open_writer received io rule: zreceive_loop.induct)
  case (1 open_writer received io)
  obtain q io1 where one: "read_zmodem_header io = (q, io1)" by fastforce
  then obtain h where q: "q = Inr h" using "1.prems" by (subst (asm) zreceive_loop.simps) (cases q; simp)
  have files1: "mio_files io1 = mio_files io" by (rule quietD [OF quiet_zheader one])
  note IH = "1.IH" [OF one [symmetric] q]
  note run = "1.prems" [unfolded zreceive_loop.simps [of open_writer received io] one q prod.case sum.case]
  obtain r io2 where got: "zreceive_file open_writer h io1 = (r, io2)" by fastforce
  obtain a io3 where attention: "zreceive_attention h io1 = (a, io3)" by fastforce
  have "quiet (zreceive_attention h)" unfolding zreceive_attention_def by (intro quiet_intros)
  from quietD [OF this attention] have files3: "mio_files io3 = mio_files io" using files1 by simp
  let ?goal = "\<exists>new contents. files = received @ new \<and> mio_files io' = mio_files io @ contents \<and>
     list_all2 (\<lambda>f c. size_reached (zf_file_size f) (length c)) new contents"
  have ends: ?goal if "files = received" "mio_files io' = mio_files io"
    using that by (intro exI [of _ "[]"]) simp
  show ?case
  proof (cases "zh_frame_type h")
    case ZFile
    then obtain v where v: "r = Inr v" using run got by (cases r) simp_all
    note added = zfile_append [OF got [unfolded v]]
    show ?thesis
    proof (cases v)
      case None
      then show ?thesis using run ZFile got v added files1 by (intro ends) simp_all
    next
      case (Some f)
      then have "zreceive_loop open_writer (received @ [f]) io2 = (Inr files, io')"
        using run ZFile got v by simp
      from IH(5) [OF ZFile got [symmetric] v Some this] obtain new contents where new:
        "files = (received @ [f]) @ new" "mio_files io' = mio_files io2 @ contents"
        "list_all2 (\<lambda>f c. size_reached (zf_file_size f) (length c)) new contents" by blast
      obtain c where "mio_files io2 = mio_files io @ [c]" "size_reached (zf_file_size f) (length c)"
        using added Some files1 by auto
      with new show ?thesis by (intro exI [of _ "f # new"] exI [of _ "c # contents"]) simp
    qed
  next
    case ZsInit
    then obtain u where u: "a = Inr u" "zreceive_loop open_writer received io3 = (Inr files, io')"
      using run attention by (cases a) simp_all
    then show ?thesis using IH(3) [OF ZsInit attention [symmetric] u] files3 by simp
  next
    case ZFin
    then have "io_bind finish_zmodem_receive (\<lambda>_. io_return received) io1 = (Inr files, io')" using run by simp
    then show ?thesis using files1
      by (intro ends) (auto simp: io_bind_Inr io_return_def dest: quietD [OF quiet_finish])
  next
    case ZrqInit
    have "mio_files (snd (send_zrinit io1)) = mio_files io" using quiet_writes(3) files1 by (simp add: quiet_def)
    then show ?thesis using IH(1) [OF ZrqInit] run ZrqInit by simp
  qed (use IH run files1 in \<open>simp_all\<close>)
qed

section \<open>Frames both sides agree on\<close>

lemma talks_zdata:
  "length payload \<le> m \<Longrightarrow> talks (read_zmodem_data wide m) (zframe_bytes payload e wide esc) [] same_files
     \<lparr>zd_payload = payload, zd_end = e\<rparr>"
  by (rule talksI) (simp add: zdata_transparent same_files_def)

definition hex_header :: "zframe_type \<Rightarrow> bytes \<Rightarrow> bytes" where
  "hex_header t p = encode_hex_header t p False"

definition position_at :: "nat \<Rightarrow> bytes" where
  "position_at n = position_header (of_nat n)"

lemma length_position_at [simp]: "length (position_at n) = 4"
  by (simp add: position_at_def position_header_def le_bytes_4)

lemma position_at_read [simp]:
  assumes "n \<le> ZMODEM_MAX_POSITION"
  shows "unat (position_u32 \<lparr>zh_frame_type = t, zh_position = position_at n, zh_encoding = enc\<rparr>) = n"
proof -
  have "n < 2 ^ LENGTH(32)" using assms by (simp add: ZMODEM_MAX_POSITION_def)
  then have "unat (of_nat n :: u32) = n" by (simp add: unsigned_of_nat take_bit_nat_eq_self)
  then show ?thesis by (simp add: position_u32_def position_at_def position_header_def le_bytes_4)
qed

lemma length_zrinit [simp]: "length ZRINIT_FLAGS = 4" "length ZFILE_BINARY_FLAGS = 4"
  by (simp_all add: ZRINIT_FLAGS_def ZFILE_BINARY_FLAGS_def)

text \<open>A header is found behind flow control and what is left of the frame before it.\<close>

lemma talks_hex:
  "ZPAD \<notin> set pre \<Longrightarrow> length p = 4 \<Longrightarrow> talks read_zmodem_header (pre @ hex_header t p) [] same_files
     \<lparr>zh_frame_type = t, zh_position = p, zh_encoding = Hex\<rparr>"
  unfolding hex_header_def by (rule talks_skip [OF talks_hex_header])

lemma talks_bin32:
  "ZPAD \<notin> set pre \<Longrightarrow> length p = 4 \<Longrightarrow> talks read_zmodem_header (pre @ encode_bin32_header t p True) [] same_files
     \<lparr>zh_frame_type = t, zh_position = p, zh_encoding = Bin32\<rparr>"
  by (rule talks_skip [OF talks_bin32_header])

lemma xon_no_pad [simp]: "ZPAD \<noteq> XON" "XON \<noteq> ZPAD"
  by (simp_all add: ZPAD_def XON_def)

lemma talks_try: "r = Inr x \<Longrightarrow> talks (io_try r) [] [] same_files x"
  by (rule talksI) (simp add: io_try_def same_files_def)

definition written_header :: "zframe_type \<Rightarrow> bytes \<Rightarrow> bytes" where
  "written_header t p = hex_header t p @ (if t \<noteq> ZFin \<and> t \<noteq> ZAck then [XON] else [])"

lemma talks_write_zheader: "talks (write_zheader t p) [] (written_header t p) same_files ()"
proof -
  have "encode_hex_header t p (t \<noteq> ZFin \<and> t \<noteq> ZAck) = written_header t p"
    by (simp add: written_header_def hex_header_def encode_hex_header_def Let_def)
  then show ?thesis unfolding write_zheader_def using talks_write by metis
qed

lemma talks_write_zposition:
  "n \<le> ZMODEM_MAX_POSITION \<Longrightarrow> talks (write_zposition t n) [] (written_header t (position_at n)) same_files ()"
  unfolding write_zposition_def
  by (rule talks_bind [OF talks_try [of "position_header_checked n" "position_at n"]], simp_all add:
      position_header_checked_def position_at_def)
     (rule talks_write_zheader)

text \<open>The subpackets of a file and the acknowledgements of all but the last.\<close>

fun zdata_stream :: "bytes list \<Rightarrow> bytes" where
  "zdata_stream [] = []"
| "zdata_stream [p] = zframe_bytes p DataEnd True True"
| "zdata_stream (p # q # ps) = zframe_bytes p DataContinueWithAck True True @ zdata_stream (q # ps)"

fun zack_stream :: "nat \<Rightarrow> bytes list \<Rightarrow> bytes" where
  "zack_stream n (p # q # ps) = hex_header ZAck (position_at (n + length p)) @ zack_stream (n + length p) (q # ps)"
| "zack_stream n _ = []"

lemma chunk_pos [simp]: "0 < ZMODEM_MAX_CHUNK"
  by (simp add: ZMODEM_MAX_CHUNK_def)

definition pieces :: "bytes \<Rightarrow> bytes list" where
  "pieces c = (if c = [] then [[]] else chunks ZMODEM_MAX_CHUNK c)"

lemma concat_pieces [simp]: "concat (pieces c) = c"
  by (simp add: pieces_def ZMODEM_MAX_CHUNK_def)

lemma pieces_bound: "p \<in> set (pieces c) \<Longrightarrow> length p \<le> ZMODEM_MAX_CHUNK"
  by (auto simp: pieces_def dest: chunks_bound split: if_splits)

lemma pieces_last: "length c \<le> ZMODEM_MAX_CHUNK \<Longrightarrow> pieces c = [c]"
  by (auto simp: pieces_def ZMODEM_MAX_CHUNK_def chunks.simps [of _ c] chunks.simps [of _ "[]"])

lemma pieces_more:
  "ZMODEM_MAX_CHUNK < length c \<Longrightarrow> pieces c = take ZMODEM_MAX_CHUNK c # pieces (drop ZMODEM_MAX_CHUNK c)"
  by (auto simp: pieces_def ZMODEM_MAX_CHUNK_def chunks.simps [of _ c])

lemma pieces_ne [simp]: "pieces c \<noteq> []"
  by (cases "length c \<le> ZMODEM_MAX_CHUNK") (simp_all add: pieces_last pieces_more)

lemma stream_Cons: "ps \<noteq> [] \<Longrightarrow> zdata_stream (p # ps) = zframe_bytes p DataContinueWithAck True True @ zdata_stream ps"
  and ack_Cons: "ps \<noteq> [] \<Longrightarrow> zack_stream n (p # ps) = hex_header ZAck (position_at (n + length p)) @ zack_stream (n + length p) ps"
  by (cases ps; simp)+

section \<open>The sender\<close>

definition peer_default :: peer_capabilities where
  "peer_default = \<lparr>pc_chunk_size = ZMODEM_MAX_CHUNK, pc_use_crc32 = True, pc_escape_control = True\<rparr>"

lemma peer_default_sel [simp]:
  "pc_chunk_size peer_default = ZMODEM_MAX_CHUNK" "pc_use_crc32 peer_default = True" "pc_escape_control peer_default = True"
  by (simp_all add: peer_default_def)

text \<open>What \<open>wait_for_zrinit\<close> makes of the capabilities this program announces.\<close>

lemma peer_of_zrinit:
  "peer_of_header \<lparr>zh_frame_type = t, zh_position = ZRINIT_FLAGS, zh_encoding = enc\<rparr> = peer_default"
proof -
  have "unat (of_le_bytes (take 2 ZRINIT_FLAGS) :: u16) = ZMODEM_MAX_CHUNK" by code_simp
  moreover have "ZRINIT_FLAGS ! 3 AND ZMODEM_CAN_CRC32 \<noteq> 0" "ZRINIT_FLAGS ! 3 AND ZMODEM_ESCAPE_CONTROL \<noteq> 0" by code_simp+
  ultimately show ?thesis
    by (simp add: peer_of_header_def peer_default_def ZMODEM_MAX_CHUNK_def)
qed

lemma write_zdata_run:
  "snd (write_zdata p e True True io) = io\<lparr>mio_output := mio_output io @ encode_zdata p e True True\<rparr>"
  by (simp add: write_zdata_def write_all_def)

lemma zsend_chunks_end [simp]: "zsend_chunks c (length c) peer (length c) io = (Inr None, io)"
  by (subst zsend_chunks.simps) simp

lemma talks_chunk_last:
  assumes "n < length c" "length c - n \<le> ZMODEM_MAX_CHUNK"
  shows "talks (zsend_chunks c (length c) peer_default n) [] (zframe_bytes (drop n c) DataEnd True True) same_files None"
proof (rule talksI)
  fix io :: modem_io and rest assume io: "mio_input io = map Arrives [] @ rest"
  have "take (length c - n) (drop n c) = drop n c" "drop n c \<noteq> []" using assms by simp_all
  then show "zsend_chunks c (length c) peer_default n io = (Inr None, io\<lparr>mio_input := rest,
      mio_output := mio_output io @ zframe_bytes (drop n c) DataEnd True True, mio_files := same_files (mio_files io)\<rparr>)"
    using assms io
    by (subst zsend_chunks.simps)
       (simp add: Let_def write_zdata_run encode_zdata_frame same_files_def min_absorb1)
qed

lemma talks_chunk_more:
  assumes more: "n + ZMODEM_MAX_CHUNK < length c" "length c \<le> ZMODEM_MAX_POSITION" "ZPAD \<notin> set pre"
    and rest: "talks (zsend_chunks c (length c) peer_default (n + ZMODEM_MAX_CHUNK)) inp out same_files x"
  shows "talks (zsend_chunks c (length c) peer_default n)
    (pre @ hex_header ZAck (position_at (n + ZMODEM_MAX_CHUNK)) @ inp)
    (zframe_bytes (take ZMODEM_MAX_CHUNK (drop n c)) DataContinueWithAck True True @ out) same_files x"
proof (rule talksI)
  fix io :: modem_io and queue
  assume io: "mio_input io = map Arrives (pre @ hex_header ZAck (position_at (n + ZMODEM_MAX_CHUNK)) @ inp) @ queue"
  let ?p = "take ZMODEM_MAX_CHUNK (drop n c)"
  let ?h = "\<lparr>zh_frame_type = ZAck, zh_position = position_at (n + ZMODEM_MAX_CHUNK), zh_encoding = Hex\<rparr>"
  let ?io1 = "io\<lparr>mio_output := mio_output io @ zframe_bytes ?p DataContinueWithAck True True\<rparr>"
  have data: "min (length c - n) ZMODEM_MAX_CHUNK = ZMODEM_MAX_CHUNK" "?p \<noteq> []" "length ?p = ZMODEM_MAX_CHUNK"
    using more by (auto simp: ZMODEM_MAX_CHUNK_def)
  have head: "read_zmodem_header ?io1 = (Inr ?h, ?io1\<lparr>mio_input := map Arrives inp @ queue\<rparr>)"
    by (subst talksD [OF talks_hex [OF more(3), of "position_at (n + ZMODEM_MAX_CHUNK)" ZAck], of _ "map Arrives inp @ queue"])
       (simp_all add: io same_files_def)
  have at: "unat (position_u32 ?h) = n + ZMODEM_MAX_CHUNK" using more by simp
  show "zsend_chunks c (length c) peer_default n io = (Inr x, io\<lparr>mio_input := queue,
      mio_output := mio_output io @ zframe_bytes ?p DataContinueWithAck True True @ out,
      mio_files := same_files (mio_files io)\<rparr>)"
    using more
    by (subst zsend_chunks.simps)
       (simp add: Let_def data write_zdata_run encode_zdata_frame head at talksD [OF rest] same_files_def
          del: position_at_read)
qed

lemma talks_chunks:
  assumes "length c \<le> ZMODEM_MAX_POSITION" "ZPAD \<notin> set pre" "n < length c"
  shows "talks (zsend_chunks c (length c) peer_default n)
    ((if length c - n \<le> ZMODEM_MAX_CHUNK then [] else pre) @ zack_stream n (pieces (drop n c)))
    (zdata_stream (pieces (drop n c))) same_files None"
  using assms(2,3)
proof (induction "length c - n" arbitrary: n pre rule: less_induct)
  case less
  show ?case
  proof (cases "length c - n \<le> ZMODEM_MAX_CHUNK")
    case True
    then show ?thesis using talks_chunk_last [OF less.prems(2)] by (simp add: pieces_last)
  next
    case False
    let ?n = "n + ZMODEM_MAX_CHUNK" and ?ps = "pieces (drop (n + ZMODEM_MAX_CHUNK) c)"
    have further: "length c - ?n < length c - n" "?n < length c" using False chunk_pos by linarith+
    have ps: "pieces (drop n c) = take ZMODEM_MAX_CHUNK (drop n c) # ?ps"
      using False by (subst pieces_more) (simp_all add: add.commute)
    have len: "length (take ZMODEM_MAX_CHUNK (drop n c)) = ZMODEM_MAX_CHUNK" using False by simp
    have rest: "talks (zsend_chunks c (length c) peer_default ?n) (zack_stream ?n ?ps) (zdata_stream ?ps) same_files None"
      using less.hyps [OF further(1) _ further(2), of "[]"] by simp
    show ?thesis
      using talks_chunk_more [OF further(2) assms(1) less.prems(1) rest] False
      by (simp add: ps stream_Cons ack_Cons len)
  qed
qed

text \<open>The bytes of one file, without the flow control byte that ends them, and the answers of the receiver.\<close>

definition zfile_frames :: "zsend_entry \<Rightarrow> bytes" where
  "zfile_frames e =
     encode_bin32_header ZFile ZFILE_BINARY_FLAGS True @
     zframe_bytes (build_zfile_header (zs_file_name e) (zs_file_size e)) DataEndWithAck True True @ [XON] @
     encode_bin32_header ZData (position_at 0) True @ zdata_stream (pieces (zs_content e)) @
     hex_header ZEof (position_at (length (zs_content e)))"

definition zfile_answers :: "zsend_entry \<Rightarrow> bytes" where
  "zfile_answers e =
     hex_header ZRpos (position_at 0) @ [XON] @ zack_stream 0 (pieces (zs_content e)) @ hex_header ZrInit ZRINIT_FLAGS"

text \<open>A file that can be sent: its declared size is its length, and its name is a plain file name in UTF-8.\<close>

definition zentry_ok :: "zsend_entry \<Rightarrow> bool" where
  "zentry_ok e \<longleftrightarrow>
     length (zs_content e) \<le> ZMODEM_MAX_POSITION \<and> zs_file_size e = of_nat (length (zs_content e)) \<and>
     length (build_zfile_header (zs_file_name e) (zs_file_size e)) \<le> ZMODEM_MAX_CHUNK \<and>
     valid_utf8 (zs_file_name e) \<and> 0 \<notin> set (zs_file_name e) \<and> zs_file_name e \<notin> {[], [dot], [dot, dot]} \<and>
     slash \<notin> set (zs_file_name e) \<and> backslash \<notin> set (zs_file_name e)"

lemma zentry_size: "zentry_ok e \<Longrightarrow> unat (zs_file_size e) = length (zs_content e)"
proof -
  assume ok: "zentry_ok e"
  then have "length (zs_content e) < 2 ^ LENGTH(64)" by (simp add: zentry_ok_def ZMODEM_MAX_POSITION_def)
  then show ?thesis using ok by (simp add: zentry_ok_def unsigned_of_nat take_bit_nat_eq_self)
qed

lemma talks_zdata_stream:
  assumes "zentry_ok e" "ZPAD \<notin> set pre"
  shows "talks (send_zfile_data_stream e 0 peer_default)
    ((if length (zs_content e) \<le> ZMODEM_MAX_CHUNK then [] else pre) @ zack_stream 0 (pieces (zs_content e)))
    (encode_bin32_header ZData (position_at 0) True @ zdata_stream (pieces (zs_content e)) @
     hex_header ZEof (position_at (length (zs_content e))) @ [XON]) same_files SendComplete"
proof -
  let ?c = "zs_content e"
  have small: "length ?c \<le> ZMODEM_MAX_POSITION" using assms(1) by (simp add: zentry_ok_def)
  have start: "talks (io_try (position_header_checked 0)) [] [] same_files (position_at 0)"
    by (rule talks_try) (simp add: position_header_checked_def position_at_def)
  have header: "talks (write_zbinary_header ZData (position_at 0) True True) []
      (encode_bin32_header ZData (position_at 0) True) same_files ()"
    unfolding write_zbinary_header_def by (simp add: talks_write)
  have eof: "talks (io_bind (write_zposition ZEof (length ?c)) (\<lambda>_. io_return SendComplete)) []
      (hex_header ZEof (position_at (length ?c)) @ [XON]) same_files SendComplete"
    by (rule talks_bind [OF talks_write_zposition [OF small, of ZEof] talks_return]) (simp_all add: written_header_def)
  have body: "talks (io_bind (zsend_chunks ?c (length ?c) peer_default 0) (\<lambda>stopped.
        case stopped of
          Some r \<Rightarrow> io_return r
        | None \<Rightarrow>
            io_bind (if 0 = length ?c then write_zdata [] DataEnd True True else io_return ()) (\<lambda>_.
            io_bind (write_zposition ZEof (length ?c)) (\<lambda>_. io_return SendComplete))))
      ((if length ?c \<le> ZMODEM_MAX_CHUNK then [] else pre) @ zack_stream 0 (pieces ?c))
      (zdata_stream (pieces ?c) @ hex_header ZEof (position_at (length ?c)) @ [XON]) same_files SendComplete"
  proof (cases "?c = []")
    case True
    have none: "talks (zsend_chunks ?c (length ?c) peer_default 0) [] [] same_files None"
      by (rule talksI) (use True zsend_chunks_end [of "[]"] in \<open>simp add: same_files_def\<close>)
    have empty: "talks (if 0 = length ?c then write_zdata [] DataEnd True True else io_return ()) []
        (zframe_bytes [] DataEnd True True) same_files ()"
      using True talks_write [of "zframe_bytes [] DataEnd True True"] by (simp add: write_zdata_def encode_zdata_frame)
    show ?thesis
      by (rule talks_bind [OF none], unfold option.case, rule talks_bind [OF empty eof], rule refl)
         (simp_all add: True pieces_last)
  next
    case False
    have skip: "talks (if 0 = length ?c then write_zdata [] DataEnd True True else io_return ()) [] [] same_files ()"
      using False by (simp add: talks_return)
    have all: "talks (zsend_chunks ?c (length ?c) peer_default 0)
        ((if length ?c \<le> ZMODEM_MAX_CHUNK then [] else pre) @ zack_stream 0 (pieces ?c)) (zdata_stream (pieces ?c)) same_files None"
      using talks_chunks [OF small assms(2), of 0] False by simp
    show ?thesis
      by (rule talks_bind [OF all], unfold option.case, rule talks_bind [OF skip eof], rule refl) simp_all
  qed
  show ?thesis
    unfolding send_zfile_data_stream_def Let_def zentry_size [OF assms(1)] min_0L peer_default_sel
    by (rule talks_bind [OF start], rule talks_bind [OF header], rule body) simp_all
qed

lemma zsend_rounds_done:
  assumes "zentry_ok e" "ZPAD \<notin> set pre"
  shows "talks (zsend_rounds e peer_default 0)
    (pre @ zack_stream 0 (pieces (zs_content e)) @ hex_header ZrInit ZRINIT_FLAGS)
    (encode_bin32_header ZData (position_at 0) True @ zdata_stream (pieces (zs_content e)) @
     hex_header ZEof (position_at (length (zs_content e))) @ [XON]) same_files (length (zs_content e))"
    (is "talks _ (pre @ ?acks @ ?init) ?out _ _")
proof (rule talksI)
  fix io :: modem_io and queue
  assume io: "mio_input io = map Arrives (pre @ ?acks @ ?init) @ queue"
  let ?short = "length (zs_content e) \<le> ZMODEM_MAX_CHUNK"
  let ?left = "if ?short then pre else []"
  let ?h = "\<lparr>zh_frame_type = ZrInit, zh_position = ZRINIT_FLAGS, zh_encoding = Hex\<rparr>"
  let ?io1 = "io\<lparr>mio_input := map Arrives (?left @ ?init) @ queue, mio_output := mio_output io @ ?out\<rparr>"
  have short: "zack_stream 0 (pieces (zs_content e)) = []" if ?short using that by (simp add: pieces_last)
  have one: "send_zfile_data_stream e 0 peer_default io = (Inr SendComplete, ?io1)"
    by (subst talksD [OF talks_zdata_stream [OF assms], of _ "map Arrives (?left @ ?init) @ queue"])
       (simp_all add: io short same_files_def)
  have two: "read_zmodem_header ?io1 = (Inr ?h, ?io1\<lparr>mio_input := queue\<rparr>)"
    by (subst talksD [OF talks_hex [of ?left ZRINIT_FLAGS ZrInit], of _ queue])
       (use assms(2) in \<open>simp_all add: same_files_def\<close>)
  show "zsend_rounds e peer_default 0 io = (Inr (length (zs_content e)),
      io\<lparr>mio_input := queue, mio_output := mio_output io @ ?out, mio_files := same_files (mio_files io)\<rparr>)"
    by (subst zsend_rounds.simps, simp only: one prod.case sum.case zsend_result.case two)
       (simp add: zentry_size [OF assms(1)] same_files_def)
qed

lemma zsend_file_done:
  assumes "zentry_ok e" "ZPAD \<notin> set pre"
  shows "talks (zsend_file e peer_default) (pre @ zfile_answers e)
    (encode_bin32_header ZData (position_at 0) True @ zdata_stream (pieces (zs_content e)) @
     hex_header ZEof (position_at (length (zs_content e))) @ [XON]) same_files (length (zs_content e))"
    (is "talks _ _ ?out _ _")
proof (rule talksI)
  fix io :: modem_io and queue
  assume io: "mio_input io = map Arrives (pre @ zfile_answers e) @ queue"
  let ?rest = "[XON] @ zack_stream 0 (pieces (zs_content e)) @ hex_header ZrInit ZRINIT_FLAGS"
  let ?h = "\<lparr>zh_frame_type = ZRpos, zh_position = position_at 0, zh_encoding = Hex\<rparr>"
  have one: "read_zmodem_header io = (Inr ?h, io\<lparr>mio_input := map Arrives ?rest @ queue\<rparr>)"
    by (subst talksD [OF talks_hex [OF assms(2), of "position_at 0" ZRpos], of _ "map Arrives ?rest @ queue"])
       (simp_all add: io zfile_answers_def same_files_def)
  have two: "zsend_rounds e peer_default 0 (io\<lparr>mio_input := map Arrives ?rest @ queue\<rparr>) =
      (Inr (length (zs_content e)), io\<lparr>mio_input := queue, mio_output := mio_output io @ ?out\<rparr>)"
    by (subst talksD [OF zsend_rounds_done [OF assms(1), of "[XON]"], of _ queue]) (simp_all add: same_files_def)
  show "zsend_file e peer_default io = (Inr (length (zs_content e)),
      io\<lparr>mio_input := queue, mio_output := mio_output io @ ?out, mio_files := same_files (mio_files io)\<rparr>)"
    by (subst zsend_file.simps, simp only: one prod.case sum.case)
       (simp add: two [simplified] same_files_def)
qed

lemma talks_zsend_entries:
  "list_all zentry_ok es \<Longrightarrow> talks (zsend_entries peer_default es tot)
     (concat (map (\<lambda>e. [XON] @ zfile_answers e) es)) (concat (map (\<lambda>e. zfile_frames e @ [XON]) es)) same_files
     (tot + sum_list (map (\<lambda>e. length (zs_content e)) es))"
proof (induction es arbitrary: tot)
  case (Cons e es)
  have header: "talks (write_zbinary_header ZFile ZFILE_BINARY_FLAGS True True) []
      (encode_bin32_header ZFile ZFILE_BINARY_FLAGS True) same_files ()"
    unfolding write_zbinary_header_def by (simp add: talks_write)
  have data: "talks (write_zdata h DataEndWithAck True True) [] (zframe_bytes h DataEndWithAck True True @ [XON]) same_files ()" for h
    using talks_write [of "encode_zdata h DataEndWithAck True True"] by (simp add: write_zdata_def encode_zdata_frame)
  have ok: "zentry_ok e" using Cons.prems by simp
  have rest: "talks (zsend_entries peer_default es (tot + length (zs_content e)))
      (concat (map (\<lambda>e. [XON] @ zfile_answers e) es)) (concat (map (\<lambda>e. zfile_frames e @ [XON]) es)) same_files
      (tot + sum_list (map (\<lambda>e. length (zs_content e)) (e # es)))"
    using Cons.IH [of "tot + length (zs_content e)"] Cons.prems by (simp add: add.assoc)
  show ?case
    unfolding zsend_entries.simps peer_default_sel
    by (rule talks_bind [OF header], rule talks_bind [OF data], rule talks_bind [OF zsend_file_done [OF ok, of "[XON]"]], simp, rule rest)
       (simp_all add: zfile_frames_def)
qed (simp add: talks_return)

lemma talks_wait: "talks wait_for_zrinit (hex_header ZrInit ZRINIT_FLAGS) [] same_files peer_default"
proof (rule talksI)
  fix io :: modem_io and queue
  assume io: "mio_input io = map Arrives (hex_header ZrInit ZRINIT_FLAGS) @ queue"
  let ?h = "\<lparr>zh_frame_type = ZrInit, zh_position = ZRINIT_FLAGS, zh_encoding = Hex\<rparr>"
  have "read_zmodem_header io = (Inr ?h, io\<lparr>mio_input := queue\<rparr>)"
    by (subst talksD [OF talks_hex [of "[]" ZRINIT_FLAGS ZrInit], of _ queue]) (simp_all add: io same_files_def)
  then show "wait_for_zrinit io = (Inr peer_default,
      io\<lparr>mio_input := queue, mio_output := mio_output io @ [], mio_files := same_files (mio_files io)\<rparr>)"
    by (subst wait_for_zrinit.simps) (simp add: peer_of_zrinit same_files_def)
qed

definition over_and_out :: bytes where "over_and_out = ascii ''OO''"

lemma talks_finish_send:
  assumes "ZPAD \<notin> set pre"
  shows "talks finish_zmodem_send (pre @ hex_header ZFin (position_at 0)) (hex_header ZFin (position_at 0) @ over_and_out) same_files ()"
proof -
  have zero: "position_header 0 = position_at 0" by (simp add: position_at_def)
  have head: "talks read_zmodem_header (pre @ hex_header ZFin (position_at 0)) [] same_files
      \<lparr>zh_frame_type = ZFin, zh_position = position_at 0, zh_encoding = Hex\<rparr>"
    using assms by (intro talks_hex) simp_all
  have fin: "talks (write_zheader ZFin (position_at 0)) [] (hex_header ZFin (position_at 0)) same_files ()"
    using talks_write_zheader [of ZFin "position_at 0"] by (simp add: written_header_def)
  have three: "(3 :: nat) = Suc 2" by simp
  show ?thesis
    unfolding finish_zmodem_send_def three finish_zmodem_attempts.simps zero
    by (rule talks_bind [OF fin], rule talks_bind [OF head])
       (simp_all add: over_and_out_def talks_write)
qed

lemma validate_all:
  "list_all zentry_ok es \<Longrightarrow> fold (\<lambda>e r. rbind r (\<lambda>_. validate_zmodem_file_size (zs_file_size e))) es (Inr ()) = Inr ()"
  by (induction es) (simp_all add: validate_zmodem_file_size_def zentry_size, simp add: zentry_ok_def)

lemma talks_zsend:
  assumes "list_all zentry_ok es"
  shows "talks (send_zmodem_stream es)
    (hex_header ZrInit ZRINIT_FLAGS @ concat (map (\<lambda>e. [XON] @ zfile_answers e) es) @ [XON] @ hex_header ZFin (position_at 0))
    (concat (map (\<lambda>e. zfile_frames e @ [XON]) es) @ hex_header ZFin (position_at 0) @ over_and_out) same_files
    (sum_list (map (\<lambda>e. length (zs_content e)) es))"
proof -
  have valid: "talks (io_try (fold (\<lambda>e r. rbind r (\<lambda>_. validate_zmodem_file_size (zs_file_size e))) es (Inr ()))) [] [] same_files ()"
    by (rule talks_try) (rule validate_all [OF assms])
  have fin: "talks (io_bind finish_zmodem_send (\<lambda>_. io_return n)) ([XON] @ hex_header ZFin (position_at 0))
      (hex_header ZFin (position_at 0) @ over_and_out) same_files n" for n :: nat
    by (rule talks_bind [OF talks_finish_send [of "[XON]"] talks_return]) simp_all
  have "talks (send_zmodem_stream es)
    (hex_header ZrInit ZRINIT_FLAGS @ concat (map (\<lambda>e. [XON] @ zfile_answers e) es) @ [XON] @ hex_header ZFin (position_at 0))
    (concat (map (\<lambda>e. zfile_frames e @ [XON]) es) @ hex_header ZFin (position_at 0) @ over_and_out) same_files
    (0 + sum_list (map (\<lambda>e. length (zs_content e)) es))"
    unfolding send_zmodem_stream_def
    by (rule talks_bind [OF valid], rule talks_bind [OF talks_wait], rule talks_bind [OF talks_zsend_entries [OF assms]],
        rule fin) simp_all
  then show ?thesis by simp
qed

section \<open>The receiver\<close>

text \<open>The header of a file is read back.\<close>

definition zfile_of :: "zsend_entry \<Rightarrow> zmodem_file" where
  "zfile_of e = \<lparr>zf_file_name = zs_file_name e, zf_file_size = Some (zs_file_size e), zf_overwrite = False\<rparr>"

lemma digits_no_space: "48 \<le> b \<Longrightarrow> b \<le> 57 \<Longrightarrow> white_space_len (b # bs) = 0" for b :: byte
proof -
  assume digit: "48 \<le> b" "b \<le> 57"
  then have no: "b \<noteq> 0x20" "\<not> b \<le> 0x0D" "b \<noteq> 0xC2" "b \<noteq> 0xE1" "b \<noteq> 0xE2" "b \<noteq> 0xE3"
    by (auto simp: word_le_nat_alt)
  then show ?thesis by (simp add: white_space_len_def)
qed

lemma first_word_decimal: "first_word (show_decimal w) = Some (show_decimal w)"
proof -
  have word: "\<forall>b \<in> set bs. 48 \<le> b \<and> b \<le> 57 \<Longrightarrow> take_word bs = bs" for bs
    by (induction bs) (simp_all add: digits_no_space)
  have all: "\<forall>b \<in> set (show_decimal w). 48 \<le> b \<and> b \<le> 57" using show_decimal_bytes by blast
  have ne: "show_decimal w \<noteq> []" using show_digits_numeral [of "unat w"] by (simp add: show_decimal_def)
  then obtain b bs where "show_decimal w = b # bs" by (cases "show_decimal w") auto
  then have "skip_white_space (show_decimal w) = show_decimal w"
    using all by (subst skip_white_space.simps) (simp add: digits_no_space)
  then show ?thesis using word [OF all] ne by (simp add: first_word_def)
qed

lemma zfile_header_roundtrip:
  assumes "zentry_ok e"
  shows "parse_zfile_header (build_zfile_header (zs_file_name e) (zs_file_size e)) (ZFILE_BINARY_FLAGS ! 2) = Inr (Some (zfile_of e))"
proof -
  let ?digits = "show_decimal (zs_file_size e)"
  have name: "takeWhile (\<lambda>b. b \<noteq> 0) (zs_file_name e @ 0 # ?digits) = zs_file_name e"
    using assms by (subst takeWhile_append2) (auto simp: zentry_ok_def)
  have "b < 0x80" if "b \<in> set ?digits" for b
    using show_decimal_bytes [OF that] by (auto simp: word_le_nat_alt word_less_nat_alt)
  then have digits: "from_utf8_lossy ?digits = ?digits" by (intro lossy_ascii) blast
  have flags: "ZFILE_BINARY_FLAGS ! 2 \<noteq> ZMODEM_FILE_CLOBBER" by code_simp
  have plain: "valid_utf8 (zs_file_name e)" "zs_file_name e \<noteq> []" "zs_file_name e \<noteq> [dot]" "zs_file_name e \<noteq> [dot, dot]"
    "slash \<notin> set (zs_file_name e)" "backslash \<notin> set (zs_file_name e)"
    using assms by (simp_all add: zentry_ok_def)
  show ?thesis
    using plain flags
    by (simp add: parse_zfile_header_def build_zfile_header_def name Let_def digits first_word_decimal zfile_of_def)
qed

lemma write_file_run: "snd (write_file bs io) = io\<lparr>mio_files := append_file bs (mio_files io)\<rparr>"
  by (simp add: write_file_def)

text \<open>The subpackets of a file are written in order and acknowledged.\<close>

lemma talks_zframes:
  assumes "ps \<noteq> []" "\<forall>p \<in> set ps. length p \<le> ZMODEM_MAX_CHUNK" "n + length (concat ps) \<le> unat sz"
    "unat sz \<le> ZMODEM_MAX_POSITION"
  shows "talks (zreceive_frames True (Some sz) n) (zdata_stream ps) (zack_stream n ps) (append_file (concat ps))
    (n + length (concat ps))"
  using assms(1-3)
proof (induction ps arbitrary: n)
  case (Cons p ps)
  have bound: "n + length p \<le> unat sz" "n + length p < 2 ^ 64"
    using Cons.prems(3) assms(4) by (auto simp: ZMODEM_MAX_POSITION_def)
  show ?case
  proof (cases "ps = []")
    case True
    show ?thesis
    proof (rule talksI)
      fix io :: modem_io and queue
      assume "mio_input io = map Arrives (zdata_stream (p # ps)) @ queue"
      then have io: "mio_input io = map Arrives (zframe_bytes p DataEnd True True) @ queue" using True by simp
      have "read_zmodem_data True ZMODEM_MAX_CHUNK io =
          (Inr \<lparr>zd_payload = p, zd_end = DataEnd\<rparr>, io\<lparr>mio_input := queue\<rparr>)"
        using Cons.prems(2) by (subst talksD [OF talks_zdata io]) (simp_all add: same_files_def)
      then show "zreceive_frames True (Some sz) n io = (Inr (n + length (concat (p # ps))), io\<lparr>mio_input := queue,
          mio_output := mio_output io @ zack_stream n (p # ps), mio_files := append_file (concat (p # ps)) (mio_files io)\<rparr>)"
        using bound True by (subst zreceive_frames.simps) (simp add: Let_def write_file_run not_le)
    qed
  next
    case False
    have rest: "talks (zreceive_frames True (Some sz) (n + length p)) (zdata_stream ps) (zack_stream (n + length p) ps)
        (append_file (concat ps)) (n + length p + length (concat ps))"
      using Cons.IH [OF False, of "n + length p"] Cons.prems by (simp add: add.assoc)
    show ?thesis
    proof (rule talksI)
      fix io :: modem_io and queue
      assume "mio_input io = map Arrives (zdata_stream (p # ps)) @ queue"
      then have io: "mio_input io = map Arrives (zframe_bytes p DataContinueWithAck True True) @ map Arrives (zdata_stream ps) @ queue"
        by (simp add: stream_Cons [OF False])
      let ?io1 = "io\<lparr>mio_input := map Arrives (zdata_stream ps) @ queue, mio_files := append_file p (mio_files io)\<rparr>"
      let ?ack = "hex_header ZAck (position_at (n + length p))"
      have one: "read_zmodem_data True ZMODEM_MAX_CHUNK io =
          (Inr \<lparr>zd_payload = p, zd_end = DataContinueWithAck\<rparr>, io\<lparr>mio_input := map Arrives (zdata_stream ps) @ queue\<rparr>)"
        using Cons.prems(2) by (subst talksD [OF talks_zdata io]) (simp_all add: same_files_def)
      have "n + length p \<le> ZMODEM_MAX_POSITION" using bound(1) assms(4) by simp
      from talksD [OF talks_write_zposition [OF this, of ZAck], of ?io1 "mio_input ?io1"]
      have two: "write_zposition ZAck (n + length p) ?io1 = (Inr (), ?io1\<lparr>mio_output := mio_output io @ ?ack\<rparr>)"
        by (simp add: same_files_def written_header_def)
      show "zreceive_frames True (Some sz) n io = (Inr (n + length (concat (p # ps))), io\<lparr>mio_input := queue,
          mio_output := mio_output io @ zack_stream n (p # ps), mio_files := append_file (concat (p # ps)) (mio_files io)\<rparr>)"
        using bound
        by (subst zreceive_frames.simps)
           (simp add: one Let_def write_file_run not_le two talksD [OF rest] ack_Cons [OF False] append_file_append add.assoc)
    qed
  qed
qed simp

lemma talks_zreceive_data:
  assumes ok: "zentry_ok e" and "ZPAD \<notin> set pre"
  shows "talks (zreceive_data (Some (zs_file_size e)) 0)
    (pre @ encode_bin32_header ZData (position_at 0) True @ zdata_stream (pieces (zs_content e)) @
     hex_header ZEof (position_at (length (zs_content e))))
    (zack_stream 0 (pieces (zs_content e)) @ hex_header ZrInit ZRINIT_FLAGS @ [XON]) (append_file (zs_content e)) ()"
    (is "talks _ (pre @ ?data @ ?stream @ ?eof) ?out _ _")
proof (rule talksI)
  fix io :: modem_io and queue
  assume io: "mio_input io = map Arrives (pre @ ?data @ ?stream @ ?eof) @ queue"
  let ?c = "zs_content e" and ?acks = "zack_stream 0 (pieces (zs_content e))"
  have small: "length ?c \<le> ZMODEM_MAX_POSITION" using ok by (simp add: zentry_ok_def)
  let ?h = "\<lparr>zh_frame_type = ZData, zh_position = position_at 0, zh_encoding = Bin32\<rparr>"
  let ?h' = "\<lparr>zh_frame_type = ZEof, zh_position = position_at (length ?c), zh_encoding = Hex\<rparr>"
  let ?io1 = "io\<lparr>mio_input := map Arrives ?stream @ map Arrives ?eof @ queue\<rparr>"
  let ?io2 = "io\<lparr>mio_input := map Arrives ?eof @ queue, mio_output := mio_output io @ ?acks, mio_files := append_file ?c (mio_files io)\<rparr>"
  let ?io3 = "?io2\<lparr>mio_input := queue\<rparr>"
  have one: "read_zmodem_header io = (Inr ?h, ?io1)"
    by (subst talksD [OF talks_bin32 [OF assms(2), of "position_at 0" ZData], of _ "mio_input ?io1"])
       (simp_all add: io same_files_def)
  have frames: "talks (zreceive_frames True (Some (zs_file_size e)) 0) ?stream ?acks (append_file ?c) (0 + length ?c)"
    using talks_zframes [of "pieces ?c" 0 "zs_file_size e"] small zentry_size [OF ok] pieces_bound by simp
  have two: "zreceive_frames True (Some (zs_file_size e)) 0 ?io1 = (Inr (length ?c), ?io2)"
    by (subst talksD [OF frames, of _ "map Arrives ?eof @ queue"]) simp_all
  have three: "read_zmodem_header ?io2 = (Inr ?h', ?io3)"
    by (subst talksD [OF talks_hex [of "[]" "position_at (length ?c)" ZEof], of _ queue]) (simp_all add: same_files_def)
  have four: "send_zrinit ?io3 = (Inr (), ?io3\<lparr>mio_output := mio_output io @ ?out\<rparr>)"
    unfolding send_zrinit_def
    by (subst talksD [OF talks_write_zheader, of _ queue]) (simp_all add: same_files_def written_header_def)
  have "zreceive_data (Some (zs_file_size e)) 0 io = zreceive_data (Some (zs_file_size e)) (length ?c) ?io2"
    by (subst zreceive_data.simps) (simp add: one two)
  also have "\<dots> = send_zrinit ?io3"
    by (subst zreceive_data.simps) (simp add: three small zentry_size [OF ok])
  finally show "zreceive_data (Some (zs_file_size e)) 0 io = (Inr (), io\<lparr>mio_input := queue,
      mio_output := mio_output io @ ?out, mio_files := append_file ?c (mio_files io)\<rparr>)"
    unfolding four by simp
qed

definition file_tail :: "zsend_entry \<Rightarrow> bytes" where
  "file_tail e =
     zframe_bytes (build_zfile_header (zs_file_name e) (zs_file_size e)) DataEndWithAck True True @ [XON] @
     encode_bin32_header ZData (position_at 0) True @ zdata_stream (pieces (zs_content e)) @
     hex_header ZEof (position_at (length (zs_content e)))"

lemma talks_zreceive_file:
  assumes ok: "zentry_ok e" and opens: "open_writer (zfile_of e) = Inr ()"
  shows "talks (zreceive_file open_writer \<lparr>zh_frame_type = ZFile, zh_position = ZFILE_BINARY_FLAGS, zh_encoding = Bin32\<rparr>)
    (file_tail e) (zfile_answers e @ [XON]) (\<lambda>fs. fs @ [zs_content e]) (Some (zfile_of e))"
proof -
  let ?hdr = "build_zfile_header (zs_file_name e) (zs_file_size e)"
  have "length ?hdr \<le> ZMODEM_MAX_CHUNK" using ok unfolding zentry_ok_def by blast
  then have frame: "talks (read_zmodem_data True ZMODEM_MAX_CHUNK) (zframe_bytes ?hdr DataEndWithAck True True) [] same_files
      \<lparr>zd_payload = ?hdr, zd_end = DataEndWithAck\<rparr>"
    by (rule talks_zdata)
  have parsed: "talks (io_try (parse_zfile_header ?hdr (ZFILE_BINARY_FLAGS ! 2))) [] [] same_files (Some (zfile_of e))"
    by (rule talks_try) (rule zfile_header_roundtrip [OF ok])
  have valid: "talks (io_try (validate_zmodem_file_size (zs_file_size e))) [] [] same_files ()"
    using ok by (intro talks_try) (simp add: validate_zmodem_file_size_def zentry_size [OF ok], simp add: zentry_ok_def)
  have opened: "talks (open_file open_writer (zfile_of e)) [] [] (\<lambda>fs. fs @ [[]]) ()"
    by (rule talksI) (simp add: open_file_def opens)
  have start: "talks (write_zposition ZRpos 0) [] (hex_header ZRpos (position_at 0) @ [XON]) same_files ()"
    using talks_write_zposition [of 0 ZRpos] by (simp add: written_header_def)
  have data: "talks (io_bind (zreceive_data (Some (zs_file_size e)) 0) (\<lambda>_. io_return (Some (zfile_of e))))
      ([XON] @ encode_bin32_header ZData (position_at 0) True @ zdata_stream (pieces (zs_content e)) @
       hex_header ZEof (position_at (length (zs_content e))))
      (zack_stream 0 (pieces (zs_content e)) @ hex_header ZrInit ZRINIT_FLAGS @ [XON]) (append_file (zs_content e))
      (Some (zfile_of e))"
    by (rule talks_bind [OF talks_zreceive_data [OF ok, of "[XON]"] talks_return]) simp_all
  have size: "zf_file_size (zfile_of e) = Some (zs_file_size e)" by (simp add: zfile_of_def)
  have "talks (io_bind (io_try (validate_zmodem_file_size (zs_file_size e))) (\<lambda>_.
               io_bind (open_file open_writer (zfile_of e)) (\<lambda>_.
               io_bind (write_zposition ZRpos 0) (\<lambda>_.
               io_bind (zreceive_data (Some (zs_file_size e)) 0) (\<lambda>_. io_return (Some (zfile_of e)))))))
      ([XON] @ encode_bin32_header ZData (position_at 0) True @ zdata_stream (pieces (zs_content e)) @
       hex_header ZEof (position_at (length (zs_content e))))
      (zfile_answers e @ [XON]) (append_file (zs_content e) \<circ> (\<lambda>fs. fs @ [[]])) (Some (zfile_of e))"
    by (rule talks_bind [OF valid], rule talks_bind [OF opened], rule talks_bind [OF start], rule data)
       (simp_all add: zfile_answers_def)
  moreover have added: "append_file (zs_content e) \<circ> (\<lambda>fs. fs @ [[]]) = (\<lambda>fs. fs @ [zs_content e])"
    by (rule ext) (simp add: append_file_def)
  ultimately have rest: "talks (case Some (zfile_of e) of
             None \<Rightarrow> io_bind finish_zmodem_receive (\<lambda>_. io_return None)
           | Some f \<Rightarrow>
               io_bind (io_try (case zf_file_size f of Some sz \<Rightarrow> validate_zmodem_file_size sz | None \<Rightarrow> Inr ())) (\<lambda>_.
               io_bind (open_file open_writer f) (\<lambda>_.
               io_bind (write_zposition ZRpos 0) (\<lambda>_.
               io_bind (zreceive_data (zf_file_size f) 0) (\<lambda>_. io_return (Some f))))))
      ([XON] @ encode_bin32_header ZData (position_at 0) True @ zdata_stream (pieces (zs_content e)) @
       hex_header ZEof (position_at (length (zs_content e))))
      (zfile_answers e @ [XON]) (\<lambda>fs. fs @ [zs_content e]) (Some (zfile_of e))"
    by (simp only: option.case size)
  show ?thesis
    unfolding zreceive_file_def zheader.select_convs simp_thms
    by (rule talks_bind [OF frame], simp only: zdata_frame.select_convs simp_thms if_False,
        rule talks_bind [OF parsed], rule rest)
       (simp_all add: file_tail_def)
qed

lemma talks_finish_receive:
  "talks finish_zmodem_receive over_and_out (hex_header ZFin (position_at 0)) same_files ()"
proof -
  have zero: "position_header 0 = position_at 0" by (simp add: position_at_def)
  have fin: "talks (write_zheader ZFin (position_at 0)) [] (hex_header ZFin (position_at 0)) same_files ()"
    using talks_write_zheader [of ZFin "position_at 0"] by (simp add: written_header_def)
  have "talks (finish_loop 0 0) over_and_out [] same_files ()"
  proof (rule talksI)
    fix io :: modem_io and queue
    assume io: "mio_input io = map Arrives over_and_out @ queue"
    have bytes: "over_and_out = [0x4F, 0x4F]" "(0x4F :: byte) \<noteq> ZDLE" by (simp_all add: over_and_out_def ascii_def ZDLE_def)
    have "finish_loop 0 0 io = finish_loop 1 0 (io\<lparr>mio_input := Arrives 0x4F # queue\<rparr>)"
      using bytes(2) by (subst finish_loop.simps) (simp add: read_byte_def Let_def io bytes(1))
    also have "\<dots> = (Inr (), io\<lparr>mio_input := queue\<rparr>)"
      by (subst finish_loop.simps) (simp add: read_byte_def Let_def)
    finally show "finish_loop 0 0 io = (Inr (), io\<lparr>mio_input := queue, mio_output := mio_output io @ [],
        mio_files := same_files (mio_files io)\<rparr>)"
      by (simp add: same_files_def)
  qed
  then show ?thesis
    unfolding finish_zmodem_receive_def zero by (intro talks_bind [OF fin]) simp_all
qed

lemma talks_zreceive_loop:
  assumes "\<And>f. open_writer f = Inr ()"
  shows "list_all zentry_ok es \<Longrightarrow> ZPAD \<notin> set pre \<Longrightarrow> talks (zreceive_loop open_writer received)
     (pre @ concat (map (\<lambda>e. zfile_frames e @ [XON]) es) @ hex_header ZFin (position_at 0) @ over_and_out)
     (concat (map (\<lambda>e. zfile_answers e @ [XON]) es) @ hex_header ZFin (position_at 0))
     (\<lambda>fs. fs @ map zs_content es) (received @ map zfile_of es)"
proof (induction es arbitrary: pre received)
  case Nil
  show ?case
  proof (rule talksI)
    fix io :: modem_io and queue
    let ?fin = "hex_header ZFin (position_at 0)"
    assume io: "mio_input io = map Arrives (pre @ concat (map (\<lambda>e. zfile_frames e @ [XON]) []) @ ?fin @ over_and_out) @ queue"
    let ?h = "\<lparr>zh_frame_type = ZFin, zh_position = position_at 0, zh_encoding = Hex\<rparr>"
    let ?io1 = "io\<lparr>mio_input := map Arrives over_and_out @ queue\<rparr>"
    have one: "read_zmodem_header io = (Inr ?h, ?io1)"
      by (subst talksD [OF talks_hex [OF Nil.prems(2), of "position_at 0" ZFin], of _ "mio_input ?io1"])
         (simp_all add: io same_files_def)
    have two: "finish_zmodem_receive ?io1 = (Inr (), io\<lparr>mio_input := queue, mio_output := mio_output io @ ?fin\<rparr>)"
      by (subst talksD [OF talks_finish_receive, of _ queue]) (simp_all add: same_files_def)
    show "zreceive_loop open_writer received io = (Inr (received @ map zfile_of []), io\<lparr>mio_input := queue,
        mio_output := mio_output io @ concat (map (\<lambda>e. zfile_answers e @ [XON]) []) @ ?fin,
        mio_files := mio_files io @ map zs_content []\<rparr>)"
      by (subst zreceive_loop.simps) (simp add: one two io_bind_def io_return_def)
  qed
next
  case (Cons e es)
  have ok: "zentry_ok e" using Cons.prems by simp
  have rest: "talks (zreceive_loop open_writer (received @ [zfile_of e]))
      ([XON] @ concat (map (\<lambda>e. zfile_frames e @ [XON]) es) @ hex_header ZFin (position_at 0) @ over_and_out)
      (concat (map (\<lambda>e. zfile_answers e @ [XON]) es) @ hex_header ZFin (position_at 0))
      (\<lambda>fs. fs @ map zs_content es) ((received @ [zfile_of e]) @ map zfile_of es)"
    using Cons.prems(1) by (intro Cons.IH) simp_all
  show ?case
  proof (rule talksI)
    fix io :: modem_io and queue
    let ?more = "[XON] @ concat (map (\<lambda>e. zfile_frames e @ [XON]) es) @ hex_header ZFin (position_at 0) @ over_and_out"
    let ?h = "\<lparr>zh_frame_type = ZFile, zh_position = ZFILE_BINARY_FLAGS, zh_encoding = Bin32\<rparr>"
    let ?io1 = "io\<lparr>mio_input := map Arrives (file_tail e) @ map Arrives ?more @ queue\<rparr>"
    let ?io2 = "io\<lparr>mio_input := map Arrives ?more @ queue, mio_output := mio_output io @ zfile_answers e @ [XON],
        mio_files := mio_files io @ [zs_content e]\<rparr>"
    assume "mio_input io = map Arrives (pre @ concat (map (\<lambda>e. zfile_frames e @ [XON]) (e # es)) @
        hex_header ZFin (position_at 0) @ over_and_out) @ queue"
    then have io: "mio_input io = map Arrives (pre @ encode_bin32_header ZFile ZFILE_BINARY_FLAGS True) @ mio_input ?io1"
      by (simp add: zfile_frames_def file_tail_def)
    have one: "read_zmodem_header io = (Inr ?h, ?io1)"
      by (subst talksD [OF talks_bin32 [OF Cons.prems(2), of ZFILE_BINARY_FLAGS ZFile] io]) (simp_all add: same_files_def)
    have two: "zreceive_file open_writer ?h ?io1 = (Inr (Some (zfile_of e)), ?io2)"
      by (subst talksD [OF talks_zreceive_file [OF ok assms], of _ "map Arrives ?more @ queue"]) simp_all
    have "zreceive_loop open_writer received io = zreceive_loop open_writer (received @ [zfile_of e]) ?io2"
      by (subst zreceive_loop.simps)
         (simp only: one two prod.case sum.case option.case zheader.select_convs zframe_type.case)
    also have "\<dots> = (Inr ((received @ [zfile_of e]) @ map zfile_of es), ?io2\<lparr>mio_input := queue,
        mio_output := mio_output ?io2 @ concat (map (\<lambda>e. zfile_answers e @ [XON]) es) @ hex_header ZFin (position_at 0),
        mio_files := mio_files ?io2 @ map zs_content es\<rparr>)"
      by (rule talksD [OF rest]) simp
    finally show "zreceive_loop open_writer received io = (Inr (received @ map zfile_of (e # es)), io\<lparr>mio_input := queue,
        mio_output := mio_output io @ concat (map (\<lambda>e. zfile_answers e @ [XON]) (e # es)) @ hex_header ZFin (position_at 0),
        mio_files := mio_files io @ map zs_content (e # es)\<rparr>)"
      by simp
  qed
qed

lemma talks_zreceive:
  assumes "\<And>f. open_writer f = Inr ()" "list_all zentry_ok es"
  shows "talks (receive_zmodem open_writer)
     (concat (map (\<lambda>e. zfile_frames e @ [XON]) es) @ hex_header ZFin (position_at 0) @ over_and_out)
     (hex_header ZrInit ZRINIT_FLAGS @ [XON] @ concat (map (\<lambda>e. zfile_answers e @ [XON]) es) @ hex_header ZFin (position_at 0))
     (\<lambda>fs. fs @ map zs_content es) (map zfile_of es)"
proof -
  have start: "talks send_zrinit [] (hex_header ZrInit ZRINIT_FLAGS @ [XON]) same_files ()"
    using talks_write_zheader [of ZrInit ZRINIT_FLAGS] by (simp add: send_zrinit_def written_header_def)
  have loop: "talks (zreceive_loop open_writer [])
     (concat (map (\<lambda>e. zfile_frames e @ [XON]) es) @ hex_header ZFin (position_at 0) @ over_and_out)
     (concat (map (\<lambda>e. zfile_answers e @ [XON]) es) @ hex_header ZFin (position_at 0))
     (\<lambda>fs. fs @ map zs_content es) (map zfile_of es)"
    using talks_zreceive_loop [where es = es and pre = "[]" and received = "[]" and open_writer = open_writer] assms by simp
  show ?thesis
    unfolding receive_zmodem_def by (rule talks_bind [OF start loop]) simp_all
qed

section \<open>Both sides\<close>

definition zmodem_sent :: "zsend_entry list \<Rightarrow> bytes" where
  "zmodem_sent es = concat (map (\<lambda>e. zfile_frames e @ [XON]) es) @ hex_header ZFin (position_at 0) @ over_and_out"

definition zmodem_answered :: "zsend_entry list \<Rightarrow> bytes" where
  "zmodem_answered es =
     hex_header ZrInit ZRINIT_FLAGS @ [XON] @ concat (map (\<lambda>e. zfile_answers e @ [XON]) es) @ hex_header ZFin (position_at 0)"

lemma rotate_separator: "concat (map (\<lambda>x. s @ f x) xs) @ s = s @ concat (map (\<lambda>x. f x @ s) xs)"
  by (induction xs) simp_all

text \<open>
  Property C15: whatever arrives on the line, a ZMODEM reception that succeeds has created one file for each header
  it reports, in that order, and a file whose size was declared has exactly that many bytes.
\<close>
theorem received_files_complete:
  assumes "receive_zmodem open_writer io = (Inr files, io')"
  shows "\<exists>contents. mio_files io' = mio_files io @ contents \<and>
    list_all2 (\<lambda>f c. \<forall>sz. zf_file_size f = Some sz \<longrightarrow> length c = unat sz) files contents"
proof -
  obtain io1 where start: "send_zrinit io = (Inr (), io1)" "zreceive_loop open_writer [] io1 = (Inr files, io')"
    using assms by (auto simp: receive_zmodem_def io_bind_Inr)
  have "mio_files io1 = mio_files io" by (rule quietD [OF quiet_writes(3) start(1)])
  then show ?thesis using loop_append [OF start(2)] by (fastforce simp: size_reached_def elim!: list.rel_mono_strong)
qed

definition sample_entry :: zsend_entry where
  "sample_entry = \<lparr>zs_file_name = ascii ''a.bin'', zs_file_size = 2, zs_content = [0x18, 0xFF]\<rparr>"

lemma sample_entry_ok: "zentry_ok sample_entry"
proof -
  have "length (build_zfile_header (ascii ''a.bin'') 2) \<le> ZMODEM_MAX_CHUNK" by code_simp
  moreover have "valid_utf8 (ascii ''a.bin'')" "0 \<notin> set (ascii ''a.bin'')" by code_simp+
  moreover have "slash \<notin> set (ascii ''a.bin'')" "backslash \<notin> set (ascii ''a.bin'')" by code_simp+
  ultimately show ?thesis
    by (simp add: zentry_ok_def sample_entry_def ZMODEM_MAX_POSITION_def) (simp add: ascii_def)
qed

lemma received_files_complete_witness:
  "\<exists>contents. mio_files (snd (receive_zmodem (\<lambda>_. Inr ()) \<lparr>mio_input = map Arrives (zmodem_sent [sample_entry]),
       mio_output = [], mio_files = []\<rparr>)) = contents \<and>
     list_all2 (\<lambda>f c. \<forall>sz. zf_file_size f = Some sz \<longrightarrow> length c = unat sz) [zfile_of sample_entry] contents"
proof -
  have "talks (receive_zmodem (\<lambda>_. Inr ())) (zmodem_sent [sample_entry]) (zmodem_answered [sample_entry])
      (\<lambda>fs. fs @ map zs_content [sample_entry]) (map zfile_of [sample_entry])"
    using talks_zreceive [where es = "[sample_entry]" and open_writer = "\<lambda>_. Inr ()"] sample_entry_ok
    by (simp add: zmodem_sent_def zmodem_answered_def)
  from talksD [OF this, of "\<lparr>mio_input = map Arrives (zmodem_sent [sample_entry]), mio_output = [], mio_files = []\<rparr>" "[]"]
  have run: "receive_zmodem (\<lambda>_. Inr ()) \<lparr>mio_input = map Arrives (zmodem_sent [sample_entry]), mio_output = [], mio_files = []\<rparr> =
      (Inr [zfile_of sample_entry], \<lparr>mio_input = [], mio_output = zmodem_answered [sample_entry], mio_files = [zs_content sample_entry]\<rparr>)"
    by simp
  from received_files_complete [OF run] show ?thesis by (simp add: run)
qed

text \<open>
  Property C16: a ZMODEM batch arrives complete and unchanged. For every list of files with plain UTF-8 names and a
  32-bit length, empty files and files that end on a chunk boundary included, there is one conversation: the sender,
  given the answers of the receiver, returns the number of bytes of all files, and the receiver, given the bytes of the
  sender, gives these answers, returns every header in order and has written every file exactly. The software flow
  control bytes each side adds are skipped by the other, and neither is left with a byte to read.
\<close>
theorem zmodem_batch_delivered:
  assumes "list_all zentry_ok es" "\<And>f. open_writer f = Inr ()"
  shows "send_zmodem_stream es (io_with_input (zmodem_answered es)) =
      (Inr (sum_list (map (\<lambda>e. length (zs_content e)) es)),
       \<lparr>mio_input = [], mio_output = zmodem_sent es, mio_files = [[]]\<rparr>) \<and>
    receive_zmodem open_writer \<lparr>mio_input = map Arrives (zmodem_sent es), mio_output = [], mio_files = []\<rparr> =
      (Inr (map zfile_of es),
       \<lparr>mio_input = [], mio_output = zmodem_answered es, mio_files = map zs_content es\<rparr>)"
proof
  have "zmodem_answered es = hex_header ZrInit ZRINIT_FLAGS @ concat (map (\<lambda>e. [XON] @ zfile_answers e) es) @ [XON] @
      hex_header ZFin (position_at 0)"
    using rotate_separator [of "[XON]" zfile_answers es] by (simp add: zmodem_answered_def)
  with talks_zsend [OF assms(1)]
  have "talks (send_zmodem_stream es) (zmodem_answered es) (zmodem_sent es) same_files (sum_list (map (\<lambda>e. length (zs_content e)) es))"
    by (simp add: zmodem_sent_def)
  from talksD [OF this, of "io_with_input (zmodem_answered es)" "[]"]
  show "send_zmodem_stream es (io_with_input (zmodem_answered es)) =
      (Inr (sum_list (map (\<lambda>e. length (zs_content e)) es)),
       \<lparr>mio_input = [], mio_output = zmodem_sent es, mio_files = [[]]\<rparr>)"
    by (simp add: io_with_input_def same_files_def)
  have "talks (receive_zmodem open_writer) (zmodem_sent es) (zmodem_answered es) (\<lambda>fs. fs @ map zs_content es) (map zfile_of es)"
    using talks_zreceive [OF assms(2,1)] by (simp add: zmodem_sent_def zmodem_answered_def)
  from talksD [OF this, of "\<lparr>mio_input = map Arrives (zmodem_sent es), mio_output = [], mio_files = []\<rparr>" "[]"]
  show "receive_zmodem open_writer \<lparr>mio_input = map Arrives (zmodem_sent es), mio_output = [], mio_files = []\<rparr> =
      (Inr (map zfile_of es),
       \<lparr>mio_input = [], mio_output = zmodem_answered es, mio_files = map zs_content es\<rparr>)"
    by simp
qed

lemma zmodem_batch_delivered_witness:
  "mio_files (snd (receive_zmodem (\<lambda>_. Inr ())
     \<lparr>mio_input = map Arrives (zmodem_sent [sample_entry]), mio_output = [], mio_files = []\<rparr>)) = [[0x18, 0xFF]]"
  using zmodem_batch_delivered [of "[sample_entry]" "\<lambda>_. Inr ()"] sample_entry_ok by (simp add: sample_entry_def)

end
