(* ===== verification/X11_Setup.thy ===== *)
theory X11_Setup
  imports Modem_Zmodem
begin

text \<open>
  X11 forwarding: the connection setup packet of an X client, in which the program replaces the fake cookie it gave to the
  remote side by the real cookie of the local display (\<open>crates/oxideterm-x11-forwarding/src\<close>: \<open>auth.rs\<close>,
  \<open>protocol.rs\<close>, \<open>registry.rs\<close>, \<open>setup_buffer.rs\<close>, \<open>error.rs\<close>). The comparison in constant time is an argument (the
  package subtle), and so are the random bytes of a new cookie. Zeroisation and Debug output are not modelled. The functions on
  text of the standard library come from the theories of the modem protocols.
\<close>

section \<open>Errors and cookies\<close>

datatype x11_error =
    EmptyDisplay
  | MissingDisplay
  | InvalidDisplay bytes
  | DisplayPortOutOfRange u16
  | InvalidAuthCookie bytes
  | UnsupportedAuthProtocol bytes
  | InvalidXauthRecord bytes
  | MissingAuthEntry
  | AuthorityFileUnavailable bytes
  | XauthUnavailable bytes
  | XauthTimedOut
  | XauthFailed bytes
  | XauthOutputTooLarge nat
  | RemoteDisplayUnavailable
  | AuthCookieMismatch
  | IncompleteSetupPacket
  | SetupPacketTooLarge nat
  | UnsupportedByteOrder byte
  | InvalidSetupPacketLength

text \<open>\<open>str::trim\<close>.\<close>

fun trim_end :: "bytes \<Rightarrow> bytes" where
  "trim_end [] = []"
| "trim_end (b # bs) = (if skip_white_space (b # bs) = [] then [] else b # trim_end bs)"

definition trim_text :: "bytes \<Rightarrow> bytes" where
  "trim_text bs = trim_end (skip_white_space bs)"

datatype auth_protocol = MitMagicCookie1

definition ssh_name :: "auth_protocol \<Rightarrow> bytes" where
  "ssh_name p = ascii ''MIT-MAGIC-COOKIE-1''"

definition auth_protocol_parse :: "bytes \<Rightarrow> x11_error + auth_protocol" where
  "auth_protocol_parse input =
     (let name = trim_text input in
      if name = ascii ''MIT-MAGIC-COOKIE-1'' then Inr MitMagicCookie1 else Inl (UnsupportedAuthProtocol name))"

record x11_cookie =
  ck_bytes :: bytes

definition cookie_random_with_len :: "(nat \<Rightarrow> bytes) \<Rightarrow> nat \<Rightarrow> x11_cookie" where
  "cookie_random_with_len fill_bytes len = \<lparr>ck_bytes = fill_bytes (max len 1)\<rparr>"

definition cookie_from_bytes :: "bytes \<Rightarrow> x11_error + x11_cookie" where
  "cookie_from_bytes bs =
     (if bs = [] then Inl (InvalidAuthCookie (ascii ''cookie bytes must not be empty'')) else Inr \<lparr>ck_bytes = bs\<rparr>)"

definition decode_hex_nibble :: "byte \<Rightarrow> x11_error + byte" where
  "decode_hex_nibble b =
     (if 48 \<le> b \<and> b \<le> 57 then Inr (b - 48)
      else if 97 \<le> b \<and> b \<le> 102 then Inr (b - 97 + 10)
      else if 65 \<le> b \<and> b \<le> 70 then Inr (b - 65 + 10)
      else Inl (InvalidAuthCookie (ascii ''hex cookie contains a non-hex digit'')))"

fun decode_hex_pairs :: "bytes \<Rightarrow> x11_error + bytes" where
  "decode_hex_pairs (h # l # rest) =
     rbind (decode_hex_nibble h) (\<lambda>high.
     rbind (decode_hex_nibble l) (\<lambda>low.
     rbind (decode_hex_pairs rest) (\<lambda>bs. Inr ((push_bit 4 high OR low) # bs))))"
| "decode_hex_pairs _ = Inr []"

definition cookie_from_hex :: "bytes \<Rightarrow> x11_error + x11_cookie" where
  "cookie_from_hex input =
     (let hex = trim_text input in
      if hex = [] then Inl (InvalidAuthCookie (ascii ''hex cookie must not be empty''))
      else if length hex mod 2 \<noteq> 0
      then Inl (InvalidAuthCookie (ascii ''hex cookie must contain an even number of digits''))
      else rbind (decode_hex_pairs hex) cookie_from_bytes)"

definition hex_table :: bytes where "hex_table = ascii ''0123456789abcdef''"

definition push_hex_byte :: "byte \<Rightarrow> bytes" where
  "push_hex_byte b = [hex_table ! unat (drop_bit 4 b), hex_table ! unat (b AND 0x0F)]"

definition cookie_to_hex :: "x11_cookie \<Rightarrow> bytes" where
  "cookie_to_hex c = concat (map push_hex_byte (ck_bytes c))"

text \<open>The comparison of the package subtle, on slices of any length.\<close>

type_synonym ct_comparison = "bytes \<Rightarrow> bytes \<Rightarrow> bool"

definition ct_spec :: "ct_comparison \<Rightarrow> bool" where
  "ct_spec ct \<longleftrightarrow> (\<forall>a b. ct a b \<longleftrightarrow> a = b)"

definition constant_time_eq :: "ct_comparison \<Rightarrow> x11_cookie \<Rightarrow> x11_cookie \<Rightarrow> bool" where
  "constant_time_eq ct a b = ct (ck_bytes a) (ck_bytes b)"

record auth_material =
  am_protocol :: auth_protocol
  am_fake_cookie :: x11_cookie
  am_local_cookie :: x11_cookie

definition with_fake_cookie :: "x11_cookie \<Rightarrow> x11_cookie \<Rightarrow> auth_material" where
  "with_fake_cookie fake_cookie local_cookie =
     \<lparr>am_protocol = MitMagicCookie1, am_fake_cookie = fake_cookie, am_local_cookie = local_cookie\<rparr>"

definition mit_magic_cookie :: "(nat \<Rightarrow> bytes) \<Rightarrow> x11_cookie \<Rightarrow> auth_material" where
  "mit_magic_cookie fill_bytes local_cookie =
     with_fake_cookie (cookie_random_with_len fill_bytes (length (ck_bytes local_cookie))) local_cookie"

definition ssh_auth_cookie :: "auth_material \<Rightarrow> bytes" where
  "ssh_auth_cookie auth = cookie_to_hex (am_fake_cookie auth)"

section \<open>The setup packet\<close>

definition SETUP_HEADER_LEN :: nat where "SETUP_HEADER_LEN = 12"

datatype byte_order = BigEndian | LittleEndian

record setup_request =
  sr_byte_order :: byte_order
  sr_protocol_major :: u16
  sr_protocol_minor :: u16
  sr_auth_protocol :: bytes
  sr_auth_data_len :: nat

record setup_authentication =
  sn_request :: setup_request
  sn_protocol :: auth_protocol
  sn_fake_cookie :: x11_cookie

record parsed_setup =
  ps_request :: setup_request
  ps_auth_protocol_bytes :: bytes
  ps_data_start :: nat
  ps_data_end :: nat
  ps_data_padded_end :: nat

definition parse_byte_order :: "byte \<Rightarrow> x11_error + byte_order" where
  "parse_byte_order b =
     (if b = of_char CHR ''B'' then Inr BigEndian
      else if b = of_char CHR ''l'' then Inr LittleEndian
      else Inl (UnsupportedByteOrder b))"

definition read_u16 :: "bytes \<Rightarrow> byte_order \<Rightarrow> u16" where
  "read_u16 bs order =
     (case order of BigEndian \<Rightarrow> of_be_bytes [bs ! 0, bs ! 1] | LittleEndian \<Rightarrow> of_be_bytes [bs ! 1, bs ! 0])"

definition write_u16 :: "u16 \<Rightarrow> byte_order \<Rightarrow> bytes" where
  "write_u16 v order = (case order of BigEndian \<Rightarrow> be_bytes 2 v | LittleEndian \<Rightarrow> rev (be_bytes 2 v))"

definition padded_len :: "nat \<Rightarrow> x11_error + nat" where
  "padded_len len =
     (case usize_checked_add len 3 of None \<Rightarrow> Inl InvalidSetupPacketLength | Some v \<Rightarrow> Inr (v div 4 * 4))"

definition slice :: "nat \<Rightarrow> nat \<Rightarrow> bytes \<Rightarrow> bytes" where
  "slice start stop bs = take (stop - start) (drop start bs)"

definition setup_packet_total_len :: "bytes \<Rightarrow> x11_error + nat option" where
  "setup_packet_total_len packet =
     (if length packet < SETUP_HEADER_LEN then Inr None
      else
        rbind (parse_byte_order (packet ! 0)) (\<lambda>order.
          let auth_protocol_len = unat (read_u16 (slice 6 8 packet) order);
              auth_data_len = unat (read_u16 (slice 8 10 packet) order) in
          rbind (padded_len auth_protocol_len) (\<lambda>auth_protocol_padded_len.
          rbind (padded_len auth_data_len) (\<lambda>auth_data_padded_len.
            case Option.bind (usize_checked_add SETUP_HEADER_LEN auth_protocol_padded_len)
                   (\<lambda>v. usize_checked_add v auth_data_padded_len) of
              None \<Rightarrow> Inl InvalidSetupPacketLength
            | Some v \<Rightarrow> Inr (Some v)))))"

definition required_setup_packet_len :: "bytes \<Rightarrow> x11_error + nat option" where
  "required_setup_packet_len packet = setup_packet_total_len packet"

definition parse_setup_packet :: "bytes \<Rightarrow> x11_error + parsed_setup" where
  "parse_setup_packet packet =
     rbind (setup_packet_total_len packet) (\<lambda>total_len.
       case total_len of
         None \<Rightarrow> Inl IncompleteSetupPacket
       | Some packet_min_len \<Rightarrow>
           (if length packet < packet_min_len then Inl IncompleteSetupPacket
            else
              rbind (parse_byte_order (packet ! 0)) (\<lambda>order.
                let protocol_major = read_u16 (slice 2 4 packet) order;
                    protocol_minor = read_u16 (slice 4 6 packet) order;
                    auth_protocol_len = unat (read_u16 (slice 6 8 packet) order);
                    auth_data_len = unat (read_u16 (slice 8 10 packet) order);
                    auth_protocol_start = SETUP_HEADER_LEN in
                rbind (padded_len auth_protocol_len) (\<lambda>auth_protocol_padded_len.
                rbind (ok_or InvalidSetupPacketLength (usize_checked_add auth_protocol_start auth_protocol_len)) (\<lambda>auth_protocol_end.
                rbind (ok_or InvalidSetupPacketLength (usize_checked_add auth_protocol_start auth_protocol_padded_len)) (\<lambda>auth_data_start.
                rbind (ok_or InvalidSetupPacketLength (usize_checked_add auth_data_start auth_data_len)) (\<lambda>auth_data_end.
                  let auth_protocol_bytes = slice auth_protocol_start auth_protocol_end packet in
                  Inr \<lparr>ps_request = \<lparr>sr_byte_order = order, sr_protocol_major = protocol_major,
                                      sr_protocol_minor = protocol_minor,
                                      sr_auth_protocol = from_utf8_lossy auth_protocol_bytes,
                                      sr_auth_data_len = auth_data_len\<rparr>,
                       ps_auth_protocol_bytes = auth_protocol_bytes,
                       ps_data_start = auth_data_start, ps_data_end = auth_data_end,
                       ps_data_padded_end = packet_min_len\<rparr>)))))))"

definition inspect_setup_request :: "bytes \<Rightarrow> x11_error + setup_request" where
  "inspect_setup_request packet = rbind (parse_setup_packet packet) (\<lambda>parsed. Inr (ps_request parsed))"

definition inspect_setup_authentication :: "bytes \<Rightarrow> x11_error + setup_authentication" where
  "inspect_setup_authentication packet =
     rbind (parse_setup_packet packet) (\<lambda>parsed.
     rbind (auth_protocol_parse (sr_auth_protocol (ps_request parsed))) (\<lambda>protocol.
     rbind (cookie_from_bytes (slice (ps_data_start parsed) (ps_data_end parsed) packet)) (\<lambda>fake_cookie.
       Inr \<lparr>sn_request = ps_request parsed, sn_protocol = protocol, sn_fake_cookie = fake_cookie\<rparr>)))"

text \<open>The packet is changed in place: the second component is the packet after the call, on every path.\<close>

definition rewrite_auth_data :: "bytes \<Rightarrow> parsed_setup \<Rightarrow> bytes \<Rightarrow> (x11_error + unit) \<times> bytes" where
  "rewrite_auth_data packet parsed replacement =
     (if 2 ^ 16 - 1 < length replacement then (Inl InvalidSetupPacketLength, packet)
      else
        (let packet = take 8 packet @ write_u16 (of_nat (length replacement)) (sr_byte_order (ps_request parsed)) @ drop 10 packet in
         if length replacement = ps_data_end parsed - ps_data_start parsed
         then (Inr (), take (ps_data_start parsed) packet @ replacement @ drop (ps_data_end parsed) packet)
         else
           (let tail = drop (ps_data_padded_end parsed) packet;
                packet = take (ps_data_start parsed) packet @ replacement in
            case padded_len (length replacement) of
              Inl e \<Rightarrow> (Inl e, packet)
            | Inr padded_replacement \<Rightarrow> (Inr (), packet @ replicate (padded_replacement - length replacement) 0 @ tail))))"

definition constant_time_bytes_eq :: "ct_comparison \<Rightarrow> bytes \<Rightarrow> bytes \<Rightarrow> bool" where
  "constant_time_bytes_eq ct left right \<longleftrightarrow> length left = length right \<and> ct left right"

definition rewrite_setup_authentication :: "ct_comparison \<Rightarrow> bytes \<Rightarrow> auth_material \<Rightarrow> (x11_error + setup_request) \<times> bytes" where
  "rewrite_setup_authentication ct packet auth =
     (case parse_setup_packet packet of
        Inl e \<Rightarrow> (Inl e, packet)
      | Inr parsed \<Rightarrow>
          (if ps_auth_protocol_bytes parsed \<noteq> ssh_name (am_protocol auth)
           then (Inl (UnsupportedAuthProtocol (from_utf8_lossy (ps_auth_protocol_bytes parsed))), packet)
           else if \<not> constant_time_bytes_eq ct (slice (ps_data_start parsed) (ps_data_end parsed) packet)
                       (ck_bytes (am_fake_cookie auth))
           then (Inl AuthCookieMismatch, packet)
           else
             (case rewrite_auth_data packet parsed (ck_bytes (am_local_cookie auth)) of
                (Inl e, packet) \<Rightarrow> (Inl e, packet)
              | (Inr _, packet) \<Rightarrow> (Inr (ps_request parsed), packet))))"

definition build_auth_failure_response :: "setup_request \<Rightarrow> bytes \<Rightarrow> x11_error + bytes" where
  "build_auth_failure_response request reason =
     (if 2 ^ 8 - 1 < length reason then Inl InvalidSetupPacketLength
      else
        rbind (padded_len (length reason)) (\<lambda>padded_reason_len.
          let length_units = padded_reason_len div 4 in
          if 2 ^ 16 - 1 < length_units then Inl InvalidSetupPacketLength
          else
            Inr ([0, of_nat (length reason)] @
                 write_u16 (sr_protocol_major request) (sr_byte_order request) @
                 write_u16 (sr_protocol_minor request) (sr_byte_order request) @
                 write_u16 (of_nat length_units) (sr_byte_order request) @
                 reason @ replicate (padded_reason_len - length reason) 0)))"
section \<open>The registry of fake cookies\<close>

record 'c spoofed_auth =
  sa_channel_id :: 'c
  sa_auth :: auth_material
  sa_single_connection :: bool

type_synonym 'c spoof_registry = "'c spoofed_auth list"

definition registry_new :: "'c spoof_registry" where
  "registry_new = []"

fun position :: "('a \<Rightarrow> bool) \<Rightarrow> 'a list \<Rightarrow> nat option" where
  "position P [] = None"
| "position P (x # xs) = (if P x then Some 0 else map_option Suc (position P xs))"

definition remove_at :: "nat \<Rightarrow> 'a list \<Rightarrow> 'a list" where
  "remove_at i xs = take i xs @ drop (Suc i) xs"

definition registry_insert ::
    "ct_comparison \<Rightarrow> 'c spoofed_auth \<Rightarrow> 'c spoof_registry \<Rightarrow> 'c spoofed_auth option \<times> 'c spoof_registry" where
  "registry_insert ct entry entries =
     (case position (\<lambda>existing. constant_time_eq ct (am_fake_cookie (sa_auth existing)) (am_fake_cookie (sa_auth entry))) entries of
        Some i \<Rightarrow> (Some (entries ! i), remove_at i entries @ [entry])
      | None \<Rightarrow> (None, entries @ [entry]))"

definition register_mit_magic_cookie ::
    "ct_comparison \<Rightarrow> (nat \<Rightarrow> bytes) \<Rightarrow> 'c \<Rightarrow> x11_cookie \<Rightarrow> bool \<Rightarrow> 'c spoof_registry \<Rightarrow> auth_material \<times> 'c spoof_registry" where
  "register_mit_magic_cookie ct fill_bytes channel_id local_cookie single_connection entries =
     (let auth = mit_magic_cookie fill_bytes local_cookie in
      (auth, snd (registry_insert ct \<lparr>sa_channel_id = channel_id, sa_auth = auth, sa_single_connection = single_connection\<rparr> entries)))"

definition registry_resolve ::
    "ct_comparison \<Rightarrow> auth_protocol \<Rightarrow> x11_cookie \<Rightarrow> 'c spoof_registry \<Rightarrow> 'c spoofed_auth option \<times> 'c spoof_registry" where
  "registry_resolve ct protocol fake_cookie entries =
     (case position (\<lambda>entry. am_protocol (sa_auth entry) = protocol \<and>
                              constant_time_eq ct (am_fake_cookie (sa_auth entry)) fake_cookie) entries of
        None \<Rightarrow> (None, entries)
      | Some i \<Rightarrow>
          (if sa_single_connection (entries ! i) then (Some (entries ! i), remove_at i entries)
           else (Some (entries ! i), entries)))"

definition resolve_setup_packet ::
    "ct_comparison \<Rightarrow> bytes \<Rightarrow> 'c spoof_registry \<Rightarrow> (x11_error + 'c spoofed_auth option) \<times> 'c spoof_registry" where
  "resolve_setup_packet ct packet entries =
     (case inspect_setup_authentication packet of
        Inl e \<Rightarrow> (Inl e, entries)
      | Inr setup_auth \<Rightarrow>
          (case registry_resolve ct (sn_protocol setup_auth) (sn_fake_cookie setup_auth) entries of
             (found, entries) \<Rightarrow> (Inr found, entries)))"

fun remove_channel :: "'c \<Rightarrow> 'c spoof_registry \<Rightarrow> 'c spoofed_auth list \<times> 'c spoof_registry" where
  "remove_channel channel_id [] = ([], [])"
| "remove_channel channel_id (entry # entries) =
     (case remove_channel channel_id entries of
        (gone, others) \<Rightarrow>
          (if sa_channel_id entry = channel_id then (entry # gone, others) else (gone, entry # others)))"

section \<open>The setup buffer\<close>

definition DEFAULT_MAX_SETUP_PACKET_BYTES :: nat where "DEFAULT_MAX_SETUP_PACKET_BYTES = 1024 * 1024"

datatype setup_buffer_state =
    WaitingForHeader nat
  | WaitingForBody nat nat
  | SetupComplete

record setup_rewrite =
  sw_request :: setup_request
  sw_rewritten_setup :: bytes
  sw_trailing_data :: bytes

datatype reject_reason = CookieMismatch | UnsupportedProtocol

record setup_reject =
  sj_request :: setup_request
  sj_reason :: reject_reason
  sj_failure_response :: bytes

datatype setup_decision = Forward setup_rewrite | Reject setup_reject

datatype 'c registered_decision = ForwardTo 'c setup_rewrite | RejectSetup setup_reject

record setup_buffer =
  sb_bytes :: bytes
  sb_max_setup_bytes :: nat
  sb_complete :: bool

definition with_max_setup_bytes :: "nat \<Rightarrow> setup_buffer" where
  "with_max_setup_bytes max_setup_bytes =
     \<lparr>sb_bytes = [], sb_max_setup_bytes = max_setup_bytes, sb_complete = False\<rparr>"

definition setup_buffer_new :: setup_buffer where
  "setup_buffer_new = with_max_setup_bytes DEFAULT_MAX_SETUP_PACKET_BYTES"

definition setup_buffer_state_of :: "setup_buffer \<Rightarrow> x11_error + setup_buffer_state" where
  "setup_buffer_state_of b =
     (if sb_complete b then Inr SetupComplete
      else
        rbind (required_setup_packet_len (sb_bytes b)) (\<lambda>r.
          case r of
            Some required \<Rightarrow> Inr (WaitingForBody (length (sb_bytes b)) required)
          | None \<Rightarrow> Inr (WaitingForHeader (length (sb_bytes b)))))"

definition push_complete_setup :: "bytes \<Rightarrow> setup_buffer \<Rightarrow> (x11_error + (bytes \<times> bytes) option) \<times> setup_buffer" where
  "push_complete_setup chunk b =
     (if sb_complete b then (Inl InvalidSetupPacketLength, b)
      else
        (let b = b\<lparr>sb_bytes := sb_bytes b @ chunk\<rparr> in
         if sb_max_setup_bytes b < length (sb_bytes b) then (Inl (SetupPacketTooLarge (sb_max_setup_bytes b)), b)
         else
           (case required_setup_packet_len (sb_bytes b) of
              Inl e \<Rightarrow> (Inl e, b)
            | Inr None \<Rightarrow> (Inr None, b)
            | Inr (Some required) \<Rightarrow>
                (if length (sb_bytes b) < required then (Inr None, b)
                 else
                   (Inr (Some (take required (sb_bytes b), drop required (sb_bytes b))),
                    b\<lparr>sb_bytes := [], sb_complete := True\<rparr>)))))"

definition reject_setup_packet :: "bytes \<Rightarrow> reject_reason \<Rightarrow> bytes \<Rightarrow> x11_error + setup_reject" where
  "reject_setup_packet setup reason failure_message =
     rbind (inspect_setup_request setup) (\<lambda>request.
     rbind (build_auth_failure_response request failure_message) (\<lambda>response.
       Inr \<lparr>sj_request = request, sj_reason = reason, sj_failure_response = response\<rparr>))"

definition auth_failed :: bytes where "auth_failed = ascii ''X11 forwarding authentication failed''"
definition unsupported_protocol :: bytes where "unsupported_protocol = ascii ''Unsupported X11 auth protocol''"

definition push_decision ::
    "ct_comparison \<Rightarrow> bytes \<Rightarrow> auth_material \<Rightarrow> setup_buffer \<Rightarrow> (x11_error + setup_decision option) \<times> setup_buffer" where
  "push_decision ct chunk auth b =
     (case push_complete_setup chunk b of
        (Inl e, b) \<Rightarrow> (Inl e, b)
      | (Inr None, b) \<Rightarrow> (Inr None, b)
      | (Inr (Some (setup, trailing_data)), b) \<Rightarrow>
          (case rewrite_setup_authentication ct setup auth of
             (Inr request, setup) \<Rightarrow>
               (Inr (Some (Forward \<lparr>sw_request = request, sw_rewritten_setup = setup, sw_trailing_data = trailing_data\<rparr>)), b)
           | (Inl AuthCookieMismatch, setup) \<Rightarrow>
               (rbind (reject_setup_packet setup CookieMismatch auth_failed) (\<lambda>reject. Inr (Some (Reject reject))), b)
           | (Inl (UnsupportedAuthProtocol _), setup) \<Rightarrow>
               (rbind (reject_setup_packet setup UnsupportedProtocol unsupported_protocol) (\<lambda>reject. Inr (Some (Reject reject))), b)
           | (Inl e, setup) \<Rightarrow> (Inl e, b)))"

definition push_setup ::
    "ct_comparison \<Rightarrow> bytes \<Rightarrow> auth_material \<Rightarrow> setup_buffer \<Rightarrow> (x11_error + setup_rewrite option) \<times> setup_buffer" where
  "push_setup ct chunk auth b =
     (case push_decision ct chunk auth b of
        (Inl e, b) \<Rightarrow> (Inl e, b)
      | (Inr None, b) \<Rightarrow> (Inr None, b)
      | (Inr (Some (Forward rewrite)), b) \<Rightarrow> (Inr (Some rewrite), b)
      | (Inr (Some (Reject reject)), b) \<Rightarrow>
          (Inl (case sj_reason reject of
                  CookieMismatch \<Rightarrow> AuthCookieMismatch
                | UnsupportedProtocol \<Rightarrow> UnsupportedAuthProtocol (sr_auth_protocol (sj_request reject))), b))"

definition push_registry_decision ::
    "ct_comparison \<Rightarrow> bytes \<Rightarrow> 'c spoof_registry \<Rightarrow> setup_buffer \<Rightarrow>
     (x11_error + 'c registered_decision option) \<times> 'c spoof_registry \<times> setup_buffer" where
  "push_registry_decision ct chunk registry b =
     (case push_complete_setup chunk b of
        (Inl e, b) \<Rightarrow> (Inl e, registry, b)
      | (Inr None, b) \<Rightarrow> (Inr None, registry, b)
      | (Inr (Some (setup, trailing_data)), b) \<Rightarrow>
          (case resolve_setup_packet ct setup registry of
             (Inr (Some entry), registry) \<Rightarrow>
               (case rewrite_setup_authentication ct setup (sa_auth entry) of
                  (Inl e, setup) \<Rightarrow> (Inl e, registry, b)
                | (Inr request, setup) \<Rightarrow>
                    (Inr (Some (ForwardTo (sa_channel_id entry)
                       \<lparr>sw_request = request, sw_rewritten_setup = setup, sw_trailing_data = trailing_data\<rparr>)), registry, b))
           | (Inr None, registry) \<Rightarrow>
               (rbind (reject_setup_packet setup CookieMismatch auth_failed) (\<lambda>reject. Inr (Some (RejectSetup reject))), registry, b)
           | (Inl (UnsupportedAuthProtocol _), registry) \<Rightarrow>
               (rbind (reject_setup_packet setup UnsupportedProtocol unsupported_protocol) (\<lambda>reject. Inr (Some (RejectSetup reject))), registry, b)
           | (Inl (InvalidAuthCookie _), registry) \<Rightarrow>
               (rbind (reject_setup_packet setup CookieMismatch auth_failed) (\<lambda>reject. Inr (Some (RejectSetup reject))), registry, b)
           | (Inl e, registry) \<Rightarrow> (Inl e, registry, b)))"
section \<open>The layout of a setup packet\<close>

definition pad4 :: "nat \<Rightarrow> nat" where
  "pad4 n = (n + 3) div 4 * 4 - n"

lemma padded_len_pad: "n + 3 \<le> usize_max \<Longrightarrow> padded_len n = Inr (n + pad4 n)"
  by (simp add: padded_len_def pad4_def)

lemma pad4_lt: "pad4 n < 4"
  unfolding pad4_def by linarith

lemma read_write_u16 [simp]: "read_u16 (write_u16 v order) order = v"
proof -
  obtain a b where ab: "be_bytes 2 v = [a, b]" by (simp add: be_bytes_def numeral_2_eq_2)
  have "of_be_bytes [a, b] = v" unfolding ab [symmetric] by (rule of_be_be_bytes) simp
  then show ?thesis by (cases order) (simp_all add: read_u16_def write_u16_def ab)
qed

lemma write_read_u16 [simp]: "write_u16 (read_u16 [a, b] order) order = [a, b]"
proof -
  have be: "be_bytes 2 (of_be_bytes [x, y] :: u16) = [x, y]" for x y
    using be_bytes_of_be [of "[x, y]", where 'a = 16] by (simp add: numeral_2_eq_2)
  show ?thesis by (cases order) (simp_all add: read_u16_def write_u16_def be)
qed

lemma length_write_u16 [simp]: "length (write_u16 v order) = 2"
  by (cases order) (simp_all add: write_u16_def)

lemma read_u16_less: "unat (read_u16 bs order) < 65536"
  using unsigned_less [of "read_u16 bs order"] by simp

definition order_marker :: "byte_order \<Rightarrow> byte" where
  "order_marker order = (case order of BigEndian \<Rightarrow> of_char CHR ''B'' | LittleEndian \<Rightarrow> of_char CHR ''l'')"

lemma parse_marker [simp]: "parse_byte_order (order_marker order) = Inr order"
  by (cases order) (simp_all add: order_marker_def parse_byte_order_def)

lemma parse_marker_iff: "parse_byte_order b = Inr order \<longleftrightarrow> b = order_marker order"
  by (cases order) (auto simp: order_marker_def parse_byte_order_def)

text \<open>The parts of a packet: the version and the unused bytes, the name and the data, each with its padding.\<close>

record setup_parts =
  st_order :: byte_order
  st_unused :: byte
  st_major :: u16
  st_minor :: u16
  st_unused2 :: bytes
  st_name :: bytes
  st_name_pad :: bytes
  st_data :: bytes
  st_data_pad :: bytes

definition setup_head :: "setup_parts \<Rightarrow> bytes" where
  "setup_head s =
     [order_marker (st_order s), st_unused s] @ write_u16 (st_major s) (st_order s) @ write_u16 (st_minor s) (st_order s) @
     write_u16 (of_nat (length (st_name s))) (st_order s)"

definition setup_bytes :: "setup_parts \<Rightarrow> bytes" where
  "setup_bytes s =
     setup_head s @ write_u16 (of_nat (length (st_data s))) (st_order s) @ st_unused2 s @ st_name s @ st_name_pad s @
     st_data s @ st_data_pad s"

definition parts_ok :: "setup_parts \<Rightarrow> bool" where
  "parts_ok s \<longleftrightarrow>
     length (st_unused2 s) = 2 \<and> length (st_name s) < 65536 \<and> length (st_data s) < 65536 \<and>
     length (st_name_pad s) = pad4 (length (st_name s)) \<and> length (st_data_pad s) = pad4 (length (st_data s))"

definition parsed_of :: "setup_parts \<Rightarrow> parsed_setup" where
  "parsed_of s =
     (let start = 12 + length (st_name s) + length (st_name_pad s) in
      \<lparr>ps_request = \<lparr>sr_byte_order = st_order s, sr_protocol_major = st_major s, sr_protocol_minor = st_minor s,
                     sr_auth_protocol = from_utf8_lossy (st_name s), sr_auth_data_len = length (st_data s)\<rparr>,
       ps_auth_protocol_bytes = st_name s, ps_data_start = start, ps_data_end = start + length (st_data s),
       ps_data_padded_end = length (setup_bytes s)\<rparr>)"

lemma length_setup_head [simp]: "length (setup_head s) = 8"
  by (simp add: setup_head_def)

lemma length_setup_bytes: "parts_ok s \<Longrightarrow>
    length (setup_bytes s) = 12 + length (st_name s) + pad4 (length (st_name s)) + length (st_data s) + pad4 (length (st_data s))"
  by (simp add: setup_bytes_def parts_ok_def)

lemma head_fields:
  "(setup_head s @ rest) ! 0 = order_marker (st_order s)"
  "slice 2 4 (setup_head s @ rest) = write_u16 (st_major s) (st_order s)"
  "slice 4 6 (setup_head s @ rest) = write_u16 (st_minor s) (st_order s)"
  "slice 6 8 (setup_head s @ rest) = write_u16 (of_nat (length (st_name s))) (st_order s)"
  by (simp_all add: setup_head_def slice_def)

lemma setup_fields:
  assumes "parts_ok s"
  shows "slice 8 10 (setup_bytes s @ rest) = write_u16 (of_nat (length (st_data s))) (st_order s)"
    "slice 12 (12 + length (st_name s)) (setup_bytes s @ rest) = st_name s"
    "slice (12 + length (st_name s) + length (st_name_pad s))
       (12 + length (st_name s) + length (st_name_pad s) + length (st_data s)) (setup_bytes s @ rest) = st_data s"
  using assms by (simp_all add: setup_bytes_def parts_ok_def slice_def)

lemma unat_length16: "n < 65536 \<Longrightarrow> unat (of_nat n :: u16) = n"
  by (simp add: unat_of_nat)

lemma small_len: "n < 65536 \<Longrightarrow> m < 65536 \<Longrightarrow> 12 + (n + pad4 n) + (m + pad4 m) \<le> usize_max"
  using pad4_lt [of n] pad4_lt [of m] by (simp add: usize_max_def)

lemma total_len_parts:
  assumes "parts_ok s"
  shows "setup_packet_total_len (setup_bytes s @ rest) = Inr (Some (length (setup_bytes s)))"
proof -
  have len: "length (st_name s) < 65536" "length (st_data s) < 65536" using assms by (simp_all add: parts_ok_def)
  have padded: "padded_len n = Inr (n + pad4 n)" if "n < 65536" for n
    using that by (intro padded_len_pad) (simp add: usize_max_def)
  obtain more where more: "setup_bytes s @ rest = setup_head s @ more" by (simp add: setup_bytes_def)
  have head: "(setup_bytes s @ rest) ! 0 = order_marker (st_order s)"
    "slice 6 8 (setup_bytes s @ rest) = write_u16 (of_nat (length (st_name s))) (st_order s)"
    unfolding more by (rule head_fields)+
  have "\<not> length (setup_bytes s @ rest) < SETUP_HEADER_LEN"
    using length_setup_bytes [OF assms] by (simp add: SETUP_HEADER_LEN_def)
  then show ?thesis
    using small_len [OF len] length_setup_bytes [OF assms]
    by (simp add: setup_packet_total_len_def head setup_fields [OF assms] unat_length16 len padded Let_def SETUP_HEADER_LEN_def)
qed

lemma parse_parts:
  assumes "parts_ok s"
  shows "parse_setup_packet (setup_bytes s @ rest) = Inr (parsed_of s)"
proof -
  have len: "length (st_name s) < 65536" "length (st_data s) < 65536"
    "length (st_name_pad s) = pad4 (length (st_name s))" using assms by (simp_all add: parts_ok_def)
  have padded: "padded_len n = Inr (n + pad4 n)" if "n < 65536" for n
    using that by (intro padded_len_pad) (simp add: usize_max_def)
  obtain more where more: "setup_bytes s @ rest = setup_head s @ more" by (simp add: setup_bytes_def)
  have head: "(setup_bytes s @ rest) ! 0 = order_marker (st_order s)"
    "slice 2 4 (setup_bytes s @ rest) = write_u16 (st_major s) (st_order s)"
    "slice 4 6 (setup_bytes s @ rest) = write_u16 (st_minor s) (st_order s)"
    "slice 6 8 (setup_bytes s @ rest) = write_u16 (of_nat (length (st_name s))) (st_order s)"
    unfolding more by (rule head_fields)+
  show ?thesis
    using small_len [OF len(1,2)] setup_fields(2,3) [OF assms, of rest] len
    by (simp add: parse_setup_packet_def total_len_parts [OF assms] head setup_fields(1) [OF assms] unat_length16 padded Let_def
        SETUP_HEADER_LEN_def parsed_of_def)
qed
lemma total_len_cases:
  assumes "setup_packet_total_len p = Inr (Some n)"
  obtains order nl dl where "12 \<le> length p" "p ! 0 = order_marker order" "nl < 65536" "dl < 65536"
    "read_u16 (slice 6 8 p) order = of_nat nl" "read_u16 (slice 8 10 p) order = of_nat dl"
    "n = 12 + (nl + pad4 nl) + (dl + pad4 dl)"
proof -
  obtain order where order: "\<not> length p < 12" "parse_byte_order (p ! 0) = Inr order"
    using assms by (auto simp: setup_packet_total_len_def SETUP_HEADER_LEN_def split: if_splits)
  let ?nl = "unat (read_u16 (slice 6 8 p) order)" and ?dl = "unat (read_u16 (slice 8 10 p) order)"
  have padded: "padded_len k = Inr (k + pad4 k)" if "k < 65536" for k
    using that by (intro padded_len_pad) (simp add: usize_max_def)
  note small = read_u16_less [of "slice 6 8 p" order] read_u16_less [of "slice 8 10 p" order]
  have "n = 12 + (?nl + pad4 ?nl) + (?dl + pad4 ?dl)"
    using assms order small_len [OF small]
    by (simp add: setup_packet_total_len_def SETUP_HEADER_LEN_def Let_def padded small)
  then show thesis
    using that [of order ?nl ?dl] order small by (simp add: parse_marker_iff)
qed

lemma twelve:
  assumes "12 \<le> length (p :: 'a list)"
  obtains a0 a1 a2 a3 a4 a5 a6 a7 a8 a9 a10 a11 q where "p = [a0, a1, a2, a3, a4, a5, a6, a7, a8, a9, a10, a11] @ q"
  using assms by (auto simp: eval_nat_numeral Suc_le_length_iff)

lemma four_parts:
  assumes "a + b + c + d \<le> length (q :: 'a list)"
  obtains as bs cs ds rest where "q = as @ bs @ cs @ ds @ rest" "length as = a" "length bs = b" "length cs = c" "length ds = d"
proof
  let ?q1 = "drop a q" and ?q2 = "drop b (drop a q)" and ?q3 = "drop c (drop b (drop a q))"
  show "q = take a q @ take b ?q1 @ take c ?q2 @ take d ?q3 @ drop d ?q3"
    by (simp only: append_take_drop_id)
  show "length (take a q) = a" "length (take b ?q1) = b" "length (take c ?q2) = c" "length (take d ?q3) = d"
    using assms by simp_all
qed

lemma total_len_inverse:
  assumes "setup_packet_total_len p = Inr (Some n)" "n \<le> length p"
  obtains s rest where "parts_ok s" "p = setup_bytes s @ rest" "n = length (setup_bytes s)"
proof -
  obtain order nl dl where t: "12 \<le> length p" "p ! 0 = order_marker order" "nl < 65536" "dl < 65536"
    "read_u16 (slice 6 8 p) order = of_nat nl" "read_u16 (slice 8 10 p) order = of_nat dl"
    "n = 12 + (nl + pad4 nl) + (dl + pad4 dl)"
    using total_len_cases [OF assms(1)] by blast
  obtain a0 a1 a2 a3 a4 a5 a6 a7 a8 a9 a10 a11 q where p: "p = [a0, a1, a2, a3, a4, a5, a6, a7, a8, a9, a10, a11] @ q"
    by (rule twelve [OF t(1)])
  have "nl + pad4 nl + dl + pad4 dl \<le> length q" using assms(2) t(7) by (simp add: p)
  then obtain name npad dat dpad rest where q: "q = name @ npad @ dat @ dpad @ rest"
    and len: "length name = nl" "length npad = pad4 nl" "length dat = dl" "length dpad = pad4 dl"
    by (rule four_parts)
  have words: "read_u16 [a6, a7] order = of_nat nl" "read_u16 [a8, a9] order = of_nat dl" "a0 = order_marker order"
    using t(2,5,6) by (simp_all add: p slice_def)
  define s where "s = \<lparr>st_order = order, st_unused = a1, st_major = read_u16 [a2, a3] order, st_minor = read_u16 [a4, a5] order,
      st_unused2 = [a10, a11], st_name = name, st_name_pad = npad, st_data = dat, st_data_pad = dpad\<rparr>"
  have ok: "parts_ok s" using t(3,4) len by (simp add: s_def parts_ok_def)
  have "write_u16 (of_nat nl) order = [a6, a7]" "write_u16 (of_nat dl) order = [a8, a9]"
    unfolding words(1,2) [symmetric] by simp_all
  then have "p = setup_bytes s @ rest"
    by (simp add: p q s_def setup_bytes_def setup_head_def len words(3))
  moreover have "n = length (setup_bytes s)" using length_setup_bytes [OF ok] t(7) len by (simp add: s_def)
  ultimately show thesis using that ok by blast
qed

lemma parse_inverse:
  assumes "parse_setup_packet p = Inr ps"
  obtains s rest where "parts_ok s" "p = setup_bytes s @ rest" "ps = parsed_of s"
proof -
  obtain n where n: "setup_packet_total_len p = Inr (Some n)" "n \<le> length p"
    using assms by (auto simp: parse_setup_packet_def split: option.splits if_splits)
  obtain s rest where s: "parts_ok s" "p = setup_bytes s @ rest" by (rule total_len_inverse [OF n])
  then have "ps = parsed_of s" using assms parse_parts [OF s(1)] by simp
  then show thesis using that s by blast
qed

text \<open>The replacement of the cookie changes the data, its length and, with another length, its padding; nothing else.\<close>

definition replaced_parts :: "bytes \<Rightarrow> setup_parts \<Rightarrow> setup_parts" where
  "replaced_parts new s =
     s\<lparr>st_data := new,
       st_data_pad := (if length new = length (st_data s) then st_data_pad s else replicate (pad4 (length new)) 0)\<rparr>"

lemma replaced_ok: "parts_ok s \<Longrightarrow> length new < 65536 \<Longrightarrow> parts_ok (replaced_parts new s)"
  by (simp add: parts_ok_def replaced_parts_def)

lemma rewrite_parts:
  assumes "parts_ok s"
  shows "rewrite_auth_data (setup_bytes s @ rest) (parsed_of s) new =
    (if length new < 65536 then (Inr (), setup_bytes (replaced_parts new s) @ rest)
     else (Inl InvalidSetupPacketLength, setup_bytes s @ rest))"
proof (cases "length new < 65536")
  case True
  then have padded: "padded_len (length new) = Inr (length new + pad4 (length new))"
    by (intro padded_len_pad) (simp add: usize_max_def)
  let ?mid = "st_unused2 s @ st_name s @ st_name_pad s"
  have bytes: "setup_bytes s @ rest =
      setup_head s @ write_u16 (of_nat (length (st_data s))) (st_order s) @ ?mid @ st_data s @ st_data_pad s @ rest"
    by (simp add: setup_bytes_def)
  let ?len = "write_u16 (of_nat (length new)) (st_order s)"
  have head: "take 8 (setup_bytes s @ rest) @ ?len @ drop 10 (setup_bytes s @ rest) =
      (setup_head s @ ?len @ ?mid) @ st_data s @ st_data_pad s @ rest"
    unfolding bytes by simp
  have mid: "length (setup_head s @ ?len @ ?mid) = ps_data_start (parsed_of s)"
    using assms by (simp add: parsed_of_def parts_ok_def Let_def)
  have stop: "ps_data_end (parsed_of s) = ps_data_start (parsed_of s) + length (st_data s)"
    "ps_data_padded_end (parsed_of s) = ps_data_start (parsed_of s) + length (st_data s) + length (st_data_pad s)"
    using length_setup_bytes [OF assms] assms by (simp_all add: parsed_of_def Let_def parts_ok_def)
  have order: "sr_byte_order (ps_request (parsed_of s)) = st_order s" by (simp add: parsed_of_def Let_def)
  have after: "setup_bytes (replaced_parts new s) @ rest =
      (setup_head s @ ?len @ ?mid) @ new @ st_data_pad (replaced_parts new s) @ rest"
    by (simp add: setup_bytes_def setup_head_def replaced_parts_def)
  have "\<not> 2 ^ 16 - 1 < length new" using True by simp
  then show ?thesis
    unfolding rewrite_auth_data_def if_not_P [OF \<open>\<not> 2 ^ 16 - 1 < length new\<close>] Let_def order head after stop mid [symmetric]
    using True by (simp add: padded replaced_parts_def)
qed (simp add: rewrite_auth_data_def)

lemma rewrite_auth_parts:
  assumes "parts_ok s" "ct_spec ct"
  shows "rewrite_setup_authentication ct (setup_bytes s @ rest) auth =
    (if st_name s \<noteq> ssh_name (am_protocol auth)
     then (Inl (UnsupportedAuthProtocol (from_utf8_lossy (st_name s))), setup_bytes s @ rest)
     else if st_data s \<noteq> ck_bytes (am_fake_cookie auth) then (Inl AuthCookieMismatch, setup_bytes s @ rest)
     else if length (ck_bytes (am_local_cookie auth)) < 65536
     then (Inr (ps_request (parsed_of s)), setup_bytes (replaced_parts (ck_bytes (am_local_cookie auth)) s) @ rest)
     else (Inl InvalidSetupPacketLength, setup_bytes s @ rest))"
proof -
  have "ps_auth_protocol_bytes (parsed_of s) = st_name s" by (simp add: parsed_of_def Let_def)
  moreover have "slice (ps_data_start (parsed_of s)) (ps_data_end (parsed_of s)) (setup_bytes s @ rest) = st_data s"
    using setup_fields(3) [OF assms(1)] by (simp add: parsed_of_def Let_def)
  moreover have "constant_time_bytes_eq ct a b \<longleftrightarrow> a = b" for a b
    using assms(2) by (auto simp: constant_time_bytes_eq_def ct_spec_def)
  ultimately show ?thesis
    by (simp add: rewrite_setup_authentication_def parse_parts [OF assms(1)] rewrite_parts [OF assms(1)])
qed
section \<open>Decisions\<close>

lemma inspect_parts: "parts_ok s \<Longrightarrow> inspect_setup_request (setup_bytes s @ rest) = Inr (ps_request (parsed_of s))"
  by (simp add: inspect_setup_request_def parse_parts)

lemma failure_ok:
  assumes "length reason \<le> 255"
  shows "\<exists>bs. build_auth_failure_response request reason = Inr (0 # bs)"
proof -
  have "padded_len (length reason) = Inr (length reason + pad4 (length reason))"
    using assms by (intro padded_len_pad) (simp add: usize_max_def)
  moreover have "(length reason + pad4 (length reason)) div 4 \<le> 65535"
    using assms pad4_lt [of "length reason"] by linarith
  ultimately show ?thesis using assms by (simp add: build_auth_failure_response_def Let_def)
qed

definition rejection :: "setup_parts \<Rightarrow> reject_reason \<Rightarrow> setup_reject" where
  "rejection s reason =
     \<lparr>sj_request = ps_request (parsed_of s), sj_reason = reason,
      sj_failure_response =
        projr (build_auth_failure_response (ps_request (parsed_of s))
                 (case reason of CookieMismatch \<Rightarrow> auth_failed | UnsupportedProtocol \<Rightarrow> unsupported_protocol))\<rparr>"

lemma reject_parts:
  assumes "parts_ok s"
  shows "reject_setup_packet (setup_bytes s @ rest) CookieMismatch auth_failed = Inr (rejection s CookieMismatch)"
    "reject_setup_packet (setup_bytes s @ rest) UnsupportedProtocol unsupported_protocol = Inr (rejection s UnsupportedProtocol)"
proof -
  have "length auth_failed \<le> 255" "length unsupported_protocol \<le> 255"
    by (simp_all add: auth_failed_def unsupported_protocol_def)
  note answers = failure_ok [OF this(1)] failure_ok [OF this(2)]
  obtain x y where
    "build_auth_failure_response (ps_request (parsed_of s)) auth_failed = Inr (0 # x)"
    "build_auth_failure_response (ps_request (parsed_of s)) unsupported_protocol = Inr (0 # y)"
    using answers by blast
  then show "reject_setup_packet (setup_bytes s @ rest) CookieMismatch auth_failed = Inr (rejection s CookieMismatch)"
    "reject_setup_packet (setup_bytes s @ rest) UnsupportedProtocol unsupported_protocol = Inr (rejection s UnsupportedProtocol)"
    by (simp_all add: reject_setup_packet_def inspect_parts [OF assms] rejection_def)
qed

text \<open>What the first stage of a decision finds out.\<close>

lemma total_len_more: "12 \<le> length p \<Longrightarrow> setup_packet_total_len (p @ x) = setup_packet_total_len p"
proof -
  assume long: "12 \<le> length p"
  then have "(p @ x) ! 0 = p ! 0" by (cases p) simp_all
  moreover have "slice 6 8 (p @ x) = slice 6 8 p" "slice 8 10 (p @ x) = slice 8 10 p" using long by (simp_all add: slice_def)
  ultimately show ?thesis using long by (simp add: setup_packet_total_len_def SETUP_HEADER_LEN_def)
qed

lemma push_complete_cases:
  assumes "push_complete_setup chunk b = (Inr (Some (setup, trailing)), b')"
  obtains s where "parts_ok s" "setup = setup_bytes s" "sb_bytes b @ chunk = setup_bytes s @ trailing"
    "\<not> sb_complete b" "b' = b\<lparr>sb_bytes := [], sb_complete := True\<rparr>" "length (sb_bytes b @ chunk) \<le> sb_max_setup_bytes b"
proof -
  let ?p = "sb_bytes b @ chunk"
  obtain n where n: "\<not> sb_complete b" "setup_packet_total_len ?p = Inr (Some n)" "n \<le> length ?p"
    "setup = take n ?p" "trailing = drop n ?p" "b' = b\<lparr>sb_bytes := [], sb_complete := True\<rparr>"
    "length ?p \<le> sb_max_setup_bytes b"
    using assms by (auto simp: push_complete_setup_def Let_def required_setup_packet_len_def
        split: if_splits sum.splits option.splits)
  obtain s rest where s: "parts_ok s" "?p = setup_bytes s @ rest" "n = length (setup_bytes s)"
    by (rule total_len_inverse [OF n(2,3)])
  show thesis using that [OF s(1) _ _ n(1,6,7)] n(4,5) s(2,3) by simp
qed

lemma push_complete_parts:
  assumes "parts_ok s" "\<not> sb_complete b" "sb_bytes b @ chunk = setup_bytes s @ rest"
    "length (sb_bytes b @ chunk) \<le> sb_max_setup_bytes b"
  shows "push_complete_setup chunk b = (Inr (Some (setup_bytes s, rest)), b\<lparr>sb_bytes := [], sb_complete := True\<rparr>)"
  using assms(2,4) total_len_parts [OF assms(1), of rest]
  by (simp add: push_complete_setup_def Let_def required_setup_packet_len_def assms(3))

text \<open>The second stage, as a function of what the first stage found.\<close>

definition decide :: "ct_comparison \<Rightarrow> auth_material \<Rightarrow> bytes \<Rightarrow> bytes \<Rightarrow> x11_error + setup_decision option" where
  "decide ct auth setup trailing_data =
     (case rewrite_setup_authentication ct setup auth of
        (Inr request, setup) \<Rightarrow>
          Inr (Some (Forward \<lparr>sw_request = request, sw_rewritten_setup = setup, sw_trailing_data = trailing_data\<rparr>))
      | (Inl AuthCookieMismatch, setup) \<Rightarrow>
          rbind (reject_setup_packet setup CookieMismatch auth_failed) (\<lambda>reject. Inr (Some (Reject reject)))
      | (Inl (UnsupportedAuthProtocol _), setup) \<Rightarrow>
          rbind (reject_setup_packet setup UnsupportedProtocol unsupported_protocol) (\<lambda>reject. Inr (Some (Reject reject)))
      | (Inl e, setup) \<Rightarrow> Inl e)"

lemma push_decision_staged:
  "push_decision ct chunk auth b =
     (case push_complete_setup chunk b of
        (Inl e, b) \<Rightarrow> (Inl e, b)
      | (Inr None, b) \<Rightarrow> (Inr None, b)
      | (Inr (Some (setup, trailing_data)), b) \<Rightarrow> (decide ct auth setup trailing_data, b))"
  by (simp add: push_decision_def decide_def split: prod.splits sum.splits option.splits x11_error.splits)

lemma decide_parts:
  assumes "parts_ok s" "ct_spec ct"
  shows "decide ct auth (setup_bytes s) trailing =
    (if st_name s \<noteq> ssh_name (am_protocol auth) then Inr (Some (Reject (rejection s UnsupportedProtocol)))
     else if st_data s \<noteq> ck_bytes (am_fake_cookie auth) then Inr (Some (Reject (rejection s CookieMismatch)))
     else if length (ck_bytes (am_local_cookie auth)) < 65536
     then Inr (Some (Forward \<lparr>sw_request = ps_request (parsed_of s),
            sw_rewritten_setup = setup_bytes (replaced_parts (ck_bytes (am_local_cookie auth)) s), sw_trailing_data = trailing\<rparr>))
     else Inl InvalidSetupPacketLength)"
  using rewrite_auth_parts [OF assms, of "[]" auth] reject_parts [OF assms(1), of "[]"]
  by (simp add: decide_def split: if_splits)

lemma trim_ssh_name: "auth_protocol_parse (from_utf8_lossy (ssh_name p)) = Inr MitMagicCookie1"
proof -
  have "from_utf8_lossy (ascii ''MIT-MAGIC-COOKIE-1'') = ascii ''MIT-MAGIC-COOKIE-1''"
    by (rule lossy_ascii) code_simp
  moreover have "trim_text (ascii ''MIT-MAGIC-COOKIE-1'') = ascii ''MIT-MAGIC-COOKIE-1''" by code_simp
  ultimately show ?thesis by (simp add: auth_protocol_parse_def ssh_name_def)
qed

lemma inspect_auth_parts:
  assumes "parts_ok s" "st_name s = ssh_name p" "st_data s \<noteq> []"
  shows "inspect_setup_authentication (setup_bytes s @ rest) =
    Inr \<lparr>sn_request = ps_request (parsed_of s), sn_protocol = MitMagicCookie1, sn_fake_cookie = \<lparr>ck_bytes = st_data s\<rparr>\<rparr>"
proof -
  have "slice (ps_data_start (parsed_of s)) (ps_data_end (parsed_of s)) (setup_bytes s @ rest) = st_data s"
    using setup_fields(3) [OF assms(1)] by (simp add: parsed_of_def Let_def)
  moreover have "sr_auth_protocol (ps_request (parsed_of s)) = from_utf8_lossy (ssh_name p)"
    by (simp add: parsed_of_def Let_def assms(2))
  ultimately show ?thesis
    using assms(3) by (simp add: inspect_setup_authentication_def parse_parts [OF assms(1)] trim_ssh_name cookie_from_bytes_def)
qed
section \<open>Properties\<close>

text \<open>A sample client, which is given the fake cookie AA and whose real cookie is BB CC.\<close>

definition sample_parts :: "bytes \<Rightarrow> setup_parts" where
  "sample_parts cookie =
     \<lparr>st_order = LittleEndian, st_unused = 0, st_major = 11, st_minor = 0, st_unused2 = [0, 0],
      st_name = ssh_name MitMagicCookie1, st_name_pad = [0, 0], st_data = cookie, st_data_pad = [0, 0, 0]\<rparr>"

definition sample_auth :: auth_material where
  "sample_auth = with_fake_cookie \<lparr>ck_bytes = [0xAA]\<rparr> \<lparr>ck_bytes = [0xBB, 0xCC]\<rparr>"

lemma sample_ok: "parts_ok (sample_parts [c])"
  by (simp add: parts_ok_def sample_parts_def ssh_name_def pad4_def)

lemma setup_sample_length: "length (setup_bytes (sample_parts [c])) = 36"
  using length_setup_bytes [OF sample_ok [of c]] by (simp add: sample_parts_def ssh_name_def pad4_def)

lemma sample_push:
  assumes "length rest \<le> 1000"
  shows "push_complete_setup (setup_bytes (sample_parts [c]) @ rest) setup_buffer_new =
    (Inr (Some (setup_bytes (sample_parts [c]), rest)), setup_buffer_new\<lparr>sb_bytes := [], sb_complete := True\<rparr>)"
  by (rule push_complete_parts [OF sample_ok])
     (use assms in \<open>simp_all add: setup_buffer_new_def with_max_setup_bytes_def DEFAULT_MAX_SETUP_PACKET_BYTES_def setup_sample_length\<close>)

lemma ct_equal: "ct_spec (=)"
  by (simp add: ct_spec_def)

text \<open>
  Property C22: only a client that shows the fake cookie is forwarded, and what is forwarded differs in the cookie alone. When a
  push ends in a forward, the buffered bytes and the new ones are the bytes of a setup packet that names MIT-MAGIC-COOKIE-1 and carries the
  fake cookie, followed by exactly the trailing data. The rewritten packet is byte for byte the packet of the same parts with the real cookie
  as its data, and with a zero padding to a multiple of four for it when the cookies differ in length, whatever their lengths are, so nothing of the old
  cookie or its padding is left in the stream; both packets are read back as the same request, with the fake and with the real cookie.
\<close>
theorem setup_cookie_replaced:
  assumes "ct_spec ct" "ck_bytes (am_fake_cookie auth) \<noteq> []" "ck_bytes (am_local_cookie auth) \<noteq> []"
    and "push_decision ct chunk auth b = (Inr (Some (Forward rw)), b')"
  shows "inspect_setup_authentication (sb_bytes b @ chunk) =
      Inr \<lparr>sn_request = sw_request rw, sn_protocol = MitMagicCookie1, sn_fake_cookie = am_fake_cookie auth\<rparr> \<and>
    inspect_setup_authentication (sw_rewritten_setup rw) =
      Inr \<lparr>sn_request = (sw_request rw)\<lparr>sr_auth_data_len := length (ck_bytes (am_local_cookie auth))\<rparr>,
           sn_protocol = MitMagicCookie1, sn_fake_cookie = am_local_cookie auth\<rparr> \<and>
    required_setup_packet_len (sw_rewritten_setup rw) = Inr (Some (length (sw_rewritten_setup rw))) \<and>
    (\<exists>s real. parts_ok s \<and> real = ck_bytes (am_local_cookie auth) \<and>
      sb_bytes b @ chunk = setup_bytes s @ sw_trailing_data rw \<and>
      st_name s = ssh_name (am_protocol auth) \<and> st_data s = ck_bytes (am_fake_cookie auth) \<and>
      sw_rewritten_setup rw = setup_bytes (s\<lparr>st_data := real,
        st_data_pad := (if length real = length (st_data s) then st_data_pad s else replicate (pad4 (length real)) 0)\<rparr>)) \<and>
    sb_complete b'"
proof (intro conjI)
  obtain pkt trailing where staged: "push_complete_setup chunk b = (Inr (Some (pkt, trailing)), b')"
    "decide ct auth pkt trailing = Inr (Some (Forward rw))"
    using assms(4) by (auto simp: push_decision_staged split: prod.splits sum.splits option.splits)
  obtain s where s: "parts_ok s" "pkt = setup_bytes s" "sb_bytes b @ chunk = setup_bytes s @ trailing"
    "b' = b\<lparr>sb_bytes := [], sb_complete := True\<rparr>"
    using push_complete_cases [OF staged(1)] by metis
  let ?new = "ck_bytes (am_local_cookie auth)"
  let ?s = "replaced_parts ?new s"
  have d: "st_name s = ssh_name (am_protocol auth)" "st_data s = ck_bytes (am_fake_cookie auth)" "length ?new < 65536"
    "rw = \<lparr>sw_request = ps_request (parsed_of s), sw_rewritten_setup = setup_bytes ?s, sw_trailing_data = trailing\<rparr>"
    using staged(2) unfolding s(2) decide_parts [OF s(1) assms(1)] by (auto split: if_splits)
  show "inspect_setup_authentication (sb_bytes b @ chunk) =
      Inr \<lparr>sn_request = sw_request rw, sn_protocol = MitMagicCookie1, sn_fake_cookie = am_fake_cookie auth\<rparr>"
    unfolding s(3) using inspect_auth_parts [OF s(1) d(1), of trailing] assms(2) by (simp add: d(2,4))
  have "st_name ?s = ssh_name (am_protocol auth)" "st_data ?s = ?new" by (simp_all add: replaced_parts_def d(1))
  moreover have "ps_request (parsed_of ?s) = (ps_request (parsed_of s))\<lparr>sr_auth_data_len := length ?new\<rparr>"
    by (simp add: parsed_of_def replaced_parts_def Let_def)
  ultimately show "inspect_setup_authentication (sw_rewritten_setup rw) =
      Inr \<lparr>sn_request = (sw_request rw)\<lparr>sr_auth_data_len := length ?new\<rparr>,
           sn_protocol = MitMagicCookie1, sn_fake_cookie = am_local_cookie auth\<rparr>"
    using inspect_auth_parts [OF replaced_ok [OF s(1) d(3)], of "am_protocol auth" "[]"] assms(3) by (simp add: d(4))
  show "required_setup_packet_len (sw_rewritten_setup rw) = Inr (Some (length (sw_rewritten_setup rw)))"
    using total_len_parts [OF replaced_ok [OF s(1) d(3)], of "[]"] by (simp add: required_setup_packet_len_def d(4))
  show "\<exists>s real. parts_ok s \<and> real = ?new \<and> sb_bytes b @ chunk = setup_bytes s @ sw_trailing_data rw \<and>
      st_name s = ssh_name (am_protocol auth) \<and> st_data s = ck_bytes (am_fake_cookie auth) \<and>
      sw_rewritten_setup rw = setup_bytes (s\<lparr>st_data := real,
        st_data_pad := (if length real = length (st_data s) then st_data_pad s else replicate (pad4 (length real)) 0)\<rparr>)"
    using s(1,3) d by (intro exI [of _ s] exI [of _ ?new]) (simp add: replaced_parts_def)
  show "sb_complete b'" by (simp add: s(4))
qed

text \<open>A fake cookie of one byte is replaced by a real one of two: two bytes of zero padding instead of three.\<close>

lemma setup_cookie_replaced_witness:
  "\<exists>rw b'. push_decision (=) (setup_bytes (sample_parts [0xAA]) @ [0x01]) sample_auth setup_buffer_new =
      (Inr (Some (Forward rw)), b') \<and>
    length (setup_bytes (sample_parts [0xAA])) = 36 \<and> length (sw_rewritten_setup rw) = 36 \<and>
    drop 32 (setup_bytes (sample_parts [0xAA])) = [0xAA, 0, 0, 0] \<and> drop 32 (sw_rewritten_setup rw) = [0xBB, 0xCC, 0, 0]"
proof -
  let ?rw = "\<lparr>sw_request = ps_request (parsed_of (sample_parts [0xAA])),
      sw_rewritten_setup = setup_bytes (replaced_parts [0xBB, 0xCC] (sample_parts [0xAA])), sw_trailing_data = [0x01]\<rparr>"
  have "decide (=) sample_auth (setup_bytes (sample_parts [0xAA])) [0x01] = Inr (Some (Forward ?rw))"
    by (simp add: decide_parts [OF sample_ok ct_equal] sample_auth_def with_fake_cookie_def)
       (simp add: sample_parts_def ssh_name_def)
  then have push: "push_decision (=) (setup_bytes (sample_parts [0xAA]) @ [0x01]) sample_auth setup_buffer_new =
      (Inr (Some (Forward ?rw)), setup_buffer_new\<lparr>sb_bytes := [], sb_complete := True\<rparr>)"
    by (simp add: push_decision_staged sample_push)
  from setup_cookie_replaced [OF ct_equal _ _ push] obtain s where s: "parts_ok s" "st_data s = [0xAA]"
    "setup_bytes (sample_parts [0xAA]) @ [0x01] = setup_bytes s @ [0x01]" "st_name s = ssh_name MitMagicCookie1"
    "setup_bytes (replaced_parts [0xBB, 0xCC] (sample_parts [0xAA])) =
       setup_bytes (s\<lparr>st_data := [0xBB, 0xCC], st_data_pad := replicate (pad4 (Suc (Suc 0))) 0\<rparr>)"
    by (auto simp: sample_auth_def with_fake_cookie_def setup_buffer_new_def with_max_setup_bytes_def)
  have "length (setup_head s) = 8" "length (st_unused2 s) = 2" "length (st_name_pad s) = 2"
    using s(1) by (simp_all add: parts_ok_def s(4) ssh_name_def pad4_def)
  then have "length (setup_bytes (s\<lparr>st_data := [0xBB, 0xCC], st_data_pad := replicate (pad4 (Suc (Suc 0))) 0\<rparr>)) = 36 \<and>
      drop 32 (setup_bytes (s\<lparr>st_data := [0xBB, 0xCC], st_data_pad := replicate (pad4 (Suc (Suc 0))) 0\<rparr>)) = [0xBB, 0xCC, 0, 0]"
    by (simp add: setup_bytes_def setup_head_def s(4) ssh_name_def pad4_def numeral_2_eq_2)
  moreover have "drop 32 (setup_bytes (sample_parts [0xAA])) = [0xAA, 0, 0, 0]"
    by (simp add: setup_bytes_def sample_parts_def ssh_name_def)
  ultimately show ?thesis using push setup_sample_length [of "0xAA"] s(5) by auto
qed

text \<open>
  Property C23: the real cookie reaches nobody else. Unless a setup is forwarded, the result of a push (the answer to the client, the
  error, the wait for more) and the buffer after it are the same whatever the real cookie is.
\<close>
theorem refused_setup_independent:
  assumes "ct_spec ct" "push_decision ct chunk auth b = (r, b')" "\<And>rw. r \<noteq> Inr (Some (Forward rw))"
    and "length (ck_bytes (am_local_cookie auth)) < 65536" "length (ck_bytes other) < 65536"
  shows "push_decision ct chunk (auth\<lparr>am_local_cookie := other\<rparr>) b = (r, b')"
proof (cases "fst (push_complete_setup chunk b)")
  case (Inr found)
  show ?thesis
  proof (cases found)
    case (Some complete)
    then obtain pkt trailing b1 where staged: "push_complete_setup chunk b = (Inr (Some (pkt, trailing)), b1)"
      using Inr by (cases complete, cases "push_complete_setup chunk b") simp
    obtain s where s: "parts_ok s" "pkt = setup_bytes s" by (rule push_complete_cases [OF staged])
    have "decide ct auth (setup_bytes s) trailing = r" "b1 = b'"
      using assms(2) by (simp_all add: push_decision_staged staged s(2))
    moreover from this(1) have "decide ct (auth\<lparr>am_local_cookie := other\<rparr>) (setup_bytes s) trailing = r"
      using assms(3-5) by (auto simp: decide_parts [OF s(1) assms(1)] split: if_splits)
    ultimately show ?thesis by (simp add: push_decision_staged staged s(2))
  next
    case None
    then show ?thesis using assms(2) Inr by (auto simp: push_decision_staged split: prod.splits)
  qed
next
  case (Inl e)
  then show ?thesis using assms(2) by (auto simp: push_decision_staged split: prod.splits)
qed

lemma refused_setup_independent_witness:
  "\<exists>rj b'. push_decision (=) (setup_bytes (sample_parts [0xDD])) (sample_auth\<lparr>am_local_cookie := \<lparr>ck_bytes = [0xEE]\<rparr>\<rparr>) setup_buffer_new =
     (Inr (Some (Reject rj)), b')"
proof -
  have "decide (=) sample_auth (setup_bytes (sample_parts [0xDD])) [] = Inr (Some (Reject (rejection (sample_parts [0xDD]) CookieMismatch)))"
    by (simp add: decide_parts [OF sample_ok ct_equal] sample_auth_def with_fake_cookie_def)
       (simp add: sample_parts_def)
  then have "push_decision (=) (setup_bytes (sample_parts [0xDD])) sample_auth setup_buffer_new =
      (Inr (Some (Reject (rejection (sample_parts [0xDD]) CookieMismatch))), setup_buffer_new\<lparr>sb_bytes := [], sb_complete := True\<rparr>)"
    using sample_push [of "[]" "0xDD"] by (simp add: push_decision_staged)
  from refused_setup_independent [OF ct_equal this, of "\<lparr>ck_bytes = [0xEE]\<rparr>"] show ?thesis
    by (auto simp: sample_auth_def with_fake_cookie_def)
qed
text \<open>The host pushes what arrives until there is a decision or an error; what arrives later follows the trailing data.\<close>

fun feed_setup ::
    "ct_comparison \<Rightarrow> auth_material \<Rightarrow> bytes list \<Rightarrow> setup_buffer \<Rightarrow> (x11_error + setup_decision option) \<times> bytes" where
  "feed_setup ct auth [] b = (Inr None, [])"
| "feed_setup ct auth (chunk # rest) b =
     (case push_decision ct chunk auth b of
        (Inr None, b) \<Rightarrow> feed_setup ct auth rest b
      | (r, _) \<Rightarrow> (r, concat rest))"

definition settled :: "(x11_error + setup_decision option) \<times> bytes \<Rightarrow> x11_error + setup_decision option" where
  "settled outcome =
     (case outcome of
        (Inr (Some (Forward rw)), rest) \<Rightarrow> Inr (Some (Forward (rw\<lparr>sw_trailing_data := sw_trailing_data rw @ rest\<rparr>)))
      | (r, _) \<Rightarrow> r)"

definition undecided :: "setup_buffer \<Rightarrow> bool" where
  "undecided b \<longleftrightarrow> \<not> sb_complete b \<and> fst (push_complete_setup [] b) = Inr None"

lemma push_joined:
  assumes "\<not> sb_complete b" "length (sb_bytes b @ chunk @ extra) \<le> sb_max_setup_bytes b"
    and "push_complete_setup chunk b = (r, b')"
  shows "r = Inr None \<Longrightarrow> b' = b\<lparr>sb_bytes := sb_bytes b @ chunk\<rparr>"
    "r = Inl e \<Longrightarrow> fst (push_complete_setup (chunk @ extra) b) = Inl e"
    "r = Inr (Some (pkt, trailing)) \<Longrightarrow> fst (push_complete_setup (chunk @ extra) b) = Inr (Some (pkt, trailing @ extra))"
proof -
  let ?p = "sb_bytes b @ chunk"
  have len: "length ?p \<le> sb_max_setup_bytes b" using assms(2) by simp
  have extra: "setup_packet_total_len (?p @ extra) = setup_packet_total_len ?p" if "setup_packet_total_len ?p \<noteq> Inr None"
    using that by (intro total_len_more) (simp add: setup_packet_total_len_def SETUP_HEADER_LEN_def split: if_splits)
  show "b' = b\<lparr>sb_bytes := ?p\<rparr>" if "r = Inr None"
    using that assms(1,3) len
    by (auto simp: push_complete_setup_def Let_def required_setup_packet_len_def split: sum.splits option.splits if_splits)
  show "fst (push_complete_setup (chunk @ extra) b) = Inl e" if "r = Inl e"
  proof -
    have "setup_packet_total_len ?p = Inl e" using that assms(1,3) len
      by (auto simp: push_complete_setup_def Let_def required_setup_packet_len_def split: sum.splits option.splits if_splits)
    then show ?thesis using extra assms(1,2) by (simp add: push_complete_setup_def Let_def required_setup_packet_len_def)
  qed
  show "fst (push_complete_setup (chunk @ extra) b) = Inr (Some (pkt, trailing @ extra))" if "r = Inr (Some (pkt, trailing))"
  proof -
    have push: "push_complete_setup chunk b = (Inr (Some (pkt, trailing)), b')" using assms(3) that by simp
    obtain s where s: "parts_ok s" "pkt = setup_bytes s" "?p = setup_bytes s @ trailing"
      by (rule push_complete_cases [OF push])
    then have "sb_bytes b @ (chunk @ extra) = setup_bytes s @ (trailing @ extra)" by simp
    from push_complete_parts [OF s(1) assms(1) this] show ?thesis using assms(2) by (simp add: s(2))
  qed
qed

lemma push_shift: "push_complete_setup (chunk @ extra) b = push_complete_setup extra (b\<lparr>sb_bytes := sb_bytes b @ chunk\<rparr>)"
  if "\<not> sb_complete b"
  using that by (simp add: push_complete_setup_def Let_def split: sum.splits option.splits)

lemma decide_trailing: "settled (decide ct auth pkt trailing, extra) = decide ct auth pkt (trailing @ extra)"
  by (simp add: decide_def settled_def split: prod.splits sum.splits x11_error.splits setup_decision.splits)
     (auto simp: rbind_def split: sum.splits)

lemma feed_one: "feed_setup ct auth [chunk] b =
    (case push_complete_setup chunk b of
       (Inl e, _) \<Rightarrow> (Inl e, []) | (Inr None, _) \<Rightarrow> (Inr None, []) | (Inr (Some (pkt, trailing)), _) \<Rightarrow> (decide ct auth pkt trailing, []))"
  by (auto simp: push_decision_staged split: prod.splits sum.splits option.splits)

declare feed_setup.simps(2) [simp del]

lemma decide_decides: "decide ct auth pkt trailing \<noteq> Inr None"
  by (auto simp: decide_def rbind_def split: prod.splits sum.splits x11_error.splits)

lemma feed_joined:
  assumes "undecided b" "length (sb_bytes b @ concat parts) \<le> sb_max_setup_bytes b"
  shows "settled (feed_setup ct auth parts b) = settled (feed_setup ct auth [concat parts] b)"
  using assms
proof (induction parts arbitrary: b)
  case Nil
  then show ?case by (auto simp: feed_one undecided_def settled_def split: prod.splits)
next
  case (Cons chunk parts)
  obtain r b' where push: "push_complete_setup chunk b = (r, b')" by fastforce
  have open_b: "\<not> sb_complete b" using Cons.prems(1) by (simp add: undecided_def)
  have fit: "length (sb_bytes b @ chunk @ concat parts) \<le> sb_max_setup_bytes b" using Cons.prems(2) by simp
  note joined = push_joined [OF open_b fit push]
  show ?case
  proof (cases r)
    case (Inl e)
    then show ?thesis using push joined(2) [OF Inl]
      by (auto simp: feed_one feed_setup.simps(2) push_decision_staged settled_def split: prod.splits)
  next
    case (Inr found)
    show ?thesis
    proof (cases found)
      case (Some complete)
      obtain pkt trailing where complete: "complete = (pkt, trailing)" by fastforce
      have r: "r = Inr (Some (pkt, trailing))" using Inr Some complete by simp
      have "feed_setup ct auth (chunk # parts) b = (decide ct auth pkt trailing, concat parts)"
        using push decide_decides [of ct auth pkt trailing]
        by (auto simp: r push_decision_staged feed_setup.simps(2) split: sum.splits option.splits)
      moreover have "feed_setup ct auth [concat (chunk # parts)] b = (decide ct auth pkt (trailing @ concat parts), [])"
        using joined(3) [OF r] by (auto simp: feed_one split: prod.splits)
      ultimately show ?thesis by (simp add: decide_trailing)
    next
      case None
      have r: "r = Inr None" using Inr None by simp
      have b': "b' = b\<lparr>sb_bytes := sb_bytes b @ chunk\<rparr>" using joined(1) [OF r] .
      have "push_complete_setup [] b' = push_complete_setup chunk b" using push_shift [OF open_b, of chunk "[]"] by (simp add: b')
      then have "undecided b'" using push open_b by (simp add: undecided_def r b')
      then have "settled (feed_setup ct auth parts b') = settled (feed_setup ct auth [concat parts] b')"
        using Cons.IH fit by (simp add: b')
      moreover have "feed_setup ct auth [concat parts] b' = feed_setup ct auth [concat (chunk # parts)] b"
        unfolding feed_one b' using push_shift [OF open_b, of chunk "concat parts"] by (simp cong: option.case_cong)
      moreover have "feed_setup ct auth (chunk # parts) b = feed_setup ct auth parts b'"
        using push by (simp add: push_decision_staged feed_setup.simps(2) r)
      ultimately show ?thesis by simp
    qed
  qed
qed

text \<open>
  Property C25: how the network cuts a setup does not matter. However the first bytes of a connection, up to the limit of the
  buffer, are divided over the pushes, the decision (with what follows the packet, joined to the bytes that arrive later), or the error,
  is that of one push of all of them.
\<close>
theorem setup_cuts_invisible:
  assumes "length (concat parts) \<le> max_bytes"
  shows "settled (feed_setup ct auth parts (with_max_setup_bytes max_bytes)) =
    settled (feed_setup ct auth [concat parts] (with_max_setup_bytes max_bytes))"
proof (rule feed_joined)
  show "undecided (with_max_setup_bytes max_bytes)"
    by (simp add: undecided_def with_max_setup_bytes_def push_complete_setup_def Let_def required_setup_packet_len_def
        setup_packet_total_len_def SETUP_HEADER_LEN_def)
qed (use assms in \<open>simp add: with_max_setup_bytes_def\<close>)

lemma setup_cuts_invisible_witness:
  "settled (feed_setup (=) sample_auth (map (\<lambda>b. [b]) (setup_bytes (sample_parts [0xAA]))) (with_max_setup_bytes 40)) =
    settled (feed_setup (=) sample_auth [concat (map (\<lambda>b. [b]) (setup_bytes (sample_parts [0xAA])))] (with_max_setup_bytes 40))"
  by (rule setup_cuts_invisible) (simp add: setup_sample_length)
lemma position_found: "position P xs = Some i \<Longrightarrow> i < length xs \<and> P (xs ! i)"
  by (induction xs arbitrary: i) (auto split: if_splits)

lemma position_None [simp]: "position P xs = None \<longleftrightarrow> (\<forall>x \<in> set xs. \<not> P x)"
  by (induction xs) auto

definition fake_bytes :: "'c spoofed_auth \<Rightarrow> bytes" where
  "fake_bytes e = ck_bytes (am_fake_cookie (sa_auth e))"

definition cookies_distinct :: "'c spoof_registry \<Rightarrow> bool" where
  "cookies_distinct entries \<longleftrightarrow> distinct (map fake_bytes entries)"

lemma remove_at_filter:
  assumes "distinct (map f xs)" "i < length xs"
  shows "remove_at i xs = filter (\<lambda>x. f x \<noteq> f (xs ! i)) xs"
proof -
  have xs: "xs = take i xs @ xs ! i # drop (Suc i) xs" using assms(2) by (simp add: id_take_nth_drop [symmetric])
  have "distinct (map f (take i xs @ xs ! i # drop (Suc i) xs))" using assms(1) xs by simp
  then have "\<forall>x \<in> set (take i xs). f x \<noteq> f (xs ! i)" "\<forall>x \<in> set (drop (Suc i) xs). f x \<noteq> f (xs ! i)"
    by (auto simp: image_iff)
  then have "filter (\<lambda>x. f x \<noteq> f (xs ! i)) (take i xs @ xs ! i # drop (Suc i) xs) = remove_at i xs"
    by (simp add: remove_at_def filter_id_conv)
  then show ?thesis using xs by simp
qed

lemma resolve_cases:
  assumes "ct_spec ct" "cookies_distinct entries" "registry_resolve ct protocol cookie entries = (Some e, entries')"
  shows "e \<in> set entries" "fake_bytes e = ck_bytes cookie"
    "entries' = (if sa_single_connection e then filter (\<lambda>x. fake_bytes x \<noteq> ck_bytes cookie) entries else entries)"
proof -
  obtain i where i: "position (\<lambda>entry. am_protocol (sa_auth entry) = protocol \<and>
      constant_time_eq ct (am_fake_cookie (sa_auth entry)) cookie) entries = Some i"
    using assms(3) by (auto simp: registry_resolve_def split: option.splits)
  have e: "e = entries ! i" "entries' = (if sa_single_connection e then remove_at i entries else entries)"
    using assms(3) i by (auto simp: registry_resolve_def split: if_splits)
  have at: "i < length entries" "fake_bytes e = ck_bytes cookie"
    using position_found [OF i] assms(1) by (auto simp: e(1) fake_bytes_def constant_time_eq_def ct_spec_def)
  show "e \<in> set entries" "fake_bytes e = ck_bytes cookie" using at by (simp_all add: e(1))
  show "entries' = (if sa_single_connection e then filter (\<lambda>x. fake_bytes x \<noteq> ck_bytes cookie) entries else entries)"
    using remove_at_filter [OF assms(2) [unfolded cookies_distinct_def] at(1)] at(2) by (simp add: e)
qed

lemma resolve_none:
  "ct_spec ct \<Longrightarrow> ck_bytes cookie \<notin> fake_bytes ` set entries \<Longrightarrow> registry_resolve ct protocol cookie entries = (None, entries)"
proof -
  assume "ct_spec ct" "ck_bytes cookie \<notin> fake_bytes ` set entries"
  then have "\<forall>e \<in> set entries. \<not> constant_time_eq ct (am_fake_cookie (sa_auth e)) cookie"
    unfolding constant_time_eq_def ct_spec_def fake_bytes_def by force
  then have "position (\<lambda>e. am_protocol (sa_auth e) = protocol \<and> constant_time_eq ct (am_fake_cookie (sa_auth e)) cookie) entries = None"
    by simp
  then show ?thesis by (simp add: registry_resolve_def del: position_None)
qed

text \<open>
  The registry never holds two entries with one fake cookie. Inserting (which replaces), resolving and removing a
  channel keep the cookies distinct, and an entry that is inserted is there afterwards.
\<close>
theorem registry_cookies_distinct:
  assumes "ct_spec ct" "cookies_distinct entries"
  shows "cookies_distinct (snd (registry_insert ct e entries)) \<and> e \<in> set (snd (registry_insert ct e entries)) \<and>
    cookies_distinct (snd (registry_resolve ct protocol cookie entries)) \<and>
    cookies_distinct (snd (remove_channel ch entries)) \<and> (\<forall>x \<in> set (snd (remove_channel ch entries)). sa_channel_id x \<noteq> ch)"
proof (intro conjI)
  let ?P = "\<lambda>existing. constant_time_eq ct (am_fake_cookie (sa_auth existing)) (am_fake_cookie (sa_auth e))"
  have same: "?P x \<longleftrightarrow> fake_bytes x = fake_bytes e" for x
    using assms(1) by (simp add: constant_time_eq_def ct_spec_def fake_bytes_def)
  have kept: "distinct (map fake_bytes (filter Q entries))" for Q
    using assms(2) by (simp add: cookies_distinct_def distinct_map_filter)
  show "cookies_distinct (snd (registry_insert ct e entries))"
  proof (cases "position ?P entries")
    case None
    then have "\<forall>x \<in> set entries. fake_bytes x \<noteq> fake_bytes e" by (simp add: same)
    then have "fake_bytes e \<notin> fake_bytes ` set entries" by force
    moreover have "snd (registry_insert ct e entries) = entries @ [e]" using None by (simp add: registry_insert_def del: position_None)
    ultimately show ?thesis using assms(2) by (simp add: cookies_distinct_def)
  next
    case (Some i)
    then have "i < length entries" "fake_bytes (entries ! i) = fake_bytes e" using position_found [OF Some] same by auto
    then have "remove_at i entries = filter (\<lambda>x. fake_bytes x \<noteq> fake_bytes e) entries"
      using remove_at_filter assms(2) unfolding cookies_distinct_def by metis
    then show ?thesis using Some kept by (auto simp: registry_insert_def cookies_distinct_def)
  qed
  show "e \<in> set (snd (registry_insert ct e entries))" by (simp add: registry_insert_def split: option.split)
  show "cookies_distinct (snd (registry_resolve ct protocol cookie entries))"
  proof (cases "registry_resolve ct protocol cookie entries")
    case (Pair found entries')
    show ?thesis
    proof (cases found)
      case None
      then have "entries' = entries" using Pair by (auto simp: registry_resolve_def split: option.splits if_splits)
      then show ?thesis using Pair assms(2) by simp
    next
      case (Some x)
      then have run: "registry_resolve ct protocol cookie entries = (Some x, entries')" using Pair by simp
      show ?thesis using resolve_cases(3) [OF assms run] kept assms(2) by (simp add: run cookies_distinct_def)
    qed
  qed
  have channel: "snd (remove_channel ch entries) = filter (\<lambda>x. sa_channel_id x \<noteq> ch) entries" for entries :: "'a spoof_registry"
    by (induction entries) (auto split: prod.splits)
  show "cookies_distinct (snd (remove_channel ch entries))" "\<forall>x \<in> set (snd (remove_channel ch entries)). sa_channel_id x \<noteq> ch"
    unfolding channel cookies_distinct_def using kept by simp_all
qed

lemma registry_cookies_distinct_witness:
  "cookies_distinct (snd (registry_insert (=) \<lparr>sa_channel_id = (1 :: nat), sa_auth = sample_auth, sa_single_connection = True\<rparr>
     [\<lparr>sa_channel_id = 2, sa_auth = sample_auth, sa_single_connection = True\<rparr>]))"
  by (rule conjunct1 [OF registry_cookies_distinct [OF ct_equal]]) (simp add: cookies_distinct_def)

text \<open>
  Property C24: a cookie for a single connection opens one. When a registered setup is forwarded to a channel whose entries are
  for a single connection, the entry with its cookie is gone, all other entries are there, and the same bytes on another connection are
  answered with a refusal that leaves the registry as it is.
\<close>
theorem single_use_setup:
  assumes "ct_spec ct" "cookies_distinct entries" "\<forall>e \<in> set entries. sa_channel_id e = ch \<longrightarrow> sa_single_connection e"
    and "push_registry_decision ct p entries setup_buffer_new = (Inr (Some (ForwardTo ch rw)), entries', b')"
  shows "\<exists>e. set entries = insert e (set entries') \<and> e \<notin> set entries' \<and> sa_channel_id e = ch \<and>
    (\<exists>rj. push_registry_decision ct p entries' setup_buffer_new = (Inr (Some (RejectSetup rj)), entries', b') \<and>
       sj_reason rj = CookieMismatch)"
proof -
  obtain pkt trailing where complete: "push_complete_setup p setup_buffer_new = (Inr (Some (pkt, trailing)), b')"
    using assms(4) by (auto simp: push_registry_decision_def split: prod.splits sum.splits option.splits x11_error.splits)
  obtain s where s: "parts_ok s" "pkt = setup_bytes s" by (rule push_complete_cases [OF complete])
  obtain e where resolved: "resolve_setup_packet ct pkt entries = (Inr (Some e), entries')" "sa_channel_id e = ch"
    using assms(4) complete
    by (auto simp: push_registry_decision_def rbind_def split: prod.splits sum.splits option.splits x11_error.splits)
  obtain auth where auth: "inspect_setup_authentication pkt = Inr auth"
    "registry_resolve ct (sn_protocol auth) (sn_fake_cookie auth) entries = (Some e, entries')"
    using resolved(1) by (auto simp: resolve_setup_packet_def split: sum.splits prod.splits)
  note found = resolve_cases [OF assms(1,2) auth(2)]
  have single: "entries' = filter (\<lambda>x. fake_bytes x \<noteq> fake_bytes e) entries"
    using found assms(3) resolved(2) by auto
  have "inj_on fake_bytes (set entries)" using assms(2) by (simp add: cookies_distinct_def distinct_map)
  then have "set entries = insert e (set entries')" "e \<notin> set entries'"
    using found(1) unfolding single by (auto simp: inj_on_def)
  moreover have "registry_resolve ct (sn_protocol auth) (sn_fake_cookie auth) entries' = (None, entries')"
    using found(2) by (intro resolve_none [OF assms(1)]) (auto simp: single)
  then have "resolve_setup_packet ct pkt entries' = (Inr None, entries')"
    using auth(1) by (simp add: resolve_setup_packet_def)
  moreover have "reject_setup_packet pkt CookieMismatch auth_failed = Inr (rejection s CookieMismatch)"
    using reject_parts(1) [OF s(1), of "[]"] by (simp add: s(2))
  ultimately show ?thesis
    using complete resolved(2) by (auto simp: push_registry_decision_def rejection_def)
qed

definition sample_entry :: "nat \<Rightarrow> nat spoofed_auth" where
  "sample_entry ch = \<lparr>sa_channel_id = ch, sa_auth = sample_auth, sa_single_connection = True\<rparr>"

lemma sample_resolve:
  "resolve_setup_packet (=) (setup_bytes (sample_parts [0xAA])) [sample_entry ch] = (Inr (Some (sample_entry ch)), [])"
  using inspect_auth_parts [OF sample_ok, of "0xAA" MitMagicCookie1 "[]"]
  by (simp add: sample_parts_def resolve_setup_packet_def registry_resolve_def sample_entry_def sample_auth_def with_fake_cookie_def
      constant_time_eq_def remove_at_def)

lemma single_use_setup_witness:
  "\<exists>rj b'. push_registry_decision (=) (setup_bytes (sample_parts [0xAA])) ([] :: nat spoof_registry) setup_buffer_new =
     (Inr (Some (RejectSetup rj)), [], b') \<and> sj_reason rj = CookieMismatch"
proof -
  have "rewrite_setup_authentication (=) (setup_bytes (sample_parts [0xAA])) sample_auth =
      (Inr (ps_request (parsed_of (sample_parts [0xAA]))), setup_bytes (replaced_parts [0xBB, 0xCC] (sample_parts [0xAA])))"
    using rewrite_auth_parts [OF sample_ok ct_equal, of "0xAA" "[]" sample_auth]
    by (simp add: sample_auth_def with_fake_cookie_def) (simp add: sample_parts_def ssh_name_def)
  then have "\<exists>rw b'. push_registry_decision (=) (setup_bytes (sample_parts [0xAA])) [sample_entry 7] setup_buffer_new =
      (Inr (Some (ForwardTo 7 rw)), [], b')"
    using sample_push [of "[]" "0xAA"] sample_resolve [of 7]
    by (simp add: push_registry_decision_def sample_entry_def)
  then obtain rw b' where "push_registry_decision (=) (setup_bytes (sample_parts [0xAA])) [sample_entry 7] setup_buffer_new =
      (Inr (Some (ForwardTo 7 rw)), [], b')" by blast
  from single_use_setup [OF ct_equal _ _ this] show ?thesis
    by (fastforce simp: cookies_distinct_def sample_entry_def)
qed

section \<open>Cookies in hexadecimal\<close>

lemma plain_not_white:
  assumes "0x20 < b" "b < 0x80"
  shows "white_space_len (b # bs) = 0"
proof -
  have "b \<noteq> 0x20" "b \<noteq> 0xC2" "b \<noteq> 0xE1" "b \<noteq> 0xE2" "b \<noteq> 0xE3" "\<not> (0x09 \<le> b \<and> b \<le> 0x0D)"
    using assms by (auto simp: word_less_nat_alt word_le_nat_alt)
  then show ?thesis by (simp add: white_space_len_def)
qed

lemma trim_plain:
  assumes "\<forall>b \<in> set bs. 0x20 < b \<and> b < 0x80"
  shows "trim_text bs = bs"
proof -
  have "trim_end bs = bs" using assms
    by (induction bs) (simp_all add: skip_white_space.simps plain_not_white)
  moreover have "skip_white_space bs = bs" using assms
    by (cases bs) (simp_all add: skip_white_space.simps plain_not_white)
  ultimately show ?thesis by (simp add: trim_text_def)
qed

lemma hex_digit:
  assumes "n < 16"
  shows "decode_hex_nibble (hex_table ! unat n) = Inr n" "0x20 < hex_table ! unat n \<and> hex_table ! unat n < 0x80"
proof -
  have "\<forall>k \<in> set [0..<16]. decode_hex_nibble (hex_table ! k) = Inr (of_nat k) \<and> 0x20 < hex_table ! k \<and> hex_table ! k < 0x80"
    by code_simp
  moreover have "unat n \<in> set [0..<16]" using assms by (simp add: word_less_nat_alt)
  ultimately show "decode_hex_nibble (hex_table ! unat n) = Inr n" "0x20 < hex_table ! unat n \<and> hex_table ! unat n < 0x80"
    by fastforce+
qed

text \<open>
  The text form of a cookie, which is sent to the server and written to its authority file, is read back as
  the cookie.
\<close>
theorem cookie_hex_roundtrip:
  assumes "ck_bytes c \<noteq> []"
  shows "cookie_from_hex (cookie_to_hex c) = Inr c"
proof -
  let ?hex = "\<lambda>bs. concat (map push_hex_byte bs)"
  have "\<forall>b \<in> set (?hex bs). 0x20 < b \<and> b < 0x80" for bs
    using hex_digit(2) [OF nibbles(1)] hex_digit(2) [OF nibbles(2)] by (induction bs) (auto simp: push_hex_byte_def)
  then have trimmed: "trim_text (?hex bs) = ?hex bs" for bs by (rule trim_plain)
  have pairs: "decode_hex_pairs (?hex bs) = Inr bs" for bs
    by (induction bs) (simp_all add: push_hex_byte_def hex_digit(1) [OF nibbles(1)] hex_digit(1) [OF nibbles(2)] nibbles(3))
  have len: "length (?hex bs) = 2 * length bs" for bs by (induction bs) (simp_all add: push_hex_byte_def)
  then have "?hex (ck_bytes c) \<noteq> []" using assms by (metis length_0_conv mult_eq_0_iff zero_neq_numeral)
  then show ?thesis
    using assms len [of "ck_bytes c"]
    unfolding cookie_from_hex_def cookie_to_hex_def trimmed Let_def pairs cookie_from_bytes_def by (simp only: if_False) simp
qed

lemma cookie_hex_roundtrip_witness: "cookie_from_hex (cookie_to_hex \<lparr>ck_bytes = [0x0A, 0xF1]\<rparr>) = Inr \<lparr>ck_bytes = [0x0A, 0xF1]\<rparr>"
  by (rule cookie_hex_roundtrip) simp
text \<open>
  The registry reads the name of the protocol with the white space around it removed, the rewriting compares it as it is: a client
  that pads the name gets an error instead of the prepared refusal, and its cookie for a single connection is spent.
\<close>

definition padded_name_parts :: setup_parts where
  "padded_name_parts = (sample_parts [0xAA])\<lparr>st_name := 0x20 # ssh_name MitMagicCookie1, st_name_pad := [0]\<rparr>"

lemma padded_name_spends_cookie:
  "\<exists>b'. push_registry_decision (=) (setup_bytes padded_name_parts) [sample_entry 7] setup_buffer_new =
     (Inl (UnsupportedAuthProtocol (0x20 # ssh_name MitMagicCookie1)), [], b')"
proof -
  have name: "from_utf8_lossy (0x20 # ssh_name MitMagicCookie1) = 0x20 # ssh_name MitMagicCookie1"
    by (rule lossy_ascii) code_simp
  have trimmed: "trim_text (0x20 # ssh_name MitMagicCookie1) = ssh_name MitMagicCookie1" by code_simp
  have ok: "parts_ok padded_name_parts"
    by (simp add: parts_ok_def padded_name_parts_def sample_parts_def ssh_name_def pad4_def)
  let ?p = "setup_bytes padded_name_parts"
  have len: "length ?p \<le> 1000"
    using length_setup_bytes [OF ok] by (simp add: padded_name_parts_def sample_parts_def ssh_name_def pad4_def)
  have complete: "push_complete_setup ?p setup_buffer_new = (Inr (Some (?p, [])), setup_buffer_new\<lparr>sb_bytes := [], sb_complete := True\<rparr>)"
    by (rule push_complete_parts [OF ok])
       (use len in \<open>simp_all add: setup_buffer_new_def with_max_setup_bytes_def DEFAULT_MAX_SETUP_PACKET_BYTES_def\<close>)
  have parse: "parse_setup_packet ?p = Inr (parsed_of padded_name_parts)" using parse_parts [OF ok, of "[]"] by simp
  have "slice (ps_data_start (parsed_of padded_name_parts)) (ps_data_end (parsed_of padded_name_parts)) ?p = [0xAA]"
    using setup_fields(3) [OF ok, of "[]"] by (simp add: parsed_of_def Let_def) (simp add: padded_name_parts_def sample_parts_def)
  moreover have "sr_auth_protocol (ps_request (parsed_of padded_name_parts)) = 0x20 # ssh_name MitMagicCookie1"
    by (simp add: parsed_of_def Let_def) (simp add: padded_name_parts_def name)
  moreover have "auth_protocol_parse (0x20 # ssh_name MitMagicCookie1) = Inr MitMagicCookie1"
    unfolding auth_protocol_parse_def Let_def trimmed by (simp add: ssh_name_def)
  ultimately have "resolve_setup_packet (=) ?p [sample_entry 7] = (Inr (Some (sample_entry 7)), [])"
    by (simp add: resolve_setup_packet_def inspect_setup_authentication_def parse cookie_from_bytes_def registry_resolve_def
        sample_entry_def sample_auth_def with_fake_cookie_def constant_time_eq_def remove_at_def)
  moreover have "rewrite_setup_authentication (=) ?p (sa_auth (sample_entry 7)) =
      (Inl (UnsupportedAuthProtocol (0x20 # ssh_name MitMagicCookie1)), ?p)"
    using rewrite_auth_parts [OF ok ct_equal, of "[]" "sa_auth (sample_entry 7)"] name
    by (simp add: sample_entry_def sample_auth_def with_fake_cookie_def) (simp add: padded_name_parts_def)
  ultimately show ?thesis by (simp add: push_registry_decision_def complete)
qed


end
