(* ===== verification/Modem_Stream.thy ===== *)
theory Modem_Stream
  imports Modem_Block "HOL-Library.Sublist"
begin

text \<open>
  The hand-over between a transfer thread and the terminal session
  (\<open>ModemTransfer\<close> of \<open>crates/oxideterm-modem-transfer/src/stream.rs\<close>): two bounded queues behind one
  lock. Every method holds the lock for its whole body, so a call is one step on the state; a call that would wait on
  the condition variable has no result yet. Waking the host and the lock itself are not modelled.
\<close>

section \<open>State\<close>

definition MODEM_REMOTE_OUTPUT_BUFFER_BYTES :: nat where "MODEM_REMOTE_OUTPUT_BUFFER_BYTES = 4 * 1024 * 1024"
definition MODEM_SERVER_WRITE_BUFFER_BYTES :: nat where "MODEM_SERVER_WRITE_BUFFER_BYTES = 1024 * 1024"

record modem_stream =
  ms_remote_output :: bytes
  ms_server_writes :: "bytes list"
  ms_server_write_bytes :: nat
  ms_in_flight_bytes :: nat
  ms_cancellation_bytes :: bytes
  ms_input_overflow :: bool
  ms_stopped :: bool

definition usize_saturating_add :: "nat \<Rightarrow> nat \<Rightarrow> nat" where
  "usize_saturating_add a b = (if a + b \<le> usize_max then a + b else usize_max)"

definition stream_new :: "bytes \<Rightarrow> bytes \<Rightarrow> modem_stream" where
  "stream_new initial_remote_output cancellation_bytes =
     \<lparr>ms_remote_output = initial_remote_output, ms_server_writes = [], ms_server_write_bytes = 0,
      ms_in_flight_bytes = 0, ms_cancellation_bytes = cancellation_bytes, ms_input_overflow = False,
      ms_stopped = False\<rparr>"

section \<open>Operations\<close>

definition cancel_locked :: "modem_stream \<Rightarrow> modem_stream" where
  "cancel_locked s =
     (if ms_stopped s then s
      else
        (let queued = sum_list (map length (ms_server_writes s));
             s = s\<lparr>ms_stopped := True, ms_remote_output := [], ms_server_writes := [],
                   ms_server_write_bytes := ms_server_write_bytes s - queued\<rparr> in
         if ms_cancellation_bytes s = [] then s
         else s\<lparr>ms_server_write_bytes := usize_saturating_add (ms_server_write_bytes s) (length (ms_cancellation_bytes s)),
                ms_server_writes := ms_server_writes s @ [ms_cancellation_bytes s]\<rparr>))"

definition push_remote_output :: "bytes \<Rightarrow> modem_stream \<Rightarrow> modem_stream" where
  "push_remote_output bs s =
     (if bs = [] then s
      else if ms_stopped s then s
      else if MODEM_REMOTE_OUTPUT_BUFFER_BYTES < usize_saturating_add (length (ms_remote_output s)) (length bs)
      then cancel_locked (s\<lparr>ms_remote_output := [], ms_input_overflow := True\<rparr>)
      else s\<lparr>ms_remote_output := ms_remote_output s @ bs\<rparr>)"

definition take_server_write :: "modem_stream \<Rightarrow> bytes option \<times> modem_stream" where
  "take_server_write s =
     (case ms_server_writes s of
        [] \<Rightarrow> (None, s)
      | bs # rest \<Rightarrow>
          (Some bs, s\<lparr>ms_server_writes := rest,
                     ms_in_flight_bytes := usize_saturating_add (ms_in_flight_bytes s) (length bs)\<rparr>))"

definition complete_server_write :: "nat \<Rightarrow> modem_stream \<Rightarrow> modem_stream" where
  "complete_server_write byte_len s =
     s\<lparr>ms_in_flight_bytes := ms_in_flight_bytes s - byte_len,
       ms_server_write_bytes := ms_server_write_bytes s - byte_len\<rparr>"

definition restore_server_write :: "bytes \<Rightarrow> modem_stream \<Rightarrow> modem_stream" where
  "restore_server_write bs s =
     s\<lparr>ms_in_flight_bytes := ms_in_flight_bytes s - length bs, ms_server_writes := bs # ms_server_writes s\<rparr>"

definition server_writes_drained :: "modem_stream \<Rightarrow> bool" where
  "server_writes_drained s \<longleftrightarrow> ms_server_write_bytes s = 0 \<and> ms_in_flight_bytes s = 0"

definition drain_remote_output :: "modem_stream \<Rightarrow> bytes \<times> modem_stream" where
  "drain_remote_output s = (ms_remote_output s, s\<lparr>ms_remote_output := []\<rparr>)"

definition stream_stop :: "modem_stream \<Rightarrow> modem_stream" where
  "stream_stop s = cancel_locked s"

text \<open>
  One round of the loop of \<open>read_byte\<close>: \<open>None\<close> when it waits. The argument tells whether the deadline has
  passed.
\<close>

definition stream_read_byte :: "bool \<Rightarrow> modem_stream \<Rightarrow> (transfer_error + byte) option \<times> modem_stream" where
  "stream_read_byte deadline_passed s =
     (if ms_input_overflow s then (Some (Inl (InputBufferOverflow MODEM_REMOTE_OUTPUT_BUFFER_BYTES)), s)
      else if ms_stopped s then (Some (Inl Cancelled), s)
      else
        (case ms_remote_output s of
           b # rest \<Rightarrow> (Some (Inr b), s\<lparr>ms_remote_output := rest\<rparr>)
         | [] \<Rightarrow> if deadline_passed then (Some (Inl Timeout), s) else (None, s)))"

text \<open>One round of the loop of \<open>write_all\<close>: \<open>None\<close> when it waits for room.\<close>

definition stream_write_all :: "bytes \<Rightarrow> modem_stream \<Rightarrow> (transfer_error + unit) option \<times> modem_stream" where
  "stream_write_all bs s =
     (if bs = [] then (Some (Inr ()), s)
      else if ms_stopped s then (Some (Inl Cancelled), s)
      else
        (let buffered_after_write = usize_saturating_add (ms_server_write_bytes s) (length bs);
             oversized_first_write = (ms_server_write_bytes s = 0 \<and> ms_in_flight_bytes s = 0) in
         if buffered_after_write \<le> MODEM_SERVER_WRITE_BUFFER_BYTES \<or> oversized_first_write
         then (Some (Inr ()), s\<lparr>ms_server_write_bytes := buffered_after_write,
                                ms_server_writes := ms_server_writes s @ [bs]\<rparr>)
         else (None, s)))"

section \<open>The worker and the session\<close>

text \<open>
  The two sides run concurrently: the worker reads and writes, the session pushes what the peer sends, takes
  one chunk at a time and either completes or restores it, and either side may stop the transfer. The record keeps, beside the
  stream, what the worker has written, what the session has given to the transport, and the chunk it holds.
  A chunk is a vector, which cannot be longer than half the address space.
\<close>

record stream_world =
  sw_stream :: modem_stream
  sw_written :: bytes
  sw_sent :: bytes
  sw_held :: "bytes option"

definition CHUNK_LIMIT :: nat where "CHUNK_LIMIT = 2 ^ 62"

definition held_bytes :: "stream_world \<Rightarrow> bytes" where
  "held_bytes w = (case sw_held w of None \<Rightarrow> [] | Some bs \<Rightarrow> bs)"

inductive world_step :: "stream_world \<Rightarrow> stream_world \<Rightarrow> bool" where
  Remote: "world_step w (w\<lparr>sw_stream := push_remote_output bs (sw_stream w)\<rparr>)"
| Read: "stream_read_byte late (sw_stream w) = (Some r, s) \<Longrightarrow> world_step w (w\<lparr>sw_stream := s\<rparr>)"
| Write: "stream_write_all bs (sw_stream w) = (Some (Inr ()), s) \<Longrightarrow> length bs \<le> CHUNK_LIMIT \<Longrightarrow>
    world_step w (w\<lparr>sw_stream := s, sw_written := sw_written w @ bs\<rparr>)"
| Take: "sw_held w = None \<Longrightarrow> take_server_write (sw_stream w) = (Some bs, s) \<Longrightarrow>
    world_step w (w\<lparr>sw_stream := s, sw_held := Some bs\<rparr>)"
| Complete: "sw_held w = Some bs \<Longrightarrow>
    world_step w (w\<lparr>sw_stream := complete_server_write (length bs) (sw_stream w), sw_held := None, sw_sent := sw_sent w @ bs\<rparr>)"
| Restore: "sw_held w = Some bs \<Longrightarrow>
    world_step w (w\<lparr>sw_stream := restore_server_write bs (sw_stream w), sw_held := None\<rparr>)"
| Drain: "world_step w (w\<lparr>sw_stream := snd (drain_remote_output (sw_stream w))\<rparr>)"
| Stop: "world_step w (w\<lparr>sw_stream := stream_stop (sw_stream w)\<rparr>)"

definition world_start :: "bytes \<Rightarrow> bytes \<Rightarrow> stream_world" where
  "world_start initial cancellation =
     \<lparr>sw_stream = stream_new initial cancellation, sw_written = [], sw_sent = [], sw_held = None\<rparr>"

definition reachable :: "bytes \<Rightarrow> bytes \<Rightarrow> stream_world \<Rightarrow> bool" where
  "reachable initial cancellation w \<longleftrightarrow> world_step\<^sup>*\<^sup>* (world_start initial cancellation) w"

section \<open>The invariant\<close>

definition queue_bytes :: "modem_stream \<Rightarrow> nat" where
  "queue_bytes s = sum_list (map length (ms_server_writes s))"

definition delivered :: "bytes \<Rightarrow> stream_world \<Rightarrow> bool" where
  "delivered cancellation w \<longleftrightarrow>
     (let line = sw_sent w @ held_bytes w @ concat (ms_server_writes (sw_stream w)) in
      if ms_stopped (sw_stream w) then (\<exists>p. prefix p (sw_written w) \<and> line = p @ cancellation)
      else line = sw_written w)"

text \<open>The bookkeeping of the stream against the chunk the session holds.\<close>

definition counted :: "bytes \<Rightarrow> bytes option \<Rightarrow> modem_stream \<Rightarrow> bool" where
  "counted cancellation held s \<longleftrightarrow>
     ms_server_write_bytes s = queue_bytes s + (case held of None \<Rightarrow> 0 | Some bs \<Rightarrow> length bs) \<and>
     ms_in_flight_bytes s = (case held of None \<Rightarrow> 0 | Some bs \<Rightarrow> length bs) \<and>
     [] \<notin> set (ms_server_writes s) \<and> held \<noteq> Some [] \<and> ms_cancellation_bytes s = cancellation \<and>
     ms_server_write_bytes s \<le> CHUNK_LIMIT + (if ms_stopped s then length cancellation else 0) \<and>
     (ms_input_overflow s \<longrightarrow> ms_stopped s) \<and> (ms_stopped s \<longrightarrow> ms_remote_output s = [])"

lemma small_sum: "a \<le> CHUNK_LIMIT \<Longrightarrow> b \<le> CHUNK_LIMIT \<Longrightarrow> usize_saturating_add a b = a + b"
  by (simp add: usize_saturating_add_def CHUNK_LIMIT_def usize_max_def)

lemma concat_nonempty: "[] \<notin> set xss \<Longrightarrow> sum_list (map length xss) = 0 \<longleftrightarrow> xss = []"
  by (cases xss) auto

lemma cancel_counted:
  assumes "counted c h s" "length c \<le> CHUNK_LIMIT"
  shows "counted c h (cancel_locked s)"
proof (cases "ms_stopped s")
  case False
  let ?h = "case h of None \<Rightarrow> 0 | Some bs \<Rightarrow> length bs"
  have h: "?h \<le> CHUNK_LIMIT" "ms_server_write_bytes s - queue_bytes s = ?h"
    using assms(1) False by (auto simp: counted_def)
  show ?thesis
    using assms False small_sum [OF h(1) assms(2)] h
    by (auto simp: counted_def cancel_locked_def Let_def queue_bytes_def simp del: length_greater_0_conv)
qed (use assms in \<open>simp add: cancel_locked_def\<close>)

lemma cancel_delivered:
  assumes "delivered c w" "ms_cancellation_bytes (sw_stream w) = c" "s = cancel_locked ((sw_stream w)\<lparr>ms_remote_output := r, ms_input_overflow := v\<rparr>)"
  shows "delivered c (w\<lparr>sw_stream := s\<rparr>)"
proof (cases "ms_stopped (sw_stream w)")
  case True
  then show ?thesis using assms by (simp add: delivered_def cancel_locked_def held_bytes_def Let_def)
next
  case False
  then have "concat (ms_server_writes s) = c" "ms_stopped s"
    using assms(2,3) by (auto simp: cancel_locked_def Let_def)
  moreover have "sw_sent w @ held_bytes w @ concat (ms_server_writes (sw_stream w)) = sw_written w"
    using assms(1) False by (simp add: delivered_def Let_def)
  then have "prefix (sw_sent w @ held_bytes w) (sw_written w)" by (metis append_assoc prefixI)
  ultimately show ?thesis by (auto simp: delivered_def Let_def held_bytes_def)
qed

definition world_ok :: "bytes \<Rightarrow> bytes \<Rightarrow> stream_world \<Rightarrow> bool" where
  "world_ok i c w \<longleftrightarrow> counted c (sw_held w) (sw_stream w) \<and> delivered c w \<and>
     length (ms_remote_output (sw_stream w)) \<le> max MODEM_REMOTE_OUTPUT_BUFFER_BYTES (length i)"

lemma world_start_ok: "world_ok i c (world_start i c)"
  by (simp add: world_ok_def world_start_def counted_def delivered_def stream_new_def queue_bytes_def held_bytes_def)

lemma remote_ok:
  assumes "world_ok i c w" "length c \<le> CHUNK_LIMIT"
  shows "world_ok i c (w\<lparr>sw_stream := push_remote_output bs (sw_stream w)\<rparr>)"
proof -
  let ?s = "sw_stream w"
  have ok: "counted c (sw_held w) ?s" "delivered c w" "ms_cancellation_bytes ?s = c"
    using assms(1) by (simp_all add: world_ok_def counted_def)
  consider (same) "bs = [] \<or> ms_stopped ?s"
    | (over) "bs \<noteq> []" "\<not> ms_stopped ?s" "MODEM_REMOTE_OUTPUT_BUFFER_BYTES < usize_saturating_add (length (ms_remote_output ?s)) (length bs)"
    | (fits) "bs \<noteq> []" "\<not> ms_stopped ?s" "\<not> MODEM_REMOTE_OUTPUT_BUFFER_BYTES < usize_saturating_add (length (ms_remote_output ?s)) (length bs)"
    by blast
  then show ?thesis
  proof cases
    case same
    then have "push_remote_output bs ?s = ?s" by (auto simp: push_remote_output_def)
    then show ?thesis using assms(1) by simp
  next
    case over
    let ?s' = "?s\<lparr>ms_remote_output := [], ms_input_overflow := True\<rparr>"
    have push: "push_remote_output bs ?s = cancel_locked ?s'" using over by (simp add: push_remote_output_def)
    have "counted c (sw_held w) (cancel_locked (?s\<lparr>ms_remote_output := []\<rparr>))"
      using ok(1) by (intro cancel_counted [OF _ assms(2)]) (simp add: counted_def queue_bytes_def)
    moreover have "cancel_locked ?s' = (cancel_locked (?s\<lparr>ms_remote_output := []\<rparr>))\<lparr>ms_input_overflow := True\<rparr>"
      using over(2) by (simp add: cancel_locked_def Let_def)
    moreover have "ms_stopped (cancel_locked ?s')" "ms_remote_output (cancel_locked ?s') = []"
      using over(2) by (simp_all add: cancel_locked_def Let_def)
    ultimately have "counted c (sw_held w) (cancel_locked ?s')" by (simp add: counted_def queue_bytes_def)
    then show ?thesis
      unfolding push using cancel_delivered [OF ok(2,3), where s = "cancel_locked ?s'" and r = "[]" and v = True] \<open>ms_remote_output (cancel_locked ?s') = []\<close>
      by (simp add: world_ok_def)
  next
    case fits
    then have "push_remote_output bs ?s = ?s\<lparr>ms_remote_output := ms_remote_output ?s @ bs\<rparr>"
      by (simp add: push_remote_output_def)
    moreover have "length (ms_remote_output ?s) + length bs \<le> MODEM_REMOTE_OUTPUT_BUFFER_BYTES"
      using fits(3) by (auto simp: usize_saturating_add_def usize_max_def MODEM_REMOTE_OUTPUT_BUFFER_BYTES_def split: if_splits)
    ultimately show ?thesis
      using ok(1,2) fits(2) by (simp add: world_ok_def counted_def delivered_def queue_bytes_def held_bytes_def)
  qed
qed

lemma stop_ok:
  assumes "world_ok i c w" "length c \<le> CHUNK_LIMIT"
  shows "world_ok i c (w\<lparr>sw_stream := stream_stop (sw_stream w)\<rparr>)"
proof -
  let ?s = "sw_stream w"
  have ok: "counted c (sw_held w) ?s" "delivered c w" "ms_cancellation_bytes ?s = c"
    using assms(1) by (simp_all add: world_ok_def counted_def)
  have "delivered c (w\<lparr>sw_stream := stream_stop ?s\<rparr>)"
    using cancel_delivered [OF ok(2,3), where s = "stream_stop ?s" and r = "ms_remote_output ?s" and v = "ms_input_overflow ?s"]
    by (simp add: stream_stop_def)
  moreover have "length (ms_remote_output (stream_stop ?s)) \<le> length (ms_remote_output ?s)"
    by (simp add: stream_stop_def cancel_locked_def Let_def)
  ultimately show ?thesis
    using assms(1) cancel_counted [OF ok(1) assms(2)] unfolding world_ok_def by (simp add: stream_stop_def) 
qed

lemma write_ok:
  assumes "world_ok i c w" "stream_write_all bs (sw_stream w) = (Some (Inr ()), s)" "length bs \<le> CHUNK_LIMIT"
  shows "world_ok i c (w\<lparr>sw_stream := s, sw_written := sw_written w @ bs\<rparr>)"
proof (cases "bs = []")
  case True
  then show ?thesis using assms by (cases w) (simp add: stream_write_all_def)
next
  case False
  let ?s = "sw_stream w"
  have go: "\<not> ms_stopped ?s" using assms(2) False by (auto simp: stream_write_all_def)
  have ok: "counted c (sw_held w) ?s" "delivered c w" using assms(1) by (simp_all add: world_ok_def)
  then have "ms_server_write_bytes ?s \<le> CHUNK_LIMIT" using go by (simp add: counted_def)
  note added = small_sum [OF this assms(3)]
  have s: "s = ?s\<lparr>ms_server_write_bytes := ms_server_write_bytes ?s + length bs, ms_server_writes := ms_server_writes ?s @ [bs]\<rparr>"
    and room: "ms_server_write_bytes ?s + length bs \<le> CHUNK_LIMIT"
    using assms(2,3) False go
    by (auto simp: stream_write_all_def Let_def added MODEM_SERVER_WRITE_BUFFER_BYTES_def CHUNK_LIMIT_def split: if_splits)
  show ?thesis
    using assms(1) ok go room False unfolding s
    by (simp add: world_ok_def counted_def delivered_def queue_bytes_def held_bytes_def Let_def)
qed

lemma take_ok:
  assumes "world_ok i c w" "length c \<le> CHUNK_LIMIT" "sw_held w = None" "take_server_write (sw_stream w) = (Some bs, s)"
  shows "world_ok i c (w\<lparr>sw_stream := s, sw_held := Some bs\<rparr>)"
proof -
  let ?s = "sw_stream w"
  obtain rest where q: "ms_server_writes ?s = bs # rest"
    using assms(4) by (auto simp: take_server_write_def split: list.splits)
  have ok: "counted c None ?s" "delivered c w" using assms(1,3) by (simp_all add: world_ok_def)
  then have "length bs \<le> usize_max"
    using assms(2) q by (auto simp: counted_def queue_bytes_def CHUNK_LIMIT_def usize_max_def split: if_splits)
  then have "s = ?s\<lparr>ms_server_writes := rest, ms_in_flight_bytes := length bs\<rparr>"
    using assms(4) q ok(1) by (auto simp: take_server_write_def counted_def usize_saturating_add_def)
  then show ?thesis
    using assms(1,3) ok q by (auto simp: world_ok_def counted_def delivered_def queue_bytes_def held_bytes_def Let_def)
qed

lemma world_step_ok:
  assumes "world_step w w'" "world_ok i c w" "length c \<le> CHUNK_LIMIT"
  shows "world_ok i c w'"
  using assms
proof (cases rule: world_step.cases)
  case (Read late r s)
  then show ?thesis
    using assms(2)
    by (auto simp: stream_read_byte_def world_ok_def counted_def delivered_def queue_bytes_def held_bytes_def
        split: if_splits list.splits)
next
  case (Complete bs)
  then show ?thesis
    using assms(2)
    by (simp add: complete_server_write_def world_ok_def counted_def delivered_def queue_bytes_def held_bytes_def Let_def)
next
  case (Restore bs)
  then show ?thesis
    using assms(2)
    by (auto simp: restore_server_write_def world_ok_def counted_def delivered_def queue_bytes_def held_bytes_def Let_def)
next
  case Drain
  then show ?thesis
    using assms(2)
    by (simp add: drain_remote_output_def world_ok_def counted_def delivered_def queue_bytes_def held_bytes_def Let_def)
qed (use assms remote_ok stop_ok write_ok take_ok in blast)+

lemma reachable_ok: "reachable i c w \<Longrightarrow> length c \<le> CHUNK_LIMIT \<Longrightarrow> world_ok i c w"
  unfolding reachable_def by (induction rule: rtranclp_induct) (auto intro: world_start_ok world_step_ok)

text \<open>
  Property C20: the transport gets exactly what the transfer wrote, in order. In every state that calls of the worker and
  of the session lead to, in whatever order they interleave, with chunks completed, restored and taken again: as long as the
  transfer is not stopped, what was sent, the chunk in hand and the queue are together the bytes the worker has written;
  after a stop or an input overflow they are a prefix of these bytes followed by the abort sequence of the protocol, once.
\<close>
theorem stream_line_in_order:
  assumes "reachable initial cancellation w" "length cancellation \<le> CHUNK_LIMIT"
  shows "if ms_stopped (sw_stream w)
    then \<exists>p. prefix p (sw_written w) \<and>
      sw_sent w @ held_bytes w @ concat (ms_server_writes (sw_stream w)) = p @ cancellation
    else sw_sent w @ held_bytes w @ concat (ms_server_writes (sw_stream w)) = sw_written w"
  using reachable_ok [OF assms] by (simp add: world_ok_def delivered_def Let_def)

text \<open>
  The counters of a transfer are exact and its memory is bounded. In every reachable state \<open>server_writes_drained\<close> holds
  exactly when no chunk is queued or in hand, a worker is kept waiting only while there is such a chunk, the bytes from the
  peer stay within the buffer of four megabytes (or what the transfer was started with), and an input overflow has
  stopped the transfer and left no input behind.
\<close>
theorem stream_counters_exact:
  assumes "reachable initial cancellation w" "length cancellation \<le> CHUNK_LIMIT"
  shows "(server_writes_drained (sw_stream w) \<longleftrightarrow> ms_server_writes (sw_stream w) = [] \<and> sw_held w = None) \<and>
    (fst (stream_write_all bs (sw_stream w)) = None \<longrightarrow> \<not> server_writes_drained (sw_stream w)) \<and>
    length (ms_remote_output (sw_stream w)) \<le> max MODEM_REMOTE_OUTPUT_BUFFER_BYTES (length initial) \<and>
    (ms_input_overflow (sw_stream w) \<longrightarrow> ms_stopped (sw_stream w) \<and> ms_remote_output (sw_stream w) = [])"
proof -
  have ok: "counted cancellation (sw_held w) (sw_stream w)"
    and small: "length (ms_remote_output (sw_stream w)) \<le> max MODEM_REMOTE_OUTPUT_BUFFER_BYTES (length initial)"
    using reachable_ok [OF assms] by (simp_all add: world_ok_def)
  have "server_writes_drained (sw_stream w) \<longleftrightarrow> ms_server_writes (sw_stream w) = [] \<and> sw_held w = None"
    using ok concat_nonempty [of "ms_server_writes (sw_stream w)"]
    by (cases "sw_held w") (auto simp: server_writes_drained_def counted_def queue_bytes_def)
  moreover have "fst (stream_write_all bs (sw_stream w)) = None \<longrightarrow> \<not> server_writes_drained (sw_stream w)"
    by (simp add: stream_write_all_def server_writes_drained_def Let_def)
  ultimately show ?thesis using ok small by (simp add: counted_def)
qed

text \<open>A chunk is taken, given back after the stop, and the abort sequence follows it.\<close>

definition sample_world :: stream_world where
  "sample_world = \<lparr>sw_stream = \<lparr>ms_remote_output = [], ms_server_writes = [[1, 2], [0x18]], ms_server_write_bytes = 3,
      ms_in_flight_bytes = 0, ms_cancellation_bytes = [0x18], ms_input_overflow = False, ms_stopped = True\<rparr>,
    sw_written = [1, 2, 3], sw_sent = [], sw_held = None\<rparr>"

lemma sample_reachable: "reachable [] [0x18] sample_world"
proof -
  let ?s0 = "stream_new [] [0x18]"
  let ?s1 = "?s0\<lparr>ms_server_write_bytes := 2, ms_server_writes := [[1, 2]]\<rparr>"
  let ?s2 = "?s1\<lparr>ms_server_write_bytes := 3, ms_server_writes := [[1, 2], [3]]\<rparr>"
  let ?s3 = "?s2\<lparr>ms_server_writes := [[3]], ms_in_flight_bytes := 2\<rparr>"
  let ?w0 = "\<lparr>sw_stream = ?s0, sw_written = [], sw_sent = [], sw_held = None\<rparr>"
  let ?w1 = "?w0\<lparr>sw_stream := ?s1, sw_written := sw_written ?w0 @ [1, 2]\<rparr>"
  let ?w2 = "?w1\<lparr>sw_stream := ?s2, sw_written := sw_written ?w1 @ [3]\<rparr>"
  let ?w3 = "?w2\<lparr>sw_stream := ?s3, sw_held := Some [1, 2]\<rparr>"
  let ?w4 = "?w3\<lparr>sw_stream := stream_stop (sw_stream ?w3)\<rparr>"
  let ?w5 = "?w4\<lparr>sw_stream := restore_server_write [1, 2] (sw_stream ?w4), sw_held := None\<rparr>"
  note sizes = usize_saturating_add_def usize_max_def MODEM_SERVER_WRITE_BUFFER_BYTES_def CHUNK_LIMIT_def
  have "world_step ?w0 ?w1" by (rule world_step.Write) (simp_all add: stream_write_all_def stream_new_def sizes)
  moreover have "world_step ?w1 ?w2" by (rule world_step.Write) (simp_all add: stream_write_all_def stream_new_def sizes)
  moreover have "world_step ?w2 ?w3" by (rule world_step.Take) (simp_all add: take_server_write_def stream_new_def sizes)
  moreover have "world_step ?w3 ?w4" by (rule world_step.Stop)
  moreover have "world_step ?w4 ?w5" by (rule world_step.Restore) simp
  ultimately have "world_step\<^sup>*\<^sup>* ?w0 ?w5" by (meson rtranclp.rtrancl_into_rtrancl rtranclp.rtrancl_refl)
  moreover have "?w5 = sample_world"
    by (simp add: sample_world_def stream_stop_def cancel_locked_def restore_server_write_def stream_new_def sizes)
  ultimately show ?thesis by (simp add: reachable_def world_start_def)
qed

lemma stream_line_in_order_witness:
  "\<exists>p. prefix p [1, 2, 3] \<and> [] @ held_bytes sample_world @ concat (ms_server_writes (sw_stream sample_world)) = p @ [0x18]"
  using stream_line_in_order [OF sample_reachable] by (simp add: sample_world_def CHUNK_LIMIT_def)

lemma stream_counters_exact_witness:
  "server_writes_drained (sw_stream sample_world) \<longleftrightarrow>
     ms_server_writes (sw_stream sample_world) = [] \<and> sw_held sample_world = None"
  using stream_counters_exact [OF sample_reachable] by (simp add: CHUNK_LIMIT_def)

end
