(* ===== verification/Modem_Detect.thy ===== *)
theory Modem_Detect
  imports Modem_Zmodem
begin

text \<open>
  The detection of a transfer in terminal output (\<open>crates/oxideterm-modem-transfer/src/detector.rs\<close>): the search for the
  start of a ZMODEM header or a negotiation byte that ends in the current chunk, and the detector that keeps the tail of
  what came before. The last part shows that the cuts between chunks are invisible.
\<close>

section \<open>Searching\<close>

definition DETECTOR_TAIL_BYTES :: nat where "DETECTOR_TAIL_BYTES = 64"

datatype detected_protocol = Xmodem | XymodemNegotiation | Ymodem | Zmodem

record detected_start =
  ds_protocol :: detected_protocol
  ds_offset :: nat

record modem_detector =
  md_tail :: bytes

definition find_pattern_crossing_current_chunk :: "bytes \<Rightarrow> nat \<Rightarrow> bytes \<Rightarrow> nat option" where
  "find_pattern_crossing_current_chunk window current_start pattern =
     (if pattern = [] \<or> length window < length pattern then None
      else List.find (\<lambda>i. take (length pattern) (drop i window) = pattern \<and> current_start < i + length pattern)
             [0..<Suc (length window - length pattern)])"

definition zmodem_patterns :: "bytes list" where
  "zmodem_patterns = [[ZPAD, ZPAD, ZDLE, ZHEX], [ZPAD, ZDLE, ZBIN], [ZPAD, ZDLE, ZBIN32]]"

fun filter_some :: "'a option list \<Rightarrow> 'a list" where
  "filter_some [] = []"
| "filter_some (None # xs) = filter_some xs"
| "filter_some (Some x # xs) = x # filter_some xs"

definition min_of :: "nat list \<Rightarrow> nat option" where
  "min_of xs = (if xs = [] then None else Some (Min (set xs)))"

definition find_zmodem_start :: "bytes \<Rightarrow> nat \<Rightarrow> detected_start option" where
  "find_zmodem_start window current_start =
     map_option (\<lambda>offset. \<lparr>ds_protocol = Zmodem, ds_offset = offset\<rparr>)
       (min_of (filter_some (map (find_pattern_crossing_current_chunk window current_start) zmodem_patterns)))"

definition detect_xymodem_start :: "bytes \<Rightarrow> nat \<Rightarrow> detected_start option" where
  "detect_xymodem_start window current_start =
     (case filter_some (map (\<lambda>b. find_pattern_crossing_current_chunk window current_start [b]) [WANT_CRC, NAK]) of
        [] \<Rightarrow> None
      | offset # _ \<Rightarrow> Some \<lparr>ds_protocol = XymodemNegotiation, ds_offset = offset\<rparr>)"

definition or_else :: "'a option \<Rightarrow> 'a option \<Rightarrow> 'a option" where
  "or_else x y = (case x of Some v \<Rightarrow> Some v | None \<Rightarrow> y)"

definition detect_modem_start :: "bytes \<Rightarrow> detected_start option" where
  "detect_modem_start bs = or_else (find_zmodem_start bs 0) (detect_xymodem_start bs 0)"

section \<open>The detector\<close>

definition detector_new :: modem_detector where
  "detector_new = \<lparr>md_tail = []\<rparr>"

definition scan_first :: "bytes \<Rightarrow> modem_detector \<Rightarrow> detected_start option \<times> modem_detector" where
  "scan_first chunk d =
     (if chunk = [] then (None, d)
      else
        (let window = md_tail d @ chunk;
             current_start = length (md_tail d);
             zmodem_start = find_zmodem_start window current_start;
             xymodem_start = (if zmodem_start = None then detect_xymodem_start window current_start else None);
             keep = min DETECTOR_TAIL_BYTES (length window) in
         (map_option (\<lambda>st. st\<lparr>ds_offset := ds_offset st - current_start\<rparr>) (or_else zmodem_start xymodem_start),
          \<lparr>md_tail = drop (length window - keep) window\<rparr>)))"

definition detector_scan :: "bytes \<Rightarrow> modem_detector \<Rightarrow> detected_protocol list \<times> modem_detector" where
  "detector_scan chunk d =
     (case scan_first chunk d of
        (Some st, d') \<Rightarrow> ([ds_protocol st], d')
      | (None, d') \<Rightarrow> ([], d'))"

section \<open>Cuts are invisible\<close>

lemma find_split: "List.find P (xs @ ys) = or_else (List.find P xs) (List.find P ys)"
  by (induction xs) (simp_all add: or_else_def)

lemma find_map_comp: "List.find P (map f xs) = map_option f (List.find (P \<circ> f) xs)"
  by (induction xs) simp_all

text \<open>A match that ends in the chunk starts in the tail that is kept.\<close>

lemma crossing_shift:
  assumes "current \<le> length w" "pre \<noteq> [] \<Longrightarrow> length pattern \<le> current"
  shows "find_pattern_crossing_current_chunk (pre @ w) (length pre + current) pattern =
    map_option (\<lambda>i. i + length pre) (find_pattern_crossing_current_chunk w current pattern)"
proof (cases "pre = [] \<or> pattern = []")
  case True
  then show ?thesis by (auto simp: find_pattern_crossing_current_chunk_def option.map_ident)
next
  case False
  let ?d = "length pre" and ?k = "length pattern"
  let ?P = "\<lambda>i. take ?k (drop i (pre @ w)) = pattern \<and> ?d + current < i + ?k"
  have fits: "?k \<le> current" "?k \<le> length w" using assms False by auto
  have upto: "[0..<Suc (length (pre @ w) - ?k)] = [0..<?d] @ map (\<lambda>i. i + ?d) [0..<Suc (length w - ?k)]"
  proof -
    have "Suc (length (pre @ w) - ?k) = ?d + Suc (length w - ?k)" using fits by simp
    moreover have "[0..<?d + n] = [0..<?d] @ map (\<lambda>i. i + ?d) [0..<n]" for n
      unfolding map_add_upt add.commute [of n] by (rule upt_add_eq_append) simp
    ultimately show ?thesis by (simp only:)
  qed
  have "List.find ?P [0..<?d] = None" using fits by (auto simp: find_None_iff)
  then show ?thesis
    using fits False unfolding find_pattern_crossing_current_chunk_def upto find_split find_map_comp
    by (simp add: or_else_def comp_def add.commute [of _ ?d] del: upt_Suc)
qed

lemma filter_some_map: "(\<And>p. p \<in> set ps \<Longrightarrow> h p = map_option f (g p)) \<Longrightarrow> filter_some (map h ps) = map f (filter_some (map g ps))"
proof (induction ps)
  case (Cons p ps)
  then show ?case by (cases "g p") simp_all
qed simp

lemma min_of_shift: "min_of (map (\<lambda>i. i + d) xs) = map_option (\<lambda>i. i + d) (min_of xs)"
proof (cases "xs = []")
  case False
  then have "Min ((\<lambda>i. i + d) ` set xs) = Min (set xs) + d"
    by (subst mono_Min_commute [symmetric]) (auto simp: mono_def)
  then show ?thesis using False by (simp add: min_of_def)
qed (simp add: min_of_def)

definition shift_start :: "nat \<Rightarrow> detected_start \<Rightarrow> detected_start" where
  "shift_start d st = st\<lparr>ds_offset := ds_offset st + d\<rparr>"

lemma zmodem_shift:
  assumes "current \<le> length w" "pre \<noteq> [] \<Longrightarrow> 4 \<le> current"
  shows "find_zmodem_start (pre @ w) (length pre + current) = map_option (shift_start (length pre)) (find_zmodem_start w current)"
proof -
  have "find_pattern_crossing_current_chunk (pre @ w) (length pre + current) p =
      map_option (\<lambda>i. i + length pre) (find_pattern_crossing_current_chunk w current p)" if "p \<in> set zmodem_patterns" for p
  proof (rule crossing_shift [OF assms(1)])
    assume "pre \<noteq> []"
    then show "length p \<le> current" using assms(2) that by (auto simp: zmodem_patterns_def)
  qed
  then show ?thesis
    by (simp add: find_zmodem_start_def filter_some_map [where f = "\<lambda>i. i + length pre"] min_of_shift option.map_comp
        comp_def shift_start_def)
qed

lemma xymodem_shift:
  assumes "current \<le> length w" "pre \<noteq> [] \<Longrightarrow> 4 \<le> current"
  shows "detect_xymodem_start (pre @ w) (length pre + current) = map_option (shift_start (length pre)) (detect_xymodem_start w current)"
proof -
  have "find_pattern_crossing_current_chunk (pre @ w) (length pre + current) [b] =
      map_option (\<lambda>i. i + length pre) (find_pattern_crossing_current_chunk w current [b])" for b
  proof (rule crossing_shift [OF assms(1)])
    assume "pre \<noteq> []"
    then show "length [b] \<le> current" using assms(2) by simp
  qed
  then have "filter_some (map (\<lambda>b. find_pattern_crossing_current_chunk (pre @ w) (length pre + current) [b]) [WANT_CRC, NAK]) =
      map (\<lambda>i. i + length pre) (filter_some (map (\<lambda>b. find_pattern_crossing_current_chunk w current [b]) [WANT_CRC, NAK]))"
    by (rule filter_some_map)
  then show ?thesis by (simp add: detect_xymodem_start_def shift_start_def split: list.split)
qed

text \<open>The start that ends in the last part of a stream, with its offset from the beginning of the stream.\<close>

definition stream_start :: "bytes \<Rightarrow> bytes \<Rightarrow> detected_start option" where
  "stream_start before chunk =
     or_else (find_zmodem_start (before @ chunk) (length before)) (detect_xymodem_start (before @ chunk) (length before))"

definition feed :: "bytes list \<Rightarrow> modem_detector \<Rightarrow> modem_detector" where
  "feed parts d = foldl (\<lambda>d c. snd (scan_first c d)) d parts"

lemma last_of_last: "n \<le> length t \<Longrightarrow> drop (length (u @ t @ c) - n) (u @ t @ c) = drop (length (t @ c) - n) (t @ c)"
  by simp

lemma feed_tail:
  "md_tail (feed parts detector_new) = drop (length (concat parts) - DETECTOR_TAIL_BYTES) (concat parts)"
proof (induction parts rule: rev_induct)
  case (snoc c parts)
  let ?h = "concat parts"
  let ?d = "length ?h - DETECTOR_TAIL_BYTES"
  show ?case
  proof (cases "c = []")
    case False
    have "length (drop ?d ?h @ c) - min DETECTOR_TAIL_BYTES (length (drop ?d ?h @ c)) + ?d = length (?h @ c) - DETECTOR_TAIL_BYTES"
      by (auto simp: min_def)
    then have "drop (length (drop ?d ?h @ c) - min DETECTOR_TAIL_BYTES (length (drop ?d ?h @ c))) (drop ?d (?h @ c)) =
        drop (length (?h @ c) - DETECTOR_TAIL_BYTES) (?h @ c)"
      by (simp only: drop_drop)
    then show ?thesis using snoc False by (simp add: feed_def scan_first_def Let_def)
  qed (use snoc in \<open>simp add: feed_def scan_first_def\<close>)
qed (simp add: feed_def detector_new_def)

text \<open>
  The cuts between reads are invisible to the detector. However the output before it was cut,
  the detector reports for a chunk exactly the transfer start that ends in it when the whole output is searched, a
  header that is split between chunks included, and its offset in the chunk (zero when it began before).
\<close>
theorem detector_cuts_invisible:
  "fst (scan_first chunk (feed parts detector_new)) =
    (if chunk = [] then None
     else map_option (\<lambda>st. st\<lparr>ds_offset := ds_offset st - length (concat parts)\<rparr>) (stream_start (concat parts) chunk))"
proof (cases "chunk = []")
  case False
  let ?h = "concat parts"
  let ?d = "length ?h - DETECTOR_TAIL_BYTES"
  define t where "t = md_tail (feed parts detector_new)"
  define pre where "pre = take ?d ?h"
  have t: "?h = pre @ t" by (simp add: t_def pre_def feed_tail)
  have long: "4 \<le> length t" if "pre \<noteq> []"
    using that by (auto simp: pre_def t_def feed_tail DETECTOR_TAIL_BYTES_def)
  have cur: "length t \<le> length (t @ chunk)" by simp
  have start: "stream_start ?h chunk = map_option (shift_start (length pre))
      (or_else (find_zmodem_start (t @ chunk) (length t)) (detect_xymodem_start (t @ chunk) (length t)))"
    using zmodem_shift [OF cur long] xymodem_shift [OF cur long] by (simp add: stream_start_def t or_else_def split: option.split)
  show ?thesis
    using False unfolding start
    by (simp add: scan_first_def Let_def t_def [symmetric] option.map_comp comp_def shift_start_def t or_else_def split: option.split)
qed (simp add: scan_first_def)

end
