(* ===== verification/Modem_Consumer.thy ===== *)
theory Modem_Consumer
  imports Modem_Stream Modem_Detect Modem_Ztransfer
begin

text \<open>
  The filter between a terminal session and its screen (\<open>crates/oxideterm-modem-transfer/src/consumer.rs\<close>): it holds
  output that may be the start of a transfer, hides control strings from the detection, recognises transfers and the
  shell commands that announce them, and hands the bytes of a running transfer to its stream. Clock readings are arguments in
  milliseconds. The two transfer handles of the code point to one shared stream, so the model keeps the stream once and
  a flag for the handle that can be taken.
\<close>

section \<open>Types\<close>

definition PLAIN_HISTORY_LIMIT :: nat where "PLAIN_HISTORY_LIMIT = 512"
definition MODEM_PREFIX_IDLE_TIMEOUT :: nat where "MODEM_PREFIX_IDLE_TIMEOUT = 50"
definition XYMODEM_CANCEL_BYTES :: bytes where "XYMODEM_CANCEL_BYTES = replicate 8 CAN"
definition ZMODEM_CANCEL_BYTES :: bytes where "ZMODEM_CANCEL_BYTES = replicate 8 ZDLE @ replicate 8 0x08"

datatype transfer_direction = Upload | Download

record transfer_request =
  tq_protocol :: detected_protocol
  tq_direction :: transfer_direction

datatype consumer_event =
    WriteTerminal bytes
  | SendServer bytes
  | TransferStarted transfer_request
  | TransferDataQueued
  | TransferCancelRequested

datatype control_kind = Osc | Dcs | Apc

datatype detection_scope = Ground | Escape | ControlString control_kind bool

record modem_consumer =
  mc_plain_tail :: bytes
  mc_detection_tail :: bytes
  mc_deadline :: "nat option"
  mc_history :: bytes
  mc_mid_line :: bool
  mc_scope :: detection_scope
  mc_pending :: "(detected_protocol \<times> bytes) option"
  mc_transfer :: bool
  mc_input :: "modem_stream option"

section \<open>Control strings\<close>

definition MASKED_BYTE :: byte where "MASKED_BYTE = 0x20"

definition mask_byte :: "detection_scope \<Rightarrow> byte \<Rightarrow> byte \<times> detection_scope" where
  "mask_byte scope b =
     (case scope of
        Ground \<Rightarrow>
          (if b = 0x1B then (MASKED_BYTE, Escape)
           else if b = 0x90 then (MASKED_BYTE, ControlString Dcs False)
           else if b = 0x9D then (MASKED_BYTE, ControlString Osc False)
           else if b = 0x9F then (MASKED_BYTE, ControlString Apc False)
           else (b, Ground))
      | Escape \<Rightarrow>
          (if b = of_char CHR '']'' then (MASKED_BYTE, ControlString Osc False)
           else if b = of_char CHR ''P'' then (MASKED_BYTE, ControlString Dcs False)
           else if b = of_char CHR ''_'' then (MASKED_BYTE, ControlString Apc False)
           else if b = 0x1B then (MASKED_BYTE, Escape)
           else (b, Ground))
      | ControlString kind escape_pending \<Rightarrow>
          (MASKED_BYTE,
           if kind = Osc \<and> b = 0x07 \<or> b = 0x9C \<or> escape_pending \<and> b = backslash then Ground
           else ControlString kind (b = 0x1B)))"

fun mask_loop :: "detection_scope \<Rightarrow> bytes \<Rightarrow> bytes \<times> detection_scope" where
  "mask_loop scope [] = ([], scope)"
| "mask_loop scope (b # bs) =
     (case mask_byte scope b of (m, scope) \<Rightarrow> (case mask_loop scope bs of (ms, scope) \<Rightarrow> (m # ms, scope)))"

definition mask_control_strings :: "detection_scope \<Rightarrow> bytes \<Rightarrow> bytes \<times> detection_scope" where
  "mask_control_strings scope bs =
     (if scope = Ground \<and> \<not> list_ex (\<lambda>b. b = 0x1B \<or> b = 0x90 \<or> b = 0x9D \<or> b = 0x9F) bs then (bs, scope)
      else mask_loop scope bs)"

section \<open>The history of the screen and the commands on it\<close>

definition line_end :: "byte \<Rightarrow> bool" where
  "line_end b \<longleftrightarrow> b = 0x0D \<or> b = 0x0A"

definition remember_plain_output :: "bytes \<Rightarrow> modem_consumer \<Rightarrow> modem_consumer" where
  "remember_plain_output bs c =
     (if bs = [] then c
      else if PLAIN_HISTORY_LIMIT \<le> length bs then
        (let discard = length bs - PLAIN_HISTORY_LIMIT;
             previous_byte = (if discard = 0 then (if mc_history c = [] then None else Some (last (mc_history c)))
                              else Some (bs ! (discard - 1))) in
         c\<lparr>mc_mid_line := (case previous_byte of Some b \<Rightarrow> \<not> line_end b | None \<Rightarrow> mc_mid_line c),
           mc_history := drop (length bs - PLAIN_HISTORY_LIMIT) bs\<rparr>)
      else
        (let retained_bytes = PLAIN_HISTORY_LIMIT - length bs;
             c = (if retained_bytes < length (mc_history c)
                  then (let discard = length (mc_history c) - retained_bytes in
                        c\<lparr>mc_mid_line := \<not> line_end (mc_history c ! (discard - 1)),
                          mc_history := drop discard (mc_history c)\<rparr>)
                  else c) in
         c\<lparr>mc_history := mc_history c @ bs\<rparr>))"

definition command_history :: "modem_consumer \<Rightarrow> bytes" where
  "command_history c =
     (if mc_mid_line c then drop 1 (dropWhile (\<lambda>b. \<not> line_end b) (mc_history c)) else mc_history c)"

text \<open>\<open>str::lines\<close> and \<open>str::split_whitespace\<close>.\<close>

definition strip_cr :: "bytes \<Rightarrow> bytes" where
  "strip_cr line = (if line \<noteq> [] \<and> last line = 0x0D then butlast line else line)"

function text_lines :: "bytes \<Rightarrow> bytes list" where
  "text_lines bs =
     (if bs = [] then []
      else
        (let line = takeWhile (\<lambda>b. b \<noteq> 0x0A) bs in
         case dropWhile (\<lambda>b. b \<noteq> 0x0A) bs of
           [] \<Rightarrow> [line]
         | _ # rest \<Rightarrow> strip_cr line # text_lines rest))"
  by auto
termination
proof (relation "measure length")
  fix bs :: bytes and x b rest assume "dropWhile (\<lambda>b. b \<noteq> 0x0A) bs = b # rest"
  then show "(rest, bs) \<in> measure length"
    using length_dropWhile_le [of "\<lambda>b. b \<noteq> 0x0A" bs] by simp
qed simp

function split_words :: "bytes \<Rightarrow> bytes list" where
  "split_words bs =
     (case first_word bs of None \<Rightarrow> [] | Some w \<Rightarrow> w # split_words (drop (length w) (skip_white_space bs)))"
  by auto
termination
proof (relation "measure length")
  fix bs w assume "first_word bs = Some w"
  then have "w \<noteq> []" "w = take_word (skip_white_space bs)" by (auto simp: first_word_def Let_def split: if_splits)
  moreover have "length (skip_white_space bs) \<le> length bs" for bs
  proof (induction bs rule: skip_white_space.induct)
    case (1 bs)
    then show ?case by (subst skip_white_space.simps) (auto intro: le_trans)
  qed
  moreover have "length (take_word bs) \<le> length bs" for bs by (induction bs) auto
  ultimately show "(drop (length w) (skip_white_space bs), bs) \<in> measure length"
    by (simp, metis add_diff_cancel_left' diff_less le_zero_eq length_0_conv length_greater_0_conv less_le_trans
        order_less_le_trans zero_less_diff)
qed simp

declare text_lines.simps [simp del] split_words.simps [simp del]

definition is_shell_prompt_token :: "bytes \<Rightarrow> bool" where
  "is_shell_prompt_token token \<longleftrightarrow>
     token = ascii ''PS'' \<or> token \<noteq> [] \<and> last token \<in> set (ascii ''$#>%'')"

definition ascii_alphanumeric :: "byte \<Rightarrow> bool" where
  "ascii_alphanumeric b \<longleftrightarrow> 0x30 \<le> b \<and> b \<le> 0x39 \<or> 0x41 \<le> b \<and> b \<le> 0x5A \<or> 0x61 \<le> b \<and> b \<le> 0x7A"

definition command_part :: "byte \<Rightarrow> bool" where
  "command_part b \<longleftrightarrow> ascii_alphanumeric b \<or> b = of_char CHR ''-'' \<or> b = of_char CHR ''_''"

definition command_of_token :: "bytes \<Rightarrow> bytes" where
  "command_of_token token =
     (let part = rev (takeWhile (\<lambda>b. b \<noteq> slash \<and> b \<noteq> backslash) (rev token)) in
      rev (dropWhile (\<lambda>b. \<not> command_part b) (rev (dropWhile (\<lambda>b. \<not> command_part b) part))))"

definition command_request :: "bytes \<Rightarrow> (detected_protocol \<times> transfer_direction) option" where
  "command_request command =
     (if command \<in> set (map ascii [''rx'', ''lrx'']) then Some (Xmodem, Upload)
      else if command \<in> set (map ascii [''rb'', ''ry'', ''lrb'', ''lry'']) then Some (Ymodem, Upload)
      else if command \<in> set (map ascii [''sx'', ''lsx'']) then Some (Xmodem, Download)
      else if command \<in> set (map ascii [''sb'', ''sy'', ''lsb'', ''lsy'']) then Some (Ymodem, Download)
      else None)"

fun hint_of_tokens :: "bytes list \<Rightarrow> (detected_protocol \<times> transfer_direction) option" where
  "hint_of_tokens [] = None"
| "hint_of_tokens (token # tokens) =
     (case command_request (command_of_token token) of
        Some r \<Rightarrow> Some r
      | None \<Rightarrow> if is_shell_prompt_token token then hint_of_tokens tokens else None)"

definition xymodem_command_hint :: "bytes \<Rightarrow> (detected_protocol \<times> transfer_direction) option" where
  "xymodem_command_hint line = hint_of_tokens (split_words line)"

fun upload_hint :: "bytes list \<Rightarrow> detected_protocol option" where
  "upload_hint [] = None"
| "upload_hint (line # rest) =
     (case xymodem_command_hint line of
        Some (protocol, Upload) \<Rightarrow> Some protocol
      | _ \<Rightarrow> upload_hint rest)"

definition xymodem_negotiation_protocol_hint :: "bytes \<Rightarrow> detected_protocol option" where
  "xymodem_negotiation_protocol_hint plain_history =
     upload_hint (take 4 (rev (text_lines (from_utf8_lossy plain_history))))"

definition xymodem_download_request :: "modem_consumer \<Rightarrow> transfer_request option" where
  "xymodem_download_request c =
     (if mc_history c = [] \<or> \<not> line_end (last (mc_history c)) then None
      else
        (let text_of = text_lines (from_utf8_lossy (command_history c)) in
         if text_of = [] then None
         else
           (case xymodem_command_hint (last text_of) of
              Some (protocol, Download) \<Rightarrow> Some \<lparr>tq_protocol = protocol, tq_direction = Download\<rparr>
            | _ \<Rightarrow> None)))"

section \<open>Recognising a transfer\<close>

definition ok_header :: "bytes \<Rightarrow> zheader option" where
  "ok_header bs = (case parse_zmodem_header_prefix bs of Inr h \<Rightarrow> h | Inl _ \<Rightarrow> None)"

definition request_for_protocol :: "detected_protocol \<Rightarrow> bytes \<Rightarrow> bytes \<Rightarrow> transfer_request option" where
  "request_for_protocol protocol bs plain_history =
     (case protocol of
        Zmodem \<Rightarrow>
          (case ok_header bs of
             None \<Rightarrow> None
           | Some header \<Rightarrow>
               (if zh_frame_type header = ZrInit then Some \<lparr>tq_protocol = protocol, tq_direction = Upload\<rparr>
                else if zh_frame_type header \<in> {ZrqInit, ZFile, ZData}
                then Some \<lparr>tq_protocol = protocol, tq_direction = Download\<rparr>
                else None))
      | XymodemNegotiation \<Rightarrow>
          map_option (\<lambda>p. \<lparr>tq_protocol = p, tq_direction = Upload\<rparr>) (xymodem_negotiation_protocol_hint plain_history)
      | _ \<Rightarrow> Some \<lparr>tq_protocol = protocol, tq_direction = Download\<rparr>)"

definition should_wait_for_protocol_confirmation :: "detected_protocol \<Rightarrow> bytes \<Rightarrow> bool" where
  "should_wait_for_protocol_confirmation protocol bs \<longleftrightarrow>
     protocol = Zmodem \<and> parse_zmodem_header_prefix bs = Inr None"

definition zmodem_control_prefix_len :: "detected_protocol \<Rightarrow> bytes \<Rightarrow> nat option" where
  "zmodem_control_prefix_len protocol bs =
     (if protocol \<noteq> Zmodem then None
      else
        (case ok_header bs of
           None \<Rightarrow> None
         | Some header \<Rightarrow>
             (if zh_frame_type header \<in> {ZrInit, ZrqInit, ZFile, ZData} then None
              else
                (let encoded = encode_hex_header (zh_frame_type header) (zh_position header) in
                 if prefix (encoded False) bs then Some (length (encoded False))
                 else if prefix (encoded True) bs then Some (length (encoded True))
                 else None))))"

definition ends_with :: "bytes \<Rightarrow> bytes \<Rightarrow> bool" where
  "ends_with bs p \<longleftrightarrow> suffix p bs"

definition modem_prefixes :: "bytes list" where
  "modem_prefixes = [[ZPAD], [ZPAD, ZPAD], [ZPAD, ZPAD, ZDLE], [ZPAD, ZDLE], [SOH], [STX]]"

definition possible_modem_prefix_suffix_len :: "bytes \<Rightarrow> nat" where
  "possible_modem_prefix_suffix_len bs = fold max (map length (filter (ends_with bs) modem_prefixes)) 0"

definition modem_candidate :: "byte \<Rightarrow> bool" where
  "modem_candidate b \<longleftrightarrow> b \<in> {ZPAD, WANT_CRC, NAK, SOH, STX}"

definition contains_modem_candidate :: "bytes \<Rightarrow> bool" where
  "contains_modem_candidate bs \<longleftrightarrow> list_ex modem_candidate bs"

section \<open>Operations\<close>

definition consumer_new :: modem_consumer where
  "consumer_new =
     \<lparr>mc_plain_tail = [], mc_detection_tail = [], mc_deadline = None, mc_history = [], mc_mid_line = False,
      mc_scope = Ground, mc_pending = None, mc_transfer = False, mc_input = None\<rparr>"

definition cancel_bytes_of :: "detected_protocol \<Rightarrow> bytes" where
  "cancel_bytes_of protocol = (if protocol = Zmodem then ZMODEM_CANCEL_BYTES else XYMODEM_CANCEL_BYTES)"

definition start_transfer :: "bytes \<Rightarrow> transfer_request \<Rightarrow> modem_consumer \<Rightarrow> modem_consumer" where
  "start_transfer initial_bytes request c =
     c\<lparr>mc_input := Some (stream_new initial_bytes (cancel_bytes_of (tq_protocol request))), mc_transfer := True,
       mc_deadline := None, mc_history := [], mc_mid_line := False\<rparr>"

definition active_transfer :: "modem_consumer \<Rightarrow> modem_stream option" where
  "active_transfer c = (if mc_transfer c then mc_input c else None)"

definition take_active_transfer :: "modem_consumer \<Rightarrow> modem_stream option \<times> modem_consumer" where
  "take_active_transfer c = (active_transfer c, c\<lparr>mc_transfer := False\<rparr>)"

definition start_manual_transfer :: "transfer_request \<Rightarrow> modem_consumer \<Rightarrow> modem_stream option \<times> modem_consumer" where
  "start_manual_transfer request c =
     (if mc_transfer c then (None, c)
      else (let c = start_transfer [] request c in (mc_input c, c)))"

definition finish_transfer :: "modem_consumer \<Rightarrow> bytes \<times> modem_consumer" where
  "finish_transfer c =
     (case mc_input c of None \<Rightarrow> [] | Some s \<Rightarrow> fst (drain_remote_output s),
      c\<lparr>mc_transfer := False, mc_input := None, mc_pending := None, mc_plain_tail := [], mc_detection_tail := [],
        mc_deadline := None, mc_history := [], mc_mid_line := False, mc_scope := Ground\<rparr>)"

definition interrupt_transfer :: "modem_consumer \<Rightarrow> modem_consumer" where
  "interrupt_transfer c =
     (let c = (if mc_transfer c then c\<lparr>mc_input := map_option stream_stop (mc_input c)\<rparr> else c) in
      c\<lparr>mc_input := map_option stream_stop (mc_input c)\<rparr>)"

definition flush_pending_plain_output :: "modem_consumer \<Rightarrow> consumer_event list \<times> modem_consumer" where
  "flush_pending_plain_output c =
     (if mc_plain_tail c = [] then ([], c\<lparr>mc_deadline := None\<rparr>)
      else
        ([WriteTerminal (mc_plain_tail c)],
         remember_plain_output (mc_detection_tail c)
           (c\<lparr>mc_plain_tail := [], mc_detection_tail := [], mc_deadline := None\<rparr>)))"

definition flush_expired_plain_output_at :: "nat \<Rightarrow> modem_consumer \<Rightarrow> consumer_event list \<times> modem_consumer" where
  "flush_expired_plain_output_at now c =
     (if (case mc_deadline c of None \<Rightarrow> True | Some deadline \<Rightarrow> now < deadline) then ([], c)
      else flush_pending_plain_output c)"

definition pending_plain_output_delay :: "nat \<Rightarrow> modem_consumer \<Rightarrow> nat option" where
  "pending_plain_output_delay now c = map_option (\<lambda>deadline. deadline - now) (mc_deadline c)"

definition hold_plain_tail :: "bytes \<Rightarrow> bytes \<Rightarrow> nat \<Rightarrow> modem_consumer \<Rightarrow> modem_consumer" where
  "hold_plain_tail plain detection now c =
     (if plain = [] then c\<lparr>mc_deadline := None\<rparr>
      else c\<lparr>mc_plain_tail := mc_plain_tail c @ plain, mc_detection_tail := mc_detection_tail c @ detection,
             mc_deadline := Some (now + MODEM_PREFIX_IDLE_TIMEOUT)\<rparr>)"

text \<open>
  What happens to the bytes of a possible protocol: the same four cases for the bytes of a chunk and for the pending bytes
  that a chunk completes.
\<close>

definition settle :: "detected_protocol \<Rightarrow> bytes \<Rightarrow> modem_consumer \<Rightarrow> consumer_event list \<times> modem_consumer" where
  "settle protocol bs c =
     (case request_for_protocol protocol bs (command_history c) of
        Some request \<Rightarrow> ([TransferStarted request], start_transfer bs request c)
      | None \<Rightarrow>
          (if should_wait_for_protocol_confirmation protocol bs then ([], c\<lparr>mc_pending := Some (protocol, bs)\<rparr>)
           else
             (case zmodem_control_prefix_len protocol bs of
                Some control_len \<Rightarrow>
                  (let remaining = drop control_len bs in
                   (if remaining = [] then [] else [WriteTerminal remaining], remember_plain_output remaining c))
              | None \<Rightarrow> ([WriteTerminal bs], remember_plain_output bs c))))"

definition process_pending_server_output :: "bytes \<Rightarrow> modem_consumer \<Rightarrow> consumer_event list \<times> modem_consumer" where
  "process_pending_server_output bs c =
     (case mc_pending c of
        None \<Rightarrow> ([], c)
      | Some (protocol, pending) \<Rightarrow> settle protocol (pending @ bs) (c\<lparr>mc_pending := None\<rparr>))"

text \<open>Plain output is written, and a download command on its last line starts a transfer.\<close>

definition write_plain :: "bytes \<Rightarrow> modem_consumer \<Rightarrow> consumer_event list \<times> modem_consumer" where
  "write_plain bs c =
     (case xymodem_download_request c of
        None \<Rightarrow> ([WriteTerminal bs], c)
      | Some request \<Rightarrow> ([WriteTerminal bs, TransferStarted request], start_transfer [] request c))"

definition ordinary_output :: "bytes \<Rightarrow> bool" where
  "ordinary_output bs \<longleftrightarrow>
     \<not> list_ex (\<lambda>b. b \<in> {0x1B, 0x90, 0x9D, 0x9F, ZPAD, WANT_CRC, NAK, SOH, STX}) bs"

text \<open>The detection on the bytes that are held and the new ones.\<close>

definition scan_output :: "bytes \<Rightarrow> bytes \<Rightarrow> nat \<Rightarrow> modem_consumer \<Rightarrow> consumer_event list \<times> modem_consumer" where
  "scan_output scan_bytes detection_bytes now c =
     (case detect_modem_start detection_bytes of
        None \<Rightarrow>
          (let hold = possible_modem_prefix_suffix_len detection_bytes in
           if hold = length scan_bytes then ([], hold_plain_tail scan_bytes detection_bytes now c)
           else
             (let split = length scan_bytes - hold;
                  c = hold_plain_tail (drop split scan_bytes) (drop split detection_bytes) now c;
                  c = remember_plain_output (take split detection_bytes) c in
              write_plain (take split scan_bytes) c))
      | Some start \<Rightarrow>
          (let offset = ds_offset start;
               before = (if 0 < offset then [WriteTerminal (take offset scan_bytes)] else []);
               c = (if 0 < offset then remember_plain_output (take offset detection_bytes) c else c) in
           case settle (ds_protocol start) (drop offset scan_bytes) c of (events, c) \<Rightarrow> (before @ events, c)))"

definition process_server_output_inner :: "bytes \<Rightarrow> nat \<Rightarrow> modem_consumer \<Rightarrow> consumer_event list \<times> modem_consumer" where
  "process_server_output_inner bs now c =
     (if bs = [] then ([], c)
      else
        (case mc_input c of
           Some input \<Rightarrow> ([TransferDataQueued], c\<lparr>mc_input := Some (push_remote_output bs input)\<rparr>)
         | None \<Rightarrow>
             (if mc_pending c \<noteq> None then process_pending_server_output bs c
              else
                (let unbuffered = (mc_plain_tail c = [] \<and> mc_detection_tail c = []);
                     ordinary = (unbuffered \<and> mc_scope c = Ground \<and> ordinary_output bs);
                     (masked, scope) = (if ordinary then (bs, mc_scope c) else mask_control_strings (mc_scope c) bs);
                     c = c\<lparr>mc_scope := scope\<rparr> in
                 if unbuffered \<and> (ordinary \<or> \<not> contains_modem_candidate masked)
                 then write_plain bs (remember_plain_output masked c)
                 else
                   (let scan_bytes = (if mc_plain_tail c = [] then bs else mc_plain_tail c @ bs);
                        detection_bytes = (if mc_detection_tail c = [] then masked else mc_detection_tail c @ masked);
                        c = c\<lparr>mc_plain_tail := [],
                              mc_deadline := (if mc_plain_tail c = [] then mc_deadline c else None),
                              mc_detection_tail := []\<rparr> in
                    scan_output scan_bytes detection_bytes now c)))))"

definition process_server_output_at :: "bytes \<Rightarrow> nat \<Rightarrow> modem_consumer \<Rightarrow> consumer_event list \<times> modem_consumer" where
  "process_server_output_at bs now c =
     (case flush_expired_plain_output_at now c of
        (events, c) \<Rightarrow> (case process_server_output_inner bs now c of (events', c) \<Rightarrow> (events @ events', c)))"

section \<open>Masking\<close>

lemma mask_loop_append:
  "mask_loop scope (xs @ ys) =
     (case mask_loop scope xs of (m, scope') \<Rightarrow> (case mask_loop scope' ys of (m', scope'') \<Rightarrow> (m @ m', scope'')))"
  by (induction xs arbitrary: scope) (simp_all split: prod.split)

lemma mask_loop_length: "length (fst (mask_loop scope bs)) = length bs"
  by (induction bs arbitrary: scope) (simp_all add: case_prod_unfold)

lemma mask_loop_ground:
  "\<not> list_ex (\<lambda>b. b = 0x1B \<or> b = 0x90 \<or> b = 0x9D \<or> b = 0x9F) bs \<Longrightarrow> mask_loop Ground bs = (bs, Ground)"
  by (induction bs) (simp_all add: mask_byte_def)

text \<open>The short cut for output without escapes changes nothing.\<close>

lemma mask_control_strings_loop: "mask_control_strings scope bs = mask_loop scope bs"
  by (simp add: mask_control_strings_def mask_loop_ground)

section \<open>The history\<close>

text \<open>The history stands for everything remembered: its last bytes, and whether they start in the middle of a line.\<close>

definition history_of :: "bytes \<Rightarrow> modem_consumer \<Rightarrow> bool" where
  "history_of h c \<longleftrightarrow>
     mc_history c = drop (length h - PLAIN_HISTORY_LIMIT) h \<and>
     (mc_mid_line c \<longleftrightarrow> PLAIN_HISTORY_LIMIT < length h \<and> \<not> line_end (h ! (length h - PLAIN_HISTORY_LIMIT - 1)))"

lemma limit_pos: "0 < PLAIN_HISTORY_LIMIT"
  by (simp add: PLAIN_HISTORY_LIMIT_def)

lemma remember_history:
  assumes "history_of h c"
  shows "history_of (h @ bs) (remember_plain_output bs c)"
proof -
  let ?n = PLAIN_HISTORY_LIMIT
  have c: "mc_history c = drop (length h - ?n) h"
    "mc_mid_line c \<longleftrightarrow> ?n < length h \<and> \<not> line_end (h ! (length h - ?n - 1))"
    using assms by (simp_all add: history_of_def)
  consider (none) "bs = []" | (over) "bs \<noteq> []" "?n < length bs" | (exact) "bs \<noteq> []" "length bs = ?n"
    | (trim) "bs \<noteq> []" "length bs < ?n" "?n - length bs < length (mc_history c)"
    | (fits) "bs \<noteq> []" "length bs < ?n" "\<not> ?n - length bs < length (mc_history c)" by linarith
  then show ?thesis
  proof cases
    case over
    then have "length (h @ bs) - ?n - 1 = length h + (length bs - ?n - 1)" by simp
    then have "(h @ bs) ! (length (h @ bs) - ?n - 1) = bs ! (length bs - ?n - 1)"
      by (simp only: nth_append_length_plus)
    then show ?thesis using over by (simp add: history_of_def remember_plain_output_def Let_def)
  next
    case exact
    have last: "last (mc_history c) = h ! (length h - 1)" if "h \<noteq> []"
      using that c(1) limit_pos by (simp add: last_conv_nth)
    have "(h @ bs) ! (length (h @ bs) - ?n - 1) = h ! (length h - 1)" if "h \<noteq> []"
      using that exact by (simp add: nth_append)
    moreover have "\<not> length h \<le> length h - ?n" if "h \<noteq> []" using that limit_pos by (cases h) auto
    ultimately show ?thesis using exact c last limit_pos
      by (cases "h = []") (simp_all add: history_of_def remember_plain_output_def Let_def)
  next
    case trim
    define kept where "kept = length (mc_history c)"
    have kept: "kept = min (length h) ?n" using c(1) by (auto simp: kept_def)
    let ?discard = "kept - (?n - length bs)"
    have inside: "0 < ?discard" "?discard \<le> kept" using trim by (auto simp: kept_def)
    have over: "?n < length h + length bs" using trim kept by (simp add: kept_def)
    have index: "length h - ?n + (?discard - 1) = length h + length bs - ?n - 1" "length h + length bs - ?n - 1 < length h"
      using trim kept inside by (auto simp: min_def split: if_splits)
    have "mc_history c ! (?discard - 1) = h ! (length h + length bs - ?n - 1)"
      using c(1) index by simp
    moreover have "(h @ bs) ! (length (h @ bs) - ?n - 1) = h ! (length h + length bs - ?n - 1)"
      using index by (simp add: nth_append)
    moreover have "drop ?discard (mc_history c) @ bs = drop (length (h @ bs) - ?n) (h @ bs)"
    proof -
      have "?discard + (length h - ?n) = length (h @ bs) - ?n" using index inside over by simp
      moreover have "length (h @ bs) - ?n \<le> length h" using trim by simp
      ultimately show ?thesis using c(1) by (simp add: add.commute)
    qed
    ultimately show ?thesis using trim over unfolding history_of_def remember_plain_output_def
      by (simp add: Let_def kept_def [symmetric])
  next
    case fits
    moreover have "length (mc_history c) = min (length h) ?n" using c(1) by (auto simp: min_def)
    ultimately have "length h + length bs \<le> ?n" by (auto simp: min_def split: if_splits)
    then show ?thesis using fits c by (simp add: history_of_def remember_plain_output_def Let_def)
  qed (use assms in \<open>simp add: remember_plain_output_def\<close>)
qed

lemma history_new: "history_of [] consumer_new"
  by (simp add: history_of_def consumer_new_def)

lemma remember_all: "history_of (concat outs) (fold remember_plain_output outs consumer_new)"
proof (induction outs rule: rev_induct)
  case (snoc bs outs)
  then show ?case using remember_history by fastforce
qed (simp add: history_new)

text \<open>
  The bytes in which commands are looked for are whole lines. However the output was cut when it was
  remembered, at most 512 bytes are kept, and the command history is the end of that output, cut at a line end unless
  nothing was cut: the rest of a word of a trimmed line is never taken for a command.
\<close>
theorem command_history_whole_lines:
  "length (mc_history (fold remember_plain_output outs consumer_new)) \<le> PLAIN_HISTORY_LIMIT \<and>
   (\<exists>before. concat outs = before @ command_history (fold remember_plain_output outs consumer_new) \<and>
      (before = [] \<or> line_end (last before) \<or> command_history (fold remember_plain_output outs consumer_new) = []))"
proof -
  define c where "c = fold remember_plain_output outs consumer_new"
  define h where "h = concat outs"
  let ?n = PLAIN_HISTORY_LIMIT
  have c: "mc_history c = drop (length h - ?n) h"
    "mc_mid_line c \<longleftrightarrow> ?n < length h \<and> \<not> line_end (h ! (length h - ?n - 1))"
    using remember_all [of outs] by (simp_all add: c_def h_def history_of_def)
  have "\<exists>before. h = before @ command_history c \<and> (before = [] \<or> line_end (last before) \<or> command_history c = [])"
  proof (cases "mc_mid_line c")
    case False
    let ?before = "take (length h - ?n) h"
    have "last ?before = h ! (length h - ?n - 1)" if "?n < length h"
      using that limit_pos by (subst last_conv_nth) (auto simp: min_def)
    then have "?before = [] \<or> line_end (last ?before)" using c(2) False by fastforce
    then show ?thesis using False c(1) by (intro exI [of _ ?before]) (auto simp: command_history_def)
  next
    case True
    show ?thesis
    proof (cases "dropWhile (\<lambda>b. \<not> line_end b) (mc_history c)")
      case Nil
      have "command_history c = []" unfolding command_history_def Nil using True by simp
      then show ?thesis by (intro exI [of _ h]) simp
    next
      case (Cons e rest)
      let ?before = "take (length h - ?n) h @ takeWhile (\<lambda>b. \<not> line_end b) (mc_history c) @ [e]"
      have "line_end e" using hd_dropWhile [of "\<lambda>b. \<not> line_end b" "mc_history c"] Cons by simp
      moreover have "h = ?before @ rest"
        using takeWhile_dropWhile_id [of "\<lambda>b. \<not> line_end b" "mc_history c"] Cons c(1)
        by (metis append.assoc append_Cons append_Nil append_take_drop_id)
      moreover have "command_history c = rest" using True Cons by (simp add: command_history_def)
      ultimately show ?thesis by (intro exI [of _ ?before]) simp
    qed
  qed
  then show ?thesis using c(1) by (simp add: c_def h_def)
qed

section \<open>No output is lost or repeated\<close>

text \<open>The bytes of \<open>WriteTerminal\<close> events, and the bytes the consumer keeps to itself.\<close>

definition shown :: "consumer_event list \<Rightarrow> bytes" where
  "shown events = concat (map (\<lambda>e. case e of WriteTerminal bs \<Rightarrow> bs | _ \<Rightarrow> []) events)"

lemma shown_simps [simp]:
  "shown [] = []" "shown (WriteTerminal bs # es) = bs @ shown es" "shown (TransferStarted r # es) = shown es"
  "shown (TransferDataQueued # es) = shown es" "shown (es @ es') = shown es @ shown es'"
  by (simp_all add: shown_def)

definition held_output :: "modem_consumer \<Rightarrow> bytes" where
  "held_output c = mc_plain_tail c @ (case mc_pending c of None \<Rightarrow> [] | Some (_, bs) \<Rightarrow> bs) @
     (case mc_input c of None \<Rightarrow> [] | Some s \<Rightarrow> ms_remote_output s)"

definition consumer_ok :: "modem_consumer \<Rightarrow> bool" where
  "consumer_ok c \<longleftrightarrow>
     length (mc_detection_tail c) = length (mc_plain_tail c) \<and>
     length (mc_plain_tail c) \<le> 3 \<and>
     (\<forall>protocol pending. mc_pending c = Some (protocol, pending) \<longrightarrow>
        mc_plain_tail c = [] \<and> should_wait_for_protocol_confirmation protocol pending) \<and>
     (mc_transfer c \<longrightarrow> mc_input c \<noteq> None) \<and>
     (mc_input c = None \<longrightarrow> (mc_deadline c \<noteq> None \<longleftrightarrow> mc_plain_tail c \<noteq> []))"

text \<open>A control header of a peer that repeats itself, which is for nobody.\<close>

definition stale_header :: "bytes \<Rightarrow> bool" where
  "stale_header bs \<longleftrightarrow> bs = [] \<or> (\<exists>t p x. t \<notin> {ZrInit, ZrqInit, ZFile, ZData} \<and> bs = encode_hex_header t p x)"

definition conserves :: "bytes \<Rightarrow> consumer_event list \<Rightarrow> modem_consumer \<Rightarrow> bool" where
  "conserves bs events c' \<longleftrightarrow>
     (\<exists>before dropped after. shown events = before @ after \<and> stale_header dropped \<and>
        bs = before @ dropped @ after @ held_output c')"

lemma conservesI: "stale_header dropped \<Longrightarrow> shown events = before @ after \<Longrightarrow>
    bs = before @ dropped @ after @ held_output c' \<Longrightarrow> conserves bs events c'"
  by (auto simp: conserves_def)

lemma conserves_all: "bs = shown events @ held_output c' \<Longrightarrow> conserves bs events c'"
  by (rule conservesI [where dropped = "[]" and after = "[]" and before = "shown events"]) (simp_all add: stale_header_def)

lemma conserves_before: "conserves bs events c' \<Longrightarrow> conserves (xs @ bs) (WriteTerminal xs # events) c'"
  unfolding conserves_def by (metis append.assoc shown_simps(2))

lemma remember_keeps [simp]:
  "mc_plain_tail (remember_plain_output bs c) = mc_plain_tail c" "mc_detection_tail (remember_plain_output bs c) = mc_detection_tail c"
  "mc_deadline (remember_plain_output bs c) = mc_deadline c" "mc_pending (remember_plain_output bs c) = mc_pending c"
  "mc_transfer (remember_plain_output bs c) = mc_transfer c" "mc_input (remember_plain_output bs c) = mc_input c"
  "mc_scope (remember_plain_output bs c) = mc_scope c"
  by (simp_all add: remember_plain_output_def Let_def)

lemma remember_held [simp]:
  "held_output (remember_plain_output bs c) = held_output c" "consumer_ok (remember_plain_output bs c) = consumer_ok c"
  by (simp_all add: held_output_def consumer_ok_def)

lemma control_len_prefix:
  assumes "zmodem_control_prefix_len protocol bs = Some n"
  shows "stale_header (take n bs)"
proof -
  obtain h where "ok_header bs = Some h" and t: "zh_frame_type h \<notin> {ZrInit, ZrqInit, ZFile, ZData}"
    and n: "\<exists>x. prefix (encode_hex_header (zh_frame_type h) (zh_position h) x) bs \<and>
      n = length (encode_hex_header (zh_frame_type h) (zh_position h) x)"
    using assms by (auto simp: zmodem_control_prefix_len_def Let_def split: if_splits option.splits)
  then obtain x where "take n bs = encode_hex_header (zh_frame_type h) (zh_position h) x" by (auto simp: prefix_def)
  with t show ?thesis unfolding stale_header_def by blast
qed

lemma settle_conserves:
  assumes "settle protocol bs c = (events, c')" "held_output c = []" "consumer_ok c" "mc_input c = None" "mc_pending c = None"
  shows "conserves bs events c' \<and> consumer_ok c'"
proof -
  have empty: "mc_plain_tail c = []" using assms(2) by (simp add: held_output_def)
  have ok: "mc_detection_tail c = []" "\<not> mc_transfer c" "mc_deadline c = None"
    using assms(3,4) empty by (auto simp: consumer_ok_def)
  consider (start) r where "request_for_protocol protocol bs (command_history c) = Some r"
    | (wait) "request_for_protocol protocol bs (command_history c) = None" "should_wait_for_protocol_confirmation protocol bs"
    | (control) n where "request_for_protocol protocol bs (command_history c) = None"
        "\<not> should_wait_for_protocol_confirmation protocol bs" "zmodem_control_prefix_len protocol bs = Some n"
    | (plain) "request_for_protocol protocol bs (command_history c) = None"
        "\<not> should_wait_for_protocol_confirmation protocol bs" "zmodem_control_prefix_len protocol bs = None" by fastforce
  then show ?thesis
  proof cases
    case start
    then have "events = [TransferStarted r]" "c' = start_transfer bs r c" using assms(1) by (simp_all add: settle_def)
    then show ?thesis using empty ok assms(5)
      by (auto intro!: conserves_all simp: held_output_def start_transfer_def stream_new_def consumer_ok_def)
  next
    case wait
    then have "events = []" "c' = c\<lparr>mc_pending := Some (protocol, bs)\<rparr>" using assms(1) by (simp_all add: settle_def)
    then show ?thesis using empty ok assms(4) wait(2)
      by (auto intro!: conserves_all simp: held_output_def consumer_ok_def)
  next
    case control
    then have "events = (if drop n bs = [] then [] else [WriteTerminal (drop n bs)])" "c' = remember_plain_output (drop n bs) c"
      using assms(1) by (auto simp: settle_def Let_def)
    then show ?thesis using assms(2,3) control_len_prefix [OF control(3)]
      by (auto intro!: conservesI [where dropped = "take n bs" and before = "[]" and after = "drop n bs"])
  next
    case plain
    then have "events = [WriteTerminal bs]" "c' = remember_plain_output bs c" using assms(1) by (simp_all add: settle_def)
    then show ?thesis using assms(2,3) by (auto intro!: conserves_all)
  qed
qed

lemma write_plain_conserves:
  assumes "write_plain bs c = (events, c')" "consumer_ok c" "mc_input c = None" "mc_pending c = None"
  shows "conserves (bs @ mc_plain_tail c) events c' \<and> consumer_ok c'"
  using assms
  by (auto intro!: conserves_all simp: write_plain_def held_output_def start_transfer_def stream_new_def consumer_ok_def split: option.splits)

definition idle :: "modem_consumer \<Rightarrow> bool" where
  "idle c \<longleftrightarrow> mc_plain_tail c = [] \<and> mc_detection_tail c = [] \<and> mc_deadline c = None \<and> mc_pending c = None \<and>
     mc_input c = None \<and> \<not> mc_transfer c"

lemma idleD: "idle c \<Longrightarrow> held_output c = [] \<and> consumer_ok c \<and> mc_input c = None \<and> mc_pending c = None"
  by (simp add: idle_def held_output_def consumer_ok_def)

lemma idle_remember [simp]: "idle (remember_plain_output bs c) = idle c"
  by (simp add: idle_def)

lemma possible_modem_prefix_at_most: "possible_modem_prefix_suffix_len bs \<le> 3"
proof -
  have "fold max xs (n :: nat) \<le> 3" if "n \<le> 3" "\<forall>x \<in> set xs. x \<le> 3" for xs n
    using that by (induction xs arbitrary: n) auto
  moreover have "\<forall>x \<in> set (map length (filter (ends_with bs) modem_prefixes)). x \<le> 3"
    by (auto simp: modem_prefixes_def)
  ultimately show ?thesis by (simp add: possible_modem_prefix_suffix_len_def)
qed

lemma hold_plain_tail_idle:
  assumes "idle c" "length detection = length plain" "length plain \<le> 3"
  shows "mc_plain_tail (hold_plain_tail plain detection now c) = plain"
    "mc_pending (hold_plain_tail plain detection now c) = None"
    "mc_input (hold_plain_tail plain detection now c) = None"
    "consumer_ok (hold_plain_tail plain detection now c)"
  using assms by (auto simp: hold_plain_tail_def idle_def consumer_ok_def)

lemma scan_conserves:
  assumes run: "scan_output scan_bytes detection_bytes now c = (events, c')" and "idle c"
    and len: "length detection_bytes = length scan_bytes"
  shows "conserves scan_bytes events c' \<and> consumer_ok c'"
proof (cases "detect_modem_start detection_bytes")
  case None
  let ?hold = "possible_modem_prefix_suffix_len detection_bytes"
  show ?thesis
  proof (cases "?hold = length scan_bytes")
    case True
    then have "events = []" "c' = hold_plain_tail scan_bytes detection_bytes now c"
      using run None by (simp_all add: scan_output_def)
    then show ?thesis
      using hold_plain_tail_idle [OF assms(2) len] possible_modem_prefix_at_most [of detection_bytes] True
      by (auto intro!: conserves_all simp: held_output_def)
  next
    case False
    let ?split = "length scan_bytes - ?hold"
    let ?c1 = "hold_plain_tail (drop ?split scan_bytes) (drop ?split detection_bytes) now c"
    have lengths: "length (drop ?split detection_bytes) = length (drop ?split scan_bytes)" using len by simp
    have "length (drop ?split scan_bytes) \<le> 3"
      using possible_modem_prefix_at_most [of detection_bytes] by simp
    note held = hold_plain_tail_idle [OF assms(2) lengths this]
    have "write_plain (take ?split scan_bytes) (remember_plain_output (take ?split detection_bytes) ?c1) = (events, c')"
      using run None False by (simp add: scan_output_def Let_def)
    from write_plain_conserves [OF this] held show ?thesis by simp
  qed
next
  case (Some start)
  let ?offset = "ds_offset start"
  let ?c1 = "if 0 < ?offset then remember_plain_output (take ?offset detection_bytes) c else c"
  obtain events1 where settled: "settle (ds_protocol start) (drop ?offset scan_bytes) ?c1 = (events1, c')"
    and events: "events = (if 0 < ?offset then [WriteTerminal (take ?offset scan_bytes)] else []) @ events1"
    using run Some by (auto simp: scan_output_def Let_def split: prod.splits)
  have "idle ?c1" using assms(2) by simp
  from settle_conserves [OF settled] idleD [OF this]
  have tail: "conserves (drop ?offset scan_bytes) events1 c'" "consumer_ok c'" by simp_all
  then show ?thesis
    using conserves_before [OF tail(1), of "take ?offset scan_bytes"] events by (cases "0 < ?offset") simp_all
qed

lemma pending_conserves:
  assumes "process_pending_server_output bs c = (events, c')" "consumer_ok c" "mc_input c = None" "mc_pending c \<noteq> None"
  shows "conserves (held_output c @ bs) events c' \<and> consumer_ok c'"
proof -
  obtain protocol pending where p: "mc_pending c = Some (protocol, pending)" using assms(4) by auto
  have "idle (c\<lparr>mc_pending := None\<rparr>)" using assms(2,3,4) by (auto simp: idle_def consumer_ok_def)
  moreover have "settle protocol (pending @ bs) (c\<lparr>mc_pending := None\<rparr>) = (events, c')"
    using assms(1) p by (simp add: process_pending_server_output_def)
  moreover have "held_output c = pending" using assms(2,3) p by (simp add: held_output_def consumer_ok_def)
  ultimately show ?thesis using settle_conserves idleD by fastforce
qed

lemma inner_conserves:
  assumes run: "process_server_output_inner bs now c = (events, c')" and ok: "consumer_ok c" and "mc_input c = None"
  shows "conserves (held_output c @ bs) events c' \<and> consumer_ok c'"
proof -
  obtain masked scope where m: "mask_loop (mc_scope c) bs = (masked, scope)" by fastforce
  have masked_len: "length masked = length bs" using mask_loop_length [of "mc_scope c" bs] m by simp
  let ?unbuffered = "mc_plain_tail c = [] \<and> mc_detection_tail c = []"
  let ?ordinary = "?unbuffered \<and> mc_scope c = Ground \<and> ordinary_output bs"
  have same: "(if ?ordinary then (bs, mc_scope c) else mask_control_strings (mc_scope c) bs) = (masked, scope)"
  proof (cases ?ordinary)
    case True
    then have "mask_loop Ground bs = (bs, Ground)"
      by (intro mask_loop_ground) (auto simp: ordinary_output_def list_ex_iff)
    then show ?thesis using m True by simp
  next
    case False
    show ?thesis unfolding if_not_P [OF False] mask_control_strings_loop by (rule m)
  qed
  consider (empty) "bs = []" | (pending) "bs \<noteq> []" "mc_pending c \<noteq> None" | (scan) "bs \<noteq> []" "mc_pending c = None" by blast
  then show ?thesis
  proof cases
    case empty
    then show ?thesis using run ok by (auto intro!: conserves_all simp: process_server_output_inner_def)
  next
    case pending
    then have "process_pending_server_output bs c = (events, c')"
      using run assms(3) by (simp add: process_server_output_inner_def)
    then show ?thesis using pending_conserves ok assms(3) pending(2) by blast
  next
    case scan
    let ?c = "c\<lparr>mc_scope := scope\<rparr>"
    have run': "(if ?unbuffered \<and> (?ordinary \<or> \<not> contains_modem_candidate masked)
                 then write_plain bs (remember_plain_output masked ?c)
                 else scan_output (if mc_plain_tail ?c = [] then bs else mc_plain_tail ?c @ bs)
                        (if mc_detection_tail ?c = [] then masked else mc_detection_tail ?c @ masked) now
                        (?c\<lparr>mc_plain_tail := [],
                              mc_deadline := (if mc_plain_tail ?c = [] then mc_deadline ?c else None),
                              mc_detection_tail := []\<rparr>)) = (events, c')"
      using run unfolding process_server_output_inner_def
      by (simp only: assms(3) scan if_False option.case Let_def same prod.case simp_thms)
    show ?thesis
    proof (cases "?unbuffered \<and> (?ordinary \<or> \<not> contains_modem_candidate masked)")
      case True
      from write_plain_conserves [OF run' [unfolded if_P [OF True]]] ok assms(3) scan True show ?thesis
        by (simp add: consumer_ok_def held_output_def)
    next
      case False
      let ?c1 = "?c\<lparr>mc_plain_tail := [], mc_deadline := (if mc_plain_tail c = [] then mc_deadline c else None), mc_detection_tail := []\<rparr>"
      have "idle ?c1" using ok assms(3) scan by (auto simp: idle_def consumer_ok_def)
      moreover have "scan_output (mc_plain_tail c @ bs) (mc_detection_tail c @ masked) now ?c1 = (events, c')"
        using run' [unfolded if_not_P [OF False]] by (simp split: if_splits)
      moreover have "length (mc_detection_tail c @ masked) = length (mc_plain_tail c @ bs)"
        using ok masked_len by (simp add: consumer_ok_def)
      ultimately have "conserves (mc_plain_tail c @ bs) events c' \<and> consumer_ok c'" using scan_conserves by blast
      then show ?thesis using scan assms(3) by (simp add: held_output_def)
    qed
  qed
qed

lemma flush_conserves:
  assumes "flush_expired_plain_output_at now c = (events, c')" "consumer_ok c" "mc_input c = None"
  shows "held_output c = shown events @ held_output c' \<and> consumer_ok c' \<and> mc_input c' = None"
  using assms
  by (auto simp: flush_expired_plain_output_at_def flush_pending_plain_output_def held_output_def consumer_ok_def split: if_splits)

lemma flushed_conserves: "conserves bs events c' \<Longrightarrow> xs = shown events1 \<Longrightarrow> conserves (xs @ bs) (events1 @ events) c'"
  unfolding conserves_def by (metis append.assoc shown_simps(5))

lemma consumer_new_ok: "consumer_ok consumer_new"
  by (simp add: consumer_ok_def consumer_new_def)

text \<open>A tail that is held after new output has its full idle window.\<close>

definition tail_fresh :: "nat \<Rightarrow> modem_consumer \<Rightarrow> bool" where
  "tail_fresh now c \<longleftrightarrow>
     mc_input c \<noteq> None \<or> mc_plain_tail c = [] \<or> mc_deadline c = Some (now + MODEM_PREFIX_IDLE_TIMEOUT)"

lemma tail_fresh_remember [simp]: "tail_fresh now (remember_plain_output bs c) = tail_fresh now c"
  by (simp add: tail_fresh_def)

lemma write_plain_fresh: "write_plain bs c = (events, c') \<Longrightarrow> tail_fresh now c \<Longrightarrow> tail_fresh now c'"
  by (auto simp: write_plain_def tail_fresh_def start_transfer_def split: option.splits)

lemma settle_fresh: "settle protocol bs c = (events, c') \<Longrightarrow> mc_plain_tail c = [] \<Longrightarrow> tail_fresh now c'"
  by (auto simp: settle_def tail_fresh_def start_transfer_def Let_def split: option.splits if_splits)

lemma hold_fresh: "mc_plain_tail c = [] \<Longrightarrow> tail_fresh now (hold_plain_tail plain detection now c)"
  by (simp add: hold_plain_tail_def tail_fresh_def)

lemma scan_fresh:
  assumes "scan_output scan_bytes detection_bytes now c = (events, c')" "mc_plain_tail c = []"
  shows "tail_fresh now c'"
proof (cases "detect_modem_start detection_bytes")
  case None
  then show ?thesis using assms
    by (auto simp: scan_output_def Let_def hold_fresh split: if_splits intro: write_plain_fresh)
next
  case (Some start)
  then show ?thesis using assms
    by (auto simp: scan_output_def Let_def split: prod.splits if_splits intro: settle_fresh)
qed

lemma inner_fresh:
  assumes "process_server_output_inner bs now c = (events, c')" "consumer_ok c" "mc_input c = None" "bs \<noteq> []"
  shows "tail_fresh now c'"
proof (cases "mc_pending c")
  case (Some p)
  then have "mc_plain_tail c = []" using assms(2) by (cases p) (auto simp: consumer_ok_def)
  then show ?thesis using assms Some
    by (auto simp: process_server_output_inner_def process_pending_server_output_def split: prod.splits intro: settle_fresh)
next
  case None
  then show ?thesis using assms
    by (auto simp: process_server_output_inner_def Let_def tail_fresh_def [of _ "_\<lparr>mc_scope := _\<rparr>"] split: prod.splits if_splits
        intro: scan_fresh write_plain_fresh)
qed

text \<open>
  Property C17: no output is lost, repeated or reordered on its way to the screen. While no transfer runs, whatever bytes arrive in whatever
  pieces and at whatever time, the bytes held before and the new bytes are, in order, what is written to the terminal and what
  the consumer holds afterwards; only one repeated control header of a finished ZMODEM peer may be left out. What is held
  while no transfer runs is of two kinds. It is a ZMODEM header that is not complete, which waits for its other bytes without a deadline; or it
  is at most three bytes that may start a transfer, with a deadline that lies 50 ms after the last bytes came, and
  once the deadline has passed these bytes are written to the terminal.
\<close>
theorem output_conserved:
  assumes "consumer_ok c" "mc_input c = None" "process_server_output_at bs now c = (events, c')"
  shows "(\<exists>before dropped after. shown events = before @ after \<and> stale_header dropped \<and>
      held_output c @ bs = before @ dropped @ after @ held_output c') \<and> consumer_ok c' \<and>
    (mc_input c' = None \<longrightarrow>
      (case mc_pending c' of
         Some (protocol, pending) \<Rightarrow>
           held_output c' = pending \<and> protocol = Zmodem \<and> parse_zmodem_header_prefix pending = Inr None \<and> mc_deadline c' = None
       | None \<Rightarrow>
           length (held_output c') \<le> 3 \<and>
           (held_output c' \<noteq> [] \<longrightarrow>
             (\<exists>deadline. mc_deadline c' = Some deadline \<and> now < deadline \<and>
                (bs \<noteq> [] \<longrightarrow> deadline = now + MODEM_PREFIX_IDLE_TIMEOUT) \<and>
                (\<forall>later. deadline \<le> later \<longrightarrow>
                   fst (flush_expired_plain_output_at later c') = [WriteTerminal (held_output c')] \<and>
                   held_output (snd (flush_expired_plain_output_at later c')) = [])))))"
proof -
  obtain events1 c1 where flush: "flush_expired_plain_output_at now c = (events1, c1)" by fastforce
  obtain events2 where inner: "process_server_output_inner bs now c1 = (events2, c')" and events: "events = events1 @ events2"
    using assms(3) flush by (auto simp: process_server_output_at_def split: prod.splits)
  note one = flush_conserves [OF flush assms(1,2)]
  then have two: "conserves (held_output c1 @ bs) events2 c'" "consumer_ok c'"
    using inner_conserves [OF inner] by simp_all
  have "conserves (held_output c @ bs) events c'"
    using flushed_conserves [OF two(1) refl] one events by simp
  moreover have waits: "held_output c' = pending \<and> protocol = Zmodem \<and> parse_zmodem_header_prefix pending = Inr None \<and> mc_deadline c' = None"
    if "mc_input c' = None" "mc_pending c' = Some (protocol, pending)" for protocol pending
    using two(2) that by (auto simp: consumer_ok_def held_output_def should_wait_for_protocol_confirmation_def)
  moreover have tail: "length (held_output c') \<le> 3" "held_output c' \<noteq> [] \<Longrightarrow>
      \<exists>deadline. mc_deadline c' = Some deadline \<and> now < deadline \<and>
        (bs \<noteq> [] \<longrightarrow> deadline = now + MODEM_PREFIX_IDLE_TIMEOUT) \<and>
        (\<forall>later. deadline \<le> later \<longrightarrow>
           fst (flush_expired_plain_output_at later c') = [WriteTerminal (held_output c')] \<and>
           held_output (snd (flush_expired_plain_output_at later c')) = [])"
    if "mc_input c' = None" "mc_pending c' = None"
  proof -
    note none = that
    have held: "held_output c' = mc_plain_tail c'" using none by (simp add: held_output_def)
    then show "length (held_output c') \<le> 3" using two(2) by (simp add: consumer_ok_def)
    assume "held_output c' \<noteq> []"
    then obtain deadline where deadline: "mc_deadline c' = Some deadline"
      using two(2) held none(1) by (auto simp: consumer_ok_def)
    have "deadline = now + MODEM_PREFIX_IDLE_TIMEOUT" if "bs \<noteq> []"
      using inner_fresh [OF inner _ _ that] one deadline held \<open>held_output c' \<noteq> []\<close> \<open>mc_input c' = None\<close>
      by (simp add: tail_fresh_def)
    moreover have "now < deadline" if "bs = []"
    proof -
      have "c' = c1" using inner that by (simp add: process_server_output_inner_def)
      then show ?thesis using flush deadline held \<open>held_output c' \<noteq> []\<close>
        by (auto simp: flush_expired_plain_output_at_def flush_pending_plain_output_def split: option.splits if_splits)
    qed
    moreover have "0 < MODEM_PREFIX_IDLE_TIMEOUT" by (simp add: MODEM_PREFIX_IDLE_TIMEOUT_def)
    moreover have "fst (flush_expired_plain_output_at later c') = [WriteTerminal (held_output c')] \<and>
        held_output (snd (flush_expired_plain_output_at later c')) = []" if "deadline \<le> later" for later
      using that deadline held \<open>held_output c' \<noteq> []\<close> \<open>mc_input c' = None\<close> \<open>mc_pending c' = None\<close>
      by (simp add: flush_expired_plain_output_at_def flush_pending_plain_output_def held_output_def)
    ultimately show "\<exists>deadline. mc_deadline c' = Some deadline \<and> now < deadline \<and>
        (bs \<noteq> [] \<longrightarrow> deadline = now + MODEM_PREFIX_IDLE_TIMEOUT) \<and>
        (\<forall>later. deadline \<le> later \<longrightarrow>
           fst (flush_expired_plain_output_at later c') = [WriteTerminal (held_output c')] \<and>
           held_output (snd (flush_expired_plain_output_at later c')) = [])"
      using deadline by (cases "bs = []") auto
  qed
  ultimately show ?thesis
    using two(2) unfolding conserves_def by (cases "mc_pending c'") (auto split: prod.splits)
qed

text \<open>A letter and a pad: the letter is written at once, the pad when 50 ms have passed.\<close>

lemma output_conserved_witness:
  "\<exists>events c'. process_server_output_at [0x61, ZPAD] 7 consumer_new = (events, c') \<and>
     shown events = [0x61] \<and> held_output c' = [ZPAD] \<and>
     fst (flush_expired_plain_output_at 57 c') = [WriteTerminal [ZPAD]]"
proof -
  obtain events c' where run: "process_server_output_at [0x61, ZPAD] 7 consumer_new = (events, c')" by fastforce
  have new: "mc_input consumer_new = None" by (simp add: consumer_new_def)
  have "(case process_server_output_at [0x61, ZPAD] 7 consumer_new of (events, c') \<Rightarrow>
      shown events = [0x61] \<and> held_output c' = [ZPAD] \<and> mc_input c' = None \<and> mc_pending c' = None)" by code_simp
  then have state: "shown events = [0x61]" "held_output c' = [ZPAD]" "mc_input c' = None" "mc_pending c' = None"
    by (simp_all add: run)
  with output_conserved [OF consumer_new_ok new run]
  have "fst (flush_expired_plain_output_at 57 c') = [WriteTerminal [ZPAD]]"
    by (auto simp: MODEM_PREFIX_IDLE_TIMEOUT_def)
  with run state show ?thesis by blast
qed

text \<open>
  An incomplete header is hidden without a limit in time, although the comment on the tail says that its deadline keeps ordinary text
  that shares a prefix with a header from being hidden: after two pads, ZDLE and the letter B nothing is due, and no
  flush ever writes them.
\<close>

lemma incomplete_header_hidden:
  "(case process_server_output_at [ZPAD, ZPAD, ZDLE, ZHEX] 0 consumer_new of (events, c) \<Rightarrow>
      events = [] \<and> held_output c = [ZPAD, ZPAD, ZDLE, ZHEX] \<and> pending_plain_output_delay 0 c = None \<and>
      fst (flush_pending_plain_output c) = [])"
  by code_simp

section \<open>Headers and control strings\<close>

lemma ok_header_hex:
  assumes "length p = 4"
  shows "ok_header (encode_hex_header t p x @ rest) = Some \<lparr>zh_frame_type = t, zh_position = p, zh_encoding = Hex\<rparr>"
proof -
  let ?tail = "(if x then [XON] else []) @ rest"
  have "encode_hex_header t p x @ rest = encode_hex_header t p False @ ?tail"
    by (simp add: encode_hex_header_def Let_def)
  then have input: "mio_input (io_with_input (encode_hex_header t p x @ rest)) =
      map Arrives (encode_hex_header t p False) @ map Arrives ?tail"
    by (simp add: io_with_input_def)
  show ?thesis
    using talksD [OF talks_hex_header [OF assms, of t] input] by (simp add: ok_header_def parse_zmodem_header_prefix_def)
qed

text \<open>
  The flow control byte of a repeated header reaches the screen. The two encodings of a header are tried
  without and then with the XON byte that follows it; the first is a prefix of the second, so the second is never
  reached, and the XON that this program and others send after such a header is written to the terminal as plain output.
\<close>
theorem stale_header_leaves_xon:
  assumes "length p = 4" "t \<notin> {ZrInit, ZrqInit, ZFile, ZData}"
  shows "settle Zmodem (encode_hex_header t p True) c = ([WriteTerminal [XON]], remember_plain_output [XON] c)"
proof -
  let ?h = "\<lparr>zh_frame_type = t, zh_position = p, zh_encoding = Hex\<rparr>"
  have whole: "encode_hex_header t p True = encode_hex_header t p False @ [XON]"
    by (simp add: encode_hex_header_def Let_def)
  have header: "ok_header (encode_hex_header t p True) = Some ?h" using ok_header_hex [OF assms(1), of t True "[]"] by simp
  then have "parse_zmodem_header_prefix (encode_hex_header t p True) \<noteq> Inr None"
    by (auto simp: ok_header_def)
  moreover have "zmodem_control_prefix_len Zmodem (encode_hex_header t p True) = Some (length (encode_hex_header t p False))"
    using assms(2) header by (simp add: zmodem_control_prefix_len_def whole)
  moreover have "request_for_protocol Zmodem (encode_hex_header t p True) (command_history c) = None"
    using assms(2) header by (simp add: request_for_protocol_def)
  ultimately show ?thesis
    by (simp add: settle_def should_wait_for_protocol_confirmation_def whole Let_def)
qed

lemma stale_header_leaves_xon_witness:
  "settle Zmodem (encode_hex_header ZSkip [0, 0, 0, 0] True) consumer_new =
     ([WriteTerminal [XON]], remember_plain_output [XON] consumer_new)"
  by (rule stale_header_leaves_xon) simp_all

text \<open>The bytes of a hexadecimal header are printable, apart from the pads, the escape and the line end.\<close>

lemma hex_char_range: "n < 16 \<Longrightarrow> hex_char n \<in> set (ascii ''0123456789abcdef'')"
proof -
  assume "n < 16"
  then have k: "n = of_nat (unat n)" "unat n < 16" by (simp_all add: word_less_nat_alt)
  have "\<forall>k \<in> set [0..<16]. hex_char (of_nat k) \<in> set (ascii ''0123456789abcdef'')" by code_simp
  then have "hex_char (of_nat (unat n)) \<in> set (ascii ''0123456789abcdef'')" using k(2)
    by (metis atLeastLessThan_iff atLeastLessThan_upt zero_le)
  then show ?thesis by simp
qed

lemma hex_header_bytes:
  "set (encode_hex_header t p x) \<subseteq> {ZPAD, ZDLE, ZHEX, 0x0D, 0x8A, XON} \<union> set (ascii ''0123456789abcdef'')"
proof -
  have digit: "c \<in> set (hex_byte b) \<Longrightarrow> c \<in> set (ascii ''0123456789abcdef'')" for b c
    using hex_char_range [OF nibbles(1)] hex_char_range [OF nibbles(2)] by (auto simp: hex_byte_def)
  show ?thesis
    by (auto simp: encode_hex_header_def Let_def dest!: digit split: if_splits)
qed

definition escape_free :: "bytes \<Rightarrow> bool" where
  "escape_free bs \<longleftrightarrow> \<not> list_ex (\<lambda>b. b = 0x1B \<or> b = 0x90 \<or> b = 0x9D \<or> b = 0x9F) bs"

lemma hex_header_escape_free: "escape_free (encode_hex_header t p x)"
  using hex_header_bytes [of t p x]
  by (auto simp: escape_free_def list_ex_iff ascii_def ZPAD_def ZDLE_def ZHEX_def XON_def)

text \<open>The first ZMODEM pattern of output without pads is the header itself.\<close>

lemma find_first:
  assumes "i < n" "P i" "\<And>j. j < i \<Longrightarrow> \<not> P j"
  shows "List.find P [0..<n] = Some i"
  using assms by (subst find_Some_iff) (intro exI [of _ i], auto)

lemma pattern_after_pads:
  assumes "ZPAD \<notin> set plain" "pattern \<noteq> []" "hd pattern = ZPAD"
    and "find_pattern_crossing_current_chunk (plain @ rest) 0 pattern = Some i"
  shows "length plain \<le> i"
proof (rule ccontr)
  assume "\<not> length plain \<le> i"
  have "take (length pattern) (drop i (plain @ rest)) = pattern"
    using assms(4) by (auto simp: find_pattern_crossing_current_chunk_def find_Some_iff split: if_splits)
  then have "hd (drop i (plain @ rest)) = ZPAD"
    using assms(2,3) by (metis hd_take length_greater_0_conv)
  then have "plain ! i = ZPAD" using \<open>\<not> length plain \<le> i\<close> by (simp add: hd_drop_conv_nth nth_append)
  then show False using assms(1) \<open>\<not> length plain \<le> i\<close> by (metis not_le nth_mem)
qed

lemma detect_header:
  assumes "ZPAD \<notin> set plain"
  shows "detect_modem_start (plain @ encode_hex_header t p x @ rest) = Some \<lparr>ds_protocol = Zmodem, ds_offset = length plain\<rparr>"
proof -
  let ?w = "plain @ encode_hex_header t p x @ rest"
  let ?hex = "[ZPAD, ZPAD, ZDLE, ZHEX]"
  obtain more where w: "?w = plain @ ?hex @ more"
    by (simp add: encode_hex_header_def Let_def)
  have "find_pattern_crossing_current_chunk ?w 0 ?hex = Some (length plain)"
  proof -
    let ?P = "\<lambda>i. take 4 (drop i ?w) = ?hex \<and> 0 < i + 4"
    have "List.find ?P [0..<Suc (length ?w - 4)] = Some (length plain)"
    proof (rule find_first)
      show "length plain < Suc (length ?w - 4)" "?P (length plain)" unfolding w by simp_all
      fix j assume "j < length plain"
      then have "hd (drop j ?w) \<noteq> ZPAD" using assms by (simp add: hd_drop_conv_nth nth_append) (metis nth_mem)
      then show "\<not> ?P j" by (metis hd_take list.sel(1) zero_less_numeral)
    qed
    moreover have "4 \<le> length ?w" unfolding w by simp
    moreover have four: "length ?hex = 4" by simp
    ultimately show ?thesis unfolding find_pattern_crossing_current_chunk_def four by simp
  qed
  moreover have "length plain \<le> i" if "find_pattern_crossing_current_chunk ?w 0 pattern = Some i" "pattern \<in> set zmodem_patterns" for pattern i
    using pattern_after_pads [OF assms _ _ that(1)] that(2) by (auto simp: zmodem_patterns_def)
  ultimately have "min_of (filter_some (map (find_pattern_crossing_current_chunk ?w 0) zmodem_patterns)) = Some (length plain)"
    (is "min_of ?found = _")
  proof -
    assume first: "find_pattern_crossing_current_chunk ?w 0 ?hex = Some (length plain)"
      and later: "\<And>pattern i. find_pattern_crossing_current_chunk ?w 0 pattern = Some i \<Longrightarrow> pattern \<in> set zmodem_patterns \<Longrightarrow> length plain \<le> i"
    have member: "i \<in> set (filter_some xs) \<longleftrightarrow> Some i \<in> set xs" for i and xs :: "nat option list"
      by (induction xs rule: filter_some.induct) auto
    have "length plain \<in> set ?found" unfolding member using first by (auto simp: zmodem_patterns_def)
    moreover have "\<forall>i \<in> set ?found. length plain \<le> i" 
    proof
      fix i assume "i \<in> set ?found"
      then obtain pattern where "pattern \<in> set zmodem_patterns" "find_pattern_crossing_current_chunk ?w 0 pattern = Some i"
        unfolding member by auto
      then show "length plain \<le> i" using later by blast
    qed
    ultimately have "Min (set ?found) = length plain" by (intro Min_eqI) auto
    then show ?thesis using \<open>length plain \<in> set ?found\<close> by (auto simp: min_of_def)
  qed
  then show ?thesis by (simp add: detect_modem_start_def find_zmodem_start_def or_else_def)
qed

text \<open>
  Property C18: a ZMODEM peer is recognised wherever its header stands. When an idle consumer, with nothing held and outside control
  strings, receives any text without pads and escapes followed by a ZRINIT or ZRQINIT header and anything else, the text is written
  to the terminal and a transfer starts in the right direction, with the header and all that follows as its input.
\<close>
theorem zmodem_header_starts_transfer:
  assumes "idle c" "mc_scope c = Ground" "ZPAD \<notin> set plain" "escape_free plain" "length p = 4" "t \<in> {ZrInit, ZrqInit}"
  shows "\<exists>c'. process_server_output_at (plain @ encode_hex_header t p x @ rest) now c =
      ((if plain = [] then [] else [WriteTerminal plain]) @
         [TransferStarted \<lparr>tq_protocol = Zmodem, tq_direction = (if t = ZrInit then Upload else Download)\<rparr>], c') \<and>
    active_transfer c' = Some (stream_new (encode_hex_header t p x @ rest) ZMODEM_CANCEL_BYTES)"
proof -
  let ?bs = "plain @ encode_hex_header t p x @ rest"
  have c: "mc_plain_tail c = []" "mc_detection_tail c = []" "mc_deadline c = None" "mc_pending c = None" "mc_input c = None"
    using assms(1) by (simp_all add: idle_def)
  obtain masked_rest scope where m: "mask_loop Ground rest = (masked_rest, scope)" by fastforce
  have "mask_loop Ground plain = (plain, Ground)" "mask_loop Ground (encode_hex_header t p x) = (encode_hex_header t p x, Ground)"
    using assms(4) hex_header_escape_free [of t p x] by (simp_all add: escape_free_def mask_loop_ground)
  then have mask: "mask_control_strings Ground ?bs = (plain @ encode_hex_header t p x @ masked_rest, scope)"
    by (simp add: mask_control_strings_loop mask_loop_append m)
  obtain more where pads: "encode_hex_header t p x = ZPAD # more" by (simp add: encode_hex_header_def Let_def)
  then have marked: "\<not> ordinary_output ?bs" "contains_modem_candidate (plain @ encode_hex_header t p x @ masked_rest)" "?bs \<noteq> []"
    by (simp_all add: ordinary_output_def contains_modem_candidate_def modem_candidate_def)
  let ?c1 = "c\<lparr>mc_scope := scope, mc_plain_tail := [], mc_deadline := None, mc_detection_tail := []\<rparr>"
  have "process_server_output_at ?bs now c = process_server_output_inner ?bs now c"
    using c(3) by (simp add: process_server_output_at_def flush_expired_plain_output_at_def)
  also have "\<dots> = scan_output ?bs (plain @ encode_hex_header t p x @ masked_rest) now ?c1"
    unfolding process_server_output_inner_def Let_def
    using c marked mask assms(2) by (simp add: pads)
  finally have run: "process_server_output_at ?bs now c = scan_output ?bs (plain @ encode_hex_header t p x @ masked_rest) now ?c1" .
  let ?r = "\<lparr>tq_protocol = Zmodem, tq_direction = (if t = ZrInit then Upload else Download)\<rparr>"
  have request: "request_for_protocol Zmodem (encode_hex_header t p x @ rest) h = Some ?r" for h
    using assms(6) ok_header_hex [OF assms(5), of t x rest] by (auto simp: request_for_protocol_def)
  have "active_transfer (start_transfer bs ?r c2) = Some (stream_new bs ZMODEM_CANCEL_BYTES)" for bs c2
    by (simp add: active_transfer_def start_transfer_def cancel_bytes_of_def)
  then show ?thesis
    unfolding run scan_output_def detect_header [OF assms(3)] option.case Let_def
    by (simp add: settle_def request)
qed

lemma zmodem_header_starts_transfer_witness:
  "\<exists>c'. process_server_output_at (ascii ''hi'' @ encode_hex_header ZrqInit [0, 0, 0, 0] True @ []) 0 consumer_new =
      ((if ascii ''hi'' = [] then [] else [WriteTerminal (ascii ''hi'')]) @
         [TransferStarted \<lparr>tq_protocol = Zmodem, tq_direction = (if ZrqInit = ZrInit then Upload else Download)\<rparr>], c') \<and>
    active_transfer c' = Some (stream_new (encode_hex_header ZrqInit [0, 0, 0, 0] True @ []) ZMODEM_CANCEL_BYTES)"
  by (rule zmodem_header_starts_transfer)
     (simp_all add: idle_def consumer_new_def escape_free_def ascii_def ZPAD_def)

text \<open>
  A byte string holds no terminator of a control string: neither the C1 string terminator, nor ESC and a backslash, whose
  ESC may have come before, nor, in an OSC string, BEL.
\<close>

definition unterminated :: "control_kind \<Rightarrow> bool \<Rightarrow> bytes \<Rightarrow> bool" where
  "unterminated kind escape_pending bs \<longleftrightarrow>
     0x9C \<notin> set bs \<and> (kind = Osc \<longrightarrow> 0x07 \<notin> set bs) \<and>
     (\<forall>before after. (if escape_pending then [0x1B] else []) @ bs \<noteq> before @ [0x1B, backslash] @ after)"

lemma unterminated_Cons:
  assumes "unterminated kind p (b # bs)"
  shows "unterminated kind (b = 0x1B) bs"
    and "mask_byte (ControlString kind p) b = (MASKED_BYTE, ControlString kind (b = 0x1B))"
proof -
  have free: "(if p then [0x1B] else []) @ b # bs \<noteq> before @ [0x1B, backslash] @ after" for before after
    using assms by (auto simp: unterminated_def)
  have "(if b = 0x1B then [0x1B] else []) @ bs \<noteq> before @ [0x1B, backslash] @ after" for before after
    using free [of "(if p then [0x1B] else []) @ (if b = 0x1B then [] else [b]) @ before" after] by auto
  then show "unterminated kind (b = 0x1B) bs" using assms by (auto simp: unterminated_def)
  have "\<not> (p \<and> b = backslash)" using free [of "[]" bs] by auto
  then show "mask_byte (ControlString kind p) b = (MASKED_BYTE, ControlString kind (b = 0x1B))"
    using assms by (auto simp: mask_byte_def unterminated_def)
qed

lemma mask_unterminated:
  "unterminated kind p bs \<Longrightarrow> mask_loop (ControlString kind p) bs =
     (replicate (length bs) MASKED_BYTE, ControlString kind (if bs = [] then p else last bs = 0x1B))"
  by (induction bs arbitrary: p) (auto simp: unterminated_Cons)

text \<open>
  Property C19: the payload of a control string never starts a transfer. While an idle consumer is inside an OSC, DCS or APC
  string, bytes without the terminator of that string (so with a BEL in DCS and APC strings, and with backslashes that no ESC precedes), whatever
  headers or negotiation bytes they spell, are written to the terminal unchanged, nothing is held back, no transfer
  starts, and the consumer stays inside the string, knowing whether the last byte was an ESC.
\<close>
theorem control_string_inert:
  assumes "idle c" "mc_scope c = ControlString kind escape_pending" "bs \<noteq> []" "unterminated kind escape_pending bs"
  shows "\<exists>c'. process_server_output_at bs now c = ([WriteTerminal bs], c') \<and> idle c' \<and>
    mc_scope c' = ControlString kind (last bs = 0x1B)"
proof -
  let ?e = "last bs = 0x1B"
  have m: "mask_control_strings (ControlString kind escape_pending) bs = (replicate (length bs) MASKED_BYTE, ControlString kind ?e)"
    unfolding mask_control_strings_loop mask_unterminated [OF assms(4)] using assms(3) by simp
  have c: "mc_plain_tail c = []" "mc_detection_tail c = []" "mc_deadline c = None" "mc_pending c = None" "mc_input c = None"
    using assms(1) by (simp_all add: idle_def)
  let ?spaces = "replicate (length bs) MASKED_BYTE"
  have quiet: "\<not> contains_modem_candidate ?spaces"
    by (simp add: contains_modem_candidate_def list_ex_iff modem_candidate_def MASKED_BYTE_def ZPAD_def WANT_CRC_def NAK_def
        SOH_def STX_def)
  let ?c1 = "remember_plain_output ?spaces (c\<lparr>mc_scope := ControlString kind ?e\<rparr>)"
  have "process_server_output_at bs now c = write_plain bs ?c1"
    using c m assms(2,3) quiet
    by (simp add: process_server_output_at_def flush_expired_plain_output_at_def process_server_output_inner_def Let_def)
  moreover have "mc_history ?c1 \<noteq> [] \<and> last (mc_history ?c1) = MASKED_BYTE"
    using assms(3) by (auto simp: remember_plain_output_def Let_def PLAIN_HISTORY_LIMIT_def last_append last_replicate)
  then have "xymodem_download_request ?c1 = None"
    by (simp add: xymodem_download_request_def line_end_def MASKED_BYTE_def)
  ultimately have "process_server_output_at bs now c = ([WriteTerminal bs], ?c1)" by (simp add: write_plain_def)
  moreover have "idle ?c1" "mc_scope ?c1 = ControlString kind ?e" using assms(1) by (simp_all add: idle_def)
  ultimately show ?thesis by blast
qed

text \<open>A DCS string with a BEL, a backslash, a ZMODEM header and an ESC at its end.\<close>

definition sample_payload :: bytes where
  "sample_payload = [0x07, backslash, ZPAD, ZPAD, ZDLE, ZHEX, 0x30, 0x30, 0x1B]"

lemma control_string_inert_witness:
  "\<exists>c'. process_server_output_at sample_payload 0 (consumer_new\<lparr>mc_scope := ControlString Dcs False\<rparr>) =
      ([WriteTerminal sample_payload], c') \<and> idle c' \<and> mc_scope c' = ControlString Dcs True"
proof -
  have "unterminated Dcs False sample_payload"
    by (auto simp: unterminated_def sample_payload_def Cons_eq_append_conv ZPAD_def ZDLE_def ZHEX_def)
  from control_string_inert [OF _ _ _ this, of "consumer_new\<lparr>mc_scope := ControlString Dcs False\<rparr>" 0]
  show ?thesis by (simp add: idle_def consumer_new_def) (simp add: sample_payload_def)
qed

section \<open>Bytes held when a transfer starts\<close>

text \<open>
  A transfer that a command line or the user starts, and not a header, neither takes over nor writes the bytes that were
  held as a possible header: whatever they are, the end of the transfer drops them. With an \<^verbatim>\<open>sx\<close> command line and the
  first pad of a prompt in one chunk, the pad never reaches the screen.
\<close>

lemma started_transfer_drops_held:
  "fst (finish_transfer (start_transfer [] r c)) = []" "held_output (snd (finish_transfer (start_transfer [] r c))) = []"
  by (simp_all add: finish_transfer_def start_transfer_def held_output_def drain_remote_output_def stream_new_def)

lemma command_line_drops_held_pad:
  "(case process_server_output_at (ascii ''sx f'' @ [0x0A, ZPAD]) 0 consumer_new of
      (events, c) \<Rightarrow> (shown events, mc_transfer c, mc_plain_tail c, fst (finish_transfer c), held_output (snd (finish_transfer c)))) =
    (ascii ''sx f'' @ [0x0A], True, [ZPAD], [], [])"
  by code_simp

end
