(* ===== verification/X11_Authority.thy ===== *)
theory X11_Authority
  imports X11_Setup Modem_Consumer
begin

text \<open>
  X11 forwarding: where the local display is, and which authority entry holds its cookie
  (\<open>crates/oxideterm-x11-forwarding/src\<close>: \<open>display.rs\<close>, \<open>endpoint.rs\<close>, \<open>xauthority.rs\<close>, \<open>xauth.rs\<close>,
  \<open>remote_xauth.rs\<close>, \<open>allocation.rs\<close>). The parser of internet addresses of the standard library is written out. The remote
  shell is a parameter that reads quotes as POSIX defines them (\<open>posix_quoting\<close>).
\<close>

section \<open>Displays\<close>

datatype display_transport =
    Unix
  | UnixSocket bytes
  | Tcp bytes

record x11_display =
  xd_transport :: display_transport
  xd_display :: u16
  xd_screen :: u16

datatype local_endpoint =
    EndpointUnixSocket bytes
  | EndpointTcp bytes u16

text \<open>\<open>str::split_once\<close> and \<open>str::rsplit_once\<close> at a character.\<close>

definition split_once :: "byte \<Rightarrow> bytes \<Rightarrow> (bytes \<times> bytes) option" where
  "split_once sep bs =
     (if sep \<in> set bs then Some (takeWhile (\<lambda>b. b \<noteq> sep) bs, drop 1 (dropWhile (\<lambda>b. b \<noteq> sep) bs)) else None)"

definition rsplit_once :: "byte \<Rightarrow> bytes \<Rightarrow> (bytes \<times> bytes) option" where
  "rsplit_once sep bs = map_option (\<lambda>(r, l). (rev l, rev r)) (split_once sep (rev bs))"

text \<open>\<open>str::parse::<u16>\<close>: decimal digits, after an optional plus sign.\<close>

definition decimal_value :: "bytes \<Rightarrow> nat" where
  "decimal_value bs = foldl (\<lambda>n b. 10 * n + unat (b - 48)) 0 bs"

definition is_decimal :: "byte \<Rightarrow> bool" where
  "is_decimal b \<longleftrightarrow> 48 \<le> b \<and> b \<le> 57"

definition parse_u16 :: "bytes \<Rightarrow> u16 option" where
  "parse_u16 bs =
     (let digits = (case bs of b # rest \<Rightarrow> if b = of_char CHR ''+'' then rest else bs | [] \<Rightarrow> bs) in
      if digits = [] \<or> \<not> list_all is_decimal digits \<or> 65535 < decimal_value digits then None
      else Some (of_nat (decimal_value digits)))"

definition show_u16 :: "u16 \<Rightarrow> bytes" where
  "show_u16 v = show_decimal (ucast v)"

definition parse_u16_component :: "bytes \<Rightarrow> bytes \<Rightarrow> x11_error + u16" where
  "parse_u16_component value_text label =
     (if value_text = [] \<or> \<not> list_all is_decimal value_text
      then Inl (InvalidDisplay (label @ ascii '' must be a non-negative integer''))
      else ok_or (InvalidDisplay (label @ ascii '' is too large for X11 forwarding'')) (parse_u16 value_text))"

abbreviation colon :: byte where "colon \<equiv> of_char CHR '':''"

definition parse_display_and_screen :: "bytes \<Rightarrow> x11_error + u16 \<times> u16" where
  "parse_display_and_screen value_text =
     (case (case split_once dot value_text of Some p \<Rightarrow> p | None \<Rightarrow> (value_text, ascii ''0'')) of
        (display, screen) \<Rightarrow>
          rbind (parse_u16_component display (ascii ''display number'')) (\<lambda>d.
          rbind (parse_u16_component screen (ascii ''screen number'')) (\<lambda>s. Inr (d, s))))"

definition normalize_host :: "bytes \<Rightarrow> x11_error + bytes" where
  "normalize_host host =
     (let host = trim_text host in
      if host = [] then Inl (InvalidDisplay (ascii ''TCP display host must not be empty''))
      else if hd host = of_char CHR ''['' \<and> drop 1 host \<noteq> [] \<and> last host = of_char CHR '']''
      then Inr (butlast (drop 1 host))
      else Inr host)"

definition is_tcp_protocol :: "bytes \<Rightarrow> bool" where
  "is_tcp_protocol v \<longleftrightarrow> v \<in> set (map ascii [''tcp'', ''inet'', ''inet6''])"

definition parse_transport :: "bytes \<Rightarrow> x11_error + display_transport" where
  "parse_transport pre =
     (if pre = [] \<or> pre = ascii ''unix'' \<or> pre = ascii ''unix/'' \<or> suffix (ascii ''/unix'') pre then Inr Unix
      else if prefix [slash] pre then Inr (UnixSocket pre)
      else
        (case split_once slash pre of
           Some (left, right) \<Rightarrow>
             (if left = ascii ''unix'' \<and> right = [] then Inr Unix
              else if is_tcp_protocol left then rbind (normalize_host right) (\<lambda>h. Inr (Tcp h))
              else if is_tcp_protocol right then rbind (normalize_host left) (\<lambda>h. Inr (Tcp h))
              else if right = ascii ''unix'' then Inr Unix
              else rbind (normalize_host pre) (\<lambda>h. Inr (Tcp h)))
         | None \<Rightarrow> rbind (normalize_host pre) (\<lambda>h. Inr (Tcp h))))"

definition display_parse :: "bytes \<Rightarrow> x11_error + x11_display" where
  "display_parse input =
     (let value_text = trim_text input in
      if value_text = [] then Inl EmptyDisplay
      else
        (case rsplit_once colon value_text of
           None \<Rightarrow> Inl (InvalidDisplay (ascii ''missing display separator '' @ [39, colon, 39]))
         | Some (pre, suf) \<Rightarrow>
             rbind (parse_display_and_screen suf) (\<lambda>(display, screen).
             rbind (parse_transport pre) (\<lambda>transport.
               Inr \<lparr>xd_transport = transport, xd_display = display, xd_screen = screen\<rparr>))))"

definition tcp_port :: "x11_display \<Rightarrow> x11_error + u16" where
  "tcp_port d = ok_or (DisplayPortOutOfRange (xd_display d)) (checked_add 6000 (xd_display d))"

definition unix_socket_for_display :: "u16 \<Rightarrow> local_endpoint" where
  "unix_socket_for_display display = EndpointUnixSocket (ascii ''/tmp/.X11-unix/X'' @ show_u16 display)"

definition local_endpoint_of :: "x11_display \<Rightarrow> x11_error + local_endpoint" where
  "local_endpoint_of d =
     (case xd_transport d of
        Unix \<Rightarrow> Inr (unix_socket_for_display (xd_display d))
      | UnixSocket path \<Rightarrow> Inr (EndpointUnixSocket (path @ [colon] @ show_u16 (xd_display d)))
      | Tcp host \<Rightarrow> rbind (tcp_port d) (\<lambda>port. Inr (EndpointTcp host port)))"

definition is_local_name :: "bytes \<Rightarrow> bool" where
  "is_local_name host \<longleftrightarrow> host \<in> set (map ascii [''localhost'', ''127.0.0.1'', ''::1''])"

definition is_loopback_tcp :: "local_endpoint \<Rightarrow> bool" where
  "is_loopback_tcp e = (case e of EndpointTcp host _ \<Rightarrow> is_local_name host | EndpointUnixSocket _ \<Rightarrow> False)"

definition remote_display_value :: "u16 \<Rightarrow> x11_display \<Rightarrow> bytes" where
  "remote_display_value remote_display d = ascii ''localhost:'' @ show_u16 remote_display @ [dot] @ show_u16 (xd_screen d)"

definition xauth_query_display :: "x11_display \<Rightarrow> bytes" where
  "xauth_query_display d =
     (case xd_transport d of
        Unix \<Rightarrow> [colon] @ show_u16 (xd_display d)
      | UnixSocket path \<Rightarrow> path @ [colon] @ show_u16 (xd_display d)
      | Tcp host \<Rightarrow> host @ [colon] @ show_u16 (xd_display d))"

section \<open>Internet addresses\<close>

text \<open>\<open>str::parse::<IpAddr>\<close>. Every reader returns what it read and the rest, or \<open>None\<close> and reads nothing.\<close>

datatype ip_addr = V4 bytes | V6 bytes

definition hex_digit_value :: "byte \<Rightarrow> nat option" where
  "hex_digit_value b =
     (if is_decimal b then Some (unat (b - 48))
      else if 97 \<le> b \<and> b \<le> 102 then Some (unat (b - 87))
      else if 65 \<le> b \<and> b \<le> 70 then Some (unat (b - 55))
      else None)"

definition digit_in :: "nat \<Rightarrow> byte \<Rightarrow> bool" where
  "digit_in radix b = (case hex_digit_value b of Some d \<Rightarrow> d < radix | None \<Rightarrow> False)"

definition read_number :: "nat \<Rightarrow> nat \<Rightarrow> nat \<Rightarrow> bool \<Rightarrow> bytes \<Rightarrow> (nat \<times> bytes) option" where
  "read_number radix max_digits limit allow_zero_prefix bs =
     (let digits = takeWhile (digit_in radix) bs;
          v = foldl (\<lambda>n b. radix * n + the (hex_digit_value b)) 0 digits in
      if digits = [] \<or> max_digits < length digits \<or>
         \<not> allow_zero_prefix \<and> hd digits = 48 \<and> 1 < length digits \<or> limit < v then None
      else Some (v, drop (length digits) bs))"

definition read_separator :: "byte \<Rightarrow> nat \<Rightarrow> (bytes \<Rightarrow> ('a \<times> bytes) option) \<Rightarrow> bytes \<Rightarrow> ('a \<times> bytes) option" where
  "read_separator sep i inner bs =
     (if i = 0 then inner bs else case bs of b # rest \<Rightarrow> if b = sep then inner rest else None | [] \<Rightarrow> None)"

fun read_octets :: "nat \<Rightarrow> nat \<Rightarrow> bytes \<Rightarrow> (bytes \<times> bytes) option" where
  "read_octets i 0 bs = Some ([], bs)"
| "read_octets i (Suc n) bs =
     (case read_separator dot i (read_number 10 3 255 False) bs of
        None \<Rightarrow> None
      | Some (v, rest) \<Rightarrow>
          (case read_octets (Suc i) n rest of None \<Rightarrow> None | Some (vs, rest) \<Rightarrow> Some (of_nat v # vs, rest)))"

definition read_ipv4_addr :: "bytes \<Rightarrow> (bytes \<times> bytes) option" where
  "read_ipv4_addr bs = read_octets 0 4 bs"

text \<open>The groups from the \<open>i\<close>th on, at most \<open>n\<close> more; the flag tells that an IPv4 address ended them.\<close>

fun read_groups :: "nat \<Rightarrow> nat \<Rightarrow> bytes \<Rightarrow> bytes \<times> bool \<times> bytes" where
  "read_groups i 0 bs = ([], False, bs)"
| "read_groups i (Suc n) bs =
     (case (if 0 < n then read_separator colon i read_ipv4_addr bs else None) of
        Some (octets, rest) \<Rightarrow> (octets, True, rest)
      | None \<Rightarrow>
          (case read_separator colon i (read_number 16 4 65535 True) bs of
             None \<Rightarrow> ([], False, bs)
           | Some (v, rest) \<Rightarrow>
               (case read_groups (Suc i) n rest of
                  (octets, v4, rest) \<Rightarrow> (be_bytes 2 (of_nat v :: u16) @ octets, v4, rest))))"

definition read_ipv6_addr :: "bytes \<Rightarrow> (bytes \<times> bytes) option" where
  "read_ipv6_addr bs =
     (case read_groups 0 8 bs of
        (head, head_ipv4, rest) \<Rightarrow>
          (if length head = 16 then Some (head, rest)
           else if head_ipv4 then None
           else if \<not> prefix [colon, colon] rest then None
           else
             (case read_groups 0 (8 - (length head div 2 + 1)) (drop 2 rest) of
                (tail, _, rest) \<Rightarrow> Some (head @ replicate (16 - length head - length tail) 0 @ tail, rest))))"

definition parse_ip_addr :: "bytes \<Rightarrow> ip_addr option" where
  "parse_ip_addr bs =
     (case (case read_ipv4_addr bs of
              Some (octets, rest) \<Rightarrow> Some (V4 octets, rest)
            | None \<Rightarrow> map_option (\<lambda>(octets, rest). (V6 octets, rest)) (read_ipv6_addr bs)) of
        Some (addr, []) \<Rightarrow> Some addr
      | _ \<Rightarrow> None)"

definition is_loopback :: "ip_addr \<Rightarrow> bool" where
  "is_loopback addr = (case addr of V4 octets \<Rightarrow> hd octets = 127 | V6 octets \<Rightarrow> octets = replicate 15 0 @ [1])"
section \<open>The binary authority file\<close>

datatype authority_family =
    Internet
  | Decnet
  | Internet6
  | Local
  | Wild
  | Other u16

definition FAMILY_INTERNET :: u16 where "FAMILY_INTERNET = 0"
definition FAMILY_DECNET :: u16 where "FAMILY_DECNET = 1"
definition FAMILY_INTERNET6 :: u16 where "FAMILY_INTERNET6 = 6"
definition FAMILY_LOCAL :: u16 where "FAMILY_LOCAL = 256"
definition FAMILY_WILD :: u16 where "FAMILY_WILD = 65535"

definition family_from_code :: "u16 \<Rightarrow> authority_family" where
  "family_from_code c =
     (if c = FAMILY_INTERNET then Internet else if c = FAMILY_DECNET then Decnet else if c = FAMILY_INTERNET6 then Internet6
      else if c = FAMILY_LOCAL then Local else if c = FAMILY_WILD then Wild else Other c)"

definition family_code :: "authority_family \<Rightarrow> u16" where
  "family_code f =
     (case f of Internet \<Rightarrow> FAMILY_INTERNET | Decnet \<Rightarrow> FAMILY_DECNET | Internet6 \<Rightarrow> FAMILY_INTERNET6
      | Local \<Rightarrow> FAMILY_LOCAL | Wild \<Rightarrow> FAMILY_WILD | Other c \<Rightarrow> c)"

record authority_entry =
  ae_family :: authority_family
  ae_address :: bytes
  ae_display_number :: bytes
  ae_protocol :: auth_protocol
  ae_cookie :: x11_cookie

record authority_context =
  ac_local_hostname :: "bytes option"
  ac_resolved_addresses :: "ip_addr list"

text \<open>The readers return what they read and the new cursor.\<close>

definition get_range :: "nat \<Rightarrow> nat \<Rightarrow> bytes \<Rightarrow> bytes option" where
  "get_range start stop bs = (if stop \<le> length bs then Some (slice start stop bs) else None)"

definition authority_read_u16 :: "bytes \<Rightarrow> nat \<Rightarrow> x11_error + u16 \<times> nat" where
  "authority_read_u16 bs cursor =
     rbind (ok_or (InvalidXauthRecord (ascii ''xauthority cursor overflow'')) (usize_checked_add cursor 2)) (\<lambda>stop.
     rbind (ok_or (InvalidXauthRecord (ascii ''truncated xauthority record'')) (get_range cursor stop bs)) (\<lambda>chunk.
       Inr (of_be_bytes chunk, stop)))"

definition read_field :: "bytes \<Rightarrow> nat \<Rightarrow> x11_error + bytes \<times> nat" where
  "read_field bs cursor =
     rbind (authority_read_u16 bs cursor) (\<lambda>(len, cursor).
     rbind (ok_or (InvalidXauthRecord (ascii ''xauthority field length overflow'')) (usize_checked_add cursor (unat len))) (\<lambda>stop.
     rbind (ok_or (InvalidXauthRecord (ascii ''truncated xauthority field'')) (get_range cursor stop bs)) (\<lambda>v.
       Inr (v, stop))))"

definition read_text_field :: "bytes \<Rightarrow> nat \<Rightarrow> x11_error + bytes \<times> nat" where
  "read_text_field bs cursor = rbind (read_field bs cursor) (\<lambda>(field, cursor). Inr (from_utf8_lossy field, cursor))"

text \<open>One round of the loop: the entry, or \<open>None\<close> for a protocol that is skipped, and the cursor behind the record.\<close>

definition entry_of ::
    "u16 \<Rightarrow> bytes \<Rightarrow> bytes \<Rightarrow> bytes \<Rightarrow> bytes \<Rightarrow> x11_error + authority_entry option" where
  "entry_of code address display_number protocol_name cookie =
     (case auth_protocol_parse protocol_name of
        Inl (UnsupportedAuthProtocol _) \<Rightarrow> Inr None
      | Inl e \<Rightarrow> Inl e
      | Inr protocol \<Rightarrow>
          rbind (cookie_from_bytes cookie) (\<lambda>cookie.
            Inr (Some \<lparr>ae_family = family_from_code code, ae_address = address, ae_display_number = display_number,
                       ae_protocol = protocol, ae_cookie = cookie\<rparr>)))"

definition read_record :: "bytes \<Rightarrow> nat \<Rightarrow> x11_error + authority_entry option \<times> nat" where
  "read_record bs cursor =
     rbind (authority_read_u16 bs cursor) (\<lambda>(code, cursor).
     rbind (read_field bs cursor) (\<lambda>(address, cursor).
     rbind (read_text_field bs cursor) (\<lambda>(display_number, cursor).
     rbind (read_text_field bs cursor) (\<lambda>(protocol_name, cursor).
     rbind (read_field bs cursor) (\<lambda>(cookie, cursor).
     rbind (entry_of code address display_number protocol_name cookie) (\<lambda>entry. Inr (entry, cursor)))))))"

lemma read_u16_advances: "authority_read_u16 bs cursor = Inr (v, cursor') \<Longrightarrow> cursor < cursor'"
  by (auto simp: authority_read_u16_def)

lemma read_field_advances: "read_field bs cursor = Inr (v, cursor') \<Longrightarrow> cursor < cursor'"
  by (auto simp: read_field_def dest!: read_u16_advances)

lemma read_text_advances: "read_text_field bs cursor = Inr (v, cursor') \<Longrightarrow> cursor < cursor'"
  by (auto simp: read_text_field_def dest!: read_field_advances)

lemma read_record_advances: "read_record bs cursor = Inr (v, cursor') \<Longrightarrow> cursor < cursor'"
  by (auto simp: read_record_def dest!: read_u16_advances read_field_advances read_text_advances)

function authority_loop :: "bytes \<Rightarrow> nat \<Rightarrow> authority_entry list \<Rightarrow> x11_error + authority_entry list" where
  "authority_loop bs cursor entries =
     (if length bs \<le> cursor then Inr entries
      else
        (case read_record bs cursor of
           Inl e \<Rightarrow> Inl e
         | Inr (None, cursor) \<Rightarrow> authority_loop bs cursor entries
         | Inr (Some entry, cursor) \<Rightarrow> authority_loop bs cursor (entries @ [entry])))"
  by auto
termination
  by (relation "measure (\<lambda>(bs, cursor, _). length bs - cursor)") (auto dest: read_record_advances intro: diff_less_mono2)

declare authority_loop.simps [simp del]

definition parse_xauthority_file :: "bytes \<Rightarrow> x11_error + authority_entry list" where
  "parse_xauthority_file bs = authority_loop bs 0 []"

section \<open>The choice of an entry\<close>

definition display_looks_local :: "x11_display \<Rightarrow> bool" where
  "display_looks_local d = (case xd_transport d of Tcp host \<Rightarrow> is_local_name host | _ \<Rightarrow> True)"

definition local_family_score :: "bytes \<Rightarrow> x11_display \<Rightarrow> authority_context \<Rightarrow> nat option" where
  "local_family_score address d context_of =
     (if \<not> display_looks_local d then None
      else if address = [] \<or> address = ascii ''localhost'' \<or> ac_local_hostname context_of = Some address then Some 4
      else Some 2)"

definition internet_family_score :: "bytes \<Rightarrow> x11_display \<Rightarrow> authority_context \<Rightarrow> bool \<Rightarrow> nat option" where
  "internet_family_score address d context_of v6 =
     (case (if \<not> v6 \<and> length address = 4 then Some (V4 address)
            else if v6 \<and> length address = 16 then Some (V6 address) else None) of
        None \<Rightarrow> None
      | Some expected \<Rightarrow>
          (let host_ip = (case xd_transport d of Tcp host \<Rightarrow> parse_ip_addr host | _ \<Rightarrow> None) in
           if host_ip = Some expected \<or> expected \<in> set (ac_resolved_addresses context_of) then Some 5
           else if display_looks_local d \<and> is_loopback expected then Some 3
           else None))"

definition authority_match_score :: "x11_display \<Rightarrow> authority_context \<Rightarrow> authority_entry \<Rightarrow> nat option" where
  "authority_match_score d context_of e =
     (if ae_display_number e \<noteq> show_u16 (xd_display d) then None
      else
        (case ae_family e of
           Wild \<Rightarrow> Some 1
         | Local \<Rightarrow> local_family_score (ae_address e) d context_of
         | Internet \<Rightarrow> internet_family_score (ae_address e) d context_of False
         | Internet6 \<Rightarrow> internet_family_score (ae_address e) d context_of True
         | Decnet \<Rightarrow> None
         | Other _ \<Rightarrow> None))"

text \<open>\<open>Iterator::max_by_key\<close> over the entries that have a score: the last of the best ones.\<close>

definition better :: "('a \<Rightarrow> nat option) \<Rightarrow> (nat \<times> 'a) option \<Rightarrow> 'a \<Rightarrow> (nat \<times> 'a) option" where
  "better score best x =
     (case score x of
        None \<Rightarrow> best
      | Some n \<Rightarrow> (case best of None \<Rightarrow> Some (n, x) | Some (m, _) \<Rightarrow> if m \<le> n then Some (n, x) else best))"

definition max_by_score :: "('a \<Rightarrow> nat option) \<Rightarrow> 'a list \<Rightarrow> 'a option" where
  "max_by_score score xs = map_option snd (foldl (better score) None xs)"

definition select_xauthority_entry :: "authority_entry list \<Rightarrow> x11_display \<Rightarrow> authority_context \<Rightarrow> authority_entry option" where
  "select_xauthority_entry entries d context_of = max_by_score (authority_match_score d context_of) entries"
section \<open>The output of xauth\<close>

record xauth_command =
  xc_program :: bytes
  xc_args :: "bytes list"

datatype authority_file = DefaultFile | FilePath bytes

definition xauth_list_command :: "x11_display \<Rightarrow> authority_file \<Rightarrow> xauth_command" where
  "xauth_list_command d authority =
     \<lparr>xc_program = ascii ''xauth'',
      xc_args = (case authority of FilePath path \<Rightarrow> [ascii ''-f'', path] | DefaultFile \<Rightarrow> []) @
                [ascii ''list'', xauth_query_display d]\<rparr>"

definition xauth_nlist_command :: "x11_display \<Rightarrow> authority_file \<Rightarrow> xauth_command" where
  "xauth_nlist_command d authority =
     (let command = xauth_list_command d authority in
      command\<lparr>xc_args := (xc_args command)[length (xc_args command) - 2 := ascii ''nlist'']\<rparr>)"

record xauth_entry =
  xe_display_name :: bytes
  xe_protocol :: auth_protocol
  xe_cookie :: x11_cookie

text \<open>What both line formats do with the name of the protocol and the text of the cookie.\<close>

definition xauth_entry_of :: "bytes \<Rightarrow> bytes \<Rightarrow> bytes \<Rightarrow> x11_error + xauth_entry option" where
  "xauth_entry_of display_name protocol_name cookie =
     (case auth_protocol_parse protocol_name of
        Inl (UnsupportedAuthProtocol _) \<Rightarrow> Inr None
      | Inl e \<Rightarrow> Inl e
      | Inr protocol \<Rightarrow>
          rbind (cookie_from_hex cookie) (\<lambda>cookie.
            Inr (Some \<lparr>xe_display_name = display_name, xe_protocol = protocol, xe_cookie = cookie\<rparr>)))"

definition parse_list_line :: "bytes \<Rightarrow> x11_error + xauth_entry option" where
  "parse_list_line line =
     (let trimmed = trim_text line in
      if trimmed = [] \<or> prefix [of_char CHR ''#''] trimmed then Inr None
      else
        (case split_words trimmed of
           [] \<Rightarrow> Inl (InvalidXauthRecord (ascii ''missing display''))
         | [_] \<Rightarrow> Inl (InvalidXauthRecord (ascii ''missing protocol''))
         | [_, _] \<Rightarrow> Inl (InvalidXauthRecord (ascii ''missing cookie''))
         | [display_name, protocol, cookie] \<Rightarrow> xauth_entry_of display_name protocol cookie
         | _ \<Rightarrow> Inl (InvalidXauthRecord (ascii ''too many fields in xauth record''))))"

text \<open>\<open>usize::from_str_radix\<close> to the base sixteen; the product with two wraps.\<close>

definition parse_hex_usize :: "bytes \<Rightarrow> nat option" where
  "parse_hex_usize bs =
     (let digits = (case bs of b # rest \<Rightarrow> if b = of_char CHR ''+'' then rest else bs | [] \<Rightarrow> bs);
          v = foldl (\<lambda>n b. 16 * n + the (hex_digit_value b)) 0 digits in
      if digits = [] \<or> \<not> list_all (digit_in 16) digits \<or> usize_max < v then None else Some v)"

definition checked_nlist_hex_field :: "bytes \<Rightarrow> bytes \<Rightarrow> bytes \<Rightarrow> x11_error + bytes" where
  "checked_nlist_hex_field len_hex data_hex label =
     rbind (ok_or (InvalidXauthRecord (ascii ''invalid nlist length'')) (parse_hex_usize len_hex)) (\<lambda>len.
       if length data_hex \<noteq> (len * 2) mod (usize_max + 1) \<or> length data_hex mod 2 \<noteq> 0 then Inl (InvalidXauthRecord label)
       else Inr data_hex)"

definition nlist_hex_nibble :: "byte \<Rightarrow> x11_error + byte" where
  "nlist_hex_nibble b =
     (if 48 \<le> b \<and> b \<le> 57 then Inr (b - 48)
      else if 97 \<le> b \<and> b \<le> 102 then Inr (b - 97 + 10)
      else if 65 \<le> b \<and> b \<le> 70 then Inr (b - 65 + 10)
      else Inl (InvalidXauthRecord (ascii ''non-hex nlist data'')))"

text \<open>A byte that is pushed as a character takes two bytes from 128 on.\<close>

definition byte_as_char :: "byte \<Rightarrow> bytes" where
  "byte_as_char b = (if b < 0x80 then [b] else [0xC0 OR drop_bit 6 b, 0x80 OR (b AND 0x3F)])"

fun decode_nlist_pairs :: "bytes \<Rightarrow> x11_error + bytes" where
  "decode_nlist_pairs (h # l # rest) =
     rbind (nlist_hex_nibble h) (\<lambda>high.
     rbind (nlist_hex_nibble l) (\<lambda>low.
     rbind (decode_nlist_pairs rest) (\<lambda>text. Inr (byte_as_char (push_bit 4 high OR low) @ text))))"
| "decode_nlist_pairs _ = Inr []"

definition decode_nlist_field :: "bytes \<Rightarrow> bytes \<Rightarrow> bytes \<Rightarrow> x11_error + bytes" where
  "decode_nlist_field len_hex data_hex label =
     rbind (checked_nlist_hex_field len_hex data_hex label) decode_nlist_pairs"

definition parse_nlist_line :: "bytes \<Rightarrow> x11_error + xauth_entry option" where
  "parse_nlist_line line =
     (let trimmed = trim_text line in
      if trimmed = [] \<or> prefix [of_char CHR ''#''] trimmed then Inr None
      else
        (let parts = split_words trimmed in
         if length parts < 9 then Inl (InvalidXauthRecord (ascii ''nlist record has too few fields''))
         else
           rbind (decode_nlist_field (parts ! 1) (parts ! 2) (ascii ''address'')) (\<lambda>address.
           rbind (decode_nlist_field (parts ! 3) (parts ! 4) (ascii ''display number'')) (\<lambda>number.
           rbind (decode_nlist_field (parts ! 5) (parts ! 6) (ascii ''protocol'')) (\<lambda>protocol.
           rbind (checked_nlist_hex_field (parts ! 7) (parts ! 8) (ascii ''cookie'')) (\<lambda>cookie_hex.
             xauth_entry_of (if address = [] then [colon] @ number else address @ [colon] @ number) protocol cookie_hex))))))"

fun collect_entries :: "(bytes \<Rightarrow> x11_error + xauth_entry option) \<Rightarrow> bytes list \<Rightarrow> x11_error + xauth_entry list" where
  "collect_entries parse [] = Inr []"
| "collect_entries parse (line # rest) =
     (case parse line of
        Inl e \<Rightarrow> Inl e
      | Inr None \<Rightarrow> collect_entries parse rest
      | Inr (Some entry) \<Rightarrow> rbind (collect_entries parse rest) (\<lambda>entries. Inr (entry # entries)))"

definition parse_xauth_list :: "bytes \<Rightarrow> x11_error + xauth_entry list" where
  "parse_xauth_list output = collect_entries parse_list_line (text_lines output)"

definition parse_xauth_nlist :: "bytes \<Rightarrow> x11_error + xauth_entry list" where
  "parse_xauth_nlist output = collect_entries parse_nlist_line (text_lines output)"

definition parse_xauth_display_suffix :: "bytes \<Rightarrow> (u16 \<times> u16 option) option" where
  "parse_xauth_display_suffix name =
     (case rsplit_once colon name of
        None \<Rightarrow> None
      | Some (_, suf) \<Rightarrow>
          (case (case split_once dot suf of Some (d, s) \<Rightarrow> (d, Some s) | None \<Rightarrow> (suf, None)) of
             (display, screen) \<Rightarrow>
               map_option (\<lambda>d. (d, Option.bind screen parse_u16)) (parse_u16 display)))"

definition xauth_match_score :: "x11_display \<Rightarrow> xauth_entry \<Rightarrow> nat option" where
  "xauth_match_score d e =
     (case parse_xauth_display_suffix (xe_display_name e) of
        None \<Rightarrow> None
      | Some (entry_display, entry_screen) \<Rightarrow>
          (if entry_display \<noteq> xd_display d then None
           else
             (case entry_screen of
                Some screen \<Rightarrow> if screen = xd_screen d then Some 3 else None
              | None \<Rightarrow> Some 2)))"

definition select_xauth_entry :: "xauth_entry list \<Rightarrow> x11_display \<Rightarrow> xauth_entry option" where
  "select_xauth_entry entries d = max_by_score (xauth_match_score d) entries"

section \<open>The remote side\<close>

fun quote_chars :: "bytes \<Rightarrow> bytes" where
  "quote_chars [] = []"
| "quote_chars (b # bs) = (if b = 39 then [39, backslash, 39, 39] else [b]) @ quote_chars bs"

definition shell_quote :: "bytes \<Rightarrow> bytes" where
  "shell_quote v = [39] @ quote_chars v @ [39]"

record remote_xauth_update =
  ru_display_value :: bytes
  ru_auth :: auth_material

definition remote_xauth_prelude :: "bytes" where
  "remote_xauth_prelude =
     ascii ''set -eu; command -v xauth >/dev/null 2>&1; authfile=${XAUTHORITY:-$HOME/.Xauthority}; ''"

definition remote_xauth_call :: "bytes" where
  "remote_xauth_call = ascii ''xauth -f \"$authfile\" ''"

definition remote_xauth_command :: "remote_xauth_update \<Rightarrow> bytes" where
  "remote_xauth_command u =
     (let display = shell_quote (ru_display_value u);
          protocol = shell_quote (ssh_name (am_protocol (ru_auth u)));
          cookie = shell_quote (cookie_to_hex (am_fake_cookie (ru_auth u))) in
      remote_xauth_prelude @
      remote_xauth_call @ ascii ''remove '' @ display @ ascii '' >/dev/null 2>&1 || true; '' @
      remote_xauth_call @ ascii ''add '' @ display @ [0x20] @ protocol @ [0x20] @ cookie)"

record display_allocator =
  da_bind_host :: bytes
  da_start_display :: u16
  da_max_displays :: u16
  da_screen :: u16

definition allocator_localhost :: display_allocator where
  "allocator_localhost = \<lparr>da_bind_host = ascii ''localhost'', da_start_display = 10, da_max_displays = 64, da_screen = 0\<rparr>"

definition u16_saturating_add :: "u16 \<Rightarrow> u16 \<Rightarrow> u16" where
  "u16_saturating_add a b = (case checked_add a b of Some c \<Rightarrow> c | None \<Rightarrow> 65535)"

definition allocator_candidates :: "display_allocator \<Rightarrow> u16 \<Rightarrow> bool" where
  "allocator_candidates a d \<longleftrightarrow> da_start_display a \<le> d \<and> d < u16_saturating_add (da_start_display a) (da_max_displays a)"

definition allocator_display_value :: "display_allocator \<Rightarrow> u16 \<Rightarrow> bytes" where
  "allocator_display_value a display = da_bind_host a @ [colon] @ show_u16 display @ [dot] @ show_u16 (da_screen a)"

definition parse_probe_output :: "display_allocator \<Rightarrow> bytes \<Rightarrow> x11_error + u16" where
  "parse_probe_output a output =
     rbind (ok_or RemoteDisplayUnavailable (List.find (\<lambda>line. line \<noteq> []) (map trim_text (text_lines output)))) (\<lambda>v.
     rbind (ok_or (InvalidDisplay (ascii ''remote display probe'')) (parse_u16 v)) (\<lambda>display.
       if allocator_candidates a display then Inr display else Inl RemoteDisplayUnavailable))"
section \<open>The file format\<close>

text \<open>A record as it stands in the file, and its bytes.\<close>

record raw_record =
  rr_code :: u16
  rr_address :: bytes
  rr_number :: bytes
  rr_name :: bytes
  rr_cookie :: bytes

definition encode_field :: "bytes \<Rightarrow> bytes" where
  "encode_field v = be_bytes 2 (of_nat (length v) :: u16) @ v"

definition encode_raw :: "raw_record \<Rightarrow> bytes" where
  "encode_raw r =
     be_bytes 2 (rr_code r) @ encode_field (rr_address r) @ encode_field (rr_number r) @ encode_field (rr_name r) @
     encode_field (rr_cookie r)"

definition raw_ok :: "raw_record \<Rightarrow> bool" where
  "raw_ok r \<longleftrightarrow> list_all (\<lambda>v. length v < 65536) [rr_address r, rr_number r, rr_name r, rr_cookie r]"

definition raw_entry :: "raw_record \<Rightarrow> x11_error + authority_entry option" where
  "raw_entry r = entry_of (rr_code r) (rr_address r) (from_utf8_lossy (rr_number r)) (from_utf8_lossy (rr_name r)) (rr_cookie r)"

lemma length_encode_field [simp]: "length (encode_field v) = 2 + length v"
  by (simp add: encode_field_def)

lemma encode_raw_ne: "encode_raw r \<noteq> []"
  by (simp add: encode_raw_def encode_field_def) (metis length_be_bytes list.size(3) zero_neq_numeral)

text \<open>What the readers accept, at a cursor behind the bytes \<open>pre\<close>.\<close>

lemma read_u16_at:
  assumes "length (pre @ rest) \<le> usize_max"
  shows "authority_read_u16 (pre @ rest) (length pre) = Inr (v, c) \<longleftrightarrow>
    (\<exists>rest'. rest = be_bytes 2 v @ rest' \<and> c = length pre + 2)"
proof (cases "2 \<le> length rest")
  case True
  then obtain a b rest' where rest: "rest = [a, b] @ rest'" by (auto simp: numeral_2_eq_2 Suc_le_length_iff)
  define w :: u16 where "w = of_be_bytes [a, b]"
  have word: "be_bytes 2 w = [a, b]"
    unfolding w_def using be_bytes_of_be [of "[a, b]", where 'a = 16] by (simp add: numeral_2_eq_2)
  have "authority_read_u16 (pre @ rest) (length pre) = Inr (w, length pre + 2)"
    using assms by (simp add: authority_read_u16_def get_range_def slice_def rest w_def)
  moreover have "(\<exists>rest'. rest = be_bytes 2 v @ rest') \<longleftrightarrow> v = w"
    unfolding rest word [symmetric] by (auto simp: append_eq_append_conv be_bytes_inj)
  ultimately show ?thesis by auto
next
  case False
  moreover have "length (be_bytes 2 v) = 2" by simp
  ultimately show ?thesis using assms
    by (auto simp: authority_read_u16_def get_range_def)
qed

lemma read_field_at:
  assumes "length (pre @ rest) \<le> usize_max"
  shows "read_field (pre @ rest) (length pre) = Inr (v, c) \<longleftrightarrow>
    (\<exists>rest'. rest = encode_field v @ rest' \<and> length v < 65536 \<and> c = length (pre @ encode_field v))"
proof
  assume read: "read_field (pre @ rest) (length pre) = Inr (v, c)"
  then obtain len c1 where one: "authority_read_u16 (pre @ rest) (length pre) = Inr (len, c1)"
    and range: "get_range c1 (c1 + unat len) (pre @ rest) = Some v" "c = c1 + unat len"
    by (auto simp: read_field_def)
  obtain rest1 where rest: "rest = be_bytes 2 len @ rest1" "c1 = length pre + 2"
    using one read_u16_at [OF assms] by blast
  have v: "v = take (unat len) rest1" "unat len \<le> length rest1"
    using range(1) by (auto simp: get_range_def slice_def rest split: if_splits)
  then have len: "length v = unat len" by simp
  then have field: "encode_field v = be_bytes 2 len @ v" by (simp add: encode_field_def)
  have "rest1 = v @ drop (unat len) rest1" unfolding v(1) by (rule append_take_drop_id [symmetric])
  then have "rest = encode_field v @ drop (unat len) rest1" unfolding rest(1) field by simp
  moreover have "length v < 65536" unfolding len using unsigned_less [of len] by simp
  moreover have "c = length (pre @ encode_field v)" using len rest(2) range(2) by simp
  ultimately show "\<exists>rest'. rest = encode_field v @ rest' \<and> length v < 65536 \<and> c = length (pre @ encode_field v)" by blast
next
  assume "\<exists>rest'. rest = encode_field v @ rest' \<and> length v < 65536 \<and> c = length (pre @ encode_field v)"
  then obtain rest' where rest: "rest = be_bytes 2 (of_nat (length v) :: u16) @ v @ rest'" "length v < 65536"
    "c = length pre + 2 + length v" by (auto simp: encode_field_def)
  have "authority_read_u16 (pre @ rest) (length pre) = Inr (of_nat (length v), length pre + 2)"
    unfolding read_u16_at [OF assms] using rest(1) by simp
  then show "read_field (pre @ rest) (length pre) = Inr (v, c)"
    using assms rest unat_length16 [OF rest(2)] by (simp add: read_field_def get_range_def slice_def)
qed

lemma read_record_at:
  assumes "length (pre @ rest) \<le> usize_max"
  shows "read_record (pre @ rest) (length pre) = Inr (found, c) \<longleftrightarrow>
    (\<exists>r rest'. rest = encode_raw r @ rest' \<and> raw_ok r \<and> c = length (pre @ encode_raw r) \<and> raw_entry r = Inr found)"
proof
  assume "read_record (pre @ rest) (length pre) = Inr (found, c)"
  then obtain code c1 address c2 number c3 name c4 cookie where
    steps: "authority_read_u16 (pre @ rest) (length pre) = Inr (code, c1)" "read_field (pre @ rest) c1 = Inr (address, c2)"
      "read_field (pre @ rest) c2 = Inr (number, c3)" "read_field (pre @ rest) c3 = Inr (name, c4)"
      "read_field (pre @ rest) c4 = Inr (cookie, c)"
    and entry: "entry_of code address (from_utf8_lossy number) (from_utf8_lossy name) cookie = Inr found"
    by (auto simp: read_record_def read_text_field_def)
  obtain r1 where r1: "rest = be_bytes 2 code @ r1" "c1 = length pre + 2" using steps(1) read_u16_at [OF assms] by blast
  have at: "length (p @ r) \<le> usize_max \<Longrightarrow> read_field (p @ r) (length p) = Inr (v, c') \<Longrightarrow>
      \<exists>r'. r = encode_field v @ r' \<and> length v < 65536 \<and> c' = length (p @ encode_field v)" for p r v c'
    using read_field_at by blast
  let ?p1 = "pre @ be_bytes 2 code" let ?p2 = "?p1 @ encode_field address" let ?p3 = "?p2 @ encode_field number"
  let ?p4 = "?p3 @ encode_field name"
  obtain r2 where r2: "r1 = encode_field address @ r2" "length address < 65536" "c2 = length ?p2"
    using at [of ?p1 r1 address c2] assms steps(2) r1 by auto
  obtain r3 where r3: "r2 = encode_field number @ r3" "length number < 65536" "c3 = length ?p3"
    using at [of ?p2 r2 number c3] assms steps(3) r1 r2 by auto
  obtain r4 where r4: "r3 = encode_field name @ r4" "length name < 65536" "c4 = length ?p4"
    using at [of ?p3 r3 name c4] assms steps(4) r1 r2 r3 by auto
  obtain r5 where r5: "r4 = encode_field cookie @ r5" "length cookie < 65536" "c = length (?p4 @ encode_field cookie)"
    using at [of ?p4 r4 cookie c] assms steps(5) r1 r2 r3 r4 by auto
  let ?r = "\<lparr>rr_code = code, rr_address = address, rr_number = number, rr_name = name, rr_cookie = cookie\<rparr>"
  have "rest = encode_raw ?r @ r5" by (simp add: encode_raw_def r1 r2 r3 r4 r5)
  moreover have "raw_ok ?r" using r2 r3 r4 r5 by (simp add: raw_ok_def)
  moreover have "c = length (pre @ encode_raw ?r)" by (simp add: encode_raw_def r5)
  moreover have "raw_entry ?r = Inr found" using entry by (simp add: raw_entry_def)
  ultimately show "\<exists>r rest'. rest = encode_raw r @ rest' \<and> raw_ok r \<and> c = length (pre @ encode_raw r) \<and> raw_entry r = Inr found"
    by blast
next
  assume "\<exists>r rest'. rest = encode_raw r @ rest' \<and> raw_ok r \<and> c = length (pre @ encode_raw r) \<and> raw_entry r = Inr found"
  then obtain r rest' where r: "rest = encode_raw r @ rest'" "raw_ok r" "c = length (pre @ encode_raw r)" "raw_entry r = Inr found"
    by blast
  have at: "length (p @ encode_field v @ r') \<le> usize_max \<Longrightarrow> length v < 65536 \<Longrightarrow>
      read_field (p @ encode_field v @ r') (length p) = Inr (v, length (p @ encode_field v))" for p r' v
    using read_field_at by blast
  let ?p1 = "pre @ be_bytes 2 (rr_code r)" let ?p2 = "?p1 @ encode_field (rr_address r)" let ?p3 = "?p2 @ encode_field (rr_number r)"
  let ?p4 = "?p3 @ encode_field (rr_name r)"
  let ?all = "pre @ rest"
  have code: "authority_read_u16 ?all (length pre) = Inr (rr_code r, length ?p1)"
    unfolding read_u16_at [OF assms] by (auto simp: r encode_raw_def)
  have ok: "length (rr_address r) < 65536" "length (rr_number r) < 65536" "length (rr_name r) < 65536" "length (rr_cookie r) < 65536"
    using r(2) by (simp_all add: raw_ok_def)
  have "read_field ?all (length ?p1) = Inr (rr_address r, length ?p2)"
    using at [of ?p1 "rr_address r"] ok(1) assms by (simp add: r encode_raw_def)
  moreover have "read_field ?all (length ?p2) = Inr (rr_number r, length ?p3)"
    using at [of ?p2 "rr_number r"] ok(2) assms by (simp add: r encode_raw_def)
  moreover have "read_field ?all (length ?p3) = Inr (rr_name r, length ?p4)"
    using at [of ?p3 "rr_name r"] ok(3) assms by (simp add: r encode_raw_def)
  moreover have "read_field ?all (length ?p4) = Inr (rr_cookie r, c)"
    using at [of ?p4 "rr_cookie r"] ok(4) assms by (simp add: r encode_raw_def)
  ultimately show "read_record ?all (length pre) = Inr (found, c)"
    using code r(4) by (simp add: read_record_def read_text_field_def raw_entry_def)
qed
definition holds_records :: "bytes \<Rightarrow> authority_entry option list \<Rightarrow> bool" where
  "holds_records bs found \<longleftrightarrow>
     (\<exists>raws. bs = concat (map encode_raw raws) \<and> list_all raw_ok raws \<and> map raw_entry raws = map Inr found)"

lemma holds_Nil: "holds_records [] found \<longleftrightarrow> found = []"
  by (auto simp: holds_records_def encode_raw_ne)

lemma holds_Cons:
  assumes "rest \<noteq> []"
  shows "holds_records rest found \<longleftrightarrow>
    (\<exists>r rest' f more_found. rest = encode_raw r @ rest' \<and> raw_ok r \<and> raw_entry r = Inr f \<and> holds_records rest' more_found \<and>
       found = f # more_found)"
proof
  assume "holds_records rest found"
  then obtain raws where raws: "rest = concat (map encode_raw raws)" "list_all raw_ok raws" "map raw_entry raws = map Inr found"
    by (auto simp: holds_records_def)
  then obtain r raws' where "raws = r # raws'" using assms by (cases raws) auto
  moreover from this obtain f found' where "found = f # found'" using raws(3) by (cases found) auto
  ultimately show "\<exists>r rest' f more_found. rest = encode_raw r @ rest' \<and> raw_ok r \<and> raw_entry r = Inr f \<and>
      holds_records rest' more_found \<and> found = f # more_found"
    using raws by (auto simp: holds_records_def)
next
  assume "\<exists>r rest' f more_found. rest = encode_raw r @ rest' \<and> raw_ok r \<and> raw_entry r = Inr f \<and>
      holds_records rest' more_found \<and> found = f # more_found"
  then obtain r rest' f more_found raws where "rest = encode_raw r @ rest'" "raw_ok r" "raw_entry r = Inr f"
    "found = f # more_found" "rest' = concat (map encode_raw raws)" "list_all raw_ok raws" "map raw_entry raws = map Inr more_found"
    by (auto simp: holds_records_def)
  then show "holds_records rest found"
    unfolding holds_records_def by (intro exI [of _ "r # raws"]) simp
qed

lemma authority_loop_at:
  assumes "length (pre @ rest) \<le> usize_max"
  shows "authority_loop (pre @ rest) (length pre) acc = Inr es \<longleftrightarrow>
    (\<exists>found. holds_records rest found \<and> es = acc @ filter_some found)"
  using assms
proof (induction "length rest" arbitrary: pre rest acc rule: less_induct)
  case less
  show ?case
  proof (cases "rest = []")
    case True
    then show ?thesis by (subst authority_loop.simps) (auto simp: holds_Nil)
  next
    case False
    show ?thesis
    proof (cases "read_record (pre @ rest) (length pre)")
      case (Inl e)
      then have "\<not> holds_records rest found" for found
        using read_record_at [OF less.prems] by (auto simp: holds_Cons [OF False])
      then show ?thesis using Inl False by (subst authority_loop.simps) simp
    next
      case (Inr result)
      obtain f c where "result = (f, c)" by fastforce
      then have run: "read_record (pre @ rest) (length pre) = Inr (f, c)" using Inr by simp
      obtain r rest' where r: "rest = encode_raw r @ rest'" "raw_ok r" "c = length (pre @ encode_raw r)" "raw_entry r = Inr f"
        using run read_record_at [OF less.prems] by blast
      have smaller: "length rest' < length rest" using encode_raw_ne [of r] by (cases "encode_raw r") (simp_all add: r(1))
      have fit: "length ((pre @ encode_raw r) @ rest') \<le> usize_max" using less.prems by (simp add: r(1))
      have only: "f' = f \<and> rest2 = rest'" if "rest = encode_raw r2 @ rest2" "raw_ok r2" "raw_entry r2 = Inr f'" for r2 rest2 f'
      proof -
        have "read_record (pre @ rest) (length pre) = Inr (f', length (pre @ encode_raw r2))"
          using that read_record_at [OF less.prems] by blast
        then have "f' = f" "length (encode_raw r2) = length (encode_raw r)" using run r(3) by simp_all
        then show ?thesis using that(1) r(1) by (metis append_eq_append_conv)
      qed
      have split: "holds_records rest found \<longleftrightarrow> (\<exists>found'. holds_records rest' found' \<and> found = f # found')" for found
        unfolding holds_Cons [OF False] using r only by blast
      have "authority_loop (pre @ rest) (length pre) acc =
          authority_loop ((pre @ encode_raw r) @ rest') (length (pre @ encode_raw r)) (case f of None \<Rightarrow> acc | Some e \<Rightarrow> acc @ [e])"
        using False run r(1,3) by (subst authority_loop.simps) (simp add: encode_raw_ne split: option.split)
      then have "authority_loop (pre @ rest) (length pre) acc = Inr es \<longleftrightarrow>
          (\<exists>found'. holds_records rest' found' \<and> es = (case f of None \<Rightarrow> acc | Some e \<Rightarrow> acc @ [e]) @ filter_some found')"
        using less.hyps [OF smaller fit] by (simp only:)
      then show ?thesis unfolding split by (cases f) auto
    qed
  qed
qed

text \<open>
  What a record stands for, told from its fields: the families of the format by their numbers, and the records of
  the protocol that is supported. The text fields are decoded and trimmed as the standard library does.
\<close>

definition record_family :: "u16 \<Rightarrow> authority_family" where
  "record_family code =
     (case map_of [(0, Internet), (1, Decnet), (6, Internet6), (256, Local), (65535, Wild)] code of
        Some f \<Rightarrow> f | None \<Rightarrow> Other code)"

definition mit_record :: "raw_record \<Rightarrow> bool" where
  "mit_record r \<longleftrightarrow> trim_text (from_utf8_lossy (rr_name r)) = ascii ''MIT-MAGIC-COOKIE-1''"

definition record_entry :: "raw_record \<Rightarrow> authority_entry" where
  "record_entry r =
     \<lparr>ae_family = record_family (rr_code r), ae_address = rr_address r, ae_display_number = from_utf8_lossy (rr_number r),
      ae_protocol = MitMagicCookie1, ae_cookie = \<lparr>ck_bytes = rr_cookie r\<rparr>\<rparr>"

lemma raw_entry_spec:
  "raw_entry r = Inr found \<longleftrightarrow>
     (mit_record r \<longrightarrow> rr_cookie r \<noteq> []) \<and> found = (if mit_record r then Some (record_entry r) else None)"
proof -
  have "family_from_code c = record_family c" for c
    by (simp add: family_from_code_def record_family_def FAMILY_INTERNET_def FAMILY_DECNET_def FAMILY_INTERNET6_def
        FAMILY_LOCAL_def FAMILY_WILD_def)
  then show ?thesis
    by (auto simp: raw_entry_def entry_of_def mit_record_def record_entry_def auth_protocol_parse_def cookie_from_bytes_def Let_def)
qed

lemma holds_records_spec:
  "(\<exists>found. holds_records bs found \<and> es = filter_some found) \<longleftrightarrow>
   (\<exists>raws. bs = concat (map encode_raw raws) \<and> list_all raw_ok raws \<and>
      (\<forall>r \<in> set raws. mit_record r \<longrightarrow> rr_cookie r \<noteq> []) \<and> es = map record_entry (filter mit_record raws))"
proof -
  let ?found = "map (\<lambda>r. if mit_record r then Some (record_entry r) else None)"
  have "map raw_entry raws = map Inr found \<longleftrightarrow>
      (\<forall>r \<in> set raws. mit_record r \<longrightarrow> rr_cookie r \<noteq> []) \<and> found = ?found raws" for raws found
  proof (induction raws arbitrary: found)
    case (Cons r raws)
    then show ?case by (cases found) (auto simp: raw_entry_spec)
  qed auto
  moreover have "filter_some (?found raws) = map record_entry (filter mit_record raws)" for raws
    by (induction raws) auto
  ultimately show ?thesis unfolding holds_records_def by auto
qed

text \<open>
  Property C26: the reader of the authority file accepts exactly the file format. It succeeds on a file if and only if the file is
  a sequence of records, each a family, an address, a display, a protocol and a cookie with their lengths, in which no record of the
  protocol MIT-MAGIC-COOKIE-1 has an empty cookie; the result is one entry for each of the records of this protocol, in their order,
  with the family of its number, its address, its display and its cookie, and the records of other protocols are left out.
\<close>
theorem authority_file_exact:
  assumes "length bs \<le> usize_max"
  shows "parse_xauthority_file bs = Inr es \<longleftrightarrow>
    (\<exists>raws. bs = concat (map encode_raw raws) \<and> list_all raw_ok raws \<and>
       (\<forall>r \<in> set raws. mit_record r \<longrightarrow> rr_cookie r \<noteq> []) \<and> es = map record_entry (filter mit_record raws))"
  using authority_loop_at [of "[]" bs "[]" es] assms by (simp add: parse_xauthority_file_def holds_records_spec)

definition sample_raw :: "bytes \<Rightarrow> raw_record" where
  "sample_raw name = \<lparr>rr_code = 256, rr_address = ascii ''host'', rr_number = ascii ''0'', rr_name = name, rr_cookie = [0xAA]\<rparr>"

lemma sample_raw_mit: "mit_record (sample_raw (ascii ''MIT-MAGIC-COOKIE-1''))" "\<not> mit_record (sample_raw (ascii ''XDM''))"
proof -
  have "from_utf8_lossy (ascii ''XDM'') = ascii ''XDM''"
    "from_utf8_lossy (ascii ''MIT-MAGIC-COOKIE-1'') = ascii ''MIT-MAGIC-COOKIE-1''"
    by (rule lossy_ascii, code_simp)+
  moreover have "trim_text (ascii ''XDM'') = ascii ''XDM''"
    "trim_text (ascii ''MIT-MAGIC-COOKIE-1'') = ascii ''MIT-MAGIC-COOKIE-1''" by code_simp+
  moreover have "ascii ''XDM'' \<noteq> ascii ''MIT-MAGIC-COOKIE-1''" by code_simp
  ultimately show "mit_record (sample_raw (ascii ''MIT-MAGIC-COOKIE-1''))" "\<not> mit_record (sample_raw (ascii ''XDM''))"
    by (simp_all add: mit_record_def sample_raw_def)
qed

text \<open>A record of the supported protocol and one of another protocol.\<close>

lemma authority_file_exact_witness:
  "parse_xauthority_file (encode_raw (sample_raw (ascii ''MIT-MAGIC-COOKIE-1'')) @ encode_raw (sample_raw (ascii ''XDM''))) =
    Inr [\<lparr>ae_family = Local, ae_address = ascii ''host'', ae_display_number = ascii ''0'', ae_protocol = MitMagicCookie1,
          ae_cookie = \<lparr>ck_bytes = [0xAA]\<rparr>\<rparr>]"
proof -
  let ?mit = "sample_raw (ascii ''MIT-MAGIC-COOKIE-1'')" and ?xdm = "sample_raw (ascii ''XDM'')"
  let ?raws = "[?mit, ?xdm]"
  have "from_utf8_lossy (ascii ''0'') = ascii ''0''" by (rule lossy_ascii) code_simp
  then have "map record_entry (filter mit_record ?raws) =
      [\<lparr>ae_family = Local, ae_address = ascii ''host'', ae_display_number = ascii ''0'', ae_protocol = MitMagicCookie1,
        ae_cookie = \<lparr>ck_bytes = [0xAA]\<rparr>\<rparr>]"
    by (simp add: sample_raw_mit) (simp add: record_entry_def record_family_def sample_raw_def)
  moreover have "list_all raw_ok ?raws" "\<forall>r \<in> set ?raws. mit_record r \<longrightarrow> rr_cookie r \<noteq> []"
    by (simp_all add: raw_ok_def sample_raw_def)
  moreover have "length (concat (map encode_raw ?raws)) \<le> usize_max"
    by (simp add: encode_raw_def sample_raw_def usize_max_def)
  moreover have "encode_raw ?mit @ encode_raw ?xdm = concat (map encode_raw ?raws)" by simp
  ultimately show ?thesis
    using authority_file_exact [of "concat (map encode_raw ?raws)"] by metis
qed

section \<open>Selection\<close>

lemma better_None: "foldl (better score) best xs = None \<longleftrightarrow> best = None \<and> (\<forall>y \<in> set xs. score y = None)"
  by (induction xs arbitrary: best) (auto simp: better_def split: option.splits)

lemma better_best:
  "foldl (better score) None xs = Some (n, x) \<longleftrightarrow>
    (\<exists>before after. xs = before @ x # after \<and> score x = Some n \<and>
       (\<forall>y \<in> set before. \<forall>m. score y = Some m \<longrightarrow> m \<le> n) \<and> (\<forall>y \<in> set after. \<forall>m. score y = Some m \<longrightarrow> m < n))"
  (is "?best xs n x \<longleftrightarrow> ?is xs n x")
proof (induction xs arbitrary: n x rule: rev_induct)
  case (snoc z xs)
  have split: "?is (xs @ [z]) n x \<longleftrightarrow>
      (x = z \<and> score z = Some n \<and> (\<forall>y \<in> set xs. \<forall>m. score y = Some m \<longrightarrow> m \<le> n)) \<or>
      ?is xs n x \<and> (\<forall>m. score z = Some m \<longrightarrow> m < n)"
  proof
    assume "?is (xs @ [z]) n x"
    then obtain before after where parts: "xs @ [z] = before @ x # after" "score x = Some n"
      "\<forall>y \<in> set before. \<forall>m. score y = Some m \<longrightarrow> m \<le> n" "\<forall>y \<in> set after. \<forall>m. score y = Some m \<longrightarrow> m < n" by blast
    show "(x = z \<and> score z = Some n \<and> (\<forall>y \<in> set xs. \<forall>m. score y = Some m \<longrightarrow> m \<le> n)) \<or>
        ?is xs n x \<and> (\<forall>m. score z = Some m \<longrightarrow> m < n)"
    proof (cases after rule: rev_cases)
      case Nil
      then show ?thesis using parts by simp
    next
      case (snoc after' a)
      then have "xs = before @ x # after'" "a = z" using parts(1) by simp_all
      then show ?thesis using parts snoc by auto
    qed
  next
    assume "(x = z \<and> score z = Some n \<and> (\<forall>y \<in> set xs. \<forall>m. score y = Some m \<longrightarrow> m \<le> n)) \<or>
        ?is xs n x \<and> (\<forall>m. score z = Some m \<longrightarrow> m < n)"
    then show "?is (xs @ [z]) n x"
    proof (elim disjE conjE exE)
      assume "x = z" "score z = Some n" "\<forall>y \<in> set xs. \<forall>m. score y = Some m \<longrightarrow> m \<le> n"
      then show ?thesis by (intro exI [of _ xs] exI [of _ "[]"]) simp
    next
      fix before after assume "xs = before @ x # after" "score x = Some n" "\<forall>m. score z = Some m \<longrightarrow> m < n"
        "\<forall>y \<in> set before. \<forall>m. score y = Some m \<longrightarrow> m \<le> n" "\<forall>y \<in> set after. \<forall>m. score y = Some m \<longrightarrow> m < n"
      then show ?thesis by (intro exI [of _ before] exI [of _ "after @ [z]"]) auto
    qed
  qed
  have bound: "\<forall>y \<in> set xs. \<forall>m. score y = Some m \<longrightarrow> m \<le> k" if "?best xs k w" for k w
    using that unfolding snoc.IH by fastforce
  have step: "foldl (better score) None (xs @ [z]) = better score (foldl (better score) None xs) z" by simp
  show ?case unfolding split step
  proof (cases "foldl (better score) None xs")
    case None
    show "better score (foldl (better score) None xs) z = Some (n, x) \<longleftrightarrow> (x = z \<and> score z = Some n \<and> (\<forall>y \<in> set xs. \<forall>m. score y = Some m \<longrightarrow> m \<le> n)) \<or>
        ?is xs n x \<and> (\<forall>m. score z = Some m \<longrightarrow> m < n)"
      using None [unfolded better_None] snoc.IH [of n x] unfolding None by (auto simp: better_def split: option.splits)
  next
    case (Some kw)
    obtain k w where kw: "kw = (k, w)" by fastforce
    then have best: "?best xs k w" using Some by simp
    have same: "?is xs n x \<longleftrightarrow> n = k \<and> x = w" using snoc.IH [of n x] Some kw by auto
    have "score w = Some k" "w \<in> set xs" using best unfolding snoc.IH by auto
    then have least: "(\<forall>y \<in> set xs. \<forall>m. score y = Some m \<longrightarrow> m \<le> n) \<longleftrightarrow> k \<le> n"
      using bound [OF best] by force
    show "better score (foldl (better score) None xs) z = Some (n, x) \<longleftrightarrow> (x = z \<and> score z = Some n \<and> (\<forall>y \<in> set xs. \<forall>m. score y = Some m \<longrightarrow> m \<le> n)) \<or>
        ?is xs n x \<and> (\<forall>m. score z = Some m \<longrightarrow> m < n)"
      unfolding same least Some kw by (auto simp: better_def split: option.splits)
  qed
qed simp

text \<open>
  The entry with the closest match is used. The selected entry has the number of the display, no entry before it
  in the file matches better, and every entry after it matches worse; any entry with these properties is the selected one.
\<close>
theorem selected_authority_best:
  "select_xauthority_entry entries d context_of = Some e \<longleftrightarrow>
    (\<exists>before after n. entries = before @ e # after \<and> authority_match_score d context_of e = Some n \<and>
       ae_display_number e = show_u16 (xd_display d) \<and>
       (\<forall>y \<in> set before. \<forall>m. authority_match_score d context_of y = Some m \<longrightarrow> m \<le> n) \<and>
       (\<forall>y \<in> set after. \<forall>m. authority_match_score d context_of y = Some m \<longrightarrow> m < n))"
proof -
  have "select_xauthority_entry entries d context_of = Some e \<longleftrightarrow>
      (\<exists>n. foldl (better (authority_match_score d context_of)) None entries = Some (n, e))"
    by (auto simp: select_xauthority_entry_def max_by_score_def)
  moreover have "ae_display_number e = show_u16 (xd_display d)" if "authority_match_score d context_of e = Some n" for n
    using that by (auto simp: authority_match_score_def split: if_splits)
  ultimately show ?thesis unfolding better_best by blast
qed

section \<open>The quoting of the remote shell\<close>

text \<open>
  The remote shell is not part of the program, so it is a parameter: a function that tells for every byte that is left after
  the removal of quotes how it was quoted. What the command relies on is the quoting of the shell command language of
  POSIX (section 2.2): nothing between single quotes, and no byte after a backslash but a newline, has a special
  meaning; between double quotes parameters are expanded; and outside quotes a byte that starts no other construct stands as it is.
\<close>

datatype quoting = Unquoted | Expanded | Literal

definition plain_byte :: "byte \<Rightarrow> bool" where
  "plain_byte b \<longleftrightarrow> b \<notin> {0x27, 0x22, backslash, 0x23, 0x60, 0x3C, 0x0A}"

definition posix_quoting :: "(bytes \<Rightarrow> (quoting \<times> byte) list) \<Rightarrow> bool" where
  "posix_quoting shell \<longleftrightarrow>
     shell [] = [] \<and>
     (\<forall>v rest. 0x27 \<notin> set v \<longrightarrow> shell ([0x27] @ v @ [0x27] @ rest) = map (Pair Literal) v @ shell rest) \<and>
     (\<forall>b rest. b \<noteq> 0x0A \<longrightarrow> shell ([backslash, b] @ rest) = (Literal, b) # shell rest) \<and>
     (\<forall>v rest. list_all (\<lambda>b. b = 0x24 \<or> ascii_alphanumeric b) v \<longrightarrow>
        shell ([0x22] @ v @ [0x22] @ rest) = map (Pair Expanded) v @ shell rest) \<and>
     (\<forall>b rest. plain_byte b \<and> (b = 0x24 \<longrightarrow> rest \<noteq> [] \<and> plain_byte (hd rest)) \<longrightarrow>
        shell ([b] @ rest) = (Unquoted, b) # shell rest)"

lemma posix_quotingD:
  assumes "posix_quoting shell"
  shows "shell [] = []"
    and "0x27 \<notin> set v \<Longrightarrow> shell ([0x27] @ v @ [0x27] @ rest) = map (Pair Literal) v @ shell rest"
    and "b \<noteq> 0x0A \<Longrightarrow> shell ([backslash, b] @ rest) = (Literal, b) # shell rest"
    and "list_all (\<lambda>b. b = 0x24 \<or> ascii_alphanumeric b) v \<Longrightarrow>
      shell ([0x22] @ v @ [0x22] @ rest) = map (Pair Expanded) v @ shell rest"
    and "plain_byte b \<Longrightarrow> b = 0x24 \<longrightarrow> rest \<noteq> [] \<and> plain_byte (hd rest) \<Longrightarrow> shell ([b] @ rest) = (Unquoted, b) # shell rest"
  using assms unfolding posix_quoting_def by blast+

text \<open>A quoted value is literal, whatever its bytes are: at each quote in it the quotes are closed, the quote is escaped, and they are opened again.\<close>

lemma quote_chars_pieces:
  assumes "posix_quoting shell" "0x27 \<notin> set before"
  shows "shell ([0x27] @ before @ quote_chars v @ [0x27] @ rest) = map (Pair Literal) (before @ v) @ shell rest"
  using assms(2)
proof (induction v arbitrary: before)
  case Nil
  then show ?case using posix_quotingD(2) [OF assms(1) Nil] by simp
next
  case (Cons b v)
  show ?case
  proof (cases "b = 0x27")
    case False
    then show ?thesis using Cons.IH [of "before @ [b]"] Cons.prems by simp
  next
    case True
    have "shell ([0x27] @ before @ [0x27] @ [backslash, 0x27] @ [0x27] @ quote_chars v @ [0x27] @ rest) =
        map (Pair Literal) before @ (Literal, 0x27) # shell ([0x27] @ [] @ quote_chars v @ [0x27] @ rest)"
      using posix_quotingD(2) [OF assms(1) Cons.prems] posix_quotingD(3) [OF assms(1), of "0x27"] by simp
    also have "\<dots> = map (Pair Literal) (before @ [0x27] @ v) @ shell rest" using Cons.IH [of "[]"] by simp
    finally show ?thesis using True by simp
  qed
qed

lemma shell_quote_literal: "posix_quoting shell \<Longrightarrow> shell (shell_quote v @ rest) = map (Pair Literal) v @ shell rest"
  using quote_chars_pieces [of shell "[]" v rest] by (simp add: shell_quote_def)

text \<open>Text of the command without quotes is read as it stands.\<close>

fun plain_text :: "bytes \<Rightarrow> bool" where
  "plain_text [] \<longleftrightarrow> True"
| "plain_text (b # bs) \<longleftrightarrow> plain_byte b \<and> (b = 0x24 \<longrightarrow> bs \<noteq> []) \<and> plain_text bs"

lemma plain_text_unquoted:
  "posix_quoting shell \<Longrightarrow> plain_text bs \<Longrightarrow> shell (bs @ rest) = map (Pair Unquoted) bs @ shell rest"
proof (induction bs)
  case (Cons b bs)
  have "plain_byte (hd (bs @ rest))" if "b = 0x24" using Cons.prems(2) that by (cases bs) auto
  then show ?case using Cons posix_quotingD(5) [OF Cons.prems(1), of b "bs @ rest"] by simp
qed simp

text \<open>
  Property C27: nothing a value contains is read by the remote shell as anything but that value. The whole command, as
  any shell with the quoting of POSIX reads it, consists of its fixed text, outside quotes; of the name of the authority file, the
  only parameter that is expanded; and of the display, in both calls of xauth, the name of the protocol and the fake cookie in
  hexadecimal, of which every byte is literal, whatever bytes the display value consists of.
\<close>
theorem remote_xauth_quoted:
  assumes "posix_quoting shell"
  shows "shell (remote_xauth_command u) =
    map (Pair Unquoted) (ascii ''set -eu; command -v xauth >/dev/null 2>&1; authfile=${XAUTHORITY:-$HOME/.Xauthority}; xauth -f '') @
    map (Pair Expanded) (ascii ''$authfile'') @ map (Pair Unquoted) (ascii '' remove '') @
    map (Pair Literal) (ru_display_value u) @
    map (Pair Unquoted) (ascii '' >/dev/null 2>&1 || true; xauth -f '') @
    map (Pair Expanded) (ascii ''$authfile'') @ map (Pair Unquoted) (ascii '' add '') @
    map (Pair Literal) (ru_display_value u) @ map (Pair Unquoted) (ascii '' '') @
    map (Pair Literal) (ssh_name (am_protocol (ru_auth u))) @ map (Pair Unquoted) (ascii '' '') @
    map (Pair Literal) (cookie_to_hex (am_fake_cookie (ru_auth u)))"
proof -
  let ?d = "shell_quote (ru_display_value u)" and ?p = "shell_quote (ssh_name (am_protocol (ru_auth u)))"
  let ?c = "shell_quote (cookie_to_hex (am_fake_cookie (ru_auth u)))"
  let ?t1 = "ascii ''set -eu; command -v xauth >/dev/null 2>&1; authfile=${XAUTHORITY:-$HOME/.Xauthority}; xauth -f ''"
  let ?t2 = "ascii '' remove ''" and ?t3 = "ascii '' >/dev/null 2>&1 || true; xauth -f ''" and ?t4 = "ascii '' add ''"
  let ?f = "ascii ''$authfile''" and ?s = "ascii '' ''"
  have "remote_xauth_command u = ?t1 @ [0x22] @ ?f @ [0x22] @ ?t2 @ ?d @ ?t3 @ [0x22] @ ?f @ [0x22] @ ?t4 @
      ?d @ ?s @ ?p @ ?s @ ?c @ []"
    by (simp add: remote_xauth_command_def remote_xauth_prelude_def remote_xauth_call_def Let_def ascii_def)
  moreover have "plain_text ?t1" "plain_text ?t2" "plain_text ?t3" "plain_text ?t4" "plain_text ?s" by code_simp+
  moreover have "list_all (\<lambda>b. b = 0x24 \<or> ascii_alphanumeric b) ?f" by code_simp
  ultimately show ?thesis
    by (simp only: plain_text_unquoted [OF assms] shell_quote_literal [OF assms] posix_quotingD(1,4) [OF assms])
       (simp only: append_Nil2)
qed

text \<open>A shell that reads quotes in this way.\<close>

fun quote_reader :: "quoting \<Rightarrow> bytes \<Rightarrow> (quoting \<times> byte) list" where
  "quote_reader mode [] = []"
| "quote_reader Unquoted (b # bs) =
     (if b = 0x27 then quote_reader Literal bs
      else if b = 0x22 then quote_reader Expanded bs
      else if b = backslash then (case bs of [] \<Rightarrow> [] | c # cs \<Rightarrow> (Literal, c) # quote_reader Unquoted cs)
      else (Unquoted, b) # quote_reader Unquoted bs)"
| "quote_reader Literal (b # bs) =
     (if b = 0x27 then quote_reader Unquoted bs else (Literal, b) # quote_reader Literal bs)"
| "quote_reader Expanded (b # bs) =
     (if b = 0x22 then quote_reader Unquoted bs else (Expanded, b) # quote_reader Expanded bs)"

lemma quote_reader_posix: "posix_quoting (quote_reader Unquoted)"
proof -
  have "quote_reader Literal (v @ [0x27] @ rest) = map (Pair Literal) v @ quote_reader Unquoted rest" if "0x27 \<notin> set v" for v rest
    using that by (induction v) auto
  moreover have "quote_reader Expanded (v @ [0x22] @ rest) = map (Pair Expanded) v @ quote_reader Unquoted rest"
    if "list_all (\<lambda>b. b = 0x24 \<or> ascii_alphanumeric b) v" for v rest
    using that by (induction v) (auto simp: ascii_alphanumeric_def)
  ultimately show ?thesis by (simp add: posix_quoting_def plain_byte_def)
qed

text \<open>A display value that would run a command if it were not quoted.\<close>

lemma remote_xauth_quoted_witness:
  "filter (\<lambda>(q, b). q = Literal) (quote_reader Unquoted (remote_xauth_command
      \<lparr>ru_display_value = ascii ''x'' @ [0x27] @ ascii ''; reboot #'', ru_auth = sample_auth\<rparr>)) =
    map (Pair Literal) (ascii ''x'' @ [0x27] @ ascii ''; reboot #'' @ ascii ''x'' @ [0x27] @ ascii ''; reboot #'' @
      ascii ''MIT-MAGIC-COOKIE-1'' @ cookie_to_hex \<lparr>ck_bytes = [0xAA]\<rparr>)"
  unfolding remote_xauth_quoted [OF quote_reader_posix]
  by (simp add: filter_map comp_def sample_auth_def with_fake_cookie_def ssh_name_def)

section \<open>Records of xauth nlist\<close>

text \<open>
  A record of the wildcard family has an empty address, which xauth nlist prints as an empty field between two spaces. The line is
  split at runs of white space, so that field is lost and the whole output is refused; the case of an empty address in
  \<open>parse_nlist_line\<close> is never reached.
\<close>

lemma nlist_wildcard_refused:
  "parse_nlist_line (ascii ''ffff 0000  0001 30 0012 4d49542d4d414749432d434f4f4b49452d31 0002 aabb'') =
     Inl (InvalidXauthRecord (ascii ''nlist record has too few fields''))"
  by code_simp
definition sample_entry_of :: "authority_family \<Rightarrow> authority_entry" where
  "sample_entry_of f =
     \<lparr>ae_family = f, ae_address = [], ae_display_number = ascii ''7'', ae_protocol = MitMagicCookie1, ae_cookie = \<lparr>ck_bytes = [1]\<rparr>\<rparr>"

lemma selected_authority_best_witness:
  "select_xauthority_entry [sample_entry_of Wild, sample_entry_of Local, sample_entry_of Wild]
     \<lparr>xd_transport = Unix, xd_display = 7, xd_screen = 0\<rparr> \<lparr>ac_local_hostname = None, ac_resolved_addresses = []\<rparr> =
   Some (sample_entry_of Local)"
proof -
  let ?d = "\<lparr>xd_transport = Unix, xd_display = 7, xd_screen = 0\<rparr>" and ?c = "\<lparr>ac_local_hostname = None, ac_resolved_addresses = []\<rparr>"
  have number: "show_u16 7 = ascii ''7''" by code_simp
  then have "authority_match_score ?d ?c (sample_entry_of Wild) = Some 1" "authority_match_score ?d ?c (sample_entry_of Local) = Some 4"
    by (simp_all add: authority_match_score_def sample_entry_of_def local_family_score_def display_looks_local_def)
  then show ?thesis
    unfolding selected_authority_best
    by (intro exI [of _ "[sample_entry_of Wild]"] exI [of _ 4]) (simp add: number, simp add: sample_entry_of_def)
qed


end
