(* ===== verification/Spec2Isabelle.thy ===== *)
theory Spec2Isabelle
  imports Mosh_Session Tmux_Layout Tmux_Stream Ssh_Reconnect Ssh_Connect_Plan Editor_Search Mosh_Predict Modem_Zdelivery X11_Authority
begin

text \<open>
  A verification library for the core logic of OxideTerm, a terminal workbench written in Rust: an SSH
  client with reconnection and jump hosts, a Mosh client, a tmux control-mode client, SFTP, forwarding,
  an editor for remote files, and a user interface over a vendored gpui. The library models the parts
  whose correctness does not rest on the operating system or on a view.

  The parts and how they interact.

  Mosh (\<open>crates/fernomade\<close>). A client session (\<open>session\<close>) sends key presses and window sizes as numbered
  states and keeps them until the server acknowledges them. Every update is an instruction list
  (\<open>state\<close>) encoded with protobuf and zlib (\<open>wire/message.rs\<close>), cut into fragments
  (\<open>wire/fragment.rs\<close>) and sealed with an AEAD whose nonce is a direction bit and a counter
  (\<open>crypto\<close>). What arrives goes the way up: open, replay window, reassembly, decoding, and a new numbered
  terminal state. \<open>Mosh_Crypto\<close>, \<open>Mosh_Fragment\<close>, \<open>Mosh_Message\<close>, \<open>Mosh_State\<close> and \<open>Mosh_Session\<close>
  model these in this order, each importing the ones it calls; \<open>client_protocol\<close> of \<open>Mosh_Session\<close> is
  the whole client. While the server has not answered, the overlay of \<open>predict\<close> shows what was typed and takes
  it back when the answer comes; \<open>Mosh_Predict\<close> models it.

  tmux (\<open>crates/oxideterm-tmux\<close>). A byte stream switches between plain terminal output and control mode
  (\<open>stream.rs\<close>); in control mode every line is parsed into blocks and notifications (\<open>protocol.rs\<close>,
  \<open>notification.rs\<close>), with escaped output (\<open>output.rs\<close>), identifiers (\<open>ids.rs\<close>) and layout trees
  (\<open>layout.rs\<close>). The theories are \<open>Tmux_Codec\<close>, \<open>Tmux_Layout\<close>, \<open>Tmux_Protocol\<close> and \<open>Tmux_Stream\<close>.

  SSH (\<open>crates/oxideterm-ssh\<close>). The reconnection store (\<open>reconnect.rs\<close>, \<open>Ssh_Reconnect\<close>) drives one job
  per lost node through its phases with a bounded number of attempts and an audit log; the connection
  plan (\<open>session_tree_plan.rs\<close>, \<open>Ssh_Connect_Plan\<close>) connects a chain of hops, each after its host key is
  verified or accepted. Nothing is assumed of the caller: what the plan asks for is stated for every sequence of its operations.

  Editor (\<open>crates/oxideterm-editor-core\<close>). A piece table holds the text (\<open>piece_table.rs\<close>,
  \<open>Editor_Pieces\<close>); edits, ranges and the incremental line index are in \<open>Editor_Lines\<close>
  (\<open>edit.rs\<close>, \<open>types.rs\<close>, \<open>line_index.rs\<close>); the buffer with its history, dirty flag, cache, positions and
  lines, and the cursor, in \<open>Editor_Buffer\<close> (\<open>buffer.rs\<close>, \<open>selection.rs\<close>, \<open>cursor.rs\<close>); the streaming
  search and replace-all in \<open>Editor_Search\<close> (\<open>search.rs\<close>).

  File transfer in the terminal (\<open>crates/oxideterm-modem-transfer\<close>). A filter between the session and the
  screen watches the output for the start of an X, Y or ZMODEM transfer (\<open>consumer.rs\<close>, \<open>detector.rs\<close>;
  \<open>Modem_Consumer\<close>, \<open>Modem_Detect\<close>) and from then on gives the bytes of the session to a pair of bounded queues
  (\<open>stream.rs\<close>, \<open>Modem_Stream\<close>), at whose other end a thread runs the protocol. The protocol engines are built
  from checksums (\<open>crc.rs\<close>, \<open>Modem_Crc\<close>), XMODEM blocks and the metadata block of YMODEM (\<open>xymodem.rs\<close>,
  \<open>Modem_Block\<close>), headers, frames and escapes (\<open>zmodem.rs\<close>, \<open>Modem_Zmodem\<close>), and are the senders and receivers of
  \<open>xymodem_transfer.rs\<close> (\<open>Modem_Xymodem\<close>) and \<open>zmodem_transfer.rs\<close> (\<open>Modem_Ztransfer\<close>, with what a
  conversation of a sender and a receiver delivers in \<open>Modem_Zdelivery\<close>).

  X11 forwarding (\<open>crates/oxideterm-x11-forwarding\<close>). The remote side is given a fake cookie; the setup packet of
  every X client is buffered, must show that cookie, and is forwarded with the real one (\<open>auth.rs\<close>, \<open>protocol.rs\<close>,
  \<open>registry.rs\<close>, \<open>setup_buffer.rs\<close>; \<open>X11_Setup\<close>). \<open>X11_Authority\<close> models where the display is and which
  authority entry holds its cookie (\<open>display.rs\<close>, \<open>xauthority.rs\<close>, \<open>xauth.rs\<close>) and the command that stores the fake cookie
  (\<open>remote_xauth.rs\<close>).

  How the code is represented. A struct is a record and an enum a datatype with the same constructors;
  a Rust function has a definition of its name, or of its type and name where a name is used twice. A
  \<open>u8\<close>, \<open>u16\<close>, \<open>u32\<close> or \<open>u64\<close> is a word of that width and its arithmetic the one the code chose
  (wrapping, checked or saturating); a length or an index in memory is a natural number, compared with
  \<open>usize_max\<close> where the code checks it. Strings are their bytes. \<open>Result\<close> is a sum with the error on the
  left; an operation that can panic returns an option whose \<open>None\<close> is the panic. A \<open>Vec\<close> used as a stack
  has its top first. Ordered maps are the sorted association lists of \<open>Oxide_Prelude\<close>, used through the
  interface \<open>ordered_map\<close>. Code of other packages is a parameter with a hypothesis that states its
  documented behaviour: the AEAD cipher, zlib, the derived protobuf codec, the terminal parsers vt100 and
  vte, memchr, grapheme segmentation, the table of alphanumeric characters and the comparison in constant time. Two receivers of bytes
  are parameters as well: the terminal that shows an echo, which reads the control sequences the overlay writes as ECMA-48
  defines them (\<open>reads_controls\<close>), and the remote shell, which reads quotes as POSIX defines them (\<open>posix_quoting\<close>). Clock readings, fresh
  identifiers, iteration orders of hash maps and whether an \<open>Arc\<close> is shared are arguments. The line a modem engine
  talks on (\<open>ModemIo\<close>) is the list of events its reads will meet, a byte that arrives or a timeout, with what was written; a
  conversation of two engines (\<open>talks\<close>) is a run of each on the events the other's writes give. Every method of the
  transfer stream holds one lock throughout and is one step; \<open>world_step\<close> interleaves the steps of the thread and the
  session. Reads and writes of local files do not fail, paths are Unix paths, and the lossy conversion of UTF-8 is written out.

  What the lemmas show. \<open>Oxide_Prelude\<close>: byte encodings, ordered maps, and the interfaces
  \<open>invariant_machine\<close> and \<open>monotone_machine\<close>, by which an invariant of every step is one of every run.
  \<open>Mosh_Crypto\<close>: keys and directions round-trip, sealed packets open, nonces never repeat.
  \<open>Mosh_Fragment\<close>: any order and duplication of the fragments of a message reassembles it.
  \<open>Mosh_Message\<close>: the scanners accept exactly the protobuf wire format, and updates round-trip.
  \<open>Mosh_State\<close>: a difference applied to its base gives the target, application is transactional, and
  history stays within its limits. \<open>Mosh_Session\<close>: the invariant of the client under every call, from
  which it never panics, keeps what no packet has acknowledged, refuses replays and only moves forward.
  \<open>Tmux_Layout\<close>: the parser ends within its depth and node limits and inverts printing.
  \<open>Tmux_Protocol\<close> and \<open>Tmux_Stream\<close>: blocks are framed, and how the bytes are split over reads does not
  matter. \<open>Ssh_Reconnect\<close>: bounds on jobs and attempts, and audit entries that close. \<open>Ssh_Connect_Plan\<close>:
  the plan passes the hops in order and asks to connect one exactly when a decision about its own host key was recorded.
  \<open>Editor_Pieces\<close> and \<open>Editor_Lines\<close>: the table and the index refine the flat text. \<open>Editor_Buffer\<close>: the
  buffer is a simulation of a history of texts (interface \<open>total_simulation\<close>), so that it never panics and
  a clean buffer holds the saved text. \<open>Editor_Search\<close>: searching the pieces finds what searching the
  text finds. \<open>Mosh_Predict\<close>: the bytes written for predictions and those of the local reconciliation
  leave the screen as it was, exactly where the row had room for the prediction.
  \<open>Modem_Crc\<close> and \<open>Modem_Block\<close>: the checksums find every burst of their width, blocks and metadata round-trip.
  \<open>Modem_Xymodem\<close>: a file arrives whole over a line that damages up to nine copies of every block, and a batch over a line
  that does not. \<open>Modem_Zdelivery\<close>: a batch arrives whole, and whatever the peer sends, a file that is reported as
  received has the announced size and the bytes of the frames that matched their position and checksum. \<open>Modem_Stream\<close>: under any
  interleaving the transport is given a prefix of what was written, in order, and the counters are exact. \<open>Modem_Detect\<close>: how
  the output is cut does not matter to the detection. \<open>Modem_Consumer\<close>: output is neither lost nor reordered, what is held is
  either at most three bytes with a deadline or an incomplete ZMODEM header, headers start
  transfers and the payload of a control string never does. \<open>X11_Setup\<close>: only the fake cookie is replaced, by the real one and
  in nothing else; a refusal does not depend on the real cookie, a cookie for one connection opens one, and how the packet is cut does
  not matter. \<open>X11_Authority\<close>: the file reader accepts exactly the format, the best entry is used, and the remote shell reads
  every byte of every value literally.

  Bounds. The layout parser is given \<open>2 * length + 2\<close> units of fuel, which its recursion, at least one byte
  per two calls, cannot use up; the rounds of the tmux stream, the window search and the chunking of a
  piece are recursive functions with a measure and proved to end. The modem receivers are recursive in the events that are left, as
  every round reads at least one, and the retries of the senders in the ten attempts the code allows. Every other loop is structural.

  Not modelled. Socket and task loops (the Mosh runtime, the SSH transport over russh, forwarding, SFTP
  workers), views and gpui, serde documents and the keychain, configuration, the clients of external
  services, and vendored packages: they are input and output around the parts above or code of others, and have no state whose
  correctness could be stated without the operating system, the network or a view. Within the modelled files,
  Debug and Display output, zeroisation of secrets, plain accessors, capacity management, locks and wake callbacks, the
  floating-point anchor mapping of the editor's change log, and its UTF-16 and word helpers have no definition. The frames of
  trzsz and the merge of cloud documents could be modelled in the same way and are not.
\<close>

end
